(* ===== verification/Prelude.thy ===== *)
theory Prelude
  imports Main "HOL-Library.Word"
begin

text \<open>
  What the components share: the results of Go operations that can panic or hang, counting
  loops over machine integers, slices indexed out of range, and the facts about words, lists
  and maps the component proofs use.

  Go's \<open>uint\<close> is a \<open>64 word\<close> (the repository targets amd64), \<open>int8\<close> an \<open>8 word\<close> read with
  \<open>sint\<close>, \<open>uint8\<close> an \<open>8 word\<close>, \<open>uint32\<close> a \<open>32 word\<close> and \<open>uint64\<close> a \<open>64 word\<close>.
\<close>

section \<open>Results\<close>

text \<open>
  A run-time panic ends the goroutine, and a loop whose guard can never fail never ends.
  Both are values of the model, so that no operation is silently total.
\<close>

datatype fault = IndexOutOfRange | NilDereference | DivideByZero | Panic string | Diverges

type_synonym 'a result = "fault + 'a"

abbreviation Ok :: "'a \<Rightarrow> 'a result" where
  "Ok \<equiv> Inr"

abbreviation Fault :: "fault \<Rightarrow> 'a result" where
  "Fault \<equiv> Inl"

definition bind_result :: "'a result \<Rightarrow> ('a \<Rightarrow> 'b result) \<Rightarrow> 'b result" where
  "bind_result r f = (case r of Inl e \<Rightarrow> Inl e | Inr x \<Rightarrow> f x)"

lemma bind_result_simps [simp]:
  "bind_result (Inl e) f = Inl e"
  "bind_result (Inr x) f = f x"
  by (simp_all add: bind_result_def)

lemma bind_result_Inr_iff:
  "bind_result r f = Inr y \<longleftrightarrow> (\<exists>x. r = Inr x \<and> f x = Inr y)"
  by (cases r) auto

lemma bind_result_cong [fundef_cong]:
  assumes "r = r'" and "\<And>x. r' = Inr x \<Longrightarrow> f x = f' x"
  shows "bind_result r f = bind_result r' f'"
  using assms by (cases r') auto

text \<open>Reading a slice at an index: Go panics where HOL's \<open>xs ! i\<close> is unspecified.\<close>

definition index :: "'a list \<Rightarrow> int \<Rightarrow> 'a result" where
  "index xs i = (if 0 \<le> i \<and> i < int (length xs) then Ok (xs ! nat i) else Fault IndexOutOfRange)"

lemma index_Inr_iff: "index xs i = Inr x \<longleftrightarrow> 0 \<le> i \<and> nat i < length xs \<and> x = xs ! nat i"
  by (auto simp: index_def)

lemma index_ok [simp]: "0 \<le> i \<Longrightarrow> i < int (length xs) \<Longrightarrow> index xs i = Inr (xs ! nat i)"
  by (simp add: index_def)

lemma index_nat [simp]: "n < length xs \<Longrightarrow> index xs (int n) = Inr (xs ! n)"
  by (simp add: index_def)

definition update_index :: "'a list \<Rightarrow> int \<Rightarrow> 'a \<Rightarrow> 'a list result" where
  "update_index xs i x =
     (if 0 \<le> i \<and> i < int (length xs) then Ok (xs[nat i := x]) else Fault IndexOutOfRange)"

lemma update_index_Inr_iff:
  "update_index xs i x = Inr ys \<longleftrightarrow> 0 \<le> i \<and> nat i < length xs \<and> ys = xs[nat i := x]"
  by (auto simp: update_index_def)

lemma update_index_ok [simp]:
  "0 \<le> i \<Longrightarrow> i < int (length xs) \<Longrightarrow> update_index xs i x = Inr (xs[nat i := x])"
  by (simp add: update_index_def)

section \<open>Three-way comparison\<close>

text \<open>
  Go code orders values by a method that returns -1, 0 or 1. The interface: the laws such a
  method keeps; the lemmas: it is a total order, and each answer says what it should.
\<close>

locale go_compare =
  fixes cmp :: "'a \<Rightarrow> 'a \<Rightarrow> int"
  assumes cmp_range: "cmp a b = - 1 \<or> cmp a b = 0 \<or> cmp a b = 1"
    and cmp_eq: "cmp a b = 0 \<longleftrightarrow> a = b"
    and cmp_swap: "cmp b a = - cmp a b"
    and cmp_trans: "cmp a b \<le> 0 \<Longrightarrow> cmp b c \<le> 0 \<Longrightarrow> cmp a c \<le> 0"
begin

lemma cmp_refl: "cmp a a = 0"
  by (simp add: cmp_eq)

lemma cmp_less: "cmp a b = - 1 \<longleftrightarrow> cmp a b \<le> 0 \<and> \<not> cmp b a \<le> 0"
  using cmp_range [of a b] cmp_swap [of a b] by auto

lemma cmp_antisym: "cmp a b \<le> 0 \<Longrightarrow> cmp b a \<le> 0 \<Longrightarrow> a = b"
  using cmp_swap [of a b] cmp_eq [of a b] by simp

lemma cmp_total: "cmp a b \<le> 0 \<or> cmp b a \<le> 0"
  using cmp_swap [of a b] by arith

lemma cmp_greater: "cmp a b = 1 \<longleftrightarrow> cmp b a = - 1"
  using cmp_swap [of a b] by arith

lemmas cmp_order = cmp_less cmp_refl cmp_trans cmp_antisym cmp_total

end

section \<open>Lists\<close>

lemma length_filter_neq:
  "distinct xs \<Longrightarrow> x \<in> set xs \<Longrightarrow> Suc (length (filter (\<lambda>y. y \<noteq> x) xs)) = length xs"
proof (induction xs)
  case (Cons y ys)
  show ?case
  proof (cases "x = y")
    case True
    then have "filter (\<lambda>z. z \<noteq> x) ys = ys"
      using Cons.prems by (auto simp: filter_id_conv)
    with True show ?thesis by simp
  qed (use Cons in auto)
qed simp

section \<open>Machine words\<close>

lemma unat_Suc_word:
  fixes i n :: "'a::len word"
  assumes "i < n"
  shows "unat (i + 1) = Suc (unat i)"
proof -
  have "i + 1 \<noteq> 0"
    using assms by (metis add.commute add_0 add_diff_cancel_right' diff_0 linorder_not_less word_n1_ge)
  then show ?thesis
    using unatSuc [of i] by (simp add: add.commute)
qed

lemma word_distance_decreases:
  fixes i n :: "'a::len word"
  assumes "i < n"
  shows "unat n - unat (i + 1) < unat n - unat i"
  using assms unat_Suc_word [OF assms] by (simp add: word_less_nat_alt)

lemma word_less_Suc_iff:
  fixes i n :: "'a::len word"
  assumes "n \<noteq> - 1"
  shows "i < n + 1 \<longleftrightarrow> i \<le> n"
proof -
  have "n < - 1"
    using assms by (simp add: order.not_eq_order_implies_strict)
  then have "unat (n + 1) = Suc (unat n)"
    by (rule unat_Suc_word)
  then show ?thesis
    by (simp add: word_less_nat_alt word_le_nat_alt less_Suc_eq_le)
qed

lemma word_less_Suc_bounded:
  fixes i j n :: "'a::len word"
  assumes "j < n"
  shows "i < j + 1 \<longleftrightarrow> i \<le> j"
proof (rule word_less_Suc_iff)
  show "j \<noteq> - 1" using assms word_n1_ge [of n] by auto
qed

lemma word_Suc_le_iff:
  fixes i j n :: "'a::len word"
  assumes "i < n"
  shows "i + 1 \<le> j \<longleftrightarrow> i < j"
  using unat_Suc_word [OF assms] by (simp add: word_less_nat_alt word_le_nat_alt Suc_le_eq)

lemma word_le_cases_Suc:
  fixes i j n :: "'a::len word"
  assumes "i < n"
  shows "i \<le> j \<longleftrightarrow> j = i \<or> i + 1 \<le> j"
  by (simp only: word_Suc_le_iff [OF assms]) (auto simp only: order.order_iff_strict)

lemma signed_take_bit_small:
  assumes "0 \<le> (k :: int)" and "k < 2 ^ n"
  shows "signed_take_bit n k = k"
proof (rule signed_take_bit_int_eq_self)
  have "- (2 ^ n) \<le> (0 :: int)" by simp
  with assms(1) show "- (2 ^ n) \<le> k" by (rule order_trans [rotated])
qed (rule assms(2))

lemma unat_of_nat_small: "n < 2 ^ 63 \<Longrightarrow> unat (of_nat n :: 64 word) = n"
  by (simp add: unat_of_nat)

lemma sint_eq_unat:
  fixes w :: "64 word"
  assumes "unat w < 2 ^ 63"
  shows "sint w = int (unat w)"
proof -
  have "int (unat w) < int (2 ^ 63)" using assms by (simp only: of_nat_less_iff)
  then have "uint w < 2 ^ 63" by simp
  have "sint w = signed_take_bit 63 (uint w)" by (simp add: sint_uint)
  also have "\<dots> = uint w" by (rule signed_take_bit_small [OF _ \<open>uint w < 2 ^ 63\<close>]) simp
  finally show ?thesis by simp
qed

section \<open>Counting loops\<close>

text \<open>
  \<open>for i := a; i < n; i++ { body }\<close> on an unsigned integer: the guard keeps \<open>i\<close> below \<open>n\<close>, so
  the increment never wraps and the loop ends.
\<close>

function for_lt :: "'a::len word \<Rightarrow> 'a word \<Rightarrow> ('a word \<Rightarrow> 's \<Rightarrow> 's) \<Rightarrow> 's \<Rightarrow> 's" where
  "for_lt i n body s = (if i < n then for_lt (i + 1) n body (body i s) else s)"
  by pat_completeness auto
termination
proof (relation "measure (\<lambda>(i, n, body, s). unat n - unat i)")
  fix i n :: "'a word" and body :: "'a word \<Rightarrow> 's \<Rightarrow> 's" and s
  assume "i < n"
  then show "((i + 1, n, body, body i s), i, n, body, s)
      \<in> measure (\<lambda>(i, n, body, s). unat n - unat i)"
    unfolding in_measure prod.case by (rule word_distance_decreases)
qed (rule wf_measure)

declare for_lt.simps [simp del]

lemma for_lt_done [simp]: "\<not> i < n \<Longrightarrow> for_lt i n body s = s"
  by (simp add: for_lt.simps)

lemma for_lt_step: "i < n \<Longrightarrow> for_lt i n body s = for_lt (i + 1) n body (body i s)"
  by (subst for_lt.simps) simp

text \<open>The loop invariant rule: \<open>I j s\<close> says that the body is about to run for \<open>j\<close>.\<close>

lemma for_lt_invariant:
  assumes "i \<le> n" and "I i s"
    and "\<And>j s. i \<le> j \<Longrightarrow> j < n \<Longrightarrow> I j s \<Longrightarrow> I (j + 1) (body j s)"
  shows "I n (for_lt i n body s)"
  using assms
proof (induction i n body s rule: for_lt.induct)
  case (1 i n body s)
  show ?case
  proof (cases "i < n")
    case True
    have "I n (for_lt (i + 1) n body (body i s))"
    proof (rule "1.IH" [OF True])
      show "i + 1 \<le> n" using True by (simp add: word_Suc_le_iff [OF True])
      show "I (i + 1) (body i s)" using "1.prems" True by simp
      show "I (j + 1) (body j s)" if "i + 1 \<le> j" "j < n" "I j s" for j s
        using that "1.prems"(3) word_le_cases_Suc [OF True] by blast
    qed
    then show ?thesis by (simp add: for_lt_step True)
  next
    case False
    then show ?thesis using "1.prems" by simp
  qed
qed

lemma for_lt_invariant_const:
  assumes "P s" and "\<And>j s. i \<le> j \<Longrightarrow> j < n \<Longrightarrow> P s \<Longrightarrow> P (body j s)"
  shows "P (for_lt i n body s)"
proof (cases "i \<le> n")
  case True
  show ?thesis
    by (rule for_lt_invariant [where I = "\<lambda>_. P", OF True]) (use assms in auto)
next
  case False
  then show ?thesis using assms by simp
qed

text \<open>
  \<open>for i := a; i <= n; i++ { body }\<close>: the loop ends unless \<open>n\<close> is the greatest value of the
  type, when the guard holds for every \<open>i\<close> and the increment wraps around.
\<close>

partial_function (option) for_le ::
  "'a::len word \<Rightarrow> 'a word \<Rightarrow> ('a word \<Rightarrow> 's \<Rightarrow> 's) \<Rightarrow> 's \<Rightarrow> 's option" where
  "for_le i n body s = (if i \<le> n then for_le (i + 1) n body (body i s) else Some s)"

declare for_le.simps [code]

lemma for_le_returns:
  fixes i n :: "'a::len word" and body :: "'a word \<Rightarrow> 'b \<Rightarrow> 'b"
  assumes "for_le i n body s = Some r"
  shows "n \<noteq> - 1"
  using assms
proof (elim for_le.raw_induct [where P = "\<lambda>i n body s r. n \<noteq> - 1", rotated])
  fix f and i n :: "'a word" and body :: "'a word \<Rightarrow> 'b \<Rightarrow> 'b" and s r
  assume IH: "\<And>i n body s r. f i n body s = Some r \<Longrightarrow> n \<noteq> - 1"
    and eq: "(if i \<le> n then f (i + 1) n body (body i s) else Some s) = Some r"
  show "n \<noteq> - 1"
  proof (cases "i \<le> n")
    case True
    with eq IH show ?thesis by simp
  next
    case False
    then show ?thesis using word_n1_ge [of i] by auto
  qed
qed

lemma for_le_diverges: "for_le i (- 1) body s = None"
  by (cases "for_le i (- 1) body s") (auto dest: for_le_returns)

lemma for_le_eq_for_lt:
  assumes "n \<noteq> - 1"
  shows "for_le i n body s = Some (for_lt i (n + 1) body s)"
proof (induction i "n + 1" body s rule: for_lt.induct)
  case (1 i body s)
  show ?case
  proof (cases "i < n + 1")
    case True
    then have "i \<le> n" by (simp add: word_less_Suc_iff [OF assms])
    then show ?thesis
      using "1.hyps" [OF True] by (subst for_le.simps) (simp add: for_lt_step True)
  next
    case False
    then have "\<not> i \<le> n" by (simp add: word_less_Suc_iff [OF assms])
    then show ?thesis using False by (subst for_le.simps) simp
  qed
qed

lemma for_le_Some_iff:
  "for_le i n body s = Some r \<longleftrightarrow> n \<noteq> - 1 \<and> r = for_lt i (n + 1) body s"
  by (cases "n = - 1") (auto simp: for_le_diverges for_le_eq_for_lt)

text \<open>Both loops run their body on the numbers from \<open>i\<close> up, in order.\<close>

definition word_upto :: "'a::len word \<Rightarrow> 'a word \<Rightarrow> 'a word list" where
  "word_upto i n = map of_nat [unat i..<Suc (unat n)]"

lemma set_word_upto [simp]: "set (word_upto i n) = {i..n}"
proof -
  have "j \<in> of_nat ` {unat i..<Suc (unat n)} \<longleftrightarrow> j \<in> {i..n}" for j
  proof
    assume "j \<in> of_nat ` {unat i..<Suc (unat n)}"
    then obtain k where k: "j = of_nat k" "unat i \<le> k" "k \<le> unat n" by auto
    have "k < 2 ^ LENGTH('a)" using k(3) unsigned_less by (rule le_less_trans)
    then have "unat j = k" unfolding k(1) by (simp add: unat_of_nat take_bit_nat_eq_self)
    then show "j \<in> {i..n}" using k by (simp add: word_le_nat_alt)
  next
    assume "j \<in> {i..n}"
    then have "unat j \<in> {unat i..<Suc (unat n)}" by (simp add: word_le_nat_alt)
    then show "j \<in> of_nat ` {unat i..<Suc (unat n)}" by (intro image_eqI [of _ _ "unat j"]) simp_all
  qed
  then show ?thesis unfolding word_upto_def set_map set_upt by (rule set_eqI)
qed

lemma distinct_word_upto [simp]: "distinct (word_upto i n)"
  unfolding word_upto_def distinct_map
proof
  show "inj_on (of_nat :: nat \<Rightarrow> 'a word) (set [unat i..<Suc (unat n)])"
  proof (rule inj_on_inverseI)
    fix k assume "k \<in> set [unat i..<Suc (unat n)]"
    then have "k \<le> unat n" by (auto split: if_splits)
    then have "k < 2 ^ LENGTH('a)" using unsigned_less by (rule le_less_trans)
    then show "unat (of_nat k :: 'a word) = k" by (simp add: unat_of_nat take_bit_nat_eq_self)
  qed
qed simp

lemma for_lt_fold: "for_lt i n body s = fold body (map of_nat [unat i..<unat n]) s"
proof (induction i n body s rule: for_lt.induct)
  case (1 i n body s)
  show ?case
  proof (cases "i < n")
    case True
    then have "[unat i..<unat n] = unat i # [Suc (unat i)..<unat n]"
      by (simp add: upt_conv_Cons word_less_nat_alt)
    then show ?thesis using "1.IH" [OF True] by (simp add: for_lt_step True unat_Suc_word [OF True])
  next
    case False
    then have "unat n \<le> unat i" by (simp add: word_less_nat_alt)
    then show ?thesis using False by simp
  qed
qed

lemma for_le_fold:
  "for_le i n body s = (if n = - 1 then None else Some (fold body (word_upto i n) s))"
proof (cases "n = - 1")
  case False
  then have "n < n + 1" by (simp add: word_less_Suc_iff)
  then have "unat (n + 1) = Suc (unat n)" by (rule unat_Suc_word)
  with False show ?thesis by (simp add: for_le_eq_for_lt for_lt_fold word_upto_def)
qed (simp add: for_le_diverges)

lemma fold_append_map: "fold (\<lambda>x acc. acc @ [f x]) xs acc = acc @ map f xs"
  by (induction xs arbitrary: acc) simp_all

end
