(* ===== verification/Grp.thy ===== *)
theory Grp
  imports Prelude
begin

unbundle bit_operations_syntax

text \<open>
  Package \<open>grp\<close> (\<open>src/grp/\<close>): replica identifiers and their order, nodes, the node map with its
  epoch vector, counts and quorum size (\<open>node.go\<close>), and the part of the group manager that is
  state (\<open>grpmgr_imp.go\<close>). A Go map is a list of key-value pairs with distinct keys; the list
  order stands for the iteration order, which Go leaves open, so what is proved holds for
  every order.
\<close>

section \<open>Replica identifiers\<close>

type_synonym epoch = "64 word"

datatype gid = ID (PaxosID: "8 word") (Epoch: epoch)

definition NewIDFromInt :: "8 word \<Rightarrow> 64 word \<Rightarrow> gid" where
  "NewIDFromInt paxosID epoch = ID paxosID epoch"

definition MinPaxosID :: "8 word" where
  "MinPaxosID = - 1"

definition MaxPaxosID :: "8 word" where
  "MaxPaxosID = 127"

definition MinID :: gid where
  "MinID = ID MinPaxosID 0"

definition MaxID :: gid where
  "MaxID = ID MaxPaxosID 0"

definition UndefinedID :: gid where
  "UndefinedID = NewIDFromInt (- 1) 0"

text \<open>\<open>PaxosID\<close> is an \<open>int8\<close>: the comparison is signed. \<open>Epoch\<close> is a \<open>uint64\<close>.\<close>

definition CompareTo :: "gid \<Rightarrow> gid \<Rightarrow> int" where
  "CompareTo i otherID =
     (if sint (PaxosID i) > sint (PaxosID otherID) then 1
      else if sint (PaxosID i) < sint (PaxosID otherID) then - 1
      else if Epoch i > Epoch otherID then 1
      else if Epoch i < Epoch otherID then - 1
      else 0)"

definition PxInt :: "gid \<Rightarrow> int" where
  "PxInt i = sint (PaxosID i)"

interpretation id_cmp: go_compare CompareTo
proof
  fix a b c :: gid
  show "CompareTo a b = - 1 \<or> CompareTo a b = 0 \<or> CompareTo a b = 1"
    by (simp add: CompareTo_def)
  show "CompareTo a b = 0 \<longleftrightarrow> a = b"
    by (cases a; cases b) (auto simp: CompareTo_def dest: signed_word_eqI)
  show "CompareTo b a = - CompareTo a b"
    by (auto simp: CompareTo_def)
  show "CompareTo a b \<le> 0 \<Longrightarrow> CompareTo b c \<le> 0 \<Longrightarrow> CompareTo a c \<le> 0"
    by (auto simp: CompareTo_def split: if_splits)
qed

instantiation gid :: linorder
begin

definition less_eq_gid :: "gid \<Rightarrow> gid \<Rightarrow> bool" where
  "less_eq_gid a b \<longleftrightarrow> CompareTo a b \<le> 0"

definition less_gid :: "gid \<Rightarrow> gid \<Rightarrow> bool" where
  "less_gid a b \<longleftrightarrow> CompareTo a b = - 1"

instance
proof
  fix a b c :: gid
  show "(a < b) = (a \<le> b \<and> \<not> b \<le> a)"
    unfolding less_eq_gid_def less_gid_def by (rule id_cmp.cmp_less)
  show "a \<le> a"
    unfolding less_eq_gid_def by (simp add: id_cmp.cmp_refl)
  show "a \<le> b \<Longrightarrow> b \<le> c \<Longrightarrow> a \<le> c"
    unfolding less_eq_gid_def by (rule id_cmp.cmp_trans)
  show "a \<le> b \<Longrightarrow> b \<le> a \<Longrightarrow> a = b"
    unfolding less_eq_gid_def by (rule id_cmp.cmp_antisym)
  show "a \<le> b \<or> b \<le> a"
    unfolding less_eq_gid_def by (rule id_cmp.cmp_total)
qed

end

lemma CompareTo_simps [simp]:
  "CompareTo a b = - 1 \<longleftrightarrow> a < b"
  "CompareTo a b = 0 \<longleftrightarrow> a = b"
  "CompareTo a b = 1 \<longleftrightarrow> b < a"
  "CompareTo a b < 1 \<longleftrightarrow> a \<le> b"
  using id_cmp.cmp_range [of a b]
  by (auto simp: less_gid_def less_eq_gid_def id_cmp.cmp_eq id_cmp.cmp_greater)

section \<open>Nodes\<close>

record Node =
  IP :: string
  PaxosPort :: string
  ClientPort :: string
  Proposer :: bool
  Acceptor :: bool
  Learner :: bool

definition NewNode :: "string \<Rightarrow> string \<Rightarrow> string \<Rightarrow> bool \<Rightarrow> bool \<Rightarrow> bool \<Rightarrow> Node" where
  "NewNode ip pp cp prop acc lrn =
     \<lparr>IP = ip, PaxosPort = pp, ClientPort = cp, Proposer = prop, Acceptor = acc, Learner = lrn\<rparr>"

definition PaxosAddr :: "Node \<Rightarrow> string" where
  "PaxosAddr n = IP n @ '':'' @ PaxosPort n"

definition ClientAddr :: "Node \<Rightarrow> string" where
  "ClientAddr n = IP n @ '':'' @ ClientPort n"

definition IsSame :: "Node \<Rightarrow> Node \<Rightarrow> bool" where
  "IsSame n m \<longleftrightarrow> IP m = IP n \<and> PaxosPort m = PaxosPort n"

section \<open>The node map\<close>

text \<open>
  \<open>nodes\<close> is the Go map. \<open>epochs\<close> is indexed by Paxos id, the memoised lists are the ones
  \<open>memoize\<close> computes.
\<close>

record NodeMap =
  nodes :: "(gid \<times> Node) list"
  epochs :: "epoch list"
  nrOfNodes :: "64 word"
  nrOfAcceptors :: "64 word"
  quorum :: "64 word"
  idsMemoized :: "gid list"
  proposerIdsMemoized :: "gid list"
  acceptorIdsMemoized :: "gid list"
  learnerIdsMemoized :: "gid list"

definition memoizeIDs :: "NodeMap \<Rightarrow> NodeMap" where
  "memoizeIDs nm = nm\<lparr>idsMemoized := map fst (nodes nm)\<rparr>"

definition memoizeActorIDs :: "NodeMap \<Rightarrow> NodeMap" where
  "memoizeActorIDs nm = nm\<lparr>
     proposerIdsMemoized := [i. (i, n) \<leftarrow> nodes nm, Proposer n],
     acceptorIdsMemoized := [i. (i, n) \<leftarrow> nodes nm, Acceptor n],
     learnerIdsMemoized := [i. (i, n) \<leftarrow> nodes nm, Learner n]\<rparr>"

definition memoize :: "NodeMap \<Rightarrow> NodeMap" where
  "memoize nm = memoizeActorIDs (memoizeIDs nm)"

text \<open>\<open>nm.epochs[id.PaxosID] = id.Epoch\<close> panics for an id outside the epoch vector.\<close>

definition setEpoch :: "gid \<Rightarrow> epoch list \<Rightarrow> epoch list result" where
  "setEpoch i es = update_index es (PxInt i) (Epoch i)"

fun setEpochs :: "gid list \<Rightarrow> epoch list \<Rightarrow> epoch list result" where
  "setEpochs [] es = Ok es"
| "setEpochs (i # is) es = bind_result (setEpoch i es) (setEpochs is)"

definition NewNodeMapWithCount ::
  "(gid \<times> Node) list \<Rightarrow> 64 word \<Rightarrow> 64 word \<Rightarrow> NodeMap result" where
  "NewNodeMapWithCount ns nrNodes nrAcceptors =
     bind_result (setEpochs (map fst ns) (replicate (unat nrNodes) 0)) (\<lambda>es.
       Ok (memoize \<lparr>nodes = ns, epochs = es, nrOfNodes = nrNodes,
         nrOfAcceptors = nrAcceptors, quorum = nrAcceptors div 2 + 1,
         idsMemoized = [], proposerIdsMemoized = [],
         acceptorIdsMemoized = [], learnerIdsMemoized = []\<rparr>))"

text \<open>\<open>NewNodeMap\<close> counts the nodes and the acceptors itself and then does the same.\<close>

definition NewNodeMap :: "(gid \<times> Node) list \<Rightarrow> NodeMap result" where
  "NewNodeMap ns =
     (let nrOfAcc = foldl (\<lambda>c (i, node). if Acceptor node then c + 1 else c) 0 ns;
          nrOfNds = foldl (\<lambda>c _. c + 1) 0 ns
      in NewNodeMapWithCount ns nrOfNds nrOfAcc)"

definition NewNodeMapFromSingleNode ::
  "gid \<Rightarrow> Node \<Rightarrow> 64 word \<Rightarrow> 64 word \<Rightarrow> NodeMap result" where
  "NewNodeMapFromSingleNode i node nrNodes nrAcceptors =
     NewNodeMapWithCount [(i, node)] nrNodes nrAcceptors"

definition CloneMap :: "NodeMap \<Rightarrow> (gid \<times> Node) list" where
  "CloneMap nm = nodes nm"

definition IDs :: "NodeMap \<Rightarrow> gid list" where
  "IDs nm = idsMemoized nm"

definition ProposerIDs :: "NodeMap \<Rightarrow> gid list" where
  "ProposerIDs nm = proposerIdsMemoized nm"

definition AcceptorIDs :: "NodeMap \<Rightarrow> gid list" where
  "AcceptorIDs nm = acceptorIdsMemoized nm"

definition LearnerIDs :: "NodeMap \<Rightarrow> gid list" where
  "LearnerIDs nm = learnerIdsMemoized nm"

definition LookupNode :: "gid \<Rightarrow> NodeMap \<Rightarrow> Node option" where
  "LookupNode i nm = map_of (nodes nm) i"

text \<open>The first node with the Paxos id, in the map's iteration order.\<close>

definition LookupNodeWithPaxosID :: "8 word \<Rightarrow> NodeMap \<Rightarrow> (gid \<times> Node) option" where
  "LookupNodeWithPaxosID pxID nm = List.find (\<lambda>(i, node). PaxosID i = pxID) (nodes nm)"

definition IsNew :: "gid \<Rightarrow> Node \<Rightarrow> NodeMap \<Rightarrow> bool" where
  "IsNew i n nm =
     (case LookupNodeWithPaxosID (PaxosID i) nm of
        None \<Rightarrow> True
      | Some (oldid, on) \<Rightarrow> if CompareTo i oldid < 1 then False else \<not> IsSame on n)"

definition Len :: "NodeMap \<Rightarrow> 64 word" where
  "Len nm = of_nat (length (nodes nm))"

datatype grp_error =
    ErrNodeAlreadyPresent
  | ErrOldNodeNotFound
  | ErrEqualPaxosIDAlreadyPresent
  | ErrNodeIDOutOfBounds
  | ErrInvalidIDChange

text \<open>
  The outer result is a panic or a return, the inner one Go's \<open>error\<close>. The bound compares as
  \<open>int\<close>: an empty cluster's \<open>nrOfNodes-1\<close> wraps around and reads as -1.
\<close>

definition Add :: "gid \<Rightarrow> Node \<Rightarrow> NodeMap \<Rightarrow> (grp_error + NodeMap) result" where
  "Add i node nm =
     (if PxInt i < 0 \<or> PxInt i > sint (nrOfNodes nm - 1) then Ok (Inl ErrNodeIDOutOfBounds)
      else if LookupNode i nm \<noteq> None then Ok (Inl ErrNodeAlreadyPresent)
      else if LookupNodeWithPaxosID (PaxosID i) nm \<noteq> None
        then Ok (Inl ErrEqualPaxosIDAlreadyPresent)
      else bind_result (setEpoch i (epochs nm)) (\<lambda>es.
        Ok (Inr (memoize (nm\<lparr>nodes := nodes nm @ [(i, node)], epochs := es\<rparr>)))))"

definition Replace :: "gid \<Rightarrow> Node \<Rightarrow> NodeMap \<Rightarrow> (grp_error + NodeMap) result" where
  "Replace newID newNode nm =
     (case LookupNodeWithPaxosID (PaxosID newID) nm of
        None \<Rightarrow> Ok (Inl ErrOldNodeNotFound)
      | Some (oldID, _) \<Rightarrow>
          let kept = filter (\<lambda>(i, _). i \<noteq> oldID \<and> i \<noteq> newID) (nodes nm)
          in bind_result (setEpoch newID (epochs nm)) (\<lambda>es.
            Ok (Inr (memoize (nm\<lparr>nodes := kept @ [(newID, newNode)], epochs := es\<rparr>)))))"

definition EpochSlicesEqual :: "epoch list \<Rightarrow> epoch list \<Rightarrow> bool" where
  "EpochSlicesEqual a b =
     (if length a \<noteq> length b then False
      else list_all (\<lambda>i. a ! i = b ! i) [0..<length a])"

text \<open>
  \<open>uint(id.PaxosID)\<close> sign-extends, \<open>PaxosID(intid)\<close> truncates, and \<open>%\<close> panics for an empty
  cluster.
\<close>

definition GetNext :: "gid \<Rightarrow> NodeMap \<Rightarrow> gid result" where
  "GetNext i nm =
     (if nrOfNodes nm = 0 then Fault DivideByZero
      else let intid = (scast (PaxosID i) + 1) mod nrOfNodes nm
           in bind_result (index (epochs nm) (uint intid)) (\<lambda>e.
                Ok (ID (ucast intid) e)))"

section \<open>The group manager's state\<close>

record GrpMgr =
  gm_id :: gid
  nodeMap :: NodeMap
  arEnabled :: bool
  lrEnabled :: bool

definition NewGrpMgr :: "gid \<Rightarrow> NodeMap \<Rightarrow> bool \<Rightarrow> bool \<Rightarrow> GrpMgr" where
  "NewGrpMgr i nm lr ar = \<lparr>gm_id = i, nodeMap = nm, arEnabled = ar, lrEnabled = lr\<rparr>"

definition NrOfNodes :: "GrpMgr \<Rightarrow> 64 word" where
  "NrOfNodes gm = nrOfNodes (nodeMap gm)"

definition NrOfAcceptors :: "GrpMgr \<Rightarrow> 64 word" where
  "NrOfAcceptors gm = nrOfAcceptors (nodeMap gm)"

definition Quorum :: "GrpMgr \<Rightarrow> 64 word" where
  "Quorum gm = quorum (nodeMap gm)"

definition Epochs :: "GrpMgr \<Rightarrow> epoch list" where
  "Epochs gm = epochs (nodeMap gm)"

definition SetNewNodeMap :: "(gid \<times> Node) list \<Rightarrow> GrpMgr \<Rightarrow> GrpMgr result" where
  "SetNewNodeMap ns gm = bind_result (NewNodeMap ns) (\<lambda>nm. Ok (gm\<lparr>nodeMap := nm\<rparr>))"

definition SetID :: "gid \<Rightarrow> GrpMgr \<Rightarrow> grp_error + GrpMgr" where
  "SetID newID gm =
     (if PaxosID newID = PaxosID (gm_id gm) \<and> Epoch newID > Epoch (gm_id gm)
      then Inr (gm\<lparr>gm_id := newID\<rparr>) else Inl ErrInvalidIDChange)"

section \<open>Well-formed node maps\<close>

text \<open>
  The invariant of \<open>NodeMap\<close>: Paxos ids are distinct and inside the cluster, the epoch vector
  holds each node's epoch, the memoised lists are up to date, and the quorum is a majority of
  the declared number of acceptors.
\<close>

definition epoch_entry :: "epoch list \<Rightarrow> gid \<Rightarrow> bool" where
  "epoch_entry es i \<longleftrightarrow> 0 \<le> PxInt i \<and> nat (PxInt i) < length es \<and> es ! nat (PxInt i) = Epoch i"

definition wf_NodeMap :: "NodeMap \<Rightarrow> bool" where
  "wf_NodeMap nm \<longleftrightarrow>
     distinct (map (PaxosID \<circ> fst) (nodes nm)) \<and>
     list_all (epoch_entry (epochs nm)) (map fst (nodes nm)) \<and>
     length (epochs nm) = unat (nrOfNodes nm) \<and>
     memoize nm = nm \<and>
     quorum nm = nrOfAcceptors nm div 2 + 1"

text \<open>The declared number of acceptors is not below the real one.\<close>

definition acceptors_counted :: "NodeMap \<Rightarrow> bool" where
  "acceptors_counted nm \<longleftrightarrow> length (AcceptorIDs nm) \<le> unat (nrOfAcceptors nm)"

lemma PxInt_eq_iff: "PxInt i = PxInt j \<longleftrightarrow> PaxosID i = PaxosID j"
  by (auto simp: PxInt_def dest: signed_word_eqI)

lemma memoize_idem [simp]: "memoize (memoize nm) = memoize nm"
  by (simp add: memoize_def memoizeIDs_def memoizeActorIDs_def)

lemma memoize_sel [simp]:
  "nodes (memoize nm) = nodes nm" "epochs (memoize nm) = epochs nm"
  "nrOfNodes (memoize nm) = nrOfNodes nm" "nrOfAcceptors (memoize nm) = nrOfAcceptors nm"
  "quorum (memoize nm) = quorum nm"
  by (simp_all add: memoize_def memoizeIDs_def memoizeActorIDs_def)

lemma comprehension_eq_filter: "[i. (i, n) \<leftarrow> ns, P n] = map fst (filter (P \<circ> snd) ns)"
  by (induction ns) auto

lemma AcceptorIDs_wf:
  assumes "wf_NodeMap nm"
  shows "AcceptorIDs nm = map fst (filter (Acceptor \<circ> snd) (nodes nm))"
proof -
  have "AcceptorIDs nm = AcceptorIDs (memoize nm)"
    using assms by (simp add: wf_NodeMap_def)
  also have "\<dots> = map fst (filter (Acceptor \<circ> snd) (nodes nm))"
    by (simp add: AcceptorIDs_def memoize_def memoizeIDs_def memoizeActorIDs_def
        comprehension_eq_filter)
  finally show ?thesis .
qed

lemma wf_NodeMap_distinct: "wf_NodeMap nm \<Longrightarrow> distinct (map fst (nodes nm))"
  by (simp add: wf_NodeMap_def flip: map_map) (metis distinct_map map_map)

lemma wf_NodeMap_inj:
  assumes "wf_NodeMap nm" and "i \<in> set (map fst (nodes nm))" and "j \<in> set (map fst (nodes nm))"
    and "PxInt i = PxInt j"
  shows "i = j"
proof -
  have "inj_on PaxosID (set (map fst (nodes nm)))"
    using assms(1) by (auto simp: wf_NodeMap_def distinct_map inj_on_def)
  then show ?thesis
    using assms(2-4) by (auto simp: inj_on_def PxInt_eq_iff)
qed

text \<open>Writing the epochs of nodes with distinct, legal Paxos ids never panics.\<close>

lemma setEpochs_ok:
  assumes "distinct (map PaxosID is)"
    and "\<forall>i\<in>set is. 0 \<le> PxInt i \<and> PxInt i < int (length es)"
  shows "\<exists>es'. setEpochs is es = Inr es' \<and> length es' = length es \<and>
    list_all (epoch_entry es') is \<and>
    (\<forall>k. (\<forall>i\<in>set is. nat (PxInt i) \<noteq> k) \<longrightarrow> es' ! k = es ! k)"
  using assms
proof (induction "is" arbitrary: es)
  case Nil
  then show ?case by simp
next
  case (Cons i "is")
  let ?es = "es[nat (PxInt i) := Epoch i]"
  have step: "setEpoch i es = Inr ?es"
    using Cons.prems by (simp add: setEpoch_def)
  obtain es' where es': "setEpochs is ?es = Inr es'" "length es' = length es"
      "list_all (epoch_entry es') is"
      "\<forall>k. (\<forall>j\<in>set is. nat (PxInt j) \<noteq> k) \<longrightarrow> es' ! k = ?es ! k"
    using Cons.IH [of ?es] Cons.prems by auto
  have "nat (PxInt j) \<noteq> nat (PxInt i)" if "j \<in> set is" for j
    using Cons.prems that by (auto simp: eq_nat_nat_iff PxInt_eq_iff image_iff)
  with es'(4) have "es' ! nat (PxInt i) = Epoch i"
    using Cons.prems by (simp add: nat_less_iff)
  then have "epoch_entry es' i"
    using Cons.prems es'(2) by (simp add: epoch_entry_def nat_less_iff)
  with step es' show ?case by simp
qed

lemma NewNodeMapWithCount_wf:
  assumes "distinct (map (PaxosID \<circ> fst) ns)"
    and "\<forall>i\<in>fst ` set ns. 0 \<le> PxInt i \<and> PxInt i < int (unat nrNodes)"
  shows "\<exists>nm. NewNodeMapWithCount ns nrNodes nrAcc = Inr nm \<and> wf_NodeMap nm \<and> nodes nm = ns \<and>
    nrOfNodes nm = nrNodes \<and> nrOfAcceptors nm = nrAcc"
proof -
  obtain es where "setEpochs (map fst ns) (replicate (unat nrNodes) 0) = Inr es"
      "length es = unat nrNodes" "list_all (epoch_entry es) (map fst ns)"
    using setEpochs_ok [of "map fst ns" "replicate (unat nrNodes) 0"] assms by auto
  then show ?thesis
    using assms(1) by (simp add: NewNodeMapWithCount_def wf_NodeMap_def)
qed

lemma foldl_count:
  "foldl (\<lambda>c x. if P x then c + 1 else c) (a :: 'w::len word) xs = a + of_nat (length (filter P xs))"
  by (induction xs arbitrary: a) (simp_all add: algebra_simps)

lemma NewNodeMap_eq:
  "NewNodeMap ns = NewNodeMapWithCount ns (of_nat (length ns))
     (of_nat (length (filter (Acceptor \<circ> snd) ns)))"
  using foldl_count [of "\<lambda>_. True" "0 :: 64 word" ns]
    foldl_count [of "Acceptor \<circ> snd" "0 :: 64 word" ns]
  by (simp add: NewNodeMap_def Let_def case_prod_unfold comp_def)

lemma length_distinct_PaxosIDs:
  assumes "distinct (map (PaxosID \<circ> fst) ns)"
  shows "length ns \<le> 256"
proof -
  have "length ns = card (set (map (PaxosID \<circ> fst) ns))"
    using distinct_card [OF assms] by simp
  also have "\<dots> \<le> card (UNIV :: 8 word set)"
    by (rule card_mono) simp_all
  finally show ?thesis by (simp add: card_word)
qed

lemma unat_of_nat_nodes:
  assumes "n \<le> 256"
  shows "unat (of_nat n :: 64 word) = n"
  using assms by (simp add: unat_of_nat)

text \<open>
  \<open>NewNodeMap\<close> returns a well-formed map, whose acceptor count is exact, for nodes with distinct Paxos
  ids between 0 and the number of nodes.
\<close>

theorem NewNodeMap_wf:
  assumes "distinct (map (PaxosID \<circ> fst) ns)"
    and "\<forall>i\<in>fst ` set ns. 0 \<le> PxInt i \<and> PxInt i < int (length ns)"
  shows "\<exists>nm. NewNodeMap ns = Inr nm \<and> wf_NodeMap nm \<and> acceptors_counted nm \<and> nodes nm = ns"
proof -
  have len: "length ns \<le> 256"
    by (rule length_distinct_PaxosIDs [OF assms(1)])
  let ?accs = "filter (Acceptor \<circ> snd) ns"
  obtain nm where nm: "NewNodeMapWithCount ns (of_nat (length ns)) (of_nat (length ?accs)) = Inr nm"
      "wf_NodeMap nm" "nodes nm = ns" "nrOfAcceptors nm = of_nat (length ?accs)"
    using NewNodeMapWithCount_wf [OF assms(1), of "of_nat (length ns)" "of_nat (length ?accs)"]
      assms(2) unat_of_nat_nodes [OF len] by auto
  have "length ?accs \<le> 256"
    using len length_filter_le order_trans by blast
  then have "acceptors_counted nm"
    by (simp add: acceptors_counted_def AcceptorIDs_wf [OF nm(2)] nm unat_of_nat_nodes)
  with nm show ?thesis by (simp add: NewNodeMap_eq)
qed

theorem NewNodeMap_wf_witness:
  "\<exists>nm. NewNodeMap [(ID 1 0, NewNode [] [] [] True True True),
      (ID 0 4, NewNode [] [] [] True False True)] = Inr nm \<and> wf_NodeMap nm"
  using NewNodeMap_wf [of "[(ID 1 0, NewNode [] [] [] True True True),
      (ID 0 4, NewNode [] [] [] True False True)]"]
  by (auto simp: PxInt_def)

section \<open>Adding and replacing nodes\<close>

lemma LookupNodeWithPaxosID_None:
  "LookupNodeWithPaxosID p nm = None \<longleftrightarrow> (\<forall>i\<in>fst ` set (nodes nm). PaxosID i \<noteq> p)"
  by (auto simp: LookupNodeWithPaxosID_def find_None_iff)

lemma LookupNodeWithPaxosID_Some:
  assumes "LookupNodeWithPaxosID p nm = Some (i, n)"
  shows "(i, n) \<in> set (nodes nm) \<and> PaxosID i = p"
  using assms by (auto simp: LookupNodeWithPaxosID_def find_Some_iff in_set_conv_nth)

lemma LookupNodeWithPaxosID_wf:
  assumes "wf_NodeMap nm"
  shows "LookupNodeWithPaxosID p nm = Some (i, n) \<longleftrightarrow> (i, n) \<in> set (nodes nm) \<and> PaxosID i = p"
proof
  assume mem: "(i, n) \<in> set (nodes nm) \<and> PaxosID i = p"
  then obtain i' n' where found: "LookupNodeWithPaxosID p nm = Some (i', n')"
    by (cases "LookupNodeWithPaxosID p nm") (auto simp: LookupNodeWithPaxosID_None)
  then have mem': "(i', n') \<in> set (nodes nm)" "PaxosID i' = p"
    by (auto dest: LookupNodeWithPaxosID_Some)
  then have "i' = i"
    using mem wf_NodeMap_inj [OF assms, of i' i] by (force simp: PxInt_def)
  moreover have "n' = n"
    using wf_NodeMap_distinct [OF assms] mem mem' \<open>i' = i\<close> by (auto dest: eq_key_imp_eq_value)
  ultimately show "LookupNodeWithPaxosID p nm = Some (i, n)"
    using found by simp
qed (rule LookupNodeWithPaxosID_Some)

lemma setEpoch_entries:
  assumes "setEpoch i es = Inr es'" and "list_all (epoch_entry es) is"
    and "PaxosID i \<notin> PaxosID ` set is"
  shows "list_all (epoch_entry es') is \<and> epoch_entry es' i \<and> length es' = length es"
proof -
  have i: "0 \<le> PxInt i" "nat (PxInt i) < length es" and es': "es' = es[nat (PxInt i) := Epoch i]"
    using assms(1) by (auto simp: setEpoch_def update_index_Inr_iff)
  have "epoch_entry es' j" if "j \<in> set is" for j
  proof -
    have "epoch_entry es j" using assms(2) that by (simp add: list_all_iff)
    moreover have "PxInt j \<noteq> PxInt i" using assms(3) that by (auto simp: PxInt_eq_iff image_iff)
    ultimately show ?thesis
      using i by (auto simp: es' epoch_entry_def eq_nat_nat_iff)
  qed
  then show ?thesis
    using i by (simp add: es' epoch_entry_def list_all_iff)
qed

lemma Add_cases:
  assumes "wf_NodeMap nm"
  shows "Add i n nm =
    (if PxInt i < 0 \<or> PxInt i > sint (nrOfNodes nm - 1) then Ok (Inl ErrNodeIDOutOfBounds)
     else if i \<in> fst ` set (nodes nm) then Ok (Inl ErrNodeAlreadyPresent)
     else if PaxosID i \<in> PaxosID ` fst ` set (nodes nm) then Ok (Inl ErrEqualPaxosIDAlreadyPresent)
     else bind_result (setEpoch i (epochs nm)) (\<lambda>es.
        Ok (Inr (memoize (nm\<lparr>nodes := nodes nm @ [(i, n)], epochs := es\<rparr>)))))"
proof -
  have "LookupNode i nm \<noteq> None \<longleftrightarrow> i \<in> fst ` set (nodes nm)"
    by (simp add: LookupNode_def map_of_eq_None_iff)
  moreover have "LookupNodeWithPaxosID (PaxosID i) nm \<noteq> None \<longleftrightarrow>
      PaxosID i \<in> PaxosID ` fst ` set (nodes nm)"
    unfolding LookupNodeWithPaxosID_None by (metis (no_types, lifting) image_iff)
  ultimately show ?thesis by (simp add: Add_def)
qed

lemma Add_node:
  assumes "wf_NodeMap nm" and "Add i n nm = Inr (Inr nm')"
  shows "wf_NodeMap nm' \<and> set (nodes nm') = insert (i, n) (set (nodes nm)) \<and>
    LookupNode i nm' = Some n \<and> nrOfNodes nm' = nrOfNodes nm \<and> quorum nm' = quorum nm \<and>
    nrOfAcceptors nm' = nrOfAcceptors nm \<and> epochs nm' = (epochs nm)[nat (PxInt i) := Epoch i]"
proof -
  from assms(2) obtain es where es: "setEpoch i (epochs nm) = Inr es"
      and nm': "nm' = memoize (nm\<lparr>nodes := nodes nm @ [(i, n)], epochs := es\<rparr>)"
      and new: "i \<notin> fst ` set (nodes nm)" "PaxosID i \<notin> PaxosID ` fst ` set (nodes nm)"
    by (auto simp: Add_cases [OF assms(1)] bind_result_Inr_iff split: if_splits)
  have "list_all (epoch_entry es) (map fst (nodes nm)) \<and> epoch_entry es i \<and>
      length es = length (epochs nm)"
    using setEpoch_entries [OF es, of "map fst (nodes nm)"] assms(1) new
    by (simp add: wf_NodeMap_def)
  moreover have "map_of (nodes nm) i = None"
    using new by (simp add: map_of_eq_None_iff)
  moreover have "es = (epochs nm)[nat (PxInt i) := Epoch i]"
    using es by (simp add: setEpoch_def update_index_Inr_iff)
  ultimately show ?thesis
    using assms(1) new
    by (auto simp: nm' wf_NodeMap_def LookupNode_def map_add_def image_comp)
qed

text \<open>
  \<open>Add\<close> keeps the node map well formed, makes exactly the new node present and leaves the cluster
  size, the declared acceptor count and the quorum as they are.
\<close>

theorem Add_preserves_wf:
  assumes "wf_NodeMap nm" and "Add i n nm = Inr (Inr nm')"
  shows "wf_NodeMap nm' \<and> set (nodes nm') = insert (i, n) (set (nodes nm)) \<and>
    LookupNode i nm' = Some n \<and> nrOfNodes nm' = nrOfNodes nm \<and> quorum nm' = quorum nm"
  using Add_node [OF assms] by blast

theorem Add_preserves_wf_witness:
  "\<exists>nm nm'. NewNodeMapFromSingleNode (ID 0 0) (NewNode [] [] [] True True True) 3 3 = Inr nm \<and>
    Add (ID 2 1) (NewNode [] [] [] True True True) nm = Inr (Inr nm') \<and> wf_NodeMap nm'"
proof -
  let ?n = "NewNode [] [] [] True True True"
  obtain nm where nm: "NewNodeMapFromSingleNode (ID 0 0) ?n 3 3 = Inr nm" "wf_NodeMap nm"
      "nodes nm = [(ID 0 0, ?n)]" "nrOfNodes nm = 3" "length (epochs nm) = 3"
    using NewNodeMapWithCount_wf [of "[(ID 0 0, ?n)]" 3 3]
    by (auto simp: NewNodeMapFromSingleNode_def PxInt_def wf_NodeMap_def)
  then obtain nm' where "Add (ID 2 1) ?n nm = Inr (Inr nm')"
    by (simp add: Add_cases setEpoch_def PxInt_def)
  with nm Add_preserves_wf [OF nm(2), of "ID 2 1" ?n nm'] show ?thesis by auto
qed

lemma Replace_node:
  assumes "wf_NodeMap nm" and "(oldID, oldNode) \<in> set (nodes nm)"
    and "PaxosID newID = PaxosID oldID"
  shows "\<exists>nm'. Replace newID newNode nm = Inr (Inr nm') \<and> wf_NodeMap nm' \<and>
    set (nodes nm') = set (nodes nm) - {(oldID, oldNode)} \<union> {(newID, newNode)} \<and>
    length (nodes nm') = length (nodes nm) \<and> quorum nm' = quorum nm \<and>
    nrOfNodes nm' = nrOfNodes nm \<and> nrOfAcceptors nm' = nrOfAcceptors nm \<and>
    epochs nm' = (epochs nm)[nat (PxInt newID) := Epoch newID]"
proof -
  let ?kept = "filter (\<lambda>(i, _). i \<noteq> oldID \<and> i \<noteq> newID) (nodes nm)"
  have look: "LookupNodeWithPaxosID (PaxosID newID) nm = Some (oldID, oldNode)"
    using assms by (simp add: LookupNodeWithPaxosID_wf)
  have unique: "i = oldID \<and> n = oldNode" if "(i, n) \<in> set (nodes nm)" "PaxosID i = PaxosID oldID" for i n
    using that assms(1,2) LookupNodeWithPaxosID_wf [OF assms(1)] by (metis Pair_inject option.inject)
  have kept: "?kept = filter (\<lambda>x. x \<noteq> (oldID, oldNode)) (nodes nm)"
    using unique assms(3) by (intro filter_cong) auto
  have dist: "distinct (nodes nm)"
    using assms(1) by (auto simp: wf_NodeMap_def distinct_map)
  have entry: "epoch_entry (epochs nm) oldID"
    using assms(1,2) by (force simp: wf_NodeMap_def list_all_iff)
  then obtain es where es: "setEpoch newID (epochs nm) = Inr es"
    using assms(3) by (auto simp: setEpoch_def epoch_entry_def PxInt_def nat_less_iff)
  have fresh: "PaxosID newID \<notin> PaxosID ` set (map fst ?kept)"
    using unique assms(3) by (auto simp: kept)
  have "list_all (epoch_entry (epochs nm)) (map fst ?kept)"
    using assms(1) by (auto simp: wf_NodeMap_def list_all_iff)
  from setEpoch_entries [OF es this fresh]
  have ents: "list_all (epoch_entry es) (map fst ?kept)" "epoch_entry es newID"
    "length es = length (epochs nm)" by auto
  define nm' where "nm' = memoize (nm\<lparr>nodes := ?kept @ [(newID, newNode)], epochs := es\<rparr>)"
  have "distinct (map (PaxosID \<circ> fst) ?kept)"
    using assms(1) by (simp add: wf_NodeMap_def distinct_map_filter)
  then have "wf_NodeMap nm'"
    using assms(1) ents fresh by (auto simp: nm'_def wf_NodeMap_def image_comp)
  moreover have "Suc (length ?kept) = length (nodes nm)"
    unfolding kept by (rule length_filter_neq [OF dist assms(2)])
  moreover have "es = (epochs nm)[nat (PxInt newID) := Epoch newID]"
    using es by (simp add: setEpoch_def update_index_Inr_iff)
  ultimately show ?thesis
    using look es assms(2) by (auto simp: Replace_def Let_def nm'_def kept)
qed

text \<open>
  C23. \<open>Replace\<close> on a well-formed map with a node of the same Paxos id never panics; the old node is gone, the
  new one is the only node with its Paxos id, and the map stays well formed.
\<close>

theorem Replace_preserves_wf:
  assumes "wf_NodeMap nm" and "(oldID, oldNode) \<in> set (nodes nm)"
    and "PaxosID newID = PaxosID oldID"
  shows "\<exists>nm'. Replace newID newNode nm = Inr (Inr nm') \<and> wf_NodeMap nm' \<and>
    set (nodes nm') = set (nodes nm) - {(oldID, oldNode)} \<union> {(newID, newNode)} \<and>
    length (nodes nm') = length (nodes nm) \<and> quorum nm' = quorum nm"
  using Replace_node [OF assms] by blast

theorem Replace_preserves_wf_witness:
  "\<exists>nm nm'. NewNodeMap [(ID 0 0, NewNode [] [] [] True True True)] = Inr nm \<and>
    Replace (ID 0 7) (NewNode ''h'' [] [] True True True) nm = Inr (Inr nm') \<and> wf_NodeMap nm'"
proof -
  let ?n = "NewNode [] [] [] True True True"
  obtain nm where nm: "NewNodeMap [(ID 0 0, ?n)] = Inr nm" "wf_NodeMap nm" "nodes nm = [(ID 0 0, ?n)]"
    using NewNodeMapWithCount_wf [of "[(ID 0 0, ?n)]" 1 1]
    by (auto simp: NewNodeMap_eq PxInt_def NewNode_def)
  with Replace_preserves_wf [OF nm(2), of "ID 0 0" ?n "ID 0 7"] show ?thesis by auto
qed

section \<open>Quorums\<close>

text \<open>
  The interface the protocols rely on: any two quorums of one configuration share a member. The
  laws: the members are finitely many and fewer than twice the quorum size.
\<close>

locale quorum_system =
  fixes members :: "'c \<Rightarrow> 'a set" and size_of :: "'c \<Rightarrow> nat" and valid :: "'c \<Rightarrow> bool"
  assumes finite_members: "valid c \<Longrightarrow> finite (members c)"
    and majority: "valid c \<Longrightarrow> card (members c) < 2 * size_of c"
begin

definition is_quorum :: "'c \<Rightarrow> 'a set \<Rightarrow> bool" where
  "is_quorum c A \<longleftrightarrow> A \<subseteq> members c \<and> size_of c \<le> card A"

lemma quorums_intersect:
  assumes "valid c" and "is_quorum c A" and "is_quorum c B"
  shows "\<exists>a. a \<in> A \<and> a \<in> B"
proof (rule ccontr)
  assume "\<not> ?thesis"
  then have "A \<inter> B = {}" by auto
  moreover have "finite A" "finite B"
    using assms finite_members finite_subset unfolding is_quorum_def by metis+
  ultimately have "card A + card B = card (A \<union> B)"
    by (simp add: card_Un_disjoint)
  also have "\<dots> \<le> card (members c)"
    using assms finite_members by (intro card_mono) (auto simp: is_quorum_def)
  finally show False
    using assms majority [OF assms(1)] by (simp add: is_quorum_def)
qed

lemma quorum_nonempty: "valid c \<Longrightarrow> is_quorum c A \<Longrightarrow> \<exists>a. a \<in> A"
  using quorums_intersect by blast

end

definition quorum_config :: "NodeMap \<Rightarrow> bool" where
  "quorum_config nm \<longleftrightarrow> wf_NodeMap nm \<and> acceptors_counted nm"

lemma unat_quorum:
  assumes "wf_NodeMap nm"
  shows "unat (quorum nm) = unat (nrOfAcceptors nm) div 2 + 1"
proof -
  have bound: "unat (nrOfAcceptors nm) < 2 ^ LENGTH(64)"
    by (rule unsigned_less)
  have half: "unat (nrOfAcceptors nm div 2) = unat (nrOfAcceptors nm) div 2"
    by (simp add: unat_div)
  also have "unat (nrOfAcceptors nm) div 2 < unat (- 1 :: 64 word)"
    using bound by (simp add: unsigned_minus_1_eq_mask mask_eq_exp_minus_1)
  finally have "nrOfAcceptors nm div 2 < - 1"
    by (simp add: word_less_nat_alt)
  then show ?thesis
    using assms half by (simp add: wf_NodeMap_def unat_Suc_word)
qed

interpretation nm_quorum: quorum_system
  "\<lambda>nm. set (AcceptorIDs nm)" "\<lambda>nm. unat (quorum nm)" quorum_config
proof
  fix nm assume "quorum_config nm"
  then have wf: "wf_NodeMap nm" and counted: "length (AcceptorIDs nm) \<le> unat (nrOfAcceptors nm)"
    by (auto simp: quorum_config_def acceptors_counted_def)
  have "card (set (AcceptorIDs nm)) \<le> length (AcceptorIDs nm)"
    by (rule card_length)
  with counted show "card (set (AcceptorIDs nm)) < 2 * unat (quorum nm)"
    by (simp add: unat_quorum [OF wf])
qed simp

text \<open>What the constructor computes, for any nodes whose number fits in 64 bits.\<close>

lemma NewNodeMap_sel:
  assumes "NewNodeMap ns = Inr nm" and "length ns < 2 ^ 64"
  shows "AcceptorIDs nm = map fst (filter (Acceptor \<circ> snd) ns)"
    and "unat (quorum nm) = length (filter (Acceptor \<circ> snd) ns) div 2 + 1"
proof -
  let ?accs = "filter (Acceptor \<circ> snd) ns"
  have nm: "nodes nm = ns" "quorum nm = of_nat (length ?accs) div 2 + 1" "memoize nm = nm"
    using assms(1) by (auto simp: NewNodeMap_eq NewNodeMapWithCount_def bind_result_Inr_iff)
  have "AcceptorIDs nm = AcceptorIDs (memoize nm)"
    by (simp only: nm(3))
  then show "AcceptorIDs nm = map fst ?accs"
    by (simp add: AcceptorIDs_def memoize_def memoizeIDs_def memoizeActorIDs_def nm(1)
        comprehension_eq_filter)
  have small: "length ?accs < 2 ^ 64"
    using assms(2) length_filter_le [of "Acceptor \<circ> snd" ns] by linarith
  then have len: "unat (of_nat (length ?accs) :: 64 word) = length ?accs"
    by (simp add: unat_of_nat)
  then have half: "unat (of_nat (length ?accs) div 2 :: 64 word) = length ?accs div 2"
    by (simp add: unat_div)
  also have "\<dots> < unat (- 1 :: 64 word)"
    using small by (simp add: unsigned_minus_1_eq_mask mask_eq_exp_minus_1)
  finally show "unat (quorum nm) = length ?accs div 2 + 1"
    using half by (simp add: nm(2) unat_Suc_word word_less_nat_alt)
qed

interpretation built_quorum: quorum_system
  "\<lambda>nm. set (AcceptorIDs nm)" "\<lambda>nm. unat (quorum nm)"
  "\<lambda>nm. \<exists>ns. NewNodeMap ns = Inr nm \<and> length ns < 2 ^ 64"
proof
  fix nm assume "\<exists>ns. NewNodeMap ns = Inr nm \<and> length ns < 2 ^ 64"
  then obtain ns where ns: "NewNodeMap ns = Inr nm" "length ns < 2 ^ 64" by blast
  have "card (set (AcceptorIDs nm)) \<le> length (filter (Acceptor \<circ> snd) ns)"
    using card_length [of "AcceptorIDs nm"] by (simp add: NewNodeMap_sel(1) [OF ns])
  moreover have "(k :: nat) < 2 * (k div 2 + 1)" for k
    by presburger
  ultimately show "card (set (AcceptorIDs nm)) < 2 * unat (quorum nm)"
    unfolding NewNodeMap_sel(2) [OF ns] by (rule le_less_trans)
qed simp

text \<open>
  C21. The quorum that \<open>NewNodeMap\<close> computes for any nodes (fewer than \<open>2 ^ 64\<close>, with distinct
  identifiers, as the keys of a Go map are) is safe and live: two sets of acceptors that each reach
  it have an acceptor in common, and while fewer than half of the acceptors are gone the others
  reach it.
\<close>

theorem Quorum_intersection:
  assumes "NewNodeMap ns = Inr nm" and "distinct (map fst ns)" and "length ns < 2 ^ 64"
  shows "(\<forall>A B. A \<subseteq> set (AcceptorIDs nm) \<and> unat (quorum nm) \<le> card A \<and>
        B \<subseteq> set (AcceptorIDs nm) \<and> unat (quorum nm) \<le> card B \<longrightarrow> (\<exists>a. a \<in> A \<and> a \<in> B)) \<and>
    (\<forall>F. F \<subseteq> set (AcceptorIDs nm) \<and> 2 * card F < card (set (AcceptorIDs nm)) \<longrightarrow>
        unat (quorum nm) \<le> card (set (AcceptorIDs nm) - F))"
proof -
  have built: "\<exists>ns. NewNodeMap ns = Inr nm \<and> length ns < 2 ^ 64"
    using assms by blast
  have "distinct (map fst (filter (Acceptor \<circ> snd) ns))"
    using assms(2) by (rule distinct_map_filter)
  then have accs: "card (set (AcceptorIDs nm)) = length (filter (Acceptor \<circ> snd) ns)"
    by (simp only: NewNodeMap_sel(1) [OF assms(1,3)] distinct_card length_map)
  have "unat (quorum nm) \<le> card (set (AcceptorIDs nm) - F)"
    if "F \<subseteq> set (AcceptorIDs nm)" and "2 * card F < card (set (AcceptorIDs nm))" for F
  proof -
    have "card (set (AcceptorIDs nm) - F) = card (set (AcceptorIDs nm)) - card F"
      using that(1) by (intro card_Diff_subset) (auto intro: finite_subset)
    then show ?thesis
      using that(2) unfolding accs NewNodeMap_sel(2) [OF assms(1,3)] by linarith
  qed
  then show ?thesis
    using built_quorum.quorums_intersect [OF built] by (auto simp: built_quorum.is_quorum_def)
qed

theorem Quorum_intersection_witness:
  "\<exists>nm. NewNodeMap (map (\<lambda>k. (ID k 0, NewNode [] [] [] True True True)) [0, 1, 2]) = Inr nm \<and>
    (\<exists>a. a \<in> {ID 0 0, ID 1 0} \<and> a \<in> {ID 1 0, ID 2 0}) \<and> unat (quorum nm) \<le> card {ID 0 0, ID 2 0}"
proof -
  let ?ns = "map (\<lambda>k. (ID k 0, NewNode [] [] [] True True True)) [0, 1, 2]"
  obtain nm where nm: "NewNodeMap ?ns = Inr nm"
    using NewNodeMapWithCount_wf [of ?ns 3 3] by (auto simp: NewNodeMap_eq PxInt_def NewNode_def)
  then have sel: "set (AcceptorIDs nm) = {ID 0 0, ID 1 0, ID 2 0}" "unat (quorum nm) = 2"
    using NewNodeMap_sel [OF nm] by (auto simp: NewNode_def)
  have rest: "{ID 0 0, ID 1 0, ID 2 0} - {ID 1 0} = {ID 0 0, ID 2 (0 :: epoch)}" by auto
  have "distinct (map fst ?ns)" "length ?ns < 2 ^ 64" by simp_all
  note quorums = Quorum_intersection [OF nm this, unfolded sel]
  have "\<exists>a. a \<in> {ID 0 0, ID 1 (0 :: epoch)} \<and> a \<in> {ID 1 0, ID 2 0}"
    using conjunct1 [OF quorums, THEN spec, THEN spec, of "{ID 0 0, ID 1 0}" "{ID 1 0, ID 2 0}"] by simp
  moreover have "unat (quorum nm) \<le> card {ID 0 0, ID 2 (0 :: epoch)}"
    using conjunct2 [OF quorums, THEN spec, of "{ID 1 0}"] rest sel(2) by simp
  ultimately show ?thesis
    using nm by blast
qed

section \<open>Epoch vectors, successors and identity changes\<close>

lemma EpochSlicesEqual_iff: "EpochSlicesEqual a b \<longleftrightarrow> a = b"
  unfolding EpochSlicesEqual_def list_all_iff by (auto intro: nth_equalityI)

text \<open>
  In a well-formed cluster of at most 127 nodes, \<open>GetNext\<close> is the successor on the ring of Paxos ids
  modulo the cluster size, and carries the epoch stored for that position.
\<close>

lemma GetNext_next:
  assumes "wf_NodeMap nm" and "unat (nrOfNodes nm) \<le> 127"
    and i: "0 \<le> PxInt i" "PxInt i < int (unat (nrOfNodes nm))"
  shows "\<exists>j. GetNext i nm = Inr j \<and> PxInt j = (PxInt i + 1) mod int (unat (nrOfNodes nm)) \<and>
    Epoch j = epochs nm ! nat (PxInt j)"
proof -
  let ?n = "nrOfNodes nm"
  have len: "length (epochs nm) = unat ?n" using assms(1) by (simp add: wf_NodeMap_def)
  have n: "uint ?n \<le> 127"
    using assms(2) by (simp add: nat_le_iff flip: nat_uint_eq)
  then have "PxInt i < 127"
    using i by simp
  then have "uint (scast (PaxosID i) :: 64 word) = PxInt i"
    using i by (simp add: scast_eq uint_word_of_int_eq take_bit_int_eq_self flip: PxInt_def)
  then have sum: "uint (scast (PaxosID i) + 1 :: 64 word) = PxInt i + 1"
    using i \<open>PxInt i < 127\<close> by (subst uint_plus_if') simp
  let ?k = "(scast (PaxosID i) + 1) mod ?n"
  have k: "uint ?k = (PxInt i + 1) mod int (unat ?n)"
    by (simp add: uint_mod sum)
  then have bound: "0 \<le> uint ?k" "uint ?k < uint ?n"
    using i by simp_all
  have "sint (ucast ?k :: 8 word) = signed_take_bit 7 (uint ?k)"
    by (simp add: signed_ucast_eq)
  also have "\<dots> = uint ?k"
    using bound n by (simp add: signed_take_bit_small)
  finally show ?thesis
    using k bound i len by (auto simp: GetNext_def PxInt_def index_def)
qed

lemma wf_NodeMap_PxInt:
  assumes "wf_NodeMap nm" and "i \<in> fst ` set (nodes nm)"
  shows "0 \<le> PxInt i" and "PxInt i < int (unat (nrOfNodes nm))"
proof -
  have "epoch_entry (epochs nm) i" and len: "length (epochs nm) = unat (nrOfNodes nm)"
    using assms by (auto simp: wf_NodeMap_def list_all_iff)
  then show "0 \<le> PxInt i" and "PxInt i < int (unat (nrOfNodes nm))"
    using zless_nat_eq_int_zless [of "unat (nrOfNodes nm)" "PxInt i"]
    by (auto simp only: epoch_entry_def nat_less_iff)
qed

lemma SetID_monotone:
  "SetID i gm = Inr gm' \<Longrightarrow> gm_id gm < gm_id gm' \<and> PaxosID (gm_id gm') = PaxosID (gm_id gm) \<and>
    nodeMap gm' = nodeMap gm"
  by (auto simp: SetID_def less_gid_def CompareTo_def split: if_splits)

lemma SetNewNodeMap_counts:
  assumes "SetNewNodeMap ns gm = Inr gm'"
  shows "NewNodeMap ns = Inr (nodeMap gm') \<and> gm_id gm' = gm_id gm"
  using assms by (auto simp: SetNewNodeMap_def bind_result_Inr_iff)

text \<open>The group manager of a cluster of one node, for examples.\<close>

definition oneGrpMgr :: GrpMgr where
  "oneGrpMgr = NewGrpMgr (ID 0 0)
     \<lparr>nodes = [], epochs = [0], nrOfNodes = 1, nrOfAcceptors = 1, quorum = 1, idsMemoized = [],
      proposerIdsMemoized = [], acceptorIdsMemoized = [], learnerIdsMemoized = []\<rparr> False False"

end
