(* ===== verification/PaxosData.thy ===== *)
theory PaxosData
  imports Grp
begin

unbundle bit_operations_syntax

text \<open>
  Package \<open>paxos\<close> (\<open>src/paxos/\<close>): proposer rounds and their order, values and their equality and
  hash, the protocol messages, the slot maps of the three actors and the copy of an acceptor's
  slot map that a state transfer ships. Client requests are the struct of
  \<open>src/client/msg.pb.go\<close> with the accessors the protocols use.
\<close>

section \<open>Client requests\<close>

text \<open>A pointer field of the protobuf struct is an \<open>option\<close>; the accessors supply Go's zero values.\<close>

record Request =
  req_Type :: "32 word option"
  req_Id :: "string option"
  req_Seq :: "32 word option"
  req_Val :: "8 word list"

definition GetType :: "Request \<Rightarrow> 32 word" where
  "GetType r = (case req_Type r of Some t \<Rightarrow> t | None \<Rightarrow> 0)"

definition GetId :: "Request \<Rightarrow> string" where
  "GetId r = (case req_Id r of Some i \<Rightarrow> i | None \<Rightarrow> [])"

definition GetSeq :: "Request \<Rightarrow> 32 word" where
  "GetSeq r = (case req_Seq r of Some s \<Rightarrow> s | None \<Rightarrow> 0)"

definition GetVal :: "Request \<Rightarrow> 8 word list" where
  "GetVal r = req_Val r"

definition Request_Equal :: "Request \<Rightarrow> Request \<Rightarrow> bool" where
  "Request_Equal r other \<longleftrightarrow>
     GetType r = GetType other \<and> GetId r = GetId other \<and>
     GetSeq r = GetSeq other \<and> GetVal r = GetVal other"

section \<open>Values\<close>

datatype ValueType = Noop | App | Reconfig

record ReconfigCmd =
  rc_Nodes :: "(gid \<times> Node) list"
  rc_New :: gid

record Value =
  Vt :: ValueType
  Cr :: "Request list"
  Rc :: "ReconfigCmd option"

definition zeroValue :: Value where
  "zeroValue = \<lparr>Vt = Noop, Cr = [], Rc = None\<rparr>"

definition Value_Equal :: "Value \<Rightarrow> Value \<Rightarrow> bool" where
  "Value_Equal v o' =
     (if Vt v \<noteq> Vt o' then False
      else case Vt v of
        Noop \<Rightarrow> True
      | App \<Rightarrow> if length (Cr v) \<noteq> length (Cr o') then False
               else list_all (\<lambda>i. Request_Equal (Cr v ! i) (Cr o' ! i)) [0..<length (Cr v)]
      | Reconfig \<Rightarrow> False)"

text \<open>FNV-1a on 32 bits (Go's \<open>hash/fnv\<close>).\<close>

definition fnv32a :: "8 word list \<Rightarrow> 32 word \<Rightarrow> 32 word" where
  "fnv32a bs h = foldl (\<lambda>h b. (h XOR ucast b) * 16777619) h bs"

definition Value_Hash :: "Value \<Rightarrow> 32 word result" where
  "Value_Hash v =
     (if Vt v \<noteq> App then Fault (Panic ''cannot hash non-app value'')
      else Ok (foldl (\<lambda>h r. fnv32a (GetVal r) h) 2166136261 (Cr v)))"

section \<open>Proposer rounds\<close>

datatype ProposerRound = Round (Rnd: "64 word") (RndID: gid)

definition ZeroRound :: ProposerRound where
  "ZeroRound = Round 0 (NewIDFromInt 0 0)"

definition NewProposerRound :: "gid \<Rightarrow> ProposerRound" where
  "NewProposerRound i = Round 1 i"

definition Compare :: "ProposerRound \<Rightarrow> ProposerRound \<Rightarrow> int" where
  "Compare pr opr =
     (if Rnd pr = Rnd opr then CompareTo (RndID pr) (RndID opr)
      else if Rnd pr < Rnd opr then - 1 else 1)"

definition NextRound :: "ProposerRound \<Rightarrow> ProposerRound" where
  "NextRound pr = Round (Rnd pr + 1) (RndID pr)"

definition SetOwner :: "gid \<Rightarrow> ProposerRound \<Rightarrow> ProposerRound" where
  "SetOwner i pr = Round (Rnd pr) i"

interpretation rnd_cmp: go_compare Compare
proof
  fix a b c :: ProposerRound
  show "Compare a b = - 1 \<or> Compare a b = 0 \<or> Compare a b = 1"
    using id_cmp.cmp_range [of "RndID a" "RndID b"] by (auto simp: Compare_def)
  show "Compare a b = 0 \<longleftrightarrow> a = b"
    by (cases a; cases b) (auto simp: Compare_def)
  show "Compare b a = - Compare a b"
    using id_cmp.cmp_swap [of "RndID a" "RndID b"] by (auto simp: Compare_def)
  show "Compare a b \<le> 0 \<Longrightarrow> Compare b c \<le> 0 \<Longrightarrow> Compare a c \<le> 0"
    using id_cmp.cmp_trans [of "RndID a" "RndID b" "RndID c"]
    by (auto simp: Compare_def split: if_splits)
qed

instantiation ProposerRound :: linorder
begin

definition less_eq_ProposerRound :: "ProposerRound \<Rightarrow> ProposerRound \<Rightarrow> bool" where
  "less_eq_ProposerRound a b \<longleftrightarrow> Compare a b \<le> 0"

definition less_ProposerRound :: "ProposerRound \<Rightarrow> ProposerRound \<Rightarrow> bool" where
  "less_ProposerRound a b \<longleftrightarrow> Compare a b = - 1"

instance
proof
  fix a b c :: ProposerRound
  show "(a < b) = (a \<le> b \<and> \<not> b \<le> a)"
    unfolding less_eq_ProposerRound_def less_ProposerRound_def by (rule rnd_cmp.cmp_less)
  show "a \<le> a"
    unfolding less_eq_ProposerRound_def by (simp add: rnd_cmp.cmp_refl)
  show "a \<le> b \<Longrightarrow> b \<le> c \<Longrightarrow> a \<le> c"
    unfolding less_eq_ProposerRound_def by (rule rnd_cmp.cmp_trans)
  show "a \<le> b \<Longrightarrow> b \<le> a \<Longrightarrow> a = b"
    unfolding less_eq_ProposerRound_def by (rule rnd_cmp.cmp_antisym)
  show "a \<le> b \<or> b \<le> a"
    unfolding less_eq_ProposerRound_def by (rule rnd_cmp.cmp_total)
qed

end

lemma Compare_less [simp]: "Compare a b = - 1 \<longleftrightarrow> a < b"
  by (simp add: less_ProposerRound_def)

lemma Compare_eq [simp]: "Compare a b = 0 \<longleftrightarrow> a = b"
  by (rule rnd_cmp.cmp_eq)

lemma Compare_greater [simp]: "Compare a b = 1 \<longleftrightarrow> b < a"
  by (simp only: less_ProposerRound_def rnd_cmp.cmp_greater)

lemma Compare_ge0 [simp]: "0 \<le> Compare a b \<longleftrightarrow> b \<le> a"
  unfolding less_eq_ProposerRound_def by (subst rnd_cmp.cmp_swap [of a b]) arith

lemma Compare_gt0 [simp]: "0 < Compare a b \<longleftrightarrow> b < a"
  using rnd_cmp.cmp_range [of a b] by (simp flip: Compare_greater, arith)

lemma round_less_iff:
  "a < b \<longleftrightarrow> Rnd a < Rnd b \<or> Rnd a = Rnd b \<and> RndID a < RndID b"
  by (auto simp: less_ProposerRound_def Compare_def)

lemma NextRound_greater: "Rnd pr < - 1 \<Longrightarrow> pr < NextRound pr"
  using unat_Suc_word [of "Rnd pr" "- 1"]
  by (auto simp: round_less_iff NextRound_def word_less_nat_alt)

section \<open>Messages\<close>

type_synonym SlotID = "64 word"

record AcceptorSlot =
  as_ID :: SlotID
  VRnd :: ProposerRound
  VVal :: Value

record Prepare =
  prep_ID :: gid
  prep_CRnd :: ProposerRound
  prep_Slot :: SlotID

record Promise =
  prom_ID :: gid
  prom_Rnd :: ProposerRound
  prom_AccSlots :: "AcceptorSlot list"
  prom_EpochVector :: "epoch list"

record Accept =
  acc_ID :: gid
  acc_Slot :: SlotID
  acc_Rnd :: ProposerRound
  acc_Val :: Value

record Learn =
  lrn_ID :: gid
  lrn_Slot :: SlotID
  lrn_Rnd :: ProposerRound
  lrn_Val :: Value
  lrn_EpochVector :: "epoch list"

record RangeTuple =
  From :: SlotID
  To :: SlotID

record ResponseTuple =
  resp_Slot :: SlotID
  resp_Val :: Value

record CatchUpRequest =
  creq_ID :: gid
  creq_Ranges :: "RangeTuple list"

record CatchUpResponse =
  cresp_ID :: gid
  cresp_Vals :: "ResponseTuple list"

text \<open>
  What travels on a channel of type \<open>interface{}\<close>. The flag of a packet says whether the dynamic
  type is the struct or a pointer to it: the demultiplexer of the own replica tells them apart.
\<close>

datatype message =
    MPrepare Prepare
  | MPromise Promise
  | MAccept Accept
  | MLearn Learn
  | MCatchUpRequest CatchUpRequest
  | MCatchUpResponse CatchUpResponse

datatype dynamic = Struct message | Pointer message

fun payload :: "dynamic \<Rightarrow> message" where
  "payload (Struct m) = m"
| "payload (Pointer m) = m"

text \<open>A value of the application, for examples.\<close>

definition appValue :: Value where
  "appValue = \<lparr>Vt = App,
     Cr = [\<lparr>req_Type = Some 2, req_Id = Some ''client'', req_Seq = Some 1, req_Val = [7]\<rparr>], Rc = None\<rparr>"

end
