(* ===== verification/SlotMaps.thy ===== *)
theory SlotMaps
  imports PaxosData
begin

text \<open>
  The slot maps of package \<open>paxos\<close> (\<open>aslots.go\<close>, \<open>pslots.go\<close>, \<open>lslots.go\<close>), the copy of an
  acceptor's slots (\<open>utils.go\<close>) and the all-decided-up-to counter (\<open>adu.go\<close>).

  \<open>GetSlot\<close> returns a pointer: the model returns the slot and the changed map, and writes the
  slot back with a \<open>Put\<close> operation where the caller assigns through the pointer.
\<close>

section \<open>The interface of a slot map\<close>

locale slot_map =
  fixes get :: "SlotID \<Rightarrow> 'm \<Rightarrow> 's \<times> 'm"
    and put :: "SlotID \<Rightarrow> 's \<Rightarrow> 'm \<Rightarrow> 'm"
    and entries :: "'m \<Rightarrow> SlotID \<rightharpoonup> 's"
    and maxSeen :: "'m \<Rightarrow> SlotID"
    and blank :: "SlotID \<Rightarrow> 's"
  assumes get_slot: "fst (get i m) = (case entries m i of Some s \<Rightarrow> s | None \<Rightarrow> blank i)"
    and get_entries: "entries (snd (get i m)) = (entries m)(i \<mapsto> fst (get i m))"
    and get_maxSeen: "maxSeen (snd (get i m)) = max i (maxSeen m)"
    and put_entries: "entries (put i s m) = (entries m)(i \<mapsto> s)"
    and put_maxSeen: "maxSeen (put i s m) = maxSeen m"
begin

text \<open>The contents as the code sees them: an absent slot reads as a fresh one.\<close>

definition view :: "'m \<Rightarrow> SlotID \<Rightarrow> 's" where
  "view m i = (case entries m i of Some s \<Rightarrow> s | None \<Rightarrow> blank i)"

definition bounded :: "'m \<Rightarrow> bool" where
  "bounded m \<longleftrightarrow> (\<forall>i s. entries m i = Some s \<longrightarrow> i \<le> maxSeen m)"

lemma get_view: "fst (get i m) = view m i"
  by (simp add: view_def get_slot)

lemma view_get: "view (snd (get i m)) = view m"
  by (auto simp: view_def get_entries get_slot split: option.splits)

lemma view_put: "view (put i s m) = (view m)(i := s)"
  by (auto simp: view_def put_entries)

lemma bounded_get: "bounded m \<Longrightarrow> bounded (snd (get i m))"
  by (auto simp: bounded_def get_entries get_maxSeen le_max_iff_disj)

lemma bounded_put: "bounded m \<Longrightarrow> i \<le> maxSeen m \<Longrightarrow> bounded (put i s m)"
  by (auto simp: bounded_def put_entries put_maxSeen)

lemma bounded_get_put: "bounded m \<Longrightarrow> bounded (put i s (snd (get i m)))"
  by (rule bounded_put [OF bounded_get]) (simp_all add: get_maxSeen)

lemma view_unseen: "bounded m \<Longrightarrow> maxSeen m < i \<Longrightarrow> view m i = blank i"
  unfolding bounded_def view_def by (cases "entries m i") (auto simp: not_le [symmetric])

lemma get_eqD:
  assumes "get i m = (s, m')"
  shows "s = view m i \<and> view m' = view m \<and> maxSeen m' = max i (maxSeen m)"
  using get_view [of i m] view_get [of i m] get_maxSeen [of i m] assms by simp

lemmas view_simps = get_view view_get view_put get_maxSeen put_maxSeen

end

section \<open>Acceptor slots\<close>

record AcceptorSlotMap =
  asm_Slots :: "SlotID \<rightharpoonup> AcceptorSlot"
  asm_Rnd :: ProposerRound
  asm_MaxSeen :: SlotID

definition blankAcceptorSlot :: "SlotID \<Rightarrow> AcceptorSlot" where
  "blankAcceptorSlot i = \<lparr>as_ID = i, VRnd = ZeroRound, VVal = zeroValue\<rparr>"

definition NewAcceptorSlotMap :: AcceptorSlotMap where
  "NewAcceptorSlotMap = \<lparr>asm_Slots = Map.empty, asm_Rnd = ZeroRound, asm_MaxSeen = 0\<rparr>"

definition GetAcceptorSlot :: "SlotID \<Rightarrow> AcceptorSlotMap \<Rightarrow> AcceptorSlot \<times> AcceptorSlotMap" where
  "GetAcceptorSlot i sm =
     (let slot = (case asm_Slots sm i of None \<Rightarrow> blankAcceptorSlot i | Some s \<Rightarrow> s);
          sm = sm\<lparr>asm_Slots := (asm_Slots sm)(i \<mapsto> slot)\<rparr>;
          sm = (if i > asm_MaxSeen sm then sm\<lparr>asm_MaxSeen := i\<rparr> else sm)
      in (slot, sm))"

definition PutAcceptorSlot :: "SlotID \<Rightarrow> AcceptorSlot \<Rightarrow> AcceptorSlotMap \<Rightarrow> AcceptorSlotMap" where
  "PutAcceptorSlot i slot sm = sm\<lparr>asm_Slots := (asm_Slots sm)(i \<mapsto> slot)\<rparr>"

interpretation asm: slot_map
  GetAcceptorSlot PutAcceptorSlot asm_Slots asm_MaxSeen blankAcceptorSlot
  by unfold_locales
    (auto simp: GetAcceptorSlot_def PutAcceptorSlot_def Let_def max_def split: option.splits)

lemma GetAcceptorSlot_Rnd [simp]: "asm_Rnd (snd (GetAcceptorSlot i sm)) = asm_Rnd sm"
  by (simp add: GetAcceptorSlot_def Let_def)

lemma PutAcceptorSlot_Rnd [simp]: "asm_Rnd (PutAcceptorSlot i s sm) = asm_Rnd sm"
  by (simp add: PutAcceptorSlot_def)

section \<open>Proposer slots\<close>

record ProposerSlot =
  ps_ID :: SlotID
  Proposal :: "Accept option"
  SentCount :: "8 word"

record ProposerSlotMap =
  psm_Slots :: "SlotID \<rightharpoonup> ProposerSlot"
  psm_MaxSeen :: SlotID

definition blankProposerSlot :: "SlotID \<Rightarrow> ProposerSlot" where
  "blankProposerSlot i = \<lparr>ps_ID = i, Proposal = None, SentCount = 0\<rparr>"

definition NewProposerSlotMap :: ProposerSlotMap where
  "NewProposerSlotMap = \<lparr>psm_Slots = Map.empty, psm_MaxSeen = 0\<rparr>"

definition GetProposerSlot :: "SlotID \<Rightarrow> ProposerSlotMap \<Rightarrow> ProposerSlot \<times> ProposerSlotMap" where
  "GetProposerSlot i sm =
     (let slot = (case psm_Slots sm i of None \<Rightarrow> blankProposerSlot i | Some s \<Rightarrow> s);
          sm = sm\<lparr>psm_Slots := (psm_Slots sm)(i \<mapsto> slot)\<rparr>;
          sm = (if i > psm_MaxSeen sm then sm\<lparr>psm_MaxSeen := i\<rparr> else sm)
      in (slot, sm))"

definition PutProposerSlot :: "SlotID \<Rightarrow> ProposerSlot \<Rightarrow> ProposerSlotMap \<Rightarrow> ProposerSlotMap" where
  "PutProposerSlot i slot sm = sm\<lparr>psm_Slots := (psm_Slots sm)(i \<mapsto> slot)\<rparr>"

interpretation psm: slot_map
  GetProposerSlot PutProposerSlot psm_Slots psm_MaxSeen blankProposerSlot
  by unfold_locales
    (auto simp: GetProposerSlot_def PutProposerSlot_def Let_def max_def split: option.splits)

section \<open>Learner slots\<close>

text \<open>\<open>Learns\<close> is a slice of pointers indexed by Paxos id: \<open>None\<close> is a nil pointer.\<close>

record LearnerSlot =
  ls_ID :: SlotID
  Learned :: bool
  ls_Rnd :: ProposerRound
  Learns :: "Learn option list"
  Votes :: "64 word"
  LearnedVal :: Value
  Decided :: bool

record LearnerSlotMap =
  lsm_Slots :: "SlotID \<rightharpoonup> LearnerSlot"
  lsm_MaxSeen :: SlotID

definition blankLearnerSlot :: "SlotID \<Rightarrow> LearnerSlot" where
  "blankLearnerSlot i =
     \<lparr>ls_ID = i, Learned = False, ls_Rnd = ZeroRound, Learns = [], Votes = 0,
      LearnedVal = zeroValue, Decided = False\<rparr>"

definition NewLearnerSlotMap :: LearnerSlotMap where
  "NewLearnerSlotMap = \<lparr>lsm_Slots = Map.empty, lsm_MaxSeen = 0\<rparr>"

definition GetLearnerSlot :: "SlotID \<Rightarrow> LearnerSlotMap \<Rightarrow> LearnerSlot \<times> LearnerSlotMap" where
  "GetLearnerSlot i sm =
     (let slot = (case lsm_Slots sm i of None \<Rightarrow> blankLearnerSlot i | Some s \<Rightarrow> s);
          sm = sm\<lparr>lsm_Slots := (lsm_Slots sm)(i \<mapsto> slot)\<rparr>;
          sm = (if i > lsm_MaxSeen sm then sm\<lparr>lsm_MaxSeen := i\<rparr> else sm)
      in (slot, sm))"

definition PutLearnerSlot :: "SlotID \<Rightarrow> LearnerSlot \<Rightarrow> LearnerSlotMap \<Rightarrow> LearnerSlotMap" where
  "PutLearnerSlot i slot sm = sm\<lparr>lsm_Slots := (lsm_Slots sm)(i \<mapsto> slot)\<rparr>"

interpretation lsm: slot_map
  GetLearnerSlot PutLearnerSlot lsm_Slots lsm_MaxSeen blankLearnerSlot
  by unfold_locales
    (auto simp: GetLearnerSlot_def PutLearnerSlot_def Let_def max_def split: option.splits)

text \<open>
  The Live Replacement learner: \<open>Learns\<close> grows by appending, \<open>Voted\<close> is the map of senders, held
  as the list of its keys.
\<close>

record LearnerLrSlot =
  lr_ID :: SlotID
  lr_Learned :: bool
  lr_Rnd :: ProposerRound
  lr_Learns :: "Learn list"
  lr_Votes :: "64 word"
  Voted :: "gid list"
  lr_LearnedVal :: Value
  lr_Decided :: bool
  CheckVQ :: bool

record LearnerLrSlotMap =
  lrsm_Slots :: "SlotID \<rightharpoonup> LearnerLrSlot"
  lrsm_MaxSeen :: SlotID

definition blankLearnerLrSlot :: "SlotID \<Rightarrow> LearnerLrSlot" where
  "blankLearnerLrSlot i =
     \<lparr>lr_ID = i, lr_Learned = False, lr_Rnd = ZeroRound, lr_Learns = [], lr_Votes = 0, Voted = [],
      lr_LearnedVal = zeroValue, lr_Decided = False, CheckVQ = False\<rparr>"

definition NewLearnerLrSlotMap :: LearnerLrSlotMap where
  "NewLearnerLrSlotMap = \<lparr>lrsm_Slots = Map.empty, lrsm_MaxSeen = 0\<rparr>"

definition GetLearnerLrSlot :: "SlotID \<Rightarrow> LearnerLrSlotMap \<Rightarrow> LearnerLrSlot \<times> LearnerLrSlotMap" where
  "GetLearnerLrSlot i sm =
     (let slot = (case lrsm_Slots sm i of None \<Rightarrow> blankLearnerLrSlot i | Some s \<Rightarrow> s);
          sm = sm\<lparr>lrsm_Slots := (lrsm_Slots sm)(i \<mapsto> slot)\<rparr>;
          sm = (if i > lrsm_MaxSeen sm then sm\<lparr>lrsm_MaxSeen := i\<rparr> else sm)
      in (slot, sm))"

definition PutLearnerLrSlot :: "SlotID \<Rightarrow> LearnerLrSlot \<Rightarrow> LearnerLrSlotMap \<Rightarrow> LearnerLrSlotMap" where
  "PutLearnerLrSlot i slot sm = sm\<lparr>lrsm_Slots := (lrsm_Slots sm)(i \<mapsto> slot)\<rparr>"

interpretation lrsm: slot_map
  GetLearnerLrSlot PutLearnerLrSlot lrsm_Slots lrsm_MaxSeen blankLearnerLrSlot
  by unfold_locales
    (auto simp: GetLearnerLrSlot_def PutLearnerLrSlot_def Let_def max_def split: option.splits)

section \<open>Ranges of slots\<close>

definition slotRange :: "SlotID \<Rightarrow> SlotID \<Rightarrow> SlotID list" where
  "slotRange a b = map of_nat [unat a..<unat b]"

lemma slotRange_snoc:
  assumes "a \<le> b" and "b \<noteq> - 1"
  shows "slotRange a (b + 1) = slotRange a b @ [b]"
proof -
  have "b < - 1" using assms(2) by (simp add: order.not_eq_order_implies_strict)
  then have "unat (b + 1) = Suc (unat b)" by (rule unat_Suc_word)
  moreover have "unat a \<le> unat b" using assms(1) by (simp add: word_le_nat_alt)
  ultimately show ?thesis by (simp add: slotRange_def)
qed

lemma slotRange_iff: "s \<in> set (slotRange a b) \<longleftrightarrow> a \<le> s \<and> s < b"
proof
  assume "s \<in> set (slotRange a b)"
  then obtain n where n: "s = of_nat n" "unat a \<le> n" "n < unat b"
    by (auto simp: slotRange_def)
  then have "unat s = n"
    using unsigned_less [of b] by (auto simp: unat_of_nat intro: mod_less order.strict_trans)
  with n show "a \<le> s \<and> s < b" by (simp add: word_le_nat_alt word_less_nat_alt)
next
  assume "a \<le> s \<and> s < b"
  then show "s \<in> set (slotRange a b)"
    by (auto simp: slotRange_def word_le_nat_alt word_less_nat_alt intro!: image_eqI [of _ _ "unat s"])
qed

lemma slotRange_Cons: "i < n \<Longrightarrow> slotRange i n = i # slotRange (i + 1) n"
  using unat_Suc_word [of i n]
  by (simp add: slotRange_def word_less_nat_alt upt_conv_Cons del: upt_Suc)

lemma slotRange_empty: "\<not> i < n \<Longrightarrow> slotRange i n = []"
  by (simp add: slotRange_def word_less_nat_alt)

lemma for_lt_collect:
  "for_lt i n (\<lambda>i ts. if P i then ts @ [f i] else ts) ts = ts @ map f (filter P (slotRange i n))"
proof (induction i n "\<lambda>i ts. if P i then ts @ [f i] else ts" ts rule: for_lt.induct)
  case (1 i n ts)
  then show ?case
    by (cases "i < n") (simp_all add: for_lt_step slotRange_Cons slotRange_empty)
qed

section \<open>Copying an acceptor's slots\<close>

definition copyAccSlot :: "AcceptorSlotMap \<Rightarrow> SlotID \<Rightarrow> AcceptorSlotMap \<Rightarrow> AcceptorSlotMap" where
  "copyAccSlot source slotCounter sm =
     (case asm_Slots source slotCounter of
        Some slot \<Rightarrow> sm\<lparr>asm_Slots := (asm_Slots sm)(slotCounter \<mapsto> slot), asm_MaxSeen := slotCounter\<rparr>
      | None \<Rightarrow> sm)"

definition CopyAccSlotMapRange ::
  "SlotID \<Rightarrow> AcceptorSlotMap option \<Rightarrow> AcceptorSlotMap result" where
  "CopyAccSlotMapRange afterSlotID sourceSlotMap =
     (case sourceSlotMap of
        None \<Rightarrow> Ok NewAcceptorSlotMap
      | Some source \<Rightarrow>
          let sm = NewAcceptorSlotMap\<lparr>asm_Rnd := asm_Rnd source\<rparr>
          in case for_le (afterSlotID + 1) (asm_MaxSeen source) (copyAccSlot source) sm of
               None \<Rightarrow> Fault Diverges
             | Some sm \<Rightarrow> Ok sm)"

section \<open>The all-decided-up-to counter\<close>

record Adu =
  adu_val :: SlotID

definition NewAdu :: "SlotID \<Rightarrow> Adu" where
  "NewAdu sid = \<lparr>adu_val = sid\<rparr>"

definition Increment :: "Adu \<Rightarrow> Adu" where
  "Increment a = a\<lparr>adu_val := adu_val a + 1\<rparr>"

text \<open>
  The copy of an acceptor's slot map holds exactly the slots above \<open>afterSlotID\<close>, unchanged, and the
  acceptor's round, and its \<open>MaxSeen\<close> bounds them.
\<close>

theorem CopyAccSlotMapRange_correct:
  assumes "asm.bounded src" and "asm_MaxSeen src \<noteq> - 1" and "afterSlot \<noteq> - 1"
  shows "\<exists>sm. CopyAccSlotMapRange afterSlot (Some src) = Inr sm \<and> asm_Rnd sm = asm_Rnd src \<and>
    (\<forall>i. asm_Slots sm i = (if afterSlot < i then asm_Slots src i else None)) \<and> asm.bounded sm"
proof -
  let ?m = "asm_MaxSeen src" and ?sm0 = "NewAcceptorSlotMap\<lparr>asm_Rnd := asm_Rnd src\<rparr>"
  define sm where "sm = for_lt (afterSlot + 1) (?m + 1) (copyAccSlot src) ?sm0"
  define I where "I j sm \<longleftrightarrow> asm_Rnd sm = asm_Rnd src \<and> asm.bounded sm \<and>
    (\<forall>i. asm_Slots sm i = (if afterSlot + 1 \<le> i \<and> i < j then asm_Slots src i else None)) \<and>
    (asm_MaxSeen sm < j \<or> asm_Slots sm = Map.empty)" for j sm
  have above: "afterSlot + 1 \<le> i \<longleftrightarrow> afterSlot < i" for i
    using word_Suc_le_iff [of afterSlot "- 1" i] assms(3) by (simp add: less_le)
  have init: "I j ?sm0" if "j \<le> afterSlot + 1" for j
    using that by (auto simp: I_def NewAcceptorSlotMap_def asm.bounded_def)
  have "I (?m + 1) sm"
  proof (cases "afterSlot + 1 \<le> ?m + 1")
    case True
    show ?thesis
      unfolding sm_def
    proof (rule for_lt_invariant [OF True])
      show "I (afterSlot + 1) ?sm0" by (rule init) simp
    next
      fix j sm
      assume j: "afterSlot + 1 \<le> j" "j < ?m + 1" and "I j sm"
      then show "I (j + 1) (copyAccSlot src j sm)"
        by (cases "asm_Slots src j")
          (auto simp: I_def copyAccSlot_def asm.bounded_def word_less_Suc_bounded [OF j(2)] le_less
            split: if_splits)
    qed
  next
    case False
    then show ?thesis using init [of "?m + 1"] by (simp add: sm_def)
  qed
  moreover have "i \<le> ?m" if "asm_Slots src i = Some s" for i s
    using assms(1) that by (simp add: asm.bounded_def)
  ultimately have "asm_Slots sm i = (if afterSlot < i then asm_Slots src i else None)" for i
    by (cases "asm_Slots src i") (auto simp: I_def above word_less_Suc_iff [OF assms(2)])
  with \<open>I (?m + 1) sm\<close> show ?thesis
    by (simp add: CopyAccSlotMapRange_def for_le_eq_for_lt [OF assms(2)] sm_def I_def)
qed

theorem CopyAccSlotMapRange_correct_witness:
  "\<exists>sm. CopyAccSlotMapRange 1 (Some (snd (GetAcceptorSlot 2 NewAcceptorSlotMap))) = Inr sm \<and>
    asm_Slots sm 2 = Some (blankAcceptorSlot 2)"
proof -
  let ?src = "snd (GetAcceptorSlot 2 NewAcceptorSlotMap)"
  have "asm.bounded ?src"
    by (rule asm.bounded_get) (simp add: asm.bounded_def NewAcceptorSlotMap_def)
  moreover have "asm_MaxSeen ?src \<noteq> - 1" and "(1 :: SlotID) \<noteq> - 1"
    by (simp_all add: GetAcceptorSlot_def NewAcceptorSlotMap_def Let_def)
  moreover have "asm_Slots ?src 2 = Some (blankAcceptorSlot 2)"
    by (simp add: GetAcceptorSlot_def NewAcceptorSlotMap_def Let_def)
  ultimately show ?thesis
    using CopyAccSlotMapRange_correct [of ?src 1] by fastforce
qed

end
