(* ===== verification/Ballots.thy ===== *)
theory Ballots
  imports SlotMaps
begin

text \<open>
  What an acceptor promises, apart from how it stores it: an abstract acceptor with the round it
  is bound to and its last vote per slot, and the contract \<open>acceptor_contract\<close> that ties an
  implementation's handlers to it. The MultiPaxos acceptor (three modes) and the ParallelPaxos
  acceptor are its instances; the lemmas of the contract are proved here once.
\<close>

section \<open>The abstract acceptor\<close>

record Ballot =
  promised :: ProposerRound
  votes :: "SlotID \<Rightarrow> ProposerRound \<times> Value"

definition abs_prepare :: "ProposerRound \<Rightarrow> Ballot \<Rightarrow> bool \<times> Ballot" where
  "abs_prepare r b = (if promised b < r then (True, b\<lparr>promised := r\<rparr>) else (False, b))"

definition abs_accept :: "SlotID \<Rightarrow> ProposerRound \<Rightarrow> Value \<Rightarrow> Ballot \<Rightarrow> bool \<times> Ballot" where
  "abs_accept s r x b =
     (if promised b \<le> r \<and> fst (votes b s) \<noteq> r
      then (True, b\<lparr>promised := r, votes := (votes b)(s := (r, x))\<rparr>) else (False, b))"

text \<open>A vote is never in a round above the one the acceptor is bound to.\<close>

definition ballot_ok :: "Ballot \<Rightarrow> bool" where
  "ballot_ok b \<longleftrightarrow> (\<forall>s. fst (votes b s) \<le> promised b)"

lemma abs_prepare_ok: "ballot_ok b \<Longrightarrow> ballot_ok (snd (abs_prepare r b))"
  by (auto simp: ballot_ok_def abs_prepare_def intro: order_trans less_imp_le)

lemma abs_accept_ok: "ballot_ok b \<Longrightarrow> ballot_ok (snd (abs_accept s r x b))"
  by (auto simp: ballot_ok_def abs_accept_def intro: order_trans)

text \<open>The order in which states of one acceptor follow each other.\<close>

definition ballot_le :: "Ballot \<Rightarrow> Ballot \<Rightarrow> bool" where
  "ballot_le b b' \<longleftrightarrow> promised b \<le> promised b' \<and>
     (\<forall>s. fst (votes b s) \<le> fst (votes b' s)) \<and>
     (\<forall>s. fst (votes b s) = fst (votes b' s) \<longrightarrow> votes b s = votes b' s)"

lemma ballot_le_refl [simp]: "ballot_le b b"
  by (simp add: ballot_le_def)

lemma ballot_le_trans: "ballot_le a b \<Longrightarrow> ballot_le b c \<Longrightarrow> ballot_le a c"
  unfolding ballot_le_def by (metis order_antisym order_trans)

lemma abs_prepare_le: "ballot_le b (snd (abs_prepare r b))"
  by (auto simp: ballot_le_def abs_prepare_def)

lemma abs_accept_le: "ballot_ok b \<Longrightarrow> ballot_le b (snd (abs_accept s r x b))"
  by (auto simp: ballot_le_def ballot_ok_def abs_accept_def intro: order_trans)

text \<open>
  What a promise says of the acceptor's votes from \<open>lo\<close> on: every vote is in it, and every entry
  is a vote or the zero value of a slot (which names slot 0 and no round).
\<close>

definition reports :: "SlotID \<Rightarrow> Ballot \<Rightarrow> AcceptorSlot list \<Rightarrow> bool" where
  "reports lo b es \<longleftrightarrow>
     (\<forall>s\<ge>lo. ZeroRound < fst (votes b s) \<longrightarrow>
        (\<exists>e\<in>set es. as_ID e = s \<and> (VRnd e, VVal e) = votes b s)) \<and>
     (\<forall>e\<in>set es. e = blankAcceptorSlot 0 \<or>
        lo \<le> as_ID e \<and> ZeroRound < VRnd e \<and> (VRnd e, VVal e) = votes b (as_ID e))"

section \<open>The contract of an acceptor implementation\<close>

locale acceptor_contract =
  fixes prep :: "GrpMgr \<Rightarrow> Prepare \<Rightarrow> 'a \<Rightarrow> (Promise option \<times> gid \<times> 'a) result"
    and acc :: "GrpMgr \<Rightarrow> Accept \<Rightarrow> 'a \<Rightarrow> Learn option \<times> 'a"
    and ballot :: "'a \<Rightarrow> Ballot"
    and good :: "'a \<Rightarrow> bool"
    and me :: "'a \<Rightarrow> gid"
    and hears_prep :: "Prepare \<Rightarrow> 'a \<Rightarrow> bool"
    and hears_acc :: "Accept \<Rightarrow> 'a \<Rightarrow> bool"
  assumes good_ok: "good a \<Longrightarrow> ballot_ok (ballot a)"
    and prep_good: "good a \<Longrightarrow> prep gm m a = Inr (po, d, a') \<Longrightarrow> good a' \<and> me a' = me a"
    and prep_step: "good a \<Longrightarrow> prep gm m a = Inr (po, d, a') \<Longrightarrow>
      (po \<noteq> None, ballot a') =
        (if hears_prep m a then abs_prepare (prep_CRnd m) (ballot a) else (False, ballot a))"
    and prep_report: "good a \<Longrightarrow> prep gm m a = Inr (Some p, d, a') \<Longrightarrow>
      d = prep_ID m \<and> prom_ID p = me a \<and> prom_Rnd p = prep_CRnd m \<and>
      reports (prep_Slot m) (ballot a) (prom_AccSlots p)"
    and acc_good: "good a \<Longrightarrow> acc gm n a = (lo, a') \<Longrightarrow> good a' \<and> me a' = me a"
    and acc_step: "good a \<Longrightarrow> acc gm n a = (lo, a') \<Longrightarrow>
      (lo \<noteq> None, ballot a') =
        (if hears_acc n a then abs_accept (acc_Slot n) (acc_Rnd n) (acc_Val n) (ballot a)
         else (False, ballot a))"
    and acc_learn: "good a \<Longrightarrow> acc gm n a = (Some l, a') \<Longrightarrow>
      lrn_ID l = me a \<and> lrn_Slot l = acc_Slot n \<and> lrn_Rnd l = acc_Rnd n \<and> lrn_Val l = acc_Val n"
begin

lemma prep_le: "good a \<Longrightarrow> prep gm m a = Inr (p, d, a') \<Longrightarrow> ballot_le (ballot a) (ballot a')"
  using prep_step [of a gm m p d a'] abs_prepare_le [of "ballot a" "prep_CRnd m"]
  by (auto split: if_splits dest: arg_cong [where f = snd])

lemma acc_le: "good a \<Longrightarrow> acc gm m a = (l, a') \<Longrightarrow> ballot_le (ballot a) (ballot a')"
  using acc_step [of a gm m l a'] abs_accept_le [OF good_ok, of a "acc_Slot m" "acc_Rnd m" "acc_Val m"]
  by (auto split: if_splits dest: arg_cong [where f = snd])

lemma prep_promise:
  assumes "good a" and "prep gm m a = Inr (Some p, d, a')"
  shows "promised (ballot a) < prep_CRnd m \<and> promised (ballot a') = prep_CRnd m \<and>
    votes (ballot a') = votes (ballot a)"
  using prep_step [OF assms] by (auto simp: abs_prepare_def split: if_splits)

lemma prep_none: "good a \<Longrightarrow> prep gm m a = Inr (None, d, a') \<Longrightarrow> ballot a' = ballot a"
  using prep_step [of a gm m None d a'] by (auto simp: abs_prepare_def split: if_splits)

lemma acc_vote:
  assumes "good a" and "acc gm m a = (Some l, a')"
  shows "promised (ballot a) \<le> acc_Rnd m \<and> fst (votes (ballot a) (acc_Slot m)) < acc_Rnd m \<and>
    ballot a' = (ballot a)\<lparr>promised := acc_Rnd m,
      votes := (votes (ballot a))(acc_Slot m := (acc_Rnd m, acc_Val m))\<rparr>"
proof -
  have "fst (votes (ballot a) (acc_Slot m)) \<le> promised (ballot a)"
    using good_ok [OF assms(1)] by (simp add: ballot_ok_def)
  then show ?thesis
    using acc_step [OF assms] by (auto simp: abs_accept_def le_less split: if_splits)
qed

lemma acc_none: "good a \<Longrightarrow> acc gm m a = (None, a') \<Longrightarrow> ballot a' = ballot a"
  using acc_step [of a gm m None a'] by (auto simp: abs_accept_def split: if_splits)

text \<open>Once bound to a round, an acceptor never votes in a lower one.\<close>

lemma no_vote_below:
  assumes "good a" and "acc gm m a = (Some l, a')" and "r \<le> promised (ballot a)"
  shows "\<not> lrn_Rnd l < r"
  using acc_vote [OF assms(1,2)] acc_learn [OF assms(1,2)] assms(3) by auto

text \<open>A promise reports the votes the acceptor had when it was given, all in lower rounds.\<close>

lemma promise_votes_below:
  assumes "good a" and "prep gm m a = Inr (Some p, d, a')"
    and "e \<in> set (prom_AccSlots p)" and "e \<noteq> blankAcceptorSlot 0"
  shows "VRnd e < prom_Rnd p \<and> (VRnd e, VVal e) = votes (ballot a) (as_ID e)"
proof -
  have "(VRnd e, VVal e) = votes (ballot a) (as_ID e)"
    using prep_report [OF assms(1,2)] assms(3,4) by (auto simp: reports_def)
  moreover have "fst (votes (ballot a) (as_ID e)) < prom_Rnd p"
    using good_ok [OF assms(1)] prep_promise [OF assms(1,2)] prep_report [OF assms(1,2)]
    by (auto simp: ballot_ok_def intro: le_less_trans)
  ultimately show ?thesis by (metis fst_conv)
qed

end

end
