(* ===== verification/Acceptor.thy ===== *)
theory Acceptor
  imports Ballots
begin

text \<open>
  The MultiPaxos acceptor (\<open>src/multipaxos/acceptor.go\<close>): its state, the handlers for prepares
  and accepts in the three operating modes (plain, Live Replacement, asynchronous
  reconfiguration), the state and slot requests, and the event loop of \<open>Start\<close> as a step
  function. The channels it writes to are the lists of what was written, oldest first; the
  group manager it reads is an argument.
\<close>

section \<open>State\<close>

text \<open>\<open>handlePrepare\<close> and \<open>handleAccept\<close> are function fields set once by the constructor.\<close>

datatype mode = PlainMode | LrMode | ArMode

definition modeOf :: "GrpMgr \<Rightarrow> mode" where
  "modeOf gm = (if lrEnabled gm then LrMode else if arEnabled gm then ArMode else PlainMode)"

record MultiAcceptor =
  ma_id :: gid
  ma_started :: bool
  ma_startable :: bool
  ma_processing :: bool
  ma_leader :: gid
  ma_lowSlot :: SlotID
  ma_slots :: AcceptorSlotMap
  ma_mode :: mode
  ma_ucast :: "(gid \<times> dynamic) list"
  ma_bcast :: "dynamic list"
  ma_responses :: "AcceptorSlotMap list"

definition NewMultiAcceptor ::
  "gid \<Rightarrow> bool \<Rightarrow> gid \<Rightarrow> SlotID \<Rightarrow> GrpMgr \<Rightarrow> MultiAcceptor" where
  "NewMultiAcceptor i runAcc paxosLeader nextExpectedDcd gm =
     \<lparr>ma_id = i, ma_started = False, ma_startable = runAcc, ma_processing = False,
      ma_leader = paxosLeader, ma_lowSlot = nextExpectedDcd,
      ma_slots = NewAcceptorSlotMap\<lparr>asm_MaxSeen := nextExpectedDcd\<rparr>,
      ma_mode = modeOf gm, ma_ucast = [], ma_bcast = [], ma_responses = []\<rparr>"

section \<open>Handling prepares\<close>

text \<open>The body of the loop over \<open>[msg.Slot, max]\<close>: slots with a vote are copied into the promise.\<close>

definition collectSlot ::
  "SlotID \<Rightarrow> AcceptorSlot list \<times> AcceptorSlotMap \<Rightarrow> AcceptorSlot list \<times> AcceptorSlotMap" where
  "collectSlot i = (\<lambda>(accslots, sm).
     let (slot, sm) = GetAcceptorSlot i sm
     in (if Compare (VRnd slot) ZeroRound > 0 then accslots @ [slot] else accslots, sm))"

text \<open>
  \<open>make([]px.AcceptorSlot, msg.Slot-max)\<close> makes a slice of that many zero values when the prepare's
  slot is at or above \<open>max\<close> (\<open>int(msg.Slot-max) >= 0\<close> reads the difference as signed). How much memory
  the process can get is not modelled: Go panics when the length is more than that.
\<close>

definition initialAccSlots :: "SlotID \<Rightarrow> SlotID \<Rightarrow> AcceptorSlot list" where
  "initialAccSlots slot mx =
     (if 0 \<le> sint (slot - mx) then replicate (unat (slot - mx)) (blankAcceptorSlot 0) else [])"

definition handlePrep ::
  "Prepare \<Rightarrow> MultiAcceptor \<Rightarrow> (Promise option \<times> gid \<times> MultiAcceptor) result" where
  "handlePrep msg a =
     (if Compare (asm_Rnd (ma_slots a)) (prep_CRnd msg) \<ge> 0 then Ok (None, UndefinedID, a)
      else
        let sm = (ma_slots a)\<lparr>asm_Rnd := prep_CRnd msg\<rparr>;
            mx = asm_MaxSeen sm;
            accslots = initialAccSlots (prep_Slot msg) mx
        in case for_le (prep_Slot msg) mx collectSlot (accslots, sm) of
             None \<Rightarrow> Fault Diverges
           | Some (accslots, sm) \<Rightarrow>
               Ok (Some \<lparr>prom_ID = ma_id a, prom_Rnd = asm_Rnd sm, prom_AccSlots = accslots,
                     prom_EpochVector = []\<rparr>,
                   prep_ID msg, a\<lparr>ma_slots := sm\<rparr>))"

definition handlePrepAr ::
  "Prepare \<Rightarrow> MultiAcceptor \<Rightarrow> (Promise option \<times> gid \<times> MultiAcceptor) result" where
  "handlePrepAr msg a =
     (if Epoch (prep_ID msg) \<noteq> Epoch (ma_id a) then Ok (None, UndefinedID, a)
      else if Compare (asm_Rnd (ma_slots a)) (prep_CRnd msg) \<ge> 0 then Ok (None, UndefinedID, a)
      else
        let sm = (ma_slots a)\<lparr>asm_Rnd := prep_CRnd msg\<rparr>;
            mx = asm_MaxSeen sm;
            accslots = initialAccSlots (prep_Slot msg) mx
        in case for_le (prep_Slot msg) mx collectSlot (accslots, sm) of
             None \<Rightarrow> Fault Diverges
           | Some (accslots, sm) \<Rightarrow>
               Ok (Some \<lparr>prom_ID = ma_id a, prom_Rnd = asm_Rnd sm, prom_AccSlots = accslots,
                     prom_EpochVector = []\<rparr>,
                   prep_ID msg, a\<lparr>ma_slots := sm\<rparr>))"

definition handlePrepLr ::
  "GrpMgr \<Rightarrow> Prepare \<Rightarrow> MultiAcceptor \<Rightarrow> (Promise option \<times> gid \<times> MultiAcceptor) result" where
  "handlePrepLr gm msg a =
     (if Compare (asm_Rnd (ma_slots a)) (prep_CRnd msg) \<ge> 0 then Ok (None, UndefinedID, a)
      else
        let sm = (ma_slots a)\<lparr>asm_Rnd := prep_CRnd msg\<rparr>;
            mx = asm_MaxSeen sm;
            accslots = initialAccSlots (prep_Slot msg) mx
        in case for_le (prep_Slot msg) mx collectSlot (accslots, sm) of
             None \<Rightarrow> Fault Diverges
           | Some (accslots, sm) \<Rightarrow>
               Ok (Some \<lparr>prom_ID = ma_id a, prom_Rnd = asm_Rnd sm, prom_AccSlots = accslots,
                     prom_EpochVector = Epochs gm\<rparr>,
                   prep_ID msg, a\<lparr>ma_slots := sm\<rparr>))"

section \<open>Handling accepts\<close>

definition handleAcc :: "Accept \<Rightarrow> MultiAcceptor \<Rightarrow> Learn option \<times> MultiAcceptor" where
  "handleAcc msg a =
     (let a = (if \<not> ma_processing a then a\<lparr>ma_processing := True\<rparr> else a)
      in if acc_Slot msg < ma_lowSlot a then (None, a)
      else
        let (slot, sm) = GetAcceptorSlot (acc_Slot msg) (ma_slots a)
        in if Compare (asm_Rnd sm) (acc_Rnd msg) = 1 \<or> Compare (acc_Rnd msg) (VRnd slot) = 0
           then (None, a\<lparr>ma_slots := sm\<rparr>)
           else
             let sm = (if Compare (asm_Rnd sm) (acc_Rnd msg) = - 1
                       then sm\<lparr>asm_Rnd := acc_Rnd msg\<rparr> else sm);
                 slot = slot\<lparr>VRnd := acc_Rnd msg, VVal := acc_Val msg\<rparr>;
                 sm = PutAcceptorSlot (acc_Slot msg) slot sm
             in (Some \<lparr>lrn_ID = ma_id a, lrn_Slot = as_ID slot, lrn_Rnd = asm_Rnd sm,
                   lrn_Val = VVal slot, lrn_EpochVector = []\<rparr>, a\<lparr>ma_slots := sm\<rparr>))"

definition handleAccAr :: "Accept \<Rightarrow> MultiAcceptor \<Rightarrow> Learn option \<times> MultiAcceptor" where
  "handleAccAr msg a =
     (let a = (if \<not> ma_processing a then a\<lparr>ma_processing := True\<rparr> else a)
      in if acc_Slot msg < ma_lowSlot a then (None, a)
      else if Epoch (acc_ID msg) \<noteq> Epoch (ma_id a) then (None, a)
      else
        let (slot, sm) = GetAcceptorSlot (acc_Slot msg) (ma_slots a)
        in if Compare (asm_Rnd sm) (acc_Rnd msg) = 1 \<or> Compare (acc_Rnd msg) (VRnd slot) = 0
           then (None, a\<lparr>ma_slots := sm\<rparr>)
           else
             let sm = (if Compare (asm_Rnd sm) (acc_Rnd msg) = - 1
                       then sm\<lparr>asm_Rnd := acc_Rnd msg\<rparr> else sm);
                 slot = slot\<lparr>VRnd := acc_Rnd msg, VVal := acc_Val msg\<rparr>;
                 sm = PutAcceptorSlot (acc_Slot msg) slot sm
             in (Some \<lparr>lrn_ID = ma_id a, lrn_Slot = as_ID slot, lrn_Rnd = asm_Rnd sm,
                   lrn_Val = VVal slot, lrn_EpochVector = []\<rparr>, a\<lparr>ma_slots := sm\<rparr>))"

definition handleAccLr :: "GrpMgr \<Rightarrow> Accept \<Rightarrow> MultiAcceptor \<Rightarrow> Learn option \<times> MultiAcceptor" where
  "handleAccLr gm msg a =
     (let a = (if \<not> ma_processing a then a\<lparr>ma_processing := True\<rparr> else a)
      in if acc_Slot msg < ma_lowSlot a then (None, a)
      else
        let (slot, sm) = GetAcceptorSlot (acc_Slot msg) (ma_slots a)
        in if Compare (asm_Rnd sm) (acc_Rnd msg) = 1 \<or> Compare (acc_Rnd msg) (VRnd slot) = 0
           then (None, a\<lparr>ma_slots := sm\<rparr>)
           else
             let sm = (if Compare (asm_Rnd sm) (acc_Rnd msg) = - 1
                       then sm\<lparr>asm_Rnd := acc_Rnd msg\<rparr> else sm);
                 slot = slot\<lparr>VRnd := acc_Rnd msg, VVal := acc_Val msg\<rparr>;
                 sm = PutAcceptorSlot (acc_Slot msg) slot sm
             in (Some \<lparr>lrn_ID = ma_id a, lrn_Slot = as_ID slot, lrn_Rnd = asm_Rnd sm,
                   lrn_Val = VVal slot, lrn_EpochVector = Epochs gm\<rparr>, a\<lparr>ma_slots := sm\<rparr>))"

definition handlePrepare ::
  "GrpMgr \<Rightarrow> Prepare \<Rightarrow> MultiAcceptor \<Rightarrow> (Promise option \<times> gid \<times> MultiAcceptor) result" where
  "handlePrepare gm msg a =
     (case ma_mode a of
        LrMode \<Rightarrow> handlePrepLr gm msg a
      | ArMode \<Rightarrow> handlePrepAr msg a
      | PlainMode \<Rightarrow> handlePrep msg a)"

definition handleAccept :: "GrpMgr \<Rightarrow> Accept \<Rightarrow> MultiAcceptor \<Rightarrow> Learn option \<times> MultiAcceptor" where
  "handleAccept gm msg a =
     (case ma_mode a of
        LrMode \<Rightarrow> handleAccLr gm msg a
      | ArMode \<Rightarrow> handleAccAr msg a
      | PlainMode \<Rightarrow> handleAcc msg a)"

section \<open>State requests and the event loop\<close>

definition acc_SetState :: "AcceptorSlotMap \<Rightarrow> MultiAcceptor \<Rightarrow> MultiAcceptor" where
  "acc_SetState slots a = a\<lparr>ma_slots := slots\<rparr>"

definition acc_SetLowSlot :: "SlotID \<Rightarrow> MultiAcceptor \<Rightarrow> MultiAcceptor" where
  "acc_SetLowSlot slot a = a\<lparr>ma_lowSlot := slot\<rparr>"

text \<open>The acceptor waits for the release and then reads its identity again from the group manager.\<close>

definition handleStateRequest :: "GrpMgr \<Rightarrow> SlotID \<Rightarrow> MultiAcceptor \<Rightarrow> MultiAcceptor result" where
  "handleStateRequest gm afterSlot a =
     bind_result (CopyAccSlotMapRange afterSlot (Some (ma_slots a))) (\<lambda>slotMap.
       Ok (a\<lparr>ma_responses := ma_responses a @ [slotMap], ma_id := gm_id gm\<rparr>))"

definition handleSlotRequest :: "MultiAcceptor \<Rightarrow> MultiAcceptor" where
  "handleSlotRequest a =
     (let emptyMap = NewAcceptorSlotMap\<lparr>asm_MaxSeen := asm_MaxSeen (ma_slots a),
                       asm_Rnd := asm_Rnd (ma_slots a)\<rparr>
      in a\<lparr>ma_responses := ma_responses a @ [emptyMap]\<rparr>)"

definition acc_Start :: "MultiAcceptor \<Rightarrow> MultiAcceptor" where
  "acc_Start a = (if \<not> ma_startable a \<or> ma_started a then a else a\<lparr>ma_started := True\<rparr>)"

definition acc_send :: "message \<Rightarrow> gid \<Rightarrow> MultiAcceptor \<Rightarrow> MultiAcceptor" where
  "acc_send msg dest a = a\<lparr>ma_ucast := ma_ucast a @ [(dest, Struct msg)]\<rparr>"

definition acc_broadcast :: "message \<Rightarrow> MultiAcceptor \<Rightarrow> MultiAcceptor" where
  "acc_broadcast msg a = a\<lparr>ma_bcast := ma_bcast a @ [Struct msg]\<rparr>"

datatype acceptor_event =
    APrepare Prepare
  | AAccept Accept
  | ATrust gid
  | AStateRequest SlotID
  | ASlotRequest
  | AStop

fun acceptor_step :: "GrpMgr \<Rightarrow> acceptor_event \<Rightarrow> MultiAcceptor \<Rightarrow> MultiAcceptor result" where
  "acceptor_step gm (APrepare prepare) a =
     bind_result (handlePrepare gm prepare a) (\<lambda>(promise, dest, a).
       Ok (case promise of None \<Rightarrow> a | Some p \<Rightarrow> acc_send (MPromise p) dest a))"
| "acceptor_step gm (AAccept accept) a =
     (let (learn, a) = handleAccept gm accept a
      in Ok (case learn of None \<Rightarrow> a | Some l \<Rightarrow> acc_broadcast (MLearn l) a))"
| "acceptor_step gm (ATrust trustID) a = Ok (a\<lparr>ma_leader := trustID\<rparr>)"
| "acceptor_step gm (AStateRequest afterSlot) a = handleStateRequest gm afterSlot a"
| "acceptor_step gm ASlotRequest a = Ok (handleSlotRequest a)"
| "acceptor_step gm AStop a = Ok (a\<lparr>ma_started := False\<rparr>)"

section \<open>The abstract acceptor in the slot map\<close>

definition ballotOf :: "AcceptorSlotMap \<Rightarrow> Ballot" where
  "ballotOf sm = \<lparr>promised = asm_Rnd sm, votes = (\<lambda>s. (VRnd (asm.view sm s), VVal (asm.view sm s)))\<rparr>"

definition wf_acceptorSlots :: "AcceptorSlotMap \<Rightarrow> bool" where
  "wf_acceptorSlots sm \<longleftrightarrow> asm.bounded sm \<and> (\<forall>i. as_ID (asm.view sm i) = i) \<and>
     (\<forall>i. VRnd (asm.view sm i) \<le> asm_Rnd sm)"

lemma asm_view_Rnd_update [simp]: "asm.view (sm\<lparr>asm_Rnd := r\<rparr>) = asm.view sm"
  by (rule ext) (simp add: asm.view_def)

lemma asm_bounded_Rnd_update [simp]: "asm.bounded (sm\<lparr>asm_Rnd := r\<rparr>) = asm.bounded sm"
  by (simp add: asm.bounded_def)

lemma wf_NewAcceptorSlotMap: "wf_acceptorSlots (NewAcceptorSlotMap\<lparr>asm_MaxSeen := i\<rparr>)"
  by (simp add: wf_acceptorSlots_def NewAcceptorSlotMap_def asm.bounded_def asm.view_def
      blankAcceptorSlot_def)

lemma wf_acceptorSlots_ok: "wf_acceptorSlots sm \<Longrightarrow> ballot_ok (ballotOf sm)"
  by (simp add: wf_acceptorSlots_def ballot_ok_def ballotOf_def)

lemma initialAccSlots_blank: "e \<in> set (initialAccSlots s mx) \<Longrightarrow> e = blankAcceptorSlot 0"
  by (auto simp: initialAccSlots_def split: if_splits)

text \<open>Collecting slots changes nothing an acceptor can see, and finds exactly the voted slots.\<close>

definition voted_slots :: "AcceptorSlotMap \<Rightarrow> SlotID \<Rightarrow> AcceptorSlot set" where
  "voted_slots sm lo = {asm.view sm i | i. lo \<le> i \<and> ZeroRound < VRnd (asm.view sm i)}"

lemma collectSlot_step:
  assumes "collectSlot j (es, sm) = (es', sm')"
  shows "asm.view sm' = asm.view sm \<and> asm_Rnd sm' = asm_Rnd sm \<and>
    (asm.bounded sm \<longrightarrow> asm.bounded sm') \<and> asm_MaxSeen sm' = max j (asm_MaxSeen sm) \<and>
    es' = es @ (if ZeroRound < VRnd (asm.view sm j) then [asm.view sm j] else [])"
proof -
  obtain slot sm1 where get: "GetAcceptorSlot j sm = (slot, sm1)"
    by (cases "GetAcceptorSlot j sm")
  then show ?thesis
    using assms asm.get_eqD [OF get] asm.bounded_get [of sm j] GetAcceptorSlot_Rnd [of j sm]
    by (auto simp: collectSlot_def split: if_splits)
qed

lemma collect_loop:
  assumes "asm.bounded sm" and "for_le lo (asm_MaxSeen sm) collectSlot (init, sm) = Some (es, sm')"
  shows "asm.view sm' = asm.view sm \<and> asm_Rnd sm' = asm_Rnd sm \<and> asm.bounded sm' \<and>
    asm_MaxSeen sm' = asm_MaxSeen sm \<and> (\<exists>xs. es = init @ xs \<and> set xs = voted_slots sm lo)"
proof -
  let ?m = "asm_MaxSeen sm"
  define I where "I j st \<longleftrightarrow> asm.view (snd st) = asm.view sm \<and> asm_Rnd (snd st) = asm_Rnd sm \<and>
    asm.bounded (snd st) \<and> asm_MaxSeen (snd st) = ?m \<and>
    (\<exists>xs. fst st = init @ xs \<and>
      set xs = {asm.view sm i | i. lo \<le> i \<and> i < j \<and> ZeroRound < VRnd (asm.view sm i)})" for j st
  have m: "?m \<noteq> - 1" and res: "(es, sm') = for_lt lo (?m + 1) collectSlot (init, sm)"
    using assms(2) by (simp_all add: for_le_Some_iff)
  have "I (if lo \<le> ?m + 1 then ?m + 1 else lo) (es, sm')"
  proof (cases "lo \<le> ?m + 1")
    case True
    have "I (?m + 1) (for_lt lo (?m + 1) collectSlot (init, sm))"
    proof (rule for_lt_invariant [OF True])
      show "I lo (init, sm)" using assms(1) by (auto simp: I_def)
    next
      fix j st
      assume j: "lo \<le> j" "j < ?m + 1" and I: "I j st"
      obtain es1 sm1 where st: "st = (es1, sm1)" by (cases st)
      obtain es2 sm2 where st2: "collectSlot j (es1, sm1) = (es2, sm2)"
        by (cases "collectSlot j (es1, sm1)")
      from collectSlot_step [OF st2] I obtain xs where xs: "es1 = init @ xs"
          "set xs = {asm.view sm i | i. lo \<le> i \<and> i < j \<and> ZeroRound < VRnd (asm.view sm i)}"
          "es2 = init @ xs @ (if ZeroRound < VRnd (asm.view sm j) then [asm.view sm j] else [])"
          "asm.view sm2 = asm.view sm" "asm_Rnd sm2 = asm_Rnd sm" "asm.bounded sm2"
          "asm_MaxSeen sm2 = max j ?m"
        by (auto simp: I_def st)
      have mx: "max j ?m = ?m"
        using j(2) by (simp add: word_less_Suc_iff [OF m])
      have "set (xs @ (if ZeroRound < VRnd (asm.view sm j) then [asm.view sm j] else [])) =
          {asm.view sm i | i. lo \<le> i \<and> i < j + 1 \<and> ZeroRound < VRnd (asm.view sm i)}"
        using j(1) by (auto simp: xs(2) word_less_Suc_bounded [OF j(2)] le_less)
      then have "\<exists>xs. es2 = init @ xs \<and>
          set xs = {asm.view sm i | i. lo \<le> i \<and> i < j + 1 \<and> ZeroRound < VRnd (asm.view sm i)}"
        using xs(3) by blast
      then show "I (j + 1) (collectSlot j st)"
        unfolding st st2 I_def fst_conv snd_conv using xs(4-7) mx by simp
    qed
    with True res show ?thesis by simp
  next
    case False
    then show ?thesis using assms(1) res by (auto simp: I_def)
  qed
  moreover have "{asm.view sm i | i. lo \<le> i \<and> i < (if lo \<le> ?m + 1 then ?m + 1 else lo) \<and>
      ZeroRound < VRnd (asm.view sm i)} = voted_slots sm lo"
  proof -
    have "i < (if lo \<le> ?m + 1 then ?m + 1 else lo)"
      if "lo \<le> i" and "ZeroRound < VRnd (asm.view sm i)" for i
    proof -
      have "i \<le> ?m"
        using that(2) asm.view_unseen [OF assms(1), of i]
        by (cases "i \<le> ?m") (auto simp: blankAcceptorSlot_def)
      then have "i < ?m + 1" by (simp add: word_less_Suc_iff [OF m])
      moreover from this that(1) have "lo \<le> ?m + 1" by (simp only: order_trans less_imp_le)
      ultimately show ?thesis by simp
    qed
    then show ?thesis
      unfolding voted_slots_def by (intro Collect_cong) blast
  qed
  ultimately show ?thesis by (simp add: I_def)
qed

section \<open>The handlers implement the abstract acceptor\<close>

text \<open>The three modes differ in the epoch vector they attach and in the senders they listen to.\<close>

definition noEpochs :: "GrpMgr \<Rightarrow> GrpMgr" where
  "noEpochs gm = gm\<lparr>nodeMap := (nodeMap gm)\<lparr>epochs := []\<rparr>\<rparr>"

lemma Epochs_noEpochs: "Epochs (noEpochs gm) = []"
  by (simp add: noEpochs_def Epochs_def)

lemma mark_processing [simp]:
  "(if \<not> ma_processing a then a\<lparr>ma_processing := True\<rparr> else a) = a\<lparr>ma_processing := True\<rparr>"
  by (cases a) simp

lemma handlePrep_as_Lr: "handlePrep m a = handlePrepLr (noEpochs gm) m a"
  by (simp only: handlePrep_def handlePrepLr_def Epochs_noEpochs)

lemma handlePrepAr_as_plain:
  "handlePrepAr m a =
     (if Epoch (prep_ID m) \<noteq> Epoch (ma_id a) then Ok (None, UndefinedID, a) else handlePrep m a)"
  by (simp add: handlePrep_def handlePrepAr_def)

lemma handleAcc_as_Lr: "handleAcc m a = handleAccLr (noEpochs gm) m a"
  by (simp only: handleAcc_def handleAccLr_def Epochs_noEpochs)

lemma handleAccAr_as_plain:
  "handleAccAr m a =
     (if ma_lowSlot a \<le> acc_Slot m \<and> Epoch (acc_ID m) \<noteq> Epoch (ma_id a)
      then (None, a\<lparr>ma_processing := True\<rparr>) else handleAcc m a)"
  unfolding handleAcc_def handleAccAr_def mark_processing Let_def by (simp flip: not_less)

definition prepare_law ::
  "bool \<Rightarrow> Prepare \<Rightarrow> MultiAcceptor \<Rightarrow> Promise option \<times> gid \<times> MultiAcceptor \<Rightarrow> bool" where
  "prepare_law heard m a = (\<lambda>(po, d, a').
     wf_acceptorSlots (ma_slots a') \<and> ma_id a' = ma_id a \<and>
     (po \<noteq> None, ballotOf (ma_slots a')) =
       (if heard then abs_prepare (prep_CRnd m) (ballotOf (ma_slots a))
        else (False, ballotOf (ma_slots a))) \<and>
     (\<forall>p. po = Some p \<longrightarrow> d = prep_ID m \<and> prom_ID p = ma_id a \<and> prom_Rnd p = prep_CRnd m \<and>
        reports (prep_Slot m) (ballotOf (ma_slots a)) (prom_AccSlots p)))"

definition accept_law ::
  "bool \<Rightarrow> Accept \<Rightarrow> MultiAcceptor \<Rightarrow> Learn option \<times> MultiAcceptor \<Rightarrow> bool" where
  "accept_law heard m a = (\<lambda>(lo, a').
     wf_acceptorSlots (ma_slots a') \<and> ma_id a' = ma_id a \<and>
     (lo \<noteq> None, ballotOf (ma_slots a')) =
       (if heard then abs_accept (acc_Slot m) (acc_Rnd m) (acc_Val m) (ballotOf (ma_slots a))
        else (False, ballotOf (ma_slots a))) \<and>
     (\<forall>l. lo = Some l \<longrightarrow> lrn_ID l = ma_id a \<and> lrn_Slot l = acc_Slot m \<and> lrn_Rnd l = acc_Rnd m \<and>
        lrn_Val l = acc_Val m))"

lemma reports_voted_slots:
  assumes "\<forall>i. as_ID (asm.view sm i) = i" and "set es = set (initialAccSlots lo mx) \<union> voted_slots sm lo"
  shows "reports lo (ballotOf sm) es"
  unfolding reports_def
proof (intro conjI allI ballI impI)
  fix s assume "lo \<le> s" and "ZeroRound < fst (votes (ballotOf sm) s)"
  then have "asm.view sm s \<in> voted_slots sm lo"
    by (auto simp: voted_slots_def ballotOf_def)
  with assms show "\<exists>e\<in>set es. as_ID e = s \<and> (VRnd e, VVal e) = votes (ballotOf sm) s"
    by (intro bexI [of _ "asm.view sm s"]) (simp_all add: ballotOf_def)
next
  fix e assume "e \<in> set es"
  with assms show "e = blankAcceptorSlot 0 \<or>
      lo \<le> as_ID e \<and> ZeroRound < VRnd e \<and> (VRnd e, VVal e) = votes (ballotOf sm) (as_ID e)"
    by (auto simp: voted_slots_def ballotOf_def dest: initialAccSlots_blank)
qed

lemma handlePrepLr_law:
  assumes wf: "wf_acceptorSlots (ma_slots a)" and run: "handlePrepLr gm m a = Inr r"
  shows "prepare_law True m a r"
proof (cases "prep_CRnd m \<le> asm_Rnd (ma_slots a)")
  case True
  then show ?thesis
    using wf run by (auto simp: handlePrepLr_def prepare_law_def abs_prepare_def ballotOf_def)
next
  case False
  let ?sm = "(ma_slots a)\<lparr>asm_Rnd := prep_CRnd m\<rparr>"
  obtain es sm' where loop: "for_le (prep_Slot m) (asm_MaxSeen ?sm) collectSlot
        (initialAccSlots (prep_Slot m) (asm_MaxSeen ?sm), ?sm) = Some (es, sm')"
      and r: "r = (Some \<lparr>prom_ID = ma_id a, prom_Rnd = asm_Rnd sm', prom_AccSlots = es,
        prom_EpochVector = Epochs gm\<rparr>, prep_ID m, a\<lparr>ma_slots := sm'\<rparr>)"
    using run False by (auto simp: handlePrepLr_def Let_def split: option.splits)
  have sm': "asm.view sm' = asm.view (ma_slots a)" "asm_Rnd sm' = prep_CRnd m" "asm.bounded sm'"
      and es: "set es = set (initialAccSlots (prep_Slot m) (asm_MaxSeen ?sm)) \<union>
        voted_slots (ma_slots a) (prep_Slot m)"
    using collect_loop [OF _ loop] wf by (auto simp: wf_acceptorSlots_def voted_slots_def)
  have "wf_acceptorSlots sm'"
    using wf False sm' by (auto simp: wf_acceptorSlots_def intro: order_trans less_imp_le)
  moreover have "reports (prep_Slot m) (ballotOf (ma_slots a)) es"
    using wf es by (intro reports_voted_slots) (auto simp: wf_acceptorSlots_def)
  ultimately show ?thesis
    using False sm' by (simp add: r prepare_law_def abs_prepare_def ballotOf_def)
qed

lemma handlePrep_law:
  "wf_acceptorSlots (ma_slots a) \<Longrightarrow> handlePrep m a = Inr r \<Longrightarrow> prepare_law True m a r"
  unfolding handlePrep_as_Lr [of m a undefined] by (rule handlePrepLr_law)

lemma handlePrepAr_law:
  assumes "wf_acceptorSlots (ma_slots a)" and "handlePrepAr m a = Inr r"
  shows "prepare_law (Epoch (prep_ID m) = Epoch (ma_id a)) m a r"
  using assms handlePrep_law [OF assms(1)]
  by (cases "Epoch (prep_ID m) = Epoch (ma_id a)")
    (auto simp: handlePrepAr_as_plain prepare_law_def)

lemma asm_view_Put_Rnd: "asm.view (PutAcceptorSlot i s sm) = (asm.view sm)(i := s)"
  by (rule asm.view_put)

lemma handleAccLr_law:
  assumes wf: "wf_acceptorSlots (ma_slots a)"
  shows "accept_law (ma_lowSlot a \<le> acc_Slot m) m a (handleAccLr gm m a)"
proof (cases "ma_lowSlot a \<le> acc_Slot m")
  case False
  then show ?thesis
    using wf unfolding handleAccLr_def accept_law_def mark_processing Let_def by (simp flip: not_less)
next
  case True
  let ?s = "acc_Slot m" and ?r = "acc_Rnd m" and ?sm = "ma_slots a"
  obtain slot sm where get: "GetAcceptorSlot ?s ?sm = (slot, sm)"
    by (cases "GetAcceptorSlot ?s ?sm")
  then have view: "slot = asm.view ?sm ?s" "asm.view sm = asm.view ?sm" "asm_Rnd sm = asm_Rnd ?sm"
      "asm_MaxSeen sm = max ?s (asm_MaxSeen ?sm)" "asm.bounded sm"
    using asm.get_eqD [OF get] asm.bounded_get [of ?sm ?s] GetAcceptorSlot_Rnd [of ?s ?sm] wf
    by (auto simp: wf_acceptorSlots_def)
  define slot' where "slot' = slot\<lparr>VRnd := ?r, VVal := acc_Val m\<rparr>"
  define sm1 where "sm1 = (if asm_Rnd sm < ?r then sm\<lparr>asm_Rnd := ?r\<rparr> else sm)"
  have sm1: "asm.view sm1 = asm.view ?sm" "asm.bounded sm1" "asm_MaxSeen sm1 = asm_MaxSeen sm"
    using view by (simp_all add: sm1_def)
  have IDs: "as_ID (asm.view ?sm i) = i" and le: "VRnd (asm.view ?sm i) \<le> asm_Rnd ?sm" for i
    using wf by (simp_all add: wf_acceptorSlots_def)
  show ?thesis
  proof (cases "?r < asm_Rnd ?sm \<or> ?r = VRnd slot")
    case refuse: True
    then have run: "handleAccLr gm m a = (None, a\<lparr>ma_processing := True, ma_slots := sm\<rparr>)"
      using True get view unfolding handleAccLr_def mark_processing Let_def by (auto simp: not_le)
    have "wf_acceptorSlots sm" "ballotOf sm = ballotOf ?sm"
      using wf view by (simp_all add: wf_acceptorSlots_def ballotOf_def)
    with refuse True view show ?thesis
      by (auto simp: run accept_law_def abs_accept_def ballotOf_def)
  next
    case vote: False
    then have rnd: "asm_Rnd sm1 = ?r" "asm_Rnd ?sm \<le> ?r"
      using view by (auto simp: sm1_def)
    define sm2 where "sm2 = PutAcceptorSlot ?s slot' sm1"
    have run: "handleAccLr gm m a = (Some \<lparr>lrn_ID = ma_id a, lrn_Slot = as_ID slot', lrn_Rnd = asm_Rnd sm1,
        lrn_Val = VVal slot', lrn_EpochVector = Epochs gm\<rparr>,
        a\<lparr>ma_processing := True, ma_slots := sm2\<rparr>)"
      using True get vote view unfolding handleAccLr_def mark_processing Let_def
      by (auto simp: not_le sm1_def slot'_def sm2_def)
    have v2: "asm.view sm2 = (asm.view ?sm)(?s := slot')" "asm_Rnd sm2 = ?r" "asm.bounded sm2"
      using sm1 rnd view asm.bounded_put [of sm1 ?s slot'] by (simp_all add: sm2_def asm_view_Put_Rnd)
    then have "wf_acceptorSlots sm2"
      using IDs le rnd view by (auto simp: wf_acceptorSlots_def slot'_def intro: order_trans)
    moreover have "ballotOf sm2 = snd (abs_accept ?s ?r (acc_Val m) (ballotOf ?sm))"
      "fst (abs_accept ?s ?r (acc_Val m) (ballotOf ?sm))"
      using v2 rnd vote view by (auto simp: ballotOf_def abs_accept_def slot'_def fun_eq_iff)
    moreover have "as_ID slot' = ?s" using IDs view by (simp add: slot'_def)
    ultimately show ?thesis
      using True rnd by (simp add: run accept_law_def slot'_def prod_eq_iff)
  qed
qed

text \<open>Which messages an acceptor acts on, by mode.\<close>

definition hears_prepare :: "Prepare \<Rightarrow> MultiAcceptor \<Rightarrow> bool" where
  "hears_prepare m a \<longleftrightarrow> (ma_mode a = ArMode \<longrightarrow> Epoch (prep_ID m) = Epoch (ma_id a))"

definition hears_accept :: "Accept \<Rightarrow> MultiAcceptor \<Rightarrow> bool" where
  "hears_accept m a \<longleftrightarrow> ma_lowSlot a \<le> acc_Slot m \<and>
     (ma_mode a = ArMode \<longrightarrow> Epoch (acc_ID m) = Epoch (ma_id a))"

lemma handlePrepare_law:
  assumes "wf_acceptorSlots (ma_slots a)" and "handlePrepare gm m a = Inr r"
  shows "prepare_law (hears_prepare m a) m a r"
  using assms handlePrepLr_law [OF assms(1)] handlePrep_law [OF assms(1)]
    handlePrepAr_law [OF assms(1)]
  by (cases "ma_mode a") (auto simp: handlePrepare_def hears_prepare_def)

lemma handleAccept_law:
  assumes "wf_acceptorSlots (ma_slots a)"
  shows "accept_law (hears_accept m a) m a (handleAccept gm m a)"
proof (cases "ma_mode a")
  case ArMode
  have "accept_law (ma_lowSlot a \<le> acc_Slot m) m a (handleAcc m a)"
    unfolding handleAcc_as_Lr [of m a gm] by (rule handleAccLr_law [OF assms])
  then show ?thesis
    using ArMode assms
    by (auto simp: handleAccept_def handleAccAr_as_plain hears_accept_def accept_law_def)
next
  case PlainMode
  then show ?thesis
    using handleAccLr_law [OF assms, of m "noEpochs gm"]
    by (simp add: handleAccept_def hears_accept_def flip: handleAcc_as_Lr)
next
  case LrMode
  then show ?thesis
    using handleAccLr_law [OF assms, of m gm] by (simp add: handleAccept_def hears_accept_def)
qed

interpretation multi: acceptor_contract
  handlePrepare handleAccept "\<lambda>a. ballotOf (ma_slots a)" "\<lambda>a. wf_acceptorSlots (ma_slots a)" ma_id
  hears_prepare hears_accept
proof
  fix gm and m :: Prepare and n :: Accept and a a' :: MultiAcceptor
    and po and p :: Promise and d lo and l :: Learn
  assume good: "wf_acceptorSlots (ma_slots a)"
  then show "ballot_ok (ballotOf (ma_slots a))" by (rule wf_acceptorSlots_ok)
  {
    assume "handlePrepare gm m a = Inr (po, d, a')"
    note law = handlePrepare_law [OF good this, unfolded prepare_law_def prod.case]
    from law show "wf_acceptorSlots (ma_slots a') \<and> ma_id a' = ma_id a" by blast
    from law show "(po \<noteq> None, ballotOf (ma_slots a')) =
      (if hears_prepare m a then abs_prepare (prep_CRnd m) (ballotOf (ma_slots a))
       else (False, ballotOf (ma_slots a)))" by blast
  }
  {
    assume "handlePrepare gm m a = Inr (Some p, d, a')"
    note law = handlePrepare_law [OF good this, unfolded prepare_law_def prod.case]
    from law show "d = prep_ID m \<and> prom_ID p = ma_id a \<and> prom_Rnd p = prep_CRnd m \<and>
      reports (prep_Slot m) (ballotOf (ma_slots a)) (prom_AccSlots p)" by blast
  }
  {
    assume run: "handleAccept gm n a = (lo, a')"
    note law = handleAccept_law [OF good, of n gm, unfolded run accept_law_def prod.case]
    from law show "wf_acceptorSlots (ma_slots a') \<and> ma_id a' = ma_id a" by blast
    from law show "(lo \<noteq> None, ballotOf (ma_slots a')) =
      (if hears_accept n a
       then abs_accept (acc_Slot n) (acc_Rnd n) (acc_Val n) (ballotOf (ma_slots a))
       else (False, ballotOf (ma_slots a)))" by blast
  }
  {
    assume run: "handleAccept gm n a = (Some l, a')"
    note law = handleAccept_law [OF good, of n gm, unfolded run accept_law_def prod.case]
    from law show "lrn_ID l = ma_id a \<and> lrn_Slot l = acc_Slot n \<and> lrn_Rnd l = acc_Rnd n \<and>
      lrn_Val l = acc_Val n" by blast
  }
qed

text \<open>
  C6. In each of the three modes, handling a prepare implements the abstract acceptor: it
  promises exactly when it listens to the sender and is bound to a lower round, its votes stay
  as they are, and the promise, sent back to the proposer, reports every vote from the
  prepare's slot on (any other entry is the zero value).
\<close>

theorem handlePrepare_refines:
  assumes "wf_acceptorSlots (ma_slots a)" and "handlePrepare gm m a = Inr (po, d, a')"
  shows "(po \<noteq> None, ballotOf (ma_slots a')) =
      (if hears_prepare m a then abs_prepare (prep_CRnd m) (ballotOf (ma_slots a))
       else (False, ballotOf (ma_slots a))) \<and>
    wf_acceptorSlots (ma_slots a') \<and>
    (\<forall>p. po = Some p \<longrightarrow> d = prep_ID m \<and> prom_ID p = ma_id a \<and> prom_Rnd p = prep_CRnd m \<and>
      reports (prep_Slot m) (ballotOf (ma_slots a)) (prom_AccSlots p))"
  using multi.prep_step [OF assms] multi.prep_good [OF assms] multi.prep_report [OF assms(1)] assms(2)
  by blast

text \<open>
  C7. In each of the three modes, handling an accept implements the abstract acceptor: a vote is cast exactly
  when the acceptor listens to the sender and the slot, is not bound to a higher round and has
  not voted in this round; the learn it returns is the vote.
\<close>

theorem handleAccept_refines:
  assumes "wf_acceptorSlots (ma_slots a)" and "handleAccept gm m a = (lo, a')"
  shows "(lo \<noteq> None, ballotOf (ma_slots a')) =
      (if hears_accept m a
       then abs_accept (acc_Slot m) (acc_Rnd m) (acc_Val m) (ballotOf (ma_slots a))
       else (False, ballotOf (ma_slots a))) \<and>
    wf_acceptorSlots (ma_slots a') \<and>
    (\<forall>l. lo = Some l \<longrightarrow> lrn_ID l = ma_id a \<and> lrn_Slot l = acc_Slot m \<and> lrn_Rnd l = acc_Rnd m \<and>
      lrn_Val l = acc_Val m)"
  using multi.acc_step [OF assms] multi.acc_good [OF assms] multi.acc_learn [OF assms(1)] assms(2)
  by blast

text \<open>
  Handling a prepare fails to return in one case only: the acceptor would promise, and its highest seen
  slot is the greatest \<open>uint\<close>, where the slot counter of the loop wraps around.
\<close>

theorem handlePrepare_returns:
  "handlePrepare gm m a =
     Fault Diverges \<longleftrightarrow>
     hears_prepare m a \<and> asm_Rnd (ma_slots a) < prep_CRnd m \<and> asm_MaxSeen (ma_slots a) = - 1"
proof -
  have Lr: "handlePrepLr gm m a = Fault Diverges \<longleftrightarrow>
      asm_Rnd (ma_slots a) < prep_CRnd m \<and> asm_MaxSeen (ma_slots a) = - 1" for gm
    by (cases "asm_MaxSeen (ma_slots a) = - 1")
      (auto simp: handlePrepLr_def Let_def for_le_diverges for_le_eq_for_lt not_le split: prod.splits)
  then show ?thesis
    by (cases "ma_mode a")
      (auto simp: handlePrepare_def hears_prepare_def handlePrepAr_as_plain handlePrep_as_Lr [of m a gm])
qed

lemma handlePrepare_faults: "handlePrepare gm m a = Inl e \<Longrightarrow> e = Diverges"
  by (cases "ma_mode a")
    (auto simp: handlePrepare_def handlePrepLr_def handlePrepAr_def handlePrep_def Let_def
      split: if_splits option.splits)

lemma handlePrepare_total:
  assumes "asm_MaxSeen (ma_slots a) \<noteq> - 1"
  shows "\<exists>po d a'. handlePrepare gm m a = Inr (po, d, a')"
  using assms handlePrepare_returns [of gm m a] handlePrepare_faults [of gm m a]
  by (cases "handlePrepare gm m a") auto

text \<open>A concrete acceptor for the witnesses.\<close>

definition someGrpMgr :: GrpMgr where
  "someGrpMgr = NewGrpMgr (ID 0 0)
     \<lparr>nodes = [], epochs = [], nrOfNodes = 0, nrOfAcceptors = 0, quorum = 1, idsMemoized = [],
      proposerIdsMemoized = [], acceptorIdsMemoized = [], learnerIdsMemoized = []\<rparr> False False"

definition someAcceptor :: MultiAcceptor where
  "someAcceptor = NewMultiAcceptor (ID 0 0) True (ID 1 0) 1 someGrpMgr"

lemma someAcceptor_wf: "wf_acceptorSlots (ma_slots someAcceptor)"
  by (simp add: someAcceptor_def NewMultiAcceptor_def wf_NewAcceptorSlotMap)

lemma someAcceptor_sel:
  "asm_MaxSeen (ma_slots someAcceptor) = 1" "asm_Rnd (ma_slots someAcceptor) = ZeroRound"
  "ma_mode someAcceptor = PlainMode" "ma_lowSlot someAcceptor = 1"
  by (simp_all add: someAcceptor_def NewMultiAcceptor_def NewAcceptorSlotMap_def modeOf_def
      someGrpMgr_def NewGrpMgr_def)

theorem handlePrepare_refines_witness:
  "\<exists>p d a'. handlePrepare someGrpMgr \<lparr>prep_ID = ID 1 0, prep_CRnd = Round 2 (ID 1 0), prep_Slot = 0\<rparr>
      someAcceptor = Inr (Some p, d, a') \<and> d = ID 1 0 \<and> prom_Rnd p = Round 2 (ID 1 0)"
proof -
  let ?m = "\<lparr>prep_ID = ID 1 0, prep_CRnd = Round 2 (ID 1 0), prep_Slot = 0\<rparr>"
  obtain po d a' where run: "handlePrepare someGrpMgr ?m someAcceptor = Inr (po, d, a')"
    using handlePrepare_total [of someAcceptor someGrpMgr ?m] by (auto simp: someAcceptor_sel)
  with handlePrepare_refines [OF someAcceptor_wf run] show ?thesis
    by (auto simp: hears_prepare_def someAcceptor_sel abs_prepare_def ballotOf_def ZeroRound_def
        round_less_iff)
qed

theorem handleAccept_refines_witness:
  "\<exists>l a'. handleAccept someGrpMgr
      \<lparr>acc_ID = ID 1 0, acc_Slot = 1, acc_Rnd = Round 2 (ID 1 0), acc_Val = zeroValue\<rparr>
      someAcceptor = (Some l, a') \<and> lrn_Slot l = 1 \<and> lrn_Rnd l = Round 2 (ID 1 0)"
proof -
  let ?m = "\<lparr>acc_ID = ID 1 0, acc_Slot = 1, acc_Rnd = Round 2 (ID 1 0), acc_Val = zeroValue\<rparr>"
  obtain lo a' where run: "handleAccept someGrpMgr ?m someAcceptor = (lo, a')"
    by (cases "handleAccept someGrpMgr ?m someAcceptor")
  have view: "asm.view (ma_slots someAcceptor) 1 = blankAcceptorSlot 1"
    by (simp add: asm.view_def someAcceptor_def NewMultiAcceptor_def NewAcceptorSlotMap_def)
  show ?thesis
    using handleAccept_refines [OF someAcceptor_wf run] run
    by (auto simp: hears_accept_def someAcceptor_sel abs_accept_def ballotOf_def view
        blankAcceptorSlot_def ZeroRound_def round_less_iff less_eq_ProposerRound_def Compare_def)
qed

end
