(* ===== verification/AcceptorRuns.thy ===== *)
theory AcceptorRuns
  imports Acceptor
begin

text \<open>
  Runs of the MultiPaxos acceptor's event loop (\<open>Start\<close> in \<open>src/multipaxos/acceptor.go\<close>) from its
  constructor on: the invariant that ties what was sent to the slot map, and the two promises of
  an acceptor that the protocol rests on.
\<close>

section \<open>Runs\<close>

text \<open>
  A run handles a list of events; each is paired with the group manager's state when it is
  handled.
\<close>

fun acceptor_run :: "(GrpMgr \<times> acceptor_event) list \<Rightarrow> MultiAcceptor \<Rightarrow> MultiAcceptor result" where
  "acceptor_run [] a = Ok a"
| "acceptor_run ((gm, e) # es) a = bind_result (acceptor_step gm e a) (acceptor_run es)"

definition sentLearns :: "MultiAcceptor \<Rightarrow> Learn set" where
  "sentLearns a = {l. \<exists>d\<in>set (ma_bcast a). payload d = MLearn l}"

definition sentPromises :: "MultiAcceptor \<Rightarrow> Promise set" where
  "sentPromises a = {p. \<exists>(d, m)\<in>set (ma_ucast a). payload m = MPromise p}"

lemma sent_send [simp]:
  "sentLearns (acc_broadcast (MLearn l) a) = insert l (sentLearns a)"
  "sentPromises (acc_broadcast m a) = sentPromises a"
  "sentPromises (acc_send (MPromise p) d a) = insert p (sentPromises a)"
  "sentLearns (acc_send m d a) = sentLearns a"
  "ma_slots (acc_broadcast m a) = ma_slots a"
  "ma_slots (acc_send m d a) = ma_slots a"
  by (auto simp: sentLearns_def sentPromises_def acc_broadcast_def acc_send_def)

lemma handlePrepare_sends_nothing:
  assumes "handlePrepare gm m a = Inr (po, d, a')"
  shows "ma_bcast a' = ma_bcast a \<and> ma_ucast a' = ma_ucast a"
  using assms
  by (cases "ma_mode a"; simp add: handlePrepare_def handlePrep_def handlePrepLr_def
      handlePrepAr_def Let_def split: if_splits option.splits prod.splits; blast?)
    (auto split: prod.splits)

lemma handleAccept_sends_nothing:
  assumes "handleAccept gm m a = (lo, a')"
  shows "ma_bcast a' = ma_bcast a \<and> ma_ucast a' = ma_ucast a"
  using assms
  by (cases "ma_mode a") (auto simp: handleAccept_def handleAcc_def handleAccLr_def
      handleAccAr_def Let_def split: if_splits prod.splits)

lemma sent_prepare:
  "handlePrepare gm m a = Inr (po, d, a') \<Longrightarrow>
     sentLearns a' = sentLearns a \<and> sentPromises a' = sentPromises a"
  by (drule handlePrepare_sends_nothing) (simp add: sentLearns_def sentPromises_def)

lemma sent_accept:
  "handleAccept gm m a = (lo, a') \<Longrightarrow>
     sentLearns a' = sentLearns a \<and> sentPromises a' = sentPromises a"
  by (drule handleAccept_sends_nothing) (simp add: sentLearns_def sentPromises_def)

section \<open>The invariant\<close>

text \<open>
  The slot map is well formed; every learn that was broadcast is at or below the acceptor's last
  vote for its slot and agrees with it in the same round; two learns for one slot and round
  agree; no promise is above the round the acceptor is bound to.
\<close>

definition learn_below :: "Ballot \<Rightarrow> Learn \<Rightarrow> bool" where
  "learn_below b l \<longleftrightarrow> lrn_Rnd l \<le> fst (votes b (lrn_Slot l)) \<and>
     (lrn_Rnd l = fst (votes b (lrn_Slot l)) \<longrightarrow> lrn_Val l = snd (votes b (lrn_Slot l)))"

definition learns_agree :: "Learn set \<Rightarrow> bool" where
  "learns_agree L \<longleftrightarrow> (\<forall>l\<in>L. \<forall>l'\<in>L.
     lrn_Slot l = lrn_Slot l' \<and> lrn_Rnd l = lrn_Rnd l' \<longrightarrow> lrn_Val l = lrn_Val l')"

definition acceptor_inv :: "MultiAcceptor \<Rightarrow> bool" where
  "acceptor_inv a \<longleftrightarrow> wf_acceptorSlots (ma_slots a) \<and>
     (\<forall>l\<in>sentLearns a. learn_below (ballotOf (ma_slots a)) l) \<and>
     learns_agree (sentLearns a) \<and>
     (\<forall>p\<in>sentPromises a. prom_Rnd p \<le> promised (ballotOf (ma_slots a)))"

lemma learn_below_mono:
  assumes "learn_below b l" and "ballot_le b b'"
  shows "learn_below b' l"
proof -
  let ?s = "lrn_Slot l"
  have le: "lrn_Rnd l \<le> fst (votes b ?s)" "fst (votes b ?s) \<le> fst (votes b' ?s)"
    using assms by (auto simp: learn_below_def ballot_le_def)
  have "lrn_Val l = snd (votes b' ?s)" if "lrn_Rnd l = fst (votes b' ?s)"
  proof -
    have "fst (votes b ?s) = fst (votes b' ?s)" using le that by simp
    then show ?thesis using assms that by (auto simp: learn_below_def ballot_le_def)
  qed
  with le show ?thesis by (auto simp: learn_below_def)
qed

text \<open>A new vote above every learn for its slot agrees with all of them.\<close>

lemma learns_agree_insert:
  assumes "learns_agree L" and "\<And>l'. l' \<in> L \<Longrightarrow> lrn_Slot l' = lrn_Slot l \<Longrightarrow> lrn_Rnd l' < lrn_Rnd l"
  shows "learns_agree (insert l L)"
  using assms unfolding learns_agree_def by (metis insert_iff less_irrefl)

text \<open>Frame lemma: a step that sends nothing and does not go back keeps the invariant.\<close>

lemma acceptor_inv_mono:
  assumes inv: "acceptor_inv a" and wf: "wf_acceptorSlots (ma_slots a')"
    and le: "ballot_le (ballotOf (ma_slots a)) (ballotOf (ma_slots a'))"
    and sent: "sentLearns a' = sentLearns a" "sentPromises a' = sentPromises a"
  shows "acceptor_inv a'"
  unfolding acceptor_inv_def sent
proof (intro conjI ballI)
  show "wf_acceptorSlots (ma_slots a')" by (rule wf)
  show "learn_below (ballotOf (ma_slots a')) l" if "l \<in> sentLearns a" for l
    using inv that learn_below_mono [OF _ le] unfolding acceptor_inv_def by blast
  show "learns_agree (sentLearns a)" using inv by (simp only: acceptor_inv_def)
  show "prom_Rnd p \<le> promised (ballotOf (ma_slots a'))" if "p \<in> sentPromises a" for p
    using inv that le unfolding acceptor_inv_def ballot_le_def by (blast intro: order_trans)
qed

lemma acceptor_inv_prepare:
  assumes inv: "acceptor_inv a" and step: "acceptor_step gm (APrepare m) a = Inr a'"
  shows "acceptor_inv a'"
proof -
  from inv have wf: "wf_acceptorSlots (ma_slots a)" by (simp only: acceptor_inv_def)
  from step obtain po d a1 where run: "handlePrepare gm m a = Inr (po, d, a1)"
      and a': "a' = (case po of None \<Rightarrow> a1 | Some p \<Rightarrow> acc_send (MPromise p) d a1)"
    by (auto simp: bind_result_Inr_iff)
  have inv1: "acceptor_inv a1"
    using acceptor_inv_mono [OF inv _ multi.prep_le [OF wf run]] multi.prep_good [OF wf run]
      sent_prepare [OF run] by blast
  show ?thesis
  proof (cases po)
    case None
    with inv1 a' show ?thesis by simp
  next
    case (Some p)
    have "prom_Rnd p = promised (ballotOf (ma_slots a1))"
      using multi.prep_promise [OF wf run [unfolded Some]]
        multi.prep_report [OF wf run [unfolded Some]] by simp
    then show ?thesis using inv1 unfolding a' Some acceptor_inv_def option.case sent_send by simp
  qed
qed

lemma acceptor_inv_accept:
  assumes inv: "acceptor_inv a" and step: "acceptor_step gm (AAccept m) a = Inr a'"
  shows "acceptor_inv a'"
proof -
  from inv have wf: "wf_acceptorSlots (ma_slots a)" by (simp only: acceptor_inv_def)
  from step obtain lo a1 where run: "handleAccept gm m a = (lo, a1)"
      and a': "a' = (case lo of None \<Rightarrow> a1 | Some l \<Rightarrow> acc_broadcast (MLearn l) a1)"
    by (auto split: prod.splits)
  note sent = sent_accept [OF run]
  have inv1: "acceptor_inv a1"
    using acceptor_inv_mono [OF inv _ multi.acc_le [OF wf run]] multi.acc_good [OF wf run] sent
    by blast
  show ?thesis
  proof (cases lo)
    case None
    with inv1 a' show ?thesis by simp
  next
    case (Some l)
    note vote = multi.acc_vote [OF wf run [unfolded Some]]
    note learn = multi.acc_learn [OF wf run [unfolded Some]]
    have "learn_below (ballotOf (ma_slots a1)) l"
      using vote learn by (simp add: learn_below_def)
    moreover have "learns_agree (insert l (sentLearns a1))"
    proof (rule learns_agree_insert)
      show "learns_agree (sentLearns a1)" using inv1 by (simp only: acceptor_inv_def)
      show "lrn_Rnd l' < lrn_Rnd l" if "l' \<in> sentLearns a1" "lrn_Slot l' = lrn_Slot l" for l'
      proof -
        have "learn_below (ballotOf (ma_slots a)) l'"
          using inv that sent unfolding acceptor_inv_def by blast
        then show ?thesis using that vote learn by (auto simp: learn_below_def)
      qed
    qed
    ultimately show ?thesis
      using inv1 unfolding a' Some acceptor_inv_def option.case sent_send by simp
  qed
qed

lemma acceptor_inv_frame:
  assumes "acceptor_inv a" and "ma_slots a' = ma_slots a" and "ma_bcast a' = ma_bcast a"
    and "ma_ucast a' = ma_ucast a"
  shows "acceptor_inv a'"
  using assms unfolding acceptor_inv_def sentLearns_def sentPromises_def by simp

lemma acceptor_step_inv:
  assumes inv: "acceptor_inv a" and step: "acceptor_step gm e a = Inr a'"
  shows "acceptor_inv a'"
proof (cases e)
  case (APrepare m)
  show ?thesis by (rule acceptor_inv_prepare [OF inv step [unfolded APrepare]])
next
  case (AAccept m)
  show ?thesis by (rule acceptor_inv_accept [OF inv step [unfolded AAccept]])
next
  case (AStateRequest s)
  with step show ?thesis
    by (intro acceptor_inv_frame [OF inv])
      (auto simp: handleStateRequest_def bind_result_Inr_iff)
qed (use step in \<open>intro acceptor_inv_frame [OF inv]; auto simp: handleSlotRequest_def Let_def\<close>)+

lemma acceptor_run_inv:
  assumes "acceptor_inv a" and "acceptor_run es a = Inr a'"
  shows "acceptor_inv a'"
  using assms
proof (induction es a rule: acceptor_run.induct)
  case (2 gm e es a)
  from "2.prems"(2) obtain a1 where "acceptor_step gm e a = Inr a1" "acceptor_run es a1 = Inr a'"
    by (auto simp: bind_result_Inr_iff)
  with 2 acceptor_step_inv show ?case by blast
qed simp

lemma NewMultiAcceptor_inv: "acceptor_inv (NewMultiAcceptor i r l s gm)"
  by (simp add: acceptor_inv_def NewMultiAcceptor_def wf_NewAcceptorSlotMap sentLearns_def
      sentPromises_def learns_agree_def)

section \<open>What a run guarantees\<close>

text \<open>
  C15. Over any run of its event loop a new acceptor never votes for two values in one slot and
  round.
\<close>

theorem acceptor_votes_once:
  assumes "acceptor_run es (NewMultiAcceptor i r ld s gm) = Inr a"
    and "l \<in> sentLearns a" and "l' \<in> sentLearns a"
    and "lrn_Slot l = lrn_Slot l'" and "lrn_Rnd l = lrn_Rnd l'"
  shows "lrn_Val l = lrn_Val l'"
  using acceptor_run_inv [OF NewMultiAcceptor_inv assms(1)] assms(2-5)
  unfolding acceptor_inv_def learns_agree_def by blast

text \<open>
  C16. After any run of its event loop, an accept that makes the acceptor broadcast a learn is in
  no lower round than any promise the acceptor has sent.
\<close>

theorem acceptor_keeps_promises:
  assumes "acceptor_run es (NewMultiAcceptor i r ld s gm) = Inr a"
    and "acceptor_step gm' (AAccept m) a = Inr a'" and "l \<in> sentLearns a' - sentLearns a"
    and "p \<in> sentPromises a"
  shows "prom_Rnd p \<le> lrn_Rnd l"
proof -
  have inv: "acceptor_inv a"
    by (rule acceptor_run_inv [OF NewMultiAcceptor_inv assms(1)])
  then have wf: "wf_acceptorSlots (ma_slots a)" by (simp only: acceptor_inv_def)
  obtain lo a1 where run: "handleAccept gm' m a = (lo, a1)"
      and a': "a' = (case lo of None \<Rightarrow> a1 | Some l \<Rightarrow> acc_broadcast (MLearn l) a1)"
    using assms(2) by (auto split: prod.splits)
  have "lo = Some l"
    using assms(3) sent_accept [OF run] unfolding a' by (cases lo) auto
  note run = run [unfolded this]
  have "prom_Rnd p \<le> promised (ballotOf (ma_slots a))"
    using inv assms(4) unfolding acceptor_inv_def by blast
  also have "\<dots> \<le> lrn_Rnd l"
    using multi.acc_vote [OF wf run] multi.acc_learn [OF wf run] by simp
  finally show ?thesis .
qed

section \<open>A concrete run\<close>

text \<open>
  Acceptor \<open>someAcceptor\<close> promises round 2 to replica 1, votes for its accept of slot 1, and hears a
  second accept of the same slot and round with another value.
\<close>

definition someRound :: ProposerRound where
  "someRound = Round 2 (ID 1 0)"

definition someAccept :: "Value \<Rightarrow> Accept" where
  "someAccept x = \<lparr>acc_ID = ID 1 0, acc_Slot = 1, acc_Rnd = someRound, acc_Val = x\<rparr>"

definition somePrepare :: Prepare where
  "somePrepare = \<lparr>prep_ID = ID 1 0, prep_CRnd = someRound, prep_Slot = 1\<rparr>"

definition someApp :: Value where
  "someApp = \<lparr>Vt = App, Cr = [], Rc = None\<rparr>"

definition someLearn :: Learn where
  "someLearn = \<lparr>lrn_ID = ID 0 0, lrn_Slot = 1, lrn_Rnd = someRound, lrn_Val = someApp,
     lrn_EpochVector = []\<rparr>"

lemmas some_run_defs = someAcceptor_def NewMultiAcceptor_def modeOf_def someGrpMgr_def
  NewGrpMgr_def handlePrepare_def handlePrep_def handleAccept_def handleAcc_def somePrepare_def
  someAccept_def someRound_def someApp_def someLearn_def NewAcceptorSlotMap_def collectSlot_def initialAccSlots_def
  GetAcceptorSlot_def PutAcceptorSlot_def blankAcceptorSlot_def ZeroRound_def acc_send_def
  acc_broadcast_def Let_def


definition someAcceptor1 :: MultiAcceptor where
  "someAcceptor1 = someAcceptor\<lparr>ma_slots := \<lparr>asm_Slots = [1 \<mapsto> blankAcceptorSlot 1], asm_Rnd = someRound, asm_MaxSeen = 1\<rparr>, ma_ucast := [(ID 1 0, Struct (MPromise \<lparr>prom_ID = ID 0 0, prom_Rnd = someRound, prom_AccSlots = [], prom_EpochVector = []\<rparr>))]\<rparr>"

definition someAcceptor2 :: MultiAcceptor where
  "someAcceptor2 = someAcceptor1\<lparr>ma_processing := True, ma_slots := \<lparr>asm_Slots = [1 \<mapsto> \<lparr>as_ID = 1, VRnd = someRound, VVal = someApp\<rparr>], asm_Rnd = someRound, asm_MaxSeen = 1\<rparr>, ma_bcast := [Struct (MLearn someLearn)]\<rparr>"

lemma some_run1:
  "acceptor_step someGrpMgr (APrepare somePrepare) someAcceptor = Inr someAcceptor1"
  by (simp add: some_run_defs for_le_eq_for_lt for_lt.simps round_less_iff someAcceptor1_def
      less_eq_ProposerRound_def Compare_def id_cmp.cmp_refl)

lemma some_run2:
  "acceptor_step someGrpMgr (AAccept (someAccept someApp)) someAcceptor1 = Inr someAcceptor2"
  by (simp add: some_run_defs round_less_iff someAcceptor1_def someAcceptor2_def
      less_eq_ProposerRound_def Compare_def)

lemma some_run3:
  "acceptor_step someGrpMgr (AAccept (someAccept zeroValue)) someAcceptor2 = Inr someAcceptor2"
  by (simp add: some_run_defs round_less_iff someAcceptor1_def someAcceptor2_def
      less_eq_ProposerRound_def Compare_def)

lemma some_sent:
  "sentPromises someAcceptor1 =
     {\<lparr>prom_ID = ID 0 0, prom_Rnd = someRound, prom_AccSlots = [], prom_EpochVector = []\<rparr>}"
  "sentLearns someAcceptor1 = {}" "sentLearns someAcceptor2 = {someLearn}"
  by (simp_all add: sentPromises_def sentLearns_def someAcceptor1_def someAcceptor2_def
      someAcceptor_def NewMultiAcceptor_def)

theorem acceptor_votes_once_witness:
  "lrn_Slot someLearn = 1 \<and> lrn_Rnd someLearn = someRound \<and>
   lrn_Val ` sentLearns someAcceptor2 = {someApp}"
proof -
  have run: "acceptor_run [(someGrpMgr, APrepare somePrepare),
      (someGrpMgr, AAccept (someAccept someApp)), (someGrpMgr, AAccept (someAccept zeroValue))]
      (NewMultiAcceptor (ID 0 0) True (ID 1 0) 1 someGrpMgr) = Inr someAcceptor2"
    by (simp add: some_run1 some_run2 some_run3 flip: someAcceptor_def del: acceptor_step.simps)
  have "lrn_Val l = lrn_Val someLearn" if "l \<in> sentLearns someAcceptor2" for l
    by (rule acceptor_votes_once [OF run that]) (use that in \<open>simp_all add: some_sent\<close>)
  then show ?thesis by (auto simp: some_sent someLearn_def)
qed

definition someOldPromise :: Promise where
  "someOldPromise = \<lparr>prom_ID = ID 0 0, prom_Rnd = someRound, prom_AccSlots = [], prom_EpochVector = []\<rparr>"

theorem acceptor_keeps_promises_witness:
  "prom_Rnd someOldPromise \<le> lrn_Rnd someLearn"
proof -
  have run: "acceptor_run [(someGrpMgr, APrepare somePrepare)]
      (NewMultiAcceptor (ID 0 0) True (ID 1 0) 1 someGrpMgr) = Inr someAcceptor1"
    by (simp add: some_run1 flip: someAcceptor_def del: acceptor_step.simps)
  show ?thesis
    by (rule acceptor_keeps_promises [OF run some_run2]) (simp_all add: some_sent someOldPromise_def)
qed

end
