(* ===== verification/Voting.thy ===== *)
theory Voting
  imports AcceptorRuns
begin

text \<open>
  The argument for agreement, apart from the code: votes are the learns that were sent, an
  acceptor is bound to a round, and an accept may be sent for a value only when the value is safe.
\<close>

section \<open>Votes and safe values\<close>

definition voted :: "Learn set \<Rightarrow> gid \<Rightarrow> SlotID \<Rightarrow> ProposerRound \<Rightarrow> Value \<Rightarrow> bool" where
  "voted L a s r v \<longleftrightarrow>
     (\<exists>l\<in>L. lrn_ID l = a \<and> lrn_Slot l = s \<and> lrn_Rnd l = r \<and> lrn_Val l = v)"

text \<open>An acceptor that has not voted in a round and is bound to a higher one never will.\<close>

definition abstains :: "Learn set \<Rightarrow> (gid \<Rightarrow> ProposerRound) \<Rightarrow> gid \<Rightarrow> SlotID \<Rightarrow> ProposerRound \<Rightarrow> bool" where
  "abstains L bnd a s r \<longleftrightarrow> r < bnd a \<and> (\<forall>v. \<not> voted L a s r v)"

definition safe_at ::
  "(gid set \<Rightarrow> bool) \<Rightarrow> Learn set \<Rightarrow> (gid \<Rightarrow> ProposerRound) \<Rightarrow> SlotID \<Rightarrow> ProposerRound \<Rightarrow> Value \<Rightarrow> bool" where
  "safe_at quor L bnd s r v \<longleftrightarrow>
     (\<forall>r'<r. \<exists>Q. quor Q \<and> (\<forall>a\<in>Q. voted L a s r' v \<or> abstains L bnd a s r'))"

text \<open>What may change: more votes, each in a round its acceptor is not bound beyond.\<close>

definition grows :: "Learn set \<Rightarrow> (gid \<Rightarrow> ProposerRound) \<Rightarrow> Learn set \<Rightarrow> (gid \<Rightarrow> ProposerRound) \<Rightarrow> bool" where
  "grows L bnd L' bnd' \<longleftrightarrow> L \<subseteq> L' \<and> (\<forall>a. bnd a \<le> bnd' a) \<and>
     (\<forall>l\<in>L' - L. bnd (lrn_ID l) \<le> lrn_Rnd l)"

lemma grows_refl [simp]: "grows L bnd L bnd"
  by (simp add: grows_def)

lemma voted_mono: "voted L a s r v \<Longrightarrow> grows L bnd L' bnd' \<Longrightarrow> voted L' a s r v"
  unfolding voted_def grows_def by blast

lemma no_new_votes:
  assumes "voted L' a s r v" and "grows L bnd L' bnd'" and "r < bnd a"
  shows "voted L a s r v"
proof -
  obtain l where l: "l \<in> L'" "lrn_ID l = a" "lrn_Slot l = s" "lrn_Rnd l = r" "lrn_Val l = v"
    using assms(1) by (auto simp: voted_def)
  have "l \<in> L"
  proof (rule ccontr)
    assume "l \<notin> L"
    then have "bnd a \<le> r" using assms(2) l unfolding grows_def by blast
    with assms(3) show False by simp
  qed
  with l show ?thesis by (auto simp: voted_def)
qed

lemma abstains_mono:
  assumes "abstains L bnd a s r" and "grows L bnd L' bnd'"
  shows "abstains L' bnd' a s r"
  unfolding abstains_def
proof (intro conjI allI)
  have "r < bnd a" "bnd a \<le> bnd' a" using assms by (auto simp: abstains_def grows_def)
  then show "r < bnd' a" by simp
  show "\<not> voted L' a s r v" for v
    using no_new_votes [OF _ assms(2) \<open>r < bnd a\<close>] assms(1) by (auto simp: abstains_def)
qed

lemma safe_at_mono: "safe_at quor L bnd s r v \<Longrightarrow> grows L bnd L' bnd' \<Longrightarrow> safe_at quor L' bnd' s r v"
  unfolding safe_at_def by (meson voted_mono abstains_mono)

section \<open>The discipline of accepts\<close>

text \<open>
  Accepts for one slot and round agree; each is for a safe value; every vote answers an accept.
\<close>

definition accepts_agree :: "Accept set \<Rightarrow> bool" where
  "accepts_agree A \<longleftrightarrow> (\<forall>a\<in>A. \<forall>b\<in>A.
     acc_Slot a = acc_Slot b \<and> acc_Rnd a = acc_Rnd b \<longrightarrow> acc_Val a = acc_Val b)"

definition accepts_safe :: "(gid set \<Rightarrow> bool) \<Rightarrow> Learn set \<Rightarrow> (gid \<Rightarrow> ProposerRound) \<Rightarrow> Accept set \<Rightarrow> bool" where
  "accepts_safe quor L bnd A \<longleftrightarrow> (\<forall>a\<in>A. safe_at quor L bnd (acc_Slot a) (acc_Rnd a) (acc_Val a))"

definition answers :: "Learn \<Rightarrow> Accept \<Rightarrow> bool" where
  "answers l a \<longleftrightarrow> acc_Slot a = lrn_Slot l \<and> acc_Rnd a = lrn_Rnd l \<and> acc_Val a = lrn_Val l"

definition votes_answer :: "Learn set \<Rightarrow> Accept set \<Rightarrow> bool" where
  "votes_answer L A \<longleftrightarrow> (\<forall>l\<in>L. \<exists>a\<in>A. answers l a)"

lemma voted_accept:
  assumes "votes_answer L A" and "voted L a s r v"
  shows "\<exists>x\<in>A. acc_Slot x = s \<and> acc_Rnd x = r \<and> acc_Val x = v"
  using assms unfolding votes_answer_def voted_def answers_def by metis

lemma votes_agree:
  assumes "votes_answer L A" and "accepts_agree A" and "voted L a s r v" and "voted L b s r w"
  shows "v = w"
  using voted_accept [OF assms(1,3)] voted_accept [OF assms(1,4)] assms(2)
  unfolding accepts_agree_def by metis

text \<open>
  Phase 1: all members of a quorum are bound to round \<open>r\<close>, and the candidate value was accepted in
  the highest round below \<open>r\<close> in which any of them has voted for the slot. Then it is safe.
\<close>

lemma candidate_safe:
  assumes disc: "votes_answer L A" "accepts_agree A" "accepts_safe quor L bnd A"
    and Q: "quor Q" "\<And>a. a \<in> Q \<Longrightarrow> r \<le> bnd a"
    and cand: "c \<in> A" "acc_Slot c = s" "acc_Rnd c < r"
    and top: "\<And>a r' v. a \<in> Q \<Longrightarrow> r' < r \<Longrightarrow> voted L a s r' v \<Longrightarrow> r' \<le> acc_Rnd c"
  shows "safe_at quor L bnd s r (acc_Val c)"
  unfolding safe_at_def
proof (intro allI impI)
  fix r' assume r': "r' < r"
  have bound: "r' < bnd a" if "a \<in> Q" for a
    using r' Q(2) [OF that] by simp
  consider "acc_Rnd c < r'" | "r' = acc_Rnd c" | "r' < acc_Rnd c" by (rule linorder_cases)
  then show "\<exists>Q. quor Q \<and> (\<forall>a\<in>Q. voted L a s r' (acc_Val c) \<or> abstains L bnd a s r')"
  proof cases
    case 1
    then have "abstains L bnd a s r'" if "a \<in> Q" for a
      using bound [OF that] top [OF that r'] 1 unfolding abstains_def by (meson leD)
    with Q(1) show ?thesis by blast
  next
    case 2
    have "voted L a s r' (acc_Val c) \<or> abstains L bnd a s r'" if "a \<in> Q" for a
    proof (cases "\<exists>v. voted L a s r' v")
      case True
      then obtain v where v: "voted L a s r' v" by blast
      then obtain x where "x \<in> A" "acc_Slot x = s" "acc_Rnd x = r'" "acc_Val x = v"
        using voted_accept [OF disc(1)] by blast
      then have "v = acc_Val c"
        using disc(2) cand 2 unfolding accepts_agree_def by metis
      with v show ?thesis by simp
    next
      case False
      then show ?thesis using bound [OF that] by (simp add: abstains_def)
    qed
    with Q(1) show ?thesis by blast
  next
    case 3
    have "safe_at quor L bnd s (acc_Rnd c) (acc_Val c)"
      using disc(3) cand unfolding accepts_safe_def by blast
    with 3 show ?thesis unfolding safe_at_def by blast
  qed
qed

lemma no_candidate_safe:
  assumes "quor Q" and "\<And>a. a \<in> Q \<Longrightarrow> r \<le> bnd a"
    and "\<And>a r' v. a \<in> Q \<Longrightarrow> r' < r \<Longrightarrow> \<not> voted L a s r' v"
  shows "safe_at quor L bnd s r v"
  unfolding safe_at_def
proof (intro allI impI)
  fix r' assume r': "r' < r"
  then have "abstains L bnd a s r'" if "a \<in> Q" for a
    using assms(2,3) that by (auto simp: abstains_def intro: less_le_trans)
  with assms(1) show "\<exists>Q. quor Q \<and> (\<forall>a\<in>Q. voted L a s r' v \<or> abstains L bnd a s r')" by blast
qed

text \<open>
  Agreement: a value that a quorum has voted for in one round excludes any other value in a
  round with an accept.
\<close>

locale quorums =
  fixes valid :: "'c \<Rightarrow> bool" and quor :: "'c \<Rightarrow> gid set \<Rightarrow> bool"
  assumes intersect: "valid c \<Longrightarrow> quor c A \<Longrightarrow> quor c B \<Longrightarrow> \<exists>a. a \<in> A \<and> a \<in> B"
begin

lemma chosen_below:
  assumes val: "valid c"
    and disc: "votes_answer L A" "accepts_agree A" "accepts_safe (quor c) L bnd A"
    and chosen: "quor c Q" "\<And>a. a \<in> Q \<Longrightarrow> \<exists>w. voted L a s r w" and "voted L b s r v"
    and later: "voted L d s r' v'" "r < r'"
  shows "v = v'"
proof -
  obtain x where "x \<in> A" "acc_Slot x = s" "acc_Rnd x = r'" "acc_Val x = v'"
    using voted_accept [OF disc(1) later(1)] by blast
  then have "safe_at (quor c) L bnd s r' v'"
    using disc(3) unfolding accepts_safe_def by blast
  then obtain Q' where Q': "quor c Q'" "\<forall>a\<in>Q'. voted L a s r v' \<or> abstains L bnd a s r"
    using later(2) unfolding safe_at_def by blast
  obtain a where a: "a \<in> Q" "a \<in> Q'" using intersect [OF val chosen(1) Q'(1)] by blast
  obtain w where w: "voted L a s r w" using chosen(2) [OF a(1)] by blast
  then have "voted L a s r v'" using Q'(2) a(2) by (auto simp: abstains_def)
  then show ?thesis using votes_agree [OF disc(1,2) assms(7)] by blast
qed

text \<open>Two values, each voted for by a quorum in one round, are the same.\<close>

lemma chosen_agree:
  assumes val: "valid c"
    and disc: "votes_answer L A" "accepts_agree A" "accepts_safe (quor c) L bnd A"
    and "quor c Q" and "\<And>a. a \<in> Q \<Longrightarrow> \<exists>w. voted L a s r w" and "voted L b s r v"
    and "quor c Q'" and "\<And>a. a \<in> Q' \<Longrightarrow> \<exists>w. voted L a s r' w" and "voted L b' s r' v'"
  shows "v = v'"
proof (cases r r' rule: linorder_cases)
  case less
  show ?thesis by (rule chosen_below [OF val disc assms(5-7,10) less])
next
  case equal
  then show ?thesis using votes_agree [OF disc(1,2) assms(7)] assms(10) by simp
next
  case greater
  show ?thesis by (rule chosen_below [OF val disc assms(8-10,7) greater, symmetric])
qed

end

end
