(* ===== verification/Combinations.thy ===== *)
theory Combinations
  imports Prelude
begin

text \<open>
  The combination iterator of \<open>src/lr/comb_iterator.go\<close>, which walks over the \<open>r\<close>-element subsets
  of \<open>{0, ..., n-1}\<close> in place. The reference is \<open>combs\<close>, the list of all increasing sequences in
  lexicographic order; the iterator's slice after \<open>k\<close> steps is its \<open>k\<close>-th entry. Values of type
  \<open>int\<close> are indices and counters no greater than \<open>n + 1\<close> and \<open>c\<close>, so they are kept as integers.
\<close>

section \<open>The iterator\<close>

record CombinationIterator =
  ci_r :: int
  ci_n :: int
  ci_i :: int
  ci_c :: int
  ci_s :: "int list"

text \<open>\<open>Int64()\<close> keeps the low 64 bits of the binomial coefficient, read as signed.\<close>

definition NewCombinationIterator :: "int \<Rightarrow> int \<Rightarrow> CombinationIterator result" where
  "NewCombinationIterator n r =
     (if r < 0 then Fault (Panic ''makeslice: len out of range'')
      else Ok \<lparr>ci_r = r, ci_n = n, ci_i = 0,
             ci_c = signed_take_bit 63 (int (nat n choose nat r)),
             ci_s = map int [0..<nat r]\<rparr>)"

definition HasNext :: "CombinationIterator \<Rightarrow> bool" where
  "HasNext ci \<longleftrightarrow> ci_i ci < ci_c ci"

definition incrAt :: "int \<Rightarrow> int list \<Rightarrow> int list result" where
  "incrAt i s = bind_result (index s i) (\<lambda>x. update_index s i (x + 1))"

function carryLoop :: "int \<Rightarrow> int \<Rightarrow> int \<Rightarrow> int list \<Rightarrow> (int \<times> int list) result" where
  "carryLoop r n i s =
     (if i > 0
      then bind_result (index s i) (\<lambda>x.
        if x \<ge> n - r + 1 + i
        then bind_result (incrAt (i - 1) s) (carryLoop r n (i - 1))
        else Ok (i, s))
      else Ok (i, s))"
  by pat_completeness auto
termination by (relation "measure (\<lambda>(r, n, i, s). nat i)") auto

function fillLoop :: "int \<Rightarrow> int \<Rightarrow> int list \<Rightarrow> int list result" where
  "fillLoop r i s =
     (if i < r
      then bind_result (index s (i - 1)) (\<lambda>x.
        bind_result (update_index s i (x + 1)) (fillLoop r (i + 1)))
      else Ok s)"
  by pat_completeness auto
termination by (relation "measure (\<lambda>(r, i, s). nat (r - i))") auto

declare carryLoop.simps [simp del] fillLoop.simps [simp del]

definition updateS :: "CombinationIterator \<Rightarrow> CombinationIterator result" where
  "updateS ci =
     (let ci = ci\<lparr>ci_i := ci_i ci + 1\<rparr>;
          i = ci_r ci - 1
      in bind_result (incrAt i (ci_s ci)) (\<lambda>s.
         bind_result (carryLoop (ci_r ci) (ci_n ci) i s) (\<lambda>(i, s).
         bind_result (fillLoop (ci_r ci) (i + 1) s) (\<lambda>s.
           Ok (ci\<lparr>ci_s := s\<rparr>)))))"

definition NextComb :: "CombinationIterator \<Rightarrow> CombinationIterator result" where
  "NextComb ci = (if HasNext ci then updateS ci else Ok ci)"

lemma NextComb_counts:
  "NextComb ci = Inr ci' \<Longrightarrow> HasNext ci \<Longrightarrow> ci_i ci' = ci_i ci + 1 \<and> ci_c ci' = ci_c ci"
  by (auto simp: NextComb_def updateS_def Let_def bind_result_Inr_iff)

section \<open>All combinations in lexicographic order\<close>

function combs :: "int \<Rightarrow> int \<Rightarrow> nat \<Rightarrow> int list list" where
  "combs lo n 0 = [[]]"
| "combs lo n (Suc r) =
     (if n \<le> lo then [] else map (\<lambda>xs. lo # xs) (combs (lo + 1) n r) @ combs (lo + 1) n (Suc r))"
  by pat_completeness auto
termination by (relation "measures [\<lambda>(lo, n, r). nat (n - lo), \<lambda>(lo, n, r). r]") auto

declare combs.simps(2) [simp del]

lemma combs_empty: "n \<le> lo \<Longrightarrow> combs lo n (Suc r) = []"
  by (subst combs.simps) simp

lemma combs_split:
  "\<not> n \<le> lo \<Longrightarrow> combs lo n (Suc r) = map (\<lambda>xs. lo # xs) (combs (lo + 1) n r) @ combs (lo + 1) n (Suc r)"
  by (subst combs.simps) simp

text \<open>The increasing sequences of \<open>r\<close> numbers from \<open>lo\<close> up to below \<open>n\<close>.\<close>

definition combination :: "int \<Rightarrow> int \<Rightarrow> nat \<Rightarrow> int list \<Rightarrow> bool" where
  "combination lo n r xs \<longleftrightarrow> length xs = r \<and> sorted_wrt (<) xs \<and> set xs \<subseteq> {lo..<n}"

lemma combs_length: "lo \<le> n \<Longrightarrow> length (combs lo n r) = nat (n - lo) choose r"
proof (induction lo n r rule: combs.induct)
  case (2 lo n r)
  show ?case
  proof (cases "n \<le> lo")
    case False
    then have "nat (n - lo) = Suc (nat (n - (lo + 1)))" by simp
    then show ?thesis using 2 False by (simp add: combs_split [OF False])
  qed (use 2 in \<open>simp add: combs_empty\<close>)
qed simp

lemma combination_split:
  "combination lo n (Suc r) xs \<longleftrightarrow>
     (\<exists>ys. xs = lo # ys \<and> combination (lo + 1) n r ys \<and> lo < n) \<or> combination (lo + 1) n (Suc r) xs"
proof (cases xs)
  case (Cons x ys)
  consider "x = lo" | "x < lo" | "lo + 1 \<le> x" by linarith
  then show ?thesis
  proof cases
    case 3
    then show ?thesis using Cons by (auto simp: combination_def subset_iff)
  qed (use Cons in \<open>auto simp: combination_def subset_iff\<close>)
qed (simp add: combination_def)

lemma combs_iff: "xs \<in> set (combs lo n r) \<longleftrightarrow> combination lo n r xs"
proof (induction lo n r arbitrary: xs rule: combs.induct)
  case (2 lo n r)
  show ?case
  proof (cases "n \<le> lo")
    case True
    then show ?thesis by (cases xs) (auto simp: combs_empty combination_def)
  next
    case False
    have "xs \<in> set (combs lo n (Suc r)) \<longleftrightarrow>
        (\<exists>ys. xs = lo # ys \<and> ys \<in> set (combs (lo + 1) n r)) \<or> xs \<in> set (combs (lo + 1) n (Suc r))"
      unfolding combs_split [OF False] by auto
    then show ?thesis
      unfolding 2 [OF False] combination_split [of lo n r xs] using False by auto
  qed
qed (auto simp: combination_def)

lemma combs_room:
  assumes "combs lo n r \<noteq> []" and "lo \<le> n"
  shows "lo + int r \<le> n"
proof -
  have "0 < nat (n - lo) choose r"
    using assms by (simp flip: combs_length)
  then have "r \<le> nat (n - lo)" by (simp add: zero_less_binomial_iff)
  then show ?thesis using assms(2) by linarith
qed

lemma combs_distinct: "distinct (combs lo n r)"
proof (induction lo n r rule: combs.induct)
  case (2 lo n r)
  show ?case
  proof (cases "n \<le> lo")
    case False
    have "lo # ys \<notin> set (combs (lo + 1) n (Suc r))" for ys
      by (simp add: combs_iff combination_def)
    then show ?thesis
      using 2 [OF False] unfolding combs_split [OF False] by (auto simp: distinct_map)
  qed (simp add: combs_empty)
qed simp

lemma combs_nonempty:
  assumes "lo + int r \<le> n"
  shows "combs lo n r \<noteq> [] \<and> hd (combs lo n r) = [lo..lo + int r - 1] \<and>
    last (combs lo n r) = [n - int r..n - 1]"
  using assms
proof (induction lo n r rule: combs.induct)
  case (2 lo n r)
  then have lt: "\<not> n \<le> lo" by simp
  have le: "lo + 1 + int r \<le> n" using 2 by simp
  have IH: "combs (lo + 1) n r \<noteq> []" "hd (combs (lo + 1) n r) = [lo + 1..lo + 1 + int r - 1]"
      "last (combs (lo + 1) n r) = [n - int r..n - 1]"
    using "2.IH"(1) [OF lt le] by blast+
  have "hd (combs lo n (Suc r)) = lo # [lo + 1..lo + 1 + int r - 1]"
    using IH by (simp add: combs_split [OF lt] hd_map)
  also have "\<dots> = [lo..lo + int (Suc r) - 1]"
    by (simp add: upto_rec1 [of lo])
  finally have first: "hd (combs lo n (Suc r)) = [lo..lo + int (Suc r) - 1]" .
  have ne: "combs lo n (Suc r) \<noteq> []" using IH by (simp add: combs_split [OF lt])
  show ?case
  proof (cases "lo + 1 + int (Suc r) \<le> n")
    case True
    from "2.IH"(2) [OF lt True] first ne show ?thesis by (simp add: combs_split [OF lt])
  next
    case False
    with 2 have eq: "n = lo + int (Suc r)" by simp
    have "combs (lo + 1) n (Suc r) = []"
      using combs_room [of "lo + 1" n "Suc r"] eq by auto
    then have "last (combs lo n (Suc r)) = lo # [n - int r..n - 1]"
      using IH by (simp add: combs_split [OF lt] last_map)
    also have "\<dots> = [n - int (Suc r)..n - 1]"
      using eq by (simp add: upto_rec1 [of lo])
    finally show ?thesis using ne first by blast
  qed
qed simp

text \<open>The successor of a combination: past the longest suffix that is already maximal.\<close>

fun successor :: "int \<Rightarrow> int list \<Rightarrow> int list" where
  "successor n [] = []"
| "successor n (x # xs) =
     (if xs = [n - int (length xs)..n - 1] then [x + 1..x + 1 + int (length xs)]
      else x # successor n xs)"

lemma combs_successor:
  assumes "Suc k < length (combs lo n r)"
  shows "combs lo n r ! Suc k = successor n (combs lo n r ! k)"
  using assms
proof (induction lo n r arbitrary: k rule: combs.induct)
  case (2 lo n r)
  then have lt: "\<not> n \<le> lo" by (cases "n \<le> lo") (auto simp: combs_empty)
  define A where "A = combs (lo + 1) n r"
  define B where "B = combs (lo + 1) n (Suc r)"
  have eq: "combs lo n (Suc r) = map (\<lambda>xs. lo # xs) A @ B"
    by (simp only: combs_split [OF lt] A_def B_def)
  have A: "length xs = r" if "xs \<in> set A" for xs
    using that by (simp add: A_def combs_iff combination_def)
  consider "Suc k < length A" | "Suc k = length A" | "length A \<le> k" by linarith
  then show ?case
  proof cases
    case 1
    then have step: "A ! Suc k = successor n (A ! k)"
      using "2.IH"(1) [OF lt] by (simp add: A_def)
    have "A ! k \<noteq> [n - int r..n - 1]"
    proof
      assume max: "A ! k = [n - int r..n - 1]"
      have "lo + 1 + int r \<le> n"
        using combs_room [of "lo + 1" n r] 1 lt by (fastforce simp: A_def)
      from combs_nonempty [OF this] max have "A ! k = last A"
        by (simp only: A_def)
      also have "\<dots> = A ! (length A - 1)"
        using 1 by (intro last_conv_nth) auto
      finally have "A ! k = A ! (length A - 1)" .
      then show False
        using 1 combs_distinct [of "lo + 1" n r] by (simp add: A_def nth_eq_iff_index_eq)
    qed
    then show ?thesis
      using 1 step A [of "A ! k"] by (simp add: eq nth_append)
  next
    case 2
    then have ne: "A \<noteq> []" and k: "k = length A - 1" by auto
    have "lo + 1 + int r \<le> n"
      using combs_room [of "lo + 1" n r] ne lt by (simp add: A_def)
    from combs_nonempty [OF this] have "last A = [n - int r..n - 1]" by (simp add: A_def)
    then have Ak: "A ! k = [n - int r..n - 1]"
      using k ne by (simp add: last_conv_nth)
    have "B \<noteq> []" using "2.prems" 2 by (auto simp: eq)
    then have "lo + 1 + int (Suc r) \<le> n"
      using combs_room [of "lo + 1" n "Suc r"] lt by (simp add: B_def)
    from combs_nonempty [OF this] have "hd B = [lo + 1..lo + 1 + int r]"
      by (simp add: B_def algebra_simps)
    then have "B ! 0 = [lo + 1..lo + 1 + int r]"
      using \<open>B \<noteq> []\<close> by (simp add: hd_conv_nth)
    with Ak 2 show ?thesis by (simp add: eq nth_append)
  next
    case 3
    then show ?thesis
      using "2.IH"(2) [OF lt, of "k - length A"] "2.prems"
      by (simp add: eq nth_append B_def Suc_diff_le)
  qed
qed simp

section \<open>The iterator walks through all combinations\<close>

lemma increasing_room:
  assumes "sorted_wrt (<) xs" and "\<forall>x\<in>set xs. x < n" and "j < length xs"
  shows "xs ! j \<le> n - int (length xs) + int (j :: nat)"
  using assms
proof (induction xs arbitrary: j)
  case (Cons x xs)
  show ?case
  proof (cases j)
    case 0
    show ?thesis
    proof (cases xs)
      case (Cons y ys)
      then have "x < xs ! 0" "xs ! 0 \<le> n - int (length xs)"
        using Cons.prems Cons.IH [of 0] by auto
      then show ?thesis using 0 by simp
    qed (use Cons.prems 0 in simp)
  next
    case (Suc k)
    then show ?thesis using Cons.IH [of k] Cons.prems by simp
  qed
qed simp

text \<open>The position the carry stops at: everything behind it is maximal, and it is not.\<close>

definition carry_stops :: "int \<Rightarrow> int list \<Rightarrow> nat \<Rightarrow> bool" where
  "carry_stops n s p \<longleftrightarrow> p < length s \<and>
     (\<forall>j. p < j \<and> j < length s \<longrightarrow> n - int (length s) + int j \<le> s ! j) \<and>
     (p = 0 \<or> s ! p < n - int (length s) + int p)"

lemma successor_at:
  assumes "carry_stops n s p" and "sorted_wrt (<) s" and "\<forall>x\<in>set s. x < n"
  shows "successor n s = take p s @ [s ! p + 1..s ! p + int (length s - p)]"
  using assms
proof (induction s arbitrary: p)
  case (Cons x xs)
  have room: "xs ! j \<le> n - int (length xs) + int j" if "j < length xs" for j
    using increasing_room [of xs n j] Cons.prems that by simp
  show ?case
  proof (cases p)
    case 0
    have "xs = [n - int (length xs)..n - 1]"
    proof (rule nth_equalityI)
      fix j assume j: "j < length xs"
      then have "n - int (length xs) + int j \<le> xs ! j"
        using Cons.prems(1) 0 by (auto simp: carry_stops_def dest: spec [of _ "Suc j"])
      with room [OF j] show "xs ! j = [n - int (length xs)..n - 1] ! j"
        using j by simp
    qed simp
    then show ?thesis using 0 by (simp add: algebra_simps)
  next
    case (Suc q)
    have q: "q < length xs" "xs ! q < n - int (length xs) + int q"
      using Cons.prems(1) Suc by (auto simp: carry_stops_def)
    have "xs \<noteq> [n - int (length xs)..n - 1]"
    proof
      assume "xs = [n - int (length xs)..n - 1]"
      then have "xs ! q = [n - int (length xs)..n - 1] ! q" by (rule arg_cong)
      with q show False by simp
    qed
    moreover have "carry_stops n xs q"
      using Cons.prems(1) Suc q by (auto simp: carry_stops_def dest: spec [of _ "Suc _"])
    ultimately show ?thesis using Cons Suc by simp
  qed
qed (simp add: carry_stops_def)

lemma incrAt_ok: "0 \<le> i \<Longrightarrow> nat i < length s \<Longrightarrow> incrAt i s = Inr (s[nat i := s ! nat i + 1])"
  by (simp add: incrAt_def nat_less_iff)

lemma carryLoop_Suc:
  "carryLoop r n (int (Suc i)) t = bind_result (index t (int (Suc i))) (\<lambda>x.
     if n - r + 1 + int (Suc i) \<le> x then bind_result (incrAt (int i) t) (carryLoop r n (int i))
     else Ok (int (Suc i), t))"
proof -
  have pred: "int (Suc i) - 1 = int i" by simp
  show ?thesis by (subst carryLoop.simps) (simp add: pred del: of_nat_Suc cong: if_cong)
qed

lemma carryLoop_stops:
  assumes "length t = length s" and "i < length s" and "take i t = take i s" and "t ! i = s ! i + 1"
    and "\<forall>j. i < j \<and> j < length s \<longrightarrow> n - int (length s) + int j \<le> s ! j"
  shows "\<exists>p t'. carryLoop (int (length s)) n (int i) t = Inr (int p, t') \<and> carry_stops n s p \<and>
    length t' = length s \<and> take p t' = take p s \<and> t' ! p = s ! p + 1"
  using assms
proof (induction i arbitrary: t)
  case 0
  then show ?case by (subst carryLoop.simps) (auto simp: carry_stops_def)
next
  case (Suc i)
  let ?L = "length s"
  have ti: "t ! i = s ! i"
    using Suc.prems by (metis lessI nth_take)
  show ?case
  proof (cases "n - int ?L + int (Suc i) \<le> s ! Suc i")
    case True
    let ?t = "t[i := t ! i + 1]"
    have "carryLoop (int ?L) n (int (Suc i)) t = carryLoop (int ?L) n (int i) ?t"
      using True Suc.prems unfolding carryLoop_Suc
      by (simp add: incrAt_ok index_nat del: of_nat_Suc)
    moreover have "take i ?t = take i s"
      using arg_cong [OF Suc.prems(3), of "take i"] by simp
    moreover have "n - int ?L + int j \<le> s ! j" if "i < j" "j < ?L" for j
      using Suc.prems(5) True that by (cases "j = Suc i") auto
    ultimately show ?thesis
      using Suc.IH [of ?t] Suc.prems ti by simp
  next
    case False
    then have "carryLoop (int ?L) n (int (Suc i)) t = Inr (int (Suc i), t)"
      using Suc.prems unfolding carryLoop_Suc by (simp add: index_nat del: of_nat_Suc)
    then show ?thesis
      using Suc.prems False by (intro exI [of _ "Suc i"] exI [of _ t]) (auto simp: carry_stops_def)
  qed
qed

lemma upto_step: "0 < k \<Longrightarrow> [x + 1..x + int k] = (x + 1) # [x + 2..x + int k]"
  by (subst upto_rec1) (simp_all add: algebra_simps)

lemma fillLoop_fills:
  assumes "i \<le> length t" and "0 < i"
  shows "fillLoop (int (length t)) (int i) t =
    Inr (take i t @ [t ! (i - 1) + 1..t ! (i - 1) + int (length t - i)])"
  using assms
proof (induction "length t - i" arbitrary: i t)
  case 0
  then show ?case by (subst fillLoop.simps) simp
next
  case (Suc d)
  let ?t = "t[i := t ! (i - 1) + 1]"
  have i: "i < length t" using Suc by simp
  have "fillLoop (int (length t)) (int i) t = fillLoop (int (length t)) (int (Suc i)) ?t"
    using i Suc.prems by (subst fillLoop.simps) (simp add: nat_diff_distrib add.commute)
  also have "\<dots> = Inr (take (Suc i) ?t @ [t ! (i - 1) + 2..t ! (i - 1) + 1 + int (length t - Suc i)])"
    using Suc.hyps(1) [of ?t "Suc i"] Suc.hyps(2) i by (simp add: algebra_simps)
  also have "\<dots> = Inr (take i t @ [t ! (i - 1) + 1..t ! (i - 1) + int (length t - i)])"
    using i upto_step [of "length t - i" "t ! (i - 1)"]
    by (simp add: take_Suc_conv_app_nth of_nat_diff algebra_simps)
  finally show ?case .
qed

lemma updateS_successor:
  assumes "ci_s ci = s" and "ci_r ci = int (length s)" and "s \<noteq> []"
    and "sorted_wrt (<) s" and "\<forall>x\<in>set s. x < ci_n ci"
  shows "updateS ci = Inr (ci\<lparr>ci_i := ci_i ci + 1, ci_s := successor (ci_n ci) s\<rparr>)"
proof -
  let ?L = "length s"
  let ?t = "s[?L - 1 := s ! (?L - 1) + 1]"
  have pos: "0 < ?L" using assms(3) by simp
  have inc: "incrAt (int ?L - 1) s = Inr ?t"
  proof -
    have "nat (int ?L - 1) = ?L - 1" by linarith
    then show ?thesis using pos incrAt_ok [of "int ?L - 1" s] by simp
  qed
  obtain p t' where carry: "carryLoop (int ?L) (ci_n ci) (int (?L - 1)) ?t = Inr (int p, t')"
      and stops: "carry_stops (ci_n ci) s p" and t': "length t' = ?L" "take p t' = take p s" "t' ! p = s ! p + 1"
    using carryLoop_stops [of ?t s "?L - 1" "ci_n ci"] pos by fastforce
  have p: "p < ?L" using stops by (simp add: carry_stops_def)
  have "fillLoop (int ?L) (int p + 1) t' = Inr (take (Suc p) t' @ [t' ! p + 1..t' ! p + int (?L - Suc p)])"
    using fillLoop_fills [of "Suc p" t'] t' p by (simp add: add.commute)
  also have "take (Suc p) t' @ [t' ! p + 1..t' ! p + int (?L - Suc p)] =
      take p s @ [s ! p + 1..s ! p + int (?L - p)]"
    using p t' upto_step [of "?L - p" "s ! p"]
    by (simp add: take_Suc_conv_app_nth of_nat_diff algebra_simps)
  also have "\<dots> = successor (ci_n ci) s"
    by (rule successor_at [symmetric]) (use stops assms in auto)
  finally show ?thesis
    using inc carry pos assms(1,2) by (simp add: updateS_def Let_def of_nat_diff)
qed

text \<open>The iterator after \<open>k\<close> steps.\<close>

definition at_step :: "int \<Rightarrow> nat \<Rightarrow> nat \<Rightarrow> CombinationIterator \<Rightarrow> bool" where
  "at_step n r k ci \<longleftrightarrow> ci_r ci = int r \<and> ci_n ci = n \<and> ci_i ci = int k \<and>
     ci_c ci = int (nat n choose r) \<and> (k < nat n choose r \<longrightarrow> ci_s ci = combs 0 n r ! k)"

lemma NewCombinationIterator_at:
  assumes "int r \<le> n" and "nat n choose r < 2 ^ 63"
  shows "\<exists>ci. NewCombinationIterator n (int r) = Inr ci \<and> at_step n r 0 ci"
proof -
  have "int (nat n choose r) < 2 ^ 63"
    using assms(2) by (metis of_nat_less_iff of_nat_numeral of_nat_power)
  then have c: "signed_take_bit 63 (int (nat n choose r)) = int (nat n choose r)"
    by (rule signed_take_bit_small [rotated]) simp
  have room: "0 + int r \<le> n" using assms(1) by simp
  have "map int [0..<r] = [0..int r - 1]"
    by (rule nth_equalityI) auto
  also have "\<dots> = combs 0 n r ! 0"
    using combs_nonempty [OF room] hd_conv_nth [of "combs 0 n r"] by simp
  finally show ?thesis
    using c by (simp add: NewCombinationIterator_def at_step_def)
qed

lemma at_step_HasNext: "at_step n r k ci \<Longrightarrow> HasNext ci \<longleftrightarrow> k < nat n choose r"
  by (simp add: at_step_def HasNext_def)

lemma combs_nth: "0 \<le> n \<Longrightarrow> k < nat n choose r \<Longrightarrow> combination 0 n r (combs 0 n r ! k)"
  using combs_iff nth_mem by (metis combs_length diff_zero)

lemma NextComb_at:
  assumes at: "at_step n r k ci" and "k < nat n choose r" and "0 < r" and "0 \<le> n"
  shows "\<exists>ci'. NextComb ci = Inr ci' \<and> at_step n r (Suc k) ci'"
proof -
  let ?s = "combs 0 n r ! k"
  have s: "ci_s ci = ?s" "combination 0 n r ?s"
    using assms by (auto simp: at_step_def combs_nth)
  then have "updateS ci = Inr (ci\<lparr>ci_i := ci_i ci + 1, ci_s := successor (ci_n ci) ?s\<rparr>)"
    using at assms(3) by (intro updateS_successor) (auto simp: combination_def at_step_def)
  moreover have "successor n ?s = combs 0 n r ! Suc k" if "Suc k < nat n choose r"
    using that combs_successor [of k 0 n r] assms(4) by (simp add: combs_length)
  ultimately show ?thesis
    using at assms(2) at_step_HasNext [OF at] by (simp add: NextComb_def at_step_def)
qed

primrec advance :: "nat \<Rightarrow> CombinationIterator \<Rightarrow> CombinationIterator result" where
  "advance 0 ci = Ok ci"
| "advance (Suc k) ci = bind_result (advance k ci) NextComb"

lemma advance_at:
  assumes "at_step n r 0 ci" and "0 < r" and "0 \<le> n" and "k \<le> nat n choose r"
  shows "\<exists>ci'. advance k ci = Inr ci' \<and> at_step n r k ci'"
  using assms(4)
proof (induction k)
  case (Suc k)
  then obtain ci' where "advance k ci = Inr ci'" "at_step n r k ci'" by auto
  then show ?case
    using NextComb_at [of n r k ci'] Suc.prems assms(2,3) by auto
qed (use assms in simp)

text \<open>
  Stepping the iterator visits every increasing sequence of \<open>r\<close> indices below \<open>n\<close> exactly
  once: after \<open>k\<close> steps the slice is the \<open>k\<close>-th of a duplicate-free list of exactly these, and
  \<open>HasNext\<close> fails after the last one.
\<close>

theorem iterator_enumerates:
  assumes "0 < r" and "int r \<le> n" and "nat n choose r < 2 ^ 63"
  shows "\<exists>ci cs. NewCombinationIterator n (int r) = Inr ci \<and> distinct cs \<and>
    set cs = {xs. combination 0 n r xs} \<and>
    (\<forall>k. k < length cs \<longrightarrow> (\<exists>ci'. advance k ci = Inr ci' \<and> HasNext ci' \<and> ci_s ci' = cs ! k)) \<and>
    (\<exists>ci'. advance (length cs) ci = Inr ci' \<and> \<not> HasNext ci')"
proof -
  obtain ci where new: "NewCombinationIterator n (int r) = Inr ci" and at: "at_step n r 0 ci"
    using NewCombinationIterator_at [OF assms(2,3)] by blast
  have n: "0 \<le> n" using assms(2) by linarith
  let ?cs = "combs 0 n r"
  have len: "length ?cs = nat n choose r"
    using n by (simp add: combs_length)
  have step: "\<exists>ci'. advance k ci = Inr ci' \<and> at_step n r k ci'" if "k \<le> length ?cs" for k
    using advance_at [OF at assms(1) n] that len by simp
  show ?thesis
  proof (rule exI [of _ ci], rule exI [of _ ?cs], intro conjI allI impI)
    show "NewCombinationIterator n (int r) = Inr ci" by (rule new)
    show "distinct ?cs" by (rule combs_distinct)
    show "set ?cs = {xs. combination 0 n r xs}" by (auto simp: combs_iff)
  next
    fix k assume k: "k < length ?cs"
    then obtain ci' where "advance k ci = Inr ci'" "at_step n r k ci'" using step [of k] by auto
    then show "\<exists>ci'. advance k ci = Inr ci' \<and> HasNext ci' \<and> ci_s ci' = ?cs ! k"
      using k len at_step_HasNext by (auto simp: at_step_def)
  next
    obtain ci' where ci': "advance (length ?cs) ci = Inr ci'" "at_step n r (length ?cs) ci'"
      using step by auto
    moreover have "\<not> HasNext ci'" using ci'(2) len by (simp add: at_step_HasNext)
    ultimately show "\<exists>ci'. advance (length ?cs) ci = Inr ci' \<and> \<not> HasNext ci'" by blast
  qed
qed

theorem iterator_enumerates_witness:
  "\<exists>ci cs. NewCombinationIterator 4 2 = Inr ci \<and> set cs = {xs. combination 0 4 2 xs} \<and>
    (\<exists>ci'. advance (length cs) ci = Inr ci' \<and> \<not> HasNext ci')"
proof -
  have "nat 4 choose 2 < 2 ^ 63" by (simp add: choose_two)
  from iterator_enumerates [of 2 4, OF _ _ this] show ?thesis by (simp del: length_greater_0_conv) blast
qed

end
