(* ===== verification/ValidQuorum.thy ===== *)
theory ValidQuorum
  imports Combinations SlotMaps
begin

text \<open>
  Valid quorums of Live Replacement: \<open>src/lr/vq.go\<close> (epoch promises) and
  \<open>src/multipaxos/vq.go\<close> (learns and promises). The three copies of the search differ in the
  conflict test only; the search is written once, over that test, and each copy is its instance.
\<close>

section \<open>The search\<close>

text \<open>The inner loop over \<open>j > i\<close>, and the outer loop over \<open>i\<close>.\<close>

fun anyConflict :: "('m \<Rightarrow> 'm \<Rightarrow> bool result) \<Rightarrow> 'm list \<Rightarrow> int \<Rightarrow> int list \<Rightarrow> bool result" where
  "anyConflict conflict msgs i [] = Ok False"
| "anyConflict conflict msgs i (j # js) =
     bind_result (index msgs i) (\<lambda>a.
     bind_result (index msgs j) (\<lambda>b.
     bind_result (conflict a b) (\<lambda>c.
       if c then Ok True else anyConflict conflict msgs i js)))"

fun checkCombinationBy ::
  "('m \<Rightarrow> 'm \<Rightarrow> bool result) \<Rightarrow> int list \<Rightarrow> 'm list \<Rightarrow> bool result" where
  "checkCombinationBy conflict [] msgs = Ok True"
| "checkCombinationBy conflict (i # is) msgs =
     bind_result (anyConflict conflict msgs i is) (\<lambda>c.
       if c then Ok False else checkCombinationBy conflict is msgs)"

function searchVq ::
  "('m \<Rightarrow> 'm \<Rightarrow> bool result) \<Rightarrow> 'm list \<Rightarrow> CombinationIterator \<Rightarrow> (bool \<times> int list) result" where
  "searchVq conflict msgs ci =
     (if HasNext ci
      then bind_result (checkCombinationBy conflict (ci_s ci) msgs) (\<lambda>good.
        if good then Ok (True, ci_s ci)
        else bind_result (NextComb ci) (searchVq conflict msgs))
      else Ok (False, []))"
  by pat_completeness auto
termination
  by (relation "measure (\<lambda>(conflict, msgs, ci). nat (ci_c ci - ci_i ci))")
    (use NextComb_counts in \<open>fastforce simp: HasNext_def\<close>)+

declare searchVq.simps [simp del]

definition extractVqBy ::
  "('m \<Rightarrow> 'm \<Rightarrow> bool result) \<Rightarrow> 'm list \<Rightarrow> 64 word \<Rightarrow> (bool \<times> int list) result" where
  "extractVqBy conflict msgs quorumSize =
     (if length msgs = 0 \<or> of_nat (length msgs) < quorumSize then Ok (False, [])
      else bind_result (NewCombinationIterator (int (length msgs)) (sint quorumSize))
             (searchVq conflict msgs))"

section \<open>The three instances\<close>

definition epochBelow :: "gid \<Rightarrow> epoch list \<Rightarrow> bool result" where
  "epochBelow a vector = bind_result (index vector (sint (PaxosID a))) (\<lambda>e. Ok (Epoch a < e))"

definition lrnConflict :: "Learn \<Rightarrow> Learn \<Rightarrow> bool result" where
  "lrnConflict a b =
     (if PaxosID (lrn_ID a) = PaxosID (lrn_ID b) then Ok True
      else bind_result (epochBelow (lrn_ID a) (lrn_EpochVector b)) (\<lambda>old.
        if old then Ok True else epochBelow (lrn_ID b) (lrn_EpochVector a)))"

definition promiseConflict :: "Promise \<Rightarrow> Promise \<Rightarrow> bool result" where
  "promiseConflict a b =
     (if PaxosID (prom_ID a) = PaxosID (prom_ID b) then Ok True
      else bind_result (epochBelow (prom_ID a) (prom_EpochVector b)) (\<lambda>old.
        if old then Ok True else epochBelow (prom_ID b) (prom_EpochVector a)))"

text \<open>The epoch promise of \<open>src/lr/msg.go\<close>.\<close>

record EpochPromise =
  ep_ID :: gid
  ep_Sender :: Node
  ep_EpochVector :: "epoch list"
  ep_SlotMarker :: SlotID
  ep_AccState :: AcceptorSlotMap

definition epConflict :: "EpochPromise \<Rightarrow> EpochPromise \<Rightarrow> bool result" where
  "epConflict a b =
     (if PaxosID (ep_ID a) = PaxosID (ep_ID b) then Ok True
      else bind_result (epochBelow (ep_ID a) (ep_EpochVector b)) (\<lambda>old.
        if old then Ok True else epochBelow (ep_ID b) (ep_EpochVector a)))"

definition checkCombinationLrn :: "int list \<Rightarrow> Learn list \<Rightarrow> bool result" where
  "checkCombinationLrn = checkCombinationBy lrnConflict"

definition checkCombinationPromises :: "int list \<Rightarrow> Promise list \<Rightarrow> bool result" where
  "checkCombinationPromises = checkCombinationBy promiseConflict"

definition checkCombination :: "int list \<Rightarrow> EpochPromise list \<Rightarrow> bool result" where
  "checkCombination = checkCombinationBy epConflict"

definition extractVqLearns :: "Learn list \<Rightarrow> 64 word \<Rightarrow> (bool \<times> int list) result" where
  "extractVqLearns = extractVqBy lrnConflict"

definition extractVqPromises :: "Promise list \<Rightarrow> 64 word \<Rightarrow> (bool \<times> int list) result" where
  "extractVqPromises = extractVqBy promiseConflict"

definition extractValidQuorumEp :: "EpochPromise list \<Rightarrow> 64 word \<Rightarrow> (bool \<times> int list) result" where
  "extractValidQuorumEp = extractVqBy epConflict"

section \<open>What the search finds\<close>

text \<open>
  The indices of a valid quorum: increasing, within the messages, as many as the quorum size, and
  no two of the messages they name conflict.
\<close>

definition conflict_free :: "('m \<Rightarrow> 'm \<Rightarrow> bool result) \<Rightarrow> 'm list \<Rightarrow> int list \<Rightarrow> bool" where
  "conflict_free conflict msgs is \<longleftrightarrow>
     sorted_wrt (\<lambda>i j. conflict (msgs ! nat i) (msgs ! nat j) = Ok False) is"

definition valid_vq :: "('m \<Rightarrow> 'm \<Rightarrow> bool result) \<Rightarrow> 'm list \<Rightarrow> nat \<Rightarrow> int list \<Rightarrow> bool" where
  "valid_vq conflict msgs q is \<longleftrightarrow>
     combination 0 (int (length msgs)) q is \<and> conflict_free conflict msgs is"

definition in_range :: "'m list \<Rightarrow> int list \<Rightarrow> bool" where
  "in_range msgs is \<longleftrightarrow> (\<forall>i\<in>set is. 0 \<le> i \<and> i < int (length msgs))"

definition never_faults :: "('m \<Rightarrow> 'm \<Rightarrow> bool result) \<Rightarrow> 'm list \<Rightarrow> bool" where
  "never_faults conflict msgs \<longleftrightarrow> (\<forall>a\<in>set msgs. \<forall>b\<in>set msgs. \<exists>c. conflict a b = Ok c)"

lemma anyConflict_eq:
  assumes "0 \<le> i" and "i < int (length msgs)" and "in_range msgs js" and "never_faults conflict msgs"
  shows "anyConflict conflict msgs i js =
    Inr (\<not> (\<forall>j\<in>set js. conflict (msgs ! nat i) (msgs ! nat j) = Inr False))"
  using assms(3)
proof (induction js)
  case (Cons j js)
  then have "0 \<le> j" "j < int (length msgs)" "in_range msgs js" by (auto simp: in_range_def)
  moreover from this assms obtain c where "conflict (msgs ! nat i) (msgs ! nat j) = Inr c"
    unfolding never_faults_def by (metis nat_less_iff nth_mem)
  ultimately show ?case using Cons.IH assms(1,2) by (cases c) auto
qed simp

lemma checkCombinationBy_eq:
  assumes "in_range msgs is" and "never_faults conflict msgs"
  shows "checkCombinationBy conflict is msgs = Inr (conflict_free conflict msgs is)"
  using assms(1)
proof (induction "is")
  case (Cons i "is")
  then have "in_range msgs is" "0 \<le> i" "i < int (length msgs)" by (auto simp: in_range_def)
  then show ?case
    using Cons.IH assms(2) by (simp add: anyConflict_eq conflict_free_def)
qed (simp add: conflict_free_def)

lemma checkCombinationBy_sound:
  assumes "in_range msgs is" and "checkCombinationBy conflict is msgs = Inr True"
  shows "conflict_free conflict msgs is"
  using assms
proof (induction "is")
  case (Cons i "is")
  have range: "0 \<le> i" "i < int (length msgs)" "in_range msgs is"
    using Cons.prems by (auto simp: in_range_def)
  from Cons.prems have any: "anyConflict conflict msgs i is = Inr False"
      and rest: "checkCombinationBy conflict is msgs = Inr True"
    by (auto simp: bind_result_Inr_iff split: if_splits)
  have "\<forall>j\<in>set js. conflict (msgs ! nat i) (msgs ! nat j) = Inr False"
    if "anyConflict conflict msgs i js = Inr False" "in_range msgs js" for js
    using that
    by (induction js) (auto simp: bind_result_Inr_iff index_Inr_iff in_range_def split: if_splits)
  with any rest Cons.IH range show ?case by (simp add: conflict_free_def)
qed (simp add: conflict_free_def)

lemma combs_in_range: "combination 0 (int (length msgs)) q is \<Longrightarrow> in_range msgs is"
  by (auto simp: combination_def in_range_def)

lemma searchVq_sound:
  assumes "at_step (int (length msgs)) q k ci" and "0 < q"
    and "searchVq conflict msgs ci = Inr (True, is)"
  shows "valid_vq conflict msgs q is"
  using assms
proof (induction conflict msgs ci arbitrary: k rule: searchVq.induct)
  case (1 conflict msgs ci)
  let ?n = "int (length msgs)"
  show ?case
  proof (cases "HasNext ci")
    case True
    with "1.prems"(1) have k: "k < nat ?n choose q" by (simp add: at_step_HasNext)
    then have comb: "combination 0 ?n q (ci_s ci)"
      using "1.prems"(1) combs_nth [of ?n k q] by (simp add: at_step_def)
    obtain good where good: "checkCombinationBy conflict (ci_s ci) msgs = Inr good"
      using "1.prems"(3) True by (subst (asm) searchVq.simps) (auto simp: bind_result_Inr_iff)
    show ?thesis
    proof (cases good)
      case True': True
      then have "is = ci_s ci"
        using "1.prems"(3) True good by (subst (asm) searchVq.simps) simp
      then show ?thesis
        using comb good True' checkCombinationBy_sound [OF combs_in_range [OF comb]]
        by (simp add: valid_vq_def)
    next
      case False
      obtain ci' where ci': "NextComb ci = Inr ci'" "at_step ?n q (Suc k) ci'"
        using NextComb_at [OF "1.prems"(1) k "1.prems"(2)] by auto
      then have "searchVq conflict msgs ci' = Inr (True, is)"
        using "1.prems"(3) True good False by (subst (asm) searchVq.simps) simp
      then show ?thesis
        using "1.IH" [OF True good _ ci'(1) ci'(2) "1.prems"(2)] False by simp
    qed
  next
    case False
    then show ?thesis using "1.prems"(3) by (subst (asm) searchVq.simps) simp
  qed
qed

lemma searchVq_complete:
  assumes "at_step (int (length msgs)) q k ci" and "0 < q" and "never_faults conflict msgs"
  shows "\<exists>b is. searchVq conflict msgs ci = Inr (b, is) \<and>
    (b \<longleftrightarrow> (\<exists>j. k \<le> j \<and> j < length msgs choose q \<and>
      conflict_free conflict msgs (combs 0 (int (length msgs)) q ! j)))"
  using assms
proof (induction conflict msgs ci arbitrary: k rule: searchVq.induct)
  case (1 conflict msgs ci)
  let ?n = "int (length msgs)"
  let ?P = "\<lambda>j. conflict_free conflict msgs (combs 0 ?n q ! j)"
  show ?case
  proof (cases "HasNext ci")
    case True
    with "1.prems"(1) have k: "k < length msgs choose q" by (simp add: at_step_HasNext)
    have s: "ci_s ci = combs 0 ?n q ! k"
      using "1.prems"(1) k by (simp add: at_step_def)
    have "in_range msgs (ci_s ci)"
      using combs_nth [of ?n k q] k by (auto simp: s intro: combs_in_range)
    then have good: "checkCombinationBy conflict (ci_s ci) msgs = Inr (?P k)"
      using "1.prems"(3) by (simp add: checkCombinationBy_eq s)
    show ?thesis
    proof (cases "?P k")
      case True': True
      then have "searchVq conflict msgs ci = Inr (True, ci_s ci)"
        using True good by (subst searchVq.simps) simp
      then show ?thesis using k True' by auto
    next
      case False
      obtain ci' where ci': "NextComb ci = Inr ci'" "at_step ?n q (Suc k) ci'"
        using NextComb_at [OF "1.prems"(1) _ "1.prems"(2)] k by auto
      have "searchVq conflict msgs ci = searchVq conflict msgs ci'"
        using True good ci' False by (subst searchVq.simps) simp
      moreover have "(\<exists>j. Suc k \<le> j \<and> j < length msgs choose q \<and> ?P j) \<longleftrightarrow>
          (\<exists>j. k \<le> j \<and> j < length msgs choose q \<and> ?P j)"
        using False by (metis Suc_leD le_antisym not_less_eq_eq)
      ultimately show ?thesis
        using "1.IH" [OF True good _ ci'(1) ci'(2) "1.prems"(2,3)] False by simp
    qed
  next
    case False
    then have "\<not> k < length msgs choose q" using "1.prems"(1) by (simp add: at_step_HasNext)
    then show ?thesis
      using False by (subst searchVq.simps) auto
  qed
qed

text \<open>The condition on sizes under which no conversion in the search loses information.\<close>

definition vq_sizes :: "'m list \<Rightarrow> 64 word \<Rightarrow> bool" where
  "vq_sizes msgs q \<longleftrightarrow> 0 < q \<and> length msgs < 2 ^ 63 \<and> length msgs choose unat q < 2 ^ 63"

lemma extractVqBy_start:
  assumes "vq_sizes msgs q" and "unat q \<le> length msgs"
  shows "\<exists>ci. at_step (int (length msgs)) (unat q) 0 ci \<and> 0 < unat q \<and>
    extractVqBy conflict msgs q = searchVq conflict msgs ci"
proof -
  have len: "length msgs < 2 ^ 63" "0 < q" "length msgs choose unat q < 2 ^ 63"
    using assms by (auto simp: vq_sizes_def)
  then have "unat (of_nat (length msgs) :: 64 word) = length msgs"
    by (simp add: unat_of_nat_small)
  then have "\<not> of_nat (length msgs) < q"
    using assms(2) by (simp add: word_less_nat_alt)
  moreover have "unat q < 2 ^ 63" using assms(2) len by linarith
  then have "sint q = int (unat q)" by (rule sint_eq_unat)
  moreover have "0 < unat q" using len(2) by (simp add: unat_gt_0 word_gt_0)
  moreover obtain ci where "NewCombinationIterator (int (length msgs)) (int (unat q)) = Inr ci"
      "at_step (int (length msgs)) (unat q) 0 ci"
    using NewCombinationIterator_at [of "unat q" "int (length msgs)", unfolded of_nat_le_iff nat_int]
      assms(2) len(3) by blast
  ultimately show ?thesis
    using assms(2) by (intro exI [of _ ci]) (auto simp: extractVqBy_def)
qed

lemma extractVqBy_sound:
  assumes "vq_sizes msgs q" and "extractVqBy conflict msgs q = Inr (True, is)"
  shows "valid_vq conflict msgs (unat q) is"
proof (cases "unat q \<le> length msgs")
  case True
  obtain ci where "at_step (int (length msgs)) (unat q) 0 ci" "0 < unat q"
      "searchVq conflict msgs ci = Inr (True, is)"
    using extractVqBy_start [OF assms(1) True, of conflict] assms(2) by auto
  then show ?thesis by (rule searchVq_sound)
next
  case False
  have "unat (of_nat (length msgs) :: 64 word) = length msgs"
    using assms(1) by (simp add: vq_sizes_def unat_of_nat_small)
  then show ?thesis
    using assms(2) False by (simp add: extractVqBy_def word_less_nat_alt)
qed

lemma extractVqBy_complete:
  assumes "vq_sizes msgs q" and "never_faults conflict msgs"
  shows "\<exists>b is. extractVqBy conflict msgs q = Inr (b, is) \<and>
    (b \<longleftrightarrow> (\<exists>js. valid_vq conflict msgs (unat q) js))"
proof (cases "unat q \<le> length msgs")
  case True
  let ?n = "int (length msgs)"
  have len: "length (combs 0 ?n (unat q)) = length msgs choose unat q"
    by (simp add: combs_length)
  have ex: "(\<exists>js. valid_vq conflict msgs (unat q) js) \<longleftrightarrow>
      (\<exists>j. 0 \<le> j \<and> j < length msgs choose unat q \<and>
        conflict_free conflict msgs (combs 0 ?n (unat q) ! j))"
    (is "?A \<longleftrightarrow> ?B")
  proof
    assume ?A
    then obtain js where "js \<in> set (combs 0 ?n (unat q))" "conflict_free conflict msgs js"
      by (auto simp: valid_vq_def combs_iff)
    then show ?B using len by (metis in_set_conv_nth le0)
  next
    assume ?B
    then obtain j where j: "j < length msgs choose unat q"
      "conflict_free conflict msgs (combs 0 ?n (unat q) ! j)" by blast
    then have "combination 0 ?n (unat q) (combs 0 ?n (unat q) ! j)"
      by (intro combs_nth) simp_all
    with j show ?A by (auto simp: valid_vq_def)
  qed
  obtain ci where ci: "at_step ?n (unat q) 0 ci" "0 < unat q"
      and eq: "extractVqBy conflict msgs q = searchVq conflict msgs ci"
    using extractVqBy_start [OF assms(1) True, of conflict] by blast
  show ?thesis
    unfolding ex eq by (rule searchVq_complete [OF ci assms(2)])
next
  case False
  have "unat (of_nat (length msgs) :: 64 word) = length msgs"
    using assms(1) by (simp add: vq_sizes_def unat_of_nat_small)
  moreover have "\<not> valid_vq conflict msgs (unat q) js" for js
  proof
    assume "valid_vq conflict msgs (unat q) js"
    then have "js \<in> set (combs 0 (int (length msgs)) (unat q))"
      by (simp add: valid_vq_def combs_iff)
    then have "0 + int (unat q) \<le> int (length msgs)"
      by (intro combs_room) auto
    with False show False by linarith
  qed
  ultimately show ?thesis using False by (auto simp: extractVqBy_def word_less_nat_alt)
qed

section \<open>Valid quorums of messages\<close>

text \<open>
  Two messages go together when they come from different Paxos ids and neither sender is older
  than what the other's epoch vector says of its Paxos id.
\<close>

definition covers :: "epoch list \<Rightarrow> gid \<Rightarrow> bool" where
  "covers vector a \<longleftrightarrow> 0 \<le> PxInt a \<and> nat (PxInt a) < length vector \<and>
     vector ! nat (PxInt a) \<le> Epoch a"

definition compatible :: "gid \<Rightarrow> epoch list \<Rightarrow> gid \<Rightarrow> epoch list \<Rightarrow> bool" where
  "compatible a va b vb \<longleftrightarrow> PaxosID a \<noteq> PaxosID b \<and> covers vb a \<and> covers va b"

definition valid_quorum :: "('m \<Rightarrow> gid) \<Rightarrow> ('m \<Rightarrow> epoch list) \<Rightarrow> 'm list \<Rightarrow> nat \<Rightarrow> int list \<Rightarrow> bool" where
  "valid_quorum sender vec msgs q is \<longleftrightarrow> combination 0 (int (length msgs)) q is \<and>
     sorted_wrt (\<lambda>i j. compatible (sender (msgs ! nat i)) (vec (msgs ! nat i))
       (sender (msgs ! nat j)) (vec (msgs ! nat j))) is"

text \<open>Every sender's Paxos id is an index into every epoch vector.\<close>

definition vectors_fit :: "('m \<Rightarrow> gid) \<Rightarrow> ('m \<Rightarrow> epoch list) \<Rightarrow> 'm list \<Rightarrow> bool" where
  "vectors_fit sender vec msgs \<longleftrightarrow> (\<forall>a\<in>set msgs. \<forall>b\<in>set msgs.
     0 \<le> PxInt (sender a) \<and> PxInt (sender a) < int (length (vec b)))"

definition conflictOf :: "('m \<Rightarrow> gid) \<Rightarrow> ('m \<Rightarrow> epoch list) \<Rightarrow> 'm \<Rightarrow> 'm \<Rightarrow> bool result" where
  "conflictOf sender vec a b =
     (if PaxosID (sender a) = PaxosID (sender b) then Ok True
      else bind_result (epochBelow (sender a) (vec b)) (\<lambda>old.
        if old then Ok True else epochBelow (sender b) (vec a)))"

lemma conflictOf_instances:
  "lrnConflict = conflictOf lrn_ID lrn_EpochVector"
  "promiseConflict = conflictOf prom_ID prom_EpochVector"
  "epConflict = conflictOf ep_ID ep_EpochVector"
  by (intro ext; simp only: lrnConflict_def promiseConflict_def epConflict_def conflictOf_def)+

lemma epochBelow_False: "epochBelow a v = Inr False \<longleftrightarrow> covers v a"
  by (auto simp: epochBelow_def covers_def PxInt_def bind_result_Inr_iff index_Inr_iff)

lemma conflictOf_False:
  "conflictOf sender vec a b = Inr False \<longleftrightarrow> compatible (sender a) (vec a) (sender b) (vec b)"
  by (auto simp: conflictOf_def compatible_def bind_result_Inr_iff epochBelow_False
      simp flip: epochBelow_False)

lemma valid_vq_conflictOf: "valid_vq (conflictOf sender vec) = valid_quorum sender vec"
  by (intro ext) (simp only: valid_vq_def conflict_free_def valid_quorum_def conflictOf_False)

lemma conflictOf_never_faults:
  "vectors_fit sender vec msgs \<Longrightarrow> never_faults (conflictOf sender vec) msgs"
  unfolding never_faults_def vectors_fit_def conflictOf_def epochBelow_def PxInt_def
  by (auto simp: index_def)

lemma extractVq_correct:
  assumes "vq_sizes msgs q" and "vectors_fit sender vec msgs"
  shows "\<exists>b is. extractVqBy (conflictOf sender vec) msgs q = Inr (b, is) \<and>
    (b \<longleftrightarrow> (\<exists>js. valid_quorum sender vec msgs (unat q) js)) \<and>
    (b \<longrightarrow> valid_quorum sender vec msgs (unat q) is)"
proof -
  obtain b "is" where run: "extractVqBy (conflictOf sender vec) msgs q = Inr (b, is)"
      and b: "b \<longleftrightarrow> (\<exists>js. valid_quorum sender vec msgs (unat q) js)"
    using extractVqBy_complete [OF assms(1) conflictOf_never_faults [OF assms(2)]]
    unfolding valid_vq_conflictOf by blast
  have "valid_quorum sender vec msgs (unat q) is" if b
    using extractVqBy_sound [OF assms(1), of "conflictOf sender vec" "is"] run that
    unfolding valid_vq_conflictOf by simp
  with run b show ?thesis by blast
qed

text \<open>A valid quorum consists of messages from as many different Paxos ids.\<close>

lemma valid_quorum_senders:
  assumes "valid_quorum sender vec msgs q is"
  shows "inj_on (\<lambda>i. PaxosID (sender (msgs ! nat i))) (set is)" and "card (set is) = q"
proof -
  have sorted: "sorted_wrt (<) is" and len: "length is = q"
      and comp: "sorted_wrt (\<lambda>i j. compatible (sender (msgs ! nat i)) (vec (msgs ! nat i))
        (sender (msgs ! nat j)) (vec (msgs ! nat j))) is"
    using assms by (auto simp: valid_quorum_def combination_def)
  have "distinct is" using sorted by (simp add: strict_sorted_iff)
  with len show "card (set is) = q" by (simp add: distinct_card)
  have "sorted_wrt (\<lambda>i j. PaxosID (sender (msgs ! nat i)) \<noteq> PaxosID (sender (msgs ! nat j))) is"
    by (rule sorted_wrt_mono_rel [OF _ comp]) (simp add: compatible_def)
  then show "inj_on (\<lambda>i. PaxosID (sender (msgs ! nat i))) (set is)"
    by (induction "is") auto
qed

text \<open>
  The search over learns returns a valid quorum exactly when there is one: messages from
  \<open>quorumSize\<close> different Paxos ids, none of whose senders is older than another's epoch vector
  says.
\<close>

theorem extractVqLearns_correct:
  assumes "vq_sizes msgs q" and "vectors_fit lrn_ID lrn_EpochVector msgs"
  shows "\<exists>b is. extractVqLearns msgs q = Inr (b, is) \<and>
    (b \<longleftrightarrow> (\<exists>js. valid_quorum lrn_ID lrn_EpochVector msgs (unat q) js)) \<and>
    (b \<longrightarrow> valid_quorum lrn_ID lrn_EpochVector msgs (unat q) is)"
  unfolding extractVqLearns_def conflictOf_instances by (rule extractVq_correct [OF assms])

text \<open>
  C22. The search over epoch promises, which activates a replacer, returns a valid quorum exactly
  when there is one.
\<close>

theorem extractValidQuorumEp_correct:
  assumes "vq_sizes msgs q" and "vectors_fit ep_ID ep_EpochVector msgs"
  shows "\<exists>b is. extractValidQuorumEp msgs q = Inr (b, is) \<and>
    (b \<longleftrightarrow> (\<exists>js. valid_quorum ep_ID ep_EpochVector msgs (unat q) js)) \<and>
    (b \<longrightarrow> valid_quorum ep_ID ep_EpochVector msgs (unat q) is)"
  unfolding extractValidQuorumEp_def conflictOf_instances by (rule extractVq_correct [OF assms])

lemma extractVqPromises_correct:
  assumes "vq_sizes msgs q" and "vectors_fit prom_ID prom_EpochVector msgs"
  shows "\<exists>b is. extractVqPromises msgs q = Inr (b, is) \<and>
    (b \<longleftrightarrow> (\<exists>js. valid_quorum prom_ID prom_EpochVector msgs (unat q) js)) \<and>
    (b \<longrightarrow> valid_quorum prom_ID prom_EpochVector msgs (unat q) is)"
  unfolding extractVqPromises_def conflictOf_instances by (rule extractVq_correct [OF assms])

section \<open>Concrete messages\<close>

text \<open>
  Three learns; replica 0 sends its own from epoch 0 although replica 1 has seen it replaced in
  epoch 5. Replicas 1 and 2 form the only valid quorum.
\<close>

definition someLearnFrom :: "gid \<Rightarrow> epoch list \<Rightarrow> Learn" where
  "someLearnFrom i v = \<lparr>lrn_ID = i, lrn_Slot = 1, lrn_Rnd = ZeroRound, lrn_Val = zeroValue,
     lrn_EpochVector = v\<rparr>"

definition someLearns :: "Learn list" where
  "someLearns = [someLearnFrom (ID 0 0) [0, 0, 0], someLearnFrom (ID 1 0) [5, 0, 0],
     someLearnFrom (ID 2 0) [5, 0, 0]]"

theorem extractVqLearns_correct_witness:
  "\<exists>is. extractVqLearns someLearns 2 = Inr (True, is) \<and> valid_quorum lrn_ID lrn_EpochVector someLearns 2 is"
proof -
  have "vq_sizes someLearns 2" "vectors_fit lrn_ID lrn_EpochVector someLearns"
    by (simp_all add: vq_sizes_def vectors_fit_def someLearns_def someLearnFrom_def PxInt_def choose_two)
  moreover have "valid_quorum lrn_ID lrn_EpochVector someLearns 2 [1, 2]"
    by (simp add: valid_quorum_def combination_def someLearns_def someLearnFrom_def compatible_def
        covers_def PxInt_def)
  ultimately show ?thesis using extractVqLearns_correct [of someLearns 2] by auto
qed

definition someEpochPromise :: "gid \<Rightarrow> epoch list \<Rightarrow> EpochPromise" where
  "someEpochPromise i v = \<lparr>ep_ID = i, ep_Sender = NewNode [] [] [] True True True, ep_EpochVector = v,
     ep_SlotMarker = 0, ep_AccState = NewAcceptorSlotMap\<rparr>"

theorem extractValidQuorumEp_correct_witness:
  "\<exists>is. extractValidQuorumEp [someEpochPromise (ID 0 0) [0, 4], someEpochPromise (ID 1 3) [0, 3]] 2 =
    Inr (False, is)"
proof -
  let ?ms = "[someEpochPromise (ID 0 0) [0, 4], someEpochPromise (ID 1 3) [0, 3]]"
  have "vq_sizes ?ms 2" "vectors_fit ep_ID ep_EpochVector ?ms"
    by (simp_all add: vq_sizes_def vectors_fit_def someEpochPromise_def PxInt_def choose_two)
  moreover have "\<not> valid_quorum ep_ID ep_EpochVector ?ms 2 js" for js
  proof
    assume vq: "valid_quorum ep_ID ep_EpochVector ?ms 2 js"
    then have "js \<in> set (combs 0 2 2)" by (simp add: valid_quorum_def combs_iff)
    then have "js = [0, 1]" by (simp add: numeral_eq_Suc combs_split combs_empty)
    with vq show False
      by (simp add: valid_quorum_def someEpochPromise_def compatible_def covers_def PxInt_def)
  qed
  ultimately show ?thesis using extractValidQuorumEp_correct [of ?ms 2] by auto
qed

end
