(* ===== verification/Learner.thy ===== *)
theory Learner
  imports ValidQuorum
begin

text \<open>
  The MultiPaxos learner (\<open>src/multipaxos/learner.go\<close>): counting learns with and without Live
  Replacement, the gap-free delivery of learned values, catch-up, and the event loop of \<open>Start\<close>
  as a step function. The channels it writes to are the lists of what was written.
\<close>

section \<open>State\<close>

record MultiLearner =
  ml_id :: gid
  ml_startable :: bool
  ml_started :: bool
  ml_leader :: gid
  ml_slots :: LearnerSlotMap
  ml_slotsLr :: LearnerLrSlotMap
  ml_next :: SlotID
  catchUpInProgress :: bool
  ml_lr :: bool
  ml_ucast :: "(gid \<times> dynamic) list"
  dcdChan :: "Value list"

text \<open>Only the slot map of the mode is made; the other one is a nil pointer that is never read.\<close>

definition NewMultiLearner :: "gid \<Rightarrow> bool \<Rightarrow> gid \<Rightarrow> SlotID \<Rightarrow> GrpMgr \<Rightarrow> MultiLearner" where
  "NewMultiLearner i runLrn paxosLeader nextExpectedDcd gm =
     \<lparr>ml_id = i, ml_startable = runLrn, ml_started = False, ml_leader = paxosLeader,
      ml_slots = NewLearnerSlotMap, ml_slotsLr = NewLearnerLrSlotMap, ml_next = nextExpectedDcd,
      catchUpInProgress = False, ml_lr = lrEnabled gm, ml_ucast = [], dcdChan = []\<rparr>"

definition lrn_Start :: "MultiLearner \<Rightarrow> MultiLearner" where
  "lrn_Start l = (if \<not> ml_startable l \<or> ml_started l then l else l\<lparr>ml_started := True\<rparr>)"

section \<open>Handling learns\<close>

text \<open>The part after the round was reset or found equal; the slot is written back by the caller.\<close>

definition countLearn ::
  "GrpMgr \<Rightarrow> Learn \<Rightarrow> LearnerSlot \<Rightarrow> ((Value \<times> SlotID) option \<times> LearnerSlot) result" where
  "countLearn gm msg slot =
     bind_result (index (Learns slot) (PxInt (lrn_ID msg))) (\<lambda>known.
       if known \<noteq> None then Ok (None, slot)
       else
         let slot = slot\<lparr>Votes := Votes slot + 1\<rparr>
         in bind_result (update_index (Learns slot) (PxInt (lrn_ID msg)) (Some msg)) (\<lambda>ls.
           let slot = slot\<lparr>Learns := ls\<rparr>
           in if Votes slot \<ge> Quorum gm then Ok (Some (lrn_Val msg, ls_ID slot), slot)
              else Ok (None, slot)))"

definition handleLrn ::
  "GrpMgr \<Rightarrow> Learn \<Rightarrow> MultiLearner \<Rightarrow> ((Value \<times> SlotID) option \<times> MultiLearner) result" where
  "handleLrn gm msg l =
     (let (slot, sm) = GetLearnerSlot (lrn_Slot msg) (ml_slots l);
          l = l\<lparr>ml_slots := sm\<rparr>
      in if Learned slot then Ok (None, l)
         else if Compare (ls_Rnd slot) (lrn_Rnd msg) = 1 then Ok (None, l)
         else
           let slot = (if Compare (ls_Rnd slot) (lrn_Rnd msg) = - 1
                 then slot\<lparr>ls_Rnd := lrn_Rnd msg, Learns := replicate (unat (NrOfNodes gm)) None,
                        Votes := 0\<rparr>
                 else slot)
           in bind_result (countLearn gm msg slot) (\<lambda>(dcd, slot).
                Ok (dcd, l\<lparr>ml_slots := PutLearnerSlot (lrn_Slot msg) slot (ml_slots l)\<rparr>)))"

definition countLearnLr ::
  "GrpMgr \<Rightarrow> Learn \<Rightarrow> LearnerLrSlot \<Rightarrow> ((Value \<times> SlotID) option \<times> LearnerLrSlot) result" where
  "countLearnLr gm msg slot =
     (if lrn_ID msg \<in> set (Voted slot) then Ok (None, slot)
      else
        let slot = slot\<lparr>lr_Votes := lr_Votes slot + 1, Voted := Voted slot @ [lrn_ID msg],
                        lr_Learns := lr_Learns slot @ [msg]\<rparr>
        in if lr_Votes slot < Quorum gm then Ok (None, slot)
           else if \<not> CheckVQ slot then Ok (Some (lrn_Val msg, lr_ID slot), slot)
           else
             bind_result (extractVqLearns (lr_Learns slot) (Quorum gm)) (\<lambda>(vq, vqmsgs).
               if vq
               then bind_result (index vqmsgs 0) (\<lambda>j.
                 bind_result (index (lr_Learns slot) j) (\<lambda>m.
                   Ok (Some (lrn_Val m, lr_ID slot), slot)))
               else Ok (None, slot)))"

definition handleLrnLr ::
  "GrpMgr \<Rightarrow> Learn \<Rightarrow> MultiLearner \<Rightarrow> ((Value \<times> SlotID) option \<times> MultiLearner) result" where
  "handleLrnLr gm msg l =
     (let (slot, sm) = GetLearnerLrSlot (lrn_Slot msg) (ml_slotsLr l);
          l = l\<lparr>ml_slotsLr := sm\<rparr>
      in if lr_Learned slot then Ok (None, l)
         else
           let slot = (if \<not> CheckVQ slot \<and> \<not> EpochSlicesEqual (lrn_EpochVector msg) (Epochs gm)
                 then slot\<lparr>CheckVQ := True\<rparr> else slot)
           in if Compare (lr_Rnd slot) (lrn_Rnd msg) = 1
              then Ok (None, l\<lparr>ml_slotsLr := PutLearnerLrSlot (lrn_Slot msg) slot (ml_slotsLr l)\<rparr>)
              else
                let slot = (if Compare (lr_Rnd slot) (lrn_Rnd msg) = - 1
                      then slot\<lparr>lr_Rnd := lrn_Rnd msg, lr_Learns := [], lr_Votes := 0,
                             Voted := []\<rparr>
                      else slot)
                in bind_result (countLearnLr gm msg slot) (\<lambda>(dcd, slot).
                     Ok (dcd, l\<lparr>ml_slotsLr := PutLearnerLrSlot (lrn_Slot msg) slot (ml_slotsLr l)\<rparr>)))"

text \<open>The result says whether to advance and from which slot to start a catch-up.\<close>

definition learnVal ::
  "(Value \<times> SlotID) option \<Rightarrow> MultiLearner \<Rightarrow> ((bool \<times> bool \<times> SlotID) \<times> MultiLearner) result" where
  "learnVal dcd l =
     (case dcd of
        None \<Rightarrow> Ok ((False, False, 0), l)
      | Some (val, slotID) \<Rightarrow>
          let (slot, sm) = GetLearnerSlot slotID (ml_slots l);
              slot = slot\<lparr>Learned := True, LearnedVal := val\<rparr>;
              l = l\<lparr>ml_slots := PutLearnerSlot slotID slot sm\<rparr>
          in if ls_ID slot = ml_next l then Ok ((True, False, 0), l)
             else if ls_ID slot > ml_next l then Ok ((False, True, ls_ID slot), l)
             else Fault (Panic ''unhandled case in learnValue''))"

definition learnValLr ::
  "(Value \<times> SlotID) option \<Rightarrow> MultiLearner \<Rightarrow> ((bool \<times> bool \<times> SlotID) \<times> MultiLearner) result" where
  "learnValLr dcd l =
     (case dcd of
        None \<Rightarrow> Ok ((False, False, 0), l)
      | Some (val, slotID) \<Rightarrow>
          let (slot, sm) = GetLearnerLrSlot slotID (ml_slotsLr l);
              slot = slot\<lparr>lr_Learned := True, lr_LearnedVal := val\<rparr>;
              l = l\<lparr>ml_slotsLr := PutLearnerLrSlot slotID slot sm\<rparr>
          in if lr_ID slot = ml_next l then Ok ((True, False, 0), l)
             else if lr_ID slot > ml_next l then Ok ((False, True, lr_ID slot), l)
             else Fault (Panic ''unhandled case in learnValueLr''))"

section \<open>Advancing\<close>

definition adv :: "MultiLearner \<Rightarrow> (Value \<times> SlotID) option \<times> MultiLearner" where
  "adv l =
     (let (slot, sm) = GetLearnerSlot (ml_next l) (ml_slots l)
      in if Learned slot \<and> \<not> Decided slot
         then (Some (LearnedVal slot, ml_next l),
               l\<lparr>ml_slots := PutLearnerSlot (ml_next l) (slot\<lparr>Decided := True\<rparr>) sm\<rparr>)
         else (None, l\<lparr>ml_slots := sm\<rparr>))"

definition advLr :: "MultiLearner \<Rightarrow> (Value \<times> SlotID) option \<times> MultiLearner" where
  "advLr l =
     (let (slot, sm) = GetLearnerLrSlot (ml_next l) (ml_slotsLr l)
      in if lr_Learned slot \<and> \<not> lr_Decided slot
         then (Some (lr_LearnedVal slot, ml_next l),
               l\<lparr>ml_slotsLr := PutLearnerLrSlot (ml_next l) (slot\<lparr>lr_Decided := True\<rparr>) sm\<rparr>)
         else (None, l\<lparr>ml_slotsLr := sm\<rparr>))"

section \<open>Catch-up\<close>

definition zeroRange :: RangeTuple where
  "zeroRange = \<lparr>From = 0, To = 0\<rparr>"

text \<open>One iteration of the loop that collects undecided ranges, given whether slot \<open>i\<close> is decided.\<close>

definition undecStep ::
  "SlotID \<Rightarrow> bool \<Rightarrow> RangeTuple list \<times> RangeTuple \<times> bool \<Rightarrow> RangeTuple list \<times> RangeTuple \<times> bool" where
  "undecStep i decided = (\<lambda>(ts, t, start).
     if \<not> decided then (if \<not> start then (ts, t\<lparr>From := i\<rparr>, True) else (ts, t, start))
     else if start then (ts @ [t\<lparr>To := i - 1\<rparr>], zeroRange, False)
     else (ts, t, start))"

definition undecEnd :: "SlotID \<Rightarrow> RangeTuple list \<times> RangeTuple \<times> bool \<Rightarrow> RangeTuple list" where
  "undecEnd slot = (\<lambda>(ts, t, start). if start then ts @ [t\<lparr>To := slot - 1\<rparr>] else ts)"

definition getUndecSlots :: "SlotID \<Rightarrow> MultiLearner \<Rightarrow> RangeTuple list \<times> MultiLearner" where
  "getUndecSlots slot l =
     (let (acc, sm) = for_lt (ml_next l) slot (\<lambda>i (acc, sm).
            let (s, sm) = GetLearnerSlot i sm in (undecStep i (Decided s) acc, sm))
            (([], zeroRange, False), ml_slots l)
      in (undecEnd slot acc, l\<lparr>ml_slots := sm\<rparr>))"

definition getUndecSlotsLr :: "SlotID \<Rightarrow> MultiLearner \<Rightarrow> RangeTuple list \<times> MultiLearner" where
  "getUndecSlotsLr slot l =
     (let (acc, sm) = for_lt (ml_next l) slot (\<lambda>i (acc, sm).
            let (s, sm) = GetLearnerLrSlot i sm in (undecStep i (lr_Decided s) acc, sm))
            (([], zeroRange, False), ml_slotsLr l)
      in (undecEnd slot acc, l\<lparr>ml_slotsLr := sm\<rparr>))"

definition collectDecided ::
  "RangeTuple \<Rightarrow> ResponseTuple list \<times> LearnerSlotMap \<Rightarrow> ResponseTuple list \<times> LearnerSlotMap" where
  "collectDecided rng = for_lt (From rng) (To rng + 1) (\<lambda>i (ts, sm).
     let (slot, sm) = GetLearnerSlot i sm
     in (if Decided slot then ts @ [\<lparr>resp_Slot = i, resp_Val = LearnedVal slot\<rparr>] else ts, sm))"

definition collectDecidedLr ::
  "RangeTuple \<Rightarrow> ResponseTuple list \<times> LearnerLrSlotMap \<Rightarrow> ResponseTuple list \<times> LearnerLrSlotMap" where
  "collectDecidedLr rng = for_lt (From rng) (To rng + 1) (\<lambda>i (ts, sm).
     let (slot, sm) = GetLearnerLrSlot i sm
     in (if lr_Decided slot then ts @ [\<lparr>resp_Slot = i, resp_Val = lr_LearnedVal slot\<rparr>] else ts, sm))"

definition handleCUReq ::
  "CatchUpRequest \<Rightarrow> MultiLearner \<Rightarrow> (CatchUpResponse \<times> gid) \<times> MultiLearner" where
  "handleCUReq msg l =
     (let (ts, sm) = fold collectDecided (creq_Ranges msg) ([], ml_slots l)
      in ((\<lparr>cresp_ID = ml_id l, cresp_Vals = ts\<rparr>, creq_ID msg), l\<lparr>ml_slots := sm\<rparr>))"

definition handleCUReqLr ::
  "CatchUpRequest \<Rightarrow> MultiLearner \<Rightarrow> (CatchUpResponse \<times> gid) \<times> MultiLearner" where
  "handleCUReqLr msg l =
     (let (ts, sm) = fold collectDecidedLr (creq_Ranges msg) ([], ml_slotsLr l)
      in ((\<lparr>cresp_ID = ml_id l, cresp_Vals = ts\<rparr>, creq_ID msg), l\<lparr>ml_slotsLr := sm\<rparr>))"

definition takeResponse :: "ResponseTuple \<Rightarrow> LearnerSlotMap \<Rightarrow> LearnerSlotMap" where
  "takeResponse dec sm =
     (let (slot, sm) = GetLearnerSlot (resp_Slot dec) sm
      in if \<not> Learned slot
         then PutLearnerSlot (resp_Slot dec) (slot\<lparr>Learned := True, LearnedVal := resp_Val dec\<rparr>) sm
         else sm)"

definition takeResponseLr :: "ResponseTuple \<Rightarrow> LearnerLrSlotMap \<Rightarrow> LearnerLrSlotMap" where
  "takeResponseLr dec sm =
     (let (slot, sm) = GetLearnerLrSlot (resp_Slot dec) sm
      in if \<not> lr_Learned slot
         then PutLearnerLrSlot (resp_Slot dec)
                (slot\<lparr>lr_Learned := True, lr_LearnedVal := resp_Val dec\<rparr>) sm
         else sm)"

definition handleCUResp :: "CatchUpResponse \<Rightarrow> MultiLearner \<Rightarrow> MultiLearner" where
  "handleCUResp msg l =
     (if length (cresp_Vals msg) = 0 then l
      else l\<lparr>ml_slots := fold takeResponse (cresp_Vals msg) (ml_slots l)\<rparr>)"

definition handleCURespLr :: "CatchUpResponse \<Rightarrow> MultiLearner \<Rightarrow> MultiLearner" where
  "handleCURespLr msg l =
     (if length (cresp_Vals msg) = 0 then l
      else l\<lparr>ml_slotsLr := fold takeResponseLr (cresp_Vals msg) (ml_slotsLr l)\<rparr>)"

section \<open>The function fields set by the constructor\<close>

definition handleLearn ::
  "GrpMgr \<Rightarrow> Learn \<Rightarrow> MultiLearner \<Rightarrow> ((Value \<times> SlotID) option \<times> MultiLearner) result" where
  "handleLearn gm msg l = (if ml_lr l then handleLrnLr gm msg l else handleLrn gm msg l)"

definition learnValue ::
  "(Value \<times> SlotID) option \<Rightarrow> MultiLearner \<Rightarrow> ((bool \<times> bool \<times> SlotID) \<times> MultiLearner) result" where
  "learnValue dcd l = (if ml_lr l then learnValLr dcd l else learnVal dcd l)"

definition advanceOne :: "MultiLearner \<Rightarrow> (Value \<times> SlotID) option \<times> MultiLearner" where
  "advanceOne l = (if ml_lr l then advLr l else adv l)"

definition getUndecidedSlots :: "SlotID \<Rightarrow> MultiLearner \<Rightarrow> RangeTuple list \<times> MultiLearner" where
  "getUndecidedSlots slot l = (if ml_lr l then getUndecSlotsLr slot l else getUndecSlots slot l)"

definition handleCatchUpReq ::
  "CatchUpRequest \<Rightarrow> MultiLearner \<Rightarrow> (CatchUpResponse \<times> gid) \<times> MultiLearner" where
  "handleCatchUpReq msg l = (if ml_lr l then handleCUReqLr msg l else handleCUReq msg l)"

definition handleCatchUpResp :: "CatchUpResponse \<Rightarrow> MultiLearner \<Rightarrow> MultiLearner" where
  "handleCatchUpResp msg l = (if ml_lr l then handleCURespLr msg l else handleCUResp msg l)"

definition genCatchUpReq :: "SlotID \<Rightarrow> MultiLearner \<Rightarrow> (CatchUpRequest \<times> gid) \<times> MultiLearner" where
  "genCatchUpReq slot l =
     (let (rngs, l) = getUndecidedSlots slot l
      in ((\<lparr>creq_ID = ml_id l, creq_Ranges = rngs\<rparr>, ml_leader l), l))"

definition lrn_send :: "dynamic \<Rightarrow> gid \<Rightarrow> MultiLearner \<Rightarrow> MultiLearner" where
  "lrn_send msg dest l = l\<lparr>ml_ucast := ml_ucast l @ [(dest, msg)]\<rparr>"

section \<open>The delivery loop\<close>

text \<open>The slots that are learned and not yet decided; each iteration of the loop decides one.\<close>

definition pending :: "MultiLearner \<Rightarrow> SlotID set" where
  "pending l = (if ml_lr l
     then {i. lr_Learned (lrsm.view (ml_slotsLr l) i) \<and> \<not> lr_Decided (lrsm.view (ml_slotsLr l) i)}
     else {i. Learned (lsm.view (ml_slots l) i) \<and> \<not> Decided (lsm.view (ml_slots l) i)})"

lemma adv_decides:
  assumes "adv l = (Some (v, i), l')"
  shows "i = ml_next l \<and> ml_lr l' = ml_lr l \<and>
    Learned (lsm.view (ml_slots l) i) \<and> \<not> Decided (lsm.view (ml_slots l) i) \<and>
    v = LearnedVal (lsm.view (ml_slots l) i) \<and>
    lsm.view (ml_slots l') = (lsm.view (ml_slots l))(i := (lsm.view (ml_slots l) i)\<lparr>Decided := True\<rparr>)"
  using assms lsm.get_eqD [of "ml_next l" "ml_slots l"]
  by (auto simp: adv_def Let_def lsm.view_put split: prod.splits if_splits)

lemma advLr_decides:
  assumes "advLr l = (Some (v, i), l')"
  shows "i = ml_next l \<and> ml_lr l' = ml_lr l \<and>
    lr_Learned (lrsm.view (ml_slotsLr l) i) \<and> \<not> lr_Decided (lrsm.view (ml_slotsLr l) i) \<and>
    v = lr_LearnedVal (lrsm.view (ml_slotsLr l) i) \<and>
    lrsm.view (ml_slotsLr l') =
      (lrsm.view (ml_slotsLr l))(i := (lrsm.view (ml_slotsLr l) i)\<lparr>lr_Decided := True\<rparr>)"
  using assms lrsm.get_eqD [of "ml_next l" "ml_slotsLr l"]
  by (auto simp: advLr_def Let_def lrsm.view_put split: prod.splits if_splits)

lemma advanceOne_pending:
  assumes "advanceOne l = (Some (v, i), l')"
  shows "i \<in> pending l \<and> pending l' = pending l - {i}"
  using assms adv_decides [of l v i l'] advLr_decides [of l v i l']
  by (cases "ml_lr l") (auto simp: advanceOne_def pending_def)

text \<open>\<open>for dcdVal, slotID := l.advance(); dcdVal != nil; dcdVal, slotID = l.advance() {...}\<close>\<close>

function deliverLoop :: "MultiLearner \<Rightarrow> MultiLearner" where
  "deliverLoop l =
     (case advanceOne l of
        (None, l') \<Rightarrow> l'
      | (Some (dcdVal, slotID), l') \<Rightarrow>
          deliverLoop (l'\<lparr>dcdChan := dcdChan l' @ [dcdVal], ml_next := slotID + 1\<rparr>))"
  by pat_completeness auto
termination
proof (relation "measure (\<lambda>l. card (pending l))")
  fix l :: MultiLearner and d l' y v i
  assume "(d, l') = advanceOne l" "d = Some y" "(v, i) = y"
  then have "advanceOne l = (Some (v, i), l')" by simp
  note pending = advanceOne_pending [OF this]
  have "pending (l'\<lparr>dcdChan := dcdChan l' @ [v], ml_next := i + 1\<rparr>) = pending l'"
    by (simp add: pending_def)
  also have "card (pending l') < card (pending l)"
    using pending card_Diff1_less [of "pending l" i] by (simp only: finite)
  finally show "(l'\<lparr>dcdChan := dcdChan l' @ [v], ml_next := i + 1\<rparr>, l)
      \<in> measure (\<lambda>l. card (pending l))"
    by simp
qed simp

declare deliverLoop.simps [simp del]

section \<open>The event loop\<close>

definition lrn_handleGrpHold :: "GrpMgr \<Rightarrow> MultiLearner \<Rightarrow> MultiLearner" where
  "lrn_handleGrpHold gm l = l\<lparr>ml_id := gm_id gm\<rparr>"

datatype learner_event =
    LLearn Learn
  | LCatchUpRequest CatchUpRequest
  | LCatchUpResponse CatchUpResponse
  | LTrust gid
  | LGrpHold
  | LStop

fun learner_step :: "GrpMgr \<Rightarrow> learner_event \<Rightarrow> MultiLearner \<Rightarrow> MultiLearner result" where
  "learner_step gm (LLearn learn) l =
     bind_result (handleLearn gm learn l) (\<lambda>(dcd, l).
     bind_result (learnValue dcd l) (\<lambda>((advance, startcu, cuslot), l).
       if advance then Ok (deliverLoop l)
       else if startcu then
         (if catchUpInProgress l \<or> ml_id l = ml_leader l then Ok l
          else
            let l = l\<lparr>catchUpInProgress := True\<rparr>;
                ((creq, dest), l) = genCatchUpReq cuslot l
            in Ok (lrn_send (Pointer (MCatchUpRequest creq)) dest l))
       else Ok l))"
| "learner_step gm (LCatchUpRequest creq) l =
     (let ((cresp, dest), l) = handleCatchUpReq creq l
      in Ok (lrn_send (Pointer (MCatchUpResponse cresp)) dest l))"
| "learner_step gm (LCatchUpResponse cresp) l =
     (let l = handleCatchUpResp cresp l
      in Ok (deliverLoop (l\<lparr>catchUpInProgress := False\<rparr>)))"
| "learner_step gm (LTrust trustID) l = Ok (l\<lparr>ml_leader := trustID\<rparr>)"
| "learner_step gm LGrpHold l = Ok (lrn_handleGrpHold gm l)"
| "learner_step gm LStop l = Ok (l\<lparr>ml_started := False\<rparr>)"

end
