(* ===== verification/LearnerRuns.thy ===== *)
theory LearnerRuns
  imports Learner
begin

text \<open>
  What the MultiPaxos learner guarantees. The contract \<open>learner_contract\<close> says how its operations
  act on the log it keeps (which slots are learned, with which value, and which are decided);
  the delivery of values in slot order without gaps is proved from the contract once, for both
  the plain and the Live Replacement learner.
\<close>

section \<open>The log of a learner\<close>

definition learnedAt :: "MultiLearner \<Rightarrow> SlotID \<rightharpoonup> Value" where
  "learnedAt l s =
     (if ml_lr l
      then (let slot = lrsm.view (ml_slotsLr l) s
            in if lr_Learned slot then Some (lr_LearnedVal slot) else None)
      else (let slot = lsm.view (ml_slots l) s
            in if Learned slot then Some (LearnedVal slot) else None))"

definition decidedAt :: "MultiLearner \<Rightarrow> SlotID \<Rightarrow> bool" where
  "decidedAt l s =
     (if ml_lr l then lr_Decided (lrsm.view (ml_slotsLr l) s) else Decided (lsm.view (ml_slots l) s))"

definition wf_learner :: "MultiLearner \<Rightarrow> bool" where
  "wf_learner l \<longleftrightarrow> (\<forall>i. ls_ID (lsm.view (ml_slots l) i) = i) \<and>
     (\<forall>i. lr_ID (lrsm.view (ml_slotsLr l) i) = i)"

text \<open>Everything the delivery depends on, in one value.\<close>

record Log =
  log_learned :: "SlotID \<rightharpoonup> Value"
  log_decided :: "SlotID \<Rightarrow> bool"
  log_next :: SlotID
  log_out :: "Value list"

definition logOf :: "MultiLearner \<Rightarrow> Log" where
  "logOf l = \<lparr>log_learned = learnedAt l, log_decided = decidedAt l, log_next = ml_next l,
     log_out = dcdChan l\<rparr>"

section \<open>The delivery invariant\<close>

text \<open>What learning a slot, one call of \<open>advance\<close> and a catch-up response do to the log.\<close>

definition learned_update :: "Value \<Rightarrow> SlotID \<Rightarrow> Log \<Rightarrow> Log" where
  "learned_update v s g = g\<lparr>log_learned := (log_learned g)(s \<mapsto> v)\<rparr>"

definition advance_spec :: "Log \<Rightarrow> (Value \<times> SlotID) option \<times> Log" where
  "advance_spec g =
     (case log_learned g (log_next g) of
        Some v \<Rightarrow>
          if log_decided g (log_next g) then (None, g)
          else (Some (v, log_next g), g\<lparr>log_decided := (log_decided g)(log_next g := True)\<rparr>)
      | None \<Rightarrow> (None, g))"

definition respond_spec :: "CatchUpResponse \<Rightarrow> Log \<Rightarrow> Log" where
  "respond_spec c g = fold (\<lambda>t g. if log_learned g (resp_Slot t) = None
     then learned_update (resp_Val t) (resp_Slot t) g else g) (cresp_Vals c) g"

text \<open>
  Decided are exactly the slots from the first one up to the next expected one; they are all
  learned; and what was delivered is their values in slot order.
\<close>

definition delivery_inv :: "SlotID \<Rightarrow> Log \<Rightarrow> bool" where
  "delivery_inv first g \<longleftrightarrow> first \<le> log_next g \<and>
     (\<forall>s. log_decided g s \<longleftrightarrow> first \<le> s \<and> s < log_next g) \<and>
     (\<forall>s. first \<le> s \<and> s < log_next g \<longrightarrow> log_learned g s \<noteq> None) \<and>
     log_out g = map (\<lambda>s. the (log_learned g s)) (slotRange first (log_next g)) \<and>
     log_learned g (- 1) = None"

lemma delivery_inv_learned:
  assumes "delivery_inv first g" and "log_learned g s = None" and "s \<noteq> - 1"
  shows "delivery_inv first (learned_update v s g)"
proof -
  have "s \<notin> set (slotRange first (log_next g))"
    using assms by (auto simp: delivery_inv_def slotRange_iff)
  then have "map (\<lambda>s'. the (((log_learned g)(s \<mapsto> v)) s')) (slotRange first (log_next g)) =
      map (\<lambda>s'. the (log_learned g s')) (slotRange first (log_next g))"
    by (intro map_cong) auto
  then show ?thesis
    using assms by (auto simp: delivery_inv_def learned_update_def)
qed

lemma delivery_inv_respond:
  assumes "delivery_inv first g" and "\<forall>t\<in>set (cresp_Vals c). resp_Slot t \<noteq> - 1"
  shows "delivery_inv first (respond_spec c g)"
proof -
  have "delivery_inv first (fold (\<lambda>t g. if log_learned g (resp_Slot t) = None
     then learned_update (resp_Val t) (resp_Slot t) g else g) ts g)"
    if "\<forall>t\<in>set ts. resp_Slot t \<noteq> - 1" for ts
    using that assms(1) by (induction ts arbitrary: g) (auto simp: delivery_inv_learned)
  then show ?thesis using assms(2) by (simp add: respond_spec_def)
qed

lemma delivery_inv_advance:
  assumes inv: "delivery_inv first g" and step: "advance_spec g = (Some (v, i), g')"
  shows "delivery_inv first (g'\<lparr>log_out := log_out g' @ [v], log_next := i + 1\<rparr>)"
proof -
  from step have i: "i = log_next g" and v: "log_learned g i = Some v"
      and g': "g' = g\<lparr>log_decided := (log_decided g)(i := True)\<rparr>"
    by (auto simp: advance_spec_def split: option.splits if_splits)
  have "i \<noteq> - 1" using inv v by (auto simp: delivery_inv_def)
  then have less: "s < i + 1 \<longleftrightarrow> s \<le> i" for s by (rule word_less_Suc_iff)
  have first: "first \<le> i" using inv i by (simp add: delivery_inv_def)
  define n where "n = i + 1"
  have n: "s < n \<longleftrightarrow> s \<le> i" for s by (simp only: n_def less)
  have dec: "log_decided g s \<longleftrightarrow> first \<le> s \<and> s < i" for s
    using inv i by (simp add: delivery_inv_def)
  have dom: "log_learned g s \<noteq> None" if "first \<le> s" "s \<le> i" for s
    using inv that v i unfolding delivery_inv_def le_less by blast
  have out: "log_out g @ [v] = map (\<lambda>s. the (log_learned g s)) (slotRange first n)"
    using inv i v slotRange_snoc [OF first \<open>i \<noteq> - 1\<close>] by (simp add: delivery_inv_def n_def)
  have "delivery_inv first (g'\<lparr>log_out := log_out g' @ [v], log_next := n\<rparr>)"
    unfolding delivery_inv_def
  proof (intro conjI allI)
    show "first \<le> log_next (g'\<lparr>log_out := log_out g' @ [v], log_next := n\<rparr>)"
      using first n [of first] by (simp add: less_imp_le)
    show "log_decided (g'\<lparr>log_out := log_out g' @ [v], log_next := n\<rparr>) s \<longleftrightarrow>
        first \<le> s \<and> s < log_next (g'\<lparr>log_out := log_out g' @ [v], log_next := n\<rparr>)" for s
      using first dec [of s] by (auto simp: g' n le_less)
    show "first \<le> s \<and> s < log_next (g'\<lparr>log_out := log_out g' @ [v], log_next := n\<rparr>) \<longrightarrow>
        log_learned (g'\<lparr>log_out := log_out g' @ [v], log_next := n\<rparr>) s \<noteq> None" for s
      using dom [of s] by (simp add: g' n)
  qed (use inv out in \<open>simp_all add: delivery_inv_def g'\<close>)
  then show ?thesis by (simp only: n_def)
qed

section \<open>The contract\<close>

locale learner_contract =
  fixes handle :: "GrpMgr \<Rightarrow> Learn \<Rightarrow> 'l \<Rightarrow> ((Value \<times> SlotID) option \<times> 'l) result"
    and learn :: "(Value \<times> SlotID) option \<Rightarrow> 'l \<Rightarrow> ((bool \<times> bool \<times> SlotID) \<times> 'l) result"
    and advance1 :: "'l \<Rightarrow> (Value \<times> SlotID) option \<times> 'l"
    and respond :: "CatchUpResponse \<Rightarrow> 'l \<Rightarrow> 'l"
    and log :: "'l \<Rightarrow> Log"
    and good :: "'l \<Rightarrow> bool"
  assumes handle_log: "good l \<Longrightarrow> handle gm m l = Inr (d, l') \<Longrightarrow> good l' \<and> log l' = log l \<and>
      (\<forall>v s. d = Some (v, s) \<longrightarrow> s = lrn_Slot m \<and> log_learned (log l) s = None)"
    and learn_none: "good l \<Longrightarrow> learn None l = Inr ((False, False, 0), l)"
    and learn_some: "good l \<Longrightarrow> \<exists>l' e. good l' \<and> log l' = learned_update v s (log l) \<and>
      learn (Some (v, s)) l =
        (if s = log_next (log l) then Inr ((True, False, 0), l')
         else if s > log_next (log l) then Inr ((False, True, s), l')
         else Inl (Panic e))"
    and advance_log: "good l \<Longrightarrow> advance1 l = (d, l') \<Longrightarrow>
      good l' \<and> (d, log l') = advance_spec (log l)"
    and respond_log: "good l \<Longrightarrow> good (respond c l) \<and> log (respond c l) = respond_spec c (log l)"
begin

lemma learn_event:
  assumes "good l" and "handle gm m l = Inr (d, l1)" and "learn d l1 = Inr (r, l2)"
  shows "good l2 \<and> (log l2 = log l \<or>
    (\<exists>v. log_learned (log l) (lrn_Slot m) = None \<and> log l2 = learned_update v (lrn_Slot m) (log l)))"
proof -
  have l1: "good l1" "log l1 = log l"
      and d: "\<forall>v s. d = Some (v, s) \<longrightarrow> s = lrn_Slot m \<and> log_learned (log l) s = None"
    using handle_log [OF assms(1,2)] by blast+
  show ?thesis
  proof (cases d)
    case None
    then show ?thesis using assms(3) l1 learn_none [OF l1(1)] by auto
  next
    case (Some p)
    obtain v s where p: "p = (v, s)" by (cases p)
    then show ?thesis
      using assms(3) l1 d Some learn_some [OF l1(1), of v s] by (auto split: if_splits)
  qed
qed

lemma learn_event_inv:
  assumes "good l" and "delivery_inv first (log l)" and "lrn_Slot m \<noteq> - 1"
    and "handle gm m l = Inr (d, l1)" and "learn d l1 = Inr (r, l2)"
  shows "good l2 \<and> delivery_inv first (log l2)"
  using learn_event [OF assms(1,4,5)] assms(2,3) by (auto intro: delivery_inv_learned)

text \<open>The panic of \<open>learnVal\<close> needs a quorum of learns for a slot below the first one.\<close>

lemma learn_event_panics:
  assumes "good l" and "delivery_inv first (log l)" and "handle gm m l = Inr (d, l1)"
    and "learn d l1 = Inl e"
  shows "lrn_Slot m < first"
proof -
  have l1: "good l1" "log l1 = log l"
      and d: "\<forall>v s. d = Some (v, s) \<longrightarrow> s = lrn_Slot m \<and> log_learned (log l) s = None"
    using handle_log [OF assms(1,3)] by blast+
  show ?thesis
  proof (cases d)
    case None
    then show ?thesis using assms(4) learn_none [OF l1(1)] by simp
  next
    case (Some p)
    obtain v s where p: "p = (v, s)" by (cases p)
    with Some d have s: "s = lrn_Slot m" "log_learned (log l) s = None" by auto
    have "\<not> log_next (log l) \<le> s"
    proof
      assume "log_next (log l) \<le> s"
      then show False
        using learn_some [OF l1(1), of v s] assms(4) l1(2) Some p by (auto split: if_splits)
    qed
    then have "s < log_next (log l)" by simp
    then have "\<not> first \<le> s"
      using assms(2) s(2) unfolding delivery_inv_def by blast
    then show ?thesis using s(1) by simp
  qed
qed

lemma respond_event_inv:
  assumes "good l" and "delivery_inv first (log l)" and "\<forall>t\<in>set (cresp_Vals c). resp_Slot t \<noteq> - 1"
  shows "good (respond c l) \<and> delivery_inv first (log (respond c l))"
  using respond_log [OF assms(1), of c] delivery_inv_respond [OF assms(2,3)] by simp

end

section \<open>The learner keeps the contract\<close>

lemma GetLearnerSlot_view:
  "GetLearnerSlot i sm = (slot, sm') \<Longrightarrow> slot = lsm.view sm i \<and> lsm.view sm' = lsm.view sm"
  using lsm.get_eqD by blast

lemma GetLearnerLrSlot_view:
  "GetLearnerLrSlot i sm = (slot, sm') \<Longrightarrow> slot = lrsm.view sm i \<and> lrsm.view sm' = lrsm.view sm"
  using lrsm.get_eqD by blast

lemma countLearn_frame:
  assumes "countLearn gm m slot = Inr (d, slot')"
  shows "ls_ID slot' = ls_ID slot \<and> Learned slot' = Learned slot \<and> LearnedVal slot' = LearnedVal slot \<and>
    Decided slot' = Decided slot \<and> (\<forall>v s. d = Some (v, s) \<longrightarrow> v = lrn_Val m \<and> s = ls_ID slot)"
  using assms
  by (auto simp: countLearn_def Let_def bind_result_Inr_iff split: if_splits)

lemma countLearnLr_frame:
  assumes "countLearnLr gm m slot = Inr (d, slot')"
  shows "lr_ID slot' = lr_ID slot \<and> lr_Learned slot' = lr_Learned slot \<and>
    lr_LearnedVal slot' = lr_LearnedVal slot \<and> lr_Decided slot' = lr_Decided slot \<and>
    (\<forall>v s. d = Some (v, s) \<longrightarrow> s = lr_ID slot)"
  using assms
  by (auto simp: countLearnLr_def Let_def bind_result_Inr_iff split: if_splits option.splits)

text \<open>Changes of a slot that keep what the log shows of it.\<close>

definition same_log_slot :: "LearnerSlot \<Rightarrow> LearnerSlot \<Rightarrow> bool" where
  "same_log_slot a b \<longleftrightarrow> ls_ID a = ls_ID b \<and> Learned a = Learned b \<and> LearnedVal a = LearnedVal b \<and>
     Decided a = Decided b"

definition same_log_slotLr :: "LearnerLrSlot \<Rightarrow> LearnerLrSlot \<Rightarrow> bool" where
  "same_log_slotLr a b \<longleftrightarrow> lr_ID a = lr_ID b \<and> lr_Learned a = lr_Learned b \<and>
     lr_LearnedVal a = lr_LearnedVal b \<and> lr_Decided a = lr_Decided b"

lemma logOf_same:
  assumes "\<And>i. same_log_slot (lsm.view sm i) (lsm.view (ml_slots l) i)"
  shows "logOf (l\<lparr>ml_slots := sm\<rparr>) = logOf l" and "wf_learner (l\<lparr>ml_slots := sm\<rparr>) = wf_learner l"
  using assms
  by (auto simp: logOf_def learnedAt_def decidedAt_def fun_eq_iff same_log_slot_def wf_learner_def Let_def)

lemma logOf_sameLr:
  assumes "\<And>i. same_log_slotLr (lrsm.view sm i) (lrsm.view (ml_slotsLr l) i)"
  shows "logOf (l\<lparr>ml_slotsLr := sm\<rparr>) = logOf l" and "wf_learner (l\<lparr>ml_slotsLr := sm\<rparr>) = wf_learner l"
  using assms
  by (auto simp: logOf_def learnedAt_def decidedAt_def fun_eq_iff same_log_slotLr_def wf_learner_def Let_def)

lemma handleLrn_log:
  assumes wf: "wf_learner l" and run: "handleLrn gm m l = Inr (d, l')" and plain: "\<not> ml_lr l"
  shows "wf_learner l' \<and> logOf l' = logOf l \<and> ml_lr l' = ml_lr l \<and>
    (\<forall>v s. d = Some (v, s) \<longrightarrow> s = lrn_Slot m \<and> learnedAt l s = None)"
proof -
  let ?s = "lrn_Slot m"
  obtain slot sm where get: "GetLearnerSlot ?s (ml_slots l) = (slot, sm)" by (cases "GetLearnerSlot ?s (ml_slots l)")
  then have view: "slot = lsm.view (ml_slots l) ?s" "lsm.view sm = lsm.view (ml_slots l)"
    by (simp_all add: GetLearnerSlot_view)
  have keep: "logOf (l\<lparr>ml_slots := sm\<rparr>) = logOf l" "wf_learner (l\<lparr>ml_slots := sm\<rparr>)"
    using logOf_same [of sm l] view wf by (simp_all add: same_log_slot_def)
  show ?thesis
  proof (cases "Learned slot \<or> Compare (ls_Rnd slot) (lrn_Rnd m) = 1")
    case True
    then have "d = None" "l' = l\<lparr>ml_slots := sm\<rparr>"
      using run unfolding handleLrn_def Let_def get prod.case by (auto split: if_splits)
    then show ?thesis using keep by simp
  next
    case False
    define slot1 where "slot1 = (if Compare (ls_Rnd slot) (lrn_Rnd m) = - 1
      then slot\<lparr>ls_Rnd := lrn_Rnd m, Learns := replicate (unat (NrOfNodes gm)) None, Votes := 0\<rparr>
      else slot)"
    obtain slot2 where count: "countLearn gm m slot1 = Inr (d, slot2)"
        and l': "l' = l\<lparr>ml_slots := PutLearnerSlot ?s slot2 sm\<rparr>"
      using run False unfolding handleLrn_def Let_def get prod.case
      by (auto simp: bind_result_Inr_iff slot1_def)
    have same: "same_log_slot slot1 slot" by (simp add: slot1_def same_log_slot_def)
    note frame = countLearn_frame [OF count]
    have "same_log_slot (lsm.view (PutLearnerSlot ?s slot2 sm) i) (lsm.view (ml_slots l) i)" for i
      using frame same view by (simp add: lsm.view_put same_log_slot_def)
    from logOf_same [OF this] have "logOf l' = logOf l" "wf_learner l'"
      using wf l' by simp_all
    moreover have "ls_ID slot1 = ?s" using same view wf by (simp add: same_log_slot_def wf_learner_def)
    moreover have "learnedAt l ?s = None" using False view plain by (simp add: learnedAt_def)
    ultimately show ?thesis using frame l' by auto
  qed
qed

lemma handleLrnLr_log:
  assumes wf: "wf_learner l" and run: "handleLrnLr gm m l = Inr (d, l')" and lr: "ml_lr l"
  shows "wf_learner l' \<and> logOf l' = logOf l \<and> ml_lr l' = ml_lr l \<and>
    (\<forall>v s. d = Some (v, s) \<longrightarrow> s = lrn_Slot m \<and> learnedAt l s = None)"
proof -
  let ?s = "lrn_Slot m"
  obtain slot sm where get: "GetLearnerLrSlot ?s (ml_slotsLr l) = (slot, sm)"
    by (cases "GetLearnerLrSlot ?s (ml_slotsLr l)")
  then have view: "slot = lrsm.view (ml_slotsLr l) ?s" "lrsm.view sm = lrsm.view (ml_slotsLr l)"
    by (simp_all add: GetLearnerLrSlot_view)
  have put: "logOf (l\<lparr>ml_slotsLr := PutLearnerLrSlot ?s slot' sm\<rparr>) = logOf l \<and>
      wf_learner (l\<lparr>ml_slotsLr := PutLearnerLrSlot ?s slot' sm\<rparr>)" if "same_log_slotLr slot' slot" for slot'
    using logOf_sameLr [of "PutLearnerLrSlot ?s slot' sm" l] wf that view
    by (simp add: lrsm.view_put same_log_slotLr_def)
  have keep: "logOf (l\<lparr>ml_slotsLr := sm\<rparr>) = logOf l" "wf_learner (l\<lparr>ml_slotsLr := sm\<rparr>)"
    using logOf_sameLr [of sm l] view wf by (simp_all add: same_log_slotLr_def)
  define slot0 where "slot0 = (if \<not> CheckVQ slot \<and> \<not> EpochSlicesEqual (lrn_EpochVector m) (Epochs gm)
      then slot\<lparr>CheckVQ := True\<rparr> else slot)"
  define slot1 where "slot1 = (if Compare (lr_Rnd slot0) (lrn_Rnd m) = - 1
      then slot0\<lparr>lr_Rnd := lrn_Rnd m, lr_Learns := [], lr_Votes := 0, Voted := []\<rparr> else slot0)"
  have same: "same_log_slotLr slot0 slot" "same_log_slotLr slot1 slot"
    by (simp_all add: slot0_def slot1_def same_log_slotLr_def)
  note run' = run [unfolded handleLrnLr_def Let_def get prod.case, folded slot0_def, folded slot1_def]
  consider "lr_Learned slot" | "\<not> lr_Learned slot" "Compare (lr_Rnd slot0) (lrn_Rnd m) = 1"
    | "\<not> lr_Learned slot" "Compare (lr_Rnd slot0) (lrn_Rnd m) \<noteq> 1" by blast
  then show ?thesis
  proof cases
    case 1
    with run' keep show ?thesis by auto
  next
    case 2
    with run' put [OF same(1)] show ?thesis by auto
  next
    case 3
    then obtain slot2 where count: "countLearnLr gm m slot1 = Inr (d, slot2)"
        and l': "l' = l\<lparr>ml_slotsLr := PutLearnerLrSlot ?s slot2 sm\<rparr>"
      using run' by (auto simp: bind_result_Inr_iff)
    note frame = countLearnLr_frame [OF count]
    have "same_log_slotLr slot2 slot"
      using frame same(2) by (simp add: same_log_slotLr_def)
    moreover have "lr_ID slot1 = ?s" using same view wf by (simp add: same_log_slotLr_def wf_learner_def)
    moreover have "learnedAt l ?s = None" using 3 view lr by (simp add: learnedAt_def)
    ultimately show ?thesis using frame l' put by auto
  qed
qed

lemma learnVal_log:
  assumes wf: "wf_learner l" and plain: "\<not> ml_lr l"
  shows "learnVal None l = Inr ((False, False, 0), l)"
    and "\<exists>l'. wf_learner l' \<and> logOf l' = learned_update v s (logOf l) \<and> ml_lr l' = ml_lr l \<and>
      learnVal (Some (v, s)) l =
        (if s = ml_next l then Inr ((True, False, 0), l')
         else if s > ml_next l then Inr ((False, True, s), l')
         else Inl (Panic ''unhandled case in learnValue''))"
proof -
  show "learnVal None l = Inr ((False, False, 0), l)" by (simp add: learnVal_def)
  obtain slot sm where get: "GetLearnerSlot s (ml_slots l) = (slot, sm)" by (cases "GetLearnerSlot s (ml_slots l)")
  then have view: "slot = lsm.view (ml_slots l) s" "lsm.view sm = lsm.view (ml_slots l)"
    by (simp_all add: GetLearnerSlot_view)
  let ?l = "l\<lparr>ml_slots := PutLearnerSlot s (slot\<lparr>Learned := True, LearnedVal := v\<rparr>) sm\<rparr>"
  have ID: "ls_ID slot = s" using view wf by (simp add: wf_learner_def)
  have "wf_learner ?l" using wf view by (auto simp: wf_learner_def lsm.view_put)
  moreover have "logOf ?l = learned_update v s (logOf l)"
    using view plain
    by (auto simp: logOf_def learned_update_def learnedAt_def decidedAt_def lsm.view_put fun_eq_iff)
  ultimately show "\<exists>l'. wf_learner l' \<and> logOf l' = learned_update v s (logOf l) \<and> ml_lr l' = ml_lr l \<and>
      learnVal (Some (v, s)) l =
        (if s = ml_next l then Inr ((True, False, 0), l')
         else if s > ml_next l then Inr ((False, True, s), l')
         else Inl (Panic ''unhandled case in learnValue''))"
    using ID by (intro exI [of _ ?l]) (simp add: learnVal_def get)
qed

lemma learnValLr_log:
  assumes wf: "wf_learner l" and lr: "ml_lr l"
  shows "learnValLr None l = Inr ((False, False, 0), l)"
    and "\<exists>l'. wf_learner l' \<and> logOf l' = learned_update v s (logOf l) \<and> ml_lr l' = ml_lr l \<and>
      learnValLr (Some (v, s)) l =
        (if s = ml_next l then Inr ((True, False, 0), l')
         else if s > ml_next l then Inr ((False, True, s), l')
         else Inl (Panic ''unhandled case in learnValueLr''))"
proof -
  show "learnValLr None l = Inr ((False, False, 0), l)" by (simp add: learnValLr_def)
  obtain slot sm where get: "GetLearnerLrSlot s (ml_slotsLr l) = (slot, sm)"
    by (cases "GetLearnerLrSlot s (ml_slotsLr l)")
  then have view: "slot = lrsm.view (ml_slotsLr l) s" "lrsm.view sm = lrsm.view (ml_slotsLr l)"
    by (simp_all add: GetLearnerLrSlot_view)
  let ?l = "l\<lparr>ml_slotsLr := PutLearnerLrSlot s (slot\<lparr>lr_Learned := True, lr_LearnedVal := v\<rparr>) sm\<rparr>"
  have ID: "lr_ID slot = s" using view wf by (simp add: wf_learner_def)
  have "wf_learner ?l" using wf view by (auto simp: wf_learner_def lrsm.view_put)
  moreover have "logOf ?l = learned_update v s (logOf l)"
    using view lr
    by (auto simp: logOf_def learned_update_def learnedAt_def decidedAt_def lrsm.view_put fun_eq_iff)
  ultimately show "\<exists>l'. wf_learner l' \<and> logOf l' = learned_update v s (logOf l) \<and> ml_lr l' = ml_lr l \<and>
      learnValLr (Some (v, s)) l =
        (if s = ml_next l then Inr ((True, False, 0), l')
         else if s > ml_next l then Inr ((False, True, s), l')
         else Inl (Panic ''unhandled case in learnValueLr''))"
    using ID by (intro exI [of _ ?l]) (simp add: learnValLr_def get)
qed

lemma adv_log:
  assumes wf: "wf_learner l" and plain: "\<not> ml_lr l" and run: "adv l = (d, l')"
  shows "wf_learner l' \<and> ml_lr l' = ml_lr l \<and> (d, logOf l') = advance_spec (logOf l)"
proof -
  let ?n = "ml_next l"
  obtain slot sm where get: "GetLearnerSlot ?n (ml_slots l) = (slot, sm)" by (cases "GetLearnerSlot ?n (ml_slots l)")
  then have view: "slot = lsm.view (ml_slots l) ?n" "lsm.view sm = lsm.view (ml_slots l)"
    by (simp_all add: GetLearnerSlot_view)
  show ?thesis
  proof (cases "Learned slot \<and> \<not> Decided slot")
    case True
    then have "d = Some (LearnedVal slot, ?n)"
        and l': "l' = l\<lparr>ml_slots := PutLearnerSlot ?n (slot\<lparr>Decided := True\<rparr>) sm\<rparr>"
      using run get by (auto simp: adv_def)
    moreover have "wf_learner l'" using wf view l' by (auto simp: wf_learner_def lsm.view_put)
    moreover have "logOf l' = (logOf l)\<lparr>log_decided := (decidedAt l)(?n := True)\<rparr>"
      using plain view l'
      by (auto simp: logOf_def learnedAt_def decidedAt_def lsm.view_put fun_eq_iff)
    ultimately show ?thesis
      using True view plain by (simp add: advance_spec_def logOf_def learnedAt_def decidedAt_def)
  next
    case False
    then have "d = None" "l' = l\<lparr>ml_slots := sm\<rparr>" using run get by (auto simp: adv_def)
    then show ?thesis
      using False view plain wf logOf_same [of sm l]
      by (auto simp: same_log_slot_def advance_spec_def logOf_def learnedAt_def decidedAt_def Let_def
          split: option.splits)
  qed
qed

lemma advLr_log:
  assumes wf: "wf_learner l" and lr: "ml_lr l" and run: "advLr l = (d, l')"
  shows "wf_learner l' \<and> ml_lr l' = ml_lr l \<and> (d, logOf l') = advance_spec (logOf l)"
proof -
  let ?n = "ml_next l"
  obtain slot sm where get: "GetLearnerLrSlot ?n (ml_slotsLr l) = (slot, sm)"
    by (cases "GetLearnerLrSlot ?n (ml_slotsLr l)")
  then have view: "slot = lrsm.view (ml_slotsLr l) ?n" "lrsm.view sm = lrsm.view (ml_slotsLr l)"
    by (simp_all add: GetLearnerLrSlot_view)
  show ?thesis
  proof (cases "lr_Learned slot \<and> \<not> lr_Decided slot")
    case True
    then have "d = Some (lr_LearnedVal slot, ?n)"
        and l': "l' = l\<lparr>ml_slotsLr := PutLearnerLrSlot ?n (slot\<lparr>lr_Decided := True\<rparr>) sm\<rparr>"
      using run get by (auto simp: advLr_def)
    moreover have "wf_learner l'" using wf view l' by (auto simp: wf_learner_def lrsm.view_put)
    moreover have "logOf l' = (logOf l)\<lparr>log_decided := (decidedAt l)(?n := True)\<rparr>"
      using lr view l'
      by (auto simp: logOf_def learnedAt_def decidedAt_def lrsm.view_put fun_eq_iff)
    ultimately show ?thesis
      using True view lr by (simp add: advance_spec_def logOf_def learnedAt_def decidedAt_def)
  next
    case False
    then have "d = None" "l' = l\<lparr>ml_slotsLr := sm\<rparr>" using run get by (auto simp: advLr_def)
    then show ?thesis
      using False view lr wf logOf_sameLr [of sm l]
      by (auto simp: same_log_slotLr_def advance_spec_def logOf_def learnedAt_def decidedAt_def Let_def
          split: option.splits)
  qed
qed

lemma takeResponse_view:
  "lsm.view (takeResponse t sm) = (let s = lsm.view sm (resp_Slot t) in
     if Learned s then lsm.view sm
     else (lsm.view sm)(resp_Slot t := s\<lparr>Learned := True, LearnedVal := resp_Val t\<rparr>))"
  using GetLearnerSlot_view [of "resp_Slot t" sm]
  by (auto simp: takeResponse_def lsm.view_put Let_def split: prod.splits)

lemma takeResponseLr_view:
  "lrsm.view (takeResponseLr t sm) = (let s = lrsm.view sm (resp_Slot t) in
     if lr_Learned s then lrsm.view sm
     else (lrsm.view sm)(resp_Slot t := s\<lparr>lr_Learned := True, lr_LearnedVal := resp_Val t\<rparr>))"
  using GetLearnerLrSlot_view [of "resp_Slot t" sm]
  by (auto simp: takeResponseLr_def lrsm.view_put Let_def split: prod.splits)

definition respond_one :: "ResponseTuple \<Rightarrow> Log \<Rightarrow> Log" where
  "respond_one t g = (if log_learned g (resp_Slot t) = None
     then learned_update (resp_Val t) (resp_Slot t) g else g)"

lemma takeResponse_log:
  assumes "wf_learner l" and "\<not> ml_lr l"
  shows "wf_learner (l\<lparr>ml_slots := takeResponse t (ml_slots l)\<rparr>) \<and>
    logOf (l\<lparr>ml_slots := takeResponse t (ml_slots l)\<rparr>) = respond_one t (logOf l)"
  using assms
  by (auto simp: wf_learner_def logOf_def learnedAt_def decidedAt_def respond_one_def learned_update_def
      takeResponse_view Let_def fun_eq_iff)

lemma takeResponseLr_log:
  assumes "wf_learner l" and "ml_lr l"
  shows "wf_learner (l\<lparr>ml_slotsLr := takeResponseLr t (ml_slotsLr l)\<rparr>) \<and>
    logOf (l\<lparr>ml_slotsLr := takeResponseLr t (ml_slotsLr l)\<rparr>) = respond_one t (logOf l)"
  using assms
  by (auto simp: wf_learner_def logOf_def learnedAt_def decidedAt_def respond_one_def learned_update_def
      takeResponseLr_view Let_def fun_eq_iff)

lemma takeResponses_log:
  assumes "wf_learner l" and "\<not> ml_lr l"
  shows "wf_learner (l\<lparr>ml_slots := fold takeResponse ts (ml_slots l)\<rparr>) \<and>
    logOf (l\<lparr>ml_slots := fold takeResponse ts (ml_slots l)\<rparr>) = fold respond_one ts (logOf l)"
  using assms
proof (induction ts arbitrary: l)
  case (Cons t ts)
  from Cons.IH [of "l\<lparr>ml_slots := takeResponse t (ml_slots l)\<rparr>"] takeResponse_log [OF Cons.prems]
    Cons.prems show ?case by simp
qed simp

lemma takeResponsesLr_log:
  assumes "wf_learner l" and "ml_lr l"
  shows "wf_learner (l\<lparr>ml_slotsLr := fold takeResponseLr ts (ml_slotsLr l)\<rparr>) \<and>
    logOf (l\<lparr>ml_slotsLr := fold takeResponseLr ts (ml_slotsLr l)\<rparr>) = fold respond_one ts (logOf l)"
  using assms
proof (induction ts arbitrary: l)
  case (Cons t ts)
  from Cons.IH [of "l\<lparr>ml_slotsLr := takeResponseLr t (ml_slotsLr l)\<rparr>"] takeResponseLr_log [OF Cons.prems]
    Cons.prems show ?case by simp
qed simp

lemma handleCatchUpResp_log:
  assumes "wf_learner l"
  shows "wf_learner (handleCatchUpResp c l) \<and> logOf (handleCatchUpResp c l) = respond_spec c (logOf l)"
proof -
  have "respond_spec c (logOf l) = fold respond_one (cresp_Vals c) (logOf l)"
    by (simp add: respond_spec_def respond_one_def [abs_def])
  then show ?thesis
    using assms takeResponses_log [OF assms] takeResponsesLr_log [OF assms]
    by (simp add: handleCatchUpResp_def handleCUResp_def handleCURespLr_def)
qed

interpretation mlearner: learner_contract
  handleLearn learnValue advanceOne handleCatchUpResp logOf wf_learner
proof
  fix gm m d r c v s and l l' :: MultiLearner
  assume wf: "wf_learner l"
  {
    assume "handleLearn gm m l = Inr (d, l')"
    then show "wf_learner l' \<and> logOf l' = logOf l \<and>
        (\<forall>v s. d = Some (v, s) \<longrightarrow> s = lrn_Slot m \<and> log_learned (logOf l) s = None)"
      using handleLrn_log [OF wf] handleLrnLr_log [OF wf]
      by (cases "ml_lr l") (auto simp: handleLearn_def logOf_def)
  }
  show "learnValue None l = Inr ((False, False, 0), l)"
    using learnVal_log(1) [OF wf] learnValLr_log(1) [OF wf] by (simp add: learnValue_def)
  show "\<exists>l' e. wf_learner l' \<and> logOf l' = learned_update v s (logOf l) \<and>
      learnValue (Some (v, s)) l =
        (if s = log_next (logOf l) then Inr ((True, False, 0), l')
         else if s > log_next (logOf l) then Inr ((False, True, s), l')
         else Inl (Panic e))"
    using learnVal_log(2) [OF wf, of v s] learnValLr_log(2) [OF wf, of v s]
    unfolding learnValue_def by (cases "ml_lr l") (auto simp: logOf_def simp del: not_less)
  {
    assume "advanceOne l = (d, l')"
    then show "wf_learner l' \<and> (d, logOf l') = advance_spec (logOf l)"
      using adv_log [OF wf] advLr_log [OF wf] by (cases "ml_lr l") (auto simp: advanceOne_def)
  }
  show "wf_learner (handleCatchUpResp c l) \<and> logOf (handleCatchUpResp c l) = respond_spec c (logOf l)"
    by (rule handleCatchUpResp_log [OF wf])
qed

section \<open>Delivery\<close>

lemma logOf_push:
  "logOf (l\<lparr>dcdChan := out, ml_next := n\<rparr>) = (logOf l)\<lparr>log_out := out, log_next := n\<rparr>"
  by (simp add: logOf_def learnedAt_def decidedAt_def fun_eq_iff)

lemma wf_learner_push: "wf_learner (l\<lparr>dcdChan := out, ml_next := n\<rparr>) = wf_learner l"
  by (simp add: wf_learner_def)

lemma deliverLoop_inv:
  assumes "wf_learner l" and "delivery_inv first (logOf l)"
  shows "wf_learner (deliverLoop l) \<and> delivery_inv first (logOf (deliverLoop l)) \<and>
    log_learned (logOf (deliverLoop l)) = log_learned (logOf l)"
  using assms
proof (induction l rule: deliverLoop.induct)
  case (1 l)
  obtain d l' where adv: "advanceOne l = (d, l')" by (cases "advanceOne l")
  have l': "wf_learner l'" "(d, logOf l') = advance_spec (logOf l)"
    using mlearner.advance_log [OF "1.prems"(1) adv] by blast+
  show ?case
  proof (cases d)
    case None
    then have "deliverLoop l = l'" "logOf l' = logOf l"
      using adv l' by (auto simp: deliverLoop.simps [of l] advance_spec_def split: option.splits if_splits)
    then show ?thesis using l' "1.prems" by simp
  next
    case (Some p)
    obtain v i where p: "p = (v, i)" by (cases p)
    let ?l = "l'\<lparr>dcdChan := dcdChan l' @ [v], ml_next := i + 1\<rparr>"
    have loop: "deliverLoop l = deliverLoop ?l"
      using adv Some p by (subst deliverLoop.simps) simp
    have "delivery_inv first (logOf ?l)"
      unfolding logOf_push
      using delivery_inv_advance [OF "1.prems"(2), of v i "logOf l'"] l' Some p
      by (simp add: logOf_def)
    moreover have "log_learned (logOf ?l) = log_learned (logOf l)"
      using l'(2) Some p unfolding logOf_push
      by (auto simp: advance_spec_def split: option.splits if_splits)
    ultimately show ?thesis
      using "1.IH" [OF adv [symmetric] Some p [symmetric]] l' by (simp add: loop wf_learner_push)
  qed
qed

text \<open>
  After the loop nothing is left to deliver: the next expected slot is not learned, or it was
  decided before.
\<close>

lemma deliverLoop_exhausts:
  assumes "wf_learner l" and "delivery_inv first (logOf l)"
  shows "learnedAt (deliverLoop l) (ml_next (deliverLoop l)) = None"
  using assms
proof (induction l rule: deliverLoop.induct)
  case (1 l)
  obtain d l' where adv: "advanceOne l = (d, l')" by (cases "advanceOne l")
  have l': "wf_learner l'" "(d, logOf l') = advance_spec (logOf l)"
    using mlearner.advance_log [OF "1.prems"(1) adv] by blast+
  show ?case
  proof (cases d)
    case None
    then have loop: "deliverLoop l = l'" "logOf l' = logOf l"
      using adv l' by (auto simp: deliverLoop.simps [of l] advance_spec_def split: option.splits if_splits)
    have "\<not> log_decided (logOf l) (log_next (logOf l))"
      using "1.prems"(2) by (simp add: delivery_inv_def)
    then have "log_learned (logOf l) (log_next (logOf l)) = None"
      using l'(2) None by (auto simp: advance_spec_def split: option.splits)
    then show ?thesis using loop by (simp add: logOf_def)
  next
    case (Some p)
    obtain v i where p: "p = (v, i)" by (cases p)
    let ?l = "l'\<lparr>dcdChan := dcdChan l' @ [v], ml_next := i + 1\<rparr>"
    have loop: "deliverLoop l = deliverLoop ?l"
      using adv Some p by (subst deliverLoop.simps) simp
    have "delivery_inv first (logOf ?l)"
      unfolding logOf_push
      using delivery_inv_advance [OF "1.prems"(2), of v i "logOf l'"] l' Some p
      by (simp add: logOf_def)
    then show ?thesis
      using "1.IH" [OF adv [symmetric] Some p [symmetric]] l' by (simp add: loop wf_learner_push)
  qed
qed

section \<open>Catch-up requests\<close>

lemma for_lt_view:
  assumes "\<And>i a sm. vw (snd (body i (a, sm))) = vw sm \<and> fst (body i (a, sm)) = f (vw sm) i a"
  shows "vw (snd (for_lt i n body (a, sm))) = vw sm \<and>
    fst (for_lt i n body (a, sm)) = for_lt i n (f (vw sm)) a"
proof (induction i n "f (vw sm)" a arbitrary: sm rule: for_lt.induct)
  case (1 i n a)
  show ?case
  proof (cases "i < n")
    case True
    obtain a' sm' where body: "body i (a, sm) = (a', sm')" by (cases "body i (a, sm)")
    with assms [of i a sm] have "vw sm' = vw sm" "a' = f (vw sm) i a" by simp_all
    with 1 [OF True, of sm'] show ?thesis by (simp add: for_lt_step [OF True] body)
  qed simp
qed

lemma getUndecidedSlots_eq:
  assumes wf: "wf_learner l" and run: "getUndecidedSlots slot l = (ts, l')"
  shows "wf_learner l' \<and> logOf l' = logOf l \<and> ml_lr l' = ml_lr l \<and> ml_id l' = ml_id l \<and>
    ml_leader l' = ml_leader l \<and> lsm.view (ml_slots l') = lsm.view (ml_slots l) \<and>
    ts = undecEnd slot (for_lt (ml_next l) slot (\<lambda>i. undecStep i (decidedAt l i)) ([], zeroRange, False))"
proof (cases "ml_lr l")
  case False
  let ?body = "\<lambda>i (acc, sm). let (s, sm) = GetLearnerSlot i sm in (undecStep i (Decided s) acc, sm)"
  obtain acc sm where loop: "for_lt (ml_next l) slot ?body (([], zeroRange, False), ml_slots l) = (acc, sm)"
    by (cases "for_lt (ml_next l) slot ?body (([], zeroRange, False), ml_slots l)")
  have "lsm.view (snd (?body i (a, sm))) = lsm.view sm \<and>
      fst (?body i (a, sm)) = undecStep i (Decided (lsm.view sm i)) a" for i a sm
    using GetLearnerSlot_view [of i sm] by (auto split: prod.splits)
  note view = for_lt_view [where f = "\<lambda>v i. undecStep i (Decided (v i))" and vw = lsm.view
      and body = ?body, OF this, of "ml_next l" slot "([], zeroRange, False)" "ml_slots l",
      unfolded loop fst_conv snd_conv]
  have "l' = l\<lparr>ml_slots := sm\<rparr>" "ts = undecEnd slot acc"
    using run False unfolding getUndecidedSlots_def getUndecSlots_def Let_def loop [unfolded Let_def] by simp_all
  moreover have "decidedAt l = (\<lambda>i. Decided (lsm.view (ml_slots l) i))"
    using False by (simp add: decidedAt_def fun_eq_iff)
  ultimately show ?thesis
    using wf view logOf_same [of sm l] by (simp add: same_log_slot_def)
next
  case True
  let ?body = "\<lambda>i (acc, sm). let (s, sm) = GetLearnerLrSlot i sm in (undecStep i (lr_Decided s) acc, sm)"
  obtain acc sm where loop: "for_lt (ml_next l) slot ?body (([], zeroRange, False), ml_slotsLr l) = (acc, sm)"
    by (cases "for_lt (ml_next l) slot ?body (([], zeroRange, False), ml_slotsLr l)")
  have "lrsm.view (snd (?body i (a, sm))) = lrsm.view sm \<and>
      fst (?body i (a, sm)) = undecStep i (lr_Decided (lrsm.view sm i)) a" for i a sm
    using GetLearnerLrSlot_view [of i sm] by (auto split: prod.splits)
  note view = for_lt_view [where f = "\<lambda>v i. undecStep i (lr_Decided (v i))" and vw = lrsm.view
      and body = ?body, OF this, of "ml_next l" slot "([], zeroRange, False)" "ml_slotsLr l",
      unfolded loop fst_conv snd_conv]
  have "l' = l\<lparr>ml_slotsLr := sm\<rparr>" "ts = undecEnd slot acc"
    using run True unfolding getUndecidedSlots_def getUndecSlotsLr_def Let_def loop [unfolded Let_def] by simp_all
  moreover have "decidedAt l = (\<lambda>i. lr_Decided (lrsm.view (ml_slotsLr l) i))"
    using True by (simp add: decidedAt_def fun_eq_iff)
  ultimately show ?thesis
    using wf view logOf_sameLr [of sm l] by (simp add: same_log_slotLr_def)
qed

definition in_ranges :: "RangeTuple list \<Rightarrow> SlotID \<Rightarrow> bool" where
  "in_ranges ts s \<longleftrightarrow> (\<exists>t\<in>set ts. From t \<le> s \<and> s \<le> To t)"

lemma le_pred_iff:
  fixes j :: "'a::len word"
  assumes "0 < j"
  shows "s \<le> j - 1 \<longleftrightarrow> s < j"
proof -
  have "j - 1 \<noteq> - 1" using assms by auto
  from word_less_Suc_iff [OF this, of s] show ?thesis by simp
qed

lemma in_ranges_snoc:
  assumes "From t < j"
  shows "in_ranges (ts @ [t\<lparr>To := j - 1\<rparr>]) s \<longleftrightarrow> in_ranges ts s \<or> (From t \<le> s \<and> s < j)"
proof -
  have "0 < j" by (rule le_less_trans [OF word_zero_le assms])
  then have "s \<le> j - 1 \<longleftrightarrow> s < j" by (rule le_pred_iff)
  then show ?thesis by (auto simp: in_ranges_def)
qed

text \<open>The state of the loop at slot \<open>j\<close>: the closed ranges and the open one cover what is undecided.\<close>

definition undec_inv ::
  "(SlotID \<Rightarrow> bool) \<Rightarrow> SlotID \<Rightarrow> SlotID \<Rightarrow> RangeTuple list \<times> RangeTuple \<times> bool \<Rightarrow> bool" where
  "undec_inv dec lo j = (\<lambda>(ts, t, start). (start \<longrightarrow> lo \<le> From t \<and> From t < j) \<and>
     (\<forall>s. in_ranges ts s \<or> (start \<and> From t \<le> s \<and> s < j) \<longleftrightarrow> lo \<le> s \<and> s < j \<and> \<not> dec s))"

lemma undecStep_inv:
  assumes inv: "undec_inv dec lo j acc" and j: "lo \<le> j" "j < n"
  shows "undec_inv dec lo (j + 1) (undecStep j (dec j) acc)"
proof -
  obtain ts t start where acc: "acc = (ts, t, start)" by (cases acc)
  define k where "k = j + 1"
  have k: "s < k \<longleftrightarrow> s < j \<or> s = j" for s
    using word_less_Suc_bounded [OF j(2), of s] by (auto simp: k_def le_less)
  have old: "in_ranges ts s \<or> (start \<and> From t \<le> s \<and> s < j) \<longleftrightarrow> lo \<le> s \<and> s < j \<and> \<not> dec s" for s
    using inv by (simp add: undec_inv_def acc)
  have start: "start \<Longrightarrow> lo \<le> From t \<and> From t < j" using inv by (simp add: undec_inv_def acc)
  have "undec_inv dec lo k (undecStep j (dec j) acc)"
  proof (cases "dec j")
    case False
    show ?thesis
    proof (cases start)
      case True
      have "in_ranges ts s \<or> (From t \<le> s \<and> (s < j \<or> s = j)) \<longleftrightarrow> lo \<le> s \<and> (s < j \<or> s = j) \<and> \<not> dec s" for s
        using old [of s] start [OF True] True False j(1) by auto
      then show ?thesis
        using start [OF True] True False by (simp add: acc undecStep_def undec_inv_def k)
    next
      case no: False
      have "in_ranges ts s \<or> (j \<le> s \<and> (s < j \<or> s = j)) \<longleftrightarrow> lo \<le> s \<and> (s < j \<or> s = j) \<and> \<not> dec s" for s
        using old [of s] no False j(1) by auto
      then show ?thesis
        using no False j(1) by (simp add: acc undecStep_def undec_inv_def k)
    qed
  next
    case True
    have "lo \<le> s \<and> (s < j \<or> s = j) \<and> \<not> dec s \<longleftrightarrow> lo \<le> s \<and> s < j \<and> \<not> dec s" for s
      using True by auto
    moreover have "in_ranges (ts @ [t\<lparr>To := j - 1\<rparr>]) s \<longleftrightarrow> in_ranges ts s \<or> (From t \<le> s \<and> s < j)" if start for s
      using start [OF that] by (intro in_ranges_snoc) simp
    ultimately show ?thesis
      using True old by (cases start) (simp_all add: acc undecStep_def undec_inv_def k)
  qed
  then show ?thesis by (simp only: k_def)
qed

text \<open>
  The ranges of a catch-up request cover exactly the slots from the next expected one up to
  below the learned slot that are not decided.
\<close>

theorem getUndecidedSlots_correct:
  assumes "wf_learner l" and "getUndecidedSlots slot l = (ts, l')"
  shows "in_ranges ts s \<longleftrightarrow> ml_next l \<le> s \<and> s < slot \<and> \<not> decidedAt l s"
proof (cases "ml_next l \<le> slot")
  case True
  let ?acc = "for_lt (ml_next l) slot (\<lambda>i. undecStep i (decidedAt l i)) ([], zeroRange, False)"
  have "undec_inv (decidedAt l) (ml_next l) slot ?acc"
  proof (rule for_lt_invariant [OF True, where I = "undec_inv (decidedAt l) (ml_next l)"])
    show "undec_inv (decidedAt l) (ml_next l) (ml_next l) ([], zeroRange, False)"
      by (auto simp: undec_inv_def in_ranges_def)
  qed (rule undecStep_inv)
  moreover obtain us t start where acc: "?acc = (us, t, start)" by (cases ?acc)
  ultimately have "in_ranges us s \<or> (start \<and> From t \<le> s \<and> s < slot) \<longleftrightarrow>
      ml_next l \<le> s \<and> s < slot \<and> \<not> decidedAt l s" and start: "start \<Longrightarrow> From t < slot"
    by (simp_all add: undec_inv_def)
  moreover have "ts = undecEnd slot (us, t, start)"
    using getUndecidedSlots_eq [OF assms] acc by simp
  moreover have "in_ranges (us @ [t\<lparr>To := slot - 1\<rparr>]) s \<longleftrightarrow> in_ranges us s \<or> (From t \<le> s \<and> s < slot)" if start
    using start [OF that] by (rule in_ranges_snoc)
  ultimately show ?thesis by (cases start) (simp_all add: undecEnd_def)
next
  case False
  then have "ts = []"
    using getUndecidedSlots_eq [OF assms] by (simp add: undecEnd_def)
  then show ?thesis using False by (auto simp: in_ranges_def)
qed

theorem getUndecidedSlots_correct_witness:
  "\<exists>ts l'. getUndecidedSlots 4 (NewMultiLearner (ID 0 0) True (ID 1 0) 1 oneGrpMgr) = (ts, l') \<and>
    in_ranges ts 3 \<and> \<not> in_ranges ts 4"
proof -
  let ?l = "NewMultiLearner (ID 0 0) True (ID 1 0) 1 oneGrpMgr"
  obtain ts l' where run: "getUndecidedSlots 4 ?l = (ts, l')" by (cases "getUndecidedSlots 4 ?l")
  have "wf_learner ?l" "\<not> decidedAt ?l s" for s
    by (simp_all add: wf_learner_def decidedAt_def NewMultiLearner_def NewLearnerSlotMap_def
        NewLearnerLrSlotMap_def lsm.view_def lrsm.view_def blankLearnerSlot_def blankLearnerLrSlot_def)
  with getUndecidedSlots_correct [OF _ run, of 3] getUndecidedSlots_correct [OF _ run, of 4] run
  show ?thesis by (simp add: NewMultiLearner_def)
qed

end
