(* ===== verification/LearnerSafety.thy ===== *)
theory LearnerSafety
  imports LearnerRuns
begin

text \<open>
  Runs of the MultiPaxos learner: catch-up responses, the event loop keeps the delivery
  invariant, the panic of \<open>learnVal\<close> is out of reach for slots from the first one on, and a learned
  value is backed by a quorum of learns.
\<close>

section \<open>Answering catch-up requests\<close>

definition storedVal :: "MultiLearner \<Rightarrow> SlotID \<Rightarrow> Value" where
  "storedVal l s =
     (if ml_lr l then lr_LearnedVal (lrsm.view (ml_slotsLr l) s)
      else LearnedVal (lsm.view (ml_slots l) s))"

definition responses :: "(SlotID \<Rightarrow> bool) \<Rightarrow> (SlotID \<Rightarrow> Value) \<Rightarrow> RangeTuple list \<Rightarrow> ResponseTuple list" where
  "responses dec val rngs = concat (map (\<lambda>r. map (\<lambda>i. \<lparr>resp_Slot = i, resp_Val = val i\<rparr>)
     (filter dec (slotRange (From r) (To r + 1)))) rngs)"

lemma collectDecided_eq:
  assumes "collectDecided r (ts, sm) = (ts', sm')"
  shows "lsm.view sm' = lsm.view sm \<and>
    ts' = ts @ responses (\<lambda>i. Decided (lsm.view sm i)) (\<lambda>i. LearnedVal (lsm.view sm i)) [r]"
proof -
  let ?body = "\<lambda>i (ts, sm). let (slot, sm) = GetLearnerSlot i sm
     in (if Decided slot then ts @ [\<lparr>resp_Slot = i, resp_Val = LearnedVal slot\<rparr>] else ts, sm)"
  let ?f = "\<lambda>v i ts. if Decided (v i) then ts @ [\<lparr>resp_Slot = i, resp_Val = LearnedVal (v i)\<rparr>] else ts"
  have "lsm.view (snd (?body i (a, sm))) = lsm.view sm \<and> fst (?body i (a, sm)) = ?f (lsm.view sm) i a"
    for i a sm
    using GetLearnerSlot_view [of i sm] by (auto split: prod.splits)
  from for_lt_view [where f = ?f and vw = lsm.view and body = ?body, OF this,
      of "From r" "To r + 1" ts sm]
  show ?thesis
    using assms unfolding collectDecided_def for_lt_collect by (simp add: responses_def)
qed

lemma collectDecidedLr_eq:
  assumes "collectDecidedLr r (ts, sm) = (ts', sm')"
  shows "lrsm.view sm' = lrsm.view sm \<and>
    ts' = ts @ responses (\<lambda>i. lr_Decided (lrsm.view sm i)) (\<lambda>i. lr_LearnedVal (lrsm.view sm i)) [r]"
proof -
  let ?body = "\<lambda>i (ts, sm). let (slot, sm) = GetLearnerLrSlot i sm
     in (if lr_Decided slot then ts @ [\<lparr>resp_Slot = i, resp_Val = lr_LearnedVal slot\<rparr>] else ts, sm)"
  let ?f = "\<lambda>v i ts. if lr_Decided (v i) then ts @ [\<lparr>resp_Slot = i, resp_Val = lr_LearnedVal (v i)\<rparr>] else ts"
  have "lrsm.view (snd (?body i (a, sm))) = lrsm.view sm \<and> fst (?body i (a, sm)) = ?f (lrsm.view sm) i a"
    for i a sm
    using GetLearnerLrSlot_view [of i sm] by (auto split: prod.splits)
  from for_lt_view [where f = ?f and vw = lrsm.view and body = ?body, OF this,
      of "From r" "To r + 1" ts sm]
  show ?thesis
    using assms unfolding collectDecidedLr_def for_lt_collect by (simp add: responses_def)
qed

lemma collectAll_eq:
  "fold collectDecided rs (ts, sm) = (ts', sm') \<Longrightarrow> lsm.view sm' = lsm.view sm \<and>
    ts' = ts @ responses (\<lambda>i. Decided (lsm.view sm i)) (\<lambda>i. LearnedVal (lsm.view sm i)) rs"
proof (induction rs arbitrary: ts sm)
  case (Cons r rs)
  obtain ts1 sm1 where one: "collectDecided r (ts, sm) = (ts1, sm1)" by (cases "collectDecided r (ts, sm)")
  with Cons.prems have "fold collectDecided rs (ts1, sm1) = (ts', sm')" by simp
  from Cons.IH [OF this] collectDecided_eq [OF one] show ?case by (simp add: responses_def)
qed (simp add: responses_def)

lemma collectAllLr_eq:
  "fold collectDecidedLr rs (ts, sm) = (ts', sm') \<Longrightarrow> lrsm.view sm' = lrsm.view sm \<and>
    ts' = ts @ responses (\<lambda>i. lr_Decided (lrsm.view sm i)) (\<lambda>i. lr_LearnedVal (lrsm.view sm i)) rs"
proof (induction rs arbitrary: ts sm)
  case (Cons r rs)
  obtain ts1 sm1 where one: "collectDecidedLr r (ts, sm) = (ts1, sm1)" by (cases "collectDecidedLr r (ts, sm)")
  with Cons.prems have "fold collectDecidedLr rs (ts1, sm1) = (ts', sm')" by simp
  from Cons.IH [OF this] collectDecidedLr_eq [OF one] show ?case by (simp add: responses_def)
qed (simp add: responses_def)

lemma handleCatchUpReq_eq:
  assumes wf: "wf_learner l" and run: "handleCatchUpReq c l = ((r, d), l')"
  shows "wf_learner l' \<and> logOf l' = logOf l \<and> ml_lr l' = ml_lr l \<and>
    lsm.view (ml_slots l') = lsm.view (ml_slots l) \<and> d = creq_ID c \<and> cresp_ID r = ml_id l \<and>
    cresp_Vals r = responses (decidedAt l) (storedVal l) (creq_Ranges c)"
proof (cases "ml_lr l")
  case False
  obtain ts sm where all: "fold collectDecided (creq_Ranges c) ([], ml_slots l) = (ts, sm)"
    by (cases "fold collectDecided (creq_Ranges c) ([], ml_slots l)")
  have "r = \<lparr>cresp_ID = ml_id l, cresp_Vals = ts\<rparr>" "d = creq_ID c" "l' = l\<lparr>ml_slots := sm\<rparr>"
    using run False unfolding handleCatchUpReq_def handleCUReq_def all by simp_all
  moreover have "decidedAt l = (\<lambda>i. Decided (lsm.view (ml_slots l) i))"
    "storedVal l = (\<lambda>i. LearnedVal (lsm.view (ml_slots l) i))"
    using False by (simp_all add: decidedAt_def storedVal_def fun_eq_iff)
  ultimately show ?thesis
    using wf collectAll_eq [OF all] logOf_same [of sm l] by (simp add: same_log_slot_def)
next
  case True
  obtain ts sm where all: "fold collectDecidedLr (creq_Ranges c) ([], ml_slotsLr l) = (ts, sm)"
    by (cases "fold collectDecidedLr (creq_Ranges c) ([], ml_slotsLr l)")
  have "r = \<lparr>cresp_ID = ml_id l, cresp_Vals = ts\<rparr>" "d = creq_ID c" "l' = l\<lparr>ml_slotsLr := sm\<rparr>"
    using run True unfolding handleCatchUpReq_def handleCUReqLr_def all by simp_all
  moreover have "decidedAt l = (\<lambda>i. lr_Decided (lrsm.view (ml_slotsLr l) i))"
    "storedVal l = (\<lambda>i. lr_LearnedVal (lrsm.view (ml_slotsLr l) i))"
    using True by (simp_all add: decidedAt_def storedVal_def fun_eq_iff)
  ultimately show ?thesis
    using wf collectAllLr_eq [OF all] logOf_sameLr [of sm l] by (simp add: same_log_slotLr_def)
qed

lemma responses_iff:
  "t \<in> set (responses dec val rs) \<longleftrightarrow> (\<exists>r\<in>set rs. From r \<le> resp_Slot t \<and> resp_Slot t < To r + 1) \<and>
     dec (resp_Slot t) \<and> resp_Val t = val (resp_Slot t)"
proof -
  let ?f = "\<lambda>i. \<lparr>resp_Slot = i, resp_Val = val i\<rparr>"
  have "set (map ?f (filter dec (slotRange a b))) = ?f ` {i. a \<le> i \<and> i < b \<and> dec i}" for a b
    by (auto simp: slotRange_iff)
  then have "set (responses dec val rs) = (\<Union>r\<in>set rs. ?f ` {i. From r \<le> i \<and> i < To r + 1 \<and> dec i})"
    by (simp only: responses_def set_concat set_map image_image)
  then show ?thesis by (cases t) (simp only: UN_iff image_iff mem_Collect_eq, fastforce)
qed

section \<open>The event loop keeps the delivery invariant\<close>

definition learner_inv :: "SlotID \<Rightarrow> MultiLearner \<Rightarrow> bool" where
  "learner_inv first l \<longleftrightarrow> wf_learner l \<and> delivery_inv first (logOf l) \<and> learnedAt l (ml_next l) = None"

text \<open>No message is about the greatest slot number, past which \<open>next\<close> would wrap around.\<close>

fun below_last_slot :: "learner_event \<Rightarrow> bool" where
  "below_last_slot (LLearn m) = (lrn_Slot m \<noteq> - 1)"
| "below_last_slot (LCatchUpResponse c) = (\<forall>t\<in>set (cresp_Vals c). resp_Slot t \<noteq> - 1)"
| "below_last_slot _ = True"

lemma learner_inv_frame:
  assumes "learner_inv first l" and "wf_learner l'" and "logOf l' = logOf l"
  shows "learner_inv first l'"
  using assms by (simp add: learner_inv_def logOf_def)

lemma wf_logOf_simps [simp]:
  "wf_learner (l\<lparr>catchUpInProgress := b\<rparr>) = wf_learner l" "logOf (l\<lparr>catchUpInProgress := b\<rparr>) = logOf l"
  "wf_learner (l\<lparr>ml_ucast := u\<rparr>) = wf_learner l" "logOf (l\<lparr>ml_ucast := u\<rparr>) = logOf l"
  "wf_learner (l\<lparr>ml_leader := i\<rparr>) = wf_learner l" "logOf (l\<lparr>ml_leader := i\<rparr>) = logOf l"
  "wf_learner (l\<lparr>ml_id := i\<rparr>) = wf_learner l" "logOf (l\<lparr>ml_id := i\<rparr>) = logOf l"
  "wf_learner (l\<lparr>ml_started := b\<rparr>) = wf_learner l" "logOf (l\<lparr>ml_started := b\<rparr>) = logOf l"
  by (simp_all add: wf_learner_def logOf_def learnedAt_def decidedAt_def fun_eq_iff)

lemma deliverLoop_learner_inv:
  "wf_learner l \<Longrightarrow> delivery_inv first (logOf l) \<Longrightarrow> learner_inv first (deliverLoop l)"
  by (simp add: learner_inv_def deliverLoop_inv deliverLoop_exhausts)

lemma genCatchUpReq_frame:
  assumes "wf_learner l" and "genCatchUpReq s l = ((c, d), l')"
  shows "wf_learner l' \<and> logOf l' = logOf l \<and> ml_lr l' = ml_lr l \<and>
    lsm.view (ml_slots l') = lsm.view (ml_slots l)"
proof -
  obtain ts l1 where "getUndecidedSlots s l = (ts, l1)" by (cases "getUndecidedSlots s l")
  with getUndecidedSlots_eq [OF assms(1) this] assms(2) show ?thesis by (auto simp: genCatchUpReq_def)
qed

text \<open>A learn for a later slot leaves the next expected one as it is.\<close>

lemma learn_later:
  assumes inv: "learner_inv first l" and handle: "handleLearn gm m l = Inr (d, l1)"
    and learn: "learnValue d l1 = Inr ((False, su, cs), l2)" and slot: "lrn_Slot m \<noteq> - 1"
  shows "learner_inv first l2"
proof -
  have wf: "wf_learner l" "delivery_inv first (logOf l)" using inv by (auto simp: learner_inv_def)
  have l2: "wf_learner l2" "delivery_inv first (logOf l2)"
    using mlearner.learn_event_inv [OF wf slot handle learn] by blast+
  have l1: "wf_learner l1" "logOf l1 = logOf l" using mlearner.handle_log [OF wf(1) handle] by blast+
  have "learnedAt l2 (ml_next l2) = None"
  proof (cases d)
    case None
    then have "l2 = l1" using learn mlearner.learn_none [OF l1(1)] by simp
    then show ?thesis using inv l1 by (simp add: learner_inv_def logOf_def)
  next
    case (Some p)
    obtain v s where p: "p = (v, s)" by (cases p)
    with Some learn mlearner.learn_some [OF l1(1), of v s]
    have "logOf l2 = learned_update v s (logOf l)" "s \<noteq> ml_next l"
      using l1(2) by (auto simp: logOf_def split: if_splits)
    then show ?thesis using inv by (auto simp: learner_inv_def logOf_def learned_update_def)
  qed
  with l2 show ?thesis by (simp add: learner_inv_def)
qed

lemma learner_step_inv:
  assumes inv: "learner_inv first l" and step: "learner_step gm e l = Inr l'" and ok: "below_last_slot e"
  shows "learner_inv first l'"
proof (cases e)
  case (LLearn m)
  have wf: "wf_learner l" "delivery_inv first (logOf l)" using inv by (auto simp: learner_inv_def)
  obtain d l1 adv su cs l2 where handle: "handleLearn gm m l = Inr (d, l1)"
      and learn: "learnValue d l1 = Inr ((adv, su, cs), l2)"
      and l': "l' = (if adv then deliverLoop l2
        else if su \<and> \<not> (catchUpInProgress l2 \<or> ml_id l2 = ml_leader l2)
        then (let ((creq, dest), l3) = genCatchUpReq cs (l2\<lparr>catchUpInProgress := True\<rparr>)
          in lrn_send (Pointer (MCatchUpRequest creq)) dest l3) else l2)"
    using step LLearn
    by (auto simp: bind_result_Inr_iff Let_def split: if_splits prod.splits)
  have slot: "lrn_Slot m \<noteq> - 1" using ok LLearn by simp
  have l2: "wf_learner l2" "delivery_inv first (logOf l2)"
    using mlearner.learn_event_inv [OF wf slot handle learn] by blast+
  show ?thesis
  proof (cases adv)
    case True
    then show ?thesis using l' l2 by (simp add: deliverLoop_learner_inv)
  next
    case False
    then have "learner_inv first l2" using learn_later [OF inv handle _ slot] learn by simp
    moreover obtain creq dest l3 where gen: "genCatchUpReq cs (l2\<lparr>catchUpInProgress := True\<rparr>) = ((creq, dest), l3)"
      by (metis prod.exhaust)
    moreover have "wf_learner l3 \<and> logOf l3 = logOf l2"
      using genCatchUpReq_frame [OF _ gen] l2 by simp
    ultimately show ?thesis
      using l' False by (auto simp: lrn_send_def intro: learner_inv_frame)
  qed
next
  case (LCatchUpRequest c)
  obtain r d l1 where run: "handleCatchUpReq c l = ((r, d), l1)" by (metis prod.exhaust)
  then have "wf_learner l1" "logOf l1 = logOf l"
    using handleCatchUpReq_eq [OF _ run] inv by (auto simp: learner_inv_def)
  then show ?thesis
    using step LCatchUpRequest run inv by (auto simp: lrn_send_def intro: learner_inv_frame)
next
  case (LCatchUpResponse c)
  have "wf_learner (handleCatchUpResp c l) \<and> delivery_inv first (logOf (handleCatchUpResp c l))"
    using mlearner.respond_event_inv [of l first c] inv ok LCatchUpResponse by (simp add: learner_inv_def)
  then show ?thesis
    using step LCatchUpResponse by (auto intro: deliverLoop_learner_inv)
qed (use inv step in \<open>intro learner_inv_frame [OF inv]; auto simp: lrn_handleGrpHold_def learner_inv_def\<close>)+

fun learner_run :: "(GrpMgr \<times> learner_event) list \<Rightarrow> MultiLearner \<Rightarrow> MultiLearner result" where
  "learner_run [] l = Ok l"
| "learner_run ((gm, e) # es) l = bind_result (learner_step gm e l) (learner_run es)"

lemma learner_run_inv:
  assumes "learner_inv first l" and "learner_run es l = Inr l'" and "\<forall>(gm, e)\<in>set es. below_last_slot e"
  shows "learner_inv first l'"
  using assms
proof (induction es l rule: learner_run.induct)
  case (2 gm e es l)
  from "2.prems"(2) obtain l1 where "learner_step gm e l = Inr l1" "learner_run es l1 = Inr l'"
    by (auto simp: bind_result_Inr_iff)
  with 2 learner_step_inv [OF "2.prems"(1)] show ?case by auto
qed simp

lemma NewMultiLearner_inv: "learner_inv first (NewMultiLearner i r ld first gm)"
proof -
  let ?l = "NewMultiLearner i r ld first gm"
  have "learnedAt ?l s = None" "\<not> decidedAt ?l s" "slotRange first first = []" for s
    by (simp_all add: learnedAt_def decidedAt_def NewMultiLearner_def NewLearnerSlotMap_def
        NewLearnerLrSlotMap_def lsm.view_def lrsm.view_def blankLearnerSlot_def blankLearnerLrSlot_def
        slotRange_empty)
  moreover have "wf_learner ?l" "ml_next ?l = first" "dcdChan ?l = []"
    by (simp_all add: wf_learner_def NewMultiLearner_def NewLearnerSlotMap_def NewLearnerLrSlotMap_def
        lsm.view_def lrsm.view_def blankLearnerSlot_def blankLearnerLrSlot_def)
  ultimately show ?thesis by (auto simp: learner_inv_def delivery_inv_def logOf_def)
qed

text \<open>
  C18. Over any run of its event loop, in both modes, a new learner delivers the learned values in
  slot order, without gaps or duplicates, from its first slot up to below the next expected one,
  and it delivers them promptly: the next expected slot is not learned.
\<close>

theorem learner_delivers_in_order:
  assumes "learner_run es (NewMultiLearner i r ld first gm) = Inr l"
    and "\<forall>(gm, e)\<in>set es. below_last_slot e"
  shows "first \<le> ml_next l \<and> (\<forall>s. first \<le> s \<and> s < ml_next l \<longrightarrow> learnedAt l s \<noteq> None) \<and>
    dcdChan l = map (\<lambda>s. the (learnedAt l s)) (slotRange first (ml_next l)) \<and>
    learnedAt l (ml_next l) = None"
  using learner_run_inv [OF NewMultiLearner_inv assms]
  unfolding learner_inv_def delivery_inv_def by (simp add: logOf_def)

text \<open>
  In a state a run can reach, a learn for the first slot or a later one never makes the
  learner panic in \<open>learnValue\<close>: a fault can only come from counting the learn.
\<close>

theorem learner_no_panic:
  assumes "learner_run es (NewMultiLearner i r ld first gm) = Inr l"
    and "\<forall>(gm, e)\<in>set es. below_last_slot e" and "first \<le> lrn_Slot m"
    and "learner_step gm' (LLearn m) l = Inl e"
  shows "handleLearn gm' m l = Inl e"
proof (cases "handleLearn gm' m l")
  case (Inr z)
  obtain d l1 where z: "z = (d, l1)" by (cases z)
  have inv: "wf_learner l" "delivery_inv first (logOf l)"
    using learner_run_inv [OF NewMultiLearner_inv assms(1,2)] by (auto simp: learner_inv_def)
  have "learnValue d l1 \<noteq> Inl e'" for e'
    using mlearner.learn_event_panics [OF inv Inr [unfolded z]] assms(3) by auto
  then obtain w where "learnValue d l1 = Inr w" by (cases "learnValue d l1") auto
  moreover obtain a b c l2 where "w = ((a, b, c), l2)" by (metis prod.exhaust)
  ultimately have "learnValue d l1 = Inr ((a, b, c), l2)" by simp
  then show ?thesis
    using assms(4) Inr z by (auto simp: Let_def split: if_splits prod.splits)
qed (use assms(4) in simp)

section \<open>A quorum behind every learned value\<close>

text \<open>
  The value of a slot is backed by a set of learns when a quorum of them, from different Paxos
  ids, is for this slot and one round, and it is the value of one of them.
\<close>

definition backed :: "Learn set \<Rightarrow> nat \<Rightarrow> SlotID \<Rightarrow> Value \<Rightarrow> bool" where
  "backed M q s v \<longleftrightarrow> (\<exists>r L. L \<subseteq> M \<and> (\<forall>m\<in>L. lrn_Slot m = s \<and> lrn_Rnd m = r) \<and>
     q \<le> card ((\<lambda>m. PxInt (lrn_ID m)) ` L) \<and> (\<exists>m\<in>L. lrn_Val m = v))"

lemma backed_mono: "backed M q s v \<Longrightarrow> M \<subseteq> M' \<Longrightarrow> backed M' q s v"
  unfolding backed_def by (meson order_trans)

text \<open>The votes of a slot are the learns stored for its round, one per Paxos id.\<close>

definition voters :: "LearnerSlot \<Rightarrow> nat set" where
  "voters slot = {i. i < length (Learns slot) \<and> Learns slot ! i \<noteq> None}"

definition counted :: "GrpMgr \<Rightarrow> Learn set \<Rightarrow> SlotID \<Rightarrow> LearnerSlot \<Rightarrow> bool" where
  "counted gm M s slot \<longleftrightarrow>
     (length (Learns slot) = unat (NrOfNodes gm) \<or> ls_Rnd slot = ZeroRound \<and> Learns slot = []) \<and>
     unat (Votes slot) = card (voters slot) \<and>
     (\<forall>i m. i < length (Learns slot) \<and> Learns slot ! i = Some m \<longrightarrow>
        m \<in> M \<and> lrn_Slot m = s \<and> lrn_Rnd m = ls_Rnd slot \<and> PxInt (lrn_ID m) = int i)"

text \<open>A learned value is backed, or it is one of the values \<open>C\<close> that another learner told.\<close>

definition known_value :: "Learn set \<Rightarrow> (SlotID \<times> Value) set \<Rightarrow> nat \<Rightarrow> SlotID \<Rightarrow> Value \<Rightarrow> bool" where
  "known_value M C q s v \<longleftrightarrow> backed M q s v \<or> (s, v) \<in> C"

lemma known_value_backed [simp]: "known_value M {} q s v = backed M q s v"
  by (simp add: known_value_def)

lemma backed_known: "backed M q s v \<Longrightarrow> known_value M C q s v"
  by (simp add: known_value_def)

definition counts_inv :: "GrpMgr \<Rightarrow> Learn set \<Rightarrow> (SlotID \<times> Value) set \<Rightarrow> MultiLearner \<Rightarrow> bool" where
  "counts_inv gm M C l \<longleftrightarrow> \<not> ml_lr l \<and> wf_learner l \<and>
     (\<forall>s. counted gm M s (lsm.view (ml_slots l) s)) \<and>
     (\<forall>s v. learnedAt l s = Some v \<longrightarrow> known_value M C (unat (Quorum gm)) s v)"

lemma counted_mono: "counted gm M s slot \<Longrightarrow> M \<subseteq> M' \<Longrightarrow> counted gm M' s slot"
  unfolding counted_def by blast

lemma counts_inv_mono: "counts_inv gm M C l \<Longrightarrow> M \<subseteq> M' \<Longrightarrow> counts_inv gm M' C l"
  unfolding counts_inv_def known_value_def by (blast intro: counted_mono backed_mono)

lemma counted_reset:
  "counted gm M s (slot\<lparr>ls_Rnd := r, Learns := replicate (unat (NrOfNodes gm)) None, Votes := 0\<rparr>)"
  by (auto simp: counted_def voters_def)

lemma counted_value:
  assumes "counted gm M s slot" and "Learns slot ! i = Some m" and "i < length (Learns slot)"
    and "q \<le> card (voters slot)"
  shows "backed M q s (lrn_Val m)"
proof -
  define L where "L = {m. \<exists>i\<in>voters slot. Learns slot ! i = Some m}"
  have L: "m \<in> M \<and> lrn_Slot m = s \<and> lrn_Rnd m = ls_Rnd slot" if "m \<in> L" for m
    using that assms(1) by (auto simp: L_def voters_def counted_def)
  have "int ` voters slot \<subseteq> (\<lambda>m. PxInt (lrn_ID m)) ` L"
  proof (intro subsetI)
    fix k assume "k \<in> int ` voters slot"
    then obtain i m where i: "k = int i" "i \<in> voters slot" "Learns slot ! i = Some m"
      by (auto simp: voters_def)
    then have "m \<in> L" "PxInt (lrn_ID m) = k"
      using assms(1) by (auto simp: L_def voters_def counted_def)
    then show "k \<in> (\<lambda>m. PxInt (lrn_ID m)) ` L" by blast
  qed
  moreover have "L \<subseteq> the ` set (Learns slot)"
    by (auto simp: L_def voters_def) (metis image_iff nth_mem option.sel)
  then have "finite L" by (rule finite_subset) simp
  ultimately have "card (int ` voters slot) \<le> card ((\<lambda>m. PxInt (lrn_ID m)) ` L)"
    by (intro card_mono) auto
  then have "q \<le> card ((\<lambda>m. PxInt (lrn_ID m)) ` L)"
    using assms(4) by (simp add: card_image)
  moreover have "m \<in> L" using assms(2,3) by (auto simp: L_def voters_def)
  ultimately show ?thesis
    using L unfolding backed_def by (intro exI [of _ "ls_Rnd slot"] exI [of _ L]) blast
qed

lemma countLearn_counted:
  assumes cnt: "counted gm M s slot" and run: "countLearn gm m slot = Inr (d, slot')"
    and m: "m \<in> M" "lrn_Slot m = s" "lrn_Rnd m = ls_Rnd slot" and id: "ls_ID slot = s"
    and nodes: "unat (NrOfNodes gm) < 2 ^ 64 - 1"
  shows "counted gm M s slot' \<and> (\<forall>v t. d = Some (v, t) \<longrightarrow> backed M (unat (Quorum gm)) s v)"
proof -
  let ?i = "nat (PxInt (lrn_ID m))"
  from run obtain known where i: "0 \<le> PxInt (lrn_ID m)" "?i < length (Learns slot)"
      "known = Learns slot ! ?i"
      and cases: "known \<noteq> None \<and> d = None \<and> slot' = slot \<or> known = None \<and>
        slot' = slot\<lparr>Votes := Votes slot + 1, Learns := (Learns slot)[?i := Some m]\<rparr> \<and>
        (d = None \<or> d = Some (lrn_Val m, ls_ID slot) \<and> Quorum gm \<le> Votes slot + 1)"
    by (auto simp: countLearn_def Let_def bind_result_Inr_iff index_Inr_iff update_index_Inr_iff
        split: if_splits)
  from cases show ?thesis
  proof
    assume new: "known = None \<and>
        slot' = slot\<lparr>Votes := Votes slot + 1, Learns := (Learns slot)[?i := Some m]\<rparr> \<and>
        (d = None \<or> d = Some (lrn_Val m, ls_ID slot) \<and> Quorum gm \<le> Votes slot + 1)"
    have len: "length (Learns slot) = unat (NrOfNodes gm)"
      using cnt i(2) by (auto simp: counted_def)
    have "voters slot' = insert ?i (voters slot)"
      using new i by (auto simp: voters_def nth_list_update)
    moreover have "?i \<notin> voters slot" using new i by (simp add: voters_def)
    moreover have fin: "voters slot \<subseteq> {..<length (Learns slot)}" by (auto simp: voters_def)
    then have "finite (voters slot)" by (rule finite_subset) simp
    ultimately have card: "card (voters slot') = Suc (card (voters slot))" by simp
    have "card (voters slot) \<le> length (Learns slot)"
      using card_mono [OF _ fin] by simp
    then have "unat (Votes slot) < 2 ^ 64 - 1"
      using nodes len cnt by (simp add: counted_def)
    then have "Votes slot < - 1"
      by (simp add: word_less_nat_alt unsigned_minus_1_eq_mask mask_eq_exp_minus_1)
    then have votes: "unat (Votes slot + 1) = card (voters slot')"
      using unat_Suc_word [of "Votes slot" "- 1"] cnt card by (simp add: counted_def)
    have cnt': "counted gm M s slot'"
      using cnt new votes m i len by (auto simp: counted_def nth_list_update)
    have "backed M (unat (Quorum gm)) s v" if "d = Some (v, t)" for v t
    proof -
      have "v = lrn_Val m" "Quorum gm \<le> Votes slot + 1" using new that by auto
      then have "unat (Quorum gm) \<le> card (voters slot')"
        using votes by (simp add: word_le_nat_alt)
      then have "backed M (unat (Quorum gm)) s (lrn_Val m)"
        using counted_value [OF cnt', of ?i m] new i by simp
      with \<open>v = lrn_Val m\<close> show ?thesis by simp
    qed
    with cnt' show ?thesis by blast
  qed (use cnt in auto)
qed

lemma handleLrn_counts:
  assumes inv: "counts_inv gm M C l" and run: "handleLrn gm m l = Inr (d, l')" and m: "m \<in> M"
    and nodes: "unat (NrOfNodes gm) < 2 ^ 64 - 1"
  shows "counts_inv gm M C l' \<and> (\<forall>v s. d = Some (v, s) \<longrightarrow> backed M (unat (Quorum gm)) s v)"
proof -
  let ?s = "lrn_Slot m" and ?q = "unat (Quorum gm)"
  from inv have wf: "wf_learner l" "\<not> ml_lr l" by (simp_all add: counts_inv_def)
  note log = handleLrn_log [OF wf(1) run wf(2)]
  have learned: "learnedAt l' = learnedAt l" using log by (simp add: logOf_def)
  obtain slot sm where get: "GetLearnerSlot ?s (ml_slots l) = (slot, sm)" by (cases "GetLearnerSlot ?s (ml_slots l)")
  then have view: "slot = lsm.view (ml_slots l) ?s" "lsm.view sm = lsm.view (ml_slots l)"
    by (simp_all add: GetLearnerSlot_view)
  have old: "counted gm M t (lsm.view (ml_slots l) t)" for t using inv by (simp add: counts_inv_def)
  have id: "ls_ID slot = ?s" using wf view by (simp add: wf_learner_def)
  define slot1 where "slot1 = (if Compare (ls_Rnd slot) (lrn_Rnd m) = - 1
    then slot\<lparr>ls_Rnd := lrn_Rnd m, Learns := replicate (unat (NrOfNodes gm)) None, Votes := 0\<rparr>
    else slot)"
  note run' = run [unfolded handleLrn_def Let_def get prod.case, folded slot1_def]
  show ?thesis
  proof (cases "Learned slot \<or> Compare (ls_Rnd slot) (lrn_Rnd m) = 1")
    case True
    then have "d = None" "l' = l\<lparr>ml_slots := sm\<rparr>"
      using run' by (auto split: if_splits)
    then show ?thesis
      using log learned old view inv unfolding counts_inv_def by simp
  next
    case False
    then obtain slot2 where count: "countLearn gm m slot1 = Inr (d, slot2)"
        and l': "l' = l\<lparr>ml_slots := PutLearnerSlot ?s slot2 sm\<rparr>"
      using run' by (auto simp: bind_result_Inr_iff)
    have "counted gm M ?s slot1"
      unfolding slot1_def using old [of ?s] view counted_reset [where slot = slot and s = ?s and M = M] by simp
    moreover have "lrn_Rnd m = ls_Rnd slot1" "ls_ID slot1 = ?s"
      using False id by (auto simp: slot1_def)
    ultimately have new: "counted gm M ?s slot2"
        "\<forall>v t. d = Some (v, t) \<longrightarrow> backed M ?q ?s v"
      using countLearn_counted [OF _ count m refl _ _ nodes] by blast+
    have "counted gm M t (lsm.view (ml_slots l') t)" for t
      using new(1) old [of t] view by (simp add: l' lsm.view_put)
    then have "counts_inv gm M C l'"
      using log learned inv unfolding counts_inv_def by simp
    moreover have "backed M ?q s v" if "d = Some (v, s)" for v s
      using new(2) log that by auto
    ultimately show ?thesis by blast
  qed
qed

text \<open>Operations that leave the tally of every slot alone.\<close>

definition same_tally :: "LearnerSlot \<Rightarrow> LearnerSlot \<Rightarrow> bool" where
  "same_tally a b \<longleftrightarrow> ls_Rnd a = ls_Rnd b \<and> Learns a = Learns b \<and> Votes a = Votes b"

lemma counted_same: "same_tally a b \<Longrightarrow> counted gm M s b \<Longrightarrow> counted gm M s a"
  by (simp add: same_tally_def counted_def voters_def)

lemma counts_inv_same:
  assumes "counts_inv gm M C l" and "wf_learner l'" and "\<not> ml_lr l'"
    and "\<And>s. same_tally (lsm.view (ml_slots l') s) (lsm.view (ml_slots l) s)"
    and "\<And>s v. learnedAt l' s = Some v \<Longrightarrow> learnedAt l s = Some v \<or> known_value M C (unat (Quorum gm)) s v"
  shows "counts_inv gm M C l'"
  using assms counted_same [OF assms(4)] unfolding counts_inv_def by blast

lemma same_tally_refl [simp]: "same_tally a a"
  by (simp add: same_tally_def)

lemma learnVal_counts:
  assumes inv: "counts_inv gm M C l" and run: "learnVal d l = Inr (r, l')"
    and d: "\<forall>v s. d = Some (v, s) \<longrightarrow> known_value M C (unat (Quorum gm)) s v"
  shows "counts_inv gm M C l'"
proof (cases d)
  case None
  then show ?thesis using run inv by (simp add: learnVal_def)
next
  case (Some p)
  obtain v s where p: "p = (v, s)" by (cases p)
  from inv have wf: "wf_learner l" "\<not> ml_lr l" by (simp_all add: counts_inv_def)
  obtain slot sm where get: "GetLearnerSlot s (ml_slots l) = (slot, sm)" by (cases "GetLearnerSlot s (ml_slots l)")
  then have view: "slot = lsm.view (ml_slots l) s" "lsm.view sm = lsm.view (ml_slots l)"
    by (simp_all add: GetLearnerSlot_view)
  have l': "l' = l\<lparr>ml_slots := PutLearnerSlot s (slot\<lparr>Learned := True, LearnedVal := v\<rparr>) sm\<rparr>"
    using run Some p get by (auto simp: learnVal_def Let_def split: if_splits)
  show ?thesis
  proof (rule counts_inv_same [OF inv])
    show "wf_learner l'" using wf view l' by (auto simp: wf_learner_def lsm.view_put)
    show "\<not> ml_lr l'" using wf l' by simp
    show "same_tally (lsm.view (ml_slots l') t) (lsm.view (ml_slots l) t)" for t
      using view by (simp add: l' lsm.view_put same_tally_def)
    show "learnedAt l t = Some w \<or> known_value M C (unat (Quorum gm)) t w" if "learnedAt l' t = Some w" for t w
      using that d Some p view wf by (auto simp: l' learnedAt_def lsm.view_put split: if_splits)
  qed
qed

lemma adv_counts:
  assumes inv: "counts_inv gm M C l" and run: "adv l = (d, l')"
  shows "counts_inv gm M C l'"
proof -
  let ?n = "ml_next l"
  from inv have wf: "wf_learner l" "\<not> ml_lr l" by (simp_all add: counts_inv_def)
  obtain slot sm where get: "GetLearnerSlot ?n (ml_slots l) = (slot, sm)" by (cases "GetLearnerSlot ?n (ml_slots l)")
  then have view: "slot = lsm.view (ml_slots l) ?n" "lsm.view sm = lsm.view (ml_slots l)"
    by (simp_all add: GetLearnerSlot_view)
  have "same_tally (lsm.view (ml_slots l') s) (lsm.view (ml_slots l) s)" for s
    using run get view by (auto simp: adv_def lsm.view_put same_tally_def split: if_splits)
  moreover have "learnedAt l' = learnedAt l"
    using adv_log [OF wf run] by (auto simp: advance_spec_def logOf_def split: option.splits if_splits)
  ultimately show ?thesis
    using adv_log [OF wf run] wf by (intro counts_inv_same [OF inv]) auto
qed

lemma deliverLoop_counts: "counts_inv gm M C l \<Longrightarrow> counts_inv gm M C (deliverLoop l)"
proof (induction l rule: deliverLoop.induct)
  case (1 l)
  obtain d l' where adv: "advanceOne l = (d, l')" by (cases "advanceOne l")
  have "adv l = (d, l')" using adv "1.prems" by (simp add: advanceOne_def counts_inv_def)
  then have l': "counts_inv gm M C l'" using "1.prems" adv_counts by blast
  show ?case
  proof (cases d)
    case None
    then show ?thesis using adv l' by (simp add: deliverLoop.simps [of l])
  next
    case (Some p)
    obtain v i where p: "p = (v, i)" by (cases p)
    let ?l = "l'\<lparr>dcdChan := dcdChan l' @ [v], ml_next := i + 1\<rparr>"
    have "counts_inv gm M C ?l"
      using l' by (rule counts_inv_same) (use l' in \<open>auto simp: counts_inv_def learnedAt_def wf_learner_def\<close>)
    moreover have "deliverLoop l = deliverLoop ?l"
      using adv Some p by (subst deliverLoop.simps) simp
    ultimately show ?thesis using "1.IH" [OF adv [symmetric] Some p [symmetric]] by simp
  qed
qed

lemma takeResponses_counts:
  assumes "counts_inv gm M C l" and "\<forall>t\<in>set ts. known_value M C (unat (Quorum gm)) (resp_Slot t) (resp_Val t)"
  shows "counts_inv gm M C (l\<lparr>ml_slots := fold takeResponse ts (ml_slots l)\<rparr>)"
  using assms
proof (induction ts arbitrary: l)
  case (Cons t ts)
  let ?l = "l\<lparr>ml_slots := takeResponse t (ml_slots l)\<rparr>"
  from Cons.prems(1) have wf: "wf_learner l" "\<not> ml_lr l" by (simp_all add: counts_inv_def)
  note log = takeResponse_log [OF wf, of t]
  have "counts_inv gm M C ?l"
  proof (rule counts_inv_same [OF Cons.prems(1)])
    show "wf_learner ?l" "\<not> ml_lr ?l" using log wf by simp_all
    show "same_tally (lsm.view (ml_slots ?l) s) (lsm.view (ml_slots l) s)" for s
      by (simp add: takeResponse_view Let_def same_tally_def)
    show "learnedAt l s = Some v \<or> known_value M C (unat (Quorum gm)) s v" if "learnedAt ?l s = Some v" for s v
    proof -
      have "learnedAt ?l = log_learned (respond_one t (logOf l))"
        using log by (metis Log.select_convs(1) logOf_def)
      then show ?thesis
        using that Cons.prems(2)
        by (auto simp: respond_one_def learned_update_def logOf_def split: if_splits)
    qed
  qed
  from Cons.IH [OF this] Cons.prems(2) show ?case by simp
qed simp

text \<open>The learns and catch-up values an event brings are accounted for.\<close>

fun accounted :: "GrpMgr \<Rightarrow> Learn set \<Rightarrow> (SlotID \<times> Value) set \<Rightarrow> learner_event \<Rightarrow> bool" where
  "accounted gm M C (LLearn m) = (m \<in> M)"
| "accounted gm M C (LCatchUpResponse c) =
     (\<forall>t\<in>set (cresp_Vals c). known_value M C (unat (Quorum gm)) (resp_Slot t) (resp_Val t))"
| "accounted gm M C _ = True"

lemma counts_inv_views:
  assumes "counts_inv gm M C l" and "wf_learner l'" and "ml_lr l' = ml_lr l" and "logOf l' = logOf l"
    and "lsm.view (ml_slots l') = lsm.view (ml_slots l)"
  shows "counts_inv gm M C l'"
proof (rule counts_inv_same [OF assms(1,2)])
  show "\<not> ml_lr l'" using assms by (simp add: counts_inv_def)
  have "learnedAt l' = learnedAt l" using assms(4) by (simp add: logOf_def)
  then show "learnedAt l' s = Some v \<Longrightarrow> learnedAt l s = Some v \<or> known_value M C (unat (Quorum gm)) s v" for s v
    by simp
qed (simp add: assms(5))

lemma counts_inv_send: "counts_inv gm M C l \<Longrightarrow> counts_inv gm M C (lrn_send x y l)"
  by (simp add: counts_inv_def lrn_send_def learnedAt_def)

lemma learner_step_counts:
  assumes inv: "counts_inv gm M C l" and step: "learner_step gm e l = Inr l'" and acc: "accounted gm M C e"
    and nodes: "unat (NrOfNodes gm) < 2 ^ 64 - 1"
  shows "counts_inv gm M C l'"
proof -
  from inv have wf: "wf_learner l" "\<not> ml_lr l" by (simp_all add: counts_inv_def)
  show ?thesis
  proof (cases e)
    case (LLearn m)
    obtain d l1 adv su cs l2 where handle: "handleLrn gm m l = Inr (d, l1)"
        and learn: "learnValue d l1 = Inr ((adv, su, cs), l2)"
        and l': "l' = (if adv then deliverLoop l2
          else if su \<and> \<not> (catchUpInProgress l2 \<or> ml_id l2 = ml_leader l2)
          then (let ((creq, dest), l3) = genCatchUpReq cs (l2\<lparr>catchUpInProgress := True\<rparr>)
            in lrn_send (Pointer (MCatchUpRequest creq)) dest l3) else l2)"
      using step LLearn wf(2)
      by (auto simp: handleLearn_def bind_result_Inr_iff Let_def split: if_splits prod.splits)
    have l1: "counts_inv gm M C l1" "\<forall>v s. d = Some (v, s) \<longrightarrow> known_value M C (unat (Quorum gm)) s v"
      using handleLrn_counts [OF inv handle _ nodes] acc LLearn backed_known by auto
    then have "learnVal d l1 = Inr ((adv, su, cs), l2)"
      using learn by (simp add: learnValue_def counts_inv_def)
    then have l2: "counts_inv gm M C l2" by (rule learnVal_counts [OF l1(1) _ l1(2)])
    obtain creq dest l3 where gen: "genCatchUpReq cs (l2\<lparr>catchUpInProgress := True\<rparr>) = ((creq, dest), l3)"
      by (metis prod.exhaust)
    have "wf_learner (l2\<lparr>catchUpInProgress := True\<rparr>)" using l2 by (simp add: counts_inv_def)
    note frame = genCatchUpReq_frame [OF this gen]
    have "counts_inv gm M C l3"
      by (rule counts_inv_views [OF l2]) (use frame in auto)
    then have "counts_inv gm M C (lrn_send x y l3)" for x y by (rule counts_inv_send)
    then show ?thesis
      using l' l2 gen deliverLoop_counts [OF l2] by simp
  next
    case (LCatchUpRequest c)
    obtain r d l1 where run: "handleCatchUpReq c l = ((r, d), l1)" by (metis prod.exhaust)
    have "counts_inv gm M C l1"
      by (rule counts_inv_views [OF inv]) (use handleCatchUpReq_eq [OF wf(1) run] in auto)
    then have "counts_inv gm M C (lrn_send x y l1)" for x y by (rule counts_inv_send)
    then show ?thesis using step LCatchUpRequest run by auto
  next
    case (LCatchUpResponse c)
    have "counts_inv gm M C (handleCatchUpResp c l)"
      using takeResponses_counts [OF inv, of "cresp_Vals c"] acc inv wf(2) LCatchUpResponse
      by (simp add: handleCatchUpResp_def handleCUResp_def)
    then have "counts_inv gm M C ((handleCatchUpResp c l)\<lparr>catchUpInProgress := False\<rparr>)"
      by (simp add: counts_inv_def learnedAt_def)
    then show ?thesis using step LCatchUpResponse deliverLoop_counts by auto
  qed (use step in \<open>intro counts_inv_views [OF inv]; auto simp: lrn_handleGrpHold_def counts_inv_def wf\<close>)+
qed

lemma learner_run_counts:
  assumes "counts_inv gm M C l" and "learner_run (map (Pair gm) es) l = Inr l'"
    and "\<forall>e\<in>set es. accounted gm M C e" and "unat (NrOfNodes gm) < 2 ^ 64 - 1"
  shows "counts_inv gm M C l'"
  using assms
proof (induction es arbitrary: l)
  case (Cons e es)
  from Cons.prems(2) obtain l1 where "learner_step gm e l = Inr l1" "learner_run (map (Pair gm) es) l1 = Inr l'"
    by (auto simp: bind_result_Inr_iff)
  with Cons learner_step_counts [OF Cons.prems(1)] show ?case by auto
qed simp

lemma NewMultiLearner_counts: "\<not> lrEnabled gm \<Longrightarrow> counts_inv gm M C (NewMultiLearner i r ld first gm)"
  by (auto simp: counts_inv_def counted_def voters_def wf_learner_def learnedAt_def NewMultiLearner_def
      NewLearnerSlotMap_def NewLearnerLrSlotMap_def lsm.view_def lrsm.view_def blankLearnerSlot_def
      blankLearnerLrSlot_def)


lemma handleLrn_total:
  assumes inv: "counts_inv gm M C l" and "ZeroRound < lrn_Rnd m"
    and "0 \<le> PxInt (lrn_ID m)" and "PxInt (lrn_ID m) < int (unat (NrOfNodes gm))"
  shows "\<exists>d l'. handleLrn gm m l = Inr (d, l')"
proof -
  let ?s = "lrn_Slot m"
  obtain slot sm where get: "GetLearnerSlot ?s (ml_slots l) = (slot, sm)" by (cases "GetLearnerSlot ?s (ml_slots l)")
  then have "slot = lsm.view (ml_slots l) ?s" by (simp add: GetLearnerSlot_view)
  then have cnt: "counted gm M ?s slot" using inv by (simp add: counts_inv_def)
  define slot1 where "slot1 = (if Compare (ls_Rnd slot) (lrn_Rnd m) = - 1
    then slot\<lparr>ls_Rnd := lrn_Rnd m, Learns := replicate (unat (NrOfNodes gm)) None, Votes := 0\<rparr>
    else slot)"
  have "length (Learns slot) = unat (NrOfNodes gm) \<or> ls_Rnd slot = ZeroRound"
    using cnt unfolding counted_def by blast
  then have "length (Learns slot1) = unat (NrOfNodes gm)" if "\<not> lrn_Rnd m < ls_Rnd slot"
    using that assms(2) by (cases "ls_Rnd slot < lrn_Rnd m") (auto simp: slot1_def)
  moreover obtain n where n: "PxInt (lrn_ID m) = int n" using assms(3) by (rule nonneg_int_cases)
  then have "n < unat (NrOfNodes gm)" using assms(4) by (simp only: of_nat_less_iff)
  ultimately have "n < length (Learns slot1)" if "\<not> lrn_Rnd m < ls_Rnd slot" using that by simp
  then have "\<exists>d slot2. countLearn gm m slot1 = Inr (d, slot2)" if "\<not> lrn_Rnd m < ls_Rnd slot"
    using that unfolding countLearn_def n Let_def by (auto simp: update_index_def)
  then obtain d slot2 where "\<not> lrn_Rnd m < ls_Rnd slot \<Longrightarrow> countLearn gm m slot1 = Inr (d, slot2)"
    by blast
  then show ?thesis
    unfolding handleLrn_def Let_def get prod.case slot1_def [symmetric]
    by (cases "Learned slot"; cases "lrn_Rnd m < ls_Rnd slot") simp_all
qed

text \<open>
  Without Live Replacement, every learn that a cluster member sends for the learner's first
  slot or a later one is handled: the step returns a new state.
\<close>

theorem learner_handles_learns:
  assumes "learner_run (map (Pair gm) es) (NewMultiLearner i r ld first gm) = Inr l"
    and "\<not> lrEnabled gm" and "\<forall>e\<in>set es. accounted gm M C e \<and> below_last_slot e"
    and "unat (NrOfNodes gm) < 2 ^ 64 - 1"
    and "first \<le> lrn_Slot m" and "ZeroRound < lrn_Rnd m"
    and "0 \<le> PxInt (lrn_ID m)" and "PxInt (lrn_ID m) < int (unat (NrOfNodes gm))"
  shows "\<exists>l'. learner_step gm (LLearn m) l = Inr l'"
proof -
  have "\<forall>e\<in>set es. accounted gm M C e" using assms(3) by blast
  note inv = learner_run_counts [OF NewMultiLearner_counts [OF assms(2)] assms(1) this assms(4)]
  obtain d l1 where "handleLrn gm m l = Inr (d, l1)"
    using handleLrn_total [OF inv assms(6-8)] by blast
  then have handle: "handleLearn gm m l = Inr (d, l1)"
    using inv by (simp add: handleLearn_def counts_inv_def)
  have "learner_inv first l"
    by (rule learner_run_inv [OF NewMultiLearner_inv assms(1)]) (use assms(3) in auto)
  then have log: "wf_learner l" "delivery_inv first (logOf l)" by (simp_all add: learner_inv_def)
  have "learnValue d l1 \<noteq> Inl e" for e
    using mlearner.learn_event_panics [OF log handle] assms(5) by auto
  then obtain w where "learnValue d l1 = Inr w" by (cases "learnValue d l1") auto
  moreover obtain a b c l2 where "w = ((a, b, c), l2)" by (metis prod.exhaust)
  ultimately show ?thesis
    using handle by (auto simp: Let_def split: prod.splits)
qed

section \<open>A concrete run\<close>

text \<open>
  A cluster of one node. Its learner hears of slot 2 first, then of slot 1, and delivers both in
  order.
\<close>

definition learnOf :: "SlotID \<Rightarrow> Value \<Rightarrow> Learn" where
  "learnOf s v = \<lparr>lrn_ID = ID 0 0, lrn_Slot = s, lrn_Rnd = Round 2 (ID 0 0), lrn_Val = v,
     lrn_EpochVector = []\<rparr>"

definition someLearnEvents :: "learner_event list" where
  "someLearnEvents = [LLearn (learnOf 2 appValue), LLearn (learnOf 1 zeroValue)]"

definition someLearner :: MultiLearner where
  "someLearner = NewMultiLearner (ID 0 0) True (ID 0 0) 1 oneGrpMgr"

lemma some_learner_run:
  "case learner_run (map (Pair oneGrpMgr) someLearnEvents) someLearner of
     Inl e \<Rightarrow> False
   | Inr l \<Rightarrow> dcdChan l = [zeroValue, appValue] \<and> ml_next l = 3 \<and> learnedAt l 2 = Some appValue"
  unfolding learnedAt_def Let_def lsm.view_def lrsm.view_def by code_simp

lemma some_learner_run_Inr:
  obtains l where "learner_run (map (Pair oneGrpMgr) someLearnEvents) someLearner = Inr l"
    and "dcdChan l = [zeroValue, appValue]" and "ml_next l = 3" and "learnedAt l 2 = Some appValue"
  using some_learner_run by (cases "learner_run (map (Pair oneGrpMgr) someLearnEvents) someLearner") auto

lemma some_learn_events:
  "\<forall>(gm, e)\<in>set (map (Pair oneGrpMgr) someLearnEvents). below_last_slot e"
  "\<forall>e\<in>set someLearnEvents. accounted oneGrpMgr {learnOf 2 appValue, learnOf 1 zeroValue} {} e \<and> below_last_slot e"
  "\<not> lrEnabled oneGrpMgr" "unat (NrOfNodes oneGrpMgr) = 1" "unat (Quorum oneGrpMgr) = 1"
  by (simp_all add: someLearnEvents_def learnOf_def oneGrpMgr_def NewGrpMgr_def NrOfNodes_def Quorum_def)

theorem learner_delivers_in_order_witness:
  "\<exists>l. learner_run (map (Pair oneGrpMgr) someLearnEvents) someLearner = Inr l \<and>
    dcdChan l = [zeroValue, appValue] \<and> the (learnedAt l 1) = zeroValue \<and> learnedAt l 3 = None"
proof -
  obtain l where run: "learner_run (map (Pair oneGrpMgr) someLearnEvents) someLearner = Inr l"
      and out: "dcdChan l = [zeroValue, appValue]" "ml_next l = 3"
    by (rule some_learner_run_Inr)
  have "dcdChan l = map (\<lambda>s. the (learnedAt l s)) (slotRange 1 3)" "learnedAt l 3 = None"
    using learner_delivers_in_order [OF run [unfolded someLearner_def] some_learn_events(1)] out by auto
  moreover have "slotRange 1 3 = [1, 2]" by (simp add: slotRange_def upt_conv_Cons)
  ultimately show ?thesis using run out by auto
qed


theorem learner_no_panic_witness:
  "\<exists>l e. learner_run (map (Pair oneGrpMgr) someLearnEvents) someLearner = Inr l \<and>
    learner_step oneGrpMgr (LLearn (learnOf 5 appValue\<lparr>lrn_ID := ID 3 0\<rparr>)) l = Inl e \<and>
    handleLearn oneGrpMgr (learnOf 5 appValue\<lparr>lrn_ID := ID 3 0\<rparr>) l = Inl e"
proof -
  let ?m = "learnOf 5 appValue\<lparr>lrn_ID := ID 3 0\<rparr>"
  have "case learner_run (map (Pair oneGrpMgr) someLearnEvents) someLearner of
      Inl e \<Rightarrow> False
    | Inr l \<Rightarrow> (case learner_step oneGrpMgr (LLearn ?m) l of Inl e \<Rightarrow> e = IndexOutOfRange | Inr l \<Rightarrow> False)"
    by code_simp
  then obtain l where run: "learner_run (map (Pair oneGrpMgr) someLearnEvents) someLearner = Inr l"
      and step: "learner_step oneGrpMgr (LLearn ?m) l = Inl IndexOutOfRange"
    by (cases "learner_run (map (Pair oneGrpMgr) someLearnEvents) someLearner")
      (auto split: sum.splits simp del: learner_step.simps)
  have "handleLearn oneGrpMgr ?m l = Inl IndexOutOfRange"
    by (rule learner_no_panic [OF run [unfolded someLearner_def] some_learn_events(1) _ step])
      (simp add: learnOf_def)
  with run step show ?thesis by blast
qed

theorem learner_handles_learns_witness:
  "\<exists>l l'. learner_run (map (Pair oneGrpMgr) someLearnEvents) someLearner = Inr l \<and>
    learner_step oneGrpMgr (LLearn (learnOf 5 appValue)) l = Inr l'"
proof -
  obtain l where run: "learner_run (map (Pair oneGrpMgr) someLearnEvents) someLearner = Inr l"
    by (rule some_learner_run_Inr)
  have "\<exists>l'. learner_step oneGrpMgr (LLearn (learnOf 5 appValue)) l = Inr l'"
    by (rule learner_handles_learns [OF run [unfolded someLearner_def] some_learn_events(3,2)])
      (simp_all add: some_learn_events learnOf_def ZeroRound_def round_less_iff PxInt_def)
  with run show ?thesis by blast
qed

text \<open>
  The answer to a catch-up request goes to the sender and holds exactly the decided slots of
  the requested ranges with their values; answering changes nothing the learner delivers.
\<close>

theorem handleCatchUpReq_correct:
  assumes "wf_learner l" and "handleCatchUpReq c l = ((r, d), l')"
  shows "d = creq_ID c \<and> logOf l' = logOf l \<and>
    (t \<in> set (cresp_Vals r) \<longleftrightarrow>
      (\<exists>rng\<in>set (creq_Ranges c). From rng \<le> resp_Slot t \<and> resp_Slot t < To rng + 1) \<and>
      decidedAt l (resp_Slot t) \<and> resp_Val t = storedVal l (resp_Slot t))"
  using handleCatchUpReq_eq [OF assms] by (simp only: responses_iff simp_thms)

theorem handleCatchUpReq_correct_witness:
  "\<exists>l r d l'. handleCatchUpReq \<lparr>creq_ID = ID 1 0, creq_Ranges = [\<lparr>From = 1, To = 5\<rparr>]\<rparr> l = ((r, d), l') \<and>
    d = ID 1 0 \<and> \<lparr>resp_Slot = 2, resp_Val = appValue\<rparr> \<in> set (cresp_Vals r)"
proof -
  let ?c = "\<lparr>creq_ID = ID 1 0, creq_Ranges = [\<lparr>From = 1, To = 5\<rparr>]\<rparr>"
  obtain l where run: "learner_run (map (Pair oneGrpMgr) someLearnEvents) someLearner = Inr l"
      and out: "ml_next l = 3" "learnedAt l 2 = Some appValue"
    by (rule some_learner_run_Inr)
  have inv: "learner_inv 1 l"
    by (rule learner_run_inv [OF NewMultiLearner_inv run [unfolded someLearner_def] some_learn_events(1)])
  have "decidedAt l 2" "storedVal l 2 = appValue"
    using inv out unfolding learner_inv_def delivery_inv_def
    by (auto simp: logOf_def learnedAt_def storedVal_def Let_def split: if_splits)
  moreover obtain r d l' where ans: "handleCatchUpReq ?c l = ((r, d), l')" by (metis prod.exhaust)
  ultimately have "\<lparr>resp_Slot = 2, resp_Val = appValue\<rparr> \<in> set (cresp_Vals r) \<and> d = ID 1 0"
    using handleCatchUpReq_correct [OF _ ans, of "\<lparr>resp_Slot = 2, resp_Val = appValue\<rparr>"] inv
    by (simp add: learner_inv_def)
  with ans show ?thesis by blast
qed

end
