(* ===== verification/Proposer.thy ===== *)
theory Proposer
  imports ValidQuorum
begin

text \<open>
  The MultiPaxos proposer (\<open>src/multipaxos/proposer.go\<close>): Phase 1 with and without Live
  Replacement, the pipelined Phase 2 limited by \<open>alpha\<close>, the resending of accepts, the group hold
  and the event loop of \<open>Start\<close> as a step function. The broadcast channel is the list of what was
  written to it, oldest first; a timer is whether it is armed.
\<close>

section \<open>State\<close>

record MultiProposer =
  mp_id :: gid
  mp_startable :: bool
  mp_started :: bool
  mp_leader :: gid
  alpha :: "64 word"
  crnd :: ProposerRound
  nextSlot :: SlotID
  mp_adu :: SlotID
  mp_slots :: ProposerSlotMap
  reqQueue :: "Value list"
  handlesLr :: bool
  phaseOneVQCheck :: bool
  phaseOnePromises :: "Promise option list"
  phaseOneRecvFrom :: "gid \<rightharpoonup> bool"
  phaseOneCount :: "64 word"
  phaseOneDone :: bool
  phaseOneTimer :: bool
  phaseTwoTimer :: bool
  mp_bcast :: "dynamic list"

definition resendsBeforeRestartingPhaseOne :: "8 word" where
  "resendsBeforeRestartingPhaseOne = 10"

definition NewMultiProposer ::
  "gid \<Rightarrow> bool \<Rightarrow> gid \<Rightarrow> 64 word \<Rightarrow> SlotID \<Rightarrow> GrpMgr \<Rightarrow> MultiProposer" where
  "NewMultiProposer i runProp paxosLeader alph firstSlot gm =
     \<lparr>mp_id = i, mp_startable = runProp, mp_started = False, mp_leader = paxosLeader,
      alpha = alph, crnd = NewProposerRound i, nextSlot = firstSlot, mp_adu = firstSlot - 1,
      mp_slots = NewProposerSlotMap, reqQueue = [], handlesLr = lrEnabled gm,
      phaseOneVQCheck = False, phaseOnePromises = [], phaseOneRecvFrom = Map.empty,
      phaseOneCount = 0, phaseOneDone = False, phaseOneTimer = False, phaseTwoTimer = False,
      mp_bcast = []\<rparr>"

text \<open>\<open>started\<close> is tested here and never set, so a second call arms the timers again.\<close>

definition prop_Start :: "MultiProposer \<Rightarrow> MultiProposer" where
  "prop_Start p =
     (if \<not> mp_startable p \<or> mp_started p then p
      else p\<lparr>phaseOneTimer := True, phaseTwoTimer := True\<rparr>)"

definition prop_broadcast :: "dynamic \<Rightarrow> MultiProposer \<Rightarrow> MultiProposer" where
  "prop_broadcast msg p = p\<lparr>mp_bcast := mp_bcast p @ [msg]\<rparr>"

definition isLeaderAndPhaseOneComplete :: "MultiProposer \<Rightarrow> bool" where
  "isLeaderAndPhaseOneComplete p \<longleftrightarrow> mp_leader p = mp_id p \<and> phaseOneDone p"

section \<open>Phase 1: starting a round\<close>

definition resetPhaseOneData :: "GrpMgr \<Rightarrow> MultiProposer \<Rightarrow> MultiProposer" where
  "resetPhaseOneData gm p =
     (let p = p\<lparr>phaseOneDone := False, phaseOneCount := 0\<rparr>
      in if lrEnabled gm
         then p\<lparr>phaseOneVQCheck := False, phaseOnePromises := [], phaseOneRecvFrom := Map.empty\<rparr>
         else p\<lparr>phaseOnePromises := replicate (unat (NrOfNodes gm)) None\<rparr>)"

definition resetSentCount :: "SlotID \<Rightarrow> MultiProposer \<Rightarrow> MultiProposer" where
  "resetSentCount i p =
     (let (slot, sm) = GetProposerSlot i (mp_slots p)
      in p\<lparr>mp_slots := PutProposerSlot i (slot\<lparr>SentCount := 0\<rparr>) sm\<rparr>)"

definition resetSentCountersInAlphaWindow :: "MultiProposer \<Rightarrow> MultiProposer" where
  "resetSentCountersInAlphaWindow p = for_lt (mp_adu p + 1) (nextSlot p) resetSentCount p"

definition updateStatePrePhaseOne :: "GrpMgr \<Rightarrow> bool \<Rightarrow> MultiProposer \<Rightarrow> MultiProposer" where
  "updateStatePrePhaseOne gm clearRequestQueue p =
     (let p = resetSentCountersInAlphaWindow (resetPhaseOneData gm p);
          p = p\<lparr>crnd := NextRound (crnd p)\<rparr>
      in if clearRequestQueue then p\<lparr>reqQueue := []\<rparr> else p)"

definition startPhaseOne :: "GrpMgr \<Rightarrow> bool \<Rightarrow> MultiProposer \<Rightarrow> MultiProposer" where
  "startPhaseOne gm clearRequestQueue p =
     (let p = updateStatePrePhaseOne gm clearRequestQueue p;
          p = prop_broadcast (Struct (MPrepare
                \<lparr>prep_ID = mp_id p, prep_CRnd = crnd p, prep_Slot = mp_adu p\<rparr>)) p
      in p\<lparr>phaseOneTimer := True\<rparr>)"

section \<open>Phase 1: promises\<close>

definition handleProm :: "GrpMgr \<Rightarrow> Promise \<Rightarrow> MultiProposer \<Rightarrow> (bool \<times> MultiProposer) result" where
  "handleProm gm msg p =
     (if phaseOneDone p then Ok (False, p)
      else if Compare (crnd p) (prom_Rnd msg) \<noteq> 0 then Ok (False, p)
      else
        bind_result (index (phaseOnePromises p) (PxInt (prom_ID msg))) (\<lambda>known.
          if known \<noteq> None then Ok (False, p)
          else
            bind_result (update_index (phaseOnePromises p) (PxInt (prom_ID msg)) (Some msg))
              (\<lambda>promises.
                let p = p\<lparr>phaseOnePromises := promises, phaseOneCount := phaseOneCount p + 1\<rparr>
                in if phaseOneCount p < Quorum gm then Ok (False, p) else Ok (True, p))))"

text \<open>The promises a Live Replacement proposer stores are all set.\<close>

definition storedPromises :: "MultiProposer \<Rightarrow> Promise list" where
  "storedPromises p = map the (phaseOnePromises p)"

text \<open>\<open>phaseOneRecvFrom\<close> is read here, and written nowhere in the code.\<close>

definition handlePromLr :: "GrpMgr \<Rightarrow> Promise \<Rightarrow> MultiProposer \<Rightarrow> (bool \<times> MultiProposer) result" where
  "handlePromLr gm msg p =
     (if phaseOneDone p then Ok (False, p)
      else if Compare (crnd p) (prom_Rnd msg) \<noteq> 0 then Ok (False, p)
      else if phaseOneRecvFrom p (prom_ID msg) = Some True then Ok (False, p)
      else
        let p = p\<lparr>phaseOnePromises := phaseOnePromises p @ [Some msg],
                  phaseOneCount := phaseOneCount p + 1\<rparr>;
            p = (if \<not> phaseOneVQCheck p \<and> \<not> EpochSlicesEqual (prom_EpochVector msg) (Epochs gm)
                 then p\<lparr>phaseOneVQCheck := True\<rparr> else p)
        in if phaseOneCount p < Quorum gm then Ok (False, p)
           else if \<not> phaseOneVQCheck p then Ok (True, p)
           else
             bind_result (extractVqPromises (storedPromises p) (Quorum gm)) (\<lambda>(vq, vqmsgsidx).
               if \<not> vq then Ok (False, p)
               else if length vqmsgsidx = length (phaseOnePromises p) then Ok (True, p)
               else Ok (True, p\<lparr>phaseOnePromises :=
                      map (\<lambda>j. phaseOnePromises p ! nat j) vqmsgsidx\<rparr>)))"

definition handlePromise :: "GrpMgr \<Rightarrow> Promise \<Rightarrow> MultiProposer \<Rightarrow> (bool \<times> MultiProposer) result" where
  "handlePromise gm msg p =
     (if handlesLr p then handlePromLr gm msg p else handleProm gm msg p)"

text \<open>
  The proposal taken over from an accepted slot: a struct literal that sets the round and the
  value, and leaves the identifier and the slot number zero.
\<close>

definition adopted :: "AcceptorSlot \<Rightarrow> Accept" where
  "adopted accSlot = \<lparr>acc_ID = NewIDFromInt 0 0, acc_Slot = 0, acc_Rnd = VRnd accSlot,
     acc_Val = VVal accSlot\<rparr>"

definition setStateFromAccSlot :: "AcceptorSlot \<Rightarrow> MultiProposer \<Rightarrow> MultiProposer" where
  "setStateFromAccSlot accSlot p =
     (if as_ID accSlot \<le> mp_adu p then p
      else
        let (slot, sm) = GetProposerSlot (as_ID accSlot) (mp_slots p)
        in case Proposal slot of
             None \<Rightarrow> p\<lparr>mp_slots :=
               PutProposerSlot (as_ID accSlot) (slot\<lparr>Proposal := Some (adopted accSlot)\<rparr>) sm\<rparr>
           | Some acc \<Rightarrow>
               if Compare (acc_Rnd acc) (VRnd accSlot) \<ge> 0 then p\<lparr>mp_slots := sm\<rparr>
               else p\<lparr>mp_slots :=
                 PutProposerSlot (as_ID accSlot) (slot\<lparr>Proposal := Some (adopted accSlot)\<rparr>) sm\<rparr>)"

definition setStateFromPromise :: "Promise \<Rightarrow> MultiProposer \<Rightarrow> MultiProposer" where
  "setStateFromPromise promise p = fold setStateFromAccSlot (prom_AccSlots promise) p"

definition setStateFromPromises :: "MultiProposer \<Rightarrow> MultiProposer" where
  "setStateFromPromises p =
     fold (\<lambda>promise p. case promise of None \<Rightarrow> p | Some m \<Rightarrow> setStateFromPromise m p)
       (phaseOnePromises p) p"

section \<open>Phase 2: sending accepts\<close>

definition inAlphaRange :: "SlotID \<Rightarrow> SlotID \<Rightarrow> 64 word \<Rightarrow> bool" where
  "inAlphaRange ns adu alph \<longleftrightarrow> ns \<le> adu + alph"

text \<open>\<open>genAccept\<close> assigns to the slot it was given: the slot is returned beside the accept.\<close>

definition genAccept ::
  "ProposerSlot \<Rightarrow> MultiProposer \<Rightarrow> Accept option \<times> ProposerSlot \<times> MultiProposer" where
  "genAccept slot p =
     (let mk = (\<lambda>val. \<lparr>acc_ID = mp_id p, acc_Slot = ps_ID slot, acc_Rnd = crnd p, acc_Val = val\<rparr>)
      in case Proposal slot of
           Some acc \<Rightarrow> (Some (mk (acc_Val acc)), slot\<lparr>Proposal := Some (mk (acc_Val acc))\<rparr>, p)
         | None \<Rightarrow>
             (case reqQueue p of
                [] \<Rightarrow> (None, slot, p)
              | val # rest \<Rightarrow>
                  (Some (mk val), slot\<lparr>Proposal := Some (mk val)\<rparr>, p\<lparr>reqQueue := rest\<rparr>)))"

partial_function (option) sendAcceptLoop :: "MultiProposer \<Rightarrow> MultiProposer option" where
  "sendAcceptLoop p =
     (if \<not> inAlphaRange (nextSlot p) (mp_adu p) (alpha p) then Some p
      else
        let (slot, sm) = GetProposerSlot (nextSlot p) (mp_slots p);
            (acc, slot, p) = genAccept slot (p\<lparr>mp_slots := sm\<rparr>)
        in case acc of
             None \<Rightarrow> Some p
           | Some a \<Rightarrow>
               let p = p\<lparr>mp_slots := PutProposerSlot (nextSlot p) slot (mp_slots p)\<rparr>;
                   p = prop_broadcast (Struct (MAccept a)) p
               in sendAcceptLoop (p\<lparr>nextSlot := nextSlot p + 1, phaseTwoTimer := True\<rparr>))"

definition sendAccept :: "MultiProposer \<Rightarrow> MultiProposer result" where
  "sendAccept p = (case sendAcceptLoop p of None \<Rightarrow> Fault Diverges | Some p \<Rightarrow> Ok p)"

definition advanceAdu :: "MultiProposer \<Rightarrow> MultiProposer" where
  "advanceAdu p = p\<lparr>mp_adu := mp_adu p + 1\<rparr>"

section \<open>Resending accepts\<close>

definition incrementSentCountFor :: "SlotID \<Rightarrow> MultiProposer \<Rightarrow> MultiProposer" where
  "incrementSentCountFor i p =
     (let (s, sm) = GetProposerSlot i (mp_slots p)
      in p\<lparr>mp_slots := PutProposerSlot i (s\<lparr>SentCount := SentCount s + 1\<rparr>) sm\<rparr>)"

definition hasReachedResendThreshold :: "SlotID \<Rightarrow> MultiProposer \<Rightarrow> bool \<times> MultiProposer" where
  "hasReachedResendThreshold i p =
     (let (s, sm) = GetProposerSlot i (mp_slots p)
      in (resendsBeforeRestartingPhaseOne \<le> SentCount s, p\<lparr>mp_slots := sm\<rparr>))"

text \<open>The accept is broadcast as the pointer it was stored as.\<close>

definition resendAccept :: "GrpMgr \<Rightarrow> Accept option \<Rightarrow> MultiProposer \<Rightarrow> MultiProposer" where
  "resendAccept gm acc p =
     (case acc of
        None \<Rightarrow> p
      | Some a \<Rightarrow>
          let (reached, p) = hasReachedResendThreshold (acc_Slot a) p
          in if reached then startPhaseOne gm False p
             else (incrementSentCountFor (acc_Slot a)
                    (prop_broadcast (Pointer (MAccept a)) p))\<lparr>phaseTwoTimer := True\<rparr>)"

text \<open>The guard of the loop reads \<open>nextSlot\<close> again in each iteration; no iteration changes it.\<close>

definition resendSlot :: "GrpMgr \<Rightarrow> SlotID \<Rightarrow> MultiProposer \<Rightarrow> MultiProposer" where
  "resendSlot gm i p =
     (let (slot, sm) = GetProposerSlot i (mp_slots p)
      in resendAccept gm (Proposal slot) (p\<lparr>mp_slots := sm\<rparr>))"

definition resendAcceptsIfNecessary :: "GrpMgr \<Rightarrow> MultiProposer \<Rightarrow> MultiProposer" where
  "resendAcceptsIfNecessary gm p =
     (if \<not> isLeaderAndPhaseOneComplete p then p
      else for_lt (mp_adu p + 1) (nextSlot p) (resendSlot gm) p)"

section \<open>The event loop\<close>

definition SetNextSlot :: "SlotID \<Rightarrow> MultiProposer \<Rightarrow> MultiProposer" where
  "SetNextSlot ns p =
     (let ns = (if nextSlot p > ns + alpha p then nextSlot p - alpha p else ns)
      in p\<lparr>nextSlot := ns\<rparr>)"

text \<open>The group manager is read after it has released the hold.\<close>

definition handleGrpHold :: "GrpMgr \<Rightarrow> MultiProposer \<Rightarrow> MultiProposer" where
  "handleGrpHold gm p =
     (let p = (if mp_leader p = mp_id p then p\<lparr>mp_id := gm_id gm, mp_leader := gm_id gm\<rparr>
               else p\<lparr>mp_id := gm_id gm\<rparr>)
      in p\<lparr>crnd := SetOwner (mp_id p) (crnd p)\<rparr>)"

datatype proposer_event =
    PNewDcd
  | PPropose Value
  | PTrust gid
  | PPromise Promise
  | PPhaseOneTimeout
  | PPhaseTwoTimeout
  | PGrpHold
  | PStop

fun proposer_step :: "GrpMgr \<Rightarrow> proposer_event \<Rightarrow> MultiProposer \<Rightarrow> MultiProposer result" where
  "proposer_step gm PNewDcd p =
     (let p = advanceAdu (p\<lparr>phaseTwoTimer := True\<rparr>)
      in if \<not> isLeaderAndPhaseOneComplete p then Ok p else sendAccept p)"
| "proposer_step gm (PPropose val) p =
     (if mp_leader p \<noteq> mp_id p then Ok p
      else let p = p\<lparr>reqQueue := reqQueue p @ [val]\<rparr>
           in if phaseOneDone p then sendAccept p else Ok p)"
| "proposer_step gm (PTrust trustID) p =
     (if mp_leader p = trustID then Ok p
      else let p = p\<lparr>mp_leader := trustID\<rparr>
           in if mp_leader p \<noteq> mp_id p then Ok p else Ok (startPhaseOne gm True p))"
| "proposer_step gm (PPromise promise) p =
     bind_result (handlePromise gm promise p) (\<lambda>(quorum, p).
       if \<not> quorum then Ok p
       else let p = setStateFromPromises p;
                p = p\<lparr>phaseOneDone := True\<rparr>;
                p = p\<lparr>nextSlot := mp_adu p + 1\<rparr>
            in sendAccept p)"
| "proposer_step gm PPhaseOneTimeout p =
     (let p = p\<lparr>phaseOneTimer := False\<rparr>
      in if mp_leader p \<noteq> mp_id p \<or> phaseOneDone p then Ok p else Ok (startPhaseOne gm True p))"
| "proposer_step gm PPhaseTwoTimeout p =
     Ok (resendAcceptsIfNecessary gm (p\<lparr>phaseTwoTimer := False\<rparr>))"
| "proposer_step gm PGrpHold p = Ok (handleGrpHold gm p)"
| "proposer_step gm PStop p = Ok (p\<lparr>mp_started := False\<rparr>)"

end
