(* ===== verification/ProposerRuns.thy ===== *)
theory ProposerRuns
  imports Proposer
begin

text \<open>
  What the operations of the MultiPaxos proposer do, one lemma per operation: starting a round,
  counting promises, taking over accepted values, filling the window of accepts, and resending.
\<close>

section \<open>Views and frames\<close>

definition proposalAt :: "MultiProposer \<Rightarrow> SlotID \<Rightarrow> Accept option" where
  "proposalAt p s = Proposal (psm.view (mp_slots p) s)"

definition wf_proposer :: "MultiProposer \<Rightarrow> bool" where
  "wf_proposer p \<longleftrightarrow> (\<forall>s. ps_ID (psm.view (mp_slots p) s) = s)"

text \<open>Two slot maps with the same proposals.\<close>

definition same_props :: "ProposerSlotMap \<Rightarrow> ProposerSlotMap \<Rightarrow> bool" where
  "same_props sm sm' \<longleftrightarrow> (\<forall>s. ps_ID (psm.view sm' s) = ps_ID (psm.view sm s) \<and>
     Proposal (psm.view sm' s) = Proposal (psm.view sm s))"

lemma same_props_refl [simp]: "same_props sm sm"
  by (simp add: same_props_def)

lemma same_props_trans: "same_props a b \<Longrightarrow> same_props b c \<Longrightarrow> same_props a c"
  by (simp add: same_props_def)

lemma same_props_proposer:
  assumes "same_props (mp_slots p) (mp_slots p')"
  shows "proposalAt p' = proposalAt p" and "wf_proposer p' = wf_proposer p"
  using assms by (simp_all add: same_props_def proposalAt_def wf_proposer_def fun_eq_iff)

lemma GetProposerSlot_view:
  "GetProposerSlot i sm = (slot, sm') \<Longrightarrow> slot = psm.view sm i \<and> psm.view sm' = psm.view sm"
  using psm.get_eqD by blast

lemma same_props_put:
  assumes "GetProposerSlot i sm = (slot, sm')" and "ps_ID slot' = ps_ID slot" and "Proposal slot' = Proposal slot"
  shows "same_props sm (PutProposerSlot i slot' sm')"
  using GetProposerSlot_view [OF assms(1)] assms(2,3) by (simp add: same_props_def psm.view_put)

lemma same_props_get: "GetProposerSlot i sm = (slot, sm') \<Longrightarrow> same_props sm sm'"
  by (drule GetProposerSlot_view) (simp add: same_props_def)

text \<open>A change of the slot map alone that keeps the proposals.\<close>

definition only_counters :: "MultiProposer \<Rightarrow> MultiProposer \<Rightarrow> bool" where
  "only_counters p p' \<longleftrightarrow> (\<exists>sm. p' = p\<lparr>mp_slots := sm\<rparr> \<and> same_props (mp_slots p) sm)"

lemma only_counters_refl [simp]: "only_counters p p"
  unfolding only_counters_def by (intro exI [of _ "mp_slots p"]) simp

lemma only_counters_trans: "only_counters p q \<Longrightarrow> only_counters q r \<Longrightarrow> only_counters p r"
proof -
  assume "only_counters p q" "only_counters q r"
  then obtain sm sm' where "q = p\<lparr>mp_slots := sm\<rparr>" "same_props (mp_slots p) sm"
      "r = q\<lparr>mp_slots := sm'\<rparr>" "same_props (mp_slots q) sm'"
    unfolding only_counters_def by blast
  then show ?thesis
    unfolding only_counters_def by (intro exI [of _ sm']) (auto intro: same_props_trans)
qed

lemma resetSentCount_counters: "only_counters p (resetSentCount i p)"
proof -
  obtain slot sm where get: "GetProposerSlot i (mp_slots p) = (slot, sm)"
    by (cases "GetProposerSlot i (mp_slots p)")
  then show ?thesis
    using same_props_put [OF get, of "slot\<lparr>SentCount := 0\<rparr>"]
    by (auto simp: only_counters_def resetSentCount_def)
qed

lemma incrementSentCountFor_counters: "only_counters p (incrementSentCountFor i p)"
proof -
  obtain slot sm where get: "GetProposerSlot i (mp_slots p) = (slot, sm)"
    by (cases "GetProposerSlot i (mp_slots p)")
  then show ?thesis
    using same_props_put [OF get, of "slot\<lparr>SentCount := SentCount slot + 1\<rparr>"]
    by (auto simp: only_counters_def incrementSentCountFor_def)
qed

lemma hasReachedResendThreshold_counters:
  "hasReachedResendThreshold i p = (b, p') \<Longrightarrow> only_counters p p'"
  using same_props_get [of i "mp_slots p"]
  by (auto simp: only_counters_def hasReachedResendThreshold_def split: prod.splits)

lemma resetSentCountersInAlphaWindow_counters: "only_counters p (resetSentCountersInAlphaWindow p)"
  unfolding resetSentCountersInAlphaWindow_def
  by (rule for_lt_invariant_const)
    (auto intro: only_counters_trans resetSentCount_counters)

section \<open>Starting a round\<close>

lemma startPhaseOne_eq:
  "\<exists>sm q. startPhaseOne gm clear p = p\<lparr>phaseOneDone := False, phaseOneCount := 0,
      phaseOneVQCheck := (if lrEnabled gm then False else phaseOneVQCheck p),
      phaseOnePromises := (if lrEnabled gm then [] else replicate (unat (NrOfNodes gm)) None),
      phaseOneRecvFrom := (if lrEnabled gm then Map.empty else phaseOneRecvFrom p),
      mp_slots := sm, crnd := NextRound (crnd p), reqQueue := q,
      mp_bcast := mp_bcast p @ [Struct (MPrepare
        \<lparr>prep_ID = mp_id p, prep_CRnd = NextRound (crnd p), prep_Slot = mp_adu p\<rparr>)],
      phaseOneTimer := True\<rparr> \<and>
    same_props (mp_slots p) sm \<and> q = (if clear then [] else reqQueue p)"
proof -
  obtain sm where reset: "resetSentCountersInAlphaWindow (resetPhaseOneData gm p) =
      (resetPhaseOneData gm p)\<lparr>mp_slots := sm\<rparr>" "same_props (mp_slots (resetPhaseOneData gm p)) sm"
    using resetSentCountersInAlphaWindow_counters [of "resetPhaseOneData gm p"]
    by (auto simp: only_counters_def)
  have same: "same_props (mp_slots p) sm"
    using reset(2) by (simp add: resetPhaseOneData_def Let_def split: if_splits)
  show ?thesis
    by (rule exI [of _ sm], rule exI [of _ "if clear then [] else reqQueue p"],
        unfold startPhaseOne_def updateStatePrePhaseOne_def reset(1) Let_def)
      (simp add: same resetPhaseOneData_def prop_broadcast_def)
qed

text \<open>
  Starting a round moves to a strictly higher one (short of overflow), forgets all earlier
  promises, arms the timer, keeps the proposals, and broadcasts exactly one prepare, which asks
  for the slots from \<open>adu\<close> on.
\<close>

theorem startPhaseOne_correct:
  assumes "Rnd (crnd p) < - 1" and "\<not> lrEnabled gm"
  shows "crnd p < crnd (startPhaseOne gm clear p) \<and> RndID (crnd (startPhaseOne gm clear p)) = RndID (crnd p) \<and>
    \<not> phaseOneDone (startPhaseOne gm clear p) \<and> phaseOneCount (startPhaseOne gm clear p) = 0 \<and>
    (\<forall>m\<in>set (phaseOnePromises (startPhaseOne gm clear p)). m = None) \<and>
    phaseOneTimer (startPhaseOne gm clear p) \<and> proposalAt (startPhaseOne gm clear p) = proposalAt p \<and>
    mp_bcast (startPhaseOne gm clear p) = mp_bcast p @ [Struct (MPrepare
      \<lparr>prep_ID = mp_id p, prep_CRnd = crnd (startPhaseOne gm clear p), prep_Slot = mp_adu p\<rparr>)]"
proof -
  obtain sm q where eq: "startPhaseOne gm clear p = p\<lparr>phaseOneDone := False, phaseOneCount := 0,
      phaseOneVQCheck := phaseOneVQCheck p,
      phaseOnePromises := replicate (unat (NrOfNodes gm)) None,
      phaseOneRecvFrom := phaseOneRecvFrom p,
      mp_slots := sm, crnd := NextRound (crnd p), reqQueue := q,
      mp_bcast := mp_bcast p @ [Struct (MPrepare
        \<lparr>prep_ID = mp_id p, prep_CRnd = NextRound (crnd p), prep_Slot = mp_adu p\<rparr>)],
      phaseOneTimer := True\<rparr>" "same_props (mp_slots p) sm"
    using startPhaseOne_eq [of gm clear p] assms(2) by auto
  have "proposalAt (startPhaseOne gm clear p) = proposalAt p"
    by (rule same_props_proposer) (simp add: eq)
  then show ?thesis
    using NextRound_greater [OF assms(1)] by (simp add: eq(1) NextRound_def)
qed

section \<open>Counting promises\<close>

text \<open>The promises that are stored, one per Paxos id, for the current round.\<close>

definition promisers :: "MultiProposer \<Rightarrow> nat set" where
  "promisers p = {i. i < length (phaseOnePromises p) \<and> phaseOnePromises p ! i \<noteq> None}"

definition promises_stored :: "Promise set \<Rightarrow> MultiProposer \<Rightarrow> bool" where
  "promises_stored P p \<longleftrightarrow> unat (phaseOneCount p) = card (promisers p) \<and>
     length (phaseOnePromises p) < 2 ^ 64 - 1 \<and>
     (\<forall>i m. i < length (phaseOnePromises p) \<and> phaseOnePromises p ! i = Some m \<longrightarrow>
        m \<in> P \<and> prom_Rnd m = crnd p \<and> PxInt (prom_ID m) = int i)"

lemma promises_stored_mono: "promises_stored P p \<Longrightarrow> P \<subseteq> P' \<Longrightarrow> promises_stored P' p"
  unfolding promises_stored_def by blast

lemma promises_stored_reset:
  assumes "unat (phaseOneCount p) = 0" and "\<forall>m\<in>set (phaseOnePromises p). m = None"
    and "length (phaseOnePromises p) < 2 ^ 64 - 1"
  shows "promises_stored P p"
proof -
  have none: "phaseOnePromises p ! i = None" if "i < length (phaseOnePromises p)" for i
    using assms(2) that by (simp add: all_set_conv_all_nth)
  then have "promisers p = {}" by (auto simp: promisers_def)
  moreover have "phaseOnePromises p ! i \<noteq> Some m" if "i < length (phaseOnePromises p)" for i m
    using none [OF that] by simp
  ultimately show ?thesis
    using assms(1,3) unfolding promises_stored_def by auto
qed

lemma handleProm_stored:
  assumes inv: "promises_stored P p" and run: "handleProm gm m p = Inr (q, p')" and m: "m \<in> P"
  shows "promises_stored P p' \<and>
    (\<exists>ps c. p' = p\<lparr>phaseOnePromises := ps, phaseOneCount := c\<rparr>) \<and>
    (q \<longrightarrow> \<not> phaseOneDone p) \<and>
    (q \<longleftrightarrow> p' \<noteq> p \<and> unat (Quorum gm) \<le> card (promisers p'))"
proof (cases "phaseOneDone p \<or> crnd p \<noteq> prom_Rnd m")
  case True
  then have "q = False \<and> p' = p" using run by (auto simp: handleProm_def split: if_splits)
  moreover have "\<exists>ps c. p = p\<lparr>phaseOnePromises := ps, phaseOneCount := c\<rparr>"
    by (intro exI [of _ "phaseOnePromises p"] exI [of _ "phaseOneCount p"]) simp
  ultimately show ?thesis using inv by blast
next
  case False
  let ?i = "nat (PxInt (prom_ID m))"
  from run False obtain known where i: "0 \<le> PxInt (prom_ID m)" "?i < length (phaseOnePromises p)"
      "known = phaseOnePromises p ! ?i"
      and cases: "known \<noteq> None \<and> \<not> q \<and> p' = p \<or> known = None \<and>
        p' = p\<lparr>phaseOnePromises := (phaseOnePromises p)[?i := Some m], phaseOneCount := phaseOneCount p + 1\<rparr> \<and>
        (q \<longleftrightarrow> Quorum gm \<le> phaseOneCount p + 1)"
    by (auto simp: handleProm_def Let_def bind_result_Inr_iff index_Inr_iff update_index_Inr_iff
        split: if_splits)
  have frame: "\<exists>ps c. p' = p\<lparr>phaseOnePromises := ps, phaseOneCount := c\<rparr>"
    using cases by (metis MultiProposer.surjective MultiProposer.update_convs(13,15))
  from cases show ?thesis
  proof
    assume new: "known = None \<and>
        p' = p\<lparr>phaseOnePromises := (phaseOnePromises p)[?i := Some m], phaseOneCount := phaseOneCount p + 1\<rparr> \<and>
        (q \<longleftrightarrow> Quorum gm \<le> phaseOneCount p + 1)"
    have "promisers p' = insert ?i (promisers p)"
      using new i by (auto simp: promisers_def nth_list_update)
    moreover have "?i \<notin> promisers p" using new i by (simp add: promisers_def)
    moreover have fin: "promisers p \<subseteq> {..<length (phaseOnePromises p)}" by (auto simp: promisers_def)
    then have "finite (promisers p)" by (rule finite_subset) simp
    ultimately have card: "card (promisers p') = Suc (card (promisers p))" by simp
    have "card (promisers p) \<le> length (phaseOnePromises p)" using card_mono [OF _ fin] by simp
    then have "unat (phaseOneCount p) < 2 ^ 64 - 1"
      using inv unfolding promises_stored_def by linarith
    then have "phaseOneCount p < - 1"
      by (simp add: word_less_nat_alt unsigned_minus_1_eq_mask mask_eq_exp_minus_1)
    then have count: "unat (phaseOneCount p + 1) = card (promisers p')"
      using unat_Suc_word [of "phaseOneCount p" "- 1"] inv card by (simp add: promises_stored_def)
    then have "promises_stored P p'"
      using inv new m i False by (auto simp: promises_stored_def nth_list_update)
    moreover have "q \<longleftrightarrow> unat (Quorum gm) \<le> card (promisers p')"
      unfolding count [symmetric] using new by (simp only: word_le_nat_alt)
    moreover have "phaseOneCount p' \<noteq> phaseOneCount p" using new by simp
    then have "p' \<noteq> p" by metis
    ultimately show ?thesis using frame False by blast
  qed (use inv frame in auto)
qed

text \<open>
  Without Live Replacement, a promise completes Phase 1 exactly when it makes the number of
  different Paxos ids that promised the current round reach the quorum.
\<close>

theorem handleProm_quorum:
  assumes "promises_stored P p" and "handleProm gm m p = Inr (q, p')" and "m \<in> P"
  shows "q \<longleftrightarrow> p' \<noteq> p \<and> unat (Quorum gm) \<le> card (promisers p')"
  using handleProm_stored [OF assms] by blast

section \<open>Taking over accepted values\<close>

text \<open>
  What the proposer knows of a slot after it has read some accepted slots: the highest round
  among what it knew and what it read.
\<close>

definition reads :: "SlotID \<Rightarrow> AcceptorSlot set \<Rightarrow> (SlotID \<Rightarrow> Accept option) \<Rightarrow>
  (SlotID \<Rightarrow> Accept option) \<Rightarrow> bool" where
  "reads adu es old new \<longleftrightarrow> (\<forall>s.
     (new s = old s \<or> (\<exists>e\<in>es. adu < s \<and> as_ID e = s \<and> new s = Some (adopted e))) \<and>
     (\<forall>a. old s = Some a \<longrightarrow> (\<exists>b. new s = Some b \<and> acc_Rnd a \<le> acc_Rnd b)) \<and>
     (\<forall>e\<in>es. adu < s \<and> as_ID e = s \<longrightarrow> (\<exists>b. new s = Some b \<and> VRnd e \<le> acc_Rnd b)))"

lemma reads_refl: "reads adu {} old old"
  by (auto simp: reads_def)

lemma reads_trans:
  assumes "reads adu A old mid" and "reads adu B mid new"
  shows "reads adu (A \<union> B) old new"
  unfolding reads_def
proof (intro allI conjI impI ballI)
  fix s
  show "new s = old s \<or> (\<exists>e\<in>A \<union> B. adu < s \<and> as_ID e = s \<and> new s = Some (adopted e))"
    using assms unfolding reads_def by (metis UnI1 UnI2)
  fix a assume "old s = Some a"
  then obtain b where "mid s = Some b" "acc_Rnd a \<le> acc_Rnd b"
    using assms(1) unfolding reads_def by blast
  then show "\<exists>b. new s = Some b \<and> acc_Rnd a \<le> acc_Rnd b"
    using assms(2) unfolding reads_def by (blast intro: order_trans)
next
  fix s e assume e: "e \<in> A \<union> B" "adu < s \<and> as_ID e = s"
  show "\<exists>b. new s = Some b \<and> VRnd e \<le> acc_Rnd b"
  proof (cases "e \<in> B")
    case True
    then show ?thesis using assms(2) e unfolding reads_def by blast
  next
    case False
    then obtain b where "mid s = Some b" "VRnd e \<le> acc_Rnd b"
      using assms(1) e unfolding reads_def by blast
    then show ?thesis using assms(2) unfolding reads_def by (blast intro: order_trans)
  qed
qed

definition adopts :: "AcceptorSlot set \<Rightarrow> MultiProposer \<Rightarrow> MultiProposer \<Rightarrow> bool" where
  "adopts es p p' \<longleftrightarrow> (\<exists>sm. p' = p\<lparr>mp_slots := sm\<rparr>) \<and> (wf_proposer p \<longrightarrow> wf_proposer p') \<and>
     reads (mp_adu p) es (proposalAt p) (proposalAt p')"

lemma adopts_refl: "adopts {} p p"
  unfolding adopts_def by (intro conjI exI [of _ "mp_slots p"]) (auto simp: reads_refl)

lemma adopts_trans:
  assumes "adopts A p q" and "adopts B q r"
  shows "adopts (A \<union> B) p r"
proof -
  from assms obtain sm sm' where "q = p\<lparr>mp_slots := sm\<rparr>" "r = q\<lparr>mp_slots := sm'\<rparr>"
    unfolding adopts_def by blast
  then have "r = p\<lparr>mp_slots := sm'\<rparr>" "mp_adu q = mp_adu p" by simp_all
  then show ?thesis
    using assms unfolding adopts_def by (metis reads_trans)
qed

lemma setStateFromAccSlot_adopts: "adopts {e} p (setStateFromAccSlot e p)"
proof (cases "as_ID e \<le> mp_adu p")
  case True
  then have "setStateFromAccSlot e p = p" by (simp add: setStateFromAccSlot_def)
  then show ?thesis
    using True unfolding adopts_def
    by (intro conjI exI [of _ "mp_slots p"]) (auto simp: reads_def)
next
  case False
  let ?s = "as_ID e"
  obtain slot sm where get: "GetProposerSlot ?s (mp_slots p) = (slot, sm)"
    by (cases "GetProposerSlot ?s (mp_slots p)")
  then have view: "slot = psm.view (mp_slots p) ?s" "psm.view sm = psm.view (mp_slots p)"
    by (simp_all add: GetProposerSlot_view)
  let ?set = "p\<lparr>mp_slots := PutProposerSlot ?s (slot\<lparr>Proposal := Some (adopted e)\<rparr>) sm\<rparr>"
  have set: "proposalAt ?set = (proposalAt p)(?s := Some (adopted e))"
      "wf_proposer p \<longrightarrow> wf_proposer ?set"
    using view by (auto simp: proposalAt_def psm.view_put fun_eq_iff wf_proposer_def)
  have get': "proposalAt (p\<lparr>mp_slots := sm\<rparr>) = proposalAt p" "wf_proposer (p\<lparr>mp_slots := sm\<rparr>) = wf_proposer p"
    using view by (simp_all add: proposalAt_def wf_proposer_def fun_eq_iff)
  have now: "proposalAt p ?s = Proposal slot" using view by (simp add: proposalAt_def)
  have step: "setStateFromAccSlot e p = (case Proposal slot of None \<Rightarrow> ?set
      | Some acc \<Rightarrow> if VRnd e \<le> acc_Rnd acc then p\<lparr>mp_slots := sm\<rparr> else ?set)"
    using False get by (simp add: setStateFromAccSlot_def split: option.splits)
  show ?thesis
  proof (cases "Proposal slot")
    case None
    then show ?thesis
      using step set now False by (auto simp: adopts_def reads_def adopted_def)
  next
    case (Some acc)
    then show ?thesis
      using step set get' now False
      by (cases "VRnd e \<le> acc_Rnd acc") (auto simp: adopts_def reads_def adopted_def)
  qed
qed

lemma setStateFromPromise_adopts: "adopts (set (prom_AccSlots m)) p (setStateFromPromise m p)"
proof -
  have "adopts (set es) p (fold setStateFromAccSlot es p)" for es
  proof (induction es arbitrary: p)
    case (Cons e es)
    have "set (e # es) = {e} \<union> set es" by simp
    then show ?case
      using adopts_trans [OF setStateFromAccSlot_adopts Cons.IH] by (metis fold_simps(2))
  qed (simp add: adopts_refl)
  then show ?thesis by (simp add: setStateFromPromise_def)
qed

definition reported :: "MultiProposer \<Rightarrow> AcceptorSlot set" where
  "reported p = {e. \<exists>m. Some m \<in> set (phaseOnePromises p) \<and> e \<in> set (prom_AccSlots m)}"

lemma setStateFromPromises_adopts: "adopts (reported p) p (setStateFromPromises p)"
proof -
  have "adopts {e. \<exists>m. Some m \<in> set ms \<and> e \<in> set (prom_AccSlots m)} p
    (fold (\<lambda>promise p. case promise of None \<Rightarrow> p | Some m \<Rightarrow> setStateFromPromise m p) ms p)" for ms
  proof (induction ms arbitrary: p)
    case (Cons x ms)
    show ?case
    proof (cases x)
      case None
      then show ?thesis using Cons.IH by simp
    next
      case (Some m)
      have "{e. \<exists>m'. Some m' \<in> set (x # ms) \<and> e \<in> set (prom_AccSlots m')} =
          set (prom_AccSlots m) \<union> {e. \<exists>m'. Some m' \<in> set ms \<and> e \<in> set (prom_AccSlots m')}"
        using Some by auto
      then show ?thesis
        using adopts_trans [OF setStateFromPromise_adopts Cons.IH] Some by simp
    qed
  qed (simp add: adopts_refl)
  then show ?thesis by (simp add: setStateFromPromises_def reported_def)
qed

text \<open>
  C20. When Phase 1 completes, the proposer takes over, for every slot above \<open>adu\<close>, a value with
  the highest round among what the promises report and what it had proposed itself; the other
  slots, and everything but the proposals, stay as they are.
\<close>

theorem setStateFromPromises_correct:
  "reads (mp_adu p) (reported p) (proposalAt p) (proposalAt (setStateFromPromises p)) \<and>
   (\<exists>sm. setStateFromPromises p = p\<lparr>mp_slots := sm\<rparr>)"
  using setStateFromPromises_adopts unfolding adopts_def by blast

end
