(* ===== verification/ProposerSends.thy ===== *)
theory ProposerSends
  imports ProposerRuns
begin

text \<open>
  Phase 2 of the MultiPaxos proposer: which accepts \<open>sendAccept\<close> broadcasts and when it stops, and
  what a resend can put on the channel.
\<close>

section \<open>Filling the window\<close>

text \<open>One iteration of the loop of \<open>sendAccept\<close>, and whether the loop goes on.\<close>

definition sendOne :: "MultiProposer \<Rightarrow> bool \<times> MultiProposer" where
  "sendOne p =
     (if \<not> inAlphaRange (nextSlot p) (mp_adu p) (alpha p) then (False, p)
      else
        let (slot, sm) = GetProposerSlot (nextSlot p) (mp_slots p);
            (acc, slot, p) = genAccept slot (p\<lparr>mp_slots := sm\<rparr>)
        in case acc of
             None \<Rightarrow> (False, p)
           | Some a \<Rightarrow>
               let p = p\<lparr>mp_slots := PutProposerSlot (nextSlot p) slot (mp_slots p)\<rparr>;
                   p = prop_broadcast (Struct (MAccept a)) p
               in (True, p\<lparr>nextSlot := nextSlot p + 1, phaseTwoTimer := True\<rparr>))"

lemma sendAcceptLoop_step:
  "sendAcceptLoop p = (let (again, p') = sendOne p in if again then sendAcceptLoop p' else Some p')"
  by (subst sendAcceptLoop.simps) (simp add: sendOne_def Let_def split: prod.splits option.splits)

text \<open>The value an accept for the next slot carries: the proposal's if there is one.\<close>

definition nextValue :: "MultiProposer \<Rightarrow> Value" where
  "nextValue p = (case proposalAt p (nextSlot p) of Some a \<Rightarrow> acc_Val a | None \<Rightarrow> hd (reqQueue p))"

definition acceptFor :: "MultiProposer \<Rightarrow> SlotID \<Rightarrow> Value \<Rightarrow> Accept" where
  "acceptFor p s v = \<lparr>acc_ID = mp_id p, acc_Slot = s, acc_Rnd = crnd p, acc_Val = v\<rparr>"

definition nothing_to_send :: "MultiProposer \<Rightarrow> bool" where
  "nothing_to_send p \<longleftrightarrow> mp_adu p + alpha p < nextSlot p \<or>
     proposalAt p (nextSlot p) = None \<and> reqQueue p = []"

lemma sendOne_cases:
  assumes wf: "wf_proposer p"
  shows "if nothing_to_send p
    then \<exists>sm. sendOne p = (False, p\<lparr>mp_slots := sm\<rparr>) \<and> same_props (mp_slots p) sm
    else nextSlot p \<le> mp_adu p + alpha p \<and>
      (\<exists>sm. sendOne p = (True, p\<lparr>mp_slots := sm,
          reqQueue := (if proposalAt p (nextSlot p) = None then tl (reqQueue p) else reqQueue p),
          mp_bcast := mp_bcast p @ [Struct (MAccept (acceptFor p (nextSlot p) (nextValue p)))],
          nextSlot := nextSlot p + 1, phaseTwoTimer := True\<rparr>) \<and>
        (\<forall>s. ps_ID (psm.view sm s) = s \<and> Proposal (psm.view sm s) =
          (if s = nextSlot p then Some (acceptFor p s (nextValue p)) else proposalAt p s)))"
proof -
  let ?n = "nextSlot p"
  obtain slot sm where get: "GetProposerSlot ?n (mp_slots p) = (slot, sm)"
    by (cases "GetProposerSlot ?n (mp_slots p)")
  then have view: "slot = psm.view (mp_slots p) ?n" "psm.view sm = psm.view (mp_slots p)"
    by (simp_all add: GetProposerSlot_view)
  have slot: "Proposal slot = proposalAt p ?n" "ps_ID slot = ?n"
    using view wf by (simp_all add: proposalAt_def wf_proposer_def)
  have ids: "ps_ID (psm.view (mp_slots p) s) = s" for s using wf by (simp add: wf_proposer_def)
  show ?thesis
  proof (cases "nothing_to_send p")
    case True
    have "\<exists>sm. sendOne p = (False, p\<lparr>mp_slots := sm\<rparr>) \<and> same_props (mp_slots p) sm"
    proof (cases "mp_adu p + alpha p < ?n")
      case True
      then show ?thesis
        by (intro exI [of _ "mp_slots p"]) (simp add: sendOne_def inAlphaRange_def not_le)
    next
      case False
      then have "proposalAt p ?n = None" "reqQueue p = []" using True by (auto simp: nothing_to_send_def)
      then show ?thesis
        using False get slot same_props_get [OF get]
        by (intro exI [of _ sm]) (simp add: sendOne_def inAlphaRange_def genAccept_def not_less)
    qed
    with True show ?thesis by simp
  next
    case False
    then have range: "?n \<le> mp_adu p + alpha p" and src: "proposalAt p ?n \<noteq> None \<or> reqQueue p \<noteq> []"
      by (auto simp: nothing_to_send_def not_less)
    let ?a = "acceptFor p ?n (nextValue p)"
    let ?sm = "PutProposerSlot ?n (slot\<lparr>Proposal := Some ?a\<rparr>) sm"
    have gen: "genAccept slot (p\<lparr>mp_slots := sm\<rparr>) = (Some ?a, slot\<lparr>Proposal := Some ?a\<rparr>,
        p\<lparr>mp_slots := sm, reqQueue := (if proposalAt p ?n = None then tl (reqQueue p) else reqQueue p)\<rparr>)"
    proof (cases "proposalAt p ?n")
      case None
      then obtain v q where "reqQueue p = v # q" using src by (cases "reqQueue p") auto
      with None slot show ?thesis by (simp add: genAccept_def acceptFor_def nextValue_def)
    next
      case (Some a)
      with slot show ?thesis by (simp add: genAccept_def acceptFor_def nextValue_def)
    qed
    have "sendOne p = (True, p\<lparr>mp_slots := ?sm,
          reqQueue := (if proposalAt p ?n = None then tl (reqQueue p) else reqQueue p),
          mp_bcast := mp_bcast p @ [Struct (MAccept ?a)],
          nextSlot := ?n + 1, phaseTwoTimer := True\<rparr>)"
      using range by (simp add: sendOne_def inAlphaRange_def get gen prop_broadcast_def)
    moreover have "ps_ID (psm.view ?sm s) = s \<and> Proposal (psm.view ?sm s) =
        (if s = ?n then Some (acceptFor p s (nextValue p)) else proposalAt p s)" for s
      using view ids by (simp add: psm.view_put proposalAt_def)
    ultimately show ?thesis using False range by (auto simp del: not_None_eq)
  qed
qed

text \<open>The loop ends because the window is bounded.\<close>

lemma sendAcceptLoop_rule:
  assumes "mp_adu p + alpha p \<noteq> - 1" and "I p"
    and "\<And>p. I p \<Longrightarrow> wf_proposer p"
    and "\<And>p p'. I p \<Longrightarrow> \<not> nothing_to_send p \<Longrightarrow> sendOne p = (True, p') \<Longrightarrow> I p'"
  shows "\<exists>q sm. sendAcceptLoop p = Some (q\<lparr>mp_slots := sm\<rparr>) \<and> I q \<and> nothing_to_send q \<and>
    same_props (mp_slots q) sm \<and> mp_adu q = mp_adu p \<and> alpha q = alpha p"
  using assms(1,2)
proof (induction "unat (mp_adu p + alpha p + 1) - unat (nextSlot p)" arbitrary: p rule: less_induct)
  case less
  note wf = assms(3) [OF less.prems(2)]
  show ?case
  proof (cases "nothing_to_send p")
    case True
    then obtain sm where "sendOne p = (False, p\<lparr>mp_slots := sm\<rparr>)" "same_props (mp_slots p) sm"
      using sendOne_cases [OF wf] by auto
    then show ?thesis
      using less.prems True by (intro exI [of _ p] exI [of _ sm]) (simp add: sendAcceptLoop_step [of p])
  next
    case False
    let ?W = "mp_adu p + alpha p"
    obtain p' where one: "sendOne p = (True, p')" and next': "nextSlot p' = nextSlot p + 1"
        and keep: "mp_adu p' = mp_adu p" "alpha p' = alpha p" and range: "nextSlot p \<le> ?W"
      using sendOne_cases [OF wf] False by auto
    have "nextSlot p < ?W + 1"
      using range less.prems(1) by (simp add: word_less_Suc_iff)
    then have "unat (?W + 1) - unat (nextSlot p + 1) < unat (?W + 1) - unat (nextSlot p)"
      by (rule word_distance_decreases)
    then have "unat (mp_adu p' + alpha p' + 1) - unat (nextSlot p') <
        unat (mp_adu p + alpha p + 1) - unat (nextSlot p)"
      by (simp only: keep next')
    from less.hyps [OF this] have "\<exists>q sm. sendAcceptLoop p' = Some (q\<lparr>mp_slots := sm\<rparr>) \<and> I q \<and>
        nothing_to_send q \<and> same_props (mp_slots q) sm \<and> mp_adu q = mp_adu p' \<and> alpha q = alpha p'"
      using less.prems(1) assms(4) [OF less.prems(2) False one] unfolding keep by blast
    then show ?thesis by (simp add: sendAcceptLoop_step [of p] one keep)
  qed
qed

text \<open>The fields that sending accepts leaves alone.\<close>

definition core :: "MultiProposer \<Rightarrow> (gid \<times> gid \<times> ProposerRound \<times> SlotID \<times> 64 word \<times> bool) \<times>
    bool \<times> Promise option list \<times> 64 word" where
  "core p = ((mp_id p, mp_leader p, crnd p, mp_adu p, alpha p, phaseOneDone p), handlesLr p,
     phaseOnePromises p, phaseOneCount p)"

text \<open>
  What filling the window has done when it is at slot \<open>nextSlot p\<close>: exactly the slots passed have
  been proposed, in slot order, in the current round; slots that had a proposal keep its value,
  the others take the queued values in order.
\<close>

definition filled :: "MultiProposer \<Rightarrow> MultiProposer \<Rightarrow> bool" where
  "filled p0 p \<longleftrightarrow> wf_proposer p \<and> core p = core p0 \<and> nextSlot p0 \<le> nextSlot p \<and>
     (nextSlot p = nextSlot p0 \<or> nextSlot p \<le> mp_adu p0 + alpha p0 + 1) \<and>
     (\<forall>s. nextSlot p0 \<le> s \<and> s < nextSlot p \<longrightarrow>
        (\<exists>v. proposalAt p s = Some (acceptFor p0 s v) \<and>
          (\<forall>a. proposalAt p0 s = Some a \<longrightarrow> v = acc_Val a))) \<and>
     (\<forall>s. \<not> (nextSlot p0 \<le> s \<and> s < nextSlot p) \<longrightarrow> proposalAt p s = proposalAt p0 s) \<and>
     mp_bcast p = mp_bcast p0 @
       map (\<lambda>s. Struct (MAccept (the (proposalAt p s)))) (slotRange (nextSlot p0) (nextSlot p)) \<and>
     reqQueue p0 = map (\<lambda>s. acc_Val (the (proposalAt p s)))
       (filter (\<lambda>s. proposalAt p0 s = None) (slotRange (nextSlot p0) (nextSlot p))) @ reqQueue p"

lemma filled_refl: "wf_proposer p \<Longrightarrow> filled p p"
  by (auto simp: filled_def slotRange_empty)

lemma filled_step:
  assumes inv: "filled p0 p" and more: "\<not> nothing_to_send p" and one: "sendOne p = (True, p')"
    and bound: "mp_adu p0 + alpha p0 \<noteq> - 1"
  shows "filled p0 p'"
proof -
  let ?n = "nextSlot p" and ?lo = "nextSlot p0" and ?v = "nextValue p"
  define n' where "n' = ?n + 1"
  have wf: "wf_proposer p" and core: "core p = core p0" and n0: "?lo \<le> ?n"
    using inv by (simp_all add: filled_def)
  have same: "mp_adu p = mp_adu p0" "alpha p = alpha p0" "mp_id p = mp_id p0" "crnd p = crnd p0"
    using core by (simp_all add: core_def)
  obtain sm where range: "?n \<le> mp_adu p + alpha p"
      and p': "p' = p\<lparr>mp_slots := sm,
          reqQueue := (if proposalAt p ?n = None then tl (reqQueue p) else reqQueue p),
          mp_bcast := mp_bcast p @ [Struct (MAccept (acceptFor p ?n ?v))],
          nextSlot := n', phaseTwoTimer := True\<rparr>"
      and sm: "\<And>s. ps_ID (psm.view sm s) = s" "\<And>s. Proposal (psm.view sm s) =
          (if s = ?n then Some (acceptFor p s ?v) else proposalAt p s)"
    using sendOne_cases [OF wf] more one by (auto simp: n'_def)
  have sel: "mp_slots p' = sm" "nextSlot p' = n'" "core p' = core p"
      "mp_bcast p' = mp_bcast p @ [Struct (MAccept (acceptFor p ?n ?v))]"
      "reqQueue p' = (if proposalAt p ?n = None then tl (reqQueue p) else reqQueue p)"
    by (simp_all add: p' core_def)
  have lim: "?n < mp_adu p0 + alpha p0 + 1"
    using range bound by (simp add: same word_less_Suc_iff)
  have n': "s < n' \<longleftrightarrow> s < ?n \<or> s = ?n" for s
    using word_less_Suc_bounded [OF lim, of s] by (auto simp: n'_def le_less)
  have pr: "proposalAt p' s = (if s = ?n then Some (acceptFor p0 ?n ?v) else proposalAt p s)" for s
    unfolding proposalAt_def [of p'] sel sm by (simp add: acceptFor_def same)
  have old: "proposalAt p ?n = proposalAt p0 ?n" using inv by (simp add: filled_def)
  have rng: "slotRange ?lo n' = slotRange ?lo ?n @ [?n]"
    unfolding n'_def using n0 lim word_n1_ge [of "mp_adu p0 + alpha p0 + 1"]
    by (intro slotRange_snoc) auto
  have keep: "proposalAt p' s = proposalAt p s" if "s \<in> set (slotRange ?lo ?n)" for s
    using that pr [of s] by (auto simp: slotRange_iff)
  have maps: "map (\<lambda>s. Struct (MAccept (the (proposalAt p' s)))) (slotRange ?lo ?n) =
      map (\<lambda>s. Struct (MAccept (the (proposalAt p s)))) (slotRange ?lo ?n)"
    "map (\<lambda>s. acc_Val (the (proposalAt p' s))) (filter (\<lambda>s. proposalAt p0 s = None) (slotRange ?lo ?n)) =
      map (\<lambda>s. acc_Val (the (proposalAt p s))) (filter (\<lambda>s. proposalAt p0 s = None) (slotRange ?lo ?n))"
    using keep by (auto intro!: map_cong)
  show ?thesis
    unfolding filled_def
  proof (intro conjI allI impI)
    show "wf_proposer p'" by (simp add: wf_proposer_def sel sm)
    show "core p' = core p0" using core by (simp add: sel)
    show "?lo \<le> nextSlot p'" using n0 n' [of ?lo] by (simp add: sel le_less)
    show "nextSlot p' = ?lo \<or> nextSlot p' \<le> mp_adu p0 + alpha p0 + 1"
      using word_Suc_le_iff [OF lim, of "mp_adu p0 + alpha p0 + 1"] lim by (simp add: sel n'_def)
  next
    fix s assume s: "?lo \<le> s \<and> s < nextSlot p'"
    then consider "s < ?n" | "s = ?n" using n' [of s] by (auto simp: sel)
    then show "\<exists>v. proposalAt p' s = Some (acceptFor p0 s v) \<and>
        (\<forall>a. proposalAt p0 s = Some a \<longrightarrow> v = acc_Val a)"
    proof cases
      case 1
      with inv s obtain v where "proposalAt p s = Some (acceptFor p0 s v)"
          "\<forall>a. proposalAt p0 s = Some a \<longrightarrow> v = acc_Val a" unfolding filled_def by blast
      with 1 pr [of s] show ?thesis by auto
    next
      case 2
      with old pr [of s] show ?thesis by (auto simp: nextValue_def)
    qed
  next
    fix s assume "\<not> (?lo \<le> s \<and> s < nextSlot p')"
    then have "s \<noteq> ?n" "\<not> (?lo \<le> s \<and> s < ?n)" using n' [of s] n0 by (auto simp: sel)
    then show "proposalAt p' s = proposalAt p0 s" using pr [of s] inv by (simp add: filled_def)
  next
    show "mp_bcast p' = mp_bcast p0 @
        map (\<lambda>s. Struct (MAccept (the (proposalAt p' s)))) (slotRange ?lo (nextSlot p'))"
      using inv pr [of ?n] by (simp add: sel rng maps(1) filled_def acceptFor_def same)
  next
    have queue: "reqQueue p0 = map (\<lambda>s. acc_Val (the (proposalAt p s)))
        (filter (\<lambda>s. proposalAt p0 s = None) (slotRange ?lo ?n)) @ reqQueue p"
      using inv by (simp add: filled_def)
    have nxt: "nextSlot p' = n'" by (rule sel)
    show "reqQueue p0 = map (\<lambda>s. acc_Val (the (proposalAt p' s)))
        (filter (\<lambda>s. proposalAt p0 s = None) (slotRange ?lo (nextSlot p'))) @ reqQueue p'"
    proof (cases "proposalAt p0 ?n")
      case None
      then obtain v q where q: "reqQueue p = v # q"
        using more old range by (cases "reqQueue p") (auto simp: nothing_to_send_def)
      have "acc_Val (the (proposalAt p' ?n)) = v" "reqQueue p' = q"
        using None old q pr [of ?n] by (simp_all add: acceptFor_def nextValue_def sel)
      with None q show ?thesis unfolding nxt rng queue by (simp add: maps(2))
    next
      case (Some a)
      then have "reqQueue p' = reqQueue p" using old by (simp add: sel)
      with Some show ?thesis unfolding nxt rng queue by (simp add: maps(2))
    qed
  qed
qed

lemma sendAccept_filled:
  assumes "wf_proposer p" and "mp_adu p + alpha p \<noteq> - 1"
  shows "\<exists>q sm. sendAccept p = Inr (q\<lparr>mp_slots := sm\<rparr>) \<and> filled p q \<and> nothing_to_send q \<and>
    same_props (mp_slots q) sm"
proof -
  have "\<exists>q sm. sendAcceptLoop p = Some (q\<lparr>mp_slots := sm\<rparr>) \<and> filled p q \<and> nothing_to_send q \<and>
    same_props (mp_slots q) sm \<and> mp_adu q = mp_adu p \<and> alpha q = alpha p" (is "\<exists>q sm. ?P q sm")
  proof (rule sendAcceptLoop_rule [OF assms(2), where I = "filled p"])
    show "filled p p" by (rule filled_refl [OF assms(1)])
    show "wf_proposer q" if "filled p q" for q using that by (simp add: filled_def)
    show "filled p q'" if "filled p q" "\<not> nothing_to_send q" "sendOne q = (True, q')" for q q'
      by (rule filled_step [OF that assms(2)])
  qed
  then obtain q sm where "?P q sm" by blast
  then show ?thesis by (intro exI [of _ q] exI [of _ sm]) (simp add: sendAccept_def)
qed

lemma filled_slots:
  assumes "filled p q" and "same_props (mp_slots q) sm"
  shows "filled p (q\<lparr>mp_slots := sm\<rparr>)" and "nothing_to_send (q\<lparr>mp_slots := sm\<rparr>) = nothing_to_send q"
proof -
  have "proposalAt (q\<lparr>mp_slots := sm\<rparr>) = proposalAt q" "wf_proposer (q\<lparr>mp_slots := sm\<rparr>) = wf_proposer q"
    using same_props_proposer [of q "q\<lparr>mp_slots := sm\<rparr>"] assms(2) by simp_all
  then show "filled p (q\<lparr>mp_slots := sm\<rparr>)" "nothing_to_send (q\<lparr>mp_slots := sm\<rparr>) = nothing_to_send q"
    using assms(1) by (simp_all add: filled_def core_def nothing_to_send_def)
qed

text \<open>
  C19. \<open>sendAccept\<close> returns (unless the window reaches the greatest slot number), and fills the
  window: it broadcasts one accept per slot, in slot order from \<open>nextSlot\<close> on, for the current
  round; a slot that Phase 1 found a value for keeps it, the others take the clients' values first
  in, first out; it never passes \<open>adu + alpha\<close>, and stops only there or when it has no value left.
\<close>

theorem sendAccept_correct:
  assumes "wf_proposer p" and "mp_adu p + alpha p \<noteq> - 1"
  shows "\<exists>q. sendAccept p = Inr q \<and> filled p q \<and> nothing_to_send q"
  using sendAccept_filled [OF assms] filled_slots by blast

section \<open>Resending\<close>

text \<open>
  A resend broadcasts proposals it has, or starts a new round; the invariant of its loop is kept
  by both, and by changes of the counters.
\<close>

lemma resendSlot_cases:
  obtains (counters) "only_counters p (resendSlot gm i p)"
  | (restart) q where "only_counters p q" and "resendSlot gm i p = startPhaseOne gm False q"
  | (resend) q a where "proposalAt p i = Some a" and "only_counters p q"
      and "resendSlot gm i p = q\<lparr>mp_bcast := mp_bcast p @ [Pointer (MAccept a)], phaseTwoTimer := True\<rparr>"
proof -
  obtain slot sm where get: "GetProposerSlot i (mp_slots p) = (slot, sm)"
    by (cases "GetProposerSlot i (mp_slots p)")
  let ?p = "p\<lparr>mp_slots := sm\<rparr>"
  have one: "only_counters p ?p"
    using same_props_get [OF get] by (auto simp: only_counters_def)
  have slot: "Proposal slot = proposalAt p i"
    using GetProposerSlot_view [OF get] by (simp add: proposalAt_def)
  show ?thesis
  proof (cases "Proposal slot")
    case None
    then have "resendSlot gm i p = ?p" using get by (simp add: resendSlot_def resendAccept_def)
    then show ?thesis using one counters by simp
  next
    case (Some a)
    obtain b q where reached: "hasReachedResendThreshold (acc_Slot a) ?p = (b, q)"
      by (cases "hasReachedResendThreshold (acc_Slot a) ?p")
    then have q: "only_counters p q"
      using hasReachedResendThreshold_counters one only_counters_trans by blast
    show ?thesis
    proof (cases b)
      case True
      then have "resendSlot gm i p = startPhaseOne gm False q"
        using get Some reached by (simp add: resendSlot_def resendAccept_def)
      with q show ?thesis by (rule restart)
    next
      case False
      let ?b = "prop_broadcast (Pointer (MAccept a)) q"
      obtain sm' where inc: "incrementSentCountFor (acc_Slot a) ?b = ?b\<lparr>mp_slots := sm'\<rparr>"
          "same_props (mp_slots ?b) sm'"
        using incrementSentCountFor_counters [of ?b] by (auto simp: only_counters_def)
      have bc: "mp_bcast q = mp_bcast p" using q by (auto simp: only_counters_def)
      have "resendSlot gm i p = (q\<lparr>mp_slots := sm'\<rparr>)\<lparr>mp_bcast := mp_bcast p @ [Pointer (MAccept a)],
          phaseTwoTimer := True\<rparr>"
        using get Some reached False inc bc
        by (simp add: resendSlot_def resendAccept_def prop_broadcast_def)
      moreover have "only_counters q (q\<lparr>mp_slots := sm'\<rparr>)"
        using inc(2) by (auto simp: only_counters_def prop_broadcast_def)
      then have "only_counters p (q\<lparr>mp_slots := sm'\<rparr>)" using q only_counters_trans by blast
      ultimately show ?thesis using resend Some slot by simp
    qed
  qed
qed

section \<open>A concrete run\<close>

text \<open>
  The proposer of a cluster of one node: it starts a round, gets the promise of its own acceptor,
  which has already voted for slot 1, and a client's value.
\<close>

definition soloProposer :: MultiProposer where
  "soloProposer = NewMultiProposer (ID 0 0) True (ID 0 0) 3 1 oneGrpMgr"

definition soloPreparing :: MultiProposer where
  "soloPreparing = startPhaseOne oneGrpMgr True soloProposer"

definition soloPromise :: Promise where
  "soloPromise = \<lparr>prom_ID = ID 0 0, prom_Rnd = crnd soloPreparing,
     prom_AccSlots = [\<lparr>as_ID = 1, VRnd = Round 1 (ID 0 0), VVal = appValue\<rparr>], prom_EpochVector = []\<rparr>"

definition soloPromised :: MultiProposer where
  "soloPromised = soloPreparing\<lparr>phaseOnePromises := [Some soloPromise], phaseOneCount := 1\<rparr>"

definition soloLeading :: MultiProposer where
  "soloLeading = soloProposer\<lparr>phaseOneDone := True, reqQueue := [appValue, zeroValue]\<rparr>"

lemma soloPreparing_fields:
  "crnd soloPreparing = Round 2 (ID 0 0) \<and> phaseOnePromises soloPreparing = [None] \<and>
   phaseOneCount soloPreparing = 0 \<and> \<not> phaseOneDone soloPreparing \<and> \<not> handlesLr soloPreparing"
  by code_simp

theorem startPhaseOne_correct_witness:
  "crnd soloProposer < crnd soloPreparing \<and> phaseOnePromises soloPreparing = [None]"
proof -
  have "Rnd (crnd soloProposer) < - 1" "\<not> lrEnabled oneGrpMgr" by code_simp+
  from startPhaseOne_correct [OF this, of True] have "crnd soloProposer < crnd soloPreparing"
    unfolding soloPreparing_def by blast
  with soloPreparing_fields show ?thesis by blast
qed

theorem handleProm_quorum_witness:
  "handleProm oneGrpMgr soloPromise soloPreparing = Inr (True, soloPromised) \<and>
   1 \<le> card (promisers soloPromised)"
proof -
  have "handleProm oneGrpMgr soloPromise soloPreparing =
      Inr (True, soloPreparing\<lparr>phaseOnePromises := [Some soloPromise], phaseOneCount := 1\<rparr>)"
    using soloPreparing_fields
    by (simp add: handleProm_def soloPromise_def index_def update_index_def PxInt_def oneGrpMgr_def
        NewGrpMgr_def Quorum_def)
  then have step: "handleProm oneGrpMgr soloPromise soloPreparing = Inr (True, soloPromised)"
    by (simp add: soloPromised_def)
  have "promises_stored {soloPromise} soloPreparing"
    using soloPreparing_fields by (auto simp: promises_stored_def promisers_def nth_Cons')
  from handleProm_quorum [OF this step] step show ?thesis
    by (simp add: oneGrpMgr_def NewGrpMgr_def Quorum_def)
qed

declare sendAcceptLoop.simps [code]

lemma soloLeading_sends:
  "case sendAccept soloLeading of
     Inl e \<Rightarrow> False
   | Inr q \<Rightarrow> map payload (mp_bcast q) = [MAccept (acceptFor q 1 appValue), MAccept (acceptFor q 2 zeroValue)]"
  by code_simp

theorem sendAccept_correct_witness:
  "\<exists>q. sendAccept soloLeading = Inr q \<and> filled soloLeading q \<and> nothing_to_send q \<and>
    map payload (mp_bcast q) = [MAccept (acceptFor q 1 appValue), MAccept (acceptFor q 2 zeroValue)]"
proof -
  have "wf_proposer soloLeading"
    by (simp add: wf_proposer_def soloLeading_def soloProposer_def NewMultiProposer_def
        NewProposerSlotMap_def psm.view_def blankProposerSlot_def)
  moreover have "mp_adu soloLeading + alpha soloLeading \<noteq> - 1" by code_simp
  ultimately obtain q where "sendAccept soloLeading = Inr q" "filled soloLeading q" "nothing_to_send q"
    using sendAccept_correct [of soloLeading] by blast
  with soloLeading_sends show ?thesis by simp
qed

end
