(* ===== verification/PaxosSystem.thy ===== *)
theory PaxosSystem
  imports Voting LearnerSafety ProposerSends
begin

text \<open>
  A MultiPaxos cluster without reconfiguration: every node runs the proposer, the acceptor and
  the learner of the preceding theories, and a step of the cluster is one event of one of them.
  The network is what was ever written to the channels: a message can be lost, delayed,
  duplicated and reordered at will, and a node can stop at any time by taking no more steps.
\<close>

section \<open>The cluster\<close>

record System =
  props :: "gid \<Rightarrow> MultiProposer"
  accs :: "gid \<Rightarrow> MultiAcceptor"
  lrns :: "gid \<Rightarrow> MultiLearner"

text \<open>All nodes have the same configuration; each has its own identity.\<close>

definition nodeGm :: "GrpMgr \<Rightarrow> gid \<Rightarrow> GrpMgr" where
  "nodeGm gm i = gm\<lparr>gm_id := i\<rparr>"

definition preparesOf :: "MultiProposer \<Rightarrow> Prepare set" where
  "preparesOf p = {m. MPrepare m \<in> payload ` set (mp_bcast p)}"

definition acceptsOf :: "MultiProposer \<Rightarrow> Accept set" where
  "acceptsOf p = {m. MAccept m \<in> payload ` set (mp_bcast p)}"

definition responsesOf :: "MultiLearner \<Rightarrow> CatchUpResponse set" where
  "responsesOf l = {m. MCatchUpResponse m \<in> payload ` snd ` set (ml_ucast l)}"

definition prepares :: "System \<Rightarrow> Prepare set" where
  "prepares S = (\<Union>i. preparesOf (props S i))"

definition accepts :: "System \<Rightarrow> Accept set" where
  "accepts S = (\<Union>i. acceptsOf (props S i))"

definition promises :: "System \<Rightarrow> Promise set" where
  "promises S = (\<Union>i. sentPromises (accs S i))"

definition learns :: "System \<Rightarrow> Learn set" where
  "learns S = (\<Union>i. sentLearns (accs S i))"

definition cuResponses :: "System \<Rightarrow> CatchUpResponse set" where
  "cuResponses S = (\<Union>i. responsesOf (lrns S i))"

text \<open>
  What was sent last binds an acceptor: the highest round it has promised or voted in.
\<close>

definition bound :: "System \<Rightarrow> gid \<Rightarrow> ProposerRound" where
  "bound S a = promised (ballotOf (ma_slots (accs S a)))"

text \<open>
  An event that brings a message is possible when the message was sent; a value is proposed when
  it is one of the clients' values \<open>V\<close>.
\<close>

fun prop_input :: "Value set \<Rightarrow> System \<Rightarrow> proposer_event \<Rightarrow> bool" where
  "prop_input V S (PPromise m) = (m \<in> promises S)"
| "prop_input V S (PPropose v) = (v \<in> V)"
| "prop_input V S _ = True"

fun acc_input :: "System \<Rightarrow> acceptor_event \<Rightarrow> bool" where
  "acc_input S (APrepare m) = (m \<in> prepares S)"
| "acc_input S (AAccept m) = (m \<in> accepts S)"
| "acc_input S _ = True"

fun lrn_input :: "System \<Rightarrow> learner_event \<Rightarrow> bool" where
  "lrn_input S (LLearn m) = (m \<in> learns S)"
| "lrn_input S (LCatchUpResponse m) = (m \<in> cuResponses S)"
| "lrn_input S _ = True"

text \<open>
  The counters of a proposer are far from overflow: its round and its next slot together, and
  the window above its \<open>adu\<close>, stay below the greatest \<open>uint\<close>.
\<close>

definition in_bounds :: "MultiProposer \<Rightarrow> bool" where
  "in_bounds p \<longleftrightarrow> unat (Rnd (crnd p)) + unat (nextSlot p) < 2 ^ 64 - 1 \<and>
     unat (mp_adu p) + unat (alpha p) + 2 < 2 ^ 64 - 1"

inductive sys_step :: "GrpMgr \<Rightarrow> Value set \<Rightarrow> System \<Rightarrow> System \<Rightarrow> bool" for gm V where
  Proposer_Step: "i \<in> set (ProposerIDs (nodeMap gm)) \<Longrightarrow> prop_input V S e \<Longrightarrow> in_bounds (props S i) \<Longrightarrow>
    proposer_step (nodeGm gm i) e (props S i) = Inr p \<Longrightarrow>
    sys_step gm V S (S\<lparr>props := (props S)(i := p)\<rparr>)"
| Acceptor_Step: "i \<in> set (AcceptorIDs (nodeMap gm)) \<Longrightarrow> acc_input S f \<Longrightarrow>
    acceptor_step (nodeGm gm i) f (accs S i) = Inr a \<Longrightarrow>
    sys_step gm V S (S\<lparr>accs := (accs S)(i := a)\<rparr>)"
| Learner_Step: "i \<in> set (LearnerIDs (nodeMap gm)) \<Longrightarrow> lrn_input S g \<Longrightarrow>
    learner_step (nodeGm gm i) g (lrns S i) = Inr l \<Longrightarrow>
    sys_step gm V S (S\<lparr>lrns := (lrns S)(i := l)\<rparr>)"

definition initial :: "GrpMgr \<Rightarrow> (gid \<Rightarrow> gid) \<Rightarrow> 64 word \<Rightarrow> SlotID \<Rightarrow> System" where
  "initial gm leader alph first =
     \<lparr>props = (\<lambda>i. NewMultiProposer i True (leader i) alph first (nodeGm gm i)),
      accs = (\<lambda>i. NewMultiAcceptor i True (leader i) first (nodeGm gm i)),
      lrns = (\<lambda>i. NewMultiLearner i True (leader i) first (nodeGm gm i))\<rparr>"

inductive sys_reach :: "GrpMgr \<Rightarrow> Value set \<Rightarrow> System \<Rightarrow> System \<Rightarrow> bool" for gm V where
  Reach_Refl: "sys_reach gm V S S"
| Reach_Step: "sys_reach gm V S T \<Longrightarrow> sys_step gm V T U \<Longrightarrow> sys_reach gm V S U"

text \<open>The configurations considered: plain mode, and acceptors that are counted.\<close>

definition plain_config :: "GrpMgr \<Rightarrow> bool" where
  "plain_config gm \<longleftrightarrow> \<not> lrEnabled gm \<and> \<not> arEnabled gm \<and> quorum_config (nodeMap gm) \<and>
     unat (nrOfNodes (nodeMap gm)) < 2 ^ 64 - 1"

lemma nodeGm_simps [simp]:
  "lrEnabled (nodeGm gm i) = lrEnabled gm" "arEnabled (nodeGm gm i) = arEnabled gm"
  "Quorum (nodeGm gm i) = Quorum gm" "NrOfNodes (nodeGm gm i) = NrOfNodes gm"
  "gm_id (nodeGm gm i) = i" "nodeMap (nodeGm gm i) = nodeMap gm"
  by (simp_all add: nodeGm_def Quorum_def NrOfNodes_def)

section \<open>One acceptor\<close>

text \<open>
  What an acceptor knows of itself: besides the invariant of its runs, its messages carry its
  identity and each of its votes was sent as a learn.
\<close>

definition acc_local :: "gid \<Rightarrow> MultiAcceptor \<Rightarrow> bool" where
  "acc_local a x \<longleftrightarrow> acceptor_inv x \<and> ma_id x = a \<and> ma_mode x = PlainMode \<and>
     (\<forall>s. ZeroRound < fst (votes (ballotOf (ma_slots x)) s) \<longrightarrow>
        voted (sentLearns x) a s (fst (votes (ballotOf (ma_slots x)) s))
          (snd (votes (ballotOf (ma_slots x)) s))) \<and>
     (\<forall>l\<in>sentLearns x. lrn_ID l = a) \<and> (\<forall>p\<in>sentPromises x. prom_ID p = a)"

lemma voted_subset: "voted L a s r v \<Longrightarrow> L \<subseteq> L' \<Longrightarrow> voted L' a s r v"
  unfolding voted_def by blast

lemma acc_local_frame:
  assumes "acc_local a x" and "acceptor_inv x'" and "ma_id x' = a" and "ma_mode x' = PlainMode"
    and "ma_slots x' = ma_slots x" and "sentLearns x' = sentLearns x" and "sentPromises x' = sentPromises x"
  shows "acc_local a x'"
  using assms by (simp add: acc_local_def)

lemma handlers_keep_mode:
  "handlePrepare gm m a = Inr (po, d, a') \<Longrightarrow> ma_mode a' = ma_mode a"
  "handleAccept gm n a = (lo, a') \<Longrightarrow> ma_mode a' = ma_mode a"
proof -
  show "handlePrepare gm m a = Inr (po, d, a') \<Longrightarrow> ma_mode a' = ma_mode a"
    by (cases "ma_mode a") (auto simp: handlePrepare_def handlePrep_def handlePrepLr_def
        handlePrepAr_def Let_def split: if_splits option.splits prod.splits)
  show "handleAccept gm n a = (lo, a') \<Longrightarrow> ma_mode a' = ma_mode a"
    by (cases "ma_mode a") (auto simp: handleAccept_def handleAcc_def handleAccLr_def
        handleAccAr_def Let_def split: if_splits prod.splits)
qed

lemma acc_local_prepare:
  assumes loc: "acc_local a x" and step: "acceptor_step gm (APrepare m) x = Inr x'"
  shows "acc_local a x' \<and> sentLearns x' = sentLearns x \<and> sentPromises x \<subseteq> sentPromises x' \<and>
    promised (ballotOf (ma_slots x)) \<le> promised (ballotOf (ma_slots x')) \<and>
    (\<forall>p\<in>sentPromises x' - sentPromises x. prom_Rnd p = prep_CRnd m \<and>
      promised (ballotOf (ma_slots x)) < prom_Rnd p \<and> promised (ballotOf (ma_slots x')) = prom_Rnd p \<and>
      reports (prep_Slot m) (ballotOf (ma_slots x)) (prom_AccSlots p))"
proof -
  from loc have inv: "acceptor_inv x" and wf: "wf_acceptorSlots (ma_slots x)"
    by (auto simp: acc_local_def acceptor_inv_def)
  from step obtain po d x1 where run: "handlePrepare gm m x = Inr (po, d, x1)"
      and x': "x' = (case po of None \<Rightarrow> x1 | Some p \<Rightarrow> acc_send (MPromise p) d x1)"
    by (auto simp: bind_result_Inr_iff)
  have inv': "acceptor_inv x'" by (rule acceptor_inv_prepare [OF inv step])
  have id: "ma_id x1 = a" "ma_mode x1 = PlainMode"
    using multi.prep_good [OF wf run] handlers_keep_mode(1) [OF run] loc by (auto simp: acc_local_def)
  note sent = sent_prepare [OF run]
  show ?thesis
  proof (cases po)
    case None
    have same: "ballotOf (ma_slots x1) = ballotOf (ma_slots x)"
      using multi.prep_none [OF wf run [unfolded None]] .
    then have "acc_local a x'"
      using loc inv' id sent x' None by (simp add: acc_local_def)
    then show ?thesis using sent x' None same by simp
  next
    case (Some p)
    note prom = multi.prep_promise [OF wf run [unfolded Some]]
    note rep = multi.prep_report [OF wf run [unfolded Some]]
    have x: "x' = acc_send (MPromise p) d x1" using x' Some by simp
    have "acc_local a x'"
      using loc inv' id sent prom rep by (simp add: acc_local_def x acc_send_def [of _ _ x1] sent_send(3,4) [unfolded acc_send_def])
    then show ?thesis
      using sent prom rep x by auto
  qed
qed

lemma acc_local_accept:
  assumes loc: "acc_local a x" and step: "acceptor_step gm (AAccept m) x = Inr x'"
  shows "acc_local a x' \<and> sentPromises x' = sentPromises x \<and> sentLearns x \<subseteq> sentLearns x' \<and>
    promised (ballotOf (ma_slots x)) \<le> promised (ballotOf (ma_slots x')) \<and>
    (\<forall>l\<in>sentLearns x' - sentLearns x. answers l m \<and> promised (ballotOf (ma_slots x)) \<le> lrn_Rnd l)"
proof -
  from loc have inv: "acceptor_inv x" and wf: "wf_acceptorSlots (ma_slots x)"
    by (auto simp: acc_local_def acceptor_inv_def)
  obtain lo x1 where run: "handleAccept gm m x = (lo, x1)" by (cases "handleAccept gm m x")
  then have x': "x' = (case lo of None \<Rightarrow> x1 | Some l \<Rightarrow> acc_broadcast (MLearn l) x1)"
    using step by simp
  have inv': "acceptor_inv x'" by (rule acceptor_inv_accept [OF inv step])
  have id: "ma_id x1 = a" "ma_mode x1 = PlainMode"
    using multi.acc_good [OF wf run] handlers_keep_mode(2) [OF run] loc by (auto simp: acc_local_def)
  note sent = sent_accept [OF run]
  show ?thesis
  proof (cases lo)
    case None
    have same: "ballotOf (ma_slots x1) = ballotOf (ma_slots x)"
      using multi.acc_none [OF wf run [unfolded None]] .
    then have "acc_local a x'"
      using loc inv' id sent x' None by (simp add: acc_local_def)
    then show ?thesis using sent x' None same by simp
  next
    case (Some l)
    note vote = multi.acc_vote [OF wf run [unfolded Some]]
    note learn = multi.acc_learn [OF wf run [unfolded Some]]
    have x: "x' = acc_broadcast (MLearn l) x1" using x' Some by simp
    have L: "sentLearns x' = insert l (sentLearns x)" "sentPromises x' = sentPromises x"
      using sent by (simp_all add: x)
    have fields: "ma_id x' = a" "ma_mode x' = PlainMode" "ma_slots x' = ma_slots x1"
      using id by (simp_all add: x acc_broadcast_def)
    have lid: "lrn_ID l = a" using learn loc by (simp add: acc_local_def)
    have recorded: "voted (sentLearns x') a s (fst (votes (ballotOf (ma_slots x1)) s))
        (snd (votes (ballotOf (ma_slots x1)) s))"
      if pos: "ZeroRound < fst (votes (ballotOf (ma_slots x1)) s)" for s
    proof (cases "s = acc_Slot m")
      case True
      have "voted (sentLearns x') a (acc_Slot m) (acc_Rnd m) (acc_Val m)"
        unfolding voted_def L using learn lid by (intro bexI [of _ l]) auto
      then show ?thesis using vote True by simp
    next
      case False
      then have same: "votes (ballotOf (ma_slots x1)) s = votes (ballotOf (ma_slots x)) s"
        using vote by simp
      then have "voted (sentLearns x) a s (fst (votes (ballotOf (ma_slots x1)) s))
          (snd (votes (ballotOf (ma_slots x1)) s))"
        using loc pos by (simp add: acc_local_def)
      then show ?thesis by (rule voted_subset) (auto simp: L)
    qed
    have "acc_local a x'"
      unfolding acc_local_def fields(3)
    proof (intro conjI allI impI ballI)
      show "acceptor_inv x'" by (rule inv')
      show "ma_id x' = a" "ma_mode x' = PlainMode" by (rule fields)+
      show "lrn_ID l' = a" if "l' \<in> sentLearns x'" for l'
        using that lid loc by (auto simp: L acc_local_def)
      show "prom_ID p = a" if "p \<in> sentPromises x'" for p
        using that loc by (auto simp: L acc_local_def)
    qed (rule recorded)
    then show ?thesis
      using L vote learn fields(3) by (auto simp: answers_def)
  qed
qed

text \<open>Any step of an acceptor.\<close>

lemma acc_local_step:
  assumes loc: "acc_local a x" and step: "acceptor_step gm e x = Inr x'" and id: "gm_id gm = a"
  shows "acc_local a x' \<and> sentLearns x \<subseteq> sentLearns x' \<and> sentPromises x \<subseteq> sentPromises x' \<and>
    promised (ballotOf (ma_slots x)) \<le> promised (ballotOf (ma_slots x')) \<and>
    (\<forall>l\<in>sentLearns x' - sentLearns x. \<exists>m. e = AAccept m \<and> answers l m \<and>
      promised (ballotOf (ma_slots x)) \<le> lrn_Rnd l) \<and>
    (\<forall>p\<in>sentPromises x' - sentPromises x. \<exists>m. e = APrepare m \<and> sentLearns x' = sentLearns x \<and>
      prom_Rnd p = prep_CRnd m \<and> promised (ballotOf (ma_slots x)) < prom_Rnd p \<and>
      promised (ballotOf (ma_slots x')) = prom_Rnd p \<and>
      reports (prep_Slot m) (ballotOf (ma_slots x)) (prom_AccSlots p))"
proof -
  have inv': "acceptor_inv x'"
    using acceptor_step_inv [OF _ step] loc by (simp add: acc_local_def)
  have frame: ?thesis if "ma_id x' = a" "ma_mode x' = ma_mode x" "ma_slots x' = ma_slots x"
      "ma_bcast x' = ma_bcast x" "ma_ucast x' = ma_ucast x"
  proof -
    have "sentLearns x' = sentLearns x" "sentPromises x' = sentPromises x"
      using that by (simp_all add: sentLearns_def sentPromises_def)
    then show ?thesis
      using acc_local_frame [OF loc inv'] that loc by (simp add: acc_local_def)
  qed
  show ?thesis
  proof (cases e)
    case (APrepare m)
    then show ?thesis using acc_local_prepare [OF loc step [unfolded APrepare]] by auto
  next
    case (AAccept m)
    then show ?thesis using acc_local_accept [OF loc step [unfolded AAccept]] by auto
  next
    case (AStateRequest s)
    then show ?thesis
      using step id by (intro frame) (auto simp: handleStateRequest_def bind_result_Inr_iff)
  qed (use step loc in \<open>intro frame; auto simp: handleSlotRequest_def Let_def acc_local_def\<close>)+
qed

end
