(* ===== verification/ProposerSafety.thy ===== *)
theory ProposerSafety
  imports PaxosSystem
begin

text \<open>
  What one MultiPaxos proposer contributes to agreement, in a cluster without Live Replacement:
  an invariant of its state relative to the messages that were sent, and one lemma per operation
  that the operation keeps it.
\<close>

section \<open>What a promise tells\<close>

definition quor :: "GrpMgr \<Rightarrow> gid set \<Rightarrow> bool" where
  "quor gm Q \<longleftrightarrow> Q \<subseteq> set (AcceptorIDs (nodeMap gm)) \<and> unat (Quorum gm) \<le> card Q"

text \<open>
  A promise is bound to its round, answers a prepare of that round, and reports the votes of its
  sender from the prepare's slot on in all lower rounds; the entries it reports are votes.
\<close>

definition promise_ok :: "GrpMgr \<Rightarrow> Learn set \<Rightarrow> (gid \<Rightarrow> ProposerRound) \<Rightarrow> Prepare set \<Rightarrow> Promise \<Rightarrow> bool" where
  "promise_ok gm L bnd M p \<longleftrightarrow> prom_ID p \<in> set (AcceptorIDs (nodeMap gm)) \<and> prom_Rnd p \<le> bnd (prom_ID p) \<and>
     (\<forall>e\<in>set (prom_AccSlots p). e = blankAcceptorSlot 0 \<or>
        voted L (prom_ID p) (as_ID e) (VRnd e) (VVal e) \<and> VRnd e < prom_Rnd p) \<and>
     (\<exists>m\<in>M. prep_CRnd m = prom_Rnd p \<and>
        (\<forall>s\<ge>prep_Slot m. \<forall>r<prom_Rnd p. \<forall>v. voted L (prom_ID p) s r v \<longrightarrow>
           (\<exists>e\<in>set (prom_AccSlots p). as_ID e = s \<and> r \<le> VRnd e)))"

lemma promise_ok_mono:
  assumes ok: "promise_ok gm L bnd M p" and grow: "grows L bnd L' bnd'" and "M \<subseteq> M'"
  shows "promise_ok gm L' bnd' M' p"
proof -
  let ?a = "prom_ID p"
  have bnd: "prom_Rnd p \<le> bnd ?a" "bnd ?a \<le> bnd' ?a"
    using ok grow by (auto simp: promise_ok_def grows_def)
  have old: "voted L ?a s r v" if "voted L' ?a s r v" "r < prom_Rnd p" for s r v
    using no_new_votes [OF that(1) grow] that(2) bnd(1) by simp
  obtain m where m: "m \<in> M'" "prep_CRnd m = prom_Rnd p"
      "\<And>s r v. prep_Slot m \<le> s \<Longrightarrow> r < prom_Rnd p \<Longrightarrow> voted L ?a s r v \<Longrightarrow>
        \<exists>e\<in>set (prom_AccSlots p). as_ID e = s \<and> r \<le> VRnd e"
    using ok \<open>M \<subseteq> M'\<close> unfolding promise_ok_def by blast
  have "\<exists>e\<in>set (prom_AccSlots p). as_ID e = s \<and> r \<le> VRnd e"
    if "prep_Slot m \<le> s" "r < prom_Rnd p" "voted L' ?a s r v" for s r v
    using m(3) [OF that(1,2)] old [OF that(3,2)] by blast
  moreover have "prom_Rnd p \<le> bnd' ?a" using bnd by simp
  moreover have "voted L' ?a (as_ID e) (VRnd e) (VVal e)" if "voted L ?a (as_ID e) (VRnd e) (VVal e)" for e
    by (rule voted_mono [OF that grow])
  ultimately show ?thesis
    using ok m(1,2) unfolding promise_ok_def by blast
qed

section \<open>The invariant of one proposer\<close>

text \<open>
  The slots of the current round: from \<open>lo\<close> up to below \<open>nextSlot\<close> each slot holds the accept that
  was sent for it, and no other accept of this round was sent; in the later slots whatever may be
  sent is safe.
\<close>

definition free_value :: "MultiProposer \<Rightarrow> SlotID \<Rightarrow> Value \<Rightarrow> bool" where
  "free_value p s v \<longleftrightarrow> (case proposalAt p s of Some b \<Rightarrow> v = acc_Val b | None \<Rightarrow> True)"

definition window_at :: "GrpMgr \<Rightarrow> Learn set \<Rightarrow> (gid \<Rightarrow> ProposerRound) \<Rightarrow> SlotID \<Rightarrow>
    MultiProposer \<Rightarrow> bool" where
  "window_at gm L bnd lo p \<longleftrightarrow> lo \<le> mp_adu p + 1 \<and> lo \<le> nextSlot p \<and>
     (\<forall>s. lo \<le> s \<and> s < nextSlot p \<longrightarrow> (\<exists>a\<in>acceptsOf p. proposalAt p s = Some a)) \<and>
     (\<forall>a\<in>acceptsOf p. acc_Rnd a = crnd p \<longrightarrow>
        lo \<le> acc_Slot a \<and> acc_Slot a < nextSlot p \<and> proposalAt p (acc_Slot a) = Some a) \<and>
     (\<forall>s\<ge>nextSlot p. \<forall>v. free_value p s v \<longrightarrow> safe_at (quor gm) L bnd s (crnd p) v)"

definition window_ok :: "GrpMgr \<Rightarrow> Learn set \<Rightarrow> (gid \<Rightarrow> ProposerRound) \<Rightarrow> MultiProposer \<Rightarrow> bool" where
  "window_ok gm L bnd p \<longleftrightarrow> (\<exists>lo. window_at gm L bnd lo p)"

definition proposals_ok :: "Accept set \<Rightarrow> MultiProposer \<Rightarrow> bool" where
  "proposals_ok A p \<longleftrightarrow> (\<forall>s b. proposalAt p s = Some b \<longrightarrow>
     (\<exists>a\<in>A. acc_Slot a = s \<and> acc_Rnd a = acc_Rnd b \<and> acc_Val a = acc_Val b) \<and>
     acc_Rnd b \<le> crnd p \<and> (\<not> phaseOneDone p \<longrightarrow> acc_Rnd b < crnd p))"

definition sent_ok :: "gid \<Rightarrow> MultiProposer \<Rightarrow> bool" where
  "sent_ok i p \<longleftrightarrow>
     (\<forall>m\<in>preparesOf p. RndID (prep_CRnd m) = i \<and> prep_CRnd m \<le> crnd p \<and>
        (prep_CRnd m = crnd p \<longrightarrow> prep_Slot m \<le> mp_adu p)) \<and>
     (\<forall>a\<in>acceptsOf p. RndID (acc_Rnd a) = i \<and> acc_Rnd a \<le> crnd p \<and> (\<not> phaseOneDone p \<longrightarrow> acc_Rnd a < crnd p))"

definition prop_ok :: "GrpMgr \<Rightarrow> Value set \<Rightarrow> Learn set \<Rightarrow> (gid \<Rightarrow> ProposerRound) \<Rightarrow> Accept set \<Rightarrow>
    Promise set \<Rightarrow> gid \<Rightarrow> MultiProposer \<Rightarrow> bool" where
  "prop_ok gm V L bnd A P i p \<longleftrightarrow>
     mp_id p = i \<and> RndID (crnd p) = i \<and> ZeroRound < crnd p \<and> \<not> handlesLr p \<and> wf_proposer p \<and>
     set (reqQueue p) \<subseteq> V \<and> acceptsOf p \<subseteq> A \<and> sent_ok i p \<and> proposals_ok A p \<and>
     (if phaseOneDone p then window_ok gm L bnd p else promises_stored P p)"

lemma window_ok_mono: "window_ok gm L bnd p \<Longrightarrow> grows L bnd L' bnd' \<Longrightarrow> window_ok gm L' bnd' p"
  unfolding window_ok_def window_at_def using safe_at_mono by blast

lemma proposals_ok_mono: "proposals_ok A p \<Longrightarrow> A \<subseteq> A' \<Longrightarrow> proposals_ok A' p"
  unfolding proposals_ok_def by (meson subsetD)

lemma prop_ok_mono:
  assumes "prop_ok gm V L bnd A P i p" and "grows L bnd L' bnd'" and "A \<subseteq> A'" and "P \<subseteq> P'"
  shows "prop_ok gm V L' bnd' A' P' i p"
  using assms window_ok_mono [OF _ assms(2)] proposals_ok_mono [OF _ assms(3)]
    promises_stored_mono [OF _ assms(4)] unfolding prop_ok_def by (auto split: if_splits)

section \<open>Operations that do not send accepts\<close>

lemma sent_of_bcast:
  "mp_bcast q = mp_bcast p \<Longrightarrow> preparesOf q = preparesOf p"
  "mp_bcast q = mp_bcast p \<Longrightarrow> acceptsOf q = acceptsOf p"
  by (simp_all add: preparesOf_def acceptsOf_def)

text \<open>The invariant reads only some fields.\<close>

definition same_state :: "MultiProposer \<Rightarrow> MultiProposer \<Rightarrow> bool" where
  "same_state p q \<longleftrightarrow> mp_id q = mp_id p \<and> crnd q = crnd p \<and> handlesLr q = handlesLr p \<and>
     nextSlot q = nextSlot p \<and> mp_adu q = mp_adu p \<and> phaseOneDone q = phaseOneDone p \<and>
     phaseOnePromises q = phaseOnePromises p \<and> phaseOneCount q = phaseOneCount p \<and>
     same_props (mp_slots p) (mp_slots q) \<and> preparesOf q = preparesOf p \<and> acceptsOf q = acceptsOf p"

lemma prop_ok_same:
  assumes ok: "prop_ok gm V L bnd A P i p" and same: "same_state p q" and "set (reqQueue q) \<subseteq> V"
  shows "prop_ok gm V L bnd A P i q"
proof -
  have pr: "proposalAt q = proposalAt p" "wf_proposer q = wf_proposer p"
    using same same_props_proposer [of p q] by (simp_all add: same_state_def)
  have "window_ok gm L bnd q = window_ok gm L bnd p" "proposals_ok A q = proposals_ok A p"
      "sent_ok i q = sent_ok i p" "promises_stored P q = promises_stored P p"
    using same pr by (simp_all add: same_state_def window_ok_def window_at_def free_value_def proposals_ok_def
        sent_ok_def promises_stored_def promisers_def)
  then show ?thesis
    using ok same pr assms(3) by (simp add: prop_ok_def same_state_def)
qed

lemma same_state_counters: "only_counters p q \<Longrightarrow> same_state p q \<and> reqQueue q = reqQueue p"
  by (auto simp: only_counters_def same_state_def preparesOf_def acceptsOf_def)

lemma prop_ok_counters:
  assumes "prop_ok gm V L bnd A P i p" and "only_counters p q"
  shows "prop_ok gm V L bnd A P i q"
proof (rule prop_ok_same [OF assms(1)])
  show "same_state p q" "set (reqQueue q) \<subseteq> V"
    using same_state_counters [OF assms(2)] assms(1) by (simp_all add: prop_ok_def)
qed

lemma word_up_two:
  fixes a :: "64 word"
  assumes "unat a + 2 < 2 ^ 64 - 1"
  shows "a \<le> a + 1 \<and> a + 1 \<le> a + 1 + 1"
proof -
  have a: "a < - 1" "unat (a + 1) = Suc (unat a)"
    using assms unat_Suc_word [of a "- 1"]
    by (simp_all add: word_less_nat_alt unsigned_minus_1_eq_mask mask_eq_exp_minus_1)
  then have "a + 1 < - 1"
    using assms by (simp add: word_less_nat_alt unsigned_minus_1_eq_mask mask_eq_exp_minus_1)
  then have "unat (a + 1 + 1) = Suc (Suc (unat a))" using unat_Suc_word a(2) by metis
  with a(2) show ?thesis by (simp add: word_le_nat_alt)
qed

text \<open>A slot was decided: the window only moves up.\<close>

lemma prop_ok_adu:
  assumes ok: "prop_ok gm V L bnd A P i p" and bound: "unat (mp_adu p) + 2 < 2 ^ 64 - 1"
  shows "prop_ok gm V L bnd A P i (p\<lparr>mp_adu := mp_adu p + 1\<rparr>)"
proof -
  let ?q = "p\<lparr>mp_adu := mp_adu p + 1\<rparr>"
  have up: "mp_adu p \<le> mp_adu p + 1" "mp_adu p + 1 \<le> mp_adu p + 1 + 1"
    using word_up_two [of "mp_adu p"] bound by simp_all
  have pr: "proposalAt ?q = proposalAt p" "wf_proposer ?q = wf_proposer p"
    using same_props_proposer [of p ?q] by simp_all
  have sent: "preparesOf ?q = preparesOf p" "acceptsOf ?q = acceptsOf p"
    by (simp_all add: preparesOf_def acceptsOf_def)
  have "sent_ok i ?q" if "sent_ok i p"
  proof -
    have "s \<le> mp_adu p + 1" if "s \<le> mp_adu p" for s using that up(1) by (rule order_trans)
    with that show ?thesis unfolding sent_ok_def sent by simp
  qed
  moreover have "window_ok gm L bnd ?q" if "window_ok gm L bnd p"
  proof -
    from that obtain lo where lo: "window_at gm L bnd lo p" unfolding window_ok_def by blast
    then have "lo \<le> mp_adu p + 1 + 1" using up(2) unfolding window_at_def by (blast intro: order_trans)
    with lo have "window_at gm L bnd lo ?q"
      unfolding window_at_def sent pr free_value_def by simp
    then show ?thesis unfolding window_ok_def by blast
  qed
  moreover have "promises_stored P ?q" if "promises_stored P p"
    using that by (simp add: promises_stored_def promisers_def)
  moreover have "proposals_ok A ?q" if "proposals_ok A p"
    using that unfolding proposals_ok_def pr by simp
  ultimately show ?thesis
    using ok unfolding prop_ok_def pr sent by simp
qed

text \<open>A new round forgets the promises and sends one prepare.\<close>

lemma prop_ok_start:
  assumes ok: "prop_ok gm V L bnd A P i p" and nodes: "unat (NrOfNodes gm') < 2 ^ 64 - 1"
    and lr: "\<not> lrEnabled gm'" and rnd: "unat (Rnd (crnd p)) < 2 ^ 64 - 1"
  shows "prop_ok gm V L bnd A P i (startPhaseOne gm' c p) \<and>
    acceptsOf (startPhaseOne gm' c p) = acceptsOf p \<and>
    preparesOf p \<subseteq> preparesOf (startPhaseOne gm' c p) \<and>
    proposalAt (startPhaseOne gm' c p) = proposalAt p \<and>
    unat (Rnd (crnd (startPhaseOne gm' c p))) = Suc (unat (Rnd (crnd p)))"
proof -
  let ?q = "startPhaseOne gm' c p" and ?r = "NextRound (crnd p)"
  have max: "Rnd (crnd p) < - 1"
    using rnd by (simp add: word_less_nat_alt unsigned_minus_1_eq_mask mask_eq_exp_minus_1)
  obtain sm q where eq: "?q = p\<lparr>phaseOneDone := False, phaseOneCount := 0,
      phaseOneVQCheck := phaseOneVQCheck p,
      phaseOnePromises := replicate (unat (NrOfNodes gm')) None,
      phaseOneRecvFrom := phaseOneRecvFrom p, mp_slots := sm, crnd := ?r, reqQueue := q,
      mp_bcast := mp_bcast p @ [Struct (MPrepare
        \<lparr>prep_ID = mp_id p, prep_CRnd = ?r, prep_Slot = mp_adu p\<rparr>)],
      phaseOneTimer := True\<rparr>" and same: "same_props (mp_slots p) sm"
      and q: "q = (if c then [] else reqQueue p)"
    using startPhaseOne_eq [of gm' c p] lr by auto
  have sel: "mp_id ?q = mp_id p" "crnd ?q = ?r" "handlesLr ?q = handlesLr p" "\<not> phaseOneDone ?q"
      "mp_adu ?q = mp_adu p" "mp_slots ?q = sm" "reqQueue ?q = q"
    by (simp_all add: eq)
  have pr: "proposalAt ?q = proposalAt p" "wf_proposer ?q = wf_proposer p"
    using same_props_proposer [of p ?q] same unfolding sel by simp_all
  have sent: "acceptsOf ?q = acceptsOf p"
      "preparesOf ?q = insert \<lparr>prep_ID = mp_id p, prep_CRnd = ?r, prep_Slot = mp_adu p\<rparr> (preparesOf p)"
    by (auto simp: eq acceptsOf_def preparesOf_def)
  have up: "crnd p < ?r" "RndID ?r = RndID (crnd p)"
    using startPhaseOne_correct [OF max lr, of c] unfolding sel by auto
  have low: "x < ?r" if "x \<le> crnd p" for x using that up(1) by (rule le_less_trans)
  have "sent_ok i ?q"
    using ok low less_imp_le [OF low] up(2) unfolding prop_ok_def sent_ok_def sent sel
    by (auto simp: less_le_not_le [of _ ?r])
  moreover have "proposals_ok A ?q"
    using ok low less_imp_le [OF low] unfolding prop_ok_def proposals_ok_def pr sel by blast
  moreover have "promises_stored P ?q"
    by (rule promises_stored_reset) (use nodes in \<open>simp_all add: eq\<close>)
  moreover have "set q \<subseteq> V" using ok q by (auto simp: prop_ok_def)
  moreover have "unat (Rnd ?r) = Suc (unat (Rnd (crnd p)))"
    using unat_Suc_word [OF max] by (simp add: NextRound_def)
  ultimately show ?thesis
    using ok up(2) less_trans [OF _ up(1), of ZeroRound] pr sel(4) unfolding prop_ok_def sent sel by auto
qed

text \<open>A resend repeats accepts that were sent, or starts a new round.\<close>

lemma prop_ok_resend:
  assumes ok: "prop_ok gm V L bnd A P i p" and nodes: "unat (NrOfNodes gm') < 2 ^ 64 - 1"
    and lr: "\<not> lrEnabled gm'" and bounds: "in_bounds p"
  shows "prop_ok gm V L bnd A P i (resendAcceptsIfNecessary gm' p) \<and>
    acceptsOf (resendAcceptsIfNecessary gm' p) = acceptsOf p \<and>
    preparesOf p \<subseteq> preparesOf (resendAcceptsIfNecessary gm' p)"
proof (cases "isLeaderAndPhaseOneComplete p \<and> mp_adu p + 1 \<le> nextSlot p")
  case False
  then have "resendAcceptsIfNecessary gm' p = p"
    by (auto simp: resendAcceptsIfNecessary_def)
  then show ?thesis using ok by simp
next
  case True
  let ?n = "nextSlot p" and ?lo = "mp_adu p + 1"
  let ?I = "\<lambda>j q. prop_ok gm V L bnd A P i q \<and> acceptsOf q = acceptsOf p \<and> proposalAt q = proposalAt p \<and>
    preparesOf p \<subseteq> preparesOf q \<and> unat (Rnd (crnd q)) + (unat ?n - unat j) < 2 ^ 64 - 1"
  have resent: "a \<in> acceptsOf p" if "?lo \<le> s" "s < ?n" "proposalAt p s = Some a" for s a
  proof -
    from ok True obtain lo where lo: "window_at gm L bnd lo p"
      by (auto simp: prop_ok_def window_ok_def isLeaderAndPhaseOneComplete_def)
    then have "lo \<le> s" using that(1) unfolding window_at_def by (blast intro: order_trans)
    with lo that show ?thesis unfolding window_at_def by fastforce
  qed
  have "?I ?n (for_lt ?lo ?n (resendSlot gm') p)"
  proof (rule for_lt_invariant [where I = ?I])
    show "?lo \<le> ?n" using True by simp
    show "?I ?lo p" using ok bounds by (auto simp: in_bounds_def)
  next
    fix j q assume j: "?lo \<le> j" "j < ?n" and inv: "?I j q"
    have j1: "unat (j + 1) = Suc (unat j)" "unat j < unat ?n"
      using j(2) unat_Suc_word [OF j(2)] by (simp_all add: word_less_nat_alt)
    from inv have q: "prop_ok gm V L bnd A P i q" "acceptsOf q = acceptsOf p" "proposalAt q = proposalAt p"
      "unat (Rnd (crnd q)) + (unat ?n - unat j) < 2 ^ 64 - 1" "preparesOf p \<subseteq> preparesOf q" by auto
    have lower: "unat (Rnd (crnd q)) + (unat ?n - unat (j + 1)) < 2 ^ 64 - 1"
      using q(4) j1 by linarith
    from resendSlot_cases [of q gm' j] show "?I (j + 1) (resendSlot gm' j q)"
    proof cases
      case counters
      moreover from this have "crnd (resendSlot gm' j q) = crnd q"
          "proposalAt (resendSlot gm' j q) = proposalAt q"
          "acceptsOf (resendSlot gm' j q) = acceptsOf q"
          "preparesOf (resendSlot gm' j q) = preparesOf q"
        using same_state_counters [OF counters] same_props_proposer(1) [of q "resendSlot gm' j q"]
        by (auto simp: same_state_def)
      ultimately show ?thesis using prop_ok_counters [OF q(1)] q lower by simp
    next
      case (restart q')
      have q': "prop_ok gm V L bnd A P i q'" "crnd q' = crnd q" "acceptsOf q' = acceptsOf p"
          "proposalAt q' = proposalAt p" "preparesOf p \<subseteq> preparesOf q'"
        using prop_ok_counters [OF q(1) restart(1)] same_state_counters [OF restart(1)]
          same_props_proposer(1) [of q q'] q by (auto simp: same_state_def)
      have "unat (Rnd (crnd q')) < 2 ^ 64 - 1" using q(4) q'(2) by simp
      from prop_ok_start [OF q'(1) nodes lr this, of False] show ?thesis
        unfolding restart(2) using q' q(4) j1 by auto
    next
      case (resend q' a)
      let ?r = "resendSlot gm' j q"
      have "same_state q q' \<and> reqQueue q' = reqQueue q" by (rule same_state_counters [OF resend(2)])
      moreover have "a \<in> acceptsOf q" using resent [OF j] resend(1) q by simp
      moreover have "mp_bcast q' = mp_bcast q" using resend(2) by (auto simp: only_counters_def)
      ultimately have "same_state q ?r" "reqQueue ?r = reqQueue q"
        by (auto simp: same_state_def resend(3) acceptsOf_def preparesOf_def)
      moreover from this have "proposalAt ?r = proposalAt q" "crnd ?r = crnd q" "acceptsOf ?r = acceptsOf q"
          "preparesOf ?r = preparesOf q"
        using same_props_proposer(1) [of q ?r] by (auto simp: same_state_def)
      moreover have "prop_ok gm V L bnd A P i ?r"
        by (rule prop_ok_same [OF q(1)]) (use calculation q(1) in \<open>simp_all add: prop_ok_def\<close>)
      ultimately show ?thesis using q lower by simp
    qed
  qed
  then show ?thesis using True by (simp add: resendAcceptsIfNecessary_def)
qed

section \<open>Sending accepts\<close>

text \<open>The accepts that filling the window adds, and the values they carry.\<close>

lemma filled_accepts:
  assumes "filled p q"
  shows "acceptsOf q = acceptsOf p \<union> {a. \<exists>s\<ge>nextSlot p. s < nextSlot q \<and> proposalAt q s = Some a}"
proof -
  have "{a. MAccept a \<in> payload ` set (map (\<lambda>s. Struct (MAccept (the (proposalAt q s))))
      (slotRange (nextSlot p) (nextSlot q)))} =
      {a. \<exists>s\<ge>nextSlot p. s < nextSlot q \<and> proposalAt q s = Some a}" (is "?L = ?R")
  proof
    have "\<exists>a. proposalAt q s = Some a" if "nextSlot p \<le> s" "s < nextSlot q" for s
      using assms that unfolding filled_def by blast
    then show "?L \<subseteq> ?R" by (fastforce simp: slotRange_iff)
    show "?R \<subseteq> ?L"
    proof
      fix a assume "a \<in> ?R"
      then obtain s where "s \<in> set (slotRange (nextSlot p) (nextSlot q))" "proposalAt q s = Some a"
        by (auto simp: slotRange_iff)
      then show "a \<in> ?L"
        by (auto intro!: image_eqI [of _ payload "Struct (MAccept a)"] rev_image_eqI [of s])
    qed
  qed
  moreover have bc: "mp_bcast q = mp_bcast p @
      map (\<lambda>s. Struct (MAccept (the (proposalAt q s)))) (slotRange (nextSlot p) (nextSlot q))"
    using assms by (simp add: filled_def)
  have "acceptsOf q = acceptsOf p \<union> ?L"
    unfolding acceptsOf_def bc set_append image_Un by blast
  ultimately show ?thesis by simp
qed

lemma filled_prepares:
  assumes "filled p q"
  shows "preparesOf q = preparesOf p"
proof -
  have "mp_bcast q = mp_bcast p @
      map (\<lambda>s. Struct (MAccept (the (proposalAt q s)))) (slotRange (nextSlot p) (nextSlot q))"
    using assms by (simp add: filled_def)
  then show ?thesis by (auto simp: preparesOf_def)
qed

lemma filled_new:
  assumes fill: "filled p q" and s: "nextSlot p \<le> s" "s < nextSlot q"
  shows "\<exists>v. proposalAt q s = Some (acceptFor p s v) \<and> free_value p s v \<and>
    (proposalAt p s = None \<longrightarrow> v \<in> set (reqQueue p))"
proof -
  let ?val = "\<lambda>s. acc_Val (the (proposalAt q s))"
  let ?free = "filter (\<lambda>s. proposalAt p s = None) (slotRange (nextSlot p) (nextSlot q))"
  from fill s obtain v where v: "proposalAt q s = Some (acceptFor p s v)"
      "\<forall>a. proposalAt p s = Some a \<longrightarrow> v = acc_Val a"
    unfolding filled_def by blast
  have queued: "v \<in> set (reqQueue p)" if "proposalAt p s = None"
  proof -
    have "s \<in> set ?free" using that s by (simp add: slotRange_iff)
    then have "?val s \<in> set (map ?val ?free)" unfolding set_map by (rule imageI)
    moreover have "?val s = v" using v(1) by (simp add: acceptFor_def)
    moreover have "reqQueue p = map ?val ?free @ reqQueue q" using fill by (simp add: filled_def)
    then have "set (reqQueue p) = set (map ?val ?free) \<union> set (reqQueue q)" by (simp only: set_append)
    ultimately show ?thesis by blast
  qed
  have "free_value p s v"
    using v(2) by (cases "proposalAt p s") (simp_all add: free_value_def)
  then show ?thesis
    by (intro exI [of _ v] conjI impI v(1) queued)
qed

text \<open>What a proposer may add to the accepts of its current round.\<close>

definition fresh_accepts :: "GrpMgr \<Rightarrow> Value set \<Rightarrow> Learn set \<Rightarrow> (gid \<Rightarrow> ProposerRound) \<Rightarrow> MultiProposer \<Rightarrow>
    Accept set \<Rightarrow> bool" where
  "fresh_accepts gm V L bnd p N \<longleftrightarrow> (\<forall>a\<in>N. acc_Rnd a = crnd p \<and> nextSlot p \<le> acc_Slot a \<and>
     acc_Slot a \<noteq> - 1 \<and> acc_Val a \<in> V \<and> safe_at (quor gm) L bnd (acc_Slot a) (acc_Rnd a) (acc_Val a)) \<and>
     (\<forall>a\<in>N. \<forall>b\<in>N. acc_Slot a = acc_Slot b \<longrightarrow> a = b)"

lemma prop_ok_filled:
  assumes ok: "prop_ok gm V L bnd A P i p" and fin: "phaseOneDone p" and fill: "filled p q"
    and vals: "acc_Val ` A \<subseteq> V"
  shows "prop_ok gm V L bnd (A \<union> acceptsOf q) P i q \<and> preparesOf q = preparesOf p \<and>
    acceptsOf p \<subseteq> acceptsOf q \<and> fresh_accepts gm V L bnd p (acceptsOf q - acceptsOf p)"
proof -
  let ?n = "nextSlot p" and ?n' = "nextSlot q"
  note acc = filled_accepts [OF fill] and prep = filled_prepares [OF fill]
  have same: "mp_id q = mp_id p" "crnd q = crnd p" "mp_adu q = mp_adu p" "phaseOneDone q"
      "handlesLr q = handlesLr p" "wf_proposer q" "?n \<le> ?n'"
    using fill fin by (simp_all add: filled_def core_def)
  have keep: "proposalAt q s = proposalAt p s" if "\<not> (?n \<le> s \<and> s < ?n')" for s
    using fill that unfolding filled_def by blast
  have queue: "set (reqQueue q) \<subseteq> set (reqQueue p)"
  proof -
    have "reqQueue p = map (\<lambda>s. acc_Val (the (proposalAt q s)))
        (filter (\<lambda>s. proposalAt p s = None) (slotRange ?n ?n')) @ reqQueue q"
      using fill by (simp add: filled_def)
    then show ?thesis by (metis Un_upper2 set_append)
  qed
  from ok fin obtain lo where lo: "window_at gm L bnd lo p"
    by (auto simp: prop_ok_def window_ok_def)
  have new: "acc_Slot a = s \<and> acc_Rnd a = crnd p \<and> s \<noteq> - 1 \<and> acc_Val a \<in> V \<and>
      safe_at (quor gm) L bnd s (crnd p) (acc_Val a)"
    if s: "?n \<le> s" "s < ?n'" and a: "proposalAt q s = Some a" for s a
  proof -
    from filled_new [OF fill s] obtain v where v: "proposalAt q s = Some (acceptFor p s v)"
        "free_value p s v" "proposalAt p s = None \<longrightarrow> v \<in> set (reqQueue p)"
      by (elim exE conjE)
    have "v \<in> V"
    proof (cases "proposalAt p s")
      case None
      then show ?thesis using v(3) ok by (auto simp: prop_ok_def)
    next
      case (Some b)
      then have "acc_Val b \<in> acc_Val ` A"
        using ok unfolding prop_ok_def proposals_ok_def by (metis imageI)
      then show ?thesis using Some v(2) vals by (auto simp: free_value_def)
    qed
    moreover have "safe_at (quor gm) L bnd s (crnd p) v"
      using lo s v(2) by (auto simp: window_at_def)
    moreover have "s \<noteq> - 1" using s(2) by (metis word_n1_ge leD)
    ultimately show ?thesis using a v(1) by (auto simp: acceptFor_def)
  qed
  have added: "\<exists>s. ?n \<le> s \<and> s < ?n' \<and> proposalAt q s = Some a" if "a \<in> acceptsOf q - acceptsOf p" for a
    using that acc by blast
  have slot: "?n \<le> acc_Slot a \<and> proposalAt q (acc_Slot a) = Some a \<and> acc_Rnd a = crnd p \<and>
      acc_Slot a \<noteq> - 1 \<and> acc_Val a \<in> V \<and> safe_at (quor gm) L bnd (acc_Slot a) (crnd p) (acc_Val a)"
    if a: "a \<in> acceptsOf q - acceptsOf p" for a
  proof -
    obtain s where s: "?n \<le> s" "s < ?n'" "proposalAt q s = Some a" using added [OF a] by blast
    from new [OF this] s show ?thesis by blast
  qed
  have fresh: "fresh_accepts gm V L bnd p (acceptsOf q - acceptsOf p)"
    unfolding fresh_accepts_def
  proof (intro conjI ballI impI)
    fix a b assume ab: "a \<in> acceptsOf q - acceptsOf p" "b \<in> acceptsOf q - acceptsOf p"
      and "acc_Slot a = acc_Slot b"
    then have "Some a = Some b" using slot [OF ab(1)] slot [OF ab(2)] by metis
    then show "a = b" by simp
  qed (use slot in auto)
  have "window_at gm L bnd lo q"
    unfolding window_at_def same
  proof (intro conjI allI ballI impI)
    show "lo \<le> mp_adu p + 1" using lo by (simp add: window_at_def)
    show "lo \<le> ?n'" using lo same(7) by (auto simp: window_at_def)
  next
    fix s assume s: "lo \<le> s \<and> s < ?n'"
    show "\<exists>a\<in>acceptsOf q. proposalAt q s = Some a"
    proof (cases "?n \<le> s")
      case True
      with s obtain v where "proposalAt q s = Some (acceptFor p s v)" using filled_new [OF fill] by metis
      with True s show ?thesis unfolding acc by blast
    next
      case False
      with lo s obtain a where "a \<in> acceptsOf p" "proposalAt p s = Some a"
        unfolding window_at_def by force
      with False keep [of s] show ?thesis unfolding acc by auto
    qed
  next
    fix a assume a: "a \<in> acceptsOf q" "acc_Rnd a = crnd p"
    have "lo \<le> acc_Slot a \<and> acc_Slot a < ?n' \<and> proposalAt q (acc_Slot a) = Some a"
    proof (cases "a \<in> acceptsOf p")
      case True
      with lo a have "lo \<le> acc_Slot a" "acc_Slot a < ?n" "proposalAt p (acc_Slot a) = Some a"
        by (auto simp: window_at_def)
      moreover from this have "proposalAt q (acc_Slot a) = proposalAt p (acc_Slot a)"
        by (intro keep) auto
      ultimately show ?thesis using same(7) by auto
    next
      case False
      then obtain s where s: "?n \<le> s" "s < ?n'" "proposalAt q s = Some a" using a(1) acc by auto
      with new [OF s] lo show ?thesis by (auto simp: window_at_def)
    qed
    then show "lo \<le> acc_Slot a" "acc_Slot a < ?n'" "proposalAt q (acc_Slot a) = Some a" by simp_all
  next
    fix s v assume s: "?n' \<le> s" and v: "free_value q s v"
    then have "?n \<le> s" "\<not> s < ?n'" using same(7) by auto
    moreover from this have "proposalAt q s = proposalAt p s" by (intro keep) simp
    ultimately show "safe_at (quor gm) L bnd s (crnd p) v"
      using v lo unfolding window_at_def free_value_def by auto
  qed
  then have "window_ok gm L bnd q" unfolding window_ok_def by blast
  moreover have "proposals_ok (A \<union> acceptsOf q) q"
    unfolding proposals_ok_def same
  proof (intro allI impI)
    fix s b assume b: "proposalAt q s = Some b"
    show "(\<exists>a\<in>A \<union> acceptsOf q. acc_Slot a = s \<and> acc_Rnd a = acc_Rnd b \<and> acc_Val a = acc_Val b) \<and>
        acc_Rnd b \<le> crnd p \<and> (\<not> phaseOneDone q \<longrightarrow> acc_Rnd b < crnd p)"
    proof (cases "?n \<le> s \<and> s < ?n'")
      case True
      with new [OF _ _ b] b same(4) show ?thesis unfolding acc by auto
    next
      case False
      then have "proposalAt p s = Some b" using b keep by simp
      moreover have "proposals_ok A p" using ok by (simp add: prop_ok_def)
      ultimately have "\<exists>a\<in>A. acc_Slot a = s \<and> acc_Rnd a = acc_Rnd b \<and> acc_Val a = acc_Val b"
          "acc_Rnd b \<le> crnd p"
        unfolding proposals_ok_def by blast+
      with fin same(4) show ?thesis by blast
    qed
  qed
  moreover have "RndID (acc_Rnd a) = i \<and> acc_Rnd a \<le> crnd p" if "a \<in> acceptsOf q" for a
  proof (cases "a \<in> acceptsOf p")
    case True
    then show ?thesis using ok unfolding prop_ok_def sent_ok_def by blast
  next
    case False
    then show ?thesis using slot [of a] that ok by (simp add: prop_ok_def)
  qed
  then have "sent_ok i q"
    using ok fin same(4) unfolding prop_ok_def sent_ok_def same prep by simp
  ultimately show ?thesis
    using ok same queue acc prep fresh by (auto simp: prop_ok_def)
qed

text \<open>In the code's terms: after \<open>sendAccept\<close>.\<close>

lemma prop_ok_send:
  assumes ok: "prop_ok gm V L bnd A P i p" and fin: "phaseOneDone p" and run: "sendAccept p = Inr q"
    and vals: "acc_Val ` A \<subseteq> V" and bound: "mp_adu p + alpha p \<noteq> - 1"
  shows "prop_ok gm V L bnd (A \<union> acceptsOf q) P i q \<and> preparesOf q = preparesOf p \<and>
    acceptsOf p \<subseteq> acceptsOf q \<and> fresh_accepts gm V L bnd p (acceptsOf q - acceptsOf p)"
proof -
  have wf: "wf_proposer p" using ok by (simp add: prop_ok_def)
  from sendAccept_filled [OF wf bound] run filled_slots
  have "filled p q" by (metis sum.sel(2))
  from prop_ok_filled [OF ok fin this vals] show ?thesis .
qed

text \<open>How the accepts of proposer \<open>i\<close> may grow: safe values, and one accept per slot and round.\<close>

definition accepts_grow :: "GrpMgr \<Rightarrow> Value set \<Rightarrow> Learn set \<Rightarrow> (gid \<Rightarrow> ProposerRound) \<Rightarrow> gid \<Rightarrow>
    Accept set \<Rightarrow> Accept set \<Rightarrow> bool" where
  "accepts_grow gm V L bnd i old new \<longleftrightarrow> old \<subseteq> new \<and> (\<forall>a\<in>new - old. RndID (acc_Rnd a) = i \<and>
     ZeroRound < acc_Rnd a \<and> acc_Slot a \<noteq> - 1 \<and> acc_Val a \<in> V \<and> safe_at (quor gm) L bnd (acc_Slot a) (acc_Rnd a) (acc_Val a) \<and>
     (\<forall>b\<in>new. acc_Slot b = acc_Slot a \<and> acc_Rnd b = acc_Rnd a \<longrightarrow> b = a))"

lemma accepts_grow_refl: "accepts_grow gm V L bnd i old old"
  by (simp add: accepts_grow_def)

lemma accepts_grow_send:
  assumes ok: "prop_ok gm V L bnd A P i p" and fin: "phaseOneDone p" and run: "sendAccept p = Inr q"
    and vals: "acc_Val ` A \<subseteq> V" and bound: "mp_adu p + alpha p \<noteq> - 1"
  shows "accepts_grow gm V L bnd i (acceptsOf p) (acceptsOf q)"
  unfolding accepts_grow_def
proof (intro conjI ballI impI)
  note send = prop_ok_send [OF assms]
  show "acceptsOf p \<subseteq> acceptsOf q" using send by blast
  have id: "RndID (crnd p) = i" "ZeroRound < crnd p" using ok by (simp_all add: prop_ok_def)
  have fresh: "fresh_accepts gm V L bnd p (acceptsOf q - acceptsOf p)" using send by blast
  fix a assume a: "a \<in> acceptsOf q - acceptsOf p"
  then have new: "acc_Rnd a = crnd p" "nextSlot p \<le> acc_Slot a" "acc_Slot a \<noteq> - 1" "acc_Val a \<in> V"
      "safe_at (quor gm) L bnd (acc_Slot a) (acc_Rnd a) (acc_Val a)"
    using fresh unfolding fresh_accepts_def by blast+
  show "acc_Slot a \<noteq> - 1" "acc_Val a \<in> V"
    "safe_at (quor gm) L bnd (acc_Slot a) (acc_Rnd a) (acc_Val a)" by (rule new)+
  show "RndID (acc_Rnd a) = i" "ZeroRound < acc_Rnd a" using new(1) id by simp_all
  fix b assume b: "b \<in> acceptsOf q" "acc_Slot b = acc_Slot a \<and> acc_Rnd b = acc_Rnd a"
  show "b = a"
  proof (cases "b \<in> acceptsOf p")
    case True
    from ok fin obtain lo where "window_at gm L bnd lo p" by (auto simp: prop_ok_def window_ok_def)
    moreover have "acc_Rnd b = crnd p" using b(2) new(1) by simp
    ultimately have "acc_Slot b < nextSlot p" using True unfolding window_at_def by blast
    then show ?thesis using b(2) new(2) by simp
  next
    case False
    then show ?thesis using fresh a b unfolding fresh_accepts_def by blast
  qed
qed

section \<open>Completing Phase 1\<close>

text \<open>The senders of the stored promises are a quorum of acceptors bound to the round.\<close>

definition promising :: "MultiProposer \<Rightarrow> gid set" where
  "promising p = {a. \<exists>m. Some m \<in> set (phaseOnePromises p) \<and> prom_ID m = a}"

lemma promising_quorum:
  assumes stored: "promises_stored P p" and ok: "\<And>m. m \<in> P \<Longrightarrow> promise_ok gm L bnd M m"
    and many: "unat (Quorum gm) \<le> card (promisers p)"
  shows "quor gm (promising p)"
proof -
  let ?g = "\<lambda>i. prom_ID (the (phaseOnePromises p ! i))"
  have stored_at: "\<exists>m. phaseOnePromises p ! i = Some m \<and> m \<in> P \<and> PxInt (prom_ID m) = int i"
    if "i \<in> promisers p" for i
    using that stored unfolding promisers_def promises_stored_def by fastforce
  have "inj_on ?g (promisers p)"
  proof (rule inj_onI)
    fix i j assume "i \<in> promisers p" "j \<in> promisers p" "?g i = ?g j"
    then show "i = j" using stored_at [of i] stored_at [of j] by auto
  qed
  then have "card (?g ` promisers p) = card (promisers p)" by (rule card_image)
  moreover have sub: "?g ` promisers p \<subseteq> promising p"
  proof
    fix a assume "a \<in> ?g ` promisers p"
    then obtain i where i: "i \<in> promisers p" "a = ?g i" by blast
    then obtain m where m: "phaseOnePromises p ! i = Some m" using stored_at by blast
    moreover have "i < length (phaseOnePromises p)" using i by (simp add: promisers_def)
    ultimately have "Some m \<in> set (phaseOnePromises p)" by (metis nth_mem)
    with i(2) m show "a \<in> promising p" by (auto simp: promising_def)
  qed
  moreover have acceptors: "promising p \<subseteq> set (AcceptorIDs (nodeMap gm))"
  proof
    fix a assume "a \<in> promising p"
    then obtain m where "Some m \<in> set (phaseOnePromises p)" "prom_ID m = a" by (auto simp: promising_def)
    moreover from this(1) stored have "m \<in> P"
      unfolding promises_stored_def in_set_conv_nth by metis
    ultimately show "a \<in> set (AcceptorIDs (nodeMap gm))" using ok by (auto simp: promise_ok_def)
  qed
  moreover have "card (?g ` promisers p) \<le> card (promising p)"
    using acceptors by (intro card_mono [OF _ sub]) (rule finite_subset, auto)
  ultimately show ?thesis using many by (simp add: quor_def)
qed

lemma prop_ok_complete:
  assumes ok: "prop_ok gm V L bnd A P i p" and open_: "\<not> phaseOneDone p"
    and proms: "\<And>m. m \<in> P \<Longrightarrow> promise_ok gm L bnd M m"
    and own: "\<And>m. m \<in> M \<Longrightarrow> RndID (prep_CRnd m) = i \<Longrightarrow> m \<in> preparesOf p"
    and disc: "votes_answer L A" "accepts_agree A" "accepts_safe (quor gm) L bnd A"
    and many: "unat (Quorum gm) \<le> card (promisers p)"
    and bound: "unat (mp_adu p) + 2 < 2 ^ 64 - 1"
  defines "q \<equiv> (setStateFromPromises p)\<lparr>phaseOneDone := True, nextSlot := mp_adu p + 1\<rparr>"
  shows "prop_ok gm V L bnd A P i q"
proof -
  let ?new = "proposalAt (setStateFromPromises p)"
  from setStateFromPromises_adopts [of p] obtain sm where sm: "setStateFromPromises p = p\<lparr>mp_slots := sm\<rparr>"
      and wf: "wf_proposer p \<longrightarrow> wf_proposer (setStateFromPromises p)"
      and reads: "reads (mp_adu p) (reported p) (proposalAt p) ?new"
    unfolding adopts_def by blast
  have pr: "proposalAt q = ?new" "wf_proposer q = wf_proposer (setStateFromPromises p)"
    by (simp_all add: q_def proposalAt_def wf_proposer_def fun_eq_iff)
  have sel: "mp_id q = mp_id p" "crnd q = crnd p" "handlesLr q = handlesLr p" "reqQueue q = reqQueue p"
      "mp_adu q = mp_adu p" "phaseOneDone q" "nextSlot q = mp_adu p + 1"
      "preparesOf q = preparesOf p" "acceptsOf q = acceptsOf p"
    by (simp_all add: q_def sm preparesOf_def acceptsOf_def)
  have stored: "promises_stored P p" using ok open_ by (simp add: prop_ok_def)
  have member: "m \<in> P \<and> prom_Rnd m = crnd p" if "Some m \<in> set (phaseOnePromises p)" for m
    using that stored unfolding promises_stored_def in_set_conv_nth by metis
  have Q: "quor gm (promising p)" by (rule promising_quorum [OF stored proms many])
  have bnd: "crnd p \<le> bnd a" if "a \<in> promising p" for a
    using that member proms unfolding promising_def promise_ok_def by fastforce
  have vote: "voted L (prom_ID m) (as_ID e) (VRnd e) (VVal e) \<and> VRnd e < crnd p"
    if "Some m \<in> set (phaseOnePromises p)" "e \<in> set (prom_AccSlots m)" "mp_adu p < as_ID e" for m e
  proof -
    have "e \<noteq> blankAcceptorSlot 0" using that(3) by (auto simp: blankAcceptorSlot_def)
    then show ?thesis using proms [of m] member [OF that(1)] that(2) unfolding promise_ok_def by auto
  qed
  have seen: "\<exists>e\<in>set (prom_AccSlots m). as_ID e = s \<and> r \<le> VRnd e"
    if m: "Some m \<in> set (phaseOnePromises p)" and "mp_adu p < s" "r < crnd p" "voted L (prom_ID m) s r v"
    for m s r v
  proof -
    have mP: "m \<in> P" "prom_Rnd m = crnd p" using member [OF m] by simp_all
    with proms [OF mP(1)] obtain k where k: "k \<in> M" "prep_CRnd k = crnd p"
        "\<And>s r v. prep_Slot k \<le> s \<Longrightarrow> r < crnd p \<Longrightarrow> voted L (prom_ID m) s r v \<Longrightarrow>
          \<exists>e\<in>set (prom_AccSlots m). as_ID e = s \<and> r \<le> VRnd e"
      unfolding promise_ok_def by (metis (no_types, lifting))
    have "k \<in> preparesOf p" using own [OF k(1)] k(2) ok by (simp add: prop_ok_def)
    then have "prep_Slot k \<le> mp_adu p" using ok k(2) unfolding prop_ok_def sent_ok_def by blast
    then show ?thesis using k(3) [OF _ that(3,4)] that(2) by simp
  qed
  have source: "\<exists>a\<in>A. acc_Slot a = s \<and> acc_Rnd a = acc_Rnd b \<and> acc_Val a = acc_Val b \<and> acc_Rnd b < crnd p"
    if b: "?new s = Some b" for s b
  proof (cases "?new s = proposalAt p s")
    case True
    then show ?thesis using b ok open_ unfolding prop_ok_def proposals_ok_def by metis
  next
    case False
    then obtain e where e: "e \<in> reported p" "mp_adu p < s" "as_ID e = s" "?new s = Some (adopted e)"
      using reads unfolding reads_def by metis
    then obtain m where m: "Some m \<in> set (phaseOnePromises p)" "e \<in> set (prom_AccSlots m)"
      by (auto simp: reported_def)
    have v: "voted L (prom_ID m) s (VRnd e) (VVal e)" "VRnd e < crnd p"
      using vote [OF m] e by auto
    from voted_accept [OF disc(1) v(1)] v(2) b e(4) show ?thesis by (auto simp: adopted_def)
  qed
  have safe: "safe_at (quor gm) L bnd s (crnd p) v"
    if s: "mp_adu p < s" and free: "free_value q s v" for s v
  proof -
    have top: "\<exists>b. ?new s = Some b \<and> r \<le> acc_Rnd b"
      if a: "a \<in> promising p" and "r < crnd p" "voted L a s r w" for a r w
    proof -
      obtain m where m: "Some m \<in> set (phaseOnePromises p)" "prom_ID m = a"
        using a by (auto simp: promising_def)
      with seen [OF m(1) s that(2)] that(3) obtain e where
          e: "e \<in> set (prom_AccSlots m)" "as_ID e = s" "r \<le> VRnd e" by blast
      then have "e \<in> reported p" using m(1) by (auto simp: reported_def)
      with reads s e(2) obtain b where "?new s = Some b" "VRnd e \<le> acc_Rnd b"
        unfolding reads_def by blast
      with e(3) show ?thesis by (auto intro: order_trans)
    qed
    show ?thesis
    proof (cases "?new s")
      case None
      show ?thesis
        by (rule no_candidate_safe [where quor = "quor gm" and Q = "promising p", OF Q])
          (use bnd top None in auto)
    next
      case (Some b)
      then obtain c where c: "c \<in> A" "acc_Slot c = s" "acc_Rnd c = acc_Rnd b" "acc_Val c = acc_Val b"
          "acc_Rnd b < crnd p" using source by blast
      have "safe_at (quor gm) L bnd s (crnd p) (acc_Val c)"
      proof (rule candidate_safe [where quor = "quor gm" and Q = "promising p", OF disc Q _ c(1,2)])
        show "crnd p \<le> bnd a" if "a \<in> promising p" for a by (rule bnd [OF that])
        show "acc_Rnd c < crnd p" using c by simp
        show "r \<le> acc_Rnd c" if "a \<in> promising p" "r < crnd p" "voted L a s r w" for a r w
          using top [OF that] Some c(3) by auto
      qed
      then show ?thesis using free Some c(4) by (simp add: free_value_def pr)
    qed
  qed
  have "window_at gm L bnd (mp_adu p + 1) q"
    unfolding window_at_def sel
  proof (intro conjI allI ballI impI)
    fix a assume "a \<in> acceptsOf p" "acc_Rnd a = crnd p"
    moreover from this(1) have "acc_Rnd a < crnd p"
      using ok open_ unfolding prop_ok_def sent_ok_def by blast
    ultimately have False by simp
    then show "mp_adu p + 1 \<le> acc_Slot a" "acc_Slot a < mp_adu p + 1" "proposalAt q (acc_Slot a) = Some a"
      by blast+
  next
    fix s v assume s: "mp_adu p + 1 \<le> s" and free: "free_value q s v"
    have "unat (mp_adu p) < unat (mp_adu p + 1)"
      using bound unat_Suc_word [of "mp_adu p" "- 1"]
      by (simp add: word_less_nat_alt unsigned_minus_1_eq_mask mask_eq_exp_minus_1)
    then have "mp_adu p < s" using s unfolding word_less_nat_alt word_le_nat_alt by linarith
    then show "safe_at (quor gm) L bnd s (crnd p) v" using free by (rule safe)
  qed auto
  moreover have "proposals_ok A q"
    unfolding proposals_ok_def pr sel using source by (meson less_imp_le)
  moreover have "sent_ok i q"
    using ok sel(6) unfolding prop_ok_def sent_ok_def sel by auto
  ultimately show ?thesis
    using ok wf sel(6) unfolding prop_ok_def sel pr window_ok_def by auto
qed

section \<open>One event\<close>

lemma prop_ok_step:
  assumes ok: "prop_ok gm V L bnd A P i p" and conf: "plain_config gm" and bounds: "in_bounds p"
    and step: "proposer_step (nodeGm gm i) e p = Inr q"
    and input: "\<And>m. e = PPromise m \<Longrightarrow> m \<in> P" "\<And>v. e = PPropose v \<Longrightarrow> v \<in> V"
    and proms: "\<And>m. m \<in> P \<Longrightarrow> promise_ok gm L bnd M m"
    and own: "\<And>m. m \<in> M \<Longrightarrow> RndID (prep_CRnd m) = i \<Longrightarrow> m \<in> preparesOf p"
    and disc: "votes_answer L A" "accepts_agree A" "accepts_safe (quor gm) L bnd A"
    and vals: "acc_Val ` A \<subseteq> V"
  shows "prop_ok gm V L bnd (A \<union> acceptsOf q) P i q \<and> preparesOf p \<subseteq> preparesOf q \<and>
    accepts_grow gm V L bnd i (acceptsOf p) (acceptsOf q)"
proof -
  let ?gm = "nodeGm gm i"
  have lr: "\<not> lrEnabled ?gm" and nodes: "unat (NrOfNodes ?gm) < 2 ^ 64 - 1"
    using conf by (simp_all add: plain_config_def NrOfNodes_def)
  have adu: "unat (mp_adu p) + 2 < 2 ^ 64 - 1" and rnd: "unat (Rnd (crnd p)) < 2 ^ 64 - 1"
    and room: "unat (mp_adu p) + unat (alpha p) + 2 < 2 ^ 64 - 1"
    using bounds by (simp_all add: in_bounds_def)
  have id: "mp_id p = i" "RndID (crnd p) = i" "\<not> handlesLr p" using ok by (simp_all add: prop_ok_def)
  have sub: "acceptsOf p \<subseteq> A" using ok by (simp add: prop_ok_def)
  have quiet: ?thesis if "prop_ok gm V L bnd A P i q" "acceptsOf q = acceptsOf p" "preparesOf p \<subseteq> preparesOf q"
  proof -
    have "A \<union> acceptsOf q = A" using sub that(2) by blast
    then show ?thesis using that by (simp add: accepts_grow_refl)
  qed
  have sends: ?thesis if p': "prop_ok gm V L bnd A P i p'" "acceptsOf p' = acceptsOf p"
      "preparesOf p' = preparesOf p" "phaseOneDone p'" "mp_adu p' + alpha p' \<noteq> - 1" "sendAccept p' = Inr q" for p'
    using prop_ok_send [OF p'(1,4,6) vals p'(5)] accepts_grow_send [OF p'(1,4,6) vals p'(5)] p'(2,3) by simp
  have keep: "prop_ok gm V L bnd A P i p'" if "same_state p p'" "set (reqQueue p') \<subseteq> V" for p'
    by (rule prop_ok_same [OF ok that])
  have sums: "mp_adu p + alpha p \<noteq> - 1" "mp_adu p + 1 + alpha p \<noteq> - 1"
    using room by (auto simp: word_unat_eq_iff unat_word_ariths unsigned_minus_1_eq_mask mask_eq_exp_minus_1)
  have queue: "set (reqQueue p) \<subseteq> V" using ok by (simp add: prop_ok_def)
  show ?thesis
  proof (cases e)
    case PNewDcd
    let ?p = "p\<lparr>phaseTwoTimer := True, mp_adu := mp_adu p + 1\<rparr>"
    have "prop_ok gm V L bnd A P i (p\<lparr>phaseTwoTimer := True\<rparr>)"
      by (rule keep) (use queue in \<open>simp_all add: same_state_def preparesOf_def acceptsOf_def\<close>)
    from prop_ok_adu [OF this] adu have p': "prop_ok gm V L bnd A P i ?p" by simp
    have sent: "acceptsOf ?p = acceptsOf p" "preparesOf ?p = preparesOf p"
      by (simp_all add: acceptsOf_def preparesOf_def)
    have split: "q = ?p \<or> phaseOneDone ?p \<and> sendAccept ?p = Inr q"
      using step PNewDcd by (auto simp: Let_def advanceAdu_def isLeaderAndPhaseOneComplete_def split: if_splits)
    then show ?thesis
    proof
      assume "q = ?p"
      then show ?thesis using p' sent by (intro quiet) simp_all
    next
      assume "phaseOneDone ?p \<and> sendAccept ?p = Inr q"
      then show ?thesis using p' sent sums by (intro sends [of ?p]) simp_all
    qed
  next
    case (PPropose v)
    let ?p = "p\<lparr>reqQueue := reqQueue p @ [v]\<rparr>"
    have p': "prop_ok gm V L bnd A P i ?p"
      by (rule keep) (use queue input(2) [OF PPropose] in
          \<open>simp_all add: same_state_def preparesOf_def acceptsOf_def\<close>)
    have sent: "acceptsOf ?p = acceptsOf p" "preparesOf ?p = preparesOf p"
      by (simp_all add: acceptsOf_def preparesOf_def)
    have "q = p \<or> q = ?p \<or> phaseOneDone ?p \<and> sendAccept ?p = Inr q"
      using step PPropose by (auto simp: Let_def split: if_splits)
    then show ?thesis
    proof (elim disjE)
      assume "q = p"
      then show ?thesis using ok by (intro quiet) simp_all
    next
      assume "q = ?p"
      then show ?thesis using p' sent by (intro quiet) simp_all
    next
      assume "phaseOneDone ?p \<and> sendAccept ?p = Inr q"
      then show ?thesis using p' sent sums by (intro sends [of ?p]) simp_all
    qed
  next
    case (PTrust t)
    let ?p = "p\<lparr>mp_leader := t\<rparr>"
    have p': "prop_ok gm V L bnd A P i ?p"
      by (rule keep) (use queue in \<open>simp_all add: same_state_def preparesOf_def acceptsOf_def\<close>)
    have sent: "acceptsOf ?p = acceptsOf p" "preparesOf ?p = preparesOf p"
      by (simp_all add: acceptsOf_def preparesOf_def)
    have "q = p \<or> q = ?p \<or> q = startPhaseOne ?gm True ?p"
      using step PTrust by (auto simp: Let_def split: if_splits)
    then show ?thesis
      using ok p' sent prop_ok_start [OF p' nodes lr, of True] rnd by (elim disjE) (intro quiet; simp)+
  next
    case (PPromise m)
    then obtain b p1 where run: "handleProm ?gm m p = Inr (b, p1)"
        and rest: "if b then sendAccept ((setStateFromPromises p1)\<lparr>phaseOneDone := True,
            nextSlot := mp_adu ((setStateFromPromises p1)\<lparr>phaseOneDone := True\<rparr>) + 1\<rparr>) = Inr q
          else q = p1"
      using step id(3) by (auto simp: Let_def bind_result_Inr_iff handlePromise_def split: if_splits)
    show ?thesis
    proof (cases "phaseOneDone p")
      case True
      then have "b = False" "p1 = p" using run by (simp_all add: handleProm_def)
      then show ?thesis using rest ok by (intro quiet) simp_all
    next
      case False
      have "promises_stored P p" using ok False by (simp add: prop_ok_def)
      from handleProm_stored [OF this run input(1) [OF PPromise]]
      obtain ps c where p1: "p1 = p\<lparr>phaseOnePromises := ps, phaseOneCount := c\<rparr>"
          and stored: "promises_stored P p1" and full: "b \<Longrightarrow> unat (Quorum ?gm) \<le> card (promisers p1)"
        by blast
      have sent: "acceptsOf p1 = acceptsOf p" "preparesOf p1 = preparesOf p"
        by (simp_all add: p1 acceptsOf_def preparesOf_def)
      have pr: "proposalAt p1 = proposalAt p" "wf_proposer p1 = wf_proposer p"
        by (simp_all add: p1 proposalAt_def wf_proposer_def fun_eq_iff)
      have ok1: "prop_ok gm V L bnd A P i p1"
        using ok False stored sent pr unfolding prop_ok_def sent_ok_def proposals_ok_def by (simp add: p1)
      show ?thesis
      proof (cases b)
        case False
        then show ?thesis using rest ok1 sent by (intro quiet) simp_all
      next
        case True
        let ?p2 = "(setStateFromPromises p1)\<lparr>phaseOneDone := True, nextSlot := mp_adu p1 + 1\<rparr>"
        obtain sm where sm: "setStateFromPromises p1 = p1\<lparr>mp_slots := sm\<rparr>"
          using setStateFromPromises_correct by blast
        have run2: "sendAccept ?p2 = Inr q" using rest True sm by simp
        have ok2: "prop_ok gm V L bnd A P i ?p2"
          by (rule prop_ok_complete [OF ok1 _ proms _ disc])
            (use False own full [OF True] adu sent in \<open>simp_all add: p1\<close>)
        show ?thesis
          by (rule sends [OF ok2 _ _ _ _ run2]) (use sent sums in \<open>simp_all add: sm acceptsOf_def preparesOf_def, simp_all add: p1\<close>)
      qed
    qed
  next
    case PPhaseOneTimeout
    let ?p = "p\<lparr>phaseOneTimer := False\<rparr>"
    have p': "prop_ok gm V L bnd A P i ?p"
      by (rule keep) (use queue in \<open>simp_all add: same_state_def preparesOf_def acceptsOf_def\<close>)
    have sent: "acceptsOf ?p = acceptsOf p" "preparesOf ?p = preparesOf p"
      by (simp_all add: acceptsOf_def preparesOf_def)
    have "q = ?p \<or> q = startPhaseOne ?gm True ?p"
      using step PPhaseOneTimeout by (auto simp: Let_def split: if_splits)
    then show ?thesis
      using p' sent prop_ok_start [OF p' nodes lr, of True] rnd by (elim disjE) (intro quiet; simp)+
  next
    case PPhaseTwoTimeout
    let ?p = "p\<lparr>phaseTwoTimer := False\<rparr>"
    have p': "prop_ok gm V L bnd A P i ?p"
      by (rule keep) (use queue in \<open>simp_all add: same_state_def preparesOf_def acceptsOf_def\<close>)
    have sent: "acceptsOf ?p = acceptsOf p" "preparesOf ?p = preparesOf p"
      by (simp_all add: acceptsOf_def preparesOf_def)
    have "in_bounds ?p" using bounds by (simp add: in_bounds_def)
    from prop_ok_resend [OF p' nodes lr this] show ?thesis
      using step PPhaseTwoTimeout sent by (intro quiet) simp_all
  next
    case PGrpHold
    have "SetOwner i (crnd p) = crnd p" using id(2) by (cases "crnd p") (simp add: SetOwner_def)
    then have "same_state p q" "reqQueue q = reqQueue p"
      using step PGrpHold id
      by (auto simp: handleGrpHold_def Let_def same_state_def preparesOf_def acceptsOf_def split: if_splits)
    then show ?thesis
      using keep [of q] queue by (intro quiet) (simp_all add: same_state_def)
  next
    case PStop
    then have "same_state p q" "reqQueue q = reqQueue p"
      using step by (auto simp: same_state_def preparesOf_def acceptsOf_def)
    then show ?thesis
      using keep [of q] queue by (intro quiet) (simp_all add: same_state_def)
  qed
qed

end
