(* ===== verification/Agreement.thy ===== *)
theory Agreement
  imports ProposerSafety
begin

text \<open>
  Agreement of a MultiPaxos cluster: the invariant of its reachable states, and what it gives for
  the values the learners learn and deliver.
\<close>

section \<open>The invariant\<close>

definition votes_ok :: "GrpMgr \<Rightarrow> Value set \<Rightarrow> System \<Rightarrow> bool" where
  "votes_ok gm V S \<longleftrightarrow> votes_answer (learns S) (accepts S) \<and> accepts_agree (accepts S) \<and>
     accepts_safe (quor gm) (learns S) (bound S) (accepts S) \<and>
     lrn_ID ` learns S \<subseteq> set (AcceptorIDs (nodeMap gm)) \<and>
     (\<forall>a\<in>accepts S. ZeroRound < acc_Rnd a \<and> acc_Slot a \<noteq> - 1 \<and> acc_Val a \<in> V)"

definition sys_inv :: "GrpMgr \<Rightarrow> Value set \<Rightarrow> System \<Rightarrow> bool" where
  "sys_inv gm V S \<longleftrightarrow> votes_ok gm V S \<and> (\<forall>a. acc_local a (accs S a)) \<and>
     (\<forall>p\<in>promises S. promise_ok gm (learns S) (bound S) (prepares S) p) \<and>
     (\<forall>i. prop_ok gm V (learns S) (bound S) (accepts S) (promises S) i (props S i))"

lemma sent_messages [simp]:
  "learns (S\<lparr>props := f\<rparr>) = learns S" "promises (S\<lparr>props := f\<rparr>) = promises S"
  "bound (S\<lparr>props := f\<rparr>) = bound S" "cuResponses (S\<lparr>props := f\<rparr>) = cuResponses S"
  "accepts (S\<lparr>accs := g\<rparr>) = accepts S" "prepares (S\<lparr>accs := g\<rparr>) = prepares S"
  "cuResponses (S\<lparr>accs := g\<rparr>) = cuResponses S"
  "learns (S\<lparr>lrns := h\<rparr>) = learns S" "promises (S\<lparr>lrns := h\<rparr>) = promises S"
  "bound (S\<lparr>lrns := h\<rparr>) = bound S" "accepts (S\<lparr>lrns := h\<rparr>) = accepts S"
  "prepares (S\<lparr>lrns := h\<rparr>) = prepares S"
  by (simp_all add: learns_def promises_def bound_def cuResponses_def accepts_def prepares_def fun_eq_iff)

text \<open>When one node's messages grow, so do those of all.\<close>

lemma UN_update_grow:
  assumes "F (h i) \<subseteq> F q"
  shows "(\<Union>j. F ((h(i := q)) j)) = (\<Union>j. F (h j)) \<union> F q"
proof
  show "(\<Union>j. F ((h(i := q)) j)) \<subseteq> (\<Union>j. F (h j)) \<union> F q" by (auto split: if_splits)
  have "F q = F ((h(i := q)) i)" by simp
  then have "F q \<subseteq> (\<Union>j. F ((h(i := q)) j))" by blast
  moreover have "F (h j) \<subseteq> (\<Union>j. F ((h(i := q)) j))" for j
  proof (cases "j = i")
    case True
    then show ?thesis using assms calculation by blast
  next
    case False
    then have "F (h j) = F ((h(i := q)) j)" by simp
    then show ?thesis by blast
  qed
  ultimately show "(\<Union>j. F (h j)) \<union> F q \<subseteq> (\<Union>j. F ((h(i := q)) j))" by blast
qed

lemma sys_inv_initial:
  assumes conf: "plain_config gm"
  shows "sys_inv gm V (initial gm leader alph first)"
proof -
  let ?S = "initial gm leader alph first"
  have none: "sentLearns (accs ?S a) = {}" "sentPromises (accs ?S a) = {}" for a
    by (simp_all add: initial_def NewMultiAcceptor_def sentLearns_def sentPromises_def)
  have sent: "preparesOf (props ?S i) = {}" "acceptsOf (props ?S i) = {}" for i
    by (simp_all add: initial_def NewMultiProposer_def preparesOf_def acceptsOf_def)
  have empty: "learns ?S = {}" "promises ?S = {}" "prepares ?S = {}" "accepts ?S = {}"
    by (simp_all add: learns_def promises_def prepares_def accepts_def none sent)
  have "acc_local a (accs ?S a)" for a
  proof -
    have "fst (votes (ballotOf (ma_slots (accs ?S a))) s) = ZeroRound" for s
      by (simp add: initial_def NewMultiAcceptor_def ballotOf_def asm.view_def NewAcceptorSlotMap_def
          blankAcceptorSlot_def)
    moreover have "acceptor_inv (accs ?S a)" using NewMultiAcceptor_inv by (simp add: initial_def)
    moreover have "ma_id (accs ?S a) = a" "ma_mode (accs ?S a) = PlainMode"
      using conf by (simp_all add: initial_def NewMultiAcceptor_def modeOf_def plain_config_def)
    ultimately show ?thesis by (simp add: acc_local_def none)
  qed
  moreover have "prop_ok gm V {} (bound ?S) {} {} i (props ?S i)" for i
  proof -
    let ?p = "props ?S i"
    have "proposalAt ?p s = None" "ps_ID (psm.view (mp_slots ?p) s) = s" for s
      by (simp_all add: initial_def NewMultiProposer_def proposalAt_def NewProposerSlotMap_def psm.view_def
          blankProposerSlot_def)
    moreover have "promises_stored {} ?p"
      by (rule promises_stored_reset) (simp_all add: initial_def NewMultiProposer_def)
    ultimately show ?thesis
      using conf unfolding prop_ok_def sent sent_ok_def proposals_ok_def wf_proposer_def
      by (auto simp: initial_def NewMultiProposer_def NewProposerRound_def plain_config_def ZeroRound_def
          round_less_iff)
  qed
  ultimately show ?thesis
    by (simp add: sys_inv_def votes_ok_def empty votes_answer_def accepts_agree_def accepts_safe_def)
qed

section \<open>A step of a proposer\<close>

lemma sys_inv_proposer:
  assumes inv: "sys_inv gm V S" and conf: "plain_config gm" and input: "prop_input V S e"
    and bounds: "in_bounds (props S i)" and step: "proposer_step (nodeGm gm i) e (props S i) = Inr q"
  shows "sys_inv gm V (S\<lparr>props := (props S)(i := q)\<rparr>)"
proof -
  let ?p = "props S i" and ?S = "S\<lparr>props := (props S)(i := q)\<rparr>"
  let ?L = "learns S" and ?b = "bound S" and ?A = "accepts S" and ?P = "promises S" and ?M = "prepares S"
  from inv have v: "votes_ok gm V S" and acc: "\<And>a. acc_local a (accs S a)"
      and proms: "\<And>p. p \<in> ?P \<Longrightarrow> promise_ok gm ?L ?b ?M p"
      and props: "\<And>j. prop_ok gm V ?L ?b ?A ?P j (props S j)"
    by (auto simp: sys_inv_def)
  have disc: "votes_answer ?L ?A" "accepts_agree ?A" "accepts_safe (quor gm) ?L ?b ?A"
    using v by (simp_all add: votes_ok_def)
  have owner: "j = k" if "m \<in> preparesOf (props S j)" "RndID (prep_CRnd m) = k" for m j k
    using props [of j] that unfolding prop_ok_def sent_ok_def by auto
  have owner': "j = k" if "a \<in> acceptsOf (props S j)" "RndID (acc_Rnd a) = k" for a j k
    using props [of j] that unfolding prop_ok_def sent_ok_def by auto
  have own: "m \<in> preparesOf ?p" if "m \<in> ?M" "RndID (prep_CRnd m) = i" for m
    using that owner unfolding prepares_def by auto
  have input': "m \<in> ?P" if "e = PPromise m" for m using input that by simp
  have input'': "v \<in> V" if "e = PPropose v" for v using input that by simp
  have vals: "acc_Val ` ?A \<subseteq> V" using v by (auto simp: votes_ok_def)
  note one = prop_ok_step [OF props conf bounds step input' input'' proms own disc vals]
  then have grow: "accepts_grow gm V ?L ?b i (acceptsOf ?p) (acceptsOf q)"
      and q: "prop_ok gm V ?L ?b (?A \<union> acceptsOf q) ?P i q" and more: "preparesOf ?p \<subseteq> preparesOf q" by blast+
  have A: "accepts ?S = ?A \<union> acceptsOf q"
    using UN_update_grow [of acceptsOf "props S" i q] grow by (simp add: accepts_def accepts_grow_def)
  have M: "?M \<subseteq> prepares ?S"
    using UN_update_grow [of preparesOf "props S" i q] more by (simp add: prepares_def)
  have fresh: "RndID (acc_Rnd a) = i \<and> ZeroRound < acc_Rnd a \<and> acc_Slot a \<noteq> - 1 \<and> acc_Val a \<in> V \<and>
      safe_at (quor gm) ?L ?b (acc_Slot a) (acc_Rnd a) (acc_Val a) \<and>
      (\<forall>b\<in>acceptsOf q. acc_Slot b = acc_Slot a \<and> acc_Rnd b = acc_Rnd a \<longrightarrow> b = a)"
    if "a \<in> acceptsOf q" "a \<notin> ?A" for a
  proof -
    have "a \<in> acceptsOf q - acceptsOf ?p" using that by (auto simp: accepts_def)
    then show ?thesis using grow unfolding accepts_grow_def by blast
  qed
  have same: "acc_Val a = acc_Val b"
    if ab: "a \<in> accepts ?S" "b \<in> accepts ?S" "acc_Slot a = acc_Slot b" "acc_Rnd a = acc_Rnd b" "a \<notin> ?A" for a b
  proof -
    have a: "a \<in> acceptsOf q" using ab A by simp
    have "b \<in> acceptsOf q"
    proof (cases "b \<in> ?A")
      case True
      then have "b \<in> acceptsOf ?p"
        using fresh [OF a ab(5)] ab(4) owner' unfolding accepts_def by auto
      then show ?thesis using grow by (auto simp: accepts_grow_def)
    next
      case False
      then show ?thesis using ab(2) A by simp
    qed
    then have "b = a" using fresh [OF a ab(5)] ab(3,4) by simp
    then show ?thesis by simp
  qed
  have agree: "accepts_agree (accepts ?S)"
    unfolding accepts_agree_def
  proof (intro ballI impI)
    fix a b assume ab: "a \<in> accepts ?S" "b \<in> accepts ?S" "acc_Slot a = acc_Slot b \<and> acc_Rnd a = acc_Rnd b"
    consider "a \<notin> ?A" | "b \<notin> ?A" | "a \<in> ?A" "b \<in> ?A" by blast
    then show "acc_Val a = acc_Val b"
    proof cases
      case 1
      then show ?thesis using same [OF ab(1,2)] ab(3) by simp
    next
      case 2
      then show ?thesis using same [OF ab(2,1)] ab(3) by simp
    next
      case 3
      then show ?thesis using disc(2) ab(3) unfolding accepts_agree_def by blast
    qed
  qed
  have split_accepts: "a \<in> ?A \<or> a \<in> acceptsOf q \<and> a \<notin> ?A" if "a \<in> accepts ?S" for a
    using that A by blast
  have "votes_ok gm V ?S"
    unfolding votes_ok_def
  proof (intro conjI ballI agree)
    show "votes_answer (learns ?S) (accepts ?S)" using disc(1) A by (auto simp: votes_answer_def)
    show "accepts_safe (quor gm) (learns ?S) (bound ?S) (accepts ?S)"
      using disc(3) fresh split_accepts unfolding accepts_safe_def by (metis sent_messages(1,3))
    show "lrn_ID ` learns ?S \<subseteq> set (AcceptorIDs (nodeMap gm))" using v by (simp add: votes_ok_def)
    fix a assume "a \<in> accepts ?S"
    then show "ZeroRound < acc_Rnd a" "acc_Slot a \<noteq> - 1" "acc_Val a \<in> V"
      using split_accepts fresh v unfolding votes_ok_def by blast+
  qed
  moreover have "promise_ok gm (learns ?S) (bound ?S) (prepares ?S) p" if "p \<in> promises ?S" for p
    using promise_ok_mono [OF proms _ M] that by simp
  moreover have "prop_ok gm V (learns ?S) (bound ?S) (accepts ?S) (promises ?S) j (props ?S j)" for j
    using q prop_ok_mono [OF props, of ?L ?b "accepts ?S" ?P j] A by auto
  ultimately show ?thesis using acc unfolding sys_inv_def by simp
qed

section \<open>A step of an acceptor\<close>

text \<open>A new promise tells the truth about its sender's votes.\<close>

lemma new_promise_ok:
  assumes loc: "acc_local a x" and mem: "a \<in> set (AcceptorIDs (nodeMap gm))"
    and id: "prom_ID p = a" "prom_Rnd p = prep_CRnd m" "prom_Rnd p \<le> bnd a"
    and low: "promised (ballotOf (ma_slots x)) < prom_Rnd p"
    and rep: "reports (prep_Slot m) (ballotOf (ma_slots x)) (prom_AccSlots p)" and m: "m \<in> M"
    and L: "sentLearns x \<subseteq> L" "\<And>l. l \<in> L \<Longrightarrow> lrn_ID l = a \<Longrightarrow> l \<in> sentLearns x"
    and pos: "\<And>l. l \<in> L \<Longrightarrow> ZeroRound < lrn_Rnd l"
  shows "promise_ok gm L bnd M p"
proof -
  let ?b = "ballotOf (ma_slots x)"
  from loc have inv: "acceptor_inv x"
      and sent: "\<And>s. ZeroRound < fst (votes ?b s) \<Longrightarrow> voted (sentLearns x) a s (fst (votes ?b s)) (snd (votes ?b s))"
    by (auto simp: acc_local_def)
  then have ok: "fst (votes ?b s) \<le> promised ?b" for s
    using wf_acceptorSlots_ok [of "ma_slots x"] by (simp add: acceptor_inv_def ballot_ok_def)
  have entry: "e = blankAcceptorSlot 0 \<or> voted L a (as_ID e) (VRnd e) (VVal e) \<and> VRnd e < prom_Rnd p"
    if "e \<in> set (prom_AccSlots p)" for e
  proof (cases "e = blankAcceptorSlot 0")
    case False
    then have e: "ZeroRound < VRnd e" "(VRnd e, VVal e) = votes ?b (as_ID e)"
      using rep that unfolding reports_def by blast+
    then have "voted (sentLearns x) a (as_ID e) (VRnd e) (VVal e)" "VRnd e \<le> promised ?b"
      using sent [of "as_ID e"] ok [of "as_ID e"] by (metis fst_conv snd_conv)+
    then show ?thesis using voted_subset [OF _ L(1)] low by auto
  qed simp
  have found: "\<exists>e\<in>set (prom_AccSlots p). as_ID e = s \<and> r \<le> VRnd e"
    if s: "prep_Slot m \<le> s" and "voted L a s r v" for s r v
  proof -
    from that(2) obtain l where l: "l \<in> L" "lrn_ID l = a" "lrn_Slot l = s" "lrn_Rnd l = r"
      by (auto simp: voted_def)
    then have "learn_below ?b l" using inv L(2) by (simp add: acceptor_inv_def)
    then have below: "r \<le> fst (votes ?b s)" using l by (simp add: learn_below_def)
    moreover have "ZeroRound < r" using pos [OF l(1)] l(4) by simp
    ultimately have "ZeroRound < fst (votes ?b s)" by simp
    then obtain e where "e \<in> set (prom_AccSlots p)" "as_ID e = s" "(VRnd e, VVal e) = votes ?b s"
      using rep s unfolding reports_def by blast
    with below show ?thesis by (metis fst_conv)
  qed
  show ?thesis
    unfolding promise_ok_def id(1)
  proof (intro conjI ballI mem)
    show "prom_Rnd p \<le> bnd a" by (rule id)
    show "\<exists>m\<in>M. prep_CRnd m = prom_Rnd p \<and> (\<forall>s\<ge>prep_Slot m. \<forall>r<prom_Rnd p. \<forall>v. voted L a s r v \<longrightarrow>
        (\<exists>e\<in>set (prom_AccSlots p). as_ID e = s \<and> r \<le> VRnd e))"
      using m id(2) found by (intro bexI [of _ m]) auto
  qed (use entry in auto)
qed

lemma sys_inv_acceptor:
  assumes inv: "sys_inv gm V S" and input: "acc_input S f" and mem: "i \<in> set (AcceptorIDs (nodeMap gm))"
    and step: "acceptor_step (nodeGm gm i) f (accs S i) = Inr y"
  shows "sys_inv gm V (S\<lparr>accs := (accs S)(i := y)\<rparr>)"
proof -
  let ?x = "accs S i" and ?S = "S\<lparr>accs := (accs S)(i := y)\<rparr>"
  let ?L = "learns S" and ?b = "bound S" and ?A = "accepts S" and ?P = "promises S" and ?M = "prepares S"
  from inv have v: "votes_ok gm V S" and acc: "\<And>a. acc_local a (accs S a)"
      and proms: "\<And>p. p \<in> ?P \<Longrightarrow> promise_ok gm ?L ?b ?M p"
      and props: "\<And>j. prop_ok gm V ?L ?b ?A ?P j (props S j)"
    by (auto simp: sys_inv_def)
  note one = acc_local_step [OF acc step]
  have y: "acc_local i y" and Lsub: "sentLearns ?x \<subseteq> sentLearns y"
      and Psub: "sentPromises ?x \<subseteq> sentPromises y"
      and up: "promised (ballotOf (ma_slots ?x)) \<le> promised (ballotOf (ma_slots y))"
      and newL: "\<And>l. l \<in> sentLearns y - sentLearns ?x \<Longrightarrow>
        \<exists>m. f = AAccept m \<and> answers l m \<and> promised (ballotOf (ma_slots ?x)) \<le> lrn_Rnd l"
      and newP: "\<And>p. p \<in> sentPromises y - sentPromises ?x \<Longrightarrow>
        \<exists>m. f = APrepare m \<and> sentLearns y = sentLearns ?x \<and> prom_Rnd p = prep_CRnd m \<and>
          promised (ballotOf (ma_slots ?x)) < prom_Rnd p \<and> promised (ballotOf (ma_slots y)) = prom_Rnd p \<and>
          reports (prep_Slot m) (ballotOf (ma_slots ?x)) (prom_AccSlots p)"
    using one by simp_all
  have L: "learns ?S = ?L \<union> sentLearns y" and P: "promises ?S = ?P \<union> sentPromises y"
    using UN_update_grow [of sentLearns "accs S" i y] Lsub UN_update_grow [of sentPromises "accs S" i y] Psub
    by (simp_all add: learns_def promises_def)
  have bnd: "bound ?S = ?b(i := promised (ballotOf (ma_slots y)))"
    by (simp add: bound_def fun_eq_iff)
  have lid: "lrn_ID l = j" if "l \<in> sentLearns (accs S j)" for l j
    using acc [of j] that by (simp add: acc_local_def)
  have yid: "lrn_ID l = i" "prom_ID p = i" if "l \<in> sentLearns y" "p \<in> sentPromises y" for l p
    using y that by (simp_all add: acc_local_def)
  have freshL: "\<exists>m\<in>?A. answers l m \<and> lrn_ID l = i \<and> promised (ballotOf (ma_slots ?x)) \<le> lrn_Rnd l"
    if "l \<in> learns ?S - ?L" for l
  proof -
    from that L have "l \<in> sentLearns y - sentLearns ?x" by (auto simp: learns_def)
    from newL [OF this] this y input show ?thesis by (auto simp: acc_local_def)
  qed
  have grow: "grows ?L ?b (learns ?S) (bound ?S)"
    unfolding grows_def
  proof (intro conjI allI ballI)
    show "?L \<subseteq> learns ?S" using L by simp
    show "?b a \<le> bound ?S a" for a using up by (simp add: bnd) (simp add: bound_def)
    show "?b (lrn_ID l) \<le> lrn_Rnd l" if "l \<in> learns ?S - ?L" for l
      using freshL [OF that] by (auto simp: bound_def)
  qed
  have acc': "acc_local a (accs ?S a)" for a using acc y by simp
  have v': "votes_ok gm V ?S"
    unfolding votes_ok_def
  proof (intro conjI)
    show "votes_answer (learns ?S) (accepts ?S)"
      unfolding votes_answer_def
    proof
      fix l assume l: "l \<in> learns ?S"
      show "\<exists>a\<in>accepts ?S. answers l a"
        using freshL [of l] l v by (cases "l \<in> ?L") (auto simp: votes_ok_def votes_answer_def)
    qed
    show "accepts_safe (quor gm) (learns ?S) (bound ?S) (accepts ?S)"
      using v safe_at_mono [OF _ grow] unfolding votes_ok_def accepts_safe_def by simp
    show "lrn_ID ` learns ?S \<subseteq> set (AcceptorIDs (nodeMap gm))"
    proof
      fix a assume "a \<in> lrn_ID ` learns ?S"
      then obtain l where l: "l \<in> learns ?S" "a = lrn_ID l" by blast
      then show "a \<in> set (AcceptorIDs (nodeMap gm))"
        using freshL [of l] mem v by (cases "l \<in> ?L") (auto simp: votes_ok_def)
    qed
  qed (use v in \<open>simp_all add: votes_ok_def\<close>)
  have pos: "ZeroRound < lrn_Rnd l" if l: "l \<in> learns ?S" for l
  proof -
    obtain a where "a \<in> accepts ?S" "answers l a"
      using v' l unfolding votes_ok_def votes_answer_def by blast
    then show ?thesis using v' by (auto simp: votes_ok_def answers_def)
  qed
  have "promise_ok gm (learns ?S) (bound ?S) (prepares ?S) p" if p: "p \<in> promises ?S" for p
  proof (cases "p \<in> ?P")
    case True
    show ?thesis using promise_ok_mono [OF proms [OF True] grow, of ?M] by simp
  next
    case False
    with p P have pn: "p \<in> sentPromises y - sentPromises ?x" by (auto simp: promises_def)
    then obtain m where m: "f = APrepare m" "sentLearns y = sentLearns ?x" "prom_Rnd p = prep_CRnd m"
        "promised (ballotOf (ma_slots ?x)) < prom_Rnd p" "promised (ballotOf (ma_slots y)) = prom_Rnd p"
        "reports (prep_Slot m) (ballotOf (ma_slots ?x)) (prom_AccSlots p)"
      using newP by blast
    have "learns ?S = ?L" using L m(2) by (auto simp: learns_def)
    moreover have "l \<in> sentLearns ?x" if "l \<in> ?L" "lrn_ID l = i" for l
      using that lid unfolding learns_def by auto
    moreover have "prom_ID p = i" using pn y by (simp add: acc_local_def)
    moreover have "m \<in> ?M" using input m(1) by simp
    ultimately show ?thesis
      using pos m(4-6)
      by (intro new_promise_ok [OF acc mem _ m(3) _ m(4,6)]) (auto simp: bnd learns_def)
  qed
  moreover have "prop_ok gm V (learns ?S) (bound ?S) (accepts ?S) (promises ?S) j (props ?S j)" for j
    using prop_ok_mono [OF props grow, of ?A "promises ?S" j] P by auto
  ultimately show ?thesis using v' acc' by (simp add: sys_inv_def)
qed

end
