(* ===== verification/Cluster.thy ===== *)
theory Cluster
  imports Agreement "HOL-Library.Sublist"
begin

text \<open>
  The learners of a MultiPaxos cluster: what they learn was voted for by a quorum of the
  acceptors, so they agree, deliver prefixes of one sequence, and deliver clients' values only.
\<close>

section \<open>What a learner sends\<close>

lemma deliverLoop_ucast: "\<not> ml_lr l \<Longrightarrow> ml_ucast (deliverLoop l) = ml_ucast l"
proof (induction l rule: deliverLoop.induct)
  case (1 l)
  obtain d l' where adv: "advanceOne l = (d, l')" by (cases "advanceOne l")
  then have l': "ml_ucast l' = ml_ucast l" "\<not> ml_lr l'"
    using "1.prems" by (auto simp: advanceOne_def adv_def Let_def split: prod.splits if_splits)
  show ?case
  proof (cases d)
    case None
    then show ?thesis using adv l' by (simp add: deliverLoop.simps [of l])
  next
    case (Some y)
    then show ?thesis
      using adv l' "1.IH" [OF adv [symmetric] Some, of "fst y" "snd y"]
      by (cases y) (simp add: deliverLoop.simps [of l])
  qed
qed

lemma learn_ucast:
  "\<not> ml_lr l \<Longrightarrow> handleLearn gm m l = Inr (d, l') \<Longrightarrow> ml_ucast l' = ml_ucast l \<and> \<not> ml_lr l'"
  "\<not> ml_lr l \<Longrightarrow> learnValue d l = Inr (r, l') \<Longrightarrow> ml_ucast l' = ml_ucast l \<and> \<not> ml_lr l'"
  "\<not> ml_lr l \<Longrightarrow> genCatchUpReq s l = (c, l') \<Longrightarrow> ml_ucast l' = ml_ucast l \<and> \<not> ml_lr l'"
  "\<not> ml_lr l \<Longrightarrow> handleCatchUpReq q l = (x, l') \<Longrightarrow> ml_ucast l' = ml_ucast l \<and> \<not> ml_lr l'"
  "\<not> ml_lr l \<Longrightarrow> ml_ucast (handleCatchUpResp p l) = ml_ucast l \<and> \<not> ml_lr (handleCatchUpResp p l)"
  by (auto simp: handleLearn_def handleLrn_def learnValue_def learnVal_def genCatchUpReq_def
      getUndecidedSlots_def getUndecSlots_def handleCatchUpReq_def handleCUReq_def
      handleCatchUpResp_def handleCUResp_def Let_def bind_result_Inr_iff
      split: prod.splits if_splits option.splits)

text \<open>A response a learner sends holds the decided slots it knows.\<close>

lemma learner_step_responses:
  assumes lr: "\<not> ml_lr l" and wf: "wf_learner l" and step: "learner_step gm e l = Inr l'"
    and resp: "c \<in> responsesOf l'" "c \<notin> responsesOf l"
  shows "\<exists>rs. cresp_Vals c = responses (decidedAt l) (storedVal l) rs"
proof (cases e)
  case (LLearn m)
  from step LLearn obtain d l1 adv su cs l2 where one: "handleLearn gm m l = Inr (d, l1)"
      "learnValue d l1 = Inr ((adv, su, cs), l2)"
    by (auto simp: bind_result_Inr_iff)
  have l2: "ml_ucast l2 = ml_ucast l" "\<not> ml_lr l2"
    using learn_ucast(1) [OF lr one(1)] learn_ucast(2) [OF _ one(2)] by simp_all
  consider "l' = deliverLoop l2" | "l' = l2"
    | cr dest l3 where "genCatchUpReq cs (l2\<lparr>catchUpInProgress := True\<rparr>) = ((cr, dest), l3)"
      "l' = lrn_send (Pointer (MCatchUpRequest cr)) dest l3"
    using step LLearn one
    by (cases "genCatchUpReq cs (l2\<lparr>catchUpInProgress := True\<rparr>)") (auto simp: Let_def split: if_splits)
  then have "responsesOf l' = responsesOf l"
  proof cases
    case 1
    then show ?thesis using deliverLoop_ucast [OF l2(2)] l2 by (simp add: responsesOf_def)
  next
    case 2
    then show ?thesis using l2 by (simp add: responsesOf_def)
  next
    case 3
    then show ?thesis using learn_ucast(3) [OF _ 3(1)] l2 by (simp add: responsesOf_def lrn_send_def)
  qed
  then show ?thesis using resp by simp
next
  case (LCatchUpRequest q)
  obtain r d l1 where one: "handleCatchUpReq q l = ((r, d), l1)" by (cases "handleCatchUpReq q l") auto
  then have "l' = lrn_send (Pointer (MCatchUpResponse r)) d l1" using step LCatchUpRequest by simp
  then have "responsesOf l' = insert r (responsesOf l)"
    using learn_ucast(4) [OF lr one] by (auto simp: responsesOf_def lrn_send_def)
  then have "c = r" using resp by simp
  then show ?thesis using handleCatchUpReq_eq [OF wf one] by blast
next
  case (LCatchUpResponse r)
  then have "l' = deliverLoop (handleCatchUpResp r l\<lparr>catchUpInProgress := False\<rparr>)"
    using step by simp
  then have "responsesOf l' = responsesOf l"
    using learn_ucast(5) [OF lr, of r]
      deliverLoop_ucast [of "handleCatchUpResp r l\<lparr>catchUpInProgress := False\<rparr>"]
    by (simp add: responsesOf_def)
  then show ?thesis using resp by simp
next
  case (LTrust t)
  then have "ml_ucast l' = ml_ucast l" using step by auto
  then have "responsesOf l' = responsesOf l" by (simp add: responsesOf_def)
  then show ?thesis using resp by simp
next
  case LGrpHold
  then have "ml_ucast l' = ml_ucast l" using step by (auto simp: lrn_handleGrpHold_def)
  then have "responsesOf l' = responsesOf l" by (simp add: responsesOf_def)
  then show ?thesis using resp by simp
next
  case LStop
  then have "ml_ucast l' = ml_ucast l" using step by auto
  then have "responsesOf l' = responsesOf l" by (simp add: responsesOf_def)
  then show ?thesis using resp by simp
qed

section \<open>The invariant of the learners\<close>

definition lrn_inv :: "GrpMgr \<Rightarrow> SlotID \<Rightarrow> System \<Rightarrow> bool" where
  "lrn_inv gm first S \<longleftrightarrow>
     (\<forall>i. counts_inv (nodeGm gm i) (learns S) {} (lrns S i) \<and> learner_inv first (lrns S i)) \<and>
     (\<forall>c\<in>cuResponses S. \<forall>t\<in>set (cresp_Vals c).
        backed (learns S) (unat (Quorum gm)) (resp_Slot t) (resp_Val t))"

lemma lrn_inv_initial:
  assumes "plain_config gm"
  shows "lrn_inv gm first (initial gm leader alph first)"
proof -
  let ?S = "initial gm leader alph first"
  have "responsesOf (lrns ?S i) = {}" for i
    by (simp add: initial_def NewMultiLearner_def responsesOf_def)
  then have "cuResponses ?S = {}" by (simp add: cuResponses_def)
  moreover have "counts_inv (nodeGm gm i) (learns ?S) {} (lrns ?S i) \<and> learner_inv first (lrns ?S i)" for i
    using assms NewMultiLearner_counts [of "nodeGm gm i"] NewMultiLearner_inv
    by (simp add: initial_def plain_config_def)
  ultimately show ?thesis by (simp add: lrn_inv_def)
qed

lemma lrn_inv_mono:
  assumes "lrn_inv gm first S" and "lrns S' = lrns S" and "learns S \<subseteq> learns S'"
  shows "lrn_inv gm first S'"
proof -
  have "cuResponses S' = cuResponses S" by (simp add: cuResponses_def assms(2))
  then show ?thesis
    using assms counts_inv_mono [OF _ assms(3)] backed_mono [OF _ assms(3)]
    unfolding lrn_inv_def by auto
qed

lemma quorum_positive: "plain_config gm \<Longrightarrow> 0 < unat (Quorum gm)"
  using unat_quorum [of "nodeMap gm"] by (simp add: plain_config_def quorum_config_def Quorum_def)

lemma backed_learn: "backed L q s v \<Longrightarrow> \<exists>l\<in>L. lrn_Slot l = s \<and> lrn_Val l = v"
  unfolding backed_def by blast

lemma lrn_inv_learner:
  assumes inv: "lrn_inv gm first S" and votes: "votes_ok gm V S" and conf: "plain_config gm"
    and input: "lrn_input S g" and step: "learner_step (nodeGm gm i) g (lrns S i) = Inr l"
  shows "lrn_inv gm first (S\<lparr>lrns := (lrns S)(i := l)\<rparr>)"
proof -
  let ?S = "S\<lparr>lrns := (lrns S)(i := l)\<rparr>" and ?L = "learns S" and ?gm = "nodeGm gm i"
  have slot: "lrn_Slot m \<noteq> - 1" if "m \<in> ?L" for m
    using that votes unfolding votes_ok_def votes_answer_def answers_def by metis
  from inv have counts: "counts_inv ?gm ?L {} (lrns S i)" and lin: "learner_inv first (lrns S i)"
      and resps: "\<And>c t. c \<in> cuResponses S \<Longrightarrow> t \<in> set (cresp_Vals c) \<Longrightarrow>
        backed ?L (unat (Quorum gm)) (resp_Slot t) (resp_Val t)"
    by (auto simp: lrn_inv_def)
  have nodes: "unat (NrOfNodes ?gm) < 2 ^ 64 - 1"
    using conf by (simp add: plain_config_def NrOfNodes_def)
  have accounted: "accounted ?gm ?L {} g" using input resps by (cases g) auto
  have below: "below_last_slot g"
    using input slot resps backed_learn by (cases g) (auto, metis)
  have new: "counts_inv ?gm ?L {} l" "learner_inv first l"
    using learner_step_counts [OF counts step accounted nodes] learner_step_inv [OF lin step below]
    by simp_all
  have "backed ?L (unat (Quorum gm)) (resp_Slot t) (resp_Val t)"
    if c: "c \<in> cuResponses ?S" "t \<in> set (cresp_Vals c)" for c t
  proof (cases "c \<in> cuResponses S")
    case True
    then show ?thesis using resps c(2) by blast
  next
    case False
    then have "c \<in> responsesOf l" "c \<notin> responsesOf (lrns S i)"
      using c(1) unfolding cuResponses_def by (auto split: if_splits)
    moreover have lr: "\<not> ml_lr (lrns S i)" "wf_learner (lrns S i)" using counts by (simp_all add: counts_inv_def)
    ultimately obtain rs where "cresp_Vals c = responses (decidedAt (lrns S i)) (storedVal (lrns S i)) rs"
      using learner_step_responses [OF lr step] by blast
    then have t: "decidedAt (lrns S i) (resp_Slot t)" "resp_Val t = storedVal (lrns S i) (resp_Slot t)"
      using c(2) responses_iff by auto
    have "learnedAt (lrns S i) (resp_Slot t) \<noteq> None"
      using lin t(1) by (simp add: learner_inv_def delivery_inv_def logOf_def)
    then have "learnedAt (lrns S i) (resp_Slot t) = Some (resp_Val t)"
      using t(2) lr(1) by (auto simp: learnedAt_def storedVal_def Let_def split: if_splits)
    then show ?thesis using counts by (simp add: counts_inv_def)
  qed
  then show ?thesis
    using inv new unfolding lrn_inv_def by simp
qed

section \<open>Reachable states\<close>

lemma reach_inv:
  assumes conf: "plain_config gm" and "sys_reach gm V (initial gm leader alph first) S"
  shows "sys_inv gm V S \<and> lrn_inv gm first S"
  using assms(2)
proof (induction "initial gm leader alph first" S rule: sys_reach.induct)
  case Reach_Refl
  then show ?case using sys_inv_initial [OF conf] lrn_inv_initial [OF conf] by simp
next
  case (Reach_Step S U)
  from Reach_Step.hyps(2) have inv: "sys_inv gm V S" "lrn_inv gm first S" by simp_all
  from Reach_Step.hyps(3) show ?case
  proof cases
    case (Proposer_Step i e p)
    then show ?thesis
      using sys_inv_proposer [OF inv(1) conf] lrn_inv_mono [OF inv(2), of U] by simp
  next
    case (Acceptor_Step i f a)
    then have "sys_inv gm V U" using sys_inv_acceptor [OF inv(1)] by simp
    moreover have "learns S \<subseteq> learns U"
    proof -
      have "sentLearns (accs S i) \<subseteq> sentLearns a"
        using acc_local_step [OF _ Acceptor_Step(4)] inv(1) by (simp add: sys_inv_def)
      then show ?thesis
        using UN_update_grow [of sentLearns "accs S" i a] Acceptor_Step(1) by (auto simp: learns_def)
    qed
    ultimately show ?thesis using lrn_inv_mono [OF inv(2), of U] Acceptor_Step(1) by simp
  next
    case (Learner_Step i g l)
    have "votes_ok gm V S" using inv(1) by (simp add: sys_inv_def)
    moreover have "sys_inv gm V U"
      using inv(1) Learner_Step(1) by (simp add: sys_inv_def votes_ok_def)
    ultimately show ?thesis
      using lrn_inv_learner [OF inv(2) _ conf Learner_Step(3,4)] Learner_Step(1) by simp
  qed
qed

section \<open>Agreement\<close>

text \<open>Majorities of acceptors are quorums in the sense of the abstract argument.\<close>

interpretation cluster: quorums plain_config quor
proof
  fix gm A B assume "plain_config gm" "quor gm A" "quor gm B"
  then show "\<exists>a. a \<in> A \<and> a \<in> B"
    using nm_quorum.quorums_intersect [of "nodeMap gm" A B]
    by (simp add: quor_def plain_config_def nm_quorum.is_quorum_def Quorum_def)
qed

text \<open>A backed value was voted for by a quorum of acceptors in one round.\<close>

lemma backed_chosen:
  assumes votes: "votes_ok gm V S" and b: "backed (learns S) (unat (Quorum gm)) s v"
  shows "\<exists>r Q a. quor gm Q \<and> (\<forall>a\<in>Q. \<exists>w. voted (learns S) a s r w) \<and> voted (learns S) a s r v"
proof -
  from b obtain r K m where K: "K \<subseteq> learns S" "\<And>l. l \<in> K \<Longrightarrow> lrn_Slot l = s \<and> lrn_Rnd l = r"
      "unat (Quorum gm) \<le> card ((\<lambda>l. PxInt (lrn_ID l)) ` K)" "m \<in> K" "lrn_Val m = v"
    unfolding backed_def by blast
  let ?Q = "lrn_ID ` K"
  have sub: "?Q \<subseteq> set (AcceptorIDs (nodeMap gm))" using K(1) votes by (auto simp: votes_ok_def)
  then have "card (PxInt ` ?Q) \<le> card ?Q"
    by (intro card_image_le finite_subset [OF sub]) simp
  then have "quor gm ?Q" using sub K(3) by (simp add: quor_def image_image)
  moreover have "\<exists>w. voted (learns S) a s r w" if "a \<in> ?Q" for a
    using that K(1,2) unfolding voted_def by blast
  moreover have "voted (learns S) (lrn_ID m) s r v"
    using K(1,2,4,5) unfolding voted_def by blast
  ultimately show ?thesis by blast
qed

lemma learned_agree:
  assumes conf: "plain_config gm" and inv: "sys_inv gm V S \<and> lrn_inv gm first S"
    and "learnedAt (lrns S i) s = Some v" and "learnedAt (lrns S j) s = Some w"
  shows "v = w"
proof -
  have votes: "votes_ok gm V S" using inv by (simp add: sys_inv_def)
  have "backed (learns S) (unat (Quorum gm)) s v" "backed (learns S) (unat (Quorum gm)) s w"
    using inv assms(3,4) by (auto simp: lrn_inv_def counts_inv_def)
  from backed_chosen [OF votes this(1)] backed_chosen [OF votes this(2)]
  obtain r Q a r' Q' a' where 1: "quor gm Q" "\<And>a. a \<in> Q \<Longrightarrow> \<exists>w. voted (learns S) a s r w" "voted (learns S) a s r v"
      and 2: "quor gm Q'" "\<And>a. a \<in> Q' \<Longrightarrow> \<exists>w. voted (learns S) a s r' w" "voted (learns S) a' s r' w"
    by blast
  show ?thesis
    by (rule cluster.chosen_agree [OF conf _ _ _ 1 2, of "accepts S" "bound S"])
      (use votes in \<open>simp_all add: votes_ok_def\<close>)
qed

text \<open>
  C1. Agreement: in every state a cluster of proposers, acceptors and learners can reach, over a
  network that loses, delays, duplicates and reorders messages, two learners that have learned a
  value for a slot have learned the same value.
\<close>

theorem cluster_agreement:
  assumes "plain_config gm" and "sys_reach gm V (initial gm leader alph first) S"
    and "learnedAt (lrns S i) s = Some v" and "learnedAt (lrns S j) s = Some w"
  shows "v = w"
  by (rule learned_agree [OF assms(1) reach_inv [OF assms(1,2)] assms(3,4)])

lemma slotRange_prefix:
  assumes "a \<le> b" and "b \<le> c"
  shows "prefix (slotRange a b) (slotRange a c)"
proof -
  have "unat a \<le> unat b" "unat b \<le> unat c" using assms by (simp_all add: word_le_nat_alt)
  then have "[unat a..<unat c] = [unat a..<unat b] @ [unat b..<unat c]"
    using upt_add_eq_append [of "unat a" "unat b" "unat c - unat b"] by simp
  then show ?thesis by (auto simp: slotRange_def)
qed

lemma delivered_prefix:
  assumes conf: "plain_config gm" and inv: "sys_inv gm V S \<and> lrn_inv gm first S"
    and le: "ml_next (lrns S i) \<le> ml_next (lrns S j)"
  shows "prefix (dcdChan (lrns S i)) (dcdChan (lrns S j))"
proof -
  have lin: "learner_inv first (lrns S k)" for k using inv by (simp add: lrn_inv_def)
  have out: "dcdChan (lrns S k) = map (\<lambda>s. the (learnedAt (lrns S k) s)) (slotRange first (ml_next (lrns S k)))"
    for k using lin [of k] by (simp add: learner_inv_def delivery_inv_def logOf_def)
  have known: "\<exists>v. learnedAt (lrns S k) s = Some v" if "s \<in> set (slotRange first (ml_next (lrns S k)))" for k s
    using lin [of k] that by (auto simp: learner_inv_def delivery_inv_def logOf_def slotRange_iff)
  have "dcdChan (lrns S i) = map (\<lambda>s. the (learnedAt (lrns S j) s)) (slotRange first (ml_next (lrns S i)))"
    unfolding out [of i]
  proof (rule map_cong [OF refl])
    fix s assume s: "s \<in> set (slotRange first (ml_next (lrns S i)))"
    then have "s \<in> set (slotRange first (ml_next (lrns S j)))" using le by (auto simp: slotRange_iff)
    then show "the (learnedAt (lrns S i) s) = the (learnedAt (lrns S j) s)"
      using known [OF s] known [of s j] learned_agree [OF conf inv] by (metis option.sel)
  qed
  moreover have "first \<le> ml_next (lrns S i)"
    using lin [of i] by (simp add: learner_inv_def delivery_inv_def logOf_def)
  ultimately show ?thesis
    using map_mono_prefix [OF slotRange_prefix [OF _ le, of first]] out [of j] by simp
qed

lemma delivered_comparable:
  assumes "plain_config gm" and "sys_reach gm V (initial gm leader alph first) S"
  shows "prefix (dcdChan (lrns S i)) (dcdChan (lrns S j)) \<or> prefix (dcdChan (lrns S j)) (dcdChan (lrns S i))"
proof (cases "ml_next (lrns S i) \<le> ml_next (lrns S j)")
  case True
  show ?thesis by (rule disjI1, rule delivered_prefix [OF assms(1) reach_inv [OF assms] True])
next
  case False
  then have "ml_next (lrns S j) \<le> ml_next (lrns S i)" by simp
  then show ?thesis by (intro disjI2 delivered_prefix [OF assms(1) reach_inv [OF assms]])
qed

text \<open>
  C2. Total order: what any two learners of the cluster have delivered to their servers so far are
  prefixes of one another.
\<close>

theorem cluster_total_order:
  assumes "plain_config gm" and "sys_reach gm V (initial gm leader alph first) S"
  shows "prefix (dcdChan (lrns S i)) (dcdChan (lrns S j)) \<or> prefix (dcdChan (lrns S j)) (dcdChan (lrns S i))"
  using assms by (rule delivered_comparable)

text \<open>
  C3. Validity: every value a learner of the cluster delivers is one a client proposed.
\<close>

theorem cluster_validity:
  assumes "plain_config gm" and "sys_reach gm V (initial gm leader alph first) S"
  shows "set (dcdChan (lrns S i)) \<subseteq> V"
proof
  fix v assume v: "v \<in> set (dcdChan (lrns S i))"
  from reach_inv [OF assms] have inv: "votes_ok gm V S" "learner_inv first (lrns S i)"
      "counts_inv (nodeGm gm i) (learns S) {} (lrns S i)"
    by (simp_all add: sys_inv_def lrn_inv_def)
  from v inv(2) obtain s where "learnedAt (lrns S i) s = Some v"
    by (fastforce simp: learner_inv_def delivery_inv_def logOf_def slotRange_iff)
  then have "backed (learns S) (unat (Quorum gm)) s v" using inv(3) by (simp add: counts_inv_def)
  then obtain l where "l \<in> learns S" "lrn_Val l = v" using backed_learn by blast
  then show "v \<in> V" using inv(1) unfolding votes_ok_def votes_answer_def answers_def by metis
qed

section \<open>A concrete run\<close>

text \<open>
  A cluster of two nodes, the second of which only learns: the first one elects itself, proposes a
  client's value, and both deliver it. One event of
  each kind of actor as a function of the state, and when it is a step:
\<close>

definition prop_do :: "GrpMgr \<Rightarrow> gid \<Rightarrow> proposer_event \<Rightarrow> System \<Rightarrow> System" where
  "prop_do gm i e S = S\<lparr>props := (props S)(i := projr (proposer_step (nodeGm gm i) e (props S i)))\<rparr>"

definition acc_do :: "GrpMgr \<Rightarrow> gid \<Rightarrow> acceptor_event \<Rightarrow> System \<Rightarrow> System" where
  "acc_do gm i e S = S\<lparr>accs := (accs S)(i := projr (acceptor_step (nodeGm gm i) e (accs S i)))\<rparr>"

definition lrn_do :: "GrpMgr \<Rightarrow> gid \<Rightarrow> learner_event \<Rightarrow> System \<Rightarrow> System" where
  "lrn_do gm i e S = S\<lparr>lrns := (lrns S)(i := projr (learner_step (nodeGm gm i) e (lrns S i)))\<rparr>"

lemma prop_do_step:
  assumes "sys_reach gm V T S" and "i \<in> set (ProposerIDs (nodeMap gm))" and "prop_input V S e"
    and "in_bounds (props S i)" and "\<not> isl (proposer_step (nodeGm gm i) e (props S i))"
  shows "sys_reach gm V T (prop_do gm i e S)"
proof -
  have "proposer_step (nodeGm gm i) e (props S i) = Inr (projr (proposer_step (nodeGm gm i) e (props S i)))"
    using assms(5) by (simp add: sum.collapse(2))
  from Proposer_Step [OF assms(2-4) this] show ?thesis
    unfolding prop_do_def by (rule Reach_Step [OF assms(1)])
qed

lemma acc_do_step:
  assumes "sys_reach gm V T S" and "i \<in> set (AcceptorIDs (nodeMap gm))" and "acc_input S e"
    and "\<not> isl (acceptor_step (nodeGm gm i) e (accs S i))"
  shows "sys_reach gm V T (acc_do gm i e S)"
proof -
  have "acceptor_step (nodeGm gm i) e (accs S i) = Inr (projr (acceptor_step (nodeGm gm i) e (accs S i)))"
    using assms(4) by (simp add: sum.collapse(2))
  from Acceptor_Step [OF assms(2,3) this] show ?thesis
    unfolding acc_do_def by (rule Reach_Step [OF assms(1)])
qed

lemma lrn_do_step:
  assumes "sys_reach gm V T S" and "i \<in> set (LearnerIDs (nodeMap gm))" and "lrn_input S e"
    and "\<not> isl (learner_step (nodeGm gm i) e (lrns S i))"
  shows "sys_reach gm V T (lrn_do gm i e S)"
proof -
  have "learner_step (nodeGm gm i) e (lrns S i) = Inr (projr (learner_step (nodeGm gm i) e (lrns S i)))"
    using assms(4) by (simp add: sum.collapse(2))
  from Learner_Step [OF assms(2,3) this] show ?thesis
    unfolding lrn_do_def by (rule Reach_Step [OF assms(1)])
qed

lemma inputs:
  "MPrepare k \<in> payload ` set (mp_bcast (props S i)) \<Longrightarrow> acc_input S (APrepare k)"
  "MAccept a \<in> payload ` set (mp_bcast (props S i)) \<Longrightarrow> acc_input S (AAccept a)"
  "MPromise m \<in> (payload \<circ> snd) ` set (ma_ucast (accs S i)) \<Longrightarrow> prop_input V S (PPromise m)"
  "MLearn l \<in> payload ` set (ma_bcast (accs S i)) \<Longrightarrow> lrn_input S (LLearn l)"
proof -
  show "MPrepare k \<in> payload ` set (mp_bcast (props S i)) \<Longrightarrow> acc_input S (APrepare k)"
    by (auto simp: prepares_def preparesOf_def)
  show "MAccept a \<in> payload ` set (mp_bcast (props S i)) \<Longrightarrow> acc_input S (AAccept a)"
    by (auto simp: accepts_def acceptsOf_def)
  show "MPromise m \<in> (payload \<circ> snd) ` set (ma_ucast (accs S i)) \<Longrightarrow> prop_input V S (PPromise m)"
    by (auto simp: promises_def sentPromises_def intro!: exI [of _ i] rev_bexI)
  show "MLearn l \<in> payload ` set (ma_bcast (accs S i)) \<Longrightarrow> lrn_input S (LLearn l)"
    by (auto simp: learns_def sentLearns_def intro!: exI [of _ i] rev_bexI)
qed

definition duoGm :: GrpMgr where
  "duoGm = NewGrpMgr (ID 0 0) 
     (projr (NewNodeMap [(ID 0 0, NewNode [] [] [] True True True), (ID 1 0, NewNode [] [] [] False False True)])) False False"

lemma duo_config: "plain_config duoGm"
proof -
  let ?ns = "[(ID 0 0, NewNode [] [] [] True True True), (ID 1 0, NewNode [] [] [] False False True)]"
  obtain nm where "NewNodeMap ?ns = Inr nm" "wf_NodeMap nm" "acceptors_counted nm" "nodes nm = ?ns"
    using NewNodeMap_wf [of ?ns] by (auto simp: PxInt_def)
  moreover have "unat (nrOfNodes (nodeMap duoGm)) = 2" by code_simp
  ultimately show ?thesis
    by (simp add: plain_config_def duoGm_def NewGrpMgr_def quorum_config_def)
qed

definition duo0 :: System where
  "duo0 = initial duoGm (\<lambda>_. ID 1 0) 3 1"

definition duo1 :: System where
  "duo1 = acc_do duoGm (ID 0 0) (APrepare \<lparr>prep_ID = ID 0 0, prep_CRnd = Round 2 (ID 0 0), prep_Slot = 0\<rparr>)
     (prop_do duoGm (ID 0 0) (PTrust (ID 0 0)) duo0)"

definition duo2 :: System where
  "duo2 = prop_do duoGm (ID 0 0) (PPropose appValue)
     (prop_do duoGm (ID 0 0) (PPromise \<lparr>prom_ID = ID 0 0, prom_Rnd = Round 2 (ID 0 0), prom_AccSlots = [],
        prom_EpochVector = []\<rparr>) duo1)"

definition duoLearn :: Learn where
  "duoLearn = \<lparr>lrn_ID = ID 0 0, lrn_Slot = 1, lrn_Rnd = Round 2 (ID 0 0), lrn_Val = appValue,
     lrn_EpochVector = []\<rparr>"

definition duo3 :: System where
  "duo3 = acc_do duoGm (ID 0 0) (AAccept \<lparr>acc_ID = ID 0 0, acc_Slot = 1, acc_Rnd = Round 2 (ID 0 0),
     acc_Val = appValue\<rparr>) duo2"

definition duo4 :: System where
  "duo4 = lrn_do duoGm (ID 1 0) (LLearn duoLearn) (lrn_do duoGm (ID 0 0) (LLearn duoLearn) duo3)"

lemma duo_members:
  "ID 0 0 \<in> set (ProposerIDs (nodeMap duoGm))" "ID 0 0 \<in> set (AcceptorIDs (nodeMap duoGm))"
  "ID 0 0 \<in> set (LearnerIDs (nodeMap duoGm))" "ID 1 0 \<in> set (LearnerIDs (nodeMap duoGm))"
  by code_simp+

lemma duo0_proposer:
  "Rnd (crnd (props duo0 (ID 0 0))) = 1 \<and> nextSlot (props duo0 (ID 0 0)) = 1 \<and>
   mp_adu (props duo0 (ID 0 0)) = 0 \<and> alpha (props duo0 (ID 0 0)) = 3"
  by code_simp

lemma duo1_reach: "sys_reach duoGm V duo0 duo1"
  unfolding duo1_def
proof (rule acc_do_step [OF prop_do_step [OF Reach_Refl duo_members(1)] duo_members(2)])
  show "in_bounds (props duo0 (ID 0 0))" using duo0_proposer by (simp add: in_bounds_def)
  show "\<not> isl (proposer_step (nodeGm duoGm (ID 0 0)) (PTrust (ID 0 0)) (props duo0 (ID 0 0)))"
    by code_simp
  show "acc_input (prop_do duoGm (ID 0 0) (PTrust (ID 0 0)) duo0)
      (APrepare \<lparr>prep_ID = ID 0 0, prep_CRnd = Round 2 (ID 0 0), prep_Slot = 0\<rparr>)"
    by (rule inputs(1) [of _ _ "ID 0 0"]) code_simp
  show "\<not> isl (acceptor_step (nodeGm duoGm (ID 0 0))
      (APrepare \<lparr>prep_ID = ID 0 0, prep_CRnd = Round 2 (ID 0 0), prep_Slot = 0\<rparr>)
      (accs (prop_do duoGm (ID 0 0) (PTrust (ID 0 0)) duo0) (ID 0 0)))"
    by code_simp
qed simp

lemma duo2_reach: "sys_reach duoGm {appValue} duo0 duo2"
  unfolding duo2_def
proof (rule prop_do_step [OF prop_do_step [OF duo1_reach duo_members(1)] duo_members(1)])
  have "Rnd (crnd (props duo1 (ID 0 0))) = 2 \<and> nextSlot (props duo1 (ID 0 0)) = 1 \<and>
      mp_adu (props duo1 (ID 0 0)) = 0 \<and> alpha (props duo1 (ID 0 0)) = 3"
    by code_simp
  then show "in_bounds (props duo1 (ID 0 0))" by (simp add: in_bounds_def)
  let ?m = "\<lparr>prom_ID = ID 0 0, prom_Rnd = Round 2 (ID 0 0), prom_AccSlots = [], prom_EpochVector = []\<rparr>"
  let ?S = "prop_do duoGm (ID 0 0) (PPromise ?m) duo1"
  have "Rnd (crnd (props ?S (ID 0 0))) = 2 \<and> nextSlot (props ?S (ID 0 0)) = 1 \<and>
      mp_adu (props ?S (ID 0 0)) = 0 \<and> alpha (props ?S (ID 0 0)) = 3"
    by code_simp
  then show "in_bounds (props ?S (ID 0 0))" by (simp add: in_bounds_def)
  show "prop_input {appValue} duo1 (PPromise ?m)"
    by (rule inputs(3) [of _ _ "ID 0 0"]) code_simp
  show "\<not> isl (proposer_step (nodeGm duoGm (ID 0 0)) (PPromise ?m) (props duo1 (ID 0 0)))"
    by code_simp
  show "\<not> isl (proposer_step (nodeGm duoGm (ID 0 0)) (PPropose appValue) (props ?S (ID 0 0)))"
    by code_simp
qed simp

lemma duo3_reach: "sys_reach duoGm {appValue} duo0 duo3"
  unfolding duo3_def
proof (rule acc_do_step [OF duo2_reach duo_members(2)])
  let ?a = "\<lparr>acc_ID = ID 0 0, acc_Slot = 1, acc_Rnd = Round 2 (ID 0 0), acc_Val = appValue\<rparr>"
  show "acc_input duo2 (AAccept ?a)" by (rule inputs(2) [of _ _ "ID 0 0"]) code_simp
  show "\<not> isl (acceptor_step (nodeGm duoGm (ID 0 0)) (AAccept ?a) (accs duo2 (ID 0 0)))" by code_simp
qed

lemma duo4_reach: "sys_reach duoGm {appValue} duo0 duo4"
  unfolding duo4_def
proof (rule lrn_do_step [OF lrn_do_step [OF duo3_reach duo_members(3)] duo_members(4)])
  let ?S = "lrn_do duoGm (ID 0 0) (LLearn duoLearn) duo3"
  show "lrn_input duo3 (LLearn duoLearn)" by (rule inputs(4) [of _ _ "ID 0 0"]) code_simp
  show "lrn_input ?S (LLearn duoLearn)" by (rule inputs(4) [of _ _ "ID 0 0"]) code_simp
  show "\<not> isl (learner_step (nodeGm duoGm (ID 0 0)) (LLearn duoLearn) (lrns duo3 (ID 0 0)))" by code_simp
  show "\<not> isl (learner_step (nodeGm duoGm (ID 1 0)) (LLearn duoLearn) (lrns ?S (ID 1 0)))" by code_simp
qed

lemma duo4_learned:
  "dcdChan (lrns duo4 (ID 0 0)) = [appValue]" "learnedAt (lrns duo4 (ID 0 0)) 1 = Some appValue"
  "dcdChan (lrns duo4 (ID 1 0)) = [appValue]" "\<exists>w. learnedAt (lrns duo4 (ID 1 0)) 1 = Some w"
proof -
  have "learnedAt (lrns duo4 (ID 1 0)) 1 = Some appValue"
    unfolding learnedAt_def Let_def lsm.view_def lrsm.view_def by code_simp
  then show "\<exists>w. learnedAt (lrns duo4 (ID 1 0)) 1 = Some w" by blast
qed (unfold learnedAt_def Let_def lsm.view_def lrsm.view_def, code_simp+)

lemmas duo_run = duo_config duo4_reach [unfolded duo0_def]

theorem cluster_agreement_witness:
  "learnedAt (lrns duo4 (ID 0 0)) 1 = Some appValue \<and> learnedAt (lrns duo4 (ID 1 0)) 1 = Some appValue"
proof -
  obtain w where w: "learnedAt (lrns duo4 (ID 1 0)) 1 = Some w" using duo4_learned(4) by blast
  have "appValue = w" by (rule cluster_agreement [OF duo_run duo4_learned(2) w])
  with w duo4_learned(2) show ?thesis by simp
qed

theorem cluster_total_order_witness:
  "(prefix (dcdChan (lrns duo4 (ID 0 0))) (dcdChan (lrns duo4 (ID 1 0))) \<or>
    prefix (dcdChan (lrns duo4 (ID 1 0))) (dcdChan (lrns duo4 (ID 0 0)))) \<and>
   dcdChan (lrns duo4 (ID 0 0)) = [appValue]"
  using cluster_total_order [OF duo_run] duo4_learned(1) by blast

theorem cluster_validity_witness:
  "set (dcdChan (lrns duo4 (ID 1 0))) \<subseteq> {appValue} \<and> dcdChan (lrns duo4 (ID 1 0)) = [appValue]"
  using cluster_validity [OF duo_run] duo4_learned(3) by blast

end
