(* ===== verification/GoMaps.thy ===== *)
theory GoMaps
  imports Prelude "HOL-Library.AList" "HOL-Library.List_Lexorder" "HOL-Library.Char_ord"
begin

text \<open>
  Go maps that the code iterates over: the entries in one of the orders an iteration may take,
  with one entry per key. A map that is only looked up and assigned to is a HOL map instead.
  Strings are ordered as \<open>sort.Strings\<close> orders them, byte by byte.
\<close>

type_synonym ('k, 'v) gomap = "('k \<times> 'v) list"

abbreviation lookup :: "('k, 'v) gomap \<Rightarrow> 'k \<rightharpoonup> 'v" where
  "lookup m \<equiv> map_of m"

abbreviation put :: "'k \<Rightarrow> 'v \<Rightarrow> ('k, 'v) gomap \<Rightarrow> ('k, 'v) gomap" where
  "put \<equiv> AList.update"

text \<open>\<open>m[k]\<close> in an expression: the zero value when the key is absent.\<close>

definition at0 :: "'v \<Rightarrow> ('k, 'v) gomap \<Rightarrow> 'k \<Rightarrow> 'v" where
  "at0 z m k = (case lookup m k of None \<Rightarrow> z | Some v \<Rightarrow> v)"

definition wf_gomap :: "('k, 'v) gomap \<Rightarrow> bool" where
  "wf_gomap m \<longleftrightarrow> distinct (map fst m)"

lemma lookup_put [simp]: "lookup (put k v m) = (lookup m)(k \<mapsto> v)"
  by (rule update_conv')

lemma wf_gomap_put [simp, intro]: "wf_gomap m \<Longrightarrow> wf_gomap (put k v m)"
  by (simp add: wf_gomap_def distinct_update)

lemma wf_gomap_Nil [simp, intro]: "wf_gomap []"
  by (simp add: wf_gomap_def)

lemma wf_gomap_Cons: "wf_gomap (x # m) \<longleftrightarrow> lookup m (fst x) = None \<and> wf_gomap m"
  by (auto simp: wf_gomap_def map_of_eq_None_iff)

lemma lookup_iff: "wf_gomap m \<Longrightarrow> lookup m k = Some v \<longleftrightarrow> (k, v) \<in> set m"
  by (simp add: wf_gomap_def map_of_eq_Some_iff)

text \<open>A loop that assigns one entry per entry it visits.\<close>

lemma fold_put_map:
  assumes "wf_gomap m"
  shows "lookup (fold (\<lambda>(k, v). put k (f k v)) m acc) =
    (\<lambda>k. case lookup m k of Some v \<Rightarrow> Some (f k v) | None \<Rightarrow> lookup acc k)"
  using assms
proof (induction m arbitrary: acc)
  case (Cons x m)
  obtain k v where x: "x = (k, v)" by (cases x)
  have fresh: "lookup m k = None" "wf_gomap m" using Cons.prems x by (simp_all add: wf_gomap_Cons)
  have "lookup (fold (\<lambda>(k, v). put k (f k v)) m (put k (f k v) acc)) j =
      (case lookup (x # m) j of Some v \<Rightarrow> Some (f j v) | None \<Rightarrow> lookup acc j)" for j
    unfolding Cons.IH [OF fresh(2)] using fresh(1) by (auto simp: x split: option.split)
  then show ?case by (simp add: x fun_eq_iff)
qed (simp add: fun_eq_iff)

end
