(* ===== verification/BatchPaxos.thy ===== *)
theory BatchPaxos
  imports PaxosData GoMaps
begin

text \<open>
  BatchPaxos (\<open>src/batchpaxos/\<close>): every replica logs the clients' requests itself, the replicas
  agree on how far each client's requests go in a batch, and execute the ranges in batch order.
  The client log (\<open>batcher.go\<close>), the leader's batchpoints (\<open>batchpoint.go\<close>), the learns of a
  batch (\<open>quorum.go\<close>) and the batch acceptor with its event loop (\<open>batchacceptor.go\<close>).

  The times of receipt and execution are only logged, and are left out.
\<close>

section \<open>Types\<close>

type_synonym ClientID = string
type_synonym BatchPoint = "(ClientID, 32 word) gomap"

record ClientRange =
  rg_Start :: "32 word"
  rg_Stop :: "32 word"

type_synonym RangeMap = "(ClientID, ClientRange) gomap"
type_synonym UpdateValueMap = "(ClientID, Request list) gomap"

record BatchLearnMsg =
  bl_ID :: gid
  bl_BatchID :: "64 word"
  bl_HSS :: BatchPoint

record BatchCommitMsg =
  bc_ID :: gid
  bc_BatchID :: "64 word"
  bc_Ranges :: RangeMap

record UpdateRequestMsg =
  uq_ID :: gid
  uq_BatchID :: "64 word"
  uq_Ranges :: RangeMap

record UpdateReplyMsg =
  up_ID :: gid
  up_BatchID :: "64 word"
  up_Ranges :: RangeMap
  up_Values :: UpdateValueMap

definition SortedKeysRange :: "RangeMap \<Rightarrow> ClientID list" where
  "SortedKeysRange m = sort (map fst m)"

definition zeroRequest :: Request where
  "zeroRequest = \<lparr>req_Type = None, req_Id = None, req_Seq = None, req_Val = []\<rparr>"

section \<open>The client log\<close>

record ClientLogEntry =
  cl_Values :: "32 word \<rightharpoonup> Request"
  HighestSeen :: "32 word"

record Batch =
  b_ID :: "64 word"
  b_HSS :: BatchPoint

record Batcher =
  CLog :: "(ClientID, ClientLogEntry) gomap"
  BatchMap :: "64 word \<rightharpoonup> Batch"
  CurrentBatch :: "64 word"

definition NewBatcher :: Batcher where
  "NewBatcher = \<lparr>CLog = [], BatchMap = Map.empty, CurrentBatch = 0\<rparr>"

definition emptyLog :: ClientLogEntry where
  "emptyLog = \<lparr>cl_Values = Map.empty, HighestSeen = 0\<rparr>"

definition GetLog :: "ClientID \<Rightarrow> Batcher \<Rightarrow> ClientLogEntry \<times> Batcher" where
  "GetLog cid br =
     (case lookup (CLog br) cid of
        Some entry \<Rightarrow> (entry, br)
      | None \<Rightarrow> (emptyLog, br\<lparr>CLog := put cid emptyLog (CLog br)\<rparr>))"

definition LogRequest :: "Request \<Rightarrow> Batcher \<Rightarrow> Batcher" where
  "LogRequest req br =
     (let i = GetId req; s = GetSeq req;
          (clog, br) = GetLog i br;
          clog = clog\<lparr>cl_Values := (cl_Values clog)(s \<mapsto> req)\<rparr>;
          clog = (if s > HighestSeen clog then clog\<lparr>HighestSeen := s\<rparr> else clog)
      in br\<lparr>CLog := put i clog (CLog br)\<rparr>)"

definition GetRequest :: "ClientID \<Rightarrow> 32 word \<Rightarrow> Batcher \<Rightarrow> Request" where
  "GetRequest cid s br =
     (case lookup (CLog br) cid of
        None \<Rightarrow> zeroRequest
      | Some clog \<Rightarrow> (case cl_Values clog s of None \<Rightarrow> zeroRequest | Some val \<Rightarrow> val))"

text \<open>
  The inner loop of \<open>GetIncompleteRanges\<close>: whether a request of the range is missing. It never
  ends when none is missing and the range ends at the greatest \<open>uint32\<close>.
\<close>

partial_function (option) someMissing :: "(32 word \<rightharpoonup> Request) \<Rightarrow> 32 word \<Rightarrow> 32 word \<Rightarrow> bool option" where
  "someMissing vals i stop =
     (if i \<le> stop then (if vals i = None then Some True else someMissing vals (i + 1) stop)
      else Some False)"

declare someMissing.simps [code]

fun GetIncompleteRanges :: "RangeMap \<Rightarrow> Batcher \<Rightarrow> (RangeMap \<times> Batcher) result" where
  "GetIncompleteRanges [] br = Ok ([], br)"
| "GetIncompleteRanges ((cid, rng) # rngs) br =
     (let (log, br) = GetLog cid br
      in case someMissing (cl_Values log) (rg_Start rng) (rg_Stop rng) of
           None \<Rightarrow> Fault Diverges
         | Some missing \<Rightarrow>
             bind_result (GetIncompleteRanges rngs br) (\<lambda>(inc, br).
               Ok (if missing then (cid, rng) # inc else inc, br)))"

definition GetCurrentBatchPoint :: "Batcher \<Rightarrow> BatchPoint" where
  "GetCurrentBatchPoint br = map (\<lambda>(cid, entry). (cid, HighestSeen entry)) (CLog br)"

text \<open>The callback of \<open>ForEach\<close> runs on the requests of each range, clients in sorted order.\<close>

definition rangeRequests :: "Batcher \<Rightarrow> RangeMap \<Rightarrow> ClientID \<Rightarrow> Request list result" where
  "rangeRequests br ranges cid =
     (let rng = at0 \<lparr>rg_Start = 0, rg_Stop = 0\<rparr> ranges cid
      in case for_le (rg_Start rng) (rg_Stop rng) (\<lambda>i reqs. reqs @ [GetRequest cid i br]) [] of
           None \<Rightarrow> Fault Diverges
         | Some reqs \<Rightarrow> Ok reqs)"

fun ForEach :: "Batcher \<Rightarrow> RangeMap \<Rightarrow> ClientID list \<Rightarrow> Request list result" where
  "ForEach br ranges [] = Ok []"
| "ForEach br ranges (cid # cids) =
     bind_result (rangeRequests br ranges cid) (\<lambda>reqs.
     bind_result (ForEach br ranges cids) (\<lambda>rest. Ok (reqs @ rest)))"

definition makeBatch :: "BatchPoint \<Rightarrow> Batcher \<Rightarrow> Batch option \<times> Batcher" where
  "makeBatch hss br =
     (let batch = \<lparr>b_ID = CurrentBatch br, b_HSS = hss\<rparr>
      in (Some batch, br\<lparr>BatchMap := (BatchMap br)(CurrentBatch br \<mapsto> batch),
            CurrentBatch := CurrentBatch br + 1\<rparr>))"

definition GetBatch :: "Batcher \<Rightarrow> (Batch option \<times> Batcher) result" where
  "GetBatch br =
     (let hss = GetCurrentBatchPoint br
      in if length hss = 0 then Ok (None, br)
         else if CurrentBatch br = 0 then Ok (makeBatch hss br)
         else
           (case BatchMap br (CurrentBatch br - 1) of
              None \<Rightarrow> Fault NilDereference
            | Some prev \<Rightarrow>
                let prevhss = b_HSS prev;
                    batchable = (if length hss > length prevhss then True
                      else list_ex (\<lambda>(cid, hs). hs > at0 0 prevhss cid) hss)
                in if batchable then Ok (makeBatch hss br) else Ok (None, br)))"

text \<open>
  \<open>make([]client.Request, rng.Stop-rng.Start+1)\<close> is a \<open>uint32\<close> length, and the loop writes through
  an index: out of range it panics.
\<close>

definition clientCommands :: "Batcher \<Rightarrow> ClientID \<Rightarrow> ClientRange \<Rightarrow> Request list result" where
  "clientCommands br cid rng =
     (case for_le (rg_Start rng) (rg_Stop rng) (\<lambda>i res.
           bind_result res (\<lambda>ccmds.
             update_index ccmds (uint (i - rg_Start rng)) (GetRequest cid i br)))
         (Ok (replicate (unat (rg_Stop rng - rg_Start rng + 1)) zeroRequest)) of
        None \<Rightarrow> Fault Diverges
      | Some res \<Rightarrow> res)"

fun GetClientCommands :: "RangeMap \<Rightarrow> Batcher \<Rightarrow> UpdateValueMap result" where
  "GetClientCommands [] br = Ok []"
| "GetClientCommands ((cid, rng) # rngs) br =
     bind_result (clientCommands br cid rng) (\<lambda>ccmds.
     bind_result (GetClientCommands rngs br) (\<lambda>ret. Ok ((cid, ccmds) # ret)))"

definition SetClientCommands :: "UpdateValueMap \<Rightarrow> Batcher \<Rightarrow> Batcher" where
  "SetClientCommands cmdmap br = fold (\<lambda>(_, cmds) br. fold LogRequest cmds br) cmdmap br"

section \<open>The leader's batchpoints\<close>

record BatchPointer =
  BatchPoints :: "BatchPoint list"

definition NewBatchPointer :: BatchPointer where
  "NewBatchPointer = \<lparr>BatchPoints = []\<rparr>"

definition makeRangeMap1 :: "BatchPoint \<Rightarrow> RangeMap" where
  "makeRangeMap1 bp = fold (\<lambda>(cid, hs). put cid \<lparr>rg_Start = 0, rg_Stop = hs\<rparr>) bp []"

definition makeRangeMap2 :: "BatchPoint \<Rightarrow> BatchPoint \<Rightarrow> RangeMap" where
  "makeRangeMap2 bp1 bp2 = fold (\<lambda>(cid, hs) rm.
     (case lookup bp1 cid of
        None \<Rightarrow> put cid \<lparr>rg_Start = 0, rg_Stop = hs\<rparr> rm
      | Some phs \<Rightarrow> if hs > phs then put cid \<lparr>rg_Start = phs + 1, rg_Stop = hs\<rparr> rm else rm)) bp2 []"

text \<open>The loop of \<open>TryBatchPoint\<close> over the new batchpoint, and the method; a nil map is empty.\<close>

definition growStep :: "BatchPoint \<Rightarrow> ClientID \<times> 32 word \<Rightarrow> BatchPoint \<times> bool \<Rightarrow> BatchPoint \<times> bool" where
  "growStep lastp = (\<lambda>(cid, hs) (grtr, rmable).
     (case lookup lastp cid of
        None \<Rightarrow> (put cid hs grtr, True)
      | Some phs \<Rightarrow> if hs > phs then (put cid hs grtr, True) else (put cid phs grtr, rmable)))"

definition TryBatchPoint :: "BatchPoint \<Rightarrow> BatchPointer \<Rightarrow> bool \<times> RangeMap \<times> BatchPointer" where
  "TryBatchPoint nbp bp =
     (if length (BatchPoints bp) = 0 then
        (if length nbp > 0
         then (True, makeRangeMap1 nbp, bp\<lparr>BatchPoints := BatchPoints bp @ [nbp]\<rparr>)
         else (False, [], bp))
      else
        let lastp = last (BatchPoints bp);
            (grtr, rmable) = fold (growStep lastp) nbp ([], False)
        in if rmable
           then (True, makeRangeMap2 lastp grtr, bp\<lparr>BatchPoints := BatchPoints bp @ [grtr]\<rparr>)
           else (False, [], bp))"

section \<open>The learns of a batch\<close>

record BatchState =
  bs_Execute :: bool
  bs_Executed :: bool
  ExecuteRanges :: RangeMap
  bs_Learns :: "BatchLearnMsg list"
  LearnsNotified :: bool

record BatchQuorumChecker =
  States :: "64 word \<rightharpoonup> BatchState"
  QuorumSize :: "64 word"

definition NewBatchQuorumChecker :: "64 word \<Rightarrow> BatchQuorumChecker" where
  "NewBatchQuorumChecker qsize = \<lparr>States = Map.empty, QuorumSize = qsize\<rparr>"

definition zeroState :: BatchState where
  "zeroState = \<lparr>bs_Execute = False, bs_Executed = False, ExecuteRanges = [], bs_Learns = [],
     LearnsNotified = False\<rparr>"

text \<open>\<open>GetState\<close> returns a pointer into the map: callers write the state back with \<open>putState\<close>.\<close>

definition GetBatchState :: "64 word \<Rightarrow> BatchQuorumChecker \<Rightarrow> BatchState \<times> BatchQuorumChecker" where
  "GetBatchState batchid bqc =
     (case States bqc batchid of
        Some s \<Rightarrow> (s, bqc)
      | None \<Rightarrow> (zeroState, bqc\<lparr>States := (States bqc)(batchid \<mapsto> zeroState)\<rparr>))"

definition putState :: "64 word \<Rightarrow> BatchState \<Rightarrow> BatchQuorumChecker \<Rightarrow> BatchQuorumChecker" where
  "putState batchid s bqc = bqc\<lparr>States := (States bqc)(batchid \<mapsto> s)\<rparr>"

definition AddLearn :: "BatchLearnMsg \<Rightarrow> BatchQuorumChecker \<Rightarrow> BatchQuorumChecker" where
  "AddLearn msg bqc =
     (let (s, bqc) = GetBatchState (bl_BatchID msg) bqc
      in putState (bl_BatchID msg) (s\<lparr>bs_Learns := bs_Learns s @ [msg]\<rparr>) bqc)"

definition LearnQuorumExists :: "64 word \<Rightarrow> BatchQuorumChecker \<Rightarrow> bool \<times> BatchQuorumChecker" where
  "LearnQuorumExists batchid bqc =
     (let (s, bqc) = GetBatchState batchid bqc;
          uniques = remdups (map bl_ID (bs_Learns s));
          quorum = (int (length uniques) \<ge> sint (QuorumSize bqc))
      in if quorum \<and> \<not> LearnsNotified s
         then (True, putState batchid (s\<lparr>LearnsNotified := True\<rparr>) bqc)
         else (False, bqc))"

fun findMinFrom :: "ClientID \<Rightarrow> bool \<Rightarrow> 32 word \<Rightarrow> BatchLearnMsg list \<Rightarrow> 32 word" where
  "findMinFrom cid first m [] = m"
| "findMinFrom cid first m (msg # msgs) =
     (if first then findMinFrom cid False (at0 0 (bl_HSS msg) cid) msgs
      else if at0 0 (bl_HSS msg) cid < m then findMinFrom cid first (at0 0 (bl_HSS msg) cid) msgs
      else findMinFrom cid first m msgs)"

definition findMin :: "BatchLearnMsg list \<Rightarrow> ClientID \<Rightarrow> 32 word" where
  "findMin msgs cid = findMinFrom cid True 0 msgs"

definition countClients :: "BatchLearnMsg list \<Rightarrow> (ClientID, int) gomap" where
  "countClients msgs =
     fold (\<lambda>msg count. fold (\<lambda>(cid, _) count. put cid (at0 0 count cid + 1) count) (bl_HSS msg) count)
       msgs []"

definition Intersect :: "64 word \<Rightarrow> BatchQuorumChecker \<Rightarrow> BatchPoint \<times> BatchQuorumChecker" where
  "Intersect batchid bqc =
     (let (s, bqc) = GetBatchState batchid bqc;
          mins = fold (\<lambda>(cid, ct) mins.
            if ct = int (length (bs_Learns s)) then put cid (findMin (bs_Learns s) cid) mins else mins)
            (countClients (bs_Learns s)) []
      in (mins, bqc))"

section \<open>The batch acceptor\<close>

datatype batch_message =
    BLearn BatchLearnMsg
  | BCommit BatchCommitMsg
  | BUpdateRequest UpdateRequestMsg
  | BUpdateReply UpdateReplyMsg

record BatchAcceptor =
  ba_startable :: bool
  ba_id :: gid
  ba_leader :: gid
  batcher :: Batcher
  batchpter :: BatchPointer
  batchqc :: BatchQuorumChecker
  batchAru :: "64 word"
  batchMaxReq :: "64 word"
  currNumReq :: "64 word"
  timeoutArmed :: bool
  ba_ucast :: "(gid \<times> batch_message) list"
  ba_bcast :: "batch_message list"
  ba_dcd :: "Value list"

definition NewBatchAcceptor ::
  "gid \<Rightarrow> bool \<Rightarrow> gid \<Rightarrow> 64 word \<Rightarrow> 64 word \<Rightarrow> int \<Rightarrow> BatchAcceptor result" where
  "NewBatchAcceptor i runAcc paxosLeader nrOfAcc maxReq batchMaxSize =
     (if batchMaxSize > 1
      then Fault (Panic ''Cannot run BatchPaxos when regular batching is enabled'')
      else Ok \<lparr>ba_startable = runAcc, ba_id = i, ba_leader = paxosLeader, batcher = NewBatcher,
             batchpter = NewBatchPointer, batchqc = NewBatchQuorumChecker (nrOfAcc div 2 + 1),
             batchAru = 0, batchMaxReq = maxReq, currNumReq = 0, timeoutArmed = False,
             ba_ucast = [], ba_bcast = [], ba_dcd = []\<rparr>)"

definition ba_send :: "batch_message \<Rightarrow> gid \<Rightarrow> BatchAcceptor \<Rightarrow> BatchAcceptor" where
  "ba_send msg i ba = ba\<lparr>ba_ucast := ba_ucast ba @ [(i, msg)]\<rparr>"

definition ba_broadcast :: "batch_message \<Rightarrow> BatchAcceptor \<Rightarrow> BatchAcceptor" where
  "ba_broadcast msg ba = ba\<lparr>ba_bcast := ba_bcast ba @ [msg]\<rparr>"

definition resetTimer :: "BatchAcceptor \<Rightarrow> BatchAcceptor" where
  "resetTimer ba = ba\<lparr>timeoutArmed := True\<rparr>"

text \<open>The batch both a timeout and a full batch send to the leader, when there is one.\<close>

definition sendBatch :: "BatchAcceptor \<Rightarrow> BatchAcceptor result" where
  "sendBatch ba =
     bind_result (GetBatch (batcher ba)) (\<lambda>(batch, br).
       let ba = ba\<lparr>batcher := br\<rparr>
       in Ok (resetTimer (case batch of
            None \<Rightarrow> ba
          | Some b \<Rightarrow> ba_send (BLearn \<lparr>bl_ID = ba_id ba, bl_BatchID = b_ID b, bl_HSS = b_HSS b\<rparr>)
              (ba_leader ba) ba)))"

definition handleBatchTimeout :: "BatchAcceptor \<Rightarrow> BatchAcceptor result" where
  "handleBatchTimeout ba = sendBatch ba"

definition handleRequest :: "Value \<Rightarrow> BatchAcceptor \<Rightarrow> BatchAcceptor result" where
  "handleRequest val ba =
     (case Cr val of
        [] \<Rightarrow> Fault IndexOutOfRange
      | req # _ \<Rightarrow>
          let ba = ba\<lparr>batcher := LogRequest req (batcher ba)\<rparr>
          in if batchMaxReq ba = 0 then Fault DivideByZero
             else
               let ba = ba\<lparr>currNumReq := (currNumReq ba + 1) mod batchMaxReq ba\<rparr>
               in if currNumReq ba = 0 then sendBatch ba else Ok ba)"

definition handleUpdateRequestMsg :: "UpdateRequestMsg \<Rightarrow> BatchAcceptor \<Rightarrow> BatchAcceptor result" where
  "handleUpdateRequestMsg msg ba =
     bind_result (GetIncompleteRanges (uq_Ranges msg) (batcher ba)) (\<lambda>(inc, br).
       let ba = ba\<lparr>batcher := br\<rparr>
       in if length inc = 0 then
            bind_result (GetClientCommands (uq_Ranges msg) br) (\<lambda>cmds.
              Ok (ba_send (BUpdateReply \<lparr>up_ID = ba_id ba, up_BatchID = uq_BatchID msg,
                up_Ranges = uq_Ranges msg, up_Values = cmds\<rparr>) (uq_ID msg) ba))
          else Ok ba)"

text \<open>
  The batches that are to be executed and have not been: each iteration of the loop of
  \<open>tryToAdvance\<close> executes one.
\<close>

definition executable :: "BatchAcceptor \<Rightarrow> 64 word set" where
  "executable ba = {i. \<exists>s. States (batchqc ba) i = Some s \<and> bs_Execute s \<and> \<not> bs_Executed s}"

definition execute :: "Request \<Rightarrow> BatchAcceptor \<Rightarrow> BatchAcceptor" where
  "execute req ba = ba\<lparr>ba_dcd := ba_dcd ba @ [\<lparr>Vt = App, Cr = [req], Rc = None\<rparr>]\<rparr>"

definition executeBatch :: "BatchState \<Rightarrow> BatchAcceptor \<Rightarrow> BatchAcceptor result" where
  "executeBatch s ba =
     bind_result (ForEach (batcher ba) (ExecuteRanges s) (SortedKeysRange (ExecuteRanges s))) (\<lambda>reqs.
       let ba = fold execute reqs ba;
           ba = ba\<lparr>batchqc := putState (batchAru ba) (s\<lparr>bs_Executed := True\<rparr>) (batchqc ba)\<rparr>
       in Ok (ba\<lparr>batchAru := batchAru ba + 1\<rparr>))"

lemma fold_execute:
  "fold execute reqs ba = ba\<lparr>ba_dcd := ba_dcd ba @ map (\<lambda>r. \<lparr>Vt = App, Cr = [r], Rc = None\<rparr>) reqs\<rparr>"
  by (induction reqs arbitrary: ba) (simp_all add: execute_def)

lemma executeBatch_less:
  assumes get: "(s, bqc) = GetBatchState (batchAru ba) (batchqc ba)"
    and todo: "bs_Execute s" "\<not> bs_Executed s" and exec: "executeBatch s (ba\<lparr>batchqc := bqc\<rparr>) = Inr ba'"
  shows "card (executable ba') < card (executable ba)"
proof -
  have st: "States (batchqc ba) (batchAru ba) = Some s" "bqc = batchqc ba"
    using get todo by (auto simp: GetBatchState_def zeroState_def split: option.splits)
  have "States (batchqc ba') = (States (batchqc ba))(batchAru ba \<mapsto> s\<lparr>bs_Executed := True\<rparr>)"
    using exec st(2) by (auto simp: executeBatch_def bind_result_Inr_iff fold_execute putState_def Let_def)
  then have "executable ba' = executable ba - {batchAru ba}"
    by (auto simp: executable_def)
  moreover have "batchAru ba \<in> executable ba" using st todo by (simp add: executable_def)
  ultimately show ?thesis
    using card_Diff1_less [of "executable ba" "batchAru ba"] by (simp only: finite)
qed

function tryToAdvance :: "BatchAcceptor \<Rightarrow> BatchAcceptor result" where
  "tryToAdvance ba =
     (case GetBatchState (batchAru ba) (batchqc ba) of
        (s, bqc) \<Rightarrow>
          if bs_Execute s \<and> \<not> bs_Executed s
          then (case executeBatch s (ba\<lparr>batchqc := bqc\<rparr>) of
                  Inl e \<Rightarrow> Inl e
                | Inr ba' \<Rightarrow> tryToAdvance ba')
          else Ok (ba\<lparr>batchqc := bqc\<rparr>))"
  by pat_completeness auto
termination
  by (relation "measure (\<lambda>ba. card (executable ba))") (auto dest: executeBatch_less)

declare tryToAdvance.simps [simp del]

definition handleUpdateReplyMsg :: "UpdateReplyMsg \<Rightarrow> BatchAcceptor \<Rightarrow> BatchAcceptor result" where
  "handleUpdateReplyMsg msg ba =
     (let (s, bqc) = GetBatchState (up_BatchID msg) (batchqc ba);
          ba = ba\<lparr>batchqc := bqc\<rparr>
      in if bs_Execute s then Ok ba
         else
           let ba = ba\<lparr>batcher := SetClientCommands (up_Values msg) (batcher ba)\<rparr>
           in bind_result (GetIncompleteRanges (ExecuteRanges s) (batcher ba)) (\<lambda>(inc, br).
                let ba = ba\<lparr>batcher := br\<rparr>
                in if length inc = 0 then
                     tryToAdvance (ba\<lparr>batchqc :=
                       putState (up_BatchID msg) (s\<lparr>bs_Execute := True\<rparr>) (batchqc ba)\<rparr>)
                   else Fault (Panic ''attempted update didn't bring us up to date'')))"

definition handleLearnMsg :: "BatchLearnMsg \<Rightarrow> BatchAcceptor \<Rightarrow> BatchAcceptor" where
  "handleLearnMsg msg ba =
     (let ba = ba\<lparr>batchqc := AddLearn msg (batchqc ba)\<rparr>;
          (quorum, bqc) = LearnQuorumExists (bl_BatchID msg) (batchqc ba);
          ba = ba\<lparr>batchqc := bqc\<rparr>
      in if quorum then
           let (intersect, bqc) = Intersect (bl_BatchID msg) (batchqc ba);
               (advanced, ranges, bp) = TryBatchPoint intersect (batchpter ba)
           in ba_broadcast (BCommit \<lparr>bc_ID = ba_id ba, bc_BatchID = bl_BatchID msg, bc_Ranges = ranges\<rparr>)
                (ba\<lparr>batchqc := bqc, batchpter := bp\<rparr>)
         else ba)"

definition handleCommitMsg :: "BatchCommitMsg \<Rightarrow> BatchAcceptor \<Rightarrow> BatchAcceptor result" where
  "handleCommitMsg msg ba =
     (let (s, bqc) = GetBatchState (bc_BatchID msg) (batchqc ba);
          s = s\<lparr>ExecuteRanges := bc_Ranges msg\<rparr>;
          ba = ba\<lparr>batchqc := putState (bc_BatchID msg) s bqc\<rparr>
      in bind_result (GetIncompleteRanges (bc_Ranges msg) (batcher ba)) (\<lambda>(inc, br).
           let ba = ba\<lparr>batcher := br\<rparr>
           in if length inc = 0 then
                tryToAdvance (ba\<lparr>batchqc :=
                  putState (bc_BatchID msg) (s\<lparr>bs_Execute := True\<rparr>) (batchqc ba)\<rparr>)
              else Ok (ba_broadcast (BUpdateRequest \<lparr>uq_ID = ba_id ba, uq_BatchID = bc_BatchID msg,
                     uq_Ranges = inc\<rparr>) ba)))"

datatype batch_event =
    BEPropose Value
  | BELearn BatchLearnMsg
  | BECommit BatchCommitMsg
  | BEUpdateRequest UpdateRequestMsg
  | BEUpdateReply UpdateReplyMsg
  | BETimeout
  | BETrust gid

fun batch_step :: "batch_event \<Rightarrow> BatchAcceptor \<Rightarrow> BatchAcceptor result" where
  "batch_step (BEPropose val) ba =
     (if Vt val \<noteq> App then Fault (Panic ''can't handle non client request type value'')
      else handleRequest val ba)"
| "batch_step (BELearn msg) ba = Ok (handleLearnMsg msg ba)"
| "batch_step (BECommit msg) ba = handleCommitMsg msg ba"
| "batch_step (BEUpdateRequest msg) ba = handleUpdateRequestMsg msg ba"
| "batch_step (BEUpdateReply msg) ba = handleUpdateReplyMsg msg ba"
| "batch_step BETimeout ba = handleBatchTimeout (ba\<lparr>timeoutArmed := False\<rparr>)"
| "batch_step (BETrust trustID) ba = Ok (ba\<lparr>ba_leader := trustID\<rparr>)"

end
