(* ===== verification/BatchPaxosRuns.thy ===== *)
theory BatchPaxosRuns
  imports BatchPaxos
begin

text \<open>
  What BatchPaxos guarantees: the batchpoints of the leader split each client's requests into
  ranges that meet without overlap, the intersection of the learns, the update protocol, and the
  order in which a batch acceptor executes its batches.
\<close>

section \<open>The ranges of a batchpoint\<close>

definition reached :: "BatchPoint \<Rightarrow> ClientID \<Rightarrow> 32 word \<Rightarrow> bool" where
  "reached bp cid sn \<longleftrightarrow> (case lookup bp cid of None \<Rightarrow> False | Some hs \<Rightarrow> sn \<le> hs)"

definition covered :: "RangeMap \<Rightarrow> ClientID \<Rightarrow> 32 word \<Rightarrow> bool" where
  "covered rm cid sn \<longleftrightarrow>
     (case lookup rm cid of None \<Rightarrow> False | Some r \<Rightarrow> rg_Start r \<le> sn \<and> sn \<le> rg_Stop r)"

definition lastPoint :: "BatchPointer \<Rightarrow> BatchPoint" where
  "lastPoint bp = (if BatchPoints bp = [] then [] else last (BatchPoints bp))"

definition same_or_more :: "BatchPoint \<Rightarrow> BatchPoint \<Rightarrow> bool" where
  "same_or_more bp1 bp2 \<longleftrightarrow> dom (lookup bp1) \<subseteq> dom (lookup bp2)"

lemma same_or_more_Nil [simp]: "same_or_more [] bp"
  by (simp add: same_or_more_def)

lemma same_or_more_trans: "same_or_more bp1 bp2 \<Longrightarrow> same_or_more bp2 bp3 \<Longrightarrow> same_or_more bp1 bp3"
  unfolding same_or_more_def by (rule subset_trans)

lemma makeRangeMap1_lookup:
  assumes "wf_gomap bp"
  shows "lookup (makeRangeMap1 bp) cid =
    map_option (\<lambda>hs. \<lparr>rg_Start = 0, rg_Stop = hs\<rparr>) (lookup bp cid)"
  using fold_put_map [OF assms, of "\<lambda>_ hs. \<lparr>rg_Start = 0, rg_Stop = hs\<rparr>" "[]"]
  by (simp add: makeRangeMap1_def fun_eq_iff split: option.splits)

lemma makeRangeMap1_covered: "wf_gomap bp \<Longrightarrow> covered (makeRangeMap1 bp) cid sn \<longleftrightarrow> reached bp cid sn"
  by (simp add: covered_def reached_def makeRangeMap1_lookup split: option.splits)

text \<open>A loop that assigns an entry for some of the entries it visits.\<close>

lemma fold_put_some:
  assumes "wf_gomap m"
  shows "lookup (fold (\<lambda>(k, v) acc. case f k v of None \<Rightarrow> acc | Some w \<Rightarrow> put k w acc) m acc) k =
    (case lookup m k of None \<Rightarrow> lookup acc k
     | Some v \<Rightarrow> (case f k v of None \<Rightarrow> lookup acc k | Some w \<Rightarrow> Some w))"
  using assms
proof (induction m arbitrary: acc)
  case (Cons x m)
  obtain j v where x: "x = (j, v)" by (cases x)
  have fresh: "lookup m j = None" "wf_gomap m" using Cons.prems x by (simp_all add: wf_gomap_Cons)
  show ?case
    using Cons.IH [OF fresh(2)] fresh(1) by (simp add: x split: option.split)
qed simp

definition rangeAfter :: "BatchPoint \<Rightarrow> ClientID \<Rightarrow> 32 word \<Rightarrow> ClientRange option" where
  "rangeAfter bp1 cid hs =
     (case lookup bp1 cid of
        None \<Rightarrow> Some \<lparr>rg_Start = 0, rg_Stop = hs\<rparr>
      | Some phs \<Rightarrow> if hs > phs then Some \<lparr>rg_Start = phs + 1, rg_Stop = hs\<rparr> else None)"

lemma makeRangeMap2_lookup:
  assumes "wf_gomap bp2"
  shows "lookup (makeRangeMap2 bp1 bp2) cid =
    (case lookup bp2 cid of None \<Rightarrow> None | Some hs \<Rightarrow> rangeAfter bp1 cid hs)"
proof -
  have "makeRangeMap2 bp1 bp2 =
      fold (\<lambda>(cid, hs) rm. case rangeAfter bp1 cid hs of None \<Rightarrow> rm | Some w \<Rightarrow> put cid w rm) bp2 []"
    unfolding makeRangeMap2_def
    by (intro fold_cong) (auto simp: rangeAfter_def fun_eq_iff split: option.splits)
  then show ?thesis
    by (simp add: fold_put_some [OF assms] split: option.splits)
qed

lemma rangeAfter_covers:
  "(case rangeAfter bp1 cid hs of None \<Rightarrow> False | Some r \<Rightarrow> rg_Start r \<le> sn \<and> sn \<le> rg_Stop r) \<longleftrightarrow>
    sn \<le> hs \<and> \<not> reached bp1 cid sn"
proof (cases "lookup bp1 cid")
  case None
  then show ?thesis by (simp add: rangeAfter_def reached_def)
next
  case (Some phs)
  show ?thesis
  proof (cases "hs > phs")
    case True
    then show ?thesis
      using Some by (auto simp: rangeAfter_def reached_def word_Suc_le_iff [OF True])
  next
    case False
    then show ?thesis
      using Some by (auto simp: rangeAfter_def reached_def)
  qed
qed

lemma makeRangeMap2_covered:
  assumes "wf_gomap bp2"
  shows "covered (makeRangeMap2 bp1 bp2) cid sn \<longleftrightarrow> reached bp2 cid sn \<and> \<not> reached bp1 cid sn"
  by (cases "lookup bp2 cid")
    (simp_all add: covered_def makeRangeMap2_lookup [OF assms] rangeAfter_covers reached_def [of bp2])

definition grown :: "BatchPoint \<Rightarrow> ClientID \<Rightarrow> 32 word \<Rightarrow> 32 word" where
  "grown lastp cid hs = (case lookup lastp cid of None \<Rightarrow> hs | Some phs \<Rightarrow> max hs phs)"

lemma grow_fst:
  "fst (fold (growStep lastp) nbp acc) = fold (\<lambda>(cid, hs). put cid (grown lastp cid hs)) nbp (fst acc)"
proof (induction nbp arbitrary: acc)
  case (Cons x nbp)
  obtain cid hs where x: "x = (cid, hs)" by (cases x)
  have "fst (growStep lastp x acc) = put cid (grown lastp cid hs) (fst acc)"
    by (cases acc) (simp add: x growStep_def grown_def max_def not_less [symmetric] split: option.splits)
  then show ?case by (simp add: Cons.IH x)
qed simp

lemma grow_snd:
  "snd (fold (growStep lastp) nbp acc) \<longleftrightarrow>
    snd acc \<or> list_ex (\<lambda>(cid, hs). case lookup lastp cid of None \<Rightarrow> True | Some phs \<Rightarrow> hs > phs) nbp"
proof (induction nbp arbitrary: acc)
  case (Cons x nbp)
  obtain cid hs where x: "x = (cid, hs)" by (cases x)
  have "snd (growStep lastp x acc) \<longleftrightarrow>
      snd acc \<or> (case lookup lastp cid of None \<Rightarrow> True | Some phs \<Rightarrow> hs > phs)"
    by (cases acc) (simp add: x growStep_def split: option.splits)
  then show ?case by (simp add: Cons.IH x disj_assoc)
qed simp

lemma wf_grow: "wf_gomap acc \<Longrightarrow> wf_gomap (fold (\<lambda>(cid, hs). put cid (f cid hs)) nbp acc)"
  by (induction nbp arbitrary: acc) auto

lemma grow_reached:
  assumes wf: "wf_gomap nbp" and more: "same_or_more lastp nbp"
  shows "reached (fst (fold (growStep lastp) nbp ([], b))) cid sn \<longleftrightarrow>
    reached lastp cid sn \<or> reached nbp cid sn"
proof (cases "lookup nbp cid")
  case None
  then have "lookup lastp cid = None" using more by (auto simp: same_or_more_def dom_def)
  with None show ?thesis by (simp add: grow_fst fold_put_map [OF wf] reached_def)
next
  case (Some hs)
  then show ?thesis
    by (auto simp: grow_fst fold_put_map [OF wf] reached_def grown_def le_max_iff_disj split: option.splits)
qed

lemma grow_stays:
  assumes "\<not> snd (fold (growStep lastp) nbp acc)" and "wf_gomap nbp"
  shows "reached nbp cid sn \<Longrightarrow> reached lastp cid sn"
  using assms
  by (force simp: grow_snd reached_def list_ex_iff lookup_iff split: option.splits)

text \<open>One attempt: the new ranges are exactly what the batchpoint gained.\<close>

lemma TryBatchPoint_covers:
  assumes wf: "wf_gomap nbp" "wf_gomap (lastPoint bp)" and more: "same_or_more (lastPoint bp) nbp"
    and eq: "TryBatchPoint nbp bp = (advanced, rm, bp')"
  shows "wf_gomap (lastPoint bp')"
    and "same_or_more nbp nbp' \<Longrightarrow> same_or_more (lastPoint bp') nbp'"
    and "reached (lastPoint bp') cid sn \<longleftrightarrow> reached (lastPoint bp) cid sn \<or> reached nbp cid sn"
    and "covered rm cid sn \<longleftrightarrow> reached (lastPoint bp') cid sn \<and> \<not> reached (lastPoint bp) cid sn"
proof -
  define l where "l = last (BatchPoints bp)"
  define grtr where "grtr = fst (fold (growStep l) nbp ([], False))"
  have cases: "wf_gomap (lastPoint bp') \<and> (same_or_more nbp nbp' \<longrightarrow> same_or_more (lastPoint bp') nbp') \<and>
     (reached (lastPoint bp') cid sn \<longleftrightarrow> reached (lastPoint bp) cid sn \<or> reached nbp cid sn) \<and>
     (covered rm cid sn \<longleftrightarrow> reached (lastPoint bp') cid sn \<and> \<not> reached (lastPoint bp) cid sn)"
  proof (cases "BatchPoints bp = []")
    case True
    then show ?thesis
      using eq wf makeRangeMap1_covered [OF wf(1)]
      by (auto simp: TryBatchPoint_def lastPoint_def reached_def covered_def split: if_splits)
  next
    case False
    then have l: "lastPoint bp = l" by (simp add: lastPoint_def l_def)
    have "wf_gomap grtr" by (simp add: grtr_def grow_fst wf_grow)
    moreover have "reached grtr cid sn \<longleftrightarrow> reached l cid sn \<or> reached nbp cid sn"
      using grow_reached [OF wf(1)] more unfolding l grtr_def by blast
    moreover have "dom (lookup grtr) = dom (lookup nbp)"
      by (auto simp: grtr_def grow_fst fold_put_map [OF wf(1)] dom_def split: option.splits)
    then have "same_or_more nbp nbp' \<longrightarrow> same_or_more grtr nbp'" by (simp add: same_or_more_def)
    moreover have "same_or_more nbp nbp' \<longrightarrow> same_or_more l nbp'"
      using same_or_more_trans [OF more] l by simp
    moreover obtain rmable where fold: "fold (growStep l) nbp ([], False) = (grtr, rmable)"
      unfolding grtr_def by (metis prod.collapse)
    moreover have "\<not> rmable \<Longrightarrow> reached nbp cid sn \<Longrightarrow> reached l cid sn"
      using grow_stays [OF _ wf(1), of l "([], False)"] fold by simp
    moreover have "lastPoint bp' = (if rmable then grtr else l) \<and>
        rm = (if rmable then makeRangeMap2 l grtr else [])"
      using eq False fold by (auto simp: TryBatchPoint_def l_def Let_def lastPoint_def
          split: if_splits)
    moreover have "wf_gomap grtr \<Longrightarrow> covered (makeRangeMap2 l grtr) cid sn \<longleftrightarrow>
        reached grtr cid sn \<and> \<not> reached l cid sn"
      by (rule makeRangeMap2_covered)
    moreover have "\<not> covered [] cid sn" by (simp add: covered_def)
    ultimately show ?thesis
      using wf(2) unfolding l by (cases rmable) auto
  qed
  show "wf_gomap (lastPoint bp')"
    and "same_or_more nbp nbp' \<Longrightarrow> same_or_more (lastPoint bp') nbp'"
    and "reached (lastPoint bp') cid sn \<longleftrightarrow> reached (lastPoint bp) cid sn \<or> reached nbp cid sn"
    and "covered rm cid sn \<longleftrightarrow> reached (lastPoint bp') cid sn \<and> \<not> reached (lastPoint bp) cid sn"
    using cases by blast+
qed


section \<open>A run of batchpoints\<close>

fun tryRun :: "BatchPoint list \<Rightarrow> BatchPointer \<Rightarrow> RangeMap list" where
  "tryRun [] bp = []"
| "tryRun (nbp # nbps) bp =
     (case TryBatchPoint nbp bp of (_, rm, bp') \<Rightarrow> rm # tryRun nbps bp')"

fun clients_stay :: "BatchPoint list \<Rightarrow> bool" where
  "clients_stay (bp1 # bp2 # bps) \<longleftrightarrow> same_or_more bp1 bp2 \<and> clients_stay (bp2 # bps)"
| "clients_stay _ \<longleftrightarrow> True"

lemma tryRun_count:
  assumes "list_all wf_gomap nbps" and "wf_gomap (lastPoint bp)" and "clients_stay nbps"
    and "case nbps of [] \<Rightarrow> True | nbp # _ \<Rightarrow> same_or_more (lastPoint bp) nbp"
  shows "length (filter (\<lambda>rm. covered rm cid sn) (tryRun nbps bp)) =
    (if \<not> reached (lastPoint bp) cid sn \<and> list_ex (\<lambda>nbp. reached nbp cid sn) nbps then 1 else 0)"
  using assms
proof (induction nbps arbitrary: bp)
  case (Cons nbp nbps)
  obtain advanced rm bp' where eq: "TryBatchPoint nbp bp = (advanced, rm, bp')" by (rule prod_cases3)
  have wf: "wf_gomap nbp" and more: "same_or_more (lastPoint bp) nbp" using Cons.prems by simp_all
  note covers = TryBatchPoint_covers [OF wf Cons.prems(2) more eq]
  have "clients_stay nbps" using Cons.prems(3) by (cases nbps) simp_all
  moreover have "case nbps of [] \<Rightarrow> True | nbp' # _ \<Rightarrow> same_or_more (lastPoint bp') nbp'"
    using Cons.prems(3) covers(2) by (cases nbps) simp_all
  ultimately have "length (filter (\<lambda>rm. covered rm cid sn) (tryRun nbps bp')) =
      (if \<not> reached (lastPoint bp') cid sn \<and> list_ex (\<lambda>nbp. reached nbp cid sn) nbps then 1 else 0)"
    using Cons.prems(1) covers(1) by (intro Cons.IH) simp_all
  then show ?case using covers(3,4) [of cid sn] by (auto simp: eq split: if_splits)
qed simp

text \<open>
  C24. Whatever intersections the leader meets, as long as none of them loses a client that an
  earlier one had, every request is in the range of exactly one batch if some intersection reached
  it, and of none otherwise: no request is executed twice and none is skipped.
\<close>

theorem batchpoints_exactly_once:
  assumes "list_all wf_gomap nbps" and "clients_stay nbps"
  shows "length (filter (\<lambda>rm. covered rm cid sn) (tryRun nbps NewBatchPointer)) =
    (if list_ex (\<lambda>nbp. reached nbp cid sn) nbps then 1 else 0)"
proof -
  have new: "lastPoint NewBatchPointer = []" by (simp add: lastPoint_def NewBatchPointer_def)
  then have "case nbps of [] \<Rightarrow> True | nbp # _ \<Rightarrow> same_or_more (lastPoint NewBatchPointer) nbp"
    by (cases nbps) simp_all
  then show ?thesis
    using tryRun_count [of nbps NewBatchPointer cid sn] assms by (simp add: new reached_def)
qed

definition growing :: "BatchPoint list" where
  "growing = [[(''a'', 1)], [(''a'', 3), (''b'', 2)], [(''b'', 1), (''a'', 5)]]"

theorem batchpoints_exactly_once_witness:
  "length (filter (\<lambda>rm. covered rm ''a'' 2) (tryRun growing NewBatchPointer)) = 1 \<and>
   length (filter (\<lambda>rm. covered rm ''b'' 3) (tryRun growing NewBatchPointer)) = 0"
proof -
  have wf: "list_all wf_gomap growing" by code_simp
  have stay: "clients_stay growing"
    by (auto simp: growing_def same_or_more_def)
  have "list_ex (\<lambda>nbp. reached nbp ''a'' 2) growing" "\<not> list_ex (\<lambda>nbp. reached nbp ''b'' 3) growing"
    by code_simp+
  then show ?thesis
    using batchpoints_exactly_once [OF wf stay, of "''a''" 2]
      batchpoints_exactly_once [OF wf stay, of "''b''" 3] by simp
qed

text \<open>
  A client missing from one intersection is forgotten: when it is back its range starts at 0
  again, and its first requests are in two batches.
\<close>

lemma dropped_client_runs_twice:
  "length (filter (\<lambda>rm. covered rm ''a'' 0)
     (tryRun [[(''a'', 1)], [(''b'', 1)], [(''a'', 2), (''b'', 1)]] NewBatchPointer)) = 2"
  by code_simp

section \<open>The intersection of the learns\<close>

lemma countClient_lookup:
  assumes "wf_gomap m"
  shows "lookup (fold (\<lambda>(cid, _) count. put cid (at0 0 count cid + 1) count) m count) cid =
    (case lookup m cid of None \<Rightarrow> lookup count cid | Some (_ :: 32 word) \<Rightarrow> Some (at0 0 count cid + (1 :: int)))"
  using assms
proof (induction m arbitrary: count)
  case (Cons x m)
  obtain j v where x: "x = (j, v)" by (cases x)
  have fresh: "lookup m j = None" "wf_gomap m" using Cons.prems x by (simp_all add: wf_gomap_Cons)
  show ?case
    using Cons.IH [OF fresh(2)] fresh(1) by (auto simp: x at0_def split: option.split)
qed simp

lemma wf_countClient:
  "wf_gomap count \<Longrightarrow> wf_gomap (fold (\<lambda>(cid, _) count. put cid (f count cid) count) m count)"
  by (induction m arbitrary: count) auto

definition has_client :: "ClientID \<Rightarrow> BatchLearnMsg \<Rightarrow> bool" where
  "has_client cid m \<longleftrightarrow> lookup (bl_HSS m) cid \<noteq> None"

lemma countClients_lookup:
  assumes "list_all (\<lambda>m. wf_gomap (bl_HSS m)) msgs"
  shows "lookup (countClients msgs) cid =
    (if filter (has_client cid) msgs = [] then None else Some (int (length (filter (has_client cid) msgs))))"
    and "wf_gomap (countClients msgs)"
  using assms
proof (induction msgs rule: rev_induct)
  case Nil
  { case 1 then show ?case by (simp add: countClients_def)
  next case 2 then show ?case by (simp add: countClients_def) }
next
  case (snoc m msgs)
  have step: "countClients (msgs @ [m]) =
      fold (\<lambda>(cid, _) count. put cid (at0 0 count cid + 1) count) (bl_HSS m) (countClients msgs)"
    by (simp add: countClients_def)
  { case 1
    then have wf: "wf_gomap (bl_HSS m)" and "list_all (\<lambda>m. wf_gomap (bl_HSS m)) msgs" by simp_all
    then show ?case
      using snoc.IH(1) unfolding step countClient_lookup [OF wf]
      by (cases "lookup (bl_HSS m) cid")
        (simp_all add: has_client_def [of cid m] at0_def [of 0 "countClients msgs"])
  next
    case 2
    then show ?case using snoc.IH(2) by (simp add: step wf_countClient) }
qed

lemma findMinFrom_le:
  "sn \<le> findMinFrom cid False m msgs \<longleftrightarrow> sn \<le> m \<and> list_all (\<lambda>msg. sn \<le> at0 0 (bl_HSS msg) cid) msgs"
proof (induction msgs arbitrary: m)
  case (Cons msg msgs)
  show ?case
  proof (cases "at0 0 (bl_HSS msg) cid < m")
    case True
    then have "sn \<le> at0 0 (bl_HSS msg) cid \<Longrightarrow> sn \<le> m" by simp
    with True show ?thesis using Cons.IH by auto
  next
    case False
    then have "sn \<le> m \<Longrightarrow> sn \<le> at0 0 (bl_HSS msg) cid" by simp
    with False show ?thesis using Cons.IH by auto
  qed
qed simp

lemma findMin_le:
  "msgs \<noteq> [] \<Longrightarrow> sn \<le> findMin msgs cid \<longleftrightarrow> list_all (\<lambda>msg. sn \<le> at0 0 (bl_HSS msg) cid) msgs"
  by (cases msgs) (simp_all add: findMin_def findMinFrom_le)

lemma fold_if_some:
  "fold (\<lambda>(k, v) acc. if P k v then put k (g k v) acc else acc) m acc =
   fold (\<lambda>(k, v) acc. case (if P k v then Some (g k v) else None) of None \<Rightarrow> acc | Some w \<Rightarrow> put k w acc) m acc"
  by (intro fold_cong) (auto simp: fun_eq_iff)

lemma Intersect_lookup:
  assumes st: "States bqc batchid = Some s" and some: "bs_Learns s \<noteq> []"
    and wf: "list_all (\<lambda>m. wf_gomap (bl_HSS m)) (bs_Learns s)"
  shows "lookup (fst (Intersect batchid bqc)) cid =
    (if list_all (has_client cid) (bs_Learns s) then Some (findMin (bs_Learns s) cid) else None)"
proof -
  have all: "length (filter (has_client cid) (bs_Learns s)) = length (bs_Learns s) \<longleftrightarrow>
      list_all (has_client cid) (bs_Learns s)"
    using length_filter_le [of "has_client cid" "bs_Learns s"]
    by (auto simp: list_all_iff dest: length_filter_less)
  show ?thesis
    using all some
    by (auto simp: Intersect_def GetBatchState_def st fold_if_some countClients_lookup [OF wf]
        fold_put_some [OF countClients_lookup(2) [OF wf]] split: option.splits)
qed

text \<open>
  The intersection is what its name says: a request is reached by the batchpoint the leader
  computes from the learns of a batch exactly when every one of the learns reaches it.
\<close>

theorem Intersect_correct:
  assumes "States bqc batchid = Some s" and "bs_Learns s \<noteq> []"
    and "list_all (\<lambda>m. wf_gomap (bl_HSS m)) (bs_Learns s)"
  shows "reached (fst (Intersect batchid bqc)) cid sn \<longleftrightarrow>
    list_all (\<lambda>m. reached (bl_HSS m) cid sn) (bs_Learns s)"
proof -
  have reached: "reached (bl_HSS m) cid sn \<longleftrightarrow> has_client cid m \<and> sn \<le> at0 0 (bl_HSS m) cid" for m
    by (simp add: reached_def has_client_def at0_def split: option.splits)
  have "list_all (\<lambda>m. reached (bl_HSS m) cid sn) (bs_Learns s) \<longleftrightarrow>
      list_all (has_client cid) (bs_Learns s) \<and> list_all (\<lambda>m. sn \<le> at0 0 (bl_HSS m) cid) (bs_Learns s)"
    by (auto simp: reached list_all_iff)
  then show ?thesis
    by (simp add: Intersect_lookup [OF assms] findMin_le [OF assms(2)] reached_def [of "fst _"])
qed

definition twoLearns :: BatchQuorumChecker where
  "twoLearns = AddLearn \<lparr>bl_ID = ID 1 0, bl_BatchID = 0, bl_HSS = [(''a'', 3), (''b'', 1)]\<rparr>
     (AddLearn \<lparr>bl_ID = ID 0 0, bl_BatchID = 0, bl_HSS = [(''a'', 5)]\<rparr> (NewBatchQuorumChecker 2))"

theorem Intersect_correct_witness:
  "reached (fst (Intersect 0 twoLearns)) ''a'' 3 \<and> \<not> reached (fst (Intersect 0 twoLearns)) ''b'' 1"
proof -
  obtain s where s: "States twoLearns 0 = Some s" "bs_Learns s \<noteq> []"
    "list_all (\<lambda>m. wf_gomap (bl_HSS m)) (bs_Learns s)"
    "list_all (\<lambda>m. reached (bl_HSS m) ''a'' 3) (bs_Learns s)"
    "\<not> list_all (\<lambda>m. reached (bl_HSS m) ''b'' 1) (bs_Learns s)"
    by (simp add: twoLearns_def AddLearn_def GetBatchState_def putState_def NewBatchQuorumChecker_def
        zeroState_def wf_gomap_def reached_def)
  show ?thesis
    using Intersect_correct [OF s(1-3), of "''a''" 3] Intersect_correct [OF s(1-3), of "''b''" 1] s(4,5)
    by simp
qed

section \<open>The update protocol\<close>

definition logged :: "Batcher \<Rightarrow> ClientID \<Rightarrow> 32 word \<Rightarrow> Request option" where
  "logged br cid sn = Option.bind (lookup (CLog br) cid) (\<lambda>e. cl_Values e sn)"

definition batcher_ok :: "Batcher \<Rightarrow> bool" where
  "batcher_ok br \<longleftrightarrow> (\<forall>cid e sn r. lookup (CLog br) cid = Some e \<longrightarrow> cl_Values e sn = Some r \<longrightarrow>
     GetId r = cid \<and> GetSeq r = sn \<and> sn \<le> HighestSeen e)"

definition complete :: "Batcher \<Rightarrow> RangeMap \<Rightarrow> bool" where
  "complete br rngs \<longleftrightarrow>
     (\<forall>cid r sn. (cid, r) \<in> set rngs \<longrightarrow> rg_Start r \<le> sn \<longrightarrow> sn \<le> rg_Stop r \<longrightarrow> logged br cid sn \<noteq> None)"

definition stops_ok :: "RangeMap \<Rightarrow> bool" where
  "stops_ok rngs \<longleftrightarrow> list_all (\<lambda>(_, r). rg_Stop r \<noteq> - 1) rngs"

lemma GetRequest_logged: "GetRequest cid sn br = (case logged br cid sn of None \<Rightarrow> zeroRequest | Some r \<Rightarrow> r)"
  by (simp add: GetRequest_def logged_def split: option.split)

lemma GetLog_logged:
  assumes "GetLog cid br = (log, br')"
  shows "logged br' = logged br" and "cl_Values log = logged br cid"
    and "batcher_ok br \<Longrightarrow> batcher_ok br'"
  using assms
  by (auto simp: GetLog_def logged_def emptyLog_def batcher_ok_def fun_eq_iff split: option.splits if_splits)

lemma LogRequest_logged:
  "logged (LogRequest req br) cid sn =
     (if GetId req = cid \<and> GetSeq req = sn then Some req else logged br cid sn)"
proof -
  obtain log br' where log: "GetLog (GetId req) br = (log, br')" by (rule prod.exhaust)
  show ?thesis
    using GetLog_logged(1,2) [OF log]
    by (auto simp: LogRequest_def log logged_def Let_def fun_eq_iff split: if_splits)
qed

lemma LogRequest_ok: "batcher_ok br \<Longrightarrow> batcher_ok (LogRequest req br)"
proof -
  assume "batcher_ok br"
  obtain log br' where log: "GetLog (GetId req) br = (log, br')" by (rule prod.exhaust)
  have ok: "batcher_ok br'" and entry: "lookup (CLog br') (GetId req) = Some log"
    using GetLog_logged(3) [OF log \<open>batcher_ok br\<close>] log
    by (auto simp: GetLog_def split: option.splits)
  have "sn \<le> HighestSeen log" if "cl_Values log sn = Some r" for sn r
    using ok entry that by (auto simp: batcher_ok_def)
  moreover have "sn \<le> HighestSeen log \<Longrightarrow> HighestSeen log < GetSeq req \<Longrightarrow> sn \<le> GetSeq req" for sn
    by simp
  ultimately show ?thesis
    using ok entry by (auto simp: LogRequest_def log Let_def batcher_ok_def not_less)
qed

lemma fold_LogRequest_ok: "batcher_ok br \<Longrightarrow> batcher_ok (fold LogRequest reqs br)"
  by (induction reqs arbitrary: br) (simp_all add: LogRequest_ok)

lemma SetClientCommands_fold: "SetClientCommands cmdmap br = fold LogRequest (concat (map snd cmdmap)) br"
  by (induction cmdmap arbitrary: br) (auto simp: SetClientCommands_def)

lemma SetClientCommands_ok: "batcher_ok br \<Longrightarrow> batcher_ok (SetClientCommands cmdmap br)"
  by (simp add: SetClientCommands_fold fold_LogRequest_ok)

text \<open>Logging requests that are all filed in one log makes the two logs agree on them.\<close>

lemma fold_LogRequest_logged:
  assumes "\<And>r. r \<in> set reqs \<Longrightarrow> f (GetId r) (GetSeq r) = Some r"
  shows "logged (fold LogRequest reqs br) cid sn =
    (if list_ex (\<lambda>r. GetId r = cid \<and> GetSeq r = sn) reqs then f cid sn else logged br cid sn)"
  using assms
proof (induction reqs rule: rev_induct)
  case (snoc r reqs)
  then show ?case by (auto simp: LogRequest_logged)
qed simp

lemma someMissing_False:
  assumes "someMissing vals i stop = Some b"
  shows "\<not> b \<Longrightarrow> i \<le> sn \<Longrightarrow> sn \<le> stop \<Longrightarrow> vals sn \<noteq> None"
  using assms
proof (elim someMissing.raw_induct
    [where P = "\<lambda>vals i stop b. \<not> b \<longrightarrow> (\<forall>sn. i \<le> sn \<longrightarrow> sn \<le> stop \<longrightarrow> vals sn \<noteq> None)",
      THEN mp, THEN spec, THEN mp, THEN mp, rotated])
  fix f and vals :: "32 word \<rightharpoonup> Request" and i stop b
  assume IH: "\<And>vals i stop b. f vals i stop = Some b \<Longrightarrow>
      \<not> b \<longrightarrow> (\<forall>sn. i \<le> sn \<longrightarrow> sn \<le> stop \<longrightarrow> vals sn \<noteq> None)"
    and eq: "(if i \<le> stop then if vals i = None then Some True else f vals (i + 1) stop else Some False) = Some b"
  show "\<not> b \<longrightarrow> (\<forall>sn. i \<le> sn \<longrightarrow> sn \<le> stop \<longrightarrow> vals sn \<noteq> None)"
  proof (intro impI allI)
    fix sn assume b: "\<not> b" and le: "i \<le> sn" "sn \<le> stop"
    then have here: "vals i \<noteq> None" "f vals (i + 1) stop = Some b"
      using eq order_trans [OF le] by (auto split: if_splits)
    show "vals sn \<noteq> None"
    proof (cases "sn = i")
      case False
      then have "i < sn" using le(1) by simp
      then have "i + 1 \<le> sn" by (simp add: word_Suc_le_iff [OF \<open>i < sn\<close>])
      then show ?thesis using IH [OF here(2)] b le(2) by blast
    qed (simp add: here)
  qed
qed

lemma someMissing_complete:
  assumes "stop \<noteq> - 1" and "\<And>sn. i \<le> sn \<Longrightarrow> sn \<le> stop \<Longrightarrow> vals sn \<noteq> None"
  shows "someMissing vals i stop = Some False"
  using assms(2)
proof (induction "unat (stop + 1) - unat i" arbitrary: i rule: less_induct)
  case less
  show ?case
  proof (cases "i \<le> stop")
    case True
    then have lt: "i < stop + 1" by (simp add: word_less_Suc_iff [OF assms(1)])
    have "vals i \<noteq> None" using less.prems True by simp
    moreover have "someMissing vals (i + 1) stop = Some False"
    proof (rule less.hyps [OF word_distance_decreases [OF lt]])
      fix sn assume "i + 1 \<le> sn" and "sn \<le> stop"
      moreover have "i \<le> sn" using \<open>i + 1 \<le> sn\<close> by (simp add: word_Suc_le_iff [OF lt])
      ultimately show "vals sn \<noteq> None" using less.prems by simp
    qed
    ultimately show ?thesis using True by (subst someMissing.simps) simp
  next
    case False
    then show ?thesis by (subst someMissing.simps) simp
  qed
qed

lemma GetIncompleteRanges_logged:
  assumes "GetIncompleteRanges rngs br = Ok (inc, br')"
  shows "logged br' = logged br" and "batcher_ok br \<Longrightarrow> batcher_ok br'" and "inc = [] \<Longrightarrow> complete br rngs"
proof -
  have "logged br' = logged br \<and> (batcher_ok br \<longrightarrow> batcher_ok br') \<and> (inc = [] \<longrightarrow> complete br rngs)"
    using assms
  proof (induction rngs br arbitrary: inc br' rule: GetIncompleteRanges.induct)
    case (2 cid rng rngs br)
    obtain log br1 where log: "GetLog cid br = (log, br1)" by (rule prod.exhaust)
    note same = GetLog_logged [OF log]
    obtain missing inc' br2 where eqs: "someMissing (cl_Values log) (rg_Start rng) (rg_Stop rng) = Some missing"
      "GetIncompleteRanges rngs br1 = Ok (inc', br2)" "br' = br2"
      "inc = (if missing then (cid, rng) # inc' else inc')"
      using "2.prems" by (auto simp: log bind_result_Inr_iff split: option.splits)
    note ih = "2.IH" [OF log [symmetric] refl eqs(1,2)]
    show ?case
      using ih same someMissing_False [OF eqs(1)] eqs(3,4)
      by (auto simp: complete_def split: if_splits)
  qed (simp add: complete_def)
  then show "logged br' = logged br" and "batcher_ok br \<Longrightarrow> batcher_ok br'" and "inc = [] \<Longrightarrow> complete br rngs"
    by simp_all
qed

lemma GetIncompleteRanges_complete:
  assumes "complete br rngs" and "stops_ok rngs"
  shows "\<exists>br'. GetIncompleteRanges rngs br = Ok ([], br')"
  using assms
proof (induction rngs arbitrary: br)
  case (Cons x rngs)
  obtain cid rng where x: "x = (cid, rng)" by (cases x)
  obtain log br1 where log: "GetLog cid br = (log, br1)" by (rule prod.exhaust)
  note same = GetLog_logged [OF log]
  have "someMissing (cl_Values log) (rg_Start rng) (rg_Stop rng) = Some False"
    using Cons.prems by (intro someMissing_complete) (auto simp: x same(2) complete_def stops_ok_def)
  moreover have "\<exists>br'. GetIncompleteRanges rngs br1 = Ok ([], br')"
    using Cons.prems by (intro Cons.IH) (auto simp: x same(1) complete_def stops_ok_def)
  ultimately show ?case by (auto simp: x log)
qed simp

text \<open>The commands of a range: the slice has exactly one place for each of them.\<close>

definition wellformed :: "RangeMap \<Rightarrow> bool" where
  "wellformed rngs \<longleftrightarrow> wf_gomap rngs \<and> list_all (\<lambda>(_, r). rg_Start r \<le> rg_Stop r) rngs"

lemma unat_of_nat_32: "n < 2 ^ 32 \<Longrightarrow> unat (of_nat n :: 32 word) = n"
  by (simp add: unat_of_nat take_bit_nat_eq_self)

lemma fill_slice:
  fixes start :: "32 word"
  assumes "k \<le> n" and "unat start + n \<le> 2 ^ 32"
  shows "fold (\<lambda>i res. bind_result res (\<lambda>cs. update_index cs (uint (i - start)) (g i)))
      (map of_nat [unat start..<unat start + k]) (Ok (replicate n z)) =
    Ok (map (\<lambda>j. g (of_nat j)) [unat start..<unat start + k] @ replicate (n - k) z)"
  using assms(1)
proof (induction k)
  case (Suc k)
  let ?i = "of_nat (unat start + k) :: 32 word"
  have "unat ?i = unat start + k"
    using Suc.prems assms(2) by (intro unat_of_nat_32) simp
  then have "start \<le> ?i" by (simp add: word_le_nat_alt)
  then have "start \<le> ?i" by (simp only: word_le_nat_alt le_add1)
  then have "unat (?i - start) = k"
    using \<open>unat ?i = unat start + k\<close> by (simp only: unat_sub add_diff_cancel_left')
  then have at: "uint (?i - start) = int k" by (simp only: uint_nat)
  let ?L = "map (\<lambda>j. g (of_nat j)) [unat start..<unat start + k]"
  have "length ?L = k" by simp
  have slice: "replicate (n - k) z = z # replicate (n - Suc k) z"
    using Suc.prems by (simp add: Suc_diff_Suc flip: replicate_Suc)
  have upd: "update_index (?L @ replicate (n - k) z) (int k) (g ?i) = Ok ((?L @ [g ?i]) @ replicate (n - Suc k) z)"
    using \<open>length ?L = k\<close> unfolding slice by (simp add: list_update_append del: map_upt_Suc)
  have ih: "fold (\<lambda>i res. bind_result res (\<lambda>cs. update_index cs (uint (i - start)) (g i)))
      (map of_nat [unat start..<unat start + k]) (Ok (replicate n z)) = Ok (?L @ replicate (n - k) z)"
    using Suc.prems by (intro Suc.IH) simp
  have up: "[unat start..<unat start + Suc k] = [unat start..<unat start + k] @ [unat start + k]"
    by simp
  show ?case
    unfolding up map_append list.map fold_append o_apply ih fold_simps bind_result_simps at upd ..
qed simp

lemma clientCommands_eq:
  assumes "rg_Start rng \<le> rg_Stop rng"
  shows "clientCommands br cid rng =
    (if rg_Stop rng = - 1 then Fault Diverges
     else Ok (map (\<lambda>i. GetRequest cid i br) (word_upto (rg_Start rng) (rg_Stop rng))))"
proof (cases "rg_Stop rng = - 1")
  case False
  let ?n = "Suc (unat (rg_Stop rng)) - unat (rg_Start rng)"
  have le: "unat (rg_Start rng) \<le> unat (rg_Stop rng)" using assms by (simp add: word_le_nat_alt)
  have "rg_Stop rng < rg_Stop rng + 1" using False by (simp add: word_less_Suc_iff)
  then have Suc: "unat (rg_Stop rng + 1) = Suc (unat (rg_Stop rng))" by (rule unat_Suc_word)
  have small: "Suc (unat (rg_Stop rng)) < 2 ^ 32"
    using unsigned_less [where 'b = 32 and 'a = nat, of "rg_Stop rng + 1"] unfolding Suc by simp
  have "rg_Start rng \<le> rg_Stop rng + 1" using le Suc by (simp add: word_le_nat_alt)
  then have "unat ((rg_Stop rng + 1) - rg_Start rng) = ?n" by (simp only: unat_sub Suc)
  then have len: "unat (rg_Stop rng - rg_Start rng + 1) = ?n"
    by (simp only: diff_add_eq)
  show ?thesis
    using fill_slice [of ?n ?n "rg_Start rng" "\<lambda>i. GetRequest cid i br" zeroRequest] le small
    unfolding clientCommands_def for_le_fold len
    by (simp add: False word_upto_def)
qed (simp add: clientCommands_def for_le_fold)

lemma GetClientCommands_Ok:
  assumes "GetClientCommands rngs br = Ok cmds" and "list_all (\<lambda>(_, r). rg_Start r \<le> rg_Stop r) rngs"
  shows "set (concat (map snd cmds)) =
      {GetRequest cid sn br | cid sn r. (cid, r) \<in> set rngs \<and> rg_Start r \<le> sn \<and> sn \<le> rg_Stop r} \<and>
    stops_ok rngs"
  using assms
proof (induction rngs arbitrary: cmds)
  case (Cons x rngs)
  obtain cid rng where x: "x = (cid, rng)" by (cases x)
  have "rg_Start rng \<le> rg_Stop rng" using Cons.prems(2) by (simp add: x)
  then obtain rest where eqs: "GetClientCommands rngs br = Ok rest" "rg_Stop rng \<noteq> - 1"
    "cmds = (cid, map (\<lambda>i. GetRequest cid i br) (word_upto (rg_Start rng) (rg_Stop rng))) # rest"
    using Cons.prems(1) by (auto simp: x clientCommands_eq bind_result_Inr_iff split: if_splits)
  have ih: "set (concat (map snd rest)) =
      {GetRequest cid sn br | cid sn r. (cid, r) \<in> set rngs \<and> rg_Start r \<le> sn \<and> sn \<le> rg_Stop r} \<and>
    stops_ok rngs"
    using Cons.prems(2) by (intro Cons.IH [OF eqs(1)]) simp
  have "set (concat (map snd cmds)) =
      {GetRequest cid sn br | sn. rg_Start rng \<le> sn \<and> sn \<le> rg_Stop rng} \<union> set (concat (map snd rest))"
    by (auto simp: eqs(3))
  then show ?case using ih eqs(2) by (auto simp: x stops_ok_def)
qed (simp add: stops_ok_def)

text \<open>
  A round trip of the update protocol: when a replica that has the requested ranges answers,
  the commands it packs into the reply bring any receiver up to date (its ranges are complete,
  so the fatal "didn't bring us up to date" is not met), and for every request of the ranges the
  receiver's log then holds the very request of the sender's.
\<close>

theorem update_roundtrip:
  assumes ok: "batcher_ok br" and wf: "wellformed rngs"
    and have_all: "GetIncompleteRanges rngs br = Ok ([], br')"
    and cmds: "GetClientCommands rngs br' = Ok cmds"
  shows "(\<exists>rcv'. GetIncompleteRanges rngs (SetClientCommands cmds rcv) = Ok ([], rcv')) \<and>
    (covered rngs cid sn \<longrightarrow>
      GetRequest cid sn (SetClientCommands cmds rcv) = GetRequest cid sn br)"
proof -
  note inc = GetIncompleteRanges_logged [OF have_all]
  have complete: "complete br rngs" using inc(3) by simp
  have set: "set (concat (map snd cmds)) =
      {GetRequest cid sn br' | cid sn r. (cid, r) \<in> set rngs \<and> rg_Start r \<le> sn \<and> sn \<le> rg_Stop r}"
    and stops: "stops_ok rngs"
    using GetClientCommands_Ok [OF cmds] wf by (simp_all add: wellformed_def)
  have filed: "\<exists>r. logged br cid sn = Some r \<and> GetId r = cid \<and> GetSeq r = sn"
    if "(cid, rng) \<in> set rngs" "rg_Start rng \<le> sn" "sn \<le> rg_Stop rng" for cid rng sn
    using complete ok that unfolding complete_def batcher_ok_def logged_def
    by (cases "lookup (CLog br) cid") fastforce+
  have mem: "r \<in> set (concat (map snd cmds)) \<longleftrightarrow> (\<exists>cid sn rng. (cid, rng) \<in> set rngs \<and>
      rg_Start rng \<le> sn \<and> sn \<le> rg_Stop rng \<and> logged br cid sn = Some r)" for r
    unfolding set using filed by (fastforce simp: GetRequest_logged inc(1))
  have after: "logged (SetClientCommands cmds rcv) cid sn = logged br cid sn"
    if rng: "(cid, rng) \<in> set rngs" "rg_Start rng \<le> sn" "sn \<le> rg_Stop rng" for cid rng sn
  proof -
    obtain r where r: "logged br cid sn = Some r" "GetId r = cid" "GetSeq r = sn"
      using filed [OF rng] by blast
    have "list_ex (\<lambda>r. GetId r = cid \<and> GetSeq r = sn) (concat (map snd cmds))"
      unfolding list_ex_iff using mem [of r] rng r by blast
    moreover have "logged br (GetId r) (GetSeq r) = Some r" if "r \<in> set (concat (map snd cmds))" for r
      using that mem filed by fastforce
    ultimately show ?thesis
      by (simp only: SetClientCommands_fold fold_LogRequest_logged [of _ "logged br"] if_True)
  qed
  have "complete (SetClientCommands cmds rcv) rngs"
    using after complete unfolding complete_def by (metis option.distinct(1))
  then have "\<exists>rcv'. GetIncompleteRanges rngs (SetClientCommands cmds rcv) = Ok ([], rcv')"
    using GetIncompleteRanges_complete stops by blast
  moreover have "covered rngs cid sn \<Longrightarrow>
      GetRequest cid sn (SetClientCommands cmds rcv) = GetRequest cid sn br"
    using after map_of_SomeD [of rngs cid]
    by (fastforce simp: covered_def GetRequest_logged split: option.splits)
  ultimately show ?thesis by simp
qed

definition reqOf :: "string \<Rightarrow> 32 word \<Rightarrow> Request" where
  "reqOf cid sn = \<lparr>req_Type = None, req_Id = Some cid, req_Seq = Some sn, req_Val = []\<rparr>"

definition sender :: Batcher where
  "sender = LogRequest (reqOf ''a'' 1) (LogRequest (reqOf ''a'' 0) NewBatcher)"

lemma NewBatcher_ok [simp]: "batcher_ok NewBatcher"
  by (simp add: batcher_ok_def NewBatcher_def)

theorem update_roundtrip_witness:
  "GetRequest ''a'' 1 (SetClientCommands [(''a'', [reqOf ''a'' 0, reqOf ''a'' 1])] NewBatcher) =
   GetRequest ''a'' 1 sender"
proof -
  define rngs :: RangeMap where "rngs = [(''a'', \<lparr>rg_Start = 0, rg_Stop = 1\<rparr>)]"
  have ok: "batcher_ok sender" by (simp add: sender_def LogRequest_ok)
  have wf: "wellformed rngs" by (simp add: rngs_def wellformed_def wf_gomap_def)
  have have_all: "GetIncompleteRanges rngs sender = Ok ([], sender)"
    unfolding rngs_def by code_simp
  have cmds: "GetClientCommands rngs sender = Ok [(''a'', [reqOf ''a'' 0, reqOf ''a'' 1])]"
    unfolding rngs_def by code_simp
  have "covered rngs ''a'' 1" by (simp add: covered_def rngs_def)
  then show ?thesis using update_roundtrip [OF ok wf have_all cmds] by simp
qed

section \<open>Executing the batches\<close>

definition rangesOf :: "BatchAcceptor \<Rightarrow> 64 word \<Rightarrow> RangeMap" where
  "rangesOf ba i = (case States (batchqc ba) i of None \<Rightarrow> [] | Some s \<Rightarrow> ExecuteRanges s)"

definition rangeReqs :: "Batcher \<Rightarrow> RangeMap \<Rightarrow> ClientID \<Rightarrow> Request list" where
  "rangeReqs br rngs cid =
     (let r = at0 \<lparr>rg_Start = 0, rg_Stop = 0\<rparr> rngs cid
      in map (\<lambda>i. GetRequest cid i br) (word_upto (rg_Start r) (rg_Stop r)))"

text \<open>What a batch stands for: the requests of its ranges, clients in order.\<close>

definition batchReqs :: "Batcher \<Rightarrow> RangeMap \<Rightarrow> Request list" where
  "batchReqs br rngs = concat (map (rangeReqs br rngs) (SortedKeysRange rngs))"

lemma rangeRequests_Ok: "rangeRequests br rngs cid = Ok reqs \<Longrightarrow> reqs = rangeReqs br rngs cid"
  by (auto simp: rangeRequests_def rangeReqs_def for_le_fold fold_append_map Let_def split: if_splits)

lemma ForEach_Ok: "ForEach br rngs cids = Ok reqs \<Longrightarrow> reqs = concat (map (rangeReqs br rngs) cids)"
  by (induction cids arbitrary: reqs) (auto simp: bind_result_Inr_iff dest: rangeRequests_Ok)

lemma at0_stops_ok: "stops_ok rngs \<Longrightarrow> rg_Stop (at0 \<lparr>rg_Start = 0, rg_Stop = 0\<rparr> rngs cid) \<noteq> - 1"
  by (auto simp: at0_def stops_ok_def list_all_iff dest!: map_of_SomeD split: option.splits)

lemma ForEach_returns: "stops_ok rngs \<Longrightarrow> ForEach br rngs cids = Ok (concat (map (rangeReqs br rngs) cids))"
  by (induction cids)
    (simp_all add: rangeRequests_def rangeReqs_def for_le_fold fold_append_map Let_def at0_stops_ok)

abbreviation decided :: "Request list \<Rightarrow> Value list" where
  "decided \<equiv> map (\<lambda>r. \<lparr>Vt = App, Cr = [r], Rc = None\<rparr>)"

lemma executeBatch_Ok:
  assumes "executeBatch s ba = Ok ba'"
  shows "ba' = ba\<lparr>ba_dcd := ba_dcd ba @ decided (batchReqs (batcher ba) (ExecuteRanges s)),
      batchqc := putState (batchAru ba) (s\<lparr>bs_Executed := True\<rparr>) (batchqc ba), batchAru := batchAru ba + 1\<rparr>"
  using assms
  by (auto simp: executeBatch_def bind_result_Inr_iff Let_def fold_execute batchReqs_def dest!: ForEach_Ok)

lemma executeBatch_returns: "stops_ok (ExecuteRanges s) \<Longrightarrow> \<exists>ba'. executeBatch s ba = Ok ba'"
  by (simp add: executeBatch_def ForEach_returns Let_def)

definition executed :: "BatchAcceptor \<Rightarrow> 64 word set" where
  "executed ba = {i. \<exists>s. States (batchqc ba) i = Some s \<and> bs_Executed s}"

text \<open>The batches \<open>tryToAdvance\<close> executes: \<open>n\<close> of them from \<open>batchAru\<close> on.\<close>

definition nextBatches :: "BatchAcceptor \<Rightarrow> nat \<Rightarrow> 64 word list" where
  "nextBatches ba n = map (\<lambda>k. batchAru ba + of_nat k) [0..<n]"

lemma nextBatches_Suc: "nextBatches ba (Suc n) = batchAru ba # nextBatches (ba\<lparr>batchAru := batchAru ba + 1\<rparr>) n"
  by (simp add: nextBatches_def upt_conv_Cons map_Suc_upt [symmetric] o_def algebra_simps del: upt_Suc)

lemma GetBatchState_same:
  assumes "GetBatchState i bqc = (s, bqc')"
  shows "States bqc' i = Some s" and "j \<noteq> i \<Longrightarrow> States bqc' j = States bqc j"
    and "States bqc i = None \<and> s = zeroState \<or> States bqc i = Some s \<and> bqc' = bqc"
  using assms by (auto simp: GetBatchState_def split: option.splits)

definition advanced :: "BatchAcceptor \<Rightarrow> nat \<Rightarrow> BatchAcceptor \<Rightarrow> bool" where
  "advanced ba n ba' \<longleftrightarrow> batcher ba' = batcher ba \<and> batchAru ba' = batchAru ba + of_nat n \<and>
     set (nextBatches ba n) \<subseteq> executable ba \<and>
     executable ba' = executable ba - set (nextBatches ba n) \<and>
     executed ba' = executed ba \<union> set (nextBatches ba n) \<and>
     ba_dcd ba' = ba_dcd ba @
       decided (concat (map (\<lambda>i. batchReqs (batcher ba) (rangesOf ba i)) (nextBatches ba n)))"

lemma nextBatches_cong: "batchAru ba' = batchAru ba \<Longrightarrow> nextBatches ba' n = nextBatches ba n"
  by (simp add: nextBatches_def)

lemma advanced_step:
  assumes get: "States (batchqc ba) (batchAru ba) = Some s" "bs_Execute s" "\<not> bs_Executed s"
    and exec: "executeBatch s ba = Ok ba1" and rest: "advanced ba1 n ba'"
  shows "advanced ba (Suc n) ba'"
proof -
  note ba1 = executeBatch_Ok [OF exec]
  have Suc: "nextBatches ba (Suc n) = batchAru ba # nextBatches ba1 n"
    unfolding nextBatches_Suc by (simp add: ba1 nextBatches_cong)
  have "executable ba1 = executable ba - {batchAru ba}" and "executed ba1 = insert (batchAru ba) (executed ba)"
    and "rangesOf ba1 = rangesOf ba"
    using get by (auto simp: ba1 executable_def executed_def rangesOf_def putState_def fun_eq_iff)
  moreover have "batchAru ba \<in> executable ba" using get by (simp add: executable_def)
  moreover have "rangesOf ba (batchAru ba) = ExecuteRanges s" using get by (simp add: rangesOf_def)
  moreover have "batcher ba1 = batcher ba" "batchAru ba1 = batchAru ba + 1"
    "ba_dcd ba1 = ba_dcd ba @ decided (batchReqs (batcher ba) (ExecuteRanges s))"
    by (simp_all add: ba1)
  ultimately show ?thesis
    using rest unfolding advanced_def Suc by auto
qed

lemma advanced_0: "(s, bqc) = GetBatchState (batchAru ba) (batchqc ba) \<Longrightarrow> advanced ba 0 (ba\<lparr>batchqc := bqc\<rparr>)"
  by (auto simp: advanced_def nextBatches_def executable_def executed_def GetBatchState_def zeroState_def
      split: option.splits)

lemma tryToAdvance_Ok:
  assumes "tryToAdvance ba = Ok ba'"
  shows "\<exists>n. advanced ba n ba' \<and> batchAru ba' \<notin> executable ba'"
  using assms
proof (induction ba rule: tryToAdvance.induct)
  case (1 ba)
  obtain s bqc where get: "(s, bqc) = GetBatchState (batchAru ba) (batchqc ba)"
    by (metis prod.exhaust)
  note st = GetBatchState_same [OF get [symmetric]]
  show ?case
  proof (cases "bs_Execute s \<and> \<not> bs_Executed s")
    case True
    then have same: "States (batchqc ba) (batchAru ba) = Some s" "bqc = batchqc ba"
      using st(3) by (auto simp: zeroState_def)
    then obtain ba1 where ba1: "executeBatch s (ba\<lparr>batchqc := bqc\<rparr>) = Ok ba1" "tryToAdvance ba1 = Ok ba'"
      using "1.prems" True by (subst (asm) tryToAdvance.simps) (auto simp: get [symmetric] split: sum.splits)
    then obtain n where n: "advanced ba1 n ba'" "batchAru ba' \<notin> executable ba'"
      using "1.IH" [OF get True] by blast
    have "executeBatch s ba = Ok ba1" using ba1(1) same(2) by simp
    with True same n show ?thesis using advanced_step by blast
  next
    case False
    then have "ba' = ba\<lparr>batchqc := bqc\<rparr>"
      using "1.prems" by (subst (asm) tryToAdvance.simps) (auto simp: get [symmetric] split: if_splits)
    then have "advanced ba 0 ba'" and "batchAru ba' \<notin> executable ba'"
      using advanced_0 [OF get] False st(1) by (auto simp: executable_def)
    then show ?thesis by blast
  qed
qed

lemma tryToAdvance_returns:
  assumes "\<And>i. stops_ok (rangesOf ba i)"
  shows "\<exists>ba'. tryToAdvance ba = Ok ba'"
  using assms
proof (induction ba rule: tryToAdvance.induct)
  case (1 ba)
  obtain s bqc where get: "(s, bqc) = GetBatchState (batchAru ba) (batchqc ba)"
    by (metis prod.exhaust)
  note st = GetBatchState_same [OF get [symmetric]]
  show ?case
  proof (cases "bs_Execute s \<and> \<not> bs_Executed s")
    case True
    then have same: "States (batchqc ba) (batchAru ba) = Some s" "bqc = batchqc ba"
      using st(3) by (auto simp: zeroState_def)
    have "stops_ok (ExecuteRanges s)" using "1.prems" [of "batchAru ba"] same by (simp add: rangesOf_def)
    then obtain ba1 where ba1: "executeBatch s (ba\<lparr>batchqc := bqc\<rparr>) = Ok ba1"
      using executeBatch_returns by blast
    have "rangesOf ba1 i = rangesOf ba i" for i
      using executeBatch_Ok [OF ba1] same by (auto simp: rangesOf_def putState_def)
    then obtain ba' where "tryToAdvance ba1 = Ok ba'"
      using "1.IH" [OF get True ba1] "1.prems" by auto
    then show ?thesis using True ba1 by (subst tryToAdvance.simps) (simp add: get [symmetric])
  next
    case False
    then show ?thesis by (subst tryToAdvance.simps) (auto simp: get [symmetric])
  qed
qed

text \<open>
  C25. The loop of tryToAdvance ends, whatever the state, provided no range to execute ends at the
  greatest sequence number: it executes the ready batches from batchAru on one by one, in order and
  without a gap, sends the requests of each to the server exactly once and in the order of its
  ranges, marks them executed, and stops at the first batch that is not ready.
\<close>

theorem tryToAdvance_correct:
  assumes "\<And>i. stops_ok (rangesOf ba i)"
  shows "\<exists>n ba'. tryToAdvance ba = Ok ba' \<and> advanced ba n ba' \<and> batchAru ba' \<notin> executable ba'"
  using tryToAdvance_returns [OF assms] tryToAdvance_Ok by blast

definition readyState :: BatchState where
  "readyState = zeroState\<lparr>bs_Execute := True,
     ExecuteRanges := [(''a'', \<lparr>rg_Start = 0, rg_Stop = 1\<rparr>)]\<rparr>"

definition readyAcceptor :: BatchAcceptor where
  "readyAcceptor = \<lparr>ba_startable = True, ba_id = ID 0 0, ba_leader = ID 0 0, batcher = sender,
     batchpter = NewBatchPointer, batchqc = putState 0 readyState (NewBatchQuorumChecker 2),
     batchAru = 0, batchMaxReq = 10, currNumReq = 0, timeoutArmed = False,
     ba_ucast = [], ba_bcast = [], ba_dcd = []\<rparr>"

theorem tryToAdvance_correct_witness:
  "\<exists>n ba'. tryToAdvance readyAcceptor = Ok ba' \<and> advanced readyAcceptor n ba' \<and>
     batchAru ba' \<notin> executable ba'"
proof (rule tryToAdvance_correct)
  fix i show "stops_ok (rangesOf readyAcceptor i)"
    by (simp add: rangesOf_def readyAcceptor_def putState_def NewBatchQuorumChecker_def readyState_def
        stops_ok_def zeroState_def)
qed

section \<open>The batch acceptor over a run\<close>

fun batch_run :: "batch_event list \<Rightarrow> BatchAcceptor \<Rightarrow> BatchAcceptor result" where
  "batch_run [] ba = Ok ba"
| "batch_run (ev # evs) ba = bind_result (batch_step ev ba) (batch_run evs)"

text \<open>
  The invariant: the executed batches are the first \<open>n\<close> ones, and every logged request is filed
  under its own client and sequence number, within what the log says is the highest seen.
\<close>

definition ba_inv :: "BatchAcceptor \<Rightarrow> bool" where
  "ba_inv ba \<longleftrightarrow> batcher_ok (batcher ba) \<and>
     (\<exists>n. batchAru ba = of_nat n \<and> executed ba = of_nat ` {..<n})"

definition keeps :: "BatchAcceptor \<Rightarrow> BatchAcceptor \<Rightarrow> bool" where
  "keeps ba ba' \<longleftrightarrow> (batcher_ok (batcher ba) \<longrightarrow> batcher_ok (batcher ba')) \<and>
     batchAru ba' = batchAru ba \<and> executed ba' = executed ba"

lemma keeps_inv: "keeps ba ba' \<Longrightarrow> ba_inv ba \<Longrightarrow> ba_inv ba'"
  by (simp add: keeps_def ba_inv_def)

lemma advanced_inv:
  assumes "advanced ba n ba'" and "ba_inv ba"
  shows "ba_inv ba'"
proof -
  obtain m where m: "batchAru ba = of_nat m" "executed ba = of_nat ` {..<m}"
    using assms(2) by (auto simp: ba_inv_def)
  have "set (nextBatches ba n) = of_nat ` {m..<m + n}"
  proof -
    have "nextBatches ba n = map of_nat (map (\<lambda>k. k + m) [0..<n])"
      by (simp add: nextBatches_def m(1) ac_simps)
    also have "map (\<lambda>k. k + m) [0..<n] = [m..<m + n]" by (simp add: map_add_upt ac_simps)
    finally show ?thesis by simp
  qed
  moreover have "{..<m + n} = {..<m} \<union> {m..<m + n}" by auto
  ultimately have "executed ba' = of_nat ` {..<m + n}"
    using assms(1) m(2) by (simp add: advanced_def image_Un)
  moreover have "batchAru ba' = of_nat (m + n)" using assms(1) m(1) by (simp add: advanced_def)
  moreover have "batcher_ok (batcher ba')" using assms by (simp add: ba_inv_def advanced_def)
  ultimately show ?thesis unfolding ba_inv_def by blast
qed

lemma tryToAdvance_inv: "tryToAdvance ba = Ok ba' \<Longrightarrow> ba_inv ba \<Longrightarrow> ba_inv ba'"
  using tryToAdvance_Ok advanced_inv by blast

lemma GetBatchState_executed:
  assumes "GetBatchState i bqc = (s, bqc')"
  shows "executed (ba\<lparr>batchqc := bqc'\<rparr>) = executed (ba\<lparr>batchqc := bqc\<rparr>)"
    and "executed (ba\<lparr>batchqc := putState i s' bqc'\<rparr>) =
      (if bs_Executed s' = bs_Executed s then executed (ba\<lparr>batchqc := bqc\<rparr>)
       else executed (ba\<lparr>batchqc := putState i s' bqc'\<rparr>))"
  using assms
  by (auto simp: GetBatchState_def executed_def putState_def zeroState_def split: option.splits if_splits)

lemma GetBatch_ok: "GetBatch br = Ok (b, br') \<Longrightarrow> batcher_ok br \<Longrightarrow> batcher_ok br'"
  by (auto simp: GetBatch_def makeBatch_def batcher_ok_def Let_def split: if_splits option.splits)

lemma executed_upd [simp]:
  "executed (ba\<lparr>batcher := br\<rparr>) = executed ba"
  "executed (ba\<lparr>batchpter := bp\<rparr>) = executed ba"
  "executed (ba\<lparr>batchAru := aru\<rparr>) = executed ba"
  "executed (ba\<lparr>ba_ucast := msgs\<rparr>) = executed ba"
  "executed (ba\<lparr>ba_bcast := bmsgs\<rparr>) = executed ba"
  "executed (ba\<lparr>timeoutArmed := t\<rparr>) = executed ba"
  "executed (ba\<lparr>currNumReq := c\<rparr>) = executed ba"
  "executed (ba\<lparr>ba_leader := l\<rparr>) = executed ba"
  by (simp_all add: executed_def)

lemma executed_cong: "batchqc ba' = batchqc ba \<Longrightarrow> executed ba' = executed ba"
  by (simp add: executed_def)

lemma executed_putState:
  assumes "States (batchqc ba) i = Some s" and "bs_Executed s' = bs_Executed s"
    and "batchqc ba' = putState i s' (batchqc ba)"
  shows "executed ba' = executed ba"
  using assms by (auto simp: executed_def putState_def)

lemma executed_get:
  assumes "GetBatchState i (batchqc ba) = (s, bqc)" and "bs_Executed s' = bs_Executed s"
    and "batchqc ba' = putState i s' bqc \<or> batchqc ba' = bqc"
  shows "executed ba' = executed ba"
  using assms
  by (auto simp: executed_def putState_def GetBatchState_def zeroState_def split: option.splits if_splits)

lemma sendBatch_keeps:
  assumes "sendBatch ba = Ok ba'"
  shows "keeps ba ba'"
proof -
  obtain b br where br: "GetBatch (batcher ba) = Ok (b, br)"
    using assms by (auto simp: sendBatch_def bind_result_Inr_iff)
  then show ?thesis
    using assms GetBatch_ok [OF br]
    by (auto simp: sendBatch_def resetTimer_def ba_send_def keeps_def Let_def split: option.splits)
qed

lemma keeps_refl: "keeps ba ba"
  by (simp add: keeps_def)

lemma keeps_trans: "keeps ba ba1 \<Longrightarrow> keeps ba1 ba' \<Longrightarrow> keeps ba ba'"
  by (simp add: keeps_def)

lemma handleRequest_keeps:
  assumes "handleRequest val ba = Ok ba'"
  shows "keeps ba ba'"
proof -
  obtain req rest where cr: "Cr val = req # rest"
    using assms by (auto simp: handleRequest_def split: list.splits)
  define ba1 where "ba1 = ba\<lparr>batcher := LogRequest req (batcher ba),
    currNumReq := (currNumReq ba + 1) mod batchMaxReq ba\<rparr>"
  have "keeps ba ba1" by (simp add: ba1_def keeps_def LogRequest_ok)
  moreover have "sendBatch ba1 = Ok ba' \<or> ba' = ba1"
    using assms by (auto simp: handleRequest_def cr Let_def ba1_def split: if_splits)
  ultimately show ?thesis using sendBatch_keeps keeps_trans by blast
qed

lemma handleUpdateRequestMsg_keeps: "handleUpdateRequestMsg msg ba = Ok ba' \<Longrightarrow> keeps ba ba'"
  by (auto simp: handleUpdateRequestMsg_def bind_result_Inr_iff ba_send_def keeps_def
      Let_def dest: GetIncompleteRanges_logged(2) split: if_splits)

lemma AddLearn_executed: "executed (ba\<lparr>batchqc := AddLearn msg (batchqc ba)\<rparr>) = executed ba"
proof -
  obtain s bqc where get: "GetBatchState (bl_BatchID msg) (batchqc ba) = (s, bqc)" by (rule prod.exhaust)
  show ?thesis
    by (rule executed_get [OF get, of "s\<lparr>bs_Learns := bs_Learns s @ [msg]\<rparr>"])
      (simp_all add: AddLearn_def get)
qed

lemma LearnQuorumExists_executed:
  assumes "LearnQuorumExists i (batchqc ba) = (q, bqc)" and "batchqc ba' = bqc"
  shows "executed ba' = executed ba"
proof -
  obtain s bqc1 where get: "GetBatchState i (batchqc ba) = (s, bqc1)" by (rule prod.exhaust)
  have "bqc = bqc1 \<or> bqc = putState i (s\<lparr>LearnsNotified := True\<rparr>) bqc1"
    using assms(1) by (auto simp: LearnQuorumExists_def get Let_def split: if_splits)
  then show ?thesis using assms(2) by (intro executed_get [OF get, of "s\<lparr>LearnsNotified := True\<rparr>"]) auto
qed

lemma Intersect_executed:
  assumes "Intersect i (batchqc ba) = (m, bqc)" and "batchqc ba' = bqc"
  shows "executed ba' = executed ba"
proof -
  obtain s bqc1 where get: "GetBatchState i (batchqc ba) = (s, bqc1)" by (rule prod.exhaust)
  have "bqc = bqc1" using assms(1) by (simp add: Intersect_def get Let_def)
  then show ?thesis using assms(2) by (intro executed_get [OF get refl]) simp
qed

lemma handleLearnMsg_keeps: "keeps ba (handleLearnMsg msg ba)"
proof -
  define ba1 where "ba1 = ba\<lparr>batchqc := AddLearn msg (batchqc ba)\<rparr>"
  obtain q bqc where q: "LearnQuorumExists (bl_BatchID msg) (batchqc ba1) = (q, bqc)" by (rule prod.exhaust)
  define ba2 where "ba2 = ba1\<lparr>batchqc := bqc\<rparr>"
  obtain m bqc' where m: "Intersect (bl_BatchID msg) (batchqc ba2) = (m, bqc')" by (rule prod.exhaust)
  obtain adv rm bp where t: "TryBatchPoint m (batchpter ba2) = (adv, rm, bp)" by (rule prod_cases3)
  have "executed ba1 = executed ba" unfolding ba1_def by (rule AddLearn_executed)
  moreover have "executed ba2 = executed ba1" by (rule LearnQuorumExists_executed [OF q]) (simp add: ba2_def)
  moreover have "handleLearnMsg msg ba = (if q then ba_broadcast
      (BCommit \<lparr>bc_ID = ba_id ba2, bc_BatchID = bl_BatchID msg, bc_Ranges = rm\<rparr>)
      (ba2\<lparr>batchqc := bqc', batchpter := bp\<rparr>) else ba2)"
    using q m t by (simp add: handleLearnMsg_def Let_def ba1_def ba2_def)
  moreover have "batcher ba2 = batcher ba" "batchAru ba2 = batchAru ba" by (simp_all add: ba1_def ba2_def)
  ultimately show ?thesis
    using Intersect_executed [OF m] by (auto simp: keeps_def ba_broadcast_def)
qed

lemma ba_inv_upd [simp]:
  "ba_inv (ba\<lparr>ba_bcast := msgs\<rparr>) = ba_inv ba"
  "ba_inv (ba\<lparr>timeoutArmed := t\<rparr>) = ba_inv ba"
  "ba_inv (ba\<lparr>ba_leader := l\<rparr>) = ba_inv ba"
  by (simp_all add: ba_inv_def)

lemma inv_upd:
  assumes "ba_inv ba" and "batcher_ok br" and "executed ba' = executed ba"
    and "batcher ba' = br" and "batchAru ba' = batchAru ba"
  shows "ba_inv ba'"
  using assms by (simp add: ba_inv_def)

lemma handleCommitMsg_inv:
  assumes "handleCommitMsg msg ba = Ok ba'" and "ba_inv ba"
  shows "ba_inv ba'"
proof -
  obtain s bqc where get: "GetBatchState (bc_BatchID msg) (batchqc ba) = (s, bqc)" by (rule prod.exhaust)
  obtain inc br where inc: "GetIncompleteRanges (bc_Ranges msg) (batcher ba) = Ok (inc, br)"
    using assms(1) by (auto simp: handleCommitMsg_def get Let_def bind_result_Inr_iff)
  have br: "batcher_ok br"
    using GetIncompleteRanges_logged(2) [OF inc] assms(2) by (simp add: ba_inv_def)
  define s1 where "s1 = s\<lparr>ExecuteRanges := bc_Ranges msg\<rparr>"
  define ba1 where "ba1 = ba\<lparr>batchqc := putState (bc_BatchID msg) s1 bqc, batcher := br\<rparr>"
  define ba2 where "ba2 = ba1\<lparr>batchqc := putState (bc_BatchID msg) (s1\<lparr>bs_Execute := True\<rparr>) (batchqc ba1)\<rparr>"
  have "executed ba1 = executed ba"
    by (rule executed_get [OF get, of s1]) (simp_all add: ba1_def s1_def)
  then have "ba_inv ba1" by (intro inv_upd [OF assms(2) br]) (simp_all add: ba1_def)
  have "executed ba2 = executed ba1"
    by (rule executed_putState [of _ "bc_BatchID msg" s1 "s1\<lparr>bs_Execute := True\<rparr>"])
      (simp_all add: ba2_def ba1_def putState_def)
  with \<open>ba_inv ba1\<close> have "ba_inv ba2" by (simp add: ba_inv_def ba2_def)
  have "tryToAdvance ba2 = Ok ba' \<or> (\<exists>m. ba' = ba_broadcast m ba1)"
    using assms(1)
    by (auto simp: handleCommitMsg_def get inc Let_def ba2_def ba1_def s1_def split: if_splits)
  then show ?thesis
    using \<open>ba_inv ba1\<close> \<open>ba_inv ba2\<close> tryToAdvance_inv by (auto simp: ba_broadcast_def)
qed

lemma handleUpdateReplyMsg_inv:
  assumes "handleUpdateReplyMsg msg ba = Ok ba'" and "ba_inv ba"
  shows "ba_inv ba'"
proof -
  obtain s bqc where get: "GetBatchState (up_BatchID msg) (batchqc ba) = (s, bqc)" by (rule prod.exhaust)
  define br1 where "br1 = SetClientCommands (up_Values msg) (batcher ba)"
  have br1: "batcher_ok br1" using assms(2) by (simp add: br1_def ba_inv_def SetClientCommands_ok)
  show ?thesis
  proof (cases "bs_Execute s")
    case True
    then have "ba' = ba\<lparr>batchqc := bqc\<rparr>" using assms(1) by (simp add: handleUpdateReplyMsg_def get)
    moreover have "executed (ba\<lparr>batchqc := bqc\<rparr>) = executed ba" by (rule executed_get [OF get refl]) simp
    ultimately show ?thesis using assms(2) by (simp add: ba_inv_def)
  next
    case False
    then obtain br where inc: "GetIncompleteRanges (ExecuteRanges s) br1 = Ok ([], br)"
      using assms(1)
      by (auto simp: handleUpdateReplyMsg_def get Let_def bind_result_Inr_iff br1_def split: if_splits)
    have br: "batcher_ok br" using GetIncompleteRanges_logged(2) [OF inc br1] .
    define ba1 where "ba1 = ba\<lparr>batcher := br, batchqc := putState (up_BatchID msg) (s\<lparr>bs_Execute := True\<rparr>) bqc\<rparr>"
    have "executed ba1 = executed ba"
      by (rule executed_get [OF get, of "s\<lparr>bs_Execute := True\<rparr>"]) (simp_all add: ba1_def)
    then have "ba_inv ba1" by (intro inv_upd [OF assms(2) br]) (simp_all add: ba1_def)
    moreover have "tryToAdvance ba1 = Ok ba'"
      using assms(1) False inc by (simp add: handleUpdateReplyMsg_def get Let_def br1_def ba1_def)
    ultimately show ?thesis using tryToAdvance_inv by blast
  qed
qed

lemma batch_step_inv: "batch_step ev ba = Ok ba' \<Longrightarrow> ba_inv ba \<Longrightarrow> ba_inv ba'"
  by (cases ev)
    (auto simp: handleBatchTimeout_def split: if_splits
      dest: handleRequest_keeps handleUpdateRequestMsg_keeps sendBatch_keeps
      intro: keeps_inv keeps_inv [OF handleLearnMsg_keeps] handleUpdateReplyMsg_inv handleCommitMsg_inv keeps_inv [of "_\<lparr>timeoutArmed := False\<rparr>"])

text \<open>
  C26. Whatever a batch acceptor is sent, in whatever order: the batches it has executed are exactly
  the first ones, up to batchAru, so each is executed once and none before an earlier one; and every
  request in its log is filed under its own client and sequence number, no further than what the
  log tells the leader is the highest seen.
\<close>

theorem batch_executes_in_order:
  assumes "NewBatchAcceptor i runAcc leader nrOfAcc maxReq batchMaxSize = Ok ba"
    and "batch_run evs ba = Ok ba'"
  shows "batcher_ok (batcher ba') \<and> (\<exists>n. batchAru ba' = of_nat n \<and> executed ba' = of_nat ` {..<n})"
proof -
  have "batcher_ok (batcher ba)" "batchAru ba = of_nat 0" "executed ba = of_nat ` {..<0}"
    using assms(1) by (auto simp: NewBatchAcceptor_def executed_def NewBatchQuorumChecker_def split: if_splits)
  then have "ba_inv ba" unfolding ba_inv_def by blast
  then have "ba_inv ba'"
    using assms(2)
    by (induction evs arbitrary: ba) (auto simp: bind_result_Inr_iff dest: batch_step_inv)
  then show ?thesis by (simp add: ba_inv_def)
qed

definition oneBatch :: "batch_event list" where
  "oneBatch = [BEPropose \<lparr>Vt = App, Cr = [reqOf ''a'' 0], Rc = None\<rparr>, BETimeout,
     BECommit \<lparr>bc_ID = ID 0 0, bc_BatchID = 0, bc_Ranges = [(''a'', \<lparr>rg_Start = 0, rg_Stop = 0\<rparr>)]\<rparr>]"

theorem batch_executes_in_order_witness:
  "\<exists>ba ba' n. NewBatchAcceptor (ID 1 0) True (ID 0 0) 3 10 1 = Ok ba \<and> batch_run oneBatch ba = Ok ba' \<and>
     batchAru ba' = 1 \<and> batchAru ba' = of_nat n \<and> executed ba' = of_nat ` {..<n}"
proof -
  have "case bind_result (NewBatchAcceptor (ID 1 0) True (ID 0 0) 3 10 1) (batch_run oneBatch) of
      Inl _ \<Rightarrow> False | Inr ba' \<Rightarrow> batchAru ba' = 1" by code_simp
  then obtain ba ba' where run: "NewBatchAcceptor (ID 1 0) True (ID 0 0) 3 10 1 = Ok ba"
    "batch_run oneBatch ba = Ok ba'" "batchAru ba' = 1"
    by (auto simp: bind_result_def split: sum.splits)
  then show ?thesis using batch_executes_in_order [OF run(1,2)] by blast
qed

end
