(* ===== verification/EpochGen.thy ===== *)
theory EpochGen
  imports Grp "HOL-Library.Countable"
begin

text \<open>
  The epochs of replacers (\<open>src/lr/epochgen.go\<close>, \<open>src/ringreplacer/epochgen.go\<close>): every replica has
  a generator, seeded with its own id, whose epochs are greater than the one to replace and never
  meet those of another replica's generator. The closure is the record of what it captures.
\<close>

definition cantorPairing :: "64 word \<Rightarrow> 64 word \<Rightarrow> 64 word" where
  "cantorPairing k1 k2 = (k1 + k2) * (k1 + k2 + 1) div 2 + k2"

record EpochGenerator =
  baseForNode :: "64 word"
  eg_n :: "64 word"

definition epochGenerator :: "gid \<Rightarrow> EpochGenerator" where
  "epochGenerator i = \<lparr>baseForNode = cantorPairing (scast (PaxosID i)) (Epoch i), eg_n = 0\<rparr>"

partial_function (option) epochLoop ::
  "64 word \<Rightarrow> epoch \<Rightarrow> 64 word \<Rightarrow> 64 word \<Rightarrow> (epoch \<times> 64 word) option" where
  "epochLoop base oldEpoch replacerEpoch n =
     (if replacerEpoch \<le> oldEpoch then epochLoop base oldEpoch (cantorPairing base n) (n + 1)
      else Some (replacerEpoch, n))"

declare epochLoop.simps [code]

definition getReplacerEpoch :: "epoch \<Rightarrow> EpochGenerator \<Rightarrow> (epoch \<times> EpochGenerator) result" where
  "getReplacerEpoch oldEpoch g =
     (case epochLoop (baseForNode g) oldEpoch 0 (eg_n g) of
        None \<Rightarrow> Fault Diverges
      | Some (e, n) \<Rightarrow> Ok (e, g\<lparr>eg_n := n\<rparr>))"

fun getReplacerEpochs :: "epoch list \<Rightarrow> EpochGenerator \<Rightarrow> epoch list result" where
  "getReplacerEpochs [] g = Ok []"
| "getReplacerEpochs (old # olds) g =
     bind_result (getReplacerEpoch old g) (\<lambda>(e, g).
     bind_result (getReplacerEpochs olds g) (\<lambda>es. Ok (e # es)))"

section \<open>The pairing\<close>

lemma unat_add_exact:
  fixes a b :: "64 word"
  assumes "unat a + unat b < 2 ^ 64"
  shows "unat (a + b) = unat a + unat b"
  using assms by (simp add: unat_word_ariths)

lemma unat_mult_exact:
  fixes a b :: "64 word"
  assumes "unat a * unat b < 2 ^ 64"
  shows "unat (a * b) = unat a * unat b"
  using assms by (simp add: unat_word_ariths)

text \<open>Without overflow the pairing is Cantor's, which is injective.\<close>

lemma cantorPairing_exact:
  assumes "unat k1 + unat k2 < 2 ^ 31"
  shows "unat (cantorPairing k1 k2) = prod_encode (unat k2, unat k1)"
proof -
  let ?s = "unat k1 + unat k2"
  have s: "unat (k1 + k2) = ?s" using assms by (intro unat_add_exact) simp
  have s1: "unat (k1 + k2 + 1) = ?s + 1"
    using assms by (subst unat_add_exact) (simp_all add: s)
  have le: "?s * (?s + 1) \<le> 2 ^ 31 * 2 ^ 31" using assms by (intro mult_le_mono) simp_all
  then have "unat ((k1 + k2) * (k1 + k2 + 1)) = ?s * (?s + 1)"
    by (subst unat_mult_exact) (simp_all only: s s1, simp)
  then have "unat ((k1 + k2) * (k1 + k2 + 1) div 2) = ?s * (?s + 1) div 2"
    by (simp add: unat_div_distrib)
  moreover have "?s * (?s + 1) div 2 \<le> 2 ^ 61" using div_le_mono [OF le, of 2] by simp
  ultimately have "unat (cantorPairing k1 k2) = ?s * (?s + 1) div 2 + unat k2"
    unfolding cantorPairing_def using assms by (subst unat_add_exact) simp_all
  then show ?thesis by (simp add: prod_encode_def triangle_def add.commute)
qed

lemma cantorPairing_inj:
  assumes "unat k1 + unat k2 < 2 ^ 31" and "unat j1 + unat j2 < 2 ^ 31"
    and "cantorPairing k1 k2 = cantorPairing j1 j2"
  shows "k1 = j1 \<and> k2 = j2"
proof -
  have "prod_encode (unat k2, unat k1) = prod_encode (unat j2, unat j1)"
    using assms by (simp flip: cantorPairing_exact)
  then show ?thesis by (simp add: word_unat_eq_iff)
qed

lemma cantorPairing_ge: "unat k1 + unat k2 < 2 ^ 31 \<Longrightarrow> unat k2 \<le> unat (cantorPairing k1 k2)"
  by (simp add: cantorPairing_exact le_prod_encode_1)

section \<open>The generator\<close>

text \<open>The generator has drawn the numbers below \<open>n\<close>; the bounds rule out every overflow.\<close>

lemma unat_Suc_small: "unat (n :: 64 word) < 2 ^ 32 \<Longrightarrow> unat (n + 1) = Suc (unat n)"
  by (subst unat_add_exact) simp_all

lemma epochLoop_draws:
  assumes "unat base < 2 ^ 30" and "unat old < 2 ^ 29" and "unat n < 2 ^ 30" and "rep \<le> old"
  shows "\<exists>n'. epochLoop base old rep n = Some (cantorPairing base n', n' + 1) \<and>
    old < cantorPairing base n' \<and> unat n \<le> unat n' \<and> unat n' \<le> max (unat n) (unat old + 1)"
  using assms(3,4)
proof (induction "unat old + 2 - unat n" arbitrary: n rep rule: less_induct)
  case less
  let ?rep = "cantorPairing base n"
  have small: "unat base + unat n < 2 ^ 31" using assms(1) less.prems(1) by simp
  have Suc: "unat (n + 1) = Suc (unat n)" using less.prems(1) by (intro unat_Suc_small) simp
  have step: "epochLoop base old rep n = epochLoop base old ?rep (n + 1)"
    using less.prems(2) by (subst epochLoop.simps) simp
  show ?case
  proof (cases "old < ?rep")
    case True
    then have "epochLoop base old ?rep (n + 1) = Some (?rep, n + 1)"
      by (subst epochLoop.simps) (auto dest: leD)
    with True show ?thesis unfolding step by (intro exI [of _ n]) simp
  next
    case False
    then have n: "unat n \<le> unat old"
      using cantorPairing_ge [OF small] by (simp add: not_less word_le_nat_alt)
    have "\<exists>n'. epochLoop base old ?rep (n + 1) = Some (cantorPairing base n', n' + 1) \<and>
        old < cantorPairing base n' \<and> unat (n + 1) \<le> unat n' \<and> unat n' \<le> max (unat (n + 1)) (unat old + 1)"
    proof (rule less.hyps)
      show "unat old + 2 - unat (n + 1) < unat old + 2 - unat n" using n Suc by simp
      show "unat (n + 1) < 2 ^ 30" using n Suc assms(2) by simp
      show "?rep \<le> old" using False by simp
    qed
    then show ?thesis unfolding step using n Suc by (auto simp: max_def split: if_splits)
  qed
qed

text \<open>
  Within its bounds the generator returns: an epoch greater than the one it is to replace, drawn
  from its own base at an index no earlier than all it has used, so it never repeats itself.
\<close>

theorem getReplacerEpoch_returns:
  assumes "unat (baseForNode g) < 2 ^ 30" and "unat old < 2 ^ 29" and "unat (eg_n g) < 2 ^ 30"
  shows "\<exists>n. getReplacerEpoch old g = Ok (cantorPairing (baseForNode g) n, g\<lparr>eg_n := n + 1\<rparr>) \<and>
    old < cantorPairing (baseForNode g) n \<and> eg_n g \<le> n \<and> unat n \<le> max (unat (eg_n g)) (unat old + 1)"
  using epochLoop_draws [OF assms, of 0] by (auto simp: getReplacerEpoch_def word_le_nat_alt)

theorem getReplacerEpoch_returns_witness:
  "\<exists>e g'. getReplacerEpoch 7 (epochGenerator (ID 2 0)) = Ok (e, g') \<and> 7 < e"
proof -
  have "unat (baseForNode (epochGenerator (ID 2 0))) < 2 ^ 30" "unat (7 :: epoch) < 2 ^ 29"
    "unat (eg_n (epochGenerator (ID 2 0))) < 2 ^ 30"
    by (simp_all add: epochGenerator_def cantorPairing_def)
  from getReplacerEpoch_returns [OF this] show ?thesis by blast
qed

text \<open>Over a run, what is drawn stays among the pairs of the generator's own base.\<close>

definition small_epoch :: "epoch \<Rightarrow> bool" where
  "small_epoch e \<longleftrightarrow> unat e < 2 ^ 29"

lemma getReplacerEpochs_draws:
  assumes "unat (baseForNode g) < 2 ^ 30" and "list_all small_epoch olds"
    and "unat (eg_n g) \<le> 2 ^ 29 + k" and "k + length olds < 2 ^ 29"
  shows "\<exists>es. getReplacerEpochs olds g = Ok es \<and> distinct es \<and> list_all2 (<) olds es \<and>
    set es \<subseteq> {cantorPairing (baseForNode g) n | n. eg_n g \<le> n \<and> unat n < 2 ^ 30}"
  using assms
proof (induction olds arbitrary: g k)
  case (Cons old olds)
  have "unat (eg_n g) < 2 ^ 30" using Cons.prems(3,4) by simp
  then obtain n where n: "epochLoop (baseForNode g) old 0 (eg_n g) = Some (cantorPairing (baseForNode g) n, n + 1)"
      "old < cantorPairing (baseForNode g) n" "eg_n g \<le> n" "unat n \<le> max (unat (eg_n g)) (unat old + 1)"
    using Cons.prems(1,2) epochLoop_draws [of "baseForNode g" old "eg_n g" 0]
    by (auto simp: small_epoch_def word_le_nat_alt)
  let ?g = "g\<lparr>eg_n := n + 1\<rparr>"
  have bound: "unat n \<le> 2 ^ 29 + k" using n(4) Cons.prems(2,3) by (auto simp: small_epoch_def)
  have Suc: "unat (n + 1) = Suc (unat n)" using bound Cons.prems(4) by (intro unat_Suc_small) simp
  obtain es where es: "getReplacerEpochs olds ?g = Ok es" "distinct es" "list_all2 (<) olds es"
      "set es \<subseteq> {cantorPairing (baseForNode g) m | m. n + 1 \<le> m \<and> unat m < 2 ^ 30}"
    using Cons.IH [of ?g "Suc k"] Cons.prems bound Suc by auto
  have after: "n < m" if "n + 1 \<le> m" for m using that Suc by (simp add: word_le_nat_alt word_less_nat_alt)
  have "cantorPairing (baseForNode g) n \<notin> set es"
  proof
    assume "cantorPairing (baseForNode g) n \<in> set es"
    then obtain m where m: "cantorPairing (baseForNode g) n = cantorPairing (baseForNode g) m"
        "n + 1 \<le> m" "unat m < 2 ^ 30" using es(4) by auto
    then have "n = m" using cantorPairing_inj [OF _ _ m(1)] Cons.prems(1,4) bound by simp
    with after [OF m(2)] show False by simp
  qed
  moreover have "set es \<subseteq> {cantorPairing (baseForNode g) m | m. eg_n g \<le> m \<and> unat m < 2 ^ 30}"
    using es(4) after n(3) by fastforce
  moreover have "unat n < 2 ^ 30" using bound Cons.prems(4) by simp
  ultimately show ?case
    using n es by (auto simp: getReplacerEpoch_def)
qed simp

lemma unat_scast_px:
  assumes "0 \<le> PxInt i"
  shows "unat (scast (PaxosID i) :: 64 word) = nat (PxInt i)" and "nat (PxInt i) < 128"
proof -
  have "sint (PaxosID i) < 2 ^ 7" using sint_lt [of "PaxosID i"] by simp
  then show "nat (PxInt i) < 128" by (simp add: PxInt_def)
  have "uint (scast (PaxosID i) :: 64 word) = uint (word_of_int (sint (PaxosID i)) :: 64 word)"
    by (simp only: of_int_sint)
  also have "\<dots> = take_bit LENGTH(64) (sint (PaxosID i))" by (rule uint_word_of_int_eq)
  also have "\<dots> = sint (PaxosID i)"
    using assms \<open>sint (PaxosID i) < 2 ^ 7\<close> by (intro take_bit_int_eq_self) (simp_all add: PxInt_def)
  finally show "unat (scast (PaxosID i) :: 64 word) = nat (PxInt i)"
    by (simp add: PxInt_def unat_eq_nat_uint)
qed

lemma epochGenerator_sizes:
  assumes "0 \<le> PxInt i" and "unat (Epoch i) < 2 ^ 14"
  shows "unat (scast (PaxosID i) :: 64 word) + unat (Epoch i) < 2 ^ 15 - 1"
  using assms unat_scast_px [OF assms(1)] by simp

lemma epochGenerator_small:
  assumes "0 \<le> PxInt i" and "unat (Epoch i) < 2 ^ 14"
  shows "unat (baseForNode (epochGenerator i)) < 2 ^ 30"
proof -
  let ?p = "unat (scast (PaxosID i) :: 64 word)" and ?e = "unat (Epoch i)"
  have sz: "?p + ?e < 2 ^ 15 - 1" using epochGenerator_sizes [OF assms] .
  have "(?p + ?e) * (?p + ?e + 1) \<le> 2 ^ 15 * 2 ^ 15" using sz by (intro mult_le_mono) simp_all
  then have "(?p + ?e) * (?p + ?e + 1) div 2 \<le> 2 ^ 29" using div_le_mono [of _ "2 ^ 15 * 2 ^ 15" 2] by simp
  moreover have "unat (baseForNode (epochGenerator i)) = (?p + ?e) * (?p + ?e + 1) div 2 + ?e"
    using sz by (simp add: epochGenerator_def cantorPairing_exact prod_encode_def triangle_def add.commute)
  ultimately show ?thesis using assms(2) by simp
qed

lemma epochGenerator_inj:
  assumes "baseForNode (epochGenerator i) = baseForNode (epochGenerator j)"
    and "0 \<le> PxInt i" and "0 \<le> PxInt j" and "unat (Epoch i) < 2 ^ 14" and "unat (Epoch j) < 2 ^ 14"
  shows "i = j"
proof -
  have "scast (PaxosID i) = (scast (PaxosID j) :: 64 word) \<and> Epoch i = Epoch j"
    using assms(1) epochGenerator_sizes [OF assms(2,4)] epochGenerator_sizes [OF assms(3,5)]
    by (intro cantorPairing_inj) (simp_all add: epochGenerator_def)
  then have "nat (PxInt i) = nat (PxInt j)" and "Epoch i = Epoch j"
    using unat_scast_px(1) [OF assms(2)] unat_scast_px(1) [OF assms(3)] by simp_all
  then show ?thesis using assms(2,3) PxInt_eq_iff [of i j] by (cases i; cases j) auto
qed

text \<open>
  C30. Within bounds the epochs of replacers are unique across the cluster: two different replicas whose own
  epochs are below \<open>2 ^ 14\<close>, each asked fewer than \<open>2 ^ 28\<close> times to exceed an epoch below \<open>2 ^ 29\<close>, never give
  the same epoch, neither gives one twice, and each exceeds the epoch it replaces. Beyond these bounds the
  arithmetic on 64 bits wraps around, and they can collide.
\<close>

theorem replacer_epochs_unique:
  assumes "i \<noteq> j" and "0 \<le> PxInt i" and "0 \<le> PxInt j"
    and "unat (Epoch i) < 2 ^ 14" and "unat (Epoch j) < 2 ^ 14"
    and "list_all small_epoch olds" and "list_all small_epoch olds'"
    and "length olds < 2 ^ 28" and "length olds' < 2 ^ 28"
  shows "\<exists>es es'. getReplacerEpochs olds (epochGenerator i) = Ok es \<and>
    getReplacerEpochs olds' (epochGenerator j) = Ok es' \<and>
    distinct (es @ es') \<and> list_all2 (<) olds es \<and> list_all2 (<) olds' es'"
proof -
  have bi: "unat (baseForNode (epochGenerator i)) < 2 ^ 30" and bj: "unat (baseForNode (epochGenerator j)) < 2 ^ 30"
    using assms(2-5) by (blast intro: epochGenerator_small)+
  obtain es where es: "getReplacerEpochs olds (epochGenerator i) = Ok es" "distinct es" "list_all2 (<) olds es"
      "set es \<subseteq> {cantorPairing (baseForNode (epochGenerator i)) n | n. unat n < 2 ^ 30}"
    using getReplacerEpochs_draws [OF bi assms(6), of 0] assms(8) by (auto simp: epochGenerator_def)
  obtain es' where es': "getReplacerEpochs olds' (epochGenerator j) = Ok es'" "distinct es'" "list_all2 (<) olds' es'"
      "set es' \<subseteq> {cantorPairing (baseForNode (epochGenerator j)) n | n. unat n < 2 ^ 30}"
    using getReplacerEpochs_draws [OF bj assms(7), of 0] assms(9) by (auto simp: epochGenerator_def)
  have "False" if both: "e \<in> set es" "e \<in> set es'" for e
  proof -
    obtain n m where e: "e = cantorPairing (baseForNode (epochGenerator i)) n" "unat n < 2 ^ 30"
        "e = cantorPairing (baseForNode (epochGenerator j)) m" "unat m < 2 ^ 30"
      using both es(4) es'(4) by blast
    have "baseForNode (epochGenerator i) = baseForNode (epochGenerator j)"
      using cantorPairing_inj [of "baseForNode (epochGenerator i)" n "baseForNode (epochGenerator j)" m]
        e bi bj by simp
    then show False using epochGenerator_inj assms(1-5) by blast
  qed
  then show ?thesis using es es' by auto
qed

lemma generators_collide:
  "getReplacerEpochs [7, 8] (epochGenerator (ID 0 (- 1))) = getReplacerEpochs [7, 8] (epochGenerator (ID 1 (- 1)))"
  by code_simp

theorem replacer_epochs_unique_witness:
  "\<exists>es es'. getReplacerEpochs [0, 0, 9] (epochGenerator (ID 0 3)) = Ok es \<and>
    getReplacerEpochs [0, 5] (epochGenerator (ID 1 3)) = Ok es' \<and> distinct (es @ es')"
proof -
  have "ID 0 3 \<noteq> ID 1 3" "0 \<le> PxInt (ID 0 3)" "0 \<le> PxInt (ID 1 3)"
    "unat (Epoch (ID 0 3)) < 2 ^ 14" "unat (Epoch (ID 1 3)) < 2 ^ 14"
    "list_all small_epoch [0, 0, 9]" "list_all small_epoch [0, 5]"
    "length [0 :: epoch, 0, 9] < 2 ^ 28" "length [0 :: epoch, 5] < 2 ^ 28"
    by (simp_all add: PxInt_def small_epoch_def)
  from replacer_epochs_unique [OF this] show ?thesis by blast
qed

text \<open>
  The loop never ends when the epoch to replace is the greatest one: no epoch exceeds it.
\<close>

lemma epochLoop_greater:
  assumes "epochLoop base old rep n = Some r"
  shows "old < fst r"
  using assms
proof (elim epochLoop.raw_induct [where P = "\<lambda>base old rep n r. old < fst r", rotated])
  fix f and base old rep n :: "64 word" and r
  assume IH: "\<And>base old rep n r. f base old rep n = Some r \<Longrightarrow> old < fst r"
    and eq: "(if rep \<le> old then f base old (cantorPairing base n) (n + 1) else Some (rep, n)) = Some r"
  show "old < fst r"
    using IH eq by (cases "rep \<le> old") auto
qed

lemma greatest_epoch_diverges: "getReplacerEpoch (- 1) g = Fault Diverges"
proof (cases "epochLoop (baseForNode g) (- 1) 0 (eg_n g)")
  case (Some r)
  have "(- 1 :: 64 word) < fst r" using epochLoop_greater [OF Some] .
  then show ?thesis using word_n1_ge [of "fst r"] by auto
qed (simp add: getReplacerEpoch_def)

end
