(* ===== verification/Liveness.thy ===== *)
theory Liveness
  imports Grp GoMaps
begin

text \<open>
  Failure detection and leader election (\<open>src/liveness/\<close>): the eventually perfect failure detector
  (\<open>fd.go\<close>), the monarchical leader detector (\<open>mon_ld.go\<close>) and the heartbeat emitter (\<open>hbem.go\<close>).
  A \<open>map[grp.ID]bool\<close> that only ever holds \<open>true\<close> is the list of its keys; a subscriber is the
  list of the messages it was sent, oldest first. A tick of the clock is an event.
\<close>

section \<open>The failure detector\<close>

datatype fdEvent = Suspect | Restore

record FdMsg =
  fd_Event :: fdEvent
  fd_ID :: gid

record Fd =
  alive :: "gid list"
  suspected :: "gid list"
  timeout :: "64 word"
  fd_delta :: "64 word"
  ticker :: "64 word"
  fdSubscribers :: "(string, FdMsg list) gomap"
  susAnswers :: "bool list"

definition NewFd :: "64 word \<Rightarrow> 64 word \<Rightarrow> Fd" where
  "NewFd timeoutInterval deltaIncrease =
     \<lparr>alive = [], suspected = [], timeout = timeoutInterval, fd_delta = deltaIncrease, ticker = 0,
      fdSubscribers = [], susAnswers = []\<rparr>"

definition SubscribeToFdMsgs :: "string \<Rightarrow> Fd \<Rightarrow> Fd" where
  "SubscribeToFdMsgs name fd = fd\<lparr>fdSubscribers := put name [] (fdSubscribers fd)\<rparr>"

definition SetAlive :: "gid \<Rightarrow> Fd \<Rightarrow> Fd" where
  "SetAlive i fd = fd\<lparr>alive := List.insert i (alive fd), suspected := removeAll i (suspected fd)\<rparr>"

definition isAliveSuspectedIntersectionEmpty :: "Fd \<Rightarrow> bool" where
  "isAliveSuspectedIntersectionEmpty fd \<longleftrightarrow> \<not> list_ex (\<lambda>k. k \<in> set (alive fd)) (suspected fd)"

definition notInAliveAndSuspected :: "gid \<Rightarrow> Fd \<Rightarrow> bool" where
  "notInAliveAndSuspected i fd \<longleftrightarrow> i \<notin> set (alive fd) \<and> i \<notin> set (suspected fd)"

definition inAliveAndSuspected :: "gid \<Rightarrow> Fd \<Rightarrow> bool" where
  "inAliveAndSuspected i fd \<longleftrightarrow> i \<in> set (alive fd) \<and> i \<in> set (suspected fd)"

definition publishFdMsg :: "FdMsg \<Rightarrow> Fd \<Rightarrow> Fd" where
  "publishFdMsg msg fd = fd\<lparr>fdSubscribers := map (\<lambda>(name, sub). (name, sub @ [msg])) (fdSubscribers fd)\<rparr>"

definition suspectStep :: "gid \<Rightarrow> Fd \<Rightarrow> Fd" where
  "suspectStep i fd =
     (if notInAliveAndSuspected i fd then
        publishFdMsg \<lparr>fd_Event = Suspect, fd_ID = i\<rparr> (fd\<lparr>suspected := List.insert i (suspected fd)\<rparr>)
      else if inAliveAndSuspected i fd then
        publishFdMsg \<lparr>fd_Event = Restore, fd_ID = i\<rparr> (fd\<lparr>suspected := removeAll i (suspected fd)\<rparr>)
      else fd)"

definition timeoutProcedure :: "GrpMgr \<Rightarrow> Fd \<Rightarrow> Fd" where
  "timeoutProcedure gm fd =
     (let fd = (if \<not> isAliveSuspectedIntersectionEmpty fd then
                  let t = timeout fd + fd_delta fd in fd\<lparr>timeout := t, ticker := t\<rparr>
                else fd);
          fd = fd\<lparr>alive := List.insert (gm_id gm) (alive fd)\<rparr>;
          fd = fold suspectStep (IDs (nodeMap gm)) fd
      in fd\<lparr>alive := []\<rparr>)"

text \<open>The message of \<open>handleResendSuspected\<close> leaves the event at its zero value, \<open>Suspect\<close>.\<close>

definition handleResendSuspected :: "Fd \<Rightarrow> Fd" where
  "handleResendSuspected fd = fold (\<lambda>i. publishFdMsg \<lparr>fd_Event = Suspect, fd_ID = i\<rparr>) (suspected fd) fd"

definition handleSuspectedRequest :: "gid \<Rightarrow> Fd \<Rightarrow> Fd" where
  "handleSuspectedRequest i fd =
     (if i \<in> set (suspected fd) then fd\<lparr>susAnswers := susAnswers fd @ [True]\<rparr>
      else fd\<lparr>susAnswers := susAnswers fd @ [False]\<rparr>)"

definition IsSuspected :: "gid \<Rightarrow> Fd \<Rightarrow> bool" where
  "IsSuspected i fd = last (susAnswers (handleSuspectedRequest i fd))"

definition fd_Start :: "Fd \<Rightarrow> Fd" where
  "fd_Start fd = fd\<lparr>ticker := timeout fd\<rparr>"

datatype fd_event =
    FETick
  | FEHeartbeat gid
  | FEGrpHold
  | FEResend
  | FERequest gid
  | FESetAlive gid

fun fd_step :: "GrpMgr \<Rightarrow> fd_event \<Rightarrow> Fd \<Rightarrow> Fd" where
  "fd_step gm FETick fd = timeoutProcedure gm fd"
| "fd_step gm (FEHeartbeat i) fd = fd\<lparr>alive := List.insert i (alive fd)\<rparr>"
| "fd_step gm FEGrpHold fd = fd"
| "fd_step gm FEResend fd = handleResendSuspected fd"
| "fd_step gm (FERequest i) fd = handleSuspectedRequest i fd"
| "fd_step gm (FESetAlive i) fd = SetAlive i fd"

section \<open>The heartbeat emitter\<close>

record Heartbeat =
  hb_ID :: gid

record HbEm =
  hbem_id :: gid
  outB :: "Heartbeat list"

definition NewHbEm :: "gid \<Rightarrow> HbEm" where
  "NewHbEm i = \<lparr>hbem_id = i, outB = []\<rparr>"

definition hbem_beat :: "HbEm \<Rightarrow> HbEm" where
  "hbem_beat h = h\<lparr>outB := outB h @ [\<lparr>hb_ID = hbem_id h\<rparr>]\<rparr>"

datatype hbem_event = HElapsed | HReset

fun hbem_step :: "hbem_event \<Rightarrow> HbEm \<Rightarrow> HbEm" where
  "hbem_step HElapsed h = hbem_beat h"
| "hbem_step HReset h = h"

definition hbem_Start :: "HbEm \<Rightarrow> HbEm" where
  "hbem_Start h = hbem_beat h"

section \<open>The leader detector\<close>

record MonarchicalLD =
  pleader :: gid
  rleader :: gid
  ld_suspected :: "gid list"
  pldSubscribers :: "(string, gid list) gomap"
  rldSubscribers :: "(string, gid list) gomap"
  ld_lrar :: bool

definition SubscribeToPaxosLdMsgs :: "string \<Rightarrow> MonarchicalLD \<Rightarrow> MonarchicalLD" where
  "SubscribeToPaxosLdMsgs name mld = mld\<lparr>pldSubscribers := put name [] (pldSubscribers mld)\<rparr>"

definition SubscribeToReplacementLdMsgs :: "string \<Rightarrow> MonarchicalLD \<Rightarrow> MonarchicalLD" where
  "SubscribeToReplacementLdMsgs name mld = mld\<lparr>rldSubscribers := put name [] (rldSubscribers mld)\<rparr>"

definition PaxosLeader :: "MonarchicalLD \<Rightarrow> gid" where
  "PaxosLeader mld = pleader mld"

definition ReplacementLeader :: "MonarchicalLD \<Rightarrow> gid" where
  "ReplacementLeader mld = rleader mld"

definition publishPaxosTrust :: "gid \<Rightarrow> MonarchicalLD \<Rightarrow> MonarchicalLD" where
  "publishPaxosTrust i mld =
     mld\<lparr>pldSubscribers := map (\<lambda>(name, sub). (name, sub @ [i])) (pldSubscribers mld)\<rparr>"

definition publishReplacementTrust :: "gid \<Rightarrow> MonarchicalLD \<Rightarrow> MonarchicalLD" where
  "publishReplacementTrust i mld =
     mld\<lparr>rldSubscribers := map (\<lambda>(name, sub). (name, sub @ [i])) (rldSubscribers mld)\<rparr>"

text \<open>\<open>PaxosID\<close> is an \<open>int8\<close>: both comparisons are signed.\<close>

definition higher :: "gid list \<Rightarrow> gid \<Rightarrow> gid \<Rightarrow> gid" where
  "higher suspects i leader = (if PxInt i > PxInt leader \<and> i \<notin> set suspects then i else leader)"

definition lower :: "gid list \<Rightarrow> gid \<Rightarrow> gid \<Rightarrow> gid" where
  "lower suspects i leader = (if PxInt i < PxInt leader \<and> i \<notin> set suspects then i else leader)"

definition maxRank :: "GrpMgr \<Rightarrow> MonarchicalLD \<Rightarrow> gid result" where
  "maxRank gm mld =
     (if Len (nodeMap gm) = 0 then Fault (Panic ''no nodes to rank'')
      else Ok (fold (higher (ld_suspected mld)) (ProposerIDs (nodeMap gm)) MinID))"

definition minSeenEpoch :: "gid list \<Rightarrow> epoch" where
  "minSeenEpoch ids = fold (\<lambda>i e. if Epoch i < e then Epoch i else e) ids (- 1)"

definition nodesWithMinEpoch :: "gid list \<Rightarrow> gid list" where
  "nodesWithMinEpoch ids =
     fold (\<lambda>i m. if Epoch i = minSeenEpoch ids then List.insert i m else m) ids []"

definition maxRankLr :: "GrpMgr \<Rightarrow> MonarchicalLD \<Rightarrow> (gid \<times> gid) result" where
  "maxRankLr gm mld =
     (if Len (nodeMap gm) = 0 then Fault (Panic ''no nodes to rank'')
      else
        let ids = nodesWithMinEpoch (ProposerIDs (nodeMap gm))
        in Ok (fold (\<lambda>i (paxosLeader, replacementLeader).
             (higher (ld_suspected mld) i paxosLeader, lower (ld_suspected mld) i replacementLeader))
           ids (MinID, MaxID)))"

definition checkPaxosLeader :: "GrpMgr \<Rightarrow> MonarchicalLD \<Rightarrow> MonarchicalLD result" where
  "checkPaxosLeader gm mld =
     bind_result (maxRank gm mld) (\<lambda>newLeader.
       Ok (if newLeader \<noteq> pleader mld
           then publishPaxosTrust newLeader (mld\<lparr>pleader := newLeader\<rparr>) else mld))"

definition checkLeadersLrAr :: "GrpMgr \<Rightarrow> MonarchicalLD \<Rightarrow> MonarchicalLD result" where
  "checkLeadersLrAr gm mld =
     bind_result (maxRankLr gm mld) (\<lambda>(newPaxosLeader, newReplacementLeader).
       let mld = (if newPaxosLeader \<noteq> pleader mld
             then publishPaxosTrust newPaxosLeader (mld\<lparr>pleader := newPaxosLeader\<rparr>) else mld);
           mld = (if newReplacementLeader \<noteq> rleader mld
             then publishReplacementTrust newReplacementLeader (mld\<lparr>rleader := newReplacementLeader\<rparr>)
             else mld)
       in Ok mld)"

definition checkLeaders :: "GrpMgr \<Rightarrow> MonarchicalLD \<Rightarrow> MonarchicalLD result" where
  "checkLeaders gm mld = (if ld_lrar mld then checkLeadersLrAr gm mld else checkPaxosLeader gm mld)"

definition NewMonarchicalLD :: "GrpMgr \<Rightarrow> MonarchicalLD result" where
  "NewMonarchicalLD gm =
     checkLeaders gm \<lparr>pleader = ID 0 0, rleader = ID 0 0, ld_suspected = [], pldSubscribers = [],
       rldSubscribers = [], ld_lrar = (lrEnabled gm \<or> arEnabled gm)\<rparr>"

definition ld_handleFdMsg :: "GrpMgr \<Rightarrow> FdMsg \<Rightarrow> MonarchicalLD \<Rightarrow> MonarchicalLD result" where
  "ld_handleFdMsg gm fdmsg mld =
     (case fd_Event fdmsg of
        Suspect \<Rightarrow> checkLeaders gm (mld\<lparr>ld_suspected := List.insert (fd_ID fdmsg) (ld_suspected mld)\<rparr>)
      | Restore \<Rightarrow> checkLeaders gm (mld\<lparr>ld_suspected := removeAll (fd_ID fdmsg) (ld_suspected mld)\<rparr>))"

definition ld_handleGrpHold :: "GrpMgr \<Rightarrow> MonarchicalLD \<Rightarrow> MonarchicalLD result" where
  "ld_handleGrpHold gm mld = checkLeaders gm mld"

datatype ld_event = LEStart | LEFdMsg FdMsg | LEGrpHold

fun ld_step :: "GrpMgr \<Rightarrow> ld_event \<Rightarrow> MonarchicalLD \<Rightarrow> MonarchicalLD result" where
  "ld_step gm LEStart mld = checkLeaders gm mld"
| "ld_step gm (LEFdMsg fdmsg) mld = ld_handleFdMsg gm fdmsg mld"
| "ld_step gm LEGrpHold mld = ld_handleGrpHold gm mld"

section \<open>What a timeout of the failure detector does\<close>

definition verdict :: "Fd \<Rightarrow> gid \<Rightarrow> FdMsg list" where
  "verdict fd i =
     (if i \<notin> set (alive fd) \<and> i \<notin> set (suspected fd) then [\<lparr>fd_Event = Suspect, fd_ID = i\<rparr>]
      else if i \<in> set (alive fd) \<and> i \<in> set (suspected fd) then [\<lparr>fd_Event = Restore, fd_ID = i\<rparr>]
      else [])"

lemma suspectSteps:
  assumes "distinct ids"
  shows "alive (fold suspectStep ids fd) = alive fd \<and>
    set (suspected (fold suspectStep ids fd)) =
      (set (suspected fd) - set ids) \<union> (set ids - set (alive fd)) \<and>
    fdSubscribers (fold suspectStep ids fd) =
      map (\<lambda>(name, sub). (name, sub @ concat (map (verdict fd) ids))) (fdSubscribers fd) \<and>
    timeout (fold suspectStep ids fd) = timeout fd"
  using assms
proof (induction ids arbitrary: fd)
  case Nil
  then show ?case by (simp add: case_prod_beta)
next
  case (Cons i ids)
  have step: "alive (suspectStep i fd) = alive fd"
    "set (suspected (suspectStep i fd)) =
      (if i \<in> set (alive fd) then set (suspected fd) - {i} else insert i (set (suspected fd)))"
    "fdSubscribers (suspectStep i fd) = map (\<lambda>(name, sub). (name, sub @ verdict fd i)) (fdSubscribers fd)"
    "timeout (suspectStep i fd) = timeout fd"
    by (auto simp: suspectStep_def notInAliveAndSuspected_def inAliveAndSuspected_def publishFdMsg_def
        verdict_def case_prod_beta)
  have "verdict (suspectStep i fd) j = verdict fd j" if "j \<in> set ids" for j
    using that Cons.prems by (auto simp: verdict_def step)
  then have conc: "concat (map (verdict (suspectStep i fd)) ids) = concat (map (verdict fd) ids)"
    by (intro arg_cong [of _ _ concat] map_cong) simp_all
  show ?case
    using Cons.IH [of "suspectStep i fd"] Cons.prems step unfolding conc by (auto simp: case_prod_beta)
qed

text \<open>
  A timeout makes the detector's verdict exact: afterwards a member is suspected exactly when
  nothing was heard of it since the last timeout (and never the replica itself), the subscribers are
  told every change of a verdict once and nothing else, and the timeout grows exactly when a member
  was suspected wrongly.
\<close>

theorem timeoutProcedure_exact:
  assumes "distinct (IDs (nodeMap gm))"
  shows "set (suspected (timeoutProcedure gm fd)) \<inter> set (IDs (nodeMap gm)) =
      set (IDs (nodeMap gm)) - insert (gm_id gm) (set (alive fd)) \<and>
    set (suspected (timeoutProcedure gm fd)) - set (IDs (nodeMap gm)) =
      set (suspected fd) - set (IDs (nodeMap gm)) \<and>
    alive (timeoutProcedure gm fd) = [] \<and>
    fdSubscribers (timeoutProcedure gm fd) =
      map (\<lambda>(name, sub). (name, sub @ concat (map
        (verdict (fd\<lparr>alive := List.insert (gm_id gm) (alive fd)\<rparr>)) (IDs (nodeMap gm))))) (fdSubscribers fd) \<and>
    timeout (timeoutProcedure gm fd) =
      (if set (alive fd) \<inter> set (suspected fd) = {} then timeout fd else timeout fd + fd_delta fd)"
proof -
  define fd1 where "fd1 = (if \<not> isAliveSuspectedIntersectionEmpty fd
    then fd\<lparr>timeout := timeout fd + fd_delta fd, ticker := timeout fd + fd_delta fd\<rparr> else fd)"
  define fd2 where "fd2 = fd1\<lparr>alive := List.insert (gm_id gm) (alive fd1)\<rparr>"
  have run: "timeoutProcedure gm fd = (fold suspectStep (IDs (nodeMap gm)) fd2)\<lparr>alive := []\<rparr>"
    by (simp add: timeoutProcedure_def fd1_def fd2_def Let_def)
  have "verdict fd2 = verdict (fd\<lparr>alive := List.insert (gm_id gm) (alive fd)\<rparr>)"
    by (auto simp: verdict_def fd2_def fd1_def fun_eq_iff)
  moreover have "isAliveSuspectedIntersectionEmpty fd \<longleftrightarrow> set (alive fd) \<inter> set (suspected fd) = {}"
    by (auto simp: isAliveSuspectedIntersectionEmpty_def list_ex_iff)
  moreover have "set (alive fd2) = insert (gm_id gm) (set (alive fd))" "suspected fd2 = suspected fd"
    "fdSubscribers fd2 = fdSubscribers fd"
    by (simp_all add: fd2_def fd1_def)
  moreover have "timeout fd2 = (if isAliveSuspectedIntersectionEmpty fd then timeout fd
      else timeout fd + fd_delta fd)"
    by (simp add: fd2_def fd1_def)
  ultimately show ?thesis
    using suspectSteps [OF assms, of fd2] by (auto simp: run)
qed

definition threeNodes :: NodeMap where
  "threeNodes = memoize \<lparr>nodes = map (\<lambda>i. (ID i 0, NewNode [] [] [] True True True)) [0, 1, 2],
     epochs = [0, 0, 0], nrOfNodes = 3, nrOfAcceptors = 3, quorum = 2, idsMemoized = [],
     proposerIdsMemoized = [], acceptorIdsMemoized = [], learnerIdsMemoized = []\<rparr>"

definition threeGm :: GrpMgr where
  "threeGm = NewGrpMgr (ID 0 0) threeNodes False False"

theorem timeoutProcedure_exact_witness:
  "set (suspected (timeoutProcedure threeGm (SetAlive (ID 2 0) (NewFd 500 250)))) \<inter>
    set (IDs (nodeMap threeGm)) = {ID 1 0}"
proof -
  have ids: "IDs (nodeMap threeGm) = [ID 0 0, ID 1 0, ID 2 0]" by code_simp
  then have "distinct (IDs (nodeMap threeGm))" by simp
  note exact = timeoutProcedure_exact [OF this, of "SetAlive (ID 2 0) (NewFd 500 250)", THEN conjunct1]
  have "gm_id threeGm = ID 0 0" by (simp add: threeGm_def NewGrpMgr_def)
  moreover have "alive (SetAlive (ID 2 0) (NewFd 500 250)) = [ID 2 0]" by (simp add: SetAlive_def NewFd_def)
  ultimately show ?thesis unfolding exact by (auto simp: ids)
qed

section \<open>Whom the leader detector trusts\<close>

text \<open>The ids the leader is chosen from: in the replacement modes, those of the lowest epoch.\<close>

definition candidates :: "bool \<Rightarrow> gid list \<Rightarrow> gid list" where
  "candidates lrar ids = (if lrar then nodesWithMinEpoch ids else ids)"

definition highest :: "gid set \<Rightarrow> gid \<Rightarrow> bool" where
  "highest C l \<longleftrightarrow> (if C = {} then l = MinID else l \<in> C \<and> (\<forall>i\<in>C. PxInt i \<le> PxInt l))"

lemma minSeenEpoch_Min: "minSeenEpoch ids = Min (set (- 1 # map Epoch ids))"
proof -
  have "(\<lambda>i e. if Epoch i < e then Epoch i else e) = min \<circ> Epoch"
    by (auto simp: fun_eq_iff min_def)
  then show ?thesis by (simp only: minSeenEpoch_def Min.set_eq_fold fold_map)
qed

lemma set_nodesWithMinEpoch: "set (nodesWithMinEpoch ids) = {i \<in> set ids. Epoch i = minSeenEpoch ids}"
proof -
  have "set (fold (\<lambda>i m. if P i then List.insert i m else m) ids m) = {i \<in> set ids. P i} \<union> set m"
    for P and m :: "gid list"
    by (induction ids arbitrary: m) auto
  then show ?thesis by (simp add: nodesWithMinEpoch_def)
qed

lemma fold_higher:
  assumes "\<And>i. i \<in> set ids \<Longrightarrow> 0 \<le> PxInt i"
  shows "highest (set ids - set sus) (fold (higher sus) ids MinID)"
proof -
  have "(fold (higher sus) ids l = l \<or> fold (higher sus) ids l \<in> set ids - set sus) \<and>
      PxInt l \<le> PxInt (fold (higher sus) ids l) \<and>
      (\<forall>i\<in>set ids - set sus. PxInt i \<le> PxInt (fold (higher sus) ids l))" for l
  proof (induction ids arbitrary: l)
    case (Cons i ids)
    show ?case using Cons.IH [of "higher sus i l"] by (auto simp: higher_def split: if_splits)
  qed simp
  from this [of MinID] show ?thesis
    using assms by (force simp: highest_def MinID_def MinPaxosID_def PxInt_def)
qed

lemma highest_unique:
  assumes "highest C l" and "highest C l'" and "inj_on PxInt C"
  shows "l = l'"
proof (cases "C = {}")
  case False
  then have "l \<in> C" "l' \<in> C" "PxInt l = PxInt l'"
    using assms(1,2) by (auto simp: highest_def intro: order_antisym)
  then show ?thesis using assms(3) by (simp add: inj_on_def)
qed (use assms in \<open>simp add: highest_def\<close>)

lemma maxRankLr_fst:
  "fst (fold (\<lambda>i (p, r). (higher sus i p, lower sus i r)) ids (p, r)) = fold (higher sus) ids p"
  by (induction ids arbitrary: p r) simp_all

lemma wf_proposers:
  assumes "wf_NodeMap nm"
  shows "inj_on PxInt (set (ProposerIDs nm))" and "i \<in> set (ProposerIDs nm) \<Longrightarrow> 0 \<le> PxInt i"
proof -
  have "ProposerIDs nm = ProposerIDs (memoize nm)" using assms by (simp add: wf_NodeMap_def)
  also have "\<dots> = map fst (filter (Proposer \<circ> snd) (nodes nm))"
    by (simp add: ProposerIDs_def memoize_def memoizeIDs_def memoizeActorIDs_def comprehension_eq_filter)
  finally have sub: "set (ProposerIDs nm) \<subseteq> set (map fst (nodes nm))" by auto
  then show "inj_on PxInt (set (ProposerIDs nm))"
    using wf_NodeMap_inj [OF assms] by (intro inj_onI) blast
  show "i \<in> set (ProposerIDs nm) \<Longrightarrow> 0 \<le> PxInt i"
    using sub assms by (auto simp: wf_NodeMap_def list_all_iff epoch_entry_def)
qed

lemma wf_candidates:
  assumes "wf_NodeMap nm"
  shows "inj_on PxInt (set (candidates lrar (ProposerIDs nm)))"
    and "i \<in> set (candidates lrar (ProposerIDs nm)) \<Longrightarrow> 0 \<le> PxInt i"
proof -
  have sub: "set (candidates lrar (ProposerIDs nm)) \<subseteq> set (ProposerIDs nm)"
    by (auto simp: candidates_def set_nodesWithMinEpoch)
  show "inj_on PxInt (set (candidates lrar (ProposerIDs nm)))"
    by (rule inj_on_subset [OF wf_proposers(1) [OF assms] sub])
  show "i \<in> set (candidates lrar (ProposerIDs nm)) \<Longrightarrow> 0 \<le> PxInt i"
    using sub wf_proposers(2) [OF assms] by blast
qed

lemma candidates_cong: "set ids = set ids' \<Longrightarrow> set (candidates lrar ids) = set (candidates lrar ids')"
  by (simp add: candidates_def set_nodesWithMinEpoch minSeenEpoch_Min)

lemma trusted:
  "pleader (if p \<noteq> pleader m then publishPaxosTrust p (m\<lparr>pleader := p\<rparr>) else m) = p"
  "ld_suspected (if p \<noteq> pleader m then publishPaxosTrust p (m\<lparr>pleader := p\<rparr>) else m) = ld_suspected m"
  "pleader (if r \<noteq> rleader m then publishReplacementTrust r (m\<lparr>rleader := r\<rparr>) else m) = pleader m"
  "ld_suspected (if r \<noteq> rleader m then publishReplacementTrust r (m\<lparr>rleader := r\<rparr>) else m) = ld_suspected m"
  by (simp_all add: publishPaxosTrust_def publishReplacementTrust_def)

lemma checkLeaders_leader:
  assumes "checkLeaders gm mld = Ok mld'"
  shows "pleader mld' =
      fold (higher (ld_suspected mld)) (candidates (ld_lrar mld) (ProposerIDs (nodeMap gm))) MinID"
    and "ld_suspected mld' = ld_suspected mld"
proof -
  have "pleader mld' =
      fold (higher (ld_suspected mld)) (candidates (ld_lrar mld) (ProposerIDs (nodeMap gm))) MinID \<and>
      ld_suspected mld' = ld_suspected mld"
  proof (cases "ld_lrar mld")
    case True
    obtain p r where ranks: "maxRankLr gm mld = Ok (p, r)"
      using assms True by (auto simp: checkLeaders_def checkLeadersLrAr_def bind_result_Inr_iff)
    then have "(p, r) = fold (\<lambda>i (p, r). (higher (ld_suspected mld) i p, lower (ld_suspected mld) i r))
        (nodesWithMinEpoch (ProposerIDs (nodeMap gm))) (MinID, MaxID)"
      by (simp add: maxRankLr_def Let_def split: if_splits)
    then have "fst (p, r) = fold (higher (ld_suspected mld)) (nodesWithMinEpoch (ProposerIDs (nodeMap gm))) MinID"
      by (simp only: maxRankLr_fst)
    moreover have "pleader mld' = p \<and> ld_suspected mld' = ld_suspected mld"
      using assms unfolding checkLeaders_def checkLeadersLrAr_def ranks bind_result_simps prod.case Let_def
      by (auto simp only: True if_True trusted sum.inject)
    ultimately show ?thesis using True by (simp add: candidates_def)
  next
    case False
    then show ?thesis
      using assms
      by (auto simp: checkLeaders_def checkPaxosLeader_def maxRank_def bind_result_Inr_iff
          publishPaxosTrust_def candidates_def split: if_splits)
  qed
  then show "pleader mld' =
      fold (higher (ld_suspected mld)) (candidates (ld_lrar mld) (ProposerIDs (nodeMap gm))) MinID"
    and "ld_suspected mld' = ld_suspected mld" by simp_all
qed

lemma ld_step_checks:
  assumes "ld_step gm ev mld = Ok mld'"
  shows "\<exists>mld1. checkLeaders gm mld1 = Ok mld' \<and> ld_lrar mld1 = ld_lrar mld"
  using assms
  by (cases ev) (auto simp: ld_handleFdMsg_def ld_handleGrpHold_def split: fdEvent.splits)

text \<open>
  C31. Whatever the leader detector has been through, after each event it handles it trusts the
  replica with the highest Paxos id among the proposers it does not suspect (in the replacement
  modes, among those of the lowest epoch); so two replicas that know the same proposers and suspect
  the same ones trust the same leader, whatever the order in which their maps are iterated.
\<close>

theorem ld_trusts_highest:
  assumes "wf_NodeMap (nodeMap gm)" and "ld_step gm ev mld = Ok mld'"
    and "wf_NodeMap (nodeMap gm2)" and "ld_step gm2 ev2 mld2 = Ok mld2'"
    and "ld_lrar mld2 = ld_lrar mld"
    and "set (ProposerIDs (nodeMap gm2)) = set (ProposerIDs (nodeMap gm))"
    and "set (ld_suspected mld2') = set (ld_suspected mld')"
  shows "highest (set (candidates (ld_lrar mld) (ProposerIDs (nodeMap gm))) - set (ld_suspected mld'))
      (pleader mld') \<and> pleader mld2' = pleader mld'"
proof -
  have spec: "highest (set (candidates (ld_lrar mld) (ProposerIDs (nodeMap gm))) - set (ld_suspected mld'))
      (pleader mld')" if wf: "wf_NodeMap (nodeMap gm)" and step: "ld_step gm ev mld = Ok mld'" for gm ev mld mld'
  proof -
    obtain mld1 where mld1: "checkLeaders gm mld1 = Ok mld'" "ld_lrar mld1 = ld_lrar mld"
      using ld_step_checks [OF step] by blast
    show ?thesis
      using fold_higher [of "candidates (ld_lrar mld) (ProposerIDs (nodeMap gm))" "ld_suspected mld'"]
        wf_candidates(2) [OF wf] checkLeaders_leader [OF mld1(1)] mld1(2) by simp
  qed
  have "highest (set (candidates (ld_lrar mld) (ProposerIDs (nodeMap gm))) - set (ld_suspected mld'))
      (pleader mld2')"
    using spec [OF assms(3,4)] candidates_cong [OF assms(6)] assms(5,7) by simp
  moreover note spec [OF assms(1,2)]
  moreover have "inj_on PxInt
      (set (candidates (ld_lrar mld) (ProposerIDs (nodeMap gm))) - set (ld_suspected mld'))"
    by (rule inj_on_subset [OF wf_candidates(1) [OF assms(1)]]) blast
  ultimately show ?thesis using highest_unique by blast
qed

definition threeGmReordered :: GrpMgr where
  "threeGmReordered = NewGrpMgr (ID 1 0) (memoize (threeNodes\<lparr>nodes := rev (nodes threeNodes)\<rparr>)) False False"

theorem ld_trusts_highest_witness:
  "\<exists>mld mld2. ld_step threeGm (LEFdMsg \<lparr>fd_Event = Suspect, fd_ID = ID 2 0\<rparr>)
      (case NewMonarchicalLD threeGm of Inr m \<Rightarrow> m) = Ok mld \<and>
    ld_step threeGmReordered (LEFdMsg \<lparr>fd_Event = Suspect, fd_ID = ID 2 0\<rparr>)
      (case NewMonarchicalLD threeGmReordered of Inr m \<Rightarrow> m) = Ok mld2 \<and>
    pleader mld = ID 1 0 \<and> pleader mld2 = pleader mld"
proof -
  let ?ev = "LEFdMsg \<lparr>fd_Event = Suspect, fd_ID = ID 2 0\<rparr>"
  let ?l = "\<lparr>pleader = ID 1 0, rleader = ID 0 0, ld_suspected = [ID 2 0], pldSubscribers = [],
    rldSubscribers = [], ld_lrar = False\<rparr>"
  have wf: "wf_NodeMap (nodeMap threeGm)" "wf_NodeMap (nodeMap threeGmReordered)"
    by code_simp+
  have step: "ld_step threeGm ?ev (case NewMonarchicalLD threeGm of Inr m \<Rightarrow> m) = Ok ?l"
    "ld_step threeGmReordered ?ev (case NewMonarchicalLD threeGmReordered of Inr m \<Rightarrow> m) = Ok ?l"
    by code_simp+
  have flags: "ld_lrar (case NewMonarchicalLD threeGmReordered of Inr m \<Rightarrow> m) =
      ld_lrar (case NewMonarchicalLD threeGm of Inr m \<Rightarrow> m)" by code_simp
  have ids: "set (ProposerIDs (nodeMap threeGmReordered)) = set (ProposerIDs (nodeMap threeGm))"
    by code_simp
  show ?thesis
    using ld_trusts_highest [OF wf(1) step(1) wf(2) step(2) flags ids refl] step by auto
qed

end
