(* ===== verification/RingReplacer.thy ===== *)
theory RingReplacer
  imports EpochGen Liveness PaxosData
begin

text \<open>
  The ring replacer (\<open>src/ringreplacer/\<close>): every replica watches its successor on the ring of Paxos
  ids, and when the failure detector suspects it, prepares replacers for it and for every suspected
  replica that follows, and passes them to the replacement module.

  The replica provider and the remote initialisation of a node (\<open>src/nodeinit/\<close>, processes on other
  machines) are parameters: \<open>getReplica k\<close> is the provider's answer to the k-th request of a round,
  \<open>initNode node\<close> whether the node's initialisation succeeds.
\<close>

record ReconfMsg =
  rm_NodeMap :: "(gid, Node) gomap"
  rm_NewIds :: "gid list"
  rm_AduSlot :: SlotID

text \<open>The configuration map of the wrapper is the replica's own, copied, and left out.\<close>

record TransferWrapper =
  tw_ID :: gid
  tw_NodeMap :: "(gid, Node) gomap"

record RingReplacer =
  rr_id :: gid
  rr_getReplacerEpoch :: EpochGenerator
  watching :: gid
  recMsgChan :: "ReconfMsg list"

definition NewRingReplacer :: "gid \<Rightarrow> GrpMgr \<Rightarrow> RingReplacer result" where
  "NewRingReplacer i gm =
     bind_result (GetNext i (nodeMap gm)) (\<lambda>w.
       Ok \<lparr>rr_id = i, rr_getReplacerEpoch = epochGenerator i, watching = w, recMsgChan = []\<rparr>)"

section \<open>The configurations of the replacers\<close>

text \<open>
  One replacement: the outer result is a panic or an endless loop, the inner \<open>None\<close> the provider's
  error. The replacement gets the old Paxos id and the next epoch of the generator.
\<close>

definition replaceOne :: "Node option \<Rightarrow> gid \<Rightarrow> (gid, Node) gomap \<times> gid list \<times> EpochGenerator \<Rightarrow>
    (((gid, Node) gomap \<times> gid list) option \<times> EpochGenerator) result" where
  "replaceOne answer oldID = (\<lambda>(newMap, newids, g).
     case answer of
       None \<Rightarrow> Ok (None, g)
     | Some node \<Rightarrow>
         bind_result (getReplacerEpoch (Epoch oldID) g) (\<lambda>(newEpoch, g).
           let newid = ID (PaxosID oldID) newEpoch
           in Ok (Some (put newid node (filter (\<lambda>(i, _). i \<noteq> oldID) newMap), newids @ [newid]), g)))"

fun replaceAll :: "(nat \<Rightarrow> Node option) \<Rightarrow> nat \<Rightarrow> gid list \<Rightarrow> (gid, Node) gomap \<times> gid list \<times> EpochGenerator \<Rightarrow>
    (((gid, Node) gomap \<times> gid list) option \<times> EpochGenerator) result" where
  "replaceAll getReplica k [] (newMap, newids, g) = Ok (Some (newMap, newids), g)"
| "replaceAll getReplica k (oldID # olds) (newMap, newids, g) =
     bind_result (replaceOne (getReplica k) oldID (newMap, newids, g)) (\<lambda>(r, g).
       case r of
         None \<Rightarrow> Ok (None, g)
       | Some (newMap, newids) \<Rightarrow> replaceAll getReplica (Suc k) olds (newMap, newids, g))"

definition zeroNode :: Node where
  "zeroNode = NewNode [] [] [] False False False"

definition getNewConfigs :: "GrpMgr \<Rightarrow> (nat \<Rightarrow> Node option) \<Rightarrow> gid list \<Rightarrow> RingReplacer \<Rightarrow>
    ((ReconfMsg \<times> (Node, TransferWrapper) gomap) option \<times> RingReplacer) result" where
  "getNewConfigs gm getReplica replace rr =
     bind_result (replaceAll getReplica 0 replace (CloneMap (nodeMap gm), [], rr_getReplacerEpoch rr)) (\<lambda>(r, g).
       let rr = rr\<lparr>rr_getReplacerEpoch := g\<rparr>
       in case r of
            None \<Rightarrow> Ok (None, rr)
          | Some (newMap, newids) \<Rightarrow>
              let newNodes = fold (\<lambda>i. put (at0 zeroNode newMap i) \<lparr>tw_ID = i, tw_NodeMap = newMap\<rparr>) newids []
              in Ok (Some (\<lparr>rm_NodeMap = newMap, rm_NewIds = newids, rm_AduSlot = 0\<rparr>, newNodes), rr))"

definition reconfSetupGlobal :: "(Node \<Rightarrow> bool) \<Rightarrow> (Node, TransferWrapper) gomap \<Rightarrow> bool" where
  "reconfSetupGlobal initNode newNodes \<longleftrightarrow> list_all (\<lambda>(nd, _). initNode nd) newNodes"

definition doRemoteSetupAndSend ::
  "(Node \<Rightarrow> bool) \<Rightarrow> ReconfMsg \<Rightarrow> (Node, TransferWrapper) gomap \<Rightarrow> RingReplacer \<Rightarrow> RingReplacer" where
  "doRemoteSetupAndSend initNode rcMsg newNodes rr =
     (if \<not> reconfSetupGlobal initNode newNodes then rr else rr\<lparr>recMsgChan := recMsgChan rr @ [rcMsg]\<rparr>)"

text \<open>The slot marker is the one of the application state the server answers with.\<close>

definition createAndProposeReconfigMsg :: "GrpMgr \<Rightarrow> (nat \<Rightarrow> Node option) \<Rightarrow> (Node \<Rightarrow> bool) \<Rightarrow> SlotID \<Rightarrow>
    gid list \<Rightarrow> RingReplacer \<Rightarrow> RingReplacer result" where
  "createAndProposeReconfigMsg gm getReplica initNode slotMarker replace rr =
     bind_result (getNewConfigs gm getReplica replace rr) (\<lambda>(r, rr).
       case r of
         None \<Rightarrow> Ok rr
       | Some (recMsg, newConfigs) \<Rightarrow>
           Ok (doRemoteSetupAndSend initNode (recMsg\<lparr>rm_AduSlot := slotMarker\<rparr>) newConfigs rr))"

section \<open>Suspicions\<close>

text \<open>The loop of \<open>handleFdMsg\<close>: it does not end when the whole ring is suspected.\<close>

partial_function (option) watchLoop ::
  "NodeMap \<Rightarrow> Fd \<Rightarrow> gid \<Rightarrow> gid list \<Rightarrow> (gid \<times> gid list) result option" where
  "watchLoop nm fd w replace =
     (case GetNext w nm of
        Inl e \<Rightarrow> Some (Inl e)
      | Inr w \<Rightarrow> if \<not> IsSuspected w fd then Some (Ok (w, replace)) else watchLoop nm fd w (replace @ [w]))"

declare watchLoop.simps [code]

definition rr_handleFdMsg :: "GrpMgr \<Rightarrow> Fd \<Rightarrow> (nat \<Rightarrow> Node option) \<Rightarrow> (Node \<Rightarrow> bool) \<Rightarrow> SlotID \<Rightarrow> FdMsg \<Rightarrow>
    RingReplacer \<Rightarrow> RingReplacer result" where
  "rr_handleFdMsg gm fd getReplica initNode slotMarker fdMsg rr =
     (if fd_Event fdMsg \<noteq> Suspect then Ok rr
      else if watching rr = fd_ID fdMsg then
        (case watchLoop (nodeMap gm) fd (watching rr) [watching rr] of
           None \<Rightarrow> Fault Diverges
         | Some r \<Rightarrow> bind_result r (\<lambda>(w, replace).
             let rr = rr\<lparr>watching := w\<rparr>
             in if of_nat (length replace) \<ge> Quorum gm then Fault (Panic ''replacing a hole quorum'')
                else createAndProposeReconfigMsg gm getReplica initNode slotMarker replace rr))
      else Ok rr)"

section \<open>The walk round the ring\<close>

text \<open>The replica at a position of the ring, with the epoch the cluster knows for it.\<close>

definition ringId :: "NodeMap \<Rightarrow> nat \<Rightarrow> gid" where
  "ringId nm k = ID (of_nat (k mod unat (nrOfNodes nm))) (epochs nm ! (k mod unat (nrOfNodes nm)))"

lemma PxInt_of_nat: "k \<le> 127 \<Longrightarrow> PxInt (ID (of_nat k) e) = int k"
proof -
  assume "k \<le> 127"
  have "sint (of_nat k :: 8 word) = signed_take_bit 7 (int k)" by (simp add: signed_of_nat)
  also have "\<dots> = int k" using \<open>k \<le> 127\<close> by (intro signed_take_bit_small) simp_all
  finally show ?thesis by (simp add: PxInt_def)
qed

lemma GetNext_ringId:
  assumes "wf_NodeMap nm" and "unat (nrOfNodes nm) \<le> 127" and "0 < unat (nrOfNodes nm)"
    and "PaxosID i = of_nat (k mod unat (nrOfNodes nm))"
  shows "GetNext i nm = Ok (ringId nm (Suc k))"
proof -
  let ?n = "unat (nrOfNodes nm)"
  have "k mod ?n < ?n" using assms(3) by simp
  then have px: "PxInt i = int (k mod ?n)"
    using PxInt_of_nat [of "k mod ?n"] assms(2,4) by (simp add: PxInt_def)
  have "int (Suc k mod ?n) = (int (k mod ?n) + 1) mod int ?n"
    by (simp only: of_nat_mod of_nat_Suc mod_add_right_eq add.commute)
  note suc = this
  have range: "0 \<le> PxInt i" "PxInt i < int ?n"
    unfolding px using \<open>k mod ?n < ?n\<close> by (simp_all only: of_nat_less_iff of_nat_0_le_iff)
  obtain j where j: "GetNext i nm = Inr j" "PxInt j = int (Suc k mod ?n)"
      "Epoch j = epochs nm ! nat (PxInt j)"
    using GetNext_next [OF assms(1,2) range] unfolding px suc by blast
  have "PxInt (ringId nm (Suc k)) = PxInt j"
    using PxInt_of_nat [of "Suc k mod ?n"] assms(2,3) mod_less_divisor [of ?n "Suc k"]
    by (simp add: ringId_def j(2) del: mod_less_divisor)
  then have "PaxosID (ringId nm (Suc k)) = PaxosID j" by (simp add: PxInt_eq_iff)
  then have "ringId nm (Suc k) = j"
    using j(2,3) by (cases j) (simp add: ringId_def)
  with j(1) show ?thesis by simp
qed

lemma watchLoop_walks:
  assumes "wf_NodeMap nm" and "unat (nrOfNodes nm) \<le> 127" and "0 < unat (nrOfNodes nm)"
    and "PaxosID i = of_nat (k mod unat (nrOfNodes nm))"
    and "\<not> IsSuspected (ringId nm (k + Suc m)) fd"
    and "\<And>l. l < m \<Longrightarrow> IsSuspected (ringId nm (k + Suc l)) fd"
  shows "watchLoop nm fd i replace =
    Some (Ok (ringId nm (k + Suc m), replace @ map (\<lambda>l. ringId nm (k + Suc l)) [0..<m]))"
  using assms(4-6)
proof (induction m arbitrary: i k replace)
  case 0
  then show ?case
    by (subst watchLoop.simps) (simp add: GetNext_ringId [OF assms(1-3)])
next
  case (Suc m)
  have next_px: "PaxosID (ringId nm (Suc k)) = of_nat (Suc k mod unat (nrOfNodes nm))"
    by (simp add: ringId_def)
  have "watchLoop nm fd (ringId nm (Suc k)) (replace @ [ringId nm (Suc k)]) =
      Some (Ok (ringId nm (Suc k + Suc m), (replace @ [ringId nm (Suc k)]) @
        map (\<lambda>l. ringId nm (Suc k + Suc l)) [0..<m]))"
    using Suc.prems(2) Suc.prems(3) [of "Suc _"] by (intro Suc.IH [OF next_px]) simp_all
  moreover have "IsSuspected (ringId nm (Suc k)) fd" using Suc.prems(3) [of 0] by simp
  moreover have "map (\<lambda>l. ringId nm (k + Suc l)) [0..<Suc m] =
      ringId nm (Suc k) # map (\<lambda>l. ringId nm (Suc k + Suc l)) [0..<m]"
    by (simp add: upt_conv_Cons map_Suc_upt [symmetric] o_def del: upt_Suc)
  ultimately show ?case
    by (subst watchLoop.simps) (simp add: GetNext_ringId [OF assms(1-3) Suc.prems(1)])
qed

section \<open>What a suspicion leads to\<close>

definition replaces :: "gid \<Rightarrow> gid \<Rightarrow> bool" where
  "replaces oldID newID \<longleftrightarrow> PaxosID newID = PaxosID oldID \<and> Epoch oldID < Epoch newID"

definition draws :: "EpochGenerator \<Rightarrow> nat \<Rightarrow> bool" where
  "draws g c \<longleftrightarrow> unat (baseForNode g) < 2 ^ 30 \<and> unat (eg_n g) \<le> 2 ^ 29 + c"

lemma getReplacerEpoch_draws:
  assumes "draws g c" and "small_epoch old" and "c < 2 ^ 28"
  shows "\<exists>e g'. getReplacerEpoch old g = Ok (e, g') \<and> old < e \<and> draws g' (Suc c)"
proof -
  have small: "unat (baseForNode g) < 2 ^ 30" "unat old < 2 ^ 29" "unat (eg_n g) < 2 ^ 30"
    using assms by (simp_all add: draws_def small_epoch_def)
  obtain n where n: "epochLoop (baseForNode g) old 0 (eg_n g) = Some (cantorPairing (baseForNode g) n, n + 1)"
      "old < cantorPairing (baseForNode g) n" "unat n \<le> max (unat (eg_n g)) (unat old + 1)"
    using epochLoop_draws [OF small, of 0] by auto
  have "unat n \<le> 2 ^ 29 + c" using n(3) assms by (auto simp: draws_def small_epoch_def)
  then have "unat (n + 1) \<le> 2 ^ 29 + Suc c" using assms(3) by (subst unat_Suc_small) simp_all
  then show ?thesis using n small by (auto simp: getReplacerEpoch_def draws_def)
qed

lemma replaceAll_replaces:
  assumes "draws g c" and "list_all (\<lambda>i. small_epoch (Epoch i)) olds" and "c + length olds < 2 ^ 28"
    and "\<And>l. l < length olds \<Longrightarrow> getReplica (k + l) \<noteq> None"
  shows "\<exists>newMap' news g'. replaceAll getReplica k olds (newMap, newids, g) = Ok (Some (newMap', newids @ news), g') \<and>
    list_all2 replaces olds news"
  using assms
proof (induction olds arbitrary: k newMap newids g c)
  case (Cons oldID olds)
  obtain node where node: "getReplica k = Some node" using Cons.prems(4) [of 0] by auto
  obtain e g1 where e: "getReplacerEpoch (Epoch oldID) g = Ok (e, g1)" "Epoch oldID < e" "draws g1 (Suc c)"
    using getReplacerEpoch_draws [OF Cons.prems(1), of "Epoch oldID"] Cons.prems(2,3) by auto
  let ?newid = "ID (PaxosID oldID) e"
  obtain newMap' news g' where rest:
      "replaceAll getReplica (Suc k) olds (put ?newid node (filter (\<lambda>(i, _). i \<noteq> oldID) newMap),
        newids @ [?newid], g1) = Ok (Some (newMap', (newids @ [?newid]) @ news), g')"
      "list_all2 replaces olds news"
    using Cons.IH [OF e(3), of "Suc k" "put ?newid node (filter (\<lambda>(i, _). i \<noteq> oldID) newMap)" "newids @ [?newid]"]
      Cons.prems(2,3) Cons.prems(4) [of "Suc _"] by auto
  then show ?case
    using e node
    by (auto simp: replaceOne_def Let_def replaces_def [of oldID] intro!: exI [of _ "?newid # news"])
qed simp

text \<open>
  When the watched replica is suspected, the loop ends at the first replica of the ring that is
  not, which is watched from then on; if the suspected ones are fewer than a quorum and replicas can
  be provided and initialised, one message is sent that replaces exactly the suspected ones, in ring
  order, each by an id of the same Paxos id and a greater epoch.
\<close>

theorem ring_replaces_suspects:
  assumes "wf_NodeMap (nodeMap gm)" and "unat (nrOfNodes (nodeMap gm)) \<le> 127"
    and "0 < unat (nrOfNodes (nodeMap gm))" and "watching rr = ringId (nodeMap gm) k"
    and "\<not> IsSuspected (ringId (nodeMap gm) (k + Suc m)) fd"
    and "\<And>l. l < m \<Longrightarrow> IsSuspected (ringId (nodeMap gm) (k + Suc l)) fd"
    and "Suc m < unat (Quorum gm)" and "Suc m < 2 ^ 28"
    and "draws (rr_getReplacerEpoch rr) 0"
    and "list_all (\<lambda>l. small_epoch (Epoch (ringId (nodeMap gm) (k + l)))) [0..<Suc m]"
    and "\<And>l. l \<le> m \<Longrightarrow> getReplica l \<noteq> None" and "\<And>node. initNode node"
  shows "\<exists>rr' msg. rr_handleFdMsg gm fd getReplica initNode slotMarker
      \<lparr>fd_Event = Suspect, fd_ID = watching rr\<rparr> rr = Ok rr' \<and>
    watching rr' = ringId (nodeMap gm) (k + Suc m) \<and> recMsgChan rr' = recMsgChan rr @ [msg] \<and>
    rm_AduSlot msg = slotMarker \<and>
    list_all2 replaces (map (\<lambda>l. ringId (nodeMap gm) (k + l)) [0..<Suc m]) (rm_NewIds msg)"
proof -
  let ?nm = "nodeMap gm"
  let ?olds = "map (\<lambda>l. ringId ?nm (k + l)) [0..<Suc m]"
  have px: "PaxosID (watching rr) = of_nat (k mod unat (nrOfNodes ?nm))"
    using assms(4) by (simp add: ringId_def)
  have olds: "?olds = watching rr # map (\<lambda>l. ringId ?nm (k + Suc l)) [0..<m]"
    by (simp add: assms(4) upt_conv_Cons map_Suc_upt [symmetric] o_def del: upt_Suc)
  have walk: "watchLoop ?nm fd (watching rr) [watching rr] = Some (Ok (ringId ?nm (k + Suc m), ?olds))"
    unfolding olds using watchLoop_walks [OF assms(1-3) px assms(5,6), of "[watching rr]"] by simp
  have len: "length ?olds = Suc m" by simp
  have "unat (of_nat (Suc m) :: 64 word) = Suc m"
    using assms(8) by (intro unat_of_nat_small) simp
  then have few: "\<not> Quorum gm \<le> of_nat (length ?olds)"
    using assms(7) by (simp only: len word_le_nat_alt not_le)
  obtain newMap news g where all: "replaceAll getReplica 0 ?olds (CloneMap ?nm, [], rr_getReplacerEpoch rr) =
      Ok (Some (newMap, [] @ news), g)" "list_all2 replaces ?olds news"
    using replaceAll_replaces [OF assms(9), of ?olds getReplica 0 "CloneMap ?nm" "[]"] assms(8,10,11)
    by (auto simp: list_all_iff)
  show ?thesis
    using all few walk assms(12)
    by (auto simp: rr_handleFdMsg_def createAndProposeReconfigMsg_def getNewConfigs_def Let_def
        doRemoteSetupAndSend_def reconfSetupGlobal_def list_all_iff simp del: upt_Suc)
qed

definition watcher :: RingReplacer where
  "watcher = \<lparr>rr_id = ID 0 0, rr_getReplacerEpoch = epochGenerator (ID 0 0), watching = ID 1 0, recMsgChan = []\<rparr>"

theorem ring_replaces_suspects_witness:
  "\<exists>rr' msg. rr_handleFdMsg threeGm (NewFd 500 250) (\<lambda>_. Some zeroNode) (\<lambda>_. True) 7
      \<lparr>fd_Event = Suspect, fd_ID = ID 1 0\<rparr> watcher = Ok rr' \<and>
    watching rr' = ID 2 0 \<and> recMsgChan rr' = [msg] \<and> list_all2 replaces [ID 1 0] (rm_NewIds msg)"
proof -
  have nm: "nodeMap threeGm = threeNodes" by (simp add: threeGm_def NewGrpMgr_def)
  have wf: "wf_NodeMap threeNodes" by code_simp
  have n: "nrOfNodes threeNodes = 3" "epochs threeNodes = [0, 0, 0]" "Quorum threeGm = 2"
    by code_simp+
  have ring: "ringId threeNodes 1 = ID 1 0" "ringId threeNodes (Suc 0) = ID 1 0" "ringId threeNodes 2 = ID 2 0"
    by (simp_all add: ringId_def n)
  have sus: "\<not> IsSuspected i (NewFd 500 250)" for i
    by (simp add: IsSuspected_def handleSuspectedRequest_def NewFd_def)
  have w: "watching watcher = ID 1 0" "recMsgChan watcher = []"
    "rr_getReplacerEpoch watcher = epochGenerator (ID 0 0)" by (simp_all add: watcher_def)
  have g: "draws (epochGenerator (ID 0 0)) 0"
    using epochGenerator_small [of "ID 0 0"] by (simp add: draws_def epochGenerator_def PxInt_def)
  have "\<exists>rr' msg. rr_handleFdMsg threeGm (NewFd 500 250) (\<lambda>_. Some zeroNode) (\<lambda>_. True) 7
      \<lparr>fd_Event = Suspect, fd_ID = watching watcher\<rparr> watcher = Ok rr' \<and>
    watching rr' = ringId (nodeMap threeGm) (1 + Suc 0) \<and> recMsgChan rr' = recMsgChan watcher @ [msg] \<and>
    rm_AduSlot msg = 7 \<and>
    list_all2 replaces (map (\<lambda>l. ringId (nodeMap threeGm) (1 + l)) [0..<Suc 0]) (rm_NewIds msg)"
    by (rule ring_replaces_suspects) (simp_all add: nm wf n ring sus w g small_epoch_def numeral_2_eq_2 [symmetric])
  then show ?thesis by (auto simp add: nm ring w numeral_2_eq_2 [symmetric])
qed

end
