(* ===== verification/LiveReplacement.thy ===== *)
theory LiveReplacement
  imports RingReplacer ValidQuorum Acceptor
begin

text \<open>
  Live Replacement (\<open>src/lr/\<close>): the handler that starts the replacement of a replica, answers prepare
  epochs with epoch promises and, at a replacer, installs the acceptor state of a valid quorum of
  promises and activates it.

  The group manager, the acceptor and the counter of decided slots are shared with other modules and
  part of the state. What the network answers is an argument of the step. The channel of prepare
  epochs, which the handler both reads and writes, is the list of what is in its buffer.
\<close>

section \<open>State\<close>

record PrepareEpoch =
  pe_ReplacerID :: gid
  pe_ReplacerNode :: Node
  pe_SlotMarker :: SlotID

record ForwardedEpSet =
  EpSet :: "EpochPromise list"

record ReplacementHandler =
  rh_id :: gid
  LRStrategy :: int
  replacer :: bool
  activated :: bool
  activatedClosed :: bool
  epochPromises :: "EpochPromise list"
  rh_getReplacerEpoch :: EpochGenerator
  rh_grpmgr :: GrpMgr
  rh_acceptor :: MultiAcceptor
  rh_adu :: Adu
  prepareEpochChan :: "PrepareEpoch list"
  prepareEpochCap :: nat
  rh_bcast :: "PrepareEpoch list"
  sentPromises :: "(gid \<times> EpochPromise) list"
  sentSets :: "(gid \<times> ForwardedEpSet) list"

definition NewReplacementHandler ::
  "gid \<Rightarrow> int \<Rightarrow> bool \<Rightarrow> GrpMgr \<Rightarrow> MultiAcceptor \<Rightarrow> Adu \<Rightarrow> ReplacementHandler" where
  "NewReplacementHandler i strategy repl gm acc adu =
     \<lparr>rh_id = i, LRStrategy = strategy, replacer = repl, activated = False, activatedClosed = False,
      epochPromises = [], rh_getReplacerEpoch = epochGenerator i, rh_grpmgr = gm, rh_acceptor = acc,
      rh_adu = adu, prepareEpochChan = [], prepareEpochCap = 0, rh_bcast = [], sentPromises = [],
      sentSets = []\<rparr>"

text \<open>The buffer of the channel of prepare epochs is as large as the quorum.\<close>

definition registerAndSubscribe :: "ReplacementHandler \<Rightarrow> ReplacementHandler" where
  "registerAndSubscribe rh =
     rh\<lparr>prepareEpochChan := [], prepareEpochCap := unat (Quorum (rh_grpmgr rh))\<rparr>"

text \<open>
  \<open>WaitForActivation\<close> returns at once when the replica is activated and when the signal channel is
  closed; until then it waits (\<open>None\<close>).
\<close>

definition WaitForActivation :: "ReplacementHandler \<Rightarrow> ReplacementHandler option" where
  "WaitForActivation rh =
     (if activated rh then Some rh
      else if activatedClosed rh then Some (rh\<lparr>activated := True\<rparr>) else None)"

text \<open>
  The handler's goroutine is the only reader of the channel: when it writes to a full buffer it waits
  for itself.
\<close>

definition putPrepareEpoch :: "PrepareEpoch \<Rightarrow> ReplacementHandler \<Rightarrow> ReplacementHandler result" where
  "putPrepareEpoch pe rh =
     (if length (prepareEpochChan rh) < prepareEpochCap rh
      then Ok (rh\<lparr>prepareEpochChan := prepareEpochChan rh @ [pe]\<rparr>) else Fault Diverges)"

section \<open>Starting a replacement\<close>

datatype rec_error = NoNewNodes | OldEpoch

fun checkEpochs :: "gid list \<Rightarrow> GrpMgr \<Rightarrow> bool result" where
  "checkEpochs [] gm = Ok True"
| "checkEpochs (i # is) gm =
     bind_result (index (Epochs gm) (PxInt i)) (\<lambda>e. if Epoch i \<le> e then Ok False else checkEpochs is gm)"

definition checkandhandleRecMsg ::
  "ReconfMsg \<Rightarrow> ReplacementHandler \<Rightarrow> (rec_error + PrepareEpoch) result" where
  "checkandhandleRecMsg rmsg rh =
     (case rm_NewIds rmsg of
        [] \<Rightarrow> Ok (Inl NoNewNodes)
      | i # _ \<Rightarrow>
          bind_result (checkEpochs (rm_NewIds rmsg) (rh_grpmgr rh)) (\<lambda>ok.
            if \<not> ok then Ok (Inl OldEpoch)
            else
              let rmsg = (if LRStrategy rh = 2 then rmsg\<lparr>rm_AduSlot := adu_val (rh_adu rh)\<rparr> else rmsg)
              in Ok (Inr \<lparr>pe_ReplacerID = i, pe_ReplacerNode = at0 zeroNode (rm_NodeMap rmsg) i,
                   pe_SlotMarker = rm_AduSlot rmsg\<rparr>)))"

definition handleRecMsg :: "ReconfMsg \<Rightarrow> ReplacementHandler \<Rightarrow> ReplacementHandler result" where
  "handleRecMsg rmsg rh =
     bind_result (checkandhandleRecMsg rmsg rh) (\<lambda>r.
       case r of
         Inl err \<Rightarrow> Ok rh
       | Inr ppEp \<Rightarrow> putPrepareEpoch ppEp (rh\<lparr>rh_bcast := rh_bcast rh @ [ppEp]\<rparr>))"

section \<open>Answering a prepare epoch\<close>

text \<open>
  What the network does during one prepare epoch. The promise is encoded by a goroutine of its own,
  and its epoch vector is the slice of the node map, not a copy: \<open>writtenLate\<close> says that it is read
  after \<open>Replace\<close> has written to it.
\<close>

record Outcome =
  fwdConnected :: bool
  fwdEncoded :: bool
  connected :: bool
  writtenLate :: bool
  connAdded :: bool

definition forwardEpochPromises :: "Outcome \<Rightarrow> PrepareEpoch \<Rightarrow> ReplacementHandler \<Rightarrow> ReplacementHandler" where
  "forwardEpochPromises out pe rh =
     (if epochPromises rh = [] then rh
      else if \<not> fwdConnected out then rh
      else if \<not> fwdEncoded out then rh
      else rh\<lparr>sentSets := sentSets rh @ [(pe_ReplacerID pe, \<lparr>EpSet = epochPromises rh\<rparr>)]\<rparr>)"

text \<open>
  \<open>GetState\<close> and \<open>GetMaxSlot\<close> hand a request to the acceptor's goroutine and wait for the answer. An
  acceptor that is not running never answers; that of a replacer is only started once the replacer
  is activated, which is for this goroutine to do.
\<close>

definition acceptorStateOf ::
  "SlotID \<Rightarrow> ReplacementHandler \<Rightarrow> (AcceptorSlotMap option \<times> ReplacementHandler) result" where
  "acceptorStateOf marker rh =
     (let a = rh_acceptor rh
      in if LRStrategy rh = 1 \<or> LRStrategy rh = 2 then
           (if \<not> ma_started a then Fault Diverges
            else bind_result (handleStateRequest (rh_grpmgr rh) marker a) (\<lambda>a.
              Ok (Some (last (ma_responses a)), rh\<lparr>rh_acceptor := a\<rparr>)))
         else if LRStrategy rh = 3 then
           (if \<not> ma_started a then Fault Diverges
            else let a = handleSlotRequest a
                 in Ok (Some (last (ma_responses a)), rh\<lparr>rh_acceptor := a\<rparr>))
         else Ok (None, rh))"

definition zeroEpochPromise :: EpochPromise where
  "zeroEpochPromise = \<lparr>ep_ID = ID 0 0, ep_Sender = zeroNode, ep_EpochVector = [], ep_SlotMarker = 0,
     ep_AccState = NewAcceptorSlotMap\<rparr>"

definition makeEpochPromise ::
  "Node \<Rightarrow> SlotID \<Rightarrow> AcceptorSlotMap option \<Rightarrow> ReplacementHandler \<Rightarrow> EpochPromise" where
  "makeEpochPromise node marker state rh =
     (case state of
        None \<Rightarrow> zeroEpochPromise
      | Some accState \<Rightarrow>
          \<lparr>ep_ID = rh_id rh, ep_Sender = node, ep_EpochVector = Epochs (rh_grpmgr rh),
           ep_SlotMarker = (if LRStrategy rh = 3 then asm_MaxSeen accState else marker),
           ep_AccState = accState\<rparr>)"

text \<open>Installing the replacer, once the promise is on its way.\<close>

definition sendPromise :: "gid \<Rightarrow> EpochPromise \<Rightarrow> ReplacementHandler \<Rightarrow> ReplacementHandler" where
  "sendPromise dest ep rh = rh\<lparr>sentPromises := sentPromises rh @ [(dest, ep)]\<rparr>"

definition installReplacer ::
  "Outcome \<Rightarrow> PrepareEpoch \<Rightarrow> EpochPromise \<Rightarrow> ReplacementHandler \<Rightarrow> ReplacementHandler result" where
  "installReplacer out pe ep rh =
     bind_result (Replace (pe_ReplacerID pe) (pe_ReplacerNode pe) (nodeMap (rh_grpmgr rh))) (\<lambda>r.
       case r of
         Inl err \<Rightarrow> Ok (sendPromise (pe_ReplacerID pe) ep rh)
       | Inr nm \<Rightarrow>
           let rh' = rh\<lparr>rh_grpmgr := (rh_grpmgr rh)\<lparr>nodeMap := nm\<rparr>\<rparr>;
               ep = (if writtenLate out \<and> ep_EpochVector ep \<noteq> [] then ep\<lparr>ep_EpochVector := epochs nm\<rparr> else ep);
               rh' = sendPromise (pe_ReplacerID pe) ep rh'
           in if connAdded out then Ok rh'
              else Fault (Panic ''error when adding replacer connection to network connections''))"

definition handlePrepareEpoch :: "Outcome \<Rightarrow> PrepareEpoch \<Rightarrow> ReplacementHandler \<Rightarrow> ReplacementHandler result" where
  "handlePrepareEpoch out pe rh =
     (let rh = (if replacer rh \<and> \<not> activated rh then forwardEpochPromises out pe rh else rh)
      in bind_result (index (Epochs (rh_grpmgr rh)) (PxInt (pe_ReplacerID pe))) (\<lambda>e.
        if \<not> Epoch (pe_ReplacerID pe) > e then Ok rh
        else if PaxosID (pe_ReplacerID pe) = PaxosID (rh_id rh) then Ok rh
        else if pe_SlotMarker pe > adu_val (rh_adu rh) then putPrepareEpoch pe rh
        else if \<not> connected out then Ok rh
        else bind_result (acceptorStateOf (pe_SlotMarker pe) rh) (\<lambda>(state, rh).
          case LookupNode (rh_id rh) (nodeMap (rh_grpmgr rh)) of
            None \<Rightarrow> Fault (Panic ''running node not found in nodemap'')
          | Some node \<Rightarrow>
              installReplacer out pe (makeEpochPromise node (pe_SlotMarker pe) state rh) rh)))"

section \<open>Collecting epoch promises\<close>

text \<open>
  The loop over the slots of one promise, which a map's iteration visits in the order \<open>entries\<close>.
  \<open>currentSlot\<close> is a local pointer: assigning it does not change the slot map.
\<close>

definition mergeSlot :: "SlotID \<times> AcceptorSlot \<Rightarrow> AcceptorSlotMap \<Rightarrow> AcceptorSlotMap" where
  "mergeSlot = (\<lambda>(_, epAccSlot) slotMap.
     let (currentSlot, slotMap) = GetAcceptorSlot (as_ID epAccSlot) slotMap;
         currentSlot = (if Compare (VRnd epAccSlot) (VRnd currentSlot) \<ge> 0 \<and>
             Compare (VRnd epAccSlot) (VRnd currentSlot) \<noteq> 0 then epAccSlot else currentSlot)
     in slotMap)"

definition mergeState :: "(AcceptorSlotMap \<Rightarrow> (SlotID \<times> AcceptorSlot) list) \<Rightarrow> EpochPromise \<Rightarrow>
    AcceptorSlotMap \<Rightarrow> AcceptorSlotMap" where
  "mergeState order ep slotMap =
     (let st = ep_AccState ep;
          slotMap = (if Compare (asm_Rnd st) (asm_Rnd slotMap) = 1
            then slotMap\<lparr>asm_Rnd := asm_Rnd st\<rparr> else slotMap);
          slotMap = (if asm_MaxSeen st > asm_MaxSeen slotMap
            then slotMap\<lparr>asm_MaxSeen := asm_MaxSeen st\<rparr> else slotMap)
      in fold mergeSlot (order st) slotMap)"

fun mergeStates :: "(AcceptorSlotMap \<Rightarrow> (SlotID \<times> AcceptorSlot) list) \<Rightarrow> EpochPromise list \<Rightarrow>
    int list \<Rightarrow> AcceptorSlotMap \<Rightarrow> AcceptorSlotMap result" where
  "mergeStates order eps [] slotMap = Ok slotMap"
| "mergeStates order eps (idx # idxs) slotMap =
     bind_result (index eps idx) (\<lambda>ep. mergeStates order eps idxs (mergeState order ep slotMap))"

definition extractAcceptorState :: "(AcceptorSlotMap \<Rightarrow> (SlotID \<times> AcceptorSlot) list) \<Rightarrow>
    EpochPromise list \<Rightarrow> int list \<Rightarrow> AcceptorSlotMap result" where
  "extractAcceptorState order eps vqIndices = mergeStates order eps vqIndices NewAcceptorSlotMap"

text \<open>Activation: the acceptor gets the merged state, and the closed channel wakes the start-up.\<close>

definition activate ::
  "EpochPromise \<Rightarrow> AcceptorSlotMap \<Rightarrow> ReplacementHandler \<Rightarrow> ReplacementHandler result" where
  "activate ep accState rh =
     (let a = acc_SetState accState (rh_acceptor rh);
          a = (if LRStrategy rh = 1 \<or> LRStrategy rh = 2 then acc_SetLowSlot (ep_SlotMarker ep) a
               else if LRStrategy rh = 3 then acc_SetLowSlot (asm_MaxSeen accState) a else a);
          rh = rh\<lparr>rh_acceptor := a, activated := True\<rparr>
      in if activatedClosed rh then Fault (Panic ''close of closed channel'')
         else Ok (rh\<lparr>activatedClosed := True\<rparr>))"

definition addSender :: "EpochPromise \<Rightarrow> GrpMgr \<Rightarrow> GrpMgr result" where
  "addSender ep gm =
     bind_result (Add (ep_ID ep) (ep_Sender ep) (nodeMap gm)) (\<lambda>r.
       Ok (case r of Inl err \<Rightarrow> gm | Inr nm \<Rightarrow> gm\<lparr>nodeMap := nm\<rparr>))"

definition tryActivate :: "(AcceptorSlotMap \<Rightarrow> (SlotID \<times> AcceptorSlot) list) \<Rightarrow> EpochPromise \<Rightarrow>
    ReplacementHandler \<Rightarrow> ReplacementHandler result" where
  "tryActivate order ep rh =
     (if of_nat (length (epochPromises rh)) < Quorum (rh_grpmgr rh) then Ok rh
      else bind_result (extractValidQuorumEp (epochPromises rh) (Quorum (rh_grpmgr rh))) (\<lambda>(validQuorum, vqIndices).
        if \<not> validQuorum then Ok rh
        else bind_result (extractAcceptorState order (epochPromises rh) vqIndices) (\<lambda>accState.
          activate ep accState rh)))"

definition handleEpochPromise :: "(AcceptorSlotMap \<Rightarrow> (SlotID \<times> AcceptorSlot) list) \<Rightarrow> EpochPromise \<Rightarrow>
    ReplacementHandler \<Rightarrow> ReplacementHandler result" where
  "handleEpochPromise order ep rh =
     (if \<not> replacer rh then Ok rh
      else bind_result (addSender ep (rh_grpmgr rh)) (\<lambda>gm.
        let rh = rh\<lparr>rh_grpmgr := gm\<rparr>
        in if activated rh then Ok rh
           else tryActivate order ep (rh\<lparr>epochPromises := epochPromises rh @ [ep]\<rparr>)))"

text \<open>Never called: the loop of \<open>Start\<close> does not read the channel of forwarded sets.\<close>

fun handleForwardedEpSet :: "(AcceptorSlotMap \<Rightarrow> (SlotID \<times> AcceptorSlot) list) \<Rightarrow> EpochPromise list \<Rightarrow>
    ReplacementHandler \<Rightarrow> ReplacementHandler result" where
  "handleForwardedEpSet order [] rh = Ok rh"
| "handleForwardedEpSet order (ep # eps) rh =
     bind_result (handleEpochPromise order ep rh) (handleForwardedEpSet order eps)"

section \<open>The event loop\<close>

text \<open>
  \<open>LRPrepareEpoch\<close> is the loop taking the oldest prepare epoch from the channel; \<open>LRDeliver\<close> is the
  demultiplexer putting one there, \<open>LRAdu\<close> and \<open>LRAcceptor\<close> are the steps of the server and the
  acceptor, on the state they share with the handler.
\<close>

datatype lr_event =
    LRRecMsg ReconfMsg
  | LRPrepareEpoch Outcome
  | LREpochPromise "AcceptorSlotMap \<Rightarrow> (SlotID \<times> AcceptorSlot) list" EpochPromise
  | LRDeliver PrepareEpoch
  | LRAdu
  | LRAcceptor acceptor_event

fun lr_step :: "lr_event \<Rightarrow> ReplacementHandler \<Rightarrow> ReplacementHandler result" where
  "lr_step (LRRecMsg rmsg) rh = handleRecMsg rmsg rh"
| "lr_step (LRPrepareEpoch out) rh =
     (case prepareEpochChan rh of
        [] \<Rightarrow> Ok rh
      | pe # pes \<Rightarrow> handlePrepareEpoch out pe (rh\<lparr>prepareEpochChan := pes\<rparr>))"
| "lr_step (LREpochPromise order ep) rh = handleEpochPromise order ep rh"
| "lr_step (LRDeliver pe) rh =
     (if length (prepareEpochChan rh) < prepareEpochCap rh
      then Ok (rh\<lparr>prepareEpochChan := prepareEpochChan rh @ [pe]\<rparr>) else Ok rh)"
| "lr_step LRAdu rh = Ok (rh\<lparr>rh_adu := Increment (rh_adu rh)\<rparr>)"
| "lr_step (LRAcceptor ev) rh =
     bind_result (acceptor_step (rh_grpmgr rh) ev (rh_acceptor rh)) (\<lambda>a. Ok (rh\<lparr>rh_acceptor := a\<rparr>))"

end
