(* ===== verification/LiveReplacementRuns.thy ===== *)
theory LiveReplacementRuns
  imports LiveReplacement
begin

text \<open>
  What Live Replacement guarantees: a replacer is activated by a valid quorum of epoch promises and
  by nothing else, its acceptor is then bound to every round the quorum was bound to, and the
  membership only moves to greater epochs. And what it does not: the votes the promises report are
  lost.
\<close>

section \<open>The merged acceptor state\<close>

lemma mergeSlot_eq: "mergeSlot e sm = snd (GetAcceptorSlot (as_ID (snd e)) sm)"
  by (simp add: mergeSlot_def Let_def split: prod.splits)

lemma mergeSlots:
  "asm_Rnd (fold mergeSlot es sm) = asm_Rnd sm \<and> asm.view (fold mergeSlot es sm) = asm.view sm \<and>
   asm_MaxSeen sm \<le> asm_MaxSeen (fold mergeSlot es sm) \<and>
   (asm.bounded sm \<longrightarrow> asm.bounded (fold mergeSlot es sm))"
proof (induction es arbitrary: sm)
  case (Cons e es)
  have "asm_MaxSeen sm \<le> asm_MaxSeen (mergeSlot e sm)" "asm_Rnd (mergeSlot e sm) = asm_Rnd sm"
    "asm.view (mergeSlot e sm) = asm.view sm" "asm.bounded sm \<longrightarrow> asm.bounded (mergeSlot e sm)"
    by (simp_all add: mergeSlot_eq asm.view_get asm.bounded_get asm.get_maxSeen)
  then show ?case using Cons.IH [of "mergeSlot e sm"] by (auto intro: order_trans)
qed simp

lemma mergeState_fields:
  "asm_Rnd (mergeState order ep sm) = max (asm_Rnd sm) (asm_Rnd (ep_AccState ep)) \<and>
   asm.view (mergeState order ep sm) = asm.view sm \<and>
   max (asm_MaxSeen sm) (asm_MaxSeen (ep_AccState ep)) \<le> asm_MaxSeen (mergeState order ep sm) \<and>
   (asm.bounded sm \<longrightarrow> asm.bounded (mergeState order ep sm))"
proof -
  define sm1 where "sm1 = (if Compare (asm_Rnd (ep_AccState ep)) (asm_Rnd sm) = 1
    then sm\<lparr>asm_Rnd := asm_Rnd (ep_AccState ep)\<rparr> else sm)"
  define sm2 where "sm2 = (if asm_MaxSeen (ep_AccState ep) > asm_MaxSeen sm1
    then sm1\<lparr>asm_MaxSeen := asm_MaxSeen (ep_AccState ep)\<rparr> else sm1)"
  have "mergeState order ep sm = fold mergeSlot (order (ep_AccState ep)) sm2"
    by (simp add: mergeState_def sm1_def sm2_def Let_def)
  moreover have "asm_Rnd sm2 = max (asm_Rnd sm) (asm_Rnd (ep_AccState ep))"
    "asm_MaxSeen sm2 = max (asm_MaxSeen sm) (asm_MaxSeen (ep_AccState ep))"
    by (auto simp: sm2_def sm1_def max_def)
  moreover have "asm.view sm2 = asm.view sm"
    by (rule ext) (simp add: sm2_def sm1_def asm.view_def)
  moreover have "asm.bounded sm \<Longrightarrow> asm.bounded sm2"
    by (auto simp: sm2_def sm1_def asm.bounded_def intro: order_trans less_imp_le)
  ultimately show ?thesis
    using mergeSlots [of "order (ep_AccState ep)" sm2] by auto
qed

lemma mergeStates_fields:
  assumes "mergeStates order eps idxs sm = Ok sm'"
  shows "asm.view sm' = asm.view sm \<and> asm_Rnd sm \<le> asm_Rnd sm' \<and> asm_MaxSeen sm \<le> asm_MaxSeen sm' \<and>
    (asm.bounded sm \<longrightarrow> asm.bounded sm') \<and>
    list_all (\<lambda>i. asm_Rnd (ep_AccState (eps ! nat i)) \<le> asm_Rnd sm' \<and>
      asm_MaxSeen (ep_AccState (eps ! nat i)) \<le> asm_MaxSeen sm') idxs \<and>
    (asm_Rnd sm' = asm_Rnd sm \<or> list_ex (\<lambda>i. asm_Rnd sm' = asm_Rnd (ep_AccState (eps ! nat i))) idxs)"
  using assms
proof (induction idxs arbitrary: sm)
  case (Cons i idxs)
  then obtain ep where ep: "index eps i = Ok ep" "mergeStates order eps idxs (mergeState order ep sm) = Ok sm'"
    by (auto simp: bind_result_Inr_iff)
  have "ep = eps ! nat i" using ep(1) by (simp add: index_Inr_iff)
  then show ?case
    using Cons.IH [OF ep(2)] mergeState_fields [of order ep sm] by (auto simp: max_def split: if_splits)
qed simp

lemma extractAcceptorState_fields:
  assumes "extractAcceptorState order eps idxs = Ok sm"
  shows "VRnd (asm.view sm s) = ZeroRound" and "asm.bounded sm"
    and "list_all (\<lambda>i. asm_Rnd (ep_AccState (eps ! nat i)) \<le> asm_Rnd sm \<and>
      asm_MaxSeen (ep_AccState (eps ! nat i)) \<le> asm_MaxSeen sm) idxs"
    and "asm_Rnd sm = ZeroRound \<or> list_ex (\<lambda>i. asm_Rnd sm = asm_Rnd (ep_AccState (eps ! nat i))) idxs"
proof -
  note fields = mergeStates_fields [OF assms [unfolded extractAcceptorState_def]]
  show "VRnd (asm.view sm s) = ZeroRound"
    using fields by (simp add: asm.view_def NewAcceptorSlotMap_def blankAcceptorSlot_def)
  show "asm.bounded sm"
    using fields by (simp add: asm.bounded_def NewAcceptorSlotMap_def)
  show "list_all (\<lambda>i. asm_Rnd (ep_AccState (eps ! nat i)) \<le> asm_Rnd sm \<and>
      asm_MaxSeen (ep_AccState (eps ! nat i)) \<le> asm_MaxSeen sm) idxs"
    and "asm_Rnd sm = ZeroRound \<or> list_ex (\<lambda>i. asm_Rnd sm = asm_Rnd (ep_AccState (eps ! nat i))) idxs"
    using fields by (simp_all add: NewAcceptorSlotMap_def)
qed

section \<open>Activation\<close>

lemma activate_Ok:
  assumes "activate ep accState rh = Ok rh'"
  shows "activated rh'" and "activatedClosed rh'" and "\<not> activatedClosed rh"
    and "ma_slots (rh_acceptor rh') = accState"
    and "ma_lowSlot (rh_acceptor rh') =
      (if LRStrategy rh = 1 \<or> LRStrategy rh = 2 then ep_SlotMarker ep
       else if LRStrategy rh = 3 then asm_MaxSeen accState else ma_lowSlot (rh_acceptor rh))"
    and "epochPromises rh' = epochPromises rh" and "rh_grpmgr rh' = rh_grpmgr rh"
    and "replacer rh' = replacer rh" and "rh_id rh' = rh_id rh"
  using assms
  by (auto simp: activate_def Let_def acc_SetState_def acc_SetLowSlot_def split: if_splits)

lemma tryActivate_cases:
  assumes "tryActivate order ep rh = Ok rh'"
  obtains (no_quorum) "rh' = rh"
  | (quorum) js accState where "extractValidQuorumEp (epochPromises rh) (Quorum (rh_grpmgr rh)) = Ok (True, js)"
      "extractAcceptorState order (epochPromises rh) js = Ok accState" "activate ep accState rh = Ok rh'"
proof (cases "of_nat (length (epochPromises rh)) < Quorum (rh_grpmgr rh)")
  case True
  then have "rh' = rh" using assms by (simp add: tryActivate_def)
  then show thesis by (rule no_quorum)
next
  case False
  then obtain b js where vq: "extractValidQuorumEp (epochPromises rh) (Quorum (rh_grpmgr rh)) = Ok (b, js)"
    using assms by (auto simp: tryActivate_def bind_result_Inr_iff)
  show thesis
  proof (cases b)
    case True
    then obtain accState where "extractAcceptorState order (epochPromises rh) js = Ok accState"
      using assms False vq by (auto simp: tryActivate_def bind_result_Inr_iff)
    then show thesis using assms False vq True by (intro quorum) (simp_all add: tryActivate_def)
  next
    case b: False
    then have "rh' = rh" using assms False vq by (simp add: tryActivate_def)
    then show thesis by (rule no_quorum)
  qed
qed

lemma handleEpochPromise_sender:
  assumes "handleEpochPromise order ep rh = Ok rh'" and "replacer rh"
  shows "\<exists>gm. addSender ep (rh_grpmgr rh) = Ok gm"
proof (cases "addSender ep (rh_grpmgr rh)")
  case (Inl e)
  then have False using assms unfolding handleEpochPromise_def by simp
  then show ?thesis ..
qed simp

lemma handleEpochPromise_cases:
  assumes "handleEpochPromise order ep rh = Ok rh'"
  obtains (ignored) "\<not> replacer rh" "rh' = rh"
  | (late) gm where "replacer rh" "addSender ep (rh_grpmgr rh) = Ok gm" "activated rh"
      "rh' = rh\<lparr>rh_grpmgr := gm\<rparr>"
  | (stored) gm where "replacer rh" "addSender ep (rh_grpmgr rh) = Ok gm" "\<not> activated rh"
      "tryActivate order ep (rh\<lparr>rh_grpmgr := gm, epochPromises := epochPromises rh @ [ep]\<rparr>) = Ok rh'"
proof (cases "replacer rh")
  case False
  then have "rh' = rh" using assms by (simp add: handleEpochPromise_def)
  with False show thesis by (rule ignored)
next
  case True
  then obtain gm where gm: "addSender ep (rh_grpmgr rh) = Ok gm"
    using handleEpochPromise_sender [OF assms] by blast
  show thesis
  proof (cases "activated rh")
    case True
    then show thesis using assms \<open>replacer rh\<close> gm by (intro late) (auto simp: handleEpochPromise_def)
  next
    case False
    then show thesis
      using assms \<open>replacer rh\<close> gm by (intro stored) (simp_all add: handleEpochPromise_def)
  qed
qed

lemma extractValidQuorumEp_sound:
  assumes "vq_sizes msgs q" and "extractValidQuorumEp msgs q = Inr (True, js)"
  shows "valid_quorum ep_ID ep_EpochVector msgs (unat q) js"
  using extractVqBy_sound [OF assms(1), of epConflict js] assms(2)
  by (simp add: extractValidQuorumEp_def conflictOf_instances valid_vq_conflictOf)

text \<open>
  C29. When an epoch promise activates a replacer, the promises it has then hold a valid quorum, and
  the state installed in its acceptor is bound to the greatest of the quorum's rounds, knows a
  highest slot no lower than any of theirs, and refuses what the strategy says lies below the
  transferred state.
\<close>

theorem activation_installs_state:
  assumes "handleEpochPromise order ep rh = Ok rh'" and "\<not> activated rh" and "activated rh'"
    and "vq_sizes (epochPromises rh') (Quorum (rh_grpmgr rh'))"
  shows "\<exists>js. valid_quorum ep_ID ep_EpochVector (epochPromises rh') (unat (Quorum (rh_grpmgr rh'))) js \<and>
    list_all (\<lambda>i. asm_Rnd (ep_AccState (epochPromises rh' ! nat i)) \<le> asm_Rnd (ma_slots (rh_acceptor rh')) \<and>
      asm_MaxSeen (ep_AccState (epochPromises rh' ! nat i)) \<le> asm_MaxSeen (ma_slots (rh_acceptor rh'))) js \<and>
    (asm_Rnd (ma_slots (rh_acceptor rh')) = ZeroRound \<or> list_ex (\<lambda>i.
      asm_Rnd (ma_slots (rh_acceptor rh')) = asm_Rnd (ep_AccState (epochPromises rh' ! nat i))) js) \<and>
    ma_lowSlot (rh_acceptor rh') =
      (if LRStrategy rh = 1 \<or> LRStrategy rh = 2 then ep_SlotMarker ep
       else if LRStrategy rh = 3 then asm_MaxSeen (ma_slots (rh_acceptor rh'))
       else ma_lowSlot (rh_acceptor rh))"
  using assms(1)
proof (cases rule: handleEpochPromise_cases)
  case (stored gm)
  from stored(4) show ?thesis
  proof (cases rule: tryActivate_cases)
    case no_quorum
    then show ?thesis using assms(2,3) by simp
  next
    case (quorum js accState)
    note act = activate_Ok [OF quorum(3)]
    have eps: "epochPromises rh' = epochPromises rh @ [ep]" "rh_grpmgr rh' = gm"
      using act(6,7) by simp_all
    have "valid_quorum ep_ID ep_EpochVector (epochPromises rh') (unat (Quorum (rh_grpmgr rh'))) js"
      using extractValidQuorumEp_sound [OF assms(4)] quorum(1) eps by simp
    moreover note extractAcceptorState_fields(3,4) [OF quorum(2)]
    ultimately show ?thesis
      using act(4,5) eps by (intro exI [of _ js]) simp
  qed
qed (use assms in simp_all)

text \<open>
  The votes are lost: whatever the promises of the quorum report, the installed state holds a vote
  for no slot.
\<close>

lemma extractAcceptorState_loses_votes:
  "extractAcceptorState order eps idxs = Ok sm \<Longrightarrow> VRnd (asm.view sm s) = ZeroRound"
  by (rule extractAcceptorState_fields(1))

text \<open>Two promises that both report a vote make a quorum, and the installed state has forgotten it.\<close>

definition votedState :: AcceptorSlotMap where
  "votedState = PutAcceptorSlot 5 \<lparr>as_ID = 5, VRnd = Round 1 (ID 0 0), VVal = appValue\<rparr>
     (NewAcceptorSlotMap\<lparr>asm_Rnd := Round 1 (ID 0 0), asm_MaxSeen := 5\<rparr>)"

definition votedPromise :: "8 word \<Rightarrow> EpochPromise" where
  "votedPromise p = \<lparr>ep_ID = ID p 0, ep_Sender = zeroNode, ep_EpochVector = [0, 0, 0], ep_SlotMarker = 0,
     ep_AccState = votedState\<rparr>"

definition slotFive :: "AcceptorSlotMap \<Rightarrow> (SlotID \<times> AcceptorSlot) list" where
  "slotFive sm = (case asm_Slots sm 5 of None \<Rightarrow> [] | Some s \<Rightarrow> [(5, s)])"

lemma replacer_forgets_a_chosen_value:
  "(case extractValidQuorumEp [votedPromise 0, votedPromise 1] 2 of
      Inr (b, js) \<Rightarrow> b \<and>
        (case extractAcceptorState slotFive [votedPromise 0, votedPromise 1] js of
           Inr sm \<Rightarrow> asm_Rnd sm = Round 1 (ID 0 0) \<and> VRnd (fst (GetAcceptorSlot 5 sm)) = ZeroRound
         | Inl _ \<Rightarrow> False)
    | Inl _ \<Rightarrow> False)"
  by code_simp

section \<open>Membership\<close>

text \<open>
  A well-formed node map in which the epoch of a position without a node is still 0: what a cluster
  starts from, with or without the nodes that have not joined yet.
\<close>

definition member_ok :: "NodeMap \<Rightarrow> bool" where
  "member_ok nm \<longleftrightarrow> wf_NodeMap nm \<and>
     (\<forall>p < length (epochs nm). (\<forall>i \<in> fst ` set (nodes nm). nat (PxInt i) \<noteq> p) \<longrightarrow> epochs nm ! p = 0)"

definition epochs_grow :: "NodeMap \<Rightarrow> NodeMap \<Rightarrow> bool" where
  "epochs_grow nm nm' \<longleftrightarrow> list_all2 (\<le>) (epochs nm) (epochs nm') \<and> nrOfNodes nm' = nrOfNodes nm \<and>
     quorum nm' = quorum nm"

lemma epochs_grow_refl [simp]: "epochs_grow nm nm"
  by (simp add: epochs_grow_def list_all2_refl)

lemma epochs_grow_trans: "epochs_grow nm1 nm2 \<Longrightarrow> epochs_grow nm2 nm3 \<Longrightarrow> epochs_grow nm1 nm3"
  unfolding epochs_grow_def using list_all2_trans [of "(\<le>)" "(\<le>)" "(\<le>)" "epochs nm1" "epochs nm2" "epochs nm3"]
  by (auto intro: order_trans)

lemma epochs_grow_update:
  "nat p < length es \<Longrightarrow> es ! nat p \<le> e \<Longrightarrow> list_all2 (\<le>) es (es[nat p := (e :: epoch)])"
  by (simp add: list_all2_conv_all_nth nth_list_update)

lemma Add_epochs_grow:
  assumes ok: "member_ok nm" and add: "Add i n nm = Ok (Inr nm')"
  shows "member_ok nm' \<and> epochs_grow nm nm' \<and> (LookupNode j nm = Some m \<longrightarrow> LookupNode j nm' = Some m)"
proof -
  have wf: "wf_NodeMap nm" using ok by (simp add: member_ok_def)
  note node = Add_node [OF wf add]
  obtain es where es: "setEpoch i (epochs nm) = Ok es" and fresh: "PaxosID i \<notin> PaxosID ` fst ` set (nodes nm)"
      and nm': "nm' = memoize (nm\<lparr>nodes := nodes nm @ [(i, n)], epochs := es\<rparr>)"
    using add by (auto simp: Add_cases [OF wf] bind_result_Inr_iff split: if_splits)
  have p: "0 \<le> PxInt i" "nat (PxInt i) < length (epochs nm)"
    using es by (auto simp: setEpoch_def update_index_Inr_iff)
  have free: "\<forall>k \<in> fst ` set (nodes nm). nat (PxInt k) \<noteq> nat (PxInt i)"
  proof
    fix k assume k: "k \<in> fst ` set (nodes nm)"
    then have "0 \<le> PxInt k" by (rule wf_NodeMap_PxInt [OF wf])
    moreover have "PaxosID k \<noteq> PaxosID i" using fresh k by (metis image_eqI)
    ultimately show "nat (PxInt k) \<noteq> nat (PxInt i)"
      using p(1) by (simp add: eq_nat_nat_iff PxInt_eq_iff)
  qed
  then have "epochs nm ! nat (PxInt i) = 0" using ok p by (simp add: member_ok_def)
  then have "epochs_grow nm nm'"
    using node epochs_grow_update [OF p(2), of "Epoch i"] by (simp add: epochs_grow_def)
  moreover have "member_ok nm'"
    using ok node p(2) by (auto simp: member_ok_def nth_list_update)
  moreover have "LookupNode j nm = Some m \<longrightarrow> LookupNode j nm' = Some m"
    by (simp add: nm' LookupNode_def map_add_def)
  ultimately show ?thesis by blast
qed

lemma Replace_found:
  assumes wf: "wf_NodeMap nm" and rep: "Replace i n nm = Ok (Inr nm')"
  obtains oldID oldNode where "(oldID, oldNode) \<in> set (nodes nm)" "PaxosID i = PaxosID oldID"
  using rep by (auto simp: Replace_def dest: LookupNodeWithPaxosID_Some split: option.splits)

lemma Replace_epochs_grow:
  assumes ok: "member_ok nm" and rep: "Replace i n nm = Ok (Inr nm')"
    and greater: "index (epochs nm) (PxInt i) = Ok e" "e < Epoch i"
  shows "member_ok nm' \<and> epochs_grow nm nm' \<and>
    (PaxosID j \<noteq> PaxosID i \<longrightarrow> LookupNode j nm' = LookupNode j nm)"
proof -
  have wf: "wf_NodeMap nm" using ok by (simp add: member_ok_def)
  obtain oldID oldNode where old: "(oldID, oldNode) \<in> set (nodes nm)" "PaxosID i = PaxosID oldID"
    using Replace_found [OF wf rep] .
  obtain nm2 where "Replace i n nm = Ok (Inr nm2)" and node: "wf_NodeMap nm2"
      "set (nodes nm2) = set (nodes nm) - {(oldID, oldNode)} \<union> {(i, n)}" "quorum nm2 = quorum nm"
      "nrOfNodes nm2 = nrOfNodes nm" "epochs nm2 = (epochs nm)[nat (PxInt i) := Epoch i]"
    using Replace_node [OF wf old] by blast
  then have nm2: "nm2 = nm'" using rep by simp
  have p: "0 \<le> PxInt i" "nat (PxInt i) < length (epochs nm)" "epochs nm ! nat (PxInt i) = e"
    using greater(1) by (simp_all add: index_Inr_iff)
  have "epochs_grow nm nm'"
    using node epochs_grow_update [OF p(2), of "Epoch i"] p(3) greater(2) by (simp add: epochs_grow_def nm2)
  moreover have "member_ok nm'"
  proof -
    have px: "PxInt i = PxInt oldID" using old(2) by (simp add: PxInt_eq_iff)
    have "epochs nm' ! q = 0" if q: "q < length (epochs nm')" "\<forall>k \<in> fst ` set (nodes nm'). nat (PxInt k) \<noteq> q" for q
    proof -
      have "nat (PxInt i) \<noteq> q" using q(2) node(2) nm2 by force
      moreover from this have "\<forall>k \<in> fst ` set (nodes nm). nat (PxInt k) \<noteq> q"
        using q(2) node(2) nm2 px by force
      ultimately show ?thesis using ok q(1) node(5) nm2 by (simp add: member_ok_def)
    qed
    then show ?thesis using node(1) nm2 by (simp add: member_ok_def)
  qed
  moreover have "LookupNode j nm' = LookupNode j nm" if "PaxosID j \<noteq> PaxosID i"
  proof -
    have "(j, m) \<in> set (nodes nm') \<longleftrightarrow> (j, m) \<in> set (nodes nm)" for m
      using that old(2) node(2) nm2 by auto
    then have "LookupNode j nm' = Some m \<longleftrightarrow> LookupNode j nm = Some m" for m
      using wf_NodeMap_distinct [OF wf] wf_NodeMap_distinct [OF node(1)] nm2
      by (simp add: LookupNode_def)
    then show ?thesis by (metis option.exhaust)
  qed
  ultimately show ?thesis by blast
qed

section \<open>Runs of the handler\<close>

fun lr_run :: "lr_event list \<Rightarrow> ReplacementHandler \<Rightarrow> ReplacementHandler result" where
  "lr_run [] rh = Ok rh"
| "lr_run (ev # evs) rh = bind_result (lr_step ev rh) (lr_run evs)"

text \<open>What a step other than an epoch promise leaves alone.\<close>

definition same_promises :: "ReplacementHandler \<Rightarrow> ReplacementHandler \<Rightarrow> bool" where
  "same_promises rh rh' \<longleftrightarrow> replacer rh' = replacer rh \<and> activated rh' = activated rh \<and>
     activatedClosed rh' = activatedClosed rh \<and> epochPromises rh' = epochPromises rh \<and>
     Quorum (rh_grpmgr rh') = Quorum (rh_grpmgr rh)"

definition member_step :: "ReplacementHandler \<Rightarrow> ReplacementHandler \<Rightarrow> bool" where
  "member_step rh rh' \<longleftrightarrow> rh_id rh' = rh_id rh \<and>
     (member_ok (nodeMap (rh_grpmgr rh)) \<longrightarrow> member_ok (nodeMap (rh_grpmgr rh')) \<and>
        epochs_grow (nodeMap (rh_grpmgr rh)) (nodeMap (rh_grpmgr rh')) \<and>
        (\<forall>n. LookupNode (rh_id rh) (nodeMap (rh_grpmgr rh)) = Some n \<longrightarrow>
          LookupNode (rh_id rh) (nodeMap (rh_grpmgr rh')) = Some n))"

lemma member_step_same: "rh_grpmgr rh' = rh_grpmgr rh \<Longrightarrow> rh_id rh' = rh_id rh \<Longrightarrow> member_step rh rh'"
  by (simp add: member_step_def)

lemma member_step_trans: "member_step rh rh1 \<Longrightarrow> member_step rh1 rh' \<Longrightarrow> member_step rh rh'"
  unfolding member_step_def using epochs_grow_trans by metis

lemma same_promises_trans: "same_promises rh rh1 \<Longrightarrow> same_promises rh1 rh' \<Longrightarrow> same_promises rh rh'"
  by (simp add: same_promises_def)

lemma Replace_quorum: "Replace i n nm = Ok (Inr nm') \<Longrightarrow> quorum nm' = quorum nm"
  by (auto simp: Replace_def Let_def bind_result_Inr_iff split: option.splits)

lemma Add_quorum: "Add i n nm = Ok (Inr nm') \<Longrightarrow> quorum nm' = quorum nm"
  by (auto simp: Add_def bind_result_Inr_iff split: if_splits)

lemma addSender_cases:
  assumes "addSender ep gm = Ok gm'"
  obtains "gm' = gm" | nm where "Add (ep_ID ep) (ep_Sender ep) (nodeMap gm) = Ok (Inr nm)"
      "gm' = gm\<lparr>nodeMap := nm\<rparr>"
proof -
  obtain r where r: "Add (ep_ID ep) (ep_Sender ep) (nodeMap gm) = Ok r"
      "gm' = (case r of Inl err \<Rightarrow> gm | Inr nm \<Rightarrow> gm\<lparr>nodeMap := nm\<rparr>)"
    using assms by (auto simp: addSender_def bind_result_Inr_iff)
  then show thesis using that by (cases r) auto
qed

lemma addSender_quorum: "addSender ep gm = Ok gm' \<Longrightarrow> Quorum gm' = Quorum gm"
  by (erule addSender_cases) (simp_all add: Quorum_def Add_quorum)

lemma putPrepareEpoch_Ok:
  "putPrepareEpoch pe rh = Ok rh' \<Longrightarrow> rh' = rh\<lparr>prepareEpochChan := prepareEpochChan rh @ [pe]\<rparr>"
  by (simp add: putPrepareEpoch_def split: if_splits)

lemma handleRecMsg_frame:
  assumes "handleRecMsg rmsg rh = Ok rh'"
  shows "same_promises rh rh' \<and> member_step rh rh'"
proof -
  obtain r where r: "checkandhandleRecMsg rmsg rh = Ok r"
    using assms by (cases "checkandhandleRecMsg rmsg rh") (simp_all add: handleRecMsg_def)
  show ?thesis
  proof (cases r)
    case (Inl e)
    then have "rh' = rh" using assms r by (simp add: handleRecMsg_def)
    then show ?thesis by (simp add: same_promises_def member_step_same)
  next
    case (Inr pe)
    then have "rh' = rh\<lparr>rh_bcast := rh_bcast rh @ [pe], prepareEpochChan := prepareEpochChan rh @ [pe]\<rparr>"
      using assms r putPrepareEpoch_Ok [of pe "rh\<lparr>rh_bcast := rh_bcast rh @ [pe]\<rparr>" rh']
      by (auto simp: handleRecMsg_def)
    then show ?thesis by (simp add: same_promises_def member_step_same)
  qed
qed

lemma acceptorStateOf_frame:
  assumes "acceptorStateOf marker rh = Ok (state, rh')"
  shows "same_promises rh rh' \<and> rh_grpmgr rh' = rh_grpmgr rh \<and> rh_id rh' = rh_id rh"
  using assms
  by (auto simp: acceptorStateOf_def Let_def bind_result_Inr_iff same_promises_def split: if_splits)

lemma installReplacer_frame:
  assumes inst: "installReplacer out pe ep rh = Ok rh'"
    and greater: "index (Epochs (rh_grpmgr rh)) (PxInt (pe_ReplacerID pe)) = Ok e" "e < Epoch (pe_ReplacerID pe)"
    and other: "PaxosID (pe_ReplacerID pe) \<noteq> PaxosID (rh_id rh)"
  shows "same_promises rh rh' \<and> member_step rh rh'"
proof -
  obtain r where r: "Replace (pe_ReplacerID pe) (pe_ReplacerNode pe) (nodeMap (rh_grpmgr rh)) = Ok r"
    using inst by (cases "Replace (pe_ReplacerID pe) (pe_ReplacerNode pe) (nodeMap (rh_grpmgr rh))")
      (simp_all add: installReplacer_def)
  show ?thesis
  proof (cases r)
    case (Inl err)
    then have "rh' = sendPromise (pe_ReplacerID pe) ep rh" using inst r by (simp add: installReplacer_def)
    then show ?thesis by (simp add: sendPromise_def same_promises_def member_step_same)
  next
    case (Inr nm)
    then have fields: "rh_grpmgr rh' = (rh_grpmgr rh)\<lparr>nodeMap := nm\<rparr>" "rh_id rh' = rh_id rh"
        "replacer rh' = replacer rh" "activated rh' = activated rh"
        "activatedClosed rh' = activatedClosed rh" "epochPromises rh' = epochPromises rh"
      using inst r by (auto simp: installReplacer_def Let_def sendPromise_def split: if_splits)
    have rep: "Replace (pe_ReplacerID pe) (pe_ReplacerNode pe) (nodeMap (rh_grpmgr rh)) = Ok (Inr nm)"
      using r Inr by simp
    have "same_promises rh rh'"
      using fields Replace_quorum [OF rep] by (simp add: same_promises_def Quorum_def)
    moreover have "member_step rh rh'"
      using Replace_epochs_grow [OF _ rep greater(1) [unfolded Epochs_def] greater(2), of "rh_id rh"] other fields
      by (simp add: member_step_def)
    ultimately show ?thesis ..
  qed
qed

lemma handlePrepareEpoch_frame:
  assumes "handlePrepareEpoch out pe rh = Ok rh'"
  shows "same_promises rh rh' \<and> member_step rh rh'"
proof -
  define rh1 where "rh1 = (if replacer rh \<and> \<not> activated rh then forwardEpochPromises out pe rh else rh)"
  have rh1: "same_promises rh rh1" "rh_grpmgr rh1 = rh_grpmgr rh" "rh_id rh1 = rh_id rh"
    by (auto simp: rh1_def forwardEpochPromises_def same_promises_def)
  obtain e where e: "index (Epochs (rh_grpmgr rh1)) (PxInt (pe_ReplacerID pe)) = Ok e"
    using assms unfolding handlePrepareEpoch_def rh1_def [symmetric] Let_def
    by (cases "index (Epochs (rh_grpmgr rh1)) (PxInt (pe_ReplacerID pe))") simp_all
  note eq = assms [unfolded handlePrepareEpoch_def Let_def rh1_def [symmetric] e bind_result_simps]
  have from1: "same_promises rh1 rh' \<and> member_step rh1 rh' \<Longrightarrow> ?thesis"
    using rh1 same_promises_trans member_step_trans member_step_same by blast
  have still: "rh' = rh1 \<Longrightarrow> ?thesis"
    using from1 by (simp add: same_promises_def member_step_same)
  show ?thesis
  proof (cases "e < Epoch (pe_ReplacerID pe) \<and> PaxosID (pe_ReplacerID pe) \<noteq> PaxosID (rh_id rh1)")
    case False
    then show ?thesis using eq still by (auto split: if_splits)
  next
    case True
    note eq2 = eq [simplified True, simplified]
    show ?thesis
    proof (cases "adu_val (rh_adu rh1) < pe_SlotMarker pe")
      case True
      then have "rh' = rh1\<lparr>prepareEpochChan := prepareEpochChan rh1 @ [pe]\<rparr>"
        using eq2 putPrepareEpoch_Ok [of pe rh1 rh'] by simp
      then show ?thesis using from1 by (simp add: same_promises_def member_step_same)
    next
      case False
      note eq3 = eq2 [simplified False, simplified]
      show ?thesis
      proof (cases "connected out")
        case False
        then show ?thesis using eq3 still by simp
      next
        case True
        obtain state rh2 where st: "acceptorStateOf (pe_SlotMarker pe) rh1 = Ok (state, rh2)"
          using eq3 True by (cases "acceptorStateOf (pe_SlotMarker pe) rh1") auto
        have rh2: "same_promises rh1 rh2" "rh_grpmgr rh2 = rh_grpmgr rh1" "rh_id rh2 = rh_id rh1"
          using acceptorStateOf_frame [OF st] by simp_all
        obtain node where "LookupNode (rh_id rh2) (nodeMap (rh_grpmgr rh2)) = Some node"
          using eq3 True st by (cases "LookupNode (rh_id rh2) (nodeMap (rh_grpmgr rh2))") simp_all
        then obtain ep where "installReplacer out pe ep rh2 = Ok rh'" using eq3 True st by auto
        then have "same_promises rh2 rh' \<and> member_step rh2 rh'"
          using e rh2(2,3) \<open>e < Epoch (pe_ReplacerID pe) \<and> PaxosID (pe_ReplacerID pe) \<noteq> PaxosID (rh_id rh1)\<close>
          by (intro installReplacer_frame [of out pe ep rh2 rh' e]) simp_all
        then show ?thesis
          using from1 rh2 same_promises_trans member_step_trans member_step_same by blast
      qed
    qed
  qed
qed

lemma handleEpochPromise_member:
  assumes "handleEpochPromise order ep rh = Ok rh'"
  shows "member_step rh rh'"
proof -
  have added: "member_step rh rh'" if sender: "addSender ep (rh_grpmgr rh) = Ok gm"
      and gm: "rh_grpmgr rh' = gm" "rh_id rh' = rh_id rh" for gm
    using sender
  proof (cases rule: addSender_cases)
    case 1
    then show ?thesis using gm by (simp add: member_step_same)
  next
    case (2 nm)
    then show ?thesis
      using Add_epochs_grow [OF _ 2(1)] gm by (simp add: member_step_def)
  qed
  show ?thesis
    using assms
  proof (cases rule: handleEpochPromise_cases)
    case ignored
    then show ?thesis by (simp add: member_step_same)
  next
    case (late gm)
    then show ?thesis using added by simp
  next
    case (stored gm)
    from stored(4) show ?thesis
    proof (cases rule: tryActivate_cases)
      case no_quorum
      then show ?thesis using added stored(2) by simp
    next
      case (quorum js accState)
      then show ?thesis using added [OF stored(2)] activate_Ok(7,9) [OF quorum(3)] by simp
    qed
  qed
qed

text \<open>The invariant: who is activated has a valid quorum.\<close>

definition act_inv :: "ReplacementHandler \<Rightarrow> bool" where
  "act_inv rh \<longleftrightarrow> (activated rh \<longleftrightarrow> activatedClosed rh) \<and>
     (activated rh \<longrightarrow> replacer rh \<and>
       (vq_sizes (epochPromises rh) (Quorum (rh_grpmgr rh)) \<longrightarrow> (\<exists>js.
         valid_quorum ep_ID ep_EpochVector (epochPromises rh) (unat (Quorum (rh_grpmgr rh))) js)))"

lemma same_promises_inv: "same_promises rh rh' \<Longrightarrow> act_inv rh \<Longrightarrow> act_inv rh'"
  by (simp add: same_promises_def act_inv_def)

lemma handleEpochPromise_inv:
  assumes "handleEpochPromise order ep rh = Ok rh'" and "act_inv rh"
  shows "act_inv rh'"
  using assms(1)
proof (cases rule: handleEpochPromise_cases)
  case ignored
  then show ?thesis using assms(2) by simp
next
  case (late gm)
  then show ?thesis using assms(2) addSender_quorum [OF late(2)] by (simp add: act_inv_def)
next
  case (stored gm)
  from stored(4) show ?thesis
  proof (cases rule: tryActivate_cases)
    case no_quorum
    then show ?thesis using assms(2) stored(3) by (simp add: act_inv_def)
  next
    case (quorum js accState)
    note act = activate_Ok [OF quorum(3)]
    have eps: "epochPromises rh' = epochPromises rh @ [ep]" "rh_grpmgr rh' = gm" using act(6,7) by simp_all
    have "valid_quorum ep_ID ep_EpochVector (epochPromises rh') (unat (Quorum (rh_grpmgr rh'))) js"
      if "vq_sizes (epochPromises rh') (Quorum (rh_grpmgr rh'))"
      using extractValidQuorumEp_sound [OF that] quorum(1) eps by simp
    then show ?thesis using act(1,2,8) stored(1) by (auto simp: act_inv_def)
  qed
qed

lemma lr_step_inv:
  assumes "lr_step ev rh = Ok rh'"
  shows "(act_inv rh \<longrightarrow> act_inv rh') \<and> member_step rh rh'"
proof -
  have frame: "same_promises rh rh' \<and> member_step rh rh' \<Longrightarrow> ?thesis"
    using same_promises_inv by blast
  show ?thesis
  proof (cases ev)
    case (LRRecMsg rmsg)
    then show ?thesis using assms handleRecMsg_frame frame by simp
  next
    case (LRPrepareEpoch out)
    show ?thesis
    proof (cases "prepareEpochChan rh")
      case Nil
      then show ?thesis using assms LRPrepareEpoch frame by (simp add: same_promises_def member_step_same)
    next
      case (Cons pe pes)
      have "same_promises rh (rh\<lparr>prepareEpochChan := pes\<rparr>) \<and> member_step rh (rh\<lparr>prepareEpochChan := pes\<rparr>)"
        by (simp add: same_promises_def member_step_same)
      moreover have "handlePrepareEpoch out pe (rh\<lparr>prepareEpochChan := pes\<rparr>) = Ok rh'"
        using assms LRPrepareEpoch Cons by simp
      ultimately show ?thesis
        using handlePrepareEpoch_frame frame same_promises_trans member_step_trans by blast
    qed
  next
    case (LREpochPromise order ep)
    then show ?thesis using assms handleEpochPromise_inv handleEpochPromise_member by auto
  next
    case (LRDeliver pe)
    then have "rh' = rh \<or> rh' = rh\<lparr>prepareEpochChan := prepareEpochChan rh @ [pe]\<rparr>"
      using assms by (simp split: if_splits)
    then show ?thesis using frame by (auto simp: same_promises_def member_step_same)
  next
    case LRAdu
    then have "rh' = rh\<lparr>rh_adu := Increment (rh_adu rh)\<rparr>" using assms by simp
    then show ?thesis using frame by (simp add: same_promises_def member_step_same)
  next
    case (LRAcceptor aev)
    then obtain a where "rh' = rh\<lparr>rh_acceptor := a\<rparr>"
      using assms by (cases "acceptor_step (rh_grpmgr rh) aev (rh_acceptor rh)") auto
    then show ?thesis using frame by (simp add: same_promises_def member_step_same)
  qed
qed

lemma lr_run_inv:
  "lr_run evs rh = Ok rh' \<Longrightarrow> (act_inv rh \<longrightarrow> act_inv rh') \<and> member_step rh rh'"
proof (induction evs arbitrary: rh)
  case (Cons ev evs)
  obtain rh1 where "lr_step ev rh = Ok rh1" "lr_run evs rh1 = Ok rh'"
    using Cons.prems by (cases "lr_step ev rh") auto
  then show ?case using lr_step_inv Cons.IH member_step_trans by blast
qed (simp add: member_step_same)

text \<open>The only place where a run can close a channel again is \<open>activate\<close>: nothing before it fails that way.\<close>

definition no_close :: "'a result \<Rightarrow> bool" where
  "no_close r \<longleftrightarrow> r \<noteq> Inl (Panic ''close of closed channel'')"

lemma no_close_Ok [simp]: "no_close (Inr x)"
  by (simp add: no_close_def)

lemma no_close_bind: "no_close r \<Longrightarrow> (\<And>x. r = Inr x \<Longrightarrow> no_close (f x)) \<Longrightarrow> no_close (bind_result r f)"
  by (cases r) (simp_all add: no_close_def)

lemma no_close_index [simp]: "no_close (index xs k)" "no_close (update_index xs k x)"
  by (simp_all add: no_close_def index_def update_index_def)

lemma no_close_incrAt [simp]: "no_close (incrAt k xs)"
  by (simp add: incrAt_def no_close_bind)

lemma no_close_carryLoop [simp]: "no_close (carryLoop r n k xs)"
proof (induction r n k xs rule: carryLoop.induct)
  case (1 r n k xs)
  then show ?case by (subst carryLoop.simps) (auto intro!: no_close_bind)
qed

lemma no_close_fillLoop [simp]: "no_close (fillLoop r k xs)"
proof (induction r k xs rule: fillLoop.induct)
  case (1 r k xs)
  then show ?case by (subst fillLoop.simps) (auto intro!: no_close_bind)
qed

lemma no_close_NextComb [simp]: "no_close (NextComb ci)"
  by (auto simp: NextComb_def updateS_def Let_def split: prod.splits intro!: no_close_bind)

lemma no_close_epConflict [simp]: "no_close (epConflict a b)"
  by (auto simp: epConflict_def epochBelow_def intro!: no_close_bind)

lemma no_close_anyConflict [simp]: "no_close (anyConflict epConflict msgs k js)"
  by (induction epConflict msgs k js rule: anyConflict.induct) (auto intro!: no_close_bind)

lemma no_close_checkCombination [simp]: "no_close (checkCombinationBy epConflict js msgs)"
  by (induction epConflict js msgs rule: checkCombinationBy.induct) (auto intro!: no_close_bind)

lemma no_close_searchVq [simp]: "no_close (searchVq epConflict msgs ci)"
proof (induction "epConflict :: EpochPromise \<Rightarrow> EpochPromise \<Rightarrow> bool result" msgs ci rule: searchVq.induct)
  case (1 msgs ci)
  then show ?case by (subst searchVq.simps) (auto intro!: no_close_bind)
qed

lemma no_close_extractValidQuorumEp [simp]: "no_close (extractValidQuorumEp msgs q)"
  by (auto simp: extractValidQuorumEp_def extractVqBy_def NewCombinationIterator_def no_close_def [of "Inl _"]
      intro!: no_close_bind)

lemma no_close_extractAcceptorState [simp]: "no_close (extractAcceptorState order eps js)"
proof -
  have "no_close (mergeStates order eps js sm)" for sm
    by (induction order eps js sm rule: mergeStates.induct) (auto intro!: no_close_bind)
  then show ?thesis by (simp add: extractAcceptorState_def)
qed

lemma no_close_addSender [simp]: "no_close (addSender ep gm)"
  by (auto simp: addSender_def Add_def setEpoch_def intro!: no_close_bind)

lemma no_close_handleEpochPromise:
  assumes "act_inv rh"
  shows "no_close (handleEpochPromise order ep rh)"
proof -
  have "no_close (activate ep accState rh1)" if "\<not> activatedClosed rh1" for accState rh1
    using that by (simp add: activate_def Let_def)
  then show ?thesis using assms
    by (auto simp: handleEpochPromise_def tryActivate_def Let_def act_inv_def split: prod.splits intro!: no_close_bind)
qed

text \<open>
  C27. Over any run of a new handler, whatever it is sent: if the replica is activated, it was started
  as a replacer, it has given the activation signal and the epoch promises it holds contain a valid
  quorum (as long as the number of their combinations fits in 63 bits). From then on an epoch promise
  adds its sender to the node map and does nothing else: the acceptor is installed once. And in no
  state that can be reached does an epoch promise close the activation channel a second time.
\<close>

theorem activated_by_valid_quorum:
  assumes "lr_run evs (registerAndSubscribe (NewReplacementHandler i strategy repl gm acc adu)) = Ok rh'"
  shows "(activated rh' \<longrightarrow> replacer rh' \<and> activatedClosed rh' \<and>
      (vq_sizes (epochPromises rh') (Quorum (rh_grpmgr rh')) \<longrightarrow> (\<exists>js.
        valid_quorum ep_ID ep_EpochVector (epochPromises rh') (unat (Quorum (rh_grpmgr rh'))) js)) \<and>
      (\<forall>order ep. handleEpochPromise order ep rh' =
        bind_result (addSender ep (rh_grpmgr rh')) (\<lambda>gm. Ok (rh'\<lparr>rh_grpmgr := gm\<rparr>)))) \<and>
    (\<forall>order ep. handleEpochPromise order ep rh' \<noteq> Fault (Panic ''close of closed channel''))"
proof -
  have "act_inv (registerAndSubscribe (NewReplacementHandler i strategy repl gm acc adu))"
    by (simp add: act_inv_def registerAndSubscribe_def NewReplacementHandler_def)
  then have inv: "act_inv rh'" using lr_run_inv [OF assms(1)] by blast
  then have once: "handleEpochPromise order ep rh' =
      bind_result (addSender ep (rh_grpmgr rh')) (\<lambda>gm. Ok (rh'\<lparr>rh_grpmgr := gm\<rparr>))" if "activated rh'" for order ep
    using that by (simp add: act_inv_def handleEpochPromise_def Let_def)
  show ?thesis
    using inv once no_close_handleEpochPromise [OF inv] by (auto simp: act_inv_def no_close_def)
qed

text \<open>
  C28. Over any run the membership a handler keeps stays well formed, the epoch it knows for a Paxos id
  never decreases, the cluster and quorum sizes stay, and its own node is never replaced under it.
\<close>

theorem membership_only_grows:
  assumes "lr_run evs rh = Ok rh'" and "member_ok (nodeMap (rh_grpmgr rh))"
    and "LookupNode (rh_id rh) (nodeMap (rh_grpmgr rh)) = Some n"
  shows "wf_NodeMap (nodeMap (rh_grpmgr rh')) \<and>
    list_all2 (\<le>) (epochs (nodeMap (rh_grpmgr rh))) (epochs (nodeMap (rh_grpmgr rh'))) \<and>
    Quorum (rh_grpmgr rh') = Quorum (rh_grpmgr rh) \<and>
    LookupNode (rh_id rh') (nodeMap (rh_grpmgr rh')) = Some n"
  using lr_run_inv [OF assms(1)] assms(2,3)
  by (simp add: member_step_def member_ok_def epochs_grow_def Quorum_def)

section \<open>Examples\<close>

definition newHandler :: "bool \<Rightarrow> ReplacementHandler" where
  "newHandler repl = registerAndSubscribe (NewReplacementHandler (ID 2 0) 2 repl threeGm
     (NewMultiAcceptor (ID 2 0) True (ID 0 0) 1 threeGm) (NewAdu 0))"

definition firstPromise :: ReplacementHandler where
  "firstPromise = (newHandler True)\<lparr>epochPromises := [votedPromise 0]\<rparr>"

theorem activation_installs_state_witness:
  "\<exists>rh'. handleEpochPromise slotFive (votedPromise 1) firstPromise = Ok rh' \<and> activated rh' \<and>
    ma_lowSlot (rh_acceptor rh') = 0"
proof -
  have "case handleEpochPromise slotFive (votedPromise 1) firstPromise of Inl _ \<Rightarrow> False
      | Inr rh' \<Rightarrow> activated rh' \<and> length (epochPromises rh') = 2 \<and> Quorum (rh_grpmgr rh') = 2" by code_simp
  then obtain rh' where rh': "handleEpochPromise slotFive (votedPromise 1) firstPromise = Ok rh'" "activated rh'"
      "length (epochPromises rh') = 2" "Quorum (rh_grpmgr rh') = 2"
    by (auto split: sum.splits)
  have before: "\<not> activated firstPromise" "LRStrategy firstPromise = 2" by code_simp+
  have sizes: "vq_sizes (epochPromises rh') (Quorum (rh_grpmgr rh'))" by (simp add: vq_sizes_def rh'(3,4))
  have "ma_lowSlot (rh_acceptor rh') = 0"
    using activation_installs_state [OF rh'(1) before(1) rh'(2) sizes] before(2) by (auto simp: votedPromise_def)
  with rh'(1,2) show ?thesis by blast
qed

theorem activated_by_valid_quorum_witness:
  "\<exists>rh' js. lr_run [LREpochPromise slotFive (votedPromise 0), LREpochPromise slotFive (votedPromise 1)]
      (newHandler True) = Ok rh' \<and> activated rh' \<and>
    valid_quorum ep_ID ep_EpochVector (epochPromises rh') 2 js"
proof -
  let ?evs = "[LREpochPromise slotFive (votedPromise 0), LREpochPromise slotFive (votedPromise 1)]"
  have "case lr_run ?evs (newHandler True) of Inl _ \<Rightarrow> False
      | Inr rh' \<Rightarrow> activated rh' \<and> length (epochPromises rh') = 2 \<and> Quorum (rh_grpmgr rh') = 2" by code_simp
  then obtain rh' where rh': "lr_run ?evs (newHandler True) = Ok rh'" "activated rh'"
      "length (epochPromises rh') = 2" "Quorum (rh_grpmgr rh') = 2"
    by (auto split: sum.splits)
  have sizes: "vq_sizes (epochPromises rh') (Quorum (rh_grpmgr rh'))" by (simp add: vq_sizes_def rh'(3,4))
  show ?thesis
    using activated_by_valid_quorum [OF rh'(1) [unfolded newHandler_def]] sizes rh' by auto
qed

definition replaceOneNode :: PrepareEpoch where
  "replaceOneNode = \<lparr>pe_ReplacerID = ID 1 5, pe_ReplacerNode = zeroNode, pe_SlotMarker = 0\<rparr>"

definition networkUp :: Outcome where
  "networkUp = \<lparr>fwdConnected = True, fwdEncoded = True, connected = True, writtenLate = False, connAdded = True\<rparr>"

theorem membership_only_grows_witness:
  "\<exists>rh rh'. lr_run [LRDeliver replaceOneNode, LRPrepareEpoch networkUp] rh = Ok rh' \<and>
    epochs (nodeMap (rh_grpmgr rh')) = [0, 5, 0] \<and> wf_NodeMap (nodeMap (rh_grpmgr rh'))"
proof -
  define rh where "rh = (newHandler False)\<lparr>rh_acceptor := acc_Start (rh_acceptor (newHandler False))\<rparr>"
  have "case lr_run [LRDeliver replaceOneNode, LRPrepareEpoch networkUp] rh of Inl _ \<Rightarrow> False
      | Inr rh' \<Rightarrow> epochs (nodeMap (rh_grpmgr rh')) = [0, 5, 0]" unfolding rh_def by code_simp
  then obtain rh' where rh': "lr_run [LRDeliver replaceOneNode, LRPrepareEpoch networkUp] rh = Ok rh'"
      "epochs (nodeMap (rh_grpmgr rh')) = [0, 5, 0]"
    by (auto split: sum.splits)
  have gm: "rh_grpmgr rh = threeGm" "rh_id rh = ID 2 0"
    by (simp_all add: rh_def newHandler_def registerAndSubscribe_def NewReplacementHandler_def)
  have "wf_NodeMap (nodeMap threeGm)" "epochs (nodeMap threeGm) = [0, 0, 0]" by code_simp+
  then have ok: "member_ok (nodeMap (rh_grpmgr rh))" unfolding gm by (auto simp: member_ok_def less_Suc_eq)
  have own: "LookupNode (rh_id rh) (nodeMap (rh_grpmgr rh)) = Some (NewNode [] [] [] True True True)"
    unfolding gm by code_simp
  show ?thesis using membership_only_grows [OF rh'(1) ok own] rh' by blast
qed

text \<open>
  A replacer that is not activated yet and is told of another replacement asks its own acceptor, which
  is not running: the handler waits for ever and the replacer is never activated.
\<close>

lemma unactivated_replacer_hangs:
  "lr_run [LRDeliver replaceOneNode, LRPrepareEpoch networkUp] (newHandler True) = Fault Diverges"
  by code_simp

end
