(* ===== verification/ParallelAcceptor.thy ===== *)
theory ParallelAcceptor
  imports Acceptor
begin

text \<open>
  The ParallelPaxos acceptor (\<open>src/parallelpaxos/acceptor.go\<close>). Several goroutines handle prepares
  and accepts on one slot map. A prepare takes the write side of the round lock and runs alone; an
  accept takes the read side only, so accepts interleave. Handling an accept is modelled twice: as
  one operation, and as the atomic steps that goroutines interleave.
\<close>

section \<open>State\<close>

record ParallelAcceptor =
  pa_id :: gid
  pa_started :: bool
  pa_startable :: bool
  pa_lowSlot :: SlotID
  pa_processors :: int
  pa_slots :: AcceptorSlotMap
  pa_ucast :: "(gid \<times> dynamic) list"
  pa_bcast :: "dynamic list"

definition NewParallelAcceptor :: "gid \<Rightarrow> bool \<Rightarrow> bool \<Rightarrow> SlotID \<Rightarrow> int \<Rightarrow> ParallelAcceptor" where
  "NewParallelAcceptor i runAcc runLrn nextExpectedDcd processors =
     \<lparr>pa_id = i, pa_started = False, pa_startable = (runAcc \<and> runLrn), pa_lowSlot = nextExpectedDcd,
      pa_processors = processors, pa_slots = NewAcceptorSlotMap\<lparr>asm_MaxSeen := nextExpectedDcd\<rparr>,
      pa_ucast = [], pa_bcast = []\<rparr>"

definition pa_Start :: "ParallelAcceptor \<Rightarrow> ParallelAcceptor" where
  "pa_Start a = (if \<not> pa_startable a \<or> pa_started a then a else a\<lparr>pa_started := True\<rparr>)"

definition pa_Stop :: "ParallelAcceptor \<Rightarrow> ParallelAcceptor" where
  "pa_Stop a = (if pa_started a then a\<lparr>pa_started := False\<rparr> else a)"

definition pa_send :: "message \<Rightarrow> gid \<Rightarrow> ParallelAcceptor \<Rightarrow> ParallelAcceptor" where
  "pa_send msg dest a = a\<lparr>pa_ucast := pa_ucast a @ [(dest, Struct msg)]\<rparr>"

definition pa_broadcast :: "message \<Rightarrow> ParallelAcceptor \<Rightarrow> ParallelAcceptor" where
  "pa_broadcast msg a = a\<lparr>pa_bcast := pa_bcast a @ [Struct msg]\<rparr>"

text \<open>The assignment in \<open>SetState\<close> is commented out.\<close>

definition pa_SetState :: "AcceptorSlotMap \<Rightarrow> ParallelAcceptor \<Rightarrow> ParallelAcceptor" where
  "pa_SetState slots a = a"

definition pa_SetLowSlot :: "SlotID \<Rightarrow> ParallelAcceptor \<Rightarrow> ParallelAcceptor" where
  "pa_SetLowSlot slot a = a\<lparr>pa_lowSlot := slot\<rparr>"

section \<open>Handlers\<close>

definition pa_handlePrepare ::
  "Prepare \<Rightarrow> ParallelAcceptor \<Rightarrow> (Promise option \<times> gid \<times> ParallelAcceptor) result" where
  "pa_handlePrepare msg a =
     (if Compare (asm_Rnd (pa_slots a)) (prep_CRnd msg) \<ge> 0 then Ok (None, UndefinedID, a)
      else
        let sm = (pa_slots a)\<lparr>asm_Rnd := prep_CRnd msg\<rparr>;
            mx = asm_MaxSeen sm;
            accslots = initialAccSlots (prep_Slot msg) mx
        in case for_le (prep_Slot msg) mx collectSlot (accslots, sm) of
             None \<Rightarrow> Fault Diverges
           | Some (accslots, sm) \<Rightarrow>
               Ok (Some \<lparr>prom_ID = pa_id a, prom_Rnd = asm_Rnd sm, prom_AccSlots = accslots,
                     prom_EpochVector = []\<rparr>,
                   prep_ID msg, a\<lparr>pa_slots := sm\<rparr>))"

text \<open>\<open>handleAccept\<close> up to the broadcast of the learn, and the whole.\<close>

definition pa_vote :: "Accept \<Rightarrow> ParallelAcceptor \<Rightarrow> Learn option \<times> ParallelAcceptor" where
  "pa_vote msg a =
     (if acc_Slot msg < pa_lowSlot a then (None, a)
      else
        let (slot, sm) = GetAcceptorSlot (acc_Slot msg) (pa_slots a)
        in if Compare (asm_Rnd sm) (acc_Rnd msg) = 1 then (None, a\<lparr>pa_slots := sm\<rparr>)
           else if Compare (acc_Rnd msg) (VRnd slot) = 0 then (None, a\<lparr>pa_slots := sm\<rparr>)
           else
             let sm = (if Compare (asm_Rnd sm) (acc_Rnd msg) = - 1
                       then sm\<lparr>asm_Rnd := acc_Rnd msg\<rparr> else sm);
                 slot = slot\<lparr>VRnd := acc_Rnd msg, VVal := acc_Val msg\<rparr>;
                 sm = PutAcceptorSlot (acc_Slot msg) slot sm
             in (Some \<lparr>lrn_ID = pa_id a, lrn_Slot = as_ID slot, lrn_Rnd = asm_Rnd sm,
                   lrn_Val = acc_Val msg, lrn_EpochVector = []\<rparr>, a\<lparr>pa_slots := sm\<rparr>))"

definition pa_handleAccept :: "Accept \<Rightarrow> ParallelAcceptor \<Rightarrow> ParallelAcceptor" where
  "pa_handleAccept msg a =
     (case pa_vote msg a of
        (None, a) \<Rightarrow> a
      | (Some learn, a) \<Rightarrow> pa_broadcast (MLearn learn) a)"

datatype pa_event =
    PAPrepare Prepare
  | PAAccept Accept
  | PAStop

fun processor_step :: "pa_event \<Rightarrow> ParallelAcceptor \<Rightarrow> ParallelAcceptor result" where
  "processor_step (PAPrepare prepare) a =
     bind_result (pa_handlePrepare prepare a) (\<lambda>(prom, dest, a).
       Ok (case prom of None \<Rightarrow> a | Some p \<Rightarrow> pa_send (MPromise p) dest a))"
| "processor_step (PAAccept accept) a = Ok (pa_handleAccept accept a)"
| "processor_step PAStop a = Ok a"

section \<open>One handler at a time: the contract of an acceptor\<close>

text \<open>The same acceptor, as a MultiPaxos acceptor in plain mode.\<close>

definition asMulti :: "ParallelAcceptor \<Rightarrow> MultiAcceptor" where
  "asMulti a = \<lparr>ma_id = pa_id a, ma_started = pa_started a, ma_startable = pa_startable a,
     ma_processing = True, ma_leader = UndefinedID, ma_lowSlot = pa_lowSlot a,
     ma_slots = pa_slots a, ma_mode = PlainMode, ma_ucast = [], ma_bcast = [], ma_responses = []\<rparr>"

lemma asMulti_simps [simp]:
  "ma_id (asMulti a) = pa_id a" "ma_slots (asMulti a) = pa_slots a" "ma_lowSlot (asMulti a) = pa_lowSlot a"
  by (simp_all add: asMulti_def)

lemma pa_handlePrepare_as_multi:
  "pa_handlePrepare m a =
     (case handlePrep m (asMulti a) of
        Inl e \<Rightarrow> Inl e
      | Inr (po, d, ma) \<Rightarrow> Inr (po, d, a\<lparr>pa_slots := ma_slots ma\<rparr>))"
  by (auto simp: pa_handlePrepare_def handlePrep_def Let_def split: option.splits)

lemma pa_vote_as_multi:
  "pa_vote m a = (case handleAcc m (asMulti a) of (lo, ma) \<Rightarrow> (lo, a\<lparr>pa_slots := ma_slots ma\<rparr>))"
  by (auto simp: pa_vote_def handleAcc_def mark_processing Let_def split: prod.splits)

definition hears_pa_accept :: "Accept \<Rightarrow> ParallelAcceptor \<Rightarrow> bool" where
  "hears_pa_accept m a \<longleftrightarrow> pa_lowSlot a \<le> acc_Slot m"

interpretation parallel: acceptor_contract
  "\<lambda>gm. pa_handlePrepare" "\<lambda>gm. pa_vote" "\<lambda>a. ballotOf (pa_slots a)" "\<lambda>a. wf_acceptorSlots (pa_slots a)"
  pa_id "\<lambda>m a. True" hears_pa_accept
proof
  fix m :: Prepare and n :: Accept and a a' :: ParallelAcceptor
    and po and p :: Promise and d lo and l :: Learn
  assume good: "wf_acceptorSlots (pa_slots a)"
  then show "ballot_ok (ballotOf (pa_slots a))" by (rule wf_acceptorSlots_ok)
  {
    assume "pa_handlePrepare m a = Inr (po, d, a')"
    then obtain ma where ma: "handlePrep m (asMulti a) = Inr (po, d, ma)" "a' = a\<lparr>pa_slots := ma_slots ma\<rparr>"
      by (auto simp: pa_handlePrepare_as_multi split: sum.splits)
    note law = handlePrep_law [OF _ ma(1), unfolded prepare_law_def asMulti_simps prod.case, OF good]
    then show "wf_acceptorSlots (pa_slots a') \<and> pa_id a' = pa_id a"
      "(po \<noteq> None, ballotOf (pa_slots a')) =
        (if True then abs_prepare (prep_CRnd m) (ballotOf (pa_slots a)) else (False, ballotOf (pa_slots a)))"
      by (simp_all add: ma(2))
  }
  {
    assume "pa_handlePrepare m a = Inr (Some p, d, a')"
    then obtain ma where ma: "handlePrep m (asMulti a) = Inr (Some p, d, ma)"
      by (auto simp: pa_handlePrepare_as_multi split: sum.splits)
    from handlePrep_law [OF _ ma, unfolded prepare_law_def asMulti_simps prod.case, OF good]
    show "d = prep_ID m \<and> prom_ID p = pa_id a \<and> prom_Rnd p = prep_CRnd m \<and>
      reports (prep_Slot m) (ballotOf (pa_slots a)) (prom_AccSlots p)" by blast
  }
  note acc_law = handleAccLr_law [of "asMulti a" n "noEpochs gm" for gm, folded handleAcc_as_Lr,
      unfolded accept_law_def asMulti_simps, OF good]
  {
    assume "pa_vote n a = (lo, a')"
    then obtain ma where "handleAcc n (asMulti a) = (lo, ma)" "a' = a\<lparr>pa_slots := ma_slots ma\<rparr>"
      by (auto simp: pa_vote_as_multi split: prod.splits)
    then show "wf_acceptorSlots (pa_slots a') \<and> pa_id a' = pa_id a"
      "(lo \<noteq> None, ballotOf (pa_slots a')) =
        (if hears_pa_accept n a
         then abs_accept (acc_Slot n) (acc_Rnd n) (acc_Val n) (ballotOf (pa_slots a))
         else (False, ballotOf (pa_slots a)))"
      using acc_law by (auto simp: hears_pa_accept_def)
  }
  {
    assume "pa_vote n a = (Some l, a')"
    then obtain ma where "handleAcc n (asMulti a) = (Some l, ma)"
      by (auto simp: pa_vote_as_multi split: prod.splits)
    then show "lrn_ID l = pa_id a \<and> lrn_Slot l = acc_Slot n \<and> lrn_Rnd l = acc_Rnd n \<and>
      lrn_Val l = acc_Val n"
      using acc_law by auto
  }
qed

end
