(* ===== verification/ParallelAcceptorRuns.thy ===== *)
theory ParallelAcceptorRuns
  imports ParallelAcceptor
begin

text \<open>
  Accepts that goroutines of the ParallelPaxos acceptor handle at the same time. The read side of
  the round lock does not exclude them from each other: as long as they are for one round the
  outcome is that of handling them one after the other, but two rounds can undo each other's votes.
\<close>

section \<open>Atomic steps of an accept\<close>

text \<open>
  \<open>handleAccept\<close> between two reads or writes of shared memory. The slot is a pointer into the slot
  map, so a step that follows the first one finds it there again. \<open>AEnd\<close> says whether it voted.
\<close>

datatype accept_pc =
  AGet | ACheckRnd | ACheckVRnd | ARaise | AWriteRnd | AWriteVRnd | AWriteVVal | ASend | AEnd bool

fun accept_thread :: "Accept \<Rightarrow> accept_pc \<Rightarrow> ParallelAcceptor \<Rightarrow> accept_pc \<times> ParallelAcceptor" where
  "accept_thread msg AGet a =
     (if acc_Slot msg < pa_lowSlot a then (AEnd False, a)
      else (ACheckRnd, a\<lparr>pa_slots := snd (GetAcceptorSlot (acc_Slot msg) (pa_slots a))\<rparr>))"
| "accept_thread msg ACheckRnd a =
     (if Compare (asm_Rnd (pa_slots a)) (acc_Rnd msg) = 1 then (AEnd False, a) else (ACheckVRnd, a))"
| "accept_thread msg ACheckVRnd a =
     (if Compare (acc_Rnd msg) (VRnd (fst (GetAcceptorSlot (acc_Slot msg) (pa_slots a)))) = 0
      then (AEnd False, a) else (ARaise, a))"
| "accept_thread msg ARaise a =
     (if Compare (asm_Rnd (pa_slots a)) (acc_Rnd msg) = - 1 then AWriteRnd else AWriteVRnd, a)"
| "accept_thread msg AWriteRnd a =
     (AWriteVRnd, a\<lparr>pa_slots := (pa_slots a)\<lparr>asm_Rnd := acc_Rnd msg\<rparr>\<rparr>)"
| "accept_thread msg AWriteVRnd a =
     (let (slot, sm) = GetAcceptorSlot (acc_Slot msg) (pa_slots a)
      in (AWriteVVal, a\<lparr>pa_slots := PutAcceptorSlot (acc_Slot msg) (slot\<lparr>VRnd := acc_Rnd msg\<rparr>) sm\<rparr>))"
| "accept_thread msg AWriteVVal a =
     (let (slot, sm) = GetAcceptorSlot (acc_Slot msg) (pa_slots a)
      in (ASend, a\<lparr>pa_slots := PutAcceptorSlot (acc_Slot msg) (slot\<lparr>VVal := acc_Val msg\<rparr>) sm\<rparr>))"
| "accept_thread msg ASend a =
     (AEnd True,
      pa_broadcast (MLearn \<lparr>lrn_ID = pa_id a,
        lrn_Slot = as_ID (fst (GetAcceptorSlot (acc_Slot msg) (pa_slots a))),
        lrn_Rnd = asm_Rnd (pa_slots a), lrn_Val = acc_Val msg, lrn_EpochVector = []\<rparr>) a)"
| "accept_thread msg (AEnd v) a = (AEnd v, a)"

type_synonym pool = "(Accept \<times> accept_pc) list"

definition pool_step :: "nat \<Rightarrow> ParallelAcceptor \<times> pool \<Rightarrow> ParallelAcceptor \<times> pool" where
  "pool_step i = (\<lambda>(a, pool).
     if i < length pool then
       let (msg, pc) = pool ! i;
           (pc, a) = accept_thread msg pc a
       in (a, pool[i := (msg, pc)])
     else (a, pool))"

definition pool_run :: "nat list \<Rightarrow> ParallelAcceptor \<times> pool \<Rightarrow> ParallelAcceptor \<times> pool" where
  "pool_run = fold pool_step"

definition all_ended :: "pool \<Rightarrow> bool" where
  "all_ended pool \<longleftrightarrow> (\<forall>(m, pc)\<in>set pool. pc = AEnd True \<or> pc = AEnd False)"

section \<open>What a step of one goroutine can change\<close>

abbreviation slotOf :: "ParallelAcceptor \<Rightarrow> SlotID \<Rightarrow> AcceptorSlot" where
  "slotOf a \<equiv> asm.view (pa_slots a)"

fun past_VRnd :: "accept_pc \<Rightarrow> bool" where
  "past_VRnd AWriteVVal = True"
| "past_VRnd ASend = True"
| "past_VRnd (AEnd v) = v"
| "past_VRnd _ = False"

fun past_VVal :: "accept_pc \<Rightarrow> bool" where
  "past_VVal ASend = True"
| "past_VVal (AEnd v) = v"
| "past_VVal _ = False"

definition frame_ok :: "gid \<Rightarrow> SlotID \<Rightarrow> ParallelAcceptor \<Rightarrow> bool" where
  "frame_ok i low a \<longleftrightarrow> pa_id a = i \<and> pa_lowSlot a = low \<and> (\<forall>s. as_ID (slotOf a s) = s)"

definition grows :: "ProposerRound \<Rightarrow> (SlotID \<Rightarrow> Value) \<Rightarrow> ParallelAcceptor \<Rightarrow> ParallelAcceptor \<Rightarrow> bool" where
  "grows r val a a' \<longleftrightarrow>
     (asm_Rnd (pa_slots a') = asm_Rnd (pa_slots a) \<or> asm_Rnd (pa_slots a') = r) \<and>
     (\<forall>s. VRnd (slotOf a' s) = VRnd (slotOf a s) \<or> VRnd (slotOf a' s) = r) \<and>
     (\<forall>s. VVal (slotOf a' s) = VVal (slotOf a s) \<or> VVal (slotOf a' s) = val s)"

text \<open>
  What holds of a goroutine at each of its steps, in terms of the ballot \<open>b\<close> before any of them,
  their common round \<open>r\<close> and the value \<open>val s\<close> of the accepts for slot \<open>s\<close>.
\<close>

definition thread_ok ::
  "Ballot \<Rightarrow> ProposerRound \<Rightarrow> (SlotID \<Rightarrow> Value) \<Rightarrow> SlotID \<Rightarrow> Accept \<Rightarrow> accept_pc \<Rightarrow> ParallelAcceptor \<Rightarrow> bool"
where
  "thread_ok b r val low m pc a \<longleftrightarrow> acc_Rnd m = r \<and> acc_Val m = val (acc_Slot m) \<and>
     (pc \<notin> {AGet, AEnd False} \<longrightarrow> low \<le> acc_Slot m) \<and>
     (pc \<notin> {AGet, ACheckRnd, AEnd False} \<longrightarrow> promised b \<le> r) \<and>
     (pc \<notin> {AGet, ACheckRnd, ACheckVRnd, AEnd False} \<longrightarrow> fst (votes b (acc_Slot m)) \<noteq> r) \<and>
     (pc \<notin> {AGet, ACheckRnd, ACheckVRnd, ARaise, AWriteRnd, AEnd False} \<longrightarrow> asm_Rnd (pa_slots a) = r) \<and>
     (past_VRnd pc \<longrightarrow> VRnd (slotOf a (acc_Slot m)) = r) \<and>
     (past_VVal pc \<longrightarrow> VVal (slotOf a (acc_Slot m)) = val (acc_Slot m)) \<and>
     (pc = AEnd False \<longrightarrow> acc_Slot m < low \<or> r < promised b \<or> VRnd (slotOf a (acc_Slot m)) = r)"

definition shared_ok ::
  "Ballot \<Rightarrow> ProposerRound \<Rightarrow> (SlotID \<Rightarrow> Value) \<Rightarrow> gid \<Rightarrow> SlotID \<Rightarrow> ParallelAcceptor \<Rightarrow> bool" where
  "shared_ok b r val i low a \<longleftrightarrow> frame_ok i low a \<and>
     (asm_Rnd (pa_slots a) = promised b \<or> asm_Rnd (pa_slots a) = r \<and> promised b \<le> r) \<and>
     (\<forall>s. VRnd (slotOf a s) \<in> {fst (votes b s), r}) \<and>
     (\<forall>s. VVal (slotOf a s) \<in> {snd (votes b s), val s})"

lemma thread_ok_grows: "thread_ok b r val low m pc a \<Longrightarrow> grows r val a a' \<Longrightarrow> thread_ok b r val low m pc a'"
  unfolding thread_ok_def grows_def by metis

lemma GetSlot_fst: "fst (GetAcceptorSlot i sm) = asm.view sm i"
  by (rule asm.get_view)

lemma GetSlot_view: "asm.view (snd (GetAcceptorSlot i sm)) = asm.view sm"
  by (rule asm.view_get)

lemmas thread_simps = frame_ok_def grows_def GetSlot_fst GetSlot_view asm.view_put pa_broadcast_def

text \<open>One step of a goroutine keeps its facts, and what it changes is as \<open>grows\<close> says.\<close>

lemma accept_thread_ok:
  assumes th: "thread_ok b r val low m pc a" and sh: "shared_ok b r val i low a"
    and step: "accept_thread m pc a = (pc', a')"
  shows "thread_ok b r val low m pc' a' \<and> shared_ok b r val i low a' \<and> grows r val a a'"
proof (cases pc)
  case AGet
  then show ?thesis
    using th sh step
    by (auto simp: thread_ok_def shared_ok_def thread_simps not_less split: if_splits)
next
  case ACheckRnd
  then show ?thesis
    using th sh step by (auto simp: thread_ok_def shared_ok_def thread_simps not_less split: if_splits)
next
  case ACheckVRnd
  moreover have "VRnd (slotOf a (acc_Slot m)) \<noteq> r \<Longrightarrow> fst (votes b (acc_Slot m)) \<noteq> r"
    using sh unfolding shared_ok_def by (metis insert_iff singletonD)
  ultimately show ?thesis
    using th sh step by (auto simp: thread_ok_def shared_ok_def thread_simps split: if_splits)
next
  case ARaise
  then show ?thesis
    using th sh step by (auto simp: thread_ok_def shared_ok_def thread_simps not_less split: if_splits)
next
  case AWriteRnd
  then show ?thesis
    using th sh step by (auto simp: thread_ok_def shared_ok_def thread_simps not_less split: if_splits)
next
  case AWriteVRnd
  then have a': "pc' = AWriteVVal" "slotOf a' = (slotOf a)(acc_Slot m := (slotOf a (acc_Slot m))\<lparr>VRnd := r\<rparr>)"
      "asm_Rnd (pa_slots a') = asm_Rnd (pa_slots a)" "pa_id a' = pa_id a" "pa_lowSlot a' = pa_lowSlot a"
    using th step by (auto simp: thread_ok_def thread_simps Let_def case_prod_beta)
  then show ?thesis
    using th sh AWriteVRnd by (auto simp: thread_ok_def shared_ok_def frame_ok_def grows_def)
next
  case AWriteVVal
  then have a': "pc' = ASend"
      "slotOf a' = (slotOf a)(acc_Slot m := (slotOf a (acc_Slot m))\<lparr>VVal := val (acc_Slot m)\<rparr>)"
      "asm_Rnd (pa_slots a') = asm_Rnd (pa_slots a)" "pa_id a' = pa_id a" "pa_lowSlot a' = pa_lowSlot a"
    using th step by (auto simp: thread_ok_def thread_simps Let_def case_prod_beta)
  then show ?thesis
    using th sh AWriteVVal by (auto simp: thread_ok_def shared_ok_def frame_ok_def grows_def)
next
  case ASend
  then show ?thesis
    using th sh step by (auto simp: thread_ok_def shared_ok_def thread_simps)
next
  case (AEnd v)
  then show ?thesis using th sh step by (auto simp: grows_def)
qed

fun past_Raise :: "accept_pc \<Rightarrow> bool" where
  "past_Raise AWriteVRnd = True"
| "past_Raise AWriteVVal = True"
| "past_Raise ASend = True"
| "past_Raise (AEnd v) = v"
| "past_Raise _ = False"

text \<open>Each change is marked by the program counter of the goroutine that made it.\<close>

lemma accept_thread_marks:
  assumes "accept_thread m pc a = (pc', a')"
  shows "(past_Raise pc \<longrightarrow> past_Raise pc') \<and> (past_VRnd pc \<longrightarrow> past_VRnd pc') \<and> (past_VVal pc \<longrightarrow> past_VVal pc') \<and>
    (asm_Rnd (pa_slots a') \<noteq> asm_Rnd (pa_slots a) \<longrightarrow> past_Raise pc') \<and>
    (VRnd (slotOf a' s) \<noteq> VRnd (slotOf a s) \<longrightarrow> acc_Slot m = s \<and> past_VRnd pc') \<and>
    (VVal (slotOf a' s) \<noteq> VVal (slotOf a s) \<longrightarrow> acc_Slot m = s \<and> past_VVal pc')"
  using assms
  by (cases pc) (auto simp: thread_simps Let_def case_prod_beta split: if_splits)

lemma accept_thread_bcast:
  assumes "accept_thread m pc a = (pc', a')"
  shows "pa_bcast a' = pa_bcast a \<or>
    pc = ASend \<and> pa_bcast a' = pa_bcast a @ [Struct (MLearn \<lparr>lrn_ID = pa_id a,
      lrn_Slot = as_ID (slotOf a (acc_Slot m)), lrn_Rnd = asm_Rnd (pa_slots a), lrn_Val = acc_Val m,
      lrn_EpochVector = []\<rparr>)]"
  using assms
  by (cases pc) (auto simp: thread_simps Let_def case_prod_beta split: if_splits)

section \<open>Any interleaving of accepts for one round\<close>

definition thread_in :: "pool \<Rightarrow> (Accept \<Rightarrow> accept_pc \<Rightarrow> bool) \<Rightarrow> bool" where
  "thread_in pool Q \<longleftrightarrow> (\<exists>(m, pc)\<in>set pool. Q m pc)"

lemma thread_in_update:
  assumes "thread_in pool Q" and "j < length pool" and "pool ! j = (m, pc)" and "Q m pc \<Longrightarrow> Q m pc'"
  shows "thread_in (pool[j := (m, pc')]) Q"
proof -
  obtain k where k: "k < length pool" "Q (fst (pool ! k)) (snd (pool ! k))"
    using assms(1) by (auto simp: thread_in_def in_set_conv_nth case_prod_beta)
  then have "Q (fst (pool[j := (m, pc')] ! k)) (snd (pool[j := (m, pc')] ! k))"
    using assms(2-4) by (cases "k = j") auto
  then show ?thesis
    using k(1) by (force simp: thread_in_def in_set_conv_nth case_prod_beta)
qed

lemma thread_in_now: "j < length pool \<Longrightarrow> Q m pc \<Longrightarrow> thread_in (pool[j := (m, pc)]) Q"
  by (auto simp: thread_in_def intro!: bexI [of _ "(m, pc)"] set_update_memI)

definition learn_kept ::
  "gid \<Rightarrow> ProposerRound \<Rightarrow> (SlotID \<Rightarrow> Value) \<Rightarrow> ParallelAcceptor \<Rightarrow> dynamic \<Rightarrow> bool" where
  "learn_kept i r val a d \<longleftrightarrow> (\<exists>l. d = Struct (MLearn l) \<and> lrn_ID l = i \<and> lrn_Rnd l = r \<and>
     lrn_Val l = val (lrn_Slot l) \<and> VRnd (slotOf a (lrn_Slot l)) = r \<and>
     VVal (slotOf a (lrn_Slot l)) = val (lrn_Slot l))"

definition pool_inv ::
  "Ballot \<Rightarrow> ProposerRound \<Rightarrow> (SlotID \<Rightarrow> Value) \<Rightarrow> gid \<Rightarrow> SlotID \<Rightarrow> dynamic list \<Rightarrow>
    ParallelAcceptor \<times> pool \<Rightarrow> bool" where
  "pool_inv b r val i low old = (\<lambda>(a, pool).
     shared_ok b r val i low a \<and>
     (\<forall>(m, pc)\<in>set pool. thread_ok b r val low m pc a) \<and>
     (asm_Rnd (pa_slots a) \<noteq> promised b \<longrightarrow> thread_in pool (\<lambda>m. past_Raise)) \<and>
     (\<forall>s. VRnd (slotOf a s) \<noteq> fst (votes b s) \<longrightarrow> thread_in pool (\<lambda>m pc. acc_Slot m = s \<and> past_VRnd pc)) \<and>
     (\<forall>s. VVal (slotOf a s) \<noteq> snd (votes b s) \<longrightarrow> thread_in pool (\<lambda>m pc. acc_Slot m = s \<and> past_VVal pc)) \<and>
     (\<exists>ds. pa_bcast a = old @ ds \<and> (\<forall>d\<in>set ds. learn_kept i r val a d)))"

lemma learn_kept_grows: "learn_kept i r val a d \<Longrightarrow> grows r val a a' \<Longrightarrow> learn_kept i r val a' d"
  unfolding learn_kept_def grows_def by metis

lemma pool_step_inv:
  assumes inv: "pool_inv b r val i low old (a, pool)" and step: "pool_step j (a, pool) = (a', pool')"
  shows "pool_inv b r val i low old (a', pool') \<and> map fst pool' = map fst pool"
proof (cases "j < length pool")
  case False
  then show ?thesis using assms by (simp add: pool_step_def)
next
  case True
  obtain m pc where at: "pool ! j = (m, pc)" by (cases "pool ! j")
  obtain pc' where th: "accept_thread m pc a = (pc', a')" and pool': "pool' = pool[j := (m, pc')]"
    using step True at by (auto simp: pool_step_def split: prod.splits)
  have ok: "thread_ok b r val low m pc a" "shared_ok b r val i low a"
    using inv True at nth_mem [OF True] by (auto simp: pool_inv_def)
  note next_ok = accept_thread_ok [OF ok th]
  then have gr: "grows r val a a'" by simp
  note marks = accept_thread_marks [OF th]
  have moved: "thread_in pool Q \<Longrightarrow> (Q m pc \<Longrightarrow> Q m pc') \<Longrightarrow> thread_in pool' Q"
      "Q m pc' \<Longrightarrow> thread_in pool' Q" for Q
    using thread_in_update [OF _ True at] thread_in_now [OF True] by (auto simp: pool')
  have "thread_ok b r val low m0 pc0 a'" if "(m0, pc0) \<in> set pool'" for m0 pc0
  proof (cases "(m0, pc0) = (m, pc')")
    case True
    then show ?thesis using next_ok by simp
  next
    case False
    then have "(m0, pc0) \<in> set pool"
      using that set_update_subset_insert [of pool j "(m, pc')"] by (auto simp: pool')
    then show ?thesis using inv thread_ok_grows [OF _ gr] by (auto simp: pool_inv_def)
  qed
  moreover have "thread_in pool' (\<lambda>m. past_Raise)" if "asm_Rnd (pa_slots a') \<noteq> promised b"
    using that inv marks moved [of "\<lambda>m. past_Raise"]
    by (cases "asm_Rnd (pa_slots a') = asm_Rnd (pa_slots a)") (auto simp: pool_inv_def)
  moreover have "thread_in pool' (\<lambda>m pc. acc_Slot m = s \<and> past_VRnd pc)"
    if "VRnd (slotOf a' s) \<noteq> fst (votes b s)" for s
    using that inv marks [of s] moved [of "\<lambda>m pc. acc_Slot m = s \<and> past_VRnd pc"]
    by (cases "VRnd (slotOf a' s) = VRnd (slotOf a s)") (auto simp: pool_inv_def)
  moreover have "thread_in pool' (\<lambda>m pc. acc_Slot m = s \<and> past_VVal pc)"
    if "VVal (slotOf a' s) \<noteq> snd (votes b s)" for s
    using that inv marks [of s] moved [of "\<lambda>m pc. acc_Slot m = s \<and> past_VVal pc"]
    by (cases "VVal (slotOf a' s) = VVal (slotOf a s)") (auto simp: pool_inv_def)
  moreover have "\<exists>ds. pa_bcast a' = old @ ds \<and> (\<forall>d\<in>set ds. learn_kept i r val a' d)"
  proof -
    obtain ds where ds: "pa_bcast a = old @ ds" "\<forall>d\<in>set ds. learn_kept i r val a' d"
      using inv learn_kept_grows [OF _ gr] by (auto simp: pool_inv_def)
    show ?thesis
    proof (cases "pa_bcast a' = pa_bcast a")
      case False
      then have "pc = ASend" and "\<exists>l. pa_bcast a' = pa_bcast a @ [Struct (MLearn l)] \<and>
          lrn_ID l = i \<and> lrn_Rnd l = r \<and> lrn_Slot l = acc_Slot m \<and> lrn_Val l = val (acc_Slot m)"
        using accept_thread_bcast [OF th] ok by (auto simp: thread_ok_def shared_ok_def frame_ok_def)
      then obtain l where "pa_bcast a' = old @ ds @ [Struct (MLearn l)]" "learn_kept i r val a' (Struct (MLearn l))"
        using next_ok ds(1) th by (auto simp: learn_kept_def thread_ok_def)
      with ds(2) show ?thesis by (intro exI [of _ "ds @ [Struct (MLearn l)]"]) auto
    qed (use ds in auto)
  qed
  moreover have "map fst pool' = map fst pool"
    using at True by (simp add: pool' map_update) (metis fst_conv list_update_id nth_map)
  ultimately show ?thesis using next_ok by (auto simp: pool_inv_def)
qed

lemma pool_run_inv:
  assumes "pool_inv b r val i low old st"
  shows "pool_inv b r val i low old (pool_run js st) \<and> map fst (snd (pool_run js st)) = map fst (snd st)"
  using assms
proof (induction js arbitrary: st)
  case (Cons j js)
  have "pool_inv b r val i low old (pool_step j st)" "map fst (snd (pool_step j st)) = map fst (snd st)"
    using pool_step_inv [of b r val i low old "fst st" "snd st" j "fst (pool_step j st)" "snd (pool_step j st)"]
      Cons.prems by auto
  with Cons.IH [of "pool_step j st"] show ?case by (simp add: pool_run_def)
qed (simp add: pool_run_def)

text \<open>The sequential outcome, on the abstract acceptor.\<close>

definition accept_all :: "SlotID \<Rightarrow> Accept list \<Rightarrow> Ballot \<Rightarrow> Ballot" where
  "accept_all low = fold (\<lambda>m b. if low \<le> acc_Slot m
     then snd (abs_accept (acc_Slot m) (acc_Rnd m) (acc_Val m) b) else b)"

definition votable :: "SlotID \<Rightarrow> ProposerRound \<Rightarrow> Ballot \<Rightarrow> Accept list \<Rightarrow> SlotID set" where
  "votable low r b msgs = {acc_Slot m | m. m \<in> set msgs \<and> low \<le> acc_Slot m \<and> promised b \<le> r \<and>
     fst (votes b (acc_Slot m)) \<noteq> r}"

lemma accept_all_votable:
  assumes "\<forall>m\<in>set msgs. acc_Rnd m = r \<and> acc_Val m = val (acc_Slot m)"
  shows "promised (accept_all low msgs b) = (if votable low r b msgs = {} then promised b else r) \<and>
    votes (accept_all low msgs b) = (\<lambda>s. if s \<in> votable low r b msgs then (r, val s) else votes b s)"
  using assms
proof (induction msgs rule: rev_induct)
  case (snoc m ms)
  let ?b = "accept_all low ms b"
  have IH: "promised ?b = (if votable low r b ms = {} then promised b else r)"
      "votes ?b = (\<lambda>s. if s \<in> votable low r b ms then (r, val s) else votes b s)"
    using snoc by auto
  have m: "acc_Rnd m = r" "acc_Val m = val (acc_Slot m)" using snoc.prems by auto
  have all: "accept_all low (ms @ [m]) b =
      (if low \<le> acc_Slot m then snd (abs_accept (acc_Slot m) r (val (acc_Slot m)) ?b) else ?b)"
    by (simp add: accept_all_def m)
  show ?case
  proof (cases "low \<le> acc_Slot m \<and> promised b \<le> r \<and> fst (votes b (acc_Slot m)) \<noteq> r")
    case True
    then have v: "votable low r b (ms @ [m]) = insert (acc_Slot m) (votable low r b ms)"
      by (auto simp: votable_def)
    show ?thesis using True IH unfolding all v by (auto simp: abs_accept_def fun_eq_iff)
  next
    case False
    then have v: "votable low r b (ms @ [m]) = votable low r b ms"
      by (auto simp: votable_def)
    have "acc_Slot m \<notin> votable low r b ms" "promised b \<le> r" if "low \<le> acc_Slot m" "votable low r b ms \<noteq> {}"
      using False that by (auto simp: votable_def)
    then show ?thesis using False IH unfolding all v by (auto simp: abs_accept_def fun_eq_iff)
  qed
qed (simp add: accept_all_def votable_def)

lemma pa_handleAccept_frame:
  "pa_lowSlot (pa_handleAccept m a) = pa_lowSlot a"
  "pa_slots (pa_handleAccept m a) = pa_slots (snd (pa_vote m a))"
  by (auto simp: pa_handleAccept_def pa_vote_def pa_broadcast_def Let_def split: prod.splits option.splits)

lemma sequential_accepts:
  assumes "wf_acceptorSlots (pa_slots a)"
  shows "ballotOf (pa_slots (fold pa_handleAccept msgs a)) = accept_all (pa_lowSlot a) msgs (ballotOf (pa_slots a))"
  using assms
proof (induction msgs arbitrary: a)
  case (Cons m ms)
  obtain lo a1 where a1: "pa_vote m a = (lo, a1)" by (cases "pa_vote m a")
  have slots: "pa_slots (pa_handleAccept m a) = pa_slots a1"
    by (simp add: pa_handleAccept_frame a1)
  have "ballotOf (pa_slots a1) = (if pa_lowSlot a \<le> acc_Slot m
      then snd (abs_accept (acc_Slot m) (acc_Rnd m) (acc_Val m) (ballotOf (pa_slots a))) else ballotOf (pa_slots a))"
    using parallel.acc_step [OF Cons.prems a1] by (auto simp: hears_pa_accept_def prod_eq_iff)
  then show ?case
    using Cons.IH [of "pa_handleAccept m a"] parallel.acc_good [OF Cons.prems a1]
    by (simp add: a1 pa_handleAccept_frame accept_all_def)
qed (simp add: accept_all_def)

lemma pool_inv_start:
  assumes "wf_acceptorSlots (pa_slots a)"
    and "\<forall>m\<in>set msgs. acc_Rnd m = r \<and> acc_Val m = val (acc_Slot m)"
  shows "pool_inv (ballotOf (pa_slots a)) r val (pa_id a) (pa_lowSlot a) (pa_bcast a) (a, map (\<lambda>m. (m, AGet)) msgs)"
  using assms
  by (auto simp: pool_inv_def shared_ok_def frame_ok_def thread_ok_def ballotOf_def wf_acceptorSlots_def)

lemma ended_past:
  assumes "all_ended pool" and "thread_in pool (\<lambda>m pc. P m \<and> Q pc)" and "\<And>v. Q (AEnd v) \<Longrightarrow> v"
  obtains m where "(m, AEnd True) \<in> set pool" and "P m"
  using assms by (fastforce simp: all_ended_def thread_in_def)

lemma pool_outcome:
  assumes inv: "pool_inv b r val i low old (a, pool)" and ended: "all_ended pool" and msgs: "map fst pool = msgs"
  shows "asm_Rnd (pa_slots a) = (if votable low r b msgs = {} then promised b else r) \<and>
    (VRnd (slotOf a s), VVal (slotOf a s)) = (if s \<in> votable low r b msgs then (r, val s) else votes b s)"
proof -
  have ok: "thread_ok b r val low m pc a" if "(m, pc) \<in> set pool" for m pc
    using inv that by (auto simp: pool_inv_def)
  have voted: "acc_Slot m \<in> votable low r b msgs \<and> VRnd (slotOf a (acc_Slot m)) = r \<and>
      VVal (slotOf a (acc_Slot m)) = val (acc_Slot m) \<and> asm_Rnd (pa_slots a) = r" if "(m, AEnd True) \<in> set pool" for m
    using ok [OF that] that by (force simp: thread_ok_def votable_def simp flip: msgs)
  have ended_at: "\<exists>m. (m, AEnd True) \<in> set pool \<and> acc_Slot m = s" if "VRnd (slotOf a s) \<noteq> fst (votes b s)" for s
  proof -
    have "thread_in pool (\<lambda>m pc. acc_Slot m = s \<and> past_VRnd pc)" using inv that by (auto simp: pool_inv_def)
    from ended_past [OF ended this] show ?thesis by auto
  qed
  have vval: "\<exists>m. (m, AEnd True) \<in> set pool \<and> acc_Slot m = s" if "VVal (slotOf a s) \<noteq> snd (votes b s)" for s
  proof -
    have "thread_in pool (\<lambda>m pc. acc_Slot m = s \<and> past_VVal pc)" using inv that by (auto simp: pool_inv_def)
    from ended_past [OF ended this] show ?thesis by auto
  qed
  have rnd: "\<exists>m. (m, AEnd True) \<in> set pool" if "asm_Rnd (pa_slots a) \<noteq> promised b"
  proof -
    have "thread_in pool (\<lambda>m pc. True \<and> past_Raise pc)" using inv that by (auto simp: pool_inv_def)
    from ended_past [OF ended this] show ?thesis by auto
  qed
  have all_voted: "\<exists>m. (m, AEnd True) \<in> set pool \<and> acc_Slot m = s" if "s \<in> votable low r b msgs" for s
  proof -
    from that obtain m where m: "m \<in> set msgs" "s = acc_Slot m" "low \<le> s" "promised b \<le> r" "fst (votes b s) \<noteq> r"
      by (auto simp: votable_def)
    then obtain pc where pc: "(m, pc) \<in> set pool" by (auto simp flip: msgs)
    then consider "pc = AEnd True" | "pc = AEnd False" using ended by (auto simp: all_ended_def)
    then show ?thesis
    proof cases
      case 2
      then have "VRnd (slotOf a s) = r" using ok [OF pc] m by (auto simp: thread_ok_def)
      with m(5) show ?thesis by (intro ended_at) simp
    qed (use pc m in auto)
  qed
  show ?thesis
  proof (cases "s \<in> votable low r b msgs")
    case True
    then show ?thesis using all_voted [OF True] voted by auto
  next
    case False
    then have "VRnd (slotOf a s) = fst (votes b s)" "VVal (slotOf a s) = snd (votes b s)"
      using ended_at [of s] vval [of s] voted by auto
    moreover have "asm_Rnd (pa_slots a) = (if votable low r b msgs = {} then promised b else r)"
      using rnd voted all_voted by (metis empty_iff equals0I)
    ultimately show ?thesis using False by simp
  qed
qed

text \<open>
  C33. However the goroutines interleave, accepts for one round that agree on the value of each slot
  leave the acceptor with the votes it would have after handling them one after the other, and
  every learn they broadcast is such a vote.
\<close>

theorem parallel_accepts_linearizable:
  assumes "wf_acceptorSlots (pa_slots a)"
    and "\<forall>m\<in>set msgs. acc_Rnd m = r \<and> acc_Val m = val (acc_Slot m)"
    and "pool_run js (a, map (\<lambda>m. (m, AGet)) msgs) = (a', pool)" and "all_ended pool"
  shows "ballotOf (pa_slots a') = ballotOf (pa_slots (fold pa_handleAccept msgs a)) \<and>
    (\<exists>ds. pa_bcast a' = pa_bcast a @ ds \<and> (\<forall>d\<in>set ds. learn_kept (pa_id a) r val a' d))"
proof -
  let ?b = "ballotOf (pa_slots a)"
  have inv: "pool_inv ?b r val (pa_id a) (pa_lowSlot a) (pa_bcast a) (a', pool)" and msgs: "map fst pool = msgs"
    using pool_run_inv [OF pool_inv_start [OF assms(1,2)], of js] assms(3) by (auto simp: comp_def)
  note out = pool_outcome [OF inv assms(4) msgs]
  have "ballotOf (pa_slots a') = accept_all (pa_lowSlot a) msgs ?b"
    using out accept_all_votable [OF assms(2), of "pa_lowSlot a" ?b]
    by (cases "accept_all (pa_lowSlot a) msgs ?b") (auto simp: ballotOf_def)
  then show ?thesis
    using inv sequential_accepts [OF assms(1)] by (auto simp: pool_inv_def)
qed

section \<open>Concrete runs\<close>

definition acceptOf :: "64 word \<Rightarrow> SlotID \<Rightarrow> Value \<Rightarrow> Accept" where
  "acceptOf r s v = \<lparr>acc_ID = ID 0 0, acc_Slot = s, acc_Rnd = Round r (ID 0 0), acc_Val = v\<rparr>"

definition someParallelAcceptor :: ParallelAcceptor where
  "someParallelAcceptor = NewParallelAcceptor (ID 1 0) True True 1 2"

definition pool_of :: "Accept list \<Rightarrow> pool" where
  "pool_of msgs = map (\<lambda>m. (m, AGet)) msgs"

definition learn7 :: "SlotID \<Rightarrow> Value \<Rightarrow> dynamic" where
  "learn7 s v = Struct (MLearn \<lparr>lrn_ID = ID 1 0, lrn_Slot = s, lrn_Rnd = Round 7 (ID 0 0), lrn_Val = v,
     lrn_EpochVector = []\<rparr>)"

lemma accepts_of_one_round:
  "case pool_run [0, 1, 0, 1, 0, 1, 1, 0, 1, 0, 0, 1, 1, 0, 0, 1]
       (someParallelAcceptor, pool_of [acceptOf 7 1 appValue, acceptOf 7 2 zeroValue]) of (a, pool) \<Rightarrow>
     (\<forall>(m, pc)\<in>set pool. pc = AEnd True) \<and> VRnd (slotOf a 1) = Round 7 (ID 0 0) \<and>
     pa_bcast a = [learn7 1 appValue, learn7 2 zeroValue]"
  unfolding asm.view_def by code_simp

text \<open>
  With two rounds it goes wrong: the accept of round 5 passes its tests, the one of round 7 runs
  from start to end, then the first goes on. The vote of round 7 is gone, and the acceptor has
  broadcast two different values for one slot and round.
\<close>

lemma two_rounds_undo_a_vote:
  "case pool_run ([0, 0, 0] @ replicate 8 1 @ replicate 4 0)
       (someParallelAcceptor, pool_of [acceptOf 5 1 zeroValue, acceptOf 7 1 appValue]) of (a, pool) \<Rightarrow>
     (\<forall>(m, pc)\<in>set pool. pc = AEnd True) \<and>
     VRnd (slotOf a 1) = Round 5 (ID 0 0) \<and> asm_Rnd (pa_slots a) = Round 7 (ID 0 0) \<and>
     pa_bcast a = [learn7 1 appValue, learn7 1 zeroValue]"
  unfolding asm.view_def by code_simp

theorem parallel_accepts_linearizable_witness:
  "case pool_run [0, 1, 0, 1, 0, 1, 1, 0, 1, 0, 0, 1, 1, 0, 0, 1]
       (someParallelAcceptor, pool_of [acceptOf 7 1 appValue, acceptOf 7 2 zeroValue]) of (a, pool) \<Rightarrow>
     ballotOf (pa_slots a) =
       ballotOf (pa_slots (fold pa_handleAccept [acceptOf 7 1 appValue, acceptOf 7 2 zeroValue] someParallelAcceptor))"
proof -
  let ?msgs = "[acceptOf 7 1 appValue, acceptOf 7 2 zeroValue]"
  obtain a pool where run: "pool_run [0, 1, 0, 1, 0, 1, 1, 0, 1, 0, 0, 1, 1, 0, 0, 1] (someParallelAcceptor, pool_of ?msgs) = (a, pool)"
    by (metis prod.exhaust)
  have ended: "all_ended pool" using accepts_of_one_round unfolding run all_ended_def by auto
  have wf: "wf_acceptorSlots (pa_slots someParallelAcceptor)"
    by (simp add: someParallelAcceptor_def NewParallelAcceptor_def wf_NewAcceptorSlotMap)
  have msgs: "\<forall>m\<in>set ?msgs. acc_Rnd m = Round 7 (ID 0 0) \<and>
      acc_Val m = (\<lambda>s. if s = 1 then appValue else zeroValue) (acc_Slot m)"
    by (simp add: acceptOf_def)
  show ?thesis
    unfolding run prod.case
    by (rule conjunct1 [OF parallel_accepts_linearizable [OF wf msgs run [unfolded pool_of_def] ended]])
qed

end
