(* ===== verification/ParallelLearner.thy ===== *)
theory ParallelLearner
  imports SlotMaps "HOL-Library.Signed_Division"
begin

text \<open>
  The ParallelPaxos learner (\<open>src/parallelpaxos/learner.go\<close>). A dispatcher hands every learn to
  one of \<open>n\<close> processors, the one of the slot modulo \<open>n\<close>; each processor counts the learns of its
  slots by itself. A token that travels around the ring of processors orders what they deliver.

  A channel between the goroutines is the list of what was written and not yet read (for the
  tokens, their number); each event is one turn of the loop of one goroutine, so the events of a
  run may come in any order.
\<close>

section \<open>A processor\<close>

record LearnerProc =
  lp_numProcessors :: "64 word"
  lp_id :: int
  lp_slots :: "SlotID \<rightharpoonup> LearnerSlot"
  nextToDecideToken :: bool
  lp_tokenChan :: nat
  nextToDecide :: "64 word"
  lp_learnChan :: "Learn list"

text \<open>\<open>getSlot\<close> returns a pointer: the slot, and the processor in which it now exists.\<close>

definition lp_getSlot :: "SlotID \<Rightarrow> LearnerProc \<Rightarrow> LearnerSlot \<times> LearnerProc" where
  "lp_getSlot i lp =
     (let slots = (if lp_slots lp i = None then (lp_slots lp)(i \<mapsto> blankLearnerSlot i) else lp_slots lp)
      in (the (slots i), lp\<lparr>lp_slots := slots\<rparr>))"

definition lp_putSlot :: "SlotID \<Rightarrow> LearnerSlot \<Rightarrow> LearnerProc \<Rightarrow> LearnerProc" where
  "lp_putSlot i slot lp = lp\<lparr>lp_slots := (lp_slots lp)(i \<mapsto> slot)\<rparr>"

text \<open>
  The writes to \<open>dcdChan\<close>, \<open>dcdSlotIDToProp\<close> and \<open>tokenChanNext\<close> always come together; the value
  and the slot are returned, and the ring passes the token on.
\<close>

definition passToken :: "LearnerSlot \<Rightarrow> LearnerProc \<Rightarrow> (Value \<times> SlotID) option \<times> LearnerProc" where
  "passToken slot lp =
     (Some (LearnedVal slot, ls_ID slot),
      lp\<lparr>nextToDecide := nextToDecide lp + lp_numProcessors lp, nextToDecideToken := False\<rparr>)"

definition receiveNextToDecideToken :: "LearnerProc \<Rightarrow> (Value \<times> SlotID) option \<times> LearnerProc" where
  "receiveNextToDecideToken lp =
     (let lp = lp\<lparr>nextToDecideToken := True\<rparr>;
          (slot, lp) = lp_getSlot (nextToDecide lp) lp
      in if Learned slot then passToken slot lp else (None, lp))"

text \<open>The \<open>switch\<close> on the rounds: whether the learn makes a quorum, and the slot.\<close>

definition lp_count :: "GrpMgr \<Rightarrow> Learn \<Rightarrow> LearnerSlot \<Rightarrow> (bool \<times> LearnerSlot) result" where
  "lp_count gm learn slot =
     (if Compare (ls_Rnd slot) (lrn_Rnd learn) = 1 then Ok (False, slot)
      else
        let slot = (if Compare (ls_Rnd slot) (lrn_Rnd learn) = - 1
              then slot\<lparr>ls_Rnd := lrn_Rnd learn, Learns := replicate (unat (NrOfNodes gm)) None,
                     Votes := 0\<rparr>
              else slot)
        in bind_result (index (Learns slot) (PxInt (lrn_ID learn))) (\<lambda>known.
             if known \<noteq> None then Ok (False, slot)
             else
               let slot = slot\<lparr>Votes := Votes slot + 1,
                     Learns := (Learns slot)[nat (PxInt (lrn_ID learn)) := Some learn]\<rparr>
               in Ok (\<not> Votes slot < Quorum gm, slot)))"

definition lp_handleLearn ::
  "GrpMgr \<Rightarrow> Learn \<Rightarrow> LearnerProc \<Rightarrow> ((Value \<times> SlotID) option \<times> LearnerProc) result" where
  "lp_handleLearn gm learn lp =
     (let (slot, lp) = lp_getSlot (lrn_Slot learn) lp
      in if Learned slot then Ok (None, lp)
         else bind_result (lp_count gm learn slot) (\<lambda>(quorum, slot).
           if \<not> quorum then Ok (None, lp_putSlot (lrn_Slot learn) slot lp)
           else
             let slot = slot\<lparr>Learned := True, LearnedVal := lrn_Val learn\<rparr>;
                 lp = lp_putSlot (lrn_Slot learn) slot lp
             in if nextToDecideToken lp \<and> ls_ID slot = nextToDecide lp
                then Ok (passToken slot lp) else Ok (None, lp)))"

section \<open>The ring\<close>

text \<open>\<open>firstLearn\<close> is a local variable of the dispatcher.\<close>

record ParallelLearner =
  pl_id :: gid
  pl_started :: bool
  pl_startable :: bool
  pl_processors :: "LearnerProc list"
  pl_numProcessors :: int
  firstLearn :: bool
  pl_dcdChan :: "Value list"
  pl_dcdSlotIDToProp :: "SlotID list"

definition newLearnerProc :: "int \<Rightarrow> int \<Rightarrow> LearnerProc" where
  "newLearnerProc n i =
     \<lparr>lp_numProcessors = word_of_int n, lp_id = i, lp_slots = Map.empty, nextToDecideToken = False,
      lp_tokenChan = 0, nextToDecide = (if i = 0 then word_of_int n else word_of_int i),
      lp_learnChan = []\<rparr>"

text \<open>\<open>make\<close> panics on a negative length.\<close>

definition NewParallelLearner :: "gid \<Rightarrow> bool \<Rightarrow> bool \<Rightarrow> int \<Rightarrow> ParallelLearner result" where
  "NewParallelLearner i runAcc runLrn n =
     (if n < 0 then Fault (Panic ''makeslice: len out of range'')
      else Ok \<lparr>pl_id = i, pl_started = False, pl_startable = (runAcc \<and> runLrn),
        pl_processors = map (newLearnerProc n) [0..n - 1], pl_numProcessors = n, firstLearn = True,
        pl_dcdChan = [], pl_dcdSlotIDToProp = []\<rparr>)"

definition pl_Start :: "ParallelLearner \<Rightarrow> ParallelLearner" where
  "pl_Start l =
     (if \<not> pl_startable l \<or> pl_started l then l else l\<lparr>pl_started := True, firstLearn := True\<rparr>)"

definition on_proc :: "nat \<Rightarrow> (LearnerProc \<Rightarrow> LearnerProc) \<Rightarrow> ParallelLearner \<Rightarrow> ParallelLearner" where
  "on_proc i f l = l\<lparr>pl_processors := (pl_processors l)[i := f (pl_processors l ! i)]\<rparr>"

definition sendToken :: "nat \<Rightarrow> ParallelLearner \<Rightarrow> ParallelLearner" where
  "sendToken i = on_proc i (\<lambda>lp. lp\<lparr>lp_tokenChan := lp_tokenChan lp + 1\<rparr>)"

definition sendLearn :: "Learn \<Rightarrow> nat \<Rightarrow> ParallelLearner \<Rightarrow> ParallelLearner" where
  "sendLearn m i = on_proc i (\<lambda>lp. lp\<lparr>lp_learnChan := lp_learnChan lp @ [m]\<rparr>)"

text \<open>\<open>int(learn.Slot) % l.numProcessors\<close> truncates towards zero and may be negative.\<close>

definition pl_dispatch :: "Learn \<Rightarrow> ParallelLearner \<Rightarrow> ParallelLearner result" where
  "pl_dispatch m l =
     (if pl_numProcessors l = 0 then Fault DivideByZero
      else
        let i = sint (lrn_Slot m) smod pl_numProcessors l
        in bind_result (index (pl_processors l) i) (\<lambda>_.
             let l = (if firstLearn l then (sendToken (nat i) l)\<lparr>firstLearn := False\<rparr> else l)
             in Ok (sendLearn m (nat i) l)))"

text \<open>What a processor delivers goes to the channels, and the token to the next processor.\<close>

definition pl_deliver :: "nat \<Rightarrow> (Value \<times> SlotID) option \<Rightarrow> ParallelLearner \<Rightarrow> ParallelLearner" where
  "pl_deliver i dcd l =
     (case dcd of
        None \<Rightarrow> l
      | Some (val, slotID) \<Rightarrow>
          sendToken ((i + 1) mod nat (pl_numProcessors l))
            (l\<lparr>pl_dcdChan := pl_dcdChan l @ [val], pl_dcdSlotIDToProp := pl_dcdSlotIDToProp l @ [slotID]\<rparr>))"

datatype pl_event =
    PLDispatch Learn
  | PLLearn nat
  | PLToken nat

text \<open>A goroutine whose channel is empty waits: its event changes nothing.\<close>

fun pl_step :: "GrpMgr \<Rightarrow> pl_event \<Rightarrow> ParallelLearner \<Rightarrow> ParallelLearner result" where
  "pl_step gm (PLDispatch m) l = pl_dispatch m l"
| "pl_step gm (PLLearn i) l =
     (if i < length (pl_processors l) then
        let lp = pl_processors l ! i
        in case lp_learnChan lp of
             [] \<Rightarrow> Ok l
           | m # ms \<Rightarrow>
               bind_result (lp_handleLearn gm m (lp\<lparr>lp_learnChan := ms\<rparr>)) (\<lambda>(dcd, lp).
                 Ok (pl_deliver i dcd (on_proc i (\<lambda>_. lp) l)))
      else Ok l)"
| "pl_step gm (PLToken i) l =
     (if i < length (pl_processors l) \<and> 0 < lp_tokenChan (pl_processors l ! i) then
        let lp = pl_processors l ! i;
            (dcd, lp) = receiveNextToDecideToken (lp\<lparr>lp_tokenChan := lp_tokenChan lp - 1\<rparr>)
        in Ok (pl_deliver i dcd (on_proc i (\<lambda>_. lp) l))
      else Ok l)"

fun pl_run :: "GrpMgr \<Rightarrow> pl_event list \<Rightarrow> ParallelLearner \<Rightarrow> ParallelLearner result" where
  "pl_run gm [] l = Ok l"
| "pl_run gm (e # es) l = bind_result (pl_step gm e l) (pl_run gm es)"

end
