(* ===== verification/ParallelLearnerRuns.thy ===== *)
theory ParallelLearnerRuns
  imports ParallelLearner LearnerSafety
begin

text \<open>
  What the ParallelPaxos learner guarantees: the processors deliver in the order of the ring,
  which is the order of the slots when the first learn is for the slot they start with, and every
  delivered value is backed by a quorum of learns.
\<close>

section \<open>Turns of the ring\<close>

text \<open>
  With \<open>n\<close> processors, processor 0 starts with slot \<open>n\<close> and every other one with its own number.
  When the token starts at processor \<open>f\<close>, the \<open>k\<close>-th turn is that of processor \<open>(f + k) mod n\<close>,
  which delivers its slot number \<open>k div n\<close>; \<open>next_turn\<close> is the first turn of \<open>i\<close> from \<open>k\<close> on.
\<close>

definition first_slot :: "nat \<Rightarrow> nat \<Rightarrow> nat" where
  "first_slot n i = (if i = 0 then n else i)"

definition ring_slot :: "nat \<Rightarrow> nat \<Rightarrow> nat \<Rightarrow> nat" where
  "ring_slot n f k = first_slot n ((f + k) mod n) + n * (k div n)"

definition next_turn :: "nat \<Rightarrow> nat \<Rightarrow> nat \<Rightarrow> nat \<Rightarrow> nat" where
  "next_turn n f k i = k + (i + n - (f + k) mod n) mod n"

lemma ring_slot_round: "0 < n \<Longrightarrow> ring_slot n f (k + n) = ring_slot n f k + n"
  by (simp add: ring_slot_def div_add_self2 flip: add.assoc)

lemma next_turn_now: "0 < n \<Longrightarrow> next_turn n f k ((f + k) mod n) = k"
  by (simp add: next_turn_def)

lemma next_turn_Suc:
  assumes "0 < n" and "i < n"
  shows "next_turn n f (Suc k) i =
    (if i = (f + k) mod n then next_turn n f k i + n else next_turn n f k i)"
proof -
  define p where "p = (f + k) mod n"
  have p: "p < n" using assms(1) by (simp add: p_def)
  have "(f + Suc k) mod n = (if Suc p = n then 0 else Suc p)"
    by (simp add: p_def mod_Suc)
  moreover have "(i + n - q) mod n = (if q \<le> i then i - q else i + n - q)" if "q < n" for q
    using that assms(2) by (auto simp: le_mod_geq not_le)
  ultimately show ?thesis
    using p assms(2) by (auto simp: next_turn_def simp flip: p_def)
qed

lemma first_turn:
  assumes "f < n" and "i < n"
  shows "ring_slot n f (next_turn n f 0 i) = first_slot n i"
proof -
  have "(f + (i + n - f) mod n) mod n = i"
    using assms by (simp add: mod_add_right_eq)
  then show ?thesis using assms by (simp add: ring_slot_def next_turn_def)
qed

text \<open>From processor \<open>1 mod n\<close> on, the ring visits the slots in order.\<close>

lemma ring_slot_in_order:
  assumes "0 < n"
  shows "ring_slot n (1 mod n) k = Suc k"
proof -
  have "(1 mod n + k) mod n = Suc k mod n" by (metis mod_add_left_eq plus_1_eq_Suc)
  moreover have "first_slot n (Suc k mod n) + n * (k div n) = Suc k"
  proof (cases "Suc (k mod n) = n")
    case True
    then have "n + n * (k div n) = Suc (k mod n) + k div n * n" by (simp add: mult.commute)
    also have "\<dots> = Suc k" using div_mult_mod_eq [of k n] by simp
    finally show ?thesis using True by (simp add: mod_Suc first_slot_def)
  next
    case False
    then show ?thesis
      using div_mult_mod_eq [of k n] by (simp add: mod_Suc first_slot_def mult.commute)
  qed
  ultimately show ?thesis by (simp add: ring_slot_def)
qed

section \<open>One processor\<close>

definition proc_ok :: "GrpMgr \<Rightarrow> Learn set \<Rightarrow> LearnerProc \<Rightarrow> bool" where
  "proc_ok gm M lp \<longleftrightarrow> set (lp_learnChan lp) \<subseteq> M \<and>
     (\<forall>s slot. lp_slots lp s = Some slot \<longrightarrow> ls_ID slot = s \<and> counted gm M s slot \<and>
       (Learned slot \<longrightarrow> backed M (unat (Quorum gm)) s (LearnedVal slot)))"

text \<open>What a turn of a processor does to its part of the ring.\<close>

definition moves :: "LearnerProc \<Rightarrow> (Value \<times> SlotID) option \<Rightarrow> LearnerProc \<Rightarrow> bool" where
  "moves lp d lp' \<longleftrightarrow> lp_numProcessors lp' = lp_numProcessors lp \<and>
     lp_tokenChan lp' = lp_tokenChan lp \<and>
     (case d of
        None \<Rightarrow> nextToDecideToken lp' = nextToDecideToken lp \<and> nextToDecide lp' = nextToDecide lp
      | Some (v, s) \<Rightarrow> nextToDecideToken lp \<and> \<not> nextToDecideToken lp' \<and> s = nextToDecide lp \<and>
          nextToDecide lp' = nextToDecide lp + lp_numProcessors lp)"

lemma counted_blank: "counted gm M s (blankLearnerSlot s)"
  by (simp add: counted_def blankLearnerSlot_def voters_def)

lemma lp_getSlot_ok:
  assumes "proc_ok gm M lp" and "lp_getSlot s lp = (slot, lp')"
  shows "proc_ok gm M lp' \<and> lp_slots lp' s = Some slot \<and> moves lp None lp' \<and>
    lp_learnChan lp' = lp_learnChan lp"
  using assms counted_blank [of gm M s]
  by (auto simp: lp_getSlot_def proc_ok_def moves_def blankLearnerSlot_def split: if_splits)

lemma proc_ok_put:
  assumes "proc_ok gm M lp" and "ls_ID slot = s" and "counted gm M s slot"
    and "Learned slot \<longrightarrow> backed M (unat (Quorum gm)) s (LearnedVal slot)"
  shows "proc_ok gm M (lp_putSlot s slot lp) \<and> moves lp None (lp_putSlot s slot lp)"
  using assms by (auto simp: proc_ok_def lp_putSlot_def moves_def)

lemma lp_count_as_countLearn:
  "lp_count gm m slot =
     (if lrn_Rnd m < ls_Rnd slot then Ok (False, slot)
      else bind_result (countLearn gm m (if ls_Rnd slot < lrn_Rnd m
             then slot\<lparr>ls_Rnd := lrn_Rnd m, Learns := replicate (unat (NrOfNodes gm)) None, Votes := 0\<rparr>
             else slot)) (\<lambda>(d, slot). Ok (d \<noteq> None, slot)))"
  unfolding lp_count_def countLearn_def Let_def
  by (auto simp: index_def update_index_def bind_result_def not_less split: sum.splits)

lemma countLearn_keeps:
  assumes "countLearn gm m slot = Inr (d, slot')"
  shows "ls_ID slot' = ls_ID slot \<and> Learned slot' = Learned slot \<and> LearnedVal slot' = LearnedVal slot \<and>
    ls_Rnd slot' = ls_Rnd slot \<and> (\<forall>v s. d = Some (v, s) \<longrightarrow> v = lrn_Val m)"
  using assms by (auto simp: countLearn_def bind_result_Inr_iff Let_def split: if_splits)

lemma lp_count_counted:
  assumes cnt: "counted gm M (lrn_Slot m) slot" and id: "ls_ID slot = lrn_Slot m" and m: "m \<in> M"
    and nodes: "unat (NrOfNodes gm) < 2 ^ 64 - 1" and run: "lp_count gm m slot = Inr (q, slot')"
  shows "counted gm M (lrn_Slot m) slot' \<and> ls_ID slot' = ls_ID slot \<and> Learned slot' = Learned slot \<and>
    LearnedVal slot' = LearnedVal slot \<and> (q \<longrightarrow> backed M (unat (Quorum gm)) (lrn_Slot m) (lrn_Val m))"
proof (cases "lrn_Rnd m < ls_Rnd slot")
  case True
  then show ?thesis using run cnt by (simp add: lp_count_as_countLearn)
next
  case False
  define slot1 where "slot1 = (if ls_Rnd slot < lrn_Rnd m
    then slot\<lparr>ls_Rnd := lrn_Rnd m, Learns := replicate (unat (NrOfNodes gm)) None, Votes := 0\<rparr>
    else slot)"
  have slot1: "counted gm M (lrn_Slot m) slot1" "lrn_Rnd m = ls_Rnd slot1" "ls_ID slot1 = ls_ID slot"
      "Learned slot1 = Learned slot" "LearnedVal slot1 = LearnedVal slot"
    using False cnt counted_reset by (simp_all add: slot1_def)
  obtain d where d: "countLearn gm m slot1 = Inr (d, slot')" "q \<longleftrightarrow> d \<noteq> None"
    using run False by (auto simp: lp_count_as_countLearn bind_result_Inr_iff simp flip: slot1_def)
  show ?thesis
    using countLearn_counted [OF slot1(1) d(1) m refl slot1(2) _ nodes] countLearn_keeps [OF d(1)]
      slot1 id d(2) by auto
qed

lemma moves_None: "moves lp None lp1 \<Longrightarrow> moves lp1 d lp2 \<Longrightarrow> moves lp d lp2"
  by (auto simp: moves_def split: option.splits)

lemma passToken_moves:
  assumes "passToken slot lp = (d, lp')" and "nextToDecideToken lp" and "ls_ID slot = nextToDecide lp"
  shows "moves lp d lp'"
  using assms by (auto simp: passToken_def moves_def)

lemma passToken_ok:
  assumes "passToken slot lp = (d, lp')" and "proc_ok gm M lp"
    and "backed M (unat (Quorum gm)) (ls_ID slot) (LearnedVal slot)"
  shows "proc_ok gm M lp' \<and> (\<forall>v s. d = Some (v, s) \<longrightarrow> backed M (unat (Quorum gm)) s v)"
  using assms by (auto simp: passToken_def proc_ok_def)

definition turn_ok :: "GrpMgr \<Rightarrow> Learn set \<Rightarrow> LearnerProc \<Rightarrow> (Value \<times> SlotID) option \<Rightarrow> LearnerProc \<Rightarrow> bool" where
  "turn_ok gm M lp d lp' \<longleftrightarrow> moves lp d lp' \<and> proc_ok gm M lp' \<and>
     (\<forall>v s. d = Some (v, s) \<longrightarrow> backed M (unat (Quorum gm)) s v)"

lemma receiveNextToDecideToken_ok:
  assumes ok: "proc_ok gm M lp" and run: "receiveNextToDecideToken lp = (d, lp')"
  shows "turn_ok gm M (lp\<lparr>nextToDecideToken := True\<rparr>) d lp'"
proof -
  let ?lp = "lp\<lparr>nextToDecideToken := True\<rparr>"
  obtain slot lp1 where get: "lp_getSlot (nextToDecide ?lp) ?lp = (slot, lp1)"
    by (metis prod.exhaust)
  have "proc_ok gm M ?lp" using ok by (simp add: proc_ok_def)
  note lp1 = lp_getSlot_ok [OF this get]
  then have slot: "ls_ID slot = nextToDecide lp1" "nextToDecideToken lp1"
      "Learned slot \<longrightarrow> backed M (unat (Quorum gm)) (ls_ID slot) (LearnedVal slot)"
    by (auto simp: proc_ok_def moves_def)
  show ?thesis
  proof (cases "Learned slot")
    case True
    then have pass: "passToken slot lp1 = (d, lp')"
      using run get by (simp add: receiveNextToDecideToken_def)
    show ?thesis
      using passToken_moves [OF pass slot(2,1)] passToken_ok [OF pass, of gm M] lp1 slot(3) True
      by (auto simp: turn_ok_def intro: moves_None)
  next
    case False
    then show ?thesis using run get lp1 by (auto simp: turn_ok_def receiveNextToDecideToken_def)
  qed
qed

lemma lp_handleLearn_ok:
  assumes ok: "proc_ok gm M lp" and m: "m \<in> M" and nodes: "unat (NrOfNodes gm) < 2 ^ 64 - 1"
    and run: "lp_handleLearn gm m lp = Inr (d, lp')"
  shows "turn_ok gm M lp d lp'"
proof -
  obtain slot lp1 where get: "lp_getSlot (lrn_Slot m) lp = (slot, lp1)" by (metis prod.exhaust)
  note lp1 = lp_getSlot_ok [OF ok get]
  then have slot: "counted gm M (lrn_Slot m) slot" "ls_ID slot = lrn_Slot m"
    by (auto simp: proc_ok_def)
  show ?thesis
  proof (cases "Learned slot")
    case True
    then show ?thesis using run get lp1 by (auto simp: turn_ok_def lp_handleLearn_def)
  next
    case False
    then obtain q slot2 where count: "lp_count gm m slot = Inr (q, slot2)"
        and run2: "(if \<not> q then Ok (None, lp_putSlot (lrn_Slot m) slot2 lp1)
          else let slot = slot2\<lparr>Learned := True, LearnedVal := lrn_Val m\<rparr>;
                   lp = lp_putSlot (lrn_Slot m) slot lp1
               in if nextToDecideToken lp \<and> ls_ID slot = nextToDecide lp
                  then Ok (passToken slot lp) else Ok (None, lp)) = Inr (d, lp')"
      using run get by (auto simp: lp_handleLearn_def bind_result_Inr_iff)
    note slot2 = lp_count_counted [OF slot m nodes count]
    define slot3 where "slot3 = slot2\<lparr>Learned := True, LearnedVal := lrn_Val m\<rparr>"
    have cnt3: "counted gm M (lrn_Slot m) slot3" "ls_ID slot3 = lrn_Slot m"
      using slot2 slot by (simp_all add: slot3_def counted_def voters_def)
    show ?thesis
    proof (cases q)
      case False
      have "\<not> Learned slot2" using slot2 \<open>\<not> Learned slot\<close> by simp
      then show ?thesis
        using run2 False proc_ok_put [of gm M lp1 slot2 "lrn_Slot m"] lp1 slot2 slot
        by (auto simp: turn_ok_def intro: moves_None)
    next
      case True
      define lp2 where "lp2 = lp_putSlot (lrn_Slot m) slot3 lp1"
      have b: "backed M (unat (Quorum gm)) (ls_ID slot3) (LearnedVal slot3)"
        using True slot2 cnt3 by (simp add: slot3_def)
      then have lp2: "proc_ok gm M lp2" "moves lp None lp2"
        using proc_ok_put [OF _ cnt3(2,1), of lp1] lp1 cnt3 unfolding lp2_def
        by (auto intro: moves_None)
      from run2 True have "(if nextToDecideToken lp2 \<and> ls_ID slot3 = nextToDecide lp2
          then passToken slot3 lp2 else (None, lp2)) = (d, lp')"
        by (auto simp: Let_def lp2_def slot3_def split: if_splits)
      then show ?thesis
        using passToken_moves [of slot3 lp2 d lp'] passToken_ok [of slot3 lp2 d lp', OF _ lp2(1) b] lp2
        by (auto simp: turn_ok_def intro: moves_None split: if_splits)
    qed
  qed
qed

section \<open>The ring\<close>

definition tokens :: "LearnerProc \<Rightarrow> nat" where
  "tokens lp = lp_tokenChan lp + (if nextToDecideToken lp then 1 else 0)"

text \<open>Processor \<open>i\<close> before turn \<open>k\<close>: the slot it delivers at its next turn comes next.\<close>

definition proc_inv :: "GrpMgr \<Rightarrow> Learn set \<Rightarrow> nat \<Rightarrow> nat \<Rightarrow> nat \<Rightarrow> nat \<Rightarrow> LearnerProc \<Rightarrow> bool" where
  "proc_inv gm M n f k i lp \<longleftrightarrow> proc_ok gm M lp \<and> lp_numProcessors lp = of_nat n \<and>
     nextToDecide lp = of_nat (ring_slot n f (next_turn n f k i))"

definition ring_inv :: "GrpMgr \<Rightarrow> Learn set \<Rightarrow> nat \<Rightarrow> nat \<Rightarrow> nat \<Rightarrow> ParallelLearner \<Rightarrow> bool" where
  "ring_inv gm M n f k l \<longleftrightarrow>
     pl_numProcessors l = int n \<and> length (pl_processors l) = n \<and>
     (\<forall>i<n. proc_inv gm M n f k i (pl_processors l ! i) \<and>
        tokens (pl_processors l ! i) = (if i = (f + k) mod n \<and> \<not> firstLearn l then 1 else 0)) \<and>
     (firstLearn l \<longrightarrow> k = 0) \<and>
     pl_dcdSlotIDToProp l = map (\<lambda>j. of_nat (ring_slot n f j)) [0..<k] \<and>
     list_all2 (backed M (unat (Quorum gm))) (pl_dcdSlotIDToProp l) (pl_dcdChan l)"

lemma proc_inv_moves:
  assumes "0 < n" and "i < n" and "proc_inv gm M n f k i lp" and "moves lp d lp'" and "proc_ok gm M lp'"
    and "d \<noteq> None \<longrightarrow> i = (f + k) mod n"
  shows "proc_inv gm M n f (if d = None then k else Suc k) i lp'"
  using assms
  by (cases d) (auto simp: proc_inv_def moves_def next_turn_Suc ring_slot_round)

lemma proc_inv_wait:
  assumes "0 < n" and "i < n" and "i \<noteq> (f + k) mod n" and "proc_inv gm M n f k i lp"
  shows "proc_inv gm M n f (Suc k) i lp"
  using assms by (simp add: proc_inv_def next_turn_Suc)

lemma proc_inv_token: "proc_inv gm M n f k i (lp\<lparr>lp_tokenChan := t\<rparr>) = proc_inv gm M n f k i lp"
  by (simp add: proc_inv_def proc_ok_def)

lemma tokens_moves: "moves lp (Some vs) lp' \<Longrightarrow> tokens lp = Suc (tokens lp')"
  by (cases vs) (simp add: moves_def tokens_def)

lemma tokens_stay: "moves lp None lp' \<Longrightarrow> tokens lp = tokens lp'"
  by (simp add: moves_def tokens_def)

lemma ring_inv_on_proc:
  assumes "ring_inv gm M n f k l" and "i < n" and "tokens lp' = tokens (pl_processors l ! i)"
    and "proc_inv gm M n f k i lp'"
  shows "ring_inv gm M n f k (on_proc i (\<lambda>_. lp') l)"
proof -
  have "(pl_processors l)[i := lp'] ! j = (if j = i then lp' else pl_processors l ! j)" if "j < n" for j
    using assms(1) that by (simp add: ring_inv_def nth_list_update)
  then have "\<forall>j<n. proc_inv gm M n f k j ((pl_processors l)[i := lp'] ! j) \<and>
      tokens ((pl_processors l)[i := lp'] ! j) = tokens (pl_processors l ! j)"
    using assms unfolding ring_inv_def by (metis (no_types, lifting))
  then show ?thesis
    using assms(1) unfolding ring_inv_def on_proc_def
    by (elim conjE, intro conjI) simp_all
qed

text \<open>A turn that delivers moves the token one place on; any other turn changes nothing.\<close>

lemma ring_inv_turn:
  assumes n: "0 < n" and inv: "ring_inv gm M n f k l" and i: "i < n"
    and lp: "proc_inv gm M n f k i lp" "tokens lp = tokens (pl_processors l ! i)"
    and turn: "turn_ok gm M lp d lp'"
  shows "ring_inv gm M n f (if d = None then k else Suc k) (pl_deliver i d (on_proc i (\<lambda>_. lp') l))"
proof (cases d)
  case None
  then have "tokens lp' = tokens (pl_processors l ! i)" "proc_inv gm M n f k i lp'"
    using turn lp i n proc_inv_moves [OF n i lp(1), of d lp'] tokens_stay [of lp lp']
    by (auto simp: turn_ok_def)
  moreover have "pl_deliver i d (on_proc i (\<lambda>_. lp') l) = on_proc i (\<lambda>_. lp') l"
    using None by (simp add: pl_deliver_def)
  ultimately show ?thesis using ring_inv_on_proc [OF inv i] None by simp
next
  case (Some vs)
  obtain v s where vs: "vs = (v, s)" by (cases vs)
  have tok: "tokens (pl_processors l ! i) = Suc (tokens lp')"
    using turn lp(2) Some tokens_moves [of lp vs lp'] by (simp add: turn_ok_def)
  then have at: "i = (f + k) mod n" "\<not> firstLearn l" "tokens lp' = 0"
    using inv i by (auto simp: ring_inv_def split: if_splits)
  have lp': "proc_inv gm M n f (Suc k) i lp'"
    using proc_inv_moves [OF n i lp(1), of d lp'] turn Some at by (auto simp: turn_ok_def)
  have s: "s = of_nat (ring_slot n f k)" "backed M (unat (Quorum gm)) s v"
    using turn lp(1) Some vs at(1) n
    by (auto simp: turn_ok_def moves_def proc_inv_def next_turn_now)
  define X where "X j = (if j = i then lp' else pl_processors l ! j)" for j
  have X: "proc_inv gm M n f (Suc k) j (X j)" "tokens (X j) = 0" if "j < n" for j
    using that lp' at inv proc_inv_wait [OF n that, of f k gm M "pl_processors l ! j"]
    by (auto simp: X_def ring_inv_def)
  have next_proc: "(f + Suc k) mod n = (i + 1) mod n"
    using at(1) by (simp add: mod_Suc_eq)
  define l' where "l' = pl_deliver i d (on_proc i (\<lambda>_. lp') l)"
  have l': "pl_processors l' ! j =
      (if j = (i + 1) mod n then (X j)\<lparr>lp_tokenChan := lp_tokenChan (X j) + 1\<rparr> else X j)" if "j < n" for j
    using that i inv n Some vs
    by (auto simp: l'_def pl_deliver_def sendToken_def on_proc_def X_def ring_inv_def nth_list_update)
  have frame: "pl_numProcessors l' = int n" "length (pl_processors l') = n" "\<not> firstLearn l'"
      "pl_dcdSlotIDToProp l' = pl_dcdSlotIDToProp l @ [s]" "pl_dcdChan l' = pl_dcdChan l @ [v]"
    using inv at(2) Some vs
    by (simp_all add: l'_def pl_deliver_def sendToken_def on_proc_def ring_inv_def)
  have "ring_inv gm M n f (Suc k) l'"
    unfolding ring_inv_def frame next_proc
  proof (intro conjI allI impI refl)
    fix j assume "j < n"
    then show "proc_inv gm M n f (Suc k) j (pl_processors l' ! j)"
        "tokens (pl_processors l' ! j) = (if j = (i + 1) mod n \<and> \<not> firstLearn l' then 1 else 0)"
      using X l' frame(3) by (auto simp: proc_inv_token tokens_def)
  next
    assume "firstLearn l'"
    with frame(3) show "Suc k = 0" by simp
  next
    show "pl_dcdSlotIDToProp l @ [s] = map (\<lambda>j. of_nat (ring_slot n f j)) [0..<Suc k]"
      using inv s by (simp add: ring_inv_def)
    show "list_all2 (backed M (unat (Quorum gm))) (pl_dcdSlotIDToProp l @ [s]) (pl_dcdChan l @ [v])"
      using inv s(2) by (auto simp: ring_inv_def intro: list_all2_appendI)
  qed
  then show ?thesis using Some by (simp add: l'_def)
qed

lemma ring_inv_sendLearn:
  assumes "ring_inv gm M n f k l" and "i < n" and "m \<in> M"
  shows "ring_inv gm M n f k (sendLearn m i l)"
  using assms
  by (auto simp: ring_inv_def sendLearn_def on_proc_def nth_list_update proc_inv_def proc_ok_def tokens_def)

lemma ring_inv_first:
  assumes "ring_inv gm M n f k l" and "firstLearn l" and "f < n"
  shows "ring_inv gm M n f k ((sendToken f l)\<lparr>firstLearn := False\<rparr>)"
  using assms
  by (auto simp: ring_inv_def sendToken_def on_proc_def nth_list_update proc_inv_token tokens_def)

lemma ring_inv_dispatch:
  assumes inv: "ring_inv gm M n f k l" and run: "pl_dispatch m l = Inr l'" and m: "m \<in> M"
    and f: "firstLearn l \<longrightarrow> f = nat (sint (lrn_Slot m) smod int n)"
  shows "ring_inv gm M n f k l' \<and> \<not> firstLearn l'"
proof -
  define i where "i = sint (lrn_Slot m) smod int n"
  have i: "0 \<le> i" "nat i < n"
      "l' = sendLearn m (nat i) (if firstLearn l then (sendToken (nat i) l)\<lparr>firstLearn := False\<rparr> else l)"
    using run inv
    by (auto simp: pl_dispatch_def i_def ring_inv_def Let_def bind_result_Inr_iff index_Inr_iff split: if_splits)
  define l1 where "l1 = (if firstLearn l then (sendToken (nat i) l)\<lparr>firstLearn := False\<rparr> else l)"
  have "firstLearn l \<Longrightarrow> nat i = f" using f by (simp add: i_def)
  then have "ring_inv gm M n f k l1" "\<not> firstLearn l1"
    using ring_inv_first [OF inv] inv i(2) by (auto simp: l1_def)
  then show ?thesis
    using ring_inv_sendLearn [OF _ i(2) m, of gm f k l1] i(3)
    by (simp add: l1_def sendLearn_def on_proc_def)
qed

text \<open>The processor that the dispatcher gives the token to.\<close>

fun first_dispatch :: "nat \<Rightarrow> pl_event list \<Rightarrow> nat" where
  "first_dispatch n [] = 1 mod n"
| "first_dispatch n (PLDispatch m # es) = nat (sint (lrn_Slot m) smod int n)"
| "first_dispatch n (PLLearn i # es) = first_dispatch n es"
| "first_dispatch n (PLToken i # es) = first_dispatch n es"

lemma pl_deliver_firstLearn [simp]: "firstLearn (pl_deliver i d (on_proc j g l)) = firstLearn l"
  by (simp add: pl_deliver_def sendToken_def on_proc_def split: option.splits)

lemma ring_inv_step:
  assumes n: "0 < n" and inv: "ring_inv gm M n f k l" and step: "pl_step gm e l = Inr l'"
    and M: "\<And>m. e = PLDispatch m \<Longrightarrow> m \<in> M" and nodes: "unat (NrOfNodes gm) < 2 ^ 64 - 1"
    and f: "firstLearn l \<longrightarrow> f = first_dispatch n (e # es)"
  shows "(\<exists>k'. ring_inv gm M n f k' l') \<and> (firstLearn l' \<longrightarrow> f = first_dispatch n es)"
proof (cases e)
  case (PLDispatch m)
  then show ?thesis
    using ring_inv_dispatch [OF inv, of m l'] step M f by auto
next
  case (PLLearn i)
  show ?thesis
  proof (cases "i < n \<and> lp_learnChan (pl_processors l ! i) \<noteq> []")
    case True
    let ?lp = "pl_processors l ! i"
    from True obtain m ms where ms: "lp_learnChan ?lp = m # ms" "i < n" by (auto simp: neq_Nil_conv)
    have lp: "proc_inv gm M n f k i ?lp" using inv ms(2) by (simp add: ring_inv_def)
    then have m: "m \<in> M" "proc_ok gm M (?lp\<lparr>lp_learnChan := ms\<rparr>)"
      using ms(1) by (auto simp: proc_inv_def proc_ok_def)
    obtain d lp' where run: "lp_handleLearn gm m (?lp\<lparr>lp_learnChan := ms\<rparr>) = Inr (d, lp')"
        and l': "l' = pl_deliver i d (on_proc i (\<lambda>_. lp') l)"
      using step PLLearn ms inv by (auto simp: ring_inv_def bind_result_Inr_iff)
    have lp2: "proc_inv gm M n f k i (?lp\<lparr>lp_learnChan := ms\<rparr>)"
        "tokens (?lp\<lparr>lp_learnChan := ms\<rparr>) = tokens ?lp"
      using lp m(2) by (simp_all add: proc_inv_def tokens_def)
    have "ring_inv gm M n f (if d = None then k else Suc k) l'"
      unfolding l' by (rule ring_inv_turn [OF n inv ms(2) lp2 lp_handleLearn_ok [OF m(2,1) nodes run]])
    moreover have "firstLearn l' = firstLearn l" by (simp add: l')
    ultimately show ?thesis using f PLLearn by auto
  next
    case False
    then have "l' = l" using step inv PLLearn by (auto simp: ring_inv_def Let_def split: if_splits)
    then show ?thesis using inv f PLLearn by auto
  qed
next
  case (PLToken i)
  show ?thesis
  proof (cases "i < n \<and> 0 < lp_tokenChan (pl_processors l ! i)")
    case True
    let ?lp = "pl_processors l ! i"
    let ?lp1 = "?lp\<lparr>lp_tokenChan := lp_tokenChan ?lp - 1\<rparr>"
    have lp: "proc_inv gm M n f k i ?lp" "tokens ?lp \<le> 1" using inv True by (simp_all add: ring_inv_def)
    then have lp1: "proc_ok gm M ?lp1" by (simp add: proc_inv_def proc_ok_def)
    obtain d lp' where run: "receiveNextToDecideToken ?lp1 = (d, lp')" by (metis prod.exhaust)
    then have l': "l' = pl_deliver i d (on_proc i (\<lambda>_. lp') l)"
      using step PLToken True inv by (auto simp: ring_inv_def Let_def)
    have lp2: "proc_inv gm M n f k i (?lp1\<lparr>nextToDecideToken := True\<rparr>)"
        "tokens (?lp1\<lparr>nextToDecideToken := True\<rparr>) = tokens ?lp"
      using lp True by (simp_all add: proc_inv_def proc_ok_def tokens_def split: if_splits)
    have "ring_inv gm M n f (if d = None then k else Suc k) l'"
      unfolding l'
      by (rule ring_inv_turn [OF n inv _ lp2 receiveNextToDecideToken_ok [OF lp1 run]]) (use True in simp)
    moreover have "firstLearn l' = firstLearn l" by (simp add: l')
    ultimately show ?thesis using f PLToken by auto
  next
    case False
    then have "l' = l" using step inv PLToken by (auto simp: ring_inv_def split: if_splits)
    then show ?thesis using inv f PLToken by auto
  qed
qed

lemma ring_inv_run:
  assumes "0 < n" and "ring_inv gm M n f k l" and "pl_run gm es l = Inr l'"
    and "\<And>m. PLDispatch m \<in> set es \<Longrightarrow> m \<in> M" and "unat (NrOfNodes gm) < 2 ^ 64 - 1"
    and "firstLearn l \<longrightarrow> f = first_dispatch n es"
  shows "\<exists>k'. ring_inv gm M n f k' l'"
  using assms(2-)
proof (induction es arbitrary: l k)
  case (Cons e es)
  from Cons.prems(2) obtain l1 where "pl_step gm e l = Inr l1" "pl_run gm es l1 = Inr l'"
    by (auto simp: bind_result_Inr_iff)
  then show ?case
    using ring_inv_step [OF assms(1) Cons.prems(1), of e l1 es] Cons by fastforce
qed auto

lemma NewParallelLearner_inv:
  assumes "0 < n" and "f < n" and "NewParallelLearner i a r (int n) = Inr l"
  shows "ring_inv gm M n f 0 l \<and> firstLearn l"
proof -
  have l: "pl_processors l = map (newLearnerProc (int n)) [0..int n - 1]" "firstLearn l"
      "pl_numProcessors l = int n" "pl_dcdChan l = []" "pl_dcdSlotIDToProp l = []"
    using assms(3) by (auto simp: NewParallelLearner_def)
  have "length (pl_processors l) = n" by (simp add: l)
  moreover have "pl_processors l ! j = newLearnerProc (int n) (int j)" if "j < n" for j
    using that by (simp add: l)
  then have "proc_inv gm M n f 0 j (pl_processors l ! j) \<and> tokens (pl_processors l ! j) = 0" if "j < n" for j
    using that assms(2)
    by (simp add: proc_inv_def proc_ok_def newLearnerProc_def tokens_def first_turn first_slot_def)
  ultimately show ?thesis using l by (simp add: ring_inv_def)
qed

text \<open>
  C32. Whatever the interleaving of its goroutines, the learner delivers slots in the order of the
  ring, starting with the processor of the first learn. When that is the processor of slot 1, it
  delivers the slots 1, 2, 3 and so on, none left out and none twice. Each value it delivers is
  backed by a quorum of learns for its slot and one round, from different Paxos ids.
\<close>

theorem parallel_learner_order:
  assumes "NewParallelLearner i a r (int n) = Inr l" and "0 < n" and "pl_run gm es l = Inr l'"
    and "first_dispatch n es < n" and "unat (NrOfNodes gm) < 2 ^ 64 - 1"
  shows "pl_dcdSlotIDToProp l' =
      map (\<lambda>k. of_nat (ring_slot n (first_dispatch n es) k)) [0..<length (pl_dcdSlotIDToProp l')] \<and>
    (first_dispatch n es = 1 mod n \<longrightarrow>
      pl_dcdSlotIDToProp l' = map of_nat [1..<Suc (length (pl_dcdSlotIDToProp l'))]) \<and>
    list_all2 (backed {m. PLDispatch m \<in> set es} (unat (Quorum gm)))
      (pl_dcdSlotIDToProp l') (pl_dcdChan l')"
proof -
  let ?M = "{m. PLDispatch m \<in> set es}"
  obtain k where k: "ring_inv gm ?M n (first_dispatch n es) k l'"
    using ring_inv_run [OF assms(2) _ assms(3), of ?M "first_dispatch n es" 0]
      NewParallelLearner_inv [OF assms(2,4,1)] assms(5) by blast
  then have len: "length (pl_dcdSlotIDToProp l') = k" by (simp add: ring_inv_def)
  have "map (\<lambda>k. of_nat (ring_slot n (1 mod n) k)) [0..<k] = map of_nat [1..<Suc k]"
    unfolding ring_slot_in_order [OF assms(2)]
    by (simp flip: map_Suc_upt add: o_def del: upt_Suc of_nat_Suc)
  then show ?thesis using k by (auto simp: len ring_inv_def simp del: upt_Suc)
qed

section \<open>Concrete runs\<close>

definition someParallelEvents :: "SlotID list \<Rightarrow> pl_event list" where
  "someParallelEvents ss = map (\<lambda>s. PLDispatch (learnOf s appValue)) ss @
     map PLLearn [0, 1, 2] @ map PLToken [0, 1, 2, 0, 1, 2, 0]"

definition slots_delivered :: "nat \<Rightarrow> SlotID list \<Rightarrow> SlotID list result" where
  "slots_delivered n ss =
     bind_result (NewParallelLearner (ID 0 0) True True (int n)) (\<lambda>l.
       bind_result (pl_run oneGrpMgr (someParallelEvents ss) l) (\<lambda>l. Ok (pl_dcdSlotIDToProp l)))"

lemma learns_in_order: "slots_delivered 3 [1, 3, 2] = Ok [1, 2, 3]"
  by code_simp

text \<open>
  The token goes to the processor of the learn that happens to come first. When the first learn of
  slot 2 overtakes those of slot 1, slot 1 is delivered after slot 3.
\<close>

lemma first_learn_decides_the_order: "slots_delivered 3 [2, 3, 1] = Ok [2, 3, 1]"
  by code_simp

theorem parallel_learner_order_witness:
  "\<exists>l. bind_result (NewParallelLearner (ID 0 0) True True (int 3)) (pl_run oneGrpMgr (someParallelEvents [1, 3, 2])) = Inr l \<and>
    pl_dcdSlotIDToProp l = map of_nat [1..<Suc (length (pl_dcdSlotIDToProp l))] \<and>
    length (pl_dcdSlotIDToProp l) = 3"
proof -
  obtain l0 l where run: "NewParallelLearner (ID 0 0) True True (int 3) = Inr l0"
      "pl_run oneGrpMgr (someParallelEvents [1, 3, 2]) l0 = Inr l" "pl_dcdSlotIDToProp l = [1, 2, 3]"
    using learns_in_order by (auto simp: slots_delivered_def bind_result_Inr_iff)
  moreover have "first_dispatch 3 (someParallelEvents [1, 3, 2]) = 1"
    by code_simp
  moreover have "unat (NrOfNodes oneGrpMgr) < 2 ^ 64 - 1" using some_learn_events(4) by simp
  ultimately show ?thesis
    using parallel_learner_order [OF run(1) _ run(2)] by auto
qed

end
