(* ===== verification/ParallelProposer.thy ===== *)
theory ParallelProposer
  imports SlotMaps
begin

text \<open>
  The ParallelPaxos proposer (\<open>src/parallelpaxos/proposer.go\<close>, \<open>proposer_demuxer.go\<close>,
  \<open>proposer_processor.go\<close>). The demultiplexer runs phase 1 and tells the processors up to which
  slot to send accepts; processor \<open>i\<close> of \<open>n\<close> owns the slots that are \<open>i\<close> modulo \<open>n\<close> and takes the
  values from a queue that all processors read. Goroutines that only wait to hand a message over
  are the list of those messages; each event is one turn of a goroutine.
\<close>

section \<open>Messages between the goroutines\<close>

record AduMsg =
  am_processor :: "64 word"
  am_adu :: "64 word"

record SendAcceptsMsg =
  upTo :: "64 word"
  sa_crnd :: ProposerRound

section \<open>A processor\<close>

record ParallelSlot =
  psl_Decided :: bool
  psl_Proposal :: "Accept option"

text \<open>
  \<open>pp_msg\<close> is the message whose loop the processor is in, if it is in one; \<open>pp_accept\<close> the accept it has
  made of a value it took from the queue and has not handed to the sender yet.
\<close>

record ProposerProcessor =
  pp_numProcessors :: "64 word"
  pp_proposerID :: gid
  pp_id :: "64 word"
  pp_slots :: "64 word \<rightharpoonup> ParallelSlot"
  pp_adu :: "64 word"
  pp_next :: "64 word"
  pp_msg :: "SendAcceptsMsg option"
  pp_accept :: "Accept option"

text \<open>\<open>None\<close> is the error ``not our slot''. A processor exists only if there is at least one.\<close>

definition pp_getSlot :: "64 word \<Rightarrow> ProposerProcessor \<Rightarrow> (ParallelSlot \<times> ProposerProcessor) option" where
  "pp_getSlot slotID pp =
     (if slotID mod pp_numProcessors pp \<noteq> pp_id pp then None
      else
        let slots = (if pp_slots pp slotID = None
              then (pp_slots pp)(slotID \<mapsto> \<lparr>psl_Decided = False, psl_Proposal = None\<rparr>)
              else pp_slots pp)
        in Some (the (slots slotID), pp\<lparr>pp_slots := slots\<rparr>))"

definition pp_putSlot :: "64 word \<Rightarrow> ParallelSlot \<Rightarrow> ProposerProcessor \<Rightarrow> ProposerProcessor" where
  "pp_putSlot slotID slot pp = pp\<lparr>pp_slots := (pp_slots pp)(slotID \<mapsto> slot)\<rparr>"

text \<open>The fields that the composite literal leaves out have their zero values.\<close>

definition zeroAccept :: Accept where
  "zeroAccept = \<lparr>acc_ID = ID 0 0, acc_Slot = 0, acc_Rnd = ZeroRound, acc_Val = zeroValue\<rparr>"

definition processAccSlot :: "AcceptorSlot \<Rightarrow> ProposerProcessor \<Rightarrow> ProposerProcessor" where
  "processAccSlot accSlot pp =
     (if as_ID accSlot \<le> pp_adu pp then pp
      else case pp_getSlot (as_ID accSlot) pp of
        None \<Rightarrow> pp
      | Some (slot, pp) \<Rightarrow>
          if (case psl_Proposal slot of None \<Rightarrow> True
              | Some p \<Rightarrow> Compare (acc_Rnd p) (VRnd accSlot) \<ge> 0)
          then pp_putSlot (as_ID accSlot)
                 (slot\<lparr>psl_Proposal := Some (zeroAccept\<lparr>acc_Rnd := VRnd accSlot, acc_Val := VVal accSlot\<rparr>)\<rparr>) pp
          else pp)"

definition ProcessPromises :: "Promise option list \<Rightarrow> ProposerProcessor \<Rightarrow> ProposerProcessor" where
  "ProcessPromises promises =
     fold (\<lambda>promise pp. case promise of None \<Rightarrow> pp
             | Some p \<Rightarrow> fold processAccSlot (prom_AccSlots p) pp) promises"

text \<open>The loop looks at \<open>slotID\<close> in every turn, not at \<open>i\<close>.\<close>

partial_function (option) decidedLoop ::
  "64 word \<Rightarrow> 64 word \<Rightarrow> bool \<times> ProposerProcessor \<Rightarrow> (bool \<times> ProposerProcessor) option" where
  "decidedLoop i slotID st =
     (if i \<le> slotID then
        (case st of (didAdvance, pp) \<Rightarrow>
          case pp_getSlot slotID pp of
            None \<Rightarrow> Some st
          | Some (slot, pp) \<Rightarrow>
              if psl_Decided slot
              then decidedLoop (i + pp_numProcessors pp) slotID (True, pp\<lparr>pp_adu := slotID\<rparr>)
              else Some (didAdvance, pp))
      else Some st)"

declare decidedLoop.simps [code]

definition HandleDecided :: "64 word \<Rightarrow> ProposerProcessor \<Rightarrow> (AduMsg option \<times> ProposerProcessor) result" where
  "HandleDecided slotID pp =
     (case pp_getSlot slotID pp of
        None \<Rightarrow> Ok (None, pp)
      | Some (slot, pp) \<Rightarrow>
          let pp = pp_putSlot slotID (slot\<lparr>psl_Decided := True\<rparr>) pp
          in if slotID = pp_id pp then
               let pp = pp\<lparr>pp_adu := slotID\<rparr>
               in Ok (Some \<lparr>am_processor = pp_id pp, am_adu = pp_adu pp\<rparr>, pp)
             else if slotID = pp_adu pp + pp_numProcessors pp then
               (case decidedLoop (pp_adu pp + pp_numProcessors pp) slotID (False, pp) of
                  None \<Rightarrow> Fault Diverges
                | Some (didAdvance, pp) \<Rightarrow>
                    if didAdvance
                    then Ok (Some \<lparr>am_processor = pp_id pp, am_adu = pp_adu pp\<rparr>, pp)
                    else Ok (None, pp))
             else Ok (None, pp))"

section \<open>State\<close>

record ParallelProposer =
  par_id :: gid
  par_startable :: bool
  par_started :: bool
  par_leader :: gid
  par_numProcessors :: "64 word"
  par_crnd :: ProposerRound
  par_alpha :: "64 word"
  par_queueCap :: nat
  par_reqQueue :: "Value list"
  par_reqQueueLength :: "64 word"
  phase1promises :: "Promise option list"
  phase1numPromises :: "64 word"
  phase1done :: bool
  par_adu :: "64 word"
  aduInProcessor :: "64 word list"
  par_next :: "64 word"
  par_bcast :: "dynamic list"
  par_procs :: "ProposerProcessor list"
  par_sendAccepts :: "(nat \<times> SendAcceptsMsg) list"
  par_advance :: "AduMsg list"

text \<open>\<open>make\<close> panics on a negative capacity.\<close>

definition NewParallelProposer :: "gid \<Rightarrow> bool \<Rightarrow> gid \<Rightarrow> int \<Rightarrow> int \<Rightarrow> ParallelProposer result" where
  "NewParallelProposer i runProp paxosLeader processors alph =
     (if alph * 128 < 0 then Fault (Panic ''makechan: size out of range'')
      else Ok \<lparr>par_id = i, par_startable = runProp, par_started = False, par_leader = paxosLeader,
        par_numProcessors = word_of_int processors, par_crnd = NewProposerRound i,
        par_alpha = word_of_int alph, par_queueCap = nat (alph * 128), par_reqQueue = [],
        par_reqQueueLength = 0, phase1promises = [], phase1numPromises = 0, phase1done = False,
        par_adu = 0, aduInProcessor = replicate (unat (word_of_int processors :: 64 word)) 0,
        par_next = 1, par_bcast = [], par_procs = [], par_sendAccepts = [], par_advance = []\<rparr>)"

text \<open>The loop that rounds \<open>adu\<close> up to a multiple of the number of processors above \<open>p.adu\<close>.\<close>

partial_function (option) aduLoop :: "64 word \<Rightarrow> 64 word \<Rightarrow> 64 word \<Rightarrow> 64 word option" where
  "aduLoop n limit adu = (if adu \<le> limit then aduLoop n limit (adu + n) else Some adu)"

declare aduLoop.simps [code]

definition startProcessor :: "64 word \<Rightarrow> ParallelProposer \<Rightarrow> ProposerProcessor result" where
  "startProcessor i p =
     (case aduLoop (par_numProcessors p) (par_adu p) 0 of
        None \<Rightarrow> Fault Diverges
      | Some adu \<Rightarrow>
          let adu = adu - par_numProcessors p;
              nxt = (if adu \<noteq> 0 \<or> adu = 0 \<and> i = 0 then adu + par_numProcessors p else i)
          in Ok \<lparr>pp_numProcessors = par_numProcessors p, pp_proposerID = par_id p, pp_id = i,
               pp_slots = Map.empty, pp_adu = adu, pp_next = nxt, pp_msg = None,
               pp_accept = None\<rparr>)"

text \<open>Neither a proposer that is not startable nor one that was started returns early here.\<close>

fun startProcessors :: "nat \<Rightarrow> ParallelProposer \<Rightarrow> ProposerProcessor list result" where
  "startProcessors 0 p = Ok []"
| "startProcessors (Suc k) p =
     bind_result (startProcessors k p) (\<lambda>pps.
       bind_result (startProcessor (of_nat k) p) (\<lambda>pp. Ok (pps @ [pp])))"

definition par_Start :: "ParallelProposer \<Rightarrow> ParallelProposer result" where
  "par_Start p =
     bind_result (startProcessors (unat (par_numProcessors p)) p) (\<lambda>pps.
       Ok (p\<lparr>par_started := True, par_procs := pps\<rparr>))"

section \<open>The demultiplexer\<close>

definition demuxerSignalToSendAccepts :: "ParallelProposer \<Rightarrow> ParallelProposer" where
  "demuxerSignalToSendAccepts p =
     (let u = (if par_adu p + par_alpha p < par_next p + par_reqQueueLength p - 1
               then par_adu p + par_alpha p else par_next p + par_reqQueueLength p - 1);
          msg = \<lparr>upTo = u, sa_crnd = par_crnd p\<rparr>;
          len = par_reqQueueLength p - (u - par_next p)
      in p\<lparr>par_sendAccepts := par_sendAccepts p @ map (\<lambda>i. (i, msg)) [0..<length (par_procs p)],
           par_reqQueueLength := len, par_next := par_next p + (u - par_next p)\<rparr>)"

definition demuxerStartPhase1 :: "GrpMgr \<Rightarrow> ParallelProposer \<Rightarrow> ParallelProposer" where
  "demuxerStartPhase1 gm p =
     (let p = p\<lparr>phase1done := False, phase1numPromises := 0,
                phase1promises := replicate (unat (NrOfNodes gm)) None,
                par_crnd := NextRound (par_crnd p)\<rparr>
      in p\<lparr>par_bcast := par_bcast p @
             [Struct (MPrepare \<lparr>prep_ID = par_id p, prep_CRnd = par_crnd p, prep_Slot = par_adu p\<rparr>)]\<rparr>)"

definition demuxerHandleTrust :: "GrpMgr \<Rightarrow> gid \<Rightarrow> ParallelProposer \<Rightarrow> ParallelProposer" where
  "demuxerHandleTrust gm i p =
     (if par_leader p = par_id p \<and> par_leader p = i then p
      else
        let p = p\<lparr>par_leader := i\<rparr>
        in if par_leader p = par_id p then demuxerStartPhase1 gm p else p)"

definition demuxerFinishPhase1 :: "ParallelProposer \<Rightarrow> ParallelProposer" where
  "demuxerFinishPhase1 p =
     demuxerSignalToSendAccepts
       (p\<lparr>par_procs := map (ProcessPromises (phase1promises p)) (par_procs p), phase1done := True\<rparr>)"

definition demuxerHandlePromise :: "GrpMgr \<Rightarrow> Promise \<Rightarrow> ParallelProposer \<Rightarrow> ParallelProposer result" where
  "demuxerHandlePromise gm promise p =
     (if phase1done p then Ok p
      else if Compare (par_crnd p) (prom_Rnd promise) \<noteq> 0 then Ok p
      else bind_result (index (phase1promises p) (PxInt (prom_ID promise))) (\<lambda>known.
        if known \<noteq> None then Ok p
        else
          let p = p\<lparr>phase1promises := (phase1promises p)[nat (PxInt (prom_ID promise)) := Some promise],
                    phase1numPromises := phase1numPromises p + 1\<rparr>
          in if phase1numPromises p \<ge> Quorum gm then Ok (demuxerFinishPhase1 p) else Ok p))"

definition demuxerHandlePhaseTick :: "GrpMgr \<Rightarrow> ParallelProposer \<Rightarrow> ParallelProposer" where
  "demuxerHandlePhaseTick gm p =
     (if par_leader p \<noteq> par_id p \<or> phase1done p then p else demuxerStartPhase1 gm p)"

definition demuxerHandleNewRequest :: "Value \<Rightarrow> ParallelProposer \<Rightarrow> ParallelProposer" where
  "demuxerHandleNewRequest val p =
     (if par_leader p \<noteq> par_id p then p
      else if length (par_reqQueue p) < par_queueCap p then
        let p = p\<lparr>par_reqQueue := par_reqQueue p @ [val], par_reqQueueLength := par_reqQueueLength p + 1\<rparr>
        in if par_leader p = par_id p \<and> phase1done p then demuxerSignalToSendAccepts p else p
      else p)"

text \<open>The processor handles the decision while the demultiplexer hands it over.\<close>

definition demuxerDemuxDecided :: "64 word \<Rightarrow> ParallelProposer \<Rightarrow> ParallelProposer result" where
  "demuxerDemuxDecided slotID p =
     (if par_numProcessors p = 0 then Fault DivideByZero
      else
        let i = unat (slotID mod par_numProcessors p)
        in bind_result (index (par_procs p) (int i)) (\<lambda>pp.
             bind_result (HandleDecided slotID pp) (\<lambda>(msg, pp).
               Ok (p\<lparr>par_procs := (par_procs p)[i := pp],
                     par_advance := par_advance p @ (case msg of None \<Rightarrow> [] | Some m \<Rightarrow> [m])\<rparr>))))"

definition demuxerHandleAdvance :: "AduMsg \<Rightarrow> ParallelProposer \<Rightarrow> ParallelProposer result" where
  "demuxerHandleAdvance msg p =
     bind_result (index (aduInProcessor p) (int (unat (am_processor msg)))) (\<lambda>old.
       let aduIncreased = (\<forall>adu\<in>set (aduInProcessor p). \<not> adu < old);
           p = p\<lparr>aduInProcessor := (aduInProcessor p)[unat (am_processor msg) := am_adu msg]\<rparr>
       in Ok (if aduIncreased then
                let p = p\<lparr>par_adu := am_adu msg\<rparr>
                in if par_leader p = par_id p \<and> phase1done p then demuxerSignalToSendAccepts p else p
              else p))"

section \<open>Turns\<close>

text \<open>
  The loop of \<open>SendAccepts\<close> ends when \<open>next\<close> has passed \<open>upTo\<close>. Each pass has two turns: the processor
  takes a value from the queue, and hands the accept to the sender. Other processors may come between.
\<close>

definition dequeueTurn :: "nat \<Rightarrow> ProposerProcessor \<Rightarrow> SendAcceptsMsg \<Rightarrow> ParallelProposer \<Rightarrow> ParallelProposer result" where
  "dequeueTurn i pp msg p =
     (case par_reqQueue p of
        queuedVal # queue \<Rightarrow>
          let accept = \<lparr>acc_ID = pp_proposerID pp, acc_Slot = pp_next pp,
                        acc_Rnd = sa_crnd msg, acc_Val = queuedVal\<rparr>
          in Ok (p\<lparr>par_reqQueue := queue, par_procs := (par_procs p)[i := pp\<lparr>pp_accept := Some accept\<rparr>]\<rparr>)
      | [] \<Rightarrow> Fault (Panic ''Proposer processor was commanded to send accept, but queue was empty''))"

definition bcastTurn :: "nat \<Rightarrow> ProposerProcessor \<Rightarrow> Accept \<Rightarrow> ParallelProposer \<Rightarrow> ParallelProposer" where
  "bcastTurn i pp accept p =
     p\<lparr>par_bcast := par_bcast p @ [Pointer (MAccept accept)],
       par_procs := (par_procs p)[i :=
         pp\<lparr>pp_accept := None, pp_next := pp_next pp + pp_numProcessors pp\<rparr>]\<rparr>"

definition SendAccepts_turn :: "nat \<Rightarrow> ParallelProposer \<Rightarrow> ParallelProposer result" where
  "SendAccepts_turn i p =
     bind_result (index (par_procs p) (int i)) (\<lambda>pp.
       case pp_msg pp of
         None \<Rightarrow> Ok p
       | Some msg \<Rightarrow>
           (case pp_accept pp of
              Some accept \<Rightarrow> Ok (bcastTurn i pp accept p)
            | None \<Rightarrow>
                if pp_next pp \<le> upTo msg then dequeueTurn i pp msg p
                else Ok (p\<lparr>par_procs := (par_procs p)[i := pp\<lparr>pp_msg := None\<rparr>]\<rparr>)))"

text \<open>An idle processor takes the \<open>k\<close>-th of the messages that wait, whichever it is.\<close>

definition takeSendAccepts :: "nat \<Rightarrow> ParallelProposer \<Rightarrow> ParallelProposer" where
  "takeSendAccepts k p =
     (if k < length (par_sendAccepts p) then
        let (i, msg) = par_sendAccepts p ! k;
            pp = par_procs p ! i
        in if i < length (par_procs p) \<and> pp_msg pp = None
           then p\<lparr>par_procs := (par_procs p)[i := pp\<lparr>pp_msg := Some msg\<rparr>],
                  par_sendAccepts := take k (par_sendAccepts p) @ drop (Suc k) (par_sendAccepts p)\<rparr>
           else p
      else p)"

datatype par_event =
    PPTrust gid
  | PPPromise Promise
  | PPTick
  | PPRequest Value
  | PPDecided "64 word"
  | PPAdvance nat
  | PPTake nat
  | PPTurn nat

fun par_step :: "GrpMgr \<Rightarrow> par_event \<Rightarrow> ParallelProposer \<Rightarrow> ParallelProposer result" where
  "par_step gm (PPTrust trustID) p = Ok (demuxerHandleTrust gm trustID p)"
| "par_step gm (PPPromise promise) p = demuxerHandlePromise gm promise p"
| "par_step gm PPTick p = Ok (demuxerHandlePhaseTick gm p)"
| "par_step gm (PPRequest val) p = Ok (demuxerHandleNewRequest val p)"
| "par_step gm (PPDecided dcd) p = demuxerDemuxDecided dcd p"
| "par_step gm (PPAdvance k) p =
     (if k < length (par_advance p)
      then demuxerHandleAdvance (par_advance p ! k)
             (p\<lparr>par_advance := take k (par_advance p) @ drop (Suc k) (par_advance p)\<rparr>)
      else Ok p)"
| "par_step gm (PPTake k) p = Ok (takeSendAccepts k p)"
| "par_step gm (PPTurn i) p = (if i < length (par_procs p) then SendAccepts_turn i p else Ok p)"

fun par_run :: "GrpMgr \<Rightarrow> par_event list \<Rightarrow> ParallelProposer \<Rightarrow> ParallelProposer result" where
  "par_run gm [] p = Ok p"
| "par_run gm (e # es) p = bind_result (par_step gm e p) (par_run gm es)"

end
