(* ===== verification/ParallelProposerRuns.thy ===== *)
theory ParallelProposerRuns
  imports ParallelProposer "HOL-Library.Sublist" "HOL-Library.Multiset"
begin

text \<open>
  Runs of the ParallelPaxos proposer: the processors that share the request queue never find it
  empty when they are told to send, no slot gets two accepts, and the clients' values are proposed
  at most once, first in first out. And where the bookkeeping of \<open>adu\<close> goes wrong.
\<close>

section \<open>What was broadcast\<close>

fun accept_of :: "dynamic \<Rightarrow> Accept list" where
  "accept_of (Pointer (MAccept a)) = [a]"
| "accept_of _ = []"

definition accepts :: "ParallelProposer \<Rightarrow> Accept list" where
  "accepts p = concat (map accept_of (par_bcast p))"

definition requests :: "par_event list \<Rightarrow> Value list" where
  "requests es = concat (map (\<lambda>e. case e of PPRequest v \<Rightarrow> [v] | _ \<Rightarrow> []) es)"

section \<open>The invariant\<close>

text \<open>
  The part of a processor that the accepts depend on, the accept it holds, and the slot it will be at when
  it has sent that.
\<close>

definition pp_core :: "ProposerProcessor \<Rightarrow> 64 word \<times> 64 word \<times> SendAcceptsMsg option \<times> Accept option" where
  "pp_core pp = (pp_numProcessors pp, pp_next pp, pp_msg pp, pp_accept pp)"

definition in_hand :: "ProposerProcessor \<Rightarrow> Accept list" where
  "in_hand pp = (case pp_accept pp of None \<Rightarrow> [] | Some a \<Rightarrow> [a])"

definition coming :: "ProposerProcessor \<Rightarrow> 64 word" where
  "coming pp = (if pp_accept pp = None then pp_next pp else pp_next pp + pp_numProcessors pp)"

definition core_inv ::
  "nat \<Rightarrow> nat \<Rightarrow> nat \<Rightarrow> 64 word \<times> 64 word \<times> SendAcceptsMsg option \<times> Accept option \<Rightarrow> bool" where
  "core_inv n R i = (\<lambda>(k, nxt, msg, acc). k = of_nat n \<and> 0 < unat nxt \<and> unat nxt mod n = i \<and>
     (case msg of None \<Rightarrow> True | Some m \<Rightarrow> unat (upTo m) \<le> R) \<and>
     (case acc of None \<Rightarrow> True | Some a \<Rightarrow> acc_Slot a = nxt \<and> unat nxt \<le> R \<and> msg \<noteq> None))"

definition slots_inv :: "nat \<Rightarrow> nat \<Rightarrow> Accept list \<Rightarrow> ProposerProcessor list \<Rightarrow> bool" where
  "slots_inv n R as pps \<longleftrightarrow> distinct (map acc_Slot as) \<and>
     (\<forall>a\<in>set as. 0 < unat (acc_Slot a) \<and> unat (acc_Slot a) \<le> R \<and>
        acc_Slot a < coming (pps ! (unat (acc_Slot a) mod n)))"

text \<open>The accepts of one processor.\<close>

definition own :: "nat \<Rightarrow> nat \<Rightarrow> Accept list \<Rightarrow> Accept list" where
  "own n i as = filter (\<lambda>a. unat (acc_Slot a) mod n = i) as"

text \<open>
  \<open>ds\<close> are the accepts in the order in which their values were taken from the queue, sent or not. Each
  processor has sent its own of them in that order, all but the one in its hand.
\<close>

definition par_inv :: "nat \<Rightarrow> Value list \<Rightarrow> Accept list \<Rightarrow> ParallelProposer \<Rightarrow> bool" where
  "par_inv n vs ds p \<longleftrightarrow> 0 < n \<and> length (par_procs p) = n \<and>
     par_next p + par_reqQueueLength p - 1 = of_nat (length vs) \<and>
     (\<forall>i<n. core_inv n (length vs) i (pp_core (par_procs p ! i))) \<and>
     (\<forall>(i, msg)\<in>set (par_sendAccepts p). unat (upTo msg) \<le> length vs) \<and>
     map acc_Val ds @ par_reqQueue p = vs \<and>
     (\<forall>i<n. own n i (accepts p) @ in_hand (par_procs p ! i) = own n i ds) \<and>
     slots_inv n (length vs) ds (par_procs p)"

lemma pp_getSlot_core: "pp_getSlot s pp = Some (slot, pp') \<Longrightarrow> pp_core pp' = pp_core pp"
  by (auto simp: pp_getSlot_def pp_core_def Let_def split: if_splits)

lemma pp_putSlot_core [simp]: "pp_core (pp_putSlot s slot pp) = pp_core pp"
  by (simp add: pp_putSlot_def pp_core_def)

lemma processAccSlot_core [simp]: "pp_core (processAccSlot s pp) = pp_core pp"
  by (auto simp: processAccSlot_def pp_getSlot_core split: option.splits)

lemma processAccSlots_core [simp]: "pp_core (fold processAccSlot ss pp) = pp_core pp"
  by (induction ss arbitrary: pp) auto

lemma ProcessPromises_core [simp]: "pp_core (ProcessPromises ps pp) = pp_core pp"
  unfolding ProcessPromises_def by (induction ps arbitrary: pp) (auto split: option.splits)

lemma decidedLoop_core:
  assumes "decidedLoop i s st = Some st'"
  shows "pp_core (snd st') = pp_core (snd st)"
  using assms
proof (elim decidedLoop.raw_induct [where P = "\<lambda>i s st st'. pp_core (snd st') = pp_core (snd st)", rotated])
  fix loop and i s :: "64 word" and st st'
  assume IH: "\<And>i s st st'. loop i s st = Some st' \<Longrightarrow> pp_core (snd st') = pp_core (snd st)"
    and eq: "(if i \<le> s then case st of (didAdvance, pp) \<Rightarrow> case pp_getSlot s pp of None \<Rightarrow> Some st
        | Some (slot, pp) \<Rightarrow> if psl_Decided slot
            then loop (i + pp_numProcessors pp) s (True, pp\<lparr>pp_adu := s\<rparr>) else Some (didAdvance, pp)
      else Some st) = Some st'"
  have core: "pp_core (x\<lparr>pp_adu := y\<rparr>) = pp_core x" for x y by (simp add: pp_core_def)
  show "pp_core (snd st') = pp_core (snd st)"
    using eq by (auto simp: core pp_getSlot_core split: if_splits prod.splits option.splits dest!: IH)
qed

lemma HandleDecided_core:
  assumes "HandleDecided s pp = Inr (msg, pp')"
  shows "pp_core pp' = pp_core pp"
proof (cases "pp_getSlot s pp")
  case None
  then show ?thesis using assms by (simp add: HandleDecided_def)
next
  case (Some r)
  obtain slot pp1 where r: "r = (slot, pp1)" by (cases r)
  have c: "pp_core pp1 = pp_core pp" using Some r by (simp add: pp_getSlot_core)
  have "pp_core (x\<lparr>pp_adu := y\<rparr>) = pp_core x" for x y by (simp add: pp_core_def)
  then show ?thesis
    using assms Some r c decidedLoop_core
    by (fastforce simp: HandleDecided_def Let_def split: if_splits option.splits)
qed

text \<open>Operations that leave the accepts alone.\<close>

lemma par_inv_frame:
  assumes "par_inv n vs ds p"
    and "length (par_procs p') = length (par_procs p)"
    and "\<And>i. i < length (par_procs p) \<Longrightarrow> pp_core (par_procs p' ! i) = pp_core (par_procs p ! i)"
    and "par_next p' + par_reqQueueLength p' = par_next p + par_reqQueueLength p"
    and "\<forall>(i, msg)\<in>set (par_sendAccepts p'). (i, msg) \<in> set (par_sendAccepts p) \<or> unat (upTo msg) \<le> length vs"
    and "accepts p' = accepts p" and "par_reqQueue p' = par_reqQueue p"
  shows "par_inv n vs ds p'"
proof -
  have n: "0 < n" "length (par_procs p) = n" using assms(1) by (simp_all add: par_inv_def)
  have "coming (par_procs p' ! i) = coming (par_procs p ! i) \<and> in_hand (par_procs p' ! i) = in_hand (par_procs p ! i)"
    if "i < n" for i
    using assms(3) [of i] that n by (simp add: pp_core_def coming_def in_hand_def)
  then have "slots_inv n (length vs) ds (par_procs p')"
      "\<forall>i<n. own n i (accepts p') @ in_hand (par_procs p' ! i) = own n i ds"
    using assms(1,6) n by (simp_all add: par_inv_def slots_inv_def)
  then show ?thesis
    using assms unfolding par_inv_def by fastforce
qed

lemma signal_inv:
  assumes "par_inv n vs ds p" and "length vs < 2 ^ 64"
  shows "par_inv n vs ds (demuxerSignalToSendAccepts p)"
proof -
  define u where "u = (if par_adu p + par_alpha p < par_next p + par_reqQueueLength p - 1
    then par_adu p + par_alpha p else par_next p + par_reqQueueLength p - 1)"
  have "u \<le> par_next p + par_reqQueueLength p - 1" unfolding u_def by (simp add: less_imp_le)
  also have "\<dots> = of_nat (length vs)" using assms(1) by (simp add: par_inv_def)
  finally have "unat u \<le> unat (of_nat (length vs) :: 64 word)" by (simp add: word_le_nat_alt)
  then have "unat u \<le> length vs" using assms(2) by (simp add: unat_of_nat)
  then show ?thesis
    by (intro par_inv_frame [OF assms(1)])
      (auto simp: demuxerSignalToSendAccepts_def Let_def accepts_def simp flip: u_def)
qed

lemma startPhase1_inv: "par_inv n vs ds p \<Longrightarrow> par_inv n vs ds (demuxerStartPhase1 gm p)"
  by (rule par_inv_frame) (auto simp: demuxerStartPhase1_def Let_def accepts_def)

lemma trust_inv: "par_inv n vs ds p \<Longrightarrow> par_inv n vs ds (demuxerHandleTrust gm i p)"
proof -
  assume p: "par_inv n vs ds p"
  then have "par_inv n vs ds (p\<lparr>par_leader := i\<rparr>)" by (rule par_inv_frame) (auto simp: accepts_def)
  with p show ?thesis using startPhase1_inv by (auto simp: demuxerHandleTrust_def Let_def)
qed

lemma promise_inv:
  assumes p: "par_inv n vs ds p" and "length vs < 2 ^ 64" and "demuxerHandlePromise gm m p = Inr p'"
  shows "par_inv n vs ds p'"
proof -
  have "par_inv n vs ds (p\<lparr>phase1promises := x, phase1numPromises := y\<rparr>)" for x y
    using p by (rule par_inv_frame) (auto simp: accepts_def)
  moreover have "par_inv n vs ds (demuxerFinishPhase1 q)" if "par_inv n vs ds q" for q
  proof -
    have "par_inv n vs ds (q\<lparr>par_procs := map (ProcessPromises (phase1promises q)) (par_procs q), phase1done := True\<rparr>)"
      using that by (rule par_inv_frame) (auto simp: accepts_def)
    then show ?thesis using signal_inv assms(2) by (simp add: demuxerFinishPhase1_def)
  qed
  ultimately show ?thesis
    using assms by (auto simp: demuxerHandlePromise_def bind_result_Inr_iff Let_def split: if_splits)
qed

lemma request_inv:
  assumes p: "par_inv n vs ds p" and len: "length vs + 1 < 2 ^ 64"
  shows "\<exists>ws. par_inv n (vs @ ws) ds (demuxerHandleNewRequest v p) \<and> (ws = [] \<or> ws = [v])"
proof (cases "par_leader p = par_id p \<and> length (par_reqQueue p) < par_queueCap p")
  case True
  define q where "q = p\<lparr>par_reqQueue := par_reqQueue p @ [v], par_reqQueueLength := par_reqQueueLength p + 1\<rparr>"
  have q: "par_procs q = par_procs p" "accepts q = accepts p" "par_reqQueue q = par_reqQueue p @ [v]"
      "par_sendAccepts q = par_sendAccepts p" "par_next q + par_reqQueueLength q - 1 = of_nat (length (vs @ [v]))"
    using p by (simp_all add: q_def accepts_def par_inv_def algebra_simps)
  have core: "core_inv n (length vs) i c \<Longrightarrow> core_inv n (length (vs @ [v])) i c" for i c
    by (auto simp: core_inv_def split: option.splits)
  have slots: "slots_inv n (length (vs @ [v])) ds (par_procs p)"
    using p by (auto simp: par_inv_def slots_inv_def)
  have procs: "\<forall>i<n. core_inv n (length (vs @ [v])) i (pp_core (par_procs p ! i))"
    using p core unfolding par_inv_def by blast
  have sends: "\<forall>(i, msg)\<in>set (par_sendAccepts p). unat (upTo msg) \<le> length (vs @ [v])"
    using p by (auto simp: par_inv_def)
  have vals: "map acc_Val ds @ par_reqQueue p @ [v] = vs @ [v]"
    using p unfolding par_inv_def by (metis append.assoc)
  have "par_inv n (vs @ [v]) ds q"
    using p procs sends vals slots q(5) unfolding par_inv_def q(1-4) by blast
  then have "par_inv n (vs @ [v]) ds q \<and> par_inv n (vs @ [v]) ds (demuxerSignalToSendAccepts q)"
    using signal_inv len by simp
  then have "par_inv n (vs @ [v]) ds (demuxerHandleNewRequest v p)"
    using True by (auto simp: demuxerHandleNewRequest_def Let_def simp flip: q_def)
  then show ?thesis by blast
next
  case False
  then show ?thesis
    using p by (intro exI [of _ "[]"]) (auto simp: demuxerHandleNewRequest_def)
qed

lemma decided_inv:
  assumes p: "par_inv n vs ds p" and "demuxerDemuxDecided s p = Inr p'"
  shows "par_inv n vs ds p'"
proof -
  obtain i pp msg pp' where i: "i < length (par_procs p)" "pp = par_procs p ! i"
      "HandleDecided s pp = Inr (msg, pp')"
      "p' = p\<lparr>par_procs := (par_procs p)[i := pp'],
        par_advance := par_advance p @ (case msg of None \<Rightarrow> [] | Some m \<Rightarrow> [m])\<rparr>"
    using assms(2)
    by (auto simp: demuxerDemuxDecided_def bind_result_Inr_iff index_Inr_iff Let_def split: if_splits)
  then show ?thesis
    by (intro par_inv_frame [OF p]) (auto simp: HandleDecided_core nth_list_update accepts_def)
qed

lemma advance_inv:
  assumes p: "par_inv n vs ds p" and "length vs < 2 ^ 64" and "demuxerHandleAdvance m p = Inr p'"
  shows "par_inv n vs ds p'"
proof -
  have "par_inv n vs ds (p\<lparr>aduInProcessor := x\<rparr>)" "par_inv n vs ds (p\<lparr>aduInProcessor := x, par_adu := y\<rparr>)" for x y
    using p by (auto intro: par_inv_frame simp: accepts_def)
  note upd = this
  obtain old where "p' = (if \<forall>adu\<in>set (aduInProcessor p). \<not> adu < old
      then let p = p\<lparr>aduInProcessor := (aduInProcessor p)[unat (am_processor m) := am_adu m], par_adu := am_adu m\<rparr>
        in if par_leader p = par_id p \<and> phase1done p then demuxerSignalToSendAccepts p else p
      else p\<lparr>aduInProcessor := (aduInProcessor p)[unat (am_processor m) := am_adu m]\<rparr>)"
    using assms(3) by (auto simp: demuxerHandleAdvance_def bind_result_Inr_iff Let_def)
  then show ?thesis
    using upd signal_inv [OF _ assms(2)] by (simp add: Let_def)
qed

section \<open>The turns of the processors\<close>

lemma take_inv:
  assumes p: "par_inv n vs ds p"
  shows "par_inv n vs ds (takeSendAccepts k p)"
proof (cases "k < length (par_sendAccepts p)")
  case False
  then show ?thesis using p by (simp add: takeSendAccepts_def)
next
  case True
  obtain i msg where at: "par_sendAccepts p ! k = (i, msg)" by (cases "par_sendAccepts p ! k")
  let ?pp = "par_procs p ! i" and ?rest = "take k (par_sendAccepts p) @ drop (Suc k) (par_sendAccepts p)"
  show ?thesis
  proof (cases "i < length (par_procs p) \<and> pp_msg ?pp = None")
    case False
    then show ?thesis using p True at by (auto simp: takeSendAccepts_def)
  next
    case idle: True
    have "(i, msg) \<in> set (par_sendAccepts p)" using True at by (metis nth_mem)
    then have up: "unat (upTo msg) \<le> length vs" using p by (auto simp: par_inv_def)
    define q where "q = p\<lparr>par_procs := (par_procs p)[i := ?pp\<lparr>pp_msg := Some msg\<rparr>], par_sendAccepts := ?rest\<rparr>"
    have core: "core_inv n (length vs) j (pp_core (par_procs p ! j))" if "j < n" for j
      using p that by (simp add: par_inv_def)
    have "core_inv n (length vs) j (pp_core (par_procs q ! j))" if "j < n" for j
      using core [OF that] that idle up
      by (cases "j = i") (auto simp: q_def core_inv_def pp_core_def nth_list_update split: option.splits)
    moreover have same: "coming (par_procs q ! j) = coming (par_procs p ! j)"
        "in_hand (par_procs q ! j) = in_hand (par_procs p ! j)" if "j < n" for j
      using p that idle by (cases "j = i"; auto simp: q_def par_inv_def nth_list_update coming_def in_hand_def)+
    then have "slots_inv n (length vs) ds (par_procs q)"
      using p by (auto simp: par_inv_def slots_inv_def)
    moreover have "set ?rest \<subseteq> set (par_sendAccepts p)"
      by (auto dest: in_set_takeD in_set_dropD)
    moreover have "length (par_procs q) = length (par_procs p)" "accepts q = accepts p"
        "par_reqQueue q = par_reqQueue p" "par_sendAccepts q = ?rest" "par_next q = par_next p"
        "par_reqQueueLength q = par_reqQueueLength p"
      by (simp_all add: q_def accepts_def)
    moreover have "\<forall>j<n. own n j (accepts p) @ in_hand (par_procs q ! j) = own n j ds"
      using p same(2) by (simp add: par_inv_def)
    ultimately have "par_inv n vs ds q" using p unfolding par_inv_def by auto
    moreover have "takeSendAccepts k p = q"
      using True at idle by (simp add: takeSendAccepts_def q_def)
    ultimately show ?thesis by simp
  qed
qed

text \<open>
  The slots of the accepts are different slots from 1 to the number of values ever queued, and the
  slot a processor is at is none of them: while it may send, there is a value left in the queue.
\<close>

lemma queue_not_empty:
  assumes p: "par_inv n vs ds p" and i: "i < n" and msg: "pp_msg (par_procs p ! i) = Some msg"
    and free: "pp_accept (par_procs p ! i) = None" and le: "pp_next (par_procs p ! i) \<le> upTo msg"
  shows "par_reqQueue p \<noteq> [] \<and> 0 < unat (pp_next (par_procs p ! i)) \<and>
    unat (pp_next (par_procs p ! i)) \<le> length vs \<and> unat (pp_next (par_procs p ! i)) mod n = i"
proof -
  let ?x = "pp_next (par_procs p ! i)" and ?S = "unat ` acc_Slot ` set ds"
  have core: "0 < unat ?x" "unat ?x mod n = i" "unat (upTo msg) \<le> length vs"
    using p i msg by (auto simp: par_inv_def core_inv_def pp_core_def)
  then have x: "unat ?x \<le> length vs" using le by (simp add: word_le_nat_alt)
  have below: "acc_Slot a < coming (par_procs p ! (unat (acc_Slot a) mod n))" if "a \<in> set ds" for a
    using p that by (simp add: par_inv_def slots_inv_def)
  have "acc_Slot a \<noteq> ?x" if "a \<in> set ds" for a
    using below [OF that] core(2) free by (auto simp: coming_def)
  then have "unat ?x \<notin> ?S" by (metis (no_types, lifting) imageE word_unat_eq_iff)
  moreover have "?S \<subseteq> {1..length vs}"
    using p by (auto simp: par_inv_def slots_inv_def)
  ultimately have "?S \<subseteq> {1..length vs} - {unat ?x}" by blast
  then have "card ?S \<le> card ({1..length vs} - {unat ?x})" by (rule card_mono [rotated]) simp
  also have "\<dots> = length vs - 1" using x core(1) by simp
  finally have "card ?S \<le> length vs - 1" .
  moreover have "card ?S = card (acc_Slot ` set ds)"
    by (rule card_image) (simp add: inj_on_def word_unat_eq_iff)
  then have "card ?S = length ds"
    using p distinct_card [of "map acc_Slot ds"] by (simp add: par_inv_def slots_inv_def)
  moreover have "length (map acc_Val ds @ par_reqQueue p) = length vs"
    using p by (simp only: par_inv_def)
  ultimately show ?thesis using x core by (cases "par_reqQueue p") simp_all
qed

text \<open>A turn that changes one processor, and keeps what that processor has still to come.\<close>

lemma proc_inv:
  assumes p: "par_inv n vs ds p" and i: "i < n" and q: "par_procs q = (par_procs p)[i := pp]"
    and core: "core_inv n (length vs) i (pp_core pp)" and "coming pp = coming (par_procs p ! i)"
    and hand: "\<And>j. j < n \<Longrightarrow> own n j (accepts q) @ in_hand (par_procs q ! j) = own n j ds"
    and "par_reqQueue q = par_reqQueue p" "par_sendAccepts q = par_sendAccepts p" "par_next q = par_next p"
      "par_reqQueueLength q = par_reqQueueLength p"
  shows "par_inv n vs ds q"
proof -
  have len: "length (par_procs p) = n" "0 < n" using p by (simp_all add: par_inv_def)
  have "core_inv n (length vs) j (pp_core (par_procs q ! j))" "coming (par_procs q ! j) = coming (par_procs p ! j)"
    if "j < n" for j
    using p that len i core assms(5) by (cases "j = i"; simp add: q par_inv_def)+
  then show ?thesis
    using p len hand assms(7-) unfolding par_inv_def by (simp add: q slots_inv_def)
qed

lemma end_turn_inv:
  assumes p: "par_inv n vs ds p" and i: "i < n" and "pp_accept (par_procs p ! i) = None"
  shows "par_inv n vs ds (p\<lparr>par_procs := (par_procs p)[i := (par_procs p ! i)\<lparr>pp_msg := None\<rparr>]\<rparr>)"
proof (rule proc_inv [OF p i])
  let ?q = "p\<lparr>par_procs := (par_procs p)[i := (par_procs p ! i)\<lparr>pp_msg := None\<rparr>]\<rparr>"
  show "core_inv n (length vs) i (pp_core ((par_procs p ! i)\<lparr>pp_msg := None\<rparr>))"
    using p i assms(3) by (auto simp: par_inv_def core_inv_def pp_core_def)
  show "own n j (accepts ?q) @ in_hand (par_procs ?q ! j) = own n j ds" if "j < n" for j
    using p i that by (cases "j = i") (auto simp: par_inv_def accepts_def in_hand_def)
qed (simp_all add: coming_def)

lemma bcast_turn_inv:
  assumes p: "par_inv n vs ds p" and i: "i < n" and a: "pp_accept (par_procs p ! i) = Some a"
    and room: "length vs + n < 2 ^ 64"
  shows "par_inv n vs ds (bcastTurn i (par_procs p ! i) a p)"
proof (rule proc_inv [OF p i])
  let ?pp = "par_procs p ! i" and ?q = "bcastTurn i (par_procs p ! i) a p"
  let ?pp' = "?pp\<lparr>pp_accept := None, pp_next := pp_next ?pp + pp_numProcessors ?pp\<rparr>"
  have core: "pp_numProcessors ?pp = of_nat n" "0 < unat (pp_next ?pp)" "unat (pp_next ?pp) mod n = i"
      "acc_Slot a = pp_next ?pp" "unat (pp_next ?pp) \<le> length vs"
      "case pp_msg ?pp of None \<Rightarrow> True | Some m \<Rightarrow> unat (upTo m) \<le> length vs"
    using p i a by (auto simp: par_inv_def core_inv_def pp_core_def)
  have "unat (pp_next ?pp + of_nat n) = unat (pp_next ?pp) + n"
    using core(5) room by (simp add: unat_word_ariths unat_of_nat)
  then show "core_inv n (length vs) i (pp_core ?pp')"
    using core i by (simp add: core_inv_def pp_core_def)
  have acc: "accepts ?q = accepts p @ [a]" by (simp add: bcastTurn_def accepts_def)
  show "own n j (accepts ?q) @ in_hand (par_procs ?q ! j) = own n j ds" if "j < n" for j
  proof (cases "j = i")
    case True
    have "own n i (accepts p) @ in_hand ?pp = own n i ds" using p i by (simp add: par_inv_def)
    moreover have "in_hand ?pp = [a]" "in_hand (par_procs ?q ! i) = []"
      using a i p by (simp_all add: in_hand_def bcastTurn_def par_inv_def)
    moreover have "own n i (accepts ?q) = own n i (accepts p) @ [a]" using core by (simp add: acc own_def)
    ultimately show ?thesis using True by simp
  next
    case False
    have "own n j (accepts p) @ in_hand (par_procs p ! j) = own n j ds" using p that by (simp add: par_inv_def)
    moreover have "own n j (accepts ?q) = own n j (accepts p)" using core False by (simp add: acc own_def)
    ultimately show ?thesis using False by (simp add: bcastTurn_def)
  qed
qed (simp_all add: bcastTurn_def coming_def a)

lemma dequeue_turn_inv:
  assumes p: "par_inv n vs ds p" and i: "i < n" and msg: "pp_msg (par_procs p ! i) = Some msg"
    and free: "pp_accept (par_procs p ! i) = None" and le: "pp_next (par_procs p ! i) \<le> upTo msg"
    and room: "length vs + n < 2 ^ 64"
  shows "\<exists>p' acc. dequeueTurn i (par_procs p ! i) msg p = Inr p' \<and> par_inv n vs (ds @ [acc]) p'"
proof -
  let ?pp = "par_procs p ! i" and ?x = "pp_next (par_procs p ! i)"
  have len: "length (par_procs p) = n" "0 < n" using p by (simp_all add: par_inv_def)
  note left = queue_not_empty [OF p i msg free le]
  then obtain v queue where queue: "par_reqQueue p = v # queue" by (auto simp: neq_Nil_conv)
  define acc where "acc = \<lparr>acc_ID = pp_proposerID ?pp, acc_Slot = ?x, acc_Rnd = sa_crnd msg, acc_Val = v\<rparr>"
  define q where "q = p\<lparr>par_reqQueue := queue, par_procs := (par_procs p)[i := ?pp\<lparr>pp_accept := Some acc\<rparr>]\<rparr>"
  have k: "pp_numProcessors ?pp = of_nat n" using p i by (auto simp: par_inv_def core_inv_def pp_core_def)
  have "unat (?x + of_nat n) = unat ?x + n" using left room by (simp add: unat_word_ariths unat_of_nat)
  then have grow: "?x < ?x + of_nat n" using len by (simp add: word_less_nat_alt)
  have proc: "par_procs q ! j = (if j = i then ?pp\<lparr>pp_accept := Some acc\<rparr> else par_procs p ! j)" if "j < n" for j
    using that len by (simp add: q_def nth_list_update)
  have core: "core_inv n (length vs) j (pp_core (par_procs q ! j))" if "j < n" for j
    using p that left msg by (auto simp: proc par_inv_def core_inv_def pp_core_def acc_def)
  have come: "coming (par_procs p ! j) \<le> coming (par_procs q ! j)" if "j < n" for j
    using that free grow k by (auto simp: proc coming_def)
  have old: "a \<in> set ds \<Longrightarrow> acc_Slot a < coming (par_procs p ! (unat (acc_Slot a) mod n))" for a
    using p by (auto simp: par_inv_def slots_inv_def)
  have "?x \<notin> acc_Slot ` set ds" using old left free by (force simp: coming_def)
  moreover have "acc_Slot a < coming (par_procs q ! (unat (acc_Slot a) mod n))" if a: "a \<in> set (ds @ [acc])" for a
  proof (cases "a = acc")
    case True
    then show ?thesis using left grow k i by (simp add: acc_def proc coming_def)
  next
    case False
    then have "a \<in> set ds" using a by simp
    then show ?thesis using old [of a] come [of "unat (acc_Slot a) mod n"] len by auto
  qed
  ultimately have slots: "slots_inv n (length vs) (ds @ [acc]) (par_procs q)"
    using p left by (auto simp: par_inv_def slots_inv_def acc_def)
  have hand: "own n j (accepts q) @ in_hand (par_procs q ! j) = own n j (ds @ [acc])" if "j < n" for j
  proof -
    have "own n j (accepts p) @ in_hand (par_procs p ! j) = own n j ds" using p that by (simp add: par_inv_def)
    moreover have "accepts q = accepts p" by (simp add: q_def accepts_def)
    ultimately show ?thesis using free left that by (auto simp: proc in_hand_def own_def acc_def)
  qed
  have "map acc_Val (ds @ [acc]) @ par_reqQueue q = vs"
    using p queue by (simp add: par_inv_def) (simp add: q_def acc_def)
  then have "par_inv n vs (ds @ [acc]) q"
    using p core hand slots len unfolding par_inv_def by (simp add: q_def)
  moreover have "dequeueTurn i ?pp msg p = Inr q" using queue by (simp add: dequeueTurn_def q_def acc_def Let_def)
  ultimately show ?thesis by blast
qed

lemma turn_inv:
  assumes p: "par_inv n vs ds p" and i: "i < n" and room: "length vs + n < 2 ^ 64"
  shows "\<exists>p' ds'. SendAccepts_turn i p = Inr p' \<and> par_inv n vs ds' p'"
proof -
  let ?pp = "par_procs p ! i"
  have len: "length (par_procs p) = n" "i < length (par_procs p)" using p i by (auto simp: par_inv_def)
  show ?thesis
  proof (cases "pp_msg ?pp")
    case None
    then show ?thesis using p len by (intro exI [of _ p] exI [of _ ds]) (simp add: SendAccepts_turn_def)
  next
    case msg: (Some msg)
    show ?thesis
    proof (cases "pp_accept ?pp")
      case (Some a)
      then show ?thesis using bcast_turn_inv [OF p i Some room] msg len by (auto simp: SendAccepts_turn_def)
    next
      case None
      show ?thesis
      proof (cases "pp_next ?pp \<le> upTo msg")
        case True
        then show ?thesis
          using dequeue_turn_inv [OF p i msg None True room] msg None len by (auto simp: SendAccepts_turn_def)
      next
        case False
        then show ?thesis using end_turn_inv [OF p i None] msg None len by (auto simp: SendAccepts_turn_def)
      qed
    qed
  qed
qed

section \<open>Runs\<close>

lemma par_step_inv:
  assumes p: "par_inv n vs ds p" and step: "par_step gm e p = Inr p'" and room: "Suc (length vs) + n < 2 ^ 64"
  shows "\<exists>ws ds. par_inv n (vs @ ws) ds p' \<and> (ws = [] \<or> e = PPRequest (hd ws) \<and> length ws = 1)"
proof -
  have same: "par_inv n vs ds' p' \<Longrightarrow> ?thesis" for ds' by (intro exI [of _ "[]"] exI [of _ ds']) simp
  have len: "length vs < 2 ^ 64" using room by simp
  show ?thesis
  proof (cases e)
    case (PPRequest v)
    then show ?thesis
      using request_inv [OF p, of v] room step by (auto simp: algebra_simps)
  next
    case (PPPromise m)
    with step show ?thesis using same [of ds] promise_inv [OF p len] by simp
  next
    case (PPDecided s)
    with step show ?thesis using same [of ds] decided_inv [OF p] by simp
  next
    case (PPAdvance k)
    have "par_inv n vs ds (p\<lparr>par_advance := x\<rparr>)" for x
      using p by (rule par_inv_frame) (auto simp: accepts_def)
    note adv = advance_inv [OF this len]
    with step PPAdvance show ?thesis using same [of ds] p by (cases "k < length (par_advance p)") auto
  next
    case (PPTrust i)
    with step show ?thesis using same [of ds] trust_inv [OF p] by auto
  next
    case PPTick
    with step show ?thesis using same [of ds] p startPhase1_inv [OF p] by (auto simp: demuxerHandlePhaseTick_def split: if_splits)
  next
    case (PPTake k)
    with step show ?thesis using same [of ds] take_inv [OF p] by auto
  next
    case (PPTurn i)
    have "length (par_procs p) = n" using p by (simp add: par_inv_def)
    moreover obtain p1 ds1 where "SendAccepts_turn i p = Inr p1 \<and> par_inv n vs ds1 p1" if "i < n"
      using turn_inv [OF p, of i] room by (metis Suc_lessD add_Suc)
    ultimately show ?thesis
      using step PPTurn same [of ds1] same [of ds] p by (auto split: if_splits)
  qed
qed

lemma par_run_inv:
  assumes "par_inv n vs ds p" and "par_run gm es p = Inr p'" and "length vs + length es + n < 2 ^ 64"
  shows "\<exists>ws ds. par_inv n (vs @ ws) ds p' \<and> subseq ws (requests es)"
  using assms
proof (induction es arbitrary: vs ds p)
  case Nil
  then show ?case by (intro exI [of _ "[]"] exI [of _ ds]) simp
next
  case (Cons e es)
  obtain p1 where p1: "par_step gm e p = Inr p1" "par_run gm es p1 = Inr p'"
    using Cons.prems(2) by (auto simp: bind_result_Inr_iff)
  obtain ws ds1 where ws: "par_inv n (vs @ ws) ds1 p1" "ws = [] \<or> e = PPRequest (hd ws) \<and> length ws = 1"
    using par_step_inv [OF Cons.prems(1) p1(1)] Cons.prems(3) by auto
  then have "length (vs @ ws) + length es + n < 2 ^ 64" using Cons.prems(3) by auto
  from Cons.IH [OF ws(1) p1(2) this] obtain ws' ds2
    where ws': "par_inv n (vs @ ws @ ws') ds2 p'" "subseq ws' (requests es)"
    by auto
  have "requests (e # es) = requests [e] @ requests es" by (simp add: requests_def)
  moreover have "subseq ws (requests [e])" using ws(2) by (cases ws) (auto simp: requests_def)
  ultimately have "subseq (ws @ ws') (requests (e # es))" using ws'(2) by (simp add: list_emb_append_mono)
  with ws'(1) show ?case by (intro exI [of _ "ws @ ws'"] exI [of _ ds2]) simp
qed

lemma aduLoop_start: "0 < n \<Longrightarrow> aduLoop n 0 0 = Some n"
  using aduLoop.simps [of n 0 0] aduLoop.simps [of n 0 n] by (auto simp: word_gt_0)

lemma startProcessors_start:
  assumes "0 < par_numProcessors p" and "par_adu p = 0" and "k \<le> unat (par_numProcessors p)"
  shows "\<exists>pps. startProcessors k p = Inr pps \<and> length pps = k \<and>
    (\<forall>i<k. pp_core (pps ! i) = (par_numProcessors p, if i = 0 then par_numProcessors p else of_nat i, None, None))"
  using assms(3)
proof (induction k)
  case (Suc k)
  then obtain pps where pps: "startProcessors k p = Inr pps" "length pps = k"
      "\<forall>i<k. pp_core (pps ! i) = (par_numProcessors p, if i = 0 then par_numProcessors p else of_nat i, None, None)"
    by auto
  have "(of_nat k :: 64 word) = 0 \<longleftrightarrow> k = 0"
  proof -
    have "unat (par_numProcessors p) < 2 ^ LENGTH(64)" by (rule unsigned_less)
    then show ?thesis using Suc.prems by (simp add: word_unat_eq_iff unat_of_nat)
  qed
  then obtain pp where "startProcessor (of_nat k) p = Inr pp"
      "pp_core pp = (par_numProcessors p, if k = 0 then par_numProcessors p else of_nat k, None, None)"
    using assms(1,2) by (auto simp: startProcessor_def aduLoop_start pp_core_def Let_def)
  with pps show ?case by (auto simp: nth_append less_Suc_eq)
qed simp

lemma par_Start_inv:
  assumes "NewParallelProposer i r ld (int n) alph = Inr p0" and "par_Start p0 = Inr p"
    and n: "0 < n" "n < 2 ^ 64"
  shows "par_inv n [] [] p"
proof -
  have p0: "par_numProcessors p0 = of_nat n" "par_adu p0 = 0" "par_next p0 = 1" "par_reqQueueLength p0 = 0"
      "par_sendAccepts p0 = []" "par_bcast p0 = []" "par_reqQueue p0 = []"
    using assms(1) by (auto simp: NewParallelProposer_def split: if_splits)
  have un: "unat (of_nat n :: 64 word) = n" using n(2) by (simp add: unat_of_nat)
  have "0 < par_numProcessors p0" using n(1) un by (simp add: p0 word_less_nat_alt)
  from startProcessors_start [OF this p0(2), of n] obtain pps where
      pps: "startProcessors n p0 = Inr pps" "length pps = n"
        "\<forall>i<n. pp_core (pps ! i) = (of_nat n, if i = 0 then of_nat n else of_nat i, None, None)"
    using un p0(1) by auto
  then have "p = p0\<lparr>par_started := True, par_procs := pps\<rparr>"
    using assms(2) un by (simp add: par_Start_def p0)
  moreover have "core_inv n 0 i (pp_core (pps ! i))" if "i < n" for i
    using pps(3) that n un by (auto simp: core_inv_def unat_of_nat)
  ultimately show ?thesis
    using pps(2,3) n(1) by (simp add: par_inv_def slots_inv_def accepts_def own_def in_hand_def pp_core_def p0)
qed

lemma subseq_mset: "subseq xs ys \<Longrightarrow> mset xs \<subseteq># mset ys"
  by (induction rule: list_emb.induct) (auto intro: subset_mset.order_trans)

lemma distinct_submset:
  assumes "mset xs \<subseteq># mset ys" and "distinct ys"
  shows "distinct xs"
proof -
  obtain zs where "mset ys = mset (xs @ zs)" using assms(1) ex_mset by (metis mset_append subset_mset.le_iff_add)
  then have "distinct (xs @ zs)" using assms(2) mset_eq_imp_distinct_iff by blast
  then show ?thesis by simp
qed

lemma own_subset:
  assumes "0 < n" and "\<And>i. i < n \<Longrightarrow> own n i as @ hs i = own n i ds"
  shows "mset as \<subseteq># mset ds"
proof (rule mset_subset_eqI)
  fix a :: Accept
  let ?i = "unat (acc_Slot a) mod n"
  have own: "count (mset xs) a = count (mset (own n ?i xs)) a" for xs :: "Accept list" by (simp add: own_def)
  have "mset (own n ?i as) \<subseteq># mset (own n ?i ds)"
    using assms(2) [of ?i] assms(1) by (metis mod_less_divisor mset_append mset_subset_eq_add_left)
  then show "count (mset as) a \<le> count (mset ds) a"
    unfolding own [of as] own [of ds] by (rule mset_subset_eq_count)
qed

text \<open>
  C34. Whatever the order in which the demultiplexer and the processors take their turns, and other
  processors come between taking a value from the queue and sending the accept for it: a processor that is
  told to send accepts never finds the request queue empty (its panic is never met); no slot gets two
  accepts, and the slots are from 1 to the number of requests; every request is proposed at most once; and
  each processor proposes the requests it takes in the order in which they came. The number of events and
  processors stays below \<open>2 ^ 64\<close>.
\<close>

theorem parallel_proposer_sends:
  assumes "NewParallelProposer i r ld (int n) alph = Inr p0" and "par_Start p0 = Inr p1"
    and "par_run gm es p1 = Inr p" and "0 < n" and "length es + n + 1 < 2 ^ 64"
  shows "par_step gm (PPTurn k) p \<noteq> Fault (Panic msg) \<and> distinct (map acc_Slot (accepts p)) \<and>
    (\<forall>a\<in>set (accepts p). 0 < unat (acc_Slot a) \<and> unat (acc_Slot a) \<le> length (requests es)) \<and>
    mset (map acc_Val (accepts p)) \<subseteq># mset (requests es) \<and>
    (\<forall>i<n. subseq (map acc_Val (own n i (accepts p))) (requests es))"
proof -
  have "par_inv n [] [] p1" using par_Start_inv [OF assms(1,2)] assms(4,5) by simp
  from par_run_inv [OF this assms(3)] obtain vs ds where p: "par_inv n vs ds p" and vs: "subseq vs (requests es)"
    using assms(5) by auto
  then have eq: "map acc_Val ds @ par_reqQueue p = vs" and len: "length (par_procs p) = n"
    by (simp_all add: par_inv_def)
  have len_vs: "length vs \<le> length (requests es)" using vs by (rule list_emb_length)
  have "length (requests es) \<le> length es"
    by (induction es) (auto simp: requests_def split: par_event.splits)
  then have "length vs + n < 2 ^ 64" using len_vs assms(5) by simp
  then have turn: "par_step gm (PPTurn k) p \<noteq> Fault (Panic msg)"
    using turn_inv [OF p, of k] len by auto
  have sub: "mset (accepts p) \<subseteq># mset ds"
    by (rule own_subset [OF assms(4), of _ "\<lambda>i. in_hand (par_procs p ! i)"]) (use p in \<open>unfold par_inv_def, blast\<close>)
  have "distinct (map acc_Slot ds)" using p by (simp add: par_inv_def slots_inv_def)
  then have distinct: "distinct (map acc_Slot (accepts p))"
    using image_mset_subseteq_mono [OF sub, of acc_Slot] distinct_submset by (metis mset_map)
  have slots: "0 < unat (acc_Slot a) \<and> unat (acc_Slot a) \<le> length (requests es)" if "a \<in> set (accepts p)" for a
  proof -
    have "a \<in> set ds" using that mset_subset_eqD [OF sub] by simp
    then show ?thesis using p len_vs by (fastforce simp: par_inv_def slots_inv_def)
  qed
  have ds: "subseq (map acc_Val ds) (requests es)"
    using vs prefix_imp_subseq [of "map acc_Val ds" vs] subseq_order.order_trans unfolding eq [symmetric] by auto
  have vals: "mset (map acc_Val (accepts p)) \<subseteq># mset (requests es)"
    using image_mset_subseteq_mono [OF sub, of acc_Val] subseq_mset [OF ds] by (auto intro: subset_mset.order_trans)
  have "subseq (map acc_Val (own n i (accepts p))) (requests es)" if "i < n" for i
  proof -
    have "own n i (accepts p) @ in_hand (par_procs p ! i) = own n i ds" using p that by (simp add: par_inv_def)
    then have "subseq (own n i (accepts p)) (own n i ds)" by (metis prefixI prefix_imp_subseq)
    also have "subseq (own n i ds) ds" by (simp add: own_def)
    finally show ?thesis using subseq_map [of _ ds acc_Val] ds subseq_order.order_trans by blast
  qed
  then show ?thesis using turn distinct slots vals by blast
qed

section \<open>Concrete runs\<close>

definition started :: "nat \<Rightarrow> ParallelProposer result" where
  "started n = bind_result (NewParallelProposer (ID 0 0) True (ID 0 0) (int n) 3) par_Start"

definition someProposerEvents :: "par_event list" where
  "someProposerEvents =
     [PPTick, PPRequest appValue, PPRequest zeroValue,
      PPPromise \<lparr>prom_ID = ID 0 0, prom_Rnd = NextRound (NewProposerRound (ID 0 0)), prom_AccSlots = [],
        prom_EpochVector = []\<rparr>,
      PPTake 0, PPTake 0, PPTurn 0, PPTurn 1, PPTurn 1, PPTurn 0, PPTurn 0]"

text \<open>The first request is taken first and proposed last: another processor comes in between.\<close>

lemma some_proposer_run:
  "case bind_result (started 2) (par_run oneGrpMgr someProposerEvents) of
     Inl e \<Rightarrow> False
   | Inr p \<Rightarrow> map acc_Slot (accepts p) = [1, 2] \<and> map acc_Val (accepts p) = [zeroValue, appValue]"
  by code_simp

text \<open>
  Three processors have decided nothing; the decision of slot 2 makes the proposer believe that
  all slots up to 2 are decided, slot 1 included.
\<close>

lemma adu_overtakes:
  "case bind_result (started 3) (par_run oneGrpMgr [PPDecided 2, PPAdvance 0]) of
     Inl e \<Rightarrow> False
   | Inr p \<Rightarrow> par_adu p = 2 \<and> pp_slots (par_procs p ! 1) 1 = None"
  by code_simp

text \<open>A slot decided before its predecessor is not passed when the predecessor is decided.\<close>

lemma adu_stays_behind:
  "case bind_result (started 2) (par_run oneGrpMgr [PPDecided 1, PPDecided 5, PPDecided 3]) of
     Inl e \<Rightarrow> False
   | Inr p \<Rightarrow> pp_adu (par_procs p ! 1) = 3 \<and>
       map_option psl_Decided (pp_slots (par_procs p ! 1) 5) = Some True"
  by code_simp

text \<open>Of two votes for a slot, the value of the lower round is kept.\<close>

lemma lower_round_wins:
  "let accslot = \<lambda>r v. \<lparr>as_ID = 1, VRnd = Round r (ID 0 0), VVal = v\<rparr>;
       prom = \<lambda>r v. Some \<lparr>prom_ID = ID 0 0, prom_Rnd = Round 9 (ID 0 0), prom_AccSlots = [accslot r v],
         prom_EpochVector = []\<rparr>
   in case started 2 of
        Inl e \<Rightarrow> False
      | Inr p \<Rightarrow>
          map_option (map_option acc_Val \<circ> psl_Proposal)
            (pp_slots (ProcessPromises [prom 5 zeroValue, prom 7 appValue] (par_procs p ! 1)) 1) =
          Some (Some zeroValue)"
  by code_simp

theorem parallel_proposer_sends_witness:
  "case bind_result (started 2) (par_run oneGrpMgr someProposerEvents) of
     Inl e \<Rightarrow> False
   | Inr p \<Rightarrow> distinct (map acc_Slot (accepts p)) \<and>
       mset (map acc_Val (accepts p)) \<subseteq># mset (requests someProposerEvents) \<and>
       subseq (map acc_Val (own 2 1 (accepts p))) (requests someProposerEvents)"
proof -
  obtain p0 p1 p where run: "NewParallelProposer (ID 0 0) True (ID 0 0) (int 2) 3 = Inr p0"
      "par_Start p0 = Inr p1" "par_run oneGrpMgr someProposerEvents p1 = Inr p"
    using some_proposer_run by (auto simp: started_def bind_result_def split: sum.splits)
  then have "bind_result (started 2) (par_run oneGrpMgr someProposerEvents) = Inr p"
    by (simp add: started_def)
  moreover have "length someProposerEvents + 2 + 1 < 2 ^ 64" by (simp add: someProposerEvents_def)
  ultimately show ?thesis
    using parallel_proposer_sends [OF run] by (simp del: mset_map)
qed

end
