(* ===== verification/BroadcastAuth.thy ===== *)
theory BroadcastAuth
  imports PaxosData GoMaps
begin

text \<open>
  What the two Byzantine broadcast packages share, each with a copy of its own
  (\<open>src/authenticatedbc/\<close>, \<open>src/reliablebc/\<close>): message authentication codes (\<open>authmanager.go\<close>), the
  sliding window of rounds (\<open>roundstorage.go\<close>, \<open>astorage.go\<close>, \<open>lstorage.go\<close>), the messages and the
  count of equal hashes. The keyed hash (HMAC with SHA-1) is an argument of what uses it: nothing
  proved here depends on which function it is.
\<close>

section \<open>Message authentication codes\<close>

type_synonym bytes = "8 word list"
type_synonym keyed_hash = "bytes \<Rightarrow> bytes \<Rightarrow> bytes"

record AuthManager =
  au_ID :: gid
  Keys :: "int \<rightharpoonup> bytes"

text \<open>\<open>strconv.AppendInt(b, i, 10)\<close> appends the decimal digits of \<open>i\<close>.\<close>

fun digits :: "nat \<Rightarrow> bytes" where
  "digits n = (if n < 10 then [of_nat (48 + n)] else digits (n div 10) @ [of_nat (48 + n mod 10)])"

declare digits.simps [simp del]

definition AppendInt :: "bytes \<Rightarrow> int \<Rightarrow> bytes" where
  "AppendInt b i = b @ (if i < 0 then [45] else []) @ digits (nat \<bar>i\<bar>)"

text \<open>A nil slice and an empty one are not told apart by \<open>hmac.Equal\<close>.\<close>

definition generateMAC :: "keyed_hash \<Rightarrow> AuthManager \<Rightarrow> gid \<Rightarrow> bytes \<Rightarrow> 64 word \<Rightarrow> bytes" where
  "generateMAC hmac au destID value rnd =
     (if PxInt destID = PxInt (au_ID au) then []
      else
        let msg = AppendInt value (sint rnd);
            key = (case Keys au (PxInt destID) of None \<Rightarrow> [] | Some k \<Rightarrow> k)
        in hmac key msg)"

definition checkMAC :: "keyed_hash \<Rightarrow> AuthManager \<Rightarrow> gid \<Rightarrow> bytes \<Rightarrow> bytes \<Rightarrow> 64 word \<Rightarrow> bool" where
  "checkMAC hmac au senderID received value rnd \<longleftrightarrow> received = generateMAC hmac au senderID value rnd"

text \<open>Little endian.\<close>

definition hashToBytes :: "32 word \<Rightarrow> bytes" where
  "hashToBytes h = map (\<lambda>i. ucast (drop_bit (8 * i) h)) [0..<4]"

text \<open>
  The code of a message names the receiver and the sender by their Paxos id alone, and a replica
  accepts the empty code of any message that claims to be its own.
\<close>

lemma checkMAC_ignores_epoch:
  "checkMAC hmac au (ID px e) m v r = checkMAC hmac au (ID px e') m v r"
  by (simp add: checkMAC_def generateMAC_def PxInt_def)

lemma checkMAC_own: "PxInt i = PxInt (au_ID au) \<Longrightarrow> checkMAC hmac au i m v r \<longleftrightarrow> m = []"
  by (simp add: checkMAC_def generateMAC_def)

lemma checkMAC_generateMAC:
  assumes "Keys a (PxInt (au_ID b)) = Keys b (PxInt (au_ID a))"
  shows "checkMAC hmac b (au_ID a) (generateMAC hmac a (au_ID b) v r) v r"
  using assms by (simp add: checkMAC_def generateMAC_def eq_commute)

section \<open>Messages\<close>

record Publish =
  pub_ID :: gid
  pub_Rnd :: "64 word"
  pub_Val :: Value
  pub_Hmac :: bytes

text \<open>
  Forwards, prepares and commits have the same four fields. \<open>CommitA\<close> is the commit for acceptors,
  \<open>Commit\<close> the one for learners.
\<close>

record HashMsg =
  hm_ID :: gid
  hm_Hash :: "32 word"
  hm_Rnd :: "64 word"
  hm_Hmac :: bytes

type_synonym Forward = HashMsg
type_synonym BcPrepare = HashMsg
type_synonym CommitA = HashMsg
type_synonym Commit = HashMsg

record DcdRnd =
  dcd_Rnd :: "64 word"

record ValReq =
  vreq_Rnd :: "64 word"

record ValResp =
  vresp_Rnd :: "64 word"
  vresp_Val :: Value

datatype bc_msg =
    BMPublish Publish
  | BMForward Forward
  | BMPrepare BcPrepare
  | BMCommitA CommitA
  | BMCommit Commit
  | BMDcdRnd DcdRnd
  | BMValReq ValReq
  | BMValResp ValResp

section \<open>The window of rounds\<close>

record 'a storage =
  st_rounds :: "'a list"
  st_min :: "64 word"
  st_length :: "64 word"

definition NewStorage :: "'a \<Rightarrow> 64 word \<Rightarrow> 'a storage" where
  "NewStorage blank n = \<lparr>st_rounds = replicate (unat n) blank, st_min = 0, st_length = n\<rparr>"

definition reSlice :: "'a \<Rightarrow> 'a storage \<Rightarrow> 'a storage" where
  "reSlice blank s =
     (let i = st_length s div 3
      in s\<lparr>st_rounds := drop (unat i) (st_rounds s) @ replicate (unat i) blank,
           st_min := st_min s + i\<rparr>)"

text \<open>\<open>Get\<close> returns a pointer: the round, and the window in which to write it back.\<close>

definition GetRound :: "'a \<Rightarrow> 64 word \<Rightarrow> 'a storage \<Rightarrow> ('a \<times> 'a storage) result" where
  "GetRound blank rnd s =
     (let s = (if rnd \<ge> st_min s + st_length s then reSlice blank s else s)
      in bind_result (index (st_rounds s) (uint (rnd - st_min s))) (\<lambda>r. Ok (r, s)))"

definition PutRound :: "64 word \<Rightarrow> 'a \<Rightarrow> 'a storage \<Rightarrow> 'a storage" where
  "PutRound rnd r s = s\<lparr>st_rounds := (st_rounds s)[unat (rnd - st_min s) := r]\<rparr>"

definition IsValid :: "64 word \<Rightarrow> 'a storage \<Rightarrow> bool" where
  "IsValid rnd s \<longleftrightarrow> rnd \<ge> st_min s"

subsection \<open>What the window holds\<close>

definition wf_storage :: "'a storage \<Rightarrow> bool" where
  "wf_storage s \<longleftrightarrow> length (st_rounds s) = unat (st_length s)"

text \<open>The round \<open>r\<close> as the window knows it; rounds outside of it are blank.\<close>

definition round_at :: "'a \<Rightarrow> 'a storage \<Rightarrow> 64 word \<Rightarrow> 'a" where
  "round_at blank s r =
     (if st_min s \<le> r \<and> unat (r - st_min s) < length (st_rounds s)
      then st_rounds s ! unat (r - st_min s) else blank)"

definition covers :: "'a storage \<Rightarrow> 64 word \<Rightarrow> bool" where
  "covers s r \<longleftrightarrow> st_min s \<le> r \<and> unat (r - st_min s) < length (st_rounds s)"

text \<open>No round above \<open>B\<close> was asked for, and \<open>B\<close> stays away from the greatest word.\<close>

definition window_ok :: "nat \<Rightarrow> 'a storage \<Rightarrow> bool" where
  "window_ok B s \<longleftrightarrow> wf_storage s \<and> unat (st_min s) \<le> B \<and> B + 2 * unat (st_length s) < 2 ^ 64"

lemma window_ok_New: "2 * unat n + B < 2 ^ 64 \<Longrightarrow> window_ok B (NewStorage blank n)"
  by (simp add: window_ok_def wf_storage_def NewStorage_def)

lemma round_at_New [simp]: "round_at blank (NewStorage blank n) r = blank"
  by (simp add: round_at_def NewStorage_def)

lemma round_at_covers: "round_at blank s r = (if covers s r then st_rounds s ! unat (r - st_min s) else blank)"
  by (simp add: round_at_def covers_def)

lemma word_offset:
  fixes r m :: "64 word"
  shows "m \<le> r \<Longrightarrow> unat (r - m) = unat r - unat m"
  by (simp add: unat_sub)

lemma reSlice_simps:
  assumes "window_ok B s"
  shows "st_length (reSlice blank s) = st_length s"
    and "unat (st_min (reSlice blank s)) = unat (st_min s) + unat (st_length s) div 3"
    and "wf_storage (reSlice blank s)"
proof -
  let ?i = "st_length s div 3"
  have i: "unat ?i = unat (st_length s) div 3" by (simp add: unat_div)
  show "st_length (reSlice blank s) = st_length s" by (simp add: reSlice_def Let_def)
  have "unat (st_min s + ?i) = unat (st_min s) + unat ?i"
    using assms i div_le_dividend [of "unat (st_length s)" 3]
    by (intro unat_add_lem [THEN iffD1]) (auto simp: window_ok_def)
  then show "unat (st_min (reSlice blank s)) = unat (st_min s) + unat (st_length s) div 3"
    by (simp add: reSlice_def Let_def i)
  show "wf_storage (reSlice blank s)"
    using assms i by (simp add: window_ok_def wf_storage_def reSlice_def Let_def)
qed

lemma round_at_reSlice:
  assumes ok: "window_ok B s" and q: "st_min (reSlice blank s) \<le> q"
  shows "round_at blank (reSlice blank s) q = round_at blank s q"
proof -
  let ?i = "unat (st_length s) div 3" and ?n = "unat (st_length s)"
  note rs = reSlice_simps [OF ok, of blank]
  have len: "length (st_rounds s) = ?n" using ok by (simp add: window_ok_def wf_storage_def)
  have le: "st_min s \<le> q" and big: "unat (st_min s) + ?i \<le> unat q"
    using q rs(2) by (auto simp: word_le_nat_alt)
  have off: "unat (q - st_min s) = unat q - unat (st_min s)"
      "unat (q - st_min (reSlice blank s)) = unat q - unat (st_min s) - ?i"
    using word_offset [OF le] word_offset [OF q] rs(2) by simp_all
  have rounds: "st_rounds (reSlice blank s) = drop ?i (st_rounds s) @ replicate ?i blank"
    by (simp add: reSlice_def Let_def unat_div)
  define j where "j = unat q - unat (st_min s) - ?i"
  have j: "unat q - unat (st_min s) = ?i + j" using big by (simp add: j_def)
  have "round_at blank (reSlice blank s) q = (if j < ?n then (drop ?i (st_rounds s) @ replicate ?i blank) ! j else blank)"
    using q len by (simp add: round_at_def off rounds j_def)
  also have "\<dots> = (if ?i + j < ?n then st_rounds s ! (?i + j) else blank)"
    using len by (auto simp: nth_append intro!: nth_replicate)
  also have "\<dots> = round_at blank s q" using le len j by (simp add: round_at_def off)
  finally show ?thesis .
qed

lemma GetRound_ok:
  assumes ok: "window_ok B s" and r: "unat r \<le> B" and get: "GetRound blank r s = Inr (x, s')"
  shows "window_ok B s' \<and> covers s' r \<and> x = round_at blank s' r \<and> st_length s' = st_length s \<and>
    st_min s \<le> st_min s' \<and> (\<forall>q. st_min s' \<le> q \<longrightarrow> round_at blank s' q = round_at blank s q)"
proof -
  have s': "s' = (if r \<ge> st_min s + st_length s then reSlice blank s else s)"
      and x: "unat (r - st_min s') < length (st_rounds s')"
        "x = st_rounds s' ! unat (r - st_min s')"
    using get by (auto simp: GetRound_def Let_def bind_result_Inr_iff index_Inr_iff)
  note rs = reSlice_simps [OF ok, of blank]
  have sum: "unat (st_min s + st_length s) = unat (st_min s) + unat (st_length s)"
    using ok by (intro unat_add_lem [THEN iffD1]) (simp add: window_ok_def)
  have wf: "wf_storage s'" "st_length s' = st_length s"
    using ok rs by (auto simp: s' window_ok_def)
  have min: "unat (st_min s') \<le> B \<and> st_min s \<le> st_min s' \<and>
      (\<forall>q. st_min s' \<le> q \<longrightarrow> round_at blank s' q = round_at blank s q)"
    using ok r rs sum round_at_reSlice [OF ok, of blank]
    by (auto simp: s' window_ok_def word_le_nat_alt)
  note off = x(1)
  have "st_min s' \<le> r"
  proof (rule ccontr)
    assume "\<not> st_min s' \<le> r"
    then have "r < st_min s'" by simp
    then have "unat (r - st_min s') = 2 ^ 64 + unat r - unat (st_min s')"
      by (simp add: unat_sub_if' word_less_nat_alt)
    moreover have "unat (st_min s') + unat (st_length s') < 2 ^ 64"
      using ok min wf(2) by (simp add: window_ok_def)
    ultimately show False using off wf by (simp add: wf_storage_def)
  qed
  then have cov: "covers s' r" using off by (simp add: covers_def)
  then have "x = round_at blank s' r" using x(2) by (simp add: round_at_covers)
  with cov min wf ok show ?thesis by (simp add: window_ok_def)
qed

lemma GetRound_not_Diverges: "GetRound blank r s = Inl e \<Longrightarrow> e \<noteq> Diverges"
  by (auto simp: GetRound_def Let_def index_def split: if_splits)

lemma PutRound_at:
  assumes "covers s r"
  shows "round_at blank (PutRound r y s) q = (if q = r then y else round_at blank s q)"
proof -
  have "unat (q - st_min s) \<noteq> unat (r - st_min s)" if "q \<noteq> r" using that by (simp add: word_unat_eq_iff [symmetric])
  then show ?thesis
    using assms by (auto simp: round_at_def covers_def PutRound_def)
qed

lemma PutRound_simps [simp]:
  "st_min (PutRound r y s) = st_min s" "st_length (PutRound r y s) = st_length s"
  "covers (PutRound r y s) q = covers s q" "window_ok B (PutRound r y s) = window_ok B s"
  by (simp_all add: PutRound_def covers_def window_ok_def wf_storage_def)

lemma PutRound_here: "covers s r \<Longrightarrow> round_at blank (PutRound r y s) r = y"
  by (simp add: PutRound_at)

section \<open>Counting hashes\<close>

text \<open>\<open>m := make(map[uint32]uint)\<close>, filled with \<open>m[h]++\<close> for each message.\<close>

definition countHashes :: "32 word list \<Rightarrow> (32 word, 64 word) gomap" where
  "countHashes hs = fold (\<lambda>h m. put h (at0 0 m h + 1) m) hs []"

definition enoughEqual :: "64 word \<Rightarrow> 32 word list \<Rightarrow> bool" where
  "enoughEqual limit hs = list_ex (\<lambda>(h, v). v > limit) (countHashes hs)"

lemma countHashes_wf: "wf_gomap (countHashes hs)"
proof -
  have "wf_gomap m \<Longrightarrow> wf_gomap (fold (\<lambda>h m. put h (at0 0 m h + 1) m) hs m)" for m
    by (induction hs arbitrary: m) auto
  from this [OF wf_gomap_Nil] show ?thesis by (simp add: countHashes_def)
qed

lemma countHashes_at: "at0 0 (countHashes hs) h = of_nat (count_list hs h)"
proof -
  have "at0 0 (fold (\<lambda>h m. put h (at0 0 m h + 1) m) hs m) h = at0 0 m h + of_nat (count_list hs h)" for m
    by (induction hs arbitrary: m) (auto simp: at0_def algebra_simps)
  from this [of "[]"] show ?thesis by (simp add: countHashes_def at0_def)
qed

lemma enoughEqual_iff:
  assumes "length hs < 2 ^ 64"
  shows "enoughEqual limit hs \<longleftrightarrow> (\<exists>h. count_list hs h > unat limit)"
proof -
  have le: "count_list hs h < 2 ^ 64" for h using assms count_le_length [of hs h] by simp
  have "enoughEqual limit hs \<longleftrightarrow> (\<exists>h v. lookup (countHashes hs) h = Some v \<and> v > limit)"
    using lookup_iff [OF countHashes_wf] by (auto simp: enoughEqual_def list_ex_iff)
  also have "\<dots> \<longleftrightarrow> (\<exists>h. at0 0 (countHashes hs) h > limit)"
    by (auto simp: at0_def split: option.splits)
  also have "\<dots> \<longleftrightarrow> (\<exists>h. count_list hs h > unat limit)"
    using le by (simp add: countHashes_at word_less_nat_alt unat_of_nat)
  finally show ?thesis .
qed

text \<open>One direction needs no bound: a counter that wrapped around is smaller than the count.\<close>

lemma enoughEqual_count:
  assumes "enoughEqual limit hs"
  shows "\<exists>h. count_list hs h > unat limit"
proof -
  obtain h v where "lookup (countHashes hs) h = Some v" "limit < v"
    using assms lookup_iff [OF countHashes_wf] by (auto simp: enoughEqual_def list_ex_iff)
  then have "limit < of_nat (count_list hs h)"
    using countHashes_at [of hs h] by (simp add: at0_def)
  then have "unat limit < unat (of_nat (count_list hs h) :: 64 word)" by (simp add: word_less_nat_alt)
  also have "\<dots> \<le> count_list hs h" by (simp add: unat_of_nat)
  finally show ?thesis by blast
qed

lemma set_put_new:
  assumes "lookup m k = None" and "wf_gomap m"
  shows "set (put k v m) = insert (k, v) (set m)"
proof -
  have "(j, w) \<in> set (put k v m) \<longleftrightarrow> (j, w) = (k, v) \<or> (j, w) \<in> set m" for j w
    using assms lookup_iff [of "put k v m" j w] lookup_iff [of m j w] by (auto split: if_splits)
  then show ?thesis by (auto simp: set_eq_iff)
qed

text \<open>Among messages stored one per sender, a count is a number of senders.\<close>

lemma count_senders:
  assumes "wf_gomap m"
  shows "count_list (map (\<lambda>(i, f). g f) m) h = card {i. \<exists>f. (i, f) \<in> set m \<and> g f = h}"
  using assms
proof (induction m)
  case (Cons x m)
  obtain i f where x: "x = (i, f)" by (cases x)
  let ?S = "\<lambda>m. {i. \<exists>f. (i, f) \<in> set m \<and> g f = h}"
  have "i \<notin> fst ` set m" using Cons.prems x by (simp add: wf_gomap_def)
  then have new: "i \<notin> ?S m" by force
  have fin: "finite (?S m)" by (rule finite_subset [of _ "fst ` set m"]) force+
  have "?S (x # m) = (if g f = h then insert i (?S m) else ?S m)" by (auto simp: x)
  then show ?case using Cons.IH Cons.prems new fin by (auto simp: x wf_gomap_def)
qed simp

text \<open>More than \<open>k\<close> senders of messages in \<open>ms\<close> agree on the hash \<open>h\<close> for the round \<open>r\<close>.\<close>

definition senders :: "HashMsg set \<Rightarrow> 64 word \<Rightarrow> 32 word \<Rightarrow> gid set" where
  "senders ms r h = {i. \<exists>m\<in>ms. hm_ID m = i \<and> hm_Rnd m = r \<and> hm_Hash m = h}"

lemma senders_subset: "senders ms r h \<subseteq> hm_ID ` ms"
  by (auto simp: senders_def)

lemma senders_mono: "ms \<subseteq> ms' \<Longrightarrow> senders ms r h \<subseteq> senders ms' r h"
  by (auto simp: senders_def)

lemma enoughEqual_senders:
  assumes enough: "enoughEqual limit (map (\<lambda>(i, m). hm_Hash m) votes)" and wf: "wf_gomap votes"
    and votes: "\<forall>(i, m)\<in>set votes. m \<in> ms \<and> hm_ID m = i \<and> hm_Rnd m = r" and fin: "finite (hm_ID ` ms)"
  shows "\<exists>h. unat limit < card (senders ms r h)"
proof -
  obtain h where h: "unat limit < count_list (map (\<lambda>(i, m). hm_Hash m) votes) h"
    using enoughEqual_count [OF enough] by blast
  let ?I = "{i. \<exists>m. (i, m) \<in> set votes \<and> hm_Hash m = h}"
  have "?I \<subseteq> senders ms r h" using votes by (fastforce simp: senders_def)
  then have "card ?I \<le> card (senders ms r h)" using finite_subset [OF senders_subset fin] by (rule card_mono [rotated])
  then show ?thesis using h count_senders [OF wf, of hm_Hash h] by (intro exI [of _ h]) simp
qed

text \<open>With at most \<open>f\<close> faulty senders, more than \<open>2 * f\<close> senders include more than \<open>f\<close> correct ones.\<close>

lemma correct_senders:
  assumes "finite F" and "card F \<le> f" and "2 * f < card I"
  shows "f < card (I - F)"
proof -
  have "card I - card F \<le> card (I - F)" using assms(1) by (rule diff_card_le_card_Diff)
  then show ?thesis using assms(2,3) by linarith
qed

end
