(* ===== verification/AuthBroadcast.thy ===== *)
theory AuthBroadcast
  imports BroadcastAuth
begin

text \<open>
  Authenticated broadcast (\<open>src/authenticatedbc/\<close>): the publisher sends each value to all acceptors,
  an acceptor forwards its hash to all learners, and a learner that holds enough forwards with one
  hash asks its own acceptor for the value. What is written to the network is the list of packets,
  oldest first.
\<close>

section \<open>The state of a round\<close>

text \<open>A nil map is one without entries: only its length and its keys are looked at.\<close>

record Round =
  rd_RndID :: "64 word"
  Forwards :: "(gid, Forward) gomap"
  rd_Decided :: bool
  rd_SntReq :: bool
  rd_Learned :: bool
  rd_Val :: Value

definition zeroRound :: Round where
  "zeroRound = \<lparr>rd_RndID = 0, Forwards = [], rd_Decided = False, rd_SntReq = False,
     rd_Learned = False, rd_Val = zeroValue\<rparr>"

abbreviation getRound :: "64 word \<Rightarrow> Round storage \<Rightarrow> (Round \<times> Round storage) result" where
  "getRound \<equiv> GetRound zeroRound"

text \<open>The length of the window that both actors choose.\<close>

definition windowLength :: "64 word \<Rightarrow> 64 word" where
  "windowLength alph = (alph + 10) * 3"

section \<open>The acceptor\<close>

record AuthAcceptor =
  aa_id :: gid
  aa_rounds :: "Round storage"
  aa_actors :: "gid list"
  aa_authmgr :: AuthManager
  aa_ucast :: "(gid \<times> bc_msg) list"

definition NewAuthAcceptor :: "gid \<Rightarrow> 64 word \<Rightarrow> gid list \<Rightarrow> AuthManager \<Rightarrow> AuthAcceptor" where
  "NewAuthAcceptor i alph acceptorIDs authmgr =
     \<lparr>aa_id = i, aa_rounds = NewStorage zeroRound (windowLength alph), aa_actors = acceptorIDs,
      aa_authmgr = authmgr, aa_ucast = []\<rparr>"

definition aa_send :: "gid \<Rightarrow> bc_msg \<Rightarrow> AuthAcceptor \<Rightarrow> AuthAcceptor" where
  "aa_send i msg a = a\<lparr>aa_ucast := aa_ucast a @ [(i, msg)]\<rparr>"

definition createForward :: "Publish \<Rightarrow> AuthAcceptor \<Rightarrow> Forward result" where
  "createForward msg a =
     bind_result (Value_Hash (pub_Val msg)) (\<lambda>hash.
       Ok \<lparr>hm_ID = aa_id a, hm_Hash = hash, hm_Rnd = pub_Rnd msg, hm_Hmac = []\<rparr>)"

definition handlePublish ::
  "keyed_hash \<Rightarrow> Publish \<Rightarrow> AuthAcceptor \<Rightarrow> (Forward option \<times> AuthAcceptor) result" where
  "handlePublish hmac msg a =
     bind_result (Value_Hash (pub_Val msg)) (\<lambda>hash.
       if \<not> checkMAC hmac (aa_authmgr a) (pub_ID msg) (pub_Hmac msg) (hashToBytes hash) (pub_Rnd msg)
       then Ok (None, a)
       else bind_result (getRound (pub_Rnd msg) (aa_rounds a)) (\<lambda>(round, rounds).
         let a = a\<lparr>aa_rounds := rounds\<rparr>
         in if \<not> IsValid (pub_Rnd msg) rounds then Ok (None, a)
            else
              let a = a\<lparr>aa_rounds := PutRound (pub_Rnd msg)
                    (round\<lparr>rd_RndID := pub_Rnd msg, rd_Val := pub_Val msg\<rparr>) rounds\<rparr>
              in bind_result (createForward msg a) (\<lambda>fwd. Ok (Some fwd, a))))"

definition sendForward :: "keyed_hash \<Rightarrow> Forward \<Rightarrow> AuthAcceptor \<Rightarrow> AuthAcceptor" where
  "sendForward hmac msg a =
     fold (\<lambda>i a. aa_send i (BMForward \<lparr>hm_ID = aa_id a, hm_Hash = hm_Hash msg, hm_Rnd = hm_Rnd msg,
       hm_Hmac = generateMAC hmac (aa_authmgr a) i (hashToBytes (hm_Hash msg)) (hm_Rnd msg)\<rparr>) a)
       (aa_actors a) a"

text \<open>The address of a field is never nil, so the test for a stored value always finds one.\<close>

definition getValue :: "64 word \<Rightarrow> AuthAcceptor \<Rightarrow> (Value \<times> AuthAcceptor) result" where
  "getValue rnd a =
     bind_result (getRound rnd (aa_rounds a)) (\<lambda>(_, rounds).
       bind_result (getRound rnd rounds) (\<lambda>(round, rounds).
         Ok (rd_Val round, a\<lparr>aa_rounds := rounds\<rparr>)))"

definition sendVal :: "64 word \<Rightarrow> AuthAcceptor \<Rightarrow> AuthAcceptor result" where
  "sendVal rnd a =
     bind_result (getValue rnd a) (\<lambda>(val, a).
       Ok (aa_send (aa_id a) (BMValResp \<lparr>vresp_Rnd = rnd, vresp_Val = val\<rparr>) a))"

datatype aa_event = AAPublish Publish | AAValReq ValReq

fun aa_step :: "keyed_hash \<Rightarrow> aa_event \<Rightarrow> AuthAcceptor \<Rightarrow> AuthAcceptor result" where
  "aa_step hmac (AAPublish publish) a =
     bind_result (handlePublish hmac publish a) (\<lambda>(fwd, a).
       Ok (case fwd of None \<Rightarrow> a | Some f \<Rightarrow> sendForward hmac f a))"
| "aa_step hmac (AAValReq req) a = sendVal (vreq_Rnd req) a"

section \<open>The learner\<close>

record AuthLearner =
  al_id :: gid
  al_nAcceptors :: "64 word"
  al_nFaulty :: "64 word"
  al_rounds :: "Round storage"
  maxlearned :: "64 word"
  al_alpha :: "64 word"
  al_actors :: "gid list"
  al_authmgr :: AuthManager
  al_ucast :: "(gid \<times> bc_msg) list"
  al_dcdChan :: "Value list"
  al_started :: bool

definition NewAuthLearner ::
  "gid \<Rightarrow> 64 word \<Rightarrow> 64 word \<Rightarrow> gid list \<Rightarrow> AuthManager \<Rightarrow> AuthLearner" where
  "NewAuthLearner i nrAcc alph acceptorIDs authmgr =
     \<lparr>al_id = i, al_nAcceptors = nrAcc, al_nFaulty = (nrAcc - 1) div 3,
      al_rounds = NewStorage zeroRound (windowLength alph), maxlearned = 0, al_alpha = alph,
      al_actors = acceptorIDs, al_authmgr = authmgr, al_ucast = [], al_dcdChan = [],
      al_started = False\<rparr>"

definition al_send :: "gid \<Rightarrow> bc_msg \<Rightarrow> AuthLearner \<Rightarrow> AuthLearner" where
  "al_send i msg l = l\<lparr>al_ucast := al_ucast l @ [(i, msg)]\<rparr>"

definition compareForwards :: "(gid, Forward) gomap \<Rightarrow> AuthLearner \<Rightarrow> bool" where
  "compareForwards forwards l = enoughEqual (2 * al_nFaulty l) (map (\<lambda>(i, f). hm_Hash f) forwards)"

definition sendValReq :: "64 word \<Rightarrow> AuthLearner \<Rightarrow> AuthLearner" where
  "sendValReq rnd l = al_send (al_id l) (BMValReq \<lparr>vreq_Rnd = rnd\<rparr>) l"

definition initRound :: "64 word \<Rightarrow> Round \<Rightarrow> Round" where
  "initRound rnd r =
     (if length (Forwards r) = 0
      then r\<lparr>rd_RndID := rnd, Forwards := [], rd_Decided := False, rd_SntReq := False,
             rd_Learned := False\<rparr>
      else r)"

definition handleForward :: "keyed_hash \<Rightarrow> Forward \<Rightarrow> AuthLearner \<Rightarrow> (bool \<times> AuthLearner) result" where
  "handleForward hmac msg l =
     (if \<not> checkMAC hmac (al_authmgr l) (hm_ID msg) (hm_Hmac msg) (hashToBytes (hm_Hash msg)) (hm_Rnd msg)
      then Ok (False, l)
      else if \<not> IsValid (hm_Rnd msg) (al_rounds l) then Ok (False, l)
      else bind_result (getRound (hm_Rnd msg) (al_rounds l)) (\<lambda>(rnd, rounds).
        let rnd = initRound (hm_Rnd msg) rnd
        in if rd_Decided rnd then Ok (False, l\<lparr>al_rounds := PutRound (hm_Rnd msg) rnd rounds\<rparr>)
           else if lookup (Forwards rnd) (hm_ID msg) \<noteq> None
           then Ok (False, l\<lparr>al_rounds := PutRound (hm_Rnd msg) rnd rounds\<rparr>)
           else
             let rnd = rnd\<lparr>Forwards := put (hm_ID msg) msg (Forwards rnd)\<rparr>;
                 rnd = rnd\<lparr>rd_Decided := compareForwards (Forwards rnd) l\<rparr>;
                 l = (if rd_Decided rnd \<and> \<not> rd_SntReq rnd then sendValReq (hm_Rnd msg) l else l);
                 rnd = (if rd_Decided rnd \<and> \<not> rd_SntReq rnd then rnd\<lparr>rd_SntReq := True\<rparr> else rnd)
             in Ok (True, l\<lparr>al_rounds := PutRound (hm_Rnd msg) rnd rounds\<rparr>)))"

definition storeVal :: "ValResp \<Rightarrow> AuthLearner \<Rightarrow> AuthLearner result" where
  "storeVal resp l =
     (if \<not> IsValid (vresp_Rnd resp) (al_rounds l) then Ok l
      else bind_result (getRound (vresp_Rnd resp) (al_rounds l)) (\<lambda>(r, rounds).
        let rounds = PutRound (vresp_Rnd resp) (r\<lparr>rd_Val := vresp_Val resp\<rparr>) rounds
        in bind_result (getRound (vresp_Rnd resp) rounds) (\<lambda>(r, rounds).
             Ok (l\<lparr>al_rounds := PutRound (vresp_Rnd resp) (r\<lparr>rd_Learned := True\<rparr>) rounds\<rparr>))))"

text \<open>\<open>for l.rounds.Get(rnd).Learned\<close>: every turn asks for the round twice.\<close>

partial_function (option) decideLoop :: "64 word \<Rightarrow> AuthLearner \<Rightarrow> AuthLearner result option" where
  "decideLoop rnd l =
     (case getRound rnd (al_rounds l) of
        Inl e \<Rightarrow> Some (Inl e)
      | Inr (r, rounds) \<Rightarrow>
          if \<not> rd_Learned r then Some (Ok (l\<lparr>al_rounds := rounds\<rparr>))
          else case getRound rnd rounds of
                 Inl e \<Rightarrow> Some (Inl e)
               | Inr (r, rounds) \<Rightarrow>
                   (case index (al_actors l) 0 of
                      Inl e \<Rightarrow> Some (Inl e)
                    | Inr publisher \<Rightarrow>
                        let l = l\<lparr>al_rounds := rounds, al_dcdChan := al_dcdChan l @ [rd_Val r]\<rparr>;
                            l = al_send publisher (BMDcdRnd \<lparr>dcd_Rnd = maxlearned l\<rparr>) l
                        in decideLoop (rnd + 1) (l\<lparr>maxlearned := maxlearned l + 1\<rparr>)))"

declare decideLoop.simps [code]

definition sendDecided :: "64 word \<Rightarrow> AuthLearner \<Rightarrow> AuthLearner result" where
  "sendDecided rnd l =
     (let run = (\<lambda>l. case decideLoop rnd l of None \<Rightarrow> Fault Diverges | Some r \<Rightarrow> r)
      in if maxlearned l + al_alpha l < rnd then run (l\<lparr>maxlearned := maxlearned l + 1\<rparr>)
         else if maxlearned l + 1 \<noteq> rnd then Ok l
         else run l)"

datatype al_event = ALForward Forward | ALValResp ValResp

fun al_step :: "keyed_hash \<Rightarrow> al_event \<Rightarrow> AuthLearner \<Rightarrow> AuthLearner result" where
  "al_step hmac (ALForward cmsg) l = bind_result (handleForward hmac cmsg l) (\<lambda>(_, l). Ok l)"
| "al_step hmac (ALValResp valresp) l = bind_result (storeVal valresp l) (sendDecided (vresp_Rnd valresp))"

fun al_run :: "keyed_hash \<Rightarrow> al_event list \<Rightarrow> AuthLearner \<Rightarrow> AuthLearner result" where
  "al_run hmac [] l = Ok l"
| "al_run hmac (e # es) l = bind_result (al_step hmac e l) (al_run hmac es)"

section \<open>The publisher\<close>

text \<open>\<open>failedReplicas\<close> is a variable of the package.\<close>

record AuthPublisher =
  ap_id :: gid
  ap_alpha :: "64 word"
  currentRnd :: "64 word"
  maxdecided :: "64 word"
  prevmaxdecided :: "64 word"
  ap_decided :: "64 word \<Rightarrow> 64 word"
  ap_actors :: "gid list"
  ap_authmgr :: AuthManager
  ap_ucast :: "(gid \<times> bc_msg) list"
  ap_nAcceptors :: "64 word"
  publishqueue :: "Value list"
  ap_started :: bool
  failedReplicas :: "64 word"

definition NewAuthPublisher ::
  "gid \<Rightarrow> 64 word \<Rightarrow> 64 word \<Rightarrow> gid list \<Rightarrow> AuthManager \<Rightarrow> AuthPublisher" where
  "NewAuthPublisher i nrAcc alph acceptorIDs authmgr =
     \<lparr>ap_id = i, ap_alpha = alph, currentRnd = 0, maxdecided = 0, prevmaxdecided = 0,
      ap_decided = (\<lambda>_. 0), ap_actors = acceptorIDs, ap_authmgr = authmgr, ap_ucast = [],
      ap_nAcceptors = nrAcc, publishqueue = [], ap_started = False, failedReplicas = 0\<rparr>"

text \<open>The payloads are random; they are the argument. \<open>reqType\<close> is \<open>Request_EXEC\<close>, \<open>seq\<close> stays 0.\<close>

definition generateRequests :: "bytes list \<Rightarrow> AuthPublisher \<Rightarrow> AuthPublisher" where
  "generateRequests payloads p =
     p\<lparr>publishqueue := publishqueue p @ map (\<lambda>b. \<lparr>Vt = App,
         Cr = [\<lparr>req_Type = Some 2, req_Id = Some ''GenericReq'', req_Seq = Some 0, req_Val = b\<rparr>],
         Rc = None\<rparr>) payloads\<rparr>"

definition ap_send :: "gid \<Rightarrow> bc_msg \<Rightarrow> AuthPublisher \<Rightarrow> AuthPublisher" where
  "ap_send i msg p = p\<lparr>ap_ucast := ap_ucast p @ [(i, msg)]\<rparr>"

fun sendPublishTo :: "keyed_hash \<Rightarrow> Publish \<Rightarrow> gid list \<Rightarrow> AuthPublisher \<Rightarrow> AuthPublisher result" where
  "sendPublishTo hmac msg [] p = Ok p"
| "sendPublishTo hmac msg (i # ids) p =
     bind_result (Value_Hash (pub_Val msg)) (\<lambda>hash.
       sendPublishTo hmac msg ids (ap_send i (BMPublish \<lparr>pub_ID = ap_id p, pub_Rnd = pub_Rnd msg,
         pub_Val = pub_Val msg,
         pub_Hmac = generateMAC hmac (ap_authmgr p) i (hashToBytes hash) (pub_Rnd msg)\<rparr>) p))"

definition sendPublish :: "keyed_hash \<Rightarrow> Publish \<Rightarrow> AuthPublisher \<Rightarrow> AuthPublisher result" where
  "sendPublish hmac msg p = sendPublishTo hmac msg (ap_actors p) p"

text \<open>The fields that the composite literal leaves out are zero.\<close>

definition newPublish :: "64 word \<Rightarrow> Value \<Rightarrow> Publish" where
  "newPublish rnd val = \<lparr>pub_ID = ID 0 0, pub_Rnd = rnd, pub_Val = val, pub_Hmac = []\<rparr>"

fun publishLoop ::
  "keyed_hash \<Rightarrow> 64 word \<Rightarrow> 64 word \<Rightarrow> Value list \<Rightarrow> AuthPublisher \<Rightarrow> (64 word \<times> AuthPublisher) result" where
  "publishLoop hmac current to [] p = Ok (current, p\<lparr>publishqueue := []\<rparr>)"
| "publishLoop hmac current to (val # queue) p =
     (if current < to then
        bind_result (sendPublish hmac (newPublish current val) p) (publishLoop hmac (current + 1) to queue)
      else Ok (current, p\<lparr>publishqueue := val # queue\<rparr>))"

definition genPublish :: "keyed_hash \<Rightarrow> AuthPublisher \<Rightarrow> AuthPublisher result" where
  "genPublish hmac p =
     bind_result (publishLoop hmac (currentRnd p) (maxdecided p + ap_alpha p) (publishqueue p) p)
       (\<lambda>(current, p). Ok (p\<lparr>currentRnd := current\<rparr>))"

text \<open>What \<open>Start\<close> does at replica 0 before its loop, after the sleep.\<close>

definition ap_Start :: "keyed_hash \<Rightarrow> bytes list \<Rightarrow> AuthPublisher \<Rightarrow> AuthPublisher result" where
  "ap_Start hmac payloads p =
     (if ap_started p then Ok p
      else if PaxosID (ap_id p) = 0
      then genPublish hmac (generateRequests payloads (p\<lparr>ap_started := True\<rparr>))
      else Ok p)"

datatype ap_event = APDcdRnd DcdRnd | APTick

fun ap_step :: "keyed_hash \<Rightarrow> ap_event \<Rightarrow> AuthPublisher \<Rightarrow> AuthPublisher result" where
  "ap_step hmac (APDcdRnd drnd) p =
     (if dcd_Rnd drnd > maxdecided p then
        let r = dcd_Rnd drnd;
            p = p\<lparr>ap_decided := (ap_decided p)(r := ap_decided p r + 1)\<rparr>;
            p = (if ap_decided p r \<ge> ap_nAcceptors p - failedReplicas p then p\<lparr>maxdecided := r\<rparr> else p)
        in genPublish hmac p
      else Ok p)"
| "ap_step hmac APTick p =
     bind_result
       (if maxdecided p = prevmaxdecided p \<and> length (publishqueue p) \<noteq> 0
        then genPublish hmac (p\<lparr>maxdecided := maxdecided p + 1, failedReplicas := failedReplicas p + 1\<rparr>)
        else Ok p)
       (\<lambda>p. Ok (p\<lparr>prevmaxdecided := maxdecided p\<rparr>))"

fun ap_run :: "keyed_hash \<Rightarrow> ap_event list \<Rightarrow> AuthPublisher \<Rightarrow> AuthPublisher result" where
  "ap_run hmac [] p = Ok p"
| "ap_run hmac (e # es) p = bind_result (ap_step hmac e p) (ap_run hmac es)"

end
