(* ===== verification/RelBroadcast.thy ===== *)
theory RelBroadcast
  imports AuthBroadcast
begin

text \<open>
  Reliable broadcast (\<open>src/reliablebc/\<close>): Bracha's protocol. An acceptor prepares the hash of a
  published value, commits when it holds enough prepares or commits, and a learner that holds enough
  commits with one hash asks its own acceptor for the value. The publisher is that of authenticated
  broadcast, line for line, and so are the codes and the windows of rounds.
\<close>

section \<open>The acceptor\<close>

record AcceptorRound =
  ar_RndID :: "64 word"
  Prepares :: "(gid, BcPrepare) gomap"
  Commits :: "(gid, CommitA) gomap"
  SentPrepare :: bool
  SentCommit :: bool
  ar_Value :: Value

definition zeroAcceptorRound :: AcceptorRound where
  "zeroAcceptorRound = \<lparr>ar_RndID = 0, Prepares = [], Commits = [], SentPrepare = False,
     SentCommit = False, ar_Value = zeroValue\<rparr>"

abbreviation getAcceptorRound ::
  "64 word \<Rightarrow> AcceptorRound storage \<Rightarrow> (AcceptorRound \<times> AcceptorRound storage) result" where
  "getAcceptorRound \<equiv> GetRound zeroAcceptorRound"

record RelAcceptor =
  ra_id :: gid
  ra_nAcceptors :: "64 word"
  ra_nFaulty :: "64 word"
  ra_rounds :: "AcceptorRound storage"
  ra_actors :: "gid list"
  ra_authmgr :: AuthManager
  ra_ucast :: "(gid \<times> bc_msg) list"

definition NewRelAcceptor :: "gid \<Rightarrow> 64 word \<Rightarrow> 64 word \<Rightarrow> gid list \<Rightarrow> AuthManager \<Rightarrow> RelAcceptor" where
  "NewRelAcceptor i nrAcc alph acceptorIDs authmgr =
     \<lparr>ra_id = i, ra_nAcceptors = nrAcc, ra_nFaulty = (nrAcc - 1) div 3,
      ra_rounds = NewStorage zeroAcceptorRound (windowLength alph), ra_actors = acceptorIDs,
      ra_authmgr = authmgr, ra_ucast = []\<rparr>"

definition ra_send :: "gid \<Rightarrow> bc_msg \<Rightarrow> RelAcceptor \<Rightarrow> RelAcceptor" where
  "ra_send i msg a = a\<lparr>ra_ucast := ra_ucast a @ [(i, msg)]\<rparr>"

definition ra_createPrepare :: "Publish \<Rightarrow> RelAcceptor \<Rightarrow> BcPrepare result" where
  "ra_createPrepare msg a =
     bind_result (Value_Hash (pub_Val msg)) (\<lambda>hash.
       Ok \<lparr>hm_ID = ra_id a, hm_Hash = hash, hm_Rnd = pub_Rnd msg, hm_Hmac = []\<rparr>)"

definition ra_createCommit :: "64 word \<Rightarrow> 32 word \<Rightarrow> RelAcceptor \<Rightarrow> Commit" where
  "ra_createCommit rnd hash a = \<lparr>hm_ID = ra_id a, hm_Hash = hash, hm_Rnd = rnd, hm_Hmac = []\<rparr>"

definition ra_handlePublish ::
  "keyed_hash \<Rightarrow> Publish \<Rightarrow> RelAcceptor \<Rightarrow> (BcPrepare option \<times> RelAcceptor) result" where
  "ra_handlePublish hmac msg a =
     bind_result (Value_Hash (pub_Val msg)) (\<lambda>hash.
       if \<not> checkMAC hmac (ra_authmgr a) (pub_ID msg) (pub_Hmac msg) (hashToBytes hash) (pub_Rnd msg)
       then Ok (None, a)
       else if \<not> IsValid (pub_Rnd msg) (ra_rounds a) then Ok (None, a)
       else bind_result (getAcceptorRound (pub_Rnd msg) (ra_rounds a)) (\<lambda>(rnd, rounds).
         let rnd = rnd\<lparr>ar_RndID := pub_Rnd msg, ar_Value := pub_Val msg\<rparr>;
             a = a\<lparr>ra_rounds := PutRound (pub_Rnd msg) rnd rounds\<rparr>
         in if SentPrepare rnd then Ok (None, a)
            else bind_result (ra_createPrepare msg a) (\<lambda>prepare. Ok (Some prepare, a))))"

definition comparePrepares :: "(gid, BcPrepare) gomap \<Rightarrow> RelAcceptor \<Rightarrow> bool" where
  "comparePrepares prepares a = enoughEqual (2 * ra_nFaulty a) (map (\<lambda>(i, m). hm_Hash m) prepares)"

definition ra_compareCommits :: "(gid, CommitA) gomap \<Rightarrow> RelAcceptor \<Rightarrow> bool" where
  "ra_compareCommits commits a = enoughEqual (ra_nFaulty a) (map (\<lambda>(i, m). hm_Hash m) commits)"

text \<open>Both handlers start by initialising a round for which nothing was received.\<close>

definition initAcceptorRound :: "64 word \<Rightarrow> AcceptorRound \<Rightarrow> AcceptorRound" where
  "initAcceptorRound rnd r =
     (if length (Prepares r) = 0 \<and> length (Commits r) = 0
      then r\<lparr>ar_RndID := rnd, Prepares := [], Commits := [], SentPrepare := False, SentCommit := False\<rparr>
      else r)"

definition ra_handlePrepare ::
  "keyed_hash \<Rightarrow> BcPrepare \<Rightarrow> RelAcceptor \<Rightarrow> ((BcPrepare option \<times> Commit option) \<times> RelAcceptor) result" where
  "ra_handlePrepare hmac msg a =
     (if \<not> checkMAC hmac (ra_authmgr a) (hm_ID msg) (hm_Hmac msg) (hashToBytes (hm_Hash msg)) (hm_Rnd msg)
      then Ok ((None, None), a)
      else if \<not> IsValid (hm_Rnd msg) (ra_rounds a) then Ok ((None, None), a)
      else bind_result (getAcceptorRound (hm_Rnd msg) (ra_rounds a)) (\<lambda>(rnd, rounds).
        let rnd = initAcceptorRound (hm_Rnd msg) rnd;
            write = (\<lambda>rnd. a\<lparr>ra_rounds := PutRound (hm_Rnd msg) rnd rounds\<rparr>)
        in if SentCommit rnd then Ok ((None, None), write rnd)
           else if lookup (Prepares rnd) (hm_ID msg) \<noteq> None then Ok ((None, None), write rnd)
           else
             let rnd = rnd\<lparr>Prepares := put (hm_ID msg) msg (Prepares rnd)\<rparr>
             in if comparePrepares (Prepares rnd) a
                then
                  let prepare = (if \<not> SentPrepare rnd
                        then Some \<lparr>hm_ID = ra_id a, hm_Hash = hm_Hash msg, hm_Rnd = hm_Rnd msg, hm_Hmac = []\<rparr>
                        else None);
                      commit = ra_createCommit (hm_Rnd msg) (hm_Hash msg) a
                  in Ok ((prepare, Some commit), write rnd)
                else Ok ((None, None), write rnd)))"

definition ra_handleCommit ::
  "keyed_hash \<Rightarrow> CommitA \<Rightarrow> RelAcceptor \<Rightarrow> ((BcPrepare option \<times> Commit option) \<times> RelAcceptor) result" where
  "ra_handleCommit hmac msg a =
     (if \<not> checkMAC hmac (ra_authmgr a) (hm_ID msg) (hm_Hmac msg) (hashToBytes (hm_Hash msg)) (hm_Rnd msg)
      then Ok ((None, None), a)
      else if \<not> IsValid (hm_Rnd msg) (ra_rounds a) then Ok ((None, None), a)
      else bind_result (getAcceptorRound (hm_Rnd msg) (ra_rounds a)) (\<lambda>(rnd, rounds).
        let rnd = initAcceptorRound (hm_Rnd msg) rnd;
            write = (\<lambda>rnd. a\<lparr>ra_rounds := PutRound (hm_Rnd msg) rnd rounds\<rparr>)
        in if SentCommit rnd then Ok ((None, None), write rnd)
           else if lookup (Commits rnd) (hm_ID msg) \<noteq> None then Ok ((None, None), write rnd)
           else
             let rnd = rnd\<lparr>Commits := put (hm_ID msg) msg (Commits rnd)\<rparr>
             in if ra_compareCommits (Commits rnd) a
                then
                  let prepare = (if \<not> SentPrepare rnd
                        then Some \<lparr>hm_ID = ra_id a, hm_Hash = hm_Hash msg, hm_Rnd = hm_Rnd msg, hm_Hmac = []\<rparr>
                        else None);
                      commit = ra_createCommit (hm_Rnd msg) (hm_Hash msg) a
                  in Ok ((prepare, Some commit), write rnd)
                else Ok ((None, None), write rnd)))"

text \<open>
  An acceptor hands its own prepare to the handler and drops what the handler returns; so it does
  with its own commit.
\<close>

definition signed :: "keyed_hash \<Rightarrow> HashMsg \<Rightarrow> gid \<Rightarrow> RelAcceptor \<Rightarrow> HashMsg" where
  "signed hmac msg i a = \<lparr>hm_ID = ra_id a, hm_Hash = hm_Hash msg, hm_Rnd = hm_Rnd msg,
     hm_Hmac = generateMAC hmac (ra_authmgr a) i (hashToBytes (hm_Hash msg)) (hm_Rnd msg)\<rparr>"

fun sendPrepareTo :: "keyed_hash \<Rightarrow> BcPrepare \<Rightarrow> gid list \<Rightarrow> RelAcceptor \<Rightarrow> RelAcceptor result" where
  "sendPrepareTo hmac msg [] a = Ok a"
| "sendPrepareTo hmac msg (i # ids) a =
     (if i = ra_id a
      then bind_result (ra_handlePrepare hmac msg a) (\<lambda>(_, a). sendPrepareTo hmac msg ids a)
      else sendPrepareTo hmac msg ids (ra_send i (BMPrepare (signed hmac msg i a)) a))"

definition ra_sendPrepare :: "keyed_hash \<Rightarrow> BcPrepare \<Rightarrow> RelAcceptor \<Rightarrow> RelAcceptor result" where
  "ra_sendPrepare hmac msg a =
     bind_result (sendPrepareTo hmac msg (ra_actors a) a) (\<lambda>a.
       bind_result (getAcceptorRound (hm_Rnd msg) (ra_rounds a)) (\<lambda>(rnd, rounds).
         Ok (a\<lparr>ra_rounds := PutRound (hm_Rnd msg) (rnd\<lparr>SentPrepare := True\<rparr>) rounds\<rparr>)))"

fun sendCommitTo :: "keyed_hash \<Rightarrow> Commit \<Rightarrow> gid list \<Rightarrow> RelAcceptor \<Rightarrow> RelAcceptor result" where
  "sendCommitTo hmac msg [] a = Ok a"
| "sendCommitTo hmac msg (i # ids) a =
     (if i = ra_id a
      then bind_result (ra_handleCommit hmac (signed hmac msg i a) a) (\<lambda>(_, a).
        sendCommitTo hmac msg ids (ra_send i (BMCommit (signed hmac msg i a)) a))
      else sendCommitTo hmac msg ids
        (ra_send i (BMCommit (signed hmac msg i a)) (ra_send i (BMCommitA (signed hmac msg i a)) a)))"

definition ra_sendCommit :: "keyed_hash \<Rightarrow> Commit \<Rightarrow> RelAcceptor \<Rightarrow> RelAcceptor result" where
  "ra_sendCommit hmac msg a =
     bind_result (sendCommitTo hmac msg (ra_actors a) a) (\<lambda>a.
       bind_result (getAcceptorRound (hm_Rnd msg) (ra_rounds a)) (\<lambda>(rnd, rounds).
         Ok (a\<lparr>ra_rounds := PutRound (hm_Rnd msg) (rnd\<lparr>SentCommit := True\<rparr>) rounds\<rparr>)))"

definition getRndValue :: "64 word \<Rightarrow> RelAcceptor \<Rightarrow> (Value \<times> RelAcceptor) result" where
  "getRndValue rnd a =
     (if \<not> IsValid rnd (ra_rounds a) then Ok (zeroValue, a)
      else bind_result (getAcceptorRound rnd (ra_rounds a)) (\<lambda>(r, rounds).
        Ok (ar_Value r, a\<lparr>ra_rounds := rounds\<rparr>)))"

definition ra_sendVal :: "64 word \<Rightarrow> RelAcceptor \<Rightarrow> RelAcceptor result" where
  "ra_sendVal rnd a =
     bind_result (getRndValue rnd a) (\<lambda>(val, a).
       Ok (ra_send (ra_id a) (BMValResp \<lparr>vresp_Rnd = rnd, vresp_Val = val\<rparr>) a))"

datatype ra_event = RAPublish Publish | RAPrepare BcPrepare | RACommit CommitA | RAValReq ValReq

text \<open>What the loop does with the prepare and the commit of a handler.\<close>

definition ra_react ::
  "keyed_hash \<Rightarrow> BcPrepare option \<times> Commit option \<Rightarrow> RelAcceptor \<Rightarrow> RelAcceptor result" where
  "ra_react hmac pc a =
     bind_result (case fst pc of None \<Rightarrow> Ok a | Some prepare \<Rightarrow> ra_sendPrepare hmac prepare a) (\<lambda>a.
       case snd pc of None \<Rightarrow> Ok a | Some commit \<Rightarrow> ra_sendCommit hmac commit a)"

fun ra_step :: "keyed_hash \<Rightarrow> ra_event \<Rightarrow> RelAcceptor \<Rightarrow> RelAcceptor result" where
  "ra_step hmac (RAPublish publish) a =
     bind_result (ra_handlePublish hmac publish a) (\<lambda>(prepare, a). ra_react hmac (prepare, None) a)"
| "ra_step hmac (RAPrepare pmsg) a =
     bind_result (ra_handlePrepare hmac pmsg a) (\<lambda>(pc, a). ra_react hmac pc a)"
| "ra_step hmac (RACommit cmsg) a =
     bind_result (ra_handleCommit hmac cmsg a) (\<lambda>(pc, a). ra_react hmac pc a)"
| "ra_step hmac (RAValReq req) a = ra_sendVal (vreq_Rnd req) a"

fun ra_run :: "keyed_hash \<Rightarrow> ra_event list \<Rightarrow> RelAcceptor \<Rightarrow> RelAcceptor result" where
  "ra_run hmac [] a = Ok a"
| "ra_run hmac (e # es) a = bind_result (ra_step hmac e a) (ra_run hmac es)"

section \<open>The learner\<close>

text \<open>
  A learner has the fields of \<open>AuthLearner\<close>, and its rounds those of \<open>Round\<close>, with commits for forwards.
\<close>

type_synonym RelLearner = AuthLearner

definition NewRelLearner ::
  "gid \<Rightarrow> 64 word \<Rightarrow> 64 word \<Rightarrow> gid list \<Rightarrow> AuthManager \<Rightarrow> RelLearner" where
  "NewRelLearner i nrAcc alph acceptorIDs authmgr =
     \<lparr>al_id = i, al_nAcceptors = nrAcc, al_nFaulty = (nrAcc - 1) div 3,
      al_rounds = NewStorage zeroRound (windowLength alph), maxlearned = 0, al_alpha = alph,
      al_actors = acceptorIDs, al_authmgr = authmgr, al_ucast = [], al_dcdChan = [],
      al_started = False\<rparr>"

definition rl_compareCommits :: "(gid, Commit) gomap \<Rightarrow> RelLearner \<Rightarrow> bool" where
  "rl_compareCommits commits l = enoughEqual (2 * al_nFaulty l) (map (\<lambda>(i, m). hm_Hash m) commits)"

definition rl_sendValReq :: "64 word \<Rightarrow> RelLearner \<Rightarrow> RelLearner" where
  "rl_sendValReq rnd l = l\<lparr>al_ucast := al_ucast l @ [(al_id l, BMValReq \<lparr>vreq_Rnd = rnd\<rparr>)]\<rparr>"

definition rl_handleCommit :: "keyed_hash \<Rightarrow> Commit \<Rightarrow> RelLearner \<Rightarrow> (bool \<times> RelLearner) result" where
  "rl_handleCommit hmac msg l =
     (if \<not> checkMAC hmac (al_authmgr l) (hm_ID msg) (hm_Hmac msg) (hashToBytes (hm_Hash msg)) (hm_Rnd msg)
      then Ok (False, l)
      else if \<not> IsValid (hm_Rnd msg) (al_rounds l) then Ok (False, l)
      else bind_result (getRound (hm_Rnd msg) (al_rounds l)) (\<lambda>(rnd, rounds).
        let rnd = (if length (Forwards rnd) = 0
              then rnd\<lparr>rd_RndID := hm_Rnd msg, Forwards := [], rd_Decided := False, rd_SntReq := False,
                rd_Learned := False\<rparr>
              else rnd);
            write = (\<lambda>rnd l. l\<lparr>al_rounds := PutRound (hm_Rnd msg) rnd rounds\<rparr>)
        in if rd_Decided rnd then Ok (False, write rnd l)
           else if lookup (Forwards rnd) (hm_ID msg) \<noteq> None then Ok (False, write rnd l)
           else
             let rnd = rnd\<lparr>Forwards := put (hm_ID msg) msg (Forwards rnd)\<rparr>;
                 rnd = rnd\<lparr>rd_Decided := rl_compareCommits (Forwards rnd) l\<rparr>
             in if rd_Decided rnd \<and> \<not> rd_SntReq rnd
                then Ok (True, write (rnd\<lparr>rd_SntReq := True\<rparr>) (rl_sendValReq (hm_Rnd msg) l))
                else Ok (True, write rnd l)))"

definition rl_storeVal :: "ValResp \<Rightarrow> RelLearner \<Rightarrow> RelLearner result" where
  "rl_storeVal resp l =
     (if \<not> IsValid (vresp_Rnd resp) (al_rounds l) then Ok l
      else bind_result (getRound (vresp_Rnd resp) (al_rounds l)) (\<lambda>(r, rounds).
        let rounds = PutRound (vresp_Rnd resp) (r\<lparr>rd_Val := vresp_Val resp\<rparr>) rounds
        in bind_result (getRound (vresp_Rnd resp) rounds) (\<lambda>(r, rounds).
             Ok (l\<lparr>al_rounds := PutRound (vresp_Rnd resp) (r\<lparr>rd_Learned := True\<rparr>) rounds\<rparr>))))"

text \<open>The loop of \<open>sendDecided\<close> is that of authenticated broadcast.\<close>

definition rl_sendDecided :: "64 word \<Rightarrow> RelLearner \<Rightarrow> RelLearner result" where
  "rl_sendDecided rnd l =
     (let run = (\<lambda>l. case decideLoop rnd l of None \<Rightarrow> Fault Diverges | Some r \<Rightarrow> r)
      in if maxlearned l + al_alpha l < rnd then run (l\<lparr>maxlearned := maxlearned l + 1\<rparr>)
         else if maxlearned l + 1 \<noteq> rnd then Ok l
         else run l)"

datatype rl_event = RLCommit Commit | RLValResp ValResp

fun rl_step :: "keyed_hash \<Rightarrow> rl_event \<Rightarrow> RelLearner \<Rightarrow> RelLearner result" where
  "rl_step hmac (RLCommit cmsg) l = bind_result (rl_handleCommit hmac cmsg l) (\<lambda>(_, l). Ok l)"
| "rl_step hmac (RLValResp valresp) l = bind_result (rl_storeVal valresp l) (rl_sendDecided (vresp_Rnd valresp))"

fun rl_run :: "keyed_hash \<Rightarrow> rl_event list \<Rightarrow> RelLearner \<Rightarrow> RelLearner result" where
  "rl_run hmac [] l = Ok l"
| "rl_run hmac (e # es) l = bind_result (rl_step hmac e l) (rl_run hmac es)"

subsection \<open>It is the learner of authenticated broadcast\<close>

fun as_forward :: "rl_event \<Rightarrow> al_event" where
  "as_forward (RLCommit m) = ALForward m"
| "as_forward (RLValResp v) = ALValResp v"

lemma rl_handleCommit_eq: "rl_handleCommit hmac m l = handleForward hmac m l"
proof -
  have "rl_compareCommits fs l = compareForwards fs l" "rl_sendValReq r l = sendValReq r l" for fs r
    by (simp_all add: rl_compareCommits_def compareForwards_def rl_sendValReq_def sendValReq_def al_send_def)
  then show ?thesis
    by (auto simp: rl_handleCommit_def handleForward_def initRound_def Let_def bind_result_def split: sum.split)
qed

lemma rl_step_eq: "rl_step hmac e l = al_step hmac (as_forward e) l"
proof -
  have "rl_storeVal v l = storeVal v l" for v by (simp add: rl_storeVal_def storeVal_def)
  moreover have "rl_sendDecided r = sendDecided r" for r by (simp add: fun_eq_iff rl_sendDecided_def sendDecided_def)
  ultimately show ?thesis by (cases e) (simp_all add: rl_handleCommit_eq)
qed

lemma rl_run_eq: "rl_run hmac es l = al_run hmac (map as_forward es) l"
  by (induction es arbitrary: l) (auto simp: rl_step_eq intro: bind_result_cong)

lemma NewRelLearner_eq: "NewRelLearner i n alph ids au = NewAuthLearner i n alph ids au"
  by (simp add: NewRelLearner_def NewAuthLearner_def)

end
