(* ===== verification/AuthBroadcastRuns.thy ===== *)
theory AuthBroadcastRuns
  imports AuthBroadcast
begin

text \<open>
  What authenticated broadcast guarantees: a learner asks for the value of a round only with a
  Byzantine quorum of forwards of one hash, delivers the rounds in order, and the publisher sends
  each value once, in its own round, to all acceptors. And what its codes do not protect.
\<close>

section \<open>The learner\<close>

text \<open>\<open>fs\<close> are the forwards received with the right code, \<open>vs\<close> the answers of the acceptor.\<close>

definition round_ok :: "Forward set \<Rightarrow> ValResp set \<Rightarrow> 64 word \<Rightarrow> Round \<Rightarrow> bool" where
  "round_ok fs vs r x \<longleftrightarrow> wf_gomap (Forwards x) \<and>
     (\<forall>(i, m)\<in>set (Forwards x). m \<in> fs \<and> hm_ID m = i \<and> hm_Rnd m = r) \<and>
     (rd_Learned x \<longrightarrow> \<lparr>vresp_Rnd = r, vresp_Val = rd_Val x\<rparr> \<in> vs)"

definition forward_quorum :: "Forward set \<Rightarrow> nat \<Rightarrow> 64 word \<Rightarrow> bool" where
  "forward_quorum fs f r \<longleftrightarrow> (\<exists>h. 2 * f < card (senders fs r h))"

definition learner_ok :: "nat \<Rightarrow> Forward set \<Rightarrow> ValResp set \<Rightarrow> AuthLearner \<Rightarrow> bool" where
  "learner_ok B fs vs l \<longleftrightarrow> window_ok B (al_rounds l) \<and> finite fs \<and>
     unat (2 * al_nFaulty l) = 2 * unat (al_nFaulty l) \<and>
     (\<forall>r. st_min (al_rounds l) \<le> r \<longrightarrow> round_ok fs vs r (round_at zeroRound (al_rounds l) r)) \<and>
     (\<forall>v\<in>vs. Suc (unat (vresp_Rnd v)) \<le> B) \<and>
     (\<forall>i q. (i, BMValReq q) \<in> set (al_ucast l) \<longrightarrow> forward_quorum fs (unat (al_nFaulty l)) (vreq_Rnd q))"

lemma round_ok_zero: "round_ok fs vs r zeroRound"
  by (simp add: round_ok_def zeroRound_def)

lemma round_ok_mono: "round_ok fs vs r x \<Longrightarrow> fs \<subseteq> fs' \<Longrightarrow> vs \<subseteq> vs' \<Longrightarrow> round_ok fs' vs' r x"
  by (auto simp: round_ok_def)

lemma round_ok_init: "round_ok fs vs r x \<Longrightarrow> round_ok fs vs r (initRound r x)"
  by (auto simp: round_ok_def initRound_def)

lemma forward_quorum_mono:
  assumes "forward_quorum fs f r" and "fs \<subseteq> fs'" and "finite fs'"
  shows "forward_quorum fs' f r"
proof -
  have "finite (senders fs' r h)" for h using assms(3) by (rule finite_subset [OF senders_subset finite_imageI])
  then have "card (senders fs r h) \<le> card (senders fs' r h)" for h
    using senders_mono [OF assms(2)] by (rule card_mono)
  then show ?thesis using assms(1) unfolding forward_quorum_def by (meson less_le_trans)
qed

text \<open>What stays when a round is looked up, and when it is written back.\<close>

lemma learner_ok_get:
  assumes ok: "learner_ok B fs vs l" and r: "unat r \<le> B" and get: "getRound r (al_rounds l) = Inr (x, s)"
  shows "learner_ok B fs vs (l\<lparr>al_rounds := s\<rparr>) \<and> covers s r \<and> round_ok fs vs r x"
proof -
  have win: "window_ok B (al_rounds l)" using ok by (simp add: learner_ok_def)
  note g = GetRound_ok [OF win r get]
  then have *: "round_ok fs vs q (round_at zeroRound s q)" if "st_min s \<le> q" for q
    using ok that by (auto simp: learner_ok_def intro: order_trans)
  from this [of r] have "round_ok fs vs r x" using g by (simp add: covers_def)
  then show ?thesis using ok g * by (simp add: learner_ok_def)
qed

lemma learner_ok_put:
  assumes ok: "learner_ok B fs vs (l\<lparr>al_rounds := s\<rparr>)" and cov: "covers s r" and x: "round_ok fs vs r x"
  shows "learner_ok B fs vs (l\<lparr>al_rounds := PutRound r x s\<rparr>)"
  using ok x by (auto simp: learner_ok_def PutRound_at [OF cov])

lemma forward_quorumI:
  assumes "compareForwards fwds l" and "round_ok fs vs r x" and "Forwards x = fwds" and "finite fs"
    and "unat (2 * al_nFaulty l) = 2 * unat (al_nFaulty l)"
  shows "forward_quorum fs (unat (al_nFaulty l)) r"
  using enoughEqual_senders [of "2 * al_nFaulty l" fwds fs r] assms
  by (simp add: compareForwards_def round_ok_def forward_quorum_def)

text \<open>Fields of the learner that no handler of a forward or of a value changes.\<close>

definition same_frame :: "AuthLearner \<Rightarrow> AuthLearner \<Rightarrow> bool" where
  "same_frame l l' \<longleftrightarrow> al_nFaulty l' = al_nFaulty l \<and> maxlearned l' = maxlearned l \<and>
     al_alpha l' = al_alpha l \<and> al_authmgr l' = al_authmgr l \<and> al_actors l' = al_actors l \<and>
     al_dcdChan l' = al_dcdChan l"

lemma handleForward_ok:
  assumes ok: "learner_ok B fs vs l" and m: "unat (hm_Rnd m) \<le> B"
    and mac: "checkMAC hmac (al_authmgr l) (hm_ID m) (hm_Hmac m) (hashToBytes (hm_Hash m)) (hm_Rnd m) \<Longrightarrow> m \<in> fs"
    and run: "handleForward hmac m l = Inr (b, l')"
  shows "learner_ok B fs vs l' \<and> same_frame l l'"
proof (cases "checkMAC hmac (al_authmgr l) (hm_ID m) (hm_Hmac m) (hashToBytes (hm_Hash m)) (hm_Rnd m) \<and>
    IsValid (hm_Rnd m) (al_rounds l)")
  case False
  then show ?thesis using run ok by (auto simp: handleForward_def same_frame_def split: if_splits)
next
  case valid: True
  let ?r = "hm_Rnd m"
  obtain x s where get: "getRound ?r (al_rounds l) = Inr (x, s)"
    using run valid by (auto simp: handleForward_def bind_result_Inr_iff)
  note g = learner_ok_get [OF ok m get]
  define y where "y = initRound ?r x"
  have y: "round_ok fs vs ?r y" using g round_ok_init by (simp add: y_def)
  show ?thesis
  proof (cases "rd_Decided y \<or> lookup (Forwards y) (hm_ID m) \<noteq> None")
    case True
    then have "l' = l\<lparr>al_rounds := PutRound ?r y s\<rparr>"
      using run get valid by (auto simp: handleForward_def Let_def y_def split: if_splits)
    then show ?thesis using learner_ok_put [of B fs vs s l ?r y] g y by (simp add: same_frame_def)
  next
    case False
    define z where "z = y\<lparr>Forwards := put (hm_ID m) m (Forwards y), rd_Decided := compareForwards (put (hm_ID m) m (Forwards y)) l\<rparr>"
    have new: "lookup (Forwards y) (hm_ID m) = None" and wf: "wf_gomap (Forwards y)"
      using False y by (auto simp: round_ok_def)
    then have put: "set (put (hm_ID m) m (Forwards y)) = insert (hm_ID m, m) (set (Forwards y))"
      by (rule set_put_new)
    have z: "round_ok fs vs ?r z"
      using y mac valid put by (auto simp: round_ok_def z_def)
    define send where "send \<longleftrightarrow> rd_Decided z \<and> \<not> rd_SntReq z"
    define z' where "z' = (if send then z\<lparr>rd_SntReq := True\<rparr> else z)"
    define l1 where "l1 = (if send then sendValReq ?r l else l)"
    have l': "l' = l1\<lparr>al_rounds := PutRound ?r z' s\<rparr>"
      using run get False valid
      by (auto simp: handleForward_def Let_def z'_def l1_def send_def z_def simp flip: y_def)
    have "forward_quorum fs (unat (al_nFaulty l)) ?r" if send
      using that ok forward_quorumI [of "Forwards z" l fs vs ?r z] z
      by (simp add: send_def z_def learner_ok_def)
    then have "learner_ok B fs vs (l1\<lparr>al_rounds := s\<rparr>)"
      using g by (auto simp: learner_ok_def l1_def sendValReq_def al_send_def)
    moreover have "round_ok fs vs ?r z'" using z by (simp add: z'_def round_ok_def)
    ultimately show ?thesis
      using g learner_ok_put [of B fs vs s l1 ?r z'] by (simp add: l' same_frame_def l1_def sendValReq_def al_send_def)
  qed
qed

lemma storeVal_ok:
  assumes ok: "learner_ok B fs vs l" and v: "v \<in> vs" and run: "storeVal v l = Inr l'"
  shows "learner_ok B fs vs l' \<and> same_frame l l'"
proof (cases "IsValid (vresp_Rnd v) (al_rounds l)")
  case False
  then show ?thesis using run ok by (simp add: storeVal_def same_frame_def)
next
  case True
  let ?r = "vresp_Rnd v"
  have r: "unat ?r \<le> B" using ok v by (auto simp: learner_ok_def)
  obtain x s where get: "getRound ?r (al_rounds l) = Inr (x, s)"
    using run True by (auto simp: storeVal_def bind_result_Inr_iff)
  define x2 where "x2 = x\<lparr>rd_Val := vresp_Val v\<rparr>"
  obtain y s2 where get2: "getRound ?r (PutRound ?r x2 s) = Inr (y, s2)"
      and l': "l' = l\<lparr>al_rounds := PutRound ?r (y\<lparr>rd_Learned := True\<rparr>) s2\<rparr>"
    using run True get by (auto simp: storeVal_def bind_result_Inr_iff Let_def x2_def)
  note g = learner_ok_get [OF ok r get]
  have x2: "round_ok fs vs ?r x2" using g v by (cases v) (simp add: round_ok_def x2_def)
  let ?l = "l\<lparr>al_rounds := PutRound ?r x2 s\<rparr>"
  have l1: "learner_ok B fs vs ?l" using g x2 by (intro learner_ok_put) blast+
  have "getRound ?r (al_rounds ?l) = Inr (y, s2)" using get2 by simp
  note g2 = learner_ok_get [OF l1 r this]
  have win: "window_ok B (PutRound ?r x2 s)" using l1 by (simp add: learner_ok_def)
  have "y = x2"
    using GetRound_ok [OF win r get2] g by (simp add: PutRound_at covers_def)
  then have "round_ok fs vs ?r (y\<lparr>rd_Learned := True\<rparr>)" using g2 v by (cases v) (simp add: round_ok_def x2_def)
  moreover have "learner_ok B fs vs (l\<lparr>al_rounds := s2\<rparr>)" using g2 by simp
  ultimately have "learner_ok B fs vs l'" unfolding l' using g2 by (intro learner_ok_put) blast+
  then show ?thesis by (simp add: l' same_frame_def)
qed

text \<open>
  The answers delivered are those for the rounds 1, 2, and so on, as long as no answer is more than
  \<open>alpha\<close> rounds ahead.
\<close>

definition in_order :: "ValResp set \<Rightarrow> AuthLearner \<Rightarrow> bool" where
  "in_order vs l \<longleftrightarrow> unat (maxlearned l) = length (al_dcdChan l) \<and> Suc (length (al_dcdChan l)) < 2 ^ 64 \<and>
     (\<forall>j<length (al_dcdChan l). \<lparr>vresp_Rnd = of_nat (Suc j), vresp_Val = al_dcdChan l ! j\<rparr> \<in> vs)"

definition same_conf :: "AuthLearner \<Rightarrow> AuthLearner \<Rightarrow> bool" where
  "same_conf l l' \<longleftrightarrow> al_nFaulty l' = al_nFaulty l \<and> al_alpha l' = al_alpha l \<and>
     al_authmgr l' = al_authmgr l \<and> al_actors l' = al_actors l"

lemma same_frame_conf: "same_frame l l' \<Longrightarrow> same_conf l l'"
  by (simp add: same_frame_def same_conf_def)

lemma same_conf_trans: "same_conf l l' \<Longrightarrow> same_conf l' l'' \<Longrightarrow> same_conf l l''"
  by (simp add: same_conf_def)

lemma in_order_frame: "same_frame l l' \<Longrightarrow> in_order vs l' = in_order vs l"
  by (simp add: same_frame_def in_order_def)

lemma in_order_mono: "in_order vs l \<Longrightarrow> vs \<subseteq> vs' \<Longrightarrow> in_order vs' l"
  unfolding in_order_def by blast

lemma in_order_deliver:
  assumes ok: "in_order vs l" and v: "\<lparr>vresp_Rnd = maxlearned l + 1, vresp_Val = v\<rparr> \<in> vs"
    and big: "Suc (unat (maxlearned l + 1)) < 2 ^ 64"
    and l': "al_dcdChan l' = al_dcdChan l @ [v]" "maxlearned l' = maxlearned l + 1"
  shows "in_order vs l'"
proof -
  let ?n = "length (al_dcdChan l)"
  have m: "unat (maxlearned l) = ?n" and n: "Suc ?n < 2 ^ 64" using ok by (simp_all add: in_order_def)
  then have suc: "unat (maxlearned l + 1) = Suc ?n" by (simp add: unat_word_ariths)
  have "of_nat (unat (maxlearned l + 1)) = maxlearned l + 1" by simp
  then have "maxlearned l + 1 = of_nat (Suc ?n)" using suc by simp
  then have "\<lparr>vresp_Rnd = of_nat (Suc ?n), vresp_Val = v\<rparr> \<in> vs" using v by (simp only:)
  then have "\<forall>j<Suc ?n. \<lparr>vresp_Rnd = of_nat (Suc j), vresp_Val = al_dcdChan l' ! j\<rparr> \<in> vs"
    using ok l'(1) by (auto simp: in_order_def nth_append less_Suc_eq)
  then show ?thesis using suc big l' by (simp add: in_order_def)
qed

lemma decideLoop_ok:
  assumes "learner_ok B fs vs l" and "unat rnd \<le> B"
  shows "\<exists>r. decideLoop rnd l = Some r \<and> r \<noteq> Fault Diverges \<and>
    (\<forall>l'. r = Inr l' \<longrightarrow> learner_ok B fs vs l' \<and> same_conf l l' \<and>
      (rnd = maxlearned l + 1 \<longrightarrow> in_order vs l \<longrightarrow> in_order vs l'))"
  using assms
proof (induction "B - unat rnd" arbitrary: rnd l rule: less_induct)
  case less
  note ok = less.prems(1) and rnd = less.prems(2)
  consider (panic) e where "getRound rnd (al_rounds l) = Inl e"
    | (found) x s where "getRound rnd (al_rounds l) = Inr (x, s)"
    by (metis sum.exhaust surj_pair)
  then show ?case
  proof cases
    case panic
    then show ?thesis by (subst decideLoop.simps) (simp add: GetRound_not_Diverges)
  next
    case found
    note g = learner_ok_get [OF ok rnd found]
    show ?thesis
    proof (cases "rd_Learned x")
      case False
      then show ?thesis using found g by (subst decideLoop.simps) (simp add: same_conf_def in_order_def)
    next
      case True
      let ?ls = "l\<lparr>al_rounds := s\<rparr>"
      have ls: "learner_ok B fs vs ?ls" using g by blast
      consider (panic) e where "getRound rnd s = Inl e"
        | (nobody) y s2 where "getRound rnd s = Inr (y, s2)" "al_actors l = []"
        | (deliver) y s2 p ps where "getRound rnd s = Inr (y, s2)" "al_actors l = p # ps"
        by (metis sum.exhaust surj_pair list.exhaust)
      then show ?thesis
      proof cases
        case panic
        then show ?thesis using found True
          by (subst decideLoop.simps) (simp add: GetRound_not_Diverges)
      next
        case nobody
        then show ?thesis using found True by (subst decideLoop.simps) (simp add: index_def)
      next
        case deliver
        note g2 = learner_ok_get [OF ls rnd, simplified, OF deliver(1)]
        have win: "window_ok B (al_rounds ?ls)" using ls by (simp add: learner_ok_def)
        have "y = x"
          using GetRound_ok [OF win rnd, of zeroRound y s2] deliver(1) g GetRound_ok [OF _ rnd found] ok
          by (simp add: learner_ok_def covers_def)
        define l2 where "l2 = (al_send p (BMDcdRnd \<lparr>dcd_Rnd = maxlearned l\<rparr>)
            (l\<lparr>al_rounds := s2, al_dcdChan := al_dcdChan l @ [rd_Val y]\<rparr>))\<lparr>maxlearned := maxlearned l + 1\<rparr>"
        have step: "decideLoop rnd l = decideLoop (rnd + 1) l2"
          using found True deliver
          by (subst decideLoop.simps) (simp add: index_def l2_def al_send_def Let_def)
        have l2: "learner_ok B fs vs l2" "same_conf l l2"
          using g2 by (simp_all add: learner_ok_def l2_def al_send_def same_conf_def)
        have v: "\<lparr>vresp_Rnd = rnd, vresp_Val = rd_Val y\<rparr> \<in> vs"
          using g2 True \<open>y = x\<close> by (simp add: round_ok_def)
        then have Suc: "Suc (unat rnd) \<le> B" using ok by (auto simp: learner_ok_def)
        moreover have B: "B < 2 ^ 64" using ok by (simp add: learner_ok_def window_ok_def)
        ultimately have unat: "unat (rnd + 1) = Suc (unat rnd)" by (simp add: unat_word_ariths)
        have ord: "in_order vs l2" if "rnd = maxlearned l + 1" "in_order vs l"
          using in_order_deliver [OF that(2), of "rd_Val y" l2] v that(1) Suc B
          by (simp add: l2_def al_send_def)
        obtain r where r: "decideLoop (rnd + 1) l2 = Some r" "r \<noteq> Fault Diverges"
            "\<And>l'. r = Inr l' \<Longrightarrow> learner_ok B fs vs l' \<and> same_conf l2 l' \<and>
              (rnd + 1 = maxlearned l2 + 1 \<longrightarrow> in_order vs l2 \<longrightarrow> in_order vs l')"
          using less.hyps [of "rnd + 1" l2] l2 Suc unat by (metis diff_less_mono2 lessI less_le_trans)
        have "maxlearned l2 = rnd" if "rnd = maxlearned l + 1" using that by (simp add: l2_def)
        then have after: "in_order vs l'" if "r = Inr l'" "rnd = maxlearned l + 1" "in_order vs l" for l'
          using r(3) [OF that(1)] ord that(2,3) by simp
        show ?thesis
          using r l2(2) step after by (intro exI [of _ r] conjI allI impI) (auto intro: same_conf_trans)
      qed
    qed
  qed
qed

text \<open>One event, and a run.\<close>

lemma learner_ok_mono:
  assumes "learner_ok B fs vs l" and "fs \<subseteq> fs'" and "vs \<subseteq> vs'" and "finite fs'"
    and "\<forall>v\<in>vs'. Suc (unat (vresp_Rnd v)) \<le> B"
  shows "learner_ok B fs' vs' l"
  using assms unfolding learner_ok_def by (blast intro: round_ok_mono forward_quorum_mono)

lemma sendDecided_ok:
  assumes ok: "learner_ok B fs vs l" and rnd: "unat rnd \<le> B"
  shows "sendDecided rnd l \<noteq> Fault Diverges \<and> (\<forall>l'. sendDecided rnd l = Inr l' \<longrightarrow>
      learner_ok B fs vs l' \<and> same_conf l l' \<and>
      (\<not> maxlearned l + al_alpha l < rnd \<longrightarrow> in_order vs l \<longrightarrow> in_order vs l'))"
proof -
  have "learner_ok B fs vs (l\<lparr>maxlearned := maxlearned l + 1\<rparr>)" using ok by (simp add: learner_ok_def)
  note skip = decideLoop_ok [OF this rnd]
  note plain = decideLoop_ok [OF ok rnd]
  show ?thesis
    using skip plain ok by (auto simp: sendDecided_def Let_def same_conf_def)
qed

definition bounded_event :: "nat \<Rightarrow> al_event \<Rightarrow> bool" where
  "bounded_event B e =
     (case e of ALForward m \<Rightarrow> unat (hm_Rnd m) \<le> B | ALValResp v \<Rightarrow> Suc (unat (vresp_Rnd v)) \<le> B)"

text \<open>The forwards whose code is right, and the answers, among the events of a run.\<close>

fun checked_forwards :: "keyed_hash \<Rightarrow> AuthManager \<Rightarrow> al_event list \<Rightarrow> Forward set" where
  "checked_forwards hmac au [] = {}"
| "checked_forwards hmac au (ALForward m # es) =
     (if checkMAC hmac au (hm_ID m) (hm_Hmac m) (hashToBytes (hm_Hash m)) (hm_Rnd m)
      then insert m (checked_forwards hmac au es) else checked_forwards hmac au es)"
| "checked_forwards hmac au (ALValResp v # es) = checked_forwards hmac au es"

fun answers :: "al_event list \<Rightarrow> ValResp set" where
  "answers [] = {}"
| "answers (ALForward m # es) = answers es"
| "answers (ALValResp v # es) = insert v (answers es)"

fun no_skips :: "keyed_hash \<Rightarrow> al_event list \<Rightarrow> AuthLearner \<Rightarrow> bool" where
  "no_skips hmac [] l = True"
| "no_skips hmac (e # es) l =
     ((case e of ALForward m \<Rightarrow> True | ALValResp v \<Rightarrow> \<not> maxlearned l + al_alpha l < vresp_Rnd v) \<and>
      (case al_step hmac e l of Inl _ \<Rightarrow> True | Inr l' \<Rightarrow> no_skips hmac es l'))"

lemma checked_forwards_finite: "finite (checked_forwards hmac au es)"
  by (induction hmac au es rule: checked_forwards.induct) auto

lemma answers_bounded: "\<forall>e\<in>set es. bounded_event B e \<Longrightarrow> v \<in> answers es \<Longrightarrow> Suc (unat (vresp_Rnd v)) \<le> B"
  by (induction es rule: answers.induct) (auto simp: bounded_event_def)

lemma al_step_ok:
  assumes ok: "learner_ok B fs vs l" and e: "bounded_event B e"
    and fs: "checked_forwards hmac (al_authmgr l) [e] \<subseteq> fs" and vs: "answers [e] \<subseteq> vs"
  shows "al_step hmac e l \<noteq> Fault Diverges \<and> (\<forall>l'. al_step hmac e l = Inr l' \<longrightarrow>
      learner_ok B fs vs l' \<and> same_conf l l' \<and>
      (no_skips hmac [e] l \<longrightarrow> in_order vs l \<longrightarrow> in_order vs l'))"
proof (cases e)
  case (ALForward m)
  have safe: "handleForward hmac m l \<noteq> Fault Diverges"
    by (auto simp: handleForward_def bind_result_def Let_def dest: GetRound_not_Diverges split: sum.splits if_splits)
  show ?thesis
  proof (cases "handleForward hmac m l")
    case (Inl f)
    then show ?thesis using safe ALForward by simp
  next
    case (Inr bl)
    obtain b l1 where bl: "bl = (b, l1)" by (cases bl)
    have "checkMAC hmac (al_authmgr l) (hm_ID m) (hm_Hmac m) (hashToBytes (hm_Hash m)) (hm_Rnd m) \<Longrightarrow> m \<in> fs"
      using fs ALForward by (simp split: if_splits)
    note l1 = handleForward_ok [OF ok _ this Inr [unfolded bl]]
    then have "learner_ok B fs vs l1" "same_frame l l1"
      using e ALForward by (simp_all add: bounded_event_def)
    then show ?thesis
      using ALForward Inr bl in_order_frame [of l l1 vs] same_frame_conf [of l l1] by simp
  qed
next
  case (ALValResp v)
  have store: "storeVal v l \<noteq> Fault Diverges"
    by (auto simp: storeVal_def bind_result_def Let_def dest: GetRound_not_Diverges split: sum.splits if_splits)
  show ?thesis
  proof (cases "storeVal v l")
    case (Inl f)
    then show ?thesis using store ALValResp by auto
  next
    case (Inr l1)
    have l1: "learner_ok B fs vs l1" "same_frame l l1"
      using storeVal_ok [OF ok _ Inr] vs ALValResp by auto
    have "unat (vresp_Rnd v) \<le> B" using e ALValResp by (simp add: bounded_event_def)
    note send = sendDecided_ok [OF l1(1) this]
    have eq: "maxlearned l1 = maxlearned l" "al_alpha l1 = al_alpha l" "in_order vs l1 = in_order vs l"
      using l1(2) in_order_frame [OF l1(2)] by (simp_all add: same_frame_def)
    have step: "al_step hmac e l = sendDecided (vresp_Rnd v) l1" using Inr ALValResp by simp
    have near: "no_skips hmac [e] l \<Longrightarrow> \<not> maxlearned l1 + al_alpha l1 < vresp_Rnd v"
      unfolding eq using ALValResp by simp
    show ?thesis
      unfolding step eq(3) [symmetric]
      using send near same_conf_trans [OF same_frame_conf [OF l1(2)]] by (intro conjI allI impI) blast+
  qed
qed

lemma al_run_ok:
  assumes "learner_ok B fs vs l" and "\<forall>e\<in>set es. bounded_event B e"
    and "checked_forwards hmac (al_authmgr l) es \<subseteq> fs" and "answers es \<subseteq> vs"
  shows "al_run hmac es l \<noteq> Fault Diverges \<and> (\<forall>l'. al_run hmac es l = Inr l' \<longrightarrow>
      learner_ok B fs vs l' \<and> same_conf l l' \<and> (no_skips hmac es l \<longrightarrow> in_order vs l \<longrightarrow> in_order vs l'))"
  using assms
proof (induction es arbitrary: l)
  case Nil
  then show ?case by (simp add: same_conf_def)
next
  case (Cons e es)
  have split: "checked_forwards hmac au (e # es) = checked_forwards hmac au [e] \<union> checked_forwards hmac au es"
      "answers (e # es) = answers [e] \<union> answers es" for au
    by (cases e; simp)+
  have "checked_forwards hmac (al_authmgr l) [e] \<subseteq> fs" "answers [e] \<subseteq> vs" "bounded_event B e"
    using Cons.prems split by auto
  note step = al_step_ok [OF Cons.prems(1) this(3,1,2)]
  show ?case
  proof (cases "al_step hmac e l")
    case (Inl f)
    then show ?thesis using step by auto
  next
    case (Inr l1)
    then have l1: "learner_ok B fs vs l1" "same_conf l l1" "no_skips hmac [e] l \<longrightarrow> in_order vs l \<longrightarrow> in_order vs l1"
      using step by blast+
    have "al_authmgr l1 = al_authmgr l" using l1(2) by (simp add: same_conf_def)
    then have "checked_forwards hmac (al_authmgr l1) es \<subseteq> fs" "answers es \<subseteq> vs" "\<forall>e\<in>set es. bounded_event B e"
      using Cons.prems split by auto
    note run = Cons.IH [OF l1(1) this(3,1,2)]
    have "no_skips hmac (e # es) l \<Longrightarrow> no_skips hmac [e] l \<and> no_skips hmac es l1" using Inr by simp
    then show ?thesis using run l1 Inr same_conf_trans [OF l1(2)] by auto
  qed
qed

lemma learner_ok_New:
  assumes n: "0 < n" and B: "B + 2 * unat (windowLength alph) < 2 ^ 64"
    and fs: "finite fs" and vs: "\<forall>v\<in>vs. Suc (unat (vresp_Rnd v)) \<le> B"
  shows "learner_ok B fs vs (NewAuthLearner i n alph ids au)"
proof -
  have "3 * unat ((n - 1) div 3) \<le> unat (n - 1)" by (simp add: unat_div)
  also have "\<dots> < 2 ^ 64" using unsigned_less [of "n - 1"] by simp
  finally have "unat (2 * ((n - 1) div 3)) = 2 * unat ((n - 1) div 3)"
    by (simp add: unat_word_ariths)
  then show ?thesis
    using fs vs window_ok_New [of "windowLength alph" B zeroRound] B
    by (simp add: learner_ok_def NewAuthLearner_def round_ok_zero add.commute)
qed

text \<open>
  C9. A learner of authenticated broadcast asks for the value of a round only when it received, for that
  round and one hash, forwards with the right code under more than \<open>2 f\<close> different claimed identities,
  \<open>f = (n - 1) div 3\<close>. An identity is a Paxos id with an epoch, of which the code covers the Paxos id only.
  The rounds of the messages stay below a bound that keeps the window from wrapping around.
\<close>

theorem auth_learner_quorum:
  assumes "al_run hmac es (NewAuthLearner i n alph ids au) = Ok l"
    and "0 < n" and "B + 2 * unat (windowLength alph) < 2 ^ 64" and "\<forall>e\<in>set es. bounded_event B e"
    and "(dest, BMValReq q) \<in> set (al_ucast l)"
  shows "\<exists>h. 2 * unat ((n - 1) div 3) < card (senders (checked_forwards hmac au es) (vreq_Rnd q) h)"
proof -
  let ?fs = "checked_forwards hmac au es" and ?f = "unat ((n - 1) div 3)"
  have "learner_ok B ?fs (answers es) (NewAuthLearner i n alph ids au)"
    using learner_ok_New [OF assms(2,3) checked_forwards_finite] answers_bounded [OF assms(4)] by blast
  from al_run_ok [OF this assms(4), of hmac] assms(1)
  have l: "learner_ok B ?fs (answers es) l" "al_nFaulty l = (n - 1) div 3"
    by (simp_all add: NewAuthLearner_def same_conf_def)
  then have "forward_quorum ?fs ?f (vreq_Rnd q)"
    using assms(5) by (auto simp: learner_ok_def)
  then show ?thesis unfolding forward_quorum_def .
qed

text \<open>
  C10. While no answer runs more than \<open>alpha\<close> rounds ahead, a learner of authenticated broadcast
  delivers the answers for the rounds 1, 2, and so on, in that order and without a gap, and its loop
  over the learned rounds always ends.
\<close>

theorem auth_learner_order:
  assumes "0 < n" and "B + 2 * unat (windowLength alph) < 2 ^ 64" and "\<forall>e\<in>set es. bounded_event B e"
  shows "al_run hmac es (NewAuthLearner i n alph ids au) \<noteq> Fault Diverges \<and>
    (case al_run hmac es (NewAuthLearner i n alph ids au) of Inl _ \<Rightarrow> True
     | Inr l \<Rightarrow> no_skips hmac es (NewAuthLearner i n alph ids au) \<longrightarrow>
         unat (maxlearned l) = length (al_dcdChan l) \<and>
         (\<forall>j<length (al_dcdChan l). ALValResp \<lparr>vresp_Rnd = of_nat (Suc j), vresp_Val = al_dcdChan l ! j\<rparr> \<in> set es))"
proof -
  let ?l0 = "NewAuthLearner i n alph ids au"
  have "learner_ok B (checked_forwards hmac au es) (answers es) ?l0"
    using learner_ok_New [OF assms(1,2) checked_forwards_finite] answers_bounded [OF assms(3)] by blast
  then have run: "al_run hmac es ?l0 \<noteq> Fault Diverges"
      "\<And>l. al_run hmac es ?l0 = Inr l \<Longrightarrow> no_skips hmac es ?l0 \<Longrightarrow> in_order (answers es) ?l0 \<Longrightarrow>
        in_order (answers es) l"
    using al_run_ok [OF _ assms(3), of _ _ ?l0 hmac] by (auto simp: NewAuthLearner_def)
  have "in_order (answers es) ?l0" by (simp add: in_order_def NewAuthLearner_def)
  moreover have "v \<in> answers es \<longleftrightarrow> ALValResp v \<in> set es" for v by (induction es rule: answers.induct) auto
  ultimately show ?thesis
    using run by (auto simp: in_order_def split: sum.split)
qed

section \<open>The publisher\<close>

abbreviation Request_of :: "bytes \<Rightarrow> Value" where
  "Request_of b \<equiv> \<lparr>Vt = App,
     Cr = [\<lparr>req_Type = Some 2, req_Id = Some ''GenericReq'', req_Seq = Some 0, req_Val = b\<rparr>], Rc = None\<rparr>"

definition publish_msg :: "keyed_hash \<Rightarrow> gid \<Rightarrow> AuthManager \<Rightarrow> 64 word \<Rightarrow> Value \<Rightarrow> gid \<Rightarrow> bc_msg" where
  "publish_msg hmac i au r v dest =
     BMPublish \<lparr>pub_ID = i, pub_Rnd = r, pub_Val = v,
       pub_Hmac = generateMAC hmac au dest (hashToBytes (case Value_Hash v of Inl _ \<Rightarrow> 0 | Inr h \<Rightarrow> h)) r\<rparr>"

text \<open>The packets of the rounds before \<open>k\<close>.\<close>

definition published ::
  "keyed_hash \<Rightarrow> gid \<Rightarrow> AuthManager \<Rightarrow> gid list \<Rightarrow> Value list \<Rightarrow> nat \<Rightarrow> (gid \<times> bc_msg) list" where
  "published hmac i au ids vals k =
     concat (map (\<lambda>j. map (\<lambda>a. (a, publish_msg hmac i au (of_nat j) (vals ! j) a)) ids) [0..<k])"

lemma published_Suc:
  "published hmac i au ids vals (Suc k) =
     published hmac i au ids vals k @ map (\<lambda>a. (a, publish_msg hmac i au (of_nat k) (vals ! k) a)) ids"
  by (simp add: published_def)

lemma sendPublishTo_eq:
  assumes "Value_Hash (pub_Val m) = Inr h"
  shows "sendPublishTo hmac m ids p = Inr (p\<lparr>ap_ucast := ap_ucast p @
    map (\<lambda>a. (a, publish_msg hmac (ap_id p) (ap_authmgr p) (pub_Rnd m) (pub_Val m) a)) ids\<rparr>)"
  using assms by (induction ids arbitrary: p) (simp_all add: ap_send_def publish_msg_def)

definition publisher_ok ::
  "keyed_hash \<Rightarrow> gid \<Rightarrow> AuthManager \<Rightarrow> gid list \<Rightarrow> Value list \<Rightarrow> nat \<Rightarrow> nat \<Rightarrow> AuthPublisher \<Rightarrow> bool" where
  "publisher_ok hmac i au ids vals D k p \<longleftrightarrow> ap_id p = i \<and> ap_authmgr p = au \<and> ap_actors p = ids \<and>
     k \<le> length vals \<and> currentRnd p = of_nat k \<and> publishqueue p = drop k vals \<and>
     ap_ucast p = published hmac i au ids vals k \<and> unat (maxdecided p) \<le> D \<and>
     k \<le> unat (maxdecided p) + unat (ap_alpha p)"

lemma publishLoop_ok:
  assumes "length vals < 2 ^ 64" and "\<forall>v\<in>set vals. Vt v = App" and "k \<le> length vals"
    and "ap_id p = i" and "ap_authmgr p = au" and "ap_actors p = ids"
    and "ap_ucast p = published hmac i au ids vals k"
  shows "\<exists>k'. k \<le> k' \<and> k' \<le> length vals \<and> (k' = k \<or> k' \<le> unat to) \<and>
    publishLoop hmac (of_nat k) to (drop k vals) p =
      Inr (of_nat k', p\<lparr>ap_ucast := published hmac i au ids vals k', publishqueue := drop k' vals\<rparr>)"
  using assms(3-7)
proof (induction "length vals - k" arbitrary: k p)
  case 0
  then show ?case by (intro exI [of _ k]) simp
next
  case (Suc n)
  then have k: "k < length vals" by simp
  then have queue: "drop k vals = vals ! k # drop (Suc k) vals" by (simp add: Cons_nth_drop_Suc)
  have unat: "unat (of_nat k :: 64 word) = k" using k assms(1) by (simp add: unat_of_nat)
  have "Vt (vals ! k) = App" using k assms(2) by simp
  then obtain h where h: "Value_Hash (vals ! k) = Inr h" by (simp add: Value_Hash_def)
  show ?case
  proof (cases "of_nat k < to")
    case False
    have "p\<lparr>ap_ucast := published hmac i au ids vals k, publishqueue := drop k vals\<rparr> = p\<lparr>publishqueue := drop k vals\<rparr>"
      using Suc.prems(5) by simp
    then show ?thesis using False Suc.prems(1) queue by (intro exI [of _ k]) simp
  next
    case True
    define q where "q = p\<lparr>ap_ucast := published hmac i au ids vals (Suc k)\<rparr>"
    have send: "sendPublish hmac (newPublish (of_nat k) (vals ! k)) p = Inr q"
      using Suc.prems sendPublishTo_eq [of "newPublish (of_nat k) (vals ! k)" h hmac ids p] h
      by (simp add: sendPublish_def newPublish_def q_def published_Suc)
    have q: "n = length vals - Suc k" "Suc k \<le> length vals" "ap_id q = i" "ap_authmgr q = au"
        "ap_actors q = ids" "ap_ucast q = published hmac i au ids vals (Suc k)"
      using Suc.hyps(2) Suc.prems k by (simp_all add: q_def)
    obtain k' where k': "Suc k \<le> k'" "k' \<le> length vals" "k' = Suc k \<or> k' \<le> unat to"
        "publishLoop hmac (of_nat (Suc k)) to (drop (Suc k) vals) q =
          Inr (of_nat k', q\<lparr>ap_ucast := published hmac i au ids vals k', publishqueue := drop k' vals\<rparr>)"
      using Suc.hyps(1) [OF q] by blast
    have "Suc k \<le> unat to" using True unat by (simp add: word_less_nat_alt)
    then show ?thesis
      using k' send True queue by (intro exI [of _ k']) (auto simp: q_def add.commute)
  qed
qed

lemma genPublish_ok:
  assumes vals: "length vals < 2 ^ 64" "\<forall>v\<in>set vals. Vt v = App" and p: "publisher_ok hmac i au ids vals D k p"
  shows "\<exists>k' p'. genPublish hmac p = Inr p' \<and> publisher_ok hmac i au ids vals D k' p' \<and>
    ap_alpha p' = ap_alpha p"
proof -
  let ?to = "maxdecided p + ap_alpha p"
  obtain k' where k': "k \<le> k'" "k' \<le> length vals" "k' = k \<or> k' \<le> unat ?to"
      "publishLoop hmac (of_nat k) ?to (drop k vals) p =
        Inr (of_nat k', p\<lparr>ap_ucast := published hmac i au ids vals k', publishqueue := drop k' vals\<rparr>)"
    using publishLoop_ok [OF vals, of k p i au ids hmac ?to] p by (auto simp: publisher_ok_def)
  have "unat ?to \<le> unat (maxdecided p) + unat (ap_alpha p)" by (simp add: unat_word_ariths)
  then show ?thesis
    using k' p by (intro exI [of _ k']) (auto simp: genPublish_def publisher_ok_def)
qed

definition bounded_tick :: "nat \<Rightarrow> ap_event \<Rightarrow> bool" where
  "bounded_tick B e = (case e of APDcdRnd d \<Rightarrow> unat (dcd_Rnd d) \<le> B | APTick \<Rightarrow> True)"

lemma ap_step_ok:
  assumes vals: "length vals < 2 ^ 64" "\<forall>v\<in>set vals. Vt v = App" and p: "publisher_ok hmac i au ids vals D k p"
    and e: "bounded_tick B e" "B \<le> D" "Suc D < 2 ^ 64"
  shows "\<exists>k' p'. ap_step hmac e p = Inr p' \<and> publisher_ok hmac i au ids vals (Suc D) k' p' \<and>
    ap_alpha p' = ap_alpha p"
proof (cases e)
  case (APDcdRnd d)
  show ?thesis
  proof (cases "dcd_Rnd d > maxdecided p")
    case False
    then show ?thesis using p APDcdRnd by (intro exI [of _ k] exI [of _ p]) (auto simp: publisher_ok_def)
  next
    case True
    define q where "q = (let r = dcd_Rnd d;
            p = p\<lparr>ap_decided := (ap_decided p)(r := ap_decided p r + 1)\<rparr>
          in if ap_decided p r \<ge> ap_nAcceptors p - failedReplicas p then p\<lparr>maxdecided := r\<rparr> else p)"
    have "unat (maxdecided p) \<le> unat (dcd_Rnd d)" using True by (simp add: word_less_nat_alt)
    then have "publisher_ok hmac i au ids vals (Suc D) k q" "ap_alpha q = ap_alpha p"
      using p e APDcdRnd by (auto simp: publisher_ok_def q_def Let_def bounded_tick_def)
    moreover have "ap_step hmac e p = genPublish hmac q" using True APDcdRnd by (simp add: q_def Let_def)
    ultimately show ?thesis using genPublish_ok [OF vals, of hmac i au ids "Suc D" k q] by simp
  qed
next
  case APTick
  show ?thesis
  proof (cases "maxdecided p = prevmaxdecided p \<and> length (publishqueue p) \<noteq> 0")
    case False
    then show ?thesis using p APTick
      by (intro exI [of _ k] exI [of _ "p\<lparr>prevmaxdecided := maxdecided p\<rparr>"]) (auto simp: publisher_ok_def)
  next
    case True
    define q where "q = p\<lparr>maxdecided := maxdecided p + 1, failedReplicas := failedReplicas p + 1\<rparr>"
    have "unat (maxdecided p + 1) = Suc (unat (maxdecided p))"
      using p e by (simp add: publisher_ok_def unat_word_ariths)
    then have "publisher_ok hmac i au ids vals (Suc D) k q" using p by (simp add: publisher_ok_def q_def)
    from genPublish_ok [OF vals this] obtain k' q' where
      q': "genPublish hmac q = Inr q'" "publisher_ok hmac i au ids vals (Suc D) k' q'" "ap_alpha q' = ap_alpha q"
      by blast
    have "publisher_ok hmac i au ids vals (Suc D) k' (q'\<lparr>prevmaxdecided := maxdecided q'\<rparr>)"
      using q'(2) by (simp add: publisher_ok_def)
    moreover have "ap_step hmac e p = Inr (q'\<lparr>prevmaxdecided := maxdecided q'\<rparr>)"
      using True APTick q'(1) by (simp add: q_def)
    moreover have "ap_alpha (q'\<lparr>prevmaxdecided := maxdecided q'\<rparr>) = ap_alpha p" using q'(3) by (simp add: q_def)
    ultimately show ?thesis by blast
  qed
qed

lemma ap_run_ok:
  assumes vals: "length vals < 2 ^ 64" "\<forall>v\<in>set vals. Vt v = App" and p: "publisher_ok hmac i au ids vals D k p"
    and es: "\<forall>e\<in>set es. bounded_tick B e" "B \<le> D" "D + length es < 2 ^ 64"
  shows "\<exists>k' p'. ap_run hmac es p = Inr p' \<and> publisher_ok hmac i au ids vals (D + length es) k' p' \<and>
    ap_alpha p' = ap_alpha p"
  using p es
proof (induction es arbitrary: p k D)
  case Nil
  then show ?case by auto
next
  case (Cons e es)
  obtain k1 p1 where p1: "ap_step hmac e p = Inr p1" "publisher_ok hmac i au ids vals (Suc D) k1 p1" "ap_alpha p1 = ap_alpha p"
    using ap_step_ok [OF vals Cons.prems(1), of B e] Cons.prems by auto
  then show ?case using Cons.IH [OF p1(2)] Cons.prems by auto
qed

text \<open>
  C11. The publisher of authenticated broadcast never fails: whatever it is told about decided rounds,
  at every point the packets it has sent are one \<open>Publish\<close> for each acceptor in each of the rounds
  0 to \<open>k - 1\<close>, with the first \<open>k\<close> requests in order and a code for that acceptor, its queue holds
  the other requests, and \<open>k\<close> is at most \<open>alpha\<close> beyond the greatest round it takes for decided.
\<close>

theorem auth_publisher_window:
  assumes "PaxosID i = 0" and "length payloads < 2 ^ 64" and "\<forall>e\<in>set es. bounded_tick B e"
    and "B + length es < 2 ^ 64"
  shows "\<exists>k p. bind_result (ap_Start hmac payloads (NewAuthPublisher i n alph ids au)) (ap_run hmac es) = Ok p \<and>
    k \<le> length payloads \<and> unat (currentRnd p) = k \<and> k \<le> unat (maxdecided p) + unat alph \<and>
    publishqueue p = map Request_of (drop k payloads) \<and>
    ap_ucast p = concat (map (\<lambda>j. map (\<lambda>a. (a, publish_msg hmac i au (of_nat j) (Request_of (payloads ! j)) a)) ids) [0..<k])"
proof -
  define vals where "vals = map Request_of payloads"
  have vals: "length vals < 2 ^ 64" "\<forall>v\<in>set vals. Vt v = App" using assms(2) by (auto simp: vals_def)
  define q where "q = generateRequests payloads ((NewAuthPublisher i n alph ids au)\<lparr>ap_started := True\<rparr>)"
  have start: "ap_Start hmac payloads (NewAuthPublisher i n alph ids au) = genPublish hmac q"
    using assms(1) by (simp add: ap_Start_def q_def NewAuthPublisher_def)
  have "publisher_ok hmac i au ids vals B 0 q"
    by (simp add: publisher_ok_def q_def vals_def generateRequests_def NewAuthPublisher_def published_def)
  from genPublish_ok [OF vals this] obtain k1 p1 where
    p1: "genPublish hmac q = Inr p1" "publisher_ok hmac i au ids vals B k1 p1" "ap_alpha p1 = alph"
    by (auto simp: q_def generateRequests_def NewAuthPublisher_def)
  obtain k p where p: "ap_run hmac es p1 = Inr p" "publisher_ok hmac i au ids vals (B + length es) k p" "ap_alpha p = alph"
    using ap_run_ok [OF vals p1(2) assms(3) order_refl assms(4)] p1(3) by auto
  have k: "k \<le> length payloads" using p(2) by (simp add: publisher_ok_def vals_def)
  then have "unat (of_nat k :: 64 word) = k" using assms(2) by (simp add: unat_of_nat)
  moreover have "published hmac i au ids vals k =
      concat (map (\<lambda>j. map (\<lambda>a. (a, publish_msg hmac i au (of_nat j) (Request_of (payloads ! j)) a)) ids) [0..<k])"
    unfolding published_def using k by (intro arg_cong [of _ _ concat] map_cong) (auto simp: vals_def)
  ultimately show ?thesis
    using p p1(1) start k by (intro exI [of _ k] exI [of _ p]) (simp add: publisher_ok_def vals_def drop_map)
qed

section \<open>Concrete runs\<close>

text \<open>Four replicas, replica 1 looking; every pair shares a key. The hash appends.\<close>

definition some_hash :: keyed_hash where
  "some_hash key msg = key @ msg"

definition replicas :: "gid list" where
  "replicas = [ID 0 0, ID 1 0, ID 2 0, ID 3 0]"

definition keys1 :: AuthManager where
  "keys1 = \<lparr>au_ID = ID 1 0, Keys = [0 \<mapsto> [10], 2 \<mapsto> [12], 3 \<mapsto> [13]]\<rparr>"

definition learner1 :: AuthLearner where
  "learner1 = NewAuthLearner (ID 1 0) 4 3 replicas keys1"

definition forward_from :: "gid \<Rightarrow> bytes \<Rightarrow> al_event" where
  "forward_from i key = ALForward \<lparr>hm_ID = i, hm_Hash = 7, hm_Rnd = 1, hm_Hmac =
     (if key = [] then [] else some_hash key (AppendInt (hashToBytes 7) 1))\<rparr>"

definition asked :: "AuthLearner result \<Rightarrow> (gid \<times> bc_msg) list" where
  "asked r = (case r of Inl _ \<Rightarrow> [] | Inr l \<Rightarrow> al_ucast l)"

lemma learner1_asks:
  "asked (al_run some_hash [forward_from (ID 0 0) [10], forward_from (ID 2 0) [12], forward_from (ID 3 0) [13]] learner1) =
     [(ID 1 0, BMValReq \<lparr>vreq_Rnd = 1\<rparr>)]"
  by code_simp

text \<open>
  A learner keeps its forwards by identity and epoch, but the code covers the Paxos id alone: one
  replica that forwards under three epochs is a quorum.
\<close>

lemma one_replica_quorum:
  "asked (al_run some_hash [forward_from (ID 2 0) [12], forward_from (ID 2 1) [12], forward_from (ID 2 2) [12]] learner1) =
     [(ID 1 0, BMValReq \<lparr>vreq_Rnd = 1\<rparr>)]"
  by code_simp

text \<open>An outsider needs no key: who claims to be the receiver itself passes with an empty code.\<close>

lemma outsider_quorum:
  "asked (al_run some_hash [forward_from (ID 1 0) [], forward_from (ID 1 1) [], forward_from (ID 1 2) []] learner1) =
     [(ID 1 0, BMValReq \<lparr>vreq_Rnd = 1\<rparr>)]"
  by code_simp

text \<open>A round more than a third of the window ahead makes \<open>Get\<close> index out of range: one message stops the learner.\<close>

lemma far_round_panics:
  "(case al_run some_hash [ALForward \<lparr>hm_ID = ID 1 0, hm_Hash = 7, hm_Rnd = 52, hm_Hmac = []\<rparr>] learner1 of
     Inl e \<Rightarrow> e = IndexOutOfRange | Inr _ \<Rightarrow> False)"
  by code_simp

text \<open>The hash of a value that is not for the application is taken before the code is checked.\<close>

lemma non_app_publish_panics:
  "Vt (pub_Val m) \<noteq> App \<Longrightarrow> aa_step hmac (AAPublish m) a = Fault (Panic ''cannot hash non-app value'')"
  by (simp add: handlePublish_def Value_Hash_def)

definition delivered :: "AuthLearner result \<Rightarrow> Value list" where
  "delivered r = (case r of Inl _ \<Rightarrow> [] | Inr l \<Rightarrow> al_dcdChan l)"

definition answer :: "64 word \<Rightarrow> al_event" where
  "answer r = ALValResp \<lparr>vresp_Rnd = r, vresp_Val = Request_of [ucast r]\<rparr>"

text \<open>The publisher starts at round 0, which no learner delivers.\<close>

lemma round_zero_lost: "delivered (al_run some_hash [answer 0] learner1) = []"
  by code_simp

text \<open>An answer that is too far ahead is delivered at once, and again when the others catch up.\<close>

lemma skip_delivers_twice:
  "delivered (al_run some_hash [answer 4, answer 3] learner1) = map (\<lambda>b. Request_of [b]) [4, 3, 4]"
  by code_simp

text \<open>The value is not compared with the hash that was decided, nor was it asked for.\<close>

lemma unasked_value_delivered: "delivered (al_run some_hash [answer 1] learner1) = [Request_of [1]]"
  by code_simp

text \<open>An acceptor forwards every value that the publisher sends for a round.\<close>

lemma acceptor_forwards_both:
  "(case bind_result (aa_step some_hash (AAPublish \<lparr>pub_ID = ID 1 0, pub_Rnd = 1, pub_Val = Request_of [5], pub_Hmac = []\<rparr>)
        (NewAuthAcceptor (ID 1 0) 3 [ID 1 0] keys1))
      (aa_step some_hash (AAPublish \<lparr>pub_ID = ID 1 0, pub_Rnd = 1, pub_Val = Request_of [6], pub_Hmac = []\<rparr>)) of
      Inl _ \<Rightarrow> False
    | Inr a \<Rightarrow> (case map snd (aa_ucast a) of
        [BMForward f, BMForward g] \<Rightarrow> hm_Rnd f = hm_Rnd g \<and> hm_ID f = hm_ID g \<and> hm_Hash f \<noteq> hm_Hash g
      | _ \<Rightarrow> False))"
  by code_simp

text \<open>The quorum theorem at work: forwards under three identities, of four acceptors.\<close>

theorem auth_learner_quorum_witness:
  "\<exists>h. 2 < card (senders (checked_forwards some_hash keys1
      [forward_from (ID 0 0) [10], forward_from (ID 2 0) [12], forward_from (ID 3 0) [13]]) 1 h)"
proof -
  let ?es = "[forward_from (ID 0 0) [10], forward_from (ID 2 0) [12], forward_from (ID 3 0) [13]]"
  obtain l where l: "al_run some_hash ?es (NewAuthLearner (ID 1 0) 4 3 replicas keys1) = Ok l"
      "(ID 1 0, BMValReq \<lparr>vreq_Rnd = 1\<rparr>) \<in> set (al_ucast l)"
    using learner1_asks by (auto simp: asked_def learner1_def split: sum.splits)
  have "\<forall>e\<in>set ?es. bounded_event 10 e" by (simp add: bounded_event_def forward_from_def)
  from auth_learner_quorum [OF l(1) _ _ this l(2)] show ?thesis
    by (simp add: windowLength_def unat_div)
qed

lemma auth_learner_order_witness:
  "(case al_run some_hash [answer 2, answer 1] learner1 of Inl _ \<Rightarrow> False
    | Inr l \<Rightarrow> no_skips some_hash [answer 2, answer 1] learner1 \<and> unat (maxlearned l) = 2 \<and>
        al_dcdChan l = map (\<lambda>b. Request_of [b]) [1, 2])"
proof -
  let ?es = "[answer 2, answer 1]"
  have "\<forall>e\<in>set ?es. bounded_event 10 e" by (simp add: bounded_event_def answer_def)
  note order = auth_learner_order [OF _ _ this, of 4 3 some_hash "ID 1 0" replicas keys1, folded learner1_def]
  have del: "delivered (al_run some_hash ?es learner1) = map (\<lambda>b. Request_of [b]) [1, 2]" by code_simp
  then obtain l where l: "al_run some_hash ?es learner1 = Inr l" "al_dcdChan l = map (\<lambda>b. Request_of [b]) [1, 2]"
    by (cases "al_run some_hash ?es learner1") (simp_all add: delivered_def)
  have skips: "no_skips some_hash ?es learner1" by code_simp
  have "unat (maxlearned l) = length (al_dcdChan l)"
    using order skips unfolding l(1) by (simp add: windowLength_def)
  then show ?thesis unfolding l(1) using skips l(2) by simp
qed

lemma auth_publisher_window_witness:
  "\<exists>k p. bind_result (ap_Start some_hash [[5], [6]] (NewAuthPublisher (ID 0 0) 4 1 replicas keys1))
      (ap_run some_hash [APTick, APDcdRnd \<lparr>dcd_Rnd = 1\<rparr>]) = Ok p \<and>
    k \<le> 2 \<and> unat (currentRnd p) = k \<and> k \<le> unat (maxdecided p) + 1"
  using auth_publisher_window [of "ID 0 0" "[[5], [6]]" "[APTick, APDcdRnd \<lparr>dcd_Rnd = 1\<rparr>]" 1 some_hash 4 1 replicas keys1]
  by (auto simp: bounded_tick_def)

end
