(* ===== verification/RelBroadcastRuns.thy ===== *)
theory RelBroadcastRuns
  imports RelBroadcast AuthBroadcastRuns
begin

text \<open>
  What reliable broadcast guarantees: a correct acceptor commits to one hash per round, after a
  quorum of prepares or commits, and so two learners never ask for a round with different hashes.
\<close>

section \<open>What an acceptor holds for a round\<close>

text \<open>
  \<open>ps\<close> and \<open>cs\<close> are the prepares and commits it may hold; \<open>n\<close> says that it holds some, \<open>d\<close> that it
  has committed.
\<close>

definition ar_ok :: "HashMsg set \<Rightarrow> HashMsg set \<Rightarrow> bool \<Rightarrow> bool \<Rightarrow> 64 word \<Rightarrow> AcceptorRound \<Rightarrow> bool" where
  "ar_ok ps cs n d r x \<longleftrightarrow> wf_gomap (Prepares x) \<and> wf_gomap (Commits x) \<and>
     (\<forall>(i, m)\<in>set (Prepares x). m \<in> ps \<and> hm_ID m = i \<and> hm_Rnd m = r) \<and>
     (\<forall>(i, m)\<in>set (Commits x). m \<in> cs \<and> hm_ID m = i \<and> hm_Rnd m = r) \<and>
     (n \<longrightarrow> \<not> (Prepares x = [] \<and> Commits x = [])) \<and> (d \<longrightarrow> n \<and> SentCommit x)"

definition acc_ok ::
  "nat \<Rightarrow> HashMsg set \<Rightarrow> HashMsg set \<Rightarrow> 64 word set \<Rightarrow> 64 word set \<Rightarrow> RelAcceptor \<Rightarrow> bool" where
  "acc_ok B ps cs N D a \<longleftrightarrow> window_ok B (ra_rounds a) \<and>
     {m. hm_ID m = ra_id a} \<subseteq> ps \<inter> cs \<and> finite (hm_ID ` ps) \<and> finite (hm_ID ` cs) \<and>
     unat (2 * ra_nFaulty a) = 2 * unat (ra_nFaulty a) \<and>
     (\<forall>r. st_min (ra_rounds a) \<le> r \<longrightarrow>
        ar_ok ps cs (r \<in> N) (r \<in> D) r (round_at zeroAcceptorRound (ra_rounds a) r))"

definition ra_frame :: "RelAcceptor \<Rightarrow> RelAcceptor \<Rightarrow> bool" where
  "ra_frame a a' \<longleftrightarrow> ra_id a' = ra_id a \<and> ra_nFaulty a' = ra_nFaulty a \<and>
     ra_authmgr a' = ra_authmgr a \<and> ra_actors a' = ra_actors a"

lemma ra_frame_refl [simp]: "ra_frame a a" "ra_frame a (a\<lparr>ra_rounds := s\<rparr>)" "ra_frame a (ra_send i m a)"
  by (simp_all add: ra_frame_def ra_send_def)

lemma ra_frame_trans: "ra_frame a b \<Longrightarrow> ra_frame b c \<Longrightarrow> ra_frame a c"
  by (simp add: ra_frame_def)

lemma ar_ok_init: "ar_ok ps cs n d r x \<Longrightarrow> ar_ok ps cs n d r (initAcceptorRound r x)"
  by (auto simp: ar_ok_def initAcceptorRound_def)

lemma acc_ok_send: "acc_ok B ps cs N D (ra_send i m a) = acc_ok B ps cs N D a"
  by (simp add: acc_ok_def ra_send_def)

lemma acc_ok_get:
  assumes ok: "acc_ok B ps cs N D a" and r: "unat r \<le> B" and get: "getAcceptorRound r (ra_rounds a) = Inr (x, s)"
  shows "acc_ok B ps cs N D (a\<lparr>ra_rounds := s\<rparr>) \<and> covers s r \<and> ar_ok ps cs (r \<in> N) (r \<in> D) r x"
proof -
  have win: "window_ok B (ra_rounds a)" using ok by (simp add: acc_ok_def)
  note g = GetRound_ok [OF win r get]
  then have *: "ar_ok ps cs (q \<in> N) (q \<in> D) q (round_at zeroAcceptorRound s q)" if "st_min s \<le> q" for q
    using ok that by (auto simp: acc_ok_def intro: order_trans)
  from this [of r] have "ar_ok ps cs (r \<in> N) (r \<in> D) r x" using g by (simp add: covers_def)
  then show ?thesis using ok g * by (simp add: acc_ok_def)
qed

lemma acc_ok_put:
  assumes ok: "acc_ok B ps cs N D (a\<lparr>ra_rounds := s\<rparr>)" and cov: "covers s r"
    and x: "ar_ok ps cs (r \<in> N') (r \<in> D') r x" and N: "N' - {r} = N - {r}" "D' - {r} = D - {r}"
  shows "acc_ok B ps cs N' D' (a\<lparr>ra_rounds := PutRound r x s\<rparr>)"
proof -
  have "q \<in> N' \<longleftrightarrow> q \<in> N" "q \<in> D' \<longleftrightarrow> q \<in> D" if "q \<noteq> r" for q using N that by auto
  then show ?thesis using ok x by (auto simp: acc_ok_def PutRound_at [OF cov])
qed

section \<open>The handlers\<close>

text \<open>
  What \<open>handlePrepare\<close> and \<open>handleCommit\<close> have in common: \<open>r\<close> is the round of the message, \<open>enough\<close>
  what the count establishes.
\<close>

definition handled ::
  "nat \<Rightarrow> HashMsg set \<Rightarrow> HashMsg set \<Rightarrow> 64 word set \<Rightarrow> 64 word set \<Rightarrow> bool \<Rightarrow> 64 word \<Rightarrow> RelAcceptor \<Rightarrow>
    (BcPrepare option \<times> Commit option) \<times> RelAcceptor \<Rightarrow> bool" where
  "handled B ps cs N D enough r a res \<longleftrightarrow> (case res of ((pr, cm), a') \<Rightarrow>
     acc_ok B ps cs N D a' \<and> ra_frame a a' \<and> ra_ucast a' = ra_ucast a \<and>
     (\<forall>p. pr = Some p \<longrightarrow> hm_ID p = ra_id a \<and> hm_Rnd p = r) \<and>
     (\<forall>c. cm = Some c \<longrightarrow> hm_Rnd c = r \<and> r \<notin> D \<and> acc_ok B ps cs (insert r N) D a' \<and> enough))"

lemma handled_unchanged: "acc_ok B ps cs N D a \<Longrightarrow> handled B ps cs N D enough r a ((None, None), a)"
  by (simp add: handled_def)

lemma handled_written:
  assumes "acc_ok B ps cs N D (a\<lparr>ra_rounds := s\<rparr>)" and "covers s r"
    and "ar_ok ps cs (r \<in> N) (r \<in> D) r x"
  shows "handled B ps cs N D enough r a ((None, None), a\<lparr>ra_rounds := PutRound r x s\<rparr>)"
  using acc_ok_put [OF assms(1-3)] by (simp add: handled_def)

lemma handled_stored:
  assumes a: "acc_ok B ps cs N D (a\<lparr>ra_rounds := s\<rparr>)" and cov: "covers s r"
    and x: "ar_ok ps cs True (r \<in> D) r x \<and> r \<notin> D" and c: "cm = None \<and> pr = None \<or> enough"
    and pr: "\<forall>p. pr = Some p \<longrightarrow> hm_ID p = ra_id a \<and> hm_Rnd p = r"
    and cm: "\<forall>c. cm = Some c \<longrightarrow> hm_Rnd c = r"
  shows "handled B ps cs N D enough r a ((pr, cm), a\<lparr>ra_rounds := PutRound r x s\<rparr>)"
proof -
  have "ar_ok ps cs (r \<in> N) (r \<in> D) r x" using x by (auto simp: ar_ok_def)
  then have "acc_ok B ps cs N D (a\<lparr>ra_rounds := PutRound r x s\<rparr>)" using acc_ok_put [OF a cov] by simp
  moreover have "acc_ok B ps cs (insert r N) D (a\<lparr>ra_rounds := PutRound r x s\<rparr>)"
    using acc_ok_put [OF a cov, of "insert r N" D x] x by (cases "r \<in> D") simp_all
  ultimately show ?thesis using x c pr cm by (auto simp: handled_def)
qed

definition prepare_quorum :: "HashMsg set \<Rightarrow> RelAcceptor \<Rightarrow> 64 word \<Rightarrow> bool" where
  "prepare_quorum ps a r \<longleftrightarrow> (\<exists>h. 2 * unat (ra_nFaulty a) < card (senders ps r h))"

definition commit_quorum :: "HashMsg set \<Rightarrow> RelAcceptor \<Rightarrow> 64 word \<Rightarrow> bool" where
  "commit_quorum cs a r \<longleftrightarrow> (\<exists>h. unat (ra_nFaulty a) < card (senders cs r h))"

lemma ra_handlePrepare_ok:
  assumes ok: "acc_ok B ps cs N D a" and m: "unat (hm_Rnd m) \<le> B"
    and mac: "checkMAC hmac (ra_authmgr a) (hm_ID m) (hm_Hmac m) (hashToBytes (hm_Hash m)) (hm_Rnd m) \<Longrightarrow> m \<in> ps"
    and run: "ra_handlePrepare hmac m a = Inr res"
  shows "handled B ps cs N D (prepare_quorum ps a (hm_Rnd m)) (hm_Rnd m) a res"
proof (cases "checkMAC hmac (ra_authmgr a) (hm_ID m) (hm_Hmac m) (hashToBytes (hm_Hash m)) (hm_Rnd m) \<and>
    IsValid (hm_Rnd m) (ra_rounds a)")
  case False
  then have "res = ((None, None), a)" using run by (auto simp: ra_handlePrepare_def split: if_splits)
  then show ?thesis using handled_unchanged [OF ok] by simp
next
  case valid: True
  let ?r = "hm_Rnd m"
  obtain x s where get: "getAcceptorRound ?r (ra_rounds a) = Inr (x, s)"
    using run valid by (auto simp: ra_handlePrepare_def bind_result_Inr_iff)
  note g = acc_ok_get [OF ok m get]
  define y where "y = initAcceptorRound ?r x"
  have y: "ar_ok ps cs (?r \<in> N) (?r \<in> D) ?r y" using g ar_ok_init by (simp add: y_def)
  show ?thesis
  proof (cases "SentCommit y \<or> lookup (Prepares y) (hm_ID m) \<noteq> None")
    case True
    then have "res = ((None, None), a\<lparr>ra_rounds := PutRound ?r y s\<rparr>)"
      using run get valid by (auto simp: ra_handlePrepare_def Let_def y_def split: if_splits)
    then show ?thesis using handled_written g y by simp
  next
    case False
    define z where "z = y\<lparr>Prepares := put (hm_ID m) m (Prepares y)\<rparr>"
    have "set (put (hm_ID m) m (Prepares y)) = insert (hm_ID m, m) (set (Prepares y))"
      using False y by (intro set_put_new) (auto simp: ar_ok_def)
    then have z: "ar_ok ps cs True (?r \<in> D) ?r z \<and> ?r \<notin> D"
      using False y mac valid by (auto simp: ar_ok_def z_def)
    define q where "q \<longleftrightarrow> comparePrepares (Prepares z) a"
    define pr where "pr = (if q \<and> \<not> SentPrepare z
      then Some \<lparr>hm_ID = ra_id a, hm_Hash = hm_Hash m, hm_Rnd = ?r, hm_Hmac = []\<rparr> else None)"
    define cm where "cm = (if q then Some (ra_createCommit ?r (hm_Hash m) a) else None)"
    have res: "res = ((pr, cm), a\<lparr>ra_rounds := PutRound ?r z s\<rparr>)"
      using run get valid False
      by (simp add: ra_handlePrepare_def Let_def q_def pr_def cm_def z_def flip: y_def split: if_splits)
    have "comparePrepares (Prepares z) a \<Longrightarrow> prepare_quorum ps a ?r"
      using enoughEqual_senders [of "2 * ra_nFaulty a" "Prepares z" ps ?r] z ok
      by (simp add: comparePrepares_def ar_ok_def acc_ok_def prepare_quorum_def)
    then have "cm = None \<and> pr = None \<or> prepare_quorum ps a ?r" by (auto simp: q_def pr_def cm_def)
    moreover have "\<forall>p. pr = Some p \<longrightarrow> hm_ID p = ra_id a \<and> hm_Rnd p = ?r"
        "\<forall>c. cm = Some c \<longrightarrow> hm_Rnd c = ?r"
      by (auto simp: pr_def cm_def ra_createCommit_def)
    ultimately show ?thesis unfolding res using g z by (intro handled_stored) blast+
  qed
qed

lemma ra_handleCommit_ok:
  assumes ok: "acc_ok B ps cs N D a" and m: "unat (hm_Rnd m) \<le> B"
    and mac: "checkMAC hmac (ra_authmgr a) (hm_ID m) (hm_Hmac m) (hashToBytes (hm_Hash m)) (hm_Rnd m) \<Longrightarrow> m \<in> cs"
    and run: "ra_handleCommit hmac m a = Inr res"
  shows "handled B ps cs N D (commit_quorum cs a (hm_Rnd m)) (hm_Rnd m) a res"
proof (cases "checkMAC hmac (ra_authmgr a) (hm_ID m) (hm_Hmac m) (hashToBytes (hm_Hash m)) (hm_Rnd m) \<and>
    IsValid (hm_Rnd m) (ra_rounds a)")
  case False
  then have "res = ((None, None), a)" using run by (auto simp: ra_handleCommit_def split: if_splits)
  then show ?thesis using handled_unchanged [OF ok] by simp
next
  case valid: True
  let ?r = "hm_Rnd m"
  obtain x s where get: "getAcceptorRound ?r (ra_rounds a) = Inr (x, s)"
    using run valid by (auto simp: ra_handleCommit_def bind_result_Inr_iff)
  note g = acc_ok_get [OF ok m get]
  define y where "y = initAcceptorRound ?r x"
  have y: "ar_ok ps cs (?r \<in> N) (?r \<in> D) ?r y" using g ar_ok_init by (simp add: y_def)
  show ?thesis
  proof (cases "SentCommit y \<or> lookup (Commits y) (hm_ID m) \<noteq> None")
    case True
    then have "res = ((None, None), a\<lparr>ra_rounds := PutRound ?r y s\<rparr>)"
      using run get valid by (auto simp: ra_handleCommit_def Let_def y_def split: if_splits)
    then show ?thesis using handled_written g y by simp
  next
    case False
    define z where "z = y\<lparr>Commits := put (hm_ID m) m (Commits y)\<rparr>"
    have "set (put (hm_ID m) m (Commits y)) = insert (hm_ID m, m) (set (Commits y))"
      using False y by (intro set_put_new) (auto simp: ar_ok_def)
    then have z: "ar_ok ps cs True (?r \<in> D) ?r z \<and> ?r \<notin> D"
      using False y mac valid by (auto simp: ar_ok_def z_def)
    define q where "q \<longleftrightarrow> ra_compareCommits (Commits z) a"
    define pr where "pr = (if q \<and> \<not> SentPrepare z
      then Some \<lparr>hm_ID = ra_id a, hm_Hash = hm_Hash m, hm_Rnd = ?r, hm_Hmac = []\<rparr> else None)"
    define cm where "cm = (if q then Some (ra_createCommit ?r (hm_Hash m) a) else None)"
    have res: "res = ((pr, cm), a\<lparr>ra_rounds := PutRound ?r z s\<rparr>)"
      using run get valid False
      by (simp add: ra_handleCommit_def Let_def q_def pr_def cm_def z_def flip: y_def split: if_splits)
    have "ra_compareCommits (Commits z) a \<Longrightarrow> commit_quorum cs a ?r"
      using enoughEqual_senders [of "ra_nFaulty a" "Commits z" cs ?r] z ok
      by (simp add: ra_compareCommits_def ar_ok_def acc_ok_def commit_quorum_def)
    then have "cm = None \<and> pr = None \<or> commit_quorum cs a ?r" by (auto simp: q_def pr_def cm_def)
    moreover have "\<forall>p. pr = Some p \<longrightarrow> hm_ID p = ra_id a \<and> hm_Rnd p = ?r"
        "\<forall>c. cm = Some c \<longrightarrow> hm_Rnd c = ?r"
      by (auto simp: pr_def cm_def ra_createCommit_def)
    ultimately show ?thesis unfolding res using g z by (intro handled_stored) blast+
  qed
qed

lemma ra_handlePublish_ok:
  assumes ok: "acc_ok B ps cs N D a" and m: "unat (pub_Rnd m) \<le> B"
    and run: "ra_handlePublish hmac m a = Inr (pr, a')"
  shows "handled B ps cs N D False (pub_Rnd m) a ((pr, None), a')"
proof -
  let ?r = "pub_Rnd m"
  obtain h where h: "Value_Hash (pub_Val m) = Inr h"
    using run by (auto simp: ra_handlePublish_def bind_result_Inr_iff)
  show ?thesis
  proof (cases "checkMAC hmac (ra_authmgr a) (pub_ID m) (pub_Hmac m) (hashToBytes h) ?r \<and> IsValid ?r (ra_rounds a)")
    case False
    then have "pr = None" "a' = a" using run h by (auto simp: ra_handlePublish_def split: if_splits)
    then show ?thesis using handled_unchanged [OF ok] by simp
  next
    case True
    then obtain x s where get: "getAcceptorRound ?r (ra_rounds a) = Inr (x, s)"
      using run h by (auto simp: ra_handlePublish_def bind_result_Inr_iff)
    note g = acc_ok_get [OF ok m get]
    define y where "y = x\<lparr>ar_RndID := ?r, ar_Value := pub_Val m\<rparr>"
    have y: "ar_ok ps cs (?r \<in> N) (?r \<in> D) ?r y" using g by (simp add: ar_ok_def y_def)
    have a': "a' = a\<lparr>ra_rounds := PutRound ?r y s\<rparr>"
      and pr: "\<forall>p. pr = Some p \<longrightarrow> hm_ID p = ra_id a \<and> hm_Rnd p = ?r"
      using run h True get
      by (auto simp: ra_handlePublish_def ra_createPrepare_def Let_def simp flip: y_def split: if_splits)
    have "acc_ok B ps cs N D a'" unfolding a' using acc_ok_put [where N' = N and D' = D] g y by blast
    then show ?thesis using pr by (simp add: handled_def a')
  qed
qed

section \<open>What is sent\<close>

definition commit_in :: "(gid \<times> bc_msg) list \<Rightarrow> HashMsg \<Rightarrow> bool" where
  "commit_in u m \<longleftrightarrow> (\<exists>d. (d, BMCommit m) \<in> set u \<or> (d, BMCommitA m) \<in> set u)"

lemma commit_in_send [simp]:
  "commit_in (u @ [(i, x)]) m \<longleftrightarrow> commit_in u m \<or> x = BMCommit m \<or> x = BMCommitA m"
  by (auto simp: commit_in_def)

definition sent_ok :: "64 word set \<Rightarrow> (64 word \<Rightarrow> bool) \<Rightarrow> (gid \<times> bc_msg) list \<Rightarrow> bool" where
  "sent_ok D J u \<longleftrightarrow> (\<forall>m. commit_in u m \<longrightarrow> hm_Rnd m \<in> D \<and> J (hm_Rnd m) \<and>
     (\<forall>m'. commit_in u m' \<longrightarrow> hm_Rnd m' = hm_Rnd m \<longrightarrow> hm_Hash m' = hm_Hash m))"

lemma sendPrepareTo_ok:
  assumes "acc_ok B ps cs N D a" and "unat (hm_Rnd msg) \<le> B" and "hm_ID msg = ra_id a"
    and "sendPrepareTo hmac msg ids a = Inr a'"
  shows "acc_ok B ps cs N D a' \<and> ra_frame a a' \<and> commit_in (ra_ucast a') = commit_in (ra_ucast a)"
  using assms
proof (induction ids arbitrary: a)
  case Nil
  then show ?case by simp
next
  case (Cons i ids)
  show ?case
  proof (cases "i = ra_id a")
    case False
    let ?a = "ra_send i (BMPrepare (signed hmac msg i a)) a"
    have "acc_ok B ps cs N D ?a" using Cons.prems(1) acc_ok_send by blast
    moreover have "hm_ID msg = ra_id ?a" using Cons.prems(3) by (simp add: ra_send_def)
    moreover have "sendPrepareTo hmac msg ids ?a = Inr a'" using Cons.prems(4) False by simp
    ultimately have "acc_ok B ps cs N D a' \<and> ra_frame ?a a' \<and> commit_in (ra_ucast a') = commit_in (ra_ucast ?a)"
      using Cons.IH Cons.prems(2) by blast
    moreover have "commit_in (ra_ucast ?a) = commit_in (ra_ucast a)" by (simp add: fun_eq_iff ra_send_def)
    ultimately show ?thesis by (simp add: ra_frame_def ra_send_def)
  next
    case True
    obtain pc b where b: "ra_handlePrepare hmac msg a = Inr (pc, b)" "sendPrepareTo hmac msg ids b = Inr a'"
      using Cons.prems(4) True by (auto simp: bind_result_Inr_iff)
    have "msg \<in> ps" using Cons.prems(1,3) by (auto simp: acc_ok_def)
    then have h: "acc_ok B ps cs N D b" "ra_frame a b" "ra_ucast b = ra_ucast a"
      using ra_handlePrepare_ok [OF Cons.prems(1,2) _ b(1)] by (cases pc; simp add: handled_def)+
    then have "hm_ID msg = ra_id b" using Cons.prems(3) by (simp add: ra_frame_def)
    from Cons.IH [OF h(1) Cons.prems(2) this b(2)] show ?thesis using h ra_frame_trans by auto
  qed
qed

lemma sendCommitTo_ok:
  assumes "acc_ok B ps cs N D a" and "unat (hm_Rnd msg) \<le> B"
    and "sendCommitTo hmac msg ids a = Inr a'"
  shows "acc_ok B ps cs N D a' \<and> ra_frame a a' \<and>
    (\<forall>m. commit_in (ra_ucast a') m \<longrightarrow>
       commit_in (ra_ucast a) m \<or> hm_Rnd m = hm_Rnd msg \<and> hm_Hash m = hm_Hash msg)"
  using assms
proof (induction ids arbitrary: a)
  case Nil
  then show ?case by simp
next
  case (Cons i ids)
  have signed: "hm_Rnd (signed hmac msg i a) = hm_Rnd msg" "hm_Hash (signed hmac msg i a) = hm_Hash msg"
      "hm_ID (signed hmac msg i a) = ra_id a"
    by (simp_all add: signed_def)
  obtain b where b: "acc_ok B ps cs N D b" "ra_frame a b" "sendCommitTo hmac msg ids b = Inr a'"
      "\<forall>m. commit_in (ra_ucast b) m \<longrightarrow> commit_in (ra_ucast a) m \<or> m = signed hmac msg i a"
  proof (cases "i = ra_id a")
    case False
    let ?b = "ra_send i (BMCommit (signed hmac msg i a)) (ra_send i (BMCommitA (signed hmac msg i a)) a)"
    have "acc_ok B ps cs N D ?b" using Cons.prems(1) acc_ok_send by blast
    moreover have "ra_frame a ?b" by (simp add: ra_frame_def ra_send_def)
    moreover have "sendCommitTo hmac msg ids ?b = Inr a'" using Cons.prems(3) False by simp
    moreover have "\<forall>m. commit_in (ra_ucast ?b) m \<longrightarrow> commit_in (ra_ucast a) m \<or> m = signed hmac msg i a"
      by (auto simp: ra_send_def commit_in_def)
    ultimately show ?thesis using that by blast
  next
    case True
    obtain pc c where c: "ra_handleCommit hmac (signed hmac msg i a) a = Inr (pc, c)"
        "sendCommitTo hmac msg ids (ra_send i (BMCommit (signed hmac msg i c)) c) = Inr a'"
      using Cons.prems(3) True by (auto simp: bind_result_Inr_iff)
    have "signed hmac msg i a \<in> cs" using Cons.prems(1) signed(3) by (auto simp: acc_ok_def)
    then have h: "acc_ok B ps cs N D c" "ra_frame a c" "ra_ucast c = ra_ucast a"
      using ra_handleCommit_ok [OF Cons.prems(1) _ _ c(1)] Cons.prems(2) signed(1)
      by (cases pc; simp add: handled_def)+
    let ?b = "ra_send i (BMCommit (signed hmac msg i c)) c"
    have "signed hmac msg i c = signed hmac msg i a" using h(2) by (simp add: signed_def ra_frame_def)
    then have "\<forall>m. commit_in (ra_ucast ?b) m \<longrightarrow> commit_in (ra_ucast a) m \<or> m = signed hmac msg i a"
      using h(3) by (auto simp: ra_send_def)
    moreover have "acc_ok B ps cs N D ?b" using h(1) acc_ok_send by blast
    moreover have "ra_frame a ?b" using h(2) by (simp add: ra_frame_def ra_send_def)
    ultimately show ?thesis using that c(2) by blast
  qed
  from Cons.IH [OF b(1) Cons.prems(2) b(3)] show ?case
    using b(2,4) ra_frame_trans signed by metis
qed

lemma ra_sendPrepare_ok:
  assumes ok: "acc_ok B ps cs N D a" and r: "unat (hm_Rnd msg) \<le> B" "hm_ID msg = ra_id a"
    and run: "ra_sendPrepare hmac msg a = Inr a'"
  shows "acc_ok B ps cs N D a' \<and> ra_frame a a' \<and> commit_in (ra_ucast a') = commit_in (ra_ucast a)"
proof -
  obtain b x s where b: "sendPrepareTo hmac msg (ra_actors a) a = Inr b"
      and get: "getAcceptorRound (hm_Rnd msg) (ra_rounds b) = Inr (x, s)"
      and a': "a' = b\<lparr>ra_rounds := PutRound (hm_Rnd msg) (x\<lparr>SentPrepare := True\<rparr>) s\<rparr>"
    using run by (auto simp: ra_sendPrepare_def bind_result_Inr_iff)
  note to = sendPrepareTo_ok [OF ok r b]
  then have "acc_ok B ps cs N D b" by blast
  note g = acc_ok_get [OF this r(1) get]
  then have "ar_ok ps cs (hm_Rnd msg \<in> N) (hm_Rnd msg \<in> D) (hm_Rnd msg) (x\<lparr>SentPrepare := True\<rparr>)"
    by (simp add: ar_ok_def)
  then have "acc_ok B ps cs N D a'" unfolding a' using g by (intro acc_ok_put) blast+
  then show ?thesis using to by (simp add: a' ra_frame_def)
qed

lemma ra_sendCommit_ok:
  assumes ok: "acc_ok B ps cs N D a" and r: "unat (hm_Rnd msg) \<le> B" "hm_Rnd msg \<in> N" "hm_Rnd msg \<notin> D"
    and sent: "sent_ok D J (ra_ucast a)" "J (hm_Rnd msg)"
    and run: "ra_sendCommit hmac msg a = Inr a'"
  shows "acc_ok B ps cs N (insert (hm_Rnd msg) D) a' \<and> ra_frame a a' \<and>
    sent_ok (insert (hm_Rnd msg) D) J (ra_ucast a')"
proof -
  let ?r = "hm_Rnd msg"
  obtain b x s where b: "sendCommitTo hmac msg (ra_actors a) a = Inr b"
      and get: "getAcceptorRound ?r (ra_rounds b) = Inr (x, s)"
      and a': "a' = b\<lparr>ra_rounds := PutRound ?r (x\<lparr>SentCommit := True\<rparr>) s\<rparr>"
    using run by (auto simp: ra_sendCommit_def bind_result_Inr_iff)
  note to = sendCommitTo_ok [OF ok r(1) b]
  then have "acc_ok B ps cs N D b" by blast
  note g = acc_ok_get [OF this r(1) get]
  then have "ar_ok ps cs (?r \<in> N) (?r \<in> insert ?r D) ?r (x\<lparr>SentCommit := True\<rparr>)"
    using r(2) by (simp add: ar_ok_def)
  then have "acc_ok B ps cs N (insert ?r D) a'"
    unfolding a' using g by (intro acc_ok_put [where N = N and D = D]) auto
  moreover have "sent_ok (insert ?r D) J (ra_ucast a')"
  proof -
    have new: "commit_in (ra_ucast a) m \<or> hm_Rnd m = ?r \<and> hm_Hash m = hm_Hash msg"
      if "commit_in (ra_ucast a') m" for m
      using to that by (simp add: a')
    show ?thesis
      unfolding sent_ok_def
    proof (intro allI impI conjI)
      fix m assume m: "commit_in (ra_ucast a') m"
      show "hm_Rnd m \<in> insert ?r D" "J (hm_Rnd m)" using new [OF m] sent by (auto simp: sent_ok_def)
      fix m' assume m': "commit_in (ra_ucast a') m'" "hm_Rnd m' = hm_Rnd m"
      show "hm_Hash m' = hm_Hash m"
        using new [OF m] new [OF m'(1)] sent(1) r(3) m'(2) unfolding sent_ok_def by metis
    qed
  qed
  ultimately show ?thesis using to by (simp add: a' ra_frame_def)
qed

section \<open>Runs of an acceptor\<close>

definition acceptor_inv ::
  "nat \<Rightarrow> HashMsg set \<Rightarrow> HashMsg set \<Rightarrow> (64 word \<Rightarrow> bool) \<Rightarrow> RelAcceptor \<Rightarrow> bool" where
  "acceptor_inv B ps cs J a \<longleftrightarrow> (\<exists>N D. acc_ok B ps cs N D a \<and> sent_ok D J (ra_ucast a))"

lemma ra_react_ok:
  assumes h: "handled B ps cs N D enough r a (pc, b)" and J: "enough \<Longrightarrow> J r" and r: "unat r \<le> B"
    and sent: "sent_ok D J (ra_ucast a)" and run: "ra_react hmac pc b = Inr a'"
  shows "acceptor_inv B ps cs J a' \<and> ra_frame a a'"
proof -
  obtain pr cm where pc: "pc = (pr, cm)" by (cases pc)
  have b: "acc_ok B ps cs N D b" "ra_frame a b" "ra_ucast b = ra_ucast a"
    and p: "\<And>p. pr = Some p \<Longrightarrow> hm_ID p = ra_id b \<and> hm_Rnd p = r"
    and c: "\<And>c. cm = Some c \<Longrightarrow> hm_Rnd c = r \<and> r \<notin> D \<and> acc_ok B ps cs (insert r N) D b \<and> enough"
    using h by (simp_all add: handled_def pc ra_frame_def)
  obtain e where e: "(case pr of None \<Rightarrow> Ok b | Some prepare \<Rightarrow> ra_sendPrepare hmac prepare b) = Inr e"
      and rest: "(case cm of None \<Rightarrow> Ok e | Some commit \<Rightarrow> ra_sendCommit hmac commit e) = Inr a'"
    using run by (auto simp: ra_react_def pc bind_result_Inr_iff)
  have after: "acc_ok B ps cs M D e \<and> ra_frame b e \<and> commit_in (ra_ucast e) = commit_in (ra_ucast b)"
    if "acc_ok B ps cs M D b" for M
  proof (cases pr)
    case None
    then show ?thesis using e that by simp
  next
    case (Some p)
    then have "ra_sendPrepare hmac p b = Inr e" using e by simp
    then show ?thesis using ra_sendPrepare_ok [OF that, of p] p [OF Some] r by blast
  qed
  have "commit_in (ra_ucast e) = commit_in (ra_ucast a)" using after [OF b(1)] b(3) by metis
  then have sent_e: "sent_ok D J (ra_ucast e)" using sent unfolding sent_ok_def by (simp only:)
  have frame: "ra_frame a e" using after [OF b(1)] b(2) ra_frame_trans by blast
  show ?thesis
  proof (cases cm)
    case None
    then have "a' = e" using rest by simp
    then show ?thesis using after [OF b(1)] sent_e frame unfolding acceptor_inv_def by blast
  next
    case (Some m)
    have m: "hm_Rnd m = r" "r \<notin> D" "acc_ok B ps cs (insert r N) D e" "J r"
      using c [OF Some] J after by blast+
    have "ra_sendCommit hmac m e = Inr a'" using rest Some by simp
    note m = m this
    have "acc_ok B ps cs (insert r N) (insert r D) a' \<and> ra_frame e a' \<and> sent_ok (insert r D) J (ra_ucast a')"
      using ra_sendCommit_ok [OF m(3) _ _ _ sent_e _ m(5)] m(1,2,4) r by simp
    then show ?thesis using frame ra_frame_trans unfolding acceptor_inv_def by blast
  qed
qed

definition ra_bounded :: "nat \<Rightarrow> ra_event \<Rightarrow> bool" where
  "ra_bounded B e = (case e of RAPublish m \<Rightarrow> unat (pub_Rnd m) \<le> B | RAPrepare m \<Rightarrow> unat (hm_Rnd m) \<le> B
     | RACommit m \<Rightarrow> unat (hm_Rnd m) \<le> B | RAValReq q \<Rightarrow> unat (vreq_Rnd q) \<le> B)"

text \<open>The prepares, and the commits, whose code is right, among the events of a run.\<close>

fun checked_prepares :: "keyed_hash \<Rightarrow> AuthManager \<Rightarrow> ra_event list \<Rightarrow> HashMsg set" where
  "checked_prepares hmac au [] = {}"
| "checked_prepares hmac au (e # es) = (case e of
     RAPrepare m \<Rightarrow> if checkMAC hmac au (hm_ID m) (hm_Hmac m) (hashToBytes (hm_Hash m)) (hm_Rnd m) then {m} else {}
   | _ \<Rightarrow> {}) \<union> checked_prepares hmac au es"

fun checked_commits :: "keyed_hash \<Rightarrow> AuthManager \<Rightarrow> ra_event list \<Rightarrow> HashMsg set" where
  "checked_commits hmac au [] = {}"
| "checked_commits hmac au (e # es) = (case e of
     RACommit m \<Rightarrow> if checkMAC hmac au (hm_ID m) (hm_Hmac m) (hashToBytes (hm_Hash m)) (hm_Rnd m) then {m} else {}
   | _ \<Rightarrow> {}) \<union> checked_commits hmac au es"

lemma checked_finite: "finite (checked_prepares hmac au es)" "finite (checked_commits hmac au es)"
  by (induction es) (auto split: ra_event.split)

lemma ra_step_ok:
  assumes inv: "acceptor_inv B ps cs J a" and e: "ra_bounded B e"
    and ps: "checked_prepares hmac (ra_authmgr a) [e] \<subseteq> ps" and cs: "checked_commits hmac (ra_authmgr a) [e] \<subseteq> cs"
    and J: "\<And>r. prepare_quorum ps a r \<or> commit_quorum cs a r \<Longrightarrow> J r"
    and run: "ra_step hmac e a = Inr a'"
  shows "acceptor_inv B ps cs J a' \<and> ra_frame a a'"
proof -
  obtain N D where a: "acc_ok B ps cs N D a" "sent_ok D J (ra_ucast a)"
    using inv by (auto simp: acceptor_inv_def)
  show ?thesis
  proof (cases e)
    case (RAPublish m)
    then obtain pr b where b: "ra_handlePublish hmac m a = Inr (pr, b)" "ra_react hmac (pr, None) b = Inr a'"
      using run by (auto simp: bind_result_Inr_iff)
    have r: "unat (pub_Rnd m) \<le> B" using e RAPublish by (simp add: ra_bounded_def)
    show ?thesis using ra_react_ok [OF ra_handlePublish_ok [OF a(1) r b(1)] _ r a(2) b(2)] by simp
  next
    case (RAPrepare m)
    then obtain pc b where b: "ra_handlePrepare hmac m a = Inr (pc, b)" "ra_react hmac pc b = Inr a'"
      using run by (auto simp: bind_result_Inr_iff)
    have r: "unat (hm_Rnd m) \<le> B" using e RAPrepare by (simp add: ra_bounded_def)
    have "checkMAC hmac (ra_authmgr a) (hm_ID m) (hm_Hmac m) (hashToBytes (hm_Hash m)) (hm_Rnd m) \<Longrightarrow> m \<in> ps"
      using ps RAPrepare by simp
    from ra_react_ok [OF ra_handlePrepare_ok [OF a(1) r this b(1)] _ r a(2) b(2)] J show ?thesis by blast
  next
    case (RACommit m)
    then obtain pc b where b: "ra_handleCommit hmac m a = Inr (pc, b)" "ra_react hmac pc b = Inr a'"
      using run by (auto simp: bind_result_Inr_iff)
    have r: "unat (hm_Rnd m) \<le> B" using e RACommit by (simp add: ra_bounded_def)
    have "checkMAC hmac (ra_authmgr a) (hm_ID m) (hm_Hmac m) (hashToBytes (hm_Hash m)) (hm_Rnd m) \<Longrightarrow> m \<in> cs"
      using cs RACommit by simp
    from ra_react_ok [OF ra_handleCommit_ok [OF a(1) r this b(1)] _ r a(2) b(2)] J show ?thesis by blast
  next
    case (RAValReq q)
    have r: "unat (vreq_Rnd q) \<le> B" using e RAValReq by (simp add: ra_bounded_def)
    obtain s w where s: "s = ra_rounds a \<or> (\<exists>x. getAcceptorRound (vreq_Rnd q) (ra_rounds a) = Inr (x, s))"
      and a': "a' = ra_send (ra_id a) (BMValResp w) (a\<lparr>ra_rounds := s\<rparr>)"
    proof (cases "IsValid (vreq_Rnd q) (ra_rounds a)")
      case False
      then have "a' = ra_send (ra_id a) (BMValResp \<lparr>vresp_Rnd = vreq_Rnd q, vresp_Val = zeroValue\<rparr>)
          (a\<lparr>ra_rounds := ra_rounds a\<rparr>)"
        using run RAValReq by (simp add: ra_sendVal_def getRndValue_def)
      then show ?thesis using that by blast
    next
      case True
      then obtain x s where "getAcceptorRound (vreq_Rnd q) (ra_rounds a) = Inr (x, s)"
        using run RAValReq by (auto simp: ra_sendVal_def getRndValue_def bind_result_Inr_iff)
      moreover from this have "a' = ra_send (ra_id a)
          (BMValResp \<lparr>vresp_Rnd = vreq_Rnd q, vresp_Val = ar_Value x\<rparr>) (a\<lparr>ra_rounds := s\<rparr>)"
        using True run RAValReq by (simp add: ra_sendVal_def getRndValue_def)
      ultimately show ?thesis using that by blast
    qed
    have same: "a\<lparr>ra_rounds := ra_rounds a\<rparr> = a" by simp
    have "acc_ok B ps cs N D (a\<lparr>ra_rounds := s\<rparr>)"
      using s a(1) acc_ok_get [OF a(1) r] same by metis
    then have "acc_ok B ps cs N D a'" unfolding a' by (simp only: acc_ok_send)
    moreover have "commit_in (ra_ucast a') = commit_in (ra_ucast a)" by (simp add: a' fun_eq_iff ra_send_def)
    then have "sent_ok D J (ra_ucast a')" using a(2) unfolding sent_ok_def by (simp only:)
    moreover have "ra_frame a a'" by (simp add: a' ra_frame_def ra_send_def)
    ultimately show ?thesis unfolding acceptor_inv_def by blast
  qed
qed

lemma ra_run_ok:
  assumes "acceptor_inv B ps cs J a" and "\<forall>e\<in>set es. ra_bounded B e"
    and "checked_prepares hmac (ra_authmgr a) es \<subseteq> ps" and "checked_commits hmac (ra_authmgr a) es \<subseteq> cs"
    and "\<And>r. prepare_quorum ps a r \<or> commit_quorum cs a r \<Longrightarrow> J r"
    and "ra_run hmac es a = Inr a'"
  shows "acceptor_inv B ps cs J a'"
  using assms
proof (induction es arbitrary: a)
  case Nil
  then show ?case by simp
next
  case (Cons e es)
  obtain b where b: "ra_step hmac e a = Inr b" "ra_run hmac es b = Inr a'"
    using Cons.prems(6) by (auto simp: bind_result_Inr_iff)
  have e: "ra_bounded B e" "checked_prepares hmac (ra_authmgr a) [e] \<subseteq> ps" "checked_commits hmac (ra_authmgr a) [e] \<subseteq> cs"
    using Cons.prems(2-4) by auto
  have inv: "acceptor_inv B ps cs J b" and frame: "ra_frame a b"
    using ra_step_ok [OF Cons.prems(1) e Cons.prems(5) b(1)] by auto
  have "ra_authmgr b = ra_authmgr a" "ra_nFaulty b = ra_nFaulty a" using frame by (simp_all add: ra_frame_def)
  moreover from this have "prepare_quorum ps b = prepare_quorum ps a" "commit_quorum cs b = commit_quorum cs a"
    by (simp_all add: fun_eq_iff prepare_quorum_def commit_quorum_def)
  ultimately show ?case
    using Cons.IH [OF inv _ _ _ _ b(2)] Cons.prems(2-5) by simp
qed

lemma third:
  fixes n :: "64 word"
  shows "unat (2 * ((n - 1) div 3)) = 2 * unat ((n - 1) div 3)"
proof -
  have "3 * unat ((n - 1) div 3) \<le> unat (n - 1)" by (simp add: unat_div)
  also have "\<dots> < 2 ^ 64" using unsigned_less [of "n - 1"] by simp
  finally show ?thesis by (simp add: unat_word_ariths)
qed

lemma acceptor_inv_New:
  assumes "B + 2 * unat (windowLength alph) < 2 ^ 64" and "{m. hm_ID m = i} \<subseteq> ps \<inter> cs"
    and "finite (hm_ID ` ps)" and "finite (hm_ID ` cs)"
  shows "acceptor_inv B ps cs J (NewRelAcceptor i n alph ids au)"
proof -
  have "ar_ok ps cs False False r zeroAcceptorRound" for r by (simp add: ar_ok_def zeroAcceptorRound_def)
  then have "acc_ok B ps cs {} {} (NewRelAcceptor i n alph ids au)"
    using assms window_ok_New [of "windowLength alph" B zeroAcceptorRound]
    by (simp add: acc_ok_def NewRelAcceptor_def third add.commute)
  moreover have "sent_ok {} J (ra_ucast (NewRelAcceptor i n alph ids au))"
    by (simp add: sent_ok_def commit_in_def NewRelAcceptor_def)
  ultimately show ?thesis unfolding acceptor_inv_def by blast
qed

text \<open>The replica's own message is at most one of the messages counted.\<close>

lemma senders_own:
  assumes "finite ms"
  shows "card (senders (ms \<union> {m. hm_ID m = i}) r h) \<le> Suc (card (senders ms r h - {i}))"
proof -
  have "finite (senders ms r h - {i})" by (rule finite_subset [of _ "hm_ID ` ms"]) (use assms senders_subset in auto)
  moreover have "senders (ms \<union> {m. hm_ID m = i}) r h \<subseteq> insert i (senders ms r h - {i})"
    by (auto simp: senders_def)
  ultimately show ?thesis by (metis card_insert_le_m1 card_insert_if card_mono finite_insert insert_Diff_single le_SucI order_refl)
qed

lemma rel_acceptor_commits:
  assumes "ra_run hmac es (NewRelAcceptor i n alph ids au) = Ok a"
    and "B + 2 * unat (windowLength alph) < 2 ^ 64" and "\<forall>e\<in>set es. ra_bounded B e"
    and "commit_in (ra_ucast a) m"
  shows "(\<forall>m'. commit_in (ra_ucast a) m' \<longrightarrow> hm_Rnd m' = hm_Rnd m \<longrightarrow> hm_Hash m' = hm_Hash m) \<and>
    (\<exists>h. 2 * unat ((n - 1) div 3) \<le> card (senders (checked_prepares hmac au es) (hm_Rnd m) h - {i}) \<or>
      unat ((n - 1) div 3) \<le> card (senders (checked_commits hmac au es) (hm_Rnd m) h - {i}))"
proof -
  let ?own = "{m. hm_ID m = i}" and ?a0 = "NewRelAcceptor i n alph ids au"
  let ?ps = "checked_prepares hmac au es \<union> ?own" and ?cs = "checked_commits hmac au es \<union> ?own"
  let ?J = "\<lambda>r. prepare_quorum ?ps ?a0 r \<or> commit_quorum ?cs ?a0 r"
  have "hm_ID ` ?own \<subseteq> {i}" by auto
  then have "finite (hm_ID ` ?own)" using finite_subset by blast
  then have fin: "finite (hm_ID ` ?ps)" "finite (hm_ID ` ?cs)"
    unfolding image_Un using checked_finite by blast+
  have "acceptor_inv B ?ps ?cs ?J ?a0" using acceptor_inv_New [OF assms(2) _ fin] by blast
  then have "acceptor_inv B ?ps ?cs ?J a"
    by (rule ra_run_ok [OF _ assms(3) _ _ _ assms(1)]) (auto simp: NewRelAcceptor_def)
  then obtain D where sent: "sent_ok D ?J (ra_ucast a)" unfolding acceptor_inv_def by blast
  then have "?J (hm_Rnd m)" using assms(4) unfolding sent_ok_def by blast
  then consider h where "2 * unat ((n - 1) div 3) < card (senders ?ps (hm_Rnd m) h)"
    | h where "unat ((n - 1) div 3) < card (senders ?cs (hm_Rnd m) h)"
    by (auto simp: prepare_quorum_def commit_quorum_def NewRelAcceptor_def)
  then have "\<exists>h. 2 * unat ((n - 1) div 3) \<le> card (senders (checked_prepares hmac au es) (hm_Rnd m) h - {i}) \<or>
      unat ((n - 1) div 3) \<le> card (senders (checked_commits hmac au es) (hm_Rnd m) h - {i})"
    using senders_own [OF checked_finite(1)] senders_own [OF checked_finite(2)]
    by cases (meson less_Suc_eq_le less_le_trans)+
  then show ?thesis using sent assms(4) unfolding sent_ok_def by blast
qed

text \<open>
  C8. An acceptor of reliable broadcast commits to at most one hash per round: all the commits it has
  sent for a round carry the same one. And it has committed in a round only when, for some hash, it
  received prepares with the right code under at least \<open>2 f\<close> claimed identities other than its own, or
  commits with the right code under at least \<open>f\<close>, with \<open>f = (n - 1) div 3\<close>; the hash need not be the one it
  commits to. The rounds of the messages stay below a bound that keeps the window from wrapping around.
\<close>

theorem rel_acceptor_commits_once:
  assumes "ra_run hmac es (NewRelAcceptor i n alph ids au) = Ok a"
    and "B + 2 * unat (windowLength alph) < 2 ^ 64" and "\<forall>e\<in>set es. ra_bounded B e"
    and "commit_in (ra_ucast a) m"
  shows "(\<forall>m'. commit_in (ra_ucast a) m' \<longrightarrow> hm_Rnd m' = hm_Rnd m \<longrightarrow> hm_Hash m' = hm_Hash m) \<and>
    (\<exists>h. 2 * unat ((n - 1) div 3) \<le> card (senders (checked_prepares hmac au es) (hm_Rnd m) h - {i}) \<or>
      unat ((n - 1) div 3) \<le> card (senders (checked_commits hmac au es) (hm_Rnd m) h - {i}))"
  using rel_acceptor_commits [OF assms] .

section \<open>Agreement of learners\<close>

text \<open>
  What the codes are for: the replicas are \<open>R\<close>, and a checked commit of a replica outside \<open>F\<close> is one
  that its acceptor sent.
\<close>

definition authentic :: "gid set \<Rightarrow> gid set \<Rightarrow> (gid \<Rightarrow> RelAcceptor) \<Rightarrow> HashMsg set \<Rightarrow> bool" where
  "authentic R F acc ms \<longleftrightarrow> (\<forall>m\<in>ms. hm_ID m \<in> R \<and> (hm_ID m \<notin> F \<longrightarrow>
     (\<exists>m'. commit_in (ra_ucast (acc (hm_ID m))) m' \<and> hm_Rnd m' = hm_Rnd m \<and> hm_Hash m' = hm_Hash m)))"

abbreviation learned_commits :: "keyed_hash \<Rightarrow> AuthManager \<Rightarrow> rl_event list \<Rightarrow> HashMsg set" where
  "learned_commits hmac au es \<equiv> checked_forwards hmac au (map as_forward es)"

lemma quorums_agree:
  assumes R: "finite R" "card R = 3 * f + 1" "finite F" "card F \<le> f"
    and acc: "\<And>p m m'. p \<in> R - F \<Longrightarrow> commit_in (ra_ucast (acc p)) m \<Longrightarrow> commit_in (ra_ucast (acc p)) m' \<Longrightarrow>
      hm_Rnd m' = hm_Rnd m \<Longrightarrow> hm_Hash m' = hm_Hash m"
    and ms: "authentic R F acc ms" "authentic R F acc ms'"
    and h: "2 * f < card (senders ms r h)" "2 * f < card (senders ms' r h')"
  shows "h' = h"
proof -
  let ?S = "senders ms r h" and ?S' = "senders ms' r h'"
  have sub: "?S \<subseteq> R" "?S' \<subseteq> R" using ms by (auto simp: authentic_def senders_def)
  then have fin: "finite ?S" "finite ?S'" using R(1) finite_subset by auto
  have "card (?S \<union> ?S') \<le> 3 * f + 1" using card_mono [of R "?S \<union> ?S'"] sub R(1,2) by simp
  then have "f < card (?S \<inter> ?S')" using card_Un_Int [OF fin] h by linarith
  then have "\<not> ?S \<inter> ?S' \<subseteq> F" using card_mono [OF R(3)] R(4) by (meson leD le_trans)
  then obtain p where p: "p \<in> ?S" "p \<in> ?S'" "p \<in> R - F" using sub by blast
  obtain m where "commit_in (ra_ucast (acc p)) m" "hm_Rnd m = r" "hm_Hash m = h"
    using p(1,3) ms(1) by (force simp: authentic_def senders_def)
  moreover obtain m' where "commit_in (ra_ucast (acc p)) m'" "hm_Rnd m' = r" "hm_Hash m' = h'"
    using p(2,3) ms(2) by (force simp: authentic_def senders_def)
  ultimately show ?thesis using acc [OF p(3)] by blast
qed

lemma rel_learner_quorum:
  assumes "rl_run hmac es (NewRelLearner i n alph ids au) = Ok l" and "0 < n"
    and "B + 2 * unat (windowLength alph) < 2 ^ 64" and "\<forall>e\<in>set es. bounded_event B (as_forward e)"
    and "(dest, BMValReq q) \<in> set (al_ucast l)"
  shows "\<exists>h. 2 * unat ((n - 1) div 3) < card (senders (learned_commits hmac au es) (vreq_Rnd q) h)"
proof -
  have bound: "\<forall>e\<in>set (map as_forward es). bounded_event B e" using assms(4) by simp
  have "learner_ok B (learned_commits hmac au es) (answers (map as_forward es)) (NewAuthLearner i n alph ids au)"
    using learner_ok_New [OF assms(2,3) checked_forwards_finite] answers_bounded [OF bound] by blast
  from al_run_ok [OF this bound, of hmac] assms(1)
  have "learner_ok B (learned_commits hmac au es) (answers (map as_forward es)) l" "al_nFaulty l = (n - 1) div 3"
    by (simp_all add: NewAuthLearner_def NewRelLearner_eq rl_run_eq same_conf_def)
  then show ?thesis using assms(5) by (auto simp: learner_ok_def forward_quorum_def)
qed

text \<open>
  Agreement of reliable broadcast among \<open>n = 3 f + 1\<close> replicas of which \<open>f\<close> are faulty: when two
  learners have asked for the value of a round, there is one hash for which each holds a quorum of
  commits, and no other hash for which either does. The acceptors outside \<open>F\<close> run the code on any
  messages; the learners run it on commits which, when they are checked and from a correct replica,
  its acceptor has sent as commits. The codes alone do not give this: they do not cover the kind of a
  message.
\<close>

lemma rel_broadcast_agreement:
  assumes replicas: "finite R" "card R = unat n" "unat n = 3 * f + 1" "finite F" "card F \<le> f"
    and bound: "B + 2 * unat (windowLength alph) < 2 ^ 64"
    and acceptors: "\<forall>p\<in>R - F. ra_run hmac (aes p) (NewRelAcceptor p n alph ids (aus p)) = Ok (acc p) \<and>
      (\<forall>e\<in>set (aes p). ra_bounded B e)"
    and l: "rl_run hmac es (NewRelLearner i n alph ids au) = Ok l" "\<forall>e\<in>set es. bounded_event B (as_forward e)"
    and l': "rl_run hmac es' (NewRelLearner i' n alph ids au') = Ok l'" "\<forall>e\<in>set es'. bounded_event B (as_forward e)"
    and sent: "authentic R F acc (learned_commits hmac au es)" "authentic R F acc (learned_commits hmac au' es')"
    and asked: "(d, BMValReq q) \<in> set (al_ucast l)" "(d', BMValReq q) \<in> set (al_ucast l')"
  shows "\<exists>h. \<forall>h'. (2 * f < card (senders (learned_commits hmac au es) (vreq_Rnd q) h') \<longleftrightarrow> h' = h) \<and>
    (2 * f < card (senders (learned_commits hmac au' es') (vreq_Rnd q) h') \<longleftrightarrow> h' = h)"
proof -
  have n: "0 < n" using replicas(3) by (metis add_gr_0 unat_gt_0 word_gt_0 zero_less_one)
  have "unat (n - 1) = 3 * f" using replicas(3) n by (simp add: unat_minus_one word_gt_0)
  then have f: "unat ((n - 1) div 3) = f" by (simp add: unat_div)
  have R: "card R = 3 * f + 1" using replicas(2,3) by simp
  have once: "hm_Hash m' = hm_Hash m"
    if "p \<in> R - F" "commit_in (ra_ucast (acc p)) m" "commit_in (ra_ucast (acc p)) m'" "hm_Rnd m' = hm_Rnd m" for p m m'
    using rel_acceptor_commits [of hmac "aes p" p n alph ids "aus p" "acc p" B m] acceptors bound that by blast
  have agree: "h' = h" if "authentic R F acc ms" "authentic R F acc ms'" "2 * f < card (senders ms r h)"
      "2 * f < card (senders ms' r h')" for ms ms' r h h'
    using once by (rule quorums_agree [OF replicas(1) R replicas(4,5) _ that])
  obtain h where h: "2 * f < card (senders (learned_commits hmac au es) (vreq_Rnd q) h)"
    using rel_learner_quorum [OF l(1) n bound l(2) asked(1)] f by auto
  obtain h' where h': "2 * f < card (senders (learned_commits hmac au' es') (vreq_Rnd q) h')"
    using rel_learner_quorum [OF l'(1) n bound l'(2) asked(2)] f by auto
  have "h' = h" using agree sent h h' by blast
  then show ?thesis
    using h h' agree [OF sent(1) sent(1) h] agree [OF sent(1) sent(2) h] by blast
qed

section \<open>Concrete runs\<close>

text \<open>Four replicas share one key; replica 0 publishes in round 1, replica 3 is faulty.\<close>

definition one_key :: "gid \<Rightarrow> AuthManager" where
  "one_key p = \<lparr>au_ID = p, Keys = (\<lambda>_. Some [1])\<rparr>"

definition some_value_hash :: "32 word" where
  "some_value_hash = (case Value_Hash (Request_of [5]) of Inl _ \<Rightarrow> 0 | Inr h \<Rightarrow> h)"

definition hash_msg :: "gid \<Rightarrow> 32 word \<Rightarrow> gid \<Rightarrow> HashMsg" where
  "hash_msg p h q = \<lparr>hm_ID = q, hm_Hash = h, hm_Rnd = 1,
     hm_Hmac = generateMAC some_hash (one_key q) p (hashToBytes h) 1\<rparr>"

definition publish_event :: "gid \<Rightarrow> ra_event" where
  "publish_event p = RAPublish \<lparr>pub_ID = ID 0 0, pub_Rnd = 1, pub_Val = Request_of [5],
     pub_Hmac = generateMAC some_hash (one_key (ID 0 0)) p (hashToBytes some_value_hash) 1\<rparr>"

definition correct :: "gid list" where
  "correct = [ID 0 0, ID 1 0, ID 2 0]"

definition acceptor_events :: "gid \<Rightarrow> ra_event list" where
  "acceptor_events p = publish_event p #
     map (\<lambda>q. RAPrepare (hash_msg p some_value_hash q)) (List.filter (\<lambda>q. q \<noteq> p) correct)"

definition start_acceptor :: "gid \<Rightarrow> RelAcceptor" where
  "start_acceptor p = NewRelAcceptor p 4 3 replicas (one_key p)"

definition final_acceptor :: "gid \<Rightarrow> RelAcceptor" where
  "final_acceptor p = (case ra_run some_hash (acceptor_events p) (start_acceptor p) of
     Inl _ \<Rightarrow> start_acceptor p | Inr a \<Rightarrow> a)"

definition learner_events :: "gid \<Rightarrow> rl_event list" where
  "learner_events p = map (\<lambda>q. RLCommit (hash_msg p some_value_hash q)) correct"

definition start_learner :: "gid \<Rightarrow> RelLearner" where
  "start_learner p = NewRelLearner p 4 3 replicas (one_key p)"

fun committed :: "(gid \<times> bc_msg) list \<Rightarrow> (64 word \<times> 32 word) list" where
  "committed [] = []"
| "committed ((d, BMCommit m) # u) = (hm_Rnd m, hm_Hash m) # committed u"
| "committed (x # u) = committed u"

lemma committed_iff: "(r, h) \<in> set (committed u) \<longleftrightarrow> (\<exists>d m. (d, BMCommit m) \<in> set u \<and> hm_Rnd m = r \<and> hm_Hash m = h)"
  by (induction u rule: committed.induct) auto

lemma committed_commit_in: "(r, h) \<in> set (committed u) \<Longrightarrow> \<exists>m. commit_in u m \<and> hm_Rnd m = r \<and> hm_Hash m = h"
  by (auto simp: committed_iff commit_in_def)

lemma acceptors_commit:
  "list_all (\<lambda>p. case ra_run some_hash (acceptor_events p) (start_acceptor p) of Inl _ \<Rightarrow> False
     | Inr a \<Rightarrow> committed (ra_ucast a) = replicate 4 (1, some_value_hash)) correct"
  by code_simp

lemma learners_ask:
  "list_all (\<lambda>p. asked (rl_run some_hash (learner_events p) (start_learner p)) = [(p, BMValReq \<lparr>vreq_Rnd = 1\<rparr>)])
     [ID 1 0, ID 2 0]"
  by code_simp

text \<open>
  When its own prepare completes a quorum, an acceptor drops the commit: none is sent. The next
  prepare then makes it commit, to the hash in that prepare: here 9, for which there is no quorum and
  which the publisher has not sent.
\<close>

lemma own_prepare_loses_commit:
  "(case ra_run some_hash [RAPrepare (hash_msg (ID 1 0) some_value_hash (ID 0 0)),
        RAPrepare (hash_msg (ID 1 0) some_value_hash (ID 2 0)), publish_event (ID 1 0)] (start_acceptor (ID 1 0)) of
      Inl _ \<Rightarrow> False | Inr a \<Rightarrow> committed (ra_ucast a) = [])"
  by code_simp

lemma commits_to_the_last_hash:
  "(case ra_run some_hash [RAPrepare (hash_msg (ID 1 0) some_value_hash (ID 0 0)),
        RAPrepare (hash_msg (ID 1 0) some_value_hash (ID 2 0)), publish_event (ID 1 0),
        RAPrepare (hash_msg (ID 1 0) 9 (ID 3 0))] (start_acceptor (ID 1 0)) of
      Inl _ \<Rightarrow> False | Inr a \<Rightarrow> some_value_hash \<noteq> 9 \<and> committed (ra_ucast a) = replicate 4 (1, 9))"
  by code_simp

text \<open>
  A prepare and a commit of one hash have the same code: the prepare of replica 0, sent again as a
  commit together with the faulty one's, makes an acceptor commit.
\<close>

lemma prepare_replayed_as_commit:
  "(case ra_run some_hash [RACommit (hash_msg (ID 1 0) some_value_hash (ID 0 0)),
        RACommit (hash_msg (ID 1 0) some_value_hash (ID 3 0))] (start_acceptor (ID 1 0)) of
      Inl _ \<Rightarrow> False | Inr a \<Rightarrow> committed (ra_ucast a) = replicate 4 (1, some_value_hash))"
  by code_simp

lemma final_acceptor_run:
  assumes "p \<in> set correct"
  shows "ra_run some_hash (acceptor_events p) (start_acceptor p) = Inr (final_acceptor p)"
    and "(1, some_value_hash) \<in> set (committed (ra_ucast (final_acceptor p)))"
  using assms acceptors_commit by (auto simp: list_all_iff final_acceptor_def split: sum.splits)

lemma acceptor_events_bounded: "\<forall>e\<in>set (acceptor_events p). ra_bounded 10 e"
  by (auto simp: acceptor_events_def publish_event_def hash_msg_def ra_bounded_def)

theorem rel_acceptor_commits_once_witness:
  "\<exists>h. 2 \<le> card (senders (checked_prepares some_hash (one_key (ID 1 0)) (acceptor_events (ID 1 0))) 1 h - {ID 1 0}) \<or>
     1 \<le> card (senders (checked_commits some_hash (one_key (ID 1 0)) (acceptor_events (ID 1 0))) 1 h - {ID 1 0})"
proof -
  have p: "ID 1 0 \<in> set correct" by (simp add: correct_def)
  note run = final_acceptor_run [OF p]
  obtain m where m: "commit_in (ra_ucast (final_acceptor (ID 1 0))) m" "hm_Rnd m = 1"
    using committed_commit_in [OF run(2)] by blast
  show ?thesis
    using rel_acceptor_commits_once [OF run(1) [unfolded start_acceptor_def] _ acceptor_events_bounded m(1)] m(2)
    by (simp add: windowLength_def unat_div)
qed

lemma learned_commits_subset: "learned_commits hmac au es \<subseteq> {m. RLCommit m \<in> set es}"
proof (induction es)
  case (Cons e es)
  then show ?case by (cases e) auto
qed simp

lemma learned_authentic:
  "authentic (set replicas) {ID 3 0} final_acceptor (learned_commits some_hash au (learner_events p))"
proof -
  have "\<exists>q\<in>set correct. m = hash_msg p some_value_hash q"
    if "m \<in> learned_commits some_hash au (learner_events p)" for m
    using that learned_commits_subset [of some_hash au "learner_events p"] by (auto simp: learner_events_def)
  moreover have "hm_ID (hash_msg p h q) = q" "hm_Rnd (hash_msg p h q) = 1" "hm_Hash (hash_msg p h q) = h" for h q
    by (simp_all add: hash_msg_def)
  moreover have "set correct \<subseteq> set replicas" by (simp add: correct_def replicas_def)
  ultimately show ?thesis
    using committed_commit_in [OF final_acceptor_run(2)] unfolding authentic_def by fastforce
qed

lemma rel_broadcast_agreement_witness:
  "\<exists>h. \<forall>h'. (2 < card (senders (learned_commits some_hash (one_key (ID 1 0)) (learner_events (ID 1 0))) 1 h') \<longleftrightarrow> h' = h) \<and>
    (2 < card (senders (learned_commits some_hash (one_key (ID 2 0)) (learner_events (ID 2 0))) 1 h') \<longleftrightarrow> h' = h)"
proof -
  have ask: "asked (rl_run some_hash (learner_events p) (start_learner p)) = [(p, BMValReq \<lparr>vreq_Rnd = 1\<rparr>)]"
    if "p = ID 1 0 \<or> p = ID 2 0" for p
    using learners_ask that by auto
  have "\<exists>l. rl_run some_hash (learner_events p) (start_learner p) = Inr l \<and>
      (p, BMValReq \<lparr>vreq_Rnd = 1\<rparr>) \<in> set (al_ucast l)" if "p = ID 1 0 \<or> p = ID 2 0" for p
    using ask [OF that] by (cases "rl_run some_hash (learner_events p) (start_learner p)") (simp_all add: asked_def)
  then obtain l l' where l: "rl_run some_hash (learner_events (ID 1 0)) (start_learner (ID 1 0)) = Inr l"
      "(ID 1 0, BMValReq \<lparr>vreq_Rnd = 1\<rparr>) \<in> set (al_ucast l)"
    and l': "rl_run some_hash (learner_events (ID 2 0)) (start_learner (ID 2 0)) = Inr l'"
      "(ID 2 0, BMValReq \<lparr>vreq_Rnd = 1\<rparr>) \<in> set (al_ucast l')"
    by blast
  have bounded: "\<forall>e\<in>set (learner_events p). bounded_event 10 (as_forward e)" for p
    by (auto simp: learner_events_def hash_msg_def bounded_event_def)
  have "p \<in> set correct" if "p \<in> set replicas - {ID 3 0}" for p
    using that by (auto simp: correct_def replicas_def)
  then have acceptors: "\<forall>p\<in>set replicas - {ID 3 0}.
      ra_run some_hash (acceptor_events p) (NewRelAcceptor p 4 3 replicas (one_key p)) = Ok (final_acceptor p) \<and>
      (\<forall>e\<in>set (acceptor_events p). ra_bounded 10 e)"
    using final_acceptor_run(1) acceptor_events_bounded by (simp add: start_acceptor_def)
  have "card (set replicas) = unat (4 :: 64 word)" by (simp add: replicas_def)
  from rel_broadcast_agreement [OF _ this _ _ _ _ acceptors l(1) [unfolded start_learner_def] bounded
      l'(1) [unfolded start_learner_def] bounded learned_authentic learned_authentic l(2) l'(2), of 1]
  show ?thesis by (simp add: windowLength_def)
qed

end
