(* ===== verification/Reconfiguration.thy ===== *)
theory Reconfiguration
  imports RingReplacer "HOL-Library.Multiset"
begin

text \<open>
  The reconfiguration handler (\<open>src/reconfig/\<close>): it turns the messages of the ring replacer into
  reconfiguration commands, one at a time, and hands a new replica its first slot. The server, a
  goroutine of its own, calls \<open>SetReconfigInProgress\<close> and \<open>SignalReconfCompleted\<close>. A channel is the
  list of what was written to it; the channel of messages, which the handler reads and the server
  writes, is the list of what waits in it.
\<close>

record ReconfigHandler =
  rc_id :: gid
  rc_pxLeader :: gid
  reconfInProgress :: bool
  reconfMsgChan :: "ReconfMsg list"
  reconfMsgQueue :: "ReconfMsg list"
  rc_ucast :: "(gid \<times> ReconfMsg) list"
  reconfigCmdChan :: "ReconfigCmd list"
  rc_firstSlot :: "SlotID option"
  waitForFirstSlotChan :: "SlotID list"
  firstSlotClosed :: bool
  joined :: bool
  joinClosed :: bool

definition NewReconfigHandler :: "gid \<Rightarrow> gid \<Rightarrow> ReconfigHandler" where
  "NewReconfigHandler i leader =
     \<lparr>rc_id = i, rc_pxLeader = leader, reconfInProgress = False, reconfMsgChan = [],
      reconfMsgQueue = [], rc_ucast = [], reconfigCmdChan = [], rc_firstSlot = None,
      waitForFirstSlotChan = [], firstSlotClosed = False, joined = False, joinClosed = False\<rparr>"

definition SetReconfigInProgress :: "bool \<Rightarrow> ReconfigHandler \<Rightarrow> ReconfigHandler" where
  "SetReconfigInProgress inProgress rh = rh\<lparr>reconfInProgress := inProgress\<rparr>"

definition SignalReconfCompleted :: "ReconfigHandler \<Rightarrow> ReconfigHandler" where
  "SignalReconfCompleted rh =
     (let rh = rh\<lparr>reconfInProgress := False\<rparr>
      in case reconfMsgQueue rh of
           [] \<Rightarrow> rh
         | m # queue \<Rightarrow> rh\<lparr>reconfMsgChan := reconfMsgChan rh @ [m], reconfMsgQueue := queue\<rparr>)"

definition nodeIsPaxosLeader :: "ReconfigHandler \<Rightarrow> bool" where
  "nodeIsPaxosLeader rh \<longleftrightarrow> rc_id rh = rc_pxLeader rh"

definition rc_handleLdMsg :: "gid \<Rightarrow> ReconfigHandler \<Rightarrow> ReconfigHandler" where
  "rc_handleLdMsg pxLeaderID rh = rh\<lparr>rc_pxLeader := pxLeaderID\<rparr>"

definition createAndProposeReconfigCmd :: "ReconfMsg \<Rightarrow> ReconfigHandler \<Rightarrow> ReconfigHandler result" where
  "createAndProposeReconfigCmd recMsg rh =
     bind_result (index (rm_NewIds recMsg) 0) (\<lambda>new.
       Ok (rh\<lparr>reconfigCmdChan := reconfigCmdChan rh @ [\<lparr>rc_Nodes = rm_NodeMap recMsg, rc_New = new\<rparr>]\<rparr>))"

definition sendToLeader :: "ReconfMsg \<Rightarrow> ReconfigHandler \<Rightarrow> ReconfigHandler" where
  "sendToLeader recMsg rh = rh\<lparr>rc_ucast := rc_ucast rh @ [(rc_pxLeader rh, recMsg)]\<rparr>"

definition rc_handleRecMsg :: "ReconfMsg \<Rightarrow> ReconfigHandler \<Rightarrow> ReconfigHandler result" where
  "rc_handleRecMsg recMsg rh =
     (if \<not> nodeIsPaxosLeader rh then Ok (sendToLeader recMsg rh)
      else if reconfInProgress rh then Ok (rh\<lparr>reconfMsgQueue := reconfMsgQueue rh @ [recMsg]\<rparr>)
      else createAndProposeReconfigCmd recMsg (rh\<lparr>reconfInProgress := True\<rparr>))"

definition handleFirstSlot :: "SlotID \<Rightarrow> ReconfigHandler \<Rightarrow> ReconfigHandler" where
  "handleFirstSlot fs rh =
     (if rc_firstSlot rh = None
      then rh\<lparr>waitForFirstSlotChan := waitForFirstSlotChan rh @ [fs], rc_firstSlot := Some fs,
              firstSlotClosed := True\<rparr>
      else rh)"

definition handleJoin :: "ReconfigHandler \<Rightarrow> ReconfigHandler" where
  "handleJoin rh = (if \<not> joined rh then rh\<lparr>joinClosed := True, joined := True\<rparr> else rh)"

text \<open>
  \<open>RCReceive\<close> is a message of the ring replacer or of another replica, \<open>RCTake\<close> the handler reading
  what \<open>SignalReconfCompleted\<close> wrote; \<open>RCSetInProgress\<close> and \<open>RCCompleted\<close> are the calls of the server.
\<close>

datatype rc_event =
    RCReceive ReconfMsg
  | RCTake
  | RCLeader gid
  | RCFirstSlot SlotID
  | RCJoin
  | RCSetInProgress bool
  | RCCompleted

fun rc_step :: "rc_event \<Rightarrow> ReconfigHandler \<Rightarrow> ReconfigHandler result" where
  "rc_step (RCReceive recMsg) rh = rc_handleRecMsg recMsg rh"
| "rc_step RCTake rh =
     (case reconfMsgChan rh of [] \<Rightarrow> Ok rh
      | m # ms \<Rightarrow> rc_handleRecMsg m (rh\<lparr>reconfMsgChan := ms\<rparr>))"
| "rc_step (RCLeader ldMsg) rh = Ok (rc_handleLdMsg ldMsg rh)"
| "rc_step (RCFirstSlot fs) rh = Ok (handleFirstSlot fs rh)"
| "rc_step RCJoin rh = Ok (handleJoin rh)"
| "rc_step (RCSetInProgress b) rh = Ok (SetReconfigInProgress b rh)"
| "rc_step RCCompleted rh = Ok (SignalReconfCompleted rh)"

fun rc_run :: "rc_event list \<Rightarrow> ReconfigHandler \<Rightarrow> ReconfigHandler result" where
  "rc_run [] rh = Ok rh"
| "rc_run (e # es) rh = bind_result (rc_step e rh) (rc_run es)"

section \<open>No message is lost or handled twice\<close>

text \<open>Where a message that was received can be: sent to a leader, proposed, waiting or queued.\<close>

definition cmd_of :: "ReconfMsg \<Rightarrow> ReconfigCmd" where
  "cmd_of m = \<lparr>rc_Nodes = rm_NodeMap m, rc_New = hd (rm_NewIds m)\<rparr>"

definition accounted :: "ReconfigHandler \<Rightarrow> ReconfigCmd multiset" where
  "accounted rh = mset (map (\<lambda>(i, m). cmd_of m) (rc_ucast rh)) + mset (reconfigCmdChan rh) +
     mset (map cmd_of (reconfMsgChan rh)) + mset (map cmd_of (reconfMsgQueue rh))"

definition received :: "rc_event list \<Rightarrow> ReconfMsg list" where
  "received es = concat (map (\<lambda>e. case e of RCReceive m \<Rightarrow> [m] | _ \<Rightarrow> []) es)"

lemma rc_handleRecMsg_accounted:
  assumes "rc_handleRecMsg m rh = Inr rh'"
  shows "accounted rh' = add_mset (cmd_of m) (accounted rh)"
  using assms
  by (auto simp: rc_handleRecMsg_def accounted_def sendToLeader_def createAndProposeReconfigCmd_def
    bind_result_Inr_iff index_Inr_iff cmd_of_def hd_conv_nth split: if_splits)

lemma rc_step_accounted:
  assumes "rc_step e rh = Inr rh'"
  shows "accounted rh' = accounted rh + mset (map cmd_of (received [e]))"
proof (cases e)
  case RCTake
  then show ?thesis
    using assms rc_handleRecMsg_accounted
    by (auto simp: received_def accounted_def split: list.splits) 
qed (use assms rc_handleRecMsg_accounted in \<open>auto simp: received_def accounted_def
    rc_handleLdMsg_def handleFirstSlot_def handleJoin_def SetReconfigInProgress_def
    SignalReconfCompleted_def Let_def split: list.splits\<close>)

lemma rc_run_accounted:
  "rc_run es rh = Inr rh' \<Longrightarrow> accounted rh' = accounted rh + mset (map cmd_of (received es))"
proof (induction es arbitrary: rh)
  case (Cons e es)
  then show ?case
    using rc_step_accounted [of e rh] by (auto simp: bind_result_Inr_iff received_def)
qed (simp add: received_def)

text \<open>
  Every reconfiguration message is, at every point of a run, in exactly one place: forwarded to a
  leader, proposed, or waiting.
\<close>

lemma reconfig_messages_conserved:
  assumes "rc_run es (NewReconfigHandler i leader) = Ok rh"
  shows "accounted rh = mset (map cmd_of (received es))"
  using rc_run_accounted [OF assms] by (simp add: accounted_def NewReconfigHandler_def)

section \<open>One command at a time\<close>

text \<open>Only a call of the server ends a reconfiguration: without one, at most one command is proposed.\<close>

lemma rc_step_single:
  assumes "rc_step e rh = Inr rh'" and "e \<noteq> RCCompleted" and "\<forall>b. e \<noteq> RCSetInProgress b"
  shows "(reconfInProgress rh \<longrightarrow> reconfInProgress rh' \<and> reconfigCmdChan rh' = reconfigCmdChan rh) \<and>
    (\<not> reconfInProgress rh' \<longrightarrow> reconfigCmdChan rh' = reconfigCmdChan rh) \<and>
    length (reconfigCmdChan rh') \<le> Suc (length (reconfigCmdChan rh))"
  using assms
  by (cases e) (auto simp: rc_handleRecMsg_def sendToLeader_def createAndProposeReconfigCmd_def
    bind_result_Inr_iff rc_handleLdMsg_def handleFirstSlot_def handleJoin_def split: if_splits list.splits)

text \<open>
  The server defers \<open>SetReconfigInProgress(false)\<close> to the end of a command it executes, after
  \<open>SignalReconfCompleted\<close>: the handler has by then proposed the next message from its queue, and a
  third message is proposed beside it.
\<close>

definition some_msg :: "gid \<Rightarrow> ReconfMsg" where
  "some_msg i = \<lparr>rm_NodeMap = [], rm_NewIds = [i], rm_AduSlot = 0\<rparr>"

lemma deferred_reset_overlaps:
  "(case rc_run [RCReceive (some_msg (ID 1 1)), RCReceive (some_msg (ID 2 1)), RCCompleted, RCTake,
        RCSetInProgress False, RCReceive (some_msg (ID 3 1))] (NewReconfigHandler (ID 0 0) (ID 0 0)) of
      Inl _ \<Rightarrow> False
    | Inr rh \<Rightarrow> map rc_New (reconfigCmdChan rh) = [ID 1 1, ID 2 1, ID 3 1])"
  by code_simp

text \<open>A message without new ids is logged, and then indexed.\<close>

lemma no_new_ids_panics:
  "rc_id rh = rc_pxLeader rh \<Longrightarrow> \<not> reconfInProgress rh \<Longrightarrow> rm_NewIds m = [] \<Longrightarrow>
    rc_step (RCReceive m) rh = Fault IndexOutOfRange"
  by (simp add: rc_handleRecMsg_def nodeIsPaxosLeader_def createAndProposeReconfigCmd_def index_def)

text \<open>What a new replica waits for is signalled once.\<close>

lemma first_slot_once:
  assumes "rc_run es (NewReconfigHandler i leader) = Ok rh"
  shows "waitForFirstSlotChan rh = (case rc_firstSlot rh of None \<Rightarrow> [] | Some fs \<Rightarrow> [fs])"
proof -
  have "waitForFirstSlotChan rh' = (case rc_firstSlot rh' of None \<Rightarrow> [] | Some fs \<Rightarrow> [fs])"
    if "rc_run es rh0 = Inr rh'" "waitForFirstSlotChan rh0 = (case rc_firstSlot rh0 of None \<Rightarrow> [] | Some fs \<Rightarrow> [fs])"
    for es rh0 rh'
    using that
  proof (induction es arbitrary: rh0)
    case (Cons e es)
    obtain rh1 where rh1: "rc_step e rh0 = Inr rh1" "rc_run es rh1 = Inr rh'"
      using Cons.prems(1) by (auto simp: bind_result_Inr_iff)
    have "waitForFirstSlotChan rh1 = (case rc_firstSlot rh1 of None \<Rightarrow> [] | Some fs \<Rightarrow> [fs])"
      using rh1(1) Cons.prems(2)
      by (cases e) (auto simp: rc_handleRecMsg_def sendToLeader_def createAndProposeReconfigCmd_def
        bind_result_Inr_iff rc_handleLdMsg_def handleFirstSlot_def handleJoin_def SetReconfigInProgress_def
        SignalReconfCompleted_def Let_def split: if_splits list.splits)
    then show ?case using Cons.IH rh1(2) by blast
  qed simp
  then show ?thesis using assms by (simp add: NewReconfigHandler_def)
qed

end
