(* ===== verification/Server.thy ===== *)
theory Server
  imports Reconfiguration SlotMaps
begin

text \<open>
  The server (\<open>src/server/\<close>): it collects client requests into batches and proposes them, executes
  the decided values on the application in the order the learner delivers them, and carries out
  reconfiguration commands. The application (an \<open>app.Handler\<close>) is a parameter with a state of any
  type. A channel that is written is the list of what was written.
\<close>

section \<open>State\<close>

record Response =
  resp_Type :: "32 word"
  resp_Id :: string
  resp_Seq :: "32 word"
  resp_Val :: "8 word list"

text \<open>The application interface: \<open>Execute\<close> and \<open>GetState\<close>.\<close>

record 'a handler =
  Execute :: "'a \<Rightarrow> 8 word list \<Rightarrow> 8 word list \<times> 'a"
  GetState :: "'a \<Rightarrow> 64 word \<Rightarrow> 64 word \<times> 8 word list"

datatype timer = Uninitialised | Stopped | Armed

text \<open>The messages that a reconfiguration writes to the new node.\<close>

datatype join_msg = FirstSlot SlotID | Join

record 'a Server =
  srv_id :: gid
  srv_pxLeader :: gid
  srv_alpha :: int
  propChan :: "Value list"
  propDcdChan :: "bool list"
  srv_responses :: "Response list"
  appStates :: "(SlotID \<times> 8 word list) list"
  srv_grpmgr :: GrpMgr
  held :: bool
  reconfigHandler :: "ReconfigHandler option"
  newNodeMsgs :: "(gid \<times> join_msg) list"
  localAru :: Adu
  firstSlot :: SlotID
  ah :: 'a
  stopping :: bool
  batchMaxSize :: "64 word"
  batchBuffer :: "Request option list"
  batchNextIndex :: "64 word"
  batchTimer :: timer

definition NewServer ::
  "gid \<Rightarrow> int \<Rightarrow> 64 word \<Rightarrow> GrpMgr \<Rightarrow> ReconfigHandler option \<Rightarrow> 'a \<Rightarrow> 'a Server" where
  "NewServer i alph maxSize gm rh app =
     \<lparr>srv_id = i, srv_pxLeader = UndefinedID, srv_alpha = alph, propChan = [], propDcdChan = [],
      srv_responses = [], appStates = [], srv_grpmgr = gm, held = False, reconfigHandler = rh,
      newNodeMsgs = [], localAru = NewAdu 0, firstSlot = 1, ah = app, stopping = False,
      batchMaxSize = maxSize, batchBuffer = [], batchNextIndex = 0, batchTimer = Armed\<rparr>"

text \<open>The constructor for a standby node leaves out the fields of batching.\<close>

definition NewStandbyServer ::
  "gid \<Rightarrow> int \<Rightarrow> GrpMgr \<Rightarrow> ReconfigHandler option \<Rightarrow> 'a \<Rightarrow> SlotID \<Rightarrow> 'a Server" where
  "NewStandbyServer i alph gm rh app slotMarker =
     \<lparr>srv_id = i, srv_pxLeader = ID 0 0, srv_alpha = alph, propChan = [], propDcdChan = [],
      srv_responses = [], appStates = [], srv_grpmgr = gm, held = False, reconfigHandler = rh,
      newNodeMsgs = [], localAru = NewAdu slotMarker, firstSlot = slotMarker + 1, ah = app,
      stopping = False, batchMaxSize = 0, batchBuffer = [], batchNextIndex = 0,
      batchTimer = Uninitialised\<rparr>"

section \<open>Batches\<close>

text \<open>Resetting or stopping a timer that was never made panics.\<close>

definition setTimer :: "timer \<Rightarrow> 'a Server \<Rightarrow> 'a Server result" where
  "setTimer t s =
     (if batchTimer s = Uninitialised then Fault (Panic ''uninitialized Timer'')
      else Ok (s\<lparr>batchTimer := t\<rparr>))"

definition propose :: "Value \<Rightarrow> 'a Server \<Rightarrow> 'a Server" where
  "propose v s = s\<lparr>propChan := propChan s @ [v]\<rparr>"

definition appValueOf :: "Request list \<Rightarrow> Value" where
  "appValueOf reqs = \<lparr>Vt = App, Cr = reqs, Rc = None\<rparr>"

definition appendToBatch :: "Request \<Rightarrow> 'a Server \<Rightarrow> 'a Server result" where
  "appendToBatch req s =
     bind_result
       (if batchNextIndex s = 0
        then setTimer Armed (s\<lparr>batchBuffer := replicate (unat (batchMaxSize s)) None\<rparr>) else Ok s) (\<lambda>s.
       bind_result (update_index (batchBuffer s) (uint (batchNextIndex s)) (Some req)) (\<lambda>buf.
         Ok (s\<lparr>batchBuffer := buf, batchNextIndex := batchNextIndex s + 1\<rparr>)))"

text \<open>A request that was not filled in is a nil pointer, whose accessors return zero values.\<close>

definition zeroRequest :: Request where
  "zeroRequest = \<lparr>req_Type = None, req_Id = None, req_Seq = None, req_Val = []\<rparr>"

definition requestAt :: "Request option \<Rightarrow> Request" where
  "requestAt r = (case r of None \<Rightarrow> zeroRequest | Some r \<Rightarrow> r)"

definition srv_sendBatch :: "'a Server \<Rightarrow> 'a Server result" where
  "srv_sendBatch s =
     bind_result (setTimer Stopped s) (\<lambda>s.
       if batchNextIndex s = 0 then Ok s
       else if unat (batchNextIndex s) > length (batchBuffer s) then Fault IndexOutOfRange
       else Ok ((propose (appValueOf (map requestAt (take (unat (batchNextIndex s)) (batchBuffer s)))) s)
         \<lparr>batchNextIndex := 0\<rparr>))"

definition handleClientReq :: "Request \<Rightarrow> 'a Server \<Rightarrow> 'a Server result" where
  "handleClientReq req s =
     (if batchMaxSize s = 1 then Ok (propose (appValueOf [req]) s)
      else bind_result (appendToBatch req s) (\<lambda>s.
        if batchNextIndex s = batchMaxSize s then srv_sendBatch s else Ok s))"

section \<open>Execution\<close>

definition genRespForReq :: "Request \<Rightarrow> 8 word list \<Rightarrow> Response" where
  "genRespForReq req appresp =
     \<lparr>resp_Type = 2, resp_Id = GetId req, resp_Seq = GetSeq req, resp_Val = appresp\<rparr>"

definition executeReq :: "'a handler \<Rightarrow> Request \<Rightarrow> 'a Server \<Rightarrow> 'a Server" where
  "executeReq app req s =
     (let (appresp, st) = Execute app (ah s) (GetVal req)
      in s\<lparr>ah := st, srv_responses := srv_responses s @ [genRespForReq req appresp],
           localAru := Increment (localAru s)\<rparr>)"

definition informProposer :: "bool \<Rightarrow> 'a Server \<Rightarrow> 'a Server" where
  "informProposer informProp s = (if informProp then s\<lparr>propDcdChan := propDcdChan s @ [True]\<rparr> else s)"

text \<open>\<open>handleDecidedVal\<close> on a value that is not a reconfiguration command.\<close>

definition executeVal :: "'a handler \<Rightarrow> Value \<Rightarrow> bool \<Rightarrow> 'a Server \<Rightarrow> 'a Server" where
  "executeVal app val informProp s =
     (if Vt val = Noop then informProposer informProp (s\<lparr>localAru := Increment (localAru s)\<rparr>)
      else informProposer informProp (fold (executeReq app) (Cr val) s))"

section \<open>Reconfiguration\<close>

text \<open>
  What the network answers to the three attempts to reach the new node, and what the server reads
  while it waits for the last slots of the old configuration: decided values, client requests, or
  (\<open>PreDefault\<close>) nothing at the moment.
\<close>

datatype pre_input = PreDecided Value | PreRequest Request | PreDefault

record outcome =
  connectedNew :: bool
  firstSlotWritten :: bool
  joinWritten :: bool
  connectionAdded :: bool
  preInputs :: "pre_input list"

text \<open>
  The result of a wait: whether it ended with an error, or \<open>Diverges\<close> when the inputs do not end it.
\<close>

fun handlePreReconfigAsLeader ::
  "'a handler \<Rightarrow> int \<Rightarrow> int \<Rightarrow> int \<Rightarrow> pre_input list \<Rightarrow> 'a Server \<Rightarrow> (bool \<times> 'a Server) result" where
  "handlePreReconfigAsLeader app cmdsToFill nrProposed decided [] s = Fault Diverges"
| "handlePreReconfigAsLeader app cmdsToFill nrProposed decided (PreDecided val # ins) s =
     (if Vt val = Reconfig then Ok (True, s)
      else
        let s = executeVal app val False s
        in if decided + 1 = cmdsToFill then Ok (False, s)
           else handlePreReconfigAsLeader app cmdsToFill nrProposed (decided + 1) ins s)"
| "handlePreReconfigAsLeader app cmdsToFill nrProposed decided (PreRequest req # ins) s =
     (if nrProposed < cmdsToFill
      then handlePreReconfigAsLeader app cmdsToFill (nrProposed + 1) decided ins (propose (appValueOf [req]) s)
      else handlePreReconfigAsLeader app cmdsToFill nrProposed decided ins s)"
| "handlePreReconfigAsLeader app cmdsToFill nrProposed decided (PreDefault # ins) s =
     (if nrProposed \<ge> cmdsToFill
      then handlePreReconfigAsLeader app cmdsToFill nrProposed decided ins s
      else handlePreReconfigAsLeader app cmdsToFill (nrProposed + 1) decided ins
             (propose \<lparr>Vt = Noop, Cr = [], Rc = None\<rparr> s))"

fun handlePreReconfigAsNonLeader ::
  "'a handler \<Rightarrow> int \<Rightarrow> int \<Rightarrow> pre_input list \<Rightarrow> 'a Server \<Rightarrow> (bool \<times> 'a Server) result" where
  "handlePreReconfigAsNonLeader app cmdsToFill decided [] s = Fault Diverges"
| "handlePreReconfigAsNonLeader app cmdsToFill decided (PreDecided val # ins) s =
     (if Vt val = Reconfig then Ok (True, s)
      else
        let s = executeVal app val False s
        in if decided + 1 = cmdsToFill then Ok (False, s)
           else handlePreReconfigAsNonLeader app cmdsToFill (decided + 1) ins s)"
| "handlePreReconfigAsNonLeader app cmdsToFill decided (_ # ins) s =
     handlePreReconfigAsNonLeader app cmdsToFill decided ins s"

definition onHandler :: "(ReconfigHandler \<Rightarrow> ReconfigHandler) \<Rightarrow> 'a Server \<Rightarrow> 'a Server result" where
  "onHandler f s =
     (case reconfigHandler s of None \<Rightarrow> Fault NilDereference
      | Some rh \<Rightarrow> Ok (s\<lparr>reconfigHandler := Some (f rh)\<rparr>))"

definition write_new :: "gid \<Rightarrow> join_msg \<Rightarrow> 'a Server \<Rightarrow> 'a Server" where
  "write_new new m s = s\<lparr>newNodeMsgs := newNodeMsgs s @ [(new, m)]\<rparr>"

definition preReconfig ::
  "'a handler \<Rightarrow> pre_input list \<Rightarrow> 'a Server \<Rightarrow> (bool \<times> 'a Server) result" where
  "preReconfig app ins s =
     (if srv_id s = srv_pxLeader s
      then handlePreReconfigAsLeader app (srv_alpha s - 1) 0 0 ins s
      else handlePreReconfigAsNonLeader app (srv_alpha s - 1) 0 ins s)"

text \<open>From \<open>reached last slot\<close> on. The modules stay held when a write to the new node fails.\<close>

definition installConfig :: "outcome \<Rightarrow> ReconfigCmd \<Rightarrow> 'a Server \<Rightarrow> 'a Server result" where
  "installConfig out cmd s =
     (if rc_New cmd = srv_id s then Ok (s\<lparr>stopping := True\<rparr>)
      else
        let s = s\<lparr>held := True\<rparr>
        in bind_result (SetNewNodeMap (rc_Nodes cmd) (srv_grpmgr s)) (\<lambda>gm.
          let s = s\<lparr>srv_grpmgr := gm\<rparr>
          in if \<not> joinWritten out then Ok s
             else
               let s = write_new (rc_New cmd) Join s
               in if \<not> connectionAdded out then Ok s
                  else bind_result (onHandler SignalReconfCompleted (s\<lparr>held := False\<rparr>)) (\<lambda>s.
                    Ok (s\<lparr>propDcdChan := propDcdChan s @ replicate (nat (srv_alpha s)) True\<rparr>))))"

definition reconfigBody :: "'a handler \<Rightarrow> outcome \<Rightarrow> ReconfigCmd \<Rightarrow> 'a Server \<Rightarrow> 'a Server result" where
  "reconfigBody app out cmd s =
     (let first = adu_val (localAru s) + of_int (srv_alpha s)
      in if \<not> connectedNew out then Ok s
         else if \<not> firstSlotWritten out then Ok s
         else
           let s = write_new (rc_New cmd) (FirstSlot first) s
           in bind_result (preReconfig app (preInputs out) s) (\<lambda>(err, s).
                if err then Ok s else installConfig out cmd s))"

definition handleReconfigCmd :: "'a handler \<Rightarrow> outcome \<Rightarrow> ReconfigCmd \<Rightarrow> 'a Server \<Rightarrow> 'a Server result" where
  "handleReconfigCmd app out cmd s =
     bind_result (reconfigBody app out cmd s) (onHandler (SetReconfigInProgress False))"

definition handleDecidedVal ::
  "'a handler \<Rightarrow> outcome \<Rightarrow> Value \<Rightarrow> bool \<Rightarrow> 'a Server \<Rightarrow> 'a Server result" where
  "handleDecidedVal app out val informProp s =
     (if Vt val \<noteq> Reconfig then Ok (executeVal app val informProp s)
      else
        bind_result
          (if adu_val (localAru s) \<ge> firstSlot s - 1
           then case Rc val of None \<Rightarrow> Fault NilDereference
                | Some cmd \<Rightarrow> handleReconfigCmd app out cmd s
           else Ok s)
          (\<lambda>s. Ok (s\<lparr>localAru := Increment (localAru s)\<rparr>)))"

definition handleAppStateReq :: "'a handler \<Rightarrow> 'a Server \<Rightarrow> 'a Server" where
  "handleAppStateReq app s =
     (let (slotMarker, state) = GetState app (ah s) (adu_val (localAru s))
      in s\<lparr>appStates := appStates s @ [(slotMarker, state)]\<rparr>)"

section \<open>The loop\<close>

text \<open>
  A tick of the batch timer may still be in its channel when the timer is stopped or set again. The
  channel of a timer that was never made is nil.
\<close>

datatype srv_event =
    SrvLeader gid
  | SrvRequest Request
  | SrvTimer
  | SrvReconfigCmd ReconfigCmd
  | SrvDecided Value outcome
  | SrvAppStateReq

fun srv_step :: "'a handler \<Rightarrow> srv_event \<Rightarrow> 'a Server \<Rightarrow> 'a Server result" where
  "srv_step app (SrvLeader pxLeaderID) s = Ok (s\<lparr>srv_pxLeader := pxLeaderID\<rparr>)"
| "srv_step app (SrvRequest req) s = handleClientReq req s"
| "srv_step app SrvTimer s = (if batchTimer s = Uninitialised then Ok s else srv_sendBatch s)"
| "srv_step app (SrvReconfigCmd cmd) s = Ok (propose \<lparr>Vt = Reconfig, Cr = [], Rc = Some cmd\<rparr> s)"
| "srv_step app (SrvDecided val out) s = handleDecidedVal app out val True s"
| "srv_step app SrvAppStateReq s = Ok (handleAppStateReq app s)"

fun srv_run :: "'a handler \<Rightarrow> srv_event list \<Rightarrow> 'a Server \<Rightarrow> 'a Server result" where
  "srv_run app [] s = Ok s"
| "srv_run app (e # es) s = bind_result (srv_step app e s) (srv_run app es)"

end
