(* ===== verification/ServerRuns.thy ===== *)
theory ServerRuns
  imports Server Cluster
begin

text \<open>
  What the server promises: every request is proposed once, in order, in a batch of bounded size;
  decided values are executed in order, and so the replicas of a cluster answer alike. And what goes
  wrong: the count of slots counts requests, and the first slot of a new configuration is announced
  one too low.
\<close>

section \<open>Batches\<close>

definition pending :: "'a Server \<Rightarrow> Request list" where
  "pending s = map requestAt (take (unat (batchNextIndex s)) (batchBuffer s))"

definition proposedReqs :: "'a Server \<Rightarrow> Request list" where
  "proposedReqs s = concat (map Cr (List.filter (\<lambda>v. Vt v = App) (propChan s)))"

definition batch_ok :: "64 word \<Rightarrow> Request list \<Rightarrow> 'a Server \<Rightarrow> bool" where
  "batch_ok m reqs s \<longleftrightarrow> batchMaxSize s = m \<and> batchTimer s \<noteq> Uninitialised \<and>
     unat (batchNextIndex s) < unat m \<and>
     (batchNextIndex s \<noteq> 0 \<longrightarrow> length (batchBuffer s) = unat m \<and> batchTimer s = Armed) \<and>
     proposedReqs s @ pending s = reqs \<and>
     (\<forall>v\<in>set (propChan s). Vt v = App \<longrightarrow> 1 \<le> length (Cr v) \<and> length (Cr v) \<le> unat m)"

lemma batch_ok_New: "0 < m \<Longrightarrow> batch_ok m [] (NewServer i alph m gm rh app)"
  by (simp add: batch_ok_def NewServer_def pending_def proposedReqs_def word_less_nat_alt)

text \<open>Steps that do not touch the batch.\<close>

definition same_batch :: "'a Server \<Rightarrow> 'a Server \<Rightarrow> bool" where
  "same_batch s s' \<longleftrightarrow> batchMaxSize s' = batchMaxSize s \<and> batchTimer s' = batchTimer s \<and>
     batchNextIndex s' = batchNextIndex s \<and> batchBuffer s' = batchBuffer s \<and> propChan s' = propChan s"

lemma batch_ok_same: "batch_ok m reqs s \<Longrightarrow> same_batch s s' \<Longrightarrow> batch_ok m reqs s'"
  by (simp add: batch_ok_def same_batch_def pending_def proposedReqs_def)

lemma same_batch_executeReq: "same_batch s (executeReq app r s)"
  by (simp add: same_batch_def executeReq_def split: prod.split)

lemma same_batch_fold: "same_batch s (fold (executeReq app) rs s)"
proof (induction rs arbitrary: s)
  case (Cons r rs)
  show ?case using Cons [of "executeReq app r s"] same_batch_executeReq [of s app r] by (simp add: same_batch_def)
qed (simp add: same_batch_def)

lemma same_batch_executeVal: "same_batch s (executeVal app v b s)"
  using same_batch_fold [of s app "Cr v"]
  by (simp add: executeVal_def informProposer_def same_batch_def)

lemma srv_sendBatch_ok:
  assumes m: "batchMaxSize s = m" and t: "batchTimer s \<noteq> Uninitialised"
    and n: "unat (batchNextIndex s) \<le> unat m" "0 < unat m"
    and buf: "batchNextIndex s \<noteq> 0 \<longrightarrow> length (batchBuffer s) = unat m"
    and reqs: "proposedReqs s @ pending s = reqs"
    and sizes: "\<forall>v\<in>set (propChan s). Vt v = App \<longrightarrow> 1 \<le> length (Cr v) \<and> length (Cr v) \<le> unat m"
  shows "\<exists>s'. srv_sendBatch s = Inr s' \<and> batch_ok m reqs s'"
proof (cases "batchNextIndex s = 0")
  case True
  then show ?thesis
    using assms by (simp add: srv_sendBatch_def setTimer_def batch_ok_def pending_def proposedReqs_def)
next
  case False
  let ?v = "appValueOf (pending s)"
  have "0 < unat (batchNextIndex s)" using False by (simp add: unat_gt_0)
  then have len: "length (pending s) = unat (batchNextIndex s)" using buf n False by (simp add: pending_def)
  let ?s = "(propose ?v (s\<lparr>batchTimer := Stopped\<rparr>))\<lparr>batchNextIndex := 0\<rparr>"
  have "srv_sendBatch s = Inr ?s" using False t buf n by (simp add: srv_sendBatch_def setTimer_def pending_def)
  moreover have "proposedReqs ?s = proposedReqs s @ pending s"
    by (simp add: proposedReqs_def propose_def appValueOf_def)
  then have "batch_ok m reqs ?s"
    using m n reqs sizes len \<open>0 < unat (batchNextIndex s)\<close>
    by (simp add: batch_ok_def propose_def appValueOf_def pending_def)
  ultimately show ?thesis by blast
qed

lemma update_index_word: "unat w < length xs \<Longrightarrow> update_index xs (uint w) x = Inr (xs[unat w := x])"
proof -
  assume "unat w < length xs"
  then have "uint w < int (length xs)" unfolding uint_nat by (simp only: of_nat_less_iff)
  then show ?thesis by (simp add: update_index_def)
qed

lemma handleClientReq_ok:
  assumes ok: "batch_ok m reqs s"
  shows "\<exists>s'. handleClientReq r s = Inr s' \<and> batch_ok m (reqs @ [r]) s'"
proof (cases "m = 1")
  case True
  then have "batchNextIndex s = 0" using ok by (simp add: batch_ok_def unat_eq_0)
  then show ?thesis
    using True ok by (simp add: handleClientReq_def batch_ok_def propose_def appValueOf_def proposedReqs_def pending_def)
next
  case False
  let ?n = "unat (batchNextIndex s)"
  have m: "batchMaxSize s = m" "batchTimer s \<noteq> Uninitialised" "?n < unat m" using ok by (simp_all add: batch_ok_def)
  define buf where "buf = (if batchNextIndex s = 0 then replicate (unat m) None else batchBuffer s)"
  have len: "length buf = unat m" using ok by (simp add: buf_def batch_ok_def)
  define s1 where "s1 = s\<lparr>batchBuffer := buf[?n := Some r], batchNextIndex := batchNextIndex s + 1, batchTimer := Armed\<rparr>"
  have app: "appendToBatch r s = Inr s1"
  proof (cases "batchNextIndex s = 0")
    case True
    have "0 < int (unat m)" using m(3) by linarith
    then have "0 < uint m" unfolding uint_nat .
    then show ?thesis using True m len by (simp add: appendToBatch_def setTimer_def s1_def buf_def update_index_def)
  next
    case False
    then have armed: "batchTimer s = Armed" "buf = batchBuffer s" using ok by (simp_all add: batch_ok_def buf_def)
    have "update_index (batchBuffer s) (uint (batchNextIndex s)) (Some r) = Inr (buf[?n := Some r])"
      using m(3) len update_index_word [of "batchNextIndex s" "batchBuffer s"] armed(2) by simp
    moreover have "s1 = s\<lparr>batchBuffer := buf[?n := Some r], batchNextIndex := batchNextIndex s + 1\<rparr>"
      using armed(1) by (cases s) (simp add: s1_def)
    ultimately show ?thesis using False unfolding appendToBatch_def by simp
  qed
  have "unat m < 2 ^ LENGTH(64)" by (rule unsigned_less)
  then have "Suc ?n < 2 ^ 64" using m(3) by simp
  then have next1: "unat (batchNextIndex s + 1) = Suc ?n" by (simp add: unat_word_ariths)
  have "take (Suc ?n) (buf[?n := Some r]) = take ?n buf @ [Some r]"
    using m(3) len by (simp add: take_Suc_conv_app_nth)
  moreover have "map requestAt (take ?n buf) = pending s" by (simp add: pending_def buf_def)
  ultimately have pend: "pending s1 = pending s @ [r]" by (simp add: pending_def s1_def next1 requestAt_def)
  have props: "proposedReqs s1 @ pending s1 = reqs @ [r]"
    using ok pend by (simp add: proposedReqs_def s1_def batch_ok_def)
  have sizes: "\<forall>v\<in>set (propChan s1). Vt v = App \<longrightarrow> 1 \<le> length (Cr v) \<and> length (Cr v) \<le> unat m"
    using ok by (simp add: batch_ok_def s1_def)
  show ?thesis
  proof (cases "batchNextIndex s1 = m")
    case True
    then have "handleClientReq r s = srv_sendBatch s1" using False app m by (simp add: handleClientReq_def s1_def)
    moreover have "\<exists>s'. srv_sendBatch s1 = Inr s' \<and> batch_ok m (reqs @ [r]) s'"
      using m True len props sizes by (intro srv_sendBatch_ok) (auto simp: s1_def)
    ultimately show ?thesis by simp
  next
    case neq: False
    then have "handleClientReq r s = Inr s1" using False app m by (simp add: handleClientReq_def s1_def)
    moreover have "Suc ?n \<noteq> unat m" using neq next1 by (auto simp: s1_def word_unat_eq_iff)
    then have "batch_ok m (reqs @ [r]) s1"
      using m len props sizes next1 by (simp add: batch_ok_def s1_def)
    ultimately show ?thesis by simp
  qed
qed

definition no_reconfig :: "srv_event \<Rightarrow> bool" where
  "no_reconfig e = (case e of SrvDecided v out \<Rightarrow> Vt v \<noteq> Reconfig | _ \<Rightarrow> True)"

definition requests :: "srv_event list \<Rightarrow> Request list" where
  "requests es = concat (map (\<lambda>e. case e of SrvRequest r \<Rightarrow> [r] | _ \<Rightarrow> []) es)"

definition decided :: "srv_event list \<Rightarrow> Value list" where
  "decided es = concat (map (\<lambda>e. case e of SrvDecided v out \<Rightarrow> [v] | _ \<Rightarrow> []) es)"

lemma srv_step_batch:
  assumes ok: "batch_ok m reqs s" and e: "no_reconfig e"
  shows "\<exists>s'. srv_step app e s = Inr s' \<and> batch_ok m (reqs @ requests [e]) s'"
proof (cases e)
  case (SrvRequest r)
  then show ?thesis using handleClientReq_ok [OF ok, of r] by (simp add: requests_def)
next
  case SrvTimer
  have "batchTimer s \<noteq> Uninitialised" using ok by (simp add: batch_ok_def)
  moreover have "\<exists>s'. srv_sendBatch s = Inr s' \<and> batch_ok m reqs s'"
    using ok by (intro srv_sendBatch_ok) (auto simp: batch_ok_def)
  ultimately show ?thesis using SrvTimer by (simp add: requests_def)
next
  case (SrvDecided v out)
  then show ?thesis
    using e batch_ok_same [OF ok same_batch_executeVal] by (simp add: no_reconfig_def handleDecidedVal_def requests_def)
next
  case (SrvReconfigCmd cmd)
  then show ?thesis
    using ok by (simp add: requests_def batch_ok_def propose_def proposedReqs_def pending_def)
next
  case SrvAppStateReq
  have "same_batch s (handleAppStateReq app s)"
    by (simp add: same_batch_def handleAppStateReq_def split: prod.split)
  then show ?thesis using SrvAppStateReq batch_ok_same [OF ok] by (simp add: requests_def)
next
  case (SrvLeader i)
  have "same_batch s (s\<lparr>srv_pxLeader := i\<rparr>)" by (simp add: same_batch_def)
  then show ?thesis using SrvLeader batch_ok_same [OF ok] by (simp add: requests_def)
qed

lemma srv_run_batch:
  assumes "batch_ok m reqs s" and "\<forall>e\<in>set es. no_reconfig e"
  shows "\<exists>s'. srv_run app es s = Inr s' \<and> batch_ok m (reqs @ requests es) s'"
  using assms
proof (induction es arbitrary: s reqs)
  case Nil
  then show ?case by (simp add: requests_def)
next
  case (Cons e es)
  obtain s1 where s1: "srv_step app e s = Inr s1" "batch_ok m (reqs @ requests [e]) s1"
    using srv_step_batch [OF Cons.prems(1), of e app] Cons.prems(2) by auto
  have "requests (e # es) = requests [e] @ requests es" by (simp add: requests_def)
  then show ?case using Cons.IH [OF s1(2)] Cons.prems(2) s1(1) by auto
qed

text \<open>
  C5. A server that \<open>NewServer\<close> made with a positive batchMaxSize, that is told of no decided
  reconfiguration command and whose application answers every request, never fails, and at every
  point the requests in the values it has proposed, followed by those in its batch, are the requests
  it received, each once and in order. Every value it proposes for the application has between one and
  \<open>batchMaxSize\<close> requests, the batch is never full, and when it is not empty the timer that will send it is
  armed.
\<close>

theorem server_batches:
  assumes "0 < m" and "\<forall>e\<in>set es. no_reconfig e"
  shows "\<exists>s. srv_run app es (NewServer i alph m gm rh a) = Ok s \<and>
    proposedReqs s @ pending s = requests es \<and> length (pending s) < unat m \<and>
    (pending s \<noteq> [] \<longrightarrow> batchTimer s = Armed) \<and>
    (\<forall>v\<in>set (propChan s). Vt v = App \<longrightarrow> 1 \<le> length (Cr v) \<and> length (Cr v) \<le> unat m)"
proof -
  obtain s where s: "srv_run app es (NewServer i alph m gm rh a) = Inr s" "batch_ok m (requests es) s"
    using srv_run_batch [OF batch_ok_New [OF assms(1)] assms(2), of app i alph gm rh a] by auto
  have "length (pending s) \<le> unat (batchNextIndex s)" "pending s \<noteq> [] \<longrightarrow> batchNextIndex s \<noteq> 0"
    by (auto simp: pending_def)
  then show ?thesis using s by (auto simp: batch_ok_def)
qed

section \<open>Execution\<close>

fun respond :: "'a handler \<Rightarrow> 'a \<Rightarrow> Request list \<Rightarrow> Response list \<times> 'a" where
  "respond app st [] = ([], st)"
| "respond app st (r # rs) =
     (let (o', st1) = Execute app st (GetVal r); (os, st2) = respond app st1 rs
      in (genRespForReq r o' # os, st2))"

definition reqsOf :: "Value \<Rightarrow> Request list" where
  "reqsOf v = (if Vt v = App then Cr v else [])"

lemma respond_append:
  "respond app st (rs @ rs') =
     (fst (respond app st rs) @ fst (respond app (snd (respond app st rs)) rs'),
      snd (respond app (snd (respond app st rs)) rs'))"
  by (induction rs arbitrary: st) (auto split: prod.split)

lemma length_respond: "length (fst (respond app st rs)) = length rs"
proof (induction rs arbitrary: st)
  case (Cons r rs)
  then show ?case by (simp add: Let_def split_beta)
qed simp

definition executed :: "'a handler \<Rightarrow> 'a \<Rightarrow> Request list \<Rightarrow> 'a Server \<Rightarrow> bool" where
  "executed app a rs s \<longleftrightarrow> srv_responses s = fst (respond app a rs) \<and> ah s = snd (respond app a rs)"

lemma executed_executeReq: "executed app a rs s \<Longrightarrow> executed app a (rs @ [r]) (executeReq app r s)"
  by (simp add: executed_def executeReq_def respond_append split_beta)

lemma executed_fold: "executed app a rs s \<Longrightarrow> executed app a (rs @ rs') (fold (executeReq app) rs' s)"
proof (induction rs' arbitrary: rs s)
  case (Cons r rs')
  then show ?case using Cons.IH [OF executed_executeReq [OF Cons.prems(1), of r]] by simp
qed simp

lemma executed_executeVal:
  "executed app a rs s \<Longrightarrow> Vt v \<noteq> Reconfig \<Longrightarrow> executed app a (rs @ reqsOf v) (executeVal app v b s)"
  using executed_fold [of app a rs s "Cr v"]
  by (cases "Vt v") (simp_all add: executeVal_def informProposer_def reqsOf_def executed_def)

lemma executed_same: "executed app a rs s \<Longrightarrow> srv_responses s' = srv_responses s \<Longrightarrow> ah s' = ah s \<Longrightarrow> executed app a rs s'"
  by (simp add: executed_def)

lemma setTimer_keeps: "setTimer t s = Inr s' \<Longrightarrow> srv_responses s' = srv_responses s \<and> ah s' = ah s"
  by (auto simp: setTimer_def split: if_splits)

lemma srv_sendBatch_keeps:
  assumes "srv_sendBatch s = Inr s'"
  shows "srv_responses s' = srv_responses s \<and> ah s' = ah s"
proof -
  obtain s1 where s1: "setTimer Stopped s = Inr s1" using assms by (auto simp: srv_sendBatch_def bind_result_Inr_iff)
  then show ?thesis
    using assms setTimer_keeps [OF s1] by (auto simp: srv_sendBatch_def propose_def split: if_splits)
qed

lemma handleClientReq_keeps:
  assumes "handleClientReq r s = Inr s'"
  shows "srv_responses s' = srv_responses s \<and> ah s' = ah s"
proof (cases "batchMaxSize s = 1")
  case True
  then show ?thesis using assms by (auto simp: handleClientReq_def propose_def)
next
  case False
  then obtain s1 where s1: "appendToBatch r s = Inr s1"
      "(if batchNextIndex s1 = batchMaxSize s1 then srv_sendBatch s1 else Ok s1) = Inr s'"
    using assms by (auto simp: handleClientReq_def bind_result_Inr_iff)
  obtain s2 buf where "(if batchNextIndex s = 0
        then setTimer Armed (s\<lparr>batchBuffer := replicate (unat (batchMaxSize s)) None\<rparr>) else Ok s) = Inr s2"
      "s1 = s2\<lparr>batchBuffer := buf, batchNextIndex := batchNextIndex s2 + 1\<rparr>"
    using s1(1) by (auto simp: appendToBatch_def bind_result_Inr_iff)
  then have "srv_responses s1 = srv_responses s \<and> ah s1 = ah s"
    by (auto dest: setTimer_keeps split: if_splits)
  then show ?thesis using s1(2) srv_sendBatch_keeps [of s1 s'] by (cases "batchNextIndex s1 = batchMaxSize s1") auto
qed

lemma srv_step_executed:
  assumes ok: "executed app a rs s" and e: "no_reconfig e" and run: "srv_step app e s = Inr s'"
  shows "executed app a (rs @ concat (map reqsOf (decided [e]))) s'"
proof (cases e)
  case (SrvDecided v out)
  then show ?thesis
    using e run executed_executeVal [OF ok, of v True] by (simp add: no_reconfig_def handleDecidedVal_def decided_def)
next
  case (SrvRequest r)
  then have "srv_responses s' = srv_responses s \<and> ah s' = ah s" using run handleClientReq_keeps by simp
  then show ?thesis using executed_same [OF ok] SrvRequest by (simp add: decided_def)
next
  case SrvTimer
  then have "srv_responses s' = srv_responses s \<and> ah s' = ah s"
    using run srv_sendBatch_keeps [of s s'] by (cases "batchTimer s = Uninitialised") auto
  then show ?thesis using executed_same [OF ok] SrvTimer by (simp add: decided_def)
qed (use run executed_same [OF ok] in \<open>auto simp: decided_def propose_def handleAppStateReq_def split: prod.splits\<close>)

lemma srv_run_executed:
  "executed app a rs s \<Longrightarrow> \<forall>e\<in>set es. no_reconfig e \<Longrightarrow> srv_run app es s = Inr s' \<Longrightarrow>
    executed app a (rs @ concat (map reqsOf (decided es))) s'"
proof (induction es arbitrary: s rs)
  case (Cons e es)
  obtain s1 where s1: "srv_step app e s = Inr s1" "srv_run app es s1 = Inr s'"
    using Cons.prems(3) by (auto simp: bind_result_Inr_iff)
  have "decided (e # es) = decided [e] @ decided es" by (simp add: decided_def)
  then show ?case
    using Cons.IH [OF srv_step_executed [OF Cons.prems(1) _ s1(1)] _ s1(2)] Cons.prems(2) by simp
qed (simp add: decided_def)

lemma server_executes:
  assumes "\<forall>e\<in>set es. no_reconfig e" and "srv_run app es (NewServer i alph m gm rh a) = Ok s"
  shows "srv_responses s = fst (respond app a (concat (map reqsOf (decided es)))) \<and>
    ah s = snd (respond app a (concat (map reqsOf (decided es))))"
proof -
  have "executed app a [] (NewServer i alph m gm rh a)" by (simp add: executed_def NewServer_def)
  from srv_run_executed [OF this assms] show ?thesis by (simp add: executed_def)
qed

lemma respond_prefix:
  assumes "prefix vs ws"
  shows "prefix (fst (respond app a (concat (map reqsOf vs)))) (fst (respond app a (concat (map reqsOf ws))))"
  using assms by (auto simp: prefix_def respond_append)

lemma respond_same_length:
  assumes "prefix vs ws" and "length (fst (respond app a (concat (map reqsOf vs)))) = length (fst (respond app a (concat (map reqsOf ws))))"
  shows "snd (respond app a (concat (map reqsOf vs))) = snd (respond app a (concat (map reqsOf ws)))"
proof -
  obtain zs where ws: "ws = vs @ zs" using assms(1) by (auto simp: prefix_def)
  have "length (concat (map reqsOf zs)) = 0" using assms(2) unfolding ws length_respond by simp
  then have "concat (map reqsOf zs) = []" by (simp only: length_0_conv)
  then show ?thesis unfolding ws map_append concat_append by (simp only: append_Nil2)
qed

text \<open>
  C4. Replicated execution: in a cluster whose clients propose no reconfiguration, take the servers
  of any two replicas with the same application, each having handled some of the values its learner
  has delivered, among any other events. The responses of one are a prefix of the responses of the
  other, and when they have answered equally many requests their applications are in the same state.
\<close>

theorem replicas_answer_alike:
  assumes cluster: "plain_config gm" "sys_reach gm V (initial gm leader alph first) S"
    and es: "srv_run app es (NewServer p alph' m gm' rh a) = Ok s" "\<forall>e\<in>set es. no_reconfig e"
      "prefix (decided es) (dcdChan (lrns S i))"
    and es': "srv_run app es' (NewServer p' alph'' m' gm'' rh' a) = Ok s'" "\<forall>e\<in>set es'. no_reconfig e"
      "prefix (decided es') (dcdChan (lrns S j))"
  shows "(prefix (srv_responses s) (srv_responses s') \<or> prefix (srv_responses s') (srv_responses s)) \<and>
    (length (srv_responses s) = length (srv_responses s') \<longrightarrow> ah s = ah s')"
proof -
  note s = server_executes [OF es(2,1)] and s' = server_executes [OF es'(2,1)]
  then have resp: "srv_responses s = fst (respond app a (concat (map reqsOf (decided es))))"
      "srv_responses s' = fst (respond app a (concat (map reqsOf (decided es'))))"
    and st: "ah s = snd (respond app a (concat (map reqsOf (decided es))))"
      "ah s' = snd (respond app a (concat (map reqsOf (decided es'))))"
    by simp_all
  have "prefix (decided es) (decided es') \<or> prefix (decided es') (decided es)"
    using delivered_comparable [OF cluster] es(3) es'(3) prefix_same_cases prefix_order.trans by metis
  then show ?thesis
    unfolding resp st using respond_prefix respond_same_length by metis
qed

section \<open>Reconfiguration\<close>

text \<open>With \<open>alpha = 1\<close> no slot is left to wait for, and the wait never ends.\<close>

lemma alpha_one_waits_forever:
  assumes "srv_alpha s = 1" and "\<forall>v. PreDecided v \<in> set ins \<longrightarrow> Vt v \<noteq> Reconfig"
  shows "preReconfig app ins s = Fault Diverges"
proof -
  have "d \<ge> 0 \<Longrightarrow> \<forall>v. PreDecided v \<in> set ins \<longrightarrow> Vt v \<noteq> Reconfig \<Longrightarrow>
      handlePreReconfigAsLeader app 0 nr d ins s = Fault Diverges" for nr d ins and s :: "'a Server"
    by (induction app "0 :: int" nr d ins s rule: handlePreReconfigAsLeader.induct) (auto simp: Let_def)
  moreover have "d \<ge> 0 \<Longrightarrow> \<forall>v. PreDecided v \<in> set ins \<longrightarrow> Vt v \<noteq> Reconfig \<Longrightarrow>
      handlePreReconfigAsNonLeader app 0 d ins s = Fault Diverges" for d ins and s :: "'a Server"
    by (induction app "0 :: int" d ins s rule: handlePreReconfigAsNonLeader.induct) (auto simp: Let_def)
  ultimately show ?thesis using assms by (simp add: preReconfig_def)
qed

text \<open>A wait that ends without error has executed \<open>alpha - 1\<close> values, on the leader and elsewhere.\<close>

lemma preReconfig_executes:
  assumes "preReconfig app ins s = Ok (False, s')" and "srv_alpha s > 1"
  shows "\<exists>vals. int (length vals) = srv_alpha s - 1 \<and> (\<forall>v\<in>set vals. Vt v \<noteq> Reconfig) \<and>
    adu_val (localAru s') = adu_val (localAru (fold (\<lambda>v. executeVal app v False) vals s))"
proof -
  have adu: "adu_val (localAru (executeVal app v b s)) = adu_val (localAru s) +
      (if Vt v = Noop then 1 else of_nat (length (Cr v)))" for app v b and s :: "'a Server"
  proof -
    have "adu_val (localAru (fold (executeReq app) rs s)) = adu_val (localAru s) + of_nat (length rs)" for rs and s :: "'a Server"
      by (induction rs arbitrary: s) (auto simp: executeReq_def Increment_def algebra_simps split: prod.split)
    then show ?thesis by (simp add: executeVal_def informProposer_def Increment_def)
  qed
  have same: "adu_val (localAru (fold (\<lambda>v. executeVal app v False) vals t)) =
      adu_val (localAru (fold (\<lambda>v. executeVal app v False) vals t'))"
    if "adu_val (localAru t) = adu_val (localAru t')" for app vals and t t' :: "'a Server"
    using that by (induction vals arbitrary: t t') (simp_all add: adu)
  let ?P = "\<lambda>app c d s s'. \<exists>vals. int (length vals) = c - d \<and> (\<forall>v\<in>set vals. Vt v \<noteq> Reconfig) \<and>
    adu_val (localAru s') = adu_val (localAru (fold (\<lambda>v. executeVal app v False) vals s))"
  have one: "?P app c d s (executeVal app v False s)" if "d + 1 = c" "Vt v \<noteq> Reconfig" for app c d v and s :: "'a Server"
    using that by (intro exI [of _ "[v]"]) auto
  have more: "?P app c d s s'" if rest: "?P app c (d + 1) (executeVal app v False s) s'" and v: "Vt v \<noteq> Reconfig"
    for app c d v and s s' :: "'a Server"
  proof -
    obtain vals where "int (length vals) = c - (d + 1)" "\<forall>v\<in>set vals. Vt v \<noteq> Reconfig"
        "adu_val (localAru s') = adu_val (localAru (fold (\<lambda>v. executeVal app v False) vals (executeVal app v False s)))"
      using rest by blast
    then show ?thesis using v by (intro exI [of _ "v # vals"]) simp
  qed
  have "handlePreReconfigAsLeader app c nr d ins s = Ok (False, s') \<Longrightarrow> ?P app c d s s'"
    for app c nr d ins and s s' :: "'a Server"
  proof (induction app c nr d ins s rule: handlePreReconfigAsLeader.induct)
    case (2 app c nr d val ins s)
    have v: "Vt val \<noteq> Reconfig" using "2.prems" by (auto split: if_splits)
    show ?case
    proof (cases "d + 1 = c")
      case True
      then have "s' = executeVal app val False s" using "2.prems" v by (simp add: Let_def)
      then show ?thesis using one [OF True v, of app s] by (simp only:)
    next
      case False
      then have "handlePreReconfigAsLeader app c nr (d + 1) ins (executeVal app val False s) = Ok (False, s')"
        using "2.prems" v by (simp add: Let_def)
      from "2.IH" [OF v refl False this] show ?thesis using v by (rule more)
    qed
  next
    case (3 app c nr d req ins s)
    then show ?case using same [of "propose (appValueOf [req]) s" s] by (auto simp: propose_def split: if_splits)
  next
    case (4 app c nr d ins s)
    then show ?case
      using same [of "propose \<lparr>Vt = Noop, Cr = [], Rc = None\<rparr> s" s] by (auto simp: propose_def split: if_splits)
  qed auto
  moreover have "handlePreReconfigAsNonLeader app c d ins s = Ok (False, s') \<Longrightarrow> ?P app c d s s'"
    for app c d ins and s s' :: "'a Server"
  proof (induction app c d ins s rule: handlePreReconfigAsNonLeader.induct)
    case (2 app c d val ins s)
    have v: "Vt val \<noteq> Reconfig" using "2.prems" by (auto split: if_splits)
    show ?case
    proof (cases "d + 1 = c")
      case True
      then have "s' = executeVal app val False s" using "2.prems" v by (simp add: Let_def)
      then show ?thesis using one [OF True v, of app s] by (simp only:)
    next
      case False
      then have "handlePreReconfigAsNonLeader app c (d + 1) ins (executeVal app val False s) = Ok (False, s')"
        using "2.prems" v by (simp add: Let_def)
      from "2.IH" [OF v refl False this] show ?thesis using v by (rule more)
    qed
  qed auto
  ultimately show ?thesis using assms(1) by (fastforce simp: preReconfig_def split: if_splits)
qed

section \<open>Concrete runs\<close>

text \<open>An application that numbers the requests.\<close>

definition counter :: "nat handler" where
  "counter = \<lparr>Execute = (\<lambda>n b. ([of_nat n], Suc n)), GetState = (\<lambda>n slot. (slot, [of_nat n]))\<rparr>"

definition someReq :: "8 word \<Rightarrow> Request" where
  "someReq b = \<lparr>req_Type = Some 2, req_Id = Some ''c'', req_Seq = Some 1, req_Val = [b]\<rparr>"

definition allWell :: "pre_input list \<Rightarrow> outcome" where
  "allWell ins = \<lparr>connectedNew = True, firstSlotWritten = True, joinWritten = True, connectionAdded = True,
     preInputs = ins\<rparr>"

definition someServer :: "nat Server" where
  "someServer = NewServer (ID 0 0) 3 2 oneGrpMgr (Some (NewReconfigHandler (ID 0 0) (ID 1 0))) 0"

text \<open>A batch of two requests fills one slot, and counts as two.\<close>

lemma local_aru_counts_requests:
  "(case srv_run counter [SrvDecided (appValueOf [someReq 1, someReq 2]) (allWell [])] someServer of
      Inl _ \<Rightarrow> False | Inr s \<Rightarrow> adu_val (localAru s) = 2)"
  by code_simp

lemma standby_request_panics:
  "srv_step app (SrvRequest r) (NewStandbyServer i alph gm rh a slotMarker) = Fault (Panic ''uninitialized Timer'')"
  by (simp add: handleClientReq_def appendToBatch_def setTimer_def NewStandbyServer_def)

definition changeNode :: ReconfigCmd where
  "changeNode = \<lparr>rc_Nodes = [(ID 0 0, zeroNode), (ID 1 1, zeroNode)], rc_New = ID 1 1\<rparr>"

definition changeValue :: Value where
  "changeValue = \<lparr>Vt = Reconfig, Cr = [], Rc = Some changeNode\<rparr>"

text \<open>
  The command is in slot 1 and \<open>alpha\<close> is 3: the old configuration decides slots 2 and 3 as well, but
  the new replica is told that its first slot is 3.
\<close>

lemma first_slot_already_decided:
  "(case srv_run counter [SrvDecided changeValue
        (allWell [PreDecided (appValueOf [someReq 1]), PreDecided (appValueOf [someReq 2])])] someServer of
      Inl _ \<Rightarrow> False
    | Inr s \<Rightarrow> newNodeMsgs s = [(ID 1 1, FirstSlot 3), (ID 1 1, Join)] \<and> adu_val (localAru s) = 3 \<and> \<not> held s)"
  by code_simp

text \<open>When the join cannot be written, the modules are never released.\<close>

lemma held_after_failed_join:
  "(case srv_run counter [SrvDecided changeValue
        ((allWell [PreDecided (appValueOf [someReq 1]), PreDecided (appValueOf [someReq 2])])
          \<lparr>joinWritten := False\<rparr>)] someServer of
      Inl _ \<Rightarrow> False | Inr s \<Rightarrow> held s)"
  by code_simp

text \<open>A decided reconfiguration command stops a server that runs without the reconfiguration handler.\<close>

lemma reconfig_without_handler:
  "(case srv_run counter [SrvDecided changeValue (allWell [])] (someServer\<lparr>reconfigHandler := None, srv_alpha := 2\<rparr>) of
      Inl e \<Rightarrow> True | Inr _ \<Rightarrow> False)"
  by code_simp

lemma server_batches_witness:
  "\<exists>s. srv_run counter [SrvRequest (someReq 1), SrvRequest (someReq 2), SrvRequest (someReq 3)] someServer = Ok s \<and>
    proposedReqs s @ pending s = [someReq 1, someReq 2, someReq 3] \<and> length (pending s) < 2"
proof -
  let ?es = "[SrvRequest (someReq 1), SrvRequest (someReq 2), SrvRequest (someReq 3)]"
  have "\<forall>e\<in>set ?es. no_reconfig e" by (simp add: no_reconfig_def)
  from server_batches [OF _ this, of 2 counter "ID 0 0" 3 oneGrpMgr "Some (NewReconfigHandler (ID 0 0) (ID 1 0))" 0]
  show ?thesis by (auto simp: someServer_def requests_def)
qed

definition served :: "srv_event list \<Rightarrow> nat Server" where
  "served es = (case srv_run counter es someServer of Inl _ \<Rightarrow> someServer | Inr s \<Rightarrow> s)"

definition events1 :: "srv_event list" where
  "events1 = [SrvDecided appValue (allWell [])]"

definition events2 :: "srv_event list" where
  "events2 = [SrvRequest (someReq 1), SrvDecided appValue (allWell []), SrvTimer]"

lemma served_runs:
  "(case srv_run counter events1 someServer of Inl _ \<Rightarrow> False | Inr s \<Rightarrow> True)"
  "(case srv_run counter events2 someServer of Inl _ \<Rightarrow> False | Inr s \<Rightarrow> True)"
  "length (srv_responses (served events1)) = 1" "length (srv_responses (served events2)) = 1"
  "list_all no_reconfig events1" "list_all no_reconfig events2"
  by code_simp+

lemma served_run:
  "srv_run counter events1 someServer = Ok (served events1)"
  "srv_run counter events2 someServer = Ok (served events2)"
  using served_runs(1,2) by (auto simp: served_def split: sum.splits)

lemma replicas_answer_alike_witness:
  "length (srv_responses (served events1)) = 1 \<and> ah (served events1) = ah (served events2)"
proof -
  have plain: "\<forall>e\<in>set events1. no_reconfig e" "\<forall>e\<in>set events2. no_reconfig e"
    using served_runs(5,6) by (simp_all add: list_all_iff)
  have p: "prefix (decided events1) (dcdChan (lrns duo4 (ID 0 0)))"
      "prefix (decided events2) (dcdChan (lrns duo4 (ID 1 0)))"
    by (simp_all add: decided_def events1_def events2_def duo4_learned(1,3))
  from replicas_answer_alike [OF duo_run served_run(1) [unfolded someServer_def] plain(1) p(1)
      served_run(2) [unfolded someServer_def] plain(2) p(2)]
  show ?thesis using served_runs(3,4) by simp
qed

end
