(* ===== verification/AReconf.thy ===== *)
theory AReconf
  imports RingReplacer Acceptor
begin

text \<open>
  Asynchronous reconfiguration (\<open>src/arec/\<close>): a replica stops its acceptor and sends its state in a
  \<open>CPromise\<close> to the replicas of a new configuration; who holds a quorum of them activates itself in
  the new epoch.

  The group manager and the acceptor are shared with other modules and part of the state. Connections
  are left out, except whether a new node can be reached. The replica provider and the initialisation
  of a remote node are answers given as arguments. A channel that is written is the list of what was
  written; the handler's own command channel is the list of what waits in it.
\<close>

section \<open>Messages and state\<close>

type_synonym configs = "(epoch, (gid, Node) gomap) gomap"

record ArReconfMsg =
  am_NewEpoch :: epoch
  am_NodeMap :: "(gid, Node) gomap"
  am_OldIds :: "(gid, bool) gomap"
  am_AduSlot :: SlotID

record CPromise =
  cp_ID :: gid
  cp_QuorumSize :: "64 word"
  cp_Sender :: Node
  cp_NewEpoch :: epoch
  cp_Confs :: configs
  cp_AduSlot :: SlotID
  cp_AccState :: AcceptorSlotMap

record Activation =
  av_Epoch :: epoch
  av_AduSlot :: SlotID
  av_AccState :: AcceptorSlotMap
  av_Confs :: configs

record ReconfCmd =
  repl :: "gid list"
  addNodes :: int

text \<open>
  \<open>paxosRunning\<close> says that the acceptor's goroutine runs, \<open>accHeld\<close> that it waits for its release
  after it has answered \<open>GetState\<close>, \<open>runPaxosClosed\<close> that the start-up was woken. \<open>pendingSetups\<close> are
  the goroutines that initialise the nodes of a new configuration.
\<close>

record AReconfHandler =
  ar_id :: gid
  rleader :: gid
  stateful :: bool
  ar_valid :: bool
  acceptorState :: "AcceptorSlotMap option"
  accFirstSlot :: SlotID
  ar_reconfInProgress :: bool
  confs :: configs
  maxEpochSeen :: epoch
  cPromises :: "epoch \<rightharpoonup> CPromise list"
  ar_grpmgr :: GrpMgr
  ar_acceptor :: MultiAcceptor
  accHeld :: bool
  paxosRunning :: bool
  runPaxosClosed :: bool
  nextSlots :: "SlotID list"
  setAlive :: "gid list"
  ar_bcast :: "ArReconfMsg list"
  ar_ucast :: "(gid \<times> CPromise) list"
  cmdChan :: "ReconfCmd list"
  pendingSetups :: "(ArReconfMsg \<times> ReconfCmd) list"
  ar_adu :: Adu
  holdRequests :: nat
  holdGranted :: bool

definition NewAReconfHandler :: "gid \<Rightarrow> gid \<Rightarrow> GrpMgr \<Rightarrow> MultiAcceptor \<Rightarrow> Adu \<Rightarrow> AReconfHandler" where
  "NewAReconfHandler i leader gm acc adu =
     \<lparr>ar_id = i, rleader = leader, stateful = (Epoch i = 0), ar_valid = True, acceptorState = None,
      accFirstSlot = 0, ar_reconfInProgress = False, confs = [], maxEpochSeen = Epoch i,
      cPromises = (\<lambda>_. None), ar_grpmgr = gm, ar_acceptor = acc, accHeld = False,
      paxosRunning = False, runPaxosClosed = False, nextSlots = [], setAlive = [], ar_bcast = [],
      ar_ucast = [], cmdChan = [], pendingSetups = [], ar_adu = adu,
      holdRequests = 0, holdGranted = True\<rparr>"

section \<open>Starting a reconfiguration\<close>

text \<open>The Paxos id is a signed byte.\<close>

definition getNewEpoch :: "gid \<Rightarrow> epoch" where
  "getNewEpoch i = scast (PaxosID i) + (Epoch i div 10 + 1) * 10"

text \<open>
  The loop over the replicas to replace. When the provider fails, the error that is tested is
  another one, which is nil, and the zero node is used. \<open>None\<close> is \<open>ErrInvalidID\<close>.
\<close>

fun replaceLoop :: "(gid, Node) gomap \<Rightarrow> epoch \<Rightarrow> gid list \<Rightarrow> Node option list \<Rightarrow>
    (gid, Node) gomap \<times> gid list \<times> (gid, bool) gomap \<Rightarrow>
    (((gid, Node) gomap \<times> gid list \<times> (gid, bool) gomap) option \<times> Node option list)" where
  "replaceLoop oldMap newEpoch [] answers st = (Some st, answers)"
| "replaceLoop oldMap newEpoch (repID # ids) answers (newMap, newids, oldids) =
     (if lookup oldMap repID = None then (None, answers)
      else
        let node = (case answers of Some n # _ \<Rightarrow> n | _ \<Rightarrow> zeroNode);
            newid = ID (PaxosID repID) newEpoch
        in replaceLoop oldMap newEpoch ids (drop 1 answers)
             (put newid node newMap, newids @ [newid], AList.delete repID oldids))"

text \<open>New nodes get the Paxos ids after the greatest; \<open>None\<close> is the provider's error.\<close>

fun addLoop :: "epoch \<Rightarrow> nat \<Rightarrow> nat \<Rightarrow> Node option list \<Rightarrow> (gid, Node) gomap \<times> gid list \<Rightarrow>
    ((gid, Node) gomap \<times> gid list) option" where
  "addLoop newEpoch 0 sz answers st = Some st"
| "addLoop newEpoch (Suc n) sz answers (newMap, newids) =
     (case answers of
        Some node # answers \<Rightarrow>
          let newID = ID (of_nat sz) newEpoch
          in addLoop newEpoch n (sz + 1) answers (put newID node newMap, newids @ [newID])
      | _ \<Rightarrow> None)"

text \<open>
  The wrappers of the new nodes share one map, so each has it as the last turn of the loop leaves it.
\<close>

definition transferWrappers ::
  "epoch \<Rightarrow> (gid, Node) gomap \<Rightarrow> (gid, Node) gomap \<Rightarrow> gid list \<Rightarrow> (Node, TransferWrapper) gomap" where
  "transferWrappers oldEpoch oldMap newMap newids =
     (let shared = fold (\<lambda>i m. put i (at0 zeroNode newMap i) (AList.delete (ID (PaxosID i) oldEpoch) m)) newids oldMap
      in fold (\<lambda>i ws. put (at0 zeroNode newMap i) \<lparr>tw_ID = i, tw_NodeMap = shared\<rparr> ws) newids [])"

definition reconfSetupLocal :: "ReconfCmd \<Rightarrow> Node option list \<Rightarrow> AReconfHandler \<Rightarrow>
    (ArReconfMsg \<times> (Node, TransferWrapper) gomap) option" where
  "reconfSetupLocal rcmd answers rh =
     (let newEpoch = getNewEpoch (ar_id rh);
          oldMap = nodes (nodeMap (ar_grpmgr rh));
          newMap = fold (\<lambda>(i, node). put (ID (PaxosID i) newEpoch) node) oldMap [];
          oldids = map (\<lambda>(i, node). (i, True)) oldMap
      in case replaceLoop oldMap newEpoch (repl rcmd) answers (newMap, [], oldids) of
           (None, answers) \<Rightarrow> None
         | (Some (newMap, newids, oldids), answers) \<Rightarrow>
             (case addLoop newEpoch (nat (addNodes rcmd)) (length newMap) answers (newMap, newids) of
                None \<Rightarrow> None
              | Some (newMap, newids) \<Rightarrow>
                  Some (\<lparr>am_NewEpoch = newEpoch, am_NodeMap = newMap, am_OldIds = oldids,
                         am_AduSlot = adu_val (ar_adu rh)\<rparr>,
                        transferWrappers (Epoch (ar_id rh)) oldMap newMap newids)))"

text \<open>The handler is the only reader of its command channel, which holds one command.\<close>

definition putCmd :: "ReconfCmd \<Rightarrow> AReconfHandler \<Rightarrow> AReconfHandler result" where
  "putCmd rcmd rh =
     (if cmdChan rh = [] then Ok (rh\<lparr>cmdChan := [rcmd]\<rparr>) else Fault Diverges)"

definition handleReconfCmd :: "ReconfCmd \<Rightarrow> Node option list \<Rightarrow> AReconfHandler \<Rightarrow> AReconfHandler result" where
  "handleReconfCmd rcmd answers rh =
     (if \<not> ar_valid rh \<or> \<not> stateful rh then Ok rh
      else if ar_reconfInProgress rh then Ok rh
      else
        let rh = rh\<lparr>ar_reconfInProgress := True\<rparr>
        in case reconfSetupLocal rcmd answers rh of
             None \<Rightarrow> putCmd rcmd (rh\<lparr>ar_reconfInProgress := False\<rparr>)
           | Some (rcMsg, newNodes) \<Rightarrow> Ok (rh\<lparr>pendingSetups := pendingSetups rh @ [(rcMsg, rcmd)]\<rparr>))"

text \<open>The goroutine that initialises the new nodes; when the command channel is full it waits.\<close>

definition ar_doRemoteSetupAndSend :: "bool \<Rightarrow> AReconfHandler \<Rightarrow> AReconfHandler" where
  "ar_doRemoteSetupAndSend initialised rh =
     (case pendingSetups rh of
        [] \<Rightarrow> rh
      | (rcMsg, rcmd) # rest \<Rightarrow>
          if initialised then rh\<lparr>pendingSetups := rest, ar_bcast := ar_bcast rh @ [rcMsg]\<rparr>
          else if cmdChan rh = []
          then rh\<lparr>pendingSetups := rest, ar_reconfInProgress := False, cmdChan := [rcmd]\<rparr>
          else rh\<lparr>ar_reconfInProgress := False\<rparr>)"

definition nodeIsReplacementLeader :: "AReconfHandler \<Rightarrow> bool" where
  "nodeIsReplacementLeader rh \<longleftrightarrow> ar_id rh = rleader rh"

definition ar_handleFdMsg :: "FdMsg \<Rightarrow> AReconfHandler \<Rightarrow> ReconfCmd option" where
  "ar_handleFdMsg fdmsg rh =
     (if \<not> nodeIsReplacementLeader rh then None
      else case fd_Event fdmsg of
             Suspect \<Rightarrow> Some \<lparr>repl = [fd_ID fdmsg], addNodes = 0\<rparr>
           | Restore \<Rightarrow> None)"

definition handleRepLdMsg :: "gid \<Rightarrow> AReconfHandler \<Rightarrow> AReconfHandler" where
  "handleRepLdMsg repLdID rh = rh\<lparr>rleader := repLdID\<rparr>"

section \<open>Leaving a configuration\<close>

definition updateConfs :: "ArReconfMsg \<Rightarrow> AReconfHandler \<Rightarrow> AReconfHandler" where
  "updateConfs rm rh =
     (let rh = rh\<lparr>confs := put (am_NewEpoch rm) (am_NodeMap rm) (confs rh)\<rparr>
      in if am_NewEpoch rm > maxEpochSeen rh then rh\<lparr>maxEpochSeen := am_NewEpoch rm\<rparr> else rh)"

text \<open>\<open>GetState\<close> waits for ever for an acceptor that does not run, or that waits for its release.\<close>

definition stopAcceptor :: "SlotID \<Rightarrow> AReconfHandler \<Rightarrow> AReconfHandler result" where
  "stopAcceptor afterSlot rh =
     (if \<not> paxosRunning rh \<or> accHeld rh then Fault Diverges
      else bind_result (CopyAccSlotMapRange afterSlot (Some (ma_slots (ar_acceptor rh)))) (\<lambda>slotMap.
        Ok (rh\<lparr>acceptorState := Some slotMap, accHeld := True\<rparr>)))"

definition makeCPromise :: "ArReconfMsg \<Rightarrow> AReconfHandler \<Rightarrow> CPromise option result" where
  "makeCPromise rm rh =
     (if lookup (am_OldIds rm) (ar_id rh) = None then Ok None
      else case LookupNode (ar_id rh) (nodeMap (ar_grpmgr rh)) of
             None \<Rightarrow> Fault (Panic ''running node not found in nodemap'')
           | Some node \<Rightarrow>
               (case acceptorState rh of
                  None \<Rightarrow> Fault NilDereference
                | Some st \<Rightarrow>
                    Ok (Some \<lparr>cp_ID = ar_id rh, cp_QuorumSize = Quorum (ar_grpmgr rh), cp_Sender = node,
                      cp_NewEpoch = am_NewEpoch rm, cp_Confs = confs rh, cp_AduSlot = am_AduSlot rm,
                      cp_AccState = st\<rparr>)))"

definition handleReconfMsg :: "ArReconfMsg \<Rightarrow> AReconfHandler \<Rightarrow> (CPromise option \<times> AReconfHandler) result" where
  "handleReconfMsg rm rh =
     (if \<not> stateful rh then Ok (None, rh)
      else if \<not> am_NewEpoch rm > Epoch (ar_id rh) then Ok (None, rh)
      else if ar_valid rh
      then bind_result (stopAcceptor (am_AduSlot rm) rh) (\<lambda>rh.
        let rh = updateConfs rm (rh\<lparr>ar_valid := False\<rparr>)
        in bind_result (makeCPromise rm rh) (\<lambda>cp. Ok (cp, rh)))
      else if list_ex (\<lambda>(epoch, m). Epoch (ar_id rh) < epoch \<and> epoch < am_NewEpoch rm) (confs rh)
      then Ok (None, updateConfs rm rh)
      else
        let rh = updateConfs rm rh
        in bind_result (makeCPromise rm rh) (\<lambda>cp. Ok (cp, rh)))"

text \<open>
  Old replicas get the promise over the usual connection, the others over one made for it: \<open>reached\<close>
  says for which that succeeds. The slice of Paxos ids is as long as the new configuration.
\<close>

fun markOld :: "gid list \<Rightarrow> bool list \<Rightarrow> bool list result" where
  "markOld [] oldPax = Ok oldPax"
| "markOld (i # ids) oldPax = bind_result (update_index oldPax (PxInt i) True) (markOld ids)"

fun newDests :: "(gid \<Rightarrow> bool) \<Rightarrow> bool list \<Rightarrow> gid list \<Rightarrow> gid list result" where
  "newDests reached oldPax [] = Ok []"
| "newDests reached oldPax (i # ids) =
     bind_result (index oldPax (PxInt i)) (\<lambda>old.
       bind_result (newDests reached oldPax ids) (\<lambda>dests.
         Ok (if \<not> old \<and> reached i then i # dests else dests)))"

definition sendCP :: "(gid \<Rightarrow> bool) \<Rightarrow> CPromise \<Rightarrow> (gid, bool) gomap \<Rightarrow> AReconfHandler \<Rightarrow> AReconfHandler result" where
  "sendCP reached cp oldids rh =
     (let newnodes = at0 [] (cp_Confs cp) (cp_NewEpoch cp)
      in bind_result (markOld (map fst oldids) (replicate (length newnodes) False)) (\<lambda>oldPax.
           bind_result (newDests reached oldPax (map fst newnodes)) (\<lambda>dests.
             Ok (rh\<lparr>ar_ucast := ar_ucast rh @ map (\<lambda>i. (i, cp)) (map fst oldids @ dests)\<rparr>))))"

section \<open>Entering a configuration\<close>

text \<open>
  The loop over the configurations of a promise, in the order of the map's iteration; \<open>False\<close> is the
  early return.
\<close>

fun storeConfs :: "CPromise \<Rightarrow> configs \<Rightarrow> AReconfHandler \<Rightarrow> bool \<times> AReconfHandler" where
  "storeConfs cp [] rh = (True, rh)"
| "storeConfs cp ((epoch, m) # cs) rh =
     (if epoch \<ge> cp_NewEpoch cp then
        storeConfs cp cs
          (if lookup (confs rh) epoch = None
           then let rh = rh\<lparr>confs := put epoch m (confs rh)\<rparr>
                in if epoch > maxEpochSeen rh then rh\<lparr>maxEpochSeen := epoch\<rparr> else rh
           else rh)
      else if Epoch (cp_ID cp) < epoch then (False, rh)
      else storeConfs cp cs rh)"

definition checkCPromises :: "CPromise list \<Rightarrow> epoch \<Rightarrow> bool \<times> CPromise list" where
  "checkCPromises msgs epoch =
     (let (ids, returmsgs) = fold (\<lambda>cp (ids, ret).
            if Epoch (cp_ID cp) = epoch \<and> PaxosID (cp_ID cp) \<notin> set ids
            then (PaxosID (cp_ID cp) # ids, ret @ [cp]) else (ids, ret)) msgs ([], [])
      in case returmsgs of
           [] \<Rightarrow> (False, [])
         | cp # _ \<Rightarrow> (\<not> of_nat (length returmsgs) < cp_QuorumSize cp, returmsgs))"

text \<open>
  As in live replacement, the slot that is found is assigned to a local pointer. \<open>order\<close> is the order
  of the iteration over the slots.
\<close>

definition cp_mergeSlot :: "SlotID \<times> AcceptorSlot \<Rightarrow> AcceptorSlotMap \<Rightarrow> AcceptorSlotMap" where
  "cp_mergeSlot = (\<lambda>(i, accSlot) slotMap.
     let (slot, slotMap) = GetAcceptorSlot i slotMap;
         slot = (if Compare (VRnd accSlot) (VRnd slot) \<ge> 0 \<and> Compare (VRnd accSlot) (VRnd slot) \<noteq> 0
           then accSlot else slot)
     in slotMap)"

definition cp_mergeState :: "(AcceptorSlotMap \<Rightarrow> (SlotID \<times> AcceptorSlot) list) \<Rightarrow> CPromise \<Rightarrow>
    AcceptorSlotMap \<times> SlotID \<Rightarrow> AcceptorSlotMap \<times> SlotID" where
  "cp_mergeState order cp = (\<lambda>(slotMap, firstSlot).
     let firstSlot = (if cp_AduSlot cp > firstSlot then cp_AduSlot cp else firstSlot);
         slotMap = (if Compare (asm_Rnd (cp_AccState cp)) (asm_Rnd slotMap) = 1
           then slotMap\<lparr>asm_Rnd := asm_Rnd (cp_AccState cp)\<rparr> else slotMap)
     in (fold cp_mergeSlot (order (cp_AccState cp)) slotMap, firstSlot))"

definition cp_extractAcceptorState :: "(AcceptorSlotMap \<Rightarrow> (SlotID \<times> AcceptorSlot) list) \<Rightarrow>
    CPromise list \<Rightarrow> (AcceptorSlotMap \<times> SlotID) result" where
  "cp_extractAcceptorState order cps =
     (let (slotMap, first) = fold (cp_mergeState order) cps (NewAcceptorSlotMap, 0)
      in bind_result (index cps 0) (\<lambda>cp.
           let r = asm_Rnd slotMap
           in Ok (slotMap\<lparr>asm_Rnd := Round (Rnd r) (ID (PaxosID (RndID r)) (cp_NewEpoch cp))\<rparr>, first)))"

definition handleCPromise :: "(AcceptorSlotMap \<Rightarrow> (SlotID \<times> AcceptorSlot) list) \<Rightarrow> CPromise \<Rightarrow>
    AReconfHandler \<Rightarrow> (Activation option \<times> AReconfHandler) result" where
  "handleCPromise order cp rh =
     (if cp_NewEpoch cp < Epoch (ar_id rh) then Ok (None, rh)
      else if cp_NewEpoch cp = Epoch (ar_id rh) \<and> stateful rh then Ok (None, rh)
      else case storeConfs cp (cp_Confs cp) rh of
        (False, rh) \<Rightarrow> Ok (None, rh)
      | (True, rh) \<Rightarrow>
          (case cPromises rh (Epoch (cp_ID cp)) of
             None \<Rightarrow> Ok (None, rh\<lparr>cPromises := (cPromises rh)(Epoch (cp_ID cp) \<mapsto> [cp])\<rparr>)
           | Some cpros \<Rightarrow>
               let promises = cpros @ [cp];
                   rh = rh\<lparr>cPromises := (cPromises rh)(Epoch (cp_ID cp) \<mapsto> promises)\<rparr>
               in if of_nat (length promises) < cp_QuorumSize cp then Ok (None, rh)
                  else
                    let (validQuorum, quorum) = checkCPromises promises (Epoch (cp_ID cp))
                    in if \<not> validQuorum then Ok (None, rh)
                       else bind_result (cp_extractAcceptorState order quorum) (\<lambda>(st, first).
                         let rh = rh\<lparr>acceptorState := Some st, accFirstSlot := first\<rparr>
                         in Ok (Some \<lparr>av_Epoch = cp_NewEpoch cp, av_AduSlot = first, av_AccState = st,
                                  av_Confs = confs rh\<rparr>, rh))))"

definition checkOutsideActivation :: "Activation \<Rightarrow> AReconfHandler \<Rightarrow> bool \<times> AReconfHandler" where
  "checkOutsideActivation ac rh =
     (if av_Epoch ac < Epoch (ar_id rh) then (False, rh)
      else if av_Epoch ac = Epoch (ar_id rh) \<and> stateful rh then (False, rh)
      else (True, fold (\<lambda>(ep, m) rh.
        if lookup (confs rh) ep = None \<and> ep > av_Epoch ac
        then let rh = rh\<lparr>confs := put ep m (confs rh)\<rparr>
             in if ep > maxEpochSeen rh then rh\<lparr>maxEpochSeen := ep\<rparr> else rh
        else rh) (av_Confs ac) rh))"

text \<open>
  The new map and the new identity are set while the group manager is on hold: \<open>RequestHold\<close> hands it a
  channel, and the first value written to that channel is only read when the hold is granted. Whether the
  group manager comes to grant it is \<open>holdGranted\<close>; if not, the write does not return. Closing the channel
  at the end releases the hold. An error of \<open>SetID\<close> is ignored. The connections to the new nodes are not
  part of the state; waiting for them is bounded.
\<close>

definition awaitHold :: "AReconfHandler \<Rightarrow> AReconfHandler result" where
  "awaitHold rh =
     (if holdGranted rh then Ok (rh\<lparr>holdRequests := holdRequests rh + 1\<rparr>) else Fault Diverges)"

definition changeEpoch :: "epoch \<Rightarrow> AReconfHandler \<Rightarrow> AReconfHandler result" where
  "changeEpoch ep rh =
     (case lookup (confs rh) ep of
        None \<Rightarrow> Ok rh
      | Some conf \<Rightarrow>
          bind_result (awaitHold rh) (\<lambda>rh.
            let newid = ID (PaxosID (ar_id rh)) ep
            in bind_result (SetNewNodeMap conf (ar_grpmgr rh)) (\<lambda>gm.
                 let gm = (case SetID newid gm of Inl err \<Rightarrow> gm | Inr gm \<Rightarrow> gm)
                 in Ok (rh\<lparr>ar_id := newid, ar_grpmgr := gm\<rparr>))))"

text \<open>
  The release is written to a channel without a buffer, which only an acceptor that waits for it
  reads. An acceptor that is released reads its identity again.
\<close>

definition releaseAcceptor :: "AReconfHandler \<Rightarrow> AReconfHandler result" where
  "releaseAcceptor rh =
     (if \<not> accHeld rh then Fault Diverges
      else Ok (rh\<lparr>accHeld := False, ar_acceptor := (ar_acceptor rh)\<lparr>ma_id := gm_id (ar_grpmgr rh)\<rparr>\<rparr>))"

definition handleActivation :: "Activation \<Rightarrow> AReconfHandler \<Rightarrow> AReconfHandler result" where
  "handleActivation ac rh =
     bind_result (if ar_valid rh \<and> stateful rh then stopAcceptor (adu_val (ar_adu rh)) rh else Ok rh) (\<lambda>rh.
     bind_result (changeEpoch (av_Epoch ac) rh) (\<lambda>rh.
       let first = av_AduSlot ac + 1;
           rh = rh\<lparr>acceptorState := Some (av_AccState ac), accFirstSlot := first,
                   ar_acceptor := acc_SetLowSlot first (acc_SetState (av_AccState ac) (ar_acceptor rh)),
                   nextSlots := nextSlots rh @ [first],
                   setAlive := setAlive rh @ map fst (at0 [] (confs rh) (av_Epoch ac))\<rparr>
       in if maxEpochSeen rh \<le> av_Epoch ac then
            let rh = rh\<lparr>ar_valid := True, confs := []\<rparr>
            in if stateful rh then releaseAcceptor rh
               else if runPaxosClosed rh then Fault (Panic ''close of closed channel'')
               else Ok (rh\<lparr>runPaxosClosed := True, stateful := True\<rparr>)
          else Ok (rh\<lparr>ar_valid := False, stateful := True,
                      confs := filter (\<lambda>(ep, m). \<not> ep \<le> Epoch (ar_id rh)) (confs rh)\<rparr>)))"

section \<open>The loop\<close>

text \<open>
  \<open>ARServer\<close> is the server, which starts Paxos when \<open>RunningPaxos\<close> returns; \<open>ARRequest\<close> a call of
  \<open>RequestReconf\<close>; \<open>ARSetup\<close> the end of an initialisation of remote nodes; \<open>ARAdu\<close> and \<open>ARAcceptor\<close> are
  steps of the server and of the acceptor, which takes none while it is held. \<open>ARHold\<close> changes whether the
  group manager would grant a hold.
\<close>

datatype ar_event =
    ARFd FdMsg "Node option list"
  | ARRepLd gid
  | ARReconf ArReconfMsg "gid \<Rightarrow> bool"
  | ARCPromise "AcceptorSlotMap \<Rightarrow> (SlotID \<times> AcceptorSlot) list" CPromise
  | ARActivation Activation
  | ARCmd "Node option list"
  | ARRequest ReconfCmd
  | ARSetup bool
  | ARServer
  | ARAdu
  | ARAcceptor acceptor_event
  | ARHold bool

fun ar_step :: "ar_event \<Rightarrow> AReconfHandler \<Rightarrow> AReconfHandler result" where
  "ar_step (ARFd fdmsg answers) rh =
     (case ar_handleFdMsg fdmsg rh of None \<Rightarrow> Ok rh | Some rcmd \<Rightarrow> handleReconfCmd rcmd answers rh)"
| "ar_step (ARRepLd ldmsg) rh = Ok (handleRepLdMsg ldmsg rh)"
| "ar_step (ARReconf rm reached) rh =
     bind_result (handleReconfMsg rm rh) (\<lambda>(cp, rh).
       case cp of None \<Rightarrow> Ok rh | Some cp \<Rightarrow> sendCP reached cp (am_OldIds rm) rh)"
| "ar_step (ARCPromise order cp) rh =
     bind_result (handleCPromise order cp rh) (\<lambda>(ac, rh).
       case ac of None \<Rightarrow> Ok rh | Some ac \<Rightarrow> handleActivation ac rh)"
| "ar_step (ARActivation ac) rh =
     (case checkOutsideActivation ac rh of
        (correct, rh) \<Rightarrow> if correct then handleActivation ac rh else Ok rh)"
| "ar_step (ARCmd answers) rh =
     (case cmdChan rh of [] \<Rightarrow> Ok rh
      | rcmd # rest \<Rightarrow> handleReconfCmd rcmd answers (rh\<lparr>cmdChan := rest\<rparr>))"
| "ar_step (ARRequest rcmd) rh = Ok (if cmdChan rh = [] then rh\<lparr>cmdChan := [rcmd]\<rparr> else rh)"
| "ar_step (ARSetup initialised) rh = Ok (ar_doRemoteSetupAndSend initialised rh)"
| "ar_step ARServer rh =
     Ok (if stateful rh \<and> ar_valid rh \<or> runPaxosClosed rh then rh\<lparr>paxosRunning := True\<rparr> else rh)"
| "ar_step ARAdu rh = Ok (rh\<lparr>ar_adu := Increment (ar_adu rh)\<rparr>)"
| "ar_step (ARAcceptor ev) rh =
     (if \<not> paxosRunning rh \<or> accHeld rh then Ok rh
      else bind_result (acceptor_step (ar_grpmgr rh) ev (ar_acceptor rh)) (\<lambda>a. Ok (rh\<lparr>ar_acceptor := a\<rparr>)))"
| "ar_step (ARHold granted) rh = Ok (rh\<lparr>holdGranted := granted\<rparr>)"

fun ar_run :: "ar_event list \<Rightarrow> AReconfHandler \<Rightarrow> AReconfHandler result" where
  "ar_run [] rh = Ok rh"
| "ar_run (e # es) rh = bind_result (ar_step e rh) (ar_run es)"

end
