(* ===== verification/AReconfRuns.thy ===== *)
theory AReconfRuns
  imports AReconf
begin

text \<open>
  What asynchronous reconfiguration guarantees: a replica enters an epoch only with the state of a
  quorum of promises of one earlier epoch, or by an activation from outside; its epoch never
  decreases and its Paxos id never changes; an initial replica never waits for its acceptor in vain.
  And what it does not: the votes in the promises are lost, and a new replica that is activated in an
  epoch that is already left hangs in the one that follows.
\<close>

section \<open>The merged acceptor state\<close>

lemma cp_mergeSlot_eq: "cp_mergeSlot e sm = snd (GetAcceptorSlot (fst e) sm)"
  by (simp add: cp_mergeSlot_def Let_def split: prod.splits)

lemma cp_mergeSlots:
  "asm_Rnd (fold cp_mergeSlot es sm) = asm_Rnd sm \<and> asm.view (fold cp_mergeSlot es sm) = asm.view sm"
proof (induction es arbitrary: sm)
  case (Cons e es)
  have "asm_Rnd (cp_mergeSlot e sm) = asm_Rnd sm" "asm.view (cp_mergeSlot e sm) = asm.view sm"
    by (simp_all add: cp_mergeSlot_eq asm.view_get)
  then show ?case using Cons.IH [of "cp_mergeSlot e sm"] by auto
qed simp

lemma cp_mergeState_fields:
  assumes "cp_mergeState order cp (sm, f) = (sm', f')"
  shows "asm_Rnd sm' = max (asm_Rnd sm) (asm_Rnd (cp_AccState cp))" and "asm.view sm' = asm.view sm"
    and "f' = max f (cp_AduSlot cp)"
proof -
  define sm1 where "sm1 = (if Compare (asm_Rnd (cp_AccState cp)) (asm_Rnd sm) = 1
    then sm\<lparr>asm_Rnd := asm_Rnd (cp_AccState cp)\<rparr> else sm)"
  have sm': "sm' = fold cp_mergeSlot (order (cp_AccState cp)) sm1"
    using assms by (simp add: cp_mergeState_def sm1_def Let_def)
  have "asm_Rnd sm1 = max (asm_Rnd sm) (asm_Rnd (cp_AccState cp))"
    by (auto simp: sm1_def max_def)
  moreover have "asm.view sm1 = asm.view sm"
    by (rule ext) (simp add: sm1_def asm.view_def)
  ultimately show "asm_Rnd sm' = max (asm_Rnd sm) (asm_Rnd (cp_AccState cp))" "asm.view sm' = asm.view sm"
    by (simp_all add: sm' cp_mergeSlots)
  show "f' = max f (cp_AduSlot cp)"
    using assms by (auto simp: cp_mergeState_def Let_def max_def)
qed

lemma cp_mergeStates_fields:
  assumes "fold (cp_mergeState order) cps (sm, f) = (sm', f')"
  shows "asm_Rnd sm' = fold (\<lambda>cp r. max r (asm_Rnd (cp_AccState cp))) cps (asm_Rnd sm)"
    and "f' = fold (\<lambda>cp s. max s (cp_AduSlot cp)) cps f" and "asm.view sm' = asm.view sm"
proof -
  have "asm_Rnd sm' = fold (\<lambda>cp r. max r (asm_Rnd (cp_AccState cp))) cps (asm_Rnd sm) \<and>
      f' = fold (\<lambda>cp s. max s (cp_AduSlot cp)) cps f \<and> asm.view sm' = asm.view sm"
    using assms
  proof (induction cps arbitrary: sm f)
    case (Cons cp cps)
    obtain sm1 f1 where m: "cp_mergeState order cp (sm, f) = (sm1, f1)"
      by (cases "cp_mergeState order cp (sm, f)")
    then show ?case
      using Cons.IH [of sm1 f1] Cons.prems cp_mergeState_fields [OF m] by simp
  qed simp
  then show "asm_Rnd sm' = fold (\<lambda>cp r. max r (asm_Rnd (cp_AccState cp))) cps (asm_Rnd sm)"
    and "f' = fold (\<lambda>cp s. max s (cp_AduSlot cp)) cps f" and "asm.view sm' = asm.view sm"
    by simp_all
qed

lemma fold_max:
  fixes f :: "'a \<Rightarrow> 'b::linorder"
  shows "s \<le> fold (\<lambda>x s. max s (f x)) xs s" and "x \<in> set xs \<Longrightarrow> f x \<le> fold (\<lambda>x s. max s (f x)) xs s"
    and "fold (\<lambda>x s. max s (f x)) xs s \<noteq> s \<Longrightarrow> \<exists>x\<in>set xs. fold (\<lambda>x s. max s (f x)) xs s = f x"
proof (induction xs arbitrary: s)
  case (Cons y ys)
  { case 1
    show ?case using Cons.IH(1) [of "max s (f y)"] by simp }
  { case 2
    then show ?case using Cons.IH(1) [of "max s (f y)"] Cons.IH(2) [of "max s (f y)"] by auto }
  { case 3
    show ?case
    proof (cases "fold (\<lambda>x s. max s (f x)) ys (max s (f y)) = max s (f y)")
      case True
      with 3 show ?thesis by (auto simp: max_def split: if_splits)
    next
      case False
      with Cons.IH(3) [OF False] show ?thesis by auto
    qed }
qed simp_all

lemma cp_extractAcceptorState_fields:
  assumes "cp_extractAcceptorState order q = Ok (st, s)"
  shows "q \<noteq> []" and "cp \<in> set q \<Longrightarrow> cp_AduSlot cp \<le> s" and "s \<noteq> 0 \<Longrightarrow> \<exists>cp\<in>set q. s = cp_AduSlot cp"
    and "cp \<in> set q \<Longrightarrow> Rnd (asm_Rnd (cp_AccState cp)) \<le> Rnd (asm_Rnd st)"
    and "Epoch (RndID (asm_Rnd st)) = cp_NewEpoch (hd q)" and "VRnd (asm.view st i) = ZeroRound"
proof -
  obtain sm f where m: "fold (cp_mergeState order) q (NewAcceptorSlotMap, 0) = (sm, f)"
    by (cases "fold (cp_mergeState order) q (NewAcceptorSlotMap, 0)")
  obtain cp0 where cp0: "index q 0 = Ok cp0" and s: "s = f"
    and st: "st = sm\<lparr>asm_Rnd := Round (Rnd (asm_Rnd sm)) (ID (PaxosID (RndID (asm_Rnd sm))) (cp_NewEpoch cp0))\<rparr>"
    using assms by (auto simp: cp_extractAcceptorState_def m bind_result_Inr_iff Let_def)
  note fields = cp_mergeStates_fields [OF m]
  show q: "q \<noteq> []" using cp0 by (auto simp: index_def split: if_splits)
  show "cp_AduSlot cp \<le> s" if "cp \<in> set q"
    using fold_max(2) [OF that, of cp_AduSlot 0] by (simp add: s fields(2))
  show "s \<noteq> 0 \<Longrightarrow> \<exists>cp\<in>set q. s = cp_AduSlot cp"
    using fold_max(3) [of cp_AduSlot q 0] by (simp add: s fields(2))
  show "Rnd (asm_Rnd (cp_AccState cp)) \<le> Rnd (asm_Rnd st)" if "cp \<in> set q"
  proof -
    have "asm_Rnd (cp_AccState cp) \<le> asm_Rnd sm"
      using fold_max(2) [OF that, of "\<lambda>cp. asm_Rnd (cp_AccState cp)"] by (simp add: fields(1))
    then show ?thesis by (auto simp: st le_less round_less_iff)
  qed
  show "Epoch (RndID (asm_Rnd st)) = cp_NewEpoch (hd q)"
    using cp0 q by (auto simp: st index_def hd_conv_nth split: if_splits)
  have "asm.view st = asm.view NewAcceptorSlotMap"
    unfolding fields(3) [symmetric] by (rule ext) (simp add: st asm.view_def)
  then show "VRnd (asm.view st i) = ZeroRound"
    by (simp add: asm.view_def NewAcceptorSlotMap_def blankAcceptorSlot_def)
qed

section \<open>Quorums of promises\<close>

lemma checkCPromises_sound:
  assumes "checkCPromises msgs ep = (b, q)"
  shows "set q \<subseteq> set msgs" and "cp \<in> set q \<Longrightarrow> Epoch (cp_ID cp) = ep"
    and "distinct (map (\<lambda>cp. PaxosID (cp_ID cp)) q)"
    and "b \<Longrightarrow> q \<noteq> [] \<and> cp_QuorumSize (hd q) \<le> of_nat (length q)"
proof -
  let ?step = "\<lambda>cp (ids, ret). if Epoch (cp_ID cp) = ep \<and> PaxosID (cp_ID cp) \<notin> set ids
            then (PaxosID (cp_ID cp) # ids, ret @ [cp]) else (ids, ret)"
  have loop: "fold ?step ms (ids, ret) = (ids', ret') \<Longrightarrow> ids = rev (map (\<lambda>cp. PaxosID (cp_ID cp)) ret) \<Longrightarrow>
      distinct (map (\<lambda>cp. PaxosID (cp_ID cp)) ret) \<Longrightarrow> \<forall>cp\<in>set ret. Epoch (cp_ID cp) = ep \<Longrightarrow>
      set ret' \<subseteq> set ret \<union> set ms \<and> (\<forall>cp\<in>set ret'. Epoch (cp_ID cp) = ep) \<and>
      distinct (map (\<lambda>cp. PaxosID (cp_ID cp)) ret')" for ms ids ret ids' ret'
  proof (induction ms arbitrary: ids ret)
    case (Cons m ms)
    show ?case
    proof (cases "Epoch (cp_ID m) = ep \<and> PaxosID (cp_ID m) \<notin> set ids")
      case True
      with Cons.prems have "fold ?step ms (PaxosID (cp_ID m) # ids, ret @ [m]) = (ids', ret')" by simp
      from Cons.IH [OF this] Cons.prems True show ?thesis by auto
    next
      case False
      then have "?step m (ids, ret) = (ids, ret)" by auto
      with Cons.prems have "fold ?step ms (ids, ret) = (ids', ret')" by simp
      from Cons.IH [OF this] Cons.prems show ?thesis by auto
    qed
  qed simp
  obtain ids ret where f: "fold ?step msgs ([], []) = (ids, ret)"
    by (cases "fold ?step msgs ([], [])")
  then have bq: "(case ret of [] \<Rightarrow> (False, [])
      | cp # _ \<Rightarrow> (\<not> of_nat (length ret) < cp_QuorumSize cp, ret)) = (b, q)"
    using assms by (simp add: checkCPromises_def)
  then have q: "q = ret" and b: "b \<longleftrightarrow> ret \<noteq> [] \<and> \<not> of_nat (length ret) < cp_QuorumSize (hd ret)"
    by (auto split: list.splits)
  note inv = loop [OF f]
  show "set q \<subseteq> set msgs" and "cp \<in> set q \<Longrightarrow> Epoch (cp_ID cp) = ep"
    and "distinct (map (\<lambda>cp. PaxosID (cp_ID cp)) q)"
    using inv q by simp_all
  show "b \<Longrightarrow> q \<noteq> [] \<and> cp_QuorumSize (hd q) \<le> of_nat (length q)"
    using b q by (simp add: not_less)
qed

section \<open>What the steps change\<close>

text \<open>\<open>ar_core\<close> is the state that only the messages of the protocol change.\<close>

definition ar_core :: "AReconfHandler \<Rightarrow> gid \<times> bool \<times> bool \<times> bool \<times> bool \<times> bool \<times> (epoch \<rightharpoonup> CPromise list)" where
  "ar_core rh = (ar_id rh, stateful rh, ar_valid rh, accHeld rh, paxosRunning rh, runPaxosClosed rh, cPromises rh)"

lemma handleReconfCmd_core:
  assumes "handleReconfCmd rcmd answers rh = Ok rh'"
  shows "ar_core rh' = ar_core rh"
  using assms
  by (auto simp: handleReconfCmd_def putCmd_def ar_core_def Let_def split: if_splits option.splits)

lemma ar_doRemoteSetupAndSend_core: "ar_core (ar_doRemoteSetupAndSend b rh) = ar_core rh"
  by (auto simp: ar_doRemoteSetupAndSend_def ar_core_def split: list.split)

lemma sendCP_core: "sendCP reached cp oldids rh = Ok rh' \<Longrightarrow> ar_core rh' = ar_core rh"
  by (auto simp: sendCP_def ar_core_def Let_def bind_result_Inr_iff)

lemma updateConfs_core: "ar_core (updateConfs rm rh) = ar_core rh"
  by (simp add: updateConfs_def ar_core_def Let_def)

lemma storeConfs_core: "storeConfs cp cs rh = (b, rh') \<Longrightarrow> ar_core rh' = ar_core rh"
proof (induction cp cs rh rule: storeConfs.induct)
  case (2 cp ep m cs rh)
  then show ?case by (auto simp: ar_core_def Let_def split: if_splits)
qed simp

lemma checkOutsideActivation_core:
  assumes "checkOutsideActivation ac rh = (b, rh')"
  shows "ar_core rh' = ar_core rh" and "b \<Longrightarrow> Epoch (ar_id rh) \<le> av_Epoch ac"
proof -
  let ?f = "\<lambda>(ep, m) rh. if lookup (confs rh) ep = None \<and> ep > av_Epoch ac
    then let rh = rh\<lparr>confs := put ep m (confs rh)\<rparr>
         in if ep > maxEpochSeen rh then rh\<lparr>maxEpochSeen := ep\<rparr> else rh
    else rh"
  have one: "ar_core (?f e r) = ar_core r" for e r
    by (cases e) (simp add: ar_core_def Let_def)
  have "ar_core (fold ?f cs r) = ar_core r" for cs r
    by (induction cs arbitrary: r) (simp_all add: one)
  then show "ar_core rh' = ar_core rh"
    using assms by (auto simp: checkOutsideActivation_def split: if_splits)
  show "b \<Longrightarrow> Epoch (ar_id rh) \<le> av_Epoch ac"
    using assms by (auto simp: checkOutsideActivation_def not_less split: if_splits)
qed

lemma makeCPromise_sound:
  assumes "makeCPromise rm rh = Ok (Some cp)"
  shows "cp_ID cp = ar_id rh \<and> cp_NewEpoch cp = am_NewEpoch rm \<and> cp_Confs cp = confs rh \<and>
    acceptorState rh = Some (cp_AccState cp) \<and> cp_QuorumSize cp = Quorum (ar_grpmgr rh)"
  using assms by (auto simp: makeCPromise_def split: if_splits option.splits)

lemma stopAcceptor_Ok:
  assumes "stopAcceptor s rh = Ok rh'"
  shows "paxosRunning rh \<and> \<not> accHeld rh \<and> ar_core rh' = ar_core (rh\<lparr>accHeld := True\<rparr>) \<and>
    ar_grpmgr rh' = ar_grpmgr rh \<and> confs rh' = confs rh \<and> maxEpochSeen rh' = maxEpochSeen rh \<and>
    ar_acceptor rh' = ar_acceptor rh \<and> nextSlots rh' = nextSlots rh"
  using assms by (auto simp: stopAcceptor_def ar_core_def bind_result_Inr_iff split: if_splits)

text \<open>A promise is only sent by a replica whose acceptor is held.\<close>

lemma handleReconfMsg_cases:
  assumes "handleReconfMsg rm rh = Ok (cp, rh')"
  obtains (same) "ar_core rh' = ar_core rh"
  | (stopped) "stateful rh" "ar_valid rh" "paxosRunning rh" "\<not> accHeld rh"
      "ar_core rh' = ar_core (rh\<lparr>accHeld := True, ar_valid := False\<rparr>)"
proof (cases "stateful rh \<and> am_NewEpoch rm > Epoch (ar_id rh) \<and> ar_valid rh")
  case True
  then obtain rh1 where rh1: "stopAcceptor (am_AduSlot rm) rh = Ok rh1"
    and rh': "rh' = updateConfs rm (rh1\<lparr>ar_valid := False\<rparr>)"
    using assms by (auto simp: handleReconfMsg_def bind_result_Inr_iff Let_def)
  have "ar_core rh' = ar_core (rh1\<lparr>ar_valid := False\<rparr>)"
    unfolding rh' by (rule updateConfs_core)
  then have "ar_core rh' = ar_core (rh\<lparr>accHeld := True, ar_valid := False\<rparr>)"
    using stopAcceptor_Ok [OF rh1] by (simp add: ar_core_def)
  then show thesis using True stopAcceptor_Ok [OF rh1] by (intro stopped) simp_all
next
  case False
  then have "rh' = rh \<or> rh' = updateConfs rm rh"
    using assms by (auto simp: handleReconfMsg_def bind_result_Inr_iff Let_def split: if_splits)
  then show thesis using updateConfs_core [of rm rh] by (intro same) auto
qed

text \<open>
  A promise is ignored, or stored with those of its epoch; only with a quorum of them it activates.
\<close>

lemma handleCPromise_cases:
  assumes "handleCPromise order cp rh = Ok (ac, rh')"
  obtains (ignored) "ac = None" "ar_core rh' = ar_core rh"
  | (stored) ps where "ps = [] \<or> cPromises rh (Epoch (cp_ID cp)) = Some ps"
      "ar_core rh' = ar_core (rh\<lparr>cPromises := (cPromises rh)(Epoch (cp_ID cp) \<mapsto> ps @ [cp])\<rparr>)" "ac = None"
  | (activates) ps a q where "cPromises rh (Epoch (cp_ID cp)) = Some ps"
      "ar_core rh' = ar_core (rh\<lparr>cPromises := (cPromises rh)(Epoch (cp_ID cp) \<mapsto> ps @ [cp])\<rparr>)"
      "ac = Some a" "Epoch (ar_id rh) \<le> cp_NewEpoch cp" "av_Epoch a = cp_NewEpoch cp"
      "checkCPromises (ps @ [cp]) (Epoch (cp_ID cp)) = (True, q)"
      "cp_extractAcceptorState order q = Ok (av_AccState a, av_AduSlot a)"
proof -
  obtain b rh1 where st: "storeConfs cp (cp_Confs cp) rh = (b, rh1)"
    by (cases "storeConfs cp (cp_Confs cp) rh")
  have core: "ar_core rh1 = ar_core rh" by (rule storeConfs_core [OF st])
  then have cp1: "cPromises rh1 = cPromises rh" by (simp add: ar_core_def)
  show thesis
  proof (cases "cp_NewEpoch cp < Epoch (ar_id rh) \<or> cp_NewEpoch cp = Epoch (ar_id rh) \<and> stateful rh \<or> \<not> b")
    case True
    then have "(rh' = rh \<or> rh' = rh1) \<and> ac = None"
      using assms st by (auto simp: handleCPromise_def split: if_splits)
    then show ?thesis using core by (intro ignored) auto
  next
    case new: False
    show ?thesis
    proof (cases "cPromises rh (Epoch (cp_ID cp))")
      case None
      then have "ac = None" "rh' = rh1\<lparr>cPromises := (cPromises rh)(Epoch (cp_ID cp) \<mapsto> [] @ [cp])\<rparr>"
        using assms st new cp1 by (auto simp: handleCPromise_def)
      then show ?thesis using core by (intro stored [of "[]"]) (simp_all add: ar_core_def)
    next
      case (Some ps)
      let ?rh2 = "rh1\<lparr>cPromises := (cPromises rh)(Epoch (cp_ID cp) \<mapsto> ps @ [cp])\<rparr>"
      obtain v q where vq: "checkCPromises (ps @ [cp]) (Epoch (cp_ID cp)) = (v, q)"
        by (cases "checkCPromises (ps @ [cp]) (Epoch (cp_ID cp))")
      show ?thesis
      proof (cases "of_nat (length (ps @ [cp])) < cp_QuorumSize cp \<or> \<not> v")
        case True
        then have "ac = None" "rh' = ?rh2"
          using assms st new cp1 Some vq by (auto simp: handleCPromise_def Let_def split: if_splits)
        then show ?thesis using core Some by (intro stored) (simp_all add: ar_core_def)
      next
        case False
        then obtain stt f where e: "cp_extractAcceptorState order q = Ok (stt, f)"
          and rh': "rh' = ?rh2\<lparr>acceptorState := Some stt, accFirstSlot := f\<rparr>"
          and ac: "ac = Some \<lparr>av_Epoch = cp_NewEpoch cp, av_AduSlot = f, av_AccState = stt, av_Confs = confs rh1\<rparr>"
          using assms st new cp1 Some vq
          by (auto simp: handleCPromise_def Let_def bind_result_Inr_iff split: if_splits)
        show ?thesis
          by (rule activates [OF Some _ ac]) (use core vq e new False in \<open>simp_all add: rh' ar_core_def not_less\<close>)
      qed
    qed
  qed
qed

text \<open>The state of an initial replica whose acceptor's goroutine has been started.\<close>

definition ar_ok :: "AReconfHandler \<Rightarrow> bool" where
  "ar_ok rh \<longleftrightarrow> stateful rh \<and> paxosRunning rh \<and> \<not> runPaxosClosed rh \<and> (accHeld rh \<longleftrightarrow> \<not> ar_valid rh)"

definition ar_move :: "AReconfHandler \<Rightarrow> AReconfHandler \<Rightarrow> bool" where
  "ar_move rh rh' \<longleftrightarrow> PaxosID (ar_id rh') = PaxosID (ar_id rh) \<and> Epoch (ar_id rh) \<le> Epoch (ar_id rh') \<and>
     (ar_ok rh \<longrightarrow> ar_ok rh')"

lemma ar_move_trans: "ar_move a b \<Longrightarrow> ar_move b c \<Longrightarrow> ar_move a c"
  by (auto simp: ar_move_def)

lemma ar_move_core: "ar_core rh' = ar_core rh \<Longrightarrow> ar_move rh rh'"
  by (simp add: ar_move_def ar_core_def ar_ok_def)

lemma changeEpoch_Ok:
  assumes "changeEpoch ep rh = Ok rh'"
  shows "ar_core rh' = ar_core (rh\<lparr>ar_id := ar_id rh'\<rparr>)"
    and "ar_id rh' = ar_id rh \<or> ar_id rh' = ID (PaxosID (ar_id rh)) ep"
  using assms by (auto simp: changeEpoch_def awaitHold_def ar_core_def Let_def bind_result_Inr_iff split: option.splits if_splits)

lemma handleActivation_Ok:
  assumes "handleActivation ac rh = Ok rh'"
  obtains rh1 rh2 where
    "(if ar_valid rh \<and> stateful rh then stopAcceptor (adu_val (ar_adu rh)) rh else Ok rh) = Ok rh1"
    "changeEpoch (av_Epoch ac) rh1 = Ok rh2" "ar_id rh' = ar_id rh2" "cPromises rh' = cPromises rh2"
    "paxosRunning rh' = paxosRunning rh2" "stateful rh'"
    "if ar_valid rh' then (if stateful rh2 then accHeld rh2 \<and> \<not> accHeld rh' \<and> runPaxosClosed rh' = runPaxosClosed rh2
       else accHeld rh' = accHeld rh2 \<and> \<not> runPaxosClosed rh2 \<and> runPaxosClosed rh')
     else accHeld rh' = accHeld rh2 \<and> runPaxosClosed rh' = runPaxosClosed rh2"
proof -
  obtain rh1 where rh1: "(if ar_valid rh \<and> stateful rh then stopAcceptor (adu_val (ar_adu rh)) rh else Ok rh) = Ok rh1"
    using assms unfolding handleActivation_def bind_result_Inr_iff by blast
  then obtain rh2 where rh2: "changeEpoch (av_Epoch ac) rh1 = Ok rh2"
    using assms unfolding handleActivation_def by (auto simp: bind_result_Inr_iff)
  show thesis
    using assms unfolding handleActivation_def rh1 bind_result_simps rh2 Let_def
    by (intro that [OF rh1 rh2]) (auto simp: releaseAcceptor_def split: if_splits)
qed

lemma handleActivation_move:
  assumes "handleActivation ac rh = Ok rh'" and "Epoch (ar_id rh) \<le> av_Epoch ac"
  shows "ar_move rh rh'" and "cPromises rh' = cPromises rh"
proof -
  obtain rh1 rh2 where rh1: "(if ar_valid rh \<and> stateful rh then stopAcceptor (adu_val (ar_adu rh)) rh else Ok rh) = Ok rh1"
    and rh2: "changeEpoch (av_Epoch ac) rh1 = Ok rh2" and rh': "ar_id rh' = ar_id rh2" "cPromises rh' = cPromises rh2"
    "paxosRunning rh' = paxosRunning rh2" "stateful rh'"
    "if ar_valid rh' then (if stateful rh2 then accHeld rh2 \<and> \<not> accHeld rh' \<and> runPaxosClosed rh' = runPaxosClosed rh2
       else accHeld rh' = accHeld rh2 \<and> \<not> runPaxosClosed rh2 \<and> runPaxosClosed rh')
     else accHeld rh' = accHeld rh2 \<and> runPaxosClosed rh' = runPaxosClosed rh2"
    using assms(1) by (rule handleActivation_Ok)
  have "ar_core rh1 = ar_core (rh\<lparr>accHeld := accHeld rh \<or> ar_valid rh \<and> stateful rh\<rparr>)"
    using rh1 stopAcceptor_Ok [of _ rh rh1] by (auto simp: ar_core_def split: if_splits)
  then have c2: "ar_core rh2 = ar_core (rh\<lparr>ar_id := ar_id rh2, accHeld := accHeld rh \<or> ar_valid rh \<and> stateful rh\<rparr>)"
    and i2: "ar_id rh2 = ar_id rh \<or> ar_id rh2 = ID (PaxosID (ar_id rh)) (av_Epoch ac)"
    using changeEpoch_Ok [OF rh2] by (simp_all add: ar_core_def)
  have "ar_ok rh \<Longrightarrow> ar_ok rh'"
    using c2 rh' by (cases "ar_valid rh'") (auto simp: ar_ok_def ar_core_def)
  then show "ar_move rh rh'" and "cPromises rh' = cPromises rh"
    using c2 i2 rh' assms(2) by (auto simp: ar_move_def ar_core_def)
qed

lemma ar_step_move:
  assumes "ar_step e rh = Ok rh'"
  shows "ar_move rh rh'"
proof (cases e)
  case (ARReconf rm reached)
  then obtain cp rh1 where m: "handleReconfMsg rm rh = Ok (cp, rh1)"
    and rest: "(case cp of None \<Rightarrow> Ok rh1 | Some cp \<Rightarrow> sendCP reached cp (am_OldIds rm) rh1) = Ok rh'"
    using assms by (auto simp: bind_result_Inr_iff)
  have "ar_core rh' = ar_core rh1" using rest sendCP_core by (cases cp) auto
  moreover from m have "ar_move rh rh1"
  proof (cases rule: handleReconfMsg_cases)
    case same then show ?thesis by (rule ar_move_core)
  next
    case stopped then show ?thesis by (auto simp: ar_move_def ar_core_def ar_ok_def)
  qed
  ultimately show ?thesis using ar_move_trans ar_move_core by blast
next
  case (ARCPromise order cp)
  then obtain ac rh1 where m: "handleCPromise order cp rh = Ok (ac, rh1)"
    and rest: "(case ac of None \<Rightarrow> Ok rh1 | Some ac \<Rightarrow> handleActivation ac rh1) = Ok rh'"
    using assms by (auto simp: bind_result_Inr_iff)
  from m show ?thesis
  proof (cases rule: handleCPromise_cases)
    case ignored then show ?thesis using rest by (auto intro: ar_move_core)
  next
    case (stored ps)
    then show ?thesis using rest by (auto simp: ar_move_def ar_core_def ar_ok_def)
  next
    case (activates ps a q)
    then have "ar_move rh rh1" by (auto simp: ar_move_def ar_core_def ar_ok_def)
    moreover have "ar_move rh1 rh'"
      using rest activates by (intro handleActivation_move(1) [of a]) (simp_all add: ar_core_def)
    ultimately show ?thesis by (rule ar_move_trans)
  qed
next
  case (ARActivation ac)
  obtain b rh1 where c: "checkOutsideActivation ac rh = (b, rh1)"
    by (cases "checkOutsideActivation ac rh")
  note core = checkOutsideActivation_core [OF c]
  show ?thesis
  proof (cases b)
    case True
    then have "handleActivation ac rh1 = Ok rh'" using assms ARActivation c by simp
    then have "ar_move rh1 rh'"
      using core True by (intro handleActivation_move(1)) (simp_all add: ar_core_def)
    then show ?thesis using ar_move_trans [OF ar_move_core [OF core(1)]] by blast
  qed (use assms ARActivation c core(1) ar_move_core in auto)
next
  case (ARCmd answers)
  then show ?thesis
    using assms handleReconfCmd_core [of _ answers "rh\<lparr>cmdChan := tl (cmdChan rh)\<rparr>" rh']
    by (intro ar_move_core) (auto simp: ar_core_def split: list.splits)
next
  case (ARFd fd answers)
  then show ?thesis
    using assms handleReconfCmd_core [of _ answers rh rh']
    by (intro ar_move_core) (auto split: option.splits)
next
  case (ARSetup b)
  then show ?thesis using assms ar_doRemoteSetupAndSend_core [of b rh] by (intro ar_move_core) simp
qed (use assms in \<open>auto simp: ar_move_def ar_ok_def handleRepLdMsg_def bind_result_Inr_iff split: if_splits\<close>)

lemma ar_run_move: "ar_run es rh = Ok rh' \<Longrightarrow> ar_move rh rh'"
proof (induction es arbitrary: rh)
  case (Cons e es)
  then obtain rh1 where "ar_step e rh = Ok rh1" "ar_run es rh1 = Ok rh'"
    by (auto simp: bind_result_Inr_iff)
  then show ?case using ar_move_trans [OF ar_step_move] Cons.IH by blast
qed (simp add: ar_move_def)

section \<open>Where the promises come from\<close>

fun ar_promises :: "ar_event list \<Rightarrow> CPromise list" where
  "ar_promises [] = []"
| "ar_promises (ARCPromise order cp # es) = cp # ar_promises es"
| "ar_promises (e # es) = ar_promises es"

lemma ar_promises_append: "ar_promises (es @ fs) = ar_promises es @ ar_promises fs"
  by (induction es rule: ar_promises.induct) simp_all

definition held_from :: "CPromise set \<Rightarrow> AReconfHandler \<Rightarrow> bool" where
  "held_from C rh \<longleftrightarrow> (\<forall>ep ps. cPromises rh ep = Some ps \<longrightarrow> (\<forall>cp\<in>set ps. Epoch (cp_ID cp) = ep \<and> cp \<in> C))"

lemma held_fromD: "held_from C rh \<Longrightarrow> cPromises rh ep = Some ps \<Longrightarrow> cp \<in> set ps \<Longrightarrow> cp \<in> C"
  by (auto simp: held_from_def)

lemma held_from_same: "held_from C rh \<Longrightarrow> cPromises rh' = cPromises rh \<Longrightarrow> C \<subseteq> D \<Longrightarrow> held_from D rh'"
  unfolding held_from_def by force

lemma held_from_put:
  assumes "held_from C rh" and "ps = [] \<or> cPromises rh (Epoch (cp_ID cp)) = Some ps"
    and "cPromises rh' = (cPromises rh)(Epoch (cp_ID cp) \<mapsto> ps @ [cp])"
  shows "held_from (insert cp C) rh'"
  using assms by (auto simp: held_from_def)

lemma handleCPromise_held:
  assumes "handleCPromise order cp rh = Ok (ac, rh')" and "held_from C rh"
  shows "held_from (insert cp C) rh'"
  using assms(1)
proof (cases rule: handleCPromise_cases)
  case ignored
  then show ?thesis by (intro held_from_same [OF assms(2)]) (auto simp: ar_core_def)
next
  case (stored ps)
  then show ?thesis by (intro held_from_put [OF assms(2), of ps]) (auto simp: ar_core_def)
next
  case (activates ps a q)
  then show ?thesis by (intro held_from_put [OF assms(2), of ps]) (auto simp: ar_core_def)
qed

lemma ar_step_promises:
  assumes "ar_step e rh = Ok rh'" and "\<And>order cp. e \<noteq> ARCPromise order cp"
  shows "cPromises rh' = cPromises rh"
proof (cases e)
  case (ARReconf rm reached)
  then obtain cp rh1 where m: "handleReconfMsg rm rh = Ok (cp, rh1)"
    and rest: "(case cp of None \<Rightarrow> Ok rh1 | Some cp \<Rightarrow> sendCP reached cp (am_OldIds rm) rh1) = Ok rh'"
    using assms by (auto simp: bind_result_Inr_iff)
  have "ar_core rh' = ar_core rh1" using rest sendCP_core by (cases cp) auto
  with m show ?thesis by (cases rule: handleReconfMsg_cases) (simp_all add: ar_core_def)
next
  case (ARActivation ac)
  obtain b rh1 where c: "checkOutsideActivation ac rh = (b, rh1)"
    by (cases "checkOutsideActivation ac rh")
  note core = checkOutsideActivation_core [OF c]
  show ?thesis
  proof (cases b)
    case True
    then have "handleActivation ac rh1 = Ok rh'" using assms ARActivation c by simp
    then have "cPromises rh' = cPromises rh1"
      using core True by (intro handleActivation_move(2)) (simp_all add: ar_core_def)
    then show ?thesis using core by (simp add: ar_core_def)
  qed (use assms ARActivation c core(1) in \<open>auto simp: ar_core_def\<close>)
next
  case (ARCmd answers)
  then show ?thesis
    using assms handleReconfCmd_core [of _ answers "rh\<lparr>cmdChan := tl (cmdChan rh)\<rparr>" rh']
    by (auto simp: ar_core_def split: list.splits)
next
  case (ARFd fd answers)
  then show ?thesis
    using assms handleReconfCmd_core [of _ answers rh rh'] by (auto simp: ar_core_def split: option.splits)
next
  case (ARSetup b)
  then show ?thesis using assms ar_doRemoteSetupAndSend_core [of b rh] by (simp add: ar_core_def)
qed (use assms in \<open>auto simp: handleRepLdMsg_def bind_result_Inr_iff split: if_splits\<close>)

lemma ar_step_held:
  assumes "ar_step e rh = Ok rh'" and "held_from C rh"
  shows "held_from (set (ar_promises [e]) \<union> C) rh'"
proof (cases "\<exists>order cp. e = ARCPromise order cp")
  case True
  then obtain order cp where e: "e = ARCPromise order cp" by blast
  then obtain ac rh1 where m: "handleCPromise order cp rh = Ok (ac, rh1)"
    and rest: "(case ac of None \<Rightarrow> Ok rh1 | Some ac \<Rightarrow> handleActivation ac rh1) = Ok rh'"
    using assms by (auto simp: bind_result_Inr_iff)
  have held: "held_from (insert cp C) rh1" by (rule handleCPromise_held [OF m assms(2)])
  have "cPromises rh' = cPromises rh1"
  proof (cases ac)
    case (Some a)
    from m Some have "Epoch (ar_id rh1) \<le> av_Epoch a"
      by (cases rule: handleCPromise_cases) (simp_all add: ar_core_def)
    then show ?thesis using rest Some by (intro handleActivation_move(2)) simp_all
  qed (use rest in simp)
  then show ?thesis using held_from_same [OF held, of rh' "insert cp C"] e by simp
next
  case False
  then have "cPromises rh' = cPromises rh" by (intro ar_step_promises [OF assms(1)]) blast
  then show ?thesis by (intro held_from_same [OF assms(2)]) auto
qed

lemma ar_run_held:
  "ar_run es rh = Ok rh' \<Longrightarrow> held_from C rh \<Longrightarrow> held_from (set (ar_promises es) \<union> C) rh'"
proof (induction es arbitrary: rh C)
  case (Cons e es)
  then obtain rh1 where "ar_step e rh = Ok rh1" "ar_run es rh1 = Ok rh'"
    by (auto simp: bind_result_Inr_iff)
  with Cons.IH [OF this(2) ar_step_held [OF this(1) Cons.prems(2)]] show ?case
    using ar_promises_append [of "[e]" es] by (simp add: ac_simps)
qed simp

lemma activation_quorum:
  assumes "ar_run es (NewAReconfHandler i leader gm acc adu) = Ok rh"
    and "handleCPromise order cp rh = Ok (Some ac, rh')"
  obtains q where "q \<noteq> []" "set q \<subseteq> insert cp (set (ar_promises es))" "av_Epoch ac = cp_NewEpoch cp"
    "\<And>p. p \<in> set q \<Longrightarrow> Epoch (cp_ID p) = Epoch (cp_ID cp)" "distinct (map (\<lambda>p. PaxosID (cp_ID p)) q)"
    "cp_QuorumSize (hd q) \<le> of_nat (length q)"
    "set q \<subseteq> set (the (cPromises rh' (Epoch (cp_ID cp))))" "cPromises rh' (Epoch (cp_ID cp)) \<noteq> None"
    "cp_extractAcceptorState order q = Ok (av_AccState ac, av_AduSlot ac)"
  using assms(2)
proof (cases rule: handleCPromise_cases)
  case (activates ps a q)
  have "held_from {} (NewAReconfHandler i leader gm acc adu)"
    by (simp add: held_from_def NewAReconfHandler_def)
  from ar_run_held [OF assms(1) this] have held: "held_from (set (ar_promises es)) rh" by simp
  note q = checkCPromises_sound [OF activates(6)]
  have ps: "cPromises rh' (Epoch (cp_ID cp)) = Some (ps @ [cp])" using activates(2) by (simp add: ar_core_def)
  have "set q \<subseteq> insert cp (set (ar_promises es))"
    using q(1) held_fromD [OF held activates(1)] by auto
  then show thesis
    using activates q ps by (intro that [of q]) auto
qed simp_all


section \<open>An initial replica never hangs on its acceptor\<close>

lemma setEpochs_no_hang: "setEpochs is es \<noteq> Fault Diverges"
  by (induction "is" es rule: setEpochs.induct)
    (auto simp: setEpoch_def update_index_def bind_result_def split: sum.split)

lemma SetNewNodeMap_no_hang: "SetNewNodeMap ns gm \<noteq> Fault Diverges"
  using setEpochs_no_hang
  by (auto simp: SetNewNodeMap_def NewNodeMap_def NewNodeMapWithCount_def Let_def bind_result_def
    split: sum.splits)

lemma changeEpoch_no_hang: "holdGranted rh \<Longrightarrow> changeEpoch ep rh \<noteq> Fault Diverges"
  using SetNewNodeMap_no_hang
  by (auto simp: changeEpoch_def awaitHold_def Let_def bind_result_def split: option.splits sum.splits)

lemma stopAcceptor_returns:
  assumes "paxosRunning rh" and "\<not> accHeld rh" and "asm_MaxSeen (ma_slots (ar_acceptor rh)) \<noteq> - 1"
  shows "\<exists>rh'. stopAcceptor s rh = Ok rh'"
  using assms by (simp add: stopAcceptor_def CopyAccSlotMapRange_def for_le_eq_for_lt Let_def)

lemma handleActivation_no_hang:
  assumes "ar_ok rh" and "holdGranted rh" and "asm_MaxSeen (ma_slots (ar_acceptor rh)) \<noteq> - 1"
  shows "handleActivation ac rh \<noteq> Fault Diverges"
proof
  assume hang: "handleActivation ac rh = Fault Diverges"
  have "\<exists>rh1. (if ar_valid rh \<and> stateful rh then stopAcceptor (adu_val (ar_adu rh)) rh else Ok rh) = Ok rh1"
    using assms stopAcceptor_returns by (auto simp: ar_ok_def)
  then obtain rh1 where rh1: "(if ar_valid rh \<and> stateful rh then stopAcceptor (adu_val (ar_adu rh)) rh else Ok rh) = Ok rh1" ..
  have "holdGranted rh1"
    using rh1 assms(2) by (auto simp: stopAcceptor_def bind_result_Inr_iff split: if_splits)
  then obtain rh2 where rh2: "changeEpoch (av_Epoch ac) rh1 = Ok rh2"
    using hang changeEpoch_no_hang [of rh1 "av_Epoch ac"]
    by (cases "changeEpoch (av_Epoch ac) rh1") (auto simp: handleActivation_def rh1)
  have "accHeld rh1 \<and> stateful rh1"
    using rh1 assms(1) stopAcceptor_Ok [of _ rh rh1] by (auto simp: ar_ok_def ar_core_def split: if_splits)
  then have "accHeld rh2 \<and> stateful rh2" using changeEpoch_Ok(1) [OF rh2] by (simp add: ar_core_def)
  then show False using hang
    by (simp add: handleActivation_def rh1 rh2 Let_def releaseAcceptor_def split: if_splits)
qed

lemma handleReconfMsg_no_hang:
  assumes "ar_ok rh" and "asm_MaxSeen (ma_slots (ar_acceptor rh)) \<noteq> - 1"
  shows "handleReconfMsg rm rh \<noteq> Fault Diverges"
proof -
  have cp: "makeCPromise rm r \<noteq> Fault Diverges" for r
    by (auto simp: makeCPromise_def split: option.splits)
  show ?thesis
  proof (cases "ar_valid rh")
    case True
    then obtain rh' where "stopAcceptor (am_AduSlot rm) rh = Ok rh'"
      using stopAcceptor_returns assms by (auto simp: ar_ok_def)
    then show ?thesis using cp True by (auto simp: handleReconfMsg_def Let_def bind_result_def split: sum.splits)
  next
    case False
    then show ?thesis using cp by (auto simp: handleReconfMsg_def Let_def bind_result_def split: sum.splits)
  qed
qed


text \<open>A hold that is not granted makes an activation wait for ever: the configuration is changed in it.\<close>

lemma activation_waits_for_hold:
  assumes "lookup (confs rh) (av_Epoch ac) = Some conf" and "\<not> ar_valid rh" and "\<not> holdGranted rh"
  shows "handleActivation ac rh = Fault Diverges"
  using assms by (simp add: handleActivation_def changeEpoch_def awaitHold_def)

text \<open>Values for the examples: promises of the replicas \<open>i\<close> of epoch 0 for the epoch \<open>ep\<close>.\<close>

definition someConf :: "epoch \<Rightarrow> (gid, Node) gomap" where
  "someConf ep = map (\<lambda>p. (ID p ep, NewNode ''a'' ''p'' ''c'' True True True)) [0, 1, 2]"

definition somePromise :: "8 word \<Rightarrow> epoch \<Rightarrow> CPromise" where
  "somePromise p ep = \<lparr>cp_ID = ID p 0, cp_QuorumSize = 2, cp_Sender = zeroNode, cp_NewEpoch = ep,
     cp_Confs = [(ep, someConf ep)], cp_AduSlot = 4, cp_AccState = NewAcceptorSlotMap\<rparr>"

definition someGrpMgr :: GrpMgr where
  "someGrpMgr = NewGrpMgr (ID 0 0)
     (case NewNodeMap (someConf 0) of Inl e \<Rightarrow> undefined | Inr nm \<Rightarrow> nm) False True"

definition someHandler :: "8 word \<Rightarrow> epoch \<Rightarrow> AReconfHandler" where
  "someHandler p ep = NewAReconfHandler (ID p ep) (ID 0 0) (someGrpMgr\<lparr>gm_id := ID p ep\<rparr>)
     (NewMultiAcceptor (ID p ep) True (ID 0 0) 1 someGrpMgr) (NewAdu 0)"

lemma someHandler_new:
  "someHandler p ep = NewAReconfHandler (ID p ep) (ID 0 0) (someGrpMgr\<lparr>gm_id := ID p ep\<rparr>)
     (NewMultiAcceptor (ID p ep) True (ID 0 0) 1 someGrpMgr) (NewAdu 0)"
  by (simp add: someHandler_def)

lemma some_activation:
  "case ar_run [ARCPromise (\<lambda>_. []) (somePromise 1 10)] (someHandler 0 0) of
     Inl e \<Rightarrow> False
   | Inr rh \<Rightarrow> (case handleCPromise (\<lambda>_. []) (somePromise 2 10) rh of
       Inr (Some ac, rh') \<Rightarrow> av_AduSlot ac = 4 | _ \<Rightarrow> False)"
  by code_simp


definition someReconf :: ArReconfMsg where
  "someReconf = \<lparr>am_NewEpoch = 10, am_NodeMap = someConf 10, am_OldIds = [(ID 0 0, True), (ID 1 0, True)],
     am_AduSlot = 3\<rparr>"

lemma some_stop:
  "case ar_run [ARServer] (someHandler 0 0) of
     Inl e \<Rightarrow> False
   | Inr rh \<Rightarrow> (case ar_run [ARReconf someReconf (\<lambda>_. True)] rh of
       Inr rh' \<Rightarrow> \<not> ar_valid rh' \<and> map fst (ar_ucast rh') = [ID 0 0, ID 1 0, ID 2 10] | Inl e \<Rightarrow> False)"
  by code_simp


end
