(* ===== verification/AReconfConfigs.thy ===== *)
theory AReconfConfigs
  imports AReconfRuns
begin

text \<open>
  The configurations a reconfiguration command makes: which replicas the new one has, which epochs it
  gets, and what goes wrong when the replica provider fails or a second reconfiguration is wanted.
\<close>

section \<open>Replacing replicas\<close>

lemma replaceLoop_returns:
  assumes "set ids \<subseteq> dom (lookup oldMap)" and "length ns = length ids"
  shows "\<exists>m' old'. replaceLoop oldMap ep ids (map Some ns @ rest) (m, newids, old) =
      (Some (m', newids @ map (\<lambda>r. ID (PaxosID r) ep) ids, old'), rest) \<and>
    lookup m' = lookup m ++ map_of (rev (zip (map (\<lambda>r. ID (PaxosID r) ep) ids) ns)) \<and>
    lookup old' = (\<lambda>i. if i \<in> set ids then None else lookup old i)"
  using assms
proof (induction ids arbitrary: ns m newids old)
  case (Cons r ids)
  then obtain n ns' where ns: "ns = n # ns'" by (cases ns) auto
  have sub: "set ids \<subseteq> dom (lookup oldMap)" "length ns' = length ids" using Cons.prems ns by auto
  let ?id = "ID (PaxosID r) ep"
  obtain m' old' where IH: "replaceLoop oldMap ep ids (map Some ns' @ rest) (put ?id n m, newids @ [?id], AList.delete r old) =
      (Some (m', (newids @ [?id]) @ map (\<lambda>r. ID (PaxosID r) ep) ids, old'), rest)"
    "lookup m' = lookup (put ?id n m) ++ map_of (rev (zip (map (\<lambda>r. ID (PaxosID r) ep) ids) ns'))"
    "lookup old' = (\<lambda>i. if i \<in> set ids then None else lookup (AList.delete r old) i)"
    using Cons.IH [OF sub, of "put ?id n m" "newids @ [?id]" "AList.delete r old"] by blast
  have "lookup oldMap r \<noteq> None" using Cons.prems by auto
  with IH show ?case
    by (auto simp: ns map_add_def fun_eq_iff delete_conv' split: option.split)
qed simp

lemma addLoop_none: "addLoop ep (nat 0) sz answers st = Some st"
  by simp

text \<open>The old nodes under their new identifiers, before any is replaced.\<close>

lemma fold_put_renamed:
  assumes "distinct (map (PaxosID \<circ> fst) ns)"
  shows "lookup (fold (\<lambda>(i, node). put (ID (PaxosID i) ep) node) ns m) j =
    (if Epoch j = ep then
       (case map_of (map (\<lambda>(i, n). (PaxosID i, n)) ns) (PaxosID j) of Some n \<Rightarrow> Some n | None \<Rightarrow> lookup m j)
     else lookup m j)"
  using assms
proof (induction ns arbitrary: m)
  case (Cons x ns)
  obtain i n where x: "x = (i, n)" by (cases x)
  have fresh: "map_of (map (\<lambda>(i, n). (PaxosID i, n)) ns) (PaxosID i) = None"
    using Cons.prems by (force simp: x map_of_eq_None_iff)
  show ?case
    using Cons fresh by (cases j) (auto simp: x split: option.split)
qed (auto split: option.split)

lemma map_of_rev: "distinct (map fst xs) \<Longrightarrow> map_of (rev xs) = map_of xs"
  by (rule map_of_inject_set [THEN iffD2]) (simp_all add: rev_map [symmetric])

lemma map_of_zip_ids:
  "map_of (zip (map (\<lambda>r. ID (PaxosID r) ep) rs) ns) i =
    (if Epoch i = ep then map_of (zip (map PaxosID rs) ns) (PaxosID i) else None)"
proof (induction rs arbitrary: ns)
  case (Cons r rs)
  then show ?case by (cases ns; cases i) auto
qed simp

lemma map_of_renamed: "map_of (map (\<lambda>(i, n). (PaxosID i, n)) ns) p = map_option snd (List.find (\<lambda>(i, n). PaxosID i = p) ns)"
  by (induction ns) auto

text \<open>
  A command that replaces replicas makes a configuration of a new epoch with the same Paxos ids: each
  replaced replica's node is the one the provider gave for it, every other replica keeps its node. The
  old replicas that will be asked for their state are exactly those that are not replaced.
\<close>

theorem arec_new_configuration:
  assumes "wf_NodeMap (nodeMap (ar_grpmgr rh))" and "addNodes rcmd = 0"
    and "distinct (repl rcmd)" and "set (repl rcmd) \<subseteq> dom (lookup (nodes (nodeMap (ar_grpmgr rh))))"
    and "length ns = length (repl rcmd)"
  shows "\<exists>rm newNodes. reconfSetupLocal rcmd (map Some ns) rh = Some (rm, newNodes) \<and>
    am_NewEpoch rm = getNewEpoch (ar_id rh) \<and> am_AduSlot rm = adu_val (ar_adu rh) \<and>
    (\<forall>i. lookup (am_NodeMap rm) i =
      (if Epoch i \<noteq> getNewEpoch (ar_id rh) then None
       else case map_of (zip (map PaxosID (repl rcmd)) ns) (PaxosID i) of
         Some n \<Rightarrow> Some n
       | None \<Rightarrow> map_option snd (LookupNodeWithPaxosID (PaxosID i) (nodeMap (ar_grpmgr rh))))) \<and>
    (\<forall>i. lookup (am_OldIds rm) i =
      (if i \<in> set (repl rcmd) then None else map_option (\<lambda>_. True) (LookupNode i (nodeMap (ar_grpmgr rh)))))"
proof -
  let ?old = "nodes (nodeMap (ar_grpmgr rh))" and ?ep = "getNewEpoch (ar_id rh)"
  let ?base = "fold (\<lambda>(i, node). put (ID (PaxosID i) ?ep) node) ?old []"
  let ?ids = "map (\<lambda>r. ID (PaxosID r) ?ep) (repl rcmd)"
  have inj: "inj_on PaxosID (set (map fst ?old))"
    using wf_NodeMap_inj [OF assms(1)] by (intro inj_onI) (simp add: PxInt_eq_iff)
  have "set (repl rcmd) \<subseteq> set (map fst ?old)" using assms(4) by (simp add: dom_map_of_conv_image_fst)
  with inj assms(3) have pax: "distinct (map PaxosID (repl rcmd))"
    by (simp add: distinct_map) (rule inj_on_subset)
  obtain m' old' where loop: "replaceLoop ?old ?ep (repl rcmd) (map Some ns) (?base, [], map (\<lambda>(i, node). (i, True)) ?old) =
      (Some (m', ?ids, old'), [])"
    and m': "lookup m' = lookup ?base ++ map_of (rev (zip ?ids ns))"
    and old': "lookup old' = (\<lambda>i. if i \<in> set (repl rcmd) then None else lookup (map (\<lambda>(i, node). (i, True)) ?old) i)"
    using replaceLoop_returns [OF assms(4,5), of ?ep "[]" ?base "[]" "map (\<lambda>(i, node). (i, True)) ?old"] by auto
  have "distinct (map (PaxosID \<circ> fst) ?old)"
    using assms(1) by (simp add: wf_NodeMap_def)
  note base = fold_put_renamed [OF this, of ?ep "[]"]
  have new: "lookup m' i = (if Epoch i \<noteq> ?ep then None
       else case map_of (zip (map PaxosID (repl rcmd)) ns) (PaxosID i) of
         Some n \<Rightarrow> Some n
       | None \<Rightarrow> map_option snd (LookupNodeWithPaxosID (PaxosID i) (nodeMap (ar_grpmgr rh))))" for i
  proof -
    have "distinct (map fst (zip ?ids ns))"
      using pax assms(5) by (simp add: distinct_map inj_on_def)
    then have "lookup m' i = (lookup ?base ++ map_of (zip ?ids ns)) i"
      by (simp add: m' map_of_rev)
    then show ?thesis
      using base [of i] by (simp add: map_add_def map_of_zip_ids LookupNodeWithPaxosID_def map_of_renamed
        split: option.splits)
  qed
  have olds: "lookup old' i = (if i \<in> set (repl rcmd) then None else map_option (\<lambda>_. True) (LookupNode i (nodeMap (ar_grpmgr rh))))" for i
    by (simp add: old' LookupNode_def map_of_map)
  show ?thesis
    using loop new olds assms(2) by (simp add: reconfSetupLocal_def Let_def)
qed

definition spareNode :: Node where
  "spareNode = NewNode ''s'' ''p'' ''c'' True True True"

lemma someGrpMgr_nodes: "nodeMap someGrpMgr = (case NewNodeMap (someConf 0) of Inl e \<Rightarrow> undefined | Inr nm \<Rightarrow> nm)"
  by (simp add: someGrpMgr_def NewGrpMgr_def)

lemma someGrpMgr_wf: "wf_NodeMap (nodeMap someGrpMgr)"
proof -
  have "list_all (\<lambda>i. 0 \<le> PxInt i \<and> PxInt i < 3) (map fst (someConf 0))"
    and "distinct (map (PaxosID \<circ> fst) (someConf 0))"
    by code_simp+
  then show ?thesis
    using NewNodeMap_wf [of "someConf 0"] by (auto simp: someGrpMgr_nodes someConf_def)
qed

theorem arec_new_configuration_witness:
  "\<exists>rm newNodes. reconfSetupLocal \<lparr>repl = [ID 1 0], addNodes = 0\<rparr> (map Some [spareNode]) (someHandler 0 0) =
      Some (rm, newNodes) \<and>
    lookup (am_NodeMap rm) (ID 1 10) = Some spareNode \<and> lookup (am_OldIds rm) (ID 1 0) = None"
proof -
  have gm: "nodeMap (ar_grpmgr (someHandler 0 0)) = nodeMap someGrpMgr" "ar_id (someHandler 0 0) = ID 0 0"
    by (simp_all add: someHandler_def NewAReconfHandler_def)
  have "lookup (nodes (nodeMap someGrpMgr)) (ID 1 0) \<noteq> None" and ep: "getNewEpoch (ID 0 0) = 10"
    by code_simp+
  then have "set (repl \<lparr>repl = [ID 1 0], addNodes = 0\<rparr>) \<subseteq> dom (lookup (nodes (nodeMap (ar_grpmgr (someHandler 0 0)))))"
    by (auto simp: gm)
  from arec_new_configuration [OF _ _ _ this, of "[spareNode]"] show ?thesis
    by (fastforce simp: gm ep someGrpMgr_wf)
qed

section \<open>Epochs\<close>

text \<open>
  The new epoch is the Paxos id plus a multiple of ten above the old epoch: two replicas with Paxos
  ids below ten never make the same one, but ten or more replicas can.
\<close>

lemma getNewEpoch_unat:
  assumes "0 \<le> PxInt i" and "unat (Epoch i) < 2 ^ 64 - 256"
  shows "unat (getNewEpoch i) = nat (PxInt i) + (unat (Epoch i) div 10 + 1) * 10"
proof -
  have "PxInt i < 128" using sint_lt [of "PaxosID i"] by (simp add: PxInt_def)
  moreover have "(unat (Epoch i) div 10 + 1) * 10 \<le> unat (Epoch i) + 10" by simp
  ultimately have small: "nat (PxInt i) + (unat (Epoch i) div 10 + 1) * 10 < 2 ^ 64"
    using assms by linarith
  have p: "scast (PaxosID i) = (of_nat (nat (PxInt i)) :: 64 word)"
    unfolding of_nat_nat [OF assms(1)] by (simp only: PxInt_def scast_eq)
  have e: "Epoch i div 10 = of_nat (unat (Epoch i) div 10)"
  proof -
    have "Epoch i div 10 = of_nat (unat (Epoch i div 10))" by simp
    then show ?thesis by (simp only: unat_div_distrib) simp
  qed
  have g: "getNewEpoch i = of_nat (nat (PxInt i) + (unat (Epoch i) div 10 + 1) * 10)"
    by (simp add: getNewEpoch_def p e)
  show ?thesis unfolding g unat_of_nat using small by (intro mod_less) simp
qed

text \<open>
  Two replicas with different Paxos ids below ten never choose the same epoch for a new
  configuration, whatever the epochs they are in, and the new epoch exceeds the old one, as long as
  epochs stay clear of the greatest.
\<close>

theorem arec_epochs_unique:
  assumes "0 \<le> PxInt i \<and> PxInt i < 10" and "0 \<le> PxInt j \<and> PxInt j < 10"
    and "unat (Epoch i) < 2 ^ 64 - 256" and "unat (Epoch j) < 2 ^ 64 - 256"
  shows "Epoch i < getNewEpoch i \<and> (getNewEpoch i = getNewEpoch j \<longrightarrow> PaxosID i = PaxosID j)"
proof
  note e = getNewEpoch_unat [OF conjunct1 [OF assms(1)] assms(3)] getNewEpoch_unat [OF conjunct1 [OF assms(2)] assms(4)]
  show "Epoch i < getNewEpoch i" by (simp add: word_less_nat_alt e(1))
  show "getNewEpoch i = getNewEpoch j \<longrightarrow> PaxosID i = PaxosID j"
  proof
    assume "getNewEpoch i = getNewEpoch j"
    then have "nat (PxInt i) + (unat (Epoch i) div 10 + 1) * 10 = nat (PxInt j) + (unat (Epoch j) div 10 + 1) * 10"
      using e by simp
    then have "nat (PxInt i) mod 10 = nat (PxInt j) mod 10" by (metis mod_mult_self1)
    then have "PxInt i = PxInt j" using assms(1,2) by (simp add: mod_less nat_less_iff) (simp add: nat_eq_iff)
    then show "PaxosID i = PaxosID j" by (simp add: PxInt_eq_iff)
  qed
qed

theorem arec_epochs_unique_witness:
  "Epoch (ID 2 13) < getNewEpoch (ID 2 13) \<and>
    (getNewEpoch (ID 2 13) = getNewEpoch (ID 4 11) \<longrightarrow> PaxosID (ID 2 13) = PaxosID (ID 4 11))"
  by (rule arec_epochs_unique) (simp_all add: PxInt_def)

lemma getNewEpoch_collides: "getNewEpoch (ID 10 0) = getNewEpoch (ID 0 10)"
  by code_simp

section \<open>What goes wrong\<close>

text \<open>
  A provider that fails is not noticed for a replacement: the new configuration holds the zero node.
\<close>

lemma replacement_by_zero_node:
  "case reconfSetupLocal \<lparr>repl = [ID 1 0], addNodes = 0\<rparr> [None] (someHandler 0 0) of
     None \<Rightarrow> False | Some (rm, newNodes) \<Rightarrow> lookup (am_NodeMap rm) (ID 1 10) = Some zeroNode"
  by code_simp

text \<open>
  Once one has succeeded, a replica starts no second reconfiguration: nothing clears the mark that one
  is being prepared.
\<close>

lemma second_reconf_ignored:
  assumes "ar_reconfInProgress rh"
  shows "ar_reconfInProgress (ar_doRemoteSetupAndSend True rh)"
    and "handleReconfCmd rcmd answers (ar_doRemoteSetupAndSend True rh) = Ok (ar_doRemoteSetupAndSend True rh)"
  using assms by (auto simp: ar_doRemoteSetupAndSend_def handleReconfCmd_def split: list.split)

text \<open>
  A new replica that is first activated in an epoch another configuration has already succeeded becomes
  stateful without having started Paxos. The activation in the last epoch then waits for an acceptor
  that is not held, and the start-up that waits for the activation is never woken.
\<close>

lemma late_activation_hangs:
  assumes "stateful rh" and "\<not> ar_valid rh" and "\<not> accHeld rh"
    and "changeEpoch (av_Epoch ac) rh = Ok rh'" and "maxEpochSeen rh \<le> av_Epoch ac"
  shows "handleActivation ac rh = Fault Diverges"
proof -
  have "ar_core rh' = ar_core (rh\<lparr>ar_id := ar_id rh'\<rparr>)" and "maxEpochSeen rh' = maxEpochSeen rh"
    using assms(4) changeEpoch_Ok(1) [OF assms(4)]
    by (auto simp: changeEpoch_def awaitHold_def Let_def bind_result_Inr_iff split: option.splits if_splits)
  then show ?thesis
    using assms by (simp add: handleActivation_def Let_def releaseAcceptor_def ar_core_def)
qed

lemma new_replica_hangs:
  "case ar_run [ARServer, ARCPromise (\<lambda>_. []) ((somePromise 0 10)\<lparr>cp_Confs := [(10, someConf 10), (20, someConf 20)]\<rparr>),
      ARCPromise (\<lambda>_. []) (somePromise 1 10),
      ARCPromise (\<lambda>_. []) ((somePromise 0 20)\<lparr>cp_ID := ID 0 10\<rparr>)] (someHandler 2 10) of
     Inl e \<Rightarrow> False
   | Inr rh \<Rightarrow> stateful rh \<and> \<not> paxosRunning rh \<and>
       (case ar_step (ARCPromise (\<lambda>_. []) ((somePromise 1 20)\<lparr>cp_ID := ID 1 10\<rparr>)) rh of
          Inl e \<Rightarrow> e = Diverges | Inr rh' \<Rightarrow> False)"
  by code_simp

end
