(* ===== verification/AReconfSafety.thy ===== *)
theory AReconfSafety
  imports AReconfConfigs
begin

text \<open>
  When two configurations that succeed the same one are proposed at the same time, at most one of them
  may run. A promise therefore carries all the configurations its sender knows, a sender gives none for
  an epoch above one it has promised, and a replica that knows of a later epoch does not start. This is
  enough as long as the promises of a quorum are all for one new epoch; the code does not check that,
  and a run of three replicas shows two configurations started.
\<close>

section \<open>What a replica has sent\<close>

abbreviation sent :: "AReconfHandler \<Rightarrow> CPromise list" where
  "sent rh \<equiv> map snd (ar_ucast rh)"

abbreviation known :: "AReconfHandler \<Rightarrow> epoch set" where
  "known rh \<equiv> dom (lookup (confs rh))"

text \<open>The state that a promise depends on.\<close>

definition ar_view :: "AReconfHandler \<Rightarrow> (gid \<times> CPromise) list \<times> gid \<times> bool \<times> bool \<times> configs" where
  "ar_view rh = (ar_ucast rh, ar_id rh, stateful rh, ar_valid rh, confs rh)"

text \<open>
  Promises that replicas make hold the configuration of their new epoch, and no replica sends an
  activation to another.
\<close>

fun ar_genuine :: "ar_event \<Rightarrow> bool" where
  "ar_genuine (ARCPromise order cp) \<longleftrightarrow> lookup (cp_Confs cp) (cp_NewEpoch cp) \<noteq> None"
| "ar_genuine (ARActivation ac) \<longleftrightarrow> False"
| "ar_genuine e \<longleftrightarrow> True"

definition promises_ok :: "CPromise set \<Rightarrow> AReconfHandler \<Rightarrow> bool" where
  "promises_ok C rh \<longleftrightarrow>
     (\<forall>c\<in>C. Epoch (cp_ID c) < cp_NewEpoch c \<and> Epoch (cp_ID c) \<le> Epoch (ar_id rh) \<and>
        (Epoch (cp_ID c) = Epoch (ar_id rh) \<longrightarrow> stateful rh \<and> \<not> ar_valid rh \<and> cp_NewEpoch c \<in> known rh) \<and>
        (\<forall>c'\<in>C. Epoch (cp_ID c') = Epoch (cp_ID c) \<longrightarrow> cp_NewEpoch c < cp_NewEpoch c' \<longrightarrow>
           cp_NewEpoch c' \<in> dom (lookup (cp_Confs c))))"

abbreviation sends_ok :: "AReconfHandler \<Rightarrow> bool" where
  "sends_ok rh \<equiv> promises_ok (set (sent rh)) rh"

lemmas sends_ok_def = promises_ok_def

lemma promises_ok_same:
  assumes "promises_ok C rh" and "ar_id rh' = ar_id rh" and "stateful rh' = stateful rh"
    and "ar_valid rh' = ar_valid rh" and "confs rh' = confs rh"
  shows "promises_ok C rh'"
  using assms by (simp add: promises_ok_def)

lemma promises_ok_mono: "promises_ok C rh \<Longrightarrow> D \<subseteq> C \<Longrightarrow> promises_ok D rh"
  unfolding promises_ok_def by (meson subsetD)

lemma sends_ok_view: "sends_ok rh \<Longrightarrow> ar_view rh' = ar_view rh \<Longrightarrow> sends_ok rh'"
  by (simp add: sends_ok_def ar_view_def)

lemma sends_ok_known:
  assumes "sends_ok rh" and "ar_view rh' = ar_view (rh\<lparr>confs := confs rh'\<rparr>)" and "known rh \<subseteq> known rh'"
  shows "sends_ok rh'"
  using assms unfolding sends_ok_def ar_view_def by fastforce

lemma updateConfs_known: "known (updateConfs rm rh) = insert (am_NewEpoch rm) (known rh)"
  and updateConfs_view: "ar_view (updateConfs rm rh) = ar_view (rh\<lparr>confs := confs (updateConfs rm rh)\<rparr>)"
  by (simp_all add: updateConfs_def Let_def ar_view_def)

lemma storeConfs_known:
  "storeConfs cp cs rh = (b, rh') \<Longrightarrow> ar_view rh' = ar_view (rh\<lparr>confs := confs rh'\<rparr>) \<and> known rh \<subseteq> known rh' \<and>
    (b \<longrightarrow> {ep \<in> fst ` set cs. cp_NewEpoch cp \<le> ep} \<subseteq> known rh')"
proof (induction cp cs rh rule: storeConfs.induct)
  case (2 cp ep m cs rh)
  show ?case
  proof (cases "cp_NewEpoch cp \<le> ep")
    case True
    define rh1 where "rh1 = (if lookup (confs rh) ep = None
           then let rh = rh\<lparr>confs := put ep m (confs rh)\<rparr>
                in if ep > maxEpochSeen rh then rh\<lparr>maxEpochSeen := ep\<rparr> else rh
           else rh)"
    have 1: "ar_view rh1 = ar_view (rh\<lparr>confs := confs rh1\<rparr>)" "known rh1 = insert ep (known rh)"
      by (auto simp: rh1_def ar_view_def Let_def)
    have "storeConfs cp cs rh1 = (b, rh')"
      using "2.prems" True unfolding rh1_def by simp
    from "2.IH"(1) [OF True, folded rh1_def, OF this] 1 show ?thesis
      by (auto simp: ar_view_def)
  next
    case False
    then show ?thesis using 2 by (auto simp: ar_view_def split: if_splits)
  qed
qed (auto simp: ar_view_def)

lemma makeCPromise_fields:
  assumes "makeCPromise rm rh = Ok (Some cp)"
  shows "cp_ID cp = ar_id rh" and "cp_NewEpoch cp = am_NewEpoch rm" and "cp_Confs cp = confs rh"
  using makeCPromise_sound [OF assms] by simp_all

text \<open>A promise is for a later epoch than every promise of the same replica it does not know of.\<close>

definition new_promise :: "CPromise \<Rightarrow> AReconfHandler \<Rightarrow> bool" where
  "new_promise cp rh \<longleftrightarrow> cp_ID cp = ar_id rh \<and> stateful rh \<and> \<not> ar_valid rh \<and> Epoch (ar_id rh) < cp_NewEpoch cp \<and>
     cp_NewEpoch cp \<in> known rh \<and> cp_Confs cp = confs rh \<and>
     (\<forall>c\<in>set (sent rh). Epoch (cp_ID c) = Epoch (ar_id rh) \<longrightarrow> \<not> cp_NewEpoch c < cp_NewEpoch cp)"

lemma promises_ok_insert:
  assumes "promises_ok (set (sent rh)) rh" and "new_promise cp rh"
  shows "promises_ok (insert cp (set (sent rh))) rh"
proof -
  define C where "C = set (sent rh)"
  have new: "cp_ID cp = ar_id rh" "stateful rh" "\<not> ar_valid rh" "Epoch (ar_id rh) < cp_NewEpoch cp"
    "cp_NewEpoch cp \<in> known rh" "cp_Confs cp = confs rh"
    and max: "\<And>c. c \<in> C \<Longrightarrow> Epoch (cp_ID c) = Epoch (ar_id rh) \<Longrightarrow> \<not> cp_NewEpoch c < cp_NewEpoch cp"
    using assms(2) unfolding new_promise_def C_def by blast+
  have old: "Epoch (cp_ID c) < cp_NewEpoch c" "Epoch (cp_ID c) \<le> Epoch (ar_id rh)"
    "Epoch (cp_ID c) = Epoch (ar_id rh) \<Longrightarrow> cp_NewEpoch c \<in> known rh" if "c \<in> C" for c
    using assms(1) that unfolding promises_ok_def C_def by blast+
  have pair: "cp_NewEpoch c' \<in> dom (lookup (cp_Confs c))"
    if "c \<in> C" "c' \<in> C" "Epoch (cp_ID c') = Epoch (cp_ID c)" "cp_NewEpoch c < cp_NewEpoch c'" for c c'
    using assms(1) that unfolding promises_ok_def C_def by blast
  show ?thesis
    unfolding promises_ok_def C_def [symmetric]
  proof (intro ballI conjI impI)
    fix c c' assume "c \<in> insert cp C" "c' \<in> insert cp C" "Epoch (cp_ID c') = Epoch (cp_ID c)"
      "cp_NewEpoch c < cp_NewEpoch c'"
    then show "cp_NewEpoch c' \<in> dom (lookup (cp_Confs c))"
      using pair [of c c'] old(3) [of c'] max [of c] new(1,6) by (cases "c = cp"; cases "c' = cp") auto
  qed (use new old in auto)
qed

lemma stopAcceptor_view: "stopAcceptor s rh = Ok rh' \<Longrightarrow> ar_view rh' = ar_view rh"
  by (auto simp: stopAcceptor_def ar_view_def bind_result_Inr_iff split: if_splits)

lemma handleReconfMsg_sends:
  assumes "handleReconfMsg rm rh = Ok (cpo, rh')" and "sends_ok rh"
  shows "sends_ok rh' \<and> (\<forall>cp. cpo = Some cp \<longrightarrow> new_promise cp rh')"
proof (cases "stateful rh \<and> am_NewEpoch rm > Epoch (ar_id rh)")
  case False
  then show ?thesis using assms by (auto simp: handleReconfMsg_def split: if_splits)
next
  case new: True
  show ?thesis
  proof (cases "ar_valid rh")
    case True
    then obtain rh1 where rh1: "stopAcceptor (am_AduSlot rm) rh = Ok rh1"
      and rh': "rh' = updateConfs rm (rh1\<lparr>ar_valid := False\<rparr>)" and cp: "makeCPromise rm rh' = Ok cpo"
      using assms(1) new by (auto simp: handleReconfMsg_def bind_result_Inr_iff Let_def)
    have v: "ar_view rh' = ar_view (rh\<lparr>ar_valid := False, confs := confs rh'\<rparr>)"
      using stopAcceptor_view [OF rh1] updateConfs_view [of rm "rh1\<lparr>ar_valid := False\<rparr>"]
      by (simp add: rh' ar_view_def)
    have none: "Epoch (cp_ID c) \<noteq> Epoch (ar_id rh)" if "c \<in> set (sent rh)" for c
      using assms(2) that True by (auto simp: sends_ok_def)
    have "sends_ok rh'" using assms(2) v none by (simp add: sends_ok_def ar_view_def)
    moreover have "new_promise cp rh'" if "cpo = Some cp" for cp
      using makeCPromise_fields [OF cp [unfolded that]] v new none
        updateConfs_known [of rm "rh1\<lparr>ar_valid := False\<rparr>"]
      by (auto simp: new_promise_def ar_view_def rh')
    ultimately show ?thesis by simp
  next
    case invalid: False
    let ?rh = "updateConfs rm rh"
    have v: "ar_view ?rh = ar_view (rh\<lparr>confs := confs ?rh\<rparr>)" by (rule updateConfs_view)
    have ok: "sends_ok ?rh"
      by (rule sends_ok_known [OF assms(2) v]) (simp add: updateConfs_known subset_insertI)
    show ?thesis
    proof (cases "list_ex (\<lambda>(epoch, m). Epoch (ar_id rh) < epoch \<and> epoch < am_NewEpoch rm) (confs rh)")
      case True
      then show ?thesis using assms(1) new invalid ok by (auto simp: handleReconfMsg_def)
    next
      case False
      then have rh': "rh' = ?rh" and cp: "makeCPromise rm ?rh = Ok cpo"
        using assms(1) new invalid by (auto simp: handleReconfMsg_def bind_result_Inr_iff Let_def)
      have lower: "\<not> (Epoch (ar_id rh) < ep \<and> ep < am_NewEpoch rm)" if ep: "ep \<in> known rh" for ep
      proof -
        obtain m where "(ep, m) \<in> set (confs rh)"
          using ep by (auto dest: map_of_SomeD)
        with False show ?thesis by (auto simp: list_ex_iff)
      qed
      have "\<not> cp_NewEpoch c < am_NewEpoch rm"
        if "c \<in> set (sent rh)" "Epoch (cp_ID c) = Epoch (ar_id rh)" for c
        using assms(2) that lower [of "cp_NewEpoch c"] unfolding sends_ok_def by metis
      then have "new_promise cp rh'" if "cpo = Some cp" for cp
        using makeCPromise_fields [OF cp [unfolded that]] v new invalid updateConfs_known [of rm rh]
        by (auto simp: new_promise_def ar_view_def rh')
      with ok show ?thesis by (simp add: rh')
    qed
  qed
qed

lemma sendCP_sends:
  assumes "sendCP reached cp oldids rh = Ok rh'" and "sends_ok rh" and "new_promise cp rh"
  shows "sends_ok rh'"
proof -
  have v: "ar_view (rh'\<lparr>ar_ucast := ar_ucast rh\<rparr>) = ar_view rh" and "set (sent rh') \<subseteq> insert cp (set (sent rh))"
    using assms(1) by (auto simp: sendCP_def Let_def bind_result_Inr_iff ar_view_def)
  moreover have "promises_ok (insert cp (set (sent rh))) rh"
    by (rule promises_ok_insert [OF assms(2,3)])
  ultimately have "promises_ok (set (sent rh')) rh"
    using promises_ok_mono by blast
  then show ?thesis
    by (rule promises_ok_same) (use v in \<open>simp_all add: ar_view_def\<close>)
qed

lemma handleCPromise_view:
  assumes "handleCPromise order cp rh = Ok (ac, rh')"
  shows "ar_view rh' = ar_view (rh\<lparr>confs := confs rh'\<rparr>)" and "known rh \<subseteq> known rh'"
    and "ac \<noteq> None \<Longrightarrow> {ep \<in> fst ` set (cp_Confs cp). cp_NewEpoch cp \<le> ep} \<subseteq> known rh'"
    and "ac \<noteq> None \<Longrightarrow> cp_NewEpoch cp = Epoch (ar_id rh) \<Longrightarrow> \<not> stateful rh"
proof -
  obtain b rh1 where st: "storeConfs cp (cp_Confs cp) rh = (b, rh1)"
    by (cases "storeConfs cp (cp_Confs cp) rh")
  have "ar_view rh' = ar_view rh1 \<and> (ac \<noteq> None \<longrightarrow> b) \<or> rh' = rh \<and> ac = None"
    using assms by (auto simp: handleCPromise_def st Let_def bind_result_Inr_iff ar_view_def
      split: if_splits option.splits prod.splits bool.splits)
  then show "ar_view rh' = ar_view (rh\<lparr>confs := confs rh'\<rparr>)" and "known rh \<subseteq> known rh'"
    and "ac \<noteq> None \<Longrightarrow> {ep \<in> fst ` set (cp_Confs cp). cp_NewEpoch cp \<le> ep} \<subseteq> known rh'"
    using storeConfs_known [OF st] by (auto simp: ar_view_def)
  show "ac \<noteq> None \<Longrightarrow> cp_NewEpoch cp = Epoch (ar_id rh) \<Longrightarrow> \<not> stateful rh"
    using assms by (auto simp: handleCPromise_def)
qed

lemma changeEpoch_frame:
  assumes "changeEpoch ep rh = Ok rh'"
  shows "ar_ucast rh' = ar_ucast rh" and "confs rh' = confs rh" and "maxEpochSeen rh' = maxEpochSeen rh"
    and "ep \<in> known rh \<Longrightarrow> Epoch (ar_id rh') = ep"
  using assms by (auto simp: changeEpoch_def awaitHold_def Let_def bind_result_Inr_iff split: option.splits if_splits)

lemma handleActivation_sends:
  assumes "handleActivation ac rh = Ok rh'" and "sends_ok rh" and "av_Epoch ac \<in> known rh"
    and "Epoch (ar_id rh) \<le> av_Epoch ac" and "Epoch (ar_id rh) = av_Epoch ac \<Longrightarrow> \<not> stateful rh"
  shows "sends_ok rh'"
proof -
  obtain rh1 rh2 where rh1: "(if ar_valid rh \<and> stateful rh then stopAcceptor (adu_val (ar_adu rh)) rh else Ok rh) = Ok rh1"
    and rh2: "changeEpoch (av_Epoch ac) rh1 = Ok rh2" and id: "ar_id rh' = ar_id rh2"
    using assms(1) by (rule handleActivation_Ok)
  have v: "ar_view rh1 = ar_view rh" using rh1 stopAcceptor_view by (auto split: if_splits)
  have ucast: "ar_ucast rh' = ar_ucast rh2"
    using assms(1) unfolding handleActivation_def rh1 bind_result_simps rh2
    by (auto simp: Let_def releaseAcceptor_def split: if_splits)
  have e: "Epoch (ar_id rh') = av_Epoch ac" and c: "sent rh' = sent rh"
    using changeEpoch_frame [OF rh2] v assms(3) by (simp_all add: id ucast ar_view_def)
  have below: "Epoch (cp_ID c) < av_Epoch ac" if "c \<in> set (sent rh)" for c
    using assms(2,4,5) that unfolding promises_ok_def by (metis order_less_le_trans order_neq_le_trans)
  have "promises_ok C rh'" if "promises_ok C rh" "\<forall>c\<in>C. Epoch (cp_ID c) < av_Epoch ac" for C
    using that unfolding promises_ok_def e by fastforce
  from this [OF assms(2)] below c show ?thesis by simp
qed

text \<open>The other steps change nothing that matters here.\<close>

lemma ar_step_quiet:
  assumes "ar_step e rh = Ok rh'" and "\<And>rm reached. e \<noteq> ARReconf rm reached"
    and "\<And>order cp. e \<noteq> ARCPromise order cp" and "\<And>ac. e \<noteq> ARActivation ac"
  shows "ar_view rh' = ar_view rh \<and> maxEpochSeen rh' = maxEpochSeen rh \<and> cPromises rh' = cPromises rh"
proof (cases e)
  case (ARCmd answers)
  then show ?thesis
    using assms(1) by (auto simp: ar_view_def handleReconfCmd_def putCmd_def Let_def
      split: list.splits if_splits option.splits)
next
  case (ARFd fd answers)
  then show ?thesis
    using assms(1) by (auto simp: ar_view_def handleReconfCmd_def putCmd_def Let_def
      split: if_splits option.splits)
next
  case (ARSetup b)
  then show ?thesis
    using assms(1) by (auto simp: ar_view_def ar_doRemoteSetupAndSend_def split: list.splits if_splits)
qed (use assms in \<open>auto simp: handleRepLdMsg_def ar_view_def bind_result_Inr_iff split: if_splits\<close>)

lemma ar_step_sends:
  assumes "ar_step e rh = Ok rh'" and "ar_genuine e" and "sends_ok rh"
  shows "sends_ok rh'"
proof (cases e)
  case (ARReconf rm reached)
  then obtain cp rh1 where m: "handleReconfMsg rm rh = Ok (cp, rh1)"
    and rest: "(case cp of None \<Rightarrow> Ok rh1 | Some cp \<Rightarrow> sendCP reached cp (am_OldIds rm) rh1) = Ok rh'"
    using assms by (auto simp: bind_result_Inr_iff)
  show ?thesis
    using handleReconfMsg_sends [OF m assms(3)] rest sendCP_sends by (cases cp) auto
next
  case (ARCPromise order cp)
  then obtain ac rh1 where m: "handleCPromise order cp rh = Ok (ac, rh1)"
    and rest: "(case ac of None \<Rightarrow> Ok rh1 | Some ac \<Rightarrow> handleActivation ac rh1) = Ok rh'"
    using assms by (auto simp: bind_result_Inr_iff)
  note v = handleCPromise_view [OF m]
  have ok: "sends_ok rh1" using assms(3) v(1,2) by (rule sends_ok_known)
  show ?thesis
  proof (cases ac)
    case (Some a)
    have a: "Epoch (ar_id rh) \<le> cp_NewEpoch cp" "av_Epoch a = cp_NewEpoch cp"
      using m Some by (cases rule: handleCPromise_cases; simp)+
    have "cp_NewEpoch cp \<in> fst ` set (cp_Confs cp)"
      using assms(2) ARCPromise unfolding dom_map_of_conv_image_fst [symmetric] by auto
    then have "av_Epoch a \<in> known rh1" using v(3) Some a(2) by auto
    then show ?thesis
      using rest Some a v(1,4) by (intro handleActivation_sends [OF _ ok, of a]) (auto simp: ar_view_def)
  qed (use rest ok in simp)
next
  case (ARActivation ac)
  then show ?thesis using assms(2) by simp
qed (rule sends_ok_view [OF assms(3)], use ar_step_quiet [OF assms(1)] in simp)+

lemma ar_run_sends: "ar_run es rh = Ok rh' \<Longrightarrow> list_all ar_genuine es \<Longrightarrow> sends_ok rh \<Longrightarrow> sends_ok rh'"
proof (induction es arbitrary: rh)
  case (Cons e es)
  then obtain rh1 where "ar_step e rh = Ok rh1" "ar_run es rh1 = Ok rh'"
    by (auto simp: bind_result_Inr_iff)
  then show ?case using Cons ar_step_sends by auto
qed simp

section \<open>What a receiver knows\<close>

definition knows_ok :: "AReconfHandler \<Rightarrow> bool" where
  "knows_ok rh \<longleftrightarrow> (\<forall>ep\<in>known rh. ep \<le> maxEpochSeen rh) \<and>
     (\<forall>e ps. cPromises rh e = Some ps \<longrightarrow> (\<forall>p\<in>set ps. \<forall>ep\<in>dom (lookup (cp_Confs p)).
        cp_NewEpoch p \<le> ep \<longrightarrow> ep \<le> maxEpochSeen rh))"

definition bounded_confs :: "AReconfHandler \<Rightarrow> bool" where
  "bounded_confs rh \<longleftrightarrow> (\<forall>ep\<in>known rh. ep \<le> maxEpochSeen rh)"

lemma storeConfs_bounded:
  "storeConfs cp cs rh = (b, rh') \<Longrightarrow> bounded_confs rh \<Longrightarrow>
    bounded_confs rh' \<and> maxEpochSeen rh \<le> maxEpochSeen rh'"
proof (induction cp cs rh rule: storeConfs.induct)
  case (2 cp ep m cs rh)
  show ?case
  proof (cases "cp_NewEpoch cp \<le> ep")
    case True
    define rh1 where "rh1 = (if lookup (confs rh) ep = None
           then let rh = rh\<lparr>confs := put ep m (confs rh)\<rparr>
                in if ep > maxEpochSeen rh then rh\<lparr>maxEpochSeen := ep\<rparr> else rh
           else rh)"
    have "known rh1 = insert ep (known rh) \<and> maxEpochSeen rh1 = max (maxEpochSeen rh) ep \<or> rh1 = rh"
      by (auto simp: rh1_def Let_def max_def)
    then have 1: "bounded_confs rh1 \<and> maxEpochSeen rh \<le> maxEpochSeen rh1"
      using "2.prems"(2) unfolding bounded_confs_def
      by (elim disjE conjE) (simp_all only: ball_simps, auto simp: le_max_iff_disj)
    have "storeConfs cp cs rh1 = (b, rh')"
      using "2.prems" True unfolding rh1_def by simp
    from "2.IH"(1) [OF True, folded rh1_def, OF this] 1 show ?thesis
      by (auto intro: order_trans)
  next
    case False
    then show ?thesis using 2 by (auto split: if_splits)
  qed
qed auto

lemma knows_ok_mono:
  assumes "knows_ok rh" and "cPromises rh' = cPromises rh" and "maxEpochSeen rh \<le> maxEpochSeen rh'"
    and "bounded_confs rh'"
  shows "knows_ok rh'"
  using assms unfolding knows_ok_def bounded_confs_def by (metis order_trans)

lemma handleCPromise_knows:
  assumes "handleCPromise order cp rh = Ok (ac, rh')" and "knows_ok rh"
  shows "knows_ok rh'"
proof -
  obtain b rh1 where st: "storeConfs cp (cp_Confs cp) rh = (b, rh1)"
    by (cases "storeConfs cp (cp_Confs cp) rh")
  have bnd: "bounded_confs rh1" "maxEpochSeen rh \<le> maxEpochSeen rh1"
    using storeConfs_bounded [OF st] assms(2) by (simp_all add: knows_ok_def bounded_confs_def)
  have p1: "cPromises rh1 = cPromises rh" using storeConfs_core [OF st] by (simp add: ar_core_def)
  have k1: "knows_ok rh1" by (rule knows_ok_mono [OF assms(2) p1 bnd(2,1)])
  have "rh' = rh \<or> rh' = rh1 \<or> b \<and> confs rh' = confs rh1 \<and> maxEpochSeen rh' = maxEpochSeen rh1 \<and>
    (\<exists>ps. (ps = [] \<or> cPromises rh1 (Epoch (cp_ID cp)) = Some ps) \<and>
      cPromises rh' = (cPromises rh1)(Epoch (cp_ID cp) \<mapsto> ps @ [cp]))"
    using assms(1) by (auto simp: handleCPromise_def st Let_def bind_result_Inr_iff
      split: if_splits option.splits prod.splits bool.splits)
  then consider "rh' = rh" | "rh' = rh1" | ps where "b" "confs rh' = confs rh1" "maxEpochSeen rh' = maxEpochSeen rh1"
    "ps = [] \<or> cPromises rh1 (Epoch (cp_ID cp)) = Some ps"
    "cPromises rh' = (cPromises rh1)(Epoch (cp_ID cp) \<mapsto> ps @ [cp])"
    by blast
  then show ?thesis
  proof cases
    case (3 ps)
    have "ep \<le> maxEpochSeen rh1" if "ep \<in> dom (lookup (cp_Confs cp))" "cp_NewEpoch cp \<le> ep" for ep
      using storeConfs_known [OF st] 3(1) that bnd(1)
      unfolding bounded_confs_def dom_map_of_conv_image_fst by blast
    moreover have "ep \<le> maxEpochSeen rh1"
      if "cPromises rh1 e = Some qs" "p \<in> set qs" "ep \<in> dom (lookup (cp_Confs p))" "cp_NewEpoch p \<le> ep" for e qs p ep
      using k1 that unfolding knows_ok_def by blast
    ultimately show ?thesis
      using bnd(1) 3 unfolding knows_ok_def bounded_confs_def by (auto split: if_splits simp: domIff)
  qed (use assms(2) k1 in simp_all)
qed

lemma handleActivation_knows:
  assumes "handleActivation ac rh = Ok rh'" and "knows_ok rh" and "cPromises rh' = cPromises rh"
  shows "knows_ok rh'" and "maxEpochSeen rh' = maxEpochSeen rh"
    and "ar_valid rh' \<Longrightarrow> maxEpochSeen rh \<le> av_Epoch ac"
proof -
  obtain rh1 rh2 where rh1: "(if ar_valid rh \<and> stateful rh then stopAcceptor (adu_val (ar_adu rh)) rh else Ok rh) = Ok rh1"
    and rh2: "changeEpoch (av_Epoch ac) rh1 = Ok rh2"
    using assms(1) by (rule handleActivation_Ok)
  have "confs rh2 = confs rh" "maxEpochSeen rh2 = maxEpochSeen rh"
    using changeEpoch_frame [OF rh2] rh1 stopAcceptor_Ok by (auto split: if_splits)
  then have "known rh' \<subseteq> known rh" and max: "maxEpochSeen rh' = maxEpochSeen rh"
    and "ar_valid rh' \<longrightarrow> maxEpochSeen rh \<le> av_Epoch ac"
    using assms(1) unfolding handleActivation_def rh1 bind_result_simps rh2
    by (auto simp: Let_def releaseAcceptor_def dom_map_of_conv_image_fst split: if_splits)
  moreover from this assms(2) have "bounded_confs rh'"
    unfolding knows_ok_def bounded_confs_def by auto
  ultimately show "knows_ok rh'" and "maxEpochSeen rh' = maxEpochSeen rh"
    and "ar_valid rh' \<Longrightarrow> maxEpochSeen rh \<le> av_Epoch ac"
    using knows_ok_mono [OF assms(2,3)] by simp_all
qed

lemma ar_step_knows:
  assumes "ar_step e rh = Ok rh'" and "knows_ok rh"
  shows "knows_ok rh'"
proof (cases e)
  case (ARReconf rm reached)
  then obtain cp rh1 where m: "handleReconfMsg rm rh = Ok (cp, rh1)"
    and rest: "(case cp of None \<Rightarrow> Ok rh1 | Some cp \<Rightarrow> sendCP reached cp (am_OldIds rm) rh1) = Ok rh'"
    using assms by (auto simp: bind_result_Inr_iff)
  have upd: "bounded_confs (updateConfs rm r) \<and> maxEpochSeen r \<le> maxEpochSeen (updateConfs rm r)"
    if "bounded_confs r" for r
    using that unfolding bounded_confs_def updateConfs_known
    by (auto simp: updateConfs_def Let_def intro: order_trans less_imp_le)
  have stop: "confs r' = confs rh \<and> maxEpochSeen r' = maxEpochSeen rh" if "stopAcceptor s rh = Ok r'" for s r'
    using stopAcceptor_Ok [OF that] by simp
  have b: "bounded_confs rh" using assms(2) by (simp add: knows_ok_def bounded_confs_def)
  have b': "bounded_confs (r\<lparr>ar_valid := False\<rparr>)" if "confs r = confs rh \<and> maxEpochSeen r = maxEpochSeen rh" for r
    using b that by (simp add: bounded_confs_def)
  have "bounded_confs rh1 \<and> maxEpochSeen rh \<le> maxEpochSeen rh1"
    using m upd [OF b] b upd [OF b' [OF stop]] stop
    by (fastforce simp: handleReconfMsg_def bind_result_Inr_iff Let_def split: if_splits)
  moreover have "confs rh' = confs rh1 \<and> maxEpochSeen rh' = maxEpochSeen rh1"
    using rest by (cases cp) (auto simp: sendCP_def Let_def bind_result_Inr_iff)
  moreover have "cPromises rh' = cPromises rh" by (rule ar_step_promises [OF assms(1)]) (simp add: ARReconf)
  ultimately show ?thesis by (intro knows_ok_mono [OF assms(2)]) (simp_all add: bounded_confs_def)
next
  case (ARCPromise order cp)
  then obtain ac rh1 where m: "handleCPromise order cp rh = Ok (ac, rh1)"
    and rest: "(case ac of None \<Rightarrow> Ok rh1 | Some ac \<Rightarrow> handleActivation ac rh1) = Ok rh'"
    using assms by (auto simp: bind_result_Inr_iff)
  have k: "knows_ok rh1" by (rule handleCPromise_knows [OF m assms(2)])
  show ?thesis
  proof (cases ac)
    case (Some a)
    from m Some have "Epoch (ar_id rh1) \<le> av_Epoch a"
      by (cases rule: handleCPromise_cases) (simp_all add: ar_core_def)
    then show ?thesis
      using rest Some k handleActivation_knows(1) [of a rh1 rh'] handleActivation_move(2) [of a rh1 rh'] by simp
  qed (use rest k in simp)
next
  case (ARActivation ac)
  obtain b rh1 where c: "checkOutsideActivation ac rh = (b, rh1)"
    by (cases "checkOutsideActivation ac rh")
  note core = checkOutsideActivation_core [OF c]
  let ?f = "\<lambda>(ep, m) rh. if lookup (confs rh) ep = None \<and> ep > av_Epoch ac
    then let rh = rh\<lparr>confs := put ep m (confs rh)\<rparr>
         in if ep > maxEpochSeen rh then rh\<lparr>maxEpochSeen := ep\<rparr> else rh
    else rh"
  have one: "bounded_confs (?f x r) \<and> maxEpochSeen r \<le> maxEpochSeen (?f x r)" if "bounded_confs r" for x r
    using that by (cases x) (auto simp: bounded_confs_def Let_def intro: order_trans less_imp_le)
  have "bounded_confs (fold ?f cs r) \<and> maxEpochSeen r \<le> maxEpochSeen (fold ?f cs r)" if "bounded_confs r" for cs r
    using that
  proof (induction cs arbitrary: r)
    case (Cons x cs)
    show ?case using Cons.IH [of "?f x r"] one [OF Cons.prems, of x] by (simp del: split_paired_All) (meson order_trans)
  qed simp
  then have "bounded_confs rh1 \<and> maxEpochSeen rh \<le> maxEpochSeen rh1"
    using c assms(2) by (auto simp: checkOutsideActivation_def knows_ok_def bounded_confs_def split: if_splits)
  then have k: "knows_ok rh1"
    using core(1) by (intro knows_ok_mono [OF assms(2)]) (simp_all add: ar_core_def)
  show ?thesis
  proof (cases b)
    case True
    then have h: "handleActivation ac rh1 = Ok rh'" using assms(1) ARActivation c by simp
    have "cPromises rh' = cPromises rh1"
      using core True by (intro handleActivation_move(2) [OF h]) (simp add: ar_core_def)
    with handleActivation_knows(1) [OF h k] show ?thesis .
  qed (use assms(1) ARActivation c k in simp)
qed (rule knows_ok_mono [OF assms(2)], use ar_step_quiet [OF assms(1)] assms(2) in \<open>simp_all add: ar_view_def knows_ok_def bounded_confs_def\<close>)+

lemma ar_run_knows: "ar_run es rh = Ok rh' \<Longrightarrow> knows_ok rh \<Longrightarrow> knows_ok rh'"
proof (induction es arbitrary: rh)
  case (Cons e es)
  then obtain rh1 where "ar_step e rh = Ok rh1" "ar_run es rh1 = Ok rh'"
    by (auto simp: bind_result_Inr_iff)
  then show ?case using Cons ar_step_knows by auto
qed simp

section \<open>One configuration runs\<close>

lemma activated_knows:
  assumes "ar_run es (NewAReconfHandler i leader gm acc adu) = Ok rh"
    and "handleCPromise order cp rh = Ok (Some ac, rh')" and "handleActivation ac rh' = Ok rh''" and "ar_valid rh''"
  obtains q where "set q \<subseteq> set (cp # ar_promises es)" "distinct (map (\<lambda>p. PaxosID (cp_ID p)) q)" "q \<noteq> []"
    "cp_QuorumSize (hd q) \<le> of_nat (length q)" "\<And>p. p \<in> set q \<Longrightarrow> Epoch (cp_ID p) = Epoch (cp_ID cp)"
    "\<And>p ep. p \<in> set q \<Longrightarrow> ep \<in> dom (lookup (cp_Confs p)) \<Longrightarrow> cp_NewEpoch p \<le> ep \<Longrightarrow> ep \<le> cp_NewEpoch cp"
proof -
  obtain q where q: "q \<noteq> []" "set q \<subseteq> insert cp (set (ar_promises es))" "av_Epoch ac = cp_NewEpoch cp"
    "\<And>p. p \<in> set q \<Longrightarrow> Epoch (cp_ID p) = Epoch (cp_ID cp)" "distinct (map (\<lambda>p. PaxosID (cp_ID p)) q)"
    "cp_QuorumSize (hd q) \<le> of_nat (length q)"
    "set q \<subseteq> set (the (cPromises rh' (Epoch (cp_ID cp))))" "cPromises rh' (Epoch (cp_ID cp)) \<noteq> None"
    using activation_quorum [OF assms(1,2)] by metis
  have "knows_ok (NewAReconfHandler i leader gm acc adu)"
    by (simp add: knows_ok_def NewAReconfHandler_def)
  then have k: "knows_ok rh'"
    using ar_run_knows [OF assms(1)] handleCPromise_knows [OF assms(2)] by blast
  have "Epoch (ar_id rh') \<le> av_Epoch ac"
    using assms(2) by (cases rule: handleCPromise_cases) (simp_all add: ar_core_def)
  then have "cPromises rh'' = cPromises rh'" by (rule handleActivation_move(2) [OF assms(3)])
  note max = handleActivation_knows(3) [OF assms(3) k this assms(4)]
  show thesis
  proof (rule that [of q])
    fix p ep assume p: "p \<in> set q" and ep: "ep \<in> dom (lookup (cp_Confs p))" "cp_NewEpoch p \<le> ep"
    obtain ps where "cPromises rh' (Epoch (cp_ID cp)) = Some ps" "p \<in> set ps"
      using p q(7,8) by auto
    with ep k have "ep \<le> maxEpochSeen rh'" unfolding knows_ok_def by blast
    with max q(3) show "ep \<le> cp_NewEpoch cp" by simp
  qed (use q in auto)
qed

lemma majorities_meet:
  assumes "distinct xs" and "distinct ys" and "set xs \<subseteq> M" and "set ys \<subseteq> M" and "finite M"
    and "card M < length xs + length ys"
  shows "set xs \<inter> set ys \<noteq> {}"
proof
  assume "set xs \<inter> set ys = {}"
  then have "card (set xs \<union> set ys) = length xs + length ys"
    using assms(1,2) by (simp add: card_Un_disjoint distinct_card)
  with card_mono [OF assms(5), of "set xs \<union> set ys"] assms(3,4,6) show False by simp
qed

lemma unat_le_length: "(q :: 64 word) \<le> of_nat n \<Longrightarrow> unat q \<le> n"
  by (simp add: word_le_nat_alt unat_of_nat)

text \<open>
  C12. Two replicas that are activated by promises of the same epoch, and then run, run in the same new
  epoch, if every promise they got from that epoch is one a replica of the group sent, no two replicas
  use one identifier, promises ask for a majority, and each of the two got promises for one new epoch only.
\<close>

theorem arec_one_configuration_runs:
  fixes st :: "'r \<Rightarrow> AReconfHandler" and M :: "8 word set"
  assumes senders: "\<And>r. r \<in> R \<Longrightarrow> list_all ar_genuine (es r) \<and>
      ar_run (es r) (NewAReconfHandler (i r) (ldr r) (gm r) (acc r) (adu r)) = Ok (st r)"
    and ids: "\<And>r r' c c'. r \<in> R \<Longrightarrow> r' \<in> R \<Longrightarrow> c \<in> set (sent (st r)) \<Longrightarrow> c' \<in> set (sent (st r')) \<Longrightarrow>
      cp_ID c = cp_ID c' \<Longrightarrow> r = r'"
    and a: "ar_run fa (NewAReconfHandler ia la ga aa da) = Ok ra" "handleCPromise oa ca ra = Ok (Some xa, ra')"
      "handleActivation xa ra' = Ok ra''" "ar_valid ra''"
    and b: "ar_run fb (NewAReconfHandler ib lb gb ab db) = Ok rb" "handleCPromise ob cb rb = Ok (Some xb, rb')"
      "handleActivation xb rb' = Ok rb''" "ar_valid rb''"
    and sent: "set (ca # ar_promises fa) \<union> set (cb # ar_promises fb) \<subseteq> (\<Union>r\<in>R. set (sent (st r)))"
    and epoch: "Epoch (cp_ID cb) = Epoch (cp_ID ca)"
    and major: "\<And>p. p \<in> set (ca # ar_promises fa) \<union> set (cb # ar_promises fb) \<Longrightarrow> Epoch (cp_ID p) = Epoch (cp_ID ca) \<Longrightarrow>
      PaxosID (cp_ID p) \<in> M \<and> card M < 2 * unat (cp_QuorumSize p)"
    and one_a: "\<And>p. p \<in> set (ar_promises fa) \<Longrightarrow> Epoch (cp_ID p) = Epoch (cp_ID ca) \<Longrightarrow> cp_NewEpoch p = cp_NewEpoch ca"
    and one_b: "\<And>p. p \<in> set (ar_promises fb) \<Longrightarrow> Epoch (cp_ID p) = Epoch (cp_ID ca) \<Longrightarrow> cp_NewEpoch p = cp_NewEpoch cb"
  shows "cp_NewEpoch ca = cp_NewEpoch cb"
proof -
  let ?pax = "\<lambda>p. PaxosID (cp_ID p)"
  obtain qa where qa: "set qa \<subseteq> set (ca # ar_promises fa)" "distinct (map ?pax qa)" "qa \<noteq> []"
    "cp_QuorumSize (hd qa) \<le> of_nat (length qa)" "\<And>p. p \<in> set qa \<Longrightarrow> Epoch (cp_ID p) = Epoch (cp_ID ca)"
    "\<And>p ep. p \<in> set qa \<Longrightarrow> ep \<in> dom (lookup (cp_Confs p)) \<Longrightarrow> cp_NewEpoch p \<le> ep \<Longrightarrow> ep \<le> cp_NewEpoch ca"
    using activated_knows [OF a] by metis
  obtain qb where qb: "set qb \<subseteq> set (cb # ar_promises fb)" "distinct (map ?pax qb)" "qb \<noteq> []"
    "cp_QuorumSize (hd qb) \<le> of_nat (length qb)" "\<And>p. p \<in> set qb \<Longrightarrow> Epoch (cp_ID p) = Epoch (cp_ID cb)"
    "\<And>p ep. p \<in> set qb \<Longrightarrow> ep \<in> dom (lookup (cp_Confs p)) \<Longrightarrow> cp_NewEpoch p \<le> ep \<Longrightarrow> ep \<le> cp_NewEpoch cb"
    using activated_knows [OF b] by metis
  have in_M: "?pax p \<in> M \<and> card M < 2 * unat (cp_QuorumSize p)" if "p \<in> set qa \<or> p \<in> set qb" for p
    using that qa(1,5) qb(1,5) epoch by (intro major) auto
  have "card M < 2 * length qa" "card M < 2 * length qb"
    using in_M [of "hd qa"] in_M [of "hd qb"] qa(3,4) qb(3,4) unat_le_length [OF qa(4)] unat_le_length [OF qb(4)]
    by auto
  then have "set (map ?pax qa) \<inter> set (map ?pax qb) \<noteq> {}"
    using in_M qa(2) qb(2) by (intro majorities_meet [where M = M]) auto
  then obtain pa pb where p: "pa \<in> set qa" "pb \<in> set qb" "?pax pa = ?pax pb"
    by (auto simp del: split_paired_All)
  have same: "cp_ID pa = cp_ID pb"
    using p qa(5) [OF p(1)] qb(5) [OF p(2)] epoch by (cases "cp_ID pa"; cases "cp_ID pb") simp
  obtain r where r: "r \<in> R" "pa \<in> set (sent (st r))" and rb: "pb \<in> set (sent (st r))"
    using sent qa(1) qb(1) p(1,2) ids [OF _ _ _ _ same] by blast
  have "sends_ok (NewAReconfHandler (i r) (ldr r) (gm r) (acc r) (adu r))"
    by (simp add: promises_ok_def NewAReconfHandler_def)
  then have ok: "sends_ok (st r)" using senders [OF r(1)] ar_run_sends by blast
  have epochs: "cp_NewEpoch pa = cp_NewEpoch ca" "cp_NewEpoch pb = cp_NewEpoch cb"
    using p qa(1,5) qb(1,5) one_a one_b epoch by (metis set_ConsD subsetD)+
  have "cp_NewEpoch pb \<in> dom (lookup (cp_Confs pa))" if "cp_NewEpoch pa < cp_NewEpoch pb"
    using ok r(2) rb same that unfolding promises_ok_def by metis
  moreover have "cp_NewEpoch pa \<in> dom (lookup (cp_Confs pb))" if "cp_NewEpoch pb < cp_NewEpoch pa"
    using ok r(2) rb same that unfolding promises_ok_def by metis
  ultimately show ?thesis
    using qa(6) [OF p(1), of "cp_NewEpoch pb"] qb(6) [OF p(2), of "cp_NewEpoch pa"] epochs
    by (metis less_imp_le linorder_neqE not_le)
qed

section \<open>Two configurations run\<close>

definition replicaAfter :: "ar_event list \<Rightarrow> AReconfHandler \<Rightarrow> AReconfHandler" where
  "replicaAfter es rh = (case ar_run (ARServer # es) rh of Inl e \<Rightarrow> rh | Inr rh' \<Rightarrow> rh')"

definition reconfTo :: "epoch \<Rightarrow> gid list \<Rightarrow> ar_event" where
  "reconfTo ep olds = ARReconf \<lparr>am_NewEpoch = ep, am_NodeMap = someConf ep, am_OldIds = map (\<lambda>i. (i, True)) olds,
     am_AduSlot = 3\<rparr> (\<lambda>_. True)"

definition promisedBy :: "8 word \<Rightarrow> ar_event \<Rightarrow> CPromise" where
  "promisedBy p e = hd (sent (replicaAfter [e] (someHandler p 0)))"

text \<open>
  The hypothesis that a replica gets promises for one new epoch only cannot be left out, and nothing
  in the code sees to it. Replicas 0 and 2 promise to go to epoch 10, where replica 1 is replaced;
  replica 1 promises to go to epoch 11. From the promises of 0 and 1, replicas 0 and 1 start epoch 11;
  from those of 0 and 2, replica 2 and the new replica 1 start epoch 10. Both epochs then have a majority
  that runs Paxos.
\<close>

lemma arec_two_configurations_run:
  "let to10 = reconfTo 10 [ID 0 0, ID 2 0]; to11 = reconfTo 11 [ID 0 0, ID 1 0, ID 2 0];
       c0 = ARCPromise (\<lambda>_. []) (promisedBy 0 to10); c1 = ARCPromise (\<lambda>_. []) (promisedBy 1 to11);
       c2 = ARCPromise (\<lambda>_. []) (promisedBy 2 to10);
       r0 = replicaAfter [to10, c0, c1] (someHandler 0 0); r1 = replicaAfter [to11, c0, c1] (someHandler 1 0);
       r2 = replicaAfter [to10, c0, c2] (someHandler 2 0); n1 = replicaAfter [c0, c2] (someHandler 1 10)
   in ar_valid r0 \<and> stateful r0 \<and> ar_id r0 = ID 0 11 \<and> ar_valid r1 \<and> stateful r1 \<and> ar_id r1 = ID 1 11 \<and>
      ar_valid r2 \<and> stateful r2 \<and> ar_id r2 = ID 2 10 \<and> ar_valid n1 \<and> stateful n1 \<and> ar_id n1 = ID 1 10"
  by code_simp

lemma one_configuration_runs:
  "case ar_run [ARServer, ARCPromise (\<lambda>_. []) (promisedBy 0 (reconfTo 10 [ID 0 0, ID 1 0]))] (someHandler 0 0) of
     Inl e \<Rightarrow> False
   | Inr rh \<Rightarrow> (case handleCPromise (\<lambda>_. []) (promisedBy 1 (reconfTo 10 [ID 0 0, ID 1 0])) rh of
       Inr (Some ac, rh') \<Rightarrow> (case handleActivation ac rh' of Inr rh'' \<Rightarrow> ar_valid rh'' | Inl e \<Rightarrow> False) | _ \<Rightarrow> False)"
  "case ar_run [ARServer, ARCPromise (\<lambda>_. []) (promisedBy 1 (reconfTo 10 [ID 0 0, ID 1 0]))] (someHandler 1 0) of
     Inl e \<Rightarrow> False
   | Inr rh \<Rightarrow> (case handleCPromise (\<lambda>_. []) (promisedBy 0 (reconfTo 10 [ID 0 0, ID 1 0])) rh of
       Inr (Some ac, rh') \<Rightarrow> (case handleActivation ac rh' of Inr rh'' \<Rightarrow> ar_valid rh'' | Inl e \<Rightarrow> False) | _ \<Rightarrow> False)"
  by code_simp+

lemma sender_runs:
  "case ar_run [ARServer, reconfTo 10 [ID 0 0, ID 1 0]] (someHandler 0 0) of
     Inl e \<Rightarrow> False | Inr rh \<Rightarrow> map fst (ar_ucast rh) = [ID 0 0, ID 1 0, ID 2 10] \<and>
       list_all (\<lambda>c. cp_ID c = ID 0 0 \<and> cp_NewEpoch c = 10 \<and> cp_QuorumSize c = 2) (sent rh)"
  "case ar_run [ARServer, reconfTo 10 [ID 0 0, ID 1 0]] (someHandler 1 0) of
     Inl e \<Rightarrow> False | Inr rh \<Rightarrow> map fst (ar_ucast rh) = [ID 0 0, ID 1 0, ID 2 10] \<and>
       list_all (\<lambda>c. cp_ID c = ID 1 0 \<and> cp_NewEpoch c = 10 \<and> cp_QuorumSize c = 2) (sent rh)"
  by code_simp+

lemma activation_steps:
  assumes "case ar_run es rh0 of
     Inl e \<Rightarrow> False
   | Inr rh \<Rightarrow> (case handleCPromise order cp rh of
       Inr (Some ac, rh') \<Rightarrow> (case handleActivation ac rh' of Inr rh'' \<Rightarrow> ar_valid rh'' | Inl e \<Rightarrow> False) | _ \<Rightarrow> False)"
  obtains rh ac rh' rh'' where "ar_run es rh0 = Ok rh" "handleCPromise order cp rh = Ok (Some ac, rh')"
    "handleActivation ac rh' = Ok rh''" "ar_valid rh''"
proof -
  obtain rh where rh: "ar_run es rh0 = Ok rh" using assms by (cases "ar_run es rh0") auto
  obtain ac rh' where ac: "handleCPromise order cp rh = Ok (Some ac, rh')"
    using assms rh by (auto split: sum.splits option.splits prod.splits)
  show thesis using assms rh ac that by (cases "handleActivation ac rh'") auto
qed

abbreviation to10 :: ar_event where
  "to10 \<equiv> reconfTo 10 [ID 0 0, ID 1 0]"

lemma some_sender:
  assumes "p \<in> {0, 1}"
  shows "ar_run [ARServer, to10] (someHandler p 0) = Ok (replicaAfter [to10] (someHandler p 0))"
    and "promisedBy p to10 \<in> set (sent (replicaAfter [to10] (someHandler p 0)))"
    and "c \<in> set (sent (replicaAfter [to10] (someHandler p 0))) \<Longrightarrow>
      cp_ID c = ID p 0 \<and> cp_NewEpoch c = 10 \<and> cp_QuorumSize c = 2"
proof -
  obtain rh where run: "ar_run [ARServer, to10] (someHandler p 0) = Ok rh"
    "map fst (ar_ucast rh) = [ID 0 0, ID 1 0, ID 2 10]"
    "list_all (\<lambda>c. cp_ID c = ID p 0 \<and> cp_NewEpoch c = 10 \<and> cp_QuorumSize c = 2) (sent rh)"
    using assms sender_runs by (auto split: sum.splits)
  have st: "replicaAfter [to10] (someHandler p 0) = rh"
    using run(1) by (simp add: replicaAfter_def del: ar_run.simps)
  show "ar_run [ARServer, to10] (someHandler p 0) = Ok (replicaAfter [to10] (someHandler p 0))"
    using run(1) st by simp
  have "sent rh \<noteq> []" using run(2) by auto
  then show "promisedBy p to10 \<in> set (sent (replicaAfter [to10] (someHandler p 0)))"
    by (metis hd_in_set promisedBy_def st)
  show "c \<in> set (sent (replicaAfter [to10] (someHandler p 0))) \<Longrightarrow>
      cp_ID c = ID p 0 \<and> cp_NewEpoch c = 10 \<and> cp_QuorumSize c = 2"
    using run(3) unfolding st list_all_iff by blast
qed

theorem arec_one_configuration_runs_witness:
  "cp_NewEpoch (promisedBy 1 to10) = cp_NewEpoch (promisedBy 0 to10)"
proof -
  let ?st = "\<lambda>p. replicaAfter [to10] (someHandler p 0)"
  let ?start = "\<lambda>p. NewAReconfHandler (ID p 0) (ID 0 0) (someGrpMgr\<lparr>gm_id := ID p 0\<rparr>)
     (NewMultiAcceptor (ID p 0) True (ID 0 0) 1 someGrpMgr) (NewAdu 0)"
  obtain ra xa ra' ra'' where a: "ar_run [ARServer, ARCPromise (\<lambda>_. []) (promisedBy 0 to10)] (someHandler 0 0) = Ok ra"
    "handleCPromise (\<lambda>_. []) (promisedBy 1 to10) ra = Ok (Some xa, ra')"
    "handleActivation xa ra' = Ok ra''" "ar_valid ra''"
    using one_configuration_runs(1) by (rule activation_steps)
  obtain rb xb rb' rb'' where b: "ar_run [ARServer, ARCPromise (\<lambda>_. []) (promisedBy 1 to10)] (someHandler 1 0) = Ok rb"
    "handleCPromise (\<lambda>_. []) (promisedBy 0 to10) rb = Ok (Some xb, rb')"
    "handleActivation xb rb' = Ok rb''" "ar_valid rb''"
    using one_configuration_runs(2) by (rule activation_steps)
  have c: "promisedBy p to10 \<in> set (sent (?st p))" "cp_ID (promisedBy p to10) = ID p 0"
    "cp_NewEpoch (promisedBy p to10) = 10" "cp_QuorumSize (promisedBy p to10) = 2" if "p \<in> {0, 1}" for p
    using some_sender(2) [OF that] some_sender(3) [OF that some_sender(2) [OF that]] by simp_all
  show ?thesis
  proof (rule arec_one_configuration_runs [of "{0, 1}" "\<lambda>_. [ARServer, to10]" "\<lambda>p. ID p 0" "\<lambda>_. ID 0 0"
        "\<lambda>p. someGrpMgr\<lparr>gm_id := ID p 0\<rparr>" "\<lambda>p. NewMultiAcceptor (ID p 0) True (ID 0 0) 1 someGrpMgr"
        "\<lambda>_. NewAdu 0" ?st, OF _ _ a(1) [unfolded someHandler_new] a(2-4) b(1) [unfolded someHandler_new] b(2-4),
        where M = "{0, 1, 2}"])
    fix p :: "8 word" assume "p \<in> {0, 1}"
    with some_sender(1) [OF this] show "list_all ar_genuine [ARServer, to10] \<and> ar_run [ARServer, to10] (?start p) = Ok (?st p)"
      unfolding someHandler_new by (simp add: reconfTo_def del: ar_run.simps)
  next
    fix p p' c c' assume "p \<in> {0, 1 :: 8 word}" "p' \<in> {0, 1}" "c \<in> set (sent (?st p))" "c' \<in> set (sent (?st p'))"
      "cp_ID c = cp_ID c'"
    then show "p = p'" using some_sender(3) by (metis gid.inject)
  next
    show "set (promisedBy 1 to10 # ar_promises [ARServer, ARCPromise (\<lambda>_. []) (promisedBy 0 to10)]) \<union>
        set (promisedBy 0 to10 # ar_promises [ARServer, ARCPromise (\<lambda>_. []) (promisedBy 1 to10)]) \<subseteq>
        (\<Union>p\<in>{0, 1}. set (sent (?st p)))"
      using c(1) [of 0] c(1) [of 1] by simp
  qed (use c(2-4) [of 0] c(2-4) [of 1] in auto)
qed

end
