(* ===== verification/GoBytes.thy ===== *)
theory GoBytes
  imports Prelude
begin

text \<open>
  What the packages that read and write bytes use of Go: slices of bytes, \<open>make\<close>, reading a given number
  of bytes, and integers in little-endian order.
\<close>

unbundle bit_operations_syntax

type_synonym bytes = "8 word list"

datatype wire_error = EOF | Overflow

text \<open>
  \<open>make\<close> panics for a negative length, and for one above what the process can have: \<open>mem\<close> bytes.
\<close>

definition makeBytes :: "nat \<Rightarrow> 'a::len word \<Rightarrow> nat result" where
  "makeBytes mem n =
     (if sint n < 0 \<or> sint n > int mem then Fault (Panic ''makeslice: len out of range'')
      else Ok (nat (sint n)))"

fun readLoop :: "nat \<Rightarrow> bytes \<Rightarrow> wire_error + bytes \<times> bytes" where
  "readLoop 0 bs = Inr ([], bs)"
| "readLoop (Suc n) [] = Inl EOF"
| "readLoop (Suc n) (b # bs) =
     (case readLoop n bs of Inl e \<Rightarrow> Inl e | Inr (xs, bs) \<Rightarrow> Inr (b # xs, bs))"

lemma readLoop_append: "readLoop (length xs) (xs @ bs) = Inr (xs, bs)"
  by (induction xs) simp_all

definition putInt32 :: "32 word \<Rightarrow> bytes" where
  "putInt32 w = [ucast w, ucast (drop_bit 8 w), ucast (drop_bit 16 w), ucast (drop_bit 24 w)]"

definition getInt32 :: "bytes \<Rightarrow> 32 word" where
  "getInt32 bs =
     (case bs of
        [a, b, c, d] \<Rightarrow> ucast a OR push_bit 8 (ucast b) OR push_bit 16 (ucast c) OR push_bit 24 (ucast d)
      | _ \<Rightarrow> 0)"

lemma getInt32_put: "getInt32 (putInt32 w) = w"
proof -
  have "bit (getInt32 (putInt32 w)) n = bit w n" if "n < 32" for n
  proof -
    consider "n < 8" | "8 \<le> n" "n < 16" | "16 \<le> n" "n < 24" | "24 \<le> n" using that by linarith
    then show ?thesis
      using that by cases (auto simp: getInt32_def putInt32_def bit_simps)
  qed
  then show ?thesis by (intro bit_word_eqI) simp
qed

lemma length_putInt32 [simp]: "length (putInt32 w) = 4"
  by (simp add: putInt32_def)

lemma sint_of_nat_small32: "n < 2 ^ 31 \<Longrightarrow> sint (of_nat n :: 32 word) = int n"
  by (simp add: signed_of_nat signed_take_bit_int_eq_self)

lemma sint_of_nat_small64: "n < 2 ^ 63 \<Longrightarrow> sint (of_nat n :: 64 word) = int n"
  by (simp add: signed_of_nat signed_take_bit_int_eq_self)

end
