(* ===== verification/Kvs.thy ===== *)
theory Kvs
  imports GoMaps GoBytes
begin

text \<open>
  The key-value store (\<open>src/kvs/\<close>), the application that comes with the framework: the format of its
  requests and responses (\<open>common/reqresp.go\<close>, \<open>common/reqresp_marsh.go\<close>) and the handler that executes
  them (\<open>kvsd/handler.go\<close>, \<open>kvsd/state.go\<close>). The variable-length integers are those of Go's
  \<open>encoding/binary\<close>. A reader is the list of the bytes that are left.
\<close>

unbundle bit_operations_syntax

section \<open>Variable-length integers\<close>

lemma drop_bit_7_less: "(128 :: 64 word) \<le> x \<Longrightarrow> unat (drop_bit 7 x) < unat x"
  by (simp add: unat_drop_bit_eq drop_bit_eq_div word_le_nat_alt unat_div_distrib)

function PutUvarint :: "64 word \<Rightarrow> bytes" where
  "PutUvarint x = (if x \<ge> 128 then (ucast x OR 128) # PutUvarint (drop_bit 7 x) else [ucast x])"
  by auto
termination by (relation "measure unat") (simp_all add: drop_bit_7_less)

declare PutUvarint.simps [simp del]

text \<open>An \<open>int64\<close> is a word that is read with \<open>sint\<close>.\<close>

definition PutVarint :: "64 word \<Rightarrow> bytes" where
  "PutVarint x = PutUvarint (let ux = push_bit 1 x in if sint x < 0 then NOT ux else ux)"

fun readUvarint :: "nat \<Rightarrow> 64 word \<Rightarrow> nat \<Rightarrow> bytes \<Rightarrow> wire_error + 64 word \<times> bytes" where
  "readUvarint i x s [] = Inl EOF"
| "readUvarint i x s (b # bs) =
     (if b < 128 then
        (if i > 9 \<or> i = 9 \<and> b > 1 then Inl Overflow else Inr (x OR push_bit s (ucast b), bs))
      else readUvarint (i + 1) (x OR push_bit s (ucast (b AND 127))) (s + 7) bs)"

definition ReadUvarint :: "bytes \<Rightarrow> wire_error + 64 word \<times> bytes" where
  "ReadUvarint bs = readUvarint 0 0 0 bs"

definition ReadVarint :: "bytes \<Rightarrow> wire_error + 64 word \<times> bytes" where
  "ReadVarint bs =
     (case ReadUvarint bs of
        Inl e \<Rightarrow> Inl e
      | Inr (ux, bs) \<Rightarrow> Inr (let x = drop_bit 1 ux in if ux AND 1 \<noteq> 0 then NOT x else x, bs))"

section \<open>Requests and responses\<close>

definition Read :: "8 word" where "Read = 0"
definition Write :: "8 word" where "Write = 1"
definition Delete :: "8 word" where "Delete = 2"

record MapRequest =
  Ct :: "8 word"
  Key :: bytes
  Value :: bytes

record MapResponse =
  ToType :: "8 word"
  resp_Value :: bytes
  Found :: "8 word"
  Err :: bytes

definition readBlock :: "nat \<Rightarrow> bytes \<Rightarrow> (wire_error + bytes \<times> bytes) result" where
  "readBlock mem bs =
     (case ReadVarint bs of
        Inl e \<Rightarrow> Ok (Inl e)
      | Inr (alen, bs) \<Rightarrow> bind_result (makeBytes mem alen) (\<lambda>n. Ok (readLoop n bs)))"

definition MarshalRequest :: "MapRequest \<Rightarrow> bytes" where
  "MarshalRequest t =
     [Ct t] @ PutVarint (of_nat (length (Key t))) @ Key t @
     PutVarint (of_nat (length (Value t))) @ Value t"

definition UnmarshalRequest :: "nat \<Rightarrow> bytes \<Rightarrow> (wire_error + MapRequest) result" where
  "UnmarshalRequest mem bs =
     (case bs of
        [] \<Rightarrow> Ok (Inl EOF)
      | ct # bs \<Rightarrow>
          bind_result (readBlock mem bs) (\<lambda>r. case r of
            Inl e \<Rightarrow> Ok (Inl e)
          | Inr (key, bs) \<Rightarrow>
              bind_result (readBlock mem bs) (\<lambda>r. case r of
                Inl e \<Rightarrow> Ok (Inl e)
              | Inr (val, bs) \<Rightarrow> Ok (Inr \<lparr>Ct = ct, Key = key, Value = val\<rparr>))))"

text \<open>
  The scratch array has ten bytes and \<open>bs\<close> is a slice of it: all of it after the length of the value has
  been put there, the first byte once the loop over the value has run. The byte that says whether the
  key was found is written as \<open>bs\<close>, whatever its length is then.
\<close>

definition marshalFound :: "MapResponse \<Rightarrow> bytes" where
  "marshalFound t =
     (let b = replicate 10 0; b = b[0 := ToType t];
          lenBytes = PutVarint (of_nat (length (resp_Value t)));
          b = lenBytes @ drop (length lenBytes) b;
          (b, bs) = fold (\<lambda>v (b, bs). (b[0 := v], 1)) (resp_Value t) (b, length b);
          b = b[0 := Found t]
      in take bs b)"

definition MarshalResponse :: "MapResponse \<Rightarrow> bytes" where
  "MarshalResponse t =
     [ToType t] @ PutVarint (of_nat (length (resp_Value t))) @ resp_Value t @ marshalFound t @
     PutVarint (of_nat (length (Err t))) @ Err t"

definition UnmarshalResponse :: "nat \<Rightarrow> bytes \<Rightarrow> (wire_error + MapResponse) result" where
  "UnmarshalResponse mem bs =
     (case bs of
        [] \<Rightarrow> Ok (Inl EOF)
      | ty # bs \<Rightarrow>
          bind_result (readBlock mem bs) (\<lambda>r. case r of
            Inl e \<Rightarrow> Ok (Inl e)
          | Inr (val, []) \<Rightarrow> Ok (Inl EOF)
          | Inr (val, found # bs) \<Rightarrow>
              bind_result (readBlock mem bs) (\<lambda>r. case r of
                Inl e \<Rightarrow> Ok (Inl e)
              | Inr (err, bs) \<Rightarrow> Ok (Inr \<lparr>ToType = ty, resp_Value = val, Found = found, Err = err\<rparr>))))"

section \<open>The handler\<close>

type_synonym kvmap = "(bytes, bytes) gomap"

definition errBytes :: "string \<Rightarrow> bytes" where
  "errBytes = map of_char"

definition errResponse :: "string \<Rightarrow> MapResponse" where
  "errResponse msg = \<lparr>ToType = Read, resp_Value = [], Found = 0, Err = errBytes msg\<rparr>"

definition kv_command :: "MapRequest \<Rightarrow> kvmap \<Rightarrow> MapResponse \<times> kvmap" where
  "kv_command req m =
     (if Ct req = Read then
        (case lookup m (Key req) of
           Some v \<Rightarrow> (\<lparr>ToType = Read, resp_Value = v, Found = 1, Err = []\<rparr>, m)
         | None \<Rightarrow> (\<lparr>ToType = Read, resp_Value = [], Found = 0, Err = []\<rparr>, m))
      else if Ct req = Write then
        (\<lparr>ToType = Write, resp_Value = Value req, Found = 0, Err = []\<rparr>, put (Key req) (Value req) m)
      else if Ct req = Delete then
        (\<lparr>ToType = Delete, resp_Value = [], Found = 0, Err = []\<rparr>, AList.delete (Key req) m)
      else (errResponse ''Unkown map command'', m))"

definition kv_Execute :: "nat \<Rightarrow> bytes \<Rightarrow> kvmap \<Rightarrow> (bytes \<times> kvmap) result" where
  "kv_Execute mem req m =
     bind_result (UnmarshalRequest mem req) (\<lambda>r. case r of
       Inl e \<Rightarrow> Ok (MarshalResponse (errResponse ''I can't decode you request''), m)
     | Inr kvreq \<Rightarrow>
         let (kvresp, m) = kv_command kvreq m in Ok (MarshalResponse kvresp, m))"

text \<open>
  The state travels as a gob, which holds the entries of the map; decoding into a map keeps the entries
  that are there already.
\<close>

definition kv_GetState :: "64 word \<Rightarrow> kvmap \<Rightarrow> 64 word \<times> kvmap" where
  "kv_GetState slotMarker m = (slotMarker, m)"

definition kv_SetState :: "kvmap \<Rightarrow> kvmap \<Rightarrow> kvmap" where
  "kv_SetState state m = fold (\<lambda>(k, v). put k v) state m"

text \<open>What is hashed for the fingerprint of the state.\<close>

definition stateHashInput :: "kvmap \<Rightarrow> bytes" where
  "stateHashInput m = concat (map (\<lambda>k. k @ at0 [] m k) (sort (map fst m)))"

section \<open>Reading back what was written\<close>

lemma ucast_or_128:
  fixes y :: "64 word"
  shows "\<not> (ucast y OR 128 :: 8 word) < 128" and "ucast ((ucast y OR 128 :: 8 word) AND 127) = take_bit 7 y"
proof -
  have masks: "(127 :: 8 word) = mask 7" by (simp add: mask_eq_exp_minus_1)
  have top: "bit (128 :: int) n \<longleftrightarrow> n = 7" for n
    using bit_exp_iff [of 7 n, where 'a = int] by (simp add: possible_bit_def)
  have "(128 :: 8 word) AND (ucast y OR 128) = 128"
    by (simp add: bit_eq_iff)
  then show "\<not> (ucast y OR 128 :: 8 word) < 128"
    by (metis word_and_le1 not_le)
  show "ucast ((ucast y OR 128 :: 8 word) AND 127) = take_bit 7 y"
  proof -
    have "(ucast y OR 128 :: 8 word) AND 127 = ucast (take_bit 7 y)"
      unfolding masks by (rule bit_word_eqI) (auto simp: bit_simps top)
    moreover have "ucast (ucast (take_bit 7 y) :: 8 word) = take_bit 7 y"
      by (rule bit_word_eqI) (auto simp: bit_simps)
    ultimately show ?thesis by simp
  qed
qed

lemma split_word: "(x OR push_bit s (take_bit 7 y)) OR push_bit (s + 7) (drop_bit 7 y) = (x OR push_bit s (y :: 64 word))"
proof (rule bit_word_eqI)
  fix n
  show "bit ((x OR push_bit s (take_bit 7 y)) OR push_bit (s + 7) (drop_bit 7 y)) n \<longleftrightarrow> bit (x OR push_bit s y) n"
  proof (cases "s + 7 \<le> n")
    case True
    then have "7 + (n - (s + 7)) = n - s" by simp
    then show ?thesis using True by (auto simp: bit_simps)
  qed (auto simp: bit_simps)
qed

lemma readUvarint_put:
  assumes "i \<le> 9" and "unat y < 2 ^ (64 - 7 * i)"
  shows "readUvarint i x (7 * i) (PutUvarint y @ bs) = Inr (x OR push_bit (7 * i) y, bs)"
  using assms
proof (induction y arbitrary: i x rule: PutUvarint.induct)
  case (1 y)
  show ?case
  proof (cases "128 \<le> y")
    case True
    then have y: "128 \<le> unat y" by (simp add: word_le_nat_alt)
    have "i \<noteq> 9" using y "1.prems" by auto
    moreover from this have "i \<le> 8" using "1.prems"(1) by simp
    then have "(2 :: nat) ^ (64 - 7 * i) = 2 ^ (64 - 7 * (i + 1)) * 128"
      using power_add [of "2 :: nat" "64 - 7 * (i + 1)" 7] by (simp add: Nat.diff_add_assoc2)
    then have "unat (drop_bit 7 y) < 2 ^ (64 - 7 * (i + 1))"
      using "1.prems"(2) by (simp add: unat_drop_bit_eq drop_bit_eq_div unat_div_distrib less_mult_imp_div_less)
    ultimately have "readUvarint (i + 1) (x OR push_bit (7 * i) (take_bit 7 y)) (7 * (i + 1)) (PutUvarint (drop_bit 7 y) @ bs) =
        Inr ((x OR push_bit (7 * i) (take_bit 7 y)) OR push_bit (7 * (i + 1)) (drop_bit 7 y), bs)"
      using "1.prems"(1) by (intro "1.IH" [OF True]) simp_all
    then show ?thesis
      using True split_word [of x "7 * i" y]
      by (simp add: PutUvarint.simps [of y] ucast_or_128 algebra_simps del: push_bit_take_bit)
  next
    case False
    then have small: "unat y < 128" by (simp add: word_le_nat_alt)
    have b: "unat (ucast y :: 8 word) = unat y" using small by (simp add: unsigned_ucast_eq take_bit_eq_mod)
    then have u: "(ucast (ucast y :: 8 word) :: 64 word) = y"
      using small by (simp add: word_eq_iff_unsigned unsigned_ucast_eq take_bit_eq_mod mod_word_less word_less_nat_alt)
    have "(ucast y :: 8 word) < 128" using small b by (simp add: word_less_nat_alt)
    moreover have "\<not> (i = 9 \<and> (ucast y :: 8 word) > 1)"
      using "1.prems"(2) b by (auto simp: word_less_nat_alt)
    ultimately show ?thesis
      using False "1.prems"(1) u by (simp add: PutUvarint.simps [of y])
  qed
qed

end
