(* ===== verification/KvsRuns.thy ===== *)
theory KvsRuns
  imports Kvs
begin

text \<open>
  What the key-value store promises: requests and answers survive the wire, and the handler behaves as
  a map. And what it does not: error responses lose their text, and a request with a negative length
  stops every replica that executes it.
\<close>

section \<open>Round trips\<close>

lemma ReadUvarint_put: "ReadUvarint (PutUvarint y @ bs) = Inr (y, bs)"
  using readUvarint_put [of 0 y 0 bs] unsigned_less [of y] by (simp add: ReadUvarint_def)

lemma ReadVarint_put:
  assumes "n < 2 ^ 63"
  shows "ReadVarint (PutVarint (of_nat n) @ bs) = Inr (of_nat n, bs)"
proof -
  let ?x = "of_nat n :: 64 word"
  have ux: "push_bit 1 ?x = of_nat (2 * n)" by (simp add: push_bit_eq_mult)
  have u: "unat (of_nat (2 * n) :: 64 word) = 2 * n"
    using assms unfolding unat_of_nat by (intro mod_less) simp
  have "drop_bit 1 (of_nat (2 * n) :: 64 word) = of_nat (unat (of_nat (2 * n) :: 64 word) div 2)"
    by (simp only: drop_bit_eq_div word_arith_nat_div) simp
  then have down: "drop_bit 1 (of_nat (2 * n) :: 64 word) = ?x" by (simp only: u) simp
  have "(of_nat (2 * n) :: 64 word) AND 1 = 0"
    by (simp only: and_one_eq word_arith_nat_mod u) simp
  then show ?thesis
    using sint_of_nat_small64 [OF assms] down
    by (simp only: ReadVarint_def PutVarint_def Let_def ux ReadUvarint_put) simp
qed

lemma readBlock_put:
  assumes "length xs \<le> mem" and "mem < 2 ^ 63"
  shows "readBlock mem (PutVarint (of_nat (length xs)) @ xs @ bs) = Ok (Inr (xs, bs))"
  using assms sint_of_nat_small64 [of "length xs"]
  by (simp add: readBlock_def ReadVarint_put makeBytes_def readLoop_append)

text \<open>
  A request comes off the wire as it was put there, whatever follows it, as long as the server has the
  memory for its key and its value.
\<close>

lemma request_roundtrip:
  assumes "length (Key req) \<le> mem" and "length (Value req) \<le> mem" and "mem < 2 ^ 63"
  shows "UnmarshalRequest mem (MarshalRequest req @ bs) = Ok (Inr req)"
  using assms readBlock_put [of "Key req" mem] readBlock_put [of "Value req" mem bs]
  by (simp add: UnmarshalRequest_def MarshalRequest_def)

lemma marshalFound_some:
  assumes "resp_Value t \<noteq> []"
  shows "marshalFound t = [Found t]"
proof -
  have "fold (\<lambda>v (b, bs). (b[0 := v], 1)) vs (b, n) = (b', n') \<Longrightarrow> vs \<noteq> [] \<Longrightarrow> length b' = length b \<and> n' = (1 :: nat)"
    for vs b n b' n'
  proof (induction vs arbitrary: b n)
    case (Cons v vs)
    then show ?case by (cases "vs = []") fastforce+
  qed simp
  moreover obtain b n where f: "fold (\<lambda>v (b, bs). (b[0 := v], 1)) (resp_Value t)
      (PutVarint (of_nat (length (resp_Value t))) @ drop (length (PutVarint (of_nat (length (resp_Value t)))))
        ((replicate 10 0)[0 := ToType t]), length (PutVarint (of_nat (length (resp_Value t))) @
          drop (length (PutVarint (of_nat (length (resp_Value t))))) ((replicate 10 0)[0 := ToType t]))) = (b, n :: nat)"
    by fastforce
  moreover have "PutVarint x \<noteq> []" for x
    unfolding PutVarint_def by (subst PutUvarint.simps) simp
  ultimately have "b \<noteq> []" "n = 1" using assms by fastforce+
  then show ?thesis using f by (cases b) (simp_all add: marshalFound_def Let_def)
qed

lemma PutVarint_0: "PutVarint 0 = [0]"
  by (simp add: PutVarint_def PutUvarint.simps)

lemma marshalFound_none:
  assumes "resp_Value t = []"
  shows "marshalFound t = Found t # replicate 9 0"
  using assms by (simp add: marshalFound_def Let_def PutVarint_0 numeral_eq_Suc)

lemma UnmarshalResponse_put:
  assumes "length (resp_Value r) \<le> mem" and "length (Err r) \<le> mem" and "mem < 2 ^ 63"
  shows "UnmarshalResponse mem (MarshalResponse r @ bs) =
    Ok (Inr (if resp_Value r = [] then r\<lparr>Err := []\<rparr> else r))"
proof (cases "resp_Value r = []")
  case False
  then show ?thesis
    using assms readBlock_put [of "resp_Value r" mem] readBlock_put [of "Err r" mem bs]
    by (simp add: UnmarshalResponse_def MarshalResponse_def marshalFound_some)
next
  case True
  have zero: "readBlock mem (0 # zs) = Ok (Inr ([], zs))" for zs
    using readBlock_put [of "[]" mem zs] assms(3) by (simp add: PutVarint_0)
  show ?thesis
    using True by (simp add: UnmarshalResponse_def MarshalResponse_def marshalFound_none PutVarint_0 zero numeral_eq_Suc)
qed

text \<open>
  C40. A response comes off the wire as it was put there if its value is not empty. If the value is empty,
  ten bytes are written in place of the one that says whether the key was found, and the reader takes
  the second for the length of the error text: the text is lost.
\<close>

theorem response_roundtrip:
  assumes "length (resp_Value r) \<le> mem" and "length (Err r) \<le> mem" and "mem < 2 ^ 63"
  shows "UnmarshalResponse mem (MarshalResponse r @ bs) =
    Ok (Inr (if resp_Value r = [] then r\<lparr>Err := []\<rparr> else r))"
  using assms by (rule UnmarshalResponse_put)

definition someMapRequest :: MapRequest where
  "someMapRequest = \<lparr>Ct = Write, Key = [104, 105], Value = [1, 2, 3]\<rparr>"

lemma request_roundtrip_witness:
  "UnmarshalRequest 1000 (MarshalRequest someMapRequest @ [7]) = Ok (Inr someMapRequest)"
  by (rule request_roundtrip) (simp_all add: someMapRequest_def)

theorem response_roundtrip_witness:
  "UnmarshalResponse 1000 (MarshalResponse \<lparr>ToType = Read, resp_Value = [9], Found = 1, Err = []\<rparr> @ []) =
      Ok (Inr \<lparr>ToType = Read, resp_Value = [9], Found = 1, Err = []\<rparr>) \<and>
   UnmarshalResponse 1000 (MarshalResponse (errResponse ''no'') @ []) =
      Ok (Inr \<lparr>ToType = Read, resp_Value = [], Found = 0, Err = []\<rparr>)"
  using response_roundtrip [of "\<lparr>ToType = Read, resp_Value = [9], Found = 1, Err = []\<rparr>" 1000 "[]"]
    response_roundtrip [of "errResponse ''no''" 1000 "[]"]
  by (simp add: errResponse_def errBytes_def)

section \<open>A map\<close>

text \<open>The abstract store: what a client is told, and the map afterwards.\<close>

definition kv_spec :: "MapRequest \<Rightarrow> (bytes \<rightharpoonup> bytes) \<Rightarrow> bytes option \<times> (bytes \<rightharpoonup> bytes)" where
  "kv_spec req s =
     (if Ct req = Read then (s (Key req), s)
      else if Ct req = Write then (Some (Value req), s(Key req \<mapsto> Value req))
      else (None, s(Key req := None)))"

text \<open>What the client program reads from a response.\<close>

definition answer :: "MapResponse \<Rightarrow> bytes option" where
  "answer r =
     (if ToType r = Read then (if Found r \<noteq> 0 then Some (resp_Value r) else None)
      else if ToType r = Write then Some (resp_Value r) else None)"

definition kv_fits :: "nat \<Rightarrow> kvmap \<Rightarrow> bool" where
  "kv_fits mem m \<longleftrightarrow> (\<forall>k v. lookup m k = Some v \<longrightarrow> length v \<le> mem)"

definition request_fits :: "nat \<Rightarrow> MapRequest \<Rightarrow> bool" where
  "request_fits mem req \<longleftrightarrow>
     Ct req \<in> {Read, Write, Delete} \<and> length (Key req) \<le> mem \<and> length (Value req) \<le> mem"

lemma kv_command_spec:
  assumes "request_fits mem req" and "kv_fits mem m" and "kv_command req m = (resp, m')"
  shows "answer resp = fst (kv_spec req (lookup m))" and "lookup m' = snd (kv_spec req (lookup m))"
    and "Err resp = []" and "length (resp_Value resp) \<le> mem" and "kv_fits mem m'"
proof -
  have ops: "Read \<noteq> Write" "Read \<noteq> Delete" "Write \<noteq> Delete" by (simp_all add: Read_def Write_def Delete_def)
  show "answer resp = fst (kv_spec req (lookup m))" and "lookup m' = snd (kv_spec req (lookup m))"
    and "Err resp = []"
    using assms(1,3) ops
    by (auto simp: kv_command_def kv_spec_def answer_def request_fits_def delete_conv' split: option.splits if_splits)
  show "length (resp_Value resp) \<le> mem" and "kv_fits mem m'"
    using assms ops
    by (auto simp: kv_command_def kv_fits_def request_fits_def delete_conv' split: option.splits if_splits)
qed

fun kv_serve :: "nat \<Rightarrow> bytes list \<Rightarrow> kvmap \<Rightarrow> (bytes list \<times> kvmap) result" where
  "kv_serve mem [] m = Ok ([], m)"
| "kv_serve mem (req # reqs) m =
     bind_result (kv_Execute mem req m) (\<lambda>(out, m).
       bind_result (kv_serve mem reqs m) (\<lambda>(outs, m). Ok (out # outs, m)))"

fun spec_run :: "MapRequest list \<Rightarrow> (bytes \<rightharpoonup> bytes) \<Rightarrow> bytes option list \<times> (bytes \<rightharpoonup> bytes)" where
  "spec_run [] s = ([], s)"
| "spec_run (req # reqs) s =
     (let (a, s) = kv_spec req s; (as, s) = spec_run reqs s in (a # as, s))"

definition client_reads :: "nat \<Rightarrow> bytes \<Rightarrow> bytes option" where
  "client_reads mem out =
     (case UnmarshalResponse mem out of Ok (Inr r) \<Rightarrow> answer r | _ \<Rightarrow> None)"

lemma kv_Execute_spec:
  assumes "request_fits mem req" and "kv_fits mem m" and "mem < 2 ^ 63"
  obtains out m' where "kv_Execute mem (MarshalRequest req) m = Ok (out, m')"
    "client_reads mem out = fst (kv_spec req (lookup m))" "lookup m' = snd (kv_spec req (lookup m))" "kv_fits mem m'"
proof -
  obtain resp m' where c: "kv_command req m = (resp, m')" by (cases "kv_command req m")
  note spec = kv_command_spec [OF assms(1,2) c]
  have "UnmarshalRequest mem (MarshalRequest req) = Ok (Inr req)"
    using request_roundtrip [of req mem "[]"] assms by (simp add: request_fits_def)
  then have "kv_Execute mem (MarshalRequest req) m = Ok (MarshalResponse resp, m')"
    by (simp add: kv_Execute_def c)
  moreover have u: "UnmarshalResponse mem (MarshalResponse resp) = Ok (Inr resp)"
    using UnmarshalResponse_put [of resp mem "[]"] spec(3,4) assms(3) by (cases resp) simp
  have "client_reads mem (MarshalResponse resp) = answer resp"
    unfolding client_reads_def u by simp
  ultimately show thesis using spec(1,2,5) by (intro that) simp_all
qed

text \<open>
  C39. A store that executes marshalled reads, writes and deletes answers what an abstract map answers, as
  the client decodes it, and ends with the same contents; it fails on none of them.
\<close>

theorem kvs_refines_map:
  assumes "list_all (request_fits mem) reqs" and "kv_fits mem m" and "mem < 2 ^ 63"
  shows "\<exists>outs m'. kv_serve mem (map MarshalRequest reqs) m = Ok (outs, m') \<and>
    map (client_reads mem) outs = fst (spec_run reqs (lookup m)) \<and> lookup m' = snd (spec_run reqs (lookup m))"
  using assms(1,2)
proof (induction reqs arbitrary: m)
  case (Cons req reqs)
  then obtain out m1 where 1: "kv_Execute mem (MarshalRequest req) m = Ok (out, m1)"
    "client_reads mem out = fst (kv_spec req (lookup m))" "lookup m1 = snd (kv_spec req (lookup m))" "kv_fits mem m1"
    using kv_Execute_spec [OF _ _ assms(3), of req m] by auto
  with Cons obtain outs m' where "kv_serve mem (map MarshalRequest reqs) m1 = Ok (outs, m')"
    "map (client_reads mem) outs = fst (spec_run reqs (lookup m1))" "lookup m' = snd (spec_run reqs (lookup m1))"
    by fastforce
  with 1 show ?case by (simp add: Let_def case_prod_beta)
qed simp

theorem kvs_refines_map_witness:
  "\<exists>outs m'. kv_serve 1000 (map MarshalRequest [someMapRequest, someMapRequest\<lparr>Ct := Read\<rparr>, someMapRequest\<lparr>Ct := Delete\<rparr>]) [] = Ok (outs, m') \<and>
    map (client_reads 1000) outs = [Some [1, 2, 3], Some [1, 2, 3], None]"
proof -
  have "list_all (request_fits 1000) [someMapRequest, someMapRequest\<lparr>Ct := Read\<rparr>, someMapRequest\<lparr>Ct := Delete\<rparr>]" "kv_fits 1000 []"
    by (simp_all add: request_fits_def someMapRequest_def kv_fits_def)
  moreover have "fst (spec_run [someMapRequest, someMapRequest\<lparr>Ct := Read\<rparr>, someMapRequest\<lparr>Ct := Delete\<rparr>] (lookup [])) =
      [Some [1, 2, 3], Some [1, 2, 3], None]"
    by (simp add: someMapRequest_def kv_spec_def Read_def Write_def Delete_def)
  ultimately show ?thesis using kvs_refines_map [of 1000 _ "[]"] by fastforce
qed

section \<open>What goes wrong\<close>

text \<open>
  A request that cannot be decoded, or has an unknown command, is answered with an error response; the
  client decodes the answer to a read of a key that is absent.
\<close>

lemma errors_never_arrive:
  assumes "mem < 2 ^ 63" and "length msg \<le> mem"
  shows "UnmarshalResponse mem (MarshalResponse (errResponse msg)) =
    Ok (Inr \<lparr>ToType = Read, resp_Value = [], Found = 0, Err = []\<rparr>)"
  using UnmarshalResponse_put [of "errResponse msg" mem "[]"] assms by (simp add: errResponse_def errBytes_def)

text \<open>Three bytes from one client stop every replica that executes them: the length is -1.\<close>

lemma negative_length_panics: "kv_Execute mem [0, 1] m = Fault (Panic ''makeslice: len out of range'')"
proof -
  have "ReadVarint [1] = Inr (- 1, [])" by code_simp
  then show ?thesis
    by (simp add: kv_Execute_def UnmarshalRequest_def readBlock_def makeBytes_def)
qed

text \<open>The fingerprint does not depend on the order of the entries, but different states can share it.\<close>

lemma stateHashInput_order:
  assumes "wf_gomap m" and "wf_gomap m'" and "set m = set m'"
  shows "stateHashInput m = stateHashInput m'"
proof -
  have "lookup m = lookup m'" using map_of_inject_set [of m m'] assms by (simp add: wf_gomap_def)
  moreover have "sort (map fst m) = sort (map fst m')"
    using assms by (intro sorted_distinct_set_unique) (simp_all add: wf_gomap_def)
  ultimately show ?thesis by (simp add: stateHashInput_def at0_def)
qed

lemma stateHashInput_collides: "stateHashInput [([1], [2, 3])] = stateHashInput [([1, 2], [3])]"
  by (simp add: stateHashInput_def at0_def)

text \<open>The state of one store moves to an empty one whole; into another one it is merged.\<close>

lemma kv_SetState_empty: "wf_gomap m \<Longrightarrow> lookup (kv_SetState (snd (kv_GetState sm m)) []) = lookup m"
  using fold_put_map [of m "\<lambda>k v. v" "[]"] by (auto simp: kv_SetState_def kv_GetState_def fun_eq_iff split: option.split)

end
