(* ===== verification/GoStrings.thy ===== *)
theory GoStrings
  imports Prelude
begin

text \<open>
  What the packages use of Go's \<open>strings\<close> and \<open>strconv\<close>, for strings of ASCII characters: a string is the
  list of its bytes.
\<close>

section \<open>Case and space\<close>

abbreviation code :: "char \<Rightarrow> nat" where
  "code \<equiv> of_char"

definition toLowerChar :: "char \<Rightarrow> char" where
  "toLowerChar c = (if 65 \<le> code c \<and> code c \<le> 90 then char_of (code c + 32) else c)"

definition ToLower :: "string \<Rightarrow> string" where
  "ToLower s = map toLowerChar s"

definition isSpace :: "char \<Rightarrow> bool" where
  "isSpace c \<longleftrightarrow> code c \<in> {9, 10, 11, 12, 13, 32}"

definition TrimSpace :: "string \<Rightarrow> string" where
  "TrimSpace s = rev (dropWhile isSpace (rev (dropWhile isSpace s)))"

section \<open>Splitting\<close>

text \<open>\<open>strings.Split\<close> with a separator of one character: one more part than separators.\<close>

fun Split :: "char \<Rightarrow> string \<Rightarrow> string list" where
  "Split sep [] = [[]]"
| "Split sep (c # s) =
     (if c = sep then [] # Split sep s
      else case Split sep s of part # parts \<Rightarrow> (c # part) # parts | [] \<Rightarrow> [[c]])"

section \<open>Numbers\<close>

definition digitOf :: "char \<Rightarrow> nat option" where
  "digitOf c = (if 48 \<le> code c \<and> code c \<le> 57 then Some (code c - 48) else None)"

fun parseDigits :: "nat \<Rightarrow> string \<Rightarrow> nat option" where
  "parseDigits n [] = Some n"
| "parseDigits n (c # s) =
     (case digitOf c of None \<Rightarrow> None | Some d \<Rightarrow> parseDigits (10 * n + d) s)"

definition parseUint :: "string \<Rightarrow> nat option" where
  "parseUint s = (if s = [] then None else parseDigits 0 s)"

text \<open>\<open>strconv.Atoi\<close>: an optional sign, and a number that an \<open>int\<close> can hold; \<open>None\<close> is the error.\<close>

definition Atoi :: "string \<Rightarrow> int option" where
  "Atoi s =
     (let (neg, digits) =
        (case s of
           c # rest \<Rightarrow> if c = CHR ''+'' then (False, rest) else if c = CHR ''-'' then (True, rest) else (False, s)
         | [] \<Rightarrow> (False, s))
      in case parseUint digits of
           None \<Rightarrow> None
         | Some n \<Rightarrow>
             if \<not> neg \<and> n \<ge> 2 ^ 63 \<or> neg \<and> n > 2 ^ 63 then None
             else Some (if neg then - int n else int n))"

definition ParseBool :: "string \<Rightarrow> bool option" where
  "ParseBool s =
     (if s \<in> set [''1'', ''t'', ''T'', ''true'', ''TRUE'', ''True''] then Some True
      else if s \<in> set [''0'', ''f'', ''F'', ''false'', ''FALSE'', ''False''] then Some False
      else None)"

section \<open>Laws\<close>

lemma Split_append:
  assumes "sep \<notin> set s"
  shows "Split sep (s @ sep # rest) = s # Split sep rest"
  using assms by (induction s) auto

lemma Split_none: "sep \<notin> set s \<Longrightarrow> Split sep s = [s]"
  by (induction s) auto

text \<open>What was joined with a separator is what splitting gives back.\<close>

fun join :: "string \<Rightarrow> string list \<Rightarrow> string" where
  "join sep [] = []"
| "join sep [s] = s"
| "join sep (s # ss) = s @ sep @ join sep ss"

lemma Split_join:
  assumes "ss \<noteq> []" and "\<forall>s\<in>set ss. sep \<notin> set s"
  shows "Split sep (join [sep] ss) = ss"
  using assms by (induction "[sep]" ss rule: join.induct) (simp_all add: Split_append Split_none)

lemma TrimSpace_id:
  assumes "s \<noteq> []" and "\<not> isSpace (hd s)" and "\<not> isSpace (last s)"
  shows "TrimSpace s = s"
proof -
  have "dropWhile isSpace s = s" using assms by (cases s) auto
  moreover have "dropWhile isSpace (rev s) = rev s"
    using assms by (cases "rev s") (auto simp: last_rev hd_rev [symmetric])
  ultimately show ?thesis by (simp add: TrimSpace_def)
qed

lemma TrimSpace_space: "TrimSpace (CHR '' '' # s) = TrimSpace s"
  by (simp add: TrimSpace_def isSpace_def)

text \<open>Decimal notation, and what \<open>Atoi\<close> makes of it.\<close>

fun showNat :: "nat \<Rightarrow> string" where
  "showNat n = (if n < 10 then [char_of (48 + n)] else showNat (n div 10) @ [char_of (48 + n mod 10)])"

declare showNat.simps [simp del]

lemma digitOf_char: "d < 10 \<Longrightarrow> digitOf (char_of (48 + d)) = Some d"
  by (simp add: digitOf_def)

lemma parseDigits_append:
  "parseDigits m (s @ s') = (case parseDigits m s of None \<Rightarrow> None | Some n \<Rightarrow> parseDigits n s')"
  by (induction m s rule: parseDigits.induct) (auto split: option.split)

lemma parseDigits_showNat: "parseDigits 0 (showNat n) = Some n"
proof (induction n rule: showNat.induct)
  case (1 n)
  show ?case
  proof (cases "n < 10")
    case True
    then show ?thesis by (simp add: showNat.simps [of n] digitOf_char)
  next
    case False
    then show ?thesis using 1 digitOf_char [of "n mod 10"]
      by (simp add: showNat.simps [of n] parseDigits_append)
  qed
qed

lemma showNat_chars: "c \<in> set (showNat n) \<Longrightarrow> 48 \<le> code c \<and> code c \<le> 57"
proof (induction n rule: showNat.induct)
  case (1 n)
  show ?case
  proof (cases "n < 10")
    case True
    then show ?thesis using 1(2) by (simp add: showNat.simps [of n])
  next
    case False
    then show ?thesis using 1 by (auto simp: showNat.simps [of n])
  qed
qed

lemma showNat_not_Nil [simp]: "showNat n \<noteq> []"
  by (subst showNat.simps) simp

lemma Atoi_showNat:
  assumes "n < 2 ^ 63"
  shows "Atoi (showNat n) = Some (int n)"
proof -
  obtain c s where cs: "showNat n = c # s" by (cases "showNat n") auto
  then have "48 \<le> code c" using showNat_chars [of c n] by simp
  then have "c \<noteq> CHR ''+''" "c \<noteq> CHR ''-''" by auto
  then show ?thesis
    using assms cs parseDigits_showNat [of n] by (simp add: Atoi_def parseUint_def)
qed

end
