(* ===== verification/Client.thy ===== *)
theory Client
  imports PaxosData GoMaps GoBytes GoStrings
begin

text \<open>
  Clients (\<open>src/client/\<close>): how messages are framed on a connection (\<open>ioutils.go\<close>), the module of a replica
  that keeps the connections of its clients (\<open>srv_clienthandler_tcp.go\<close>, \<open>srv_clientconn.go\<close>). The encoding
  of messages is that of a third-party package and a parameter. What the network does, a message that is
  read or a write that fails, is an argument; a channel that is written is the list of what waits in it.
\<close>

unbundle bit_operations_syntax

section \<open>Frames\<close>

text \<open>\<open>marshal\<close> and \<open>unmarshal\<close> are those of the protocol buffers; \<open>None\<close> is their error.\<close>

definition writeFrame :: "('m \<Rightarrow> bytes option) \<Rightarrow> 'm \<Rightarrow> bytes option" where
  "writeFrame marshal msg =
     (case marshal msg of
        None \<Rightarrow> None
      | Some buffer \<Rightarrow> Some (putInt32 (of_nat (length buffer)) @ buffer))"

datatype frame_error = ShortRead | BadMessage

definition readFrame :: "nat \<Rightarrow> (bytes \<Rightarrow> 'm option) \<Rightarrow> bytes \<Rightarrow> (frame_error + 'm \<times> bytes) result" where
  "readFrame mem unmarshal conn =
     (case readLoop 4 conn of
        Inl e \<Rightarrow> Ok (Inl ShortRead)
      | Inr (szBytes, conn) \<Rightarrow>
          bind_result (makeBytes mem (getInt32 szBytes)) (\<lambda>sz.
            case readLoop sz conn of
              Inl e \<Rightarrow> Ok (Inl ShortRead)
            | Inr (buffer, conn) \<Rightarrow>
                (case unmarshal buffer of None \<Rightarrow> Ok (Inl BadMessage) | Some msg \<Rightarrow> Ok (Inr (msg, conn)))))"

section \<open>Messages\<close>

definition Request_HELLO :: "32 word" where "Request_HELLO = 1"
definition Request_EXEC :: "32 word" where "Request_EXEC = 2"

definition validIDLength :: nat where
  "validIDLength = 28"

definition IsIDInvalid :: "Request \<Rightarrow> bool" where
  "IsIDInvalid r \<longleftrightarrow> GetId r = [] \<or> length (GetId r) \<noteq> validIDLength"

datatype response_type = HELLO_RESP | EXEC_RESP
datatype response_error = NONE | REDIRECT | INVALID_ID | MISSING_ID | MISSING_TAG | MISSING_VAL | OLD_CMD | OTHER
datatype response_protocol = UNKNOWN | MULTIPAXOS | FASTPAXOS | BATCHPAXOS

record ClientResponse =
  cr_Type :: response_type
  cr_Id :: string
  cr_Seq :: "32 word"
  cr_Val :: bytes
  cr_ErrorCode :: response_error
  cr_ErrorDetail :: string
  cr_Protocol :: response_protocol

definition HasError :: "ClientResponse \<Rightarrow> bool" where
  "HasError r \<longleftrightarrow> cr_ErrorCode r \<noteq> NONE"

text \<open>What the two constructors leave out reads as the zero value.\<close>

definition genResp :: "response_type \<Rightarrow> bytes \<Rightarrow> ClientResponse" where
  "genResp rt val = \<lparr>cr_Type = rt, cr_Id = [], cr_Seq = 0, cr_Val = val, cr_ErrorCode = NONE,
     cr_ErrorDetail = [], cr_Protocol = UNKNOWN\<rparr>"

definition genErrResp :: "response_type \<Rightarrow> response_error \<Rightarrow> string \<Rightarrow> ClientResponse" where
  "genErrResp rt ec err = (genResp rt [])\<lparr>cr_ErrorCode := ec, cr_ErrorDetail := err\<rparr>"

section \<open>The client handler of a replica\<close>

record ClientConn =
  connected :: bool
  cc_respChan :: "ClientResponse list"
  cc_written :: "ClientResponse list"

definition NewClientConn :: ClientConn where
  "NewClientConn = \<lparr>connected = True, cc_respChan = [], cc_written = []\<rparr>"

text \<open>
  Connections are numbered as they are accepted; \<open>clients\<close> says which one a client has now. \<open>greetings\<close>
  is what was written in handshakes.
\<close>

record ClientHandler =
  ch_id :: gid
  ch_leader :: gid
  ch_paxosType :: string
  ch_grpmgr :: GrpMgr
  reqChan :: "Request list"
  ch_propChan :: "Request list"
  clients :: "string \<rightharpoonup> nat"
  conns :: "ClientConn list"
  replies :: "string \<rightharpoonup> ClientResponse"
  greetings :: "ClientResponse list"

definition NewClientHandler :: "gid \<Rightarrow> string \<Rightarrow> GrpMgr \<Rightarrow> gid \<Rightarrow> ClientHandler result" where
  "NewClientHandler i paxosType gm leader =
     (if LookupNode i (nodeMap gm) = None then Fault (Panic ''could not find myself in configuration'')
      else Ok \<lparr>ch_id = i, ch_leader = leader, ch_paxosType = TrimSpace (ToLower paxosType), ch_grpmgr = gm, reqChan = [],
        ch_propChan = [], clients = (\<lambda>_. None), conns = [], replies = (\<lambda>_. None), greetings = []\<rparr>)"

definition allowDirect :: "string \<Rightarrow> bool" where
  "allowDirect paxosType \<longleftrightarrow> paxosType = ''fastpaxos'' \<or> paxosType = ''batchpaxos''"

definition redirect :: "ClientHandler \<Rightarrow> bool" where
  "redirect ch \<longleftrightarrow> ch_id ch \<noteq> ch_leader ch \<and> \<not> allowDirect (ch_paxosType ch)"

definition getPaxosType :: "ClientHandler \<Rightarrow> response_protocol" where
  "getPaxosType ch =
     (if ch_paxosType ch = ''batchpaxos'' then BATCHPAXOS
      else if ch_paxosType ch = ''fastpaxos'' then FASTPAXOS
      else if ch_paxosType ch = ''multipaxos'' then MULTIPAXOS
      else UNKNOWN)"

definition updateConn :: "nat \<Rightarrow> (ClientConn \<Rightarrow> ClientConn) \<Rightarrow> ClientHandler \<Rightarrow> ClientHandler" where
  "updateConn n f ch = (if n < length (conns ch) then ch\<lparr>conns := (conns ch)[n := f (conns ch ! n)]\<rparr> else ch)"

definition connectedClient :: "string \<Rightarrow> ClientHandler \<Rightarrow> nat option" where
  "connectedClient i ch =
     (case clients ch i of
        Some n \<Rightarrow> if n < length (conns ch) \<and> connected (conns ch ! n) then Some n else None
      | None \<Rightarrow> None)"

definition WriteAsync :: "ClientResponse \<Rightarrow> nat \<Rightarrow> ClientHandler \<Rightarrow> ClientHandler" where
  "WriteAsync resp n = updateConn n (\<lambda>cc. cc\<lparr>cc_respChan := cc_respChan cc @ [resp]\<rparr>)"

definition closeConn :: "nat \<Rightarrow> ClientHandler \<Rightarrow> ClientHandler" where
  "closeConn n = updateConn n (\<lambda>cc. cc\<lparr>connected := False\<rparr>)"

text \<open>
  \<open>hello\<close> is what was read from the new connection, \<open>None\<close> an error; \<open>written\<close> says whether the reply
  could be written. When the leader is not in the node map, a replica that should redirect goes on.
\<close>

definition greetClient :: "Request option \<Rightarrow> bool \<Rightarrow> ClientHandler \<Rightarrow> ClientHandler" where
  "greetClient hello written ch =
     (case hello of
        None \<Rightarrow> ch
      | Some req \<Rightarrow>
          if GetType req \<noteq> Request_HELLO then ch
          else case (if redirect ch then LookupNode (ch_leader ch) (nodeMap (ch_grpmgr ch)) else None) of
            Some leader \<Rightarrow>
              ch\<lparr>greetings := greetings ch @ [genErrResp HELLO_RESP REDIRECT (ClientAddr leader)]\<rparr>
          | None \<Rightarrow>
              if IsIDInvalid req then ch
              else if \<not> written then ch
              else ch\<lparr>greetings := greetings ch @ [(genResp HELLO_RESP [])\<lparr>cr_Protocol := getPaxosType ch\<rparr>],
                      clients := (clients ch)(GetId req \<mapsto> length (conns ch)),
                      conns := conns ch @ [NewClientConn]\<rparr>)"

definition ch_handleRequest :: "Request \<Rightarrow> ClientHandler \<Rightarrow> ClientHandler" where
  "ch_handleRequest req ch =
     (if redirect ch then
        (case LookupNode (ch_leader ch) (nodeMap (ch_grpmgr ch)) of
           None \<Rightarrow> ch
         | Some leader \<Rightarrow>
             (case connectedClient (GetId req) ch of
                None \<Rightarrow> ch
              | Some n \<Rightarrow> WriteAsync (genErrResp EXEC_RESP REDIRECT (ClientAddr leader)) n ch))
      else if GetType req \<noteq> Request_EXEC then ch
      else case replies ch (GetId req) of
        Some lastReply \<Rightarrow>
          if GetSeq req = cr_Seq lastReply then
            (case connectedClient (GetId req) ch of
               None \<Rightarrow> ch
             | Some n \<Rightarrow> WriteAsync lastReply n ch)
          else ch\<lparr>ch_propChan := ch_propChan ch @ [req]\<rparr>
      | None \<Rightarrow> ch\<lparr>ch_propChan := ch_propChan ch @ [req]\<rparr>)"

definition ch_handleResponse :: "ClientResponse \<Rightarrow> ClientHandler \<Rightarrow> ClientHandler" where
  "ch_handleResponse resp ch =
     (case connectedClient (cr_Id resp) ch of
        None \<Rightarrow> ch
      | Some n \<Rightarrow> WriteAsync resp n (ch\<lparr>replies := (replies ch)(cr_Id resp \<mapsto> resp)\<rparr>))"

definition ch_handleGrpHold :: "GrpMgr \<Rightarrow> ClientHandler \<Rightarrow> ClientHandler" where
  "ch_handleGrpHold gm ch =
     (let leader = (ch_id ch = ch_leader ch);
          ch = ch\<lparr>ch_grpmgr := gm, ch_id := gm_id gm\<rparr>
      in if leader then ch\<lparr>ch_leader := ch_id ch\<rparr> else ch)"

text \<open>
  One turn of \<open>Serve\<close>, at the moment when the connection's goroutine hands over what it has read (it
  reads one request at a time, and reading changes nothing that others see): \<open>req\<close> is what was read,
  \<open>None\<close> an error. One turn of \<open>handleRespChan\<close>: what became of
  the write.
\<close>

definition serve :: "nat \<Rightarrow> Request option \<Rightarrow> ClientHandler \<Rightarrow> ClientHandler" where
  "serve n req ch =
     (if n < length (conns ch) \<and> connected (conns ch ! n) then
        (case req of
           None \<Rightarrow> closeConn n ch
         | Some req \<Rightarrow> if IsIDInvalid req then closeConn n ch else ch\<lparr>reqChan := reqChan ch @ [req]\<rparr>)
      else ch)"

datatype write_result = WriteOk | WriteEOF | WriteError

definition handleRespChan :: "nat \<Rightarrow> write_result \<Rightarrow> ClientHandler \<Rightarrow> ClientHandler" where
  "handleRespChan n res ch =
     (if n < length (conns ch) then
        (case cc_respChan (conns ch ! n) of
           [] \<Rightarrow> ch
         | resp # rest \<Rightarrow>
             let ch = updateConn n (\<lambda>cc. cc\<lparr>cc_respChan := rest\<rparr>) ch
             in case res of
                  WriteOk \<Rightarrow> updateConn n (\<lambda>cc. cc\<lparr>cc_written := cc_written cc @ [resp]\<rparr>) ch
                | WriteEOF \<Rightarrow> closeConn n ch
                | WriteError \<Rightarrow> ch)
      else ch)"

datatype ch_event =
    CHGreet "Request option" bool
  | CHServe nat "Request option"
  | CHWrite nat write_result
  | CHTrust gid
  | CHRequest
  | CHResponse ClientResponse
  | CHHold GrpMgr

fun ch_step :: "ch_event \<Rightarrow> ClientHandler \<Rightarrow> ClientHandler" where
  "ch_step (CHGreet hello written) ch = greetClient hello written ch"
| "ch_step (CHServe n req) ch = serve n req ch"
| "ch_step (CHWrite n res) ch = handleRespChan n res ch"
| "ch_step (CHTrust trustID) ch = ch\<lparr>ch_leader := trustID\<rparr>"
| "ch_step CHRequest ch =
     (case reqChan ch of [] \<Rightarrow> ch | req # rest \<Rightarrow> ch_handleRequest req (ch\<lparr>reqChan := rest\<rparr>))"
| "ch_step (CHResponse resp) ch = ch_handleResponse resp ch"
| "ch_step (CHHold gm) ch = ch_handleGrpHold gm ch"

definition ch_run :: "ch_event list \<Rightarrow> ClientHandler \<Rightarrow> ClientHandler" where
  "ch_run = fold ch_step"

end
