(* ===== verification/ClientRuns.thy ===== *)
theory ClientRuns
  imports Client "HOL-Library.Sublist"
begin

text \<open>
  What clients can rely on: messages come off a connection as they were written; a replica proposes the
  commands it read, in order, and not again once it has answered; a client tries the replicas in turn.
  And on what they cannot: a reply that is lost is computed twice, a redirect can pass for an answer, and
  four bytes stop a replica.
\<close>

section \<open>Frames\<close>

fun readFrames :: "nat \<Rightarrow> (bytes \<Rightarrow> 'm option) \<Rightarrow> nat \<Rightarrow> bytes \<Rightarrow> (frame_error + 'm list \<times> bytes) result" where
  "readFrames mem unmarshal 0 conn = Ok (Inr ([], conn))"
| "readFrames mem unmarshal (Suc n) conn =
     bind_result (readFrame mem unmarshal conn) (\<lambda>r. case r of
       Inl e \<Rightarrow> Ok (Inl e)
     | Inr (msg, conn) \<Rightarrow> bind_result (readFrames mem unmarshal n conn) (\<lambda>r. case r of
         Inl e \<Rightarrow> Ok (Inl e)
       | Inr (msgs, conn) \<Rightarrow> Ok (Inr (msg # msgs, conn))))"

definition codec_ok :: "nat \<Rightarrow> ('m \<Rightarrow> bytes option) \<Rightarrow> (bytes \<Rightarrow> 'm option) \<Rightarrow> 'm \<Rightarrow> bool" where
  "codec_ok mem marshal unmarshal m \<longleftrightarrow>
     (\<exists>buf. marshal m = Some buf \<and> unmarshal buf = Some m \<and> length buf \<le> mem \<and> length buf < 2 ^ 31)"

lemma readFrame_write:
  assumes "codec_ok mem marshal unmarshal m"
  shows "readFrame mem unmarshal (the (writeFrame marshal m) @ rest) = Ok (Inr (m, rest))"
proof -
  obtain buf where buf: "marshal m = Some buf" "unmarshal buf = Some m" "length buf \<le> mem" "length buf < 2 ^ 31"
    using assms by (auto simp: codec_ok_def)
  have "readLoop 4 (putInt32 (of_nat (length buf)) @ buf @ rest) = Inr (putInt32 (of_nat (length buf)), buf @ rest)"
    using readLoop_append [of "putInt32 (of_nat (length buf))" "buf @ rest"] by simp
  then show ?thesis
    using buf sint_of_nat_small32 [OF buf(4)]
    by (simp add: readFrame_def writeFrame_def getInt32_put makeBytes_def readLoop_append)
qed

text \<open>
  Messages that are written one after the other are read back in the same order, whatever follows
  them, if the encoding can be undone and the lengths fit the 32-bit prefix and the reader's memory.
\<close>

theorem frames_roundtrip:
  assumes "\<forall>m\<in>set msgs. codec_ok mem marshal unmarshal m"
  shows "readFrames mem unmarshal (length msgs) (concat (map (the \<circ> writeFrame marshal) msgs) @ rest) =
    Ok (Inr (msgs, rest))"
  using assms by (induction msgs) (simp_all add: readFrame_write)

theorem frames_roundtrip_witness:
  "readFrames 100 (\<lambda>bs. Some bs) 2 (concat (map (the \<circ> writeFrame Some) [[1, 2], [3 :: 8 word]]) @ [9]) =
    Ok (Inr ([[1, 2], [3]], [9]))"
proof -
  have ok: "\<forall>m\<in>set [[1, 2], [3 :: 8 word]]. codec_ok 100 Some (\<lambda>bs. Some bs) m"
    by (simp add: codec_ok_def)
  have two: "length [[1, 2], [3 :: 8 word]] = 2" by simp
  show ?thesis using frames_roundtrip [OF ok, of "[9]"] unfolding two .
qed

text \<open>A length of -1, which anyone who can connect can send, stops the process.\<close>

lemma negative_frame_panics:
  "readFrame mem unmarshal ([255, 255, 255, 255] @ rest) = Fault (Panic ''makeslice: len out of range'')"
proof -
  have "getInt32 [255, 255, 255, 255] = - 1" by code_simp
  moreover have "readLoop 4 ([255, 255, 255, 255] @ rest) = Inr ([255, 255, 255, 255], rest)"
    using readLoop_append [of "[255, 255, 255, 255]" rest] by (simp add: numeral_eq_Suc del: append_Cons)
  ultimately show ?thesis unfolding readFrame_def by (simp add: makeBytes_def)
qed

section \<open>What a replica proposes\<close>

lemma updateConn_fields [simp]:
  "ch_propChan (updateConn n f ch) = ch_propChan ch" "reqChan (updateConn n f ch) = reqChan ch"
  "replies (updateConn n f ch) = replies ch" "clients (updateConn n f ch) = clients ch"
  by (simp_all add: updateConn_def)

lemma WriteAsync_fields [simp]:
  "ch_propChan (WriteAsync r n ch) = ch_propChan ch" "reqChan (WriteAsync r n ch) = reqChan ch"
  "replies (WriteAsync r n ch) = replies ch" "clients (WriteAsync r n ch) = clients ch"
  by (simp_all add: WriteAsync_def)

lemma closeConn_fields [simp]:
  "ch_propChan (closeConn n ch) = ch_propChan ch" "reqChan (closeConn n ch) = reqChan ch"
  "replies (closeConn n ch) = replies ch" "clients (closeConn n ch) = clients ch"
  by (simp_all add: closeConn_def)

lemma greetClient_fields [simp]:
  "ch_propChan (greetClient h w ch) = ch_propChan ch" "reqChan (greetClient h w ch) = reqChan ch"
  "replies (greetClient h w ch) = replies ch"
  by (auto simp: greetClient_def split: option.split)

lemma handleRespChan_fields [simp]:
  "ch_propChan (handleRespChan n r ch) = ch_propChan ch" "reqChan (handleRespChan n r ch) = reqChan ch"
  "replies (handleRespChan n r ch) = replies ch"
  by (auto simp: handleRespChan_def Let_def split: list.split write_result.split)

lemma ch_handleResponse_fields [simp]:
  "ch_propChan (ch_handleResponse r ch) = ch_propChan ch" "reqChan (ch_handleResponse r ch) = reqChan ch"
  by (auto simp: ch_handleResponse_def split: option.split)

lemma ch_handleGrpHold_fields [simp]:
  "ch_propChan (ch_handleGrpHold gm ch) = ch_propChan ch" "reqChan (ch_handleGrpHold gm ch) = reqChan ch"
  "replies (ch_handleGrpHold gm ch) = replies ch"
  by (auto simp: ch_handleGrpHold_def Let_def)

text \<open>A request is proposed, or answered, or dropped; only the leader or a direct protocol proposes.\<close>

lemma ch_handleRequest_cases:
  obtains (kept) "ch_propChan (ch_handleRequest req ch) = ch_propChan ch"
  | (proposed) "ch_propChan (ch_handleRequest req ch) = ch_propChan ch @ [req]" "\<not> redirect ch"
      "GetType req = Request_EXEC" "\<And>r. replies ch (GetId req) = Some r \<Longrightarrow> GetSeq req \<noteq> cr_Seq r"
proof (cases "redirect ch \<or> GetType req \<noteq> Request_EXEC")
  case True
  then show ?thesis by (intro kept) (auto simp: ch_handleRequest_def split: option.split)
next
  case new: False
  show ?thesis
  proof (cases "\<exists>r. replies ch (GetId req) = Some r \<and> GetSeq req = cr_Seq r")
    case True
    then show ?thesis using new by (intro kept) (auto simp: ch_handleRequest_def split: option.split)
  next
    case False
    then show ?thesis using new by (intro proposed) (auto simp: ch_handleRequest_def split: option.split)
  qed
qed

lemma ch_handleRequest_fields [simp]:
  "reqChan (ch_handleRequest req ch) = reqChan ch" "replies (ch_handleRequest req ch) = replies ch"
  by (auto simp: ch_handleRequest_def split: option.split)

text \<open>What connections that are still served have read.\<close>

fun requests_read :: "ch_event list \<Rightarrow> Request list" where
  "requests_read [] = []"
| "requests_read (CHServe n (Some req) # es) = req # requests_read es"
| "requests_read (e # es) = requests_read es"

lemma requests_read_append: "requests_read (es @ fs) = requests_read es @ requests_read fs"
  by (induction es rule: requests_read.induct) simp_all

definition proposals_ok :: "Request list \<Rightarrow> ClientHandler \<Rightarrow> bool" where
  "proposals_ok rs ch \<longleftrightarrow> subseq (ch_propChan ch @ reqChan ch) rs \<and>
     (\<forall>req\<in>set (ch_propChan ch). GetType req = Request_EXEC) \<and>
     (\<forall>req\<in>set (ch_propChan ch @ reqChan ch). \<not> IsIDInvalid req)"

lemma proposals_ok_same:
  assumes "proposals_ok rs ch" and "ch_propChan ch' = ch_propChan ch" and "reqChan ch' = reqChan ch"
  shows "proposals_ok (rs @ xs) ch'"
  using assms by (auto simp: proposals_ok_def)

lemma ch_step_proposals:
  assumes "proposals_ok rs ch"
  shows "proposals_ok (rs @ requests_read [e]) (ch_step e ch)"
proof (cases e)
  case (CHServe n r)
  show ?thesis
  proof (cases r)
    case None
    then show ?thesis using CHServe by (intro proposals_ok_same [OF assms]) (auto simp: serve_def)
  next
    case (Some req)
    show ?thesis
    proof (cases "n < length (conns ch) \<and> connected (conns ch ! n) \<and> \<not> IsIDInvalid req")
      case True
      have "subseq ((ch_propChan ch @ reqChan ch) @ [req]) (rs @ [req])"
        using assms by (intro list_emb_append_mono) (simp_all add: proposals_ok_def)
      then show ?thesis using True assms CHServe Some by (auto simp: serve_def proposals_ok_def)
    next
      case False
      then show ?thesis using CHServe Some by (intro proposals_ok_same [OF assms]) (auto simp: serve_def)
    qed
  qed
next
  case CHRequest
  show ?thesis
  proof (cases "reqChan ch")
    case Nil
    then show ?thesis using CHRequest assms by simp
  next
    case (Cons req rest)
    have sub: "subseq (ch_propChan ch @ rest) rs" "subseq (ch_propChan ch @ req # rest) rs"
      using assms Cons subseq_order.order_trans [OF list_emb_append_mono [OF subseq_order.order_refl list_emb_Cons [OF subseq_order.order_refl]]]
      by (auto simp: proposals_ok_def)
    show ?thesis
      by (rule ch_handleRequest_cases [of req "ch\<lparr>reqChan := rest\<rparr>"])
        (use sub assms Cons CHRequest in \<open>auto simp: proposals_ok_def\<close>)
  qed
qed (use assms in \<open>auto intro!: proposals_ok_same [OF assms, of _ "[]", simplified]\<close>)

lemma ch_run_proposals:
  "proposals_ok rs ch \<Longrightarrow> proposals_ok (rs @ requests_read es) (ch_run es ch)"
proof (induction es arbitrary: rs ch)
  case (Cons e es)
  show ?case
    using Cons.IH [OF ch_step_proposals [OF Cons.prems, of e]] requests_read_append [of "[e]" es]
    by (simp add: ch_run_def)
qed (simp add: ch_run_def)

text \<open>
  C37. Over any run a replica proposes only commands that it has read from clients with an identifier of
  the right length, each as often as it was read at most and in the order in which the connections handed them over.
\<close>

theorem ch_proposes_what_it_read:
  assumes "NewClientHandler i paxosType gm leader = Ok ch"
  shows "subseq (ch_propChan (ch_run es ch)) (requests_read es) \<and>
    (\<forall>req\<in>set (ch_propChan (ch_run es ch)). GetType req = Request_EXEC \<and> length (GetId req) = 28)"
proof -
  have "proposals_ok [] ch" using assms by (auto simp: NewClientHandler_def proposals_ok_def split: if_splits)
  from ch_run_proposals [OF this, of es] have ok: "proposals_ok (requests_read es) (ch_run es ch)" by simp
  then have "subseq (ch_propChan (ch_run es ch)) (requests_read es)"
    unfolding proposals_ok_def by (blast intro: subseq_order.order_trans subseq_rev_drop_many list_emb_append2)
  with ok show ?thesis by (auto simp: proposals_ok_def IsIDInvalid_def validIDLength_def)
qed

text \<open>A leader with one other replica, and a client whose connection was lost before the answer came.\<close>

definition pairGroup :: GrpMgr where
  "pairGroup = NewGrpMgr (ID 0 0)
     (memoize \<lparr>nodes = [(ID 0 0, NewNode ''a'' ''1'' ''2'' True True True), (ID 1 0, NewNode ''b'' ''1'' ''2'' True True True)],
       epochs = [0, 0], nrOfNodes = 2, nrOfAcceptors = 2, quorum = 2, idsMemoized = [],
       proposerIdsMemoized = [], acceptorIdsMemoized = [], learnerIdsMemoized = []\<rparr>) False False"

definition someID :: "nat \<Rightarrow> string" where
  "someID k = replicate 28 (char_of k)"

definition someRequest :: "nat \<Rightarrow> 32 word \<Rightarrow> Request" where
  "someRequest k s = \<lparr>req_Type = Some Request_EXEC, req_Id = Some (someID k), req_Seq = Some s, req_Val = [7]\<rparr>"

definition someHello :: "nat \<Rightarrow> Request" where
  "someHello k = \<lparr>req_Type = Some Request_HELLO, req_Id = Some (someID k), req_Seq = None, req_Val = []\<rparr>"

definition someReply :: "nat \<Rightarrow> 32 word \<Rightarrow> ClientResponse" where
  "someReply k s = (genResp EXEC_RESP [8])\<lparr>cr_Id := someID k, cr_Seq := s\<rparr>"

definition pairHandler :: ClientHandler where
  "pairHandler = (case NewClientHandler (ID 0 0) ''multipaxos'' pairGroup (ID 0 0) of Inr ch \<Rightarrow> ch)"

definition reconnecting :: "ch_event list" where
  "reconnecting =
     [CHGreet (Some (someHello 65)) True, CHServe 0 (Some (someRequest 65 3)), CHRequest, CHServe 0 None,
      CHResponse (someReply 65 3),
      CHGreet (Some (someHello 65)) True, CHServe 1 (Some (someRequest 65 3)), CHRequest]"

lemma pairHandler_new: "NewClientHandler (ID 0 0) ''multipaxos'' pairGroup (ID 0 0) = Ok pairHandler"
proof -
  have "LookupNode (ID 0 0) (nodeMap pairGroup) \<noteq> None" by code_simp
  then show ?thesis unfolding pairHandler_def NewClientHandler_def by simp
qed

text \<open>
  The reply is only remembered if the client is connected when it comes: here the command is proposed a
  second time, and will be executed a second time.
\<close>

lemma lost_reply_proposed_twice:
  "ch_propChan (ch_run reconnecting pairHandler) = [someRequest 65 3, someRequest 65 3]"
  by code_simp

theorem ch_proposes_what_it_read_witness:
  "subseq (ch_propChan (ch_run reconnecting pairHandler)) (requests_read reconnecting) \<and>
    requests_read reconnecting = [someRequest 65 3, someRequest 65 3]"
  using ch_proposes_what_it_read [OF pairHandler_new, of reconnecting] by (simp add: reconnecting_def)

lemma ch_step_answered:
  assumes "replies ch i = Some r" and "\<And>a. e = CHResponse a \<Longrightarrow> cr_Id a \<noteq> i"
  obtains new where "ch_propChan (ch_step e ch) = ch_propChan ch @ new"
    "\<forall>req\<in>set new. GetId req = i \<longrightarrow> GetSeq req \<noteq> cr_Seq r" "replies (ch_step e ch) i = Some r"
proof (cases e)
  case (CHServe n req)
  then show ?thesis using assms by (intro that [of "[]"]) (auto simp: serve_def split: option.split)
next
  case (CHResponse a)
  then show ?thesis using assms
    by (intro that [of "[]"]) (auto simp: ch_handleResponse_def split: option.split)
next
  case CHRequest
  show ?thesis
  proof (cases "reqChan ch")
    case Nil
    then show ?thesis using CHRequest assms by (intro that [of "[]"]) simp_all
  next
    case (Cons req rest)
    show ?thesis
      by (rule ch_handleRequest_cases [of req "ch\<lparr>reqChan := rest\<rparr>"])
        (use Cons CHRequest assms in \<open>auto intro: that [of "[]"] that [of "[req]"]\<close>)
  qed
qed (use assms in \<open>auto intro!: that [of "[]"]\<close>)

text \<open>
  C38. A command whose answer is remembered is not proposed again, as long as no other answer to the same
  client comes: a client that resends it gets the remembered answer.
\<close>

theorem answered_not_proposed_again:
  assumes "replies ch i = Some r" and "\<forall>a. CHResponse a \<in> set es \<longrightarrow> cr_Id a \<noteq> i"
  shows "\<exists>new. ch_propChan (ch_run es ch) = ch_propChan ch @ new \<and>
    (\<forall>req\<in>set new. GetId req = i \<longrightarrow> GetSeq req \<noteq> cr_Seq r)"
  using assms
proof (induction es arbitrary: ch)
  case (Cons e es)
  obtain new where "ch_propChan (ch_step e ch) = ch_propChan ch @ new"
    "\<forall>req\<in>set new. GetId req = i \<longrightarrow> GetSeq req \<noteq> cr_Seq r" "replies (ch_step e ch) i = Some r"
    using ch_step_answered [of ch i r e] Cons.prems by auto
  moreover from this(3) obtain more where "ch_propChan (ch_run es (ch_step e ch)) = ch_propChan (ch_step e ch) @ more"
    "\<forall>req\<in>set more. GetId req = i \<longrightarrow> GetSeq req \<noteq> cr_Seq r"
    using Cons.IH [of "ch_step e ch"] Cons.prems by auto
  ultimately show ?case by (intro exI [of _ "new @ more"]) (auto simp: ch_run_def)
qed (simp add: ch_run_def)

definition answering :: "ch_event list" where
  "answering =
     [CHGreet (Some (someHello 65)) True, CHServe 0 (Some (someRequest 65 3)), CHRequest, CHResponse (someReply 65 3)]"

definition resending :: "ch_event list" where
  "resending = [CHServe 0 (Some (someRequest 65 3)), CHRequest, CHServe 0 (Some (someRequest 65 4)), CHRequest]"

theorem answered_not_proposed_again_witness:
  "\<exists>new. ch_propChan (ch_run resending (ch_run answering pairHandler)) = [someRequest 65 3] @ new \<and>
    (\<forall>req\<in>set new. GetId req = someID 65 \<longrightarrow> GetSeq req \<noteq> 3)"
proof -
  have "replies (ch_run answering pairHandler) (someID 65) = Some (someReply 65 3)"
    "ch_propChan (ch_run answering pairHandler) = [someRequest 65 3]" by code_simp+
  then show ?thesis
    using answered_not_proposed_again [of "ch_run answering pairHandler" "someID 65" "someReply 65 3" resending]
    by (simp add: resending_def someReply_def)
qed

lemma resent_is_answered:
  "map cc_respChan (conns (ch_run resending (ch_run answering pairHandler))) = [[someReply 65 3, someReply 65 3]] \<and>
    ch_propChan (ch_run resending (ch_run answering pairHandler)) = [someRequest 65 3, someRequest 65 4]"
  by code_simp

text \<open>Nothing remembers what is proposed and not answered yet, and a connection may send anybody's identifier.\<close>

lemma unanswered_proposed_twice:
  "ch_propChan (ch_run [CHGreet (Some (someHello 65)) True, CHServe 0 (Some (someRequest 65 3)), CHRequest,
     CHServe 0 (Some (someRequest 65 3)), CHRequest] pairHandler) = [someRequest 65 3, someRequest 65 3]"
  by code_simp

lemma identifier_not_checked:
  "ch_propChan (ch_run [CHGreet (Some (someHello 65)) True, CHServe 0 (Some (someRequest 66 3)), CHRequest]
     pairHandler) = [someRequest 66 3]"
  by code_simp

text \<open>A replica of parallel Paxos accepts the handshake, but names no protocol: its clients give up.\<close>

lemma parallel_not_named: "NewClientHandler i ''ParallelPaxos'' gm leader = Ok ch \<Longrightarrow> getPaxosType ch = UNKNOWN"
proof -
  have "TrimSpace (ToLower ''ParallelPaxos'') = ''parallelpaxos''" by code_simp
  then show "NewClientHandler i ''ParallelPaxos'' gm leader = Ok ch \<Longrightarrow> getPaxosType ch = UNKNOWN"
    by (auto simp: NewClientHandler_def getPaxosType_def split: if_splits)
qed

end
