(* ===== verification/ClientConns.thy ===== *)
theory ClientConns
  imports Client
begin

text \<open>
  The client's own connections to the replicas: the handshake (\<open>src/client/serviceconnection.go\<close>), the
  connection to one replica at a time (\<open>replicaconn.go\<close>, \<open>response.go\<close>), the connections to all of them
  (\<open>batchconnection.go\<close>, \<open>fastconnection.go\<close>), and the connection manager (\<open>connmanager.go\<close>). Every
  request has a goroutine of its own that sends it, and goroutines read the replies. What the network
  answers is an argument; the texts of errors are those of a failed dial. The lock between handshakes and reads only takes interleavings away and is
  left out; times are, too.
\<close>

section \<open>Requests on their way\<close>

record ResponseData =
  rd_Value :: bytes
  rd_Err :: "string option"

definition reply_data :: "bytes \<Rightarrow> ResponseData" where
  "reply_data v = \<lparr>rd_Value = v, rd_Err = None\<rparr>"

definition error_data :: "string \<Rightarrow> ResponseData" where
  "error_data e = \<lparr>rd_Value = [], rd_Err = Some e\<rparr>"

text \<open>The channels of \<open>responseInfo\<close> hold one value each; the last two carry no data.\<close>

record responseInfo =
  respChan :: "ResponseData list"
  resend :: bool
  gotResponse :: bool

definition newResponseInfo :: responseInfo where
  "newResponseInfo = \<lparr>respChan = [], resend = False, gotResponse = False\<rparr>"

text \<open>
  Where the goroutine of a request is: about to write, asleep after a failed write, about to signal that
  it has written, in its \<open>select\<close>, about to report an error, for ever in a handshake, or at its end.
  \<open>sn_deferred\<close> says whether the entry in the map will be deleted then, \<open>sn_got\<close> is what the caller took.
\<close>

datatype sender = Writing | Sleeping | Signalling | Awaiting | Reporting string | Stuck | Returned

record sending =
  sn_req :: Request
  sn_info :: responseInfo
  sn_state :: sender
  sn_deferred :: bool
  sn_got :: "ResponseData list"

definition newSending :: "Request \<Rightarrow> sending" where
  "newSending req = \<lparr>sn_req = req, sn_info = newResponseInfo, sn_state = Writing, sn_deferred = False, sn_got = []\<rparr>"

definition updateInfo :: "(responseInfo \<Rightarrow> responseInfo) \<Rightarrow> sending \<Rightarrow> sending" where
  "updateInfo f sn = sn\<lparr>sn_info := f (sn_info sn)\<rparr>"

text \<open>\<open>select { case ch <- x: default: }\<close> on a channel that holds one.\<close>

definition offer :: "ResponseData \<Rightarrow> responseInfo \<Rightarrow> responseInfo" where
  "offer d info = (if respChan info = [] then info\<lparr>respChan := [d]\<rparr> else info)"

section \<open>The connection to one replica\<close>

datatype receiver = Idle | Reading | RSleeping | RStuck | REnded

record ReplicaConn =
  rc_id :: string
  rc_conn :: "string option"
  rc_seq :: "32 word"
  nextNodeToConnectTo :: nat
  respMap :: "(32 word, nat) gomap"
  rc_nodes :: "string list"
  reqSent :: nat
  sends :: "sending list"
  receivers :: "receiver list"
  reconnecting :: bool

definition newReplicaConn :: "string \<Rightarrow> string list \<Rightarrow> ReplicaConn" where
  "newReplicaConn i ns = \<lparr>rc_id = i, rc_conn = None, rc_seq = 0, nextNodeToConnectTo = 0, respMap = [],
     rc_nodes = ns, reqSent = 0, sends = [], receivers = [], reconnecting = False\<rparr>"

definition genReq :: "bytes \<Rightarrow> ReplicaConn \<Rightarrow> Request \<times> ReplicaConn" where
  "genReq val c =
     (\<lparr>req_Type = Some Request_EXEC, req_Id = Some (rc_id c), req_Seq = Some (rc_seq c), req_Val = val\<rparr>,
      c\<lparr>rc_seq := rc_seq c + 1\<rparr>)"

definition Send :: "bytes \<Rightarrow> ReplicaConn \<Rightarrow> ReplicaConn" where
  "Send request c =
     (let (req, c) = genReq request c
      in c\<lparr>respMap := put (GetSeq req) (length (sends c)) (respMap c), sends := sends c @ [newSending req]\<rparr>)"

definition deleteResp :: "32 word \<Rightarrow> ReplicaConn \<Rightarrow> ReplicaConn" where
  "deleteResp seqNum c = c\<lparr>respMap := AList.delete seqNum (respMap c)\<rparr>"

text \<open>\<open>dial\<close> says which attempt succeeds.\<close>

fun tcpLoop :: "nat \<Rightarrow> nat \<Rightarrow> (nat \<Rightarrow> bool) \<Rightarrow> ReplicaConn \<Rightarrow> (bool \<times> ReplicaConn) result" where
  "tcpLoop 0 i dial c = Ok (False, c)"
| "tcpLoop (Suc n) i dial c =
     bind_result (index (rc_nodes c) (int (nextNodeToConnectTo c))) (\<lambda>addr.
       let c' = c\<lparr>nextNodeToConnectTo := (nextNodeToConnectTo c + 1) mod length (rc_nodes c)\<rparr>
       in if dial i then Ok (True, c'\<lparr>rc_conn := Some addr\<rparr>) else tcpLoop n (i + 1) dial c')"

definition tcpConnect :: "nat \<Rightarrow> (nat \<Rightarrow> bool) \<Rightarrow> ReplicaConn \<Rightarrow> (bool \<times> ReplicaConn) result" where
  "tcpConnect cycleListMax dial c = tcpLoop (length (rc_nodes c) * cycleListMax) 0 dial c"

text \<open>The new node is appended to the caller's copy of the slice, so only the index comes back.\<close>

definition addNodeIfMissing :: "string list \<Rightarrow> string \<Rightarrow> nat" where
  "addNodeIfMissing nodeList possibleNewNode =
     (case List.find (\<lambda>(i, n). n = possibleNewNode) (enumerate 0 nodeList) of
        Some (i, n) \<Rightarrow> i
      | None \<Rightarrow> length (nodeList @ [possibleNewNode]) - 1)"

text \<open>
  A service is reached through the connection of the handshake, or through connections to all nodes. The
  address of the peer, as the network gives it, is \<open>remoteAddr\<close> of the configured one; \<open>reach\<close> says
  which nodes can be dialled and greeted.
\<close>

datatype service = Single | Fast "string list" | Batch "string list"

fun connectToRemaining :: "string \<Rightarrow> (string \<Rightarrow> bool) \<Rightarrow> string list \<Rightarrow> string list option" where
  "connectToRemaining connectedAdr reach [] = Some []"
| "connectToRemaining connectedAdr reach (address # rest) =
     (if address = connectedAdr then connectToRemaining connectedAdr reach rest
      else if \<not> reach address then None
      else map_option ((#) address) (connectToRemaining connectedAdr reach rest))"

definition checkPaxosType ::
  "(string \<Rightarrow> string) \<Rightarrow> (string \<Rightarrow> bool) \<Rightarrow> response_protocol \<Rightarrow> ReplicaConn \<Rightarrow> service option \<times> ReplicaConn" where
  "checkPaxosType remoteAddr reach protocol c =
     (let addr = the (rc_conn c);
          all = map_option (\<lambda>cs. cs @ [addr]) (connectToRemaining (remoteAddr addr) reach (rc_nodes c))
      in case protocol of
           MULTIPAXOS \<Rightarrow> (Some Single, c\<lparr>receivers := receivers c @ [Idle]\<rparr>)
         | FASTPAXOS \<Rightarrow> (map_option Fast all, c)
         | BATCHPAXOS \<Rightarrow> (map_option Batch all, c)
         | UNKNOWN \<Rightarrow> (None, c))"

text \<open>
  The handshake calls itself when it is redirected. Each call has its answers from the network: which
  dial succeeds, which nodes can be reached, and what is read. Without further answers it still waits.
\<close>

type_synonym answers = "((nat \<Rightarrow> bool) \<times> (string \<Rightarrow> bool) \<times> ClientResponse option) list"

datatype handshake_result = Serving service | Failed | Waiting

fun handshake :: "nat \<Rightarrow> (string \<Rightarrow> string) \<Rightarrow> answers \<Rightarrow> ReplicaConn \<Rightarrow> (handshake_result \<times> ReplicaConn) result" where
  "handshake cycleListMax remoteAddr [] c = Ok (Waiting, c)"
| "handshake cycleListMax remoteAddr ((dial, reach, hsResp) # answers) c =
     bind_result (tcpConnect cycleListMax dial c) (\<lambda>(ok, c).
       if \<not> ok then Ok (Failed, c)
       else case hsResp of
         None \<Rightarrow> Ok (Failed, c)
       | Some r \<Rightarrow>
           if cr_Type r \<noteq> HELLO_RESP then Ok (Failed, c)
           else case cr_ErrorCode r of
             NONE \<Rightarrow>
               (case checkPaxosType remoteAddr reach (cr_Protocol r) c of
                  (None, c) \<Rightarrow> Ok (Failed, c)
                | (Some s, c) \<Rightarrow> Ok (Serving s, c))
           | REDIRECT \<Rightarrow>
               handshake cycleListMax remoteAddr answers
                 (c\<lparr>nextNodeToConnectTo := addNodeIfMissing (rc_nodes c) (cr_ErrorDetail r)\<rparr>)
           | _ \<Rightarrow> Ok (Failed, c))"

text \<open>\<open>Dial\<close> with the addresses that the configuration lists.\<close>

definition Dial :: "nat \<Rightarrow> (string \<Rightarrow> string) \<Rightarrow> answers \<Rightarrow> string \<Rightarrow> string list \<Rightarrow> (handshake_result \<times> ReplicaConn) result" where
  "Dial cycleListMax remoteAddr answers i ns = handshake cycleListMax remoteAddr answers (newReplicaConn i ns)"

text \<open>A reconnection, when another one is under way, is over at once; this flag is a global variable.\<close>

definition reconnect :: "nat \<Rightarrow> (string \<Rightarrow> string) \<Rightarrow> answers \<Rightarrow> ReplicaConn \<Rightarrow> (bool option \<times> ReplicaConn) result" where
  "reconnect cycleListMax remoteAddr answers c =
     (if reconnecting c then Ok (Some True, c)
      else bind_result (handshake cycleListMax remoteAddr answers c) (\<lambda>(h, c).
        case h of
          Serving s \<Rightarrow> Ok (Some True, c)
        | Failed \<Rightarrow> Ok (Some False, c)
        | Waiting \<Rightarrow> Ok (None, c\<lparr>reconnecting := True\<rparr>)))"

subsection \<open>Sending\<close>

definition updateSend :: "nat \<Rightarrow> (sending \<Rightarrow> sending) \<Rightarrow> ReplicaConn \<Rightarrow> ReplicaConn" where
  "updateSend i f c = c\<lparr>sends := (sends c)[i := f (sends c ! i)]\<rparr>"

definition setState :: "sender \<Rightarrow> sending \<Rightarrow> sending" where
  "setState s sn = sn\<lparr>sn_state := s\<rparr>"

definition returnSend :: "nat \<Rightarrow> ReplicaConn \<Rightarrow> ReplicaConn" where
  "returnSend i c =
     (let c' = updateSend i (setState Returned) c
      in if sn_deferred (sends c ! i) then deleteResp (GetSeq (sn_req (sends c ! i))) c' else c')"

text \<open>What the goroutine of a request does next; the argument of each is what it meets.\<close>

datatype send_event =
    SWrite bool
  | SReconnect answers
  | SSignal
  | STimeout
  | SResend
  | SGotResponse
  | SReport

definition reqSentCap :: nat where
  "reqSentCap = 560"

definition trySend :: "nat \<Rightarrow> (string \<Rightarrow> string) \<Rightarrow> send_event \<Rightarrow> nat \<Rightarrow> ReplicaConn \<Rightarrow> ReplicaConn result" where
  "trySend cycleListMax remoteAddr e i c =
     (let sn = sends c ! i
      in case (e, sn_state sn) of
           (SWrite ok, Writing) \<Rightarrow>
             Ok (updateSend i (setState (if ok then Signalling else Sleeping)) c)
         | (SReconnect answers, Sleeping) \<Rightarrow>
             bind_result (reconnect cycleListMax remoteAddr answers c) (\<lambda>(res, c).
               Ok (updateSend i (setState (case res of
                     Some True \<Rightarrow> Writing
                   | Some False \<Rightarrow> Reporting ''cannot contact any node in cluster''
                   | None \<Rightarrow> Stuck)) c))
         | (SSignal, Signalling) \<Rightarrow>
             if reqSent c < reqSentCap then
               Ok (updateSend i (\<lambda>sn. sn\<lparr>sn_state := Awaiting, sn_deferred := True\<rparr>) (c\<lparr>reqSent := reqSent c + 1\<rparr>))
             else Ok c
         | (STimeout, Awaiting) \<Rightarrow> Ok (updateSend i (setState (Reporting ''timeout'')) c)
         | (SResend, Awaiting) \<Rightarrow>
             if resend (sn_info sn) then
               Ok (updateSend i (\<lambda>sn. setState Writing (updateInfo (\<lambda>info. info\<lparr>resend := False\<rparr>) sn)) c)
             else Ok c
         | (SGotResponse, Awaiting) \<Rightarrow>
             if gotResponse (sn_info sn) then
               Ok (returnSend i (updateSend i (updateInfo (\<lambda>info. info\<lparr>gotResponse := False\<rparr>)) c))
             else Ok c
         | (SReport, Reporting msg) \<Rightarrow>
             if respChan (sn_info sn) = [] then
               Ok (returnSend i (updateSend i (updateInfo (offer (error_data msg))) c))
             else Ok c
         | _ \<Rightarrow> Ok c)"

subsection \<open>Receiving\<close>

text \<open>The end of the loop of \<open>tryReceive\<close>: both writes are dropped if they would block.\<close>

definition deliverReply :: "ClientResponse \<Rightarrow> ReplicaConn \<Rightarrow> ReplicaConn" where
  "deliverReply r c =
     (case lookup (respMap c) (cr_Seq r) of
        None \<Rightarrow> c
      | Some i \<Rightarrow>
          updateSend i (updateInfo (\<lambda>info. offer (reply_data (cr_Val r)) (info\<lparr>gotResponse := True\<rparr>))) c)"

definition triggerResends :: "ReplicaConn \<Rightarrow> ReplicaConn" where
  "triggerResends c =
     fold (\<lambda>(seqNum, i). updateSend i (updateInfo (\<lambda>info. info\<lparr>resend := True\<rparr>))) (respMap c) c"

text \<open>These writes do block: the receiver stops at the first channel that is full.\<close>

fun reportAll :: "string \<Rightarrow> (32 word \<times> nat) list \<Rightarrow> ReplicaConn \<Rightarrow> bool \<times> ReplicaConn" where
  "reportAll err [] c = (True, c)"
| "reportAll err ((seqNum, i) # rest) c =
     (if respChan (sn_info (sends c ! i)) = []
      then reportAll err rest (updateSend i (updateInfo (offer (error_data err))) c)
      else (False, c))"

datatype receive_event =
    RTake
  | RRead "ClientResponse option"
  | RReconnect answers

definition setReceiver :: "nat \<Rightarrow> receiver \<Rightarrow> ReplicaConn \<Rightarrow> ReplicaConn" where
  "setReceiver j s c = c\<lparr>receivers := (receivers c)[j := s]\<rparr>"

definition tryReceive :: "nat \<Rightarrow> (string \<Rightarrow> string) \<Rightarrow> receive_event \<Rightarrow> nat \<Rightarrow> ReplicaConn \<Rightarrow> ReplicaConn result" where
  "tryReceive cycleListMax remoteAddr e j c =
     (case (e, receivers c ! j) of
        (RTake, Idle) \<Rightarrow>
          if 0 < reqSent c then Ok (setReceiver j Reading (c\<lparr>reqSent := reqSent c - 1\<rparr>)) else Ok c
      | (RRead None, Reading) \<Rightarrow> Ok (setReceiver j RSleeping c)
      | (RRead (Some r), Reading) \<Rightarrow> Ok (deliverReply r (setReceiver j Idle c))
      | (RReconnect answers, RSleeping) \<Rightarrow>
          bind_result (reconnect cycleListMax remoteAddr answers c) (\<lambda>(res, c).
            Ok (case res of
                  Some True \<Rightarrow> triggerResends (setReceiver j Idle c)
                | Some False \<Rightarrow>
                    (let (finished, c) = reportAll ''cannot contact any node in cluster'' (respMap c) c
                     in setReceiver j (if finished then REnded else RStuck) c)
                | None \<Rightarrow> setReceiver j RStuck c))
      | _ \<Rightarrow> Ok c)"

text \<open>The caller takes what waits for it.\<close>

definition takeReply :: "nat \<Rightarrow> ReplicaConn \<Rightarrow> ReplicaConn" where
  "takeReply i c =
     updateSend i (\<lambda>sn. (updateInfo (\<lambda>info. info\<lparr>respChan := []\<rparr>) sn)\<lparr>sn_got := sn_got sn @ respChan (sn_info sn)\<rparr>) c"

datatype conn_event = RCSend bytes | RCSender nat send_event | RCReceiver nat receive_event | RCCaller nat

fun conn_step :: "nat \<Rightarrow> (string \<Rightarrow> string) \<Rightarrow> conn_event \<Rightarrow> ReplicaConn \<Rightarrow> ReplicaConn result" where
  "conn_step cycleListMax remoteAddr (RCSend request) c = Ok (Send request c)"
| "conn_step cycleListMax remoteAddr (RCSender i e) c =
     (if i < length (sends c) then trySend cycleListMax remoteAddr e i c else Ok c)"
| "conn_step cycleListMax remoteAddr (RCReceiver j e) c =
     (if j < length (receivers c) then tryReceive cycleListMax remoteAddr e j c else Ok c)"
| "conn_step cycleListMax remoteAddr (RCCaller i) c = Ok (if i < length (sends c) then takeReply i c else c)"

fun conn_run :: "nat \<Rightarrow> (string \<Rightarrow> string) \<Rightarrow> conn_event list \<Rightarrow> ReplicaConn \<Rightarrow> ReplicaConn result" where
  "conn_run cycleListMax remoteAddr [] c = Ok c"
| "conn_run cycleListMax remoteAddr (e # es) c =
     bind_result (conn_step cycleListMax remoteAddr e c) (conn_run cycleListMax remoteAddr es)"

end
