(* ===== verification/ClientConnsRuns.thy ===== *)
theory ClientConnsRuns
  imports ClientConns "HOL-Library.Sublist"
begin

text \<open>
  What a client's connection promises: it tries the replicas in turn, follows a redirect, and hands the
  caller of \<open>Send\<close> the value of a response with the number of its request. And what it does not: a
  redirect to a node that it does not know ends it, a redirect of a request passes for an answer, and
  each reconnection leaves one more reader on the connection.
\<close>

section \<open>In turn\<close>

lemma findSomeD: "List.find P xs = Some x \<Longrightarrow> x \<in> set xs \<and> P x"
  by (induction xs) (auto split: if_splits)

lemma findSomeD_upt: "List.find P [m..<n] = Some k \<Longrightarrow> m \<le> k \<and> k < n"
  by (auto dest: findSomeD)

lemma tcpLoop_round_robin:
  assumes "nextNodeToConnectTo c < length (rc_nodes c)"
  shows "tcpLoop n i dial c =
    (case List.find dial [i..<i + n] of
       None \<Rightarrow> Ok (False, c\<lparr>nextNodeToConnectTo := (nextNodeToConnectTo c + n) mod length (rc_nodes c)\<rparr>)
     | Some k \<Rightarrow> Ok (True, c\<lparr>rc_conn := Some (rc_nodes c ! ((nextNodeToConnectTo c + (k - i)) mod length (rc_nodes c))),
         nextNodeToConnectTo := (nextNodeToConnectTo c + (k - i) + 1) mod length (rc_nodes c)\<rparr>))"
  using assms
proof (induction n arbitrary: i c)
  case (Suc n)
  let ?len = "length (rc_nodes c)"
  have idx: "index (rc_nodes c) (int (nextNodeToConnectTo c)) = Ok (rc_nodes c ! nextNodeToConnectTo c)"
    using Suc.prems by (simp add: index_def)
  have range: "[i..<i + Suc n] = i # [Suc i..<Suc i + n]" by (simp add: upt_conv_Cons)
  show ?case
  proof (cases "dial i")
    case True
    then show ?thesis unfolding range using Suc.prems idx by simp
  next
    case False
    have less: "(nextNodeToConnectTo c + 1) mod ?len < ?len" using Suc.prems by (intro mod_less_divisor) linarith
    have later: "k \<ge> Suc i" if "List.find dial [Suc i..<Suc i + n] = Some k" for k
      using that findSomeD_upt [OF that] by simp
    let ?c = "c\<lparr>nextNodeToConnectTo := (nextNodeToConnectTo c + 1) mod ?len\<rparr>"
    note IH = Suc.IH [of ?c "Suc i", simplified, OF less [simplified]]
    show ?thesis
    proof (cases "List.find dial [Suc i..<Suc i + n]")
      case None
      then show ?thesis unfolding range using False idx IH by (simp add: mod_simps)
    next
      case (Some k)
      then obtain d where k: "k = Suc i + d" using later le_iff_add by blast
      have "(Suc (nextNodeToConnectTo c) mod ?len + d) mod ?len = (nextNodeToConnectTo c + Suc d) mod ?len"
        "Suc (Suc (nextNodeToConnectTo c) mod ?len + d) mod ?len = (nextNodeToConnectTo c + Suc d + 1) mod ?len"
        using mod_add_left_eq [of "Suc (nextNodeToConnectTo c)" ?len d]
          mod_add_left_eq [of "Suc (nextNodeToConnectTo c)" ?len "Suc d"] by simp_all
      then show ?thesis unfolding range using False idx IH Some k by simp
    qed
  qed
qed simp

text \<open>
  A client dials the replicas in turn, beginning where it stopped the last time, and is connected to
  the first that answers; when none does in \<open>cycleListMax\<close> rounds, it is where it was.
\<close>

theorem tcpConnect_round_robin:
  assumes "nextNodeToConnectTo c < length (rc_nodes c)"
  shows "tcpConnect cycleListMax dial c =
    (case List.find dial [0..<length (rc_nodes c) * cycleListMax] of
       None \<Rightarrow> Ok (False, c)
     | Some k \<Rightarrow> Ok (True, c\<lparr>rc_conn := Some (rc_nodes c ! ((nextNodeToConnectTo c + k) mod length (rc_nodes c))),
         nextNodeToConnectTo := (nextNodeToConnectTo c + k + 1) mod length (rc_nodes c)\<rparr>))"
  using tcpLoop_round_robin [OF assms, of "length (rc_nodes c) * cycleListMax" 0 dial] assms
  by (auto simp: tcpConnect_def split: option.split)

theorem tcpConnect_round_robin_witness:
  "tcpConnect 2 (\<lambda>k. k = 3) (newReplicaConn [] [''a'', ''b'', ''c'']) =
    Ok (True, (newReplicaConn [] [''a'', ''b'', ''c''])\<lparr>rc_conn := Some ''a'', nextNodeToConnectTo := 1\<rparr>)"
proof -
  let ?c = "newReplicaConn [] [''a'', ''b'', ''c'']"
  have "nextNodeToConnectTo ?c < length (rc_nodes ?c)" by (simp add: newReplicaConn_def)
  moreover have "List.find (\<lambda>k. k = 3) [0..<length (rc_nodes ?c) * 2] = Some 3" by code_simp
  ultimately show ?thesis
    using tcpConnect_round_robin [of ?c 2 "\<lambda>k. k = 3"] by (simp add: newReplicaConn_def)
qed

text \<open>A client that is sent on to a replica it knows dials that replica next.\<close>

lemma addNodeIfMissing_known:
  assumes "a \<in> set ns"
  shows "addNodeIfMissing ns a < length ns \<and> ns ! addNodeIfMissing ns a = a"
proof -
  obtain k where k: "k < length ns" "ns ! k = a" using assms by (auto simp: in_set_conv_nth)
  have "List.find (\<lambda>(i, n). n = a) (enumerate 0 ns) \<noteq> None"
    using k by (auto simp: find_None_iff in_set_enumerate_eq split: prod.splits)
  then obtain i n where p: "List.find (\<lambda>(i, n). n = a) (enumerate 0 ns) = Some (i, n)" by auto
  have "(i, n) \<in> set (enumerate 0 ns) \<and> n = a" using findSomeD [OF p] by auto
  then have "i < length ns \<and> ns ! i = a" by (simp add: in_set_enumerate_eq)
  then show ?thesis using p by (simp add: addNodeIfMissing_def)
qed

lemma redirected_dials_leader:
  assumes "tcpConnect cycleListMax dial c = Ok (True, c')" and "cr_Type r = HELLO_RESP"
    and "cr_ErrorCode r = REDIRECT" and "cr_ErrorDetail r \<in> set (rc_nodes c')" and "dial' 0" and "0 < cycleListMax"
    and "cr_Type r' = HELLO_RESP" and "cr_ErrorCode r' = NONE" and "cr_Protocol r' = MULTIPAXOS"
  shows "\<exists>c''. handshake cycleListMax remoteAddr [(dial, reach, Some r), (dial', reach', Some r')] c = Ok (Serving Single, c'') \<and>
    rc_conn c'' = Some (cr_ErrorDetail r)"
proof -
  let ?c = "c'\<lparr>nextNodeToConnectTo := addNodeIfMissing (rc_nodes c') (cr_ErrorDetail r)\<rparr>"
  have known: "addNodeIfMissing (rc_nodes c') (cr_ErrorDetail r) < length (rc_nodes c')"
    "rc_nodes c' ! addNodeIfMissing (rc_nodes c') (cr_ErrorDetail r) = cr_ErrorDetail r"
    using addNodeIfMissing_known [OF assms(4)] by simp_all
  have "0 < length (rc_nodes c') * cycleListMax" using known(1) assms(6) by auto
  then have "[0..<length (rc_nodes c') * cycleListMax] = 0 # [1..<length (rc_nodes c') * cycleListMax]"
    by (simp add: upt_conv_Cons)
  then have "List.find dial' [0..<length (rc_nodes c') * cycleListMax] = Some 0" using assms(5) by simp
  then have "tcpConnect cycleListMax dial' ?c = Ok (True, ?c\<lparr>rc_conn := Some (cr_ErrorDetail r),
    nextNodeToConnectTo := (nextNodeToConnectTo ?c + 1) mod length (rc_nodes c')\<rparr>)"
    using tcpLoop_round_robin [of ?c "length (rc_nodes c') * cycleListMax" 0 dial'] known
    by (simp add: tcpConnect_def)
  then show ?thesis using assms by (simp add: checkPaxosType_def)
qed

section \<open>Whose reply it is\<close>

definition data_ok :: "ClientResponse set \<Rightarrow> nat \<Rightarrow> sending \<Rightarrow> bool" where
  "data_ok R i sn \<longleftrightarrow> GetSeq (sn_req sn) = of_nat i \<and> length (respChan (sn_info sn)) \<le> 1 \<and>
     (\<forall>d\<in>set (respChan (sn_info sn)) \<union> set (sn_got sn). rd_Err d = None \<longrightarrow>
        (\<exists>r\<in>R. cr_Seq r = of_nat i \<and> cr_Val r = rd_Value d))"

definition rc_ok :: "ClientResponse set \<Rightarrow> ReplicaConn \<Rightarrow> bool" where
  "rc_ok R c \<longleftrightarrow> rc_seq c = of_nat (length (sends c)) \<and>
     (\<forall>k i. lookup (respMap c) k = Some i \<longrightarrow> i < length (sends c) \<and> k = of_nat i) \<and>
     (\<forall>i<length (sends c). data_ok R i (sends c ! i))"

definition same_sends :: "ReplicaConn \<Rightarrow> ReplicaConn \<Rightarrow> bool" where
  "same_sends c c' \<longleftrightarrow> sends c' = sends c \<and> rc_seq c' = rc_seq c \<and> respMap c' = respMap c"

lemma rc_ok_same: "rc_ok R c \<Longrightarrow> same_sends c c' \<Longrightarrow> rc_ok R c'"
  by (simp add: rc_ok_def same_sends_def)

lemma rc_ok_updateSend:
  assumes "rc_ok R c" and "i < length (sends c) \<Longrightarrow> data_ok R i (sends c ! i) \<Longrightarrow> data_ok R i (f (sends c ! i))"
  shows "rc_ok R (updateSend i f c)"
  using assms by (cases "i < length (sends c)") (auto simp: rc_ok_def updateSend_def nth_list_update list_update_beyond)

lemma rc_ok_deleteResp: "rc_ok R c \<Longrightarrow> rc_ok R (deleteResp k c)"
  by (auto simp: rc_ok_def deleteResp_def delete_conv' split: if_splits)

lemma data_ok_setState [simp]: "data_ok R i (setState s sn) = data_ok R i sn"
  by (simp add: data_ok_def setState_def)

lemma data_ok_state [simp]: "data_ok R i (sn\<lparr>sn_state := s, sn_deferred := b\<rparr>) = data_ok R i sn"
  by (simp add: data_ok_def)

lemma data_ok_signals [simp]:
  "data_ok R i (updateInfo (\<lambda>info. info\<lparr>resend := b\<rparr>) sn) = data_ok R i sn"
  "data_ok R i (updateInfo (\<lambda>info. info\<lparr>gotResponse := b\<rparr>) sn) = data_ok R i sn"
  by (simp_all add: data_ok_def updateInfo_def)

lemma data_ok_error: "data_ok R i sn \<Longrightarrow> data_ok R i (updateInfo (offer (error_data e)) sn)"
  by (auto simp: data_ok_def updateInfo_def offer_def error_data_def)

lemma tcpLoop_fields: "tcpLoop n k dial c = Ok (b, c') \<Longrightarrow> same_sends c c'"
proof (induction n arbitrary: k c)
  case (Suc n)
  let ?c = "c\<lparr>nextNodeToConnectTo := (nextNodeToConnectTo c + 1) mod length (rc_nodes c)\<rparr>"
  show ?case
  proof (cases "dial k")
    case True
    then show ?thesis using Suc.prems by (auto simp: bind_result_Inr_iff same_sends_def)
  next
    case False
    then have "tcpLoop n (k + 1) dial ?c = Ok (b, c')" using Suc.prems by (auto simp: bind_result_Inr_iff)
    from Suc.IH [OF this] show ?thesis by (simp add: same_sends_def)
  qed
qed (simp add: same_sends_def)

lemma checkPaxosType_fields: "checkPaxosType ra reach p c = (s, c') \<Longrightarrow> same_sends c c'"
  by (cases p) (auto simp: checkPaxosType_def Let_def same_sends_def)

lemma handshake_fields: "handshake m ra answers c = Ok (h, c') \<Longrightarrow> same_sends c c'"
proof (induction answers arbitrary: c)
  case (Cons a answers)
  obtain dial reach hsResp where a: "a = (dial, reach, hsResp)" by (cases a) auto
  obtain ok c1 where tcp: "tcpConnect m dial c = Ok (ok, c1)"
    using Cons.prems a by (auto simp: bind_result_Inr_iff)
  have same: "same_sends c c1"
    using tcpLoop_fields tcp unfolding tcpConnect_def by blast
  show ?case
  proof (cases "ok \<and> (\<exists>r. hsResp = Some r \<and> cr_Type r = HELLO_RESP)")
    case True
    then obtain r where r: "ok" "hsResp = Some r" "cr_Type r = HELLO_RESP" by blast
    show ?thesis
    proof (cases "cr_ErrorCode r")
      case NONE
      obtain s c2 where "checkPaxosType ra reach (cr_Protocol r) c1 = (s, c2)" by fastforce
      then show ?thesis using Cons.prems a tcp r NONE same checkPaxosType_fields
        by (cases s) (auto simp: same_sends_def)
    next
      case REDIRECT
      have "handshake m ra answers (c1\<lparr>nextNodeToConnectTo := addNodeIfMissing (rc_nodes c1) (cr_ErrorDetail r)\<rparr>) = Ok (h, c')"
        using Cons.prems a tcp r REDIRECT by simp
      from Cons.IH [OF this] show ?thesis using same by (simp add: same_sends_def)
    qed (use Cons.prems a tcp r same in simp_all)
  next
    case False
    then show ?thesis using Cons.prems a tcp same by (cases hsResp) (auto split: if_splits)
  qed
qed (simp add: same_sends_def)

lemma reconnect_fields:
  assumes "reconnect m ra answers c = Ok (b, c')"
  shows "same_sends c c'"
proof (cases "reconnecting c")
  case False
  then obtain h c1 where h: "handshake m ra answers c = Ok (h, c1)"
    using assms by (auto simp: reconnect_def bind_result_Inr_iff)
  with False assms have "c' = c1 \<or> c' = c1\<lparr>reconnecting := True\<rparr>" by (cases h) (auto simp: reconnect_def)
  then show ?thesis using handshake_fields [OF h] by (auto simp: same_sends_def)
qed (use assms in \<open>auto simp: reconnect_def same_sends_def\<close>)

lemma rc_ok_returnSend: "rc_ok R c \<Longrightarrow> rc_ok R (returnSend i c)"
  by (auto simp: returnSend_def Let_def intro!: rc_ok_deleteResp rc_ok_updateSend)

lemma rc_ok_trySend:
  assumes ok: "rc_ok R c" and t: "trySend m ra e i c = Ok c'"
  shows "rc_ok R c'"
proof -
  have sent: "rc_ok R (c\<lparr>reqSent := k\<rparr>)" for k using rc_ok_same [OF ok] by (simp add: same_sends_def)
  have start: "rc_ok R (updateSend i (setState st) c)" for st using ok by (auto intro: rc_ok_updateSend)
  show ?thesis
  proof (cases "sn_state (sends c ! i)")
    case Sleeping
    show ?thesis
    proof (cases "\<exists>answers. e = SReconnect answers")
      case True
      then obtain answers res c1 st where "reconnect m ra answers c = Ok (res, c1)" "c' = updateSend i (setState st) c1"
        using t Sleeping by (auto simp: trySend_def bind_result_Inr_iff)
      then show ?thesis using rc_ok_same [OF ok reconnect_fields] by (auto intro: rc_ok_updateSend)
    next
      case False
      then show ?thesis using t ok Sleeping by (cases e) (auto simp: trySend_def)
    qed
  next
    case Signalling
    then show ?thesis using t ok sent by (cases e) (auto simp: trySend_def intro!: rc_ok_updateSend split: if_splits)
  next
    case Awaiting
    then show ?thesis using t ok start
      by (cases e) (auto simp: trySend_def intro!: rc_ok_updateSend rc_ok_returnSend split: if_splits)
  next
    case (Reporting msg)
    then show ?thesis using t ok
      by (cases e) (auto simp: trySend_def intro!: rc_ok_returnSend rc_ok_updateSend data_ok_error split: if_splits)
  qed (use t ok start in \<open>cases e; auto simp: trySend_def split: if_splits\<close>)+
qed

lemma rc_ok_triggerResends:
  assumes "rc_ok R c"
  shows "rc_ok R (triggerResends c)"
proof -
  have "rc_ok R (fold (\<lambda>(k, i). updateSend i (updateInfo (\<lambda>info. info\<lparr>resend := True\<rparr>))) m c)" for m
    using assms
  proof (induction m arbitrary: c)
    case (Cons x m)
    obtain k i where x: "x = (k, i)" by (cases x)
    have "rc_ok R (updateSend i (updateInfo (\<lambda>info. info\<lparr>resend := True\<rparr>)) c)"
      using Cons.prems by (rule rc_ok_updateSend) simp
    from Cons.IH [OF this] show ?case by (simp add: x)
  qed simp
  then show ?thesis by (simp add: triggerResends_def)
qed

lemma rc_ok_reportAll: "rc_ok R c \<Longrightarrow> reportAll err m c = (b, c') \<Longrightarrow> rc_ok R c'"
  by (induction err m c rule: reportAll.induct)
    (auto intro!: rc_ok_updateSend data_ok_error split: if_splits)

lemma rc_ok_deliverReply:
  assumes "rc_ok R c" and "r \<in> R"
  shows "rc_ok R (deliverReply r c)"
proof (cases "lookup (respMap c) (cr_Seq r)")
  case (Some i)
  then have "cr_Seq r = of_nat i" using assms(1) by (auto simp: rc_ok_def)
  with assms(2) have "data_ok R i sn \<Longrightarrow>
      data_ok R i (updateInfo (\<lambda>info. offer (reply_data (cr_Val r)) (info\<lparr>gotResponse := True\<rparr>)) sn)" for sn
    by (auto simp: data_ok_def updateInfo_def offer_def reply_data_def)
  then show ?thesis using Some assms(1) by (auto simp: deliverReply_def intro: rc_ok_updateSend)
qed (use assms in \<open>simp add: deliverReply_def\<close>)

lemma rc_ok_setReceiver: "rc_ok R (setReceiver j s c) = rc_ok R c"
  by (simp add: rc_ok_def setReceiver_def)

lemma rc_ok_tryReceive:
  assumes "rc_ok R c" and "\<And>r. e = RRead (Some r) \<Longrightarrow> r \<in> R" and "tryReceive m ra e j c = Ok c'"
  shows "rc_ok R c'"
proof (cases "\<exists>answers. e = RReconnect answers \<and> receivers c ! j = RSleeping")
  case True
  then obtain answers res c1 where e: "e = RReconnect answers" "receivers c ! j = RSleeping"
    and rec: "reconnect m ra answers c = Ok (res, c1)"
    using assms(3) by (auto simp: tryReceive_def bind_result_Inr_iff)
  have ok: "rc_ok R c1" using rc_ok_same [OF assms(1) reconnect_fields [OF rec]] .
  obtain b c2 where rep: "reportAll ''cannot contact any node in cluster'' (respMap c1) c1 = (b, c2)" by fastforce
  show ?thesis
    using assms(3) e rec ok rc_ok_reportAll [OF ok rep] rep
    by (auto simp: tryReceive_def rc_ok_setReceiver split: option.splits bool.splits intro!: rc_ok_triggerResends)
next
  case False
  then show ?thesis using assms rc_ok_same [OF assms(1), of "c\<lparr>reqSent := reqSent c - 1\<rparr>"]
    by (cases e; cases "receivers c ! j")
      (auto simp: tryReceive_def rc_ok_setReceiver same_sends_def split: option.splits if_splits intro!: rc_ok_deliverReply)
qed

lemma rc_ok_Send: "rc_ok R c \<Longrightarrow> rc_ok R (Send v c)"
  by (auto simp: rc_ok_def Send_def genReq_def newSending_def newResponseInfo_def data_ok_def GetSeq_def nth_append
    less_Suc_eq)

lemma rc_ok_step:
  assumes "rc_ok R c" and "\<And>j r. e = RCReceiver j (RRead (Some r)) \<Longrightarrow> r \<in> R" and "conn_step m ra e c = Ok c'"
  shows "rc_ok R c'"
proof (cases e)
  case (RCCaller i)
  have "data_ok R i sn \<Longrightarrow> data_ok R i ((updateInfo (\<lambda>info. info\<lparr>respChan := []\<rparr>) sn)\<lparr>sn_got := sn_got sn @ respChan (sn_info sn)\<rparr>)" for sn
    by (auto simp: data_ok_def updateInfo_def)
  then show ?thesis using RCCaller assms by (auto simp: takeReply_def intro!: rc_ok_updateSend split: if_splits)
qed (use assms in \<open>auto intro: rc_ok_Send rc_ok_trySend rc_ok_tryReceive split: if_splits\<close>)

lemma rc_ok_run:
  assumes "rc_ok R c" and "\<And>j r. RCReceiver j (RRead (Some r)) \<in> set es \<Longrightarrow> r \<in> R" and "conn_run m ra es c = Ok c'"
  shows "rc_ok R c'"
  using assms
proof (induction es arbitrary: c)
  case (Cons e es)
  then obtain c1 where "conn_step m ra e c = Ok c1" "conn_run m ra es c1 = Ok c'" by (auto simp: bind_result_Inr_iff)
  moreover from this(1) have "rc_ok R c1" by (rule rc_ok_step [OF Cons.prems(1), rotated]) (use Cons.prems(2) in auto)
  ultimately show ?case using Cons.IH [of c1] Cons.prems(2) by auto
qed simp

text \<open>
  C36. What the caller of the n-th \<open>Send\<close> is given is an error, or the value of a response that was read and
  carries the number n, however often connections are lost, requests resent and replies delayed.
\<close>

theorem caller_gets_its_reply:
  assumes "Dial m ra answers i ns = Ok (Serving s, c)" and "conn_run m ra es c = Ok c'" and "n < length (sends c')"
  shows "\<forall>d\<in>set (sn_got (sends c' ! n)). rd_Err d = None \<longrightarrow>
    (\<exists>j r. RCReceiver j (RRead (Some r)) \<in> set es \<and> cr_Seq r = of_nat n \<and> cr_Val r = rd_Value d)"
proof -
  let ?R = "{r. \<exists>j. RCReceiver j (RRead (Some r)) \<in> set es}"
  have "rc_ok ?R c"
    using handshake_fields [OF assms(1) [unfolded Dial_def]] by (simp add: rc_ok_def newReplicaConn_def same_sends_def)
  then have "rc_ok ?R c'" by (rule rc_ok_run [OF _ _ assms(2)]) auto
  then have "data_ok ?R n (sends c' ! n)" using assms(3) by (simp add: rc_ok_def)
  then show ?thesis unfolding data_ok_def by blast
qed

definition hello :: ClientResponse where
  "hello = (genResp HELLO_RESP [])\<lparr>cr_Protocol := MULTIPAXOS\<rparr>"

definition response :: "32 word \<Rightarrow> bytes \<Rightarrow> ClientResponse" where
  "response n v = (genResp EXEC_RESP v)\<lparr>cr_Seq := n\<rparr>"

text \<open>Two requests; the answer to the first is lost with the connection, and comes after that to the second.\<close>

definition losing :: "conn_event list" where
  "losing =
     [RCSend [1], RCSend [2], RCSender 1 (SWrite True), RCSender 1 SSignal, RCSender 0 (SWrite True), RCSender 0 SSignal,
      RCReceiver 0 RTake, RCReceiver 0 (RRead None), RCReceiver 0 (RReconnect [(\<lambda>_. True, \<lambda>_. True, Some hello)]),
      RCSender 0 SResend, RCSender 0 (SWrite True), RCSender 0 SSignal,
      RCReceiver 1 RTake, RCReceiver 1 (RRead (Some (response 1 [12]))),
      RCReceiver 0 RTake, RCReceiver 0 (RRead (Some (response 0 [11]))), RCCaller 0, RCCaller 1]"

definition dialled :: ReplicaConn where
  "dialled = (case Dial 1 (\<lambda>a. a) [(\<lambda>_. True, \<lambda>_. True, Some hello)] ''me'' [''a:2'', ''b:2''] of Inr (s, c) \<Rightarrow> c)"

definition afterLosing :: ReplicaConn where
  "afterLosing = (case conn_run 1 (\<lambda>a. a) losing dialled of Inr c \<Rightarrow> c)"

lemma afterLosing_got: "map sn_got (sends afterLosing) = [[reply_data [11]], [reply_data [12]]] \<and> rc_conn afterLosing = Some ''b:2''"
  by code_simp

lemma losing_runs:
  "Dial 1 (\<lambda>a. a) [(\<lambda>_. True, \<lambda>_. True, Some hello)] ''me'' [''a:2'', ''b:2''] = Ok (Serving Single, dialled)"
  "conn_run 1 (\<lambda>a. a) losing dialled = Ok afterLosing"
proof -
  have "(case Dial 1 (\<lambda>a. a) [(\<lambda>_. True, \<lambda>_. True, Some hello)] ''me'' [''a:2'', ''b:2''] of
      Inr (Serving Single, c) \<Rightarrow> True | _ \<Rightarrow> False)"
    by code_simp
  then show "Dial 1 (\<lambda>a. a) [(\<lambda>_. True, \<lambda>_. True, Some hello)] ''me'' [''a:2'', ''b:2''] = Ok (Serving Single, dialled)"
    by (auto simp: dialled_def split: sum.splits handshake_result.splits service.splits) (metis service.exhaust)
  have "(case conn_run 1 (\<lambda>a. a) losing dialled of Inr c \<Rightarrow> True | _ \<Rightarrow> False)" by code_simp
  then show "conn_run 1 (\<lambda>a. a) losing dialled = Ok afterLosing"
    by (auto simp: afterLosing_def split: sum.splits)
qed

theorem caller_gets_its_reply_witness:
  "reply_data [12] \<in> set (sn_got (sends afterLosing ! 1)) \<and>
    (\<exists>j r. RCReceiver j (RRead (Some r)) \<in> set losing \<and> cr_Seq r = 1 \<and> cr_Val r = [12])"
proof -
  have got: "sn_got (sends afterLosing ! 1) = [reply_data [12]]" "1 < length (sends afterLosing)"
    using afterLosing_got by (auto simp: map_eq_Cons_conv)
  have "reply_data [12] \<in> set (sn_got (sends afterLosing ! 1))" by (simp only: got) simp
  with caller_gets_its_reply [OF losing_runs got(2)] show ?thesis by (fastforce simp: reply_data_def)
qed

section \<open>What goes wrong\<close>

text \<open>
  A redirect to a node that is not in the list gives an index one past it: the next dial panics. The
  redirect of a request carries no number and no value: it passes for an empty answer to the first one.
\<close>

lemma redirect_to_unknown_panics:
  "handshake 1 (\<lambda>a. a) [(\<lambda>_. True, \<lambda>_. True, Some (genErrResp HELLO_RESP REDIRECT ''c:2'')), (\<lambda>_. True, \<lambda>_. True, None)]
     (newReplicaConn [] [''a:2'', ''b:2'']) = Fault IndexOutOfRange"
  by code_simp

lemma redirect_answers_first_request:
  "map (respChan \<circ> sn_info) (sends (deliverReply (genErrResp EXEC_RESP REDIRECT ''b:2'') (Send [1] (newReplicaConn [] [''a:2''])))) =
    [[reply_data []]]"
  by code_simp

text \<open>A reconnection starts a reader, though the one that asks for it goes on: two now read one connection.\<close>

lemma reconnect_adds_receiver: "receivers dialled = [Idle] \<and> receivers afterLosing = [Idle, Idle]"
  by code_simp

text \<open>A request that never reached a replica stays in the map when its goroutine gives up.\<close>

lemma unsent_request_stays:
  "case conn_run 1 (\<lambda>a. a) [RCSend [1], RCSender 0 (SWrite False), RCSender 0 (SReconnect [(\<lambda>_. False, \<lambda>_. True, None)]),
      RCSender 0 SReport] dialled of
    Inr c \<Rightarrow> map sn_state (sends c) = [Returned] \<and> map (respChan \<circ> sn_info) (sends c) = [[error_data ''cannot contact any node in cluster'']] \<and>
      respMap c = [(0, 0)] | _ \<Rightarrow> False"
  by code_simp

end
