(* ===== verification/ClientAll.thy ===== *)
theory ClientAll
  imports ClientConns
begin

text \<open>
  The connections to all replicas at once (\<open>src/client/batchconnection.go\<close>, \<open>fastconnection.go\<close>), which share
  the state of the first, and the connection manager (\<open>connmanager.go\<close>), which nothing uses yet. A replica
  is its place in the list of connections. What is written to them is the list of pairs of a replica and
  a request.
\<close>

section \<open>All replicas\<close>

text \<open>
  The worker of a replica reads, waits for room in the channel of a request, or has returned. A sender is
  in its loop or has left it; \<open>as_tries\<close> counts its turns, and once \<open>as_failed\<close> it has an error to report.
\<close>

datatype worker = WReading | WBlocked nat ResponseData | WReturned

record all_sending =
  as_req :: Request
  as_respChan :: "ResponseData list"
  as_tries :: nat
  as_running :: bool
  as_failed :: bool

record BatchConnection =
  bc_id :: string
  replicaConnections :: "string list"
  bc_seq :: "32 word"
  bc_respMap :: "32 word \<rightharpoonup> nat"
  writeLock :: "unit option"
  bc_sends :: "all_sending list"
  bc_workers :: "worker list"
  bc_written :: "(nat \<times> Request) list"

record FastConnection = BatchConnection +
  receivedFrom :: "32 word \<rightharpoonup> nat list"

definition NewBatchConn :: "string \<Rightarrow> string list \<Rightarrow> BatchConnection" where
  "NewBatchConn i connections = \<lparr>bc_id = i, replicaConnections = connections, bc_seq = 0, bc_respMap = (\<lambda>_. None),
     writeLock = Some (), bc_sends = [], bc_workers = replicate (length connections) WReading, bc_written = []\<rparr>"

text \<open>The lock is left out of the literal, so the pointer to it is nil.\<close>

definition NewFastConn :: "string \<Rightarrow> string list \<Rightarrow> FastConnection" where
  "NewFastConn i connections = \<lparr>bc_id = i, replicaConnections = connections, bc_seq = 0, bc_respMap = (\<lambda>_. None),
     writeLock = None, bc_sends = [], bc_workers = replicate (length connections) WReading, bc_written = [],
     receivedFrom = (\<lambda>_. None)\<rparr>"

definition all_genReq :: "bytes \<Rightarrow> 'a BatchConnection_scheme \<Rightarrow> Request \<times> 'a BatchConnection_scheme" where
  "all_genReq val c =
     (\<lparr>req_Type = Some Request_EXEC, req_Id = Some (bc_id c), req_Seq = Some (bc_seq c), req_Val = val\<rparr>,
      c\<lparr>bc_seq := bc_seq c + 1\<rparr>)"

definition all_Send :: "bytes \<Rightarrow> 'a BatchConnection_scheme \<Rightarrow> 'a BatchConnection_scheme" where
  "all_Send request c =
     (let (req, c) = all_genReq request c
      in c\<lparr>bc_respMap := (bc_respMap c)(GetSeq req \<mapsto> length (bc_sends c)),
          bc_sends := bc_sends c @ [\<lparr>as_req = req, as_respChan = [], as_tries = 0, as_running = True, as_failed = False\<rparr>]\<rparr>)"

text \<open>\<open>writeOk\<close> says which writes succeed; the result says whether all did.\<close>

fun writeLoop :: "(nat \<Rightarrow> bool) \<Rightarrow> Request \<Rightarrow> nat list \<Rightarrow> 'a BatchConnection_scheme \<Rightarrow> bool \<times> 'a BatchConnection_scheme" where
  "writeLoop writeOk req [] c = (True, c)"
| "writeLoop writeOk req (k # ks) c =
     (if writeOk k then writeLoop writeOk req ks (c\<lparr>bc_written := bc_written c @ [(k, req)]\<rparr>) else (False, c))"

definition writeToAllReplicas ::
  "(nat \<Rightarrow> bool) \<Rightarrow> Request \<Rightarrow> 'a BatchConnection_scheme \<Rightarrow> (bool \<times> 'a BatchConnection_scheme) result" where
  "writeToAllReplicas writeOk req c =
     (case writeLock c of
        None \<Rightarrow> Fault NilDereference
      | Some _ \<Rightarrow> Ok (writeLoop writeOk req [0..<length (replicaConnections c)] c))"

definition updateAll :: "nat \<Rightarrow> (all_sending \<Rightarrow> all_sending) \<Rightarrow> 'a BatchConnection_scheme \<Rightarrow> 'a BatchConnection_scheme" where
  "updateAll i f c = c\<lparr>bc_sends := (bc_sends c)[i := f (bc_sends c ! i)]\<rparr>"

text \<open>One turn of the loop of \<open>trySend\<close>, for a batch connection and for a fast one.\<close>

definition batch_trySend :: "(nat \<Rightarrow> bool) \<Rightarrow> nat \<Rightarrow> BatchConnection \<Rightarrow> BatchConnection result" where
  "batch_trySend writeOk i c =
     (if \<not> as_running (bc_sends c ! i) then Ok c
      else bind_result (writeToAllReplicas writeOk (as_req (bc_sends c ! i)) c) (\<lambda>(ok, c).
        Ok (updateAll i (\<lambda>as. as\<lparr>as_tries := as_tries as + 1, as_running := ok\<rparr>) c)))"

definition maxRetries :: nat where
  "maxRetries = 30"

definition reportError :: "nat \<Rightarrow> FastConnection \<Rightarrow> FastConnection" where
  "reportError i c =
     (if as_respChan (bc_sends c ! i) = [] then
        updateAll i (\<lambda>as. as\<lparr>as_respChan := [\<lparr>rd_Value = GetVal (as_req as), rd_Err = Some ''write''\<rparr>],
          as_running := False\<rparr>) c
      else c)"

definition fast_trySend :: "(nat \<Rightarrow> bool) \<Rightarrow> nat \<Rightarrow> FastConnection \<Rightarrow> FastConnection result" where
  "fast_trySend writeOk i c =
     (if \<not> as_running (bc_sends c ! i) then Ok c
      else if as_failed (bc_sends c ! i) then Ok (reportError i c)
      else if as_tries (bc_sends c ! i) \<ge> maxRetries then Ok (updateAll i (\<lambda>as. as\<lparr>as_running := False\<rparr>) c)
      else bind_result (writeToAllReplicas writeOk (as_req (bc_sends c ! i)) c) (\<lambda>(ok, c).
        Ok (updateAll i (\<lambda>as. as\<lparr>as_tries := as_tries as + 1, as_failed := \<not> ok\<rparr>) c)))"

definition setWorker :: "nat \<Rightarrow> worker \<Rightarrow> 'a BatchConnection_scheme \<Rightarrow> 'a BatchConnection_scheme" where
  "setWorker j w c = c\<lparr>bc_workers := (bc_workers c)[j := w]\<rparr>"

text \<open>\<open>respInfo.respChan <- resp\<close>: the channel holds one value, and the worker waits for room.\<close>

definition writeChan :: "nat \<Rightarrow> nat \<Rightarrow> ResponseData \<Rightarrow> 'a BatchConnection_scheme \<Rightarrow> 'a BatchConnection_scheme" where
  "writeChan j i d c =
     (if as_respChan (bc_sends c ! i) = []
      then setWorker j WReading (updateAll i (\<lambda>as. as\<lparr>as_respChan := [d]\<rparr>) c)
      else setWorker j (WBlocked i d) c)"

definition forwardResponse :: "nat \<Rightarrow> ClientResponse \<Rightarrow> 'a BatchConnection_scheme \<Rightarrow> 'a BatchConnection_scheme" where
  "forwardResponse j response c =
     (case bc_respMap c (cr_Seq response) of
        None \<Rightarrow> setWorker j WReturned c
      | Some i \<Rightarrow> writeChan j i (reply_data (cr_Val response)) c)"

text \<open>One turn of a worker: \<open>response\<close> is what was read, \<open>None\<close> an error or a time-out.\<close>

definition batch_worker :: "nat \<Rightarrow> ClientResponse option \<Rightarrow> BatchConnection \<Rightarrow> BatchConnection" where
  "batch_worker j response c =
     (case bc_workers c ! j of
        WReturned \<Rightarrow> c
      | WBlocked i d \<Rightarrow> writeChan j i d c
      | WReading \<Rightarrow>
          (case response of
             None \<Rightarrow> c
           | Some r \<Rightarrow> if HasError r then c else forwardResponse j r c))"

definition fast_worker :: "nat \<Rightarrow> ClientResponse option \<Rightarrow> FastConnection \<Rightarrow> FastConnection" where
  "fast_worker j response c =
     (case bc_workers c ! j of
        WReturned \<Rightarrow> c
      | WBlocked i d \<Rightarrow> writeChan j i d c
      | WReading \<Rightarrow>
          (case response of
             None \<Rightarrow> c
           | Some r \<Rightarrow>
               if HasError r then c
               else let from = (case receivedFrom c (cr_Seq r) of None \<Rightarrow> [] | Some js \<Rightarrow> js) @ [j];
                        c = c\<lparr>receivedFrom := (receivedFrom c)(cr_Seq r \<mapsto> from)\<rparr>
                    in if length from \<noteq> length (replicaConnections c) then c else forwardResponse j r c))"

definition callerTakes :: "nat \<Rightarrow> 'a BatchConnection_scheme \<Rightarrow> 'a BatchConnection_scheme" where
  "callerTakes i c = updateAll i (\<lambda>as. as\<lparr>as_respChan := []\<rparr>) c"

section \<open>The connection manager\<close>

text \<open>
  \<open>members\<close> is the Go map from the address of a member to its connection, \<open>None\<close> for nil; \<open>hash\<close> is the hash
  function. Connections are named by their addresses.
\<close>

record connManager =
  membID :: bytes
  members :: "(string, string option) gomap"
  activeConn :: string

definition MembID :: "(bytes \<Rightarrow> bytes) \<Rightarrow> string list \<Rightarrow> bytes" where
  "MembID hash ms = hash (map of_char (concat ms))"

definition MembIDEqual :: "bytes \<Rightarrow> bytes \<Rightarrow> bool" where
  "MembIDEqual a b \<longleftrightarrow> a = b"

definition nilConnections :: "string list \<Rightarrow> (string, string option) gomap" where
  "nilConnections ms = fold (\<lambda>member. put member None) ms []"

definition newConnManager :: "(bytes \<Rightarrow> bytes) \<Rightarrow> string list \<Rightarrow> connManager" where
  "newConnManager hash ms = \<lparr>membID = MembID hash ms, members = nilConnections ms, activeConn = []\<rparr>"

definition Members :: "connManager \<Rightarrow> string list" where
  "Members cm = map fst (members cm)"

definition Size :: "connManager \<Rightarrow> nat" where
  "Size cm = length (members cm)"

text \<open>\<open>dial i m\<close>: whether member \<open>m\<close> answers in round \<open>i\<close>. The map is iterated in the order it has.\<close>

fun connectRounds :: "nat \<Rightarrow> nat \<Rightarrow> (nat \<Rightarrow> string \<Rightarrow> bool) \<Rightarrow> connManager \<Rightarrow> bool \<times> connManager" where
  "connectRounds 0 i dial cm = (False, cm)"
| "connectRounds (Suc n) i dial cm =
     (case List.find (dial i) (Members cm) of
        Some member \<Rightarrow> (True, cm\<lparr>members := put member (Some member) (members cm), activeConn := member\<rparr>)
      | None \<Rightarrow> connectRounds n (i + 1) dial cm)"

definition cm_connect :: "nat \<Rightarrow> (nat \<Rightarrow> string \<Rightarrow> bool) \<Rightarrow> connManager \<Rightarrow> bool \<times> connManager" where
  "cm_connect cycleListMax dial cm = connectRounds cycleListMax 0 dial cm"

definition cm_update :: "(bytes \<Rightarrow> bytes) \<Rightarrow> nat \<Rightarrow> (nat \<Rightarrow> string \<Rightarrow> bool) \<Rightarrow> string list \<Rightarrow> connManager \<Rightarrow> connManager" where
  "cm_update hash cycleListMax dial ms cm =
     (let newMembers = nilConnections ms;
          foundActive = (lookup newMembers (activeConn cm) \<noteq> None);
          newMembers = (if foundActive then put (activeConn cm) (at0 None (members cm) (activeConn cm)) newMembers
                        else newMembers);
          cm = cm\<lparr>members := newMembers, membID := MembID hash ms\<rparr>
      in if foundActive then cm else snd (cm_connect cycleListMax dial cm))"

end
