(* ===== verification/ClientAllRuns.thy ===== *)
theory ClientAllRuns
  imports ClientAll
begin

text \<open>
  A client of a fast protocol cannot send at all. One of a batching protocol resends for ever, and its
  readers stop one after the other. The connection manager, as long as a member answers, has a connection
  to a member.
\<close>

section \<open>Fast connections\<close>

text \<open>The lock that every write takes is a nil pointer, so the first request stops the client's process.\<close>

lemma fast_never_sends:
  "fast_trySend writeOk 0 (all_Send request (NewFastConn i connections)) = Fault NilDereference"
  by (simp add: fast_trySend_def all_Send_def all_genReq_def NewFastConn_def writeToAllReplicas_def maxRetries_def)

definition fastReply :: "bytes \<Rightarrow> ClientResponse" where
  "fastReply v = (genResp EXEC_RESP v)\<lparr>cr_Seq := 0\<rparr>"

text \<open>
  If it could send, a value would be passed on with the last of as many responses as there are replicas:
  not as many replicas, and not the same value.
\<close>

lemma fast_counts_responses:
  "map as_respChan (bc_sends (fast_worker 0 (Some (fastReply [3])) (fast_worker 0 (Some (fastReply [2]))
     (fast_worker 0 (Some (fastReply [1])) (all_Send [7] (NewFastConn ''me'' [''a'', ''b'', ''c''])))))) = [[reply_data [3]]]"
  by code_simp

lemma fast_waits_for_all:
  assumes "bc_workers c ! j = WReading" and "length (case receivedFrom c (cr_Seq r) of None \<Rightarrow> [] | Some js \<Rightarrow> js) + 1 < length (replicaConnections c)"
  shows "bc_sends (fast_worker j (Some r) c) = bc_sends c"
  using assms by (auto simp: fast_worker_def Let_def split: option.splits)

section \<open>Batch connections\<close>

lemma writeLoop_all:
  assumes "\<forall>k\<in>set ks. writeOk k"
  shows "writeLoop writeOk req ks c = (True, c\<lparr>bc_written := bc_written c @ map (\<lambda>k. (k, req)) ks\<rparr>)"
  using assms by (induction ks arbitrary: c) simp_all

text \<open>As long as writes succeed, a request is written to all replicas in every turn: nothing ends the loop.\<close>

lemma batch_resends:
  assumes "\<And>k. writeOk k" and "writeLock c = Some ()" and "i < length (bc_sends c)" and "as_running (bc_sends c ! i)"
  shows "\<exists>c'. batch_trySend writeOk i c = Ok c' \<and> as_running (bc_sends c' ! i) \<and> writeLock c' = Some () \<and>
    length (bc_sends c') = length (bc_sends c) \<and>
    bc_written c' = bc_written c @ map (\<lambda>k. (k, as_req (bc_sends c ! i))) [0..<length (replicaConnections c)]"
  using assms
  by (simp add: batch_trySend_def writeToAllReplicas_def writeLoop_all updateAll_def)

text \<open>Of three replicas that answer, the worker of the third waits for ever when the caller takes one reply.\<close>

lemma batch_worker_blocks:
  "bc_workers (batch_worker 2 (Some (fastReply [1])) (batch_worker 1 (Some (fastReply [1])) (callerTakes 0
     (batch_worker 0 (Some (fastReply [1])) (all_Send [7] (NewBatchConn ''me'' [''a'', ''b'', ''c''])))))) =
    [WReading, WReading, WBlocked 0 (reply_data [1])]"
  by code_simp

section \<open>The connection manager\<close>

lemma nilConnections_lookup: "lookup (nilConnections ms) = (\<lambda>m. if m \<in> set ms then Some None else None)"
proof -
  have "lookup (fold (\<lambda>member. put member None) ms acc) =
      (\<lambda>m. if m \<in> set ms then Some None else lookup acc m)" for acc :: "(string, string option) gomap"
    by (induction ms arbitrary: acc) (auto simp: fun_eq_iff)
  from this [of "[]"] show ?thesis unfolding nilConnections_def by (auto simp: fun_eq_iff)
qed

definition cm_active :: "connManager \<Rightarrow> bool" where
  "cm_active cm \<longleftrightarrow> lookup (members cm) (activeConn cm) = Some (Some (activeConn cm))"

lemma connectRounds_active:
  assumes "connectRounds n i dial cm = (b, cm')"
  shows "(b \<longrightarrow> cm_active cm') \<and> dom (lookup (members cm')) = dom (lookup (members cm)) \<and> (\<not> b \<longrightarrow> cm' = cm) \<and>
    membID cm' = membID cm"
  using assms
proof (induction n arbitrary: i)
  case (Suc n)
  show ?case
  proof (cases "List.find (dial i) (Members cm)")
    case None
    then have "connectRounds n (i + 1) dial cm = (b, cm')" using Suc.prems by simp
    then show ?thesis by (rule Suc.IH)
  next
    case (Some member)
    then have "member \<in> set (Members cm)" by (auto simp: find_Some_iff)
    then have "member \<in> dom (lookup (members cm))" by (simp add: Members_def dom_map_of_conv_image_fst)
    then have "dom (lookup (put member (Some member) (members cm))) = dom (lookup (members cm))"
      by (simp only: lookup_put dom_fun_upd insert_absorb) simp
    moreover have "b" and "cm' = cm\<lparr>members := put member (Some member) (members cm), activeConn := member\<rparr>"
      using Some Suc.prems by simp_all
    ultimately show ?thesis by (simp add: cm_active_def del: dom_fun_upd fun_upd_apply) simp
  qed
qed auto

text \<open>
  After an update the members are those given, and the connection in use, if there was one, is still in
  use or is to one of them, unless no member answered.
\<close>

lemma cm_update_correct:
  assumes "cm_active cm"
  shows "dom (lookup (members (cm_update hash m dial ms cm))) = set ms"
    and "membID (cm_update hash m dial ms cm) = MembID hash ms"
    and "activeConn cm \<in> set ms \<Longrightarrow> cm_active (cm_update hash m dial ms cm) \<and> activeConn (cm_update hash m dial ms cm) = activeConn cm"
    and "0 < m \<Longrightarrow> \<exists>member\<in>set ms. dial 0 member \<Longrightarrow> cm_active (cm_update hash m dial ms cm)"
proof -
  define cm1 where "cm1 = cm\<lparr>members := nilConnections ms, membID := MembID hash ms\<rparr>"
  obtain b cm2 where con: "cm_connect m dial cm1 = (b, cm2)" by fastforce
  note after = connectRounds_active [OF con [unfolded cm_connect_def]]
  have lost: "cm_update hash m dial ms cm = cm2" if "activeConn cm \<notin> set ms"
    using that con by (simp add: cm_update_def Let_def nilConnections_lookup cm1_def)
  have kept: "cm_update hash m dial ms cm = cm1\<lparr>members := put (activeConn cm) (Some (activeConn cm)) (nilConnections ms)\<rparr>"
    if "activeConn cm \<in> set ms"
    using that assms by (simp add: cm_update_def Let_def nilConnections_lookup cm1_def cm_active_def at0_def)
  have dom: "dom (lookup (nilConnections ms)) = set ms"
    by (auto simp: nilConnections_lookup split: if_splits)
  show "dom (lookup (members (cm_update hash m dial ms cm))) = set ms"
    using after lost kept dom by (cases "activeConn cm \<in> set ms") (auto simp: cm1_def)
  show "membID (cm_update hash m dial ms cm) = MembID hash ms"
    using after lost kept by (cases "activeConn cm \<in> set ms") (auto simp: cm1_def)
  show keep: "activeConn cm \<in> set ms \<Longrightarrow> cm_active (cm_update hash m dial ms cm) \<and> activeConn (cm_update hash m dial ms cm) = activeConn cm"
    using kept by (auto simp: cm_active_def cm1_def)
  show "0 < m \<Longrightarrow> \<exists>member\<in>set ms. dial 0 member \<Longrightarrow> cm_active (cm_update hash m dial ms cm)"
  proof (cases "activeConn cm \<in> set ms")
    case False
    assume "0 < m" and "\<exists>member\<in>set ms. dial 0 member"
    moreover have "set (Members cm1) = set ms" using dom by (simp add: Members_def cm1_def dom_map_of_conv_image_fst)
    ultimately have "List.find (dial 0) (Members cm1) \<noteq> None" and "0 < m" by (auto simp: find_None_iff)
    then have "b" using con by (cases m) (auto simp: cm_connect_def)
    then show ?thesis using after lost [OF False] by simp
  qed (use keep in blast)
qed

text \<open>
  When none answers, the manager still names the connection that it dropped. The identifier of a
  membership depends on the order of the members, and does not tell where one name ends.
\<close>

lemma update_keeps_stale:
  "activeConn (cm_update (\<lambda>b. b) 2 (\<lambda>_ _. False) [''b''] (cm_update (\<lambda>b. b) 2 (\<lambda>_ _. True) [''a''] (newConnManager (\<lambda>b. b) []))) = ''a''"
  by code_simp

lemma MembID_order: "MembID (\<lambda>b. b) [''a'', ''b''] \<noteq> MembID (\<lambda>b. b) [''b'', ''a'']"
  by (simp add: MembID_def)

lemma MembID_collides: "MembID hash [''a:1'', ''1b:1''] = MembID hash [''a:11'', ''b:1'']"
  by (simp add: MembID_def)

end
