(* ===== verification/GrpHold.thy ===== *)
theory GrpHold
  imports Prelude
begin

text \<open>
  How the group manager stops the modules of a replica while the node map changes (\<open>src/grp/grpmgr_imp.go\<close>,
  \<open>sub.go\<close>): a module that subscribed is sent a wait group, signals on it that it is ready, and waits on
  the release channel. The release channels are numbered in the order in which they are made, so that
  those below the current one are closed; a hold has the number of the channel that ends it.
\<close>

section \<open>The group manager and its subscribers\<close>

text \<open>\<open>prepareChan\<close> holds one wait group, named by its hold. \<open>held\<close>: the module waits on its release channel.\<close>

record Subscriber =
  prepareChan :: "nat list"
  releaseChan :: nat
  held :: bool

datatype hold_phase = HIdle | HSending "string list" | HWaiting | HGranting | HChanging

record HoldMgr =
  subscribers :: "string \<rightharpoonup> Subscriber"
  execHoldReqs :: nat
  hm_phase :: hold_phase
  waitGroup :: nat
  globalReleaseChan :: nat

definition NewHoldMgr :: HoldMgr where
  "NewHoldMgr = \<lparr>subscribers = (\<lambda>_. None), execHoldReqs = 0, hm_phase = HIdle, waitGroup = 0, globalReleaseChan = 0\<rparr>"

definition SubscribeToHold :: "string \<Rightarrow> HoldMgr \<Rightarrow> HoldMgr" where
  "SubscribeToHold name hm =
     hm\<lparr>subscribers := (subscribers hm)(name \<mapsto> \<lparr>prepareChan = [], releaseChan = globalReleaseChan hm, held = False\<rparr>)\<rparr>"

definition RequestHold :: "HoldMgr \<Rightarrow> HoldMgr" where
  "RequestHold hm = hm\<lparr>execHoldReqs := execHoldReqs hm + 1\<rparr>"

section \<open>A hold\<close>

text \<open>
  \<open>handleHoldReq\<close> from one point where it can wait to the next. \<open>order\<close> is the order in which the
  subscribers are visited; the wait group starts at their number.
\<close>

definition beginHold :: "string list \<Rightarrow> HoldMgr \<Rightarrow> HoldMgr" where
  "beginHold order hm =
     (if hm_phase hm = HIdle \<and> 0 < execHoldReqs hm then
        hm\<lparr>execHoldReqs := execHoldReqs hm - 1, hm_phase := HSending order, waitGroup := length order\<rparr>
      else hm)"

definition sendPrepare :: "HoldMgr \<Rightarrow> HoldMgr" where
  "sendPrepare hm =
     (case hm_phase hm of
        HSending [] \<Rightarrow> hm\<lparr>hm_phase := HWaiting\<rparr>
      | HSending (name # names) \<Rightarrow>
          (case subscribers hm name of
             None \<Rightarrow> hm
           | Some sub \<Rightarrow>
               if prepareChan sub = [] then
                 hm\<lparr>subscribers := (subscribers hm)(name \<mapsto> sub\<lparr>prepareChan := [globalReleaseChan hm]\<rparr>),
                    hm_phase := HSending names\<rparr>
               else hm)
      | _ \<Rightarrow> hm)"

definition groupReady :: "HoldMgr \<Rightarrow> HoldMgr" where
  "groupReady hm = (if hm_phase hm = HWaiting \<and> waitGroup hm = 0 then hm\<lparr>hm_phase := HGranting\<rparr> else hm)"

definition groupReadyTimeout :: "HoldMgr \<Rightarrow> HoldMgr" where
  "groupReadyTimeout hm = (if hm_phase hm = HWaiting then hm\<lparr>hm_phase := HGranting\<rparr> else hm)"

text \<open>The one who asked for the hold writes twice to his channel: when he begins to change things, and at the end.\<close>

definition grantAccess :: "HoldMgr \<Rightarrow> HoldMgr" where
  "grantAccess hm = (if hm_phase hm = HGranting then hm\<lparr>hm_phase := HChanging\<rparr> else hm)"

definition releaseAll :: "HoldMgr \<Rightarrow> HoldMgr" where
  "releaseAll hm =
     (if hm_phase hm = HChanging then hm\<lparr>hm_phase := HIdle, globalReleaseChan := globalReleaseChan hm + 1\<rparr> else hm)"

section \<open>A module\<close>

text \<open>
  The module takes the wait group, says that it is done, and waits; a wait group of an earlier hold does
  not count for this one. It goes on when its channel is closed.
\<close>

definition holdModule :: "string \<Rightarrow> HoldMgr \<Rightarrow> HoldMgr" where
  "holdModule name hm =
     (case subscribers hm name of
        None \<Rightarrow> hm
      | Some sub \<Rightarrow>
          (case prepareChan sub of
             [] \<Rightarrow> hm
           | wg # _ \<Rightarrow>
               if held sub then hm
               else hm\<lparr>subscribers := (subscribers hm)(name \<mapsto> sub\<lparr>prepareChan := [], held := True\<rparr>),
                 waitGroup := (if wg = globalReleaseChan hm then waitGroup hm - 1 else waitGroup hm)\<rparr>))"

definition releaseModule :: "string \<Rightarrow> HoldMgr \<Rightarrow> HoldMgr" where
  "releaseModule name hm =
     (case subscribers hm name of
        None \<Rightarrow> hm
      | Some sub \<Rightarrow>
          if held sub \<and> releaseChan sub < globalReleaseChan hm then
            hm\<lparr>subscribers := (subscribers hm)(name \<mapsto> sub\<lparr>held := False\<rparr>)\<rparr>
          else hm)"

datatype hold_event =
    HRequest
  | HBegin "string list"
  | HSend
  | HReady
  | HTimeout
  | HGrant
  | HRelease
  | HModule string
  | HModuleReleased string

fun hold_step :: "hold_event \<Rightarrow> HoldMgr \<Rightarrow> HoldMgr" where
  "hold_step HRequest = RequestHold"
| "hold_step (HBegin order) = beginHold order"
| "hold_step HSend = sendPrepare"
| "hold_step HReady = groupReady"
| "hold_step HTimeout = groupReadyTimeout"
| "hold_step HGrant = grantAccess"
| "hold_step HRelease = releaseAll"
| "hold_step (HModule name) = holdModule name"
| "hold_step (HModuleReleased name) = releaseModule name"

definition hold_run :: "hold_event list \<Rightarrow> HoldMgr \<Rightarrow> HoldMgr" where
  "hold_run = fold hold_step"

definition subscribeAll :: "string list \<Rightarrow> HoldMgr" where
  "subscribeAll names = fold SubscribeToHold names NewHoldMgr"

section \<open>The first hold\<close>

definition waiting_for :: "HoldMgr \<Rightarrow> string set" where
  "waiting_for hm = {name. \<exists>sub. subscribers hm name = Some sub \<and> \<not> held sub}"

definition first_hold :: "string set \<Rightarrow> HoldMgr \<Rightarrow> bool" where
  "first_hold N hm \<longleftrightarrow> globalReleaseChan hm = 0 \<longrightarrow>
     dom (subscribers hm) = N \<and> (\<forall>name sub. subscribers hm name = Some sub \<longrightarrow> releaseChan sub = 0) \<and>
     (case hm_phase hm of
        HIdle \<Rightarrow> \<forall>name sub. subscribers hm name = Some sub \<longrightarrow> prepareChan sub = [] \<and> \<not> held sub
      | HSending names \<Rightarrow> distinct names \<and> set names \<subseteq> N \<and> waitGroup hm = card (waiting_for hm) \<and>
          (\<forall>name sub. subscribers hm name = Some sub \<longrightarrow>
             (if name \<in> set names then prepareChan sub = [] \<and> \<not> held sub
              else prepareChan sub = (if held sub then [] else [0])))
      | HWaiting \<Rightarrow> waitGroup hm = card (waiting_for hm) \<and>
          (\<forall>name sub. subscribers hm name = Some sub \<longrightarrow> prepareChan sub = (if held sub then [] else [0]))
      | _ \<Rightarrow> \<forall>name sub. subscribers hm name = Some sub \<longrightarrow> held sub \<and> prepareChan sub = [])"

definition all_first :: "HoldMgr \<Rightarrow> bool" where
  "all_first hm \<longleftrightarrow> (\<forall>name sub. subscribers hm name = Some sub \<longrightarrow> releaseChan sub = 0)"

lemma hold_step_all_first: "all_first hm \<Longrightarrow> all_first (hold_step e hm)"
  by (cases e)
    (auto simp: all_first_def RequestHold_def beginHold_def sendPrepare_def groupReady_def groupReadyTimeout_def
      grantAccess_def releaseAll_def holdModule_def releaseModule_def split: hold_phase.splits list.splits option.splits)

lemma hold_step_gen: "globalReleaseChan hm \<le> globalReleaseChan (hold_step e hm)"
  by (cases e)
    (auto simp: RequestHold_def beginHold_def sendPrepare_def groupReady_def groupReadyTimeout_def
      grantAccess_def releaseAll_def holdModule_def releaseModule_def split: hold_phase.splits list.splits option.splits)

lemma first_holdI:
  assumes "globalReleaseChan hm = 0 \<Longrightarrow> first_hold N hm"
  shows "first_hold N hm"
  using assms by (auto simp: first_hold_def)

lemma waiting_for_held:
  assumes "subscribers hm name = Some sub" and "\<not> held sub" and "finite (dom (subscribers hm))"
  shows "card (waiting_for (hm\<lparr>subscribers := (subscribers hm)(name \<mapsto> sub'), waitGroup := k\<rparr>)) =
    (if held sub' then card (waiting_for hm) - 1 else card (waiting_for hm))"
proof (cases "held sub'")
  case True
  then have "waiting_for (hm\<lparr>subscribers := (subscribers hm)(name \<mapsto> sub'), waitGroup := k\<rparr>) = waiting_for hm - {name}"
    by (auto simp: waiting_for_def)
  moreover have "name \<in> waiting_for hm" using assms by (simp add: waiting_for_def)
  ultimately show ?thesis using True by simp
next
  case False
  then have "waiting_for (hm\<lparr>subscribers := (subscribers hm)(name \<mapsto> sub'), waitGroup := k\<rparr>) = waiting_for hm"
    using assms by (auto simp: waiting_for_def split: if_splits)
  then show ?thesis using False by simp
qed

lemma first_hold_step:
  assumes "first_hold N hm" and "finite N" and "e \<noteq> HTimeout" and "\<And>order. e = HBegin order \<Longrightarrow> distinct order \<and> set order = N"
  shows "first_hold N (hold_step e hm)"
proof (rule first_holdI)
  assume "globalReleaseChan (hold_step e hm) = 0"
  then have gen: "globalReleaseChan hm = 0" using hold_step_gen [of hm e] by simp
  have dom: "dom (subscribers hm) = N" and fin: "finite (dom (subscribers hm))"
    and first: "\<And>name sub. subscribers hm name = Some sub \<Longrightarrow> releaseChan sub = 0"
    using assms(1,2) gen by (auto simp: first_hold_def)
  show ?thesis
  proof (cases e)
    case HRequest
    then show ?thesis using assms(1) by (auto simp: first_hold_def RequestHold_def waiting_for_def split: hold_phase.splits)
  next
    case (HBegin order)
    show ?thesis
    proof (cases "hm_phase hm = HIdle \<and> 0 < execHoldReqs hm")
      case True
      then have idle: "\<And>name sub. subscribers hm name = Some sub \<Longrightarrow> prepareChan sub = [] \<and> \<not> held sub"
        using assms(1) gen by (auto simp: first_hold_def)
      then have "waiting_for hm = N" using dom by (auto simp: waiting_for_def)
      moreover have "length order = card N" using assms(4) [OF HBegin] distinct_card by fastforce
      ultimately show ?thesis using True HBegin assms(4) [OF HBegin] dom first idle
        by (auto simp: first_hold_def beginHold_def waiting_for_def)
    qed (use assms(1) HBegin in \<open>auto simp: beginHold_def\<close>)
  next
    case HSend
    show ?thesis
    proof (cases "hm_phase hm")
      case (HSending names)
      show ?thesis
      proof (cases names)
        case Nil
        then show ?thesis using assms(1) gen HSend HSending by (simp add: first_hold_def sendPrepare_def waiting_for_def)
      next
        case (Cons name rest)
        have inv: "distinct names" "set names \<subseteq> N" "waitGroup hm = card (waiting_for hm)"
          "\<And>name sub. subscribers hm name = Some sub \<Longrightarrow>
            (if name \<in> set names then prepareChan sub = [] \<and> \<not> held sub else prepareChan sub = (if held sub then [] else [0]))"
          using assms(1) gen HSending by (simp_all add: first_hold_def)
        then obtain sub where sub: "subscribers hm name = Some sub" using Cons dom by auto
        then have "prepareChan sub = []" "\<not> held sub" using inv(4) [OF sub] Cons by simp_all
        moreover have "waiting_for (hm\<lparr>subscribers := (subscribers hm)(name \<mapsto> sub\<lparr>prepareChan := [0]\<rparr>), hm_phase := p\<rparr>) = waiting_for hm" for p
          using sub \<open>\<not> held sub\<close> by (auto simp: waiting_for_def)
        ultimately show ?thesis using HSend HSending Cons sub inv dom first gen
          by (auto simp: first_hold_def sendPrepare_def split: if_splits)
      qed
    qed (use assms(1) HSend in \<open>auto simp: sendPrepare_def\<close>)
  next
    case HReady
    show ?thesis
    proof (cases "hm_phase hm = HWaiting \<and> waitGroup hm = 0")
      case True
      then have "card (waiting_for hm) = 0" and wait: "\<And>name sub. subscribers hm name = Some sub \<Longrightarrow> prepareChan sub = (if held sub then [] else [0])"
        using assms(1) gen by (auto simp: first_hold_def)
      moreover have "finite (waiting_for hm)" using fin by (rule rev_finite_subset) (auto simp: waiting_for_def)
      ultimately have "waiting_for hm = {}" by simp
      then have "\<And>name sub. subscribers hm name = Some sub \<Longrightarrow> held sub" by (auto simp: waiting_for_def)
      then show ?thesis using True HReady wait dom first by (auto simp: first_hold_def groupReady_def)
    qed (use assms(1) HReady in \<open>auto simp: groupReady_def\<close>)
  next
    case HGrant
    then show ?thesis using assms(1) by (auto simp: first_hold_def grantAccess_def)
  next
    case HRelease
    then show ?thesis using assms(1) by (auto simp: first_hold_def releaseAll_def)
  next
    case (HModule name)
    show ?thesis
    proof (cases "\<exists>sub wg rest. subscribers hm name = Some sub \<and> prepareChan sub = wg # rest \<and> \<not> held sub")
      case True
      then obtain sub wg rest where sub: "subscribers hm name = Some sub" "prepareChan sub = wg # rest" "\<not> held sub" by blast
      note card = waiting_for_held [OF sub(1,3) fin, where sub' = "sub\<lparr>prepareChan := [], held := True\<rparr>", simplified]
      show ?thesis
      proof (cases "hm_phase hm")
        case HIdle
        then have "prepareChan sub = []" using assms(1) gen sub(1) by (simp add: first_hold_def)
        then show ?thesis using sub(2) by simp
      next
        case (HSending ns)
        then have inv: "distinct ns" "set ns \<subseteq> N" "waitGroup hm = card (waiting_for hm)"
          "\<And>name sub. subscribers hm name = Some sub \<Longrightarrow>
            (if name \<in> set ns then prepareChan sub = [] \<and> \<not> held sub else prepareChan sub = (if held sub then [] else [0]))"
          using assms(1) gen by (simp_all add: first_hold_def)
        have "name \<notin> set ns" "wg = 0" using inv(4) [OF sub(1)] sub(2,3) by (auto split: if_splits)
        moreover have "name \<in> N" using sub(1) dom by auto
        ultimately show ?thesis using HModule HSending sub inv card dom first gen
          by (simp add: first_hold_def holdModule_def insert_absorb domI)
      next
        case HWaiting
        then have inv: "waitGroup hm = card (waiting_for hm)"
          "\<And>name sub. subscribers hm name = Some sub \<Longrightarrow> prepareChan sub = (if held sub then [] else [0])"
          using assms(1) gen by (simp_all add: first_hold_def)
        have "wg = 0" using inv(2) [OF sub(1)] sub(2,3) by simp
        moreover have "name \<in> N" using sub(1) dom by auto
        ultimately show ?thesis using HModule HWaiting sub inv card dom first gen
          by (simp add: first_hold_def holdModule_def insert_absorb domI)
      qed (use assms(1) gen sub in \<open>auto simp: first_hold_def\<close>)
    qed (use assms(1) HModule in \<open>auto simp: holdModule_def split: option.splits list.splits\<close>)
  next
    case (HModuleReleased name)
    then have "hold_step e hm = hm" using gen by (auto simp: releaseModule_def split: option.splits)
    then show ?thesis using assms(1) by simp
  qed (use assms in simp)
qed

definition fresh_subscribers :: "string set \<Rightarrow> HoldMgr \<Rightarrow> bool" where
  "fresh_subscribers N hm \<longleftrightarrow> dom (subscribers hm) = N \<and> hm_phase hm = HIdle \<and> globalReleaseChan hm = 0 \<and>
    (\<forall>name sub. subscribers hm name = Some sub \<longrightarrow> sub = \<lparr>prepareChan = [], releaseChan = 0, held = False\<rparr>)"

lemma subscribeAll_start: "fresh_subscribers (set names) (subscribeAll names)"
proof -
  have step: "fresh_subscribers N hm \<Longrightarrow> fresh_subscribers (insert name N) (SubscribeToHold name hm)" for N name hm
    by (auto simp: fresh_subscribers_def SubscribeToHold_def)
  have "fresh_subscribers N hm \<Longrightarrow> fresh_subscribers (N \<union> set names) (fold SubscribeToHold names hm)" for N hm
  proof (induction names arbitrary: N hm)
    case (Cons name names)
    then show ?case using Cons.IH [OF step [OF Cons.prems]] by simp
  qed simp
  moreover have "fresh_subscribers {} NewHoldMgr" by (simp add: fresh_subscribers_def NewHoldMgr_def)
  ultimately show ?thesis unfolding subscribeAll_def by force
qed

lemma hold_run_first_hold:
  assumes "first_hold N hm" and "finite N" and "HTimeout \<notin> set es"
    and "\<And>order. HBegin order \<in> set es \<Longrightarrow> distinct order \<and> set order = N"
  shows "first_hold N (hold_run es hm)"
  using assms(1,3,4)
proof (induction es arbitrary: hm)
  case (Cons e es)
  have "first_hold N (hold_step e hm)"
    using Cons.prems by (intro first_hold_step [OF _ assms(2)]) auto
  then show ?case using Cons by (simp add: hold_run_def)
qed (simp add: hold_run_def)

lemma hold_run_all_first: "all_first hm \<Longrightarrow> all_first (hold_run es hm)"
  by (induction es arbitrary: hm) (auto simp: hold_run_def hold_step_all_first)

text \<open>
  The first hold does what it is for: when it is granted without a time-out, every subscriber waits.
  But the release channel that a subscriber waits on is the one of the first hold, which is closed ever
  after: from the second hold on, a module that is told to wait can go on at once.
\<close>

theorem holds_work_once:
  assumes "HTimeout \<notin> set es" and "\<forall>order. HBegin order \<in> set es \<longrightarrow> distinct order \<and> set order = set names"
    and "hm = hold_run es (subscribeAll names)"
  shows "(globalReleaseChan hm = 0 \<and> hm_phase hm = HChanging \<longrightarrow>
      (\<forall>name\<in>set names. \<exists>sub. subscribers hm name = Some sub \<and> held sub)) \<and>
    (0 < globalReleaseChan hm \<longrightarrow> (\<forall>name sub. subscribers (releaseModule name hm) name = Some sub \<longrightarrow> \<not> held sub))"
proof -
  have fresh: "releaseChan sub = 0 \<and> prepareChan sub = [] \<and> \<not> held sub"
    if "subscribers (subscribeAll names) name = Some sub" for name sub
  proof -
    have "sub = \<lparr>prepareChan = [], releaseChan = 0, held = False\<rparr>"
      using subscribeAll_start [of names] that unfolding fresh_subscribers_def by blast
    then show ?thesis by simp
  qed
  then have "first_hold (set names) (subscribeAll names)"
    using subscribeAll_start [of names] by (simp add: first_hold_def fresh_subscribers_def)
  then have inv: "first_hold (set names) hm" unfolding assms(3)
    by (rule hold_run_first_hold) (use assms(1,2) in auto)
  have first: "globalReleaseChan hm = 0 \<and> hm_phase hm = HChanging \<Longrightarrow>
      \<forall>name\<in>set names. \<exists>sub. subscribers hm name = Some sub \<and> held sub"
    using inv unfolding first_hold_def by simp (metis domD)
  have "all_first (subscribeAll names)" using fresh by (simp add: all_first_def)
  then have "all_first hm" unfolding assms(3) by (rule hold_run_all_first)
  then have "0 < globalReleaseChan hm \<Longrightarrow> subscribers (releaseModule name hm) name = Some sub \<Longrightarrow> \<not> held sub" for name sub
    by (auto simp: all_first_def releaseModule_def split: option.splits if_splits)
  then show ?thesis using first by blast
qed

definition holdOnce :: "hold_event list" where
  "holdOnce = [HRequest, HBegin [''acc'', ''lrn''], HSend, HModule ''acc'', HSend, HSend, HModule ''lrn'', HReady, HGrant]"

theorem holds_work_once_witness:
  "(\<forall>name\<in>{''acc'', ''lrn''}. \<exists>sub. subscribers (hold_run holdOnce (subscribeAll [''acc'', ''lrn''])) name = Some sub \<and> held sub) \<and>
    (\<forall>sub. subscribers (releaseModule ''acc'' (hold_run (holdOnce @ HRelease # holdOnce) (subscribeAll [''acc'', ''lrn'']))) ''acc'' = Some sub \<longrightarrow> \<not> held sub)"
proof -
  have "globalReleaseChan (hold_run holdOnce (subscribeAll [''acc'', ''lrn''])) = 0"
    "hm_phase (hold_run holdOnce (subscribeAll [''acc'', ''lrn''])) = HChanging"
    "0 < globalReleaseChan (hold_run (holdOnce @ HRelease # holdOnce) (subscribeAll [''acc'', ''lrn'']))" by code_simp+
  then show ?thesis
    using holds_work_once [of holdOnce "[''acc'', ''lrn'']", OF _ _ refl]
      holds_work_once [of "holdOnce @ HRelease # holdOnce" "[''acc'', ''lrn'']", OF _ _ refl]
    by (simp add: holdOnce_def)
qed

text \<open>
  So it happens: while the second hold is granted and the node map changes, no module waits. And a
  subscriber that has not read its wait group when the time runs out blocks the next hold.
\<close>

lemma second_hold_stops_nobody:
  "(let hm = hold_run (holdOnce @ [HRelease, HModuleReleased ''acc'', HModuleReleased ''lrn''] @ holdOnce @
      [HModuleReleased ''acc'', HModuleReleased ''lrn'']) (subscribeAll [''acc'', ''lrn''])
    in hm_phase hm = HChanging \<and> map_option held (subscribers hm ''acc'') = Some False \<and>
      map_option held (subscribers hm ''lrn'') = Some False)"
  by code_simp

lemma slow_subscriber_blocks_hold:
  "hm_phase (hold_run [HRequest, HBegin [''acc''], HSend, HSend, HTimeout, HGrant, HRelease, HRequest, HBegin [''acc''], HSend, HSend]
    (subscribeAll [''acc''])) = HSending [''acc'']"
  by code_simp

end
