(* ===== verification/Net.thy ===== *)
theory Net
  imports Grp GoMaps
begin

text \<open>
  The network of a replica (\<open>src/net/\<close>): connections to other replicas with their two goroutines
  (\<open>connection.go\<close>, \<open>shared.go\<close>), the demuxer that checks who connects and hands messages to the modules by
  their type (\<open>demuxer_tcp.go\<close>), and the sender (\<open>sender.go\<close>). A message is anything that has a type, which
  \<open>msgType\<close> gives by its name. What the operating system answers is an argument. A connection is its place
  in the list of all that were made, since an old one lives on when it is replaced. The channels to the
  failure detector and to the heartbeat emitter keep their capacity, those to other modules are
  unbounded.
\<close>

section \<open>Connections\<close>

datatype reader = RReading | RBeating | REnded

record 'm GxConnection =
  gc_id :: gid
  outgoing :: "'m list"
  writing :: "'m option"
  written :: "'m list"
  gc_reader :: reader
  gc_writer :: bool
  gc_open :: bool

definition NewGxConnection :: "gid \<Rightarrow> 'm GxConnection" where
  "NewGxConnection i = \<lparr>gc_id = i, outgoing = [], writing = None, written = [], gc_reader = RReading, gc_writer = True, gc_open = True\<rparr>"

datatype snd_state = SIdle | SResetting

record 'm Net =
  connections :: "8 word \<rightharpoonup> nat"
  gcs :: "'m GxConnection list"
  heartbeatChan :: "gid list"
  dmx_id :: gid
  dmx_grpmgr :: GrpMgr
  channels :: "string \<rightharpoonup> nat list"
  inbox :: "nat \<Rightarrow> 'm list"
  snd_id :: gid
  snd_connected :: bool
  resetch :: nat
  sending :: snd_state

definition NewNet :: "gid \<Rightarrow> GrpMgr \<Rightarrow> 'm Net result" where
  "NewNet i gm =
     (if LookupNode i (nodeMap gm) = None then Fault (Panic ''couldn't find running node in configuration'')
      else Ok \<lparr>connections = (\<lambda>_. None), gcs = [], heartbeatChan = [], dmx_id = i, dmx_grpmgr = gm,
        channels = (\<lambda>_. None), inbox = (\<lambda>_. []), snd_id = i, snd_connected = False, resetch = 0, sending = SIdle\<rparr>)"

definition updateGc :: "nat \<Rightarrow> ('m GxConnection \<Rightarrow> 'm GxConnection) \<Rightarrow> 'm Net \<Rightarrow> 'm Net" where
  "updateGc k f s = s\<lparr>gcs := (gcs s)[k := f (gcs s ! k)]\<rparr>"

definition closeGc :: "nat \<Rightarrow> 'm Net \<Rightarrow> 'm Net" where
  "closeGc k = updateGc k (\<lambda>gc. gc\<lparr>gc_open := False\<rparr>)"

text \<open>The connection is new and enters the map as the next in the list; the old one is closed.\<close>

definition enterConnection :: "gid \<Rightarrow> 'm Net \<Rightarrow> 'm Net" where
  "enterConnection i s =
     s\<lparr>connections := (connections s)(PaxosID i \<mapsto> length (gcs s)), gcs := gcs s @ [NewGxConnection i]\<rparr>"

datatype net_error = LowerID | ErrIDIsEqual | ErrIDOutOfBounds | NotConnected | IDRejected string

definition AddToConnections :: "gid \<Rightarrow> bool \<Rightarrow> 'm Net \<Rightarrow> net_error + 'm Net" where
  "AddToConnections i lrArEnabled s =
     (case connections s (PaxosID i) of
        None \<Rightarrow> Inr (enterConnection i s)
      | Some k \<Rightarrow>
          if lrArEnabled \<and> CompareTo i (gc_id (gcs s ! k)) < 0 then Inl LowerID
          else Inr (enterConnection i (closeGc k s)))"

definition CheckConnections :: "gid list \<Rightarrow> 'm Net \<Rightarrow> gid list" where
  "CheckConnections conf s =
     filter (\<lambda>i. case connections s (PaxosID i) of None \<Rightarrow> True | Some k \<Rightarrow> i \<noteq> gc_id (gcs s ! k)) conf"

definition UpdateConnID :: "gid \<Rightarrow> epoch \<Rightarrow> 'm Net \<Rightarrow> bool \<times> 'm Net" where
  "UpdateConnID oldID newEpoch s =
     (case connections s (PaxosID oldID) of
        None \<Rightarrow> (False, s)
      | Some k \<Rightarrow>
          if gc_id (gcs s ! k) = oldID then
            (True, updateGc k (\<lambda>gc. gc\<lparr>gc_id := ID (PaxosID oldID) newEpoch\<rparr>) s)
          else (False, s))"

subsection \<open>Dialling\<close>

text \<open>\<open>dial\<close> says which attempt succeeds; the result is how many were made, or that it was given up.\<close>

definition maxConnAttempts :: nat where
  "maxConnAttempts = 120"

fun dialLoop :: "nat \<Rightarrow> nat \<Rightarrow> (nat \<Rightarrow> bool) \<Rightarrow> nat option" where
  "dialLoop 0 i dial = (if dial i then Some (i + 1) else None)"
| "dialLoop (Suc n) i dial = (if dial i then Some (i + 1) else dialLoop n (i + 1) dial)"

definition ConnectToAddr :: "(nat \<Rightarrow> bool) \<Rightarrow> nat option" where
  "ConnectToAddr dial = dialLoop maxConnAttempts 0 dial"

text \<open>\<open>idSent\<close>: the id could be written; \<open>resp\<close> is what the other side answered, \<open>None\<close> an error.\<close>

definition GxConnectTo :: "(nat \<Rightarrow> bool) \<Rightarrow> bool \<Rightarrow> (bool \<times> string) option \<Rightarrow> gid \<Rightarrow> net_error + gid" where
  "GxConnectTo dial idSent resp calledID =
     (case ConnectToAddr dial of
        None \<Rightarrow> Inl NotConnected
      | Some _ \<Rightarrow>
          if \<not> idSent then Inl NotConnected
          else case resp of
            None \<Rightarrow> Inl NotConnected
          | Some (accepted, err) \<Rightarrow> if accepted then Inr calledID else Inl (IDRejected err))"

section \<open>The demuxer\<close>

definition RegisterChannel :: "string \<Rightarrow> nat \<Rightarrow> 'm Net \<Rightarrow> 'm Net" where
  "RegisterChannel chType ch s =
     s\<lparr>channels := (channels s)(chType \<mapsto> (case channels s chType of None \<Rightarrow> [] | Some chs \<Rightarrow> chs) @ [ch])\<rparr>"

definition HandleMessage :: "('m \<Rightarrow> string) \<Rightarrow> 'm \<Rightarrow> 'm Net \<Rightarrow> 'm Net" where
  "HandleMessage msgType msg s =
     (case channels s (msgType msg) of
        None \<Rightarrow> s
      | Some chs \<Rightarrow> s\<lparr>inbox := fold (\<lambda>ch ib. ib(ch := ib ch @ [msg])) chs (inbox s)\<rparr>)"

text \<open>\<open>PaxosID(NrOfNodes() - 1)\<close> keeps the low eight bits; the comparison is signed.\<close>

definition validateID :: "gid \<Rightarrow> 'm Net \<Rightarrow> net_error option" where
  "validateID cid s =
     (if cid = dmx_id s \<and> \<not> lrEnabled (dmx_grpmgr s) then Some ErrIDIsEqual
      else if sint (PaxosID cid) \<le> sint MinPaxosID \<or>
        sint (PaxosID cid) > sint (ucast (NrOfNodes (dmx_grpmgr s) - 1) :: 8 word) then Some ErrIDOutOfBounds
      else None)"

text \<open>One turn of the accept loop: \<open>cid\<close> is what the other side sent, \<open>None\<close> an error.\<close>

definition acceptConnection :: "gid option \<Rightarrow> bool \<Rightarrow> 'm Net \<Rightarrow> 'm Net" where
  "acceptConnection cid respSent s =
     (case cid of
        None \<Rightarrow> s
      | Some cid \<Rightarrow>
          if validateID cid s \<noteq> None then s
          else if \<not> respSent then s
          else case AddToConnections cid (lrEnabled (dmx_grpmgr s) \<or> arEnabled (dmx_grpmgr s)) s of
            Inl e \<Rightarrow> s
          | Inr s \<Rightarrow> s)"

section \<open>The goroutines of a connection\<close>

definition heartbeatCap :: nat where
  "heartbeatCap = 128"

text \<open>\<open>handleIn\<close>: a message, \<open>None\<close> an error, is read; then the id is written to the failure detector.\<close>

definition handleIn :: "('m \<Rightarrow> string) \<Rightarrow> 'm option \<Rightarrow> nat \<Rightarrow> 'm Net \<Rightarrow> 'm Net" where
  "handleIn msgType msg k s =
     (if gc_reader (gcs s ! k) = RReading then
        (case msg of
           Some m \<Rightarrow> updateGc k (\<lambda>gc. gc\<lparr>gc_reader := RBeating\<rparr>) (HandleMessage msgType m s)
         | None \<Rightarrow> updateGc k (\<lambda>gc. gc\<lparr>gc_reader := REnded, gc_open := False\<rparr>) s)
      else s)"

definition handleInBeat :: "nat \<Rightarrow> 'm Net \<Rightarrow> 'm Net" where
  "handleInBeat k s =
     (if gc_reader (gcs s ! k) = RBeating \<and> length (heartbeatChan s) < heartbeatCap then
        updateGc k (\<lambda>gc. gc\<lparr>gc_reader := RReading\<rparr>) (s\<lparr>heartbeatChan := heartbeatChan s @ [gc_id (gcs s ! k)]\<rparr>)
      else s)"

datatype write_outcome = Written | Temporary | Broken

text \<open>
  \<open>handleOut\<close> takes a message from the channel and writes it: after a temporary error it goes on without
  the message, after any other it returns.
\<close>

definition takeOut :: "nat \<Rightarrow> 'm Net \<Rightarrow> 'm Net" where
  "takeOut k s =
     (case outgoing (gcs s ! k) of
        [] \<Rightarrow> s
      | m # rest \<Rightarrow>
          if gc_writer (gcs s ! k) \<and> writing (gcs s ! k) = None
          then updateGc k (\<lambda>gc. gc\<lparr>outgoing := rest, writing := Some m\<rparr>) s
          else s)"

definition handleOut :: "write_outcome \<Rightarrow> nat \<Rightarrow> 'm Net \<Rightarrow> 'm Net" where
  "handleOut res k s =
     (case writing (gcs s ! k) of
        None \<Rightarrow> s
      | Some m \<Rightarrow>
          updateGc k (\<lambda>gc. case res of
              Written \<Rightarrow> gc\<lparr>writing := None, written := written gc @ [m]\<rparr>
            | Temporary \<Rightarrow> gc\<lparr>writing := None\<rparr>
            | Broken \<Rightarrow> gc\<lparr>writing := None, gc_writer := False\<rparr>) s)"

section \<open>The sender\<close>

definition outgoingCap :: nat where
  "outgoingCap = 128"

definition resetCap :: nat where
  "resetCap = 64"

definition isHeartbeat :: "('m \<Rightarrow> string) \<Rightarrow> 'm \<Rightarrow> bool" where
  "isHeartbeat msgType m \<longleftrightarrow> msgType m = ''liveness.Heartbeat''"

definition unicast :: "('m \<Rightarrow> string) \<Rightarrow> 'm \<Rightarrow> gid \<Rightarrow> 'm Net \<Rightarrow> 'm Net" where
  "unicast msgType msg i s =
     (if i = snd_id s then (if isHeartbeat msgType msg then s else HandleMessage msgType msg s)
      else case connections s (PaxosID i) of
        None \<Rightarrow> s
      | Some k \<Rightarrow>
          if length (outgoing (gcs s ! k)) < outgoingCap then
            updateGc k (\<lambda>gc. gc\<lparr>outgoing := outgoing gc @ [msg]\<rparr>) s
          else s)"

definition broadcast :: "('m \<Rightarrow> string) \<Rightarrow> 'm \<Rightarrow> gid list \<Rightarrow> 'm Net \<Rightarrow> 'm Net" where
  "broadcast msgType msg ids s =
     (let s = fold (unicast msgType msg) ids s
      in if isHeartbeat msgType msg then s else s\<lparr>sending := SResetting\<rparr>)"

text \<open>The heartbeat emitter is told that something was sent; the sender waits for room in its channel.\<close>

definition signalReset :: "'m Net \<Rightarrow> 'm Net" where
  "signalReset s =
     (if sending s = SResetting \<and> resetch s < resetCap then s\<lparr>sending := SIdle, resetch := resetch s + 1\<rparr> else s)"

datatype group = All | Proposers | Acceptors | Learners

definition groupIDs :: "group \<Rightarrow> 'm Net \<Rightarrow> gid list" where
  "groupIDs g s =
     (case g of
        All \<Rightarrow> IDs (nodeMap (dmx_grpmgr s))
      | Proposers \<Rightarrow> ProposerIDs (nodeMap (dmx_grpmgr s))
      | Acceptors \<Rightarrow> AcceptorIDs (nodeMap (dmx_grpmgr s))
      | Learners \<Rightarrow> LearnerIDs (nodeMap (dmx_grpmgr s)))"

text \<open>When a hold is released, the sender reads its identity again.\<close>

definition snd_handleGrpHold :: "'m Net \<Rightarrow> 'm Net" where
  "snd_handleGrpHold s = s\<lparr>snd_id := gm_id (dmx_grpmgr s)\<rparr>"

text \<open>\<open>InitialConnect\<close>: \<open>connects\<close> says to which replicas a connection can be made.\<close>

fun initialDials :: "(gid \<Rightarrow> bool) \<Rightarrow> gid list \<Rightarrow> 'm Net \<Rightarrow> 'm Net result" where
  "initialDials connects [] s = Ok s"
| "initialDials connects (i # is) s =
     (if sint (PaxosID i) > sint (PaxosID (snd_id s)) then
        (if LookupNode i (nodeMap (dmx_grpmgr s)) = None \<or> \<not> connects i then Fault (Panic ''initial-connect failed'')
         else initialDials connects is (enterConnection i s))
      else initialDials connects is s)"

definition InitialConnect :: "(gid \<Rightarrow> bool) \<Rightarrow> 'm Net \<Rightarrow> 'm Net result" where
  "InitialConnect connects s = initialDials connects (IDs (nodeMap (dmx_grpmgr s))) s"

definition areWeFullyConnected :: "'m Net \<Rightarrow> bool" where
  "areWeFullyConnected s \<longleftrightarrow>
     list_all (\<lambda>i. connections s (PaxosID i) \<noteq> None \<or> i = snd_id s) (IDs (nodeMap (dmx_grpmgr s)))"

definition finishConnect :: "'m Net \<Rightarrow> 'm Net" where
  "finishConnect s = (if areWeFullyConnected s then s\<lparr>snd_connected := True\<rparr> else s)"

section \<open>Runs\<close>

datatype 'm net_event =
    NAccept "gid option" bool
  | NAdd gid bool
  | NUpdate gid epoch
  | NRead nat "'m option"
  | NBeat nat
  | NTake nat
  | NWrite nat write_outcome
  | NUnicast 'm gid
  | NBroadcast 'm group
  | NSignal
  | NHold
  | NGroup GrpMgr
  | NDetector
  | NEmitter

text \<open>
  A module that adds a connection ignores the one that cannot be added. \<open>NGroup\<close> is another module that
  changes the group manager, which the demuxer and the sender share. The last two are the failure
  detector and the heartbeat emitter, which read their channels.
\<close>

fun net_step :: "('m \<Rightarrow> string) \<Rightarrow> 'm net_event \<Rightarrow> 'm Net \<Rightarrow> 'm Net" where
  "net_step msgType (NAccept cid respSent) s = acceptConnection cid respSent s"
| "net_step msgType (NAdd i lrAr) s = (case AddToConnections i lrAr s of Inl e \<Rightarrow> s | Inr s \<Rightarrow> s)"
| "net_step msgType (NUpdate i newEpoch) s = snd (UpdateConnID i newEpoch s)"
| "net_step msgType (NRead k msg) s = (if k < length (gcs s) then handleIn msgType msg k s else s)"
| "net_step msgType (NBeat k) s = (if k < length (gcs s) then handleInBeat k s else s)"
| "net_step msgType (NTake k) s = (if k < length (gcs s) then takeOut k s else s)"
| "net_step msgType (NWrite k res) s = (if k < length (gcs s) then handleOut res k s else s)"
| "net_step msgType (NUnicast msg i) s = (if sending s = SIdle then unicast msgType msg i s else s)"
| "net_step msgType (NBroadcast msg g) s = (if sending s = SIdle then broadcast msgType msg (groupIDs g s) s else s)"
| "net_step msgType NSignal s = signalReset s"
| "net_step msgType NHold s = (if sending s = SIdle then snd_handleGrpHold s else s)"
| "net_step msgType (NGroup gm) s = s\<lparr>dmx_grpmgr := gm\<rparr>"
| "net_step msgType NDetector s = s\<lparr>heartbeatChan := tl (heartbeatChan s)\<rparr>"
| "net_step msgType NEmitter s = s\<lparr>resetch := resetch s - 1\<rparr>"

definition net_run :: "('m \<Rightarrow> string) \<Rightarrow> 'm net_event list \<Rightarrow> 'm Net \<Rightarrow> 'm Net" where
  "net_run msgType = fold (net_step msgType)"

end
