(* ===== verification/NetRuns.thy ===== *)
theory NetRuns
  imports Net "HOL-Library.Sublist"
begin

text \<open>
  What the network of a replica promises: a connection carries, in order and at most once each, messages
  that were sent to its replica; a module gets exactly the messages of its type; ids that are accepted
  are inside the cluster, and with replacement a connection is only replaced by one of a later epoch.
  And what it needs: without a failure detector and a heartbeat emitter it comes to a stop.
\<close>

section \<open>Order on a connection\<close>

text \<open>What a step sends to the replica with a given Paxos id, and what a run does.\<close>

fun sent_now :: "8 word \<Rightarrow> 'm net_event \<Rightarrow> 'm Net \<Rightarrow> 'm list" where
  "sent_now p (NUnicast m i) s = (if sending s = SIdle \<and> PaxosID i = p then [m] else [])"
| "sent_now p (NBroadcast m g) s =
     (if sending s = SIdle then map (\<lambda>_. m) (filter (\<lambda>i. PaxosID i = p) (groupIDs g s)) else [])"
| "sent_now p _ s = []"

fun sent_to :: "('m \<Rightarrow> string) \<Rightarrow> 8 word \<Rightarrow> 'm net_event list \<Rightarrow> 'm Net \<Rightarrow> 'm list" where
  "sent_to mt p [] s = []"
| "sent_to mt p (e # es) s = sent_now p e s @ sent_to mt p es (net_step mt e s)"

text \<open>The message that the goroutine of a connection has taken from the channel and not written yet.\<close>

definition in_hand :: "'m GxConnection \<Rightarrow> 'm list" where
  "in_hand gc = (case writing gc of None \<Rightarrow> [] | Some m \<Rightarrow> [m])"

lemma in_hand_updates [simp]:
  "in_hand (gc\<lparr>gc_open := b\<rparr>) = in_hand gc" "in_hand (gc\<lparr>gc_reader := r\<rparr>) = in_hand gc"
  "in_hand (gc\<lparr>gc_id := i\<rparr>) = in_hand gc" "in_hand (gc\<lparr>outgoing := xs\<rparr>) = in_hand gc"
  by (simp_all add: in_hand_def)

definition gc_ok :: "(8 word \<Rightarrow> 'm list) \<Rightarrow> 'm GxConnection \<Rightarrow> bool" where
  "gc_ok h gc \<longleftrightarrow> subseq (written gc @ in_hand gc @ outgoing gc) (h (PaxosID (gc_id gc)))"

definition net_inv :: "(8 word \<Rightarrow> 'm list) \<Rightarrow> 'm Net \<Rightarrow> bool" where
  "net_inv h s \<longleftrightarrow>
     (\<forall>p k. connections s p = Some k \<longrightarrow> k < length (gcs s) \<and> PaxosID (gc_id (gcs s ! k)) = p) \<and>
     (\<forall>k<length (gcs s). gc_ok h (gcs s ! k))"

lemma net_inv_same:
  assumes "net_inv h s" and "connections s' = connections s" and "gcs s' = gcs s"
  shows "net_inv h s'"
  using assms by (simp add: net_inv_def)

lemma net_inv_update:
  assumes "net_inv h s"
    and "k < length (gcs s) \<Longrightarrow> PaxosID (gc_id (f (gcs s ! k))) = PaxosID (gc_id (gcs s ! k))"
    and "k < length (gcs s) \<Longrightarrow> gc_ok h (gcs s ! k) \<Longrightarrow> gc_ok h (f (gcs s ! k))"
  shows "net_inv h (updateGc k f s)"
  using assms by (cases "k < length (gcs s)") (auto simp: net_inv_def updateGc_def nth_list_update list_update_beyond)

lemma net_inv_more: "net_inv h s \<Longrightarrow> net_inv (\<lambda>p. h p @ x p) s"
  unfolding net_inv_def gc_ok_def by (blast intro: list_emb_append2)

lemma net_inv_enter:
  assumes "net_inv h s"
  shows "net_inv h (enterConnection i s)"
  using assms
  by (auto simp: net_inv_def enterConnection_def NewGxConnection_def nth_append less_Suc_eq gc_ok_def in_hand_def)

lemma net_inv_close: "net_inv h s \<Longrightarrow> net_inv h (closeGc k s)"
  unfolding closeGc_def by (rule net_inv_update) (simp_all add: gc_ok_def)

lemma net_inv_AddToConnections: "net_inv h s \<Longrightarrow> AddToConnections i b s = Inr s' \<Longrightarrow> net_inv h s'"
  by (auto simp: AddToConnections_def net_inv_enter net_inv_close split: option.splits if_splits)

lemma net_inv_accept: "net_inv h s \<Longrightarrow> net_inv h (acceptConnection cid b s)"
  by (auto simp: acceptConnection_def net_inv_AddToConnections split: option.split sum.split)

lemma net_inv_UpdateConnID: "net_inv h s \<Longrightarrow> net_inv h (snd (UpdateConnID i e s))"
proof -
  assume inv: "net_inv h s"
  show ?thesis
  proof (cases "\<exists>k. connections s (PaxosID i) = Some k \<and> gc_id (gcs s ! k) = i")
    case True
    then obtain k where k: "connections s (PaxosID i) = Some k" "gc_id (gcs s ! k) = i" by blast
    have "net_inv h (updateGc k (\<lambda>gc. gc\<lparr>gc_id := ID (PaxosID i) e\<rparr>) s)"
      by (rule net_inv_update [OF inv]) (use k in \<open>simp_all add: gc_ok_def\<close>)
    then show ?thesis using k by (simp add: UpdateConnID_def)
  qed (use inv in \<open>auto simp: UpdateConnID_def split: option.split\<close>)
qed

lemma HandleMessage_fields [simp]:
  "connections (HandleMessage mt m s) = connections s" "gcs (HandleMessage mt m s) = gcs s"
  "sending (HandleMessage mt m s) = sending s" "resetch (HandleMessage mt m s) = resetch s"
  "heartbeatChan (HandleMessage mt m s) = heartbeatChan s" "channels (HandleMessage mt m s) = channels s"
  "snd_id (HandleMessage mt m s) = snd_id s" "dmx_grpmgr (HandleMessage mt m s) = dmx_grpmgr s"
  by (auto simp: HandleMessage_def split: option.split)

lemma net_inv_handleIn: "net_inv h s \<Longrightarrow> net_inv h (handleIn mt m k s)"
  by (auto simp: handleIn_def gc_ok_def intro!: net_inv_update intro: net_inv_same split: option.split)

lemma net_inv_handleInBeat: "net_inv h s \<Longrightarrow> net_inv h (handleInBeat k s)"
  by (auto simp: handleInBeat_def gc_ok_def intro!: net_inv_update intro: net_inv_same)

lemma subseq_drop_mid: "subseq (xs @ m # ys) zs \<Longrightarrow> subseq (xs @ ys) zs"
  using list_emb_append_mono [OF subseq_order.order_refl list_emb_Cons [OF subseq_order.order_refl], of xs ys m]
    subseq_order.order_trans by blast

lemma net_inv_takeOut: "net_inv h s \<Longrightarrow> net_inv h (takeOut k s)"
  by (cases "outgoing (gcs s ! k)")
    (auto simp: takeOut_def gc_ok_def in_hand_def intro!: net_inv_update)

lemma net_inv_handleOut: "net_inv h s \<Longrightarrow> net_inv h (handleOut res k s)"
  unfolding handleOut_def
  by (cases "writing (gcs s ! k)"; cases res)
    (auto simp: gc_ok_def in_hand_def intro!: net_inv_update intro: subseq_drop_mid)

lemma unicast_fields [simp]:
  "sending (unicast mt m i s) = sending s" "resetch (unicast mt m i s) = resetch s"
  "heartbeatChan (unicast mt m i s) = heartbeatChan s" "channels (unicast mt m i s) = channels s"
  "snd_id (unicast mt m i s) = snd_id s" "dmx_grpmgr (unicast mt m i s) = dmx_grpmgr s"
  by (auto simp: unicast_def updateGc_def split: option.split)

lemma net_inv_unicast:
  assumes "net_inv h s"
  shows "net_inv (\<lambda>p. h p @ (if PaxosID i = p then [m] else [])) (unicast mt m i s)"
proof (cases "\<exists>k. i \<noteq> snd_id s \<and> connections s (PaxosID i) = Some k \<and> length (outgoing (gcs s ! k)) < outgoingCap")
  case True
  then obtain k where k: "i \<noteq> snd_id s" "connections s (PaxosID i) = Some k" "length (outgoing (gcs s ! k)) < outgoingCap"
    by blast
  let ?h = "\<lambda>p. h p @ (if PaxosID i = p then [m] else [])"
  have p: "k < length (gcs s)" "PaxosID (gc_id (gcs s ! k)) = PaxosID i" using assms k(2) by (auto simp: net_inv_def)
  have "gc_ok h (gcs s ! k)" using assms p(1) by (simp add: net_inv_def)
  then have "subseq ((written (gcs s ! k) @ in_hand (gcs s ! k) @ outgoing (gcs s ! k)) @ [m]) (h (PaxosID i) @ [m])"
    unfolding gc_ok_def p(2) by (rule list_emb_append_mono) simp
  then have "net_inv ?h (updateGc k (\<lambda>gc. gc\<lparr>outgoing := outgoing gc @ [m]\<rparr>) s)"
    by (intro net_inv_update net_inv_more assms) (simp_all add: gc_ok_def p(2))
  then show ?thesis using k by (simp add: unicast_def)
next
  case False
  have "net_inv (\<lambda>p. h p @ (if PaxosID i = p then [m] else [])) s" by (rule net_inv_more [OF assms])
  then show ?thesis using False
    by (auto simp: unicast_def intro: net_inv_same split: option.split)
qed

lemma net_inv_unicasts:
  assumes "net_inv h s"
  shows "net_inv (\<lambda>p. h p @ map (\<lambda>_. m) (filter (\<lambda>i. PaxosID i = p) ids)) (fold (unicast mt m) ids s)"
  using assms
proof (induction ids arbitrary: h s)
  case (Cons i ids)
  have "(\<lambda>p. (h p @ (if PaxosID i = p then [m] else [])) @ map (\<lambda>_. m) (filter (\<lambda>i. PaxosID i = p) ids)) =
      (\<lambda>p. h p @ map (\<lambda>_. m) (filter (\<lambda>i. PaxosID i = p) (i # ids)))"
    by auto
  with Cons.IH [OF net_inv_unicast [OF Cons.prems, of i m mt]] show ?case by simp
qed simp

lemma net_inv_step:
  assumes "net_inv h s"
  shows "net_inv (\<lambda>p. h p @ sent_now p e s) (net_step mt e s)"
proof (cases e)
  case (NUnicast m i)
  show ?thesis
  proof (cases "sending s = SIdle")
    case True
    then show ?thesis using NUnicast net_inv_unicast [OF assms, of i m mt] by simp
  qed (use NUnicast assms in simp)
next
  case (NBroadcast m g)
  show ?thesis
  proof (cases "sending s = SIdle")
    case True
    then show ?thesis using NBroadcast net_inv_unicasts [OF assms, of m "groupIDs g s" mt]
      by (auto simp: broadcast_def Let_def intro: net_inv_same)
  qed (use NBroadcast assms in simp)
next
  case (NAdd i b)
  then show ?thesis using assms net_inv_AddToConnections by (fastforce split: sum.split)
next
  case (NUpdate i ep)
  then show ?thesis using net_inv_UpdateConnID [OF assms] by simp
qed (use assms in \<open>auto intro: net_inv_accept net_inv_handleIn net_inv_handleInBeat net_inv_takeOut net_inv_handleOut net_inv_same
  simp: signalReset_def snd_handleGrpHold_def\<close>)

lemma net_inv_run:
  "net_inv h s \<Longrightarrow> net_inv (\<lambda>p. h p @ sent_to mt p es s) (net_run mt es s)"
proof (induction es arbitrary: h s)
  case (Cons e es)
  show ?case using Cons.IH [OF net_inv_step [OF Cons.prems, of e mt]] by (simp add: net_run_def)
qed (simp add: net_run_def)

lemma net_inv_initialDials: "net_inv h s \<Longrightarrow> initialDials connects is s = Ok s' \<Longrightarrow> net_inv h s'"
proof (induction "is" arbitrary: s)
  case (Cons i "is")
  show ?case using Cons.prems(2) Cons.IH [OF Cons.prems(1)] Cons.IH [OF net_inv_enter [OF Cons.prems(1), of i]]
    by (auto split: if_splits)
qed simp

lemma net_inv_start:
  assumes "NewNet i gm = Ok s0" and "InitialConnect connects s0 = Ok s"
  shows "net_inv (\<lambda>_. []) s"
proof -
  have "net_inv (\<lambda>_. []) s0" using assms(1) by (auto simp: NewNet_def net_inv_def split: if_splits)
  then show ?thesis using assms(2) unfolding InitialConnect_def by (rule net_inv_initialDials)
qed


section \<open>Messages by type\<close>

definition registered :: "'m Net \<Rightarrow> string \<Rightarrow> nat list" where
  "registered s t = (case channels s t of None \<Rightarrow> [] | Some chs \<Rightarrow> chs)"

text \<open>What a step hands to the demuxer: messages that are read, and those the sender keeps at home.\<close>

fun handled_now :: "('m \<Rightarrow> string) \<Rightarrow> 'm net_event \<Rightarrow> 'm Net \<Rightarrow> 'm list" where
  "handled_now mt (NRead k (Some m)) s = (if k < length (gcs s) \<and> gc_reader (gcs s ! k) = RReading then [m] else [])"
| "handled_now mt (NUnicast m i) s = (if sending s = SIdle \<and> i = snd_id s \<and> \<not> isHeartbeat mt m then [m] else [])"
| "handled_now mt (NBroadcast m g) s =
     (if sending s = SIdle \<and> \<not> isHeartbeat mt m then map (\<lambda>_. m) (filter (\<lambda>i. i = snd_id s) (groupIDs g s)) else [])"
| "handled_now mt _ s = []"

fun handled :: "('m \<Rightarrow> string) \<Rightarrow> 'm net_event list \<Rightarrow> 'm Net \<Rightarrow> 'm list" where
  "handled mt [] s = []"
| "handled mt (e # es) s = handled_now mt e s @ handled mt es (net_step mt e s)"

lemma fold_append_inbox:
  "distinct chs \<Longrightarrow> fold (\<lambda>ch ib. ib(ch := ib ch @ [m])) chs ib c = ib c @ (if c \<in> set chs then [m] else [])"
  by (induction chs arbitrary: ib) auto

lemma HandleMessage_inbox:
  assumes "\<And>t. distinct (registered s t)"
  shows "inbox (HandleMessage mt m s) c = inbox s c @ filter (\<lambda>m. c \<in> set (registered s (mt m))) [m]"
  using assms [of "mt m"] by (auto simp: HandleMessage_def registered_def fold_append_inbox split: option.split)

lemma unicast_inbox:
  assumes "\<And>t. distinct (registered s t)"
  shows "inbox (unicast mt m i s) c = inbox s c @
    filter (\<lambda>m. c \<in> set (registered s (mt m))) (if i = snd_id s \<and> \<not> isHeartbeat mt m then [m] else [])"
  using HandleMessage_inbox [OF assms, of mt m c] by (auto simp: unicast_def updateGc_def split: option.split)

lemma registered_unicast [simp]: "registered (unicast mt m i s) = registered s"
  by (simp add: registered_def fun_eq_iff)

lemma unicasts_inbox:
  assumes "\<And>t. distinct (registered s t)"
  shows "inbox (fold (unicast mt m) ids s) c = inbox s c @ filter (\<lambda>m. c \<in> set (registered s (mt m)))
    (if isHeartbeat mt m then [] else map (\<lambda>_. m) (filter (\<lambda>i. i = snd_id s) ids))"
  using assms
proof (induction ids arbitrary: s)
  case (Cons i ids)
  have "\<And>t. distinct (registered (unicast mt m i s) t)" using Cons.prems by simp
  from Cons.IH [OF this] show ?case using unicast_inbox [OF Cons.prems, of mt m i c] by (auto simp: append_assoc)
qed simp

lemma channels_step: "channels (net_step mt e s) = channels s"
proof -
  have "channels (fold (unicast mt m) ids s) = channels s" for m ids s
    by (induction ids arbitrary: s) simp_all
  then show ?thesis
    by (cases e) (auto simp: acceptConnection_def AddToConnections_def enterConnection_def closeGc_def updateGc_def
      UpdateConnID_def handleIn_def handleInBeat_def takeOut_def handleOut_def broadcast_def signalReset_def snd_handleGrpHold_def Let_def
      split: option.split sum.split list.split if_splits)
qed

lemma inbox_updateGc [simp]: "inbox (updateGc k f s) = inbox s"
  by (simp add: updateGc_def)

lemma AddToConnections_inbox: "AddToConnections i b s = Inr s' \<Longrightarrow> inbox s' = inbox s"
  by (auto simp: AddToConnections_def enterConnection_def closeGc_def split: option.splits if_splits)

lemma inbox_step:
  assumes "\<And>t. distinct (registered s t)"
  shows "inbox (net_step mt e s) c = inbox s c @ filter (\<lambda>m. c \<in> set (registered s (mt m))) (handled_now mt e s)"
proof (cases e)
  case (NRead k msg)
  then show ?thesis using HandleMessage_inbox [OF assms, of mt _ c]
    by (cases msg) (auto simp: handleIn_def)
next
  case (NUnicast m i)
  then show ?thesis using unicast_inbox [OF assms, of mt m i c] by simp
next
  case (NBroadcast m g)
  then show ?thesis using unicasts_inbox [OF assms, of mt m "groupIDs g s" c] by (simp add: broadcast_def Let_def)
next
  case (NAccept cid b)
  then show ?thesis by (auto simp: acceptConnection_def AddToConnections_inbox split: option.split sum.split)
next
  case (NAdd i b)
  then show ?thesis by (auto simp: AddToConnections_inbox split: sum.split)
next
  case (NUpdate i ep)
  then show ?thesis by (auto simp: UpdateConnID_def split: option.split)
qed (auto simp: handleInBeat_def takeOut_def handleOut_def signalReset_def snd_handleGrpHold_def split: list.split option.split)

text \<open>
  A channel that a module registered holds exactly the messages of its types that were read from
  connections or that the replica sent to itself, in the order in which they came, each once.
\<close>

theorem demuxer_by_type:
  assumes "\<forall>t. distinct (registered s t)"
  shows "inbox (net_run mt es s) c = inbox s c @ filter (\<lambda>m. c \<in> set (registered s (mt m))) (handled mt es s)"
  using assms
proof (induction es arbitrary: s)
  case (Cons e es)
  have reg: "registered (net_step mt e s) = registered s" by (simp add: registered_def fun_eq_iff channels_step)
  then have "\<forall>t. distinct (registered (net_step mt e s) t)" using Cons.prems by simp
  from Cons.IH [OF this] show ?case using inbox_step [of s mt e c] Cons.prems reg by (simp add: net_run_def)
qed (simp add: net_run_def)


section \<open>Who may connect\<close>

text \<open>
  In a cluster of at most 128 nodes the demuxer lets in exactly the ids whose Paxos id is that of a
  node, except its own without live replacement: no id that it lets in is outside the epoch vector.
\<close>

theorem validateID_bounds:
  assumes "unat (NrOfNodes (dmx_grpmgr s)) \<le> 128"
  shows "validateID cid s = None \<longleftrightarrow>
    0 \<le> PxInt cid \<and> PxInt cid < int (unat (NrOfNodes (dmx_grpmgr s))) \<and> (cid = dmx_id s \<longrightarrow> lrEnabled (dmx_grpmgr s))"
proof -
  let ?n = "unat (NrOfNodes (dmx_grpmgr s))"
  have small: "sint (of_nat k :: 8 word) = int k" if "k < 128" for k
    using that by (simp add: signed_of_nat signed_take_bit_int_eq_self)
  have last: "sint (ucast (NrOfNodes (dmx_grpmgr s) - 1) :: 8 word) = int ?n - 1"
  proof (cases "?n = 0")
    case True
    then have "NrOfNodes (dmx_grpmgr s) = 0" by (simp add: unat_eq_0)
    moreover have "sint (ucast (- 1 :: 64 word) :: 8 word) = - 1" by code_simp
    ultimately show ?thesis by simp
  next
    case False
    then have "unat (NrOfNodes (dmx_grpmgr s) - 1) = ?n - 1" by (simp add: unat_minus_one unat_eq_0)
    then have eq: "(ucast (NrOfNodes (dmx_grpmgr s) - 1) :: 8 word) = of_nat (?n - 1)"
      by (metis of_nat_unat)
    have "sint (ucast (NrOfNodes (dmx_grpmgr s) - 1) :: 8 word) = int (?n - 1)"
      unfolding eq by (rule small) (use assms False in simp)
    also have "int (?n - 1) = int ?n - 1" using False by simp
    finally show ?thesis .
  qed
  have "sint MinPaxosID = - 1" by (simp add: MinPaxosID_def)
  then show ?thesis unfolding validateID_def last by (auto simp: PxInt_def)
qed

text \<open>With one node more, every id is turned away.\<close>

lemma validateID_129:
  assumes "NrOfNodes (dmx_grpmgr s) = 129"
  shows "validateID cid s \<noteq> None"
proof -
  have "sint (ucast (129 - 1 :: 64 word) :: 8 word) = - 128" by simp
  moreover have "- 128 \<le> sint (PaxosID cid)" using sint_ge [of "PaxosID cid"] by simp
  ultimately show ?thesis using assms by (auto simp: validateID_def MinPaxosID_def)
qed

section \<open>Connections and epochs\<close>

definition with_replacement :: "'m net_event \<Rightarrow> bool" where
  "with_replacement e \<longleftrightarrow>
     (case e of NAdd i b \<Rightarrow> b | NGroup gm \<Rightarrow> lrEnabled gm \<or> arEnabled gm | NUpdate i ep \<Rightarrow> False | _ \<Rightarrow> True)"

definition epoch_at :: "'m Net \<Rightarrow> 8 word \<Rightarrow> epoch option" where
  "epoch_at s p = (case connections s p of None \<Rightarrow> None | Some k \<Rightarrow> Some (Epoch (gc_id (gcs s ! k))))"

definition net_wf :: "'m Net \<Rightarrow> bool" where
  "net_wf s \<longleftrightarrow> (\<forall>p k. connections s p = Some k \<longrightarrow> k < length (gcs s) \<and> PaxosID (gc_id (gcs s ! k)) = p)"

lemma net_inv_wf: "net_inv h s \<Longrightarrow> net_wf s"
  by (simp add: net_inv_def net_wf_def)

lemma epoch_at_AddToConnections:
  assumes "net_wf s" and "AddToConnections i True s = Inr s'" and "epoch_at s p = Some ep"
  shows "\<exists>ep'. epoch_at s' p = Some ep' \<and> ep \<le> ep'"
proof (cases "connections s (PaxosID i)")
  case None
  then show ?thesis using assms
    by (auto simp: AddToConnections_def epoch_at_def enterConnection_def net_wf_def nth_append split: option.splits if_splits)
next
  case (Some k)
  then have k: "k < length (gcs s)" "PaxosID (gc_id (gcs s ! k)) = PaxosID i" using assms(1) by (auto simp: net_wf_def)
  have s': "s' = enterConnection i (closeGc k s)" and cmp: "\<not> CompareTo i (gc_id (gcs s ! k)) < 0"
    using assms(2) Some by (auto simp: AddToConnections_def split: if_splits)
  have later: "Epoch (gc_id (gcs s ! k)) \<le> Epoch i" using cmp k(2) by (auto simp: CompareTo_def split: if_splits)
  show ?thesis
  proof (cases "p = PaxosID i")
    case True
    then show ?thesis using assms(3) Some s' later
      by (auto simp: epoch_at_def enterConnection_def closeGc_def updateGc_def NewGxConnection_def nth_append)
  next
    case False
    then obtain j where j: "connections s p = Some j" "j < length (gcs s)" "Epoch (gc_id (gcs s ! j)) = ep"
      using assms(1,3) by (auto simp: epoch_at_def net_wf_def split: option.splits)
    then show ?thesis using False s'
      by (cases "j = k") (auto simp: epoch_at_def enterConnection_def closeGc_def updateGc_def nth_append)
  qed
qed

lemma epoch_at_same:
  assumes "connections s' = connections s" and "map gc_id (gcs s') = map gc_id (gcs s)" and "net_wf s"
  shows "epoch_at s' p = epoch_at s p"
proof -
  have "length (gcs s') = length (gcs s)" using arg_cong [OF assms(2), of length] by simp
  moreover have "gc_id (gcs s' ! k) = gc_id (gcs s ! k)" if "k < length (gcs s)" for k
    using arg_cong [OF assms(2), of "\<lambda>xs. xs ! k"] that calculation by simp
  ultimately show ?thesis using assms(1,3) by (auto simp: epoch_at_def net_wf_def split: option.split)
qed

lemma epoch_kept:
  assumes "net_wf s" and "epoch_at s p = Some ep" and "connections s' = connections s \<and> map gc_id (gcs s') = map gc_id (gcs s)"
  shows "\<exists>ep'. epoch_at s' p = Some ep' \<and> ep \<le> ep'"
  using epoch_at_same [OF _ _ assms(1), of s' p] assms(2,3) by simp

lemma map_gc_id_updateGc:
  "(\<And>gc. gc_id (f gc) = gc_id gc) \<Longrightarrow> map gc_id (gcs (updateGc k f s)) = map gc_id (gcs s)"
  by (cases "k < length (gcs s)") (simp_all add: updateGc_def map_update list_update_beyond list_update_same_conv)

lemma updateGc_connections: "connections (updateGc k f s) = connections s"
  by (simp add: updateGc_def)

lemma unicast_ids:
  "connections (unicast mt m i s) = connections s \<and> map gc_id (gcs (unicast mt m i s)) = map gc_id (gcs s)"
  by (auto simp: unicast_def map_gc_id_updateGc updateGc_connections split: option.split)

lemma unicasts_ids:
  "connections (fold (unicast mt m) ids s) = connections s \<and> map gc_id (gcs (fold (unicast mt m) ids s)) = map gc_id (gcs s)"
  by (induction ids arbitrary: s) (simp_all add: unicast_ids)

lemma epoch_at_step:
  assumes "net_wf s" and "lrEnabled (dmx_grpmgr s) \<or> arEnabled (dmx_grpmgr s)" and "with_replacement e"
    and "epoch_at s p = Some ep"
  shows "\<exists>ep'. epoch_at (net_step mt e s) p = Some ep' \<and> ep \<le> ep'"
proof (cases e)
  case (NAccept cid b)
  then show ?thesis using assms epoch_at_AddToConnections [OF assms(1) _ assms(4)]
    by (auto simp: acceptConnection_def split: option.split sum.split)
next
  case (NAdd i b)
  then show ?thesis using assms epoch_at_AddToConnections [OF assms(1) _ assms(4)]
    by (auto simp: with_replacement_def split: sum.split)
next
  case (NUnicast m i)
  show ?thesis by (rule epoch_kept [OF assms(1,4)]) (simp add: NUnicast unicast_ids)
next
  case (NBroadcast m g)
  show ?thesis
    by (rule epoch_kept [OF assms(1,4)]) (use unicasts_ids [of mt m "groupIDs g s" s] in \<open>simp add: NBroadcast broadcast_def Let_def\<close>)
next
  case (NRead k msg)
  show ?thesis
    by (rule epoch_kept [OF assms(1,4)]) (auto simp: NRead handleIn_def map_gc_id_updateGc updateGc_connections split: option.split)
next
  case (NBeat k)
  show ?thesis
    by (rule epoch_kept [OF assms(1,4)]) (auto simp: NBeat handleInBeat_def map_gc_id_updateGc updateGc_connections)
next
  case (NWrite k res)
  show ?thesis
    by (rule epoch_kept [OF assms(1,4)])
      (auto simp: NWrite handleOut_def map_gc_id_updateGc updateGc_connections split: option.split write_outcome.split)
next
  case NSignal
  show ?thesis by (rule epoch_kept [OF assms(1,4)]) (simp add: NSignal signalReset_def)
next
  case NHold
  show ?thesis by (rule epoch_kept [OF assms(1,4)]) (simp add: NHold snd_handleGrpHold_def)
next
  case (NGroup gm)
  show ?thesis by (rule epoch_kept [OF assms(1,4)]) (simp add: NGroup)
next
  case (NTake k)
  show ?thesis
    by (rule epoch_kept [OF assms(1,4)])
      (auto simp: NTake takeOut_def map_gc_id_updateGc updateGc_connections split: list.split)
next
  case NDetector
  show ?thesis by (rule epoch_kept [OF assms(1,4)]) (simp add: NDetector)
next
  case NEmitter
  show ?thesis by (rule epoch_kept [OF assms(1,4)]) (simp add: NEmitter)
qed (use assms in \<open>simp add: with_replacement_def\<close>)

definition replacing :: "'m Net \<Rightarrow> bool" where
  "replacing s \<longleftrightarrow> lrEnabled (dmx_grpmgr s) \<or> arEnabled (dmx_grpmgr s)"

lemma AddToConnections_grpmgr: "AddToConnections i b s = Inr s' \<Longrightarrow> dmx_grpmgr s' = dmx_grpmgr s"
  by (auto simp: AddToConnections_def enterConnection_def closeGc_def updateGc_def split: option.splits if_splits)

lemma unicasts_grpmgr: "dmx_grpmgr (fold (unicast mt m) ids s) = dmx_grpmgr s"
  by (induction ids arbitrary: s) simp_all

lemma grpmgr_updateGc [simp]: "dmx_grpmgr (updateGc k f s) = dmx_grpmgr s"
  by (simp add: updateGc_def)

lemma replacing_step: "replacing s \<Longrightarrow> with_replacement e \<Longrightarrow> replacing (net_step mt e s)"
  by (cases e)
    (auto simp: replacing_def with_replacement_def acceptConnection_def AddToConnections_grpmgr UpdateConnID_def handleIn_def
      handleInBeat_def takeOut_def handleOut_def broadcast_def signalReset_def snd_handleGrpHold_def Let_def unicasts_grpmgr
      split: option.split sum.split list.split)

lemma epoch_at_run:
  assumes "net_inv h s" and "replacing s" and "\<forall>e\<in>set es. with_replacement e" and "epoch_at s p = Some ep"
  shows "\<exists>ep'. epoch_at (net_run mt es s) p = Some ep' \<and> ep \<le> ep'"
  using assms
proof (induction es arbitrary: h s ep)
  case (Cons e es)
  obtain ep1 where ep1: "epoch_at (net_step mt e s) p = Some ep1" "ep \<le> ep1"
    using epoch_at_step [OF net_inv_wf [OF Cons.prems(1)] _ _ Cons.prems(4), of e mt] Cons.prems(2,3)
    by (auto simp: replacing_def)
  have "replacing (net_step mt e s)" using replacing_step Cons.prems(2,3) by auto
  with Cons.IH [OF net_inv_step [OF Cons.prems(1)] _ _ ep1(1)] Cons.prems(3)
  obtain ep2 where "epoch_at (net_run mt es (net_step mt e s)) p = Some ep2" "ep1 \<le> ep2" by auto
  then show ?case using ep1(2) by (auto simp: net_run_def intro: order_trans)
qed (simp add: net_run_def)

text \<open>
  With live replacement or asynchronous reconfiguration, the connection that stands for a Paxos id is
  only ever replaced by one to a replica of the same or a later epoch.
\<close>

theorem connection_epochs_grow:
  assumes "NewNet i gm = Ok s0" and "InitialConnect connects s0 = Ok s1" and "lrEnabled gm \<or> arEnabled gm"
    and "\<forall>e\<in>set es \<union> set es'. with_replacement e"
    and "epoch_at (net_run mt es s1) p = Some ep"
  shows "\<exists>ep'. epoch_at (net_run mt (es @ es') s1) p = Some ep' \<and> ep \<le> ep'"
proof -
  have init: "initialDials connects is s = Ok s' \<Longrightarrow> dmx_grpmgr s' = dmx_grpmgr s" for "is" and s s' :: "'a Net"
    by (induction "is" arbitrary: s) (auto simp: enterConnection_def split: if_splits)
  have "dmx_grpmgr s1 = gm" using init [OF assms(2) [unfolded InitialConnect_def]] assms(1)
    by (auto simp: NewNet_def split: if_splits)
  then have start: "replacing s1" using assms(3) by (simp add: replacing_def)
  have "replacing (net_run mt es s1)" using start assms(4)
  proof (induction es arbitrary: s1)
    case (Cons e es)
    then show ?case using replacing_step [of s1 e mt] by (simp add: net_run_def)
  qed (simp add: net_run_def)
  from epoch_at_run [OF net_inv_run [OF net_inv_start [OF assms(1,2)]] this _ assms(5), of es' mt] assms(4)
  show ?thesis by (simp add: net_run_def)
qed

section \<open>The network needs its listeners\<close>

fun broadcasts_taken :: "('m \<Rightarrow> string) \<Rightarrow> 'm net_event list \<Rightarrow> 'm Net \<Rightarrow> nat" where
  "broadcasts_taken mt [] s = 0"
| "broadcasts_taken mt (e # es) s =
     (case e of NBroadcast m g \<Rightarrow> if sending s = SIdle \<and> \<not> isHeartbeat mt m then 1 else 0 | _ \<Rightarrow> 0) +
     broadcasts_taken mt es (net_step mt e s)"

fun messages_read :: "('m \<Rightarrow> string) \<Rightarrow> 'm net_event list \<Rightarrow> 'm Net \<Rightarrow> nat" where
  "messages_read mt [] s = 0"
| "messages_read mt (e # es) s = length (case e of NRead k (Some m) \<Rightarrow> handled_now mt e s | _ \<Rightarrow> []) +
     messages_read mt es (net_step mt e s)"

definition resets_left :: "'m Net \<Rightarrow> nat" where
  "resets_left s = resetCap - resetch s + (if sending s = SIdle then 1 else 0)"

lemma AddToConnections_sending:
  "AddToConnections i b s = Inr s' \<Longrightarrow> sending s' = sending s \<and> resetch s' = resetch s"
  by (auto simp: AddToConnections_def enterConnection_def closeGc_def updateGc_def split: option.splits if_splits)

lemma updateGc_sending [simp]:
  "sending (updateGc k f s) = sending s" "resetch (updateGc k f s) = resetch s" "heartbeatChan (updateGc k f s) = heartbeatChan s"
  by (simp_all add: updateGc_def)

lemma unicasts_sending:
  "sending (fold (unicast mt m) ids s) = sending s \<and> resetch (fold (unicast mt m) ids s) = resetch s"
  by (induction ids arbitrary: s) simp_all

lemma step_sending:
  assumes "\<And>m g. e \<noteq> NBroadcast m g" and "e \<noteq> NSignal" and "e \<noteq> NEmitter"
  shows "sending (net_step mt e s) = sending s \<and> resetch (net_step mt e s) = resetch s"
  using assms
  by (cases e)
    (auto simp: acceptConnection_def UpdateConnID_def handleIn_def handleInBeat_def takeOut_def handleOut_def
      snd_handleGrpHold_def split: option.split sum.split list.split dest: AddToConnections_sending)

lemma resets_left_step:
  assumes "e \<noteq> NEmitter"
  shows "(case e of NBroadcast m g \<Rightarrow> if sending s = SIdle \<and> \<not> isHeartbeat mt m then 1 else 0 | _ \<Rightarrow> 0) +
    resets_left (net_step mt e s) \<le> resets_left s"
proof (cases "(\<exists>m g. e = NBroadcast m g) \<or> e = NSignal")
  case True
  then show ?thesis
    by (cases "sending s") (auto simp: resets_left_def broadcast_def signalReset_def Let_def unicasts_sending split: if_splits)
next
  case False
  then show ?thesis using step_sending [of e mt s] assms by (cases e) (auto simp: resets_left_def)
qed

lemma broadcasts_bounded: "NEmitter \<notin> set es \<Longrightarrow> broadcasts_taken mt es s \<le> resets_left s"
proof (induction es arbitrary: s)
  case (Cons e es)
  then have "broadcasts_taken mt es (net_step mt e s) \<le> resets_left (net_step mt e s)" by simp
  moreover have "e \<noteq> NEmitter" using Cons.prems by auto
  ultimately show ?case using resets_left_step [of e s mt] unfolding broadcasts_taken.simps by linarith
qed simp

text \<open>How many more messages the readers can take before all of them wait for the failure detector.\<close>

definition beating :: "'m Net \<Rightarrow> nat set" where
  "beating s = {k. k < length (gcs s) \<and> gc_reader (gcs s ! k) = RBeating}"

lemma finite_beating: "finite (beating s)"
  by (simp add: beating_def)

lemma beating_update_same:
  "(\<And>gc. gc_reader (f gc) = gc_reader gc) \<Longrightarrow> beating (updateGc k f s) = beating s"
  by (cases "k < length (gcs s)") (auto simp: beating_def updateGc_def nth_list_update list_update_beyond)

lemma beating_enter: "beating (enterConnection i s) = beating s"
  by (auto simp: beating_def enterConnection_def NewGxConnection_def nth_append less_Suc_eq)

lemma beating_AddToConnections:
  "AddToConnections i b s = Inr s' \<Longrightarrow> beating s' = beating s \<and> heartbeatChan s' = heartbeatChan s"
proof -
  have "heartbeatChan (enterConnection i s) = heartbeatChan s" for s :: "'a Net" by (simp add: enterConnection_def)
  then show "AddToConnections i b s = Inr s' \<Longrightarrow> beating s' = beating s \<and> heartbeatChan s' = heartbeatChan s"
    by (auto simp: AddToConnections_def beating_enter closeGc_def beating_update_same split: option.splits if_splits)
qed

lemma beating_same: "gcs s' = gcs s \<Longrightarrow> beating s' = beating s"
  by (simp add: beating_def)

lemma beating_unicast: "beating (unicast mt m i s) = beating s"
proof -
  have "beating (HandleMessage mt m s) = beating s" by (rule beating_same) simp
  then show ?thesis by (simp add: unicast_def beating_update_same split: option.split)
qed

lemma beating_unicasts:
  "beating (fold (unicast mt m) ids s) = beating s \<and> heartbeatChan (fold (unicast mt m) ids s) = heartbeatChan s"
  by (induction ids arbitrary: s) (simp_all add: beating_unicast)

definition read_total :: "'m Net \<Rightarrow> nat" where
  "read_total s = length (heartbeatChan s) + card (beating s)"

lemma beating_takeOut: "beating (takeOut k s) = beating s \<and> heartbeatChan (takeOut k s) = heartbeatChan s"
  by (auto simp: takeOut_def beating_update_same split: list.split)

lemma beating_handleOut: "beating (handleOut res k s) = beating s \<and> heartbeatChan (handleOut res k s) = heartbeatChan s"
proof -
  have "beating (updateGc k (\<lambda>gc. case res of Written \<Rightarrow> gc\<lparr>writing := None, written := written gc @ y\<rparr>
      | Temporary \<Rightarrow> gc\<lparr>writing := None\<rparr> | Broken \<Rightarrow> gc\<lparr>writing := None, gc_writer := False\<rparr>) s) = beating s" for y
    by (rule beating_update_same) (simp split: write_outcome.split)
  then show ?thesis by (auto simp: handleOut_def split: option.split)
qed

lemma read_total_step:
  assumes "e \<noteq> NDetector"
  shows "length (case e of NRead k (Some m) \<Rightarrow> handled_now mt e s | _ \<Rightarrow> []) + read_total s \<le> read_total (net_step mt e s)"
proof (cases e)
  case (NRead k msg)
  show ?thesis
  proof (cases "k < length (gcs s) \<and> gc_reader (gcs s ! k) = RReading")
    case True
    show ?thesis
    proof (cases msg)
      case None
      have "beating (net_step mt e s) = beating s"
        using True NRead None by (auto simp: handleIn_def beating_def updateGc_def nth_list_update split: if_splits)
      then show ?thesis using NRead None True by (simp add: read_total_def handleIn_def)
    next
      case (Some m)
      have "beating (net_step mt e s) = insert k (beating s)"
        using True NRead Some by (auto simp: handleIn_def beating_def updateGc_def nth_list_update split: if_splits)
      moreover have "k \<notin> beating s" using True by (simp add: beating_def)
      ultimately show ?thesis using NRead Some True by (simp add: read_total_def finite_beating handleIn_def)
    qed
  next
    case False
    then show ?thesis using NRead by (cases msg) (auto simp: handleIn_def)
  qed
next
  case (NBeat k)
  show ?thesis
  proof (cases "k < length (gcs s) \<and> gc_reader (gcs s ! k) = RBeating \<and> length (heartbeatChan s) < heartbeatCap")
    case True
    have "beating (net_step mt e s) = beating s - {k}"
      using True NBeat by (auto simp: handleInBeat_def beating_def updateGc_def nth_list_update split: if_splits)
    moreover have "k \<in> beating s" using True by (simp add: beating_def)
    then have "card (beating s) = Suc (card (beating s - {k}))" by (rule card.remove [OF finite_beating])
    ultimately show ?thesis using NBeat True by (simp add: read_total_def handleInBeat_def)
  qed (use NBeat in \<open>auto simp: handleInBeat_def\<close>)
next
  case (NAccept cid b)
  then show ?thesis using beating_AddToConnections
    by (fastforce simp: read_total_def acceptConnection_def split: option.split sum.split)
next
  case (NAdd i b)
  then show ?thesis using beating_AddToConnections [of i b s] by (auto simp: read_total_def split: sum.split)
next
  case (NUpdate i ep)
  then show ?thesis by (auto simp: read_total_def UpdateConnID_def beating_update_same split: option.split)
next
  case (NUnicast m i)
  then show ?thesis by (simp add: read_total_def beating_unicast)
next
  case (NBroadcast m g)
  then show ?thesis using beating_unicasts [of mt m "groupIDs g s" s]
    by (auto simp: read_total_def broadcast_def Let_def beating_def)
next
  case (NTake k)
  then show ?thesis using beating_takeOut [of k s] by (simp add: read_total_def)
next
  case (NWrite k res)
  then show ?thesis using beating_handleOut [of res k s] by (simp add: read_total_def)
qed (use assms in \<open>auto simp: read_total_def signalReset_def snd_handleGrpHold_def beating_def\<close>)

lemma read_bounded:
  "NDetector \<notin> set es \<Longrightarrow> messages_read mt es s + read_total s \<le> read_total (net_run mt es s)"
proof (induction es arbitrary: s)
  case (Cons e es)
  then have "messages_read mt es (net_step mt e s) + read_total (net_step mt e s) \<le> read_total (net_run mt (e # es) s)"
    by (simp add: net_run_def)
  moreover have "e \<noteq> NDetector" using Cons.prems by auto
  ultimately show ?case using read_total_step [of e mt s] unfolding messages_read.simps by linarith
qed (simp add: net_run_def)

lemma heartbeats_fit: "length (heartbeatChan s) \<le> heartbeatCap \<Longrightarrow> length (heartbeatChan (net_run mt es s)) \<le> heartbeatCap"
proof -
  have step: "length (heartbeatChan s) \<le> heartbeatCap \<Longrightarrow> length (heartbeatChan (net_step mt e s)) \<le> heartbeatCap" for e s
    using beating_unicasts [of mt _ _ s] beating_takeOut [of _ s] beating_handleOut [of _ _ s]
    by (cases e) (auto simp: acceptConnection_def UpdateConnID_def handleIn_def handleInBeat_def broadcast_def
      signalReset_def snd_handleGrpHold_def Let_def split: option.split sum.split dest: beating_AddToConnections)
  show "length (heartbeatChan s) \<le> heartbeatCap \<Longrightarrow> length (heartbeatChan (net_run mt es s)) \<le> heartbeatCap"
    by (induction es arbitrary: s) (simp_all add: net_run_def step)
qed

lemma initialDials_fields:
  "initialDials connects is s = Ok s' \<Longrightarrow> sending s' = sending s \<and> resetch s' = resetch s \<and>
    heartbeatChan s' = heartbeatChan s \<and> beating s' = beating s \<and> snd_id s' = snd_id s \<and> dmx_grpmgr s' = dmx_grpmgr s"
proof (induction "is" arbitrary: s)
  case (Cons i "is")
  have "sending (enterConnection i s) = sending s \<and> resetch (enterConnection i s) = resetch s \<and>
      heartbeatChan (enterConnection i s) = heartbeatChan s \<and> snd_id (enterConnection i s) = snd_id s \<and>
      dmx_grpmgr (enterConnection i s) = dmx_grpmgr s" by (simp add: enterConnection_def)
  then show ?case using Cons.IH [of s] Cons.IH [of "enterConnection i s"] Cons.prems
    by (auto simp: beating_enter split: if_splits)
qed simp

text \<open>
  Where no heartbeat emitter reads the sender's signals, the sender takes at most 65 broadcasts; where no
  failure detector reads the ids, at most 128 messages, and one for each connection, are read. The broadcast
  protocols start neither module.
\<close>

theorem needs_liveness_modules:
  assumes "NewNet i gm = Ok s0" and "InitialConnect connects s0 = Ok s1"
  shows "(NEmitter \<notin> set es \<longrightarrow> broadcasts_taken mt es s1 \<le> 65) \<and>
    (NDetector \<notin> set es \<longrightarrow> messages_read mt es s1 \<le> 128 + length (gcs (net_run mt es s1)))"
proof -
  have new: "sending s0 = SIdle" "resetch s0 = 0" "heartbeatChan s0 = []" "beating s0 = {}"
    using assms(1) by (auto simp: NewNet_def beating_def split: if_splits)
  note start = initialDials_fields [OF assms(2) [unfolded InitialConnect_def]]
  have "NEmitter \<notin> set es \<Longrightarrow> broadcasts_taken mt es s1 \<le> 65"
    using broadcasts_bounded [of es mt s1] start new by (simp add: resets_left_def resetCap_def)
  moreover let ?s = "net_run mt es s1"
  have "card (beating ?s) \<le> card {..<length (gcs ?s)}" by (rule card_mono) (auto simp: beating_def)
  moreover have "length (heartbeatChan ?s) \<le> 128"
    using heartbeats_fit [of s1 mt es] start new by (simp add: heartbeatCap_def)
  ultimately have "NDetector \<notin> set es \<Longrightarrow> messages_read mt es s1 \<le> 128 + length (gcs ?s)"
    using read_bounded [of es mt s1] unfolding read_total_def card_lessThan by linarith
  with \<open>NEmitter \<notin> set es \<Longrightarrow> broadcasts_taken mt es s1 \<le> 65\<close> show ?thesis by blast
qed

section \<open>Start\<close>

lemma initialDials_higher:
  "initialDials connects is s = Ok s' \<Longrightarrow>
    (\<forall>i\<in>set is. sint (PaxosID (snd_id s)) < sint (PaxosID i) \<longrightarrow> connections s' (PaxosID i) \<noteq> None) \<and>
    (\<forall>p. connections s p \<noteq> None \<longrightarrow> connections s' p \<noteq> None)"
proof (induction "is" arbitrary: s)
  case (Cons i "is")
  show ?case
  proof (cases "sint (PaxosID (snd_id s)) < sint (PaxosID i)")
    case True
    then have "initialDials connects is (enterConnection i s) = Ok s'" using Cons.prems by (auto split: if_splits)
    from Cons.IH [OF this] show ?thesis using True by (auto simp: enterConnection_def)
  next
    case False
    then show ?thesis using Cons.prems Cons.IH [of s] by auto
  qed
qed simp

text \<open>After the dials a replica is fully connected as soon as the replicas with lower ids have connected.\<close>

lemma fully_connected:
  assumes "InitialConnect connects s = Ok s'" and "distinct (map PaxosID (IDs (nodeMap (dmx_grpmgr s))))"
    and "snd_id s \<in> set (IDs (nodeMap (dmx_grpmgr s)))"
    and "\<forall>i\<in>set (IDs (nodeMap (dmx_grpmgr s))). sint (PaxosID i) < sint (PaxosID (snd_id s)) \<longrightarrow> connections s' (PaxosID i) \<noteq> None"
  shows "areWeFullyConnected s'"
proof -
  note start = initialDials_fields [OF assms(1) [unfolded InitialConnect_def]]
  note higher = initialDials_higher [OF assms(1) [unfolded InitialConnect_def]]
  have "connections s' (PaxosID i) \<noteq> None \<or> i = snd_id s" if i: "i \<in> set (IDs (nodeMap (dmx_grpmgr s)))" for i
  proof -
    consider "sint (PaxosID i) < sint (PaxosID (snd_id s))" | "sint (PaxosID (snd_id s)) < sint (PaxosID i)"
      | "sint (PaxosID i) = sint (PaxosID (snd_id s))" by linarith
    then show ?thesis
    proof cases
      case 3
      then have "PaxosID i = PaxosID (snd_id s)" by (rule signed_word_eqI)
      then have "i = snd_id s" using assms(2,3) i by (simp add: distinct_map inj_on_def)
      then show ?thesis by simp
    qed (use assms(4) higher i in auto)
  qed
  then show ?thesis using start by (simp add: areWeFullyConnected_def list_all_iff)
qed

section \<open>Two replicas\<close>

definition pairNodes :: GrpMgr where
  "pairNodes = NewGrpMgr (ID 0 0)
     (memoize \<lparr>nodes = [(ID 0 0, NewNode ''a'' ''1'' ''2'' True True True), (ID 1 0, NewNode ''b'' ''1'' ''2'' True True True)],
       epochs = [0, 0], nrOfNodes = 2, nrOfAcceptors = 2, quorum = 2, idsMemoized = [],
       proposerIdsMemoized = [], acceptorIdsMemoized = [], learnerIdsMemoized = []\<rparr>) True False"

definition connectedNet :: "string Net" where
  "connectedNet =
     (case NewNet (ID 0 0) pairNodes of
        Inr s0 \<Rightarrow> (case InitialConnect (\<lambda>_. True) s0 of Inr s1 \<Rightarrow> s1))"

definition chatting :: "string net_event list" where
  "chatting =
     [NBroadcast ''px.A'' All, NSignal, NUnicast ''px.B'' (ID 1 0), NTake 0, NWrite 0 Written, NUnicast ''px.C'' (ID 1 0), NTake 0, NWrite 0 Temporary,
      NRead 0 (Some ''px.L''), NBeat 0]"

definition newNet :: "string Net" where
  "newNet = (case NewNet (ID 0 0) pairNodes of Inr s0 \<Rightarrow> s0)"

lemma pair_starts:
  "NewNet (ID 0 0) pairNodes = Ok newNet" "InitialConnect (\<lambda>_. True) newNet = Ok connectedNet"
proof -
  have "\<not> isl (NewNet (ID 0 0) pairNodes :: fault + string Net)" "\<not> isl (InitialConnect (\<lambda>_. True) newNet)" by code_simp+
  then show "NewNet (ID 0 0) pairNodes = Ok newNet" "InitialConnect (\<lambda>_. True) newNet = Ok connectedNet"
    by (auto simp: newNet_def connectedNet_def isl_def split: sum.splits)
qed


theorem demuxer_by_type_witness:
  "inbox (net_run (\<lambda>m. m) chatting (RegisterChannel ''px.L'' 7 connectedNet)) 7 = [''px.L'']"
proof -
  have chans: "channels connectedNet = (\<lambda>_. None)" "inbox connectedNet 7 = []"
    using pair_starts by (auto simp: connectedNet_def newNet_def NewNet_def InitialConnect_def pairNodes_def NewGrpMgr_def
      LookupNode_def memoize_def memoizeIDs_def memoizeActorIDs_def IDs_def enterConnection_def)
  have "distinct (registered (RegisterChannel ''px.L'' 7 connectedNet) t)" for t
    by (simp add: registered_def RegisterChannel_def chans)
  moreover have "filter (\<lambda>m. m = ''px.L'') (handled (\<lambda>m. m) chatting (RegisterChannel ''px.L'' 7 connectedNet)) = [''px.L'']"
    by code_simp
  moreover have "7 \<in> set (registered (RegisterChannel ''px.L'' 7 connectedNet) m) \<longleftrightarrow> m = ''px.L''" for m
    by (simp add: registered_def RegisterChannel_def chans)
  ultimately show ?thesis
    using demuxer_by_type [of "RegisterChannel ''px.L'' 7 connectedNet" "\<lambda>m. m" chatting 7] chans
    by (simp add: RegisterChannel_def)
qed

theorem validateID_bounds_witness:
  "validateID (ID 1 4) connectedNet = None \<longleftrightarrow> 0 \<le> PxInt (ID 1 4) \<and> PxInt (ID 1 4) < 2 \<and> (ID 1 4 = dmx_id connectedNet \<longrightarrow> lrEnabled (dmx_grpmgr connectedNet))"
proof -
  have "unat (NrOfNodes (dmx_grpmgr connectedNet)) = 2" by code_simp
  then show ?thesis using validateID_bounds [of connectedNet "ID 1 4"] by simp
qed

theorem connection_epochs_grow_witness:
  "\<exists>ep'. epoch_at (net_run (\<lambda>m. m) ([NAdd (ID 1 5) True] @ [NAccept (Some (ID 1 4)) True, NAccept (Some (ID 1 6)) True]) connectedNet) 1 = Some ep' \<and> 5 \<le> ep'"
proof -
  have "epoch_at (net_run (\<lambda>m. m) [NAdd (ID 1 5) True] connectedNet) 1 = Some 5" by code_simp
  moreover have "lrEnabled pairNodes" by code_simp
  ultimately show ?thesis
    using connection_epochs_grow [OF pair_starts, of "[NAdd (ID 1 5) True]" "[NAccept (Some (ID 1 4)) True, NAccept (Some (ID 1 6)) True]" "\<lambda>m. m" 1 5]
    by (simp add: with_replacement_def)
qed

theorem needs_liveness_modules_witness:
  "broadcasts_taken (\<lambda>m. m) (concat (replicate 100 [NBroadcast ''px.A'' All, NSignal])) connectedNet \<le> 65 \<and>
    messages_read (\<lambda>m. m) chatting connectedNet \<le> 128 + length (gcs (net_run (\<lambda>m. m) chatting connectedNet))"
proof -
  have "NEmitter \<notin> set (concat (replicate 100 [NBroadcast ''px.A'' All, NSignal]))" "NDetector \<notin> set chatting"
    by (auto simp: chatting_def)
  then show ?thesis using needs_liveness_modules [OF pair_starts] by blast
qed

text \<open>
  When a connection breaks, only its writer ends: the connection stays in the map, passes for one that
  is up, and swallows what is sent.
\<close>

lemma broken_still_connected:
  "CheckConnections [ID 1 0] (net_run (\<lambda>m. m) [NUnicast ''px.A'' (ID 1 0), NTake 0, NWrite 0 Broken, NRead 0 None, NUnicast ''px.B'' (ID 1 0)] connectedNet) = [] \<and>
    written (gcs (net_run (\<lambda>m. m) [NUnicast ''px.A'' (ID 1 0), NTake 0, NWrite 0 Broken, NRead 0 None, NUnicast ''px.B'' (ID 1 0),
      NTake 0, NWrite 0 Written] connectedNet) ! 0) = []"
  by code_simp

text \<open>A connection attempt that is given up has been made 121 times.\<close>

lemma dialLoop_attempts: "dialLoop n i dial = None \<longleftrightarrow> (\<forall>j. i \<le> j \<and> j \<le> i + n \<longrightarrow> \<not> dial j)"
proof (induction n arbitrary: i)
  case (Suc n)
  show ?case
  proof (cases "dial i")
    case False
    have "(\<forall>j. i \<le> j \<and> j \<le> i + Suc n \<longrightarrow> \<not> dial j) \<longleftrightarrow> (\<forall>j. i + 1 \<le> j \<and> j \<le> i + 1 + n \<longrightarrow> \<not> dial j)"
      using False by (metis Suc_eq_plus1 add_Suc_right add_Suc_shift le_SucI le_antisym not_less_eq_eq)
    then show ?thesis using False Suc.IH [of "i + 1"] by simp
  qed auto
qed auto

end
