(* ===== verification/Config.thy ===== *)
theory Config
  imports Grp GoMaps GoStrings "HOL-Library.Multiset"
begin

text \<open>
  Configurations (\<open>src/config/\<close>): named strings, which are parsed when they are read, the list of nodes
  among them, and what a new replica is sent (\<open>transfer_wrapper.go\<close>). Durations are left out: no part of
  the model measures time.
\<close>

section \<open>Values\<close>

record Config =
  cfg_values :: "(string, string) gomap"

definition NewConfig :: Config where
  "NewConfig = \<lparr>cfg_values = []\<rparr>"

definition newConfigFromValues :: "(string, string) gomap \<Rightarrow> Config" where
  "newConfigFromValues vs = \<lparr>cfg_values = vs\<rparr>"

definition Set :: "string \<Rightarrow> string \<Rightarrow> Config \<Rightarrow> Config" where
  "Set key v c = c\<lparr>cfg_values := put key v (cfg_values c)\<rparr>"

definition GetString :: "string \<Rightarrow> string \<Rightarrow> Config \<Rightarrow> string" where
  "GetString key defaultVal c = (case lookup (cfg_values c) key of None \<Rightarrow> defaultVal | Some v \<Rightarrow> v)"

definition GetInt :: "string \<Rightarrow> int \<Rightarrow> Config \<Rightarrow> int" where
  "GetInt key defaultVal c =
     (case lookup (cfg_values c) key of
        None \<Rightarrow> defaultVal
      | Some v \<Rightarrow> (case Atoi v of None \<Rightarrow> defaultVal | Some n \<Rightarrow> n))"

definition GetBool :: "string \<Rightarrow> bool \<Rightarrow> Config \<Rightarrow> bool" where
  "GetBool key defaultVal c =
     (case lookup (cfg_values c) key of
        None \<Rightarrow> defaultVal
      | Some v \<Rightarrow> (case ParseBool v of None \<Rightarrow> defaultVal | Some b \<Rightarrow> b))"

definition CloneToKeyValueMap :: "Config \<Rightarrow> (string, string) gomap" where
  "CloneToKeyValueMap c = cfg_values c"

section \<open>Nodes\<close>

datatype config_error = NotSet string | NotUnderstood string | IDNotInteger string | NoReplacerNode | UnknownHandling string

text \<open>One entry of the list. \<open>PaxosID(id)\<close> keeps the low eight bits of the number.\<close>

definition parseNode :: "string \<Rightarrow> config_error + gid \<times> Node" where
  "parseNode node =
     (let node = TrimSpace node in
      case Split (CHR '':'') node of
        [i, host, paxosPort, clientPort] \<Rightarrow>
          (case Atoi i of
             None \<Rightarrow> Inl (IDNotInteger node)
           | Some n \<Rightarrow> Inr (ID (of_int n) 0, NewNode host paxosPort clientPort True True True))
      | _ \<Rightarrow> Inl (NotUnderstood node))"

fun parseNodes :: "string list \<Rightarrow> (gid, Node) gomap \<Rightarrow> config_error + (gid, Node) gomap" where
  "parseNodes [] m = Inr m"
| "parseNodes (s # ss) m = (case parseNode s of Inl e \<Rightarrow> Inl e | Inr (i, n) \<Rightarrow> parseNodes ss (put i n m))"

text \<open>\<open>order\<close> is the order in which the map is iterated over.\<close>

definition GetNodeMap ::
  "((gid \<times> Node) list \<Rightarrow> (gid \<times> Node) list) \<Rightarrow> string \<Rightarrow> Config \<Rightarrow> (config_error + NodeMap) result" where
  "GetNodeMap order key c =
     (let nodesCfg = GetString key [] c
      in if nodesCfg = [] then Ok (Inl (NotSet key))
         else case parseNodes (Split (CHR '','') nodesCfg) [] of
           Inl e \<Rightarrow> Ok (Inl e)
         | Inr m \<Rightarrow> bind_result (NewNodeMap (order m)) (\<lambda>nm. Ok (Inr nm)))"

definition parseListNode :: "string \<Rightarrow> config_error + Node" where
  "parseListNode node =
     (let node = TrimSpace node in
      case Split (CHR '':'') node of
        [host, paxosPort, clientPort] \<Rightarrow> Inr (NewNode host paxosPort clientPort True True True)
      | _ \<Rightarrow> Inl (NotUnderstood node))"

fun parseListNodes :: "string list \<Rightarrow> config_error + Node list" where
  "parseListNodes [] = Inr []"
| "parseListNodes (s # ss) =
     (case parseListNode s of
        Inl e \<Rightarrow> Inl e
      | Inr n \<Rightarrow> (case parseListNodes ss of Inl e \<Rightarrow> Inl e | Inr ns \<Rightarrow> Inr (n # ns)))"

definition GetNodeList :: "string \<Rightarrow> Config \<Rightarrow> config_error + Node list" where
  "GetNodeList key c =
     (let nodesCfg = GetString key [] c
      in if nodesCfg = [] then Inr [] else parseListNodes (Split (CHR '','') nodesCfg))"

section \<open>What a new replica is sent\<close>

record TransferConfig =
  tc_ID :: gid
  tc_NodeMap :: "(gid \<times> Node) list"
  tc_ConfigMap :: "(string, string) gomap"

definition DefFailureHandlingType :: string where "DefFailureHandlingType = ''None''"
definition DefProtocol :: string where "DefProtocol = ''MultiPaxos''"

definition GenerateNodeMapAndConfig :: "TransferConfig \<Rightarrow> (config_error + NodeMap \<times> Config) result" where
  "GenerateNodeMapAndConfig tw =
     (let conf = newConfigFromValues (tc_ConfigMap tw);
          fhType = GetString ''failureHandlingType'' DefFailureHandlingType conf;
          n = of_nat (length (tc_NodeMap tw))
      in if ToLower fhType = ''reconfiguration'' \<or> ToLower fhType = ''areconfiguration'' then
           bind_result (NewNodeMap (tc_NodeMap tw)) (\<lambda>nm. Ok (Inr (nm, conf)))
         else if ToLower fhType = ''livereplacement'' then
           (case map_of (tc_NodeMap tw) (tc_ID tw) of
              None \<Rightarrow> Ok (Inl NoReplacerNode)
            | Some node \<Rightarrow>
                bind_result (NewNodeMapFromSingleNode (tc_ID tw) node n n) (\<lambda>nm. Ok (Inr (nm, conf))))
         else Ok (Inl (UnknownHandling fhType)))"

section \<open>Reading back a list of nodes\<close>

definition showEntry :: "nat \<times> string \<times> string \<times> string \<Rightarrow> string" where
  "showEntry e = (case e of (i, host, pp, cp) \<Rightarrow> join '':'' [showNat i, host, pp, cp])"

definition showEntries :: "(nat \<times> string \<times> string \<times> string) list \<Rightarrow> string" where
  "showEntries es = join '','' (map showEntry es)"

definition entryNode :: "nat \<times> string \<times> string \<times> string \<Rightarrow> gid \<times> Node" where
  "entryNode e = (case e of (i, host, pp, cp) \<Rightarrow> (ID (of_nat i) 0, NewNode host pp cp True True True))"

definition plain :: "string \<Rightarrow> bool" where
  "plain s \<longleftrightarrow> (\<forall>c\<in>set s. c \<noteq> CHR '':'' \<and> c \<noteq> CHR '','' \<and> \<not> isSpace c)"

definition entry_ok :: "nat \<times> string \<times> string \<times> string \<Rightarrow> bool" where
  "entry_ok e \<longleftrightarrow> (case e of (i, host, pp, cp) \<Rightarrow> i < 128 \<and> plain host \<and> plain pp \<and> plain cp)"

lemma set_join: "set (join sep ss) \<subseteq> set sep \<union> (\<Union>s\<in>set ss. set s)"
  by (induction sep ss rule: join.induct) auto

lemma plain_showNat: "plain (showNat n)"
  unfolding plain_def
proof
  fix c
  assume "c \<in> set (showNat n)"
  then have c: "48 \<le> code c \<and> code c \<le> 57" by (rule showNat_chars)
  have "c \<noteq> CHR '':''" "c \<noteq> CHR '',''" using c by auto
  then show "c \<noteq> CHR '':'' \<and> c \<noteq> CHR '','' \<and> \<not> isSpace c" using c by (simp add: isSpace_def)
qed

lemma showEntry_chars:
  assumes "entry_ok e" and "c \<in> set (showEntry e)"
  shows "c \<noteq> CHR '','' \<and> \<not> isSpace c"
proof -
  obtain i host pp cp where e: "e = (i, host, pp, cp)" by (cases e) auto
  have all: "\<forall>s\<in>set [showNat i, host, pp, cp]. plain s" using assms(1) plain_showNat by (simp add: entry_ok_def e)
  have "c = CHR '':'' \<or> (\<exists>s\<in>set [showNat i, host, pp, cp]. c \<in> set s)"
    using assms(2) set_join [of "'':''" "[showNat i, host, pp, cp]"] unfolding showEntry_def e by auto
  then show ?thesis
  proof
    assume "c = CHR '':''"
    then show ?thesis by (simp add: isSpace_def)
  next
    assume "\<exists>s\<in>set [showNat i, host, pp, cp]. c \<in> set s"
    with all show ?thesis unfolding plain_def by blast
  qed
qed

lemma parseNode_showEntry:
  assumes "entry_ok e"
  shows "parseNode (showEntry e) = Inr (entryNode e)"
proof -
  obtain i host pp cp where e: "e = (i, host, pp, cp)" by (cases e) auto
  have "showEntry e \<noteq> []" by (simp add: showEntry_def e)
  then have "TrimSpace (showEntry e) = showEntry e"
    using showEntry_chars [OF assms] by (intro TrimSpace_id) simp_all
  moreover have "Split (CHR '':'') (showEntry e) = [showNat i, host, pp, cp]"
    unfolding showEntry_def e using assms plain_showNat [of i]
    by (simp only: prod.case) (rule Split_join, auto simp: plain_def entry_ok_def e)
  ultimately show ?thesis using assms
    by (simp add: parseNode_def Atoi_showNat e entryNode_def entry_ok_def)
qed

lemma parseNodes_show:
  assumes "list_all entry_ok es"
  shows "parseNodes (map showEntry es) m = Inr (fold (\<lambda>(i, n). put i n) (map entryNode es) m)"
  using assms by (induction es arbitrary: m) (auto simp: parseNode_showEntry case_prod_beta)

lemma fold_put_new:
  assumes "distinct (map fst ps)" and "fst ` set ps \<inter> fst ` set m = {}"
  shows "fold (\<lambda>(k, v). put k v) ps m = m @ ps"
  using assms
proof (induction ps arbitrary: m)
  case (Cons p ps)
  obtain k v where p: "p = (k, v)" by (cases p)
  have "k \<notin> fst ` set m" using Cons.prems(2) p by auto
  then have "put k v m = m @ [(k, v)]" by (induction m) auto
  moreover have "fst ` set ps \<inter> fst ` set (m @ [(k, v)]) = {}" using Cons.prems p by auto
  ultimately show ?case using Cons.IH [of "m @ [(k, v)]"] Cons.prems(1) p by simp
qed simp

lemma entryNode_ids:
  assumes "list_all entry_ok es" and "distinct (map fst es)"
  shows "distinct (map (PaxosID \<circ> fst) (map entryNode es))"
    and "\<forall>e\<in>set es. PxInt (fst (entryNode e)) = int (fst e)"
proof -
  have px: "PxInt (fst (entryNode e)) = int (fst e)" if "entry_ok e" for e
    using that by (cases e) (simp add: entryNode_def PxInt_def entry_ok_def signed_of_nat signed_take_bit_int_eq_self)
  with assms(1) show all: "\<forall>e\<in>set es. PxInt (fst (entryNode e)) = int (fst e)" by (auto simp: list_all_iff)
  have "inj_on (\<lambda>e. PaxosID (fst (entryNode e))) (set es)"
  proof (rule inj_onI)
    fix a b
    assume ab: "a \<in> set es" "b \<in> set es" "PaxosID (fst (entryNode a)) = PaxosID (fst (entryNode b))"
    then have "int (fst a) = int (fst b)" using all by (metis PxInt_def)
    then show "a = b" using ab assms(2) by (simp add: distinct_map inj_on_def)
  qed
  then show "distinct (map (PaxosID \<circ> fst) (map entryNode es))"
    using assms(2) by (simp add: distinct_map comp_def)
qed

text \<open>
  A configuration that lists nodes with the numbers from 0 on, in any order, gives a well-formed node
  map of exactly these nodes, whatever the order in which Go's maps are iterated over.
\<close>

theorem node_list_roundtrip:
  assumes "lookup (cfg_values c) key = Some (showEntries es)" and "es \<noteq> []" and "list_all entry_ok es"
    and "distinct (map fst es)" and "\<forall>e\<in>set es. fst e < length es" and "\<And>m. mset (order m) = mset m"
  shows "\<exists>nm. GetNodeMap order key c = Ok (Inr nm) \<and> wf_NodeMap nm \<and> set (nodes nm) = set (map entryNode es)"
proof -
  let ?ns = "map entryNode es"
  note ids = entryNode_ids [OF assms(3,4)]
  have "showEntries es \<noteq> []"
    using assms(2) by (cases es; cases "tl es") (simp_all add: showEntries_def showEntry_def split: prod.split)
  moreover have "\<forall>s\<in>set (map showEntry es). CHR '','' \<notin> set s"
  proof
    fix s
    assume "s \<in> set (map showEntry es)"
    then obtain e where "e \<in> set es" "s = showEntry e" by auto
    then show "CHR '','' \<notin> set s" using assms(3) showEntry_chars [of e] unfolding list_all_iff by blast
  qed
  then have "Split (CHR '','') (showEntries es) = map showEntry es"
    unfolding showEntries_def using assms(2) by (intro Split_join) simp
  moreover have "distinct (map fst ?ns)"
    using ids(1) by (metis distinct_map inj_on_imageI2 map_map)
  then have "parseNodes (map showEntry es) [] = Inr ?ns"
    using parseNodes_show [OF assms(3), of "[]"] fold_put_new [of ?ns "[]"] by simp
  ultimately have get: "GetNodeMap order key c = bind_result (NewNodeMap (order ?ns)) (\<lambda>nm. Ok (Inr nm))"
    using assms(1) by (simp add: GetNodeMap_def GetString_def)
  have same: "set (order ?ns) = set ?ns" "length (order ?ns) = length es"
    using mset_eq_setD [OF assms(6) [of ?ns]] mset_eq_length [OF assms(6) [of ?ns]] by (simp_all only: length_map)
  have perm: "mset (map (PaxosID \<circ> fst) (order ?ns)) = mset (map (PaxosID \<circ> fst) ?ns)"
    using assms(6) [of ?ns] by (simp only: mset_map)
  have dist: "distinct (map (PaxosID \<circ> fst) (order ?ns))"
    using ids(1) mset_eq_imp_distinct_iff [OF perm] by (rule iffD2 [rotated])
  have "length es \<le> 128"
  proof -
    have "fst ` set es \<subseteq> {..<128}" using assms(3) by (auto simp: list_all_iff entry_ok_def)
    then have "card (fst ` set es) \<le> 128" using card_mono [of "{..<128 :: nat}"] by simp
    then show ?thesis using distinct_card [OF assms(4)] by simp
  qed
  then have n: "unat (of_nat (length (order ?ns)) :: 64 word) = length es"
    using same(2) by (simp add: unat_of_nat)
  have "\<forall>i\<in>fst ` set (order ?ns). 0 \<le> PxInt i \<and> PxInt i < int (unat (of_nat (length (order ?ns)) :: 64 word))"
  proof
    fix i
    assume "i \<in> fst ` set (order ?ns)"
    then obtain e where "e \<in> set es" "i = fst (entryNode e)" unfolding same(1) by auto
    then show "0 \<le> PxInt i \<and> PxInt i < int (unat (of_nat (length (order ?ns)) :: 64 word))"
      using ids(2) assms(5) unfolding n by simp
  qed
  from NewNodeMapWithCount_wf [OF dist this] obtain nm where
    "NewNodeMap (order ?ns) = Inr nm" "wf_NodeMap nm" "nodes nm = order ?ns"
    unfolding NewNodeMap_eq by blast
  then show ?thesis using get same(1) by simp
qed

theorem node_list_roundtrip_witness:
  "\<exists>nm. GetNodeMap (\<lambda>m. m) ''nodes'' \<lparr>cfg_values = [(''nodes'', ''1:b:1:2,0:a:1:2'')]\<rparr> = Ok (Inr nm) \<and> wf_NodeMap nm \<and>
    set (nodes nm) = {(ID 1 0, NewNode ''b'' ''1'' ''2'' True True True), (ID 0 0, NewNode ''a'' ''1'' ''2'' True True True)}"
proof -
  let ?es = "[(1, ''b'', ''1'', ''2''), (0, ''a'', ''1'', ''2'')] :: (nat \<times> string \<times> string \<times> string) list"
  have "showEntries ?es = ''1:b:1:2,0:a:1:2''" by code_simp
  then show ?thesis
    using node_list_roundtrip [of "\<lparr>cfg_values = [(''nodes'', ''1:b:1:2,0:a:1:2'')]\<rparr>" "''nodes''" ?es "\<lambda>m. m"]
    by (simp add: entry_ok_def plain_def isSpace_def entryNode_def less_Suc_eq)
qed

text \<open>Numbers that begin at 1 make every replica panic at its start.\<close>

lemma node_numbers_from_1:
  "GetNodeMap (\<lambda>m. m) ''nodes'' \<lparr>cfg_values = [(''nodes'', ''1:a:1:2, 2:b:1:2'')]\<rparr> = Fault IndexOutOfRange"
proof -
  have "Split (CHR '','') ''1:a:1:2, 2:b:1:2'' = [''1:a:1:2'', '' 2:b:1:2'']" by simp
  moreover have "Atoi ''1'' = Some 1" "Atoi ''2'' = Some 2"
    by (simp_all add: Atoi_def parseUint_def digitOf_def)
  moreover have "TrimSpace ''1:a:1:2'' = ''1:a:1:2''" "TrimSpace '' 2:b:1:2'' = ''2:b:1:2''"
    by (simp_all add: TrimSpace_def isSpace_def)
  ultimately show ?thesis
    by (simp add: GetNodeMap_def GetString_def parseNode_def NewNodeMap_def NewNodeMapWithCount_def setEpoch_def
      PxInt_def update_index_def)
qed

text \<open>With the default for the failure handling, or with a space around it, no new replica can be made.\<close>

lemma transfer_needs_exact_handling:
  "GenerateNodeMapAndConfig \<lparr>tc_ID = i, tc_NodeMap = ns, tc_ConfigMap = []\<rparr> = Ok (Inl (UnknownHandling ''None''))"
  "GenerateNodeMapAndConfig \<lparr>tc_ID = i, tc_NodeMap = ns, tc_ConfigMap = [(''failureHandlingType'', '' Reconfiguration'')]\<rparr> =
    Ok (Inl (UnknownHandling '' Reconfiguration''))"
proof -
  have "ToLower ''None'' = ''none''" "ToLower '' Reconfiguration'' = '' reconfiguration''"
    by code_simp+
  then show "GenerateNodeMapAndConfig \<lparr>tc_ID = i, tc_NodeMap = ns, tc_ConfigMap = []\<rparr> = Ok (Inl (UnknownHandling ''None''))"
    "GenerateNodeMapAndConfig \<lparr>tc_ID = i, tc_NodeMap = ns, tc_ConfigMap = [(''failureHandlingType'', '' Reconfiguration'')]\<rparr> =
      Ok (Inl (UnknownHandling '' Reconfiguration''))"
    by (simp_all add: GenerateNodeMapAndConfig_def GetString_def newConfigFromValues_def DefFailureHandlingType_def Let_def)
qed

end
