(* ===== verification/NodeInit.thy ===== *)
theory NodeInit
  imports Config "HOL-Library.Signed_Division"
begin

text \<open>
  Node initialisation (\<open>src/nodeinit/\<close>): the providers of standby nodes, the listener with which a standby
  process waits for its identity, its configuration and the application state, and the dialogue of the
  replica that initialises it. Several replicas may run the dialogue with one listener at a time; each of
  its connections is handled by a goroutine of its own.
\<close>

section \<open>Providers\<close>

record KvsReplicaProvider =
  counter :: int
  standbys :: "Node list"

datatype provider = Noop | Mock | Kvs KvsReplicaProvider

text \<open>Go's division and remainder round towards zero; a remainder by zero panics.\<close>

definition NewKvsReplicaProvider :: "int \<Rightarrow> Node list \<Rightarrow> KvsReplicaProvider result" where
  "NewKvsReplicaProvider startc ns =
     (if ns = [] then Fault DivideByZero
      else Ok \<lparr>counter = (startc sdiv 2) smod int (length ns), standbys = ns\<rparr>)"

definition kvs_GetReplica :: "KvsReplicaProvider \<Rightarrow> (Node option \<times> KvsReplicaProvider) result" where
  "kvs_GetReplica krp =
     (let ns = standbys krp; c = counter krp in
      if ns = [] then Ok (None, krp)
      else bind_result (index ns c) (\<lambda>replica.
        if c = int (length ns) - 1 then Ok (Some replica, krp\<lparr>standbys := take (nat c) ns, counter := 0\<rparr>)
        else Ok (Some replica, krp\<lparr>standbys := take (nat c) ns @ drop (nat c + 1) ns\<rparr>)))"

definition mock_GetReplica :: "Node" where
  "mock_GetReplica = NewNode ''127.0.0.1'' ''9020'' ''9021'' True True True"

fun GetReplica :: "provider \<Rightarrow> (Node option \<times> provider) result" where
  "GetReplica Noop = Ok (None, Noop)"
| "GetReplica Mock = Ok (Some mock_GetReplica, Mock)"
| "GetReplica (Kvs krp) = bind_result (kvs_GetReplica krp) (\<lambda>(n, krp). Ok (n, Kvs krp))"

text \<open>
  The provider is made once per process: later calls return the first one, whatever they ask for. The
  error of a list of standbys that cannot be read is a warning, and leaves the list empty.
\<close>

definition DefNodeInitReplicaProvider :: string where "DefNodeInitReplicaProvider = ''Disabled''"

definition GetReplicaProvider :: "int \<Rightarrow> Config \<Rightarrow> provider option \<Rightarrow> provider result" where
  "GetReplicaProvider pid cfg rp =
     (case rp of
        Some p \<Rightarrow> Ok p
      | None \<Rightarrow>
          (let name = TrimSpace (ToLower (GetString ''nodeInitReplicaProvider'' DefNodeInitReplicaProvider cfg)) in
           if name = ''mock'' then Ok Mock
           else if name = ''kvs'' then
             (case GetNodeList ''nodeInitStandbys'' cfg of
                Inl _ \<Rightarrow> bind_result (NewKvsReplicaProvider pid []) (\<lambda>k. Ok (Kvs k))
              | Inr ns \<Rightarrow> bind_result (NewKvsReplicaProvider pid ns) (\<lambda>k. Ok (Kvs k)))
           else Ok Noop))"

section \<open>The listener of a standby process\<close>

datatype init_state = Preinit | Listening | Responding | Transfering | Initialized | Activated | Stopped

type_synonym app_state = "64 word \<times> 8 word list"

record TransferRequest =
  trq_ID :: gid
  trq_Config :: TransferConfig
  trq_AppState :: app_state

datatype init_reply = InitResponse bool init_state | TransferResponse bool string

text \<open>
  How far \<open>handleConnection\<close> has come on one connection: it waits for the request, is about to refuse it,
  waits for the transfer, for the standby process to take the data, for the process to apply it, or has
  answered and is about to set the state of the listener.
\<close>

datatype phase =
    AwaitRequest | Nacking | AwaitTransfer | Handover TransferRequest | Applying TransferRequest
  | Answered bool | Closed

record InitListener =
  initState :: init_state
  accepting :: bool
  conns :: "phase list"
  replies :: "(nat \<times> init_reply) list"
  waiting :: nat
  received :: "TransferRequest list"

definition NewInitListener :: InitListener where
  "NewInitListener =
     \<lparr>initState = Preinit, accepting = False, conns = [], replies = [], waiting = 0, received = []\<rparr>"

definition initl_setState :: "init_state \<Rightarrow> InitListener \<Rightarrow> InitListener" where
  "initl_setState s l = l\<lparr>initState := s\<rparr>"

definition phaseOf :: "nat \<Rightarrow> InitListener \<Rightarrow> phase" where
  "phaseOf i l = (if i < length (conns l) then conns l ! i else Closed)"

definition goto :: "nat \<Rightarrow> phase \<Rightarrow> InitListener \<Rightarrow> InitListener" where
  "goto i p l = l\<lparr>conns := (conns l)[i := p]\<rparr>"

definition reply :: "nat \<Rightarrow> init_reply \<Rightarrow> InitListener \<Rightarrow> InitListener" where
  "reply i r l = l\<lparr>replies := replies l @ [(i, r)]\<rparr>"

definition initl_Start :: "InitListener \<Rightarrow> InitListener" where
  "initl_Start l = (initl_setState Listening l)\<lparr>accepting := True\<rparr>"

definition initl_Stop :: "InitListener \<Rightarrow> InitListener" where
  "initl_Stop l = (initl_setState Stopped l)\<lparr>accepting := False\<rparr>"

definition canWaitForInitData :: "init_state \<Rightarrow> bool" where
  "canWaitForInitData s \<longleftrightarrow> s \<notin> {Initialized, Activated, Stopped}"

text \<open>\<open>WaitForInitData\<close> up to the channel it blocks on, and \<open>SetActivated\<close>: \<open>None\<close> is the error.\<close>

definition WaitForInitData :: "InitListener \<Rightarrow> InitListener option" where
  "WaitForInitData l = (if canWaitForInitData (initState l) then Some (l\<lparr>waiting := waiting l + 1\<rparr>) else None)"

definition SetActivated :: "InitListener \<Rightarrow> InitListener option" where
  "SetActivated l = (if initState l = Initialized then Some (initl_setState Activated l) else None)"

text \<open>
  The steps of the goroutines. Reading the state, answering and setting it are one step of a connection,
  because they happen under the lock; a refusal sends the state that it finds after the lock was given up.
\<close>

inductive initl_step :: "InitListener \<Rightarrow> InitListener \<Rightarrow> bool" where
  start: "initState l = Preinit \<Longrightarrow> initl_step l (initl_Start l)"
| accept: "accepting l \<Longrightarrow> initl_step l (l\<lparr>conns := conns l @ [AwaitRequest]\<rparr>)"
| no_request: "phaseOf i l = AwaitRequest \<Longrightarrow> initl_step l (goto i Closed l)"
| ack: "\<lbrakk>phaseOf i l = AwaitRequest; initState l = Listening\<rbrakk> \<Longrightarrow>
    initl_step l (goto i AwaitTransfer (initl_setState Transfering (reply i (InitResponse True Responding) l)))"
| ack_fails: "\<lbrakk>phaseOf i l = AwaitRequest; initState l = Listening\<rbrakk> \<Longrightarrow> initl_step l (goto i Closed l)"
| busy: "\<lbrakk>phaseOf i l = AwaitRequest; initState l \<noteq> Listening\<rbrakk> \<Longrightarrow> initl_step l (goto i Nacking l)"
| nack: "phaseOf i l = Nacking \<Longrightarrow>
    initl_step l (goto i Closed (reply i (InitResponse False (initState l)) l))"
| nack_fails: "phaseOf i l = Nacking \<Longrightarrow> initl_step l (goto i Closed l)"
| no_transfer: "phaseOf i l = AwaitTransfer \<Longrightarrow> initl_step l (goto i Closed (initl_setState Listening l))"
| transfer: "phaseOf i l = AwaitTransfer \<Longrightarrow> initl_step l (goto i (Handover d) l)"
| wait: "WaitForInitData l = Some l' \<Longrightarrow> initl_step l l'"
| take_data: "\<lbrakk>phaseOf i l = Handover d; 0 < waiting l\<rbrakk> \<Longrightarrow>
    initl_step l (goto i (Applying d) (l\<lparr>waiting := waiting l - 1, received := received l @ [d]\<rparr>))"
| answer_error: "phaseOf i l = Applying d \<Longrightarrow>
    initl_step l (goto i (Answered False) (reply i (TransferResponse False err) l))"
| answer_ok: "phaseOf i l = Applying d \<Longrightarrow>
    initl_step l (goto i (Answered True) (reply i (TransferResponse True []) l))"
| answer_fails: "phaseOf i l = Applying d \<Longrightarrow> initl_step l (goto i (Answered ok) l)"
| finish: "phaseOf i l = Answered ok \<Longrightarrow>
    initl_step l (goto i Closed (initl_setState (if ok then Initialized else Listening) l))"
| activate: "SetActivated l = Some l' \<Longrightarrow> initl_step l l'"
| stop: "initl_step l (initl_Stop l)"

inductive initl_reach :: "InitListener \<Rightarrow> bool" where
  new: "initl_reach NewInitListener"
| step: "\<lbrakk>initl_reach l; initl_step l l'\<rbrakk> \<Longrightarrow> initl_reach l'"

section \<open>The replica that initialises a node\<close>

datatype init_error = ConnectFailed | IOFailed | NotReady init_state | Refused string

text \<open>
  \<open>InitNode\<close> against what the connection does: \<open>None\<close> in place of an answer is an error of writing the
  request or of reading the answer. The first result is what was sent.
\<close>

definition InitNode :: "bool \<Rightarrow> init_reply option \<Rightarrow> init_reply option \<Rightarrow> TransferRequest \<Rightarrow>
    TransferRequest option \<times> init_error option" where
  "InitNode connected iresp tresp treq =
     (if \<not> connected then (None, Some ConnectFailed)
      else case iresp of
        Some (InitResponse ack s) \<Rightarrow>
          (if \<not> ack then (None, Some (NotReady s))
           else (Some treq,
             case tresp of
               Some (TransferResponse success err) \<Rightarrow> (if success then None else Some (Refused err))
             | _ \<Rightarrow> Some IOFailed))
      | _ \<Rightarrow> (None, Some IOFailed))"

end
