(* ===== verification/NodeInitRuns.thy ===== *)
theory NodeInitRuns
  imports NodeInit
begin

text \<open>
  What node initialisation guarantees: a provider hands out every standby once, and a standby process runs
  one initialisation at a time and reports one success at most.
\<close>

section \<open>The standbys, one after the other\<close>

fun kvs_GetReplicas :: "nat \<Rightarrow> KvsReplicaProvider \<Rightarrow> Node option list result" where
  "kvs_GetReplicas 0 krp = Ok []"
| "kvs_GetReplicas (Suc n) krp =
     bind_result (kvs_GetReplica krp) (\<lambda>(r, krp).
       bind_result (kvs_GetReplicas n krp) (\<lambda>rs. Ok (r # rs)))"

text \<open>One call hands out the first standby of the rotated list and leaves the rest of it.\<close>

lemma kvs_GetReplica_next:
  assumes "c < length ns"
  shows "\<exists>c' ns'. kvs_GetReplica \<lparr>counter = int c, standbys = ns\<rparr> =
      Ok (Some (ns ! c), \<lparr>counter = int c', standbys = ns'\<rparr>) \<and>
    (c' < length ns' \<or> c' = 0 \<and> ns' = []) \<and> length ns = Suc (length ns') \<and>
    drop c ns @ take c ns = ns ! c # drop c' ns' @ take c' ns'"
proof (cases "c = length ns - 1")
  case True
  then have eq: "int c = int (length ns) - 1" and "ns \<noteq> []" using assms by auto
  have "kvs_GetReplica \<lparr>counter = int c, standbys = ns\<rparr> =
      Ok (Some (ns ! c), \<lparr>counter = int 0, standbys = take c ns\<rparr>)"
    using assms \<open>ns \<noteq> []\<close> by (simp add: kvs_GetReplica_def eq [symmetric] Let_def)
  moreover have "drop c ns = [ns ! c]"
    using True assms by (simp add: Cons_nth_drop_Suc [symmetric])
  ultimately show ?thesis using assms True by (intro exI [of _ 0] exI [of _ "take c ns"]) auto
next
  case False
  then have neq: "int c \<noteq> int (length ns) - 1" and "ns \<noteq> []" using assms by auto
  have "kvs_GetReplica \<lparr>counter = int c, standbys = ns\<rparr> =
      Ok (Some (ns ! c), \<lparr>counter = int c, standbys = take c ns @ drop (c + 1) ns\<rparr>)"
    using assms \<open>ns \<noteq> []\<close> neq by (simp add: kvs_GetReplica_def nat_add_distrib)
  moreover have "drop c ns = ns ! c # drop (c + 1) ns"
    using assms by (simp add: Cons_nth_drop_Suc)
  ultimately show ?thesis
    using assms False by (intro exI [of _ c] exI [of _ "take c ns @ drop (c + 1) ns"]) auto
qed

lemma kvs_GetReplicas_all:
  assumes "c < length ns \<or> c = 0 \<and> ns = []"
  shows "kvs_GetReplicas (length ns + 1) \<lparr>counter = int c, standbys = ns\<rparr> =
    Ok (map Some (drop c ns @ take c ns) @ [None])"
  using assms
proof (induction "length ns" arbitrary: c ns)
  case 0
  then show ?case by (simp add: kvs_GetReplica_def)
next
  case (Suc n)
  have "c < length ns" using Suc.hyps(2) Suc.prems by auto
  from kvs_GetReplica_next [OF this] obtain c' ns'
    where call: "kvs_GetReplica \<lparr>counter = int c, standbys = ns\<rparr> =
        Ok (Some (ns ! c), \<lparr>counter = int c', standbys = ns'\<rparr>)"
      and c': "c' < length ns' \<or> c' = 0 \<and> ns' = []" and len: "length ns = Suc (length ns')"
      and eq: "drop c ns @ take c ns = ns ! c # drop c' ns' @ take c' ns'" by blast
  have "kvs_GetReplicas (length ns' + 1) \<lparr>counter = int c', standbys = ns'\<rparr> =
      Ok (map Some (drop c' ns' @ take c' ns') @ [None])"
    using Suc.hyps(2) len c' by (intro Suc.hyps(1)) auto
  then show ?case
    unfolding len eq by (simp only: add.commute [of _ 1] plus_1_eq_Suc kvs_GetReplicas.simps(2) call
        bind_result_simps prod.case) simp
qed

lemma sdiv_smod_nonneg: "0 \<le> p \<Longrightarrow> 0 < n \<Longrightarrow> (p sdiv 2) smod int n = int (nat (p div 2) mod n)"
  by (simp add: signed_divide_int_def signed_modulo_int_def zmod_int sgn_if div_int_pos_iff minus_mult_div_eq_mod)

text \<open>
  The provider for the key-value store hands out every standby node of the configuration exactly once,
  in the order of the list from the place that the replica's id selects, and then none.
\<close>

theorem provider_gives_each_standby_once:
  assumes "NewKvsReplicaProvider pid ns = Ok krp" and "0 \<le> pid"
  shows "kvs_GetReplicas (length ns + 1) krp = Ok (map Some (rotate (nat (pid div 2)) ns) @ [None])"
proof -
  have ns: "ns \<noteq> []" and k: "krp = \<lparr>counter = (pid sdiv 2) smod int (length ns), standbys = ns\<rparr>"
    using assms(1) by (auto simp: NewKvsReplicaProvider_def split: if_splits)
  let ?c = "nat (pid div 2) mod length ns"
  have "krp = \<lparr>counter = int ?c, standbys = ns\<rparr>"
    unfolding k using assms(2) ns by (subst sdiv_smod_nonneg) auto
  moreover have "?c < length ns" using ns by simp
  ultimately show ?thesis using kvs_GetReplicas_all [of ?c ns] by (simp add: rotate_drop_take)
qed

definition threeNodes :: "Node list" where
  "threeNodes = map (\<lambda>h. NewNode h ''1'' ''2'' True True True) [''a'', ''b'', ''c'']"

theorem provider_gives_each_standby_once_witness:
  "kvs_GetReplicas 4 \<lparr>counter = 2, standbys = threeNodes\<rparr> =
     Ok (map Some (rotate 2 threeNodes) @ [None])"
proof -
  have "NewKvsReplicaProvider 5 threeNodes = Ok \<lparr>counter = 2, standbys = threeNodes\<rparr>"
    by (simp add: NewKvsReplicaProvider_def threeNodes_def signed_divide_int_def signed_modulo_int_def)
  from provider_gives_each_standby_once [OF this] show ?thesis
    by (simp add: threeNodes_def numeral_eq_Suc)
qed

text \<open>Without a list of standbys the provider cannot be made: the remainder by its length panics.\<close>

lemma kvs_provider_needs_standbys:
  assumes "TrimSpace (ToLower (GetString ''nodeInitReplicaProvider'' DefNodeInitReplicaProvider cfg)) = ''kvs''"
    and "GetNodeList ''nodeInitStandbys'' cfg = Inr []"
  shows "GetReplicaProvider pid cfg None = Fault DivideByZero"
  using assms by (simp add: GetReplicaProvider_def NewKvsReplicaProvider_def)

section \<open>One initialisation at a time\<close>

fun inTransfer :: "phase \<Rightarrow> bool" where
  "inTransfer AwaitTransfer = True"
| "inTransfer (Handover d) = True"
| "inTransfer (Applying d) = True"
| "inTransfer (Answered ok) = True"
| "inTransfer _ = False"

definition transfers :: "InitListener \<Rightarrow> nat" where
  "transfers l = length (filter inTransfer (conns l))"

definition accepted :: "init_reply \<Rightarrow> bool" where
  "accepted r \<longleftrightarrow> r = TransferResponse True []"

definition successes :: "InitListener \<Rightarrow> nat" where
  "successes l = length (filter (accepted \<circ> snd) (replies l))"

definition reported :: "InitListener \<Rightarrow> nat" where
  "reported l = length (filter (\<lambda>p. p = Answered True) (conns l))"

text \<open>
  The invariant: one connection at most is in its transfer, only in the state for it (or after a stop); a
  success was reported once at most, and since then no transfer began.
\<close>

definition initl_inv :: "InitListener \<Rightarrow> bool" where
  "initl_inv l \<longleftrightarrow>
     transfers l \<le> 1 \<and> (0 < transfers l \<longrightarrow> initState l \<in> {Transfering, Stopped}) \<and>
     successes l \<le> 1 \<and>
     (successes l = 1 \<longrightarrow> initState l \<notin> {Preinit, Listening} \<and>
        transfers l = reported l \<and> (initState l = Transfering \<longrightarrow> 0 < transfers l))"

lemma filter_update_length:
  "i < length xs \<Longrightarrow>
   length (filter P (xs[i := y])) + (if P (xs ! i) then 1 else 0) = length (filter P xs) + (if P y then 1 else 0)"
proof (induction xs arbitrary: i)
  case (Cons x xs)
  then show ?case by (cases i) auto
qed simp

lemma phaseOf_length: "phaseOf i l = p \<Longrightarrow> p \<noteq> Closed \<Longrightarrow> i < length (conns l) \<and> conns l ! i = p"
  by (auto simp: phaseOf_def split: if_splits)

lemma conns_simps [simp]:
  "conns (initl_setState s l) = conns l" "conns (reply i r l) = conns l"
  "initState (initl_setState s l) = s" "initState (reply i r l) = initState l" "initState (goto i p l) = initState l"
  "replies (initl_setState s l) = replies l" "replies (goto i p l) = replies l"
  "replies (reply i r l) = replies l @ [(i, r)]"
  by (simp_all add: initl_setState_def reply_def goto_def)

text \<open>What a step of a connection does to the two counts.\<close>

lemma goto_counts:
  assumes "phaseOf i l = p" and "p \<noteq> Closed" and "conns l' = conns l"
  shows "transfers (goto i q l') + (if inTransfer p then 1 else 0) = transfers l + (if inTransfer q then 1 else 0)"
    and "reported (goto i q l') + (if p = Answered True then 1 else 0) = reported l + (if q = Answered True then 1 else 0)"
  using phaseOf_length [OF assms(1,2)] assms(3)
    filter_update_length [of i "conns l" inTransfer q]
    filter_update_length [of i "conns l" "\<lambda>p. p = Answered True" q]
  by (simp_all add: transfers_def reported_def goto_def)

lemma successes_goto [simp]: "successes (goto i p l) = successes l"
  by (simp add: successes_def)

lemma successes_other:
  "successes (initl_setState s l) = successes l"
  "successes (reply i r l) = successes l + (if accepted r then 1 else 0)"
  by (simp_all add: successes_def)

lemma reported_le: "reported l \<le> transfers l"
proof -
  have "length (filter (\<lambda>p. p = Answered True) ps) \<le> length (filter inTransfer ps)" for ps
    by (induction ps) auto
  then show ?thesis by (simp add: reported_def transfers_def)
qed

text \<open>The invariant rests on four observations of the listener.\<close>

lemma initl_inv_cong:
  assumes "transfers l' = transfers l" and "reported l' = reported l" and "successes l' = successes l"
    and "initState l' = initState l"
  shows "initl_inv l' = initl_inv l"
  using assms by (simp add: initl_inv_def)

lemma counts_waiting [simp]:
  "transfers (l\<lparr>waiting := n\<rparr>) = transfers l" "transfers (l\<lparr>received := ds\<rparr>) = transfers l"
  "transfers (l\<lparr>accepting := b\<rparr>) = transfers l" "transfers (initl_setState s l) = transfers l"
  "reported (l\<lparr>waiting := n\<rparr>) = reported l" "reported (l\<lparr>received := ds\<rparr>) = reported l"
  "reported (l\<lparr>accepting := b\<rparr>) = reported l" "reported (initl_setState s l) = reported l"
  "successes (l\<lparr>waiting := n\<rparr>) = successes l" "successes (l\<lparr>received := ds\<rparr>) = successes l"
  "successes (l\<lparr>accepting := b\<rparr>) = successes l"
  by (simp_all add: transfers_def reported_def successes_def)

text \<open>A connection that has not reported a success is not counted among those that have.\<close>

lemma reported_less:
  assumes "phaseOf i l = p" and "inTransfer p" and "p \<noteq> Answered True"
  shows "reported l < transfers l"
proof -
  have "p \<noteq> Closed" using assms(2) by auto
  then show ?thesis
    using goto_counts [OF assms(1) _ refl, of Closed] assms(2,3) reported_le [of "goto i Closed l"] by simp
qed

lemma initl_inv_idle:
  assumes "initl_inv l" and "phaseOf i l = p" and "p \<noteq> Closed"
    and "\<not> inTransfer p" and "\<not> inTransfer q" and "p \<noteq> Answered True" and "q \<noteq> Answered True"
    and "conns l' = conns l" and "successes l' = successes l" and "initState l' = initState l"
  shows "initl_inv (goto i q l')"
proof -
  have "transfers (goto i q l') = transfers l" and "reported (goto i q l') = reported l"
    using goto_counts [OF assms(2,3,8), of q] assms(4-7) by simp_all
  then show ?thesis using assms(1,9,10) by (subst initl_inv_cong [where l = l]) simp_all
qed

lemma initl_inv_step:
  assumes inv: "initl_inv l" and "initl_step l l'"
  shows "initl_inv l'"
  using assms(2)
proof cases
  case start
  then show ?thesis using inv
    by (simp add: initl_inv_def initl_Start_def transfers_def successes_def reported_def initl_setState_def)
next
  case accept
  then show ?thesis using inv
    by (subst initl_inv_cong [where l = l]) (simp_all add: transfers_def successes_def reported_def)
next
  case (no_request i)
  then show ?thesis using inv by (simp add: initl_inv_idle)
next
  case (ack i)
  note c = goto_counts [OF ack(2), where l' = "initl_setState Transfering (reply i (InitResponse True Responding) l)" and q = AwaitTransfer, simplified]
  show ?thesis unfolding ack(1) using inv c ack(3)
    by (auto simp: initl_inv_def successes_other accepted_def)
next
  case (ack_fails i)
  then show ?thesis using inv by (simp add: initl_inv_idle)
next
  case (busy i)
  then show ?thesis using inv by (simp add: initl_inv_idle)
next
  case (nack i)
  then show ?thesis using inv by (simp add: initl_inv_idle successes_other accepted_def)
next
  case (nack_fails i)
  then show ?thesis using inv by (simp add: initl_inv_idle)
next
  case (no_transfer i)
  note c = goto_counts [OF no_transfer(2), where l' = "initl_setState Listening l" and q = Closed, simplified]
  show ?thesis unfolding no_transfer(1) using inv c reported_le [of "goto i Closed (initl_setState Listening l)"]
    by (auto simp: initl_inv_def successes_other)
next
  case (transfer i d)
  note c = goto_counts [OF transfer(2), where l' = l and q = "Handover d", simplified]
  show ?thesis unfolding transfer(1) using inv c by (auto simp: initl_inv_def)
next
  case wait
  then have "l' = l\<lparr>waiting := waiting l + 1\<rparr>" by (simp add: WaitForInitData_def split: if_splits)
  then show ?thesis using inv by (subst initl_inv_cong [where l = l]) simp_all
next
  case (take_data i d)
  note c = goto_counts [OF take_data(2), where l' = "l\<lparr>waiting := waiting l - 1, received := received l @ [d]\<rparr>"
      and q = "Applying d", simplified]
  show ?thesis unfolding take_data(1) using inv c by (auto simp: initl_inv_def)
next
  case (answer_error i d err)
  note c = goto_counts [OF answer_error(2), where l' = "reply i (TransferResponse False err) l" and q = "Answered False", simplified]
  show ?thesis unfolding answer_error(1) using inv c
    by (auto simp: initl_inv_def successes_other accepted_def)
next
  case (answer_ok i d)
  note c = goto_counts [OF answer_ok(2), where l' = "reply i (TransferResponse True []) l" and q = "Answered True", simplified]
  show ?thesis unfolding answer_ok(1) using inv c reported_less [OF answer_ok(2)]
    by (auto simp: initl_inv_def successes_other accepted_def)
next
  case (answer_fails i d ok)
  note c = goto_counts [OF answer_fails(2), where l' = l and q = "Answered ok", simplified]
  show ?thesis unfolding answer_fails(1) using inv c reported_less [OF answer_fails(2)] by (auto simp: initl_inv_def)
next
  case (finish i ok)
  note c = goto_counts [OF finish(2), where l' = "initl_setState (if ok then Initialized else Listening) l" and q = Closed, simplified]
  show ?thesis unfolding finish(1)
    using inv c reported_le [of "goto i Closed (initl_setState (if ok then Initialized else Listening) l)"]
    by (auto simp: initl_inv_def successes_other)
next
  case activate
  then show ?thesis using inv
    by (auto simp: SetActivated_def initl_inv_def successes_other split: if_splits)
next
  case stop
  then show ?thesis using inv by (simp add: initl_inv_def initl_Stop_def successes_other)
qed

lemma initl_reach_inv: "initl_reach l \<Longrightarrow> initl_inv l"
  by (induction rule: initl_reach.induct)
    (simp_all add: initl_inv_step, simp add: initl_inv_def NewInitListener_def transfers_def successes_def)

text \<open>
  A standby process runs one initialisation at a time, however many replicas try: one connection at
  most is in its transfer, and the listener is ready for a request only when none is.
\<close>

theorem one_transfer_at_a_time:
  assumes "initl_reach l"
  shows "transfers l \<le> 1 \<and> (initState l = Listening \<longrightarrow> transfers l = 0)"
  using initl_reach_inv [OF assms] by (auto simp: initl_inv_def)

text \<open>A run: one connection in its transfer while another is refused.\<close>

definition initRun :: "InitListener list" where
  "initRun =
     (let l1 = initl_Start NewInitListener;
          l2 = l1\<lparr>conns := [AwaitRequest]\<rparr>;
          l3 = l2\<lparr>conns := [AwaitRequest, AwaitRequest]\<rparr>;
          l4 = goto 0 AwaitTransfer (initl_setState Transfering (reply 0 (InitResponse True Responding) l3));
          l5 = goto 1 Nacking l4;
          l6 = goto 1 Closed (reply 1 (InitResponse False (initState l5)) l5)
      in [l1, l2, l3, l4, l5, l6])"

lemma initRun_reach: "initl_reach (initRun ! 5)"
proof -
  note defs = initRun_def Let_def initl_Start_def NewInitListener_def initl_setState_def goto_def reply_def phaseOf_def
  have "initl_step NewInitListener (initRun ! 0)"
    using initl_step.start [of NewInitListener] by (simp add: defs)
  moreover have "initl_step (initRun ! 0) (initRun ! 1)"
    using initl_step.accept [of "initRun ! 0"] by (simp add: defs)
  moreover have "initl_step (initRun ! 1) (initRun ! 2)"
    using initl_step.accept [of "initRun ! 1"] by (simp add: defs)
  moreover have "initl_step (initRun ! 2) (initRun ! 3)"
    using initl_step.ack [of 0 "initRun ! 2"] by (simp add: defs)
  moreover have "initl_step (initRun ! 3) (initRun ! 4)"
    using initl_step.busy [of 1 "initRun ! 3"] by (simp add: defs)
  moreover have "initl_step (initRun ! 4) (initRun ! 5)"
    using initl_step.nack [of 1 "initRun ! 4"] by (simp add: defs)
  ultimately show ?thesis by (meson initl_reach.intros)
qed

theorem one_transfer_at_a_time_witness:
  "transfers (initRun ! 5) \<le> 1 \<and> initState (initRun ! 5) = Transfering \<and> replies (initRun ! 5) =
    [(0, InitResponse True Responding), (1, InitResponse False Transfering)]"
  using one_transfer_at_a_time [OF initRun_reach]
  by (simp add: initRun_def Let_def initl_Start_def NewInitListener_def initl_setState_def goto_def reply_def)

text \<open>
  A standby process reports the success of an initialisation to one replica at most, and once it has it
  never waits for another request.
\<close>

theorem initialised_once:
  assumes "initl_reach l"
  shows "successes l \<le> 1 \<and> (successes l = 1 \<longrightarrow> initState l \<noteq> Listening)"
  using initl_reach_inv [OF assms] by (auto simp: initl_inv_def)

definition someTransfer :: TransferRequest where
  "someTransfer = \<lparr>trq_ID = ID 1 2,
     trq_Config = \<lparr>tc_ID = ID 1 2, tc_NodeMap = [], tc_ConfigMap = []\<rparr>, trq_AppState = (7, [])\<rparr>"

definition initDone :: "InitListener list" where
  "initDone =
     (let l1 = goto 0 (Handover someTransfer) (initRun ! 5);
          l2 = l1\<lparr>waiting := 1\<rparr>;
          l3 = goto 0 (Applying someTransfer) (l2\<lparr>waiting := 0, received := [someTransfer]\<rparr>);
          l4 = goto 0 (Answered True) (reply 0 (TransferResponse True []) l3);
          l5 = goto 0 Closed (initl_setState Initialized l4)
      in [l1, l2, l3, l4, l5])"

lemma initDone_reach: "initl_reach (initDone ! 4)"
proof -
  note defs = initDone_def initRun_def Let_def initl_Start_def NewInitListener_def initl_setState_def goto_def reply_def
    phaseOf_def WaitForInitData_def canWaitForInitData_def
  have "initl_step (initRun ! 5) (initDone ! 0)"
    using initl_step.transfer [of 0 "initRun ! 5" someTransfer] by (simp add: defs)
  moreover have "initl_step (initDone ! 0) (initDone ! 1)"
    using initl_step.wait [of "initDone ! 0" "initDone ! 1"] by (simp add: defs)
  moreover have "initl_step (initDone ! 1) (initDone ! 2)"
    using initl_step.take_data [of 0 "initDone ! 1" someTransfer] by (simp add: defs)
  moreover have "initl_step (initDone ! 2) (initDone ! 3)"
    using initl_step.answer_ok [of 0 "initDone ! 2" someTransfer] by (simp add: defs)
  moreover have "initl_step (initDone ! 3) (initDone ! 4)"
    using initl_step.finish [of 0 "initDone ! 3" True] by (simp add: defs)
  ultimately show ?thesis using initRun_reach by (meson initl_reach.intros)
qed

theorem initialised_once_witness:
  "successes (initDone ! 4) = 1 \<and> initState (initDone ! 4) \<noteq> Listening \<and> received (initDone ! 4) = [someTransfer]"
proof -
  note defs = initDone_def initRun_def Let_def initl_Start_def NewInitListener_def initl_setState_def goto_def reply_def
  have "successes (initDone ! 4) = 1" "received (initDone ! 4) = [someTransfer]"
    by (simp_all add: defs successes_def accepted_def)
  then show ?thesis using initialised_once [OF initDone_reach] by simp
qed

text \<open>
  The data of a transfer is handed to a process that waits for it. The standby process waits once: after an
  initialisation whose state could not be applied the listener takes the next request, and its transfer
  stays where it is.
\<close>

lemma handover_needs_waiting:
  assumes "initl_step l l'" and "phaseOf i l = Handover d" and "waiting l = 0"
  shows "phaseOf i l' = Handover d"
  using assms
  by (cases rule: initl_step.cases)
    (auto simp: phaseOf_def goto_def reply_def initl_setState_def initl_Start_def initl_Stop_def WaitForInitData_def
      SetActivated_def nth_append nth_list_update split: if_splits)

section \<open>Both ends of the dialogue\<close>

text \<open>A replica sends its transfer only to a listener that accepted it, and believes a success only if told.\<close>

lemma InitNode_success:
  "snd (InitNode c r1 r2 treq) = None \<Longrightarrow>
   c \<and> (\<exists>s. r1 = Some (InitResponse True s)) \<and> (\<exists>e. r2 = Some (TransferResponse True e)) \<and>
   fst (InitNode c r1 r2 treq) = Some treq"
  by (auto simp: InitNode_def split: if_splits option.splits init_reply.splits)

end
