(* ===== verification/Lifecycle.thy ===== *)
theory Lifecycle
  imports NodeInit
begin

text \<open>
  The life of a replica (\<open>src/goxos.go\<close>, \<open>src/server/init.go\<close>, \<open>start.go\<close>, \<open>stop.go\<close>,
  \<open>standby_server.go\<close>): which submodules a configuration makes, the order in which they are started and
  stopped, and the wait group that \<open>Stop\<close> waits for. A module whose goroutines run holds a number of the
  wait group; its own behaviour is in the theory of its package. The listeners open, and the keys of the
  broadcast protocols can be read.
\<close>

section \<open>State\<close>

datatype modul =
    GrpManager | Demux | Snd | HbEmitter | Detector | LeaderDetector | Prop | Acc | Lrn
  | ClientHandler | RingReplacerM | ReplacementM | ReconfigM | AReconfM

record Modules =
  mod_id :: gid
  mod_config :: Config
  mod_nodes :: NodeMap
  mod_lr :: bool
  mod_ar :: bool
  made :: "modul list"
  runProp :: bool
  runAcc :: bool
  runLrn :: bool
  going :: "modul list"
  wg :: int
  rp :: "provider option"
  looping :: bool

definition newModules :: "gid \<Rightarrow> Config \<Rightarrow> NodeMap \<Rightarrow> provider option \<Rightarrow> Modules" where
  "newModules i conf nm p =
     \<lparr>mod_id = i, mod_config = conf, mod_nodes = nm, mod_lr = False, mod_ar = False, made = [],
      runProp = False, runAcc = False, runLrn = False, going = [], wg = 0, rp = p, looping = False\<rparr>"

text \<open>A server cannot be made from a configuration whose nodes cannot be read.\<close>

definition initNodeMap ::
  "((gid \<times> Node) list \<Rightarrow> (gid \<times> Node) list) \<Rightarrow> gid \<Rightarrow> Config \<Rightarrow> provider option \<Rightarrow> Modules result" where
  "initNodeMap order i conf p =
     bind_result (GetNodeMap order ''nodes'' conf) (\<lambda>r.
       case r of Inl e \<Rightarrow> Fault (Panic ''nodes'') | Inr nm \<Rightarrow> Ok (newModules i conf nm p))"

definition protocolOf :: "Config \<Rightarrow> string" where
  "protocolOf conf = TrimSpace (ToLower (GetString ''protocol'' DefProtocol conf))"

text \<open>The names of failure handling are read in two ways: with and without the spaces around them.\<close>

definition fhLower :: "Config \<Rightarrow> string" where
  "fhLower conf = ToLower (GetString ''failureHandlingType'' DefFailureHandlingType conf)"

definition broadcastOnly :: "Config \<Rightarrow> bool" where
  "broadcastOnly conf \<longleftrightarrow> protocolOf conf \<in> {''authenticatedbc'', ''reliablebc''}"

definition makeM :: "modul list \<Rightarrow> Modules \<Rightarrow> Modules" where
  "makeM ms s = s\<lparr>made := made s @ ms\<rparr>"

text \<open>A call of a method of a module that was not made is a call through a nil pointer.\<close>

definition need :: "modul \<Rightarrow> Modules \<Rightarrow> Modules result" where
  "need m s = (if m \<in> set (made s) then Ok s else Fault NilDereference)"

section \<open>Making the modules\<close>

definition initGroupManager :: "Modules \<Rightarrow> Modules" where
  "initGroupManager s =
     makeM [GrpManager]
       (s\<lparr>mod_lr := fhLower (mod_config s) = ''livereplacement'',
          mod_ar := fhLower (mod_config s) = ''areconfiguration''\<rparr>)"

definition initNetwork :: "Modules \<Rightarrow> Modules" where
  "initNetwork s = makeM [Demux, Snd] s"

definition initLiveness :: "Modules \<Rightarrow> Modules result" where
  "initLiveness s =
     (if broadcastOnly (mod_config s) then Ok s
      else if nodes (mod_nodes s) = [] then Fault (Panic ''no nodes to rank'')
      else Ok (makeM [HbEmitter, Detector, LeaderDetector] s))"

definition setRoles :: "Node \<Rightarrow> Modules \<Rightarrow> Modules" where
  "setRoles node s = s\<lparr>runProp := Proposer node, runAcc := Acceptor node, runLrn := Learner node\<rparr>"

definition parallelProposers :: "Config \<Rightarrow> int" where
  "parallelProposers conf = GetInt ''parallelPaxosProposers'' 2 conf"

definition parallelAcceptors :: "Config \<Rightarrow> int" where
  "parallelAcceptors conf = GetInt ''parallelPaxosAcceptors'' 2 conf"

definition parallelLearners :: "Config \<Rightarrow> int" where
  "parallelLearners conf = GetInt ''parallelPaxosLearners'' 2 conf"

text \<open>Slices and channels of a negative length cannot be made.\<close>

definition createParallelPaxos :: "Modules \<Rightarrow> Modules result" where
  "createParallelPaxos s =
     (if mod_lr s \<or> mod_ar s then Fault (Panic ''Lr or Ar not supported in ParallelPaxos'')
      else bind_result (need LeaderDetector s) (\<lambda>s.
        if GetInt ''alpha'' 3 (mod_config s) < 0 then Fault (Panic ''makechan: size out of range'')
        else if parallelProposers (mod_config s) < 0 \<or> parallelLearners (mod_config s) < 0
        then Fault (Panic ''makeslice: len out of range'')
        else Ok (makeM [Prop, Acc, Lrn] s)))"

definition createMultiPaxos :: "Modules \<Rightarrow> Modules result" where
  "createMultiPaxos s = bind_result (need LeaderDetector s) (\<lambda>s. Ok (makeM [Prop, Acc, Lrn] s))"

definition createBatchPaxos :: "Modules \<Rightarrow> Modules result" where
  "createBatchPaxos s =
     (if GetInt ''batchMaxSize'' 1 (mod_config s) > 1 then Fault (Panic ''batchMaxSize'')
      else bind_result (need LeaderDetector s) (\<lambda>s. Ok (makeM [Prop, Acc, Lrn] s)))"

definition initPaxos :: "Modules \<Rightarrow> Modules result" where
  "initPaxos s =
     (case LookupNode (mod_id s) (mod_nodes s) of
        None \<Rightarrow> Fault (Panic ''initPaxos: can't find self in nodemap'')
      | Some node \<Rightarrow>
          (let s = setRoles node s; p = protocolOf (mod_config s) in
           if p = ''multipaxos'' then createMultiPaxos s
           else if p = ''parallelpaxos'' then createParallelPaxos s
           else if p = ''fastpaxos'' then Fault (Panic ''FastPaxos needs to be updated due to API changes'')
           else if p = ''batchpaxos'' then createBatchPaxos s
           else if p = ''authenticatedbc'' \<or> p = ''reliablebc'' then Ok (makeM [Prop, Acc, Lrn] s)
           else Fault (Panic ''Unknown paxos variant'')))"

text \<open>The provider is asked for with the Paxos id here, and with 0 by the handlers.\<close>

definition withProvider :: "int \<Rightarrow> Modules \<Rightarrow> Modules result" where
  "withProvider pid s =
     bind_result (GetReplicaProvider pid (mod_config s) (rp s)) (\<lambda>p. Ok (s\<lparr>rp := Some p\<rparr>))"

definition initRingReplacer :: "Modules \<Rightarrow> Modules result" where
  "initRingReplacer s =
     bind_result (withProvider (PxInt (mod_id s)) s) (\<lambda>s.
       bind_result (GetNext (mod_id s) (mod_nodes s)) (\<lambda>_. Ok (makeM [RingReplacerM] s)))"

definition initFailureHandling :: "Modules \<Rightarrow> Modules result" where
  "initFailureHandling s =
     (let fhType = TrimSpace (fhLower (mod_config s)) in
      if fhType = ''livereplacement'' then Ok (makeM [ReplacementM] s)
      else if fhType = ''reconfiguration'' then
        bind_result (need LeaderDetector s) (\<lambda>s.
          bind_result (withProvider 0 s) (\<lambda>s. Ok (makeM [ReconfigM] s)))
      else if fhType = ''areconfiguration'' then
        bind_result (need LeaderDetector s) (\<lambda>s.
          bind_result (withProvider 0 s) (\<lambda>s. Ok (makeM [AReconfM] s)))
      else Ok s)"

definition initClientHandler :: "Modules \<Rightarrow> Modules result" where
  "initClientHandler s =
     (if broadcastOnly (mod_config s) then Ok (makeM [ClientHandler] s)
      else case LookupNode (mod_id s) (mod_nodes s) of
        None \<Rightarrow> Fault (Panic ''could not find myself in configuration'')
      | Some _ \<Rightarrow> bind_result (need LeaderDetector s) (\<lambda>s. Ok (makeM [ClientHandler] s)))"

definition InitModules :: "Modules \<Rightarrow> Modules result" where
  "InitModules s =
     bind_result (initLiveness (initNetwork (initGroupManager s))) (\<lambda>s.
     bind_result (initPaxos s) (\<lambda>s.
     bind_result (initRingReplacer s) (\<lambda>s.
     bind_result (initFailureHandling s) initClientHandler)))"

definition InitModulesReconfig :: "Modules \<Rightarrow> Modules result" where
  "InitModulesReconfig s =
     bind_result (initLiveness (initNetwork (initGroupManager s))) (\<lambda>s.
     bind_result (initRingReplacer s) (\<lambda>s.
     bind_result (initFailureHandling s) initClientHandler))"

section \<open>Starting them\<close>

text \<open>
  How often a running module takes itself off the wait group when it is stopped. The parallel modules add
  their processors (and the proposer its demultiplexer) by themselves. The publisher of the broadcast
  protocols takes itself off while it starts, and the client handler that serves no clients never does.
\<close>

definition holds :: "Modules \<Rightarrow> modul \<Rightarrow> int" where
  "holds s m =
     (let conf = mod_config s in
      if broadcastOnly conf then (if m = Prop \<or> m = ClientHandler then 0 else 1)
      else if protocolOf conf = ''parallelpaxos'' then
        (if m = Prop then parallelProposers conf + 2
         else if m = Acc then max 0 (parallelAcceptors conf) + 1
         else if m = Lrn then parallelLearners conf + 1 else 1)
      else 1)"

text \<open>Which of the modules run after their start: those whose role the node has, as each package tests it.\<close>

definition runs :: "Modules \<Rightarrow> modul \<Rightarrow> bool" where
  "runs s m =
     (let p = protocolOf (mod_config s) in
      if p = ''multipaxos'' then
        (m = Prop \<longrightarrow> runProp s) \<and> (m = Acc \<longrightarrow> runAcc s) \<and> (m = Lrn \<longrightarrow> runLrn s)
      else if p = ''parallelpaxos'' then (m = Acc \<longrightarrow> runAcc s) \<and> (m = Lrn \<longrightarrow> runAcc s \<and> runLrn s)
      else if broadcastOnly (mod_config s) then
        (m = Prop \<longrightarrow> PaxosID (mod_id s) = 0) \<and> m \<noteq> ClientHandler
      else True)"

text \<open>
  The server counts the module before it starts it. What a module counts by itself (or takes off at
  once) is what it holds less that one.
\<close>

definition startModule :: "modul \<Rightarrow> Modules \<Rightarrow> Modules result" where
  "startModule m s =
     bind_result (need m s) (\<lambda>s.
       if runs s m then Ok (s\<lparr>wg := wg s + holds s m, going := going s @ [m]\<rparr>)
       else if broadcastOnly (mod_config s) \<and> m = Prop then Ok s
       else Ok (s\<lparr>wg := wg s + 1\<rparr>))"

fun startModules :: "modul list \<Rightarrow> Modules \<Rightarrow> Modules result" where
  "startModules [] s = Ok s"
| "startModules (m # ms) s = bind_result (startModule m s) (startModules ms)"

definition grpmgrStart :: "Modules \<Rightarrow> Modules result" where
  "grpmgrStart = startModule GrpManager"

definition networkStart :: "Modules \<Rightarrow> Modules result" where
  "networkStart = startModules [Demux, Snd]"

definition paxosStart :: "Modules \<Rightarrow> Modules result" where
  "paxosStart = startModules [Prop, Acc, Lrn]"

definition clientHandlerStart :: "Modules \<Rightarrow> Modules result" where
  "clientHandlerStart = startModule ClientHandler"

text \<open>The ring replacer subscribes to the failure detector when it starts.\<close>

definition ringReplacerStart :: "Modules \<Rightarrow> Modules result" where
  "ringReplacerStart s = bind_result (need Detector s) (startModule RingReplacerM)"

definition handlerOf :: "Config \<Rightarrow> modul list" where
  "handlerOf conf =
     (let fh = fhLower conf in
      if fh = ''livereplacement'' then [ReplacementM]
      else if fh = ''reconfiguration'' then [ReconfigM]
      else if fh = ''areconfiguration'' then [AReconfM] else [])"

definition failureHandlingStart :: "Modules \<Rightarrow> Modules result" where
  "failureHandlingStart s = startModules (handlerOf (mod_config s)) s"

definition startFdAndLd :: "Modules \<Rightarrow> Modules result" where
  "startFdAndLd = startModules [Detector, LeaderDetector]"

definition livenessStart :: "Modules \<Rightarrow> Modules result" where
  "livenessStart s =
     (if broadcastOnly (mod_config s) then Ok s else bind_result (startModule HbEmitter s) startFdAndLd)"

definition runLoop :: "Modules \<Rightarrow> Modules" where
  "runLoop s = s\<lparr>looping := True\<rparr>"

definition server_Start :: "Modules \<Rightarrow> Modules result" where
  "server_Start s =
     bind_result (grpmgrStart s) (\<lambda>s.
     bind_result (networkStart s) (\<lambda>s.
     bind_result (paxosStart s) (\<lambda>s.
     bind_result (clientHandlerStart s) (\<lambda>s.
     bind_result (ringReplacerStart s) (\<lambda>s.
     bind_result (failureHandlingStart s) (\<lambda>s.
     bind_result (livenessStart s) (\<lambda>s. Ok (runLoop s))))))))"

text \<open>
  A standby node waits for the handler that makes it a member between two of the steps. The argument is
  whether what it waits for arrives; without it the call does not return.
\<close>

definition awaitM :: "modul \<Rightarrow> bool \<Rightarrow> Modules \<Rightarrow> Modules result" where
  "awaitM m arrives s = bind_result (need m s) (\<lambda>s. if arrives then Ok s else Fault Diverges)"

definition StartReplacer :: "bool \<Rightarrow> Modules \<Rightarrow> Modules result" where
  "StartReplacer activated s =
     bind_result (grpmgrStart s) (\<lambda>s.
     bind_result (networkStart s) (\<lambda>s.
     bind_result (startModule HbEmitter s) (\<lambda>s.
     bind_result (failureHandlingStart s) (\<lambda>s.
     bind_result (awaitM ReplacementM activated s) (\<lambda>s.
     bind_result (paxosStart s) (\<lambda>s.
     bind_result (clientHandlerStart s) (\<lambda>s.
     bind_result (startFdAndLd s) (\<lambda>s. Ok (runLoop s)))))))))"

definition StartReconfig :: "bool \<Rightarrow> bool \<Rightarrow> Modules \<Rightarrow> Modules result" where
  "StartReconfig firstSlot joined s =
     bind_result (grpmgrStart s) (\<lambda>s.
     bind_result (networkStart s) (\<lambda>s.
     bind_result (ringReplacerStart s) (\<lambda>s.
     bind_result (failureHandlingStart s) (\<lambda>s.
     bind_result (awaitM ReconfigM firstSlot s) (\<lambda>s.
     bind_result (initPaxos s) (\<lambda>s.
     bind_result (paxosStart s) (\<lambda>s.
     bind_result (awaitM ReconfigM joined s) (\<lambda>s.
     bind_result (startModule HbEmitter s) (\<lambda>s.
     bind_result (clientHandlerStart s) (\<lambda>s.
     bind_result (startFdAndLd s) (\<lambda>s. Ok (runLoop s))))))))))))"

definition StartAReconfig :: "bool \<Rightarrow> Modules \<Rightarrow> Modules result" where
  "StartAReconfig valid s =
     bind_result (grpmgrStart s) (\<lambda>s.
     bind_result (networkStart s) (\<lambda>s.
     bind_result (startModule HbEmitter s) (\<lambda>s.
     bind_result (failureHandlingStart s) (\<lambda>s.
     bind_result (awaitM AReconfM valid s) (\<lambda>s.
     bind_result (paxosStart s) (\<lambda>s.
     bind_result (clientHandlerStart s) (\<lambda>s.
     bind_result (startFdAndLd s) (\<lambda>s. Ok (runLoop s)))))))))"

section \<open>Stopping them\<close>

text \<open>
  \<open>Stop\<close> of a module that runs takes it off the wait group. Of one that does not run it does nothing where
  the package tests for that; elsewhere it waits for a receiver that is not there.
\<close>

definition stopIgnored :: "Modules \<Rightarrow> modul \<Rightarrow> bool" where
  "stopIgnored s m =
     (let p = protocolOf (mod_config s) in
      p \<in> {''multipaxos'', ''parallelpaxos''} \<and> m \<in> {Prop, Acc, Lrn} \<or>
      broadcastOnly (mod_config s) \<and> (m = Prop \<or> m = ClientHandler))"

fun stopModules :: "modul list \<Rightarrow> Modules \<Rightarrow> Modules result" where
  "stopModules [] s = Ok s"
| "stopModules (m # ms) s =
     bind_result (need m s) (\<lambda>s.
       if m \<in> set (going s)
       then stopModules ms (s\<lparr>wg := wg s - holds s m, going := remove1 m (going s)\<rparr>)
       else if stopIgnored s m then stopModules ms s else Ok s)"

definition stopOrder :: "Config \<Rightarrow> modul list" where
  "stopOrder conf =
     [GrpManager, Demux, Snd, Prop, Acc, Lrn] @
     (if broadcastOnly conf then [] else [HbEmitter, Detector, LeaderDetector]) @
     [ClientHandler] @ handlerOf conf"

definition server_stop :: "Modules \<Rightarrow> Modules result" where
  "server_stop s = stopModules (stopOrder (mod_config s)) s"

datatype lifecycle_error =
    ErrShutdownTimeout | ErrNodeNotInitialized | ErrCanNotStartAlreadyRunningNode
  | ErrCanNotStopNonRunningNode | ErrMethodUnavailable

text \<open>
  The signal is taken by the loop of the server, if there is one; then the wait for the modules is given
  up after half a second if the wait group has not come down to zero.
\<close>

definition server_Stop :: "Modules \<Rightarrow> (Modules \<times> lifecycle_error option) result" where
  "server_Stop s =
     (if \<not> looping s then Fault Diverges
      else bind_result (server_stop (s\<lparr>looping := False\<rparr>)) (\<lambda>s.
        Ok (s, if wg s = 0 then None else Some ErrShutdownTimeout)))"

section \<open>The replica\<close>

record Replica =
  started :: bool
  initialized :: bool
  server :: "Modules option"

definition NewReplica :: Replica where
  "NewReplica = \<lparr>started = False, initialized = False, server = None\<rparr>"

definition replica_Init :: "Modules result \<Rightarrow> Replica \<Rightarrow> Replica result" where
  "replica_Init newServer r =
     bind_result newServer (\<lambda>s. Ok (r\<lparr>server := Some s, initialized := True\<rparr>))"

definition replica_Start :: "Replica \<Rightarrow> (Replica \<times> lifecycle_error option) result" where
  "replica_Start r =
     (if \<not> initialized r then Ok (r, Some ErrNodeNotInitialized)
      else if started r then Ok (r, Some ErrCanNotStartAlreadyRunningNode)
      else case server r of
        None \<Rightarrow> Fault NilDereference
      | Some s \<Rightarrow> bind_result (InitModules s) (\<lambda>s. bind_result (server_Start s) (\<lambda>s.
          Ok (r\<lparr>server := Some s, started := True\<rparr>, None))))"

definition replica_Stop :: "Replica \<Rightarrow> (Replica \<times> lifecycle_error option) result" where
  "replica_Stop r =
     (if \<not> started r then Ok (r, Some ErrCanNotStopNonRunningNode)
      else case server r of
        None \<Rightarrow> Fault NilDereference
      | Some s \<Rightarrow> bind_result (server_Stop s) (\<lambda>(s, e). Ok (r\<lparr>server := Some s, started := False\<rparr>, e)))"

text \<open>
  A standby replica (\<open>goxos_standby.go\<close>) cannot be initialised or started; \<open>Standby\<close> builds the server from
  what the listener received, and starts it as its failure handling asks.
\<close>

definition standby_Init :: "Replica \<Rightarrow> Replica \<times> lifecycle_error option" where
  "standby_Init r = (r, Some ErrMethodUnavailable)"

definition standby_Start :: "Replica \<Rightarrow> Replica \<times> lifecycle_error option" where
  "standby_Start r = (r, Some ErrMethodUnavailable)"

datatype standby_error = NoInitData | StateRejected | NoFailureHandling string

definition startStandby :: "bool \<Rightarrow> bool \<Rightarrow> Modules \<Rightarrow> Modules result" where
  "startStandby first second s =
     (let fh = fhLower (mod_config s) in
      if fh = ''livereplacement'' then StartReplacer first s
      else if fh = ''reconfiguration'' then StartReconfig first second s
      else StartAReconfig first s)"

definition Standby :: "TransferRequest option \<Rightarrow> bool \<Rightarrow> bool \<Rightarrow> bool \<Rightarrow> provider option \<Rightarrow> Replica \<Rightarrow>
    (Replica \<times> standby_error option) result" where
  "Standby initData stateSet first second p r =
     (case initData of
        None \<Rightarrow> Ok (r, Some NoInitData)
      | Some d \<Rightarrow>
          if \<not> stateSet then Ok (r, Some StateRejected)
          else bind_result (GenerateNodeMapAndConfig (trq_Config d)) (\<lambda>c.
            case c of
              Inl _ \<Rightarrow> Fault (Panic ''GenerateNodeMapAndConfig'')
            | Inr (nm, conf) \<Rightarrow>
                (let s = newModules (trq_ID d) conf nm p; fh = fhLower conf in
                 if fh \<notin> {''livereplacement'', ''reconfiguration'', ''areconfiguration''}
                 then Ok (r\<lparr>server := Some s\<rparr>, Some (NoFailureHandling fh))
                 else bind_result (if fh = ''reconfiguration'' then InitModulesReconfig s else InitModules s) (\<lambda>s.
                   bind_result (startStandby first second s) (\<lambda>s.
                     Ok (\<lparr>started = True, initialized = True, server = Some s\<rparr>, None))))))"

end
