(* ===== verification/LifecycleRuns.thy ===== *)
theory LifecycleRuns
  imports Lifecycle
begin

text \<open>
  No server can be stopped cleanly, and one of a broadcast protocol does not start.
\<close>

section \<open>Starting modules\<close>

definition heldBy :: "Modules \<Rightarrow> modul list \<Rightarrow> int" where
  "heldBy s ms = sum_list (map (holds s) ms)"

lemma holds_updates [simp]:
  "holds (s\<lparr>wg := w\<rparr>) = holds s" "holds (s\<lparr>going := g\<rparr>) = holds s" "holds (s\<lparr>looping := b\<rparr>) = holds s"
  by (simp_all add: holds_def fun_eq_iff)

lemma heldBy_updates [simp]:
  "heldBy (s\<lparr>wg := w\<rparr>) = heldBy s" "heldBy (s\<lparr>going := g\<rparr>) = heldBy s" "heldBy (s\<lparr>looping := b\<rparr>) = heldBy s"
  by (simp_all add: heldBy_def fun_eq_iff)

lemma heldBy_append [simp]: "heldBy s (ms @ ms') = heldBy s ms + heldBy s ms'"
  by (simp add: heldBy_def)

lemma heldBy_Cons [simp]: "heldBy s (m # ms) = holds s m + heldBy s ms" "heldBy s [] = 0"
  by (simp_all add: heldBy_def)

text \<open>
  What every start leaves alone, what it adds to, and that the wait group counts at least what the running
  modules take off it again.
\<close>

definition grown :: "Modules \<Rightarrow> Modules \<Rightarrow> bool" where
  "grown s s' \<longleftrightarrow>
     mod_config s' = mod_config s \<and> set (made s) \<subseteq> set (made s') \<and> set (going s) \<subseteq> set (going s') \<and>
     wg s - heldBy s (going s) \<le> wg s' - heldBy s' (going s')"

lemma grown_refl [simp]: "grown s s"
  by (simp add: grown_def)

lemma grown_trans: "grown s s' \<Longrightarrow> grown s' s'' \<Longrightarrow> grown s s''"
  by (auto simp: grown_def)

lemma need_Ok [simp]: "need m s = Ok s' \<longleftrightarrow> s' = s \<and> m \<in> set (made s)"
  by (auto simp: need_def)

lemma need_made [simp]: "m \<in> set (made s) \<Longrightarrow> need m s = Ok s"
  by (simp add: need_def)

lemma startModule_cases:
  assumes "startModule m s = Ok s'"
  shows "grown s s'" and "made s' = made s" and "runs s m \<Longrightarrow> m \<in> set (going s')"
proof -
  have "s' = s\<lparr>wg := wg s + holds s m, going := going s @ [m]\<rparr> \<and> runs s m \<or>
      (s' = s \<or> s' = s\<lparr>wg := wg s + 1\<rparr>) \<and> \<not> runs s m"
    using assms by (auto simp: startModule_def bind_result_Inr_iff split: if_splits)
  then show "grown s s'" and "made s' = made s" and "runs s m \<Longrightarrow> m \<in> set (going s')"
    by (auto simp: grown_def)
qed

lemma startModules_grown: "startModules ms s = Ok s' \<Longrightarrow> grown s s' \<and> made s' = made s"
proof (induction ms arbitrary: s)
  case (Cons m ms)
  then show ?case using grown_trans startModule_cases(1,2)
    by (fastforce simp: bind_result_Inr_iff)
qed simp

section \<open>Stopping\<close>

lemma withProvider_config: "withProvider pid s = Ok s' \<Longrightarrow> mod_config s' = mod_config s \<and> wg s' = wg s \<and> going s' = going s"
  by (auto simp: withProvider_def bind_result_Inr_iff)

text \<open>What the making of the modules leaves alone.\<close>

definition quiet :: "Modules \<Rightarrow> Modules \<Rightarrow> bool" where
  "quiet s s' \<longleftrightarrow> mod_config s' = mod_config s \<and> wg s' = wg s \<and> going s' = going s"

lemma quiet_simps [simp]: "quiet s s" "quiet s (makeM ms s') \<longleftrightarrow> quiet s s'" "quiet s (setRoles node s') \<longleftrightarrow> quiet s s'"
  by (simp_all add: quiet_def makeM_def setRoles_def)

lemma quiet_trans: "quiet s s' \<Longrightarrow> quiet s' s'' \<Longrightarrow> quiet s s''"
  by (simp add: quiet_def)

lemma initPaxos_quiet: "initPaxos s = Ok s' \<Longrightarrow> quiet s s'"
  by (auto simp: initPaxos_def createMultiPaxos_def createParallelPaxos_def createBatchPaxos_def Let_def
      bind_result_Inr_iff split: option.splits if_splits)

lemma initPaxos_sizes:
  assumes "initPaxos s = Ok s'" and "protocolOf (mod_config s) = ''parallelpaxos''"
  shows "0 \<le> parallelProposers (mod_config s)" and "0 \<le> parallelLearners (mod_config s)"
  using assms
  by (auto simp: initPaxos_def createParallelPaxos_def setRoles_def Let_def bind_result_Inr_iff
      split: option.splits if_splits)

lemma initRingReplacer_quiet: "initRingReplacer s = Ok s' \<Longrightarrow> quiet s s'"
  using withProvider_config by (auto simp: initRingReplacer_def bind_result_Inr_iff quiet_def makeM_def)

lemma initFailureHandling_quiet: "initFailureHandling s = Ok s' \<Longrightarrow> quiet s s'"
  using withProvider_config
  by (auto simp: initFailureHandling_def Let_def bind_result_Inr_iff quiet_def makeM_def split: if_splits)

lemma initClientHandler_quiet: "initClientHandler s = Ok s' \<Longrightarrow> quiet s s'"
  by (auto simp: initClientHandler_def bind_result_Inr_iff split: option.splits if_splits)

lemma initLiveness_quiet: "initLiveness s = Ok s' \<Longrightarrow> quiet s s'"
  by (auto simp: initLiveness_def split: if_splits)

lemma InitModules_quiet:
  assumes "InitModules s = Ok s'"
  shows "quiet s s' \<and> (protocolOf (mod_config s) = ''parallelpaxos'' \<longrightarrow>
    0 \<le> parallelProposers (mod_config s) \<and> 0 \<le> parallelLearners (mod_config s))"
proof -
  obtain a b c d where steps: "initLiveness (initNetwork (initGroupManager s)) = Ok a" "initPaxos a = Ok b"
      "initRingReplacer b = Ok c" "initFailureHandling c = Ok d" "initClientHandler d = Ok s'"
    using assms by (auto simp: InitModules_def bind_result_Inr_iff)
  have "quiet s (initNetwork (initGroupManager s))"
    by (simp add: initNetwork_def initGroupManager_def quiet_def makeM_def)
  then have a: "quiet s a" using initLiveness_quiet [OF steps(1)] quiet_trans by blast
  then have "quiet s s'"
    using initPaxos_quiet [OF steps(2)] initRingReplacer_quiet [OF steps(3)] initFailureHandling_quiet [OF steps(4)]
      initClientHandler_quiet [OF steps(5)] quiet_trans by blast
  moreover have "mod_config a = mod_config s" using a by (simp only: quiet_def)
  ultimately show ?thesis using initPaxos_sizes [OF steps(2)] by simp
qed

lemma holds_nonneg:
  assumes "protocolOf (mod_config s) = ''parallelpaxos'' \<longrightarrow>
    0 \<le> parallelProposers (mod_config s) \<and> 0 \<le> parallelLearners (mod_config s)"
  shows "0 \<le> holds s m"
  using assms by (simp add: holds_def Let_def)

lemma server_Start_grown:
  assumes "server_Start s = Ok s'"
  shows "grown s s' \<and> looping s' \<and> Detector \<in> set (made s) \<and> RingReplacerM \<in> set (going s')"
proof -
  obtain a b c d e f g where st: "grpmgrStart s = Ok a" "networkStart a = Ok b" "paxosStart b = Ok c"
      "clientHandlerStart c = Ok d" "ringReplacerStart d = Ok e" "failureHandlingStart e = Ok f" "livenessStart f = Ok g"
      "s' = runLoop g"
    using assms by (auto simp: server_Start_def bind_result_Inr_iff)
  have d: "grown s d" "made d = made s"
    using st(1-4) startModule_cases(1,2) startModules_grown grown_trans
    unfolding grpmgrStart_def networkStart_def paxosStart_def clientHandlerStart_def by metis+
  have e: "Detector \<in> set (made d)" "startModule RingReplacerM d = Ok e"
    using st(5) by (auto simp: ringReplacerStart_def bind_result_Inr_iff)
  have "runs d RingReplacerM" by (simp add: runs_def Let_def)
  then have ring: "RingReplacerM \<in> set (going e)" using startModule_cases(3) [OF e(2)] by blast
  have f: "grown e f" using st(6) startModules_grown by (simp add: failureHandlingStart_def)
  have "grown f g"
  proof (cases "broadcastOnly (mod_config f)")
    case False
    then obtain h where "startModule HbEmitter f = Ok h" "startModules [Detector, LeaderDetector] h = Ok g"
      using st(7) by (auto simp only: livenessStart_def startFdAndLd_def bind_result_Inr_iff if_False)
    then show ?thesis using startModule_cases(1) startModules_grown grown_trans by blast
  qed (use st(7) in \<open>simp add: livenessStart_def\<close>)
  with f have "grown e g" by (rule grown_trans)
  then have g: "grown s g" "RingReplacerM \<in> set (going g)"
    using grown_trans [OF grown_trans [OF d(1) startModule_cases(1) [OF e(2)]]] ring by (simp, auto simp: grown_def)
  have "grown g (runLoop g)" by (simp add: grown_def runLoop_def)
  then show ?thesis using g grown_trans d(2) e(1) st(8) by (auto simp: runLoop_def)
qed

lemma heldBy_remove1: "m \<in> set ms \<Longrightarrow> heldBy s (remove1 m ms) = heldBy s ms - holds s m"
  by (induction ms) auto

lemma stopModules_keeps:
  assumes "stopModules ms s = Ok s'"
  shows "mod_config s' = mod_config s \<and> wg s' - heldBy s (going s') = wg s - heldBy s (going s) \<and>
    (m \<notin> set ms \<longrightarrow> m \<in> set (going s) \<longrightarrow> m \<in> set (going s'))"
  using assms
proof (induction ms arbitrary: s)
  case (Cons x ms)
  then have ok: "stopModules (x # ms) s = Ok s'" by simp
  show ?case
  proof (cases "x \<in> set (going s)")
    case True
    let ?t = "s\<lparr>wg := wg s - holds s x, going := remove1 x (going s)\<rparr>"
    have "stopModules ms ?t = Ok s'"
      using ok True by (simp add: bind_result_Inr_iff)
    from Cons.IH [OF this] show ?thesis
      using heldBy_remove1 [OF True, of s] by auto
  next
    case False
    then have "stopModules ms s = Ok s' \<or> s' = s"
      using ok by (auto simp: bind_result_Inr_iff split: if_splits)
    then show ?thesis using Cons.IH [of s] by auto
  qed
qed simp

lemma heldBy_member: "m \<in> set ms \<Longrightarrow> (\<And>m. 0 \<le> holds s m) \<Longrightarrow> holds s m \<le> heldBy s ms"
  unfolding heldBy_def by (intro member_le_sum_list) auto

text \<open>
  No start of a server that \<open>Init\<close> made is undone by \<open>Stop\<close> in time: the ring replacer that \<open>Start\<close> starts is not
  among the modules that \<open>Stop\<close> stops, and keeps its number of the wait group. So \<open>Stop\<close> reports a time-out
  whenever it returns, for every configuration.
\<close>

theorem server_stop_times_out:
  assumes "InitModules (newModules i conf nm p) = Ok s" and "server_Start s = Ok s1"
    and "server_Stop s1 = Ok (s2, e)"
  shows "e = Some ErrShutdownTimeout"
proof -
  let ?s0 = "newModules i conf nm p"
  note init = InitModules_quiet [OF assms(1)]
  then have s: "mod_config s = conf" "wg s = 0" "going s = []" by (simp_all add: quiet_def newModules_def)
  note start = server_Start_grown [OF assms(2)]
  then have s1: "mod_config s1 = conf" "heldBy s1 (going s1) \<le> wg s1" "RingReplacerM \<in> set (going s1)"
    using s by (auto simp: grown_def)
  let ?s = "s1\<lparr>looping := False\<rparr>"
  have stop: "stopModules (stopOrder conf) ?s = Ok s2" and e: "e = (if wg s2 = 0 then None else Some ErrShutdownTimeout)"
    using assms(3) start s1(1) by (auto simp: server_Stop_def server_stop_def bind_result_Inr_iff)
  have "RingReplacerM \<notin> set (stopOrder conf)" by (simp add: stopOrder_def handlerOf_def Let_def)
  then have s2: "heldBy s1 (going s2) \<le> wg s2" "RingReplacerM \<in> set (going s2)"
    using stopModules_keeps [OF stop, of RingReplacerM] s1 by auto
  have "0 \<le> holds s1 m" for m
    using init s1(1) by (intro holds_nonneg) (auto simp: newModules_def)
  then have "holds s1 RingReplacerM \<le> heldBy s1 (going s2)" using s2(2) heldBy_member by blast
  moreover have "holds s1 RingReplacerM = 1" by (simp add: holds_def Let_def)
  ultimately show ?thesis using s2(1) e by simp
qed

text \<open>
  A server of one of the broadcast protocols never starts: its ring replacer subscribes to a failure
  detector that was not made.
\<close>

lemma made_makeM [simp]: "made (makeM ms s) = made s @ ms" "made (setRoles node s) = made s"
  by (simp_all add: makeM_def setRoles_def)

lemma mod_config_makeM [simp]: "mod_config (makeM ms s) = mod_config s"
  by (simp add: makeM_def)

lemma withProvider_made: "withProvider pid s = Ok s' \<Longrightarrow> made s' = made s"
  by (auto simp: withProvider_def bind_result_Inr_iff)

lemma no_detector:
  "initPaxos s = Ok s' \<Longrightarrow> Detector \<in> set (made s') \<longleftrightarrow> Detector \<in> set (made s)"
  "initRingReplacer s = Ok s' \<Longrightarrow> Detector \<in> set (made s') \<longleftrightarrow> Detector \<in> set (made s)"
  "initFailureHandling s = Ok s' \<Longrightarrow> Detector \<in> set (made s') \<longleftrightarrow> Detector \<in> set (made s)"
  "initClientHandler s = Ok s' \<Longrightarrow> Detector \<in> set (made s') \<longleftrightarrow> Detector \<in> set (made s)"
  by (auto simp: initPaxos_def createMultiPaxos_def createParallelPaxos_def createBatchPaxos_def initRingReplacer_def
      initFailureHandling_def initClientHandler_def Let_def bind_result_Inr_iff dest!: withProvider_made
      split: option.splits if_splits)

theorem broadcast_never_starts:
  assumes "broadcastOnly conf" and "InitModules (newModules i conf nm p) = Ok s"
  shows "server_Start s \<noteq> Ok s1"
proof
  assume "server_Start s = Ok s1"
  then have det: "Detector \<in> set (made s)" using server_Start_grown by blast
  let ?s = "initNetwork (initGroupManager (newModules i conf nm p))"
  have start: "mod_config ?s = conf" "Detector \<notin> set (made ?s)"
    by (simp_all add: initNetwork_def initGroupManager_def newModules_def)
  obtain a b c d where steps: "initLiveness ?s = Ok a" "initPaxos a = Ok b" "initRingReplacer b = Ok c"
      "initFailureHandling c = Ok d" "initClientHandler d = Ok s"
    using assms(2) by (auto simp: InitModules_def bind_result_Inr_iff)
  have "a = ?s" using steps(1) assms(1) start(1) by (simp add: initLiveness_def)
  then show False using no_detector steps(2-5) det start(2) by blast
qed

end
